(* ===== verification/Prelude.thy ===== *)
theory Prelude
  imports Main "HOL-Library.Word" "HOL-Library.Monad_Syntax"
begin

unbundle bit_operations_syntax

text \<open>
  The vocabulary every component shares.

  \<^item> \<^bold>\<open>Memory.\<close> A block obtained from \<open>malloc\<close> or a local array is a list of bytes; a pointer
    into it is an offset. Reading or writing outside the block is undefined behaviour in C and
    is the value \<^term>\<open>None\<close> here, so a theorem \<open>f b p = Some r\<close> states memory safety as well
    as the result.
  \<^item> \<^bold>\<open>Strings.\<close> A NUL terminated string that the code only reads is the list of its bytes
    before the terminator.
  \<^item> \<^bold>\<open>Decimal.\<close> \<open>decimal n\<close> is the reference for every routine that prints a number.

  The collections \<open>mem_simps\<close>, \<open>digit_simps\<close> and \<open>len_simps\<close> hold the rewrite rules the
  component proofs use.
\<close>

named_theorems mem_simps \<open>reads and writes of byte blocks\<close>
named_theorems digit_simps \<open>characters of decimal digits\<close>
named_theorems len_simps \<open>lengths of printed data\<close>

type_synonym bytes = "char list"
type_synonym uintmax = "64 word"
type_synonym u32 = "32 word"
type_synonym u64 = "64 word"
type_synonym u8 = "8 word"

abbreviation NUL :: char where
  "NUL \<equiv> CHR 0x00"

section \<open>Byte blocks\<close>

definition load :: "bytes \<Rightarrow> nat \<Rightarrow> char option" where
  "load b p = (if p < length b then Some (b ! p) else None)"

definition store :: "bytes \<Rightarrow> nat \<Rightarrow> char \<Rightarrow> bytes option" where
  "store b p c = (if p < length b then Some (b[p := c]) else None)"

definition store_string :: "bytes \<Rightarrow> nat \<Rightarrow> string \<Rightarrow> bytes option" where
  "store_string b p s =
     (if p + length s \<le> length b then Some (take p b @ s @ drop (p + length s) b) else None)"

text \<open>Stepping a pointer back; a pointer before its block is undefined behaviour.\<close>

definition step_back :: "nat \<Rightarrow> nat \<Rightarrow> nat option" where
  "step_back p k = (if k \<le> p then Some (p - k) else None)"

text \<open>
  \<open>SET_STRING_WIDTH(PTR, STRING, WIDTH)\<close> of \<open>string_utils.h\<close> copies the first \<open>WIDTH\<close> bytes of
  a literal (whose last byte is its terminator) in one assignment.
\<close>

definition SET_STRING_WIDTH :: "bytes \<Rightarrow> nat \<Rightarrow> string \<Rightarrow> nat \<Rightarrow> bytes option" where
  "SET_STRING_WIDTH b p s w =
     (if w \<le> length s + 1 then store_string b p (take w (s @ [NUL])) else None)"

text \<open>A \<open>switch\<close> on a byte whose cases are constants; \<open>d\<close> is the \<open>default\<close> branch.\<close>

definition switch :: "'k \<Rightarrow> ('k \<times> 'v) list \<Rightarrow> 'v \<Rightarrow> 'v" where
  "switch k cs d = (case map_of cs k of Some v \<Rightarrow> v | None \<Rightarrow> d)"

lemma switch_hit [simp]: "map_of cs k = Some v \<Longrightarrow> switch k cs d = v"
  by (simp add: switch_def)

lemma switch_miss [simp]: "map_of cs k = None \<Longrightarrow> switch k cs d = d"
  by (simp add: switch_def)

lemma load_Some [mem_simps]: "p < length b \<Longrightarrow> load b p = Some (b ! p)"
  by (simp add: load_def)

lemma load_append [mem_simps]: "load (xs @ c # ys) (length xs) = Some c"
  by (simp add: load_def nth_append)

lemma step_back_Some [mem_simps]: "k \<le> p \<Longrightarrow> step_back p k = Some (p - k)"
  by (simp add: step_back_def)

lemma step_back_add [simp]: "step_back (p + k) k = Some p"
  by (simp add: step_back_def)

lemma step_back_Suc [simp]: "step_back (Suc p) 1 = Some p" "step_back (Suc p) (Suc 0) = Some p"
  by (simp_all add: step_back_def)

lemma store_append [mem_simps]: "store (xs @ c # ys) (length xs) d = Some (xs @ d # ys)"
  by (simp add: store_def list_update_append)

lemma store_string_append [mem_simps]:
  "length s = length old \<Longrightarrow> store_string (xs @ old @ ys) (length xs) s = Some (xs @ s @ ys)"
  by (simp add: store_string_def)

lemma store_string_Some:
  "store_string b p s = Some b' \<longleftrightarrow>
     p + length s \<le> length b \<and> b' = take p b @ s @ drop (p + length s) b"
  by (auto simp: store_string_def)

lemma store_string_length [len_simps]: "store_string b p s = Some b' \<Longrightarrow> length b' = length b"
  by (auto simp: store_string_def split: if_splits)

lemma SET_STRING_WIDTH_store:
  "w = length s \<Longrightarrow> SET_STRING_WIDTH b p s w = store_string b p s"
  by (simp add: SET_STRING_WIDTH_def)

lemma SET_STRING_WIDTH_nul:
  "w = length s + 1 \<Longrightarrow> SET_STRING_WIDTH b p s w = store_string b p (s @ [NUL])"
  by (simp add: SET_STRING_WIDTH_def)

lemma SET_STRING_WIDTH_length [len_simps]:
  "SET_STRING_WIDTH b p s w = Some b' \<Longrightarrow> length b' = length b"
  by (auto simp: SET_STRING_WIDTH_def dest: store_string_length split: if_splits)

text \<open>
  The pattern of every digit routine: \<open>switch (*ptr)\<close> whose cases overwrite \<open>w\<close> bytes at \<open>ptr\<close> with
  a literal and return, and whose \<open>default\<close> goes on.
\<close>

definition switch_set ::
  "bytes \<Rightarrow> nat \<Rightarrow> nat \<Rightarrow> (char \<times> string) list \<Rightarrow> bytes option \<Rightarrow> bytes option" where
  "switch_set b p w tbl dflt =
     (case load b p of
        None \<Rightarrow> None
      | Some c \<Rightarrow>
          (case map_of tbl c of Some s \<Rightarrow> SET_STRING_WIDTH b p s w | None \<Rightarrow> dflt))"

lemma switch_set_hit:
  assumes "load b p = Some c" "map_of tbl c = Some s" "w = length s"
  shows "switch_set b p w tbl dflt = store_string b p s"
  using assms by (simp add: switch_set_def SET_STRING_WIDTH_store)

lemma switch_set_miss:
  assumes "load b p = Some c" "map_of tbl c = None"
  shows "switch_set b p w tbl dflt = dflt"
  using assms by (simp add: switch_set_def)

text \<open>Cutting a block at a given length.\<close>

lemma split_length:
  assumes "length old = m + n"
  obtains o1 o2 where "old = o1 @ o2" "length o1 = m" "length o2 = n"
  using assms that [of "take m old" "drop m old"] by simp

section \<open>Digits and decimal numbers\<close>

text \<open>
  \<open>DIGIT_TO_ASCII\<close> and \<open>ASCII_TO_DIGIT\<close> of \<open>ascii_utils.h\<close>: setting the bits of \<open>'0'\<close>,
  keeping the low nibble.
\<close>

definition DIGIT_TO_ASCII :: "nat \<Rightarrow> char" where
  "DIGIT_TO_ASCII d = char_of (or d 48)"

definition ASCII_TO_DIGIT :: "char \<Rightarrow> nat" where
  "ASCII_TO_DIGIT c = of_char c AND 15"

definition is_digit :: "char \<Rightarrow> bool" where
  "is_digit c \<longleftrightarrow> 48 \<le> (of_char c :: nat) \<and> (of_char c :: nat) \<le> 57"

lemma digit_cases [consumes 1]:
  assumes "(d::nat) < 10"
  obtains "d = 0" | "d = 1" | "d = 2" | "d = 3" | "d = 4" | "d = 5" | "d = 6" | "d = 7"
    | "d = 8" | "d = 9"
proof -
  have "d = 0 \<or> d = 1 \<or> d = 2 \<or> d = 3 \<or> d = 4 \<or> d = 5 \<or> d = 6 \<or> d = 7 \<or> d = 8 \<or> d = 9"
    using assms by arith
  then show thesis using that by blast
qed

lemma DIGIT_TO_ASCII_numerals [digit_simps]:
  "DIGIT_TO_ASCII 0 = CHR ''0''" "DIGIT_TO_ASCII 1 = CHR ''1''" "DIGIT_TO_ASCII 2 = CHR ''2''"
  "DIGIT_TO_ASCII 3 = CHR ''3''" "DIGIT_TO_ASCII 4 = CHR ''4''" "DIGIT_TO_ASCII 5 = CHR ''5''"
  "DIGIT_TO_ASCII 6 = CHR ''6''" "DIGIT_TO_ASCII 7 = CHR ''7''" "DIGIT_TO_ASCII 8 = CHR ''8''"
  "DIGIT_TO_ASCII 9 = CHR ''9''" "DIGIT_TO_ASCII (Suc 0) = CHR ''1''"
  "DIGIT_TO_ASCII (Suc (Suc 0)) = CHR ''2''"
  by code_simp+

lemma of_char_DIGIT_TO_ASCII [digit_simps]:
  "d < 10 \<Longrightarrow> of_char (DIGIT_TO_ASCII d) = d + 48"
  by (erule digit_cases) (simp_all add: digit_simps)

lemma ASCII_TO_DIGIT_numerals [digit_simps]:
  "ASCII_TO_DIGIT (CHR ''0'') = 0" "ASCII_TO_DIGIT (CHR ''1'') = 1"
  "ASCII_TO_DIGIT (CHR ''2'') = 2" "ASCII_TO_DIGIT (CHR ''3'') = 3"
  "ASCII_TO_DIGIT (CHR ''4'') = 4" "ASCII_TO_DIGIT (CHR ''5'') = 5"
  "ASCII_TO_DIGIT (CHR ''6'') = 6" "ASCII_TO_DIGIT (CHR ''7'') = 7"
  "ASCII_TO_DIGIT (CHR ''8'') = 8" "ASCII_TO_DIGIT (CHR ''9'') = 9"
  by code_simp+

lemma ASCII_TO_DIGIT_inverse [digit_simps]: "d < 10 \<Longrightarrow> ASCII_TO_DIGIT (DIGIT_TO_ASCII d) = d"
  by (erule digit_cases) (simp_all add: digit_simps)

lemma is_digit_DIGIT [digit_simps]: "d < 10 \<Longrightarrow> is_digit (DIGIT_TO_ASCII d)"
  by (simp add: is_digit_def digit_simps)

lemma is_digit_obtain:
  assumes "is_digit c"
  obtains d where "d < 10" "c = DIGIT_TO_ASCII d"
proof -
  define d where "d = (of_char c :: nat) - 48"
  with assms have d: "d < 10" "d + 48 = of_char c"
    by (auto simp: is_digit_def)
  then have "of_char c = (of_char (DIGIT_TO_ASCII d) :: nat)"
    by (simp add: digit_simps)
  then have "c = DIGIT_TO_ASCII d" by (simp only: of_char_eq_iff)
  with d(1) that show thesis by blast
qed

lemma DIGIT_TO_ASCII_NUL [digit_simps]: "d < 10 \<Longrightarrow> DIGIT_TO_ASCII d \<noteq> NUL"
  by (erule digit_cases) (simp_all add: digit_simps)

lemma ASCII_TO_DIGIT_less: "is_digit c \<Longrightarrow> ASCII_TO_DIGIT c < 10"
  by (erule is_digit_obtain) (simp add: digit_simps)

text \<open>The decimal representation without leading zeros, and the value of a digit string.\<close>

fun decimal :: "nat \<Rightarrow> string" where
  "decimal n =
     (if n < 10 then [DIGIT_TO_ASCII n] else decimal (n div 10) @ [DIGIT_TO_ASCII (n mod 10)])"

declare decimal.simps [simp del]

definition dec_value :: "string \<Rightarrow> nat" where
  "dec_value s = foldl (\<lambda>a c. 10 * a + ASCII_TO_DIGIT c) 0 s"

lemma decimal_small: "n < 10 \<Longrightarrow> decimal n = [DIGIT_TO_ASCII n]"
  by (simp add: decimal.simps)

lemma decimal_step: "10 \<le> n \<Longrightarrow> decimal n = decimal (n div 10) @ [DIGIT_TO_ASCII (n mod 10)]"
  by (subst decimal.simps) simp

lemma decimal_Cons_digit:
  "n \<noteq> 0 \<Longrightarrow> d < 10 \<Longrightarrow> decimal (10 * n + d) = decimal n @ [DIGIT_TO_ASCII d]"
  by (subst decimal_step) auto

lemma decimal_digits: "c \<in> set (decimal n) \<Longrightarrow> is_digit c"
proof (induction n rule: decimal.induct)
  case (1 n)
  then show ?case
    by (cases "n < 10") (auto simp: decimal_small decimal_step digit_simps)
qed

lemma decimal_NUL [simp]: "NUL \<notin> set (decimal n)"
  using decimal_digits [of NUL n] by (auto simp: is_digit_def)

lemma decimal_nonempty [simp]: "decimal n \<noteq> []"
  by (subst decimal.simps) simp

lemma dec_value_snoc [simp]: "dec_value (s @ [c]) = 10 * dec_value s + ASCII_TO_DIGIT c"
  by (simp add: dec_value_def)

lemma dec_value_Nil [simp]: "dec_value [] = 0"
  by (simp add: dec_value_def)

lemma dec_value_decimal [simp]: "dec_value (decimal n) = n"
proof (induction n rule: decimal.induct)
  case (1 n)
  show ?case
  proof (cases "n < 10")
    case True
    then have "dec_value (decimal n) = dec_value ([] @ [DIGIT_TO_ASCII n])"
      by (simp add: decimal_small)
    then show ?thesis using True by (simp only: dec_value_snoc dec_value_Nil) (simp add: digit_simps)
  next
    case False
    with 1 show ?thesis by (simp add: decimal_step digit_simps)
  qed
qed

lemma decimal_inject [simp]: "decimal m = decimal n \<longleftrightarrow> m = n"
  by (metis dec_value_decimal)

lemma dec_value_append:
  "dec_value (s @ t) = dec_value s * 10 ^ length t + dec_value t"
  by (induction t rule: rev_induct) (auto simp: append_assoc [symmetric] algebra_simps simp del: append_assoc)

lemma dec_value_Cons: "dec_value (c # s) = ASCII_TO_DIGIT c * 10 ^ length s + dec_value s"
  using dec_value_append [of "[c]" s] by (simp add: dec_value_def)

lemma dec_value_bound: "(\<forall>c \<in> set s. is_digit c) \<Longrightarrow> dec_value s < 10 ^ length s"
proof (induction s rule: rev_induct)
  case (snoc c s)
  then have "dec_value s < 10 ^ length s" "ASCII_TO_DIGIT c < 10"
    by (auto intro: ASCII_TO_DIGIT_less)
  then show ?case by simp
qed simp

text \<open>The number of digits of \<open>n\<close> is characterised by the powers of ten around it.\<close>

lemma length_decimal_upper: "n < 10 ^ length (decimal n)"
  using dec_value_bound [of "decimal n"] by (simp add: decimal_digits)

lemma length_decimal_lower: "n \<noteq> 0 \<Longrightarrow> 10 ^ (length (decimal n) - 1) \<le> n"
proof (induction n rule: decimal.induct)
  case (1 n)
  show ?case
  proof (cases "n < 10")
    case True
    with "1.prems" show ?thesis by (simp add: decimal_small)
  next
    case False
    then have "10 ^ (length (decimal (n div 10)) - 1) \<le> n div 10"
      by (intro "1.IH") auto
    then have "10 * 10 ^ (length (decimal (n div 10)) - 1) \<le> n"
      by (simp add: less_eq_div_iff_mult_less_eq mult.commute)
    moreover have "10 * 10 ^ (length (decimal (n div 10)) - 1) = (10::nat) ^ length (decimal (n div 10))"
      by (cases "decimal (n div 10)") simp_all
    ultimately show ?thesis using False by (simp add: decimal_step)
  qed
qed

lemma length_decimal_eqI:
  assumes "10 ^ k \<le> n" "n < 10 ^ Suc k"
  shows "length (decimal n) = Suc k"
proof -
  have "n \<noteq> 0" using assms(1) by (metis not_less_eq_eq power_eq_0_iff zero_neq_numeral le_zero_eq)
  then have "10 ^ (length (decimal n) - 1) < (10::nat) ^ Suc k"
    using length_decimal_lower [of n] assms(2) by linarith
  then have "length (decimal n) - 1 < Suc k"
    by (rule power_less_imp_less_exp [rotated]) simp
  moreover have "(10::nat) ^ k < 10 ^ length (decimal n)"
    using length_decimal_upper [of n] assms(1) by linarith
  then have "k < length (decimal n)" by simp
  ultimately show ?thesis by linarith
qed

text \<open>
  The successor of a number as digit strings: the last digit below nine goes up by one, the nines
  after it become zeros.
\<close>

lemma decimal_Suc_shape:
  assumes "length (decimal (Suc n)) = length (decimal n)"
  obtains xs d k where "d < 9" "decimal n = xs @ DIGIT_TO_ASCII d # replicate k (CHR ''9'')"
    "decimal (Suc n) = xs @ DIGIT_TO_ASCII (Suc d) # replicate k (CHR ''0'')"
  using assms
proof (induction n arbitrary: thesis rule: decimal.induct)
  case (1 n)
  consider "n < 9" | "n = 9" | "10 \<le> n" "n mod 10 < 9" | "10 \<le> n" "n mod 10 = 9"
    by linarith
  then show ?case
  proof cases
    case 1
    then show ?thesis using "1.prems"(1) [of n "[]" 0] by (simp add: decimal_small)
  next
    case 2
    with "1.prems"(2) show ?thesis by (simp add: decimal.simps)
  next
    case 3
    then have "Suc n div 10 = n div 10" "Suc n mod 10 = Suc (n mod 10)"
      by (auto simp: div_Suc mod_Suc)
    with 3 show ?thesis
      using "1.prems"(1) [of "n mod 10" "decimal (n div 10)" 0] by (simp add: decimal_step)
  next
    case 4
    then have s: "Suc n div 10 = Suc (n div 10)" "Suc n mod 10 = 0"
      by (auto simp: div_Suc mod_Suc)
    from 4 "1.prems"(2) have "length (decimal (Suc (n div 10))) = length (decimal (n div 10))"
      by (simp add: decimal_step s)
    then obtain xs d k where "d < 9" "decimal (n div 10) = xs @ DIGIT_TO_ASCII d # replicate k (CHR ''9'')"
      "decimal (Suc (n div 10)) = xs @ DIGIT_TO_ASCII (Suc d) # replicate k (CHR ''0'')"
      using 4 by (metis "1.IH" not_less)
    with 4 s show ?thesis
      using "1.prems"(1) [of d xs "Suc k"]
      by (simp add: decimal_step digit_simps replicate_append_same)
  qed
qed

lemma length_decimal_pos [simp]: "0 < length (decimal n)"
  by simp

section \<open>Routines that append at a pointer\<close>

text \<open>
  Most routines of the program have the shape \<open>ptr = put_x(ptr, ...)\<close>: they write a string at the
  pointer and return the address after it. \<open>writes f s\<close> is that contract: wherever there is room
  for \<open>s\<close>, \<open>f\<close> writes exactly \<open>s\<close>, changes nothing else, and returns the end of \<open>s\<close>.
\<close>

type_synonym put = "bytes \<Rightarrow> nat \<Rightarrow> (bytes \<times> nat) option"

definition writes :: "put \<Rightarrow> string \<Rightarrow> bool" where
  "writes f s \<longleftrightarrow> (\<forall>xs old ys. length old = length s \<longrightarrow>
     f (xs @ old @ ys) (length xs) = Some (xs @ s @ ys, length xs + length s))"

definition PUT_STRING_WIDTH :: "string \<Rightarrow> nat \<Rightarrow> put" where
  "PUT_STRING_WIDTH s w b p = map_option (\<lambda>b'. (b', p + w)) (SET_STRING_WIDTH b p s w)"

definition PUT_CHAR :: "char \<Rightarrow> put" where
  "PUT_CHAR c b p = map_option (\<lambda>b'. (b', p + 1)) (store b p c)"

lemma writesI:
  "(\<And>xs old ys. length old = length s \<Longrightarrow>
      f (xs @ old @ ys) (length xs) = Some (xs @ s @ ys, length xs + length s)) \<Longrightarrow> writes f s"
  by (simp add: writes_def)

lemma writesD:
  "writes f s \<Longrightarrow> length old = length s \<Longrightarrow> p = length xs \<Longrightarrow>
    f (xs @ old @ ys) p = Some (xs @ s @ ys, p + length s)"
  by (simp add: writes_def)

lemma writes_at:
  assumes "writes f s" "p + length s \<le> length b"
  shows "f b p = Some (take p b @ s @ drop (p + length s) b, p + length s)"
proof -
  have "b = take p b @ take (length s) (drop p b) @ drop (p + length s) b"
    by (metis append_take_drop_id add.commute drop_drop)
  then show ?thesis
    using writesD [OF assms(1), of "take (length s) (drop p b)" p "take p b" "drop (p + length s) b"] assms(2)
    by simp
qed

text \<open>Every put routine writes at most one string.\<close>

lemma writes_unique:
  assumes "writes f s" "writes f t" "length s \<le> length t"
  shows "s = t"
  using writes_at [OF assms(1), of 0 "replicate (length t) NUL"]
    writes_at [OF assms(2), of 0 "replicate (length t) NUL"] assms(3) by auto

lemma writes_Nil: "writes (\<lambda>b p. Some (b, p)) []"
  by (simp add: writes_def)

lemma writes_bind:
  assumes "writes f s" "writes g t"
  shows "writes (\<lambda>b p. do { (b', p') \<leftarrow> f b p; g b' p' }) (s @ t)"
proof (rule writesI)
  fix xs old ys :: bytes assume l: "length old = length (s @ t)"
  define o1 o2 where "o1 = take (length s) old" and "o2 = drop (length s) old"
  have o: "old = o1 @ o2" "length o1 = length s" "length o2 = length t"
    using l by (simp_all add: o1_def o2_def)
  have 1: "f (xs @ old @ ys) (length xs) = Some (xs @ s @ o2 @ ys, length xs + length s)"
    using writesD [OF assms(1) o(2) refl, of xs "o2 @ ys"] by (simp add: o(1))
  have 2: "g (xs @ s @ o2 @ ys) (length xs + length s) =
    Some (xs @ s @ t @ ys, length xs + length s + length t)"
    using writesD [OF assms(2) o(3), of "length xs + length s" "xs @ s" ys] by simp
  show "(do { (b', p') \<leftarrow> f (xs @ old @ ys) (length xs); g b' p' }) =
    Some (xs @ (s @ t) @ ys, length xs + length (s @ t))"
    by (simp add: 1 2)
qed

lemma writes_PUT_STRING_WIDTH: "w = length s \<Longrightarrow> writes (PUT_STRING_WIDTH s w) s"
  by (rule writesI) (simp add: PUT_STRING_WIDTH_def SET_STRING_WIDTH_store mem_simps)

lemma writes_PUT_STRING_WIDTH_nul: "w = length s + 1 \<Longrightarrow> writes (PUT_STRING_WIDTH s w) (s @ [NUL])"
  by (rule writesI) (simp add: PUT_STRING_WIDTH_def SET_STRING_WIDTH_nul store_string_append
      [of "s @ [NUL]", simplified])

lemma writes_PUT_CHAR: "writes (PUT_CHAR c) [c]"
  by (rule writesI) (auto simp: PUT_CHAR_def store_append length_Suc_conv)

section \<open>Machine words\<close>

lemma unat_uintmax: "unat (n :: uintmax) < 18446744073709551616"
  by (rule order.strict_trans2 [OF unsigned_less]) simp

lemma unat_of_nat_uintmax: "n < 18446744073709551616 \<Longrightarrow> unat (of_nat n :: uintmax) = n"
  by (simp add: unat_of_nat take_bit_eq_mod)

lemma sint_msb: "sint (n :: uintmax) = uint n - (if sint n < 0 then 18446744073709551616 else 0)"
proof -
  have t: "take_bit 64 (uint n) = uint n" 
    using uint_bounded [of n] by (intro take_bit_int_eq_self) simp_all
  have "sint n = signed_take_bit 63 (uint n)" by (simp add: sint_uint)
  moreover from this have "sint n < 0 \<longleftrightarrow> bit (uint n) 63" by (simp only: signed_take_bit_negative_iff)
  ultimately show ?thesis
    using signed_take_bit_eq_take_bit_minus [of 63 "uint n"] t by simp
qed

lemma nat_sint: "\<not> sint (n :: uintmax) < 0 \<Longrightarrow> nat (sint n) = unat n"
  using sint_msb [of n] by simp

lemma nat_minus_sint: "sint (n :: uintmax) < 0 \<Longrightarrow> nat (- sint n) = unat (- n)"
proof -
  assume a: "sint n < 0"
  then have u: "uint n = sint n + 18446744073709551616" using sint_msb [of n] by simp
  have "n \<noteq> 0" using a by auto
  then have "uint n \<noteq> 0" by (simp only: unsigned_eq_0_iff) simp
  then have "uint (- n) = 18446744073709551616 - uint n"
    using uint_bounded [of n] by (simp add: uint_word_ariths zmod_zminus1_eq_if)
  then show ?thesis using u by (simp add: unat_eq_nat_uint)
qed

end
