(* ===== verification/Counter.thy ===== *)
theory Counter
  imports Prelude
begin

text \<open>
  The shared counter of \<open>src/generate/counter.h\<close>: one block that holds the NUL terminated
  strings \<open>"1"\<close>, \<open>"2"\<close>, ..., \<open>"upto"\<close> one after the other, and a table of pointers to them. The
  column builders read it concurrently, so it is written once (\<open>counter_set_internals\<close>) and never
  changed. The configuration modelled is \<open>LARGE_UPTO_MAX\<close> (\<open>SIZE_MAX >= UINT32_MAX\<close>).

  The main lemma says that for every \<open>1 <= upto <= UPTO_MAX\<close> the block has exactly the size that
  \<open>counter_size_internals\<close> computed, every write stays inside it, and the result is the
  concatenation of the decimal strings with the right pointers.
\<close>

section \<open>Constants and state\<close>

definition UPTO_MAX :: nat where
  "UPTO_MAX = 99999999"

definition SIZE_MAG_0_1_STR :: nat where "SIZE_MAG_0_1_STR = 18"
definition SIZE_MAG_0_2_STR :: nat where "SIZE_MAG_0_2_STR = SIZE_MAG_0_1_STR + 270"
definition SIZE_MAG_0_3_STR :: nat where "SIZE_MAG_0_3_STR = SIZE_MAG_0_2_STR + 3600"
definition SIZE_MAG_0_4_STR :: nat where "SIZE_MAG_0_4_STR = SIZE_MAG_0_3_STR + 45000"
definition SIZE_MAG_0_5_STR :: nat where "SIZE_MAG_0_5_STR = SIZE_MAG_0_4_STR + 540000"
definition SIZE_MAG_0_6_STR :: nat where "SIZE_MAG_0_6_STR = SIZE_MAG_0_5_STR + 6300000"
definition SIZE_MAG_0_7_STR :: nat where "SIZE_MAG_0_7_STR = SIZE_MAG_0_6_STR + 72000000"

lemmas SIZE_MAG_defs =
  SIZE_MAG_0_1_STR_def SIZE_MAG_0_2_STR_def SIZE_MAG_0_3_STR_def SIZE_MAG_0_4_STR_def
  SIZE_MAG_0_5_STR_def SIZE_MAG_0_6_STR_def SIZE_MAG_0_7_STR_def

text \<open>
  \<open>struct Counter\<close> without its lock and condition variable. A pointer into the digits block is an
  offset; \<open>cnt_pointers\<close> is empty while the field is \<open>NULL\<close>.
\<close>

record counter =
  cnt_ready :: bool
  cnt_digits :: bytes
  cnt_pointers :: "nat list"
  cnt_upto :: nat
  cnt_size_digits :: nat
  cnt_mag_upto :: nat

section \<open>Sizes\<close>

definition counter_size_internals :: "counter \<Rightarrow> counter" where
  "counter_size_internals c =
     (let n = cnt_upto c in
      if n < 10000 then
        if n < 100 then
          if n < 10 then c\<lparr>cnt_mag_upto := 0, cnt_size_digits := 2 * n\<rparr>
          else c\<lparr>cnt_mag_upto := 1, cnt_size_digits := SIZE_MAG_0_1_STR + 3 * (n - 9)\<rparr>
        else
          if n < 1000 then c\<lparr>cnt_mag_upto := 2, cnt_size_digits := SIZE_MAG_0_2_STR + 4 * (n - 99)\<rparr>
          else c\<lparr>cnt_mag_upto := 3, cnt_size_digits := SIZE_MAG_0_3_STR + 5 * (n - 999)\<rparr>
      else
        if n < 1000000 then
          if n < 100000 then c\<lparr>cnt_mag_upto := 4, cnt_size_digits := SIZE_MAG_0_4_STR + 6 * (n - 9999)\<rparr>
          else c\<lparr>cnt_mag_upto := 5, cnt_size_digits := SIZE_MAG_0_5_STR + 7 * (n - 99999)\<rparr>
        else
          if n < 10000000 then c\<lparr>cnt_mag_upto := 6, cnt_size_digits := SIZE_MAG_0_6_STR + 8 * (n - 999999)\<rparr>
          else c\<lparr>cnt_mag_upto := 7, cnt_size_digits := SIZE_MAG_0_7_STR + 9 * (n - 9999999)\<rparr>)"

definition counter_size_upto :: "nat \<Rightarrow> nat" where
  "counter_size_upto n =
     (if n < 10000 then
        if n < 100 then
          if n < 10 then 2 * n else SIZE_MAG_0_1_STR + 3 * (n - 9)
        else
          if n < 1000 then SIZE_MAG_0_2_STR + 4 * (n - 99) else SIZE_MAG_0_3_STR + 5 * (n - 999)
      else
        if n < 1000000 then
          if n < 100000 then SIZE_MAG_0_4_STR + 6 * (n - 9999) else SIZE_MAG_0_5_STR + 7 * (n - 99999)
        else
          if n < 10000000 then SIZE_MAG_0_6_STR + 8 * (n - 999999)
          else SIZE_MAG_0_7_STR + 9 * (n - 9999999))"

definition counter_size_mag_upto :: "nat \<Rightarrow> nat" where
  "counter_size_mag_upto n =
     (if n < 10000 then
        if n < 100 then (if n < 10 then 2 else 3) else (if n < 1000 then 4 else 5)
      else
        if n < 1000000 then (if n < 100000 then 6 else 7) else (if n < 10000000 then 8 else 9))"

section \<open>Incrementing the digit buffer\<close>

text \<open>
  \<open>count_buffer_increment\<close>, one definition for each of its eight \<open>switch\<close> statements: the pointer
  starts at the ones digit, and the \<open>default\<close> of a \<open>switch\<close> steps it back and falls into the next.
\<close>

definition count_increment_7 :: "bytes \<Rightarrow> nat \<Rightarrow> bytes option" where
  "count_increment_7 b p =
     switch_set b p 8
       [(CHR ''0'', ''10000000''), (CHR ''1'', ''20000000''), (CHR ''2'', ''30000000''),
        (CHR ''3'', ''40000000''), (CHR ''4'', ''50000000''), (CHR ''5'', ''60000000''),
        (CHR ''6'', ''70000000''), (CHR ''7'', ''80000000'')]
       (SET_STRING_WIDTH b p ''90000000'' 8)"

definition count_increment_6 :: "bytes \<Rightarrow> nat \<Rightarrow> bytes option" where
  "count_increment_6 b p =
     switch_set b p 7
       [(CHR ''0'', ''1000000''), (CHR ''1'', ''2000000''), (CHR ''2'', ''3000000''),
        (CHR ''3'', ''4000000''), (CHR ''4'', ''5000000''), (CHR ''5'', ''6000000''),
        (CHR ''6'', ''7000000''), (CHR ''7'', ''8000000''), (CHR ''8'', ''9000000'')]
       (do { q \<leftarrow> step_back p 1; count_increment_7 b q })"

definition count_increment_5 :: "bytes \<Rightarrow> nat \<Rightarrow> bytes option" where
  "count_increment_5 b p =
     switch_set b p 6
       [(CHR ''0'', ''100000''), (CHR ''1'', ''200000''), (CHR ''2'', ''300000''),
        (CHR ''3'', ''400000''), (CHR ''4'', ''500000''), (CHR ''5'', ''600000''),
        (CHR ''6'', ''700000''), (CHR ''7'', ''800000''), (CHR ''8'', ''900000'')]
       (do { q \<leftarrow> step_back p 1; count_increment_6 b q })"

definition count_increment_4 :: "bytes \<Rightarrow> nat \<Rightarrow> bytes option" where
  "count_increment_4 b p =
     switch_set b p 5
       [(CHR ''0'', ''10000''), (CHR ''1'', ''20000''), (CHR ''2'', ''30000''),
        (CHR ''3'', ''40000''), (CHR ''4'', ''50000''), (CHR ''5'', ''60000''),
        (CHR ''6'', ''70000''), (CHR ''7'', ''80000''), (CHR ''8'', ''90000'')]
       (do { q \<leftarrow> step_back p 1; count_increment_5 b q })"

definition count_increment_3 :: "bytes \<Rightarrow> nat \<Rightarrow> bytes option" where
  "count_increment_3 b p =
     switch_set b p 4
       [(CHR ''0'', ''1000''), (CHR ''1'', ''2000''), (CHR ''2'', ''3000''),
        (CHR ''3'', ''4000''), (CHR ''4'', ''5000''), (CHR ''5'', ''6000''),
        (CHR ''6'', ''7000''), (CHR ''7'', ''8000''), (CHR ''8'', ''9000'')]
       (do { q \<leftarrow> step_back p 1; count_increment_4 b q })"

definition count_increment_2 :: "bytes \<Rightarrow> nat \<Rightarrow> bytes option" where
  "count_increment_2 b p =
     switch_set b p 3
       [(CHR ''0'', ''100''), (CHR ''1'', ''200''), (CHR ''2'', ''300''), (CHR ''3'', ''400''),
        (CHR ''4'', ''500''), (CHR ''5'', ''600''), (CHR ''6'', ''700''), (CHR ''7'', ''800''),
        (CHR ''8'', ''900'')]
       (do { q \<leftarrow> step_back p 1; count_increment_3 b q })"

definition count_increment_1 :: "bytes \<Rightarrow> nat \<Rightarrow> bytes option" where
  "count_increment_1 b p =
     switch_set b p 2
       [(CHR ''0'', ''10''), (CHR ''1'', ''20''), (CHR ''2'', ''30''), (CHR ''3'', ''40''),
        (CHR ''4'', ''50''), (CHR ''5'', ''60''), (CHR ''6'', ''70''), (CHR ''7'', ''80''),
        (CHR ''8'', ''90'')]
       (do { q \<leftarrow> step_back p 1; count_increment_2 b q })"

definition count_buffer_increment :: "bytes \<Rightarrow> nat \<Rightarrow> bytes option" where
  "count_buffer_increment b p =
     switch_set b p 1
       [(CHR ''0'', ''1''), (CHR ''1'', ''2''), (CHR ''2'', ''3''), (CHR ''3'', ''4''),
        (CHR ''4'', ''5''), (CHR ''5'', ''6''), (CHR ''6'', ''7''), (CHR ''7'', ''8''),
        (CHR ''8'', ''9'')]
       (do { q \<leftarrow> step_back p 1; count_increment_1 b q })"

text \<open>
  Level \<open>i\<close> is correct when, on a block \<open>xs d 9...9 ys\<close> with at least \<open>i\<close> nines and the pointer \<open>i\<close>
  bytes before the last of them, it carries into \<open>d\<close> and clears the nines.
\<close>

definition carries :: "(bytes \<Rightarrow> nat \<Rightarrow> bytes option) \<Rightarrow> nat \<Rightarrow> bool" where
  "carries f i \<longleftrightarrow>
     (\<forall>xs d k ys. d < 9 \<and> i \<le> k \<and> k \<le> 7 \<longrightarrow>
        f (xs @ DIGIT_TO_ASCII d # replicate k (CHR ''9'') @ ys) (length xs + (k - i)) =
        Some (xs @ DIGIT_TO_ASCII (Suc d) # replicate k (CHR ''0'') @ ys))"

lemma carriesD:
  "carries f i \<Longrightarrow> d < 9 \<Longrightarrow> i \<le> k \<Longrightarrow> k \<le> 7 \<Longrightarrow>
     f (xs @ DIGIT_TO_ASCII d # replicate k (CHR ''9'') @ ys) (length xs + (k - i)) =
     Some (xs @ DIGIT_TO_ASCII (Suc d) # replicate k (CHR ''0'') @ ys)"
  by (simp add: carries_def)

lemma carries_level:
  assumes f: "\<And>b p. f b p = switch_set b p w tbl (do { q \<leftarrow> step_back p 1; g b q })"
    and w: "w = Suc i"
    and nine: "map_of tbl (CHR ''9'') = None"
    and hit: "\<And>d. d < 9 \<Longrightarrow>
      map_of tbl (DIGIT_TO_ASCII d) = Some (DIGIT_TO_ASCII (Suc d) # zs)"
    and zs: "zs = replicate i (CHR ''0'')"
    and g: "carries g w"
  shows "carries f i"
  unfolding carries_def
proof (intro allI impI, elim conjE)
  fix xs ys :: bytes and d k :: nat
  assume d: "d < 9" and k: "i \<le> k" "k \<le> 7"
  let ?b = "xs @ DIGIT_TO_ASCII d # replicate k (CHR ''9'') @ ys"
  let ?r = "Some (xs @ DIGIT_TO_ASCII (Suc d) # replicate k (CHR ''0'') @ ys)"
  show "f ?b (length xs + (k - i)) = ?r"
  proof (cases "k = i")
    case True
    have "f ?b (length xs) =
        store_string ?b (length xs) (DIGIT_TO_ASCII (Suc d) # replicate i (CHR ''0''))"
      unfolding f by (rule switch_set_hit) (auto simp: load_append hit zs d w)
    then show ?thesis using True by (simp add: store_string_def)
  next
    case False
    then have step: "length xs + (k - i) = Suc (length xs + (k - Suc i))" using k by simp
    have "load ?b (length xs + (k - i)) = Some (CHR ''9'')"
      using False k by (auto simp: load_def nth_append nth_Cons')
    then have "f ?b (length xs + (k - i)) = g ?b (length xs + (k - Suc i))"
      unfolding f using nine by (simp add: switch_set_miss step)
    also have "\<dots> = ?r" using g d k False by (intro carriesD) (auto simp: w)
    finally show ?thesis .
  qed
qed

text \<open>The nine-entry tables of the \<open>switch\<close> statements send a digit to its successor and zeros.\<close>

lemma map_of_successor:
  assumes "d < 9"
  shows "map_of [(CHR ''0'', CHR ''1'' # zs), (CHR ''1'', CHR ''2'' # zs), (CHR ''2'', CHR ''3'' # zs),
           (CHR ''3'', CHR ''4'' # zs), (CHR ''4'', CHR ''5'' # zs), (CHR ''5'', CHR ''6'' # zs),
           (CHR ''6'', CHR ''7'' # zs), (CHR ''7'', CHR ''8'' # zs), (CHR ''8'', CHR ''9'' # zs)]
           (DIGIT_TO_ASCII d) = Some (DIGIT_TO_ASCII (Suc d) # zs)"
proof -
  have "d < 10" "d \<noteq> 9" using assms by auto
  then show ?thesis by (elim digit_cases) (simp_all add: digit_simps)
qed

lemma carries_7: "carries count_increment_7 7"
  unfolding carries_def
proof (intro allI impI, elim conjE)
  fix xs ys :: bytes and d k :: nat
  assume d: "d < 9" and "7 \<le> k" "k \<le> 7"
  then have k: "k = 7" by simp
  let ?b = "xs @ DIGIT_TO_ASCII d # replicate k (CHR ''9'') @ ys"
  have "count_increment_7 ?b (length xs) =
      SET_STRING_WIDTH ?b (length xs) (DIGIT_TO_ASCII (Suc d) # ''0000000'') 8"
  proof (cases "d = 8")
    case True
    then show ?thesis
      by (simp add: count_increment_7_def switch_set_def load_append digit_simps)
  next
    case False
    with d have "d < 10" "d \<noteq> 8" "d \<noteq> 9" by auto
    then show ?thesis
      by (elim digit_cases)
         (simp_all add: count_increment_7_def switch_set_def load_append digit_simps)
  qed
  then show "count_increment_7 ?b (length xs + (k - 7)) =
      Some (xs @ DIGIT_TO_ASCII (Suc d) # replicate k (CHR ''0'') @ ys)"
    by (simp add: k SET_STRING_WIDTH_store store_string_def numeral_eq_Suc)
qed

lemma carries_6: "carries count_increment_6 6"
  by (rule carries_level [OF count_increment_6_def _ _ map_of_successor _ carries_7]) (simp_all add: numeral_eq_Suc)

lemma carries_5: "carries count_increment_5 5"
  by (rule carries_level [OF count_increment_5_def _ _ map_of_successor _ carries_6]) (simp_all add: numeral_eq_Suc)

lemma carries_4: "carries count_increment_4 4"
  by (rule carries_level [OF count_increment_4_def _ _ map_of_successor _ carries_5]) (simp_all add: numeral_eq_Suc)

lemma carries_3: "carries count_increment_3 3"
  by (rule carries_level [OF count_increment_3_def _ _ map_of_successor _ carries_4]) (simp_all add: numeral_eq_Suc)

lemma carries_2: "carries count_increment_2 2"
  by (rule carries_level [OF count_increment_2_def _ _ map_of_successor _ carries_3]) (simp_all add: numeral_eq_Suc)

lemma carries_1: "carries count_increment_1 1"
  by (rule carries_level [OF count_increment_1_def _ _ map_of_successor _ carries_2]) (simp_all add: numeral_eq_Suc)

lemma carries_0: "carries count_buffer_increment 0"
  by (rule carries_level [OF count_buffer_increment_def _ _ map_of_successor _ carries_1]) (simp_all add: numeral_eq_Suc)

text \<open>The whole routine adds one to a number of at most eight digits, unless that needs another digit.\<close>

lemma count_buffer_increment_decimal:
  assumes len: "length (decimal (Suc n)) = length (decimal n)" and "length (decimal n) \<le> 8"
    and p: "p + 1 = length xs + length (decimal n)"
  shows "count_buffer_increment (xs @ decimal n @ ys) p = Some (xs @ decimal (Suc n) @ ys)"
proof -
  obtain zs d k where d: "d < 9" and n: "decimal n = zs @ DIGIT_TO_ASCII d # replicate k (CHR ''9'')"
    and s: "decimal (Suc n) = zs @ DIGIT_TO_ASCII (Suc d) # replicate k (CHR ''0'')"
    using decimal_Suc_shape [OF len] by blast
  have "k \<le> 7" "p = length (xs @ zs) + (k - 0)" using assms(2) p by (auto simp: n)
  with carriesD [OF carries_0 d, of k "xs @ zs" ys] show ?thesis
    by (simp add: n s)
qed

section \<open>The strings of the counter and their total size\<close>

definition count_cell :: "nat \<Rightarrow> bytes" where
  "count_cell n = decimal n @ [NUL]"

text \<open>The contents the block has to have: \<open>"1"\<close>, ..., \<open>"n"\<close>, each with its terminator.\<close>

definition count_cells :: "nat \<Rightarrow> nat \<Rightarrow> bytes" where
  "count_cells i j = concat (map count_cell [i..<j])"

definition digits_upto :: "nat \<Rightarrow> bytes" where
  "digits_upto n = count_cells 1 (Suc n)"

lemma count_cells_empty [simp]: "j \<le> i \<Longrightarrow> count_cells i j = []"
  by (simp add: count_cells_def)

lemma count_cells_Suc: "i \<le> j \<Longrightarrow> count_cells i (Suc j) = count_cells i j @ count_cell j"
  by (simp add: count_cells_def)

lemma count_cells_Cons: "i < j \<Longrightarrow> count_cells i j = count_cell i @ count_cells (Suc i) j"
  by (simp add: count_cells_def upt_conv_Cons)

lemma count_cells_split: "i \<le> j \<Longrightarrow> j \<le> k \<Longrightarrow> count_cells i k = count_cells i j @ count_cells j k"
  using upt_add_eq_append [of i j "k - j"] by (simp add: count_cells_def)

lemma length_count_cell_mag: "10 ^ m \<le> n \<Longrightarrow> n < 10 ^ Suc m \<Longrightarrow> length (count_cell n) = m + 2"
  by (simp add: count_cell_def length_decimal_eqI)

lemma length_count_cells_mag:
  assumes "10 ^ m \<le> i" "i \<le> j" "j \<le> 10 ^ Suc m"
  shows "length (count_cells i j) = (m + 2) * (j - i)"
  using assms(2,3)
proof (induction j rule: dec_induct)
  case base
  then show ?case by simp
next
  case (step n)
  then have "length (count_cell n) = m + 2"
    using assms(1) by (intro length_count_cell_mag) auto
  with step show ?case by (simp add: count_cells_Suc Suc_diff_le)
qed

text \<open>The running sizes \<open>SIZE_MAG_0_m_STR\<close>, one magnitude after the other.\<close>

lemma length_digits_upto_step:
  assumes "10 ^ m \<le> n" "n < 10 ^ Suc m"
  shows "length (digits_upto n) = length (digits_upto (10 ^ m - 1)) + (m + 2) * (n - (10 ^ m - 1))"
proof -
  have p: "Suc (10 ^ m - 1) = (10::nat) ^ m" by simp
  have "(1::nat) \<le> 10 ^ m" by simp
  then have "digits_upto n = digits_upto (10 ^ m - 1) @ count_cells (10 ^ m) (Suc n)"
    using assms(1) count_cells_split [of 1 "10 ^ m" "Suc n"]
    unfolding digits_upto_def p by simp
  moreover have "length (count_cells (10 ^ m) (Suc n)) = (m + 2) * (Suc n - 10 ^ m)"
    using assms by (intro length_count_cells_mag) auto
  moreover have "n - (10 ^ m - 1) = Suc n - 10 ^ m" using assms(1) by simp
  ultimately show ?thesis by (simp only: length_append)
qed

lemma length_digits_upto_mag [len_simps]:
  "length (digits_upto 0) = 0"
  "length (digits_upto 9) = SIZE_MAG_0_1_STR"
  "length (digits_upto 99) = SIZE_MAG_0_2_STR"
  "length (digits_upto 999) = SIZE_MAG_0_3_STR"
  "length (digits_upto 9999) = SIZE_MAG_0_4_STR"
  "length (digits_upto 99999) = SIZE_MAG_0_5_STR"
  "length (digits_upto 999999) = SIZE_MAG_0_6_STR"
  "length (digits_upto 9999999) = SIZE_MAG_0_7_STR"
proof -
  show 0: "length (digits_upto 0) = 0" by (simp add: digits_upto_def)
  show 1: "length (digits_upto 9) = SIZE_MAG_0_1_STR"
    using length_digits_upto_step [of 0 9] 0 by (simp add: SIZE_MAG_defs)
  show 2: "length (digits_upto 99) = SIZE_MAG_0_2_STR"
    using length_digits_upto_step [of 1 99] 1 by (simp add: SIZE_MAG_defs)
  show 3: "length (digits_upto 999) = SIZE_MAG_0_3_STR"
    using length_digits_upto_step [of 2 999] 2 by (simp add: SIZE_MAG_defs)
  show 4: "length (digits_upto 9999) = SIZE_MAG_0_4_STR"
    using length_digits_upto_step [of 3 9999] 3 by (simp add: SIZE_MAG_defs)
  show 5: "length (digits_upto 99999) = SIZE_MAG_0_5_STR"
    using length_digits_upto_step [of 4 99999] 4 by (simp add: SIZE_MAG_defs)
  show 6: "length (digits_upto 999999) = SIZE_MAG_0_6_STR"
    using length_digits_upto_step [of 5 999999] 5 by (simp add: SIZE_MAG_defs)
  show "length (digits_upto 9999999) = SIZE_MAG_0_7_STR"
    using length_digits_upto_step [of 6 9999999] 6 by (simp add: SIZE_MAG_defs)
qed

lemma length_digits_upto:
  assumes "n \<le> UPTO_MAX"
  shows "length (digits_upto n) = counter_size_upto n"
proof -
  have n: "n < 100000000" using assms by (simp add: UPTO_MAX_def)
  consider "n = 0" | "1 \<le> n" "n < 10" | "10 \<le> n" "n < 100" | "100 \<le> n" "n < 1000"
    | "1000 \<le> n" "n < 10000" | "10000 \<le> n" "n < 100000" | "100000 \<le> n" "n < 1000000"
    | "1000000 \<le> n" "n < 10000000" | "10000000 \<le> n" "n < 100000000"
    using n by linarith
  then show ?thesis
    using length_digits_upto_step [of 0 n] length_digits_upto_step [of 1 n]
      length_digits_upto_step [of 2 n] length_digits_upto_step [of 3 n]
      length_digits_upto_step [of 4 n] length_digits_upto_step [of 5 n]
      length_digits_upto_step [of 6 n] length_digits_upto_step [of 7 n]
    by cases (simp_all add: counter_size_upto_def len_simps)
qed

lemma counter_size_internals_eq:
  "cnt_size_digits (counter_size_internals c) = counter_size_upto (cnt_upto c)"
  "cnt_upto (counter_size_internals c) = cnt_upto c"
  by (simp_all add: counter_size_internals_def counter_size_upto_def Let_def)

text \<open>\<open>mag_upto\<close> is the decimal magnitude of \<open>upto\<close>.\<close>

lemma counter_size_internals_mag:
  assumes "1 \<le> cnt_upto c" "cnt_upto c \<le> UPTO_MAX"
  shows "10 ^ cnt_mag_upto (counter_size_internals c) \<le> cnt_upto c"
    and "cnt_upto c < 10 ^ Suc (cnt_mag_upto (counter_size_internals c))"
    and "cnt_mag_upto (counter_size_internals c) \<le> 7"
  using assms by (auto simp: counter_size_internals_def Let_def UPTO_MAX_def)

lemma counter_size_mag_upto_length:
  assumes "1 \<le> n" "n \<le> UPTO_MAX"
  shows "counter_size_mag_upto n = length (count_cell n)"
proof -
  have n: "n < 100000000" using assms by (simp add: UPTO_MAX_def)
  consider "n < 10" | "10 \<le> n" "n < 100" | "100 \<le> n" "n < 1000"
    | "1000 \<le> n" "n < 10000" | "10000 \<le> n" "n < 100000" | "100000 \<le> n" "n < 1000000"
    | "1000000 \<le> n" "n < 10000000" | "10000000 \<le> n" "n < 100000000"
    using n by linarith
  then show ?thesis
    using assms(1) length_count_cell_mag [of 0 n] length_count_cell_mag [of 1 n]
      length_count_cell_mag [of 2 n] length_count_cell_mag [of 3 n]
      length_count_cell_mag [of 4 n] length_count_cell_mag [of 5 n]
      length_count_cell_mag [of 6 n] length_count_cell_mag [of 7 n]
    by cases (simp_all add: counter_size_mag_upto_def)
qed

section \<open>Filling the block\<close>

text \<open>The constants \<open>mag_m_min_string\<close>, \<open>SIZE_MAG_0_m_STR\<close> and \<open>OFF_MAG_m_MIN\<close> by magnitude.\<close>

definition mag_min_string :: "nat \<Rightarrow> bytes" where
  "mag_min_string m =
     [''1'', ''10'', ''100'', ''1000'', ''10000'', ''100000'', ''1000000'', ''10000000''] ! m @ [NUL]"

definition SIZE_MAG_0_STR :: "nat \<Rightarrow> nat" where
  "SIZE_MAG_0_STR m =
     [0, SIZE_MAG_0_1_STR, SIZE_MAG_0_2_STR, SIZE_MAG_0_3_STR, SIZE_MAG_0_4_STR, SIZE_MAG_0_5_STR,
      SIZE_MAG_0_6_STR, SIZE_MAG_0_7_STR] ! m"

definition OFF_MAG_MIN :: "nat \<Rightarrow> nat" where
  "OFF_MAG_MIN m = [0, 9, 99, 999, 9999, 99999, 999999, 9999999] ! m"

definition store_pointer :: "nat list \<Rightarrow> nat \<Rightarrow> nat \<Rightarrow> nat list option" where
  "store_pointer ps i p = (if i < length ps then Some (ps[i := p]) else None)"

text \<open>
  The macro \<open>SET_RANGE_DIGITS_MAG_UPTO\<close>: from the pointer slot \<open>cur\<close> up to \<open>until\<close>, copy the digit
  buffer (its first \<open>m + 2\<close> bytes) to \<open>pos\<close>, record \<open>pos\<close>, and increment the buffer.
\<close>

function set_range_digits ::
  "nat \<Rightarrow> nat \<Rightarrow> nat \<Rightarrow> bytes \<Rightarrow> nat \<Rightarrow> nat list \<Rightarrow> nat \<Rightarrow> bytes \<Rightarrow> (bytes \<times> nat list \<times> bytes) option" where
  "set_range_digits m active until buffer pos ps cur digits =
     do { digits' \<leftarrow> store_string digits pos (take (m + 2) buffer);
          ps' \<leftarrow> store_pointer ps cur pos;
          if Suc cur = until then Some (buffer, ps', digits')
          else do { buffer' \<leftarrow> count_buffer_increment buffer active;
                    set_range_digits m active until buffer' (pos + (m + 2)) ps' (Suc cur) digits' } }"
  by pat_completeness auto
termination
  by (relation "measure (\<lambda>(m, active, until, buffer, pos, ps, cur, digits). length ps - cur)")
     (auto simp: store_pointer_def split: if_splits)

declare set_range_digits.simps [simp del]

text \<open>
  The fall-through \<open>switch (counter->mag_upto)\<close> of \<open>counter_set_internals\<close>: one range for each
  magnitude, from the largest down, each ending where the one before began.
\<close>

fun counter_set_mags ::
  "nat \<Rightarrow> nat \<Rightarrow> nat \<Rightarrow> bytes \<Rightarrow> nat list \<Rightarrow> bytes \<Rightarrow> (nat list \<times> bytes) option" where
  "counter_set_mags 0 active until buffer ps digits =
     do { buffer0 \<leftarrow> store_string buffer 0 (mag_min_string 0);
          (_, ps', digits') \<leftarrow> set_range_digits 0 active until buffer0 (SIZE_MAG_0_STR 0) ps 0 digits;
          Some (ps', digits') }"
| "counter_set_mags (Suc m) active until buffer ps digits =
     do { buffer0 \<leftarrow> store_string buffer 0 (mag_min_string (Suc m));
          (buffer1, ps', digits') \<leftarrow>
            set_range_digits (Suc m) active until buffer0 (SIZE_MAG_0_STR (Suc m)) ps
              (OFF_MAG_MIN (Suc m)) digits;
          active' \<leftarrow> step_back active 1;
          counter_set_mags m active' (OFF_MAG_MIN (Suc m)) buffer1 ps' digits' }"

text \<open>
  \<open>ps0\<close> and \<open>digits0\<close> are the two parts of the fresh allocation, \<open>buffer0\<close> the uninitialised local
  \<open>union DigitsBuffer\<close>.
\<close>

definition counter_set_internals :: "counter \<Rightarrow> nat list \<Rightarrow> bytes \<Rightarrow> bytes \<Rightarrow> counter option" where
  "counter_set_internals c ps0 digits0 buffer0 =
     do { ps1 \<leftarrow> store_pointer ps0 (cnt_upto c) (cnt_size_digits c);
          (ps, digits) \<leftarrow>
            counter_set_mags (if cnt_mag_upto c \<le> 7 then cnt_mag_upto c else 0) (cnt_mag_upto c)
              (cnt_upto c) buffer0 ps1 digits0;
          Some (c\<lparr>cnt_pointers := ps, cnt_digits := digits\<rparr>) }"

datatype counter_failure = CC_UPTO_MAX_EXCEEDED | CC_ALLOC

text \<open>
  \<open>counter_init_internals\<close>: the two failures end the thread through \<open>fail_cl\<close>; \<open>malloc\<close> is given the
  number of pointers and of bytes and returns the two uninitialised parts or \<open>NULL\<close>.
\<close>

definition counter_init_internals ::
  "(nat \<Rightarrow> nat \<Rightarrow> (nat list \<times> bytes) option) \<Rightarrow> bytes \<Rightarrow> counter \<Rightarrow> (counter_failure + counter) option" where
  "counter_init_internals malloc buffer0 c =
     (if UPTO_MAX < cnt_upto c then Some (Inl CC_UPTO_MAX_EXCEEDED)
      else
        let c = counter_size_internals c in
        (case malloc (cnt_upto c + 1) (cnt_size_digits c) of
           None \<Rightarrow> Some (Inl CC_ALLOC)
         | Some (ps0, digits0) \<Rightarrow>
             map_option Inr (counter_set_internals c ps0 digits0 buffer0)))"

definition counter_init :: "nat \<Rightarrow> counter" where
  "counter_init n =
     \<lparr>cnt_ready = False, cnt_digits = [], cnt_pointers = [], cnt_upto = n, cnt_size_digits = 0,
      cnt_mag_upto = 0\<rparr>"

text \<open>\<open>build_counter\<close>, the worker task: under the lock it fills the counter and publishes it.\<close>

definition build_counter ::
  "(nat \<Rightarrow> nat \<Rightarrow> (nat list \<times> bytes) option) \<Rightarrow> bytes \<Rightarrow> counter \<Rightarrow> (counter_failure + counter) option" where
  "build_counter malloc buffer0 c =
     do { r \<leftarrow> counter_init_internals malloc buffer0 c;
          Some (case r of Inl f \<Rightarrow> Inl f | Inr c' \<Rightarrow> Inr (c'\<lparr>cnt_ready := True\<rparr>)) }"

section \<open>The block is filled exactly\<close>

lemma mag_min_string_decimal: "m \<le> 7 \<Longrightarrow> mag_min_string m = decimal (10 ^ m) @ [NUL]"
proof -
  assume "m \<le> 7"
  then have "m = 0 \<or> m = 1 \<or> m = 2 \<or> m = 3 \<or> m = 4 \<or> m = 5 \<or> m = 6 \<or> m = 7" by arith
  then show ?thesis
    by (elim disjE) (simp_all add: mag_min_string_def decimal_step decimal_small digit_simps)
qed

lemma OFF_MAG_MIN_eq: "m \<le> 7 \<Longrightarrow> OFF_MAG_MIN m = 10 ^ m - 1"
proof -
  assume "m \<le> 7"
  then have "m = 0 \<or> m = 1 \<or> m = 2 \<or> m = 3 \<or> m = 4 \<or> m = 5 \<or> m = 6 \<or> m = 7" by arith
  then show ?thesis by (elim disjE) (simp_all add: OFF_MAG_MIN_def)
qed

lemma SIZE_MAG_0_STR_eq: "m \<le> 7 \<Longrightarrow> SIZE_MAG_0_STR m = length (digits_upto (10 ^ m - 1))"
proof -
  assume "m \<le> 7"
  then have "m = 0 \<or> m = 1 \<or> m = 2 \<or> m = 3 \<or> m = 4 \<or> m = 5 \<or> m = 6 \<or> m = 7" by arith
  then show ?thesis by (elim disjE) (simp_all add: SIZE_MAG_0_STR_def len_simps)
qed

lemma take_update_snoc: "c < length ps \<Longrightarrow> take (Suc c) (ps[c := p]) = take c ps @ [p]"
  by (simp add: take_Suc_conv_app_nth)

text \<open>One turn of the loop.\<close>

lemma set_range_digits_step:
  assumes c: "10 ^ m \<le> Suc c" "Suc c < 10 ^ Suc m" "c < length ps"
    and old: "length o1 = m + 2"
  shows "set_range_digits m active N (decimal (Suc c) @ NUL # rest) (length D1) ps c (D1 @ o1 @ D2) =
    (if Suc c = N then Some (decimal (Suc c) @ NUL # rest, ps[c := length D1], D1 @ count_cell (Suc c) @ D2)
     else do { buffer' \<leftarrow> count_buffer_increment (decimal (Suc c) @ NUL # rest) active;
               set_range_digits m active N buffer' (length (D1 @ count_cell (Suc c)))
                 (ps[c := length D1]) (Suc c) ((D1 @ count_cell (Suc c)) @ D2) })"
proof -
  have l: "length (decimal (Suc c)) = Suc m" using c by (intro length_decimal_eqI) auto
  have "store_string (D1 @ o1 @ D2) (length D1) (count_cell (Suc c)) =
    Some (D1 @ count_cell (Suc c) @ D2)"
    by (rule store_string_append) (simp add: count_cell_def old l)
  then show ?thesis
    using c(3) l by (subst set_range_digits.simps) (simp add: store_pointer_def count_cell_def)
qed

lemma set_range_digits_correct:
  assumes "10 ^ m \<le> Suc c" "Suc c \<le> N" "N < 10 ^ Suc m" "m \<le> 7" "N \<le> length ps"
    and "length old = length (count_cells (Suc c) (Suc N))"
  shows "set_range_digits m m N (decimal (Suc c) @ NUL # rest) (length D1) ps c (D1 @ old @ D2) =
         Some (decimal N @ NUL # rest,
               take c ps @ map (\<lambda>i. length D1 + length (count_cells (Suc c) (Suc i))) [c..<N] @ drop N ps,
               D1 @ count_cells (Suc c) (Suc N) @ D2)"
  using assms
proof (induction "N - c" arbitrary: c ps D1 old)
  case 0
  then show ?case by simp
next
  case (Suc k)
  have l: "length (decimal (Suc c)) = Suc m" using Suc.prems by (intro length_decimal_eqI) auto
  then have lc: "length (count_cell (Suc c)) = m + 2" by (simp add: count_cell_def)
  have m: "map (\<lambda>i. length D1 + length (count_cells (Suc c) (Suc i))) [c..<N] =
      length D1 # map (\<lambda>i. length (D1 @ count_cell (Suc c)) +
          length (count_cells (Suc (Suc c)) (Suc i))) [Suc c..<N]"
    using Suc.prems(2) by (simp add: upt_conv_Cons count_cells_Cons)
  have cc: "count_cells (Suc c) (Suc N) = count_cell (Suc c) @ count_cells (Suc (Suc c)) (Suc N)"
    using Suc.prems by (simp add: count_cells_Cons)
  obtain o1 o2 where o: "old = o1 @ o2" "length o1 = m + 2" "length o2 = length (count_cells (Suc (Suc c)) (Suc N))"
    using Suc.prems(6) cc lc by (metis length_append append_eq_conv_conj append_take_drop_id length_take length_drop add_diff_cancel_left' le_add1 min.absorb2)
  let ?ps = "ps[c := length D1]"
  have step: "set_range_digits m m N (decimal (Suc c) @ NUL # rest) (length D1) ps c (D1 @ old @ D2) =
    (if Suc c = N then Some (decimal (Suc c) @ NUL # rest, ?ps, D1 @ count_cell (Suc c) @ o2 @ D2)
     else do { buffer' \<leftarrow> count_buffer_increment (decimal (Suc c) @ NUL # rest) m;
               set_range_digits m m N buffer' (length (D1 @ count_cell (Suc c)))
                 ?ps (Suc c) ((D1 @ count_cell (Suc c)) @ o2 @ D2) })"
    using set_range_digits_step [of m c ps o1 m N rest D1 "o2 @ D2"] Suc.prems o by simp
  show ?case
  proof (cases "Suc c = N")
    case True
    then show ?thesis
      using step Suc.prems o cc m
      by (simp add: upd_conv_take_nth_drop)
  next
    case False
    have inc: "count_buffer_increment (decimal (Suc c) @ NUL # rest) m =
      Some (decimal (Suc (Suc c)) @ NUL # rest)"
      using count_buffer_increment_decimal [of "Suc c" m "[]" "NUL # rest"] l Suc.prems False
        length_decimal_eqI [of m "Suc (Suc c)"] by simp
    have ih: "set_range_digits m m N (decimal (Suc (Suc c)) @ NUL # rest)
        (length (D1 @ count_cell (Suc c))) ?ps (Suc c) ((D1 @ count_cell (Suc c)) @ o2 @ D2) =
      Some (decimal N @ NUL # rest,
        take (Suc c) ?ps @ map (\<lambda>i. length (D1 @ count_cell (Suc c)) +
          length (count_cells (Suc (Suc c)) (Suc i))) [Suc c..<N] @ drop N ?ps,
        (D1 @ count_cell (Suc c)) @ count_cells (Suc (Suc c)) (Suc N) @ D2)"
      using Suc.prems False Suc.hyps(2) o by (intro Suc.hyps(1)) auto
    show ?thesis
      using step inc ih Suc.prems False cc m by (simp add: take_update_snoc)
  qed
qed

text \<open>One range, from the first number of its magnitude.\<close>

lemma set_range_digits_mag:
  assumes m: "m \<le> 7" "10 ^ m \<le> N" "N < 10 ^ Suc m" and b: "length buffer = 9"
    and ps: "N \<le> length ps" and D: "length D = length (digits_upto N)"
  shows "\<exists>buffer0 rest. store_string buffer 0 (mag_min_string m) = Some buffer0 \<and> length rest = 7 - m \<and>
    set_range_digits m m N buffer0 (SIZE_MAG_0_STR m) ps (OFF_MAG_MIN m) (D @ D2) =
      Some (decimal N @ NUL # rest,
        take (10 ^ m - 1) ps @ map (\<lambda>i. length (digits_upto i)) [10 ^ m - 1..<N] @ drop N ps,
        take (SIZE_MAG_0_STR m) D @ count_cells (10 ^ m) (Suc N) @ D2)"
proof (intro exI conjI)
  let ?rest = "drop (m + 2) buffer"
  have l: "length (decimal (10 ^ m)) = Suc m" by (intro length_decimal_eqI) auto
  show "store_string buffer 0 (mag_min_string m) = Some (decimal (10 ^ m) @ NUL # ?rest)"
    using m(1) b by (simp add: store_string_def mag_min_string_decimal l)
  show "length ?rest = 7 - m" using b m by simp
  have s: "Suc (10 ^ m - 1) = (10::nat) ^ m" by simp
  have split: "digits_upto i = digits_upto (10 ^ m - 1) @ count_cells (10 ^ m) (Suc i)"
    if "10 ^ m - 1 \<le> i" for i
    using that count_cells_split [of 1 "10 ^ m" "Suc i"] unfolding digits_upto_def s
    by (simp add: Suc_leI)
  have z: "SIZE_MAG_0_STR m = length (digits_upto (10 ^ m - 1))" using m by (simp add: SIZE_MAG_0_STR_eq)
  have n: "digits_upto N = digits_upto (10 ^ m - 1) @ count_cells (10 ^ m) (Suc N)"
    using m by (intro split) auto
  then have d: "length (take (SIZE_MAG_0_STR m) D) = SIZE_MAG_0_STR m"
    "length (drop (SIZE_MAG_0_STR m) D) = length (count_cells (10 ^ m) (Suc N))"
    using D z by simp_all
  have p: "map (\<lambda>i. length (take (SIZE_MAG_0_STR m) D) + length (count_cells (10 ^ m) (Suc i))) [10 ^ m - 1..<N] =
    map (\<lambda>i. length (digits_upto i)) [10 ^ m - 1..<N]"
  proof (intro map_cong refl)
    fix i assume "i \<in> set [10 ^ m - 1..<N]"
    then have "length (digits_upto i) = length (digits_upto (10 ^ m - 1) @ count_cells (10 ^ m) (Suc i))"
      by (intro arg_cong [of _ _ length] split) simp
    then show "length (take (SIZE_MAG_0_STR m) D) + length (count_cells (10 ^ m) (Suc i)) =
        length (digits_upto i)"
      unfolding d(1) unfolding z length_append by (rule sym)
  qed
  show "set_range_digits m m N (decimal (10 ^ m) @ NUL # ?rest) (SIZE_MAG_0_STR m) ps (OFF_MAG_MIN m) (D @ D2) =
      Some (decimal N @ NUL # ?rest,
        take (10 ^ m - 1) ps @ map (\<lambda>i. length (digits_upto i)) [10 ^ m - 1..<N] @ drop N ps,
        take (SIZE_MAG_0_STR m) D @ count_cells (10 ^ m) (Suc N) @ D2)"
  proof -
    have "D @ D2 = take (SIZE_MAG_0_STR m) D @ drop (SIZE_MAG_0_STR m) D @ D2" by simp
    then show ?thesis
      using set_range_digits_correct [of m "10 ^ m - 1" N ps "drop (SIZE_MAG_0_STR m) D" ?rest
          "take (SIZE_MAG_0_STR m) D" D2] m ps d
      unfolding s p by (simp only: OFF_MAG_MIN_eq)
  qed
qed

lemma counter_set_mags_correct:
  assumes "m \<le> 7" "10 ^ m \<le> N" "N < 10 ^ Suc m" "length buffer = 9"
    "N \<le> length ps" "length D = length (digits_upto N)"
  shows "counter_set_mags m m N buffer ps (D @ D2) =
    Some (map (\<lambda>i. length (digits_upto i)) [0..<N] @ drop N ps, digits_upto N @ D2)"
  using assms
proof (induction m arbitrary: N buffer ps D D2)
  case 0
  then obtain buffer0 rest where "store_string buffer 0 (mag_min_string 0) = Some buffer0"
    "set_range_digits 0 0 N buffer0 (SIZE_MAG_0_STR 0) ps (OFF_MAG_MIN 0) (D @ D2) =
      Some (decimal N @ NUL # rest,
        take (10 ^ 0 - 1) ps @ map (\<lambda>i. length (digits_upto i)) [10 ^ 0 - 1..<N] @ drop N ps,
        take (SIZE_MAG_0_STR 0) D @ count_cells (10 ^ 0) (Suc N) @ D2)"
    using set_range_digits_mag [of 0 N buffer ps D D2] by auto
  then show ?case by (simp add: OFF_MAG_MIN_def SIZE_MAG_0_STR_def digits_upto_def)
next
  case (Suc m)
  let ?M = "10 ^ Suc m - 1 :: nat"
  let ?ps = "take ?M ps @ map (\<lambda>i. length (digits_upto i)) [?M..<N] @ drop N ps"
  obtain buffer0 rest where r: "store_string buffer 0 (mag_min_string (Suc m)) = Some buffer0"
    "length rest = 7 - Suc m"
    "set_range_digits (Suc m) (Suc m) N buffer0 (SIZE_MAG_0_STR (Suc m)) ps (OFF_MAG_MIN (Suc m)) (D @ D2) =
      Some (decimal N @ NUL # rest, ?ps,
        take (SIZE_MAG_0_STR (Suc m)) D @ count_cells (10 ^ Suc m) (Suc N) @ D2)"
    using set_range_digits_mag [of "Suc m" N buffer ps D D2] Suc.prems by blast
  have l: "length (decimal N) = Suc (Suc m)" using Suc.prems by (intro length_decimal_eqI) auto
  have s: "Suc ?M = 10 ^ Suc m" by simp
  have z: "SIZE_MAG_0_STR (Suc m) = length (digits_upto ?M)" using Suc.prems by (simp add: SIZE_MAG_0_STR_eq)
  have n: "digits_upto N = digits_upto ?M @ count_cells (10 ^ Suc m) (Suc N)"
    using count_cells_split [of 1 "10 ^ Suc m" "Suc N"] Suc.prems(2) unfolding digits_upto_def s by simp
  have ih: "counter_set_mags m m ?M (decimal N @ NUL # rest) ?ps
      (take (SIZE_MAG_0_STR (Suc m)) D @ count_cells (10 ^ Suc m) (Suc N) @ D2) =
    Some (map (\<lambda>i. length (digits_upto i)) [0..<?M] @ drop ?M ?ps,
      digits_upto ?M @ count_cells (10 ^ Suc m) (Suc N) @ D2)"
  proof (rule Suc.IH)
    have "(1::nat) \<le> 10 ^ m" by simp
    then show "10 ^ m \<le> ?M" by (simp add: algebra_simps)
    show "length (take (SIZE_MAG_0_STR (Suc m)) D) = length (digits_upto ?M)"
      using Suc.prems n z by simp
  qed (use Suc.prems l r(2) in auto)
  have "map (\<lambda>i. length (digits_upto i)) [0..<?M] @ drop ?M ?ps =
    map (\<lambda>i. length (digits_upto i)) [0..<N] @ drop N ps"
    using Suc.prems upt_add_eq_append [of 0 ?M "N - ?M"] by simp
  then show ?case using r ih n OFF_MAG_MIN_eq [of "Suc m"] Suc.prems(1) by simp
qed

text \<open>The filled counter: \<open>digits\<close> holds the strings, \<open>pointers ! i\<close> the start of the string of \<open>i + 1\<close>.\<close>

definition counter_filled :: "counter \<Rightarrow> bool" where
  "counter_filled c \<longleftrightarrow>
     cnt_digits c = digits_upto (cnt_upto c) \<and>
     cnt_pointers c = map (\<lambda>i. length (digits_upto i)) [0..<cnt_upto c + 1]"

lemma counter_built:
  assumes "cnt_upto c = n" "1 \<le> n" "n \<le> UPTO_MAX"
    and "malloc (n + 1) (counter_size_upto n) = Some (ps0, digits0)"
    and "length ps0 = n + 1" "length digits0 = counter_size_upto n" "length buffer0 = 9"
  shows "\<exists>c'. build_counter malloc buffer0 c = Some (Inr c') \<and> cnt_ready c' \<and> cnt_upto c' = n \<and>
    counter_filled c'"
proof -
  let ?c = "counter_size_internals c"
  have c: "cnt_upto ?c = n" "cnt_size_digits ?c = counter_size_upto n"
    using assms(1) by (simp_all add: counter_size_internals_eq)
  have m: "cnt_mag_upto ?c \<le> 7" "10 ^ cnt_mag_upto ?c \<le> n" "n < 10 ^ Suc (cnt_mag_upto ?c)"
    using counter_size_internals_mag [of c] assms(1-3) by simp_all
  let ?ps = "ps0[n := counter_size_upto n]"
  have "counter_set_mags (cnt_mag_upto ?c) (cnt_mag_upto ?c) n buffer0 ?ps (digits0 @ []) =
    Some (map (\<lambda>i. length (digits_upto i)) [0..<n] @ drop n ?ps, digits_upto n @ [])"
    using m assms by (intro counter_set_mags_correct) (simp_all add: length_digits_upto)
  moreover have "drop n ?ps = [length (digits_upto n)]"
    using assms(3,5) by (intro nth_equalityI) (simp_all add: length_digits_upto)
  ultimately show ?thesis
    using assms c m(1)
    by (simp add: build_counter_def counter_init_internals_def counter_set_internals_def
      store_pointer_def counter_filled_def)
qed

text \<open>
  C21: for every \<open>upto\<close> the command accepts (1 to \<open>UPTO_MAX\<close>), whatever the fresh allocations hold,
  \<open>build_counter\<close> stays inside the blocks it sized itself, fills them with the strings of
  \<open>1 ... upto\<close> and their offsets, and publishes the counter; the incremented digit buffer, the
  precomputed sizes and the pointer table agree for all magnitudes.
\<close>

theorem build_counter_filled:
  assumes "cnt_upto c = n" "1 \<le> n" "n \<le> UPTO_MAX"
    and "malloc (n + 1) (counter_size_upto n) = Some (ps0, digits0)"
    and "length ps0 = n + 1" "length digits0 = counter_size_upto n" "length buffer0 = 9"
  shows "\<exists>c'. build_counter malloc buffer0 c = Some (Inr c') \<and> cnt_ready c' \<and> cnt_upto c' = n \<and>
    counter_filled c'"
  using assms by (rule counter_built)

theorem build_counter_filled_witness:
  "\<exists>c'. build_counter (\<lambda>i j. Some (replicate i 0, replicate j NUL)) (replicate 9 NUL) (counter_init 12) =
      Some (Inr c') \<and> cnt_ready c' \<and> cnt_upto c' = 12 \<and> counter_filled c'"
  by (rule build_counter_filled [of "counter_init 12" 12 _ "replicate 13 0" "replicate (counter_size_upto 12) NUL"])
    (simp_all only: length_replicate, simp_all add: counter_init_def UPTO_MAX_def)

end
