(* ===== verification/Group.thy ===== *)
theory Group
  imports Prelude Complex_Main
begin

text \<open>
  The group partitioners of \<open>src/generate/group.c\<close>: splitting the rows of a table into \<open>group_count\<close>
  groups. A partitioner writes the group sizes into the front of a fresh block and returns the
  address after them; the block is a list of \<open>size_t\<close> and a write past it is undefined. The
  contract \<open>group_partitioner\<close>, on which the grouped columns rest, asks for positive sizes that add
  up to the number of rows.
\<close>

section \<open>Definitions\<close>

definition store_size :: "nat list \<Rightarrow> nat \<Rightarrow> nat \<Rightarrow> nat list option" where
  "store_size gs i v = (if i < length gs then Some (gs[i := v]) else None)"

definition load_size :: "nat list \<Rightarrow> nat \<Rightarrow> nat option" where
  "load_size gs i = (if i < length gs then Some (gs ! i) else None)"

text \<open>\<open>for (group = from; group < until; ++group)\<close> with an assignment or an increment.\<close>

function while_group ::
  "(nat list \<Rightarrow> nat \<Rightarrow> nat list option) \<Rightarrow> nat \<Rightarrow> nat list \<Rightarrow> nat \<Rightarrow> (nat list \<times> nat) option" where
  "while_group body until gs cur =
     (if cur < until then do { gs' \<leftarrow> body gs cur; while_group body until gs' (cur + 1) }
      else Some (gs, cur))"
  by pat_completeness auto
termination
  by (relation "measure (\<lambda>(body, until, gs, cur). until - cur)") auto

declare while_group.simps [simp del]

text \<open>\<open>do ... while (group < until)\<close> runs its body at least once.\<close>

definition do_while_group ::
  "(nat list \<Rightarrow> nat \<Rightarrow> nat list option) \<Rightarrow> nat \<Rightarrow> nat list \<Rightarrow> nat \<Rightarrow> (nat list \<times> nat) option" where
  "do_while_group body until gs cur =
     do { gs' \<leftarrow> body gs cur; while_group body until gs' (cur + 1) }"

definition add_size :: "nat \<Rightarrow> nat list \<Rightarrow> nat \<Rightarrow> nat list option" where
  "add_size v gs i = do { g \<leftarrow> load_size gs i; store_size gs i (g + v) }"

text \<open>A division by zero is undefined.\<close>

definition partition_groups_even :: "nat list \<Rightarrow> nat \<Rightarrow> nat \<Rightarrow> (nat list \<times> nat) option" where
  "partition_groups_even gs group_count row_count =
     (if group_count = 0 then None
      else
        let until = group_count;
            group_div = row_count div group_count;
            group_rem = row_count mod group_count;
            extra_until = group_rem;
            group_extra = group_div + 1
        in do { (gs, cur) \<leftarrow> while_group (\<lambda>gs i. store_size gs i group_extra) extra_until gs 0;
                (gs, _) \<leftarrow> do_while_group (\<lambda>gs i. store_size gs i group_div) until gs cur;
                Some (gs, until) })"

text \<open>
  The linear partitioner computes with \<open>double\<close>s. The operations of \<open>double\<close> it uses are a
  parameter, so the results below hold for any rounding.
\<close>

record 'd double_ops =
  d_of_size :: "nat \<Rightarrow> 'd"
  d_add :: "'d \<Rightarrow> 'd \<Rightarrow> 'd"
  d_sub :: "'d \<Rightarrow> 'd \<Rightarrow> 'd"
  d_mult :: "'d \<Rightarrow> 'd \<Rightarrow> 'd"
  d_div :: "'d \<Rightarrow> 'd \<Rightarrow> 'd"
  d_to_size :: "'d \<Rightarrow> nat"

definition groups_linear_slope :: "'d double_ops \<Rightarrow> nat \<Rightarrow> nat \<Rightarrow> 'd" where
  "groups_linear_slope D group_count row_count =
     (let one = d_of_size D 1;
          group_count_dbl = d_of_size D group_count;
          group_max = d_sub D (d_div D (d_mult D (d_of_size D row_count) (d_of_size D 2)) group_count_dbl) one
      in d_div D (d_sub D group_max one) group_count_dbl)"

text \<open>The first loop: the truncated running value and the sum of the sizes.\<close>

function linear_loop ::
  "'d double_ops \<Rightarrow> 'd \<Rightarrow> nat \<Rightarrow> 'd \<Rightarrow> nat \<Rightarrow> nat list \<Rightarrow> nat \<Rightarrow> (nat list \<times> nat) option" where
  "linear_loop D slope until group_acc sum_rows gs cur =
     (if cur < until then
        do { let group_acc = d_add D group_acc slope;
             gs \<leftarrow> store_size gs cur (d_to_size D group_acc);
             linear_loop D slope until group_acc (sum_rows + d_to_size D group_acc) gs (cur + 1) }
      else Some (gs, sum_rows))"
  by pat_completeness auto
termination
  by (relation "measure (\<lambda>(D, slope, until, group_acc, sum_rows, gs, cur). until - cur)") auto

declare linear_loop.simps [simp del]

text \<open>The subtraction \<open>row_count - sum_rows\<close> is unsigned and wraps.\<close>

definition undershoot_of :: "nat \<Rightarrow> nat \<Rightarrow> nat" where
  "undershoot_of row_count sum_rows =
     unat (of_nat row_count - of_nat sum_rows :: 64 word)"

definition partition_groups_linear ::
  "'d double_ops \<Rightarrow> nat list \<Rightarrow> nat \<Rightarrow> nat \<Rightarrow> (nat list \<times> nat) option" where
  "partition_groups_linear D gs group_count row_count =
     (if group_count = 0 then None
      else
        let slope = groups_linear_slope D group_count row_count;
            from = 0;
            until = group_count
        in do { gs \<leftarrow> store_size gs 0 1;
                (gs, sum_rows) \<leftarrow> linear_loop D slope until (d_of_size D 1) 1 gs 1;
                let undershoot = undershoot_of row_count sum_rows;
                let undershoot_div = undershoot div group_count;
                let undershoot_rem = undershoot mod group_count;
                let group_extra = undershoot_div + 1;
                let extra_until = from + undershoot_rem;
                (gs, cur) \<leftarrow> while_group (add_size group_extra) extra_until gs from;
                (if 0 < undershoot_div then
                   do { (gs, _) \<leftarrow> do_while_group (add_size undershoot_div) until gs cur;
                        Some (gs, until) }
                 else Some (gs, until)) })"

section \<open>The loops\<close>

lemma while_group_map:
  assumes body: "\<And>gs i. i < length gs \<Longrightarrow> body gs i = Some (gs[i := f (gs ! i)])"
    and "i \<le> until" "until \<le> length gs"
  shows "while_group body until gs i = Some (take i gs @ map f (take (until - i) (drop i gs)) @ drop until gs, until)"
  using assms(2,3)
proof (induction "until - i" arbitrary: i gs)
  case 0
  then show ?case by (subst while_group.simps) simp
next
  case (Suc k)
  then have i: "i < length gs" "i < until" by auto
  let ?gs = "gs[i := f (gs ! i)]"
  have "while_group body until gs i = while_group body until ?gs (i + 1)"
    using i by (subst while_group.simps) (simp add: body)
  also have "\<dots> = Some (take (i + 1) ?gs @ map f (take (until - (i + 1)) (drop (i + 1) ?gs)) @ drop until ?gs, until)"
    using Suc by (intro Suc.hyps(1)) auto
  also have "take (i + 1) ?gs = take i gs @ [f (gs ! i)]"
    using i by (simp add: take_Suc_conv_app_nth)
  also have "[f (gs ! i)] = map f [gs ! i]" by simp
  finally show ?case
    using i by (simp add: Cons_nth_drop_Suc [symmetric] take_Cons' drop_update_cancel
        flip: Cons_nth_drop_Suc)
qed

lemma do_while_group_eq: "i < until \<Longrightarrow> do_while_group body until gs i = while_group body until gs i"
  by (subst while_group.simps) (simp add: do_while_group_def)

lemma store_size_map: "i < length gs \<Longrightarrow> store_size gs i v = Some (gs[i := (\<lambda>_. v) (gs ! i)])"
  by (simp add: store_size_def)

lemma add_size_map: "i < length gs \<Longrightarrow> add_size v gs i = Some (gs[i := (\<lambda>g. g + v) (gs ! i)])"
  by (simp add: add_size_def load_size_def store_size_def)

section \<open>The even partition\<close>

text \<open>The sizes differ by at most one, the larger groups first.\<close>

definition even_sizes :: "nat \<Rightarrow> nat \<Rightarrow> nat list" where
  "even_sizes n rows = replicate (rows mod n) (rows div n + 1) @ replicate (n - rows mod n) (rows div n)"

lemma partition_groups_even_eq:
  assumes "0 < n" "length gs = n"
  shows "partition_groups_even gs n rows = Some (even_sizes n rows, n)"
proof -
  let ?r = "rows mod n" and ?d = "rows div n"
  have r: "?r < n" using assms by simp
  have 1: "while_group (\<lambda>gs i. store_size gs i (?d + 1)) ?r gs 0 =
    Some (replicate ?r (?d + 1) @ drop ?r gs, ?r)"
    using while_group_map [where f = "\<lambda>_. ?d + 1", OF store_size_map, of 0 ?r gs] assms r by (simp add: map_replicate_const)
  have 2: "while_group (\<lambda>gs i. store_size gs i ?d) n (replicate ?r (?d + 1) @ drop ?r gs) ?r =
    Some (replicate ?r (?d + 1) @ replicate (n - ?r) ?d, n)"
    using while_group_map [where f = "\<lambda>_. ?d", OF store_size_map, of ?r n "replicate ?r (?d + 1) @ drop ?r gs"] assms r
    by (simp add: map_replicate_const)
  show ?thesis
    using assms(1) 1 2 r do_while_group_eq [OF r]
    by (simp add: partition_groups_even_def even_sizes_def Let_def)
qed

lemma sum_even_sizes: "0 < n \<Longrightarrow> sum_list (even_sizes n rows) = rows"
proof -
  assume "0 < n"
  then have "rows mod n \<le> n" by (simp add: less_imp_le)
  then have "sum_list (even_sizes n rows) = rows mod n + n * (rows div n)"
    by (simp add: even_sizes_def sum_list_replicate algebra_simps flip: add_mult_distrib2)
  then show ?thesis by simp
qed

section \<open>The linear partition\<close>

fun linear_sizes :: "'d double_ops \<Rightarrow> 'd \<Rightarrow> 'd \<Rightarrow> nat \<Rightarrow> nat list" where
  "linear_sizes D slope acc 0 = []"
| "linear_sizes D slope acc (Suc k) =
     d_to_size D (d_add D acc slope) # linear_sizes D slope (d_add D acc slope) k"

text \<open>The sizes before the undershoot is spread, and after.\<close>

definition truncated_sizes :: "'d double_ops \<Rightarrow> nat \<Rightarrow> nat \<Rightarrow> nat list" where
  "truncated_sizes D n rows =
     1 # linear_sizes D (groups_linear_slope D n rows) (d_of_size D 1) (n - 1)"

definition spread :: "nat \<Rightarrow> nat list \<Rightarrow> nat list" where
  "spread u gs =
     (let n = length gs
      in map (\<lambda>g. g + (u div n + 1)) (take (u mod n) gs) @ map (\<lambda>g. g + u div n) (drop (u mod n) gs))"

lemma length_linear_sizes [simp]: "length (linear_sizes D slope acc k) = k"
  by (induction k arbitrary: acc) simp_all

lemma length_spread [simp]: "gs \<noteq> [] \<Longrightarrow> length (spread u gs) = length gs"
  by (simp add: spread_def Let_def less_imp_le)

lemma sum_spread:
  assumes "gs \<noteq> []"
  shows "sum_list (spread u gs) = sum_list gs + u"
proof -
  define n r d where "n = length gs" and "r = u mod n" and "d = u div n"
  have "r \<le> n" using assms by (simp add: r_def n_def less_imp_le)
  then obtain k where k: "n = r + k" by (auto simp: le_iff_add)
  have u: "u = r + (r + k) * d" unfolding k [symmetric] by (simp add: r_def d_def)
  have add: "sum_list (map (\<lambda>g. g + m) xs) = sum_list xs + length xs * m" for m :: nat and xs
    by (induction xs) simp_all
  have s: "sum_list gs = sum_list (take r gs) + sum_list (drop r gs)"
    by (metis append_take_drop_id sum_list_append)
  have l: "length (take r gs) = r" "length (drop r gs) = k" using k by (simp_all add: n_def)
  show ?thesis
    unfolding spread_def Let_def n_def [symmetric] r_def [symmetric] d_def [symmetric] sum_list_append add l s
    using u by (simp add: algebra_simps)
qed

lemma linear_loop_sizes:
  assumes "length old = k"
  shows "linear_loop D slope (length pre + k) acc s (pre @ old) (length pre) =
    Some (pre @ linear_sizes D slope acc k, s + sum_list (linear_sizes D slope acc k))"
  using assms
proof (induction k arbitrary: pre old acc s)
  case 0
  then show ?case by (subst linear_loop.simps) simp
next
  case (Suc k)
  then obtain g old' where o: "old = g # old'" "length old' = k" by (auto simp: length_Suc_conv)
  let ?acc = "d_add D acc slope"
  have "linear_loop D slope (length pre + Suc k) acc s (pre @ old) (length pre) =
    linear_loop D slope (length (pre @ [d_to_size D ?acc]) + k) ?acc (s + d_to_size D ?acc)
      ((pre @ [d_to_size D ?acc]) @ old') (length (pre @ [d_to_size D ?acc]))"
    using o by (subst linear_loop.simps) (simp add: store_size_def list_update_append Let_def)
  then show ?case using Suc.IH [OF o(2), of "pre @ [d_to_size D ?acc]"] by simp
qed

lemma undershoot_of_eq: "s \<le> rows \<Longrightarrow> rows < 2 ^ 64 \<Longrightarrow> undershoot_of rows s = rows - s"
proof -
  assume a: "s \<le> rows" "rows < 2 ^ 64"
  then have "of_nat rows - of_nat s = (of_nat (rows - s) :: 64 word)" by simp
  moreover have "rows - s < 18446744073709551616" using a by simp
  ultimately show ?thesis by (simp only: undershoot_of_def unat_of_nat_uintmax)
qed

lemma partition_groups_linear_eq:
  assumes n: "0 < n" "length gs = n"
    and s: "sum_list (truncated_sizes D n rows) \<le> rows" "rows < 2 ^ 64"
  shows "partition_groups_linear D gs n rows =
    Some (spread (rows - sum_list (truncated_sizes D n rows)) (truncated_sizes D n rows), n)"
proof -
  define slope ts where "slope = groups_linear_slope D n rows" and
    "ts = linear_sizes D slope (d_of_size D 1) (n - 1)"
  define u where "u = rows - (1 + sum_list ts)"
  have t: "truncated_sizes D n rows = 1 # ts" "length (1 # ts) = n"
    using n by (simp_all add: truncated_sizes_def ts_def slope_def)
  obtain g old where gs: "gs = g # old" "length old = n - 1" using n by (cases gs) auto
  have 1: "linear_loop D slope n (d_of_size D 1) 1 (1 # old) 1 = Some (1 # ts, 1 + sum_list ts)"
    using linear_loop_sizes [OF gs(2), of D slope "[1]" "d_of_size D 1" 1] n by (simp add: ts_def)
  have u: "undershoot_of rows (1 + sum_list ts) = u"
    using s t by (simp add: undershoot_of_eq u_def)
  let ?r = "u mod n" and ?d = "u div n"
  let ?gs1 = "map (\<lambda>g. g + (?d + 1)) (take ?r (1 # ts)) @ drop ?r (1 # ts)"
  have r: "?r < n" using n by simp
  have 2: "while_group (add_size (?d + 1)) ?r (1 # ts) 0 = Some (?gs1, ?r)"
    using while_group_map [where f = "\<lambda>g. g + (?d + 1)", OF add_size_map, of 0 ?r "1 # ts"] r t(2) by simp
  have l: "length (take ?r (1 # ts)) = ?r" using r t(2) by simp
  have 3: "while_group (add_size ?d) n ?gs1 ?r = Some (spread u (1 # ts), n)"
    using while_group_map [where f = "\<lambda>g. g + ?d", OF add_size_map, of ?r n ?gs1] r t(2) l
    by (simp add: spread_def Let_def)
  have 4: "spread u (1 # ts) = ?gs1" if "?d = 0"
    using that t(2) by (simp add: spread_def Let_def)
  show ?thesis
    using n(1) gs(1) 1 2 3 4 u do_while_group_eq [OF r]
    by (simp add: partition_groups_linear_def store_size_def Let_def t(1) slope_def [symmetric] u_def)
qed

section \<open>The contract of a partitioner\<close>

locale group_partitioner =
  fixes partition :: "nat list \<Rightarrow> nat \<Rightarrow> nat \<Rightarrow> (nat list \<times> nat) option"
  assumes partitions: "0 < n \<Longrightarrow> n \<le> rows \<Longrightarrow> rows < 2 ^ 64 \<Longrightarrow> length gs = n \<Longrightarrow>
    \<exists>sizes. partition gs n rows = Some (sizes, n) \<and> length sizes = n \<and> sum_list sizes = rows \<and>
      (\<forall>g \<in> set sizes. 0 < g)"
begin

lemma no_group_too_large:
  assumes "0 < n" "n \<le> rows" "rows < 2 ^ 64" "length gs = n" "partition gs n rows = Some (sizes, p)"
    and "g \<in> set sizes"
  shows "g \<le> rows"
  using partitions [OF assms(1-4)] assms(5,6) by (auto intro: member_le_sum_list)

lemma single_group:
  assumes "0 < rows" "rows < 2 ^ 64" "length gs = 1"
  shows "partition gs 1 rows = Some ([rows], 1)"
proof -
  obtain sizes where s: "partition gs 1 rows = Some (sizes, 1)" "length sizes = 1" "sum_list sizes = rows"
    using partitions [of 1 rows gs] assms by auto
  then have "sizes = [rows]" by (cases sizes) auto
  with s show ?thesis by simp
qed

end

interpretation even: group_partitioner partition_groups_even
proof unfold_locales
  fix n rows gs assume a: "0 < n" "n \<le> rows" "length (gs :: nat list) = n"
  then have "0 < rows div n" by (simp add: div_greater_zero_iff)
  then have "\<forall>g \<in> set (even_sizes n rows). 0 < g" by (auto simp: even_sizes_def)
  moreover have "length (even_sizes n rows) = n" using a by (simp add: even_sizes_def less_imp_le)
  ultimately show "\<exists>sizes. partition_groups_even gs n rows = Some (sizes, n) \<and> length sizes = n \<and>
      sum_list sizes = rows \<and> (\<forall>g \<in> set sizes. 0 < g)"
    using a partition_groups_even_eq [of n gs rows] sum_even_sizes [of n rows] by blast
qed

text \<open>Exact arithmetic on rationals, an instance of the operations of \<open>double\<close>.\<close>

definition rat_ops :: "rat double_ops" where
  "rat_ops = \<lparr>d_of_size = of_nat, d_add = (+), d_sub = (-), d_mult = (*), d_div = (/),
     d_to_size = (\<lambda>x. nat \<lfloor>x\<rfloor>)\<rparr>"

lemma rat_slope:
  "0 < n \<Longrightarrow> groups_linear_slope rat_ops n rows = (of_nat rows * 2 / of_nat n - 2) / of_nat n"
  by (simp add: groups_linear_slope_def rat_ops_def Let_def)

text \<open>With exact arithmetic the truncated sizes are positive and add up to at most the rows.\<close>

lemma rat_sizes_sum:
  assumes "0 \<le> slope" "0 \<le> acc"
  shows "of_nat (sum_list (linear_sizes rat_ops slope acc k)) \<le>
    of_nat k * acc + slope * (of_nat k * (of_nat k + 1) / 2)"
  using assms
proof (induction k arbitrary: acc)
  case (Suc k)
  have "of_nat (nat \<lfloor>acc + slope\<rfloor>) \<le> acc + slope" using Suc.prems by simp
  moreover have "of_nat (sum_list (linear_sizes rat_ops slope (acc + slope) k)) \<le>
    of_nat k * (acc + slope) + slope * (of_nat k * (of_nat k + 1) / 2)"
    using Suc.prems by (intro Suc.IH) auto
  ultimately show ?case by (simp add: rat_ops_def field_simps)
qed simp

lemma rat_sizes_pos: "0 \<le> slope \<Longrightarrow> 1 \<le> acc \<Longrightarrow> g \<in> set (linear_sizes rat_ops slope acc k) \<Longrightarrow> 0 < g"
proof (induction k arbitrary: acc)
  case (Suc k)
  have "0 < nat \<lfloor>acc + slope\<rfloor>" using Suc.prems by (simp add: zero_less_floor)
  moreover have "g \<in> set (linear_sizes rat_ops slope (acc + slope) k) \<Longrightarrow> 0 < g"
    using Suc.prems by (intro Suc.IH [of "acc + slope"]) auto
  ultimately show ?case using Suc.prems by (auto simp: rat_ops_def)
qed simp

lemma rat_truncated_sum:
  assumes "0 < n" "n \<le> rows"
  shows "sum_list (truncated_sizes rat_ops n rows) \<le> rows"
proof -
  define N R :: rat where "N = of_nat n" and "R = of_nat rows"
  have N: "1 \<le> N" "N \<le> R" using assms by (simp_all add: N_def R_def)
  let ?slope = "(R * 2 / N - 2) / N"
  have s0: "0 \<le> ?slope" using N by (simp add: field_simps)
  let ?ls = "linear_sizes rat_ops ?slope 1 (n - 1)"
  have k: "of_nat (n - 1) = N - 1" using assms by (simp add: N_def of_nat_diff)
  have "of_nat (sum_list ?ls) \<le> (N - 1) * 1 + ?slope * ((N - 1) * ((N - 1) + 1) / 2)"
    using rat_sizes_sum [OF s0 zero_le_one, of "n - 1"] by (simp only: k)
  also have "\<dots> = (N - 1) + (R / N - 1) * (N - 1)" using N by (simp add: field_simps)
  also have "\<dots> = R - R / N" using N by (simp add: field_simps)
  also have "\<dots> \<le> R - 1" using N by (simp add: field_simps)
  finally have "of_nat (1 + sum_list ?ls) \<le> (of_nat rows :: rat)" by (simp add: R_def)
  then have "1 + sum_list ?ls \<le> rows" by (simp only: of_nat_le_iff)
  moreover have "groups_linear_slope rat_ops n rows = ?slope"
    using assms by (simp add: rat_slope N_def R_def)
  ultimately show ?thesis by (simp add: truncated_sizes_def rat_ops_def)
qed

text \<open>
  What the linear partitioner needs of the arithmetic of \<open>double\<close> to split these rows into that many
  groups: the truncated sizes are positive and do not add up to more than the rows.
\<close>

definition linear_fits :: "'d double_ops \<Rightarrow> nat \<Rightarrow> nat \<Rightarrow> bool" where
  "linear_fits D n rows \<longleftrightarrow> sum_list (truncated_sizes D n rows) \<le> rows \<and> list_all ((<) 0) (truncated_sizes D n rows)"

lemma linear_fits_partitions:
  assumes "linear_fits D n rows" "0 < n" "rows < 2 ^ 64" "length gs = n"
  shows "\<exists>sizes. partition_groups_linear D gs n rows = Some (sizes, n) \<and> length sizes = n \<and> sum_list sizes = rows \<and>
    (\<forall>g \<in> set sizes. 0 < g)"
proof -
  let ?t = "truncated_sizes D n rows"
  let ?sizes = "spread (rows - sum_list ?t) ?t"
  have le: "sum_list ?t \<le> rows" "list_all ((<) 0) ?t" using assms(1) by (simp_all add: linear_fits_def)
  have t: "?t \<noteq> []" "length ?t = n" using assms(2) by (simp_all add: truncated_sizes_def)
  have "\<forall>g \<in> set ?sizes. 0 < g"
    using le(2) by (auto simp: spread_def Let_def list_all_iff dest: in_set_takeD in_set_dropD)
  then show ?thesis
    using partition_groups_linear_eq [OF assms(2,4) le(1) assms(3)] t le(1) by (simp add: sum_spread)
qed

lemma rat_linear_fits:
  assumes "0 < n" "n \<le> rows"
  shows "linear_fits rat_ops n rows"
proof -
  have "0 \<le> groups_linear_slope rat_ops n rows" using assms by (simp add: rat_slope field_simps)
  then have "\<forall>g \<in> set (truncated_sizes rat_ops n rows). 0 < g"
    using rat_sizes_pos by (auto simp: truncated_sizes_def rat_ops_def)
  then show ?thesis using rat_truncated_sum [OF assms] by (simp add: linear_fits_def list_all_iff)
qed

interpretation linear: group_partitioner "partition_groups_linear rat_ops"
  by unfold_locales (intro linear_fits_partitions rat_linear_fits; assumption)

text \<open>
  C19: \<open>partition_groups_even\<close> fills the block with exactly \<open>group_count\<close> positive sizes that add up
  to the rows, any two of which differ by at most one, whenever there are at least as many rows as
  groups (which the argument parser ensures).
\<close>

theorem partition_groups_even_correct:
  assumes "0 < n" "n \<le> rows" "length gs = n"
  shows "\<exists>sizes. partition_groups_even gs n rows = Some (sizes, n) \<and> length sizes = n \<and>
    sum_list sizes = rows \<and> (\<forall>g \<in> set sizes. rows div n \<le> g \<and> g \<le> rows div n + 1 \<and> 0 < g)"
proof -
  have "0 < rows div n" using assms by (simp add: div_greater_zero_iff)
  moreover have "length (even_sizes n rows) = n" using assms by (simp add: even_sizes_def less_imp_le)
  moreover have "\<forall>g \<in> set (even_sizes n rows). g = rows div n \<or> g = rows div n + 1"
    by (auto simp: even_sizes_def)
  ultimately show ?thesis
    using partition_groups_even_eq [OF assms(1,3), of rows] sum_even_sizes [OF assms(1), of rows] by fastforce
qed

theorem partition_groups_even_correct_witness:
  "\<exists>sizes. partition_groups_even [7, 7, 7] 3 11 = Some (sizes, 3) \<and> length sizes = 3 \<and> sum_list sizes = 11 \<and>
    (\<forall>g \<in> set sizes. 11 div 3 \<le> g \<and> g \<le> 11 div 3 + 1 \<and> 0 < g)"
  by (rule partition_groups_even_correct) simp_all

text \<open>
  C20: \<open>partition_groups_linear\<close> yields \<open>group_count\<close> sizes that add up to the rows whatever the
  rounding of \<open>double\<close>, provided the truncated sizes of its first loop do not already exceed the
  rows: the undershoot is spread completely, and no size falls below its truncated value.
\<close>

theorem partition_groups_linear_sum:
  assumes "0 < n" "length gs = n" "sum_list (truncated_sizes D n rows) \<le> rows" "rows < 2 ^ 64"
  shows "\<exists>sizes. partition_groups_linear D gs n rows = Some (sizes, n) \<and> length sizes = n \<and>
    sum_list sizes = rows \<and> list_all2 (\<le>) (truncated_sizes D n rows) sizes"
proof -
  let ?t = "truncated_sizes D n rows"
  have t: "?t \<noteq> []" "length ?t = n" using assms(1) by (simp_all add: truncated_sizes_def)
  have "list_all2 (\<le>) (take k ?t @ drop k ?t) (map (\<lambda>g. g + a) (take k ?t) @ map (\<lambda>g. g + b) (drop k ?t))"
    for a b k by (intro list_all2_appendI) (simp_all add: list_all2_conv_all_nth)
  then have "list_all2 (\<le>) ?t (spread u ?t)" for u unfolding spread_def Let_def append_take_drop_id by blast
  then show ?thesis using partition_groups_linear_eq [OF assms] t assms(3) by (simp add: sum_spread)
qed

theorem partition_groups_linear_sum_witness:
  "sum_list (truncated_sizes rat_ops 4 11) \<le> 11 \<and>
   (\<exists>sizes. partition_groups_linear rat_ops [0, 0, 0, 0] 4 11 = Some (sizes, 4) \<and> length sizes = 4 \<and>
      sum_list sizes = 11 \<and> list_all2 (\<le>) (truncated_sizes rat_ops 4 11) sizes)"
  using rat_truncated_sum [of 4 11] partition_groups_linear_sum [of 4 "[0, 0, 0, 0]" rat_ops 11] by simp

end
