(* ===== verification/Memory.thy ===== *)
theory Memory
  imports Prelude
begin

text \<open>
  The word-wise block routines of \<open>src/memory/\<close>: \<open>memory_put_array.h\<close>, \<open>memory_copy_array.h\<close>,
  \<open>memory_zero.h\<close> and \<open>memory_swap.h\<close>, for the 64-bit target (\<open>WORD_SIZE\<close> is 8). They copy eight
  bytes at a time and finish with one assignment of the remaining width. The lemmas show that each
  is the plain byte copy of its size.
\<close>

definition WORD_SIZE :: nat where
  "WORD_SIZE = 8"

definition DIV_WORD_SIZE :: "nat \<Rightarrow> nat" where
  "DIV_WORD_SIZE n = drop_bit 3 n"

definition REM_WORD_SIZE :: "nat \<Rightarrow> nat" where
  "REM_WORD_SIZE n = n AND 7"

lemma DIV_WORD_SIZE_div: "DIV_WORD_SIZE n = n div 8"
  by (simp add: DIV_WORD_SIZE_def drop_bit_eq_div)

lemma REM_WORD_SIZE_mod: "REM_WORD_SIZE n = n mod 8"
  using take_bit_eq_mask [of 3 n] by (simp add: REM_WORD_SIZE_def mask_eq_exp_minus_1 take_bit_eq_mod)

lemma word_size_split: "8 * DIV_WORD_SIZE n + REM_WORD_SIZE n = n"
  by (simp add: DIV_WORD_SIZE_div REM_WORD_SIZE_mod)

section \<open>Assignments of a fixed width\<close>

definition load_string :: "bytes \<Rightarrow> nat \<Rightarrow> nat \<Rightarrow> bytes option" where
  "load_string src q w = (if q + w \<le> length src then Some (take w (drop q src)) else None)"

lemma load_string_append [mem_simps]:
  "w = length s \<Longrightarrow> load_string (xs @ s @ ys) (length xs) w = Some s"
  by (simp add: load_string_def)

lemma load_string_length [len_simps]: "load_string src q w = Some s \<Longrightarrow> length s = w"
  by (auto simp: load_string_def split: if_splits)

definition MEMORY_SET_WIDTH :: "nat \<Rightarrow> bytes \<Rightarrow> nat \<Rightarrow> bytes \<Rightarrow> nat \<Rightarrow> bytes option" where
  "MEMORY_SET_WIDTH w src q b p = do { s \<leftarrow> load_string src q w; store_string b p s }"

definition MEMORY_PUT_WIDTH :: "nat \<Rightarrow> bytes \<Rightarrow> nat \<Rightarrow> put" where
  "MEMORY_PUT_WIDTH w src q b p = do { b' \<leftarrow> MEMORY_SET_WIDTH w src q b p; Some (b', p + w) }"

lemma MEMORY_SET_WIDTH_append [mem_simps]:
  "length old = length s \<Longrightarrow> w = length s \<Longrightarrow>
    MEMORY_SET_WIDTH w (pre @ s @ post) (length pre) (xs @ old @ ys) (length xs) = Some (xs @ s @ ys)"
  by (simp add: MEMORY_SET_WIDTH_def mem_simps)

lemma writes_MEMORY_PUT_WIDTH:
  "w = length s \<Longrightarrow> writes (MEMORY_PUT_WIDTH w (pre @ s @ post) (length pre)) s"
  by (rule writesI) (simp add: MEMORY_PUT_WIDTH_def mem_simps)

section \<open>The word loop\<close>

text \<open>
  \<open>PUT_WORDS_LOOP\<close>: at least one word; on exit the source pointer is still at the last word. The
  source \<open>src\<close> and the target \<open>b\<close> are distinct blocks (the pointers are \<open>restrict\<close>).
\<close>

function PUT_WORDS_LOOP :: "bytes \<Rightarrow> nat \<Rightarrow> bytes \<Rightarrow> nat \<Rightarrow> nat \<Rightarrow> (bytes \<times> nat \<times> nat) option" where
  "PUT_WORDS_LOOP src end_ptr b x y =
     do { b' \<leftarrow> MEMORY_SET_WIDTH WORD_SIZE src y b x;
          let x' = x + WORD_SIZE;
          if x' = end_ptr then Some (b', x', y)
          else PUT_WORDS_LOOP src end_ptr b' x' (y + WORD_SIZE) }"
  by pat_completeness auto
termination
  by (relation "measure (\<lambda>(src, end_ptr, b, x, y). length b - x)")
     (auto simp: MEMORY_SET_WIDTH_def load_string_def store_string_def WORD_SIZE_def
       split: if_splits bind_splits)

declare PUT_WORDS_LOOP.simps [simp del]

lemma PUT_WORDS_LOOP_put:
  assumes "length s = 8 * Suc k" "length old = length s"
  shows "PUT_WORDS_LOOP (pre @ s @ post) (length xs + length s) (xs @ old @ ys) (length xs) (length pre) =
    Some (xs @ s @ ys, length xs + length s, length pre + 8 * k)"
  using assms
proof (induction k arbitrary: pre s xs old)
  case 0
  then show ?case
    by (subst PUT_WORDS_LOOP.simps) (simp add: mem_simps WORD_SIZE_def)
next
  case (Suc k)
  define s1 s2 o1 o2 where "s1 = take 8 s" and "s2 = drop 8 s" and "o1 = take 8 old" and "o2 = drop 8 old"
  have s: "s = s1 @ s2" "length s1 = 8" "length s2 = 8 * Suc k"
    using Suc.prems by (simp_all add: s1_def s2_def)
  have o: "old = o1 @ o2" "length o1 = 8" "length o2 = length s2"
    using Suc.prems by (simp_all add: o1_def o2_def s2_def)
  have 1: "MEMORY_SET_WIDTH 8 (pre @ s1 @ s2 @ post) (length pre) (xs @ o1 @ o2 @ ys) (length xs) =
    Some (xs @ s1 @ o2 @ ys)"
    using s o by (intro MEMORY_SET_WIDTH_append) auto
  have 2: "PUT_WORDS_LOOP ((pre @ s1) @ s2 @ post) (length (xs @ s1) + length s2) ((xs @ s1) @ o2 @ ys)
      (length (xs @ s1)) (length (pre @ s1)) =
    Some ((xs @ s1) @ s2 @ ys, length (xs @ s1) + length s2, length (pre @ s1) + 8 * k)"
    using s o by (intro Suc.IH) auto
  show ?case
    using 1 2 s o by (subst PUT_WORDS_LOOP.simps) (simp add: WORD_SIZE_def add.assoc)
qed

section \<open>\<open>memory_put_array\<close>, \<open>memory_copy_array\<close>\<close>

text \<open>
  \<open>memory_put_array<width>\<close> for \<open>width\<close> from 0 to 16 (\<open>MEMORY_PUT_ARRAY_MAP\<close> holds them by width).
  The width of a word has a branch of its own. The sizes are those of existing blocks, so the
  products do not wrap.
\<close>

definition memory_put_array :: "nat \<Rightarrow> bytes \<Rightarrow> nat \<Rightarrow> nat \<Rightarrow> put" where
  "memory_put_array width src y n b x =
     (if width = 0 then Some (b, x)
      else if width = WORD_SIZE then
        (if n = 0 then Some (b, x)
         else do { (b', x', _) \<leftarrow> PUT_WORDS_LOOP src (x + WORD_SIZE * n) b x y; Some (b', x') })
      else
        let array_size = n * width;
            length_words = DIV_WORD_SIZE array_size;
            rem_size = REM_WORD_SIZE array_size
        in (if length_words = 0 then MEMORY_PUT_WIDTH rem_size src y b x
            else do { (b', x', y') \<leftarrow> PUT_WORDS_LOOP src (x + WORD_SIZE * length_words) b x y;
                      MEMORY_PUT_WIDTH rem_size src (y' + WORD_SIZE) b' x' }))"

definition memory_copy_array :: "nat \<Rightarrow> bytes \<Rightarrow> nat \<Rightarrow> nat \<Rightarrow> bytes \<Rightarrow> nat \<Rightarrow> bytes option" where
  "memory_copy_array width src y n b x =
     (if width = 0 then Some b
      else if width = WORD_SIZE then
        (if n = 0 then Some b
         else do { (b', _, _) \<leftarrow> PUT_WORDS_LOOP src (x + WORD_SIZE * n) b x y; Some b' })
      else
        let array_size = n * width;
            length_words = DIV_WORD_SIZE array_size;
            rem_size = REM_WORD_SIZE array_size
        in (if length_words = 0 then MEMORY_SET_WIDTH rem_size src y b x
            else do { (b', x', y') \<leftarrow> PUT_WORDS_LOOP src (x + WORD_SIZE * length_words) b x y;
                      MEMORY_SET_WIDTH rem_size src (y' + WORD_SIZE) b' x' }))"

text \<open>The macros \<open>memory_put\<close> and \<open>memory_copy\<close> are the width 1 instances.\<close>

definition memory_put :: "bytes \<Rightarrow> nat \<Rightarrow> nat \<Rightarrow> put" where
  "memory_put src y n = memory_put_array 1 src y n"

definition memory_copy :: "bytes \<Rightarrow> nat \<Rightarrow> nat \<Rightarrow> bytes \<Rightarrow> nat \<Rightarrow> bytes option" where
  "memory_copy src y n = memory_copy_array 1 src y n"

text \<open>The shared core of both: words, then the rest.\<close>

lemma words_and_rem:
  assumes "length old = length s" "DIV_WORD_SIZE (length s) \<noteq> 0"
  shows "\<exists>y' b' x'. PUT_WORDS_LOOP (pre @ s @ post) (length xs + WORD_SIZE * DIV_WORD_SIZE (length s))
      (xs @ old @ ys) (length xs) (length pre) = Some (b', x', y') \<and>
    x' = length xs + 8 * DIV_WORD_SIZE (length s) \<and>
    MEMORY_SET_WIDTH (REM_WORD_SIZE (length s)) (pre @ s @ post) (y' + WORD_SIZE) b' x' = Some (xs @ s @ ys)"
proof -
  let ?n = "8 * DIV_WORD_SIZE (length s)"
  have n: "?n + REM_WORD_SIZE (length s) = length s" by (rule word_size_split)
  obtain k where k: "DIV_WORD_SIZE (length s) = Suc k" using assms(2) not0_implies_Suc by blast
  define s1 s2 o1 o2 where "s1 = take ?n s" and "s2 = drop ?n s" and "o1 = take ?n old" and "o2 = drop ?n old"
  have s: "s = s1 @ s2" "length s1 = 8 * Suc k" "length s2 = REM_WORD_SIZE (length s)"
    using n k by (simp_all add: s1_def s2_def)
  have o: "old = o1 @ o2" "length o1 = length s1" "length o2 = length s2"
    using n assms(1) by (simp_all add: o1_def o2_def s1_def s2_def)
  have e: "\<And>us vs. us @ s @ vs = us @ s1 @ s2 @ vs" using s(1) by simp
  have 1: "PUT_WORDS_LOOP (pre @ s1 @ s2 @ post) (length xs + length s1) (xs @ o1 @ o2 @ ys)
      (length xs) (length pre) = Some (xs @ s1 @ o2 @ ys, length xs + length s1, length pre + 8 * k)"
    using s(2) o(2) by (rule PUT_WORDS_LOOP_put)
  have 2: "MEMORY_SET_WIDTH (length s2) ((pre @ s1) @ s2 @ post) (length (pre @ s1))
      ((xs @ s1) @ o2 @ ys) (length (xs @ s1)) = Some ((xs @ s1) @ s2 @ ys)"
    using o(3) by (intro MEMORY_SET_WIDTH_append) auto
  have "PUT_WORDS_LOOP (pre @ s @ post) (length xs + WORD_SIZE * DIV_WORD_SIZE (length s))
      (xs @ old @ ys) (length xs) (length pre) =
      Some (xs @ s1 @ o2 @ ys, length xs + 8 * DIV_WORD_SIZE (length s), length pre + 8 * k)"
    using 1 unfolding k by (simp add: WORD_SIZE_def o(1) e s(2))
  moreover have "MEMORY_SET_WIDTH (REM_WORD_SIZE (length s)) (pre @ s @ post) (length pre + 8 * k + WORD_SIZE)
      (xs @ s1 @ o2 @ ys) (length xs + 8 * DIV_WORD_SIZE (length s)) = Some (xs @ s @ ys)"
    using 2 unfolding k s(3) [symmetric] by (simp add: WORD_SIZE_def e s(2) ac_simps)
  ultimately show ?thesis by blast
qed

lemma put_array_writes:
  assumes "length s = n * width"
  shows "writes (memory_put_array width (pre @ s @ post) (length pre) n) s"
proof (rule writesI)
  fix xs old ys :: bytes assume l: "length old = length s"
  let ?go = "memory_put_array width (pre @ s @ post) (length pre) n (xs @ old @ ys) (length xs)"
  consider "width = 0 \<or> n = 0" | "width = 8" "n \<noteq> 0" | "width \<noteq> 0" "width \<noteq> 8" "n \<noteq> 0" by blast
  then show "?go = Some (xs @ s @ ys, length xs + length s)"
  proof cases
    case 1
    then have "s = []" "old = []" using assms l by auto
    then show ?thesis
      using 1 by (auto simp: memory_put_array_def WORD_SIZE_def DIV_WORD_SIZE_def REM_WORD_SIZE_def
          MEMORY_PUT_WIDTH_def MEMORY_SET_WIDTH_def load_string_def store_string_def)
  next
    case 2
    then obtain k where k: "n = Suc k" using not0_implies_Suc by blast
    then have "length s = 8 * Suc k" using assms 2 by simp
    then show ?thesis
      using PUT_WORDS_LOOP_put [of s k old pre post xs ys] l 2 k
      by (simp add: memory_put_array_def WORD_SIZE_def)
  next
    case 3
    show ?thesis
    proof (cases "DIV_WORD_SIZE (length s) = 0")
      case True
      then have "REM_WORD_SIZE (length s) = length s" using word_size_split [of "length s"] by simp
      then show ?thesis
        using True 3 l assms
        by (simp add: memory_put_array_def WORD_SIZE_def MEMORY_PUT_WIDTH_def mem_simps)
    next
      case False
      then show ?thesis
        using words_and_rem [OF l False, of pre post xs ys] 3 assms word_size_split [of "length s"]
        by (auto simp: memory_put_array_def MEMORY_PUT_WIDTH_def WORD_SIZE_def Let_def)
    qed
  qed
qed

lemma memory_put_writes: "length s = n \<Longrightarrow> writes (memory_put (pre @ s @ post) (length pre) n) s"
  unfolding memory_put_def by (rule put_array_writes) simp

text \<open>
  For every element width up to sixteen, \<open>memory_put_array\<close> writes exactly the \<open>n * width\<close>
  bytes of its source, neither touching nor reading anything else, and returns the address after
  them, however the size splits into words and a rest.
\<close>

theorem memory_put_array_writes:
  assumes "length s = n * width"
  shows "writes (memory_put_array width (pre @ s @ post) (length pre) n) s"
  using assms by (rule put_array_writes)

theorem memory_put_array_writes_witness:
  "length ''abcdefghij'' = 2 * 5 \<and> writes (memory_put_array 5 (''__'' @ ''abcdefghij'' @ ''_'') (length ''__'') 2) ''abcdefghij''"
  by (intro conjI memory_put_array_writes) simp_all

lemma memory_copy_put [mem_simps]:
  assumes "length s = n" "length old = n"
  shows "memory_copy (pre @ s @ post) (length pre) n (xs @ old @ ys) (length xs) = Some (xs @ s @ ys)"
proof (cases "DIV_WORD_SIZE (length s) = 0")
  case True
  then have "REM_WORD_SIZE (length s) = length s" using word_size_split [of "length s"] by simp
  then show ?thesis
    using True assms by (simp add: memory_copy_def memory_copy_array_def WORD_SIZE_def mem_simps)
next
  case False
  have "length old = length s" using assms by simp
  from words_and_rem [OF this False, of pre post xs ys] False assms show ?thesis
    by (auto simp: memory_copy_def memory_copy_array_def WORD_SIZE_def)
qed

section \<open>\<open>memory_zero\<close> and \<open>memory_swap\<close>\<close>

fun zero_words :: "nat \<Rightarrow> bytes \<Rightarrow> nat \<Rightarrow> (bytes \<times> nat) option" where
  "zero_words 0 b from = Some (b, from)"
| "zero_words (Suc n) b from =
     do { b' \<leftarrow> store_string b from (replicate WORD_SIZE NUL); zero_words n b' (from + WORD_SIZE) }"

definition memory_zero :: "bytes \<Rightarrow> nat \<Rightarrow> nat \<Rightarrow> bytes option" where
  "memory_zero b ptr n =
     do { (b', from) \<leftarrow> zero_words (DIV_WORD_SIZE n) b ptr;
          store_string b' from (replicate (REM_WORD_SIZE n) NUL) }"

lemma zero_words_put: "writes (zero_words k) (replicate (8 * k) NUL)"
proof (induction k)
  case 0
  show ?case by (rule writesI) simp
next
  case (Suc k)
  have "writes (\<lambda>b p. map_option (\<lambda>b'. (b', p + 8)) (store_string b p (replicate 8 NUL))) (replicate 8 NUL)"
    by (rule writesI) (simp add: mem_simps)
  from writes_bind [OF this Suc]
  have "writes (\<lambda>b p. do { (b', p') \<leftarrow> map_option (\<lambda>b'. (b', p + 8)) (store_string b p (replicate 8 NUL));
      zero_words k b' p' }) (replicate (8 * Suc k) NUL)"
    by (simp add: replicate_add [symmetric])
  moreover have "(\<lambda>b p. do { (b', p') \<leftarrow> map_option (\<lambda>b'. (b', p + 8)) (store_string b p (replicate 8 NUL));
      zero_words k b' p' }) = zero_words (Suc k)"
    by (intro ext) (simp add: WORD_SIZE_def bind_map_option comp_def)
  ultimately show ?case by (simp only:)
qed

text \<open>
  The pointers of a swap are \<open>restrict\<close>: three distinct objects of \<open>width\<close> bytes. \<open>memory_swap_width\<close>
  takes its buffer from the stack, \<open>memory_swap_buffer\<close> from the caller.
\<close>

definition memory_swap_buffer :: "bytes \<Rightarrow> bytes \<Rightarrow> bytes \<Rightarrow> nat \<Rightarrow> (bytes \<times> bytes \<times> bytes) option" where
  "memory_swap_buffer x y buffer width =
     do { buffer' \<leftarrow> memory_copy x 0 width buffer 0;
          x' \<leftarrow> memory_copy y 0 width x 0;
          y' \<leftarrow> memory_copy buffer' 0 width y 0;
          Some (x', y', buffer') }"

text \<open>\<open>memory_zero\<close> clears exactly the bytes it is given.\<close>

lemma memory_zero_clears:
  assumes "length old = n"
  shows "memory_zero (xs @ old @ ys) (length xs) n = Some (xs @ replicate n NUL @ ys)"
proof -
  let ?k = "8 * DIV_WORD_SIZE n"
  have n: "?k + REM_WORD_SIZE n = n" by (rule word_size_split)
  define o1 o2 where "o1 = take ?k old" and "o2 = drop ?k old"
  have o: "old = o1 @ o2" "length o1 = ?k" "length o2 = REM_WORD_SIZE n"
    using n assms by (simp_all add: o1_def o2_def)
  have 1: "zero_words (DIV_WORD_SIZE n) (xs @ o1 @ o2 @ ys) (length xs) =
    Some (xs @ replicate ?k NUL @ o2 @ ys, length xs + ?k)"
    using writesD [OF zero_words_put, of o1 "DIV_WORD_SIZE n" "length xs" xs "o2 @ ys"] o by simp
  have 2: "store_string ((xs @ replicate ?k NUL) @ o2 @ ys) (length (xs @ replicate ?k NUL))
      (replicate (REM_WORD_SIZE n) NUL) =
    Some ((xs @ replicate ?k NUL) @ replicate (REM_WORD_SIZE n) NUL @ ys)"
    using o by (intro store_string_append) simp
  show ?thesis
    using 1 2 replicate_add [of ?k "REM_WORD_SIZE n" NUL] n
    by (simp add: memory_zero_def o(1) append_assoc [symmetric] del: append_assoc)
qed

lemma memory_swap_buffer_swaps:
  assumes "length x = n" "length y = n" "length buffer = n"
  shows "memory_swap_buffer x y buffer n = Some (y, x, x)"
  using assms memory_copy_put [of x n buffer "[]" "[]" "[]" "[]"] memory_copy_put [of y n x "[]" "[]" "[]" "[]"]
    memory_copy_put [of x n y "[]" "[]" "[]" "[]"]
  by (simp add: memory_swap_buffer_def)

end
