(* ===== verification/Put_String.thy ===== *)
theory Put_String
  imports Memory
begin

text \<open>
  Copying of strings, \<open>copy_string\<close> to \<open>put_string_inspect\<close> of \<open>src/string/string_utils.h\<close>. A source
  string that is read up to its terminator is the list of its bytes (none of them NUL); a source
  that is read by width or size is a block and an offset. The lemmas state which string each routine
  \<open>writes\<close>; \<open>put_string_closure_call\<close>, the routine every generated cell and column name goes
  through, is the provider of the locale \<open>put_closure\<close>.
\<close>

section \<open>Copying up to the terminator\<close>

fun copy_string :: "bytes \<Rightarrow> nat \<Rightarrow> string \<Rightarrow> bytes option" where
  "copy_string b buffer [] = Some b"
| "copy_string b buffer (c # s) = do { b' \<leftarrow> store b buffer c; copy_string b' (buffer + 1) s }"

fun copy_string_stop :: "bytes \<Rightarrow> nat \<Rightarrow> string \<Rightarrow> bytes option" where
  "copy_string_stop b buffer [] = store b buffer NUL"
| "copy_string_stop b buffer (c # s) = do { b' \<leftarrow> store b buffer c; copy_string_stop b' (buffer + 1) s }"

fun put_string :: "string \<Rightarrow> put" where
  "put_string [] b buffer = Some (b, buffer)"
| "put_string (c # s) b buffer = do { b' \<leftarrow> store b buffer c; put_string s b' (buffer + 1) }"

fun put_string_stop :: "string \<Rightarrow> put" where
  "put_string_stop [] b buffer = do { b' \<leftarrow> store b buffer NUL; Some (b', buffer + 1) }"
| "put_string_stop (c # s) b buffer = do { b' \<leftarrow> store b buffer c; put_string_stop s b' (buffer + 1) }"

fun put_string_length :: "string \<Rightarrow> nat \<Rightarrow> put" where
  "put_string_length s 0 b buffer = Some (b, buffer)"
| "put_string_length [] (Suc n) b buffer = Some (b, buffer)"
| "put_string_length (c # s) (Suc n) b buffer =
     do { b' \<leftarrow> store b buffer c; put_string_length s n b' (buffer + 1) }"

fun put_string_until :: "string \<Rightarrow> nat \<Rightarrow> put" where
  "put_string_until [] until b buffer = Some (b, buffer)"
| "put_string_until (c # s) until b buffer =
     (if buffer = until then Some (b, buffer)
      else do { b' \<leftarrow> store b buffer c; put_string_until s until b' (buffer + 1) })"

text \<open>The inspector of error messages copies at most \<open>n\<close> bytes and marks the cut.\<close>

fun put_string_inspect :: "string \<Rightarrow> nat \<Rightarrow> put" where
  "put_string_inspect s 0 b buffer = PUT_STRING_WIDTH ''...'' 3 b buffer"
| "put_string_inspect [] (Suc n) b buffer = Some (b, buffer)"
| "put_string_inspect (c # s) (Suc n) b buffer =
     do { b' \<leftarrow> store b buffer c; put_string_inspect s n b' (buffer + 1) }"

section \<open>Copying by size and by width\<close>

definition put_string_size :: "bytes \<Rightarrow> nat \<Rightarrow> nat \<Rightarrow> put" where
  "put_string_size src string n b buffer = memory_put src string n b buffer"

definition put_string_size_until :: "bytes \<Rightarrow> nat \<Rightarrow> nat \<Rightarrow> nat \<Rightarrow> put" where
  "put_string_size_until src string n until b buffer =
     do { rem_size \<leftarrow> step_back until buffer;
          put_string_size src string (if rem_size < n then rem_size else n) b buffer }"

definition CHAR_BUFFER_WIDTH_MAX :: nat where
  "CHAR_BUFFER_WIDTH_MAX = 32"

definition put_string_width :: "bytes \<Rightarrow> nat \<Rightarrow> nat \<Rightarrow> put" where
  "put_string_width src string width b buffer =
     (if width = 0 then Some (b, buffer)
      else if width < 32 then MEMORY_PUT_WIDTH width src string b buffer
      else MEMORY_PUT_WIDTH 32 src string b buffer)"

definition put_string_stop_width :: "bytes \<Rightarrow> nat \<Rightarrow> nat \<Rightarrow> put" where
  "put_string_stop_width src string width b buffer =
     (if width = 0 then do { b' \<leftarrow> store b buffer NUL; Some (b', buffer + 1) }
      else if width < 32 then MEMORY_PUT_WIDTH (width + 1) src string b buffer
      else MEMORY_PUT_WIDTH 33 src string b buffer)"

text \<open>
  The tables of the fixed width routines \<open>put_string_width<n>\<close> and \<open>put_string_stop_width<n>\<close>;
  an index past their end is undefined behaviour.
\<close>

definition PUT_STRING_WIDTH_MAP :: "nat \<Rightarrow> bytes \<Rightarrow> nat \<Rightarrow> put" where
  "PUT_STRING_WIDTH_MAP n src string b buffer =
     (if n \<le> CHAR_BUFFER_WIDTH_MAX then MEMORY_PUT_WIDTH n src string b buffer else None)"

definition PUT_STRING_STOP_WIDTH_MAP :: "nat \<Rightarrow> bytes \<Rightarrow> nat \<Rightarrow> put" where
  "PUT_STRING_STOP_WIDTH_MAP n src string b buffer =
     (if n = 0 then do { b' \<leftarrow> store b buffer NUL; Some (b', buffer + 1) }
      else if n \<le> CHAR_BUFFER_WIDTH_MAX then MEMORY_PUT_WIDTH (n + 1) src string b buffer
      else None)"

definition put_string_width_until :: "bytes \<Rightarrow> nat \<Rightarrow> nat \<Rightarrow> nat \<Rightarrow> put" where
  "put_string_width_until src string width until b buffer =
     do { size_until \<leftarrow> step_back until buffer;
          put_string_width src string (if size_until < width then size_until else width) b buffer }"

section \<open>Closures\<close>

text \<open>\<open>struct PutStringClosure\<close>: the block it reads, the word and rest pointers, the width of the rest.\<close>

record put_string_closure =
  psc_block :: bytes
  psc_words :: nat
  psc_rem :: nat
  psc_put_rem :: nat

definition put_string_closure_init :: "bytes \<Rightarrow> nat \<Rightarrow> nat \<Rightarrow> put_string_closure" where
  "put_string_closure_init src bytes n =
     (let length_words = DIV_WORD_SIZE n; rem_size = REM_WORD_SIZE n
      in \<lparr>psc_block = src, psc_words = bytes, psc_rem = bytes + WORD_SIZE * length_words,
          psc_put_rem = rem_size\<rparr>)"

function put_closure_words :: "put_string_closure \<Rightarrow> nat \<Rightarrow> bytes \<Rightarrow> nat \<Rightarrow> (bytes \<times> nat) option" where
  "put_closure_words cl word b buffer =
     (if word < psc_rem cl then
        do { b' \<leftarrow> MEMORY_SET_WIDTH WORD_SIZE (psc_block cl) word b buffer;
             put_closure_words cl (word + WORD_SIZE) b' (buffer + WORD_SIZE) }
      else Some (b, buffer))"
  by pat_completeness auto
termination
  by (relation "measure (\<lambda>(cl, word, b, buffer). psc_rem cl - word)") (auto simp: WORD_SIZE_def)

declare put_closure_words.simps [simp del]

definition put_string_closure_call :: "put_string_closure \<Rightarrow> put" where
  "put_string_closure_call cl b buffer =
     do { (b', buffer') \<leftarrow> put_closure_words cl (psc_words cl) b buffer;
          PUT_STRING_WIDTH_MAP (psc_put_rem cl) (psc_block cl) (psc_rem cl) b' buffer' }"

text \<open>\<open>struct StringBuilder\<close>: a closure and the length of its string.\<close>

record string_builder =
  sb_put_cl :: put_string_closure
  sb_length :: nat

definition string_builder_init :: "bytes \<Rightarrow> nat \<Rightarrow> nat \<Rightarrow> string_builder" where
  "string_builder_init src bytes n =
     \<lparr>sb_put_cl = put_string_closure_init src bytes n, sb_length = n\<rparr>"

text \<open>The movable closure also keeps the number of its words.\<close>

record mobile_put_string_closure = put_string_closure +
  mpsc_length_words :: nat

definition mobile_put_string_closure_init :: "bytes \<Rightarrow> nat \<Rightarrow> nat \<Rightarrow> mobile_put_string_closure" where
  "mobile_put_string_closure_init src bytes n =
     (let length_words = DIV_WORD_SIZE n; rem_size = REM_WORD_SIZE n
      in \<lparr>psc_block = src, psc_words = bytes, psc_rem = bytes + WORD_SIZE * length_words,
          psc_put_rem = rem_size, mpsc_length_words = length_words\<rparr>)"

definition mobile_put_string_closure_move ::
  "mobile_put_string_closure \<Rightarrow> bytes \<Rightarrow> nat \<Rightarrow> mobile_put_string_closure" where
  "mobile_put_string_closure_move cl src new_bytes =
     cl\<lparr>psc_block := src, psc_words := new_bytes,
        psc_rem := new_bytes + WORD_SIZE * mpsc_length_words cl\<rparr>"

definition mobile_put_string_closure_call :: "mobile_put_string_closure \<Rightarrow> put" where
  "mobile_put_string_closure_call cl b buffer =
     do { (b', buffer') \<leftarrow> put_closure_words (put_string_closure.truncate cl) (psc_words cl) b buffer;
          PUT_STRING_WIDTH_MAP (psc_put_rem cl) (psc_block cl) (psc_rem cl) b' buffer' }"

section \<open>Every routine writes its string\<close>

lemma copy_string_put: "length old = length s \<Longrightarrow> copy_string (xs @ old @ ys) (length xs) s = Some (xs @ s @ ys)"
proof (induction s arbitrary: xs old)
  case (Cons c s)
  then obtain d old' where "old = d # old'" "length old' = length s" by (auto simp: length_Suc_conv)
  then show ?case using Cons.IH [of old' "xs @ [c]"] by (simp add: store_append)
qed simp

lemma copy_string_stop_put:
  "length old = length s + 1 \<Longrightarrow> copy_string_stop (xs @ old @ ys) (length xs) s = Some (xs @ s @ NUL # ys)"
proof (induction s arbitrary: xs old)
  case Nil
  then obtain d where "old = [d]" by (auto simp: length_Suc_conv)
  then show ?case by (simp add: store_append)
next
  case (Cons c s)
  then obtain d old' where "old = d # old'" "length old' = length s + 1" by (auto simp: length_Suc_conv)
  then show ?case using Cons.IH [of old' "xs @ [c]"] by (simp add: store_append)
qed

lemma writes_store_Cons:
  assumes "writes g s"
  shows "writes (\<lambda>b p. do { b' \<leftarrow> store b p c; g b' (p + 1) }) (c # s)"
proof -
  have "writes (\<lambda>b p. do { (b', p') \<leftarrow> PUT_CHAR c b p; g b' p' }) ([c] @ s)"
    by (intro writes_bind writes_PUT_CHAR assms)
  then show ?thesis by (simp add: PUT_CHAR_def bind_map_option comp_def)
qed

lemma writes_put_string: "writes (put_string s) s"
proof (induction s)
  case Nil
  show ?case by (rule writesI) simp
next
  case (Cons c s)
  have "put_string (c # s) = (\<lambda>b p. do { b' \<leftarrow> store b p c; put_string s b' (p + 1) })"
    by (intro ext) simp
  then show ?case using writes_store_Cons [OF Cons, of c] by (simp only:)
qed

lemma writes_put_string_stop: "writes (put_string_stop s) (s @ [NUL])"
proof (induction s)
  case Nil
  show ?case by (rule writesI) (auto simp: length_Suc_conv store_append)
next
  case (Cons c s)
  have "put_string_stop (c # s) = (\<lambda>b p. do { b' \<leftarrow> store b p c; put_string_stop s b' (p + 1) })"
    by (intro ext) simp
  then show ?case using writes_store_Cons [OF Cons, of c] by simp
qed

lemma writes_put_string_length: "writes (put_string_length s n) (take n s)"
proof (induction s arbitrary: n)
  case Nil
  show ?case by (rule writesI) (cases n; simp)
next
  case (Cons c s)
  show ?case
  proof (cases n)
    case 0
    then show ?thesis by (intro writesI) simp
  next
    case (Suc m)
    have "put_string_length (c # s) n = (\<lambda>b p. do { b' \<leftarrow> store b p c; put_string_length s m b' (p + 1) })"
      by (intro ext) (simp add: Suc)
    then show ?thesis using writes_store_Cons [OF Cons [of m], of c] Suc by simp
  qed
qed

lemma writes_put_string_size:
  "length s = n \<Longrightarrow> writes (put_string_size (pre @ s @ post) (length pre) n) s"
  using memory_put_writes [of s n pre post] by (simp add: put_string_size_def [abs_def])

lemma writes_put_string_width:
  "length s \<le> 32 \<Longrightarrow> writes (put_string_width (pre @ s @ post) (length pre) (length s)) s"
proof (cases "length s = 0")
  case True
  then show ?thesis by (intro writesI) (simp add: put_string_width_def)
next
  case False
  assume "length s \<le> 32"
  then have "put_string_width (pre @ s @ post) (length pre) (length s) =
    MEMORY_PUT_WIDTH (length s) (pre @ s @ post) (length pre)"
    using False by (intro ext) (auto simp: put_string_width_def le_less)
  then show ?thesis by (simp add: writes_MEMORY_PUT_WIDTH)
qed

lemma writes_PUT_STRING_WIDTH_MAP:
  "length s = n \<Longrightarrow> n \<le> CHAR_BUFFER_WIDTH_MAX \<Longrightarrow> writes (PUT_STRING_WIDTH_MAP n (pre @ s @ post) (length pre)) s"
  using writes_MEMORY_PUT_WIDTH [of n s pre post] by (simp add: PUT_STRING_WIDTH_MAP_def [abs_def])

text \<open>The word loop of a closure, then the rest.\<close>

lemma put_closure_words_put:
  assumes "psc_block cl = pre @ s @ post" "psc_rem cl = length pre + length s" "length s = 8 * k"
    "length old = length s"
  shows "put_closure_words cl (length pre) (xs @ old @ ys) (length xs) = Some (xs @ s @ ys, length xs + length s)"
  using assms
proof (induction k arbitrary: pre s xs old)
  case 0
  then show ?case by (subst put_closure_words.simps) simp
next
  case (Suc k)
  define s1 s2 o1 o2 where "s1 = take 8 s" and "s2 = drop 8 s" and "o1 = take 8 old" and "o2 = drop 8 old"
  have s: "s = s1 @ s2" "length s1 = 8" "length s2 = 8 * k"
    using Suc.prems by (simp_all add: s1_def s2_def)
  have o: "old = o1 @ o2" "length o1 = 8" "length o2 = length s2"
    using Suc.prems by (simp_all add: o1_def o2_def s2_def)
  have blk: "psc_block cl = pre @ s1 @ s2 @ post" using Suc.prems(1) s(1) by (simp only: append_assoc)
  have 1: "MEMORY_SET_WIDTH 8 (psc_block cl) (length pre) (xs @ old @ ys) (length xs) =
    Some (xs @ s1 @ o2 @ ys)"
    unfolding blk o(1) append_assoc by (rule MEMORY_SET_WIDTH_append) (simp_all only: s o)
  have 2: "put_closure_words cl (length (pre @ s1)) ((xs @ s1) @ o2 @ ys) (length (xs @ s1)) =
    Some ((xs @ s1) @ s2 @ ys, length (xs @ s1) + length s2)"
    using s o Suc.prems by (intro Suc.IH) simp_all
  show ?case
    using 1 2 s o Suc.prems(2) by (subst put_closure_words.simps) (simp add: WORD_SIZE_def add.assoc)
qed

lemma closure_words_then_rem:
  assumes "psc_block cl = pre @ s @ post" "psc_words cl = length pre"
    and "psc_rem cl = length pre + 8 * DIV_WORD_SIZE (length s)" "n = REM_WORD_SIZE (length s)"
  shows "writes (\<lambda>b p. do { (b', p') \<leftarrow> put_closure_words cl (psc_words cl) b p;
    PUT_STRING_WIDTH_MAP n (psc_block cl) (psc_rem cl) b' p' }) s"
proof -
  obtain k where k: "DIV_WORD_SIZE (length s) = k" by simp
  have n: "8 * k + n = length s" using word_size_split [of "length s"] by (simp add: k assms(4))
  obtain s1 s2 where s: "s = s1 @ s2" "length s1 = 8 * k" "length s2 = n"
    using n by (metis append_eq_conv_conj append_take_drop_id diff_add_inverse le_add1 length_drop
        length_take min.absorb2)
  have blk: "psc_block cl = pre @ s1 @ s2 @ post" using assms(1) s(1) by (simp only: append_assoc)
  have r: "psc_rem cl = length pre + length s1" using assms(3) k s(2) by (simp only:)
  have "writes (put_closure_words cl (psc_words cl)) s1"
    unfolding assms(2) by (rule writesI) (rule put_closure_words_put [OF blk r s(2)])
  moreover have "n \<le> CHAR_BUFFER_WIDTH_MAX"
    using mod_less_divisor [of 8 "length s"] by (simp add: assms(4) REM_WORD_SIZE_mod CHAR_BUFFER_WIDTH_MAX_def)
  then have "writes (PUT_STRING_WIDTH_MAP n (psc_block cl) (psc_rem cl)) s2"
    using writes_PUT_STRING_WIDTH_MAP [of s2 n "pre @ s1" post] s(3) by (simp add: blk r)
  ultimately show ?thesis
    unfolding s(1) by (rule writes_bind)
qed

section \<open>The interface of a put closure\<close>

text \<open>Calling one routine after the other.\<close>

fun put_all :: "put list \<Rightarrow> put" where
  "put_all [] b buffer = Some (b, buffer)"
| "put_all (f # fs) b buffer = do { (b', buffer') \<leftarrow> f b buffer; put_all fs b' buffer' }"

lemma writes_put_all: "list_all2 writes fs ss \<Longrightarrow> writes (put_all fs) (concat ss)"
proof (induction rule: list_all2_induct)
  case Nil
  show ?case by (rule writesI) simp
next
  case (Cons f fs s ss)
  have "put_all (f # fs) = (\<lambda>b p. do { (b', p') \<leftarrow> f b p; put_all fs b' p' })" by (intro ext) simp
  then show ?case using writes_bind [OF Cons(1,3)] by (simp only:) simp
qed

text \<open>
  A provider initialises a closure from a block, an offset and a length; calling it writes those
  bytes, for every string it \<open>fits\<close>. The clients are the table headers, the loaders and the base
  strings of the columns.
\<close>

locale put_closure =
  fixes make :: "bytes \<Rightarrow> nat \<Rightarrow> nat \<Rightarrow> 'c"
    and call :: "'c \<Rightarrow> put"
    and fits :: "string \<Rightarrow> bool"
  assumes call_writes: "fits s \<Longrightarrow> writes (call (make (pre @ s @ post) (length pre) (length s))) s"
begin

lemma call_at_start: "fits s \<Longrightarrow> writes (call (make s 0 (length s))) s"
  using call_writes [of s "[]" "[]"] by simp

lemma calls_in_sequence:
  "\<forall>s \<in> set ss. fits s \<Longrightarrow> writes (put_all (map (\<lambda>s. call (make s 0 (length s))) ss)) (concat ss)"
  by (intro writes_put_all) (simp add: list_all2_map1 list_all2_same call_at_start)

text \<open>Two closures of one provider write the same only if they hold the same string.\<close>

lemma call_determines:
  "fits s \<Longrightarrow> writes (call (make s 0 (length s))) t \<Longrightarrow> length s = length t \<Longrightarrow> s = t"
  using writes_unique [OF call_at_start] by simp

end

interpretation string_closure: put_closure put_string_closure_init put_string_closure_call "\<lambda>s. True"
proof unfold_locales
  fix s pre post :: bytes
  let ?cl = "put_string_closure_init (pre @ s @ post) (length pre) (length s)"
  have "writes (\<lambda>b p. do { (b', p') \<leftarrow> put_closure_words ?cl (psc_words ?cl) b p;
    PUT_STRING_WIDTH_MAP (REM_WORD_SIZE (length s)) (psc_block ?cl) (psc_rem ?cl) b' p' }) s"
    by (rule closure_words_then_rem [of _ pre s post])
      (simp_all add: put_string_closure_init_def WORD_SIZE_def)
  then show "writes (put_string_closure_call ?cl) s"
    by (simp add: put_string_closure_call_def [abs_def] put_string_closure_init_def Let_def)
qed

interpretation mobile_closure:
  put_closure mobile_put_string_closure_init mobile_put_string_closure_call "\<lambda>s. True"
proof unfold_locales
  fix s pre post :: bytes
  let ?cl = "mobile_put_string_closure_init (pre @ s @ post) (length pre) (length s)"
  let ?tr = "put_string_closure.truncate ?cl"
  have "writes (\<lambda>b p. do { (b', p') \<leftarrow> put_closure_words ?tr (psc_words ?tr) b p;
    PUT_STRING_WIDTH_MAP (REM_WORD_SIZE (length s)) (psc_block ?tr) (psc_rem ?tr) b' p' }) s"
    by (rule closure_words_then_rem [of _ pre s post])
      (simp_all add: mobile_put_string_closure_init_def WORD_SIZE_def Let_def put_string_closure.defs)
  then show "writes (mobile_put_string_closure_call ?cl) s"
    by (simp add: mobile_put_string_closure_call_def [abs_def] mobile_put_string_closure_init_def Let_def
        put_string_closure.defs)
qed

text \<open>\<open>struct PutStubClosure\<close> and \<open>struct Stub\<close>: strings of at most 32 bytes.\<close>

record put_stub_closure =
  pstc_block :: bytes
  pstc_bytes :: nat
  pstc_put :: nat

definition put_stub_closure_init :: "bytes \<Rightarrow> nat \<Rightarrow> nat \<Rightarrow> put_stub_closure" where
  "put_stub_closure_init src bytes width = \<lparr>pstc_block = src, pstc_bytes = bytes, pstc_put = width\<rparr>"

definition put_stub_closure_call :: "put_stub_closure \<Rightarrow> put" where
  "put_stub_closure_call cl b buffer =
     PUT_STRING_WIDTH_MAP (pstc_put cl) (pstc_block cl) (pstc_bytes cl) b buffer"

record stub_builder =
  stb_put_cl :: put_stub_closure
  stb_width :: nat

definition stub_builder_init :: "bytes \<Rightarrow> nat \<Rightarrow> nat \<Rightarrow> stub_builder" where
  "stub_builder_init src bytes width =
     \<lparr>stb_put_cl = put_stub_closure_init src bytes width, stb_width = width\<rparr>"

interpretation stub_closure: put_closure put_stub_closure_init put_stub_closure_call "\<lambda>s. length s \<le> CHAR_BUFFER_WIDTH_MAX"
proof unfold_locales
  fix s pre post :: bytes assume "length s \<le> CHAR_BUFFER_WIDTH_MAX"
  then show "writes (put_stub_closure_call (put_stub_closure_init (pre @ s @ post) (length pre) (length s))) s"
    using writes_PUT_STRING_WIDTH_MAP [of s "length s" pre post]
    by (simp add: put_stub_closure_call_def [abs_def] put_stub_closure_init_def)
qed

text \<open>
  C23: a sequence of put closures, one per string, writes the concatenation of the strings, whatever
  their lengths: the split of each string into eight byte words and a rest of a table width is
  invisible. So does a movable closure after it was moved to a copy of its string.
\<close>

theorem put_string_closures_write:
  "writes (put_all (map (\<lambda>s. put_string_closure_call (put_string_closure_init s 0 (length s))) ss)) (concat ss)"
  by (rule string_closure.calls_in_sequence) simp

text \<open>Moving a closure to another block.\<close>

lemma mobile_put_string_closure_move_init:
  "mobile_put_string_closure_move (mobile_put_string_closure_init src bytes n) src' bytes' =
     mobile_put_string_closure_init src' bytes' n"
  by (simp add: mobile_put_string_closure_move_def mobile_put_string_closure_init_def Let_def)

text \<open>A movable closure that was moved writes the string at its new place.\<close>

lemma mobile_closure_moved_writes:
  "writes (mobile_put_string_closure_call
      (mobile_put_string_closure_move (mobile_put_string_closure_init src bytes (length s))
         (pre @ s @ post) (length pre))) s"
  unfolding mobile_put_string_closure_move_init by (rule mobile_closure.call_writes) simp

section \<open>Repeating a byte\<close>

text \<open>
  \<open>put_char_times\<close>: fewer than eight bytes are written one by one (the \<open>switch\<close> falls through);
  otherwise the first eight are, and the rest and the further words are copies of them.
\<close>

fun put_bytes :: "nat \<Rightarrow> char \<Rightarrow> put" where
  "put_bytes 0 c b ptr = Some (b, ptr)"
| "put_bytes (Suc n) c b ptr = do { b' \<leftarrow> store b ptr c; put_bytes n c b' (ptr + 1) }"

fun put_base_words :: "nat \<Rightarrow> nat \<Rightarrow> put" where
  "put_base_words 0 base b ptr = Some (b, ptr)"
| "put_base_words (Suc n) base b ptr =
     do { (b', ptr') \<leftarrow> MEMORY_PUT_WIDTH WORD_SIZE b base b ptr; put_base_words n base b' ptr' }"

definition put_char_times :: "char \<Rightarrow> nat \<Rightarrow> put" where
  "put_char_times c n b buffer =
     (let length_words = DIV_WORD_SIZE n; rem_size = REM_WORD_SIZE n
      in (if length_words = 0 then put_bytes rem_size c b buffer
          else do { (b1, ptr1) \<leftarrow> put_bytes WORD_SIZE c b buffer;
                    (b2, ptr2) \<leftarrow> MEMORY_PUT_WIDTH rem_size b1 buffer b1 ptr1;
                    put_base_words (length_words - 1) buffer b2 ptr2 }))"

definition put_char_times_length :: "char \<Rightarrow> nat \<Rightarrow> nat \<Rightarrow> put" where
  "put_char_times_length c n len b buffer =
     put_char_times c (if len < n then len else n) b buffer"

lemma writes_put_bytes: "writes (put_bytes n c) (replicate n c)"
proof (induction n)
  case 0
  show ?case by (rule writesI) simp
next
  case (Suc n)
  have "put_bytes (Suc n) c = (\<lambda>b p. do { b' \<leftarrow> store b p c; put_bytes n c b' (p + 1) })"
    by (intro ext) simp
  then show ?case using writes_store_Cons [OF Suc, of c] by (simp only: replicate_Suc)
qed

lemma put_from_base:
  assumes "w \<le> 8" "8 \<le> m" "length old = w"
  shows "MEMORY_PUT_WIDTH w (xs @ replicate m c @ old @ ys) (length xs) (xs @ replicate m c @ old @ ys) (length xs + m) =
    Some (xs @ replicate (m + w) c @ ys, length xs + m + w)"
proof -
  have "load_string (xs @ replicate m c @ old @ ys) (length xs) w = Some (replicate w c)"
    using assms by (simp add: load_string_def min_def)
  moreover have "store_string ((xs @ replicate m c) @ old @ ys) (length (xs @ replicate m c)) (replicate w c) =
    Some ((xs @ replicate m c) @ replicate w c @ ys)"
    using assms by (intro store_string_append) simp
  ultimately show ?thesis by (simp add: MEMORY_PUT_WIDTH_def MEMORY_SET_WIDTH_def replicate_add)
qed

lemma put_base_words_put:
  assumes "8 \<le> m" "length old = 8 * n"
  shows "put_base_words n (length xs) (xs @ replicate m c @ old @ ys) (length xs + m) =
    Some (xs @ replicate (m + 8 * n) c @ ys, length xs + m + 8 * n)"
  using assms
proof (induction n arbitrary: m old)
  case (Suc n)
  obtain o1 o2 where o: "old = o1 @ o2" "length o1 = 8" "length o2 = 8 * n"
    using Suc.prems(2) by (intro that [of "take 8 old" "drop 8 old"]) simp_all
  show ?case
    using put_from_base [of 8 m o1 xs c "o2 @ ys"] Suc.IH [of "m + 8" o2] Suc.prems(1) o
    by (simp add: WORD_SIZE_def add.assoc)
qed simp

text \<open>
  \<open>put_char_times\<close> writes \<open>n\<close> copies of its byte for every \<open>n\<close>, through the doubling of the
  first word.
\<close>

lemma put_char_times_writes: "writes (put_char_times c n) (replicate n c)"
proof (rule writesI)
  fix xs old ys :: bytes assume l: "length old = length (replicate n c)"
  let ?k = "DIV_WORD_SIZE n" and ?r = "REM_WORD_SIZE n"
  have n: "8 * ?k + ?r = n" and r: "?r \<le> 8"
    by (rule word_size_split) (simp add: REM_WORD_SIZE_mod less_imp_le)
  show "put_char_times c n (xs @ old @ ys) (length xs) =
    Some (xs @ replicate n c @ ys, length xs + length (replicate n c))"
  proof (cases "?k = 0")
    case True
    then show ?thesis
      using n l writesD [OF writes_put_bytes, of old n c "length xs" xs ys]
      by (simp add: put_char_times_def)
  next
    case False
    then obtain j where j: "?k = Suc j" using not0_implies_Suc by blast
    define o1 o2 o3 where "o1 = take 8 old" and "o2 = take ?r (drop 8 old)" and "o3 = drop (8 + ?r) old"
    have o: "old = o1 @ o2 @ o3" "length o1 = 8" "length o2 = ?r" "length o3 = 8 * j"
      using l n j by (auto simp: o1_def o2_def o3_def) (metis append_take_drop_id add.commute drop_drop)
    have 1: "put_bytes 8 c (xs @ o1 @ o2 @ o3 @ ys) (length xs) =
        Some (xs @ replicate 8 c @ o2 @ o3 @ ys, length xs + 8)"
      using writesD [OF writes_put_bytes, of o1 8 c "length xs" xs "o2 @ o3 @ ys"] o by simp
    have 2: "MEMORY_PUT_WIDTH ?r (xs @ replicate 8 c @ o2 @ o3 @ ys) (length xs)
        (xs @ replicate 8 c @ o2 @ o3 @ ys) (length xs + 8) =
        Some (xs @ replicate (8 + ?r) c @ o3 @ ys, length xs + 8 + ?r)"
      using put_from_base [of ?r 8 o2 xs c "o3 @ ys"] r o by simp
    have 3: "put_base_words j (length xs) (xs @ replicate (8 + ?r) c @ o3 @ ys) (length xs + (8 + ?r)) =
        Some (xs @ replicate (8 + ?r + 8 * j) c @ ys, length xs + (8 + ?r) + 8 * j)"
      using o by (intro put_base_words_put) simp_all
    have "8 + ?r + 8 * j = n" using n j by simp
    then show ?thesis
      using 1 2 3 o(1) j by (simp add: put_char_times_def WORD_SIZE_def add.assoc)
  qed
qed

end
