(* ===== verification/Row_Block.thy ===== *)
theory Row_Block
  imports Put_String
begin

text \<open>
  The rows of a table file, \<open>src/generate/row_block.h\<close> and \<open>row_block.c\<close>. A rowspan is a pointer into
  the contents of its column (a block of NUL terminated cells) and the mark of a join column. A row
  block writes one line per row, taking the next cell of each rowspan; the last line leaves the
  rowspans where they are and writes no terminator.
\<close>

section \<open>Definitions\<close>

record rowspan =
  rs_block :: bytes
  rs_cell :: nat
  rs_join :: bool

definition FIELD_DELIM :: char where
  "FIELD_DELIM = CHR '',''"

text \<open>\<open>put_rowspan_cell\<close>: copy up to the terminator, then skip it.\<close>

function put_cell_bytes :: "bytes \<Rightarrow> nat \<Rightarrow> bytes \<Rightarrow> nat \<Rightarrow> (bytes \<times> nat \<times> nat) option" where
  "put_cell_bytes src cell b ptr =
     do { c \<leftarrow> load src cell;
          if c = NUL then Some (b, ptr, cell)
          else do { b' \<leftarrow> store b ptr c; put_cell_bytes src (cell + 1) b' (ptr + 1) } }"
  by pat_completeness auto
termination
  by (relation "measure (\<lambda>(src, cell, b, ptr). length src - cell)")
     (auto simp: load_def split: if_splits)

declare put_cell_bytes.simps [simp del]

definition put_rowspan_cell :: "bytes \<Rightarrow> nat \<Rightarrow> rowspan \<Rightarrow> (bytes \<times> nat \<times> rowspan) option" where
  "put_rowspan_cell b ptr rs =
     do { (b', ptr', cell) \<leftarrow> put_cell_bytes (rs_block rs) (rs_cell rs) b ptr;
          Some (b', ptr', rs\<lparr>rs_cell := cell + 1\<rparr>) }"

text \<open>The cells after the first, each with its delimiter unless its column is a join.\<close>

fun put_more_cells :: "bytes \<Rightarrow> nat \<Rightarrow> rowspan list \<Rightarrow> (bytes \<times> nat \<times> rowspan list) option" where
  "put_more_cells b ptr [] = Some (b, ptr, [])"
| "put_more_cells b ptr (rs # rss) =
     do { (b, ptr) \<leftarrow> (if rs_join rs then Some (b, ptr) else PUT_CHAR FIELD_DELIM b ptr);
          (b, ptr, rs') \<leftarrow> put_rowspan_cell b ptr rs;
          (b, ptr, rss') \<leftarrow> put_more_cells b ptr rss;
          Some (b, ptr, rs' # rss') }"

text \<open>A row block has at least one rowspan; without one the access to the first is undefined.\<close>

definition put_row_block_row :: "bytes \<Rightarrow> nat \<Rightarrow> rowspan list \<Rightarrow> (bytes \<times> nat \<times> rowspan list) option" where
  "put_row_block_row b ptr spans =
     (case spans of
        [] \<Rightarrow> None
      | rs # rss \<Rightarrow>
          do { b \<leftarrow> store b ptr CHR 0x0A;
               (b, ptr, rs') \<leftarrow> put_rowspan_cell b (ptr + 1) rs;
               (b, ptr, rss') \<leftarrow> put_more_cells b ptr rss;
               Some (b, ptr, rs' # rss') })"

text \<open>The string at a pointer, up to its terminator.\<close>

function load_cell :: "bytes \<Rightarrow> nat \<Rightarrow> string option" where
  "load_cell src cell =
     do { c \<leftarrow> load src cell;
          if c = NUL then Some [] else do { s \<leftarrow> load_cell src (cell + 1); Some (c # s) } }"
  by pat_completeness auto
termination
  by (relation "measure (\<lambda>(src, cell). length src - cell)") (auto simp: load_def split: if_splits)

declare load_cell.simps [simp del]

fun copy_cells :: "bytes \<Rightarrow> nat \<Rightarrow> rowspan list \<Rightarrow> bytes option" where
  "copy_cells b ptr [] = None"
| "copy_cells b ptr [rs] = do { s \<leftarrow> load_cell (rs_block rs) (rs_cell rs); copy_string b ptr s }"
| "copy_cells b ptr (rs # rs' # rss) =
     do { s \<leftarrow> load_cell (rs_block rs) (rs_cell rs);
          (b, ptr) \<leftarrow> put_string s b ptr;
          (b, ptr) \<leftarrow> (if rs_join rs' then Some (b, ptr) else PUT_CHAR FIELD_DELIM b ptr);
          copy_cells b ptr (rs' # rss) }"

definition copy_row_block_row :: "bytes \<Rightarrow> nat \<Rightarrow> rowspan list \<Rightarrow> bytes option" where
  "copy_row_block_row b ptr spans = do { b \<leftarrow> store b ptr CHR 0x0A; copy_cells b (ptr + 1) spans }"

text \<open>\<open>build_row_block\<close>: \<open>rem_rows\<close> counts down to one.\<close>

fun put_rows :: "nat \<Rightarrow> bytes \<Rightarrow> nat \<Rightarrow> rowspan list \<Rightarrow> (bytes \<times> nat \<times> rowspan list) option" where
  "put_rows rem_rows b ptr spans =
     (if 1 < rem_rows then
        do { (b, ptr, spans) \<leftarrow> put_row_block_row b ptr spans; put_rows (rem_rows - 1) b ptr spans }
      else Some (b, ptr, spans))"

declare put_rows.simps [simp del]

definition build_row_block :: "nat \<Rightarrow> rowspan list \<Rightarrow> bytes \<Rightarrow> nat \<Rightarrow> bytes option" where
  "build_row_block row_count spans b contents =
     do { (b, ptr, spans) \<leftarrow> put_rows row_count b contents spans; copy_row_block_row b ptr spans }"

section \<open>The text of a row block\<close>

text \<open>A rowspan \<open>holds\<close> the cells that follow its pointer.\<close>

definition terminated :: "string list \<Rightarrow> bytes" where
  "terminated cells = concat (map (\<lambda>c. c @ [NUL]) cells)"

definition holds :: "rowspan \<Rightarrow> string list \<Rightarrow> bool" where
  "holds rs cells \<longleftrightarrow>
     (\<forall>c \<in> set cells. NUL \<notin> set c) \<and>
     (\<exists>pre post. rs_block rs = pre @ terminated cells @ post \<and> rs_cell rs = length pre)"

text \<open>
  A row is a newline, the first cell, and every other cell after a comma, except that the cells of
  join columns continue the field before them.
\<close>

definition field_text :: "bool \<times> string \<Rightarrow> string" where
  "field_text f = (case f of (join, cell) \<Rightarrow> if join then cell else FIELD_DELIM # cell)"

definition fields_text :: "(bool \<times> string) list \<Rightarrow> string" where
  "fields_text fs = concat (map field_text fs)"

definition row_text :: "(bool \<times> string) list \<Rightarrow> string" where
  "row_text fs = CHR 0x0A # snd (hd fs) @ fields_text (tl fs)"

text \<open>Row \<open>i\<close> of a list of columns, and the text of \<open>n\<close> rows.\<close>

definition row_of :: "(bool \<times> string list) list \<Rightarrow> nat \<Rightarrow> (bool \<times> string) list" where
  "row_of cols i = map (\<lambda>(join, cells). (join, cells ! i)) cols"

definition rows_text :: "(bool \<times> string list) list \<Rightarrow> nat \<Rightarrow> string" where
  "rows_text cols n = concat (map (\<lambda>i. row_text (row_of cols i)) [0..<n])"

definition span_holds :: "rowspan \<Rightarrow> bool \<times> string list \<Rightarrow> bool" where
  "span_holds rs col \<longleftrightarrow> holds rs (snd col) \<and> rs_join rs = fst col"

section \<open>Writing one cell\<close>

lemma load_cell_string: "NUL \<notin> set c \<Longrightarrow> load_cell (pre @ c @ NUL # post) (length pre) = Some c"
proof (induction c arbitrary: pre)
  case Nil
  show ?case by (subst load_cell.simps) (simp add: load_append)
next
  case (Cons d c)
  then show ?case
    using Cons.IH [of "pre @ [d]"] by (subst load_cell.simps) (auto simp: load_append)
qed

lemma put_cell_bytes_string:
  "NUL \<notin> set c \<Longrightarrow> length old = length c \<Longrightarrow>
    put_cell_bytes (pre @ c @ NUL # post) (length pre) (xs @ old @ ys) (length xs) =
      Some (xs @ c @ ys, length xs + length c, length pre + length c)"
proof (induction c arbitrary: pre xs old)
  case Nil
  then show ?case by (subst put_cell_bytes.simps) (simp add: load_append)
next
  case (Cons d c)
  then obtain e old' where o: "old = e # old'" "length old' = length c" by (auto simp: length_Suc_conv)
  show ?case
    using Cons o Cons.IH [of old' "pre @ [d]" "xs @ [d]"]
    by (subst put_cell_bytes.simps) (auto simp: load_append store_append)
qed

lemma terminated_simps [simp]:
  "terminated [] = []" "terminated (c # cs) = c @ NUL # terminated cs"
  "terminated (cs @ ds) = terminated cs @ terminated ds"
  by (simp_all add: terminated_def)

lemma holdsI:
  "\<forall>c \<in> set cells. NUL \<notin> set c \<Longrightarrow> rs_block rs = pre @ terminated cells @ post \<Longrightarrow>
    rs_cell rs = length pre \<Longrightarrow> holds rs cells"
  by (auto simp: holds_def)

lemma holds_Cons:
  assumes "holds rs (c # cs)"
  obtains pre post where "NUL \<notin> set c" "rs_block rs = pre @ c @ NUL # post" "rs_cell rs = length pre"
    "holds (rs\<lparr>rs_cell := length pre + length c + 1\<rparr>) cs"
proof -
  obtain pre post where p: "rs_block rs = pre @ terminated (c # cs) @ post" "rs_cell rs = length pre"
    using assms by (auto simp: holds_def)
  have "holds (rs\<lparr>rs_cell := length pre + length c + 1\<rparr>) cs"
    using assms p by (intro holdsI [of _ _ "pre @ c @ [NUL]" post]) (auto simp: holds_def)
  then show thesis using assms p that [of pre "terminated cs @ post"] by (auto simp: holds_def)
qed

lemma put_rowspan_cell_holds:
  assumes "holds rs (c # cs)"
  obtains rs' where "holds rs' cs" "rs_join rs' = rs_join rs"
    "\<And>xs old ys. length old = length c \<Longrightarrow>
       put_rowspan_cell (xs @ old @ ys) (length xs) rs = Some (xs @ c @ ys, length xs + length c, rs')"
proof -
  obtain pre post where p: "NUL \<notin> set c" "rs_block rs = pre @ c @ NUL # post" "rs_cell rs = length pre"
    "holds (rs\<lparr>rs_cell := length pre + length c + 1\<rparr>) cs"
    using assms by (rule holds_Cons)
  then show thesis
    by (intro that [of "rs\<lparr>rs_cell := length pre + length c + 1\<rparr>"])
      (simp_all add: put_rowspan_cell_def put_cell_bytes_string)
qed

lemma load_cell_holds: "holds rs (c # cs) \<Longrightarrow> load_cell (rs_block rs) (rs_cell rs) = Some c"
  by (erule holds_Cons) (simp add: load_cell_string)

section \<open>Writing one row\<close>

text \<open>The first cell and the remaining cells of every column.\<close>

definition heads :: "(bool \<times> string list) list \<Rightarrow> (bool \<times> string) list" where
  "heads cols = map (\<lambda>(join, cells). (join, hd cells)) cols"

definition tails :: "(bool \<times> string list) list \<Rightarrow> (bool \<times> string list) list" where
  "tails cols = map (\<lambda>(join, cells). (join, tl cells)) cols"

lemma fields_text_simps [simp]:
  "fields_text [] = []" "fields_text (f # fs) = field_text f @ fields_text fs"
  by (simp_all add: fields_text_def)

lemma heads_simps [simp]: "heads [] = []" "heads ((j, cs) # cols) = (j, hd cs) # heads cols"
  by (simp_all add: heads_def)

lemma tails_simps [simp]: "tails [] = []" "tails ((j, cs) # cols) = (j, tl cs) # tails cols"
  by (simp_all add: tails_def)

text \<open>A delimiter before a cell, or nothing.\<close>

lemma writes_delim: "writes (\<lambda>b p. if j then Some (b, p) else PUT_CHAR FIELD_DELIM b p) (if j then [] else [FIELD_DELIM])"
  by (cases j) (simp_all add: writes_Nil writes_PUT_CHAR)

lemma put_more_cells_holds:
  assumes "list_all2 span_holds rss cols" "\<forall>col \<in> set cols. snd col \<noteq> []"
  shows "\<exists>rss'. list_all2 span_holds rss' (tails cols) \<and>
    (\<forall>xs old ys. length old = length (fields_text (heads cols)) \<longrightarrow>
      put_more_cells (xs @ old @ ys) (length xs) rss =
        Some (xs @ fields_text (heads cols) @ ys, length xs + length (fields_text (heads cols)), rss'))"
  using assms
proof (induction rule: list_all2_induct)
  case Nil
  then show ?case by simp
next
  case (Cons rs rss col cols)
  obtain j c cs where col: "col = (j, c # cs)"
    using Cons.prems by (cases col) (auto simp: neq_Nil_conv)
  have h: "holds rs (c # cs)" "rs_join rs = j" using Cons.hyps(1) by (simp_all add: span_holds_def col)
  obtain rs' where r: "holds rs' cs" "rs_join rs' = rs_join rs"
    and put: "\<And>xs old ys. length old = length c \<Longrightarrow>
       put_rowspan_cell (xs @ old @ ys) (length xs) rs = Some (xs @ c @ ys, length xs + length c, rs')"
    using h(1) by (rule put_rowspan_cell_holds) blast
  obtain rss' where i: "list_all2 span_holds rss' (tails cols)"
    and more: "\<And>xs old ys. length old = length (fields_text (heads cols)) \<Longrightarrow>
      put_more_cells (xs @ old @ ys) (length xs) rss =
        Some (xs @ fields_text (heads cols) @ ys, length xs + length (fields_text (heads cols)), rss')"
    using Cons by auto
  define d where "d = (if j then [] else [FIELD_DELIM])"
  have d: "field_text (j, c) = d @ c" by (simp add: field_text_def d_def)
  have "put_more_cells (xs @ old @ ys) (length xs) (rs # rss) =
      Some (xs @ (d @ c @ fields_text (heads cols)) @ ys,
        length xs + length (d @ c @ fields_text (heads cols)), rs' # rss')"
    if l: "length old = length (d @ c @ fields_text (heads cols))" for xs old ys
  proof -
    obtain o1 oo where o1: "old = o1 @ oo" "length o1 = length d"
      "length oo = length c + length (fields_text (heads cols))"
      using l by (auto elim: split_length)
    obtain o2 o3 where o2: "oo = o2 @ o3" "length o2 = length c" "length o3 = length (fields_text (heads cols))"
      using o1(3) by (rule split_length)
    note o = o1(1) [unfolded o2(1)] o1(2) o2(2,3)
    have 1: "(if rs_join rs then Some (xs @ old @ ys, length xs) else PUT_CHAR FIELD_DELIM (xs @ old @ ys) (length xs)) =
        Some (xs @ d @ o2 @ o3 @ ys, length xs + length d)"
      using writesD [OF writes_delim, of o1 j "length xs" xs "o2 @ o3 @ ys"] o h(2) by (cases j) (simp_all add: d_def)
    have 2: "put_rowspan_cell (xs @ d @ o2 @ o3 @ ys) (length xs + length d) rs =
        Some (xs @ d @ c @ o3 @ ys, length xs + length d + length c, rs')"
      using put [of o2 "xs @ d" "o3 @ ys"] o by simp
    have 3: "put_more_cells (xs @ d @ c @ o3 @ ys) (length xs + length d + length c) rss =
        Some (xs @ d @ c @ fields_text (heads cols) @ ys,
          length xs + length d + length c + length (fields_text (heads cols)), rss')"
      using more [of o3 "xs @ d @ c" ys] o by (simp add: add.assoc)
    show ?thesis using 1 2 3 by (simp add: add.assoc)
  qed
  moreover have "list_all2 span_holds (rs' # rss') (tails (col # cols))"
    using r i h by (simp add: col span_holds_def)
  ultimately show ?case by (intro exI [of _ "rs' # rss'"]) (simp add: col d)
qed

lemma put_row_block_row_holds:
  assumes "list_all2 span_holds spans cols" "cols \<noteq> []" "\<forall>col \<in> set cols. snd col \<noteq> []"
  shows "\<exists>spans'. list_all2 span_holds spans' (tails cols) \<and>
    (\<forall>xs old ys. length old = length (row_text (heads cols)) \<longrightarrow>
      put_row_block_row (xs @ old @ ys) (length xs) spans =
        Some (xs @ row_text (heads cols) @ ys, length xs + length (row_text (heads cols)), spans'))"
proof -
  obtain j c cs cols' where cols: "cols = (j, c # cs) # cols'"
    using assms(2,3) by (cases cols) (auto simp: neq_Nil_conv)
  obtain rs rss where spans: "spans = rs # rss" and h: "holds rs (c # cs)" "rs_join rs = j"
    and rest: "list_all2 span_holds rss cols'"
    using assms(1) by (auto simp: cols list_all2_Cons2 span_holds_def)
  obtain rs' where r: "holds rs' cs" "rs_join rs' = rs_join rs"
    and put: "\<And>xs old ys. length old = length c \<Longrightarrow>
       put_rowspan_cell (xs @ old @ ys) (length xs) rs = Some (xs @ c @ ys, length xs + length c, rs')"
    using h(1) by (rule put_rowspan_cell_holds) blast
  obtain rss' where i: "list_all2 span_holds rss' (tails cols')"
    and more: "\<And>xs old ys. length old = length (fields_text (heads cols')) \<Longrightarrow>
      put_more_cells (xs @ old @ ys) (length xs) rss =
        Some (xs @ fields_text (heads cols') @ ys, length xs + length (fields_text (heads cols')), rss')"
    using put_more_cells_holds [OF rest] assms(3) by (auto simp: cols)
  have "put_row_block_row (xs @ old @ ys) (length xs) spans =
      Some (xs @ row_text (heads cols) @ ys, length xs + length (row_text (heads cols)), rs' # rss')"
    if l: "length old = length (row_text (heads cols))" for xs old ys
  proof -
    obtain d oo where o1: "old = d # oo" "length oo = length c + length (fields_text (heads cols'))"
      using l by (auto simp: row_text_def cols length_Suc_conv)
    obtain o2 o3 where o2: "oo = o2 @ o3" "length o2 = length c" "length o3 = length (fields_text (heads cols'))"
      using o1(2) by (rule split_length)
    show ?thesis
      using put [of o2 "xs @ [CHR 0x0A]" "o3 @ ys"] more [of o3 "xs @ [CHR 0x0A] @ c" ys] o1 o2
      by (simp add: put_row_block_row_def spans store_append row_text_def cols add.assoc)
  qed
  moreover have "list_all2 span_holds (rs' # rss') (tails cols)"
    using r i h by (simp add: cols span_holds_def)
  ultimately show ?thesis by blast
qed

text \<open>The last row: the same text, without moving the rowspans.\<close>

lemma copy_cells_holds:
  assumes "list_all2 span_holds (rs # rss) ((j, c # cs) # cols)" "\<forall>col \<in> set cols. snd col \<noteq> []"
    and "length old = length (c @ fields_text (heads cols))"
  shows "copy_cells (xs @ old @ ys) (length xs) (rs # rss) = Some (xs @ c @ fields_text (heads cols) @ ys)"
  using assms
proof (induction rss arbitrary: rs j c cs cols xs old)
  case Nil
  then have "cols = []" "load_cell (rs_block rs) (rs_cell rs) = Some c"
    by (auto simp: span_holds_def intro: load_cell_holds)
  then show ?case using Nil.prems by (simp add: copy_string_put)
next
  case (Cons rs2 rss)
  obtain j2 c2 cs2 cols2 where cols: "cols = (j2, c2 # cs2) # cols2"
    using Cons.prems by (cases cols) (auto simp: neq_Nil_conv)
  have ld: "load_cell (rs_block rs) (rs_cell rs) = Some c" "rs_join rs2 = j2"
    using Cons.prems(1) by (auto simp: span_holds_def cols intro: load_cell_holds)
  define d where "d = (if j2 then [] else [FIELD_DELIM])"
  have d: "field_text (j2, c2) = d @ c2" by (simp add: field_text_def d_def)
  obtain o1 oo where o1: "old = o1 @ oo" "length o1 = length c"
    "length oo = length d + length (c2 @ fields_text (heads cols2))"
    using Cons.prems(3) by (auto simp: cols d elim: split_length)
  obtain o2 o3 where o2: "oo = o2 @ o3" "length o2 = length d" "length o3 = length (c2 @ fields_text (heads cols2))"
    using o1(3) by (rule split_length)
  have 1: "put_string c (xs @ o1 @ o2 @ o3 @ ys) (length xs) = Some (xs @ c @ o2 @ o3 @ ys, length xs + length c)"
    using writesD [OF writes_put_string, of o1 c "length xs" xs "o2 @ o3 @ ys"] o1 by simp
  have 2: "(if j2 then Some (xs @ c @ o2 @ o3 @ ys, length xs + length c)
      else PUT_CHAR FIELD_DELIM (xs @ c @ o2 @ o3 @ ys) (length xs + length c)) =
      Some (xs @ c @ d @ o3 @ ys, length xs + length c + length d)"
    using writesD [OF writes_delim, of o2 j2 "length xs + length c" "xs @ c" "o3 @ ys"] o2
    by (cases j2) (simp_all add: d_def)
  have 3: "copy_cells ((xs @ c @ d) @ o3 @ ys) (length (xs @ c @ d)) (rs2 # rss) =
      Some ((xs @ c @ d) @ c2 @ fields_text (heads cols2) @ ys)"
    using Cons.prems o2 by (intro Cons.IH) (auto simp: cols)
  show ?case using 1 2 3 ld o1(1) o2(1) by (simp add: cols d add.assoc)
qed

lemma copy_row_block_row_holds:
  assumes "list_all2 span_holds spans cols" "cols \<noteq> []" "\<forall>col \<in> set cols. snd col \<noteq> []"
    and "length old = length (row_text (heads cols))"
  shows "copy_row_block_row (xs @ old @ ys) (length xs) spans = Some (xs @ row_text (heads cols) @ ys)"
proof -
  obtain j c cs cols' where cols: "cols = (j, c # cs) # cols'"
    using assms(2,3) by (cases cols) (auto simp: neq_Nil_conv)
  obtain rs rss where spans: "spans = rs # rss" using assms(1) by (auto simp: cols list_all2_Cons2)
  obtain d oo where o: "old = d # oo" "length oo = length (c @ fields_text (heads cols'))"
    using assms(4) by (auto simp: row_text_def cols length_Suc_conv)
  have "copy_cells ((xs @ [CHR 0x0A]) @ oo @ ys) (length (xs @ [CHR 0x0A])) (rs # rss) =
      Some ((xs @ [CHR 0x0A]) @ c @ fields_text (heads cols') @ ys)"
    using assms(1,3) o(2) by (intro copy_cells_holds) (auto simp: cols spans)
  then show ?thesis
    by (simp add: copy_row_block_row_def o(1) spans store_append row_text_def cols)
qed

section \<open>Writing a row block\<close>

lemma heads_row_of: "\<forall>col \<in> set cols. snd col \<noteq> [] \<Longrightarrow> heads cols = row_of cols 0"
  by (auto simp: heads_def row_of_def hd_conv_nth split: prod.splits)

lemma tl_nth: "xs \<noteq> [] \<Longrightarrow> tl xs ! i = xs ! Suc i"
  by (cases xs) simp_all

lemma row_of_tails: "\<forall>col \<in> set cols. snd col \<noteq> [] \<Longrightarrow> row_of (tails cols) i = row_of cols (Suc i)"
  by (auto simp: tails_def row_of_def tl_nth split: prod.splits)

lemma rows_text_Suc:
  "\<forall>col \<in> set cols. snd col \<noteq> [] \<Longrightarrow>
    rows_text cols (Suc n) = row_text (heads cols) @ rows_text (tails cols) n"
  by (simp add: rows_text_def heads_row_of row_of_tails upt_conv_Cons map_Suc_upt [symmetric] comp_def
      del: upt_Suc)

text \<open>
  The block builder: rowspans that hold at least \<open>n\<close> cells each make it write the text of the first
  \<open>n\<close> rows, exactly into the room for it.
\<close>

lemma build_row_block_holds:
  assumes "list_all2 span_holds spans cols" "cols \<noteq> []" "\<forall>col \<in> set cols. n \<le> length (snd col)" "1 \<le> n"
    and "length old = length (rows_text cols n)"
  shows "build_row_block n spans (xs @ old @ ys) (length xs) = Some (xs @ rows_text cols n @ ys)"
  using assms
proof (induction n arbitrary: spans cols xs old)
  case (Suc n)
  then have ne: "\<forall>col \<in> set cols. snd col \<noteq> []" by auto
  note rt = rows_text_Suc [OF ne]
  show ?case
  proof (cases "n = 0")
    case True
    then have "rows_text cols (Suc n) = row_text (heads cols)" by (simp add: rows_text_def heads_row_of [OF ne])
    then show ?thesis
      using copy_row_block_row_holds [OF Suc.prems(1,2) ne, of old xs ys] Suc.prems(5) True
      by (simp add: build_row_block_def put_rows.simps)
  next
    case False
    obtain spans' where s: "list_all2 span_holds spans' (tails cols)"
      and row: "\<And>xs old ys. length old = length (row_text (heads cols)) \<Longrightarrow>
        put_row_block_row (xs @ old @ ys) (length xs) spans =
          Some (xs @ row_text (heads cols) @ ys, length xs + length (row_text (heads cols)), spans')"
      using put_row_block_row_holds [OF Suc.prems(1,2) ne] by blast
    obtain o1 o2 where o: "old = o1 @ o2" "length o1 = length (row_text (heads cols))"
      "length o2 = length (rows_text (tails cols) n)"
      using Suc.prems(5) by (auto simp: rt elim: split_length)
    have ih: "build_row_block n spans' ((xs @ row_text (heads cols)) @ o2 @ ys) (length (xs @ row_text (heads cols))) =
        Some ((xs @ row_text (heads cols)) @ rows_text (tails cols) n @ ys)"
      using s Suc.prems False o(3)
      by (intro Suc.IH) (auto simp: tails_def Suc_le_eq split: prod.splits)
    have "build_row_block (Suc n) spans (xs @ old @ ys) (length xs) =
        build_row_block n spans' ((xs @ row_text (heads cols)) @ o2 @ ys) (length (xs @ row_text (heads cols)))"
      using row [OF o(2), of xs "o2 @ ys"] False
      by (simp add: build_row_block_def put_rows.simps [of "Suc n"] o(1))
    then show ?thesis using ih by (simp add: rt)
  qed
qed simp

text \<open>
  C18: \<open>build_row_block\<close> writes exactly the text of its rows: every row a newline and its cells,
  separated by commas except before join columns, the last row without a terminator; nothing outside
  the room for that text is touched.
\<close>

theorem build_row_block_text:
  assumes "list_all2 span_holds spans cols" "cols \<noteq> []" "\<forall>col \<in> set cols. n \<le> length (snd col)" "1 \<le> n"
    and "length old = length (rows_text cols n)"
  shows "build_row_block n spans (xs @ old @ ys) (length xs) = Some (xs @ rows_text cols n @ ys)"
  using assms by (rule build_row_block_holds)

theorem build_row_block_text_witness:
  "build_row_block 2
     [\<lparr>rs_block = terminated [''1'', ''2''], rs_cell = 0, rs_join = False\<rparr>,
      \<lparr>rs_block = terminated [''a'', ''b'', ''c''], rs_cell = 2, rs_join = False\<rparr>,
      \<lparr>rs_block = terminated [''7'', ''88''], rs_cell = 0, rs_join = True\<rparr>]
     (''<'' @ ''___________'' @ ''>'') (length ''<'') =
   Some (''<'' @ rows_text [(False, [''1'', ''2'']), (False, [''b'', ''c'']), (True, [''7'', ''88''])] 2 @ ''>'') \<and>
   rows_text [(False, [''1'', ''2'']), (False, [''b'', ''c'']), (True, [''7'', ''88''])] 2 =
     CHR 0x0A # ''1,b7'' @ CHR 0x0A # ''2,c88''"
proof -
  let ?cols = "[(False, [''1'', ''2'']), (False, [''b'', ''c'']), (True, [''7'', ''88''])]"
  have t: "rows_text ?cols 2 = CHR 0x0A # ''1,b7'' @ CHR 0x0A # ''2,c88''"
    by (simp add: rows_text_def row_text_def row_of_def fields_text_def field_text_def FIELD_DELIM_def
        numeral_eq_Suc)
  have h: "holds \<lparr>rs_block = terminated (us @ cs), rs_cell = length (terminated us), rs_join = j\<rparr> cs"
    if "\<forall>c \<in> set cs. NUL \<notin> set c" for us cs j
    using that by (intro holdsI [of _ _ "terminated us" "[]"]) simp_all
  have "list_all2 span_holds
     [\<lparr>rs_block = terminated [''1'', ''2''], rs_cell = 0, rs_join = False\<rparr>,
      \<lparr>rs_block = terminated [''a'', ''b'', ''c''], rs_cell = 2, rs_join = False\<rparr>,
      \<lparr>rs_block = terminated [''7'', ''88''], rs_cell = 0, rs_join = True\<rparr>] ?cols"
    using h [of "[''1'', ''2'']" "[]" False] h [of "[''b'', ''c'']" "[''a'']" False]
      h [of "[''7'', ''88'']" "[]" True] by (simp add: span_holds_def numeral_2_eq_2)
  then show ?thesis
    using build_row_block_text [of _ ?cols 2 "''___________''" "''<''" "''>''"] t by (simp add: numeral_2_eq_2)
qed

end
