(* ===== verification/Table.thy ===== *)
theory Table
  imports Row_Block
begin

text \<open>
  The table file, \<open>src/generate/table.h\<close> and \<open>table.c\<close> (with the header macros of
  \<open>generator.h\<close>): its size is computed from the totals the column builders left, the header is
  written, every row block gets its place, and the row blocks are written by separate tasks.
\<close>

section \<open>Specifications and state\<close>

text \<open>A join column has no name (\<open>name.bytes\<close> is \<open>NULL\<close>).\<close>

record col_spec =
  cs_name :: "string option"

record tbl_spec =
  ts_name :: string
  ts_row_count :: nat
  ts_col_specs :: "col_spec list"

record row_block =
  rb_total :: nat
  rb_rowspans :: "rowspan list"
  rb_row_count :: nat
  rb_contents :: nat

text \<open>\<open>tb_path\<close> is the file path, \<open>tb_db_name\<close> the name of the parent database, \<open>tb_contents\<close> the file block.\<close>

record table =
  tb_path :: string
  tb_db_name :: string
  tb_contents :: bytes
  tb_total :: nat
  tb_spec :: tbl_spec
  tb_row_blocks :: "row_block list"

section \<open>The header\<close>

definition TABLE_HEADER_1 :: string where
  "TABLE_HEADER_1 = '' 1) ''"

definition TABLE_HEADER_2 :: string where
  "TABLE_HEADER_2 =
     CHR 0x0A # '' 2)'' @
     CHR 0x0A # '' 3) contains comma-separated ('' @ [CHR 0x27, CHR 0x5C, CHR 0x27] @
     ''-escaped) seed data for table:'' @
     CHR 0x0A # '' 4)'' @
     CHR 0x0A # '' 5) '' @ [CHR 0x09]"

definition TABLE_HEADER_3 :: string where
  "TABLE_HEADER_3 =
     CHR 0x0A # '' 6)'' @
     CHR 0x0A # '' 7) in MySQL database:'' @
     CHR 0x0A # '' 8)'' @
     CHR 0x0A # '' 9) '' @ [CHR 0x09]"

definition TABLE_HEADER_4 :: string where
  "TABLE_HEADER_4 =
     CHR 0x0A # ''10)'' @
     CHR 0x0A # ''11) Row definition adheres to the syntax:'' @
     CHR 0x0A # ''12)'' @
     CHR 0x0A # ''13) ''"

text \<open>The frame of the last part is drawn with UTF-8 box characters.\<close>

definition box :: "char \<Rightarrow> string" where
  "box c = [CHR 0xE2, CHR 0x95, c]"

definition TABLE_HEADER_5 :: string where
  "TABLE_HEADER_5 =
     ''<NEWLINE>'' @
     CHR 0x0A # ''14)'' @
     CHR 0x0A # ''15) '' @ box CHR 0x94 @ concat (replicate 43 (box CHR 0x90)) @ box CHR 0x97 @
     CHR 0x0A # ''16) '' @ box CHR 0x91 @ '' LINES 1 THROUGH 17 ARE IGNORED BY LOADER! '' @ box CHR 0x91 @
     CHR 0x0A # ''17) '' @ box CHR 0x9A @ concat (replicate 43 (box CHR 0x90)) @ box CHR 0x9D"

definition TABLE_HEADER_BASE_SIZE :: nat where
  "TABLE_HEADER_BASE_SIZE =
     length (TABLE_HEADER_1 @ TABLE_HEADER_2 @ TABLE_HEADER_3 @ TABLE_HEADER_4 @ TABLE_HEADER_5)"

definition put_name :: "string \<Rightarrow> put" where
  "put_name s = put_string_size s 0 (length s)"

text \<open>The names of the columns after the first; join columns have none.\<close>

fun put_more_names :: "col_spec list \<Rightarrow> put" where
  "put_more_names [] b ptr = Some (b, ptr)"
| "put_more_names (cs # css) b ptr =
     (case cs_name cs of
        None \<Rightarrow> put_more_names css b ptr
      | Some name \<Rightarrow>
          do { (b, ptr) \<leftarrow> PUT_CHAR FIELD_DELIM b ptr;
               (b, ptr) \<leftarrow> put_name name b ptr;
               put_more_names css b ptr })"

text \<open>The first column has to be there and to have a name.\<close>

definition put_column_names :: "col_spec list \<Rightarrow> put" where
  "put_column_names css b ptr =
     (case css of
        [] \<Rightarrow> None
      | cs # css' \<Rightarrow>
          (case cs_name cs of
             None \<Rightarrow> None
           | Some name \<Rightarrow> do { (b, ptr) \<leftarrow> put_name name b ptr; put_more_names css' b ptr }))"

definition table_put_header :: "table \<Rightarrow> put" where
  "table_put_header tb b ptr =
     do { (b, ptr) \<leftarrow> PUT_STRING_WIDTH TABLE_HEADER_1 4 b ptr;
          (b, ptr) \<leftarrow> put_name (tb_path tb) b ptr;
          (b, ptr) \<leftarrow> put_name TABLE_HEADER_2 b ptr;
          (b, ptr) \<leftarrow> put_name (ts_name (tb_spec tb)) b ptr;
          (b, ptr) \<leftarrow> put_name TABLE_HEADER_3 b ptr;
          (b, ptr) \<leftarrow> put_name (tb_db_name tb) b ptr;
          (b, ptr) \<leftarrow> put_name TABLE_HEADER_4 b ptr;
          (b, ptr) \<leftarrow> put_column_names (ts_col_specs (tb_spec tb)) b ptr;
          put_name TABLE_HEADER_5 b ptr }"

section \<open>Sizing and placing\<close>

text \<open>The loop over the columns after the first: the size so far and the joins.\<close>

fun size_names :: "nat \<times> nat \<Rightarrow> col_spec list \<Rightarrow> nat \<times> nat" where
  "size_names (size_contents, count_joins) [] = (size_contents, count_joins)"
| "size_names (size_contents, count_joins) (cs # css) =
     size_names
       (case cs_name cs of
          None \<Rightarrow> (size_contents, count_joins + 1)
        | Some name \<Rightarrow> (size_contents + (1 + length name), count_joins)) css"

definition table_size_contents :: "table \<Rightarrow> (nat \<times> nat) option" where
  "table_size_contents tb =
     (case ts_col_specs (tb_spec tb) of
        [] \<Rightarrow> None
      | cs # css \<Rightarrow>
          do { name \<leftarrow> cs_name cs;
               let (size_contents, count_joins) =
                 size_names
                   (TABLE_HEADER_BASE_SIZE + length (tb_path tb) + length (ts_name (tb_spec tb)) +
                    length (tb_db_name tb) + tb_total tb + length name, 0) css;
               len \<leftarrow> step_back size_contents (count_joins * ts_row_count (tb_spec tb));
               Some (len, count_joins) })"

text \<open>Without a header: the file does not start with a newline.\<close>

definition count_joins :: "col_spec list \<Rightarrow> nat" where
  "count_joins css = length (filter (\<lambda>cs. cs_name cs = None) css)"

definition table_size_contents_no_header :: "table \<Rightarrow> (nat \<times> nat) option" where
  "table_size_contents_no_header tb =
     (let joins = count_joins (ts_col_specs (tb_spec tb))
      in do { len \<leftarrow> step_back (tb_total tb) (joins * ts_row_count (tb_spec tb) + 1);
              Some (len, joins) })"

text \<open>Every row block starts where the one before ends.\<close>

fun place_row_blocks :: "nat \<Rightarrow> nat \<Rightarrow> row_block list \<Rightarrow> row_block list option" where
  "place_row_blocks joins ptr [] = None"
| "place_row_blocks joins ptr [rb] = Some [rb\<lparr>rb_contents := ptr\<rparr>]"
| "place_row_blocks joins ptr (rb # rb' # rbs) =
     do { len \<leftarrow> step_back (rb_total rb) (joins * rb_row_count rb);
          rbs' \<leftarrow> place_row_blocks joins (ptr + len) (rb' # rbs);
          Some (rb\<lparr>rb_contents := ptr\<rparr> # rbs') }"

datatype table_failure = BTI_MALLOC_FAILURE | BTINH_MALLOC_FAILURE

text \<open>\<open>malloc\<close> returns a fresh block of the asked size, or \<open>NULL\<close>: then the thread ends through \<open>fail_cl\<close>.\<close>

definition build_table_init :: "(nat \<Rightarrow> bytes option) \<Rightarrow> table \<Rightarrow> (table_failure + table) option" where
  "build_table_init malloc tb =
     do { (len, joins) \<leftarrow> table_size_contents tb;
          (case malloc len of
             None \<Rightarrow> Some (Inl BTI_MALLOC_FAILURE)
           | Some bytes \<Rightarrow>
               do { (b, ptr) \<leftarrow> table_put_header tb bytes 0;
                    rbs \<leftarrow> place_row_blocks joins ptr (tb_row_blocks tb);
                    Some (Inr (tb\<lparr>tb_contents := b, tb_row_blocks := rbs\<rparr>)) }) }"

definition build_table_init_no_header :: "(nat \<Rightarrow> bytes option) \<Rightarrow> table \<Rightarrow> (table_failure + table) option" where
  "build_table_init_no_header malloc tb =
     do { (len, joins) \<leftarrow> table_size_contents_no_header tb;
          (case malloc len of
             None \<Rightarrow> Some (Inl BTINH_MALLOC_FAILURE)
           | Some bytes \<Rightarrow>
               do { rbs \<leftarrow> place_row_blocks joins 0 (tb_row_blocks tb);
                    Some (Inr (tb\<lparr>tb_contents := bytes, tb_row_blocks := rbs\<rparr>)) }) }"

text \<open>The task of one row block, and the tasks of a table in the order they happen to run.\<close>

definition run_row_block :: "table \<Rightarrow> nat \<Rightarrow> table option" where
  "run_row_block tb i =
     (if i < length (tb_row_blocks tb) then
        let rb = tb_row_blocks tb ! i
        in do { b \<leftarrow> build_row_block (rb_row_count rb) (rb_rowspans rb) (tb_contents tb) (rb_contents rb);
                Some (tb\<lparr>tb_contents := b\<rparr>) }
      else None)"

fun run_row_blocks :: "table \<Rightarrow> nat list \<Rightarrow> table option" where
  "run_row_blocks tb [] = Some tb"
| "run_row_blocks tb (i # order) = do { tb \<leftarrow> run_row_block tb i; run_row_blocks tb order }"

section \<open>The header text\<close>

definition more_names_text :: "col_spec list \<Rightarrow> string" where
  "more_names_text css =
     concat (map (\<lambda>cs. case cs_name cs of None \<Rightarrow> [] | Some name \<Rightarrow> FIELD_DELIM # name) css)"

definition header_text :: "table \<Rightarrow> string" where
  "header_text tb =
     TABLE_HEADER_1 @ tb_path tb @ TABLE_HEADER_2 @ ts_name (tb_spec tb) @ TABLE_HEADER_3 @ tb_db_name tb @
     TABLE_HEADER_4 @
     the (cs_name (hd (ts_col_specs (tb_spec tb)))) @ more_names_text (tl (ts_col_specs (tb_spec tb))) @
     TABLE_HEADER_5"

text \<open>The specification of a table: at least one column, the first of them not a join.\<close>

definition columns_ok :: "col_spec list \<Rightarrow> bool" where
  "columns_ok css \<longleftrightarrow> css \<noteq> [] \<and> cs_name (hd css) \<noteq> None"

lemma writes_put_name: "writes (put_name s) s"
  using writes_put_string_size [of s "length s" "[]" "[]"] by (simp add: put_name_def)

lemma writes_put_more_names: "writes (put_more_names css) (more_names_text css)"
proof (induction css)
  case Nil
  show ?case by (rule writesI) (simp add: more_names_text_def)
next
  case (Cons cs css)
  show ?case
  proof (cases "cs_name cs")
    case None
    then have "put_more_names (cs # css) = put_more_names css" by (intro ext) simp
    then show ?thesis using Cons None by (simp add: more_names_text_def)
  next
    case (Some name)
    have "writes (\<lambda>b p. do { (b, p) \<leftarrow> PUT_CHAR FIELD_DELIM b p;
        (b, p) \<leftarrow> put_name name b p; put_more_names css b p }) ([FIELD_DELIM] @ name @ more_names_text css)"
      by (intro writes_bind writes_PUT_CHAR writes_put_name Cons)
    moreover have "put_more_names (cs # css) = (\<lambda>b p. do { (b, p) \<leftarrow> PUT_CHAR FIELD_DELIM b p;
        (b, p) \<leftarrow> put_name name b p; put_more_names css b p })"
      by (intro ext) (simp add: Some)
    ultimately show ?thesis by (simp only:) (simp add: more_names_text_def Some)
  qed
qed

lemma writes_put_column_names:
  assumes "columns_ok css"
  shows "writes (put_column_names css) (the (cs_name (hd css)) @ more_names_text (tl css))"
proof -
  obtain cs css' name where css: "css = cs # css'" "cs_name cs = Some name"
    using assms by (cases css) (auto simp: columns_ok_def)
  have "writes (\<lambda>b p. do { (b, p) \<leftarrow> put_name name b p; put_more_names css' b p }) (name @ more_names_text css')"
    by (intro writes_bind writes_put_name writes_put_more_names)
  moreover have "put_column_names css = (\<lambda>b p. do { (b, p) \<leftarrow> put_name name b p; put_more_names css' b p })"
    by (intro ext) (simp add: css put_column_names_def)
  ultimately show ?thesis by (simp add: css)
qed

lemma writes_table_put_header:
  assumes "columns_ok (ts_col_specs (tb_spec tb))"
  shows "writes (table_put_header tb) (header_text tb)"
proof -
  have "writes (PUT_STRING_WIDTH TABLE_HEADER_1 4) TABLE_HEADER_1"
    by (rule writes_PUT_STRING_WIDTH) (simp add: TABLE_HEADER_1_def)
  then have "writes (\<lambda>b ptr.
     do { (b, ptr) \<leftarrow> PUT_STRING_WIDTH TABLE_HEADER_1 4 b ptr;
          (b, ptr) \<leftarrow> put_name (tb_path tb) b ptr;
          (b, ptr) \<leftarrow> put_name TABLE_HEADER_2 b ptr;
          (b, ptr) \<leftarrow> put_name (ts_name (tb_spec tb)) b ptr;
          (b, ptr) \<leftarrow> put_name TABLE_HEADER_3 b ptr;
          (b, ptr) \<leftarrow> put_name (tb_db_name tb) b ptr;
          (b, ptr) \<leftarrow> put_name TABLE_HEADER_4 b ptr;
          (b, ptr) \<leftarrow> put_column_names (ts_col_specs (tb_spec tb)) b ptr;
          put_name TABLE_HEADER_5 b ptr })
    (TABLE_HEADER_1 @ tb_path tb @ TABLE_HEADER_2 @ ts_name (tb_spec tb) @ TABLE_HEADER_3 @ tb_db_name tb @
     TABLE_HEADER_4 @ (the (cs_name (hd (ts_col_specs (tb_spec tb)))) @
       more_names_text (tl (ts_col_specs (tb_spec tb)))) @ TABLE_HEADER_5)"
    by (intro writes_bind writes_put_name writes_put_column_names assms)
  then show ?thesis by (simp add: header_text_def table_put_header_def [abs_def])
qed

section \<open>The size\<close>

lemma size_names_eq:
  "size_names (s, j) css = (s + length (more_names_text css), j + count_joins css)"
  by (induction css arbitrary: s j)
    (simp_all add: more_names_text_def count_joins_def split: option.splits)

lemma table_size_contents_eq:
  assumes "columns_ok (ts_col_specs (tb_spec tb))"
    and "count_joins (ts_col_specs (tb_spec tb)) * ts_row_count (tb_spec tb) \<le> tb_total tb"
  shows "table_size_contents tb =
    Some (length (header_text tb) +
            (tb_total tb - count_joins (ts_col_specs (tb_spec tb)) * ts_row_count (tb_spec tb)),
          count_joins (ts_col_specs (tb_spec tb)))"
proof -
  obtain cs css name where css: "ts_col_specs (tb_spec tb) = cs # css" "cs_name cs = Some name"
    using assms(1) by (cases "ts_col_specs (tb_spec tb)") (auto simp: columns_ok_def)
  have j: "count_joins (cs # css) = count_joins css" by (simp add: count_joins_def css)
  have h: "length (header_text tb) = TABLE_HEADER_BASE_SIZE + length (tb_path tb) +
      length (ts_name (tb_spec tb)) + length (tb_db_name tb) + length name + length (more_names_text css)"
    by (simp add: header_text_def TABLE_HEADER_BASE_SIZE_def css)
  show ?thesis
    using assms(2) by (simp add: table_size_contents_def css size_names_eq j h step_back_def)
qed

text \<open>The cells of \<open>n\<close> rows with their terminators are as long as the text plus the missing delimiters.\<close>

definition terminated_size :: "(bool \<times> string list) list \<Rightarrow> nat" where
  "terminated_size cols = (\<Sum>(j, cells) \<leftarrow> cols. length (terminated cells))"

definition joins_of :: "(bool \<times> string list) list \<Rightarrow> nat" where
  "joins_of cols = length (filter fst cols)"

lemma fields_text_length:
  "length (fields_text fs) + length (filter fst fs) = (\<Sum>(j, c) \<leftarrow> fs. length c + 1)"
  by (induction fs) (auto simp: field_text_def)

lemma terminated_size_heads:
  "\<forall>col \<in> set cols. snd col \<noteq> [] \<Longrightarrow>
    terminated_size cols = (\<Sum>(j, c) \<leftarrow> heads cols. length c + 1) + terminated_size (tails cols)"
  by (induction cols) (auto simp: terminated_size_def neq_Nil_conv)

lemma heads_filter [simp]: "length (filter fst (heads cols)) = joins_of cols"
  by (induction cols) (auto simp: joins_of_def)

lemma joins_of_tails [simp]: "joins_of (tails cols) = joins_of cols"
  by (induction cols) (auto simp: joins_of_def)

lemma row_text_length:
  assumes "cols \<noteq> []" "\<not> fst (hd cols)"
  shows "length (row_text (heads cols)) + joins_of cols = (\<Sum>(j, c) \<leftarrow> heads cols. length c + 1)"
proof -
  obtain cells cols' where cols: "cols = (False, cells) # cols'"
    using assms by (cases cols) auto
  show ?thesis
    using fields_text_length [of "heads cols'"] by (simp add: cols row_text_def joins_of_def)
qed

lemma rows_text_length:
  assumes "cols \<noteq> []" "\<not> fst (hd cols)" "\<forall>col \<in> set cols. length (snd col) = n"
  shows "length (rows_text cols n) + joins_of cols * n = terminated_size cols"
  using assms
proof (induction n arbitrary: cols)
  case 0
  then have "terminated_size cols = 0" by (induction cols) (auto simp: terminated_size_def)
  then show ?case by (simp add: rows_text_def)
next
  case (Suc n)
  then have ne: "\<forall>col \<in> set cols. snd col \<noteq> []" by auto
  have "length (rows_text (tails cols) n) + joins_of (tails cols) * n = terminated_size (tails cols)"
    using Suc.prems by (intro Suc.IH) (auto simp: tails_def hd_map split: prod.splits)
  then show ?case
    using row_text_length [OF Suc.prems(1,2)] terminated_size_heads [OF ne] rows_text_Suc [OF ne, of n]
    by simp
qed

section \<open>The file\<close>

text \<open>
  What the column builders leave behind: every row block has rowspans that hold its rows of every
  column, its total counts their cells with terminators, and so does the total of the table.
\<close>

definition block_ready :: "col_spec list \<Rightarrow> row_block \<Rightarrow> (bool \<times> string list) list \<Rightarrow> bool" where
  "block_ready css rb cols \<longleftrightarrow>
     list_all2 span_holds (rb_rowspans rb) cols \<and>
     map fst cols = map (\<lambda>cs. cs_name cs = None) css \<and>
     (\<forall>col \<in> set cols. length (snd col) = rb_row_count rb) \<and>
     1 \<le> rb_row_count rb \<and>
     rb_total rb = terminated_size cols"

definition table_ready :: "table \<Rightarrow> (bool \<times> string list) list list \<Rightarrow> bool" where
  "table_ready tb bcols \<longleftrightarrow>
     columns_ok (ts_col_specs (tb_spec tb)) \<and>
     tb_row_blocks tb \<noteq> [] \<and>
     list_all2 (block_ready (ts_col_specs (tb_spec tb))) (tb_row_blocks tb) bcols \<and>
     tb_total tb = sum_list (map rb_total (tb_row_blocks tb)) \<and>
     ts_row_count (tb_spec tb) = sum_list (map rb_row_count (tb_row_blocks tb))"

definition block_texts :: "row_block list \<Rightarrow> (bool \<times> string list) list list \<Rightarrow> string list" where
  "block_texts rbs bcols = map2 (\<lambda>rb cols. rows_text cols (rb_row_count rb)) rbs bcols"

lemma block_ready_text:
  assumes "block_ready css rb cols" "columns_ok css"
  shows "length (rows_text cols (rb_row_count rb)) + count_joins css * rb_row_count rb = rb_total rb"
    and "cols \<noteq> []"
proof -
  have m: "map fst cols = map (\<lambda>cs. cs_name cs = None) css" using assms(1) by (simp add: block_ready_def)
  then show ne: "cols \<noteq> []" using assms(2) by (auto simp: columns_ok_def)
  have "hd (map fst cols) = hd (map (\<lambda>cs. cs_name cs = None) css)" by (simp only: m)
  then have "\<not> fst (hd cols)" using ne assms(2) by (simp add: hd_map columns_ok_def)
  moreover have "joins_of cols = count_joins css"
  proof -
    have "joins_of cols = length (filter id (map fst cols))" by (simp add: joins_of_def filter_map comp_def)
    also have "\<dots> = count_joins css" by (simp add: m count_joins_def filter_map comp_def)
    finally show ?thesis .
  qed
  ultimately show "length (rows_text cols (rb_row_count rb)) + count_joins css * rb_row_count rb = rb_total rb"
    using rows_text_length [OF ne] assms(1) by (simp add: block_ready_def)
qed

lemma place_row_blocks_eq:
  assumes "list_all2 (\<lambda>rb t. length t + joins * rb_row_count rb = rb_total rb) rbs texts" "rbs \<noteq> []"
  shows "\<exists>rbs'. place_row_blocks joins ptr rbs = Some rbs' \<and> length rbs' = length rbs \<and>
    (\<forall>i < length rbs. rbs' ! i = (rbs ! i)\<lparr>rb_contents := ptr + length (concat (take i texts))\<rparr>)"
  using assms
proof (induction joins ptr rbs arbitrary: texts rule: place_row_blocks.induct)
  case (3 joins ptr rb rb' rbs)
  then obtain t texts' where t: "texts = t # texts'" "length t + joins * rb_row_count rb = rb_total rb"
    "list_all2 (\<lambda>rb t. length t + joins * rb_row_count rb = rb_total rb) (rb' # rbs) texts'"
    by (auto simp: list_all2_Cons1)
  have len: "step_back (rb_total rb) (joins * rb_row_count rb) = Some (length t)"
    using t(2) by (auto simp: step_back_def)
  obtain rbs' where r: "place_row_blocks joins (ptr + length t) (rb' # rbs) = Some rbs'"
    "length rbs' = length (rb' # rbs)"
    "\<forall>i < length (rb' # rbs). rbs' ! i = ((rb' # rbs) ! i)\<lparr>rb_contents := ptr + length t + length (concat (take i texts'))\<rparr>"
    using "3.IH" [OF len t(3)] by auto
  have "(rb\<lparr>rb_contents := ptr\<rparr> # rbs') ! i =
      ((rb # rb' # rbs) ! i)\<lparr>rb_contents := ptr + length (concat (take i texts))\<rparr>"
    if "i < length (rb # rb' # rbs)" for i
    using that r(3) t(1) by (cases i) (simp_all add: add.assoc)
  then show ?case using r len by simp
qed simp_all

lemma run_row_block_eq:
  assumes i: "i < length (tb_row_blocks tb)" "length segs = length (tb_row_blocks tb)"
    and b: "block_ready css (tb_row_blocks tb ! i) cols" "columns_ok css"
    and c: "tb_contents tb = H @ concat segs"
      "rb_contents (tb_row_blocks tb ! i) = length H + length (concat (take i segs))"
      "length (segs ! i) = length (rows_text cols (rb_row_count (tb_row_blocks tb ! i)))"
  shows "run_row_block tb i =
    Some (tb\<lparr>tb_contents := H @ concat (segs[i := rows_text cols (rb_row_count (tb_row_blocks tb ! i))])\<rparr>)"
proof -
  let ?rb = "tb_row_blocks tb ! i" and ?t = "rows_text cols (rb_row_count (tb_row_blocks tb ! i))"
  have il: "i < length segs" using i by simp
  have s: "concat segs = concat (take i segs) @ segs ! i @ concat (drop (Suc i) segs)"
    using id_take_nth_drop [OF il] by (metis concat.simps(2) concat_append)
  have u: "concat (segs[i := ?t]) = concat (take i segs) @ ?t @ concat (drop (Suc i) segs)"
    using upd_conv_take_nth_drop [OF il] by simp
  have "build_row_block (rb_row_count ?rb) (rb_rowspans ?rb)
      ((H @ concat (take i segs)) @ segs ! i @ concat (drop (Suc i) segs)) (length (H @ concat (take i segs))) =
    Some ((H @ concat (take i segs)) @ ?t @ concat (drop (Suc i) segs))"
    using b c(3) block_ready_text(2) [OF b] by (intro build_row_block_holds) (auto simp: block_ready_def)
  then show ?thesis
    using i(1) c(1,2) s u by (simp add: run_row_block_def Let_def)
qed

text \<open>Any block of the right size can be cut into segments of given lengths.\<close>

lemma cut_block: "length b = length (concat ts) \<Longrightarrow> \<exists>ss. b = concat ss \<and> map length ss = map length ts"
proof (induction ts arbitrary: b)
  case (Cons t ts)
  obtain b1 b2 where b: "b = b1 @ b2" "length b1 = length t" "length b2 = length (concat ts)"
    using Cons.prems by (auto elim: split_length)
  obtain ss where "b2 = concat ss" "map length ss = map length ts" using Cons.IH [OF b(3)] by blast
  then show ?case using b by (intro exI [of _ "b1 # ss"]) simp
qed simp

text \<open>Run in any order, each block at least once, the tasks write all the texts.\<close>

lemma run_row_blocks_eq:
  assumes "length segs = length (tb_row_blocks tb)" "columns_ok css"
    and "list_all2 (block_ready css) (tb_row_blocks tb) bcols" "set order \<subseteq> {..<length (tb_row_blocks tb)}"
    and "tb_contents tb = H @ concat segs"
    and "map length segs = map length (block_texts (tb_row_blocks tb) bcols)"
    and "\<forall>i < length (tb_row_blocks tb).
      rb_contents (tb_row_blocks tb ! i) = length H + length (concat (take i segs))"
  shows "run_row_blocks tb order = Some (tb\<lparr>tb_contents := H @ concat
    (map (\<lambda>i. if i \<in> set order then block_texts (tb_row_blocks tb) bcols ! i else segs ! i)
      [0..<length (tb_row_blocks tb)])\<rparr>)"
  using assms
proof (induction order arbitrary: tb segs)
  case Nil
  then have "map ((!) segs) [0..<length (tb_row_blocks tb)] = segs" by (metis map_nth)
  then show ?case using Nil by simp
next
  case (Cons i order)
  let ?rbs = "tb_row_blocks tb" and ?T = "block_texts (tb_row_blocks tb) bcols"
  have il: "i < length ?rbs" using Cons.prems(4) by simp
  have lb: "length bcols = length ?rbs" using Cons.prems(3) by (simp add: list_all2_lengthD)
  have Ti: "?T ! i = rows_text (bcols ! i) (rb_row_count (?rbs ! i))"
    using il lb by (simp add: block_texts_def)
  have ls: "length (segs ! j) = length (?T ! j)" if "j < length ?rbs" for j
    using arg_cong [OF Cons.prems(6), of "\<lambda>xs. xs ! j"] that Cons.prems(1) lb
    by (simp add: block_texts_def)
  let ?segs = "segs[i := ?T ! i]" and ?tb = "tb\<lparr>tb_contents := H @ concat (segs[i := ?T ! i])\<rparr>"
  have run: "run_row_block tb i = Some ?tb"
    using run_row_block_eq [OF il Cons.prems(1) list_all2_nthD [OF Cons.prems(3) il] Cons.prems(2,5)]
      Cons.prems(7) il ls [OF il] Ti by simp
  have lens: "map length ?segs = map length segs"
    using ls [OF il] il Cons.prems(1) by (intro nth_equalityI) (auto simp: nth_list_update)
  have tk: "length (concat (take j ?segs)) = length (concat (take j segs))" for j
    using lens by (simp add: length_concat flip: take_map)
  have "run_row_blocks ?tb order = Some (?tb\<lparr>tb_contents := H @ concat
    (map (\<lambda>k. if k \<in> set order then block_texts (tb_row_blocks ?tb) bcols ! k else ?segs ! k)
      [0..<length (tb_row_blocks ?tb)])\<rparr>)"
    using Cons.prems lens tk by (intro Cons.IH) auto
  then have 1: "run_row_blocks ?tb order = Some (tb\<lparr>tb_contents := H @ concat
    (map (\<lambda>k. if k \<in> set order then ?T ! k else ?segs ! k) [0..<length ?rbs])\<rparr>)"
    by (simp cong: if_cong)
  have 2: "map (\<lambda>k. if k \<in> set order then ?T ! k else ?segs ! k) [0..<length ?rbs] =
    map (\<lambda>k. if k \<in> set (i # order) then ?T ! k else segs ! k) [0..<length ?rbs]"
    using Cons.prems(1) by (intro map_cong refl) auto
  have "run_row_blocks tb (i # order) = run_row_blocks ?tb order" by (simp add: run)
  then show ?case unfolding 1 2 .
qed

definition table_text :: "table \<Rightarrow> (bool \<times> string list) list list \<Rightarrow> string" where
  "table_text tb bcols = header_text tb @ concat (block_texts (tb_row_blocks tb) bcols)"

lemma sum_block_texts:
  assumes "list_all2 (block_ready css) rbs bcols" "columns_ok css"
  shows "length (concat (block_texts rbs bcols)) + count_joins css * sum_list (map rb_row_count rbs) =
    sum_list (map rb_total rbs)"
  using assms(1)
proof (induction rule: list_all2_induct)
  case (Cons rb rbs cols bcols)
  then show ?case
    using block_ready_text(1) [OF Cons.hyps(1) assms(2)] by (simp add: block_texts_def algebra_simps)
qed (simp add: block_texts_def)

text \<open>
  C17: the file of a table. When the column builders are done, \<open>build_table_init\<close> asks for exactly
  the size of the file, and the row block tasks, run in any order, fill it without a gap: the header
  followed by the rows of all blocks in block order.
\<close>

theorem table_file_contents:
  assumes ready: "table_ready tb bcols" and order: "set order = {..<length (tb_row_blocks tb)}"
    and malloc: "malloc (length (table_text tb bcols)) = Some bytes"
      "length bytes = length (table_text tb bcols)"
  shows "\<exists>tb1 tb2. build_table_init malloc tb = Some (Inr tb1) \<and> run_row_blocks tb1 order = Some tb2 \<and>
    tb_contents tb2 = table_text tb bcols"
proof -
  let ?css = "ts_col_specs (tb_spec tb)" and ?rbs = "tb_row_blocks tb"
  let ?T = "block_texts (tb_row_blocks tb) bcols"
  have r: "columns_ok ?css" "?rbs \<noteq> []" "list_all2 (block_ready ?css) ?rbs bcols"
    "tb_total tb = sum_list (map rb_total ?rbs)" "ts_row_count (tb_spec tb) = sum_list (map rb_row_count ?rbs)"
    using ready by (simp_all add: table_ready_def)
  have lb: "length bcols = length ?rbs" using r(3) by (simp add: list_all2_lengthD)
  have sum: "length (concat ?T) + count_joins ?css * ts_row_count (tb_spec tb) = tb_total tb"
    unfolding r(4,5) by (rule sum_block_texts [OF r(3,1)])
  then have len: "table_size_contents tb = Some (length (table_text tb bcols), count_joins ?css)"
    using table_size_contents_eq [OF r(1)] by (simp add: table_text_def)
  obtain b1 segs where b: "bytes = b1 @ segs" "length b1 = length (header_text tb)" "length segs = length (concat ?T)"
    using malloc(2) by (auto simp: table_text_def elim: split_length)
  have h: "table_put_header tb bytes 0 = Some (header_text tb @ segs, length (header_text tb))"
    using writesD [OF writes_table_put_header [OF r(1)] b(2), of 0 "[]" segs] b(1) by simp
  have "list_all2 (\<lambda>rb t. length t + count_joins ?css * rb_row_count rb = rb_total rb) ?rbs ?T"
    using r(3) by (auto simp: list_all2_conv_all_nth block_texts_def intro: block_ready_text(1) [OF _ r(1)])
  then obtain rbs' where p: "place_row_blocks (count_joins ?css) (length (header_text tb)) ?rbs = Some rbs'"
    "length rbs' = length ?rbs"
    "\<forall>i < length ?rbs. rbs' ! i = (?rbs ! i)\<lparr>rb_contents := length (header_text tb) + length (concat (take i ?T))\<rparr>"
    using place_row_blocks_eq r(2) by blast
  define tb1 where "tb1 = tb\<lparr>tb_contents := header_text tb @ segs, tb_row_blocks := rbs'\<rparr>"
  have init: "build_table_init malloc tb = Some (Inr tb1)"
    using len malloc(1) h p(1) by (simp add: build_table_init_def tb1_def)
  have bt: "block_texts rbs' bcols = ?T"
    using p(2,3) lb by (intro nth_equalityI) (simp_all add: block_texts_def)
  have br: "list_all2 (block_ready ?css) rbs' bcols"
    using r(3) p(2,3) by (simp add: list_all2_conv_all_nth block_ready_def)
  obtain ss where ss: "segs = concat ss" "map length ss = map length ?T"
    using cut_block [OF b(3)] by blast
  have lt: "length (concat (take i ss)) = length (concat (take i ?T))" for i
    using ss(2) by (simp add: length_concat flip: take_map)
  have lss: "length ss = length ?rbs" using arg_cong [OF ss(2), of length] lb by (simp add: block_texts_def)
  have "run_row_blocks tb1 order = Some (tb1\<lparr>tb_contents := header_text tb @ concat
    (map (\<lambda>i. if i \<in> set order then block_texts (tb_row_blocks tb1) bcols ! i else ss ! i)
      [0..<length (tb_row_blocks tb1)])\<rparr>)"
    using r(1) br order ss bt p lss lt by (intro run_row_blocks_eq [where css = ?css]) (auto simp: tb1_def)
  moreover have "map (\<lambda>i. if i \<in> set order then block_texts (tb_row_blocks tb1) bcols ! i else ss ! i)
      [0..<length (tb_row_blocks tb1)] = ?T"
    using order bt p(2) lb by (intro nth_equalityI) (auto simp: tb1_def block_texts_def)
  ultimately show ?thesis using init by (auto simp: table_text_def)
qed

theorem table_file_contents_witness:
  "let cols = [(False, [''1'', ''2'']), (True, [''a'', ''bc''])];
       spans = [\<lparr>rs_block = terminated [''1'', ''2''], rs_cell = 0, rs_join = False\<rparr>,
                \<lparr>rs_block = terminated [''a'', ''bc''], rs_cell = 0, rs_join = True\<rparr>];
       spec = \<lparr>ts_name = ''t'', ts_row_count = 2, ts_col_specs = [\<lparr>cs_name = Some ''id''\<rparr>, \<lparr>cs_name = None\<rparr>]\<rparr>;
       rb = \<lparr>rb_total = 9, rb_rowspans = spans, rb_row_count = 2, rb_contents = 0\<rparr>;
       tb = \<lparr>tb_path = ''database/d/t.csv'', tb_db_name = ''d'', tb_contents = [], tb_total = 9,
              tb_spec = spec, tb_row_blocks = [rb]\<rparr>
   in table_ready tb [cols] \<and>
      (\<exists>tb1 tb2. build_table_init (\<lambda>n. Some (replicate n NUL)) tb = Some (Inr tb1) \<and>
         run_row_blocks tb1 [0] = Some tb2 \<and> tb_contents tb2 = table_text tb [cols])"
proof -
  define cols where "cols = [(False, [''1'', ''2'']), (True, [''a'', ''bc''])]"
  define spans where "spans = [\<lparr>rs_block = terminated [''1'', ''2''], rs_cell = 0, rs_join = False\<rparr>,
                \<lparr>rs_block = terminated [''a'', ''bc''], rs_cell = 0, rs_join = True\<rparr>]"
  define tb where "tb = \<lparr>tb_path = ''database/d/t.csv'', tb_db_name = ''d'', tb_contents = [], tb_total = 9,
    tb_spec = \<lparr>ts_name = ''t'', ts_row_count = 2, ts_col_specs = [\<lparr>cs_name = Some ''id''\<rparr>, \<lparr>cs_name = None\<rparr>]\<rparr>,
    tb_row_blocks = [\<lparr>rb_total = 9, rb_rowspans = spans, rb_row_count = 2, rb_contents = 0\<rparr>]\<rparr>"
  have h: "holds \<lparr>rs_block = terminated cs, rs_cell = 0, rs_join = j\<rparr> cs" if "\<forall>c \<in> set cs. NUL \<notin> set c" for cs j
    using that by (intro holdsI [of _ _ "[]" "[]"]) simp_all
  have "list_all2 span_holds spans cols"
    using h [of "[''1'', ''2'']" False] h [of "[''a'', ''bc'']" True]
    by (simp add: spans_def cols_def span_holds_def)
  then have r: "table_ready tb [cols]"
    by (simp add: tb_def table_ready_def block_ready_def columns_ok_def) (simp add: cols_def terminated_size_def)
  moreover have "\<exists>tb1 tb2. build_table_init (\<lambda>n. Some (replicate n NUL)) tb = Some (Inr tb1) \<and>
         run_row_blocks tb1 [0] = Some tb2 \<and> tb_contents tb2 = table_text tb [cols]"
    using table_file_contents [OF r, of "[0]" "\<lambda>n. Some (replicate n NUL)"
      "replicate (length (table_text tb [cols])) NUL"] by (simp add: tb_def lessThan_Suc)
  ultimately show ?thesis by (simp only: Let_def cols_def spans_def tb_def)
qed
text \<open>
  the variant without a header, \<open>build_table_init_no_header\<close>, leaves out the byte of the first
  newline although \<open>build_row_block\<close> writes it: there is a table that is ready, whose block is
  allocated as asked, and whose only row block is then written past the end of the block.
\<close>

theorem no_header_table_overflows:
  "\<exists>tb bcols tb1. table_ready tb bcols \<and> length (tb_row_blocks tb) = 1 \<and>
     build_table_init_no_header (\<lambda>n. Some (replicate n NUL)) tb = Some (Inr tb1) \<and>
     run_row_blocks tb1 [0] = None"
proof -
  let ?rs = "\<lparr>rs_block = terminated [''1''], rs_cell = 0, rs_join = False\<rparr>"
  let ?rb = "\<lparr>rb_total = 2, rb_rowspans = [?rs], rb_row_count = 1, rb_contents = 0\<rparr>"
  let ?tb = "\<lparr>tb_path = [], tb_db_name = [], tb_contents = [], tb_total = 2,
    tb_spec = \<lparr>ts_name = [], ts_row_count = 1, ts_col_specs = [\<lparr>cs_name = Some ''id''\<rparr>]\<rparr>, tb_row_blocks = [?rb]\<rparr>"
  have "holds ?rs [''1'']" by (rule holdsI [of _ _ "[]" "[]"]) simp_all
  then have "table_ready ?tb [[(False, [''1''])]]"
    by (simp add: table_ready_def columns_ok_def block_ready_def span_holds_def terminated_size_def)
  moreover have "build_table_init_no_header (\<lambda>n. Some (replicate n NUL)) ?tb = Some (Inr (?tb\<lparr>tb_contents := [NUL]\<rparr>))"
    by (simp add: build_table_init_no_header_def table_size_contents_no_header_def count_joins_def step_back_def Let_def)
  moreover have "run_row_blocks (?tb\<lparr>tb_contents := [NUL]\<rparr>) [0] = None"
    by (simp add: run_row_block_def build_row_block_def put_rows.simps copy_row_block_row_def store_def
        load_cell.simps load_def)
  ultimately show ?thesis by (intro exI conjI) (assumption | simp)+
qed

end
