(* ===== verification/Columns.thy ===== *)
theory Columns
  imports Counter Group Table
begin

text \<open>
  The column builders that draw on the counter and on fixed strings,
  \<open>src/generate/column_u_integer.c\<close>, \<open>column_integer.c\<close> and \<open>column_string.c\<close>. A builder gets the
  row counts of the row blocks of its table (the parents of the rowspans it visits, one per row
  block), makes the contents of the column, hooks every rowspan up and adds the lengths to the
  totals of the row block and of the table. \<open>column_out\<close> is what it leaves: the contents it
  allocated, each rowspan with the length added for it, and the length added to the table.
\<close>

section \<open>Definitions\<close>

record column_out =
  co_contents :: bytes
  co_spans :: "(rowspan \<times> nat) list"
  co_length :: nat

datatype column_failure =
    BCUIF_MALLOC_FAILURE | BCUIU_GROUP_MALLOC_FAILURE
  | BCIF_MALLOC_FAILURE | BCIU_GROUP_MALLOC_FAILURE
  | BCSF_MALLOC_FAILURE | BCSU_MALLOC_FAILURE | BCSU_GROUP_MALLOC_FAILURE

type_synonym spans = "(nat \<times> nat) list"

text \<open>
  \<open>malloc k n\<close> is a fresh block with room for \<open>k\<close> numbers and \<open>n\<close> bytes after them, or \<open>NULL\<close>.
\<close>

type_synonym alloc = "nat \<Rightarrow> nat \<Rightarrow> (nat list \<times> bytes) option"
type_synonym built = "(column_failure + column_out) option"

definition hook :: "bool \<Rightarrow> bytes \<Rightarrow> nat \<times> nat \<Rightarrow> rowspan \<times> nat" where
  "hook join block = (\<lambda>(cell, len). (\<lparr>rs_block = block, rs_cell = cell, rs_join = join\<rparr>, len))"

text \<open>
  \<open>counter_await\<close> returns when the counter is ready. The string at pointer \<open>i\<close> of the counter.
\<close>

definition counter_await :: "counter \<Rightarrow> unit option" where
  "counter_await c = (if cnt_ready c then Some () else None)"

definition counter_string :: "counter \<Rightarrow> nat \<Rightarrow> string option" where
  "counter_string c i = do { p \<leftarrow> load_size (cnt_pointers c) i; load_cell (cnt_digits c) p }"

subsection \<open>Fixed cells\<close>

text \<open>
  \<open>do ptr = call(ptr); while (ptr < contents_until)\<close>; a closure that writes nothing would make it
  run forever.
\<close>

partial_function (option) put_until :: "put \<Rightarrow> nat \<Rightarrow> bytes \<Rightarrow> nat \<Rightarrow> (bytes \<times> nat) option" where
  "put_until put contents_until b ptr =
     do { (b', ptr') \<leftarrow> put b ptr;
          if ptr' < contents_until then put_until put contents_until b' ptr' else Some (b', ptr') }"

declare put_until.simps [code]

fun fixed_rowspans :: "put \<Rightarrow> nat \<Rightarrow> nat list \<Rightarrow> bytes \<Rightarrow> nat \<Rightarrow> (bytes \<times> nat \<times> spans) option" where
  "fixed_rowspans put width [] b ptr = Some (b, ptr, [])"
| "fixed_rowspans put width (rc # rcs) b ptr =
     (let length_rowspan = width * rc
      in do { (b', ptr') \<leftarrow> put_until put (ptr + length_rowspan) b ptr;
              (b'', ptr'', spans) \<leftarrow> fixed_rowspans put width rcs b' ptr';
              Some (b'', ptr'', (ptr, length_rowspan) # spans) })"

definition build_column_fixed ::
  "column_failure \<Rightarrow> put \<Rightarrow> nat \<Rightarrow> alloc \<Rightarrow> bool \<Rightarrow> nat \<Rightarrow> nat list \<Rightarrow> built" where
  "build_column_fixed failure put width malloc join row_count rcs =
     (case malloc 0 (width * row_count) of
        None \<Rightarrow> Some (Inl failure)
      | Some (_, bytes) \<Rightarrow>
          if rcs = [] then None
          else do { (b, _, spans) \<leftarrow> fixed_rowspans put width rcs bytes 0;
                    Some (Inr \<lparr>co_contents = b, co_spans = map (hook join b) spans,
                               co_length = width * row_count\<rparr>) })"

definition build_column_u_integer_fixed :: "stub_builder \<Rightarrow> alloc \<Rightarrow> bool \<Rightarrow> nat \<Rightarrow> nat list \<Rightarrow> built" where
  "build_column_u_integer_fixed fixed =
     build_column_fixed BCUIF_MALLOC_FAILURE (put_stub_closure_call (stb_put_cl fixed)) (stb_width fixed)"

definition build_column_integer_fixed :: "stub_builder \<Rightarrow> alloc \<Rightarrow> bool \<Rightarrow> nat \<Rightarrow> nat list \<Rightarrow> built" where
  "build_column_integer_fixed fixed =
     build_column_fixed BCIF_MALLOC_FAILURE (put_stub_closure_call (stb_put_cl fixed)) (stb_width fixed)"

definition build_column_string_fixed :: "string_builder \<Rightarrow> alloc \<Rightarrow> bool \<Rightarrow> nat \<Rightarrow> nat list \<Rightarrow> built" where
  "build_column_string_fixed fixed =
     build_column_fixed BCSF_MALLOC_FAILURE (put_string_closure_call (sb_put_cl fixed)) (sb_length fixed)"

subsection \<open>Unique cells\<close>

text \<open>The rowspans of a unique number column point into the digits of the counter.\<close>

fun unique_rowspans :: "counter \<Rightarrow> nat list \<Rightarrow> nat \<Rightarrow> (spans \<times> nat) option" where
  "unique_rowspans c [] count_ptr = Some ([], count_ptr)"
| "unique_rowspans c (rc # rcs) count_ptr =
     do { cell \<leftarrow> load_size (cnt_pointers c) count_ptr;
          let count_ptr = count_ptr + rc;
          end_ptr \<leftarrow> load_size (cnt_pointers c) count_ptr;
          len \<leftarrow> step_back end_ptr cell;
          (spans, count_ptr') \<leftarrow> unique_rowspans c rcs count_ptr;
          Some ((cell, len) # spans, count_ptr') }"

definition build_column_u_integer_unique :: "counter \<Rightarrow> bool \<Rightarrow> nat list \<Rightarrow> built" where
  "build_column_u_integer_unique c join rcs =
     (if rcs = [] then None
      else do { _ \<leftarrow> counter_await c;
                (spans, count_ptr) \<leftarrow> unique_rowspans c rcs 0;
                end_ptr \<leftarrow> load_size (cnt_pointers c) count_ptr;
                start_ptr \<leftarrow> load_size (cnt_pointers c) 0;
                len \<leftarrow> step_back end_ptr start_ptr;
                Some (Inr \<lparr>co_contents = [], co_spans = map (hook join (cnt_digits c)) spans,
                           co_length = len\<rparr>) })"

definition build_column_integer_unique :: "counter \<Rightarrow> bool \<Rightarrow> nat list \<Rightarrow> built" where
  "build_column_integer_unique = build_column_u_integer_unique"

text \<open>\<open>do ... while (count_ptr < count_until)\<close>: the base string and the number.\<close>

function unique_cells ::
  "put \<Rightarrow> counter \<Rightarrow> nat \<Rightarrow> nat \<Rightarrow> bytes \<Rightarrow> nat \<Rightarrow> (bytes \<times> nat \<times> nat) option" where
  "unique_cells base c count_until count_ptr b ptr =
     do { (b, ptr) \<leftarrow> base b ptr;
          s \<leftarrow> counter_string c count_ptr;
          (b, ptr) \<leftarrow> put_string_stop s b ptr;
          if count_ptr + 1 < count_until then unique_cells base c count_until (count_ptr + 1) b ptr
          else Some (b, ptr, count_ptr + 1) }"
  by pat_completeness auto
termination
  by (relation "measure (\<lambda>(base, c, count_until, count_ptr, b, ptr). count_until - count_ptr)") auto

declare unique_cells.simps [simp del]

fun unique_string_rowspans ::
  "put \<Rightarrow> counter \<Rightarrow> nat list \<Rightarrow> nat \<Rightarrow> bytes \<Rightarrow> nat \<Rightarrow> (bytes \<times> nat \<times> spans) option" where
  "unique_string_rowspans base c [] count_ptr b ptr = Some (b, ptr, [])"
| "unique_string_rowspans base c (rc # rcs) count_ptr b ptr =
     do { (b', ptr', count_ptr') \<leftarrow> unique_cells base c (count_ptr + rc) count_ptr b ptr;
          len \<leftarrow> step_back ptr' ptr;
          (b'', ptr'', spans) \<leftarrow> unique_string_rowspans base c rcs count_ptr' b' ptr';
          Some (b'', ptr'', (ptr, len) # spans) }"

definition build_column_string_unique ::
  "string_builder \<Rightarrow> alloc \<Rightarrow> counter \<Rightarrow> bool \<Rightarrow> nat \<Rightarrow> nat list \<Rightarrow> built" where
  "build_column_string_unique base malloc c join row_count rcs =
     (let length_contents = counter_size_upto row_count + row_count * sb_length base
      in case malloc 0 length_contents of
           None \<Rightarrow> Some (Inl BCSU_MALLOC_FAILURE)
         | Some (_, bytes) \<Rightarrow>
             if rcs = [] then None
             else do { _ \<leftarrow> counter_await c;
                       (b, _, spans) \<leftarrow>
                         unique_string_rowspans (put_string_closure_call (sb_put_cl base)) c rcs 0 bytes 0;
                       Some (Inr \<lparr>co_contents = b, co_spans = map (hook join b) spans,
                                  co_length = length_contents\<rparr>) })"
subsection \<open>Unique cells in groups\<close>

text \<open>\<open>struct GrpSpec\<close>: the number of groups and the partitioner.\<close>

record grp_spec =
  gs_count :: nat
  gs_partition :: "nat list \<Rightarrow> nat \<Rightarrow> nat \<Rightarrow> (nat list \<times> nat) option"

text \<open>
  The routines that repeat the cell of a group copy it from the contents themselves: \<open>copy w src\<close>
  reads the \<open>w\<close> bytes at \<open>src\<close> of the block it writes to.
\<close>

type_synonym copier = "nat \<Rightarrow> nat \<Rightarrow> bytes \<Rightarrow> nat \<Rightarrow> (bytes \<times> nat) option"

definition copy_digits :: copier where
  "copy_digits width group_string b ptr = PUT_STRING_WIDTH_MAP width b group_string b ptr"

definition copy_group_string :: copier where
  "copy_group_string width group_string b ptr =
     put_string_closure_call (put_string_closure_init b group_string width) b ptr"

fun put_copies :: "copier \<Rightarrow> nat \<Rightarrow> nat \<Rightarrow> nat \<Rightarrow> bytes \<Rightarrow> nat \<Rightarrow> (bytes \<times> nat) option" where
  "put_copies copy 0 width group_string b ptr = Some (b, ptr)"
| "put_copies copy (Suc n) width group_string b ptr =
     do { (b', ptr') \<leftarrow> copy width group_string b ptr; put_copies copy n width group_string b' ptr' }"

text \<open>
  The loop over groups and rowspans, \<open>while (1)\<close>. \<open>cell\<close> is the start of the current rowspan,
  \<open>rest\<close> the row counts of the row blocks after it, \<open>i\<close> the index of the current group (\<open>group\<close> and
  \<open>count_ptr\<close> move together, each with its own load), \<open>width\<close> and \<open>group_string\<close> the cell to repeat.
  A group of size zero would wrap \<open>rem_group\<close>: there is no value for it.
\<close>

function group_loop ::
  "put \<Rightarrow> copier \<Rightarrow> counter \<Rightarrow> nat list \<Rightarrow> nat list \<Rightarrow> nat \<Rightarrow> nat \<Rightarrow> nat \<Rightarrow> nat \<Rightarrow> nat \<Rightarrow> nat \<Rightarrow> bytes \<Rightarrow> nat \<Rightarrow>
    (bytes \<times> nat \<times> spans) option" where
  "group_loop base copy c sizes rest cell rem_cells rem_group i width group_string b ptr =
     (if rem_group < rem_cells then
        do { (b, ptr) \<leftarrow> put_copies copy rem_group width group_string b ptr;
             (b, ptr') \<leftarrow> base b ptr;
             s \<leftarrow> counter_string c (i + 1);
             (b, ptr') \<leftarrow> put_string_stop s b ptr';
             size \<leftarrow> load_size sizes (i + 1);
             rem_group' \<leftarrow> step_back size 1;
             group_loop base copy c sizes rest cell (rem_cells - (rem_group + 1)) rem_group' (i + 1)
               (ptr' - ptr) ptr b ptr' }
      else
        do { (b, ptr) \<leftarrow> put_copies copy rem_cells width group_string b ptr;
             case rest of
               [] \<Rightarrow> Some (b, ptr, [(cell, ptr - cell)])
             | rc # rest \<Rightarrow>
                 do { (b, ptr', spans) \<leftarrow>
                        group_loop base copy c sizes rest ptr rc (rem_group - rem_cells) i width group_string b ptr;
                      Some (b, ptr', (cell, ptr - cell) # spans) } })"
  by pat_completeness auto
termination
  by (relation "measures [\<lambda>(base, copy, c, sizes, rest, cell, rem_cells, rem_group, i, width, gs, b, ptr). length rest,
       \<lambda>(base, copy, c, sizes, rest, cell, rem_cells, rem_group, i, width, gs, b, ptr). rem_cells]") auto

declare group_loop.simps [simp del]

text \<open>
  Both group builders: partition the rows into the front of the block, write the first cell behind
  it, then loop. The contents begin where the partitioner stopped.
\<close>

definition build_column_unique_group ::
  "column_failure \<Rightarrow> put \<Rightarrow> nat \<Rightarrow> copier \<Rightarrow> grp_spec \<Rightarrow> alloc \<Rightarrow> counter \<Rightarrow> bool \<Rightarrow> nat \<Rightarrow> nat list \<Rightarrow> built" where
  "build_column_unique_group failure base base_length copy grp malloc c join row_count rcs =
     (let column_alloc = (base_length + counter_size_mag_upto (gs_count grp)) * row_count
      in case malloc (gs_count grp) column_alloc of
           None \<Rightarrow> Some (Inl failure)
         | Some (sizes, bytes) \<Rightarrow>
             do { (sizes, until) \<leftarrow> gs_partition grp sizes (gs_count grp) row_count;
                  ptr \<leftarrow> (if until = gs_count grp then Some 0 else None);
                  (rc, rest) \<leftarrow> (case rcs of [] \<Rightarrow> None | rc # rest \<Rightarrow> Some (rc, rest));
                  rem_cells \<leftarrow> step_back rc 1;
                  size \<leftarrow> load_size sizes 0;
                  rem_group \<leftarrow> step_back size 1;
                  (b, ptr') \<leftarrow> base bytes ptr;
                  (b, ptr') \<leftarrow> PUT_STRING_WIDTH ''1'' 2 b ptr';
                  _ \<leftarrow> counter_await c;
                  (b, ptr', spans) \<leftarrow>
                    group_loop base copy c sizes rest ptr rem_cells rem_group 0 (base_length + 2) ptr b ptr';
                  Some (Inr \<lparr>co_contents = b, co_spans = map (hook join b) spans, co_length = ptr' - ptr\<rparr>) })"

definition build_column_u_integer_unique_group ::
  "grp_spec \<Rightarrow> alloc \<Rightarrow> counter \<Rightarrow> bool \<Rightarrow> nat \<Rightarrow> nat list \<Rightarrow> built" where
  "build_column_u_integer_unique_group =
     build_column_unique_group BCUIU_GROUP_MALLOC_FAILURE (\<lambda>b ptr. Some (b, ptr)) 0 copy_digits"

definition build_column_integer_unique_group ::
  "grp_spec \<Rightarrow> alloc \<Rightarrow> counter \<Rightarrow> bool \<Rightarrow> nat \<Rightarrow> nat list \<Rightarrow> built" where
  "build_column_integer_unique_group =
     build_column_unique_group BCIU_GROUP_MALLOC_FAILURE (\<lambda>b ptr. Some (b, ptr)) 0 copy_digits"

definition build_column_string_unique_group ::
  "string_builder \<Rightarrow> grp_spec \<Rightarrow> alloc \<Rightarrow> counter \<Rightarrow> bool \<Rightarrow> nat \<Rightarrow> nat list \<Rightarrow> built" where
  "build_column_string_unique_group base =
     build_column_unique_group BCSU_GROUP_MALLOC_FAILURE (put_string_closure_call (sb_put_cl base))
       (sb_length base) copy_group_string"
section \<open>What a builder promises\<close>

text \<open>
  The cells of a column cut at the row blocks, and the pointers of its rowspans when the cells lie
  one after the other from \<open>p\<close> on.
\<close>

fun cut :: "nat list \<Rightarrow> 'a list \<Rightarrow> 'a list list" where
  "cut [] cells = []"
| "cut (rc # rcs) cells = take rc cells # cut rcs (drop rc cells)"

fun spans_from :: "nat \<Rightarrow> nat list \<Rightarrow> string list \<Rightarrow> spans" where
  "spans_from p [] cells = []"
| "spans_from p (rc # rcs) cells =
     (p, length (terminated (take rc cells))) #
       spans_from (p + length (terminated (take rc cells))) rcs (drop rc cells)"

definition piece_of :: "bool \<Rightarrow> rowspan \<times> nat \<Rightarrow> string list \<Rightarrow> bool" where
  "piece_of join = (\<lambda>(rs, len) cells. span_holds rs (join, cells) \<and> len = length (terminated cells))"

definition lays_out :: "column_out \<Rightarrow> bool \<Rightarrow> nat list \<Rightarrow> string list \<Rightarrow> bool" where
  "lays_out co join rcs cells \<longleftrightarrow>
     list_all2 (piece_of join) (co_spans co) (cut rcs cells) \<and> co_length co = length (terminated cells)"

lemma length_cut [simp]: "length (cut rcs cells) = length rcs"
  by (induction rcs arbitrary: cells) simp_all

lemma concat_cut: "sum_list rcs = length cells \<Longrightarrow> concat (cut rcs cells) = cells"
  by (induction rcs arbitrary: cells) simp_all

lemma cut_lengths: "sum_list rcs \<le> length cells \<Longrightarrow> map length (cut rcs cells) = rcs"
  by (induction rcs arbitrary: cells) simp_all

lemma hook_spans:
  assumes "block = pre @ terminated cells @ post" "p = length pre"
    and "sum_list rcs \<le> length cells" "\<forall>cell \<in> set cells. NUL \<notin> set cell"
  shows "list_all2 (piece_of join) (map (hook join block) (spans_from p rcs cells)) (cut rcs cells)"
  using assms
proof (induction rcs arbitrary: pre p cells)
  case (Cons rc rcs)
  let ?h = "take rc cells" and ?t = "drop rc cells"
  have s: "terminated cells = terminated ?h @ terminated ?t"
    by (metis append_take_drop_id terminated_simps(3))
  have "piece_of join (hook join block (p, length (terminated ?h))) ?h"
    using Cons.prems s by (auto simp: piece_of_def hook_def span_holds_def dest: in_set_takeD intro!: holdsI)
  moreover have "list_all2 (piece_of join)
      (map (hook join block) (spans_from (p + length (terminated ?h)) rcs ?t)) (cut rcs ?t)"
    using Cons.prems s by (intro Cons.IH [of "pre @ terminated ?h"]) (auto dest: in_set_dropD)
  ultimately show ?case by simp
qed simp

lemma lays_out_hook:
  assumes "b = pre @ terminated cells @ post" "sum_list rcs = length cells"
    and "\<forall>cell \<in> set cells. NUL \<notin> set cell" "n = length (terminated cells)"
  shows "lays_out \<lparr>co_contents = a, co_spans = map (hook join b) (spans_from (length pre) rcs cells), co_length = n\<rparr>
    join rcs cells"
  using assms by (simp add: lays_out_def hook_spans)

section \<open>Fixed cells\<close>

lemma put_until_writes:
  assumes "writes put s" "s \<noteq> []" "0 < n" "length old = length s * n"
  shows "put_until put (length xs + length s * n) (xs @ old @ ys) (length xs) =
    Some (xs @ concat (replicate n s) @ ys, length xs + length s * n)"
  using assms(3,4)
proof (induction n arbitrary: xs old)
  case (Suc n)
  obtain o1 o2 where o: "old = o1 @ o2" "length o1 = length s" "length o2 = length s * n"
    using Suc.prems(2) by (auto elim: split_length)
  have 1: "put (xs @ o1 @ o2 @ ys) (length xs) = Some (xs @ s @ o2 @ ys, length xs + length s)"
    using writesD [OF assms(1) o(2) refl, of xs "o2 @ ys"] by simp
  show ?case
  proof (cases "n = 0")
    case True
    then show ?thesis using 1 o by (subst put_until.simps) simp
  next
    case False
    then have "put_until put (length (xs @ s) + length s * n) ((xs @ s) @ o2 @ ys) (length (xs @ s)) =
        Some ((xs @ s) @ concat (replicate n s) @ ys, length (xs @ s) + length s * n)"
      using o(3) by (intro Suc.IH) simp_all
    then show ?thesis using 1 o False assms(2) by (subst put_until.simps) (simp add: add.assoc)
  qed
qed simp

lemma terminated_replicate: "terminated (replicate n s) = concat (replicate n (s @ [NUL]))"
  by (simp add: terminated_def map_replicate_const)

lemma length_terminated_replicate [simp]: "length (terminated (replicate n s)) = (length s + 1) * n"
  by (simp add: terminated_replicate length_concat sum_list_replicate)

lemma fixed_rowspans_eq:
  assumes "writes put (s @ [NUL])" "\<forall>rc \<in> set rcs. 0 < rc" "width = length s + 1"
    and "length old = width * sum_list rcs"
  shows "fixed_rowspans put width rcs (xs @ old @ ys) (length xs) =
    Some (xs @ terminated (replicate (sum_list rcs) s) @ ys, length xs + width * sum_list rcs,
      spans_from (length xs) rcs (replicate (sum_list rcs) s))"
  using assms(2,4)
proof (induction rcs arbitrary: xs old)
  case (Cons rc rcs)
  let ?w = "length (s @ [NUL])" and ?r = "terminated (replicate rc s)"
  obtain o1 o2 where o: "old = o1 @ o2" "length o1 = ?w * rc" "length o2 = width * sum_list rcs"
    using Cons.prems(2) assms(3) by (auto simp: distrib_left elim: split_length)
  have 1: "put_until put (length xs + ?w * rc) (xs @ o1 @ o2 @ ys) (length xs) =
      Some (xs @ ?r @ o2 @ ys, length xs + ?w * rc)"
    using put_until_writes [OF assms(1) _ _ o(2), of xs "o2 @ ys"] Cons.prems by (simp add: terminated_replicate)
  have "fixed_rowspans put width rcs ((xs @ ?r) @ o2 @ ys) (length (xs @ ?r)) =
      Some ((xs @ ?r) @ terminated (replicate (sum_list rcs) s) @ ys,
        length (xs @ ?r) + width * sum_list rcs, spans_from (length (xs @ ?r)) rcs (replicate (sum_list rcs) s))"
    using Cons.prems o(3) by (intro Cons.IH) simp_all
  then show ?case
    using 1 o(1) assms(3) by (simp add: replicate_add min_def algebra_simps)
qed (use assms in simp)

text \<open>The allocator: always a fresh block of the asked size.\<close>

definition allocates :: "alloc \<Rightarrow> bool" where
  "allocates malloc \<longleftrightarrow> (\<forall>k n. \<exists>sizes bytes. malloc k n = Some (sizes, bytes) \<and> length sizes = k \<and> length bytes = n)"

lemma allocatesE:
  assumes "allocates malloc"
  obtains sizes bytes where "malloc k n = Some (sizes, bytes)" "length sizes = k" "length bytes = n"
  using assms unfolding allocates_def by blast

lemma build_column_fixed_lays_out:
  assumes "writes put (s @ [NUL])" "width = length s + 1" "NUL \<notin> set s"
    and "allocates malloc" "rcs \<noteq> []" "\<forall>rc \<in> set rcs. 0 < rc" "row_count = sum_list rcs"
  shows "\<exists>co. build_column_fixed failure put width malloc join row_count rcs = Some (Inr co) \<and>
    lays_out co join rcs (replicate row_count s)"
proof -
  obtain sizes bytes where m: "malloc 0 (width * row_count) = Some (sizes, bytes)" "length bytes = width * row_count"
    using assms(4) by (rule allocatesE)
  have "fixed_rowspans put width rcs ([] @ bytes @ []) (length ([] :: bytes)) =
    Some ([] @ terminated (replicate (sum_list rcs) s) @ [], length ([] :: bytes) + width * sum_list rcs,
      spans_from (length ([] :: bytes)) rcs (replicate (sum_list rcs) s))"
    using assms m by (intro fixed_rowspans_eq) simp_all
  then have "fixed_rowspans put width rcs bytes 0 =
    Some (terminated (replicate row_count s), width * row_count, spans_from 0 rcs (replicate row_count s))"
    by (simp add: assms(7))
  moreover have "lays_out \<lparr>co_contents = terminated (replicate row_count s),
      co_spans = map (hook join (terminated (replicate row_count s))) (spans_from (length ([] :: bytes)) rcs (replicate row_count s)),
      co_length = width * row_count\<rparr> join rcs (replicate row_count s)"
    using assms(2,3,7) by (intro lays_out_hook [of _ _ _ "[]"]) simp_all
  ultimately show ?thesis
    using m(1) assms(5) by (simp add: build_column_fixed_def)
qed
section \<open>Unique cells\<close>

definition counts :: "nat \<Rightarrow> nat \<Rightarrow> string list" where
  "counts i n = map decimal [Suc i..<Suc (i + n)]"

lemma length_counts [simp]: "length (counts i n) = n"
  by (simp add: counts_def)

lemma counts_0 [simp]: "counts i 0 = []"
  by (simp add: counts_def)

lemma counts_Suc: "counts i (Suc n) = decimal (Suc i) # counts (Suc i) n"
  by (simp add: counts_def upt_conv_Cons del: upt_Suc)

lemma counts_add: "counts i (m + n) = counts i m @ counts (i + m) n"
  by (induction m arbitrary: i) (simp_all add: counts_Suc)

lemma counts_take_drop: "m \<le> n \<Longrightarrow> take m (counts i n) = counts i m" "m \<le> n \<Longrightarrow> drop m (counts i n) = counts (i + m) (n - m)"
  using counts_add [of i m "n - m"] by simp_all

lemma counts_NUL: "\<forall>cell \<in> set (counts i n). NUL \<notin> set cell"
  by (auto simp: counts_def)

lemma terminated_counts: "terminated (counts i n) = count_cells (Suc i) (Suc (i + n))"
  by (simp add: terminated_def counts_def count_cells_def count_cell_def [abs_def] comp_def del: upt_Suc)

lemma digits_upto_counts: "digits_upto n = terminated (counts 0 n)"
  by (simp add: terminated_counts digits_upto_def)

lemma digits_upto_split: "i + n \<le> m \<Longrightarrow>
  digits_upto m = digits_upto i @ terminated (counts i n) @ terminated (counts (i + n) (m - (i + n)))"
  using counts_add [of 0 i "m - i"] counts_add [of i n "m - (i + n)"] by (simp add: digits_upto_counts)

lemma length_digits_upto_counts: "length (digits_upto (i + n)) = length (digits_upto i) + length (terminated (counts i n))"
  by (simp add: digits_upto_counts counts_add)

lemma counter_pointer: "counter_filled c \<Longrightarrow> i \<le> cnt_upto c \<Longrightarrow> load_size (cnt_pointers c) i = Some (length (digits_upto i))"
  by (simp add: counter_filled_def load_size_def del: upt_Suc)

lemma counter_string_eq:
  assumes "counter_filled c" "i < cnt_upto c"
  shows "counter_string c i = Some (decimal (Suc i))"
proof -
  obtain post where "cnt_digits c = digits_upto i @ decimal (Suc i) @ NUL # post"
    using assms digits_upto_split [of i 1 "cnt_upto c"] by (auto simp: counter_filled_def counts_Suc)
  then show ?thesis
    using assms by (simp add: counter_string_def counter_pointer load_cell_string)
qed

lemma unique_rowspans_eq:
  "counter_filled c \<Longrightarrow> k + sum_list rcs \<le> cnt_upto c \<Longrightarrow>
    unique_rowspans c rcs k =
      Some (spans_from (length (digits_upto k)) rcs (counts k (sum_list rcs)), k + sum_list rcs)"
proof (induction rcs arbitrary: k)
  case (Cons rc rcs)
  then show ?case
    by (simp add: counter_pointer length_digits_upto_counts counts_take_drop add.assoc step_back_def)
qed simp

text \<open>The counter as far as a builder of \<open>n\<close> different cells needs it.\<close>

definition counter_serves :: "counter \<Rightarrow> nat \<Rightarrow> bool" where
  "counter_serves c n \<longleftrightarrow>
     n = 0 \<or> cnt_ready c \<and> counter_filled c \<and> n \<le> cnt_upto c \<and> cnt_upto c \<le> UPTO_MAX"

lemma counter_servesD:
  assumes "counter_serves c n" "0 < n"
  shows "counter_await c = Some ()" "counter_filled c" "n \<le> cnt_upto c" "n \<le> UPTO_MAX"
  using assms by (auto simp: counter_serves_def counter_await_def)

lemma build_column_u_integer_unique_lays_out:
  assumes "counter_serves c (sum_list rcs)" "rcs \<noteq> []" "\<forall>rc \<in> set rcs. 0 < rc"
  shows "\<exists>co. build_column_u_integer_unique c join rcs = Some (Inr co) \<and>
    lays_out co join rcs (counts 0 (sum_list rcs))"
proof -
  let ?n = "sum_list rcs"
  have "0 < ?n" using assms(2,3) by (cases rcs) auto
  note c = counter_servesD [OF assms(1) this]
  have d: "cnt_digits c = [] @ terminated (counts 0 ?n) @ terminated (counts ?n (cnt_upto c - ?n))"
    using digits_upto_split [of 0 ?n "cnt_upto c"] c by (simp add: counter_filled_def digits_upto_counts)
  have l: "lays_out \<lparr>co_contents = [],
      co_spans = map (hook join (cnt_digits c)) (spans_from (length ([] :: bytes)) rcs (counts 0 ?n)),
      co_length = length (digits_upto ?n)\<rparr> join rcs (counts 0 ?n)"
    by (intro lays_out_hook [OF d]) (simp_all add: counts_NUL digits_upto_counts)
  have "load_size (cnt_pointers c) 0 = Some 0" "digits_upto 0 = []"
    using counter_pointer [OF c(2), of 0] by (simp_all add: digits_upto_counts)
  then show ?thesis
    using l c assms(2) unique_rowspans_eq [OF c(2), of 0 rcs]
    by (simp add: build_column_u_integer_unique_def counter_pointer step_back_def)
qed

text \<open>Unique strings: the base before each number.\<close>

definition base_counts :: "string \<Rightarrow> nat \<Rightarrow> nat \<Rightarrow> string list" where
  "base_counts s i n = map (\<lambda>d. s @ d) (counts i n)"

lemma length_base_counts [simp]: "length (base_counts s i n) = n"
  by (simp add: base_counts_def)

lemma base_counts_Suc: "base_counts s i (Suc n) = (s @ decimal (Suc i)) # base_counts s (Suc i) n"
  by (simp add: base_counts_def counts_Suc)

lemma base_counts_0 [simp]: "base_counts s i 0 = []"
  by (simp add: base_counts_def)

lemma base_counts_take_drop:
  "m \<le> n \<Longrightarrow> take m (base_counts s i n) = base_counts s i m"
  "m \<le> n \<Longrightarrow> drop m (base_counts s i n) = base_counts s (i + m) (n - m)"
  by (simp_all add: base_counts_def take_map drop_map counts_take_drop)

lemma base_counts_add: "base_counts s i (m + n) = base_counts s i m @ base_counts s (i + m) n"
  by (simp add: base_counts_def counts_add)

lemma length_base_counts_terminated:
  "length (terminated (base_counts s i n)) = length (terminated (counts i n)) + n * length s"
  by (induction n arbitrary: i) (simp_all add: base_counts_Suc counts_Suc)

lemma writes_base_cell:
  assumes "writes base s"
  shows "writes (\<lambda>b p. do { (b, p) \<leftarrow> base b p; put_string_stop t b p }) (s @ t @ [NUL])"
  by (intro writes_bind assms writes_put_string_stop)

lemma unique_cells_eq:
  assumes "writes base s" "counter_filled c" "k + n \<le> cnt_upto c" "0 < n"
    and "length old = length (terminated (base_counts s k n))"
  shows "unique_cells base c (k + n) k (xs @ old @ ys) (length xs) =
    Some (xs @ terminated (base_counts s k n) @ ys, length xs + length (terminated (base_counts s k n)), k + n)"
  using assms(3-)
proof (induction n arbitrary: k xs old)
  case (Suc n)
  let ?t = "s @ decimal (Suc k) @ [NUL]"
  obtain o1 o2 where o: "old = o1 @ o2" "length o1 = length ?t"
    "length o2 = length (terminated (base_counts s (Suc k) n))"
    using Suc.prems(3) split_length [of old "length ?t" "length (terminated (base_counts s (Suc k) n))"]
    by (auto simp: base_counts_Suc)
  have 1: "do { (b, p) \<leftarrow> base (xs @ o1 @ o2 @ ys) (length xs); put_string_stop (decimal (Suc k)) b p } =
      Some (xs @ ?t @ o2 @ ys, length xs + length ?t)"
    using writesD [OF writes_base_cell [OF assms(1)] o(2) refl, of xs "o2 @ ys"] by simp
  have s: "counter_string c k = Some (decimal (Suc k))"
    using Suc.prems by (intro counter_string_eq assms(2)) simp
  show ?case
  proof (cases "n = 0")
    case True
    then show ?thesis using 1 s o by (subst unique_cells.simps) (auto simp: base_counts_Suc split: bind_splits)
  next
    case False
    then have "unique_cells base c (Suc k + n) (Suc k) ((xs @ ?t) @ o2 @ ys) (length (xs @ ?t)) =
        Some ((xs @ ?t) @ terminated (base_counts s (Suc k) n) @ ys,
          length (xs @ ?t) + length (terminated (base_counts s (Suc k) n)), Suc k + n)"
      using Suc.prems o(3) by (intro Suc.IH) simp_all
    then show ?thesis
      using 1 s o False by (subst unique_cells.simps) (auto simp: base_counts_Suc split: bind_splits)
  qed
qed simp
lemma unique_string_rowspans_eq:
  assumes "writes base s" "counter_filled c" "k + sum_list rcs \<le> cnt_upto c" "\<forall>rc \<in> set rcs. 0 < rc"
    and "length old = length (terminated (base_counts s k (sum_list rcs)))"
  shows "unique_string_rowspans base c rcs k (xs @ old @ ys) (length xs) =
    Some (xs @ terminated (base_counts s k (sum_list rcs)) @ ys,
      length xs + length (terminated (base_counts s k (sum_list rcs))),
      spans_from (length xs) rcs (base_counts s k (sum_list rcs)))"
  using assms(3-)
proof (induction rcs arbitrary: k xs old)
  case (Cons rc rcs)
  let ?t = "terminated (base_counts s k rc)" and ?u = "terminated (base_counts s (k + rc) (sum_list rcs))"
  have old: "length old = length ?t + length ?u" using Cons.prems(3) by (simp add: base_counts_add)
  obtain o1 o2 where o: "old = o1 @ o2" "length o1 = length ?t" "length o2 = length ?u"
    using old by (rule split_length)
  have 1: "unique_cells base c (k + rc) k (xs @ o1 @ o2 @ ys) (length xs) =
      Some (xs @ ?t @ o2 @ ys, length xs + length ?t, k + rc)"
    using Cons.prems o(2) by (intro unique_cells_eq assms) simp_all
  have 2: "unique_string_rowspans base c rcs (k + rc) ((xs @ ?t) @ o2 @ ys) (length (xs @ ?t)) =
    Some ((xs @ ?t) @ ?u @ ys, length (xs @ ?t) + length ?u,
      spans_from (length (xs @ ?t)) rcs (base_counts s (k + rc) (sum_list rcs)))"
    using Cons.prems o(3) by (intro Cons.IH) simp_all
  show ?case
    using 1 2 o(1) by (simp add: step_back_def base_counts_add base_counts_take_drop add.assoc)
qed simp

lemma base_counts_NUL: "NUL \<notin> set s \<Longrightarrow> \<forall>cell \<in> set (base_counts s i n). NUL \<notin> set cell"
  using counts_NUL [of i n] by (auto simp: base_counts_def)

lemma build_column_string_unique_lays_out:
  assumes "writes (put_string_closure_call (sb_put_cl base)) s" "sb_length base = length s" "NUL \<notin> set s"
    and "allocates malloc" "counter_serves c row_count"
    and "rcs \<noteq> []" "\<forall>rc \<in> set rcs. 0 < rc" "row_count = sum_list rcs"
  shows "\<exists>co. build_column_string_unique base malloc c join row_count rcs = Some (Inr co) \<and>
    lays_out co join rcs (base_counts s 0 row_count)"
proof -
  let ?t = "terminated (base_counts s 0 row_count)"
  have "0 < row_count" using assms(6-8) by (cases rcs) auto
  note c = counter_servesD [OF assms(5) this]
  have n: "counter_size_upto row_count + row_count * sb_length base = length ?t"
    using length_digits_upto [OF c(4)] assms(2) by (simp add: length_base_counts_terminated digits_upto_counts)
  obtain sizes bytes where m: "malloc 0 (length ?t) = Some (sizes, bytes)" "length bytes = length ?t"
    using assms(4) by (rule allocatesE)
  have "unique_string_rowspans (put_string_closure_call (sb_put_cl base)) c rcs 0
      ([] @ bytes @ []) (length ([] :: bytes)) =
    Some ([] @ ?t @ [], length ([] :: bytes) + length ?t, spans_from (length ([] :: bytes)) rcs (base_counts s 0 row_count))"
    using assms m c unfolding assms(8) by (intro unique_string_rowspans_eq) simp_all
  then have "unique_string_rowspans (put_string_closure_call (sb_put_cl base)) c rcs 0 bytes 0 =
    Some (?t, length ?t, spans_from 0 rcs (base_counts s 0 row_count))" by simp
  moreover have "lays_out \<lparr>co_contents = ?t,
      co_spans = map (hook join ?t) (spans_from (length ([] :: bytes)) rcs (base_counts s 0 row_count)),
      co_length = length ?t\<rparr> join rcs (base_counts s 0 row_count)"
    using assms(3,8) by (intro lays_out_hook [of _ _ _ "[]"]) (simp_all add: base_counts_NUL)
  ultimately show ?thesis
    using m(1) assms(6) c(1) by (simp add: build_column_string_unique_def n)
qed

section \<open>Cells in groups\<close>

text \<open>
  The routine that repeats a cell has to copy it from the block it writes, wherever the cell lies
  before the pointer.
\<close>

locale cell_copier =
  fixes copy :: copier
    and fits :: "nat \<Rightarrow> bool"
  assumes copies: "fits (length u) \<Longrightarrow> length old = length u \<Longrightarrow>
    copy (length u) (length pre) (pre @ u @ mid @ old @ ys) (length (pre @ u @ mid)) =
      Some (pre @ u @ mid @ u @ ys, length (pre @ u @ mid) + length u)"
begin

lemma put_copies_eq:
  "fits (length u) \<Longrightarrow> length old = length u * n \<Longrightarrow>
    put_copies copy n (length u) (length pre) (pre @ u @ mid @ old @ ys) (length (pre @ u @ mid)) =
      Some (pre @ u @ mid @ concat (replicate n u) @ ys, length (pre @ u @ mid) + length u * n)"
proof (induction n arbitrary: mid old)
  case (Suc n)
  obtain o1 o2 where o: "old = o1 @ o2" "length o1 = length u" "length o2 = length u * n"
    using Suc.prems(2) by (auto elim: split_length)
  have 1: "copy (length u) (length pre) (pre @ u @ mid @ o1 @ o2 @ ys) (length (pre @ u @ mid)) =
      Some (pre @ u @ mid @ u @ o2 @ ys, length (pre @ u @ mid) + length u)"
    using copies [OF Suc.prems(1) o(2), of pre mid "o2 @ ys"] by simp
  have 2: "put_copies copy n (length u) (length pre) (pre @ u @ (mid @ u) @ o2 @ ys) (length (pre @ u @ (mid @ u))) =
      Some (pre @ u @ (mid @ u) @ concat (replicate n u) @ ys, length (pre @ u @ (mid @ u)) + length u * n)"
    using Suc.prems(1) o(3) by (intro Suc.IH) simp_all
  show ?case using 1 2 o(1) by (simp add: add.assoc)
qed simp

end

interpretation digits_copier: cell_copier copy_digits "\<lambda>w. w \<le> CHAR_BUFFER_WIDTH_MAX"
proof unfold_locales
  fix u old pre mid ys :: bytes
  assume a: "length u \<le> CHAR_BUFFER_WIDTH_MAX" "length old = length u"
  show "copy_digits (length u) (length pre) (pre @ u @ mid @ old @ ys) (length (pre @ u @ mid)) =
      Some (pre @ u @ mid @ u @ ys, length (pre @ u @ mid) + length u)"
    using writesD [OF writes_PUT_STRING_WIDTH_MAP [OF refl a(1), of pre "mid @ old @ ys"] a(2) refl, of "pre @ u @ mid" ys]
    by (simp add: copy_digits_def)
qed

interpretation group_string_copier: cell_copier copy_group_string "\<lambda>w. True"
proof unfold_locales
  fix u old pre mid ys :: bytes
  assume a: "length old = length u"
  show "copy_group_string (length u) (length pre) (pre @ u @ mid @ old @ ys) (length (pre @ u @ mid)) =
      Some (pre @ u @ mid @ u @ ys, length (pre @ u @ mid) + length u)"
    using writesD [OF string_closure.call_writes [OF TrueI, of pre u "mid @ old @ ys"] a refl, of "pre @ u @ mid" ys]
    by (simp add: copy_group_string_def)
qed
text \<open>The cells of the groups from index \<open>i\<close> on.\<close>

fun group_cells :: "string \<Rightarrow> nat \<Rightarrow> nat list \<Rightarrow> string list" where
  "group_cells s i [] = []"
| "group_cells s i (g # gs) = replicate g (s @ decimal (Suc i)) @ group_cells s (Suc i) gs"

definition rest_cells :: "string \<Rightarrow> nat list \<Rightarrow> nat \<Rightarrow> nat \<Rightarrow> string list" where
  "rest_cells s sizes i rem_group =
     replicate rem_group (s @ decimal (Suc i)) @ group_cells s (Suc i) (drop (Suc i) sizes)"

lemma length_group_cells [simp]: "length (group_cells s i gs) = sum_list gs"
  by (induction gs arbitrary: i) simp_all

lemma rest_cells_next:
  assumes "Suc i < length sizes" "0 < sizes ! Suc i"
  shows "rest_cells s sizes i g = replicate g (s @ decimal (Suc i)) @
    (s @ decimal (Suc (Suc i))) # rest_cells s sizes (Suc i) (sizes ! Suc i - 1)"
proof -
  have "drop (Suc i) sizes = sizes ! Suc i # drop (Suc (Suc i)) sizes"
    using assms(1) by (simp add: Cons_nth_drop_Suc)
  moreover have "replicate (sizes ! Suc i) t = t # replicate (sizes ! Suc i - 1) t" for t :: string
    using assms(2) by (cases "sizes ! Suc i") simp_all
  ultimately show ?thesis by (simp add: rest_cells_def)
qed

lemma rest_cells_take:
  "k \<le> g \<Longrightarrow> rest_cells s sizes i g = replicate k (s @ decimal (Suc i)) @ rest_cells s sizes i (g - k)"
  using replicate_add [of k "g - k" "s @ decimal (Suc i)"] by (simp add: rest_cells_def)

lemma length_rest_cells: "length (rest_cells s sizes i g) = g + sum_list (drop (Suc i) sizes)"
  by (simp add: rest_cells_def)

context cell_copier
begin

text \<open>The rest of the current group and the first cell of the next one.\<close>

lemma group_loop_next:
  assumes base: "writes base s" and c: "counter_filled c" "length sizes \<le> cnt_upto c"
    and f: "fits (length u)" and i: "Suc i < length sizes" "0 < sizes ! Suc i"
    and rem: "rem_group < rem_cells"
    and o: "length old = length u * rem_group + length (s @ decimal (Suc (Suc i)) @ [NUL])"
    and p: "ptr = length (pre @ u @ mid)"
  shows "group_loop base copy c sizes rest cell rem_cells rem_group i (length u) (length pre)
      (pre @ u @ mid @ old @ ys) ptr =
    group_loop base copy c sizes rest cell (rem_cells - (rem_group + 1)) (sizes ! Suc i - 1) (Suc i)
      (length (s @ decimal (Suc (Suc i)) @ [NUL])) (ptr + length u * rem_group)
      (pre @ u @ mid @ concat (replicate rem_group u) @ (s @ decimal (Suc (Suc i)) @ [NUL]) @ ys)
      (ptr + length u * rem_group + length (s @ decimal (Suc (Suc i)) @ [NUL]))"
proof -
  let ?u' = "s @ decimal (Suc (Suc i)) @ [NUL]" and ?c = "concat (replicate rem_group u)"
  obtain o1 o2 where o1: "old = o1 @ o2" "length o1 = length u * rem_group" "length o2 = length ?u'"
    using o by (rule split_length)
  have 1: "put_copies copy rem_group (length u) (length pre) (pre @ u @ mid @ old @ ys) ptr =
      Some (pre @ u @ mid @ ?c @ o2 @ ys, ptr + length u * rem_group)"
    using put_copies_eq [OF f, of o1 rem_group pre mid "o2 @ ys"] o1 p by simp
  have p1: "ptr + length u * rem_group = length (pre @ u @ mid @ ?c)"
    by (simp add: p length_concat sum_list_replicate)
  have 2: "do { (b, p) \<leftarrow> base (pre @ u @ mid @ ?c @ o2 @ ys) (ptr + length u * rem_group);
        put_string_stop (decimal (Suc (Suc i))) b p } =
      Some (pre @ u @ mid @ ?c @ ?u' @ ys, ptr + length u * rem_group + length ?u')"
    using writesD [OF writes_base_cell [OF base] o1(3) p1, of ys] p1 by simp
  have "counter_string c (i + 1) = Some (decimal (Suc (Suc i)))"
    using counter_string_eq [OF c(1), of "Suc i"] i c(2) by simp
  moreover have "load_size sizes (i + 1) = Some (sizes ! Suc i)" "step_back (sizes ! Suc i) 1 = Some (sizes ! Suc i - 1)"
    using i by (simp_all add: load_size_def step_back_def)
  ultimately show ?thesis
    using rem 1 2 by (subst group_loop.simps) (auto split: bind_splits)
qed

text \<open>The end of a rowspan inside a group.\<close>

lemma group_loop_span:
  assumes f: "fits (length u)" and rem: "rem_cells \<le> rem_group"
    and o: "length old = length u * rem_cells" and p: "ptr = length (pre @ u @ mid)"
  shows "group_loop base copy c sizes rest cell rem_cells rem_group i (length u) (length pre)
      (pre @ u @ mid @ old @ ys) ptr =
    (let b = pre @ u @ mid @ concat (replicate rem_cells u) @ ys; ptr = ptr + length u * rem_cells
     in case rest of
          [] \<Rightarrow> Some (b, ptr, [(cell, ptr - cell)])
        | rc # rest \<Rightarrow>
            do { (b, ptr', spans) \<leftarrow>
                   group_loop base copy c sizes rest ptr rc (rem_group - rem_cells) i (length u) (length pre) b ptr;
                 Some (b, ptr', (cell, ptr - cell) # spans) })"
  using put_copies_eq [OF f o, of pre mid ys] rem p by (subst group_loop.simps) (simp add: Let_def)

lemma group_loop_eq:
  assumes base: "writes base s" and c: "counter_filled c" "length sizes \<le> cnt_upto c"
    and sizes: "\<forall>g \<in> set sizes. 0 < g"
    and fits: "\<forall>k \<le> length sizes. fits (length (s @ decimal k) + 1)"
    and i: "i < length sizes"
    and rem: "rem_cells + sum_list rest = length (rest_cells s sizes i rem_group)"
    and old: "length old = length (terminated (rest_cells s sizes i rem_group))"
    and u: "u = s @ decimal (Suc i) @ [NUL]" and p: "ptr = length (pre @ u @ mid)" "cell \<le> ptr"
  shows "group_loop base copy c sizes rest cell rem_cells rem_group i (length u) (length pre)
      (pre @ u @ mid @ old @ ys) ptr =
    Some (pre @ u @ mid @ terminated (rest_cells s sizes i rem_group) @ ys,
      ptr + length (terminated (rest_cells s sizes i rem_group)),
      (cell, ptr + length (terminated (take rem_cells (rest_cells s sizes i rem_group))) - cell) #
        spans_from (ptr + length (terminated (take rem_cells (rest_cells s sizes i rem_group)))) rest
          (drop rem_cells (rest_cells s sizes i rem_group)))"
  using i rem old u p
proof (induction "rem_cells + sum_list rest + length rest"
    arbitrary: rem_cells rest rem_group i old u pre mid ptr cell rule: less_induct)
  case less
  let ?R = "rest_cells s sizes i rem_group" and ?t = "s @ decimal (Suc i)"
  have f: "fits (length u)" using fits less.prems(1) by (simp add: less.prems(4))
  show ?case
  proof (cases "rem_group < rem_cells")
    case True
    have "0 < sum_list (drop (Suc i) sizes)" using True less.prems(2) by (simp add: length_rest_cells)
    then have i': "Suc i < length sizes" by (cases "Suc i < length sizes") simp_all
    then have g: "0 < sizes ! Suc i" using sizes by simp
    let ?R' = "rest_cells s sizes (Suc i) (sizes ! Suc i - 1)" and ?u' = "s @ decimal (Suc (Suc i)) @ [NUL]"
    let ?pre' = "pre @ u @ mid @ concat (replicate rem_group u)" and ?rem = "rem_cells - (rem_group + 1)"
    note R = rest_cells_next [OF i' g, of s rem_group]
    have tR: "terminated ?R = concat (replicate rem_group u) @ ?u' @ terminated ?R'"
      by (simp add: R terminated_replicate less.prems(4))
    have "length old = (length u * rem_group + length ?u') + length (terminated ?R')"
      using less.prems(3) tR by (simp add: length_concat sum_list_replicate)
    then obtain o1 o3 where o: "old = o1 @ o3" "length o1 = length u * rem_group + length ?u'"
      "length o3 = length (terminated ?R')" by (rule split_length)
    let ?p' = "length (?pre' @ ?u' @ [])"
    have p1: "ptr + length u * rem_group = length ?pre'" "length ?pre' + length ?u' = ?p'"
      using less.prems(5) by (simp_all add: length_concat sum_list_replicate)
    have 1: "group_loop base copy c sizes rest cell rem_cells rem_group i (length u) (length pre)
        (pre @ u @ mid @ old @ ys) ptr =
      group_loop base copy c sizes rest cell ?rem (sizes ! Suc i - 1) (Suc i) (length ?u') (length ?pre')
        (?pre' @ ?u' @ [] @ o3 @ ys) ?p'"
      using group_loop_next [OF base c f i' g True o(2) less.prems(5), of rest cell "o3 @ ys"]
      unfolding p1 o(1) append_assoc append_Nil .
    have 2: "group_loop base copy c sizes rest cell ?rem (sizes ! Suc i - 1) (Suc i) (length ?u') (length ?pre')
        (?pre' @ ?u' @ [] @ o3 @ ys) ?p' =
      Some (?pre' @ ?u' @ [] @ terminated ?R' @ ys, ?p' + length (terminated ?R'),
        (cell, ?p' + length (terminated (take ?rem ?R')) - cell) #
          spans_from (?p' + length (terminated (take ?rem ?R'))) rest (drop ?rem ?R'))"
    proof (rule less.hyps)
      show "?rem + sum_list rest = length ?R'" using less.prems(2) True by (simp add: R)
    qed (use True i' o(3) less.prems(5,6) in simp_all)
    have t: "take rem_cells ?R = replicate rem_group ?t @ (s @ decimal (Suc (Suc i))) # take ?rem ?R'"
      and d: "drop rem_cells ?R = drop ?rem ?R'"
      using True by (simp_all add: R take_Cons' drop_Cons')
    have lt: "ptr + length (terminated (take rem_cells ?R)) = ?p' + length (terminated (take ?rem ?R'))"
      using p1 by (simp add: t less.prems(4))
    show ?thesis unfolding 1 2 lt d tR using p1 by (simp add: less.prems(5))
  next
    case False
    let ?R' = "rest_cells s sizes i (rem_group - rem_cells)" and ?c = "concat (replicate rem_cells u)"
    have R: "?R = replicate rem_cells ?t @ ?R'" using False by (intro rest_cells_take) simp
    have tR: "terminated ?R = ?c @ terminated ?R'"
      by (simp add: R terminated_replicate less.prems(4))
    have "length old = length u * rem_cells + length (terminated ?R')"
      using less.prems(3) tR by (simp add: length_concat sum_list_replicate)
    then obtain o1 o2 where o: "old = o1 @ o2" "length o1 = length u * rem_cells" "length o2 = length (terminated ?R')"
      by (rule split_length)
    let ?p' = "length (pre @ u @ (mid @ ?c))"
    have p1: "ptr + length u * rem_cells = ?p'" using less.prems(5) by (simp add: length_concat sum_list_replicate)
    have td: "take rem_cells ?R = replicate rem_cells ?t" "drop rem_cells ?R = ?R'" by (simp_all add: R)
    have lt: "ptr + length (terminated (take rem_cells ?R)) = ?p'" using p1 by (simp add: td less.prems(4))
    note 1 = group_loop_span [OF f _ o(2) less.prems(5), of rem_group base c sizes rest cell i "o2 @ ys"]
    show ?thesis
    proof (cases rest)
      case Nil
      then have "?R' = []" using less.prems(2) R by simp
      then show ?thesis unfolding lt td(2) tR using Nil False 1 o p1
        by (simp add: Let_def less.prems(5))
    next
      case (Cons rc rest')
      have "group_loop base copy c sizes rest' ?p' rc (rem_group - rem_cells) i (length u) (length pre)
          (pre @ u @ (mid @ ?c) @ o2 @ ys) ?p' =
        Some (pre @ u @ (mid @ ?c) @ terminated ?R' @ ys, ?p' + length (terminated ?R'),
          (?p', ?p' + length (terminated (take rc ?R')) - ?p') #
            spans_from (?p' + length (terminated (take rc ?R'))) rest' (drop rc ?R'))"
        using less.prems(1,2,4) o(3) Cons R by (intro less.hyps) simp_all
      then show ?thesis unfolding lt td(2) tR using Cons False 1 p1 o(1)
        by (simp add: Let_def less.prems(5) add.assoc)
    qed
  qed
qed

end
section \<open>The group builders\<close>

lemma length_decimal_mono: "k \<le> n \<Longrightarrow> length (decimal k) \<le> length (decimal n)"
proof (cases "k = 0")
  case True
  then show ?thesis by (simp add: decimal_small Suc_le_eq)
next
  case False
  assume "k \<le> n"
  then have "(10::nat) ^ (length (decimal k) - 1) < 10 ^ length (decimal n)"
    using length_decimal_lower [OF False] length_decimal_upper [of n] by linarith
  then show ?thesis using length_decimal_pos [of k] by simp
qed

lemma count_cell_mag:
  assumes "1 \<le> n" "n \<le> UPTO_MAX" "k \<le> n"
  shows "length (decimal k) + 1 \<le> counter_size_mag_upto n" "counter_size_mag_upto n \<le> 9"
  using length_decimal_mono [OF assms(3)] counter_size_mag_upto_length [OF assms(1,2)]
  by (simp add: count_cell_def) (simp add: counter_size_mag_upto_def)

lemma group_cells_size:
  assumes "\<forall>k \<le> i + length gs. length (decimal k) + 1 \<le> m"
  shows "length (terminated (group_cells s i gs)) \<le> (length s + m) * sum_list gs"
  using assms
proof (induction gs arbitrary: i)
  case (Cons g gs)
  have "length (decimal (Suc i)) + 1 \<le> m" using Cons.prems by simp
  then have "(length s + (length (decimal (Suc i)) + 1)) * g \<le> (length s + m) * g" by (intro mult_le_mono1) simp
  moreover have "length (terminated (group_cells s (Suc i) gs)) \<le> (length s + m) * sum_list gs"
    using Cons.prems by (intro Cons.IH) simp
  ultimately show ?case by (simp add: distrib_left)
qed simp

lemma group_cells_first:
  "sizes \<noteq> [] \<Longrightarrow> 0 < sizes ! 0 \<Longrightarrow>
    group_cells s 0 sizes = (s @ decimal 1) # rest_cells s sizes 0 (sizes ! 0 - 1)"
  by (cases sizes; cases "sizes ! 0") (simp_all add: rest_cells_def)

lemma group_cells_NUL: "NUL \<notin> set s \<Longrightarrow> \<forall>cell \<in> set (group_cells s i gs). NUL \<notin> set cell"
  by (induction gs arbitrary: i) auto

lemma decimal_one: "decimal 1 = ''1''" "decimal (Suc 0) = ''1''"
  by (simp_all add: decimal_small DIGIT_TO_ASCII_def char_of_def bit_0)

lemma writes_first_cell:
  assumes "writes base s"
  shows "writes (\<lambda>b p. do { (b, p) \<leftarrow> base b p; PUT_STRING_WIDTH ''1'' 2 b p }) (s @ decimal 1 @ [NUL])"
  using writes_bind [OF assms writes_PUT_STRING_WIDTH_nul [of 2 "''1''"]]
  by (simp add: decimal_one)

text \<open>A partitioner that splits the rows into as many groups as asked, none of them empty.\<close>

definition splits :: "grp_spec \<Rightarrow> nat \<Rightarrow> bool" where
  "splits grp row_count \<longleftrightarrow> 1 \<le> gs_count grp \<and>
     (\<forall>sizes0. length sizes0 = gs_count grp \<longrightarrow>
        (\<exists>sizes. gs_partition grp sizes0 (gs_count grp) row_count = Some (sizes, gs_count grp) \<and>
           length sizes = gs_count grp \<and> sum_list sizes = row_count \<and> (\<forall>g \<in> set sizes. 0 < g)))"

definition group_sizes :: "nat \<Rightarrow> nat \<Rightarrow> nat list \<Rightarrow> bool" where
  "group_sizes n row_count sizes \<longleftrightarrow>
     length sizes = n \<and> sum_list sizes = row_count \<and> (\<forall>g \<in> set sizes. 0 < g)"

lemma splitsE:
  assumes "splits grp row_count" "length sizes0 = gs_count grp"
  obtains sizes where "gs_partition grp sizes0 (gs_count grp) row_count = Some (sizes, gs_count grp)"
    "group_sizes (gs_count grp) row_count sizes"
  using assms unfolding splits_def group_sizes_def by blast

context group_partitioner
begin

lemma partitioner_splits:
  "1 \<le> n \<Longrightarrow> n \<le> row_count \<Longrightarrow> row_count < 2 ^ 64 \<Longrightarrow> splits \<lparr>gs_count = n, gs_partition = partition\<rparr> row_count"
  using partitions [of n row_count] by (simp add: splits_def)

end

context cell_copier
begin

lemma build_column_unique_group_lays_out:
  assumes base: "writes base s" "base_length = length s" "NUL \<notin> set s"
    and split: "splits grp row_count" and alloc: "allocates malloc"
    and fits: "\<forall>k \<le> gs_count grp. fits (length (s @ decimal k) + 1)"
    and counter: "counter_serves c (gs_count grp)"
    and rows: "rcs \<noteq> []" "\<forall>rc \<in> set rcs. 0 < rc" "row_count = sum_list rcs"
  shows "\<exists>co sizes.
    build_column_unique_group failure base base_length copy grp malloc c join row_count rcs = Some (Inr co) \<and>
    group_sizes (gs_count grp) row_count sizes \<and> lays_out co join rcs (group_cells s 0 sizes)"
proof -
  let ?n = "gs_count grp"
  have n: "1 \<le> ?n" using split by (simp add: splits_def)
  note c = counter_servesD [OF counter]
  obtain sizes0 bytes where m: "malloc ?n ((length s + counter_size_mag_upto ?n) * row_count) = Some (sizes0, bytes)"
    "length sizes0 = ?n" "length bytes = (length s + counter_size_mag_upto ?n) * row_count"
    using alloc by (rule allocatesE)
  obtain sizes where part: "gs_partition grp sizes0 ?n row_count = Some (sizes, ?n)"
    and gs: "group_sizes ?n row_count sizes"
    using split m(2) by (rule splitsE)
  then have sz: "sizes \<noteq> []" "0 < sizes ! 0" "length sizes = ?n" "sum_list sizes = row_count" "\<forall>g \<in> set sizes. 0 < g"
    using n by (auto simp: group_sizes_def)
  let ?R = "rest_cells s sizes 0 (sizes ! 0 - 1)" and ?u = "s @ decimal 1 @ [NUL]"
  note cells = group_cells_first [OF sz(1,2), of s]
  have "length (terminated (group_cells s 0 sizes)) \<le> (length s + counter_size_mag_upto ?n) * row_count"
    using group_cells_size [of 0 sizes "counter_size_mag_upto ?n" s] count_cell_mag [of ?n] n c(4) sz(3,4) by simp
  then have "length bytes = (length ?u + length (terminated ?R)) +
      (length bytes - length (terminated (group_cells s 0 sizes)))"
    using m(3) by (simp add: cells)
  then obtain oo ys where "bytes = oo @ ys" "length oo = length ?u + length (terminated ?R)"
    by (rule split_length)
  moreover obtain o1 o2 where "oo = o1 @ o2" "length o1 = length ?u" "length o2 = length (terminated ?R)"
    using calculation(2) by (rule split_length)
  ultimately have b: "bytes = o1 @ o2 @ ys" "length o1 = length ?u" "length o2 = length (terminated ?R)" by simp_all
  have 1: "do { (b, p) \<leftarrow> base bytes 0; PUT_STRING_WIDTH ''1'' 2 b p } = Some (?u @ o2 @ ys, length ?u)"
    using writesD [OF writes_first_cell [OF base(1)] b(2), of 0 "[]" "o2 @ ys"] by (simp add: b(1))
  obtain rc rest where rcs: "rcs = rc # rest" "0 < rc" using rows by (cases rcs) auto
  have 2: "group_loop base copy c sizes rest 0 (rc - 1) (sizes ! 0 - 1) 0 (length ?u) (length ([] :: bytes))
      ([] @ ?u @ [] @ o2 @ ys) (length ?u) =
    Some ([] @ ?u @ [] @ terminated ?R @ ys, length ?u + length (terminated ?R),
      (0, length ?u + length (terminated (take (rc - 1) ?R)) - 0) #
        spans_from (length ?u + length (terminated (take (rc - 1) ?R))) rest (drop (rc - 1) ?R))"
  proof (rule group_loop_eq [OF base(1) c(2) _ sz(5) _ _ _ b(3)])
    show "rc - 1 + sum_list rest = length ?R"
      using arg_cong [OF cells, of length] sz(4) rows(3) rcs by simp
  qed (use n c fits sz in simp_all)
  have w: "base_length + 2 = length ?u" by (simp add: base(2) decimal_small)
  let ?b = "?u @ terminated ?R @ ys"
  have sp: "(0, length ?u + length (terminated (take (rc - 1) ?R))) #
      spans_from (length ?u + length (terminated (take (rc - 1) ?R))) rest (drop (rc - 1) ?R) =
    spans_from (length ([] :: bytes)) rcs (group_cells s 0 sizes)"
    using rcs by (simp add: cells take_Cons' drop_Cons' add.assoc)
  have "lays_out \<lparr>co_contents = ?b,
      co_spans = map (hook join ?b) (spans_from (length ([] :: bytes)) rcs (group_cells s 0 sizes)),
      co_length = length ?u + length (terminated ?R)\<rparr> join rcs (group_cells s 0 sizes)"
    using base(3) sz(4) rows(3) group_cells_NUL [of s 0 sizes] length_group_cells [of s 0 sizes]
    unfolding cells by (intro lays_out_hook [of _ _ _ ys]) simp_all
  moreover have "build_column_unique_group failure base base_length copy grp malloc c join row_count rcs =
    Some (Inr \<lparr>co_contents = ?b,
      co_spans = map (hook join ?b) (spans_from (length ([] :: bytes)) rcs (group_cells s 0 sizes)),
      co_length = length ?u + length (terminated ?R)\<rparr>)"
    using 1 2 m(1) part c(1) n sz(1-3) rcs unfolding build_column_unique_group_def w sp [symmetric]
    by (auto simp: load_size_def step_back_def base(2) Let_def split: bind_splits)
  ultimately show ?thesis using gs by blast
qed

end
section \<open>The interface of a column builder\<close>

text \<open>
  \<open>col_spec->build\<close> with the qualifiers it reads (\<open>type_q\<close>, \<open>grp_spec\<close>), and the call
  through it.
\<close>

datatype col_build =
    BUILD_INTEGER_FIXED stub_builder
  | BUILD_INTEGER_UNIQUE
  | BUILD_INTEGER_UNIQUE_GROUP grp_spec
  | BUILD_U_INTEGER_FIXED stub_builder
  | BUILD_U_INTEGER_UNIQUE
  | BUILD_U_INTEGER_UNIQUE_GROUP grp_spec
  | BUILD_STRING_FIXED string_builder
  | BUILD_STRING_UNIQUE string_builder
  | BUILD_STRING_UNIQUE_GROUP string_builder grp_spec

fun build_column :: "col_build \<Rightarrow> alloc \<Rightarrow> counter \<Rightarrow> bool \<Rightarrow> nat \<Rightarrow> nat list \<Rightarrow> built" where
  "build_column (BUILD_INTEGER_FIXED fixed) malloc c = build_column_integer_fixed fixed malloc"
| "build_column BUILD_INTEGER_UNIQUE malloc c = (\<lambda>join row_count. build_column_integer_unique c join)"
| "build_column (BUILD_INTEGER_UNIQUE_GROUP grp) malloc c = build_column_integer_unique_group grp malloc c"
| "build_column (BUILD_U_INTEGER_FIXED fixed) malloc c = build_column_u_integer_fixed fixed malloc"
| "build_column BUILD_U_INTEGER_UNIQUE malloc c = (\<lambda>join row_count. build_column_u_integer_unique c join)"
| "build_column (BUILD_U_INTEGER_UNIQUE_GROUP grp) malloc c = build_column_u_integer_unique_group grp malloc c"
| "build_column (BUILD_STRING_FIXED fixed) malloc c = build_column_string_fixed fixed malloc"
| "build_column (BUILD_STRING_UNIQUE base) malloc c = build_column_string_unique base malloc c"
| "build_column (BUILD_STRING_UNIQUE_GROUP base grp) malloc c = build_column_string_unique_group base grp malloc c"

text \<open>
  The number of strings a builder takes from the counter (the parser raises \<open>counter_upto\<close> to it),
  and the cells it has to make: a fixed string with its terminator, a base string, the groups.
\<close>

fun col_needs :: "col_build \<Rightarrow> nat \<Rightarrow> nat" where
  "col_needs (BUILD_INTEGER_FIXED fixed) row_count = 0"
| "col_needs BUILD_INTEGER_UNIQUE row_count = row_count"
| "col_needs (BUILD_INTEGER_UNIQUE_GROUP grp) row_count = gs_count grp"
| "col_needs (BUILD_U_INTEGER_FIXED fixed) row_count = 0"
| "col_needs BUILD_U_INTEGER_UNIQUE row_count = row_count"
| "col_needs (BUILD_U_INTEGER_UNIQUE_GROUP grp) row_count = gs_count grp"
| "col_needs (BUILD_STRING_FIXED fixed) row_count = 0"
| "col_needs (BUILD_STRING_UNIQUE base) row_count = row_count"
| "col_needs (BUILD_STRING_UNIQUE_GROUP base grp) row_count = gs_count grp"

definition stub_text :: "stub_builder \<Rightarrow> string \<Rightarrow> bool" where
  "stub_text sb s \<longleftrightarrow> NUL \<notin> set s \<and> length s < CHAR_BUFFER_WIDTH_MAX \<and>
     (\<exists>pre post. sb = stub_builder_init (pre @ (s @ [NUL]) @ post) (length pre) (length s + 1))"

definition fixed_text :: "string_builder \<Rightarrow> string \<Rightarrow> bool" where
  "fixed_text sb s \<longleftrightarrow> NUL \<notin> set s \<and>
     (\<exists>pre post. sb = string_builder_init (pre @ (s @ [NUL]) @ post) (length pre) (length s + 1))"

definition base_text :: "string_builder \<Rightarrow> string \<Rightarrow> bool" where
  "base_text sb s \<longleftrightarrow> NUL \<notin> set s \<and>
     (\<exists>pre post. sb = string_builder_init (pre @ s @ post) (length pre) (length s))"

fun col_cells :: "col_build \<Rightarrow> nat \<Rightarrow> string list \<Rightarrow> bool" where
  "col_cells (BUILD_INTEGER_FIXED fixed) n cells = (\<exists>s. stub_text fixed s \<and> cells = replicate n s)"
| "col_cells BUILD_INTEGER_UNIQUE n cells = (cells = counts 0 n)"
| "col_cells (BUILD_INTEGER_UNIQUE_GROUP grp) n cells =
     (\<exists>sizes. group_sizes (gs_count grp) n sizes \<and> cells = group_cells [] 0 sizes)"
| "col_cells (BUILD_U_INTEGER_FIXED fixed) n cells = (\<exists>s. stub_text fixed s \<and> cells = replicate n s)"
| "col_cells BUILD_U_INTEGER_UNIQUE n cells = (cells = counts 0 n)"
| "col_cells (BUILD_U_INTEGER_UNIQUE_GROUP grp) n cells =
     (\<exists>sizes. group_sizes (gs_count grp) n sizes \<and> cells = group_cells [] 0 sizes)"
| "col_cells (BUILD_STRING_FIXED fixed) n cells = (\<exists>s. fixed_text fixed s \<and> cells = replicate n s)"
| "col_cells (BUILD_STRING_UNIQUE base) n cells = (\<exists>s. base_text base s \<and> cells = base_counts s 0 n)"
| "col_cells (BUILD_STRING_UNIQUE_GROUP base grp) n cells =
     (\<exists>s sizes. base_text base s \<and> group_sizes (gs_count grp) n sizes \<and> cells = group_cells s 0 sizes)"

text \<open>The qualifiers the parser admits.\<close>

fun col_valid :: "col_build \<Rightarrow> nat \<Rightarrow> bool" where
  "col_valid (BUILD_INTEGER_FIXED fixed) n = (\<exists>s. stub_text fixed s)"
| "col_valid BUILD_INTEGER_UNIQUE n = True"
| "col_valid (BUILD_INTEGER_UNIQUE_GROUP grp) n = splits grp n"
| "col_valid (BUILD_U_INTEGER_FIXED fixed) n = (\<exists>s. stub_text fixed s)"
| "col_valid BUILD_U_INTEGER_UNIQUE n = True"
| "col_valid (BUILD_U_INTEGER_UNIQUE_GROUP grp) n = splits grp n"
| "col_valid (BUILD_STRING_FIXED fixed) n = (\<exists>s. fixed_text fixed s)"
| "col_valid (BUILD_STRING_UNIQUE base) n = (\<exists>s. base_text base s)"
| "col_valid (BUILD_STRING_UNIQUE_GROUP base grp) n = ((\<exists>s. base_text base s) \<and> splits grp n)"

text \<open>
  What the table needs of its columns: a builder given the row counts of the row blocks leaves
  rowspans that hold its cells, cut at the row blocks, and accounts for their lengths.
\<close>

locale column_builder =
  fixes build :: "'s \<Rightarrow> alloc \<Rightarrow> counter \<Rightarrow> bool \<Rightarrow> nat \<Rightarrow> nat list \<Rightarrow> built"
    and needs :: "'s \<Rightarrow> nat \<Rightarrow> nat"
    and promises :: "'s \<Rightarrow> nat \<Rightarrow> string list \<Rightarrow> bool"
    and valid :: "'s \<Rightarrow> nat \<Rightarrow> bool"
  assumes builds: "valid s row_count \<Longrightarrow> allocates malloc \<Longrightarrow> counter_serves c (needs s row_count) \<Longrightarrow>
      rcs \<noteq> [] \<Longrightarrow> \<forall>rc \<in> set rcs. 0 < rc \<Longrightarrow> row_count = sum_list rcs \<Longrightarrow>
      \<exists>co cells. build s malloc c join row_count rcs = Some (Inr co) \<and> promises s row_count cells \<and>
        lays_out co join rcs cells"
    and promised_length: "promises s row_count cells \<Longrightarrow> length cells = row_count"
begin

text \<open>Every column of a table gets built.\<close>

lemma builds_all:
  assumes "\<forall>(s, join) \<in> set cols. valid s row_count \<and> counter_serves c (needs s row_count)"
    and "allocates malloc" "rcs \<noteq> []" "\<forall>rc \<in> set rcs. 0 < rc" "row_count = sum_list rcs"
  shows "\<exists>outs cellss. list_all2 (\<lambda>(s, join) co. build s malloc c join row_count rcs = Some (Inr co)) cols outs \<and>
    list_all2 (\<lambda>(s, join) cells. promises s row_count cells) cols cellss \<and>
    list_all2 (\<lambda>co (join, cells). lays_out co join rcs cells \<and> length cells = row_count) outs
      (zip (map snd cols) cellss)"
  using assms(1)
proof (induction cols)
  case (Cons col cols)
  obtain s join where col: "col = (s, join)" by (cases col)
  obtain co cells where 1: "build s malloc c join row_count rcs = Some (Inr co)" "promises s row_count cells"
    "lays_out co join rcs cells"
    using builds [of s row_count malloc c rcs join] Cons.prems assms(2-) by (auto simp: col)
  obtain outs cellss where
    2: "list_all2 (\<lambda>(s, join) co. build s malloc c join row_count rcs = Some (Inr co)) cols outs"
    "list_all2 (\<lambda>(s, join) cells. promises s row_count cells) cols cellss"
    "list_all2 (\<lambda>co (join, cells). lays_out co join rcs cells \<and> length cells = row_count) outs (zip (map snd cols) cellss)"
    using Cons by auto
  show ?case
    using 1 2 by (intro exI [of _ "co # outs"] exI [of _ "cells # cellss"]) (simp add: col promised_length)
qed simp

end

lemmas fixed_builders = build_column_integer_fixed_def build_column_u_integer_fixed_def build_column_string_fixed_def
lemmas group_builders = build_column_integer_unique_group_def build_column_u_integer_unique_group_def
  build_column_string_unique_group_def

lemma stub_text_builder:
  assumes "stub_text sb s"
  shows "writes (put_stub_closure_call (stb_put_cl sb)) (s @ [NUL])" "stb_width sb = length s + 1" "NUL \<notin> set s"
proof -
  obtain pre post where sb: "sb = stub_builder_init (pre @ (s @ [NUL]) @ post) (length pre) (length s + 1)"
    and s: "NUL \<notin> set s" "length s < CHAR_BUFFER_WIDTH_MAX"
    using assms unfolding stub_text_def by blast
  show "writes (put_stub_closure_call (stb_put_cl sb)) (s @ [NUL])"
    using stub_closure.call_writes [of "s @ [NUL]" pre post] s(2) by (simp add: sb stub_builder_init_def)
  show "stb_width sb = length s + 1" "NUL \<notin> set s" using s by (simp_all add: sb stub_builder_init_def)
qed

lemma fixed_text_builder:
  assumes "fixed_text sb s"
  shows "writes (put_string_closure_call (sb_put_cl sb)) (s @ [NUL])" "sb_length sb = length s + 1" "NUL \<notin> set s"
proof -
  obtain pre post where sb: "sb = string_builder_init (pre @ (s @ [NUL]) @ post) (length pre) (length s + 1)"
    and s: "NUL \<notin> set s"
    using assms unfolding fixed_text_def by blast
  show "writes (put_string_closure_call (sb_put_cl sb)) (s @ [NUL])"
    using string_closure.call_writes [OF TrueI, of pre "s @ [NUL]" post] by (simp add: sb string_builder_init_def)
  show "sb_length sb = length s + 1" "NUL \<notin> set s" using s by (simp_all add: sb string_builder_init_def)
qed

lemma base_text_builder:
  assumes "base_text sb s"
  shows "writes (put_string_closure_call (sb_put_cl sb)) s" "sb_length sb = length s" "NUL \<notin> set s"
proof -
  obtain pre post where sb: "sb = string_builder_init (pre @ s @ post) (length pre) (length s)" and s: "NUL \<notin> set s"
    using assms unfolding base_text_def by blast
  show "writes (put_string_closure_call (sb_put_cl sb)) s"
    using string_closure.call_writes [OF TrueI, of pre s post] by (simp add: sb string_builder_init_def)
  show "sb_length sb = length s" "NUL \<notin> set s" using s by (simp_all add: sb string_builder_init_def)
qed
lemma digits_fit:
  assumes "counter_serves c n" "1 \<le> n"
  shows "\<forall>k \<le> n. length ([] @ decimal k) + 1 \<le> CHAR_BUFFER_WIDTH_MAX"
proof (intro allI impI)
  fix k assume "k \<le> n"
  moreover have "n \<le> UPTO_MAX" using assms counter_servesD(4) by simp
  ultimately show "length ([] @ decimal k) + 1 \<le> CHAR_BUFFER_WIDTH_MAX"
    using count_cell_mag [OF assms(2), of k] by (simp add: CHAR_BUFFER_WIDTH_MAX_def)
qed

lemma digits_group_lays_out:
  assumes "splits grp row_count" "allocates malloc" "counter_serves c (gs_count grp)"
    and "rcs \<noteq> []" "\<forall>rc \<in> set rcs. 0 < rc" "row_count = sum_list rcs"
  shows "\<exists>co sizes.
    build_column_unique_group failure (\<lambda>b p. Some (b, p)) 0 copy_digits grp malloc c join row_count rcs = Some (Inr co) \<and>
    group_sizes (gs_count grp) row_count sizes \<and> lays_out co join rcs (group_cells [] 0 sizes)"
  using assms digits_fit [OF assms(3)]
  by (intro digits_copier.build_column_unique_group_lays_out [OF writes_Nil]) (simp_all add: splits_def)

lemma build_column_lays_out:
  assumes "col_valid s row_count" "allocates malloc" "counter_serves c (col_needs s row_count)"
    and "rcs \<noteq> []" "\<forall>rc \<in> set rcs. 0 < rc" "row_count = sum_list rcs"
  shows "\<exists>co cells. build_column s malloc c join row_count rcs = Some (Inr co) \<and> col_cells s row_count cells \<and>
    lays_out co join rcs cells"
proof -
  note u = build_column_u_integer_unique_lays_out [OF _ assms(4,5), of c join]
  have fixed: "\<exists>co. build_column_fixed failure (put_stub_closure_call (stb_put_cl fixed)) (stb_width fixed) malloc join
      row_count rcs = Some (Inr co) \<and> lays_out co join rcs (replicate row_count t)" if "stub_text fixed t" for failure fixed t
    using stub_text_builder [OF that] assms by (intro build_column_fixed_lays_out)
  have group_digits: "\<exists>co cells. build_column_unique_group failure (\<lambda>b p. Some (b, p)) 0 copy_digits grp malloc c join
      row_count rcs = Some (Inr co) \<and> (\<exists>sizes. group_sizes (gs_count grp) row_count sizes \<and> cells = group_cells [] 0 sizes) \<and>
      lays_out co join rcs cells" if "splits grp row_count" "counter_serves c (gs_count grp)" for failure grp
    using digits_group_lays_out [OF that(1) assms(2) that(2) assms(4-6), of failure join] by blast
  show ?thesis
  proof (cases s)
    case (BUILD_INTEGER_FIXED f)
    then show ?thesis using fixed assms(1) by (auto simp: fixed_builders) blast
  next
    case BUILD_INTEGER_UNIQUE
    then show ?thesis using u assms(3,6) by (simp add: build_column_integer_unique_def)
  next
    case (BUILD_INTEGER_UNIQUE_GROUP g)
    then show ?thesis using group_digits assms(1,3) by (simp add: group_builders)
  next
    case (BUILD_U_INTEGER_FIXED f)
    then show ?thesis using fixed assms(1) by (auto simp: fixed_builders) blast
  next
    case BUILD_U_INTEGER_UNIQUE
    then show ?thesis using u assms(3,6) by simp
  next
    case (BUILD_U_INTEGER_UNIQUE_GROUP g)
    then show ?thesis using group_digits assms(1,3) by (simp add: group_builders)
  next
    case (BUILD_STRING_FIXED f)
    then obtain t where t: "fixed_text f t" using assms(1) by auto
    have "\<exists>co. build_column_string_fixed f malloc join row_count rcs = Some (Inr co) \<and>
        lays_out co join rcs (replicate row_count t)"
      unfolding fixed_builders using fixed_text_builder [OF t] assms by (intro build_column_fixed_lays_out)
    then show ?thesis using t by (auto simp: BUILD_STRING_FIXED)
  next
    case (BUILD_STRING_UNIQUE f)
    then obtain t where t: "base_text f t" using assms(1) by auto
    have "\<exists>co. build_column_string_unique f malloc c join row_count rcs = Some (Inr co) \<and>
        lays_out co join rcs (base_counts t 0 row_count)"
      using base_text_builder [OF t] assms by (intro build_column_string_unique_lays_out) (simp_all add: BUILD_STRING_UNIQUE)
    then show ?thesis using t by (auto simp: BUILD_STRING_UNIQUE)
  next
    case (BUILD_STRING_UNIQUE_GROUP f g)
    then obtain t where t: "base_text f t" and g: "splits g row_count" using assms(1) by auto
    have "\<exists>co sizes. build_column_string_unique_group f g malloc c join row_count rcs = Some (Inr co) \<and>
        group_sizes (gs_count g) row_count sizes \<and> lays_out co join rcs (group_cells t 0 sizes)"
      unfolding group_builders using base_text_builder [OF t] assms g
      by (intro group_string_copier.build_column_unique_group_lays_out) (simp_all add: BUILD_STRING_UNIQUE_GROUP)
    then show ?thesis using t by (simp add: BUILD_STRING_UNIQUE_GROUP) blast
  qed
qed

interpretation columns: column_builder build_column col_needs col_cells col_valid
proof unfold_locales
  show "length cells = row_count" if "col_cells s row_count cells" for s row_count cells
    using that by (cases s) (auto simp: group_sizes_def)
qed (rule build_column_lays_out)

text \<open>
  C15: Each of the nine builders of \<open>column_integer.c\<close>, \<open>column_u_integer.c\<close> and \<open>column_string.c\<close> for
  fixed cells, for the numbers of the counter and for these in groups, called with the row counts of the row blocks of its table, a working
  allocator and a counter that reaches as far as it needs, stays inside the contents it sized itself
  and leaves one rowspan per row block whose cells are those of the column specification (the fixed
  string, the numbers from one up, the base string and the number, or these repeated over groups of
  positive sizes that add up to the rows), with the exact lengths added to the totals.
\<close>

theorem build_column_cells:
  assumes "col_valid s row_count" "allocates malloc" "counter_serves c (col_needs s row_count)"
    and "rcs \<noteq> []" "\<forall>rc \<in> set rcs. 0 < rc" "row_count = sum_list rcs"
  shows "\<exists>co cells. build_column s malloc c join row_count rcs = Some (Inr co) \<and>
    col_cells s row_count cells \<and> length cells = row_count \<and> lays_out co join rcs cells"
  using columns.builds [OF assms, of join] columns.promised_length by blast
text \<open>A filled counter and an allocator, as \<open>build_counter\<close> and \<open>malloc\<close> provide them.\<close>

definition filled_counter :: "nat \<Rightarrow> counter" where
  "filled_counter n =
     \<lparr>cnt_ready = True, cnt_digits = digits_upto n, cnt_pointers = map (\<lambda>i. length (digits_upto i)) [0..<n + 1],
      cnt_upto = n, cnt_size_digits = counter_size_upto n, cnt_mag_upto = 0\<rparr>"

lemma filled_counter_serves: "n \<le> UPTO_MAX \<Longrightarrow> k \<le> n \<Longrightarrow> counter_serves (filled_counter n) k"
  by (simp add: counter_serves_def filled_counter_def counter_filled_def del: upt_Suc)

definition zero_alloc :: alloc where
  "zero_alloc k n = Some (replicate k 0, replicate n NUL)"

lemma zero_alloc_allocates: "allocates zero_alloc"
  by (simp add: allocates_def zero_alloc_def)

theorem build_column_cells_witness:
  "let s = BUILD_STRING_UNIQUE_GROUP (string_builder_init ''user_'' 0 5)
             \<lparr>gs_count = 2, gs_partition = partition_groups_even\<rparr>
   in \<exists>co cells. build_column s zero_alloc (filled_counter 2) False 5 [2, 3] = Some (Inr co) \<and>
        col_cells s 5 cells \<and> length cells = 5 \<and> lays_out co False [2, 3] cells"
proof -
  let ?g = "\<lparr>gs_count = 2, gs_partition = partition_groups_even\<rparr>"
  have "base_text (string_builder_init ''user_'' 0 5) ''user_''"
    unfolding base_text_def by (intro conjI exI [of _ "[]"]) (simp_all add: numeral_eq_Suc)
  moreover have "splits ?g 5" by (rule even.partitioner_splits) simp_all
  ultimately have "col_valid (BUILD_STRING_UNIQUE_GROUP (string_builder_init ''user_'' 0 5) ?g) 5" by auto
  then show ?thesis
    unfolding Let_def
    by (rule build_column_cells) (simp_all add: zero_alloc_allocates filled_counter_serves UPTO_MAX_def)
qed

end
