(* ===== verification/Layout.thy ===== *)
theory Layout
  imports Prelude
begin

text \<open>
  How \<open>mysql_seed_generate\<close> (\<open>src/generate/generate.h\<close>) sizes its single allocation and divides it
  up. \<open>DatabaseCounter\<close> and \<open>GeneratorCounter\<close> are raised while the specifications are parsed; the
  row blocks, rowspans and columns of all tables are slices of three arrays. A pointer into one of
  them is an index. The columns walk their rowspans with a stride of the table's column count.
\<close>

section \<open>Counters\<close>

record database_counter =
  dc_ctor_flags :: u32
  dc_rows :: nat
  dc_row_count_max :: nat
  dc_columns :: nat
  dc_tables :: nat
  dc_counter_upto :: nat

record generator_counter =
  gc_ctor_flags :: u32
  gc_rows :: nat
  gc_row_count_max :: nat
  gc_columns :: nat
  gc_tables :: nat
  gc_databases :: nat
  gc_counter_upto :: nat

definition NONE_CTOR_FLAG :: u32 where
  "NONE_CTOR_FLAG = 0"

definition database_counter_init :: "nat \<Rightarrow> database_counter" where
  "database_counter_init row_count =
     \<lparr>dc_ctor_flags = NONE_CTOR_FLAG, dc_rows = row_count, dc_row_count_max = row_count, dc_columns = 1,
      dc_tables = 1, dc_counter_upto = 0\<rparr>"

definition generator_counter_init :: generator_counter where
  "generator_counter_init =
     \<lparr>gc_ctor_flags = 0, gc_rows = 0, gc_row_count_max = 0, gc_columns = 0, gc_tables = 0, gc_databases = 0,
      gc_counter_upto = 0\<rparr>"

definition generator_counter_update :: "generator_counter \<Rightarrow> database_counter \<Rightarrow> generator_counter" where
  "generator_counter_update g d =
     g\<lparr>gc_ctor_flags := gc_ctor_flags g OR dc_ctor_flags d,
       gc_rows := gc_rows g + dc_rows d,
       gc_row_count_max := (if gc_row_count_max g < dc_row_count_max d then dc_row_count_max d else gc_row_count_max g),
       gc_columns := gc_columns g + dc_columns d,
       gc_tables := gc_tables g + dc_tables d,
       gc_databases := gc_databases g + 1,
       gc_counter_upto := (if gc_counter_upto g < dc_counter_upto d then dc_counter_upto d else gc_counter_upto g)\<rparr>"

text \<open>
  What the parser does to the counter of its database: another table, another column, a column
  that takes \<open>n\<close> strings from the counter.
\<close>

definition count_table :: "nat \<Rightarrow> database_counter \<Rightarrow> database_counter" where
  "count_table row_count d =
     d\<lparr>dc_rows := dc_rows d + row_count,
       dc_row_count_max := (if dc_row_count_max d < row_count then row_count else dc_row_count_max d),
       dc_tables := dc_tables d + 1\<rparr>"

definition count_column :: "database_counter \<Rightarrow> database_counter" where
  "count_column d = d\<lparr>dc_columns := dc_columns d + 1\<rparr>"

definition count_upto :: "nat \<Rightarrow> database_counter \<Rightarrow> database_counter" where
  "count_upto n d = (if dc_counter_upto d < n then d\<lparr>dc_counter_upto := n\<rparr> else d)"

section \<open>Sizes\<close>

definition COUNT_GENERATOR_WORKERS :: nat where
  "COUNT_GENERATOR_WORKERS = 4"

definition row_block_row_count_max :: "generator_counter \<Rightarrow> nat" where
  "row_block_row_count_max g =
     (if gc_row_count_max g < COUNT_GENERATOR_WORKERS then gc_row_count_max g
      else gc_row_count_max g div COUNT_GENERATOR_WORKERS)"

text \<open>The division by a maximum of zero is undefined.\<close>

definition count_row_blocks_max :: "generator_counter \<Rightarrow> nat option" where
  "count_row_blocks_max g =
     (if row_block_row_count_max g = 0 then None
      else Some (gc_rows g div row_block_row_count_max g + gc_columns g))"

definition count_tasks_max :: "generator_counter \<Rightarrow> nat option" where
  "count_tasks_max g =
     map_option (\<lambda>row_blocks. 1 + gc_columns g + gc_databases g + gc_tables g * 2 + row_blocks)
       (count_row_blocks_max g)"

definition count_rowspans_max :: "generator_counter \<Rightarrow> nat option" where
  "count_rowspans_max g = map_option (\<lambda>row_blocks. row_blocks * gc_columns g) (count_row_blocks_max g)"

section \<open>Dividing the arrays\<close>

text \<open>
  The slices: the row count of every row block, the parent (a row block) of every rowspan, the first
  rowspan of every column, and for every table its row blocks, columns, end of rowspans and column
  count.
\<close>

record table_slice =
  sl_row_blocks_from :: nat
  sl_row_blocks_until :: nat
  sl_columns_from :: nat
  sl_columns_until :: nat
  sl_rowspans_until :: nat
  sl_col_count :: nat

record arrays =
  ar_row_counts :: "nat list"
  ar_parents :: "nat list"
  ar_columns :: "nat list"
  ar_tables :: "table_slice list"

text \<open>\<open>do ... while (col_spec < until)\<close>: one column and its rowspan in the first row block.\<close>

fun hook_columns :: "nat \<Rightarrow> nat \<Rightarrow> arrays \<Rightarrow> arrays" where
  "hook_columns row_block 0 a = a"
| "hook_columns row_block (Suc n) a =
     hook_columns row_block n
       (a\<lparr>ar_columns := ar_columns a @ [length (ar_parents a)], ar_parents := ar_parents a @ [row_block]\<rparr>)"

fun hook_rowspans :: "nat \<Rightarrow> nat \<Rightarrow> arrays \<Rightarrow> arrays" where
  "hook_rowspans row_block 0 a = a"
| "hook_rowspans row_block (Suc n) a =
     hook_rowspans row_block n (a\<lparr>ar_parents := ar_parents a @ [row_block]\<rparr>)"

text \<open>The other row blocks, each with a rowspan for every column: \<open>while (1)\<close> until the last one.\<close>

fun hook_row_blocks :: "nat \<Rightarrow> nat \<Rightarrow> nat \<Rightarrow> arrays \<Rightarrow> arrays" where
  "hook_row_blocks max_rows col_count 0 a = a"
| "hook_row_blocks max_rows col_count (Suc n) a =
     hook_row_blocks max_rows col_count n
       (hook_rowspans (length (ar_row_counts a)) col_count (a\<lparr>ar_row_counts := ar_row_counts a @ [max_rows]\<rparr>))"

text \<open>
  One table, of \<open>row_count\<close> rows and \<open>specs\<close> columns (at least one). A table without rows would have
  no first row block.
\<close>

definition hook_table :: "nat \<Rightarrow> nat \<Rightarrow> nat \<Rightarrow> arrays \<Rightarrow> arrays option" where
  "hook_table max_rows row_count specs a =
     (if max_rows = 0 \<or> specs = 0 then None
      else
        let row_block = length (ar_row_counts a);
            column = length (ar_columns a);
            count_mod = row_count mod max_rows;
            count_div = row_count div max_rows;
            count = (if 0 < count_mod then count_div + 1 else count_div);
            first_rows = (if 0 < count_mod then count_mod else max_rows)
        in if count = 0 then None
           else
             let a = hook_columns row_block specs (a\<lparr>ar_row_counts := ar_row_counts a @ [first_rows]\<rparr>);
                 col_count = length (ar_columns a) - column;
                 a = hook_row_blocks max_rows col_count (count - 1) a
             in Some (a\<lparr>ar_tables := ar_tables a @
                  [\<lparr>sl_row_blocks_from = row_block, sl_row_blocks_until = length (ar_row_counts a),
                    sl_columns_from = column, sl_columns_until = length (ar_columns a),
                    sl_rowspans_until = length (ar_parents a), sl_col_count = col_count\<rparr>]\<rparr>))"

fun hook_tables :: "nat \<Rightarrow> (nat \<times> nat) list \<Rightarrow> arrays \<Rightarrow> arrays option" where
  "hook_tables max_rows [] a = Some a"
| "hook_tables max_rows ((row_count, specs) # tables) a =
     do { a \<leftarrow> hook_table max_rows row_count specs a; hook_tables max_rows tables a }"

definition no_arrays :: arrays where
  "no_arrays = \<lparr>ar_row_counts = [], ar_parents = [], ar_columns = [], ar_tables = []\<rparr>"

text \<open>
  The walk of a column builder: \<open>do ... from += col_count; while (from < until)\<close>. A stride of zero
  would never end.
\<close>

function column_walk :: "nat \<Rightarrow> nat \<Rightarrow> nat \<Rightarrow> nat list option" where
  "column_walk col_count until from =
     (if col_count = 0 then None
      else if from + col_count < until then map_option ((#) from) (column_walk col_count until (from + col_count))
      else Some [from])"
  by pat_completeness auto
termination
  by (relation "measure (\<lambda>(col_count, until, from). until - from)") auto

declare column_walk.simps [simp del]
section \<open>The slices of a table\<close>

text \<open>The row counts of the row blocks of a table: the rest of the division first.\<close>

definition count_blocks :: "nat \<Rightarrow> nat \<Rightarrow> nat" where
  "count_blocks max_rows row_count =
     (if 0 < row_count mod max_rows then row_count div max_rows + 1 else row_count div max_rows)"

definition block_row_counts :: "nat \<Rightarrow> nat \<Rightarrow> nat list" where
  "block_row_counts max_rows row_count =
     (if 0 < row_count mod max_rows then row_count mod max_rows else max_rows) #
       replicate (count_blocks max_rows row_count - 1) max_rows"

lemma count_blocks_pos: "0 < max_rows \<Longrightarrow> 0 < row_count \<Longrightarrow> 0 < count_blocks max_rows row_count"
  by (cases "row_count < max_rows") (auto simp: count_blocks_def div_greater_zero_iff)

lemma block_row_counts_sum:
  assumes "0 < max_rows" "0 < row_count"
  shows "sum_list (block_row_counts max_rows row_count) = row_count"
proof (cases "0 < row_count mod max_rows")
  case True
  then show ?thesis
    using mod_mult_div_eq [of row_count max_rows]
    by (simp add: block_row_counts_def count_blocks_def sum_list_replicate mult.commute)
next
  case False
  then have "row_count = row_count div max_rows * max_rows" by (simp add: mod_0_imp_dvd)
  moreover have "0 < row_count div max_rows"
    using count_blocks_pos [OF assms] False by (simp add: count_blocks_def)
  ultimately show ?thesis
    using False by (cases "row_count div max_rows")
      (simp_all add: block_row_counts_def count_blocks_def sum_list_replicate mult.commute)
qed

lemma block_row_counts_bounds:
  "0 < max_rows \<Longrightarrow> rc \<in> set (block_row_counts max_rows row_count) \<Longrightarrow> 0 < rc \<and> rc \<le> max_rows"
  by (auto simp: block_row_counts_def less_imp_le split: if_splits)

lemma length_block_row_counts:
  "0 < max_rows \<Longrightarrow> 0 < row_count \<Longrightarrow> length (block_row_counts max_rows row_count) = count_blocks max_rows row_count"
  using count_blocks_pos [of max_rows row_count] by (simp add: block_row_counts_def)

lemma hook_columns_eq:
  "hook_columns row_block n a =
     a\<lparr>ar_columns := ar_columns a @ [length (ar_parents a)..<length (ar_parents a) + n],
       ar_parents := ar_parents a @ replicate n row_block\<rparr>"
proof (induction n arbitrary: a)
  case (Suc n)
  then show ?case by (simp add: upt_conv_Cons del: upt_Suc)
qed simp

lemma hook_rowspans_eq:
  "hook_rowspans row_block n a = a\<lparr>ar_parents := ar_parents a @ replicate n row_block\<rparr>"
  by (induction n arbitrary: a) simp_all

definition block_parents :: "nat \<Rightarrow> nat \<Rightarrow> nat \<Rightarrow> nat list" where
  "block_parents row_block col_count n = concat (map (replicate col_count) [row_block..<row_block + n])"

lemma block_parents_Suc:
  "block_parents row_block col_count (Suc n) = replicate col_count row_block @ block_parents (Suc row_block) col_count n"
  by (simp add: block_parents_def upt_conv_Cons del: upt_Suc)

lemma hook_row_blocks_eq:
  "hook_row_blocks max_rows col_count n a =
     a\<lparr>ar_row_counts := ar_row_counts a @ replicate n max_rows,
       ar_parents := ar_parents a @ block_parents (length (ar_row_counts a)) col_count n\<rparr>"
proof (induction n arbitrary: a)
  case 0
  then show ?case by (simp add: block_parents_def)
next
  case (Suc n)
  then show ?case by (simp add: hook_rowspans_eq block_parents_Suc)
qed

lemma hook_table_eq:
  assumes "0 < max_rows" "0 < specs" "0 < row_count"
  shows "hook_table max_rows row_count specs a =
    Some (let row_block = length (ar_row_counts a); column = length (ar_columns a); span = length (ar_parents a);
              n = count_blocks max_rows row_count
          in a\<lparr>ar_row_counts := ar_row_counts a @ block_row_counts max_rows row_count,
               ar_parents := ar_parents a @ block_parents row_block specs n,
               ar_columns := ar_columns a @ [span..<span + specs],
               ar_tables := ar_tables a @
                 [\<lparr>sl_row_blocks_from = row_block, sl_row_blocks_until = row_block + n,
                   sl_columns_from = column, sl_columns_until = column + specs,
                   sl_rowspans_until = span + n * specs, sl_col_count = specs\<rparr>]\<rparr>)"
proof -
  let ?n = "count_blocks max_rows row_count"
  obtain m where m: "?n = Suc m" using count_blocks_pos [OF assms(1,3)] by (cases ?n) auto
  have l: "length (block_parents r specs k) = k * specs" for r k
    by (simp add: block_parents_def length_concat comp_def sum_list_triv)
  show ?thesis
    using assms m l
    by (simp add: hook_table_def count_blocks_def [symmetric] hook_columns_eq hook_row_blocks_eq Let_def
        block_row_counts_def block_parents_Suc)
qed

text \<open>The walk visits every \<open>col_count\<close>-th rowspan.\<close>

lemma column_walk_eq:
  assumes "c < col_count" "0 < n"
  shows "column_walk col_count (span + n * col_count) (span + c) =
    Some (map (\<lambda>b. span + c + b * col_count) [0..<n])"
  using assms
proof (induction n arbitrary: span)
  case (Suc n)
  show ?case
  proof (cases "n = 0")
    case True
    then show ?thesis using Suc.prems by (subst column_walk.simps) simp
  next
    case False
    then have le: "col_count \<le> n * col_count" by (cases n) simp_all
    have "column_walk col_count ((span + col_count) + n * col_count) ((span + col_count) + c) =
        Some (map (\<lambda>b. (span + col_count) + c + b * col_count) [0..<n])"
      using Suc.prems False by (intro Suc.IH) simp_all
    then have "column_walk col_count (span + Suc n * col_count) (span + c + col_count) =
        Some (map (\<lambda>b. span + c + Suc b * col_count) [0..<n])" by (simp add: algebra_simps)
    moreover have "span + c + col_count < span + Suc n * col_count"
      using le Suc.prems(1) unfolding mult_Suc by linarith
    ultimately have "column_walk col_count (span + Suc n * col_count) (span + c) =
        Some ((span + c) # map (\<lambda>b. span + c + Suc b * col_count) [0..<n])"
      using Suc.prems(1) by (subst column_walk.simps) simp
    then show ?thesis
      by (simp add: upt_conv_Cons map_Suc_upt [symmetric] comp_def del: upt_Suc)
  qed
qed simp

lemma nth_block_parents:
  "c < col_count \<Longrightarrow> b < n \<Longrightarrow> block_parents r col_count n ! (c + b * col_count) = r + b"
proof (induction b arbitrary: r n)
  case 0
  then obtain m where "n = Suc m" by (cases n) auto
  then show ?case using 0 by (simp add: block_parents_Suc nth_append)
next
  case (Suc b)
  then obtain m where m: "n = Suc m" by (cases n) auto
  then have "block_parents (Suc r) col_count m ! (c + b * col_count) = Suc r + b"
    using Suc by (intro Suc.IH) simp_all
  then show ?case by (simp add: m block_parents_Suc nth_append)
qed
section \<open>Every column meets every row block once\<close>

text \<open>
  What a column builder relies on: walking from its first rowspan it meets one rowspan of each row
  block of its table in order, and the row counts of these row blocks are positive and add up to the
  rows of the table.
\<close>

definition walk_ok :: "arrays \<Rightarrow> table_slice \<Rightarrow> nat \<Rightarrow> nat list \<Rightarrow> bool" where
  "walk_ok a sl j w \<longleftrightarrow>
     column_walk (sl_col_count sl) (sl_rowspans_until sl) (ar_columns a ! (sl_columns_from sl + j)) = Some w \<and>
     (\<forall>i \<in> set w. i < length (ar_parents a)) \<and>
     map (\<lambda>i. ar_parents a ! i) w = [sl_row_blocks_from sl..<sl_row_blocks_until sl]"

definition slice_ok :: "nat \<Rightarrow> arrays \<Rightarrow> nat \<times> nat \<Rightarrow> table_slice \<Rightarrow> bool" where
  "slice_ok max_rows a t sl \<longleftrightarrow>
     sl_col_count sl = snd t \<and>
     sl_columns_until sl = sl_columns_from sl + snd t \<and> sl_columns_until sl \<le> length (ar_columns a) \<and>
     sl_row_blocks_until sl \<le> length (ar_row_counts a) \<and>
     map (\<lambda>b. ar_row_counts a ! b) [sl_row_blocks_from sl..<sl_row_blocks_until sl] =
       block_row_counts max_rows (fst t) \<and>
     (\<forall>j < snd t. \<exists>w. walk_ok a sl j w)"

definition extends_arrays :: "arrays \<Rightarrow> arrays \<Rightarrow> bool" where
  "extends_arrays a a' \<longleftrightarrow>
     (\<exists>xs. ar_row_counts a' = ar_row_counts a @ xs) \<and> (\<exists>xs. ar_parents a' = ar_parents a @ xs) \<and>
     (\<exists>xs. ar_columns a' = ar_columns a @ xs)"

lemma extends_arrays_refl [simp]: "extends_arrays a a"
  by (simp add: extends_arrays_def)

lemma slice_ok_extends:
  assumes "extends_arrays a a'" "slice_ok max_rows a t sl"
  shows "slice_ok max_rows a' t sl"
proof -
  obtain xs ys zs where e: "ar_row_counts a' = ar_row_counts a @ xs" "ar_parents a' = ar_parents a @ ys"
    "ar_columns a' = ar_columns a @ zs" using assms(1) by (auto simp: extends_arrays_def)
  have "map (\<lambda>b. ar_row_counts a' ! b) [sl_row_blocks_from sl..<sl_row_blocks_until sl] =
      map (\<lambda>b. ar_row_counts a ! b) [sl_row_blocks_from sl..<sl_row_blocks_until sl]"
    using assms(2) by (intro map_cong refl) (simp add: slice_ok_def e nth_append)
  then have "map (\<lambda>b. ar_row_counts a' ! b) [sl_row_blocks_from sl..<sl_row_blocks_until sl] =
      block_row_counts max_rows (fst t)"
    using assms(2) unfolding slice_ok_def by (elim conjE) (erule trans)
  moreover have "walk_ok a' sl j w" if "walk_ok a sl j w" "j < snd t" for j w
  proof -
    have "ar_columns a' ! (sl_columns_from sl + j) = ar_columns a ! (sl_columns_from sl + j)"
      using assms(2) that(2) by (simp add: slice_ok_def e nth_append)
    moreover have "map (\<lambda>i. ar_parents a' ! i) w = map (\<lambda>i. ar_parents a ! i) w"
      using that(1) by (intro map_cong refl) (simp add: walk_ok_def e nth_append)
    moreover have "\<forall>i \<in> set w. i < length (ar_parents a')" using that(1) by (auto simp: walk_ok_def e)
    ultimately show ?thesis using that(1) unfolding walk_ok_def by metis
  qed
  then have "\<forall>j < snd t. \<exists>w. walk_ok a' sl j w" using assms(2) unfolding slice_ok_def by blast
  moreover have "length (ar_columns a) \<le> length (ar_columns a')" "length (ar_row_counts a) \<le> length (ar_row_counts a')"
    by (simp_all add: e)
  ultimately show ?thesis using assms(2) unfolding slice_ok_def by (intro conjI) (auto intro: order_trans)
qed

lemma hook_table_slice:
  assumes "0 < max_rows" "0 < specs" "0 < row_count"
  obtains a' sl where "hook_table max_rows row_count specs a = Some a'" "extends_arrays a a'"
    "ar_tables a' = ar_tables a @ [sl]" "slice_ok max_rows a' (row_count, specs) sl"
    "length (ar_row_counts a') = length (ar_row_counts a) + count_blocks max_rows row_count"
    "length (ar_parents a') = length (ar_parents a) + count_blocks max_rows row_count * specs"
    "length (ar_columns a') = length (ar_columns a) + specs"
proof -
  let ?n = "count_blocks max_rows row_count" and ?s = "length (ar_parents a)" and ?r = "length (ar_row_counts a)"
  note n = count_blocks_pos [OF assms(1,3)]
  define sl where "sl = \<lparr>sl_row_blocks_from = ?r, sl_row_blocks_until = ?r + ?n,
    sl_columns_from = length (ar_columns a), sl_columns_until = length (ar_columns a) + specs,
    sl_rowspans_until = ?s + ?n * specs, sl_col_count = specs\<rparr>"
  define a' where "a' = a\<lparr>ar_row_counts := ar_row_counts a @ block_row_counts max_rows row_count,
    ar_parents := ar_parents a @ block_parents ?r specs ?n,
    ar_columns := ar_columns a @ [?s..<?s + specs], ar_tables := ar_tables a @ [sl]\<rparr>"
  have h: "hook_table max_rows row_count specs a = Some a'"
    using hook_table_eq [OF assms, of a] by (simp add: a'_def sl_def Let_def)
  have lp: "length (block_parents ?r specs ?n) = ?n * specs"
    by (simp add: block_parents_def length_concat comp_def sum_list_triv)
  have walk: "walk_ok a' sl j (map (\<lambda>b. ?s + j + b * specs) [0..<?n])" if j: "j < specs" for j
  proof -
    have lt: "j + b * specs < ?n * specs" if "b < ?n" for b
    proof -
      have "Suc b * specs \<le> ?n * specs" using that by (intro mult_le_mono1) simp
      then show ?thesis using j by simp
    qed
    have "ar_parents a' ! (?s + j + b * specs) = ?r + b" if "b < ?n" for b
      using nth_block_parents [OF j that, of ?r] by (simp add: a'_def nth_append add.assoc)
    then have "map (\<lambda>i. ar_parents a' ! i) (map (\<lambda>b. ?s + j + b * specs) [0..<?n]) = [?r..<?r + ?n]"
      by (intro nth_equalityI) simp_all
    then show ?thesis
      using column_walk_eq [OF j n, of ?s] j lt lp by (auto simp: walk_ok_def sl_def a'_def add.assoc)
  qed
  have "map (\<lambda>b. ar_row_counts a' ! b) [?r..<?r + ?n] = block_row_counts max_rows row_count"
    by (intro nth_equalityI) (simp_all add: a'_def nth_append length_block_row_counts assms)
  then have "slice_ok max_rows a' (row_count, specs) sl"
    using walk unfolding slice_ok_def
    by (auto simp: sl_def) (simp_all add: a'_def length_block_row_counts assms)
  then show thesis
    using h lp by (intro that [of a' sl]) (auto simp: a'_def extends_arrays_def length_block_row_counts assms)
qed

definition tables_ok :: "(nat \<times> nat) list \<Rightarrow> bool" where
  "tables_ok tables \<longleftrightarrow> (\<forall>(row_count, specs) \<in> set tables. 0 < row_count \<and> 0 < specs)"

lemma extends_arrays_trans: "extends_arrays a b \<Longrightarrow> extends_arrays b c \<Longrightarrow> extends_arrays a c"
  by (auto simp: extends_arrays_def)

lemma hook_tables_slices:
  assumes "0 < max_rows" "tables_ok tables"
  shows "\<exists>a' sls. hook_tables max_rows tables a = Some a' \<and> ar_tables a' = ar_tables a @ sls \<and>
    extends_arrays a a' \<and> list_all2 (slice_ok max_rows a') tables sls \<and>
    length (ar_row_counts a') = length (ar_row_counts a) + (\<Sum>(rc, specs) \<leftarrow> tables. count_blocks max_rows rc) \<and>
    length (ar_parents a') = length (ar_parents a) + (\<Sum>(rc, specs) \<leftarrow> tables. count_blocks max_rows rc * specs) \<and>
    length (ar_columns a') = length (ar_columns a) + (\<Sum>(rc, specs) \<leftarrow> tables. specs)"
  using assms(2)
proof (induction tables arbitrary: a)
  case (Cons t tables)
  obtain rc specs where t: "t = (rc, specs)" "0 < rc" "0 < specs"
    using Cons.prems by (cases t) (auto simp: tables_ok_def)
  obtain a1 sl where 1: "hook_table max_rows rc specs a = Some a1" "extends_arrays a a1"
    "ar_tables a1 = ar_tables a @ [sl]" "slice_ok max_rows a1 (rc, specs) sl"
    "length (ar_row_counts a1) = length (ar_row_counts a) + count_blocks max_rows rc"
    "length (ar_parents a1) = length (ar_parents a) + count_blocks max_rows rc * specs"
    "length (ar_columns a1) = length (ar_columns a) + specs"
    using hook_table_slice [OF assms(1) t(3,2)] by blast
  have "tables_ok tables" using Cons.prems by (simp add: tables_ok_def)
  then obtain a2 sls where 2: "hook_tables max_rows tables a1 = Some a2" "ar_tables a2 = ar_tables a1 @ sls"
    "extends_arrays a1 a2" "list_all2 (slice_ok max_rows a2) tables sls"
    "length (ar_row_counts a2) = length (ar_row_counts a1) + (\<Sum>(rc, specs) \<leftarrow> tables. count_blocks max_rows rc)"
    "length (ar_parents a2) = length (ar_parents a1) + (\<Sum>(rc, specs) \<leftarrow> tables. count_blocks max_rows rc * specs)"
    "length (ar_columns a2) = length (ar_columns a1) + (\<Sum>(rc, specs) \<leftarrow> tables. specs)"
    using Cons.IH by blast
  show ?case
    using 1 2 slice_ok_extends [OF 2(3) 1(4)] extends_arrays_trans [OF 1(2) 2(3)]
    by (intro exI [of _ a2] exI [of _ "sl # sls"]) (simp add: t(1))
qed simp
section \<open>The allocation suffices\<close>

text \<open>
  The counter of a database after all its tables (of row count and column count each) are parsed:
  the first table and its first column initialise it. The generator adds up the databases.
\<close>

fun count_tables :: "(nat \<times> nat) list \<Rightarrow> database_counter \<Rightarrow> database_counter" where
  "count_tables [] d = d"
| "count_tables ((row_count, specs) # tables) d =
     count_tables tables ((count_column ^^ specs) (count_table row_count d))"

fun count_database :: "(nat \<times> nat) list \<Rightarrow> database_counter option" where
  "count_database [] = None"
| "count_database ((row_count, specs) # tables) =
     Some (count_tables tables ((count_column ^^ (specs - 1)) (database_counter_init row_count)))"

fun count_databases :: "(nat \<times> nat) list list \<Rightarrow> generator_counter \<Rightarrow> generator_counter option" where
  "count_databases [] g = Some g"
| "count_databases (db # dbs) g = do { d \<leftarrow> count_database db; count_databases dbs (generator_counter_update g d) }"

lemma count_columns_eq: "(count_column ^^ n) d = d\<lparr>dc_columns := dc_columns d + n\<rparr>"
  by (induction n) (simp_all add: count_column_def)

lemma count_tables_eq:
  "dc_rows (count_tables tables d) = dc_rows d + (\<Sum>(rc, specs) \<leftarrow> tables. rc) \<and>
   dc_columns (count_tables tables d) = dc_columns d + (\<Sum>(rc, specs) \<leftarrow> tables. specs) \<and>
   dc_tables (count_tables tables d) = dc_tables d + length tables \<and>
   dc_row_count_max d \<le> dc_row_count_max (count_tables tables d)"
proof (induction tables arbitrary: d)
  case (Cons t tables)
  obtain rc specs where t: "t = (rc, specs)" by (cases t)
  let ?d = "(count_column ^^ specs) (count_table rc d)"
  have "dc_rows ?d = dc_rows d + rc" "dc_columns ?d = dc_columns d + specs" "dc_tables ?d = dc_tables d + 1"
    "dc_row_count_max d \<le> dc_row_count_max ?d"
    by (simp_all add: count_columns_eq count_table_def)
  then show ?case
    using Cons [of ?d] by (simp add: t)
qed simp

lemma count_database_eq:
  assumes "db \<noteq> []" "tables_ok db"
  obtains d where "count_database db = Some d" "dc_rows d = (\<Sum>(rc, specs) \<leftarrow> db. rc)"
    "dc_columns d = (\<Sum>(rc, specs) \<leftarrow> db. specs)" "dc_tables d = length db" "0 < dc_row_count_max d"
proof -
  obtain rc specs tables where db: "db = (rc, specs) # tables" "0 < rc" "0 < specs"
    using assms by (cases db) (auto simp: tables_ok_def)
  let ?d0 = "(count_column ^^ (specs - 1)) (database_counter_init rc)"
  have "dc_rows ?d0 = rc" "dc_columns ?d0 = specs" "dc_tables ?d0 = 1" "dc_row_count_max ?d0 = rc"
    using db(3) by (simp_all add: count_columns_eq database_counter_init_def)
  then show thesis
    using count_tables_eq [of tables ?d0] db by (intro that [of "count_tables tables ?d0"]) auto
qed

lemma count_databases_eq:
  assumes "\<forall>db \<in> set dbs. db \<noteq> [] \<and> tables_ok db"
  shows "\<exists>g'. count_databases dbs g = Some g' \<and>
    gc_rows g' = gc_rows g + (\<Sum>(rc, specs) \<leftarrow> concat dbs. rc) \<and>
    gc_columns g' = gc_columns g + (\<Sum>(rc, specs) \<leftarrow> concat dbs. specs) \<and>
    gc_tables g' = gc_tables g + length (concat dbs) \<and>
    gc_databases g' = gc_databases g + length dbs \<and>
    (dbs \<noteq> [] \<or> 0 < gc_row_count_max g \<longrightarrow> 0 < gc_row_count_max g')"
  using assms
proof (induction dbs arbitrary: g)
  case (Cons db dbs)
  obtain d where d: "count_database db = Some d" "dc_rows d = (\<Sum>(rc, specs) \<leftarrow> db. rc)"
    "dc_columns d = (\<Sum>(rc, specs) \<leftarrow> db. specs)" "dc_tables d = length db" "0 < dc_row_count_max d"
    using Cons.prems count_database_eq [of db] by auto
  obtain g' where g': "count_databases dbs (generator_counter_update g d) = Some g'"
    "gc_rows g' = gc_rows (generator_counter_update g d) + (\<Sum>(rc, specs) \<leftarrow> concat dbs. rc)"
    "gc_columns g' = gc_columns (generator_counter_update g d) + (\<Sum>(rc, specs) \<leftarrow> concat dbs. specs)"
    "gc_tables g' = gc_tables (generator_counter_update g d) + length (concat dbs)"
    "gc_databases g' = gc_databases (generator_counter_update g d) + length dbs"
    "0 < gc_row_count_max (generator_counter_update g d) \<longrightarrow> 0 < gc_row_count_max g'"
    using Cons.IH [of "generator_counter_update g d"] Cons.prems by auto
  have "0 < gc_row_count_max (generator_counter_update g d)"
    using d(5) by (auto simp: generator_counter_update_def)
  then show ?case
    using d g' by (intro exI [of _ g']) (simp add: generator_counter_update_def)
qed simp

lemma sum_div_le: "(\<Sum>x \<leftarrow> xs. f x div m) \<le> (\<Sum>x \<leftarrow> xs. f x) div (m::nat)"
proof (induction xs)
  case (Cons x xs)
  have "f x div m + (\<Sum>x \<leftarrow> xs. f x) div m \<le> (f x + (\<Sum>x \<leftarrow> xs. f x)) div m"
    by (cases "m = 0") (simp_all add: div_add1_eq [of "f x"])
  then show ?case using Cons by simp
qed simp

lemma sum_blocks_le:
  assumes "tables_ok tables"
  shows "(\<Sum>(rc, specs) \<leftarrow> tables. count_blocks m rc) \<le>
    (\<Sum>(rc, specs) \<leftarrow> tables. rc) div m + (\<Sum>(rc, specs) \<leftarrow> tables. specs)"
proof -
  have "(\<Sum>(rc, specs) \<leftarrow> tables. count_blocks m rc) \<le> (\<Sum>t \<leftarrow> tables. fst t div m + snd t)"
    using assms by (intro sum_list_mono) (auto simp: count_blocks_def tables_ok_def)
  also have "\<dots> = (\<Sum>t \<leftarrow> tables. fst t div m) + (\<Sum>t \<leftarrow> tables. snd t)" by (simp add: sum_list_addf)
  also have "\<dots> \<le> (\<Sum>t \<leftarrow> tables. fst t) div m + (\<Sum>t \<leftarrow> tables. snd t)" using sum_div_le [of fst] by simp
  finally show ?thesis by (simp add: case_prod_beta')
qed

lemma sum_products_le: "(\<Sum>(rc, specs) \<leftarrow> tables. f rc * specs) \<le> (\<Sum>(rc, specs) \<leftarrow> tables. f rc) * (\<Sum>(rc, specs) \<leftarrow> tables. specs :: nat)"
proof (induction tables)
  case (Cons t tables)
  then show ?case by (cases t) (simp add: distrib_left distrib_right trans_le_add2)
qed simp

lemma length_concat_le_specs: "tables_ok tables \<Longrightarrow> length tables \<le> (\<Sum>(rc, specs) \<leftarrow> tables. specs)"
  by (induction tables) (auto simp: tables_ok_def)

text \<open>
  C16: for every set of parsed databases the single allocation of \<open>mysql_seed_generate\<close> is large
  enough for the row blocks, rowspans, columns and tables it hooks up and for every task node of the
  four phases, and every column walks over exactly one rowspan of each row block of its table.
\<close>

theorem generator_allocation_suffices:
  assumes "dbs \<noteq> []" "\<forall>db \<in> set dbs. db \<noteq> [] \<and> tables_ok db"
  shows "\<exists>g a row_blocks_max rowspans_max tasks_max.
    count_databases dbs generator_counter_init = Some g \<and>
    count_row_blocks_max g = Some row_blocks_max \<and> count_rowspans_max g = Some rowspans_max \<and>
    count_tasks_max g = Some tasks_max \<and>
    hook_tables (row_block_row_count_max g) (concat dbs) no_arrays = Some a \<and>
    length (ar_row_counts a) \<le> row_blocks_max \<and> length (ar_parents a) \<le> rowspans_max \<and>
    length (ar_columns a) = gc_columns g \<and> length (ar_tables a) = gc_tables g \<and>
    1 + gc_columns g + gc_databases g + 2 * length (ar_tables a) + length (ar_row_counts a) \<le> tasks_max \<and>
    list_all2 (slice_ok (row_block_row_count_max g) a) (concat dbs) (ar_tables a)"
proof -
  obtain g where g: "count_databases dbs generator_counter_init = Some g"
    "gc_rows g = (\<Sum>(rc, specs) \<leftarrow> concat dbs. rc)" "gc_columns g = (\<Sum>(rc, specs) \<leftarrow> concat dbs. specs)"
    "gc_tables g = length (concat dbs)" "0 < gc_row_count_max g"
    using count_databases_eq [OF assms(2), of generator_counter_init] assms(1)
    by (auto simp: generator_counter_init_def)
  have ok: "tables_ok (concat dbs)" using assms(2) by (auto simp: tables_ok_def)
  let ?m = "row_block_row_count_max g"
  have m: "0 < ?m" using g(5) by (auto simp: row_block_row_count_max_def COUNT_GENERATOR_WORKERS_def div_greater_zero_iff)
  obtain a where a: "hook_tables ?m (concat dbs) no_arrays = Some a"
    "list_all2 (slice_ok ?m a) (concat dbs) (ar_tables a)"
    "length (ar_row_counts a) = (\<Sum>(rc, specs) \<leftarrow> concat dbs. count_blocks ?m rc)"
    "length (ar_parents a) = (\<Sum>(rc, specs) \<leftarrow> concat dbs. count_blocks ?m rc * specs)"
    "length (ar_columns a) = (\<Sum>(rc, specs) \<leftarrow> concat dbs. specs)"
    using hook_tables_slices [OF m ok, of no_arrays] by (auto simp: no_arrays_def)
  have t: "length (ar_tables a) = length (concat dbs)" using list_all2_lengthD [OF a(2)] by simp
  note blocks = sum_blocks_le [OF ok, of ?m, folded g(2,3) a(3)]
  have "length (ar_parents a) \<le> (gc_rows g div ?m + gc_columns g) * gc_columns g"
    using sum_products_le [of "count_blocks ?m" "concat dbs", folded a(3,4) g(3)] blocks
    by (meson le_trans mult_le_mono1)
  moreover have "length (ar_columns a) = gc_columns g" "length (ar_tables a) = gc_tables g"
    using a(5) g(3,4) t by simp_all
  ultimately show ?thesis
    using g(1) m a(1,2) blocks
    by (intro exI [of _ g] exI [of _ a]) (simp add: count_row_blocks_max_def count_rowspans_max_def count_tasks_max_def)
qed

theorem generator_allocation_suffices_witness:
  "\<exists>g a row_blocks_max rowspans_max tasks_max.
    count_databases [[(10, 2), (3, 1)]] generator_counter_init = Some g \<and>
    count_row_blocks_max g = Some row_blocks_max \<and> count_rowspans_max g = Some rowspans_max \<and>
    count_tasks_max g = Some tasks_max \<and>
    hook_tables (row_block_row_count_max g) (concat [[(10, 2), (3, 1)]]) no_arrays = Some a \<and>
    length (ar_row_counts a) \<le> row_blocks_max \<and> length (ar_parents a) \<le> rowspans_max \<and>
    length (ar_columns a) = gc_columns g \<and> length (ar_tables a) = gc_tables g \<and>
    1 + gc_columns g + gc_databases g + 2 * length (ar_tables a) + length (ar_row_counts a) \<le> tasks_max \<and>
    list_all2 (slice_ok (row_block_row_count_max g) a) (concat [[(10, 2), (3, 1)]]) (ar_tables a)"
  by (rule generator_allocation_suffices) (simp_all add: tables_ok_def)

end
