(* ===== verification/Generate.thy ===== *)
theory Generate
  imports Columns Layout
begin

text \<open>
  One table through the phases of \<open>mysql_seed_generate\<close>: its columns are built by separate tasks in
  any order, then \<open>build_table_init\<close> runs, then the row blocks are written in any order. The theorem
  at the end gives the text of the file in terms of the cells of the columns.
\<close>

section \<open>The column phase\<close>

text \<open>
  A table as \<open>mysql_seed_generate\<close> hooks it up: zero totals, a rowspan per column in every row block.
\<close>

definition no_rowspan :: rowspan where
  "no_rowspan = \<lparr>rs_block = [], rs_cell = 0, rs_join = False\<rparr>"

definition hook_row_block :: "nat \<Rightarrow> nat \<Rightarrow> row_block" where
  "hook_row_block col_count row_count =
     \<lparr>rb_total = 0, rb_rowspans = replicate col_count no_rowspan, rb_row_count = row_count, rb_contents = 0\<rparr>"

definition hooked_table :: "string \<Rightarrow> string \<Rightarrow> tbl_spec \<Rightarrow> nat list \<Rightarrow> table" where
  "hooked_table path db_name spec rcs =
     \<lparr>tb_path = path, tb_db_name = db_name, tb_contents = [], tb_total = 0, tb_spec = spec,
      tb_row_blocks = map (hook_row_block (length (ts_col_specs spec))) rcs\<rparr>"

text \<open>What column \<open>i\<close> stores: its rowspan in every row block, and the lengths.\<close>

definition store_span :: "nat \<Rightarrow> row_block \<Rightarrow> rowspan \<times> nat \<Rightarrow> row_block" where
  "store_span i rb = (\<lambda>(rs, len). rb\<lparr>rb_rowspans := (rb_rowspans rb)[i := rs], rb_total := rb_total rb + len\<rparr>)"

definition finish_column :: "nat \<Rightarrow> column_out \<Rightarrow> table \<Rightarrow> table" where
  "finish_column i co tb =
     tb\<lparr>tb_total := tb_total tb + co_length co,
        tb_row_blocks := map2 (store_span i) (tb_row_blocks tb) (co_spans co)\<rparr>"

definition run_column :: "col_build list \<Rightarrow> alloc \<Rightarrow> counter \<Rightarrow> table \<Rightarrow> nat \<Rightarrow> (column_failure + table) option" where
  "run_column builds malloc c tb i =
     (if i < length builds \<and> i < length (ts_col_specs (tb_spec tb)) then
        do { r \<leftarrow> build_column (builds ! i) malloc c (cs_name (ts_col_specs (tb_spec tb) ! i) = None)
                    (ts_row_count (tb_spec tb)) (map rb_row_count (tb_row_blocks tb));
             Some (case r of Inl f \<Rightarrow> Inl f | Inr co \<Rightarrow> Inr (finish_column i co tb)) }
      else None)"

text \<open>The first failure ends the pool.\<close>

fun run_columns :: "col_build list \<Rightarrow> alloc \<Rightarrow> counter \<Rightarrow> table \<Rightarrow> nat list \<Rightarrow> (column_failure + table) option" where
  "run_columns builds malloc c tb [] = Some (Inr tb)"
| "run_columns builds malloc c tb (i # order) =
     do { r \<leftarrow> run_column builds malloc c tb i;
          case r of Inl f \<Rightarrow> Some (Inl f) | Inr tb' \<Rightarrow> run_columns builds malloc c tb' order }"

section \<open>The order of the columns does not matter\<close>

definition spans_fit :: "nat \<Rightarrow> column_out list \<Rightarrow> bool" where
  "spans_fit n outs \<longleftrightarrow> (\<forall>co \<in> set outs. length (co_spans co) = n)"

lemma finish_column_simps [simp]:
  "tb_spec (finish_column i co tb) = tb_spec tb"
  "tb_path (finish_column i co tb) = tb_path tb"
  "tb_db_name (finish_column i co tb) = tb_db_name tb"
  "tb_total (finish_column i co tb) = tb_total tb + co_length co"
  "tb_contents (finish_column i co tb) = tb_contents tb"
  by (simp_all add: finish_column_def)

lemma store_span_simps [simp]:
  "rb_row_count (store_span i rb p) = rb_row_count rb"
  "rb_total (store_span i rb p) = rb_total rb + snd p"
  "rb_rowspans (store_span i rb p) = (rb_rowspans rb)[i := fst p]"
  by (simp_all add: store_span_def case_prod_beta')

lemma finish_column_row_blocks:
  assumes "length (co_spans co) = length (tb_row_blocks tb)"
  shows "length (tb_row_blocks (finish_column i co tb)) = length (tb_row_blocks tb)"
    and "map rb_row_count (tb_row_blocks (finish_column i co tb)) = map rb_row_count (tb_row_blocks tb)"
    and "b < length (tb_row_blocks tb) \<Longrightarrow>
      tb_row_blocks (finish_column i co tb) ! b = store_span i (tb_row_blocks tb ! b) (co_spans co ! b)"
  using assms by (auto simp: finish_column_def store_span_def intro!: nth_equalityI split: prod.splits)

text \<open>What is left after the columns of \<open>order\<close>, each taken once.\<close>

definition columns_done :: "column_out list \<Rightarrow> nat list \<Rightarrow> table \<Rightarrow> table \<Rightarrow> bool" where
  "columns_done outs order tb tb' \<longleftrightarrow>
     tb_spec tb' = tb_spec tb \<and> tb_path tb' = tb_path tb \<and> tb_db_name tb' = tb_db_name tb \<and>
     tb_total tb' = tb_total tb + (\<Sum>i \<leftarrow> order. co_length (outs ! i)) \<and>
     length (tb_row_blocks tb') = length (tb_row_blocks tb) \<and>
     (\<forall>b < length (tb_row_blocks tb).
        rb_row_count (tb_row_blocks tb' ! b) = rb_row_count (tb_row_blocks tb ! b) \<and>
        rb_total (tb_row_blocks tb' ! b) =
          rb_total (tb_row_blocks tb ! b) + (\<Sum>i \<leftarrow> order. snd (co_spans (outs ! i) ! b)) \<and>
        length (rb_rowspans (tb_row_blocks tb' ! b)) = length (rb_rowspans (tb_row_blocks tb ! b)) \<and>
        (\<forall>i < length (rb_rowspans (tb_row_blocks tb ! b)).
           rb_rowspans (tb_row_blocks tb' ! b) ! i =
             (if i \<in> set order then fst (co_spans (outs ! i) ! b) else rb_rowspans (tb_row_blocks tb ! b) ! i)))"

definition builds_to :: "col_build list \<Rightarrow> alloc \<Rightarrow> counter \<Rightarrow> tbl_spec \<Rightarrow> nat list \<Rightarrow> column_out list \<Rightarrow> bool" where
  "builds_to builds malloc c spec rcs outs \<longleftrightarrow>
     length builds = length (ts_col_specs spec) \<and> length outs = length (ts_col_specs spec) \<and>
     (\<forall>i < length outs. length (co_spans (outs ! i)) = length rcs \<and>
        build_column (builds ! i) malloc c (cs_name (ts_col_specs spec ! i) = None) (ts_row_count spec) rcs =
          Some (Inr (outs ! i)))"

lemma run_columns_done:
  assumes "builds_to builds malloc c (tb_spec tb) (map rb_row_count (tb_row_blocks tb)) outs"
    and "\<forall>i \<in> set order. i < length outs"
  shows "\<exists>tb'. run_columns builds malloc c tb order = Some (Inr tb') \<and> columns_done outs order tb tb'"
  using assms
proof (induction order arbitrary: tb)
  case Nil
  then show ?case by (simp add: columns_done_def)
next
  case (Cons i order)
  let ?tb = "finish_column i (outs ! i) tb"
  have i: "i < length outs" "length (co_spans (outs ! i)) = length (tb_row_blocks tb)"
    using Cons.prems by (auto simp: builds_to_def)
  have run: "run_column builds malloc c tb i = Some (Inr ?tb)"
    using Cons.prems i(1) by (simp add: run_column_def builds_to_def)
  note rb = finish_column_row_blocks [OF i(2), where i = i]
  have "builds_to builds malloc c (tb_spec ?tb) (map rb_row_count (tb_row_blocks ?tb)) outs"
    using Cons.prems(1) by (simp only: rb(2) finish_column_simps)
  then obtain tb' where t: "run_columns builds malloc c ?tb order = Some (Inr tb')" "columns_done outs order ?tb tb'"
    using Cons.IH [of ?tb] Cons.prems(2) by auto
  have "columns_done outs (i # order) tb tb'"
    using t(2) rb(1,3) unfolding columns_done_def
    by (simp add: nth_list_update)
  then show ?case using run t(1) by simp
qed
section \<open>The table is ready\<close>

lemma length_terminated_cut:
  "sum_list rcs = length cells \<Longrightarrow>
    length (terminated cells) = (\<Sum>piece \<leftarrow> cut rcs cells. length (terminated piece))"
proof (induction rcs arbitrary: cells)
  case (Cons rc rcs)
  have "terminated cells = terminated (take rc cells) @ terminated (drop rc cells)"
    by (metis append_take_drop_id terminated_simps(3))
  then show ?case using Cons.IH [of "drop rc cells"] Cons.prems by simp
qed simp

lemma lays_outD:
  assumes "lays_out co join rcs cells" "sum_list rcs = length cells"
  shows "length (co_spans co) = length rcs"
    and "b < length rcs \<Longrightarrow> span_holds (fst (co_spans co ! b)) (join, cut rcs cells ! b)"
    and "b < length rcs \<Longrightarrow> snd (co_spans co ! b) = length (terminated (cut rcs cells ! b))"
    and "co_length co = (\<Sum>b < length rcs. snd (co_spans co ! b))"
proof -
  have l: "list_all2 (piece_of join) (co_spans co) (cut rcs cells)" "co_length co = length (terminated cells)"
    using assms(1) by (simp_all add: lays_out_def)
  show len: "length (co_spans co) = length rcs" using list_all2_lengthD [OF l(1)] by simp
  have nth: "piece_of join (co_spans co ! b) (cut rcs cells ! b)" if "b < length rcs" for b
    using l(1) that len by (simp add: list_all2_conv_all_nth)
  then show "b < length rcs \<Longrightarrow> span_holds (fst (co_spans co ! b)) (join, cut rcs cells ! b)"
    "b < length rcs \<Longrightarrow> snd (co_spans co ! b) = length (terminated (cut rcs cells ! b))"
    by (simp_all add: piece_of_def case_prod_beta')
  have "co_length co = (\<Sum>b < length rcs. length (terminated (cut rcs cells ! b)))"
    using length_terminated_cut [OF assms(2)] l(2) by (simp add: sum_list_sum_nth atLeast0LessThan)
  also have "\<dots> = (\<Sum>b < length rcs. snd (co_spans co ! b))"
    using nth by (intro sum.cong refl) (simp add: piece_of_def case_prod_beta')
  finally show "co_length co = (\<Sum>b < length rcs. snd (co_spans co ! b))" .
qed

text \<open>The columns of row block \<open>b\<close>.\<close>

definition block_cols :: "nat list \<Rightarrow> (bool \<times> string list) list \<Rightarrow> nat \<Rightarrow> (bool \<times> string list) list" where
  "block_cols rcs cols b = map (\<lambda>(join, cells). (join, cut rcs cells ! b)) cols"

lemma row_of_take: "i < n \<Longrightarrow> row_of (map (\<lambda>(j, cells). (j, take n cells)) cols) i = row_of cols i"
  by (auto simp: row_of_def)

lemma row_of_drop:
  "\<forall>col \<in> set cols. n \<le> length (snd col) \<Longrightarrow>
    row_of (map (\<lambda>(j, cells). (j, drop n cells)) cols) i = row_of cols (n + i)"
  by (auto simp: row_of_def)

lemma rows_text_add:
  assumes "\<forall>col \<in> set cols. m \<le> length (snd col)"
  shows "rows_text cols (m + n) =
    rows_text (map (\<lambda>(j, cells). (j, take m cells)) cols) m @ rows_text (map (\<lambda>(j, cells). (j, drop m cells)) cols) n"
proof -
  let ?f = "\<lambda>cols i. row_text (row_of cols i)"
  have "map (?f cols) [0..<m + n] = map (?f cols) [0..<m] @ map (\<lambda>i. ?f cols (m + i)) [0..<n]"
    by (rule nth_equalityI) (auto simp: nth_append nth_upt)
  moreover have "map (?f cols) [0..<m] = map (?f (map (\<lambda>(j, cells). (j, take m cells)) cols)) [0..<m]"
    by (intro map_cong refl) (simp add: row_of_take)
  moreover have "map (\<lambda>i. ?f cols (m + i)) [0..<n] = map (?f (map (\<lambda>(j, cells). (j, drop m cells)) cols)) [0..<n]"
    by (intro map_cong refl) (simp add: row_of_drop [OF assms])
  ultimately show ?thesis by (simp only: rows_text_def concat_append)
qed

lemma rows_text_blocks:
  "\<forall>col \<in> set cols. sum_list rcs \<le> length (snd col) \<Longrightarrow>
    concat (map (\<lambda>b. rows_text (block_cols rcs cols b) (rcs ! b)) [0..<length rcs]) = rows_text cols (sum_list rcs)"
proof (induction rcs arbitrary: cols)
  case Nil
  then show ?case by (simp add: rows_text_def)
next
  case (Cons rc rcs)
  let ?d = "map (\<lambda>(j, cells). (j, drop rc cells)) cols"
  have 1: "block_cols (rc # rcs) cols 0 = map (\<lambda>(j, cells). (j, take rc cells)) cols"
    by (simp add: block_cols_def)
  have 2: "block_cols (rc # rcs) cols (Suc b) = block_cols rcs ?d b" for b
    by (auto simp: block_cols_def)
  have 3: "concat (map (\<lambda>b. rows_text (block_cols rcs ?d b) (rcs ! b)) [0..<length rcs]) = rows_text ?d (sum_list rcs)"
    using Cons.prems by (intro Cons.IH) (auto split: prod.splits)
  have 4: "[0..<length (rc # rcs)] = 0 # map Suc [0..<length rcs]"
    by (simp add: upt_conv_Cons map_Suc_upt del: upt_Suc)
  have "\<forall>col \<in> set cols. rc \<le> length (snd col)" using Cons.prems by auto
  from rows_text_add [OF this, of "sum_list rcs"] show ?case
    using 3 unfolding 4 by (simp add: 1 2 comp_def)
qed

definition join_of :: "col_spec \<Rightarrow> bool" where
  "join_of cs \<longleftrightarrow> cs_name cs = None"

lemma columns_done_ready:
  fixes rcs spec cellss outs path db_name
  defines "cols \<equiv> zip (map join_of (ts_col_specs spec)) cellss"
    and "tb \<equiv> hooked_table path db_name spec rcs"
  assumes built: "columns_done outs order tb tb'"
    and order: "distinct order" "set order = {..<length (ts_col_specs spec)}"
    and spec: "columns_ok (ts_col_specs spec)" "ts_row_count spec = sum_list rcs"
    and rcs: "rcs \<noteq> []" "\<forall>rc \<in> set rcs. 0 < rc"
    and len: "length outs = length (ts_col_specs spec)" "length cellss = length (ts_col_specs spec)"
    and cells: "\<And>i. i < length (ts_col_specs spec) \<Longrightarrow>
      lays_out (outs ! i) (join_of (ts_col_specs spec ! i)) rcs (cellss ! i) \<and> length (cellss ! i) = sum_list rcs"
  shows "table_ready tb' (map (block_cols rcs cols) [0..<length rcs])"
    and "map rb_row_count (tb_row_blocks tb') = rcs"
proof -
  let ?n = "length (ts_col_specs spec)"
  have d: "tb_spec tb' = spec" "tb_total tb' = (\<Sum>i < ?n. co_length (outs ! i))" "length (tb_row_blocks tb') = length rcs"
    using built order sum_list_distinct_conv_sum_set [OF order(1), of "\<lambda>i. co_length (outs ! i)"]
    by (simp_all add: columns_done_def tb_def hooked_table_def)
  have db: "rb_row_count (tb_row_blocks tb' ! b) = rcs ! b"
    "rb_total (tb_row_blocks tb' ! b) = (\<Sum>i < ?n. snd (co_spans (outs ! i) ! b))"
    "rb_rowspans (tb_row_blocks tb' ! b) = map (\<lambda>i. fst (co_spans (outs ! i) ! b)) [0..<?n]" if b: "b < length rcs" for b
    using built order b sum_list_distinct_conv_sum_set [OF order(1), of "\<lambda>i. snd (co_spans (outs ! i) ! b)"]
    by (auto simp: columns_done_def tb_def hooked_table_def hook_row_block_def intro!: nth_equalityI)
  have lo: "length (co_spans (outs ! i)) = length rcs"
    "b < length rcs \<Longrightarrow> span_holds (fst (co_spans (outs ! i) ! b)) (join_of (ts_col_specs spec ! i), cut rcs (cellss ! i) ! b)"
    "b < length rcs \<Longrightarrow> snd (co_spans (outs ! i) ! b) = length (terminated (cut rcs (cellss ! i) ! b))"
    "co_length (outs ! i) = (\<Sum>b < length rcs. snd (co_spans (outs ! i) ! b))" if "i < ?n" for i b
    using lays_outD [of "outs ! i" _ rcs "cellss ! i"] cells [OF that] by auto
  show rc: "map rb_row_count (tb_row_blocks tb') = rcs" using d(3) db(1) by (intro nth_equalityI) simp_all
  have bc: "block_cols rcs cols b = map (\<lambda>i. (join_of (ts_col_specs spec ! i), cut rcs (cellss ! i) ! b)) [0..<?n]" for b
    using len(2) by (intro nth_equalityI) (simp_all add: block_cols_def cols_def)
  have "block_ready (ts_col_specs spec) (tb_row_blocks tb' ! b) (block_cols rcs cols b)" if b: "b < length rcs" for b
  proof -
    have "list_all2 span_holds (rb_rowspans (tb_row_blocks tb' ! b)) (block_cols rcs cols b)"
      using lo(2) b by (simp add: db(3) [OF b] bc list_all2_conv_all_nth)
    moreover have "map fst (block_cols rcs cols b) = map (\<lambda>cs. cs_name cs = None) (ts_col_specs spec)"
      by (intro nth_equalityI) (simp_all add: bc join_of_def)
    moreover have "length (cut rcs (cellss ! i) ! b) = rcs ! b" if "i < ?n" for i
      using arg_cong [OF cut_lengths [of rcs "cellss ! i"], of "\<lambda>xs. xs ! b"] cells [OF that] b by simp
    moreover have "rb_total (tb_row_blocks tb' ! b) = terminated_size (block_cols rcs cols b)"
      using lo(3) b by (simp add: db(2) [OF b] bc terminated_size_def comp_def sum_list_sum_nth atLeast0LessThan)
    moreover have "1 \<le> rcs ! b" using rcs(2) b by (simp add: Suc_le_eq)
    ultimately show ?thesis by (auto simp: block_ready_def db(1) [OF b] bc)
  qed
  moreover have "tb_total tb' = sum_list (map rb_total (tb_row_blocks tb'))"
    using lo(4) by (simp add: d(2,3) sum_list_sum_nth atLeast0LessThan db(2)) (rule sum.swap)
  ultimately show "table_ready tb' (map (block_cols rcs cols) [0..<length rcs])"
    using spec rcs(1) d(1,3) rc by (auto simp: table_ready_def list_all2_conv_all_nth)
qed
section \<open>The file\<close>

text \<open>The builders of a table fit its specification and the counter reaches as far as they need.\<close>

definition builds_ok :: "col_build list \<Rightarrow> counter \<Rightarrow> tbl_spec \<Rightarrow> bool" where
  "builds_ok builds c spec \<longleftrightarrow>
     length builds = length (ts_col_specs spec) \<and>
     (\<forall>build \<in> set builds. col_valid build (ts_row_count spec) \<and>
        counter_serves c (col_needs build (ts_row_count spec)))"

lemma builds_ok_builds_to:
  assumes "builds_ok builds c spec" "allocates malloc"
    and "rcs \<noteq> []" "\<forall>rc \<in> set rcs. 0 < rc" "ts_row_count spec = sum_list rcs"
  obtains outs cellss where "builds_to builds malloc c spec rcs outs"
    "length cellss = length (ts_col_specs spec)"
    "\<And>i. i < length (ts_col_specs spec) \<Longrightarrow> col_cells (builds ! i) (ts_row_count spec) (cellss ! i) \<and>
      lays_out (outs ! i) (join_of (ts_col_specs spec ! i)) rcs (cellss ! i) \<and> length (cellss ! i) = sum_list rcs"
proof -
  let ?cols = "zip builds (map join_of (ts_col_specs spec))" and ?n = "length (ts_col_specs spec)"
  have l: "length builds = ?n" using assms(1) by (simp add: builds_ok_def)
  have "\<forall>(s, join) \<in> set ?cols. col_valid s (ts_row_count spec) \<and> counter_serves c (col_needs s (ts_row_count spec))"
    using assms(1) by (auto simp: builds_ok_def dest: set_zip_leftD)
  then obtain outs cellss where
    1: "list_all2 (\<lambda>(s, join) co. build_column s malloc c join (ts_row_count spec) rcs = Some (Inr co)) ?cols outs"
    and 2: "list_all2 (\<lambda>(s, join) cells. col_cells s (ts_row_count spec) cells) ?cols cellss"
    and 3: "list_all2 (\<lambda>co (join, cells). lays_out co join rcs cells \<and> length cells = ts_row_count spec) outs
      (zip (map snd ?cols) cellss)"
    using columns.builds_all [OF _ assms(2-5), of ?cols c] by blast
  have len: "length outs = ?n" "length cellss = ?n"
    using list_all2_lengthD [OF 1] list_all2_lengthD [OF 2] l by simp_all
  have nth: "build_column (builds ! i) malloc c (join_of (ts_col_specs spec ! i)) (ts_row_count spec) rcs = Some (Inr (outs ! i))"
    "col_cells (builds ! i) (ts_row_count spec) (cellss ! i)"
    "lays_out (outs ! i) (join_of (ts_col_specs spec ! i)) rcs (cellss ! i)" "length (cellss ! i) = ts_row_count spec"
    if "i < ?n" for i
    using list_all2_nthD [OF 1, of i] list_all2_nthD [OF 2, of i] list_all2_nthD [OF 3, of i] that l len by auto
  then have "length (co_spans (outs ! i)) = length rcs" if "i < ?n" for i
    using lays_outD(1) [of "outs ! i"] assms(5) that by metis
  then have "builds_to builds malloc c spec rcs outs"
    using nth(1) l len by (simp add: builds_to_def join_of_def)
  then show thesis using nth(2-4) len(2) assms(5) by (intro that [of outs cellss]) simp_all
qed

lemma table_file_generated:
  assumes spec: "columns_ok (ts_col_specs spec)" "0 < ts_row_count spec" and max: "0 < max_rows"
    and builds: "builds_ok builds c spec" and alloc: "allocates malloc"
    and file_alloc: "\<forall>n. \<exists>bytes. file_malloc n = Some bytes \<and> length bytes = n"
    and columns: "distinct column_order" "set column_order = {..<length builds}"
    and blocks: "set block_order = {..<count_blocks max_rows (ts_row_count spec)}"
  shows "\<exists>cellss tb1 tb2 tb3.
    list_all2 (\<lambda>build. col_cells build (ts_row_count spec)) builds cellss \<and>
    run_columns builds malloc c
      (hooked_table path db_name spec (block_row_counts max_rows (ts_row_count spec))) column_order = Some (Inr tb1) \<and>
    build_table_init file_malloc tb1 = Some (Inr tb2) \<and>
    run_row_blocks tb2 block_order = Some tb3 \<and>
    tb_contents tb3 =
      header_text (hooked_table path db_name spec []) @
      rows_text (zip (map join_of (ts_col_specs spec)) cellss) (ts_row_count spec)"
proof -
  let ?rcs = "block_row_counts max_rows (ts_row_count spec)"
  have ne: "?rcs \<noteq> []" by (simp add: block_row_counts_def)
  have pos: "\<forall>rc \<in> set ?rcs. 0 < rc" using block_row_counts_bounds [OF max] by blast
  note sum = block_row_counts_sum [OF max spec(2), symmetric]
  note n = length_block_row_counts [OF max spec(2)]
  note rcs = ne pos sum n
  define tb where "tb = hooked_table path db_name spec ?rcs"
  have tb: "tb_spec tb = spec" "map rb_row_count (tb_row_blocks tb) = ?rcs"
    by (simp_all add: tb_def hooked_table_def hook_row_block_def comp_def)
  obtain outs cellss where o: "builds_to builds malloc c spec ?rcs outs" "length cellss = length (ts_col_specs spec)"
    "\<And>i. i < length (ts_col_specs spec) \<Longrightarrow> col_cells (builds ! i) (ts_row_count spec) (cellss ! i) \<and>
      lays_out (outs ! i) (join_of (ts_col_specs spec ! i)) ?rcs (cellss ! i) \<and> length (cellss ! i) = sum_list ?rcs"
    using builds_ok_builds_to [OF builds alloc rcs(1-3)] by blast
  let ?cols = "zip (map join_of (ts_col_specs spec)) cellss"
  let ?bcols = "map (block_cols ?rcs ?cols) [0..<length ?rcs]"
  have len: "length builds = length (ts_col_specs spec)" "length outs = length (ts_col_specs spec)"
    using o(1) by (simp_all add: builds_to_def)
  obtain tb1 where run: "run_columns builds malloc c tb column_order = Some (Inr tb1)" "columns_done outs column_order tb tb1"
    using run_columns_done [of builds malloc c tb outs column_order] o(1) columns(2) len tb by auto
  have ready: "table_ready tb1 ?bcols" "map rb_row_count (tb_row_blocks tb1) = ?rcs"
    using columns_done_ready [OF run(2) [unfolded tb_def] columns(1) _ spec(1) rcs(3,1,2) len(2) o(2)] o(3) columns(2) len
    by simp_all
  have nb: "length (tb_row_blocks tb1) = length ?rcs" using arg_cong [OF ready(2), of length] by simp
  obtain tb2 tb3 where f: "build_table_init file_malloc tb1 = Some (Inr tb2)" "run_row_blocks tb2 block_order = Some tb3"
    "tb_contents tb3 = table_text tb1 ?bcols"
    using table_file_contents [OF ready(1), of block_order file_malloc] blocks file_alloc nb rcs(4) by metis
  have h: "header_text tb1 = header_text (hooked_table path db_name spec [])"
    using run(2) by (simp add: header_text_def columns_done_def tb_def hooked_table_def)
  have nth: "rb_row_count (tb_row_blocks tb1 ! b) = ?rcs ! b" if "b < length ?rcs" for b
    using arg_cong [OF ready(2), of "\<lambda>xs. xs ! b"] that nb by simp
  have "block_texts (tb_row_blocks tb1) ?bcols = map (\<lambda>b. rows_text (block_cols ?rcs ?cols b) (?rcs ! b)) [0..<length ?rcs]"
    using nb nth by (intro nth_equalityI) (simp_all add: block_texts_def)
  moreover have "\<forall>col \<in> set ?cols. sum_list ?rcs \<le> length (snd col)"
    using o(2,3) by (auto simp: set_zip)
  ultimately have "tb_contents tb3 = header_text (hooked_table path db_name spec []) @ rows_text ?cols (ts_row_count spec)"
    using rows_text_blocks [of ?cols ?rcs] f(3) h rcs(3) by (simp add: table_text_def)
  moreover have "list_all2 (\<lambda>build. col_cells build (ts_row_count spec)) builds cellss"
    using o(2,3) len by (simp add: list_all2_conv_all_nth)
  ultimately show ?thesis using run(1) f(1,2) unfolding tb_def by blast
qed

text \<open>
  C4: the file of a table, from its specification. Whatever order the column tasks run in, and
  whatever order the row block tasks run in after the table is initialised, the file is the header
  followed by one line per row, the cells of the columns separated by commas except where a join
  continues a field; the cells are those the column specifications ask for. Nothing is written
  outside the blocks, and the file fills its block exactly.
\<close>

theorem generated_table_file:
  assumes spec: "columns_ok (ts_col_specs spec)" "0 < ts_row_count spec" and max: "0 < max_rows"
    and builds: "builds_ok builds c spec" and alloc: "allocates malloc"
    and file_alloc: "\<forall>n. \<exists>bytes. file_malloc n = Some bytes \<and> length bytes = n"
    and columns: "distinct column_order" "set column_order = {..<length builds}"
    and blocks: "set block_order = {..<count_blocks max_rows (ts_row_count spec)}"
  shows "\<exists>cellss tb1 tb2 tb3.
    list_all2 (\<lambda>build. col_cells build (ts_row_count spec)) builds cellss \<and>
    run_columns builds malloc c
      (hooked_table path db_name spec (block_row_counts max_rows (ts_row_count spec))) column_order = Some (Inr tb1) \<and>
    build_table_init file_malloc tb1 = Some (Inr tb2) \<and>
    run_row_blocks tb2 block_order = Some tb3 \<and>
    tb_contents tb3 =
      header_text (hooked_table path db_name spec []) @
      rows_text (zip (map join_of (ts_col_specs spec)) cellss) (ts_row_count spec)"
  using assms by (rule table_file_generated)

theorem generated_table_file_witness:
  "let spec = \<lparr>ts_name = ''users'', ts_row_count = 5,
                ts_col_specs = [\<lparr>cs_name = Some ''id''\<rparr>, \<lparr>cs_name = Some ''name''\<rparr>, \<lparr>cs_name = None\<rparr>]\<rparr>;
       builds = [BUILD_U_INTEGER_UNIQUE,
                 BUILD_STRING_UNIQUE_GROUP (string_builder_init ''user_'' 0 5)
                   \<lparr>gs_count = 2, gs_partition = partition_groups_even\<rparr>,
                 BUILD_INTEGER_FIXED (stub_builder_init [CHR ''7'', NUL] 0 2)]
   in \<exists>cellss tb1 tb2 tb3.
        list_all2 (\<lambda>build. col_cells build (ts_row_count spec)) builds cellss \<and>
        run_columns builds zero_alloc (filled_counter 5)
          (hooked_table ''database/d/users.csv'' ''d'' spec (block_row_counts 2 (ts_row_count spec))) [2, 0, 1] =
          Some (Inr tb1) \<and>
        build_table_init (\<lambda>n. Some (replicate n NUL)) tb1 = Some (Inr tb2) \<and>
        run_row_blocks tb2 [1, 2, 0] = Some tb3 \<and>
        tb_contents tb3 =
          header_text (hooked_table ''database/d/users.csv'' ''d'' spec []) @
          rows_text (zip (map join_of (ts_col_specs spec)) cellss) (ts_row_count spec)"
proof -
  have 1: "base_text (string_builder_init ''user_'' 0 5) ''user_''"
    unfolding base_text_def by (intro conjI exI [of _ "[]"]) (simp_all add: numeral_eq_Suc)
  have 2: "splits \<lparr>gs_count = 2, gs_partition = partition_groups_even\<rparr> 5"
    by (rule even.partitioner_splits) simp_all
  have 3: "stub_text (stub_builder_init [CHR ''7'', NUL] 0 2) ''7''"
    unfolding stub_text_def by (intro conjI exI [of _ "[]"]) (simp_all add: CHAR_BUFFER_WIDTH_MAX_def numeral_eq_Suc)
  have 4: "counter_serves (filled_counter 5) k" if "k \<le> 5" for k
    using that by (intro filled_counter_serves) (simp_all add: UPTO_MAX_def)
  have 5: "count_blocks 2 5 = 3" by (simp add: count_blocks_def)
  show ?thesis
    unfolding Let_def
    by (rule generated_table_file)
      (use 1 2 3 4 in \<open>auto simp: columns_ok_def builds_ok_def zero_alloc_allocates 5 lessThan_def\<close>)
qed

end
