(* ===== verification/Put_Number.thy ===== *)
theory Put_Number
  imports Memory
begin

text \<open>
  Printing of integers and pointers, \<open>uint_digit_count\<close> to \<open>put_pointer_id_until\<close> of
  \<open>src/string/string_utils.h\<close>, in the configuration with 64-bit \<open>uintmax_t\<close> and pointers
  (\<open>HAVE_INT_STRING_ATTRS\<close> and \<open>HAVE_PTR_STRING_ATTRS\<close>). The reference is \<open>decimal\<close>.
\<close>

section \<open>Definitions\<close>

definition ten_pow_map :: "uintmax list" where
  "ten_pow_map =
     [1, 10, 100, 1000, 10000, 100000, 1000000, 10000000, 100000000, 1000000000, 10000000000,
      100000000000, 1000000000000, 10000000000000, 100000000000000, 1000000000000000,
      10000000000000000, 100000000000000000, 1000000000000000000, 10000000000000000000]"

definition uint_digit_count :: "uintmax \<Rightarrow> nat" where
  "uint_digit_count n =
     (if n < 10000000000 then
        if n < 100000 then
          if n < 1000 then
            if n < 100 then (if n < 10 then 1 else 2) else 3
          else (if n < 10000 then 4 else 5)
        else
          if n < 100000000 then
            if n < 10000000 then (if n < 1000000 then 6 else 7) else 8
          else (if n < 1000000000 then 9 else 10)
      else
        if n < 1000000000000000 then
          if n < 1000000000000 then (if n < 100000000000 then 11 else 12)
          else (if n < 10000000000000 then 13 else (if n < 100000000000000 then 14 else 15))
        else
          if n < 100000000000000000 then (if n < 10000000000000000 then 16 else 17)
          else (if n < 1000000000000000000 then 18
                else (if n < 10000000000000000000 then 19 else 20)))"

text \<open>The digits are written from the last one back.\<close>

function do_put_uint :: "bytes \<Rightarrow> nat \<Rightarrow> uintmax \<Rightarrow> bytes option" where
  "do_put_uint b buffer n =
     do { b' \<leftarrow> store b buffer (DIGIT_TO_ASCII (unat (n mod 10)));
          let n' = n div 10;
          if n' = 0 then Some b'
          else do { buffer' \<leftarrow> step_back buffer 1; do_put_uint b' buffer' n' } }"
  by pat_completeness auto
termination
  by (relation "measure (\<lambda>(b, buffer, n). buffer)") (auto simp: step_back_def split: if_splits)

declare do_put_uint.simps [simp del]

definition put_uint :: "uintmax \<Rightarrow> put" where
  "put_uint n b buffer =
     do { let until = buffer + uint_digit_count n;
          last \<leftarrow> step_back until 1;
          b' \<leftarrow> do_put_uint b last n;
          Some (b', until) }"

definition put_uint_length :: "uintmax \<Rightarrow> nat \<Rightarrow> put" where
  "put_uint_length n len b buffer =
     (if len = 0 then Some (b, buffer)
      else
        let count_digits = uint_digit_count n;
            (until, n') =
              (if len < count_digits
               then (buffer + len, n div ten_pow_map ! (count_digits - len))
               else (buffer + count_digits, n))
        in do { last \<leftarrow> step_back until 1;
                b' \<leftarrow> do_put_uint b last n';
                Some (b', until) })"

definition put_uint_until :: "uintmax \<Rightarrow> nat \<Rightarrow> put" where
  "put_uint_until n until b buffer =
     (if until < buffer then Some (b, until) else put_uint_length n (until - buffer) b buffer)"

text \<open>
  Signed numbers are read off the same word. \<open>n = -n\<close> overflows for the least value, which is
  undefined behaviour.
\<close>

definition INTMAX_MIN :: "uintmax" where
  "INTMAX_MIN = 0x8000000000000000"

definition negate_int :: "uintmax \<Rightarrow> uintmax option" where
  "negate_int n = (if n = INTMAX_MIN then None else Some (- n))"

definition put_int :: "uintmax \<Rightarrow> put" where
  "put_int n b buffer =
     (if sint n < 0 then
        do { (b', buffer') \<leftarrow> PUT_CHAR CHR ''-'' b buffer; n' \<leftarrow> negate_int n; put_uint n' b' buffer' }
      else put_uint n b buffer)"

definition put_int_length :: "uintmax \<Rightarrow> nat \<Rightarrow> put" where
  "put_int_length n len b buffer =
     (if len = 0 then Some (b, buffer)
      else if sint n < 0 then
        do { (b', buffer') \<leftarrow> PUT_CHAR CHR ''-'' b buffer; n' \<leftarrow> negate_int n;
             put_uint_length n' (len - 1) b' buffer' }
      else put_uint_length n len b buffer)"

definition put_int_until :: "uintmax \<Rightarrow> nat \<Rightarrow> put" where
  "put_int_until n until b buffer =
     (if until < buffer then Some (b, until) else put_int_length n (until - buffer) b buffer)"

section \<open>The digit count\<close>

lemma ten_pow_map_nth: "k < 20 \<Longrightarrow> unat (ten_pow_map ! k) = 10 ^ k"
proof -
  assume "k < 20"
  then have "k \<in> set [0..<20]" by simp
  then show ?thesis by (simp add: upt_rec ten_pow_map_def del: set_upt) (elim disjE; simp)
qed

lemma uint_digit_count_length: "uint_digit_count n = length (decimal (unat n))"
proof -
  have n: "unat n < 18446744073709551616" by (rule unat_uintmax)
  have L: "k = length (decimal (unat n))" if "0 < k" "10 ^ (k - 1) \<le> unat n" "unat n < 10 ^ k" for k
    using that length_decimal_eqI [of "k - 1" "unat n"] by (cases k) simp_all
  have L1: "1 = length (decimal (unat n))" if "unat n < 10" using that by (simp add: decimal_small)
  show ?thesis
    unfolding uint_digit_count_def word_less_nat_alt
    apply ((split if_split, intro conjI impI)+)
                       apply (rule L1; simp)
                      apply (rule L; simp; fail)+
    using n by (intro L) simp_all
qed

section \<open>Correctness of the printers\<close>

lemma do_put_uint_decimal:
  "length old = length (decimal (unat n)) \<Longrightarrow> p + 1 = length xs + length old \<Longrightarrow>
    do_put_uint (xs @ old @ ys) p n = Some (xs @ decimal (unat n) @ ys)"
proof (induction "unat n" arbitrary: n p old ys rule: less_induct)
  case less
  obtain o' c where o: "old = o' @ [c]"
    using less.prems(1) by (metis append_butlast_last_id decimal_nonempty length_0_conv)
  have p: "p = length (xs @ o')" using less.prems(2) o by simp
  have st: "store (xs @ old @ ys) p d = Some (xs @ o' @ d # ys)" for d
    using store_append [of "xs @ o'" c ys d] by (simp add: o p)
  have d: "unat (n div 10) = unat n div 10" "unat (n mod 10) = unat n mod 10"
    by (simp_all add: unat_div unat_mod)
  show ?case
  proof (cases "n div 10 = 0")
    case True
    then have "unat n div 10 = 0" using d(1) by simp
    then have "unat n < 10" by simp
    then have "decimal (unat n) = [DIGIT_TO_ASCII (unat n)]" "unat (n mod 10) = unat n"
      by (simp_all add: decimal_small d)
    with True show ?thesis
      using less.prems(1) st o by (subst do_put_uint.simps) simp
  next
    case False
    then have "unat n div 10 \<noteq> 0" by (metis d(1) unsigned_eq_0_iff)
    then have n: "10 \<le> unat n" by simp
    then have dec: "decimal (unat n) = decimal (unat (n div 10)) @ [DIGIT_TO_ASCII (unat (n mod 10))]"
      by (simp add: decimal_step d)
    have l: "length o' = length (decimal (unat (n div 10)))" using less.prems(1) o dec by simp
    then have p': "step_back p 1 = Some (p - 1)" "p - 1 + 1 = length xs + length o'"
      using p by (simp_all add: step_back_def Suc_le_eq)
    have "unat (n div 10) < unat n" using n by (simp add: d)
    then have "do_put_uint (xs @ o' @ DIGIT_TO_ASCII (unat (n mod 10)) # ys) (p - 1) (n div 10) =
        Some (xs @ decimal (unat (n div 10)) @ DIGIT_TO_ASCII (unat (n mod 10)) # ys)"
      using l p'(2) by (rule less.hyps)
    then show ?thesis
      using False p'(1) by (subst do_put_uint.simps) (simp add: st dec)
  qed
qed

text \<open>Dropping the last \<open>k\<close> digits.\<close>

lemma decimal_div:
  "k < length (decimal n) \<Longrightarrow> decimal (n div 10 ^ k) = take (length (decimal n) - k) (decimal n)"
proof (induction k arbitrary: n)
  case (Suc k)
  show ?case
  proof (cases "n < 10")
    case True
    with Suc.prems show ?thesis by (simp add: decimal_small)
  next
    case False
    then have n: "decimal n = decimal (n div 10) @ [DIGIT_TO_ASCII (n mod 10)]"
      by (simp add: decimal_step)
    then have "k < length (decimal (n div 10))" using Suc.prems by simp
    from Suc.IH [OF this] show ?thesis by (simp add: n div_mult2_eq)
  qed
qed simp

lemma writes_put_uint: "writes (put_uint n) (decimal (unat n))"
proof (rule writesI)
  fix xs old ys :: bytes assume "length old = length (decimal (unat n))"
  then show "put_uint n (xs @ old @ ys) (length xs) =
    Some (xs @ decimal (unat n) @ ys, length xs + length (decimal (unat n)))"
    using do_put_uint_decimal [of old n "length xs + length old - 1" xs ys]
    by (simp add: put_uint_def uint_digit_count_length step_back_def Suc_le_eq)
qed

lemma writes_put_uint_length: "writes (put_uint_length n len) (take len (decimal (unat n)))"
proof (rule writesI)
  fix xs old ys :: bytes
  let ?d = "decimal (unat n)"
  assume l: "length old = length (take len ?d)"
  consider "len = 0" | "len \<noteq> 0" "length ?d \<le> len" | "len \<noteq> 0" "len < length ?d" by linarith
  then show "put_uint_length n len (xs @ old @ ys) (length xs) =
    Some (xs @ take len ?d @ ys, length xs + length (take len ?d))"
  proof cases
    case 1
    then show ?thesis using l by (simp add: put_uint_length_def)
  next
    case 2
    then show ?thesis
      using do_put_uint_decimal [of old n "length xs + length old - 1" xs ys] l
      by (simp add: put_uint_length_def uint_digit_count_length step_back_def Suc_le_eq)
  next
    case 3
    let ?k = "length ?d - len"
    have "unat n \<noteq> 0" using 3 by (cases "unat n = 0") (simp_all add: decimal_small)
    then have "10 ^ (length ?d - 1) \<le> unat n" by (rule length_decimal_lower)
    then have "(10::nat) ^ (length ?d - 1) < 10 ^ 20" using unat_uintmax [of n] by simp
    then have "length ?d - 1 < 20" by (rule power_less_imp_less_exp [rotated]) simp
    then have "?k < 20" using 3 by linarith
    then have "unat (n div ten_pow_map ! ?k) = unat n div 10 ^ ?k"
      by (simp add: unat_div ten_pow_map_nth)
    then have "decimal (unat (n div ten_pow_map ! ?k)) = take len ?d"
      using decimal_div [of ?k "unat n"] 3 by simp
    then show ?thesis
      using do_put_uint_decimal [of old "n div ten_pow_map ! ?k" "length xs + len - 1" xs ys] l 3
      by (simp add: put_uint_length_def uint_digit_count_length step_back_def Suc_le_eq)
  qed
qed

text \<open>The decimal text of a signed number.\<close>

definition decimal_int :: "int \<Rightarrow> string" where
  "decimal_int i = (if i < 0 then CHR ''-'' # decimal (nat (- i)) else decimal (nat i))"

text \<open>
  \<open>put_int\<close> prints every \<open>intmax_t\<close> except the least one as its decimal text; no byte outside
  the text is written.
\<close>

lemma writes_put_int:
  assumes "n \<noteq> INTMAX_MIN"
  shows "writes (put_int n) (decimal_int (sint n))"
proof (cases "sint n < 0")
  case False
  then have "decimal_int (sint n) = decimal (unat n)"
    by (simp add: decimal_int_def nat_sint)
  moreover have "put_int n = put_uint n" using False by (intro ext) (simp add: put_int_def)
  ultimately show ?thesis by (simp add: writes_put_uint)
next
  case True
  have "nat (- sint n) = unat (- n)" using True by (rule nat_minus_sint)
  then have "decimal_int (sint n) = [CHR ''-''] @ decimal (unat (- n))"
    using True by (simp add: decimal_int_def)
  moreover have "put_int n = (\<lambda>b p. do { (b', p') \<leftarrow> PUT_CHAR CHR ''-'' b p; put_uint (- n) b' p' })"
    using True assms by (intro ext) (simp add: put_int_def negate_int_def)
  ultimately show ?thesis
    by (simp only:) (intro writes_bind writes_PUT_CHAR writes_put_uint)
qed

end
