(* ===== verification/String_Parse.thy ===== *)
theory String_Parse
  imports Put_Number
begin

text \<open>
  Comparison and parsing of strings, \<open>string_compare\<close> to \<open>parse_int_stop\<close> of
  \<open>src/string/string_utils.h\<close>. A pointer into a NUL terminated string is the list of the bytes from
  there to the terminator, so advancing is taking the tail and the terminator is the empty list.
\<close>

section \<open>Comparison, prefix and length\<close>

definition deref :: "string \<Rightarrow> char" where
  "deref s = (case s of [] \<Rightarrow> NUL | c # _ \<Rightarrow> c)"

text \<open>\<open>char\<close> is signed; \<open>string_compare\<close> converts to \<open>unsigned int\<close> and back to \<open>int\<close>.\<close>

definition schar :: "char \<Rightarrow> int" where
  "schar c = (let n = of_char c :: nat in if n < 128 then int n else int n - 256)"

fun string_compare :: "string \<Rightarrow> string \<Rightarrow> int" where
  "string_compare s t =
     (if deref s \<noteq> deref t then schar (deref s) - schar (deref t)
      else (case (s, t) of (_ # s', _ # t') \<Rightarrow> string_compare s' t' | _ \<Rightarrow> 0))"

declare string_compare.simps [simp del]

fun strings_equal :: "string \<Rightarrow> string \<Rightarrow> bool" where
  "strings_equal [] t = (t = [])"
| "strings_equal (c # s) t = (case t of [] \<Rightarrow> False | d # t' \<Rightarrow> if c \<noteq> d then False else strings_equal s t')"

text \<open>The rest of the first string after the second, or \<open>NULL\<close>.\<close>

fun string_starts_with :: "string \<Rightarrow> string \<Rightarrow> string option" where
  "string_starts_with s [] = Some s"
| "string_starts_with [] (d # t) = None"
| "string_starts_with (c # s) (d # t) = (if c \<noteq> d then None else string_starts_with s t)"

fun string_length :: "string \<Rightarrow> nat" where
  "string_length [] = 0"
| "string_length (c # s) = Suc (string_length s)"

definition string_size :: "string \<Rightarrow> nat" where
  "string_size s = string_length s + 1"

text \<open>The size within a limit; zero is the error.\<close>

fun size_within :: "nat \<Rightarrow> string \<Rightarrow> nat \<Rightarrow> nat" where
  "size_within n s 0 = 0"
| "size_within n [] (Suc limit) = n + 1"
| "size_within n (c # s) (Suc limit) = size_within (n + 1) s limit"

definition string_size_limit :: "string \<Rightarrow> nat \<Rightarrow> nat" where
  "string_size_limit s limit = size_within 0 s limit"

lemma strings_equal_eq: "strings_equal s t \<longleftrightarrow> s = t"
  by (induction s t rule: strings_equal.induct) (auto split: list.splits)

lemma string_starts_with_iff: "string_starts_with s t = Some r \<longleftrightarrow> s = t @ r"
  by (induction s t rule: string_starts_with.induct) auto

lemma string_length_length [simp]: "string_length s = length s"
  by (induction s) auto

lemma string_size_limit_eq: "string_size_limit s limit = (if length s < limit then length s + 1 else 0)"
proof -
  have "size_within n s limit = (if length s < limit then n + length s + 1 else 0)" for n
    by (induction n s limit rule: size_within.induct) auto
  then show ?thesis by (simp add: string_size_limit_def)
qed

section \<open>Parsing\<close>

text \<open>
  \<open>do_parse_uint\<close> and \<open>do_parse_uint_stop\<close> share their text but for two tests: \<open>stops\<close> ends the
  digits, \<open>rejects\<close> is the last test on a number of maximal length. Skipping the zeros either ends
  the number (\<open>Inl\<close> the end pointer) or leaves the first other byte.
\<close>

fun skip_zeros :: "(string \<Rightarrow> bool) \<Rightarrow> string \<Rightarrow> string + string" where
  "skip_zeros stops [] = Inr []"
| "skip_zeros stops (c # s) =
     (if c = CHR ''0'' then (if stops s then Inl s else skip_zeros stops s) else Inr (c # s))"

text \<open>The scanning loop; \<open>s\<close> is the string after the digit counted last.\<close>

fun scan_digits ::
  "(string \<Rightarrow> bool) \<Rightarrow> (string \<Rightarrow> bool) \<Rightarrow> nat \<Rightarrow> string \<Rightarrow> string \<Rightarrow> nat \<Rightarrow> string \<Rightarrow> (nat \<times> string) option" where
  "scan_digits stops rejects digit_count_max max_string start_ptr count_digits s =
     (if stops s then Some (count_digits, s)
      else (case s of
          [] \<Rightarrow> None
        | d # s' \<Rightarrow>
            if \<not> is_digit d then None
            else if Suc count_digits = digit_count_max then
              if string_compare start_ptr max_string > 0 then None
              else if rejects s' then None
              else Some (Suc count_digits, s')
            else scan_digits stops rejects digit_count_max max_string start_ptr (Suc count_digits) s'))"

declare scan_digits.simps [simp del]

text \<open>The value is summed from the last digit back; \<open>i\<close> indexes \<open>ten_pow_map\<close>.\<close>

fun sum_digits :: "uintmax \<Rightarrow> nat \<Rightarrow> string \<Rightarrow> uintmax" where
  "sum_digits n i [] = n"
| "sum_digits n i (c # cs) =
     sum_digits (n + of_nat (ASCII_TO_DIGIT c) * ten_pow_map ! i) (Suc i) cs"

definition parse_digits ::
  "(string \<Rightarrow> bool) \<Rightarrow> (string \<Rightarrow> bool) \<Rightarrow> nat \<Rightarrow> string \<Rightarrow> string \<Rightarrow> (uintmax \<times> string) option" where
  "parse_digits stops rejects digit_count_max max_string string =
     (case skip_zeros stops string of
        Inl end_ptr \<Rightarrow> Some (0, end_ptr)
      | Inr start_ptr \<Rightarrow>
          (if \<not> is_digit (deref start_ptr) then None
           else do { (count_digits, end_ptr) \<leftarrow>
                       scan_digits stops rejects digit_count_max max_string start_ptr 1 (tl start_ptr);
                     let digits = rev (take count_digits start_ptr);
                     Some (sum_digits (of_nat (ASCII_TO_DIGIT (hd digits))) 1 (tl digits), end_ptr) }))"

definition do_parse_uint :: "string \<Rightarrow> nat \<Rightarrow> string \<Rightarrow> (uintmax \<times> string) option" where
  "do_parse_uint string digit_count_max max_string =
     parse_digits (\<lambda>s. s = []) (\<lambda>s. s \<noteq> []) digit_count_max max_string string"

definition do_parse_uint_stop :: "string \<Rightarrow> char \<Rightarrow> nat \<Rightarrow> string \<Rightarrow> (uintmax \<times> string) option" where
  "do_parse_uint_stop string stop digit_count_max max_string =
     parse_digits (\<lambda>s. deref s = stop \<or> s = []) (\<lambda>s. deref s \<noteq> stop \<or> s \<noteq> [])
       digit_count_max max_string string"

definition DIGIT_STRING_UINTMAX_MAX :: string where
  "DIGIT_STRING_UINTMAX_MAX = ''18446744073709551615''"

definition DIGIT_STRING_INTMAX_MAX :: string where
  "DIGIT_STRING_INTMAX_MAX = ''9223372036854775807''"

definition DIGIT_STRING_INTMAX_MIN :: string where
  "DIGIT_STRING_INTMAX_MIN = ''9223372036854775808''"

definition parse_uint :: "string \<Rightarrow> (uintmax \<times> string) option" where
  "parse_uint string = do_parse_uint string 20 DIGIT_STRING_UINTMAX_MAX"

text \<open>
  The result of \<open>parse_int\<close> is \<^term>\<open>None\<close> when the negation \<open>*n = -( *n)\<close> overflows (undefined
  behaviour), \<^term>\<open>Some None\<close> for \<open>NULL\<close>.
\<close>

definition negated :: "(uintmax \<times> string) option \<Rightarrow> (uintmax \<times> string) option option" where
  "negated r = (case r of None \<Rightarrow> Some None
     | Some (n, end_ptr) \<Rightarrow> map_option (\<lambda>m. Some (m, end_ptr)) (negate_int n))"

definition parse_int :: "string \<Rightarrow> (uintmax \<times> string) option option" where
  "parse_int string =
     (if deref string = CHR ''-'' then negated (do_parse_uint (tl string) 19 DIGIT_STRING_INTMAX_MIN)
      else Some (do_parse_uint string 19 DIGIT_STRING_INTMAX_MAX))"

definition parse_uint_stop :: "string \<Rightarrow> char \<Rightarrow> (uintmax \<times> string) option" where
  "parse_uint_stop string stop = do_parse_uint_stop string stop 20 DIGIT_STRING_UINTMAX_MAX"

definition parse_int_stop :: "string \<Rightarrow> char \<Rightarrow> (uintmax \<times> string) option option" where
  "parse_int_stop string stop =
     (if deref string = CHR ''-''
      then negated (do_parse_uint_stop (tl string) stop 19 DIGIT_STRING_INTMAX_MIN)
      else Some (do_parse_uint_stop string stop 19 DIGIT_STRING_INTMAX_MAX))"

section \<open>Comparison is comparison of values\<close>

lemma string_compare_simps [simp]:
  "string_compare [] [] = 0"
  "c \<noteq> d \<Longrightarrow> string_compare (c # s) (d # t) = schar c - schar d"
  "string_compare (c # s) (c # t) = string_compare s t"
  by (subst string_compare.simps; simp add: deref_def)+

lemma schar_DIGIT: "d < 10 \<Longrightarrow> schar (DIGIT_TO_ASCII d) = int d + 48"
  by (simp add: schar_def digit_simps Let_def)

lemma string_compare_digits:
  assumes "length s = length t" "\<forall>c \<in> set s. is_digit c" "\<forall>c \<in> set t. is_digit c"
  shows "string_compare s t > 0 \<longleftrightarrow> dec_value t < dec_value s"
  using assms
proof (induction s t rule: list_induct2)
  case Nil
  then show ?case by simp
next
  case (Cons c s d t)
  obtain e where e: "e < 10" "c = DIGIT_TO_ASCII e" using Cons.prems by (auto elim: is_digit_obtain)
  obtain f where f: "f < 10" "d = DIGIT_TO_ASCII f" using Cons.prems by (auto elim: is_digit_obtain)
  have v: "dec_value (DIGIT_TO_ASCII g # u) = g * 10 ^ length u + dec_value u" if "g < 10" for g u
    using dec_value_append [of "[DIGIT_TO_ASCII g]" u] that by (simp add: dec_value_def digit_simps)
  have b: "dec_value s < 10 ^ length s" "dec_value t < 10 ^ length s"
    using dec_value_bound [of s] dec_value_bound [of t] Cons by auto
  consider "e = f" | "e < f" | "f < e" by linarith
  then show ?case
  proof cases
    case 1
    then show ?thesis using Cons e f v by simp
  next
    case 2
    then have "e * 10 ^ length s + 10 ^ length s \<le> f * 10 ^ length s"
      using mult_right_mono [of "Suc e" f "10 ^ length s"] by simp
    then have "\<not> dec_value (d # t) < dec_value (c # s)" using v e f b Cons.hyps by simp
    moreover have "c \<noteq> d" using 2 e f ASCII_TO_DIGIT_inverse [of e] ASCII_TO_DIGIT_inverse [of f] by auto
    ultimately show ?thesis using 2 e f by (simp add: schar_DIGIT)
  next
    case 3
    then have "f * 10 ^ length s + 10 ^ length s \<le> e * 10 ^ length s"
      using mult_right_mono [of "Suc f" e "10 ^ length s"] by simp
    then have "dec_value (d # t) < dec_value (c # s)" using v e f b Cons.hyps by simp
    moreover have "c \<noteq> d" using 3 e f ASCII_TO_DIGIT_inverse [of e] ASCII_TO_DIGIT_inverse [of f] by auto
    ultimately show ?thesis using 3 e f by (simp add: schar_DIGIT)
  qed
qed

section \<open>The sum of the digits\<close>

lemma sum_digits_value:
  assumes "i + length cs \<le> 20"
  shows "sum_digits (of_nat a) i cs = of_nat (a + 10 ^ i * dec_value (rev cs))"
  using assms
proof (induction cs arbitrary: a i)
  case (Cons c cs)
  then have "i < 20" by simp
  then have "ten_pow_map ! i = of_nat (10 ^ i)"
    by (metis ten_pow_map_nth of_nat_unat ucast_id)
  then have "sum_digits (of_nat a) i (c # cs) = sum_digits (of_nat (a + ASCII_TO_DIGIT c * 10 ^ i)) (Suc i) cs"
    by simp
  also have "\<dots> = of_nat (a + ASCII_TO_DIGIT c * 10 ^ i + 10 ^ Suc i * dec_value (rev cs))"
    using Cons.prems by (intro Cons.IH) simp
  also have "a + ASCII_TO_DIGIT c * 10 ^ i + 10 ^ Suc i * dec_value (rev cs) =
    a + 10 ^ i * dec_value (rev (c # cs))"
    by (simp add: algebra_simps)
  finally show ?case .
qed simp

lemma sum_digits_all:
  assumes "ds \<noteq> []" "length ds \<le> 20"
  shows "sum_digits (of_nat (ASCII_TO_DIGIT (hd (rev ds)))) 1 (tl (rev ds)) = of_nat (dec_value ds)"
proof -
  obtain es c where ds: "ds = es @ [c]" using assms(1) by (metis append_butlast_last_id)
  then show ?thesis using sum_digits_value [of 1 "rev es" "ASCII_TO_DIGIT c"] assms(2) by simp
qed

section \<open>Scanning\<close>

lemma is_digit_NUL [simp]: "\<not> is_digit NUL"
  by (simp add: is_digit_def)

lemma deref_Cons [simp]: "deref (c # s) = c"
  by (simp add: deref_def)

lemma deref_Nil [simp]: "deref [] = NUL"
  by (simp add: deref_def)

text \<open>Fewer digits than the maximum, then a stop: they are all counted.\<close>

lemma scan_digits_short:
  assumes "\<forall>c \<in> set ds. is_digit c \<and> (\<forall>s. \<not> stops (c # s))" "stops rest"
    and "n + length ds < digit_count_max"
  shows "scan_digits stops rejects digit_count_max max_string start n (ds @ rest) = Some (n + length ds, rest)"
  using assms
proof (induction ds arbitrary: n)
  case Nil
  then show ?case by (subst scan_digits.simps) simp
next
  case (Cons d ds)
  then show ?case by (subst scan_digits.simps) simp
qed

lemma scan_digits_max:
  assumes "\<forall>c \<in> set ds. is_digit c \<and> (\<forall>s. \<not> stops (c # s))" "ds \<noteq> []"
    and "n + length ds = digit_count_max"
  shows "scan_digits stops rejects digit_count_max max_string start n (ds @ rest) =
    (if string_compare start max_string > 0 \<or> rejects rest then None else Some (digit_count_max, rest))"
  using assms
proof (induction ds arbitrary: n)
  case (Cons d ds)
  show ?case
  proof (cases "ds = []")
    case True
    then show ?thesis using Cons.prems by (subst scan_digits.simps) simp
  next
    case False
    then have "Suc n \<noteq> digit_count_max" using Cons.prems(3) by (cases ds) simp_all
    then show ?thesis using False Cons.prems Cons.IH [of "Suc n"] by (subst scan_digits.simps) simp
  qed
qed simp

text \<open>A byte that is neither a digit nor a stop ends in \<open>NULL\<close>.\<close>

lemma scan_digits_bad:
  assumes "\<forall>c \<in> set ds. is_digit c \<and> (\<forall>s. \<not> stops (c # s))" "\<not> is_digit (deref rest)" "\<not> stops rest"
    and "n + length ds < digit_count_max"
  shows "scan_digits stops rejects digit_count_max max_string start n (ds @ rest) = None"
  using assms
proof (induction ds arbitrary: n)
  case Nil
  then show ?case by (cases rest; subst scan_digits.simps; simp)
next
  case (Cons d ds)
  then show ?case by (subst scan_digits.simps) simp
qed

section \<open>What is accepted\<close>

lemma skip_zeros_split:
  assumes "\<And>s. \<not> stops (CHR ''0'' # s)" "deref t \<noteq> CHR ''0''"
  shows "skip_zeros stops (replicate k (CHR ''0'') @ t) = (if 0 < k \<and> stops t then Inl t else Inr t)"
proof (induction k)
  case 0
  then show ?case using assms(2) by (cases t) simp_all
next
  case (Suc k)
  then show ?case using assms by (cases k) auto
qed

lemma split_zeros:
  obtains k t where "s = replicate k (CHR ''0'') @ t" "deref t \<noteq> CHR ''0''"
proof (induction s arbitrary: thesis)
  case Nil
  show ?case by (rule Nil [of 0 "[]"]) simp_all
next
  case (Cons c s)
  show ?case
  proof (cases "c = CHR ''0''")
    case True
    obtain k t where "s = replicate k (CHR ''0'') @ t" "deref t \<noteq> CHR ''0''" using Cons.IH by blast
    then show ?thesis using True Cons.prems [of "Suc k" t] by simp
  next
    case False
    then show ?thesis by (intro Cons.prems [of 0 "c # s"]) simp_all
  qed
qed

lemma dec_value_zeros [simp]: "dec_value (replicate k (CHR ''0'') @ t) = dec_value t"
  by (induction k) (simp_all add: dec_value_Cons digit_simps)

lemma dec_value_zeros' [simp]: "dec_value (replicate k (CHR ''0'')) = 0"
  using dec_value_zeros [of k "[]"] by simp

lemma is_digit_zero [simp]: "is_digit (CHR ''0'')"
  by (simp add: is_digit_def)

text \<open>The shared part: after the zeros, a run \<open>ds\<close> of digits and then the rest.\<close>

lemma parse_digits_run:
  assumes stops: "\<And>c s. is_digit c \<Longrightarrow> \<not> stops (c # s)" and ds: "\<forall>c \<in> set (d # ds). is_digit c" "d \<noteq> CHR ''0''"
    and r: "scan_digits stops rejects digit_count_max max_string (d # ds @ rest) 1 (ds @ rest) = r"
    and n: "\<And>n e. r = Some (n, e) \<Longrightarrow> 0 < n \<and> n \<le> Suc (length ds) \<and> n \<le> 20"
  shows "parse_digits stops rejects digit_count_max max_string (replicate k (CHR ''0'') @ d # ds @ rest) =
    (case r of None \<Rightarrow> None | Some (n, e) \<Rightarrow> Some (of_nat (dec_value (take n (d # ds))), e))"
proof -
  have "skip_zeros stops (replicate k (CHR ''0'') @ d # ds @ rest) = Inr (d # ds @ rest)"
    using skip_zeros_split [of stops "d # ds @ rest" k] stops ds by auto
  moreover have "take n (d # ds @ rest) = take n (d # ds)" if "n \<le> Suc (length ds)" for n
    using that by (cases n) simp_all
  ultimately show ?thesis
    using ds r n sum_digits_all
    by (auto simp: parse_digits_def split: option.splits)
qed

lemma dec_value_lower:
  assumes "is_digit d" "d \<noteq> CHR ''0''"
  shows "10 ^ length ds \<le> dec_value (d # ds)"
proof -
  obtain e where e: "e < 10" "d = DIGIT_TO_ASCII e" using assms(1) by (rule is_digit_obtain)
  then have "e \<noteq> 0" using assms(2) by (cases "e = 0") (simp_all add: digit_simps)
  then have "1 * 10 ^ length ds \<le> e * 10 ^ length ds" by (intro mult_right_mono) auto
  then show ?thesis
    unfolding dec_value_Cons using e by (simp add: digit_simps trans_le_add1)
qed

text \<open>
  \<open>do_parse_uint\<close> accepts exactly the non-empty digit strings whose value is at most the maximum,
  with any number of leading zeros, and returns the value and the end of the string.
\<close>

lemma do_parse_uint_eq:
  assumes m: "max_string \<noteq> []" "\<forall>c \<in> set max_string. is_digit c" "deref max_string \<noteq> CHR ''0''"
    and l: "length max_string = digit_count_max" "2 \<le> digit_count_max" "digit_count_max \<le> 20"
  shows "do_parse_uint s digit_count_max max_string =
    (if s \<noteq> [] \<and> (\<forall>c \<in> set s. is_digit c) \<and> dec_value s \<le> dec_value max_string
     then Some (of_nat (dec_value s), []) else None)"
proof -
  let ?stops = "\<lambda>s::string. s = []" and ?rejects = "\<lambda>s::string. s \<noteq> []"
  let ?M = "dec_value max_string"
  have M: "10 ^ (digit_count_max - 1) \<le> ?M"
    using m l dec_value_lower [of "hd max_string" "tl max_string"] by (cases max_string) auto
  have Mu: "?M < 10 ^ digit_count_max" using dec_value_bound [OF m(2)] l by simp
  obtain k t where s: "s = replicate k (CHR ''0'') @ t" "deref t \<noteq> CHR ''0''" by (rule split_zeros)
  have sk: "skip_zeros ?stops s = (if 0 < k \<and> t = [] then Inl t else Inr t)"
    unfolding s(1) by (rule skip_zeros_split) (simp_all add: s(2))
  consider "t = []" | d u where "t = d # u" "\<not> is_digit d" | d u where "t = d # u" "is_digit d"
    by (cases t) auto
  then show ?thesis
  proof cases
    case 1
    then show ?thesis using sk s(1) by (auto simp: do_parse_uint_def parse_digits_def)
  next
    case 2
    then show ?thesis using sk by (auto simp: do_parse_uint_def parse_digits_def s(1))
  next
    case 3
    define ds rest where "ds = takeWhile is_digit u" and "rest = dropWhile is_digit u"
    have u: "u = ds @ rest" by (simp add: ds_def rest_def)
    have dds: "\<forall>c \<in> set (d # ds). is_digit c" using 3 by (auto simp: ds_def dest: set_takeWhileD)
    have ds: "\<forall>c \<in> set ds. is_digit c \<and> (\<forall>s. \<not> ?stops (c # s))" using dds by simp
    have rest: "\<not> is_digit (deref rest)"
      unfolding rest_def by (induction u) simp_all
    have d0: "d \<noteq> CHR ''0''" using s(2) 3 by simp
    have s': "s = replicate k (CHR ''0'') @ d # ds @ rest" using s(1) 3 u by simp
    define r where "r = scan_digits ?stops ?rejects digit_count_max max_string (d # ds @ rest) 1 (ds @ rest)"
    note run = parse_digits_run [of ?stops d ds ?rejects digit_count_max max_string rest r k, OF _ dds d0 r_def [symmetric]]
    have lo: "10 ^ length ds \<le> dec_value (d # ds)" using dds d0 by (intro dec_value_lower) auto
    have hi: "dec_value (d # ds) < 10 ^ Suc (length ds)" using dec_value_bound [OF dds] by simp
    have all: "(\<forall>c \<in> set s. is_digit c) \<longleftrightarrow> rest = []"
      using rest dds by (cases rest) (auto simp: s')
    consider "rest \<noteq> []" "Suc (length ds) < digit_count_max" | "rest = []" "Suc (length ds) < digit_count_max"
      | "rest = []" "Suc (length ds) = digit_count_max"
      | d1 d2 where "ds = d1 @ d2" "Suc (length d1) = digit_count_max" "d2 @ rest \<noteq> []"
        "digit_count_max \<le> Suc (length ds)"
    proof -
      have "\<exists>d1 d2. ds = d1 @ d2 \<and> Suc (length d1) = digit_count_max" if "digit_count_max \<le> Suc (length ds)"
        using that l(2) by (intro exI [of _ "take (digit_count_max - 1) ds"]
            exI [of _ "drop (digit_count_max - 1) ds"]) auto
      then show ?thesis using that by (metis append_Nil2 append_is_Nil_conv not_le le_neq_implies_less)
    qed
    then show ?thesis
    proof cases
      case 1
      then have "r = None"
        using scan_digits_bad [of ds ?stops rest 1 digit_count_max ?rejects max_string "d # ds @ rest"] ds rest
        by (simp add: r_def)
      then show ?thesis using run all 1 by (simp add: do_parse_uint_def s')
    next
      case 2
      then have r: "r = Some (Suc (length ds), [])"
        using scan_digits_short [of ds ?stops rest 1 digit_count_max ?rejects max_string "d # ds @ rest"] ds
        by (simp add: r_def)
      have "(10::nat) ^ Suc (length ds) \<le> 10 ^ (digit_count_max - 1)"
        using 2 by (intro power_increasing) auto
      then have "dec_value (d # ds) \<le> ?M" using hi M by linarith
      then show ?thesis using run r all 2 l by (simp add: do_parse_uint_def s')
    next
      case 3
      then have "ds \<noteq> []" using l by auto
      then have r: "r = (if string_compare (d # ds) max_string > 0 then None else Some (digit_count_max, []))"
        using scan_digits_max [of ds ?stops 1 digit_count_max ?rejects max_string "d # ds @ rest" rest] ds 3
        by (simp add: r_def)
      have "string_compare (d # ds) max_string > 0 \<longleftrightarrow> ?M < dec_value (d # ds)"
        using dds m l 3 by (intro string_compare_digits) auto
      then show ?thesis using run r all 3 l by (auto simp: do_parse_uint_def s')
    next
      case 4
      then have "d1 \<noteq> []" using l by auto
      then have r: "r = None"
        using scan_digits_max [of d1 ?stops 1 digit_count_max ?rejects max_string "d # ds @ rest" "d2 @ rest"] ds 4
        by (auto simp: r_def)
      have "?M < dec_value (d # ds)" if "rest = []"
      proof -
        have "digit_count_max \<le> length ds" using 4 that by (cases d2) auto
        then have "(10::nat) ^ digit_count_max \<le> 10 ^ length ds" by (intro power_increasing) auto
        then show ?thesis using Mu lo by linarith
      qed
      then show ?thesis using run r all by (auto simp: do_parse_uint_def s')
    qed
  qed
qed

lemma max_strings:
  "dec_value DIGIT_STRING_UINTMAX_MAX = 18446744073709551615"
  "dec_value DIGIT_STRING_INTMAX_MAX = 9223372036854775807"
  "dec_value DIGIT_STRING_INTMAX_MIN = 9223372036854775808"
  by (simp_all add: DIGIT_STRING_UINTMAX_MAX_def DIGIT_STRING_INTMAX_MAX_def DIGIT_STRING_INTMAX_MIN_def
      dec_value_def digit_simps)

lemma max_strings_digits:
  "DIGIT_STRING_UINTMAX_MAX \<noteq> []" "\<forall>c \<in> set DIGIT_STRING_UINTMAX_MAX. is_digit c"
  "deref DIGIT_STRING_UINTMAX_MAX \<noteq> CHR ''0''" "length DIGIT_STRING_UINTMAX_MAX = 20"
  "DIGIT_STRING_INTMAX_MAX \<noteq> []" "\<forall>c \<in> set DIGIT_STRING_INTMAX_MAX. is_digit c"
  "deref DIGIT_STRING_INTMAX_MAX \<noteq> CHR ''0''" "length DIGIT_STRING_INTMAX_MAX = 19"
  "DIGIT_STRING_INTMAX_MIN \<noteq> []" "\<forall>c \<in> set DIGIT_STRING_INTMAX_MIN. is_digit c"
  "deref DIGIT_STRING_INTMAX_MIN \<noteq> CHR ''0''" "length DIGIT_STRING_INTMAX_MIN = 19"
  by (simp_all add: DIGIT_STRING_UINTMAX_MAX_def DIGIT_STRING_INTMAX_MAX_def DIGIT_STRING_INTMAX_MIN_def
      is_digit_def)

lemma parse_uint_eq:
  "parse_uint s =
    (if s \<noteq> [] \<and> (\<forall>c \<in> set s. is_digit c) \<and> dec_value s < 2 ^ 64
     then Some (of_nat (dec_value s), []) else None)"
  using do_parse_uint_eq [OF max_strings_digits(1-4), of s] by (auto simp: parse_uint_def max_strings)

lemma do_parse_uint_int_eq:
  "do_parse_uint s 19 DIGIT_STRING_INTMAX_MAX =
    (if s \<noteq> [] \<and> (\<forall>c \<in> set s. is_digit c) \<and> dec_value s < 2 ^ 63
     then Some (of_nat (dec_value s), []) else None)"
  "do_parse_uint s 19 DIGIT_STRING_INTMAX_MIN =
    (if s \<noteq> [] \<and> (\<forall>c \<in> set s. is_digit c) \<and> dec_value s \<le> 2 ^ 63
     then Some (of_nat (dec_value s), []) else None)"
  using do_parse_uint_eq [OF max_strings_digits(5-8), of s] do_parse_uint_eq [OF max_strings_digits(9-12), of s]
  by (auto simp: max_strings)

lemma parse_uint_decimal: "parse_uint (decimal (unat n)) = Some (n, [])"
  using unat_uintmax [of n] by (auto simp: parse_uint_eq decimal_digits)

text \<open>
  C24: \<open>parse_uint\<close> accepts exactly the non-empty strings of digits, leading zeros allowed, whose value
  fits \<open>uintmax_t\<close>, and returns that value and the end of the string: no overflow is missed and no
  representable number is refused.
\<close>

theorem parse_uint_accepts:
  "parse_uint s =
    (if s \<noteq> [] \<and> list_all is_digit s \<and> dec_value s < 2 ^ 64
     then Some (of_nat (dec_value s), []) else None)"
  unfolding parse_uint_eq list_all_iff by (rule refl)

text \<open>
  Printing with \<open>put_uint\<close> and parsing with \<open>parse_uint\<close> is the identity on every 64-bit value.
\<close>

theorem put_parse_uint_roundtrip: "\<exists>s. writes (put_uint n) s \<and> parse_uint s = Some (n, [])"
  using writes_put_uint parse_uint_decimal by blast

text \<open>
  \<open>parse_int\<close> reads back every \<open>intmax_t\<close> that \<open>put_int\<close> prints; the text of the least value
  makes the negation overflow, which is undefined behaviour.
\<close>

theorem parse_int_decimal_int:
  "parse_int (decimal_int (sint n)) = (if n = INTMAX_MIN then None else Some (Some (n, [])))"
proof (cases "sint n < 0")
  case True
  have d: "decimal_int (sint n) = CHR ''-'' # decimal (unat (- n))"
    using True by (simp add: decimal_int_def nat_minus_sint)
  have "- sint n \<le> 2 ^ 63" using sint_greater_eq [of n] by simp
  then have "unat (- n) \<le> 2 ^ 63" using nat_minus_sint [OF True] by simp
  then have "do_parse_uint (decimal (unat (- n))) 19 DIGIT_STRING_INTMAX_MIN = Some (- n, [])"
    by (auto simp: do_parse_uint_int_eq decimal_digits)
  moreover have "- INTMAX_MIN = INTMAX_MIN" by (simp add: INTMAX_MIN_def)
  then have "- n = INTMAX_MIN \<longleftrightarrow> n = INTMAX_MIN" by (metis add.inverse_inverse)
  ultimately show ?thesis
    by (simp add: parse_int_def d negated_def negate_int_def)
next
  case False
  then have d: "decimal_int (sint n) = decimal (unat n)" by (simp add: decimal_int_def nat_sint)
  have "sint n < 2 ^ 63" using sint_less [of n] by simp
  then have "unat n < 2 ^ 63" using nat_sint [OF False] False by simp
  then have p: "do_parse_uint (decimal (unat n)) 19 DIGIT_STRING_INTMAX_MAX = Some (n, [])"
    by (auto simp: do_parse_uint_int_eq decimal_digits)
  have "deref (decimal (unat n)) \<noteq> CHR ''-''"
    using decimal_digits [of "deref (decimal (unat n))" "unat n"]
    by (cases "decimal (unat n)") (auto simp: is_digit_def)
  moreover have "n \<noteq> INTMAX_MIN" using False by (auto simp: INTMAX_MIN_def)
  ultimately show ?thesis using p by (simp add: parse_int_def d)
qed

text \<open>
  \<open>parse_uint_stop\<close> refuses every number of twenty or more significant digits, even those that
  fit \<open>uintmax_t\<close>: its last test demands that the byte after the twentieth digit is at once the stop
  byte and the terminator.
\<close>

theorem parse_uint_stop_refuses_twenty:
  assumes "stop \<noteq> NUL" "\<not> is_digit stop" "20 \<le> length ds" "list_all is_digit ds" "hd ds \<noteq> CHR ''0''"
  shows "parse_uint_stop (ds @ stop # rest) stop = None"
proof -
  let ?stops = "\<lambda>s. deref s = stop \<or> s = []" and ?rejects = "\<lambda>s. deref s \<noteq> stop \<or> s \<noteq> []"
  define d d1 d2 where "d = hd ds" and "d1 = take 19 (tl ds)" and "d2 = drop 19 (tl ds)"
  have ds: "ds = d # d1 @ d2" "length d1 = 19"
    using assms(3) by (cases ds; auto simp: d_def d1_def d2_def)+
  have dig: "\<forall>c \<in> set (d # d1 @ d2). is_digit c" "d \<noteq> CHR ''0''"
    using assms(4,5) ds by (simp_all add: list_all_iff)
  have "scan_digits ?stops ?rejects 20 DIGIT_STRING_UINTMAX_MAX (d # (d1 @ d2) @ stop # rest) 1
    (d1 @ d2 @ stop # rest) = None"
    using dig ds(2) assms(1,2) by (subst scan_digits_max) auto
  then have "parse_digits ?stops ?rejects 20 DIGIT_STRING_UINTMAX_MAX
    (replicate 0 (CHR ''0'') @ d # (d1 @ d2) @ stop # rest) = None"
    using assms(2) dig by (subst parse_digits_run [where r = None]) auto
  then show ?thesis by (simp add: parse_uint_stop_def do_parse_uint_stop_def ds(1))
qed

theorem parse_uint_stop_refuses_twenty_witness:
  "CHR '' '' \<noteq> NUL \<and> parse_uint_stop (DIGIT_STRING_UINTMAX_MAX @ CHR '' '' # ''x'') (CHR '' '') = None"
proof
  show "parse_uint_stop (DIGIT_STRING_UINTMAX_MAX @ CHR '' '' # ''x'') (CHR '' '') = None"
    by (rule parse_uint_stop_refuses_twenty) (simp_all add: DIGIT_STRING_UINTMAX_MAX_def is_digit_def)
qed simp

end
