(* ===== verification/Put_Hex.thy ===== *)
theory Put_Hex
  imports Prelude
begin

text \<open>
  Hexadecimal output, \<open>put_octet_hex_lower\<close> to \<open>put_word_hex_upper\<close> of
  \<open>src/string/string_utils.h\<close>: a \<open>switch\<close> with 255 cases and a default per letter case, here the
  list of the literals by octet, and the eight octets of a word from the lowest up. The lemmas show
  that the tables hold no misprint and that a word can be read back.
\<close>

definition hex_lower_cases :: "string list" where
  "hex_lower_cases =
    [''00'', ''01'', ''02'', ''03'', ''04'', ''05'', ''06'', ''07'', ''08'', ''09'', ''0a'', ''0b'',
     ''0c'', ''0d'', ''0e'', ''0f'', ''10'', ''11'', ''12'', ''13'', ''14'', ''15'', ''16'',
     ''17'', ''18'', ''19'', ''1a'', ''1b'', ''1c'', ''1d'', ''1e'', ''1f'', ''20'', ''21'',
     ''22'', ''23'', ''24'', ''25'', ''26'', ''27'', ''28'', ''29'', ''2a'', ''2b'', ''2c'',
     ''2d'', ''2e'', ''2f'', ''30'', ''31'', ''32'', ''33'', ''34'', ''35'', ''36'', ''37'',
     ''38'', ''39'', ''3a'', ''3b'', ''3c'', ''3d'', ''3e'', ''3f'', ''40'', ''41'', ''42'',
     ''43'', ''44'', ''45'', ''46'', ''47'', ''48'', ''49'', ''4a'', ''4b'', ''4c'', ''4d'',
     ''4e'', ''4f'', ''50'', ''51'', ''52'', ''53'', ''54'', ''55'', ''56'', ''57'', ''58'',
     ''59'', ''5a'', ''5b'', ''5c'', ''5d'', ''5e'', ''5f'', ''60'', ''61'', ''62'', ''63'',
     ''64'', ''65'', ''66'', ''67'', ''68'', ''69'', ''6a'', ''6b'', ''6c'', ''6d'', ''6e'',
     ''6f'', ''70'', ''71'', ''72'', ''73'', ''74'', ''75'', ''76'', ''77'', ''78'', ''79'',
     ''7a'', ''7b'', ''7c'', ''7d'', ''7e'', ''7f'', ''80'', ''81'', ''82'', ''83'', ''84'',
     ''85'', ''86'', ''87'', ''88'', ''89'', ''8a'', ''8b'', ''8c'', ''8d'', ''8e'', ''8f'',
     ''90'', ''91'', ''92'', ''93'', ''94'', ''95'', ''96'', ''97'', ''98'', ''99'', ''9a'',
     ''9b'', ''9c'', ''9d'', ''9e'', ''9f'', ''a0'', ''a1'', ''a2'', ''a3'', ''a4'', ''a5'',
     ''a6'', ''a7'', ''a8'', ''a9'', ''aa'', ''ab'', ''ac'', ''ad'', ''ae'', ''af'', ''b0'',
     ''b1'', ''b2'', ''b3'', ''b4'', ''b5'', ''b6'', ''b7'', ''b8'', ''b9'', ''ba'', ''bb'',
     ''bc'', ''bd'', ''be'', ''bf'', ''c0'', ''c1'', ''c2'', ''c3'', ''c4'', ''c5'', ''c6'',
     ''c7'', ''c8'', ''c9'', ''ca'', ''cb'', ''cc'', ''cd'', ''ce'', ''cf'', ''d0'', ''d1'',
     ''d2'', ''d3'', ''d4'', ''d5'', ''d6'', ''d7'', ''d8'', ''d9'', ''da'', ''db'', ''dc'',
     ''dd'', ''de'', ''df'', ''e0'', ''e1'', ''e2'', ''e3'', ''e4'', ''e5'', ''e6'', ''e7'',
     ''e8'', ''e9'', ''ea'', ''eb'', ''ec'', ''ed'', ''ee'', ''ef'', ''f0'', ''f1'', ''f2'',
     ''f3'', ''f4'', ''f5'', ''f6'', ''f7'', ''f8'', ''f9'', ''fa'', ''fb'', ''fc'', ''fd'',
     ''fe'', ''ff'']"

definition hex_upper_cases :: "string list" where
  "hex_upper_cases =
    [''00'', ''01'', ''02'', ''03'', ''04'', ''05'', ''06'', ''07'', ''08'', ''09'', ''0A'', ''0B'',
     ''0C'', ''0D'', ''0E'', ''0F'', ''10'', ''11'', ''12'', ''13'', ''14'', ''15'', ''16'',
     ''17'', ''18'', ''19'', ''1A'', ''1B'', ''1C'', ''1D'', ''1E'', ''1F'', ''20'', ''21'',
     ''22'', ''23'', ''24'', ''25'', ''26'', ''27'', ''28'', ''29'', ''2A'', ''2B'', ''2C'',
     ''2D'', ''2E'', ''2F'', ''30'', ''31'', ''32'', ''33'', ''34'', ''35'', ''36'', ''37'',
     ''38'', ''39'', ''3A'', ''3B'', ''3C'', ''3D'', ''3E'', ''3F'', ''40'', ''41'', ''42'',
     ''43'', ''44'', ''45'', ''46'', ''47'', ''48'', ''49'', ''4A'', ''4B'', ''4C'', ''4D'',
     ''4E'', ''4F'', ''50'', ''51'', ''52'', ''53'', ''54'', ''55'', ''56'', ''57'', ''58'',
     ''59'', ''5A'', ''5B'', ''5C'', ''5D'', ''5E'', ''5F'', ''60'', ''61'', ''62'', ''63'',
     ''64'', ''65'', ''66'', ''67'', ''68'', ''69'', ''6A'', ''6B'', ''6C'', ''6D'', ''6E'',
     ''6F'', ''70'', ''71'', ''72'', ''73'', ''74'', ''75'', ''76'', ''77'', ''78'', ''79'',
     ''7A'', ''7B'', ''7C'', ''7D'', ''7E'', ''7F'', ''80'', ''81'', ''82'', ''83'', ''84'',
     ''85'', ''86'', ''87'', ''88'', ''89'', ''8A'', ''8B'', ''8C'', ''8D'', ''8E'', ''8F'',
     ''90'', ''91'', ''92'', ''93'', ''94'', ''95'', ''96'', ''97'', ''98'', ''99'', ''9A'',
     ''9B'', ''9C'', ''9D'', ''9E'', ''9F'', ''A0'', ''A1'', ''A2'', ''A3'', ''A4'', ''A5'',
     ''A6'', ''A7'', ''A8'', ''A9'', ''AA'', ''AB'', ''AC'', ''AD'', ''AE'', ''AF'', ''B0'',
     ''B1'', ''B2'', ''B3'', ''B4'', ''B5'', ''B6'', ''B7'', ''B8'', ''B9'', ''BA'', ''BB'',
     ''BC'', ''BD'', ''BE'', ''BF'', ''C0'', ''C1'', ''C2'', ''C3'', ''C4'', ''C5'', ''C6'',
     ''C7'', ''C8'', ''C9'', ''CA'', ''CB'', ''CC'', ''CD'', ''CE'', ''CF'', ''D0'', ''D1'',
     ''D2'', ''D3'', ''D4'', ''D5'', ''D6'', ''D7'', ''D8'', ''D9'', ''DA'', ''DB'', ''DC'',
     ''DD'', ''DE'', ''DF'', ''E0'', ''E1'', ''E2'', ''E3'', ''E4'', ''E5'', ''E6'', ''E7'',
     ''E8'', ''E9'', ''EA'', ''EB'', ''EC'', ''ED'', ''EE'', ''EF'', ''F0'', ''F1'', ''F2'',
     ''F3'', ''F4'', ''F5'', ''F6'', ''F7'', ''F8'', ''F9'', ''FA'', ''FB'', ''FC'', ''FD'',
     ''FE'', ''FF'']"

definition put_octet_hex_lower :: "u8 \<Rightarrow> put" where
  "put_octet_hex_lower octet = PUT_STRING_WIDTH (hex_lower_cases ! unat octet) 2"

definition put_octet_hex_upper :: "u8 \<Rightarrow> put" where
  "put_octet_hex_upper octet = PUT_STRING_WIDTH (hex_upper_cases ! unat octet) 2"

definition octet_of :: "u64 \<Rightarrow> nat \<Rightarrow> u8" where
  "octet_of w k = ucast (drop_bit (8 * k) w)"

definition put_word_hex_lower :: "u64 \<Rightarrow> put" where
  "put_word_hex_lower w b p =
     do { (b, p) \<leftarrow> put_octet_hex_lower (ucast w) b p;
          (b, p) \<leftarrow> put_octet_hex_lower (ucast (drop_bit 8 w)) b p;
          (b, p) \<leftarrow> put_octet_hex_lower (ucast (drop_bit 16 w)) b p;
          (b, p) \<leftarrow> put_octet_hex_lower (ucast (drop_bit 24 w)) b p;
          (b, p) \<leftarrow> put_octet_hex_lower (ucast (drop_bit 32 w)) b p;
          (b, p) \<leftarrow> put_octet_hex_lower (ucast (drop_bit 40 w)) b p;
          (b, p) \<leftarrow> put_octet_hex_lower (ucast (drop_bit 48 w)) b p;
          put_octet_hex_lower (ucast (drop_bit 56 w)) b p }"

definition put_word_hex_upper :: "u64 \<Rightarrow> put" where
  "put_word_hex_upper w b p =
     do { (b, p) \<leftarrow> put_octet_hex_upper (ucast w) b p;
          (b, p) \<leftarrow> put_octet_hex_upper (ucast (drop_bit 8 w)) b p;
          (b, p) \<leftarrow> put_octet_hex_upper (ucast (drop_bit 16 w)) b p;
          (b, p) \<leftarrow> put_octet_hex_upper (ucast (drop_bit 24 w)) b p;
          (b, p) \<leftarrow> put_octet_hex_upper (ucast (drop_bit 32 w)) b p;
          (b, p) \<leftarrow> put_octet_hex_upper (ucast (drop_bit 40 w)) b p;
          (b, p) \<leftarrow> put_octet_hex_upper (ucast (drop_bit 48 w)) b p;
          put_octet_hex_upper (ucast (drop_bit 56 w)) b p }"

section \<open>The reference\<close>

definition hex_digit_lower :: "nat \<Rightarrow> char" where
  "hex_digit_lower d = ''0123456789abcdef'' ! d"

definition hex_digit_upper :: "nat \<Rightarrow> char" where
  "hex_digit_upper d = ''0123456789ABCDEF'' ! d"

definition octet_text :: "(nat \<Rightarrow> char) \<Rightarrow> u8 \<Rightarrow> string" where
  "octet_text d o8 = [d (unat o8 div 16), d (unat o8 mod 16)]"

definition word_text :: "(nat \<Rightarrow> char) \<Rightarrow> u64 \<Rightarrow> string" where
  "word_text d w = concat (map (\<lambda>k. octet_text d (octet_of w k)) [0..<8])"

lemma hex_lower_cases_eq:
  "hex_lower_cases = map (\<lambda>i. [hex_digit_lower (i div 16), hex_digit_lower (i mod 16)]) [0..<256]"
  by code_simp

lemma hex_upper_cases_eq:
  "hex_upper_cases = map (\<lambda>i. [hex_digit_upper (i div 16), hex_digit_upper (i mod 16)]) [0..<256]"
  by code_simp

lemma unat_u8: "unat (x :: u8) < 256"
  by (rule order.strict_trans2 [OF unsigned_less]) simp

lemma hex_cases_nth:
  "hex_lower_cases ! unat (x :: u8) = octet_text hex_digit_lower x"
  "hex_upper_cases ! unat (x :: u8) = octet_text hex_digit_upper x"
  using unat_u8 [of x] by (simp_all add: hex_lower_cases_eq hex_upper_cases_eq octet_text_def)

lemma length_octet_text [simp]: "length (octet_text d x) = 2"
  by (simp add: octet_text_def)

lemma writes_put_octet_hex:
  "writes (put_octet_hex_lower x) (octet_text hex_digit_lower x)"
  "writes (put_octet_hex_upper x) (octet_text hex_digit_upper x)"
  by (simp_all add: put_octet_hex_lower_def put_octet_hex_upper_def hex_cases_nth writes_PUT_STRING_WIDTH)

lemma word_text_octets:
  "word_text d w =
     octet_text d (ucast w) @ octet_text d (ucast (drop_bit 8 w)) @ octet_text d (ucast (drop_bit 16 w)) @
     octet_text d (ucast (drop_bit 24 w)) @ octet_text d (ucast (drop_bit 32 w)) @
     octet_text d (ucast (drop_bit 40 w)) @ octet_text d (ucast (drop_bit 48 w)) @
     octet_text d (ucast (drop_bit 56 w))"
  by (simp add: word_text_def octet_of_def upt_rec)

lemma writes_put_word_hex:
  "writes (put_word_hex_lower w) (word_text hex_digit_lower w)"
  "writes (put_word_hex_upper w) (word_text hex_digit_upper w)"
  unfolding put_word_hex_lower_def [abs_def] put_word_hex_upper_def [abs_def] word_text_octets
  by (intro writes_bind writes_put_octet_hex)+

section \<open>Reading back\<close>

definition hex_digit_value :: "char \<Rightarrow> nat" where
  "hex_digit_value c =
     (let n = of_char c in if n < 58 then n - 48 else if n < 97 then n - 55 else n - 87)"

fun hex_text_value :: "string \<Rightarrow> nat" where
  "hex_text_value (a # b # s) = 16 * hex_digit_value a + hex_digit_value b + 256 * hex_text_value s"
| "hex_text_value _ = 0"

lemma hex_digit_value_inverse:
  "\<forall>d \<in> set [0..<16]. hex_digit_value (hex_digit_lower d) = d \<and> hex_digit_value (hex_digit_upper d) = d"
  by code_simp

lemma hex_text_value_octet:
  assumes "d = hex_digit_lower \<or> d = hex_digit_upper"
  shows "hex_text_value (octet_text d x @ s) = unat x + 256 * hex_text_value s"
proof -
  have "hex_digit_value (d k) = k" if "k < 16" for k
    using that assms hex_digit_value_inverse by auto
  then have "hex_digit_value (d (unat x div 16)) = unat x div 16"
    "hex_digit_value (d (unat x mod 16)) = unat x mod 16"
    using unat_u8 [of x] by simp_all
  then show ?thesis by (simp add: octet_text_def)
qed

lemma unat_octet: "unat (ucast (drop_bit k (w :: u64)) :: u8) = unat w div 2 ^ k mod 256"
  by (simp add: unsigned_ucast_eq unat_drop_bit_eq take_bit_eq_mod) (simp add: drop_bit_eq_div)

text \<open>
  the sixteen digits \<open>put_word_hex_lower\<close> and \<open>put_word_hex_upper\<close> write determine the word: read
  back two by two, lowest octet first, they give its value.
\<close>

theorem put_word_hex_roundtrip:
  "\<exists>s t. writes (put_word_hex_lower w) s \<and> writes (put_word_hex_upper w) t \<and> length s = 16 \<and>
    length t = 16 \<and> hex_text_value s = unat w \<and> hex_text_value t = unat w"
proof -
  have v: "hex_text_value (word_text d w) = unat w" if d: "d = hex_digit_lower \<or> d = hex_digit_upper" for d
  proof -
    define y where "y k = unat w div 256 ^ k" for k
    have y: "y k = y k mod 256 + 256 * y (Suc k)" for k
    proof -
      have "y (Suc k) = y k div 256" by (simp add: y_def div_mult2_eq [symmetric] mult.commute)
      then show ?thesis by simp
    qed
    have y8: "y 8 = 0" using unat_uintmax [of w] by (simp add: y_def)
    have o: "unat (ucast (drop_bit k w) :: u8) = y j mod 256" if "k = 8 * j" for k j
      unfolding that by (simp add: unat_octet y_def power_mult)
    have o0: "unat (ucast w :: u8) = y 0 mod 256" using o [of 0 0] by simp
    have "hex_text_value (word_text d w) =
      y 0 mod 256 + 256 * (y 1 mod 256 + 256 * (y 2 mod 256 + 256 * (y 3 mod 256 + 256 *
      (y 4 mod 256 + 256 * (y 5 mod 256 + 256 * (y 6 mod 256 + 256 * (y 7 mod 256 + 256 * hex_text_value [])))))))"
      unfolding word_text_octets
      by (subst (8) append_Nil2 [symmetric], simp only: append_assoc hex_text_value_octet [OF d] o0
          o [of 8 1, simplified] o [of 16 2, simplified] o [of 24 3, simplified] o [of 32 4, simplified]
          o [of 40 5, simplified] o [of 48 6, simplified] o [of 56 7, simplified] One_nat_def)
    also have "\<dots> = y 0"
    proof -
      have e: "y 0 = y 0 mod 256 + 256 * y 1" "y 1 = y 1 mod 256 + 256 * y 2"
        "y 2 = y 2 mod 256 + 256 * y 3" "y 3 = y 3 mod 256 + 256 * y 4"
        "y 4 = y 4 mod 256 + 256 * y 5" "y 5 = y 5 mod 256 + 256 * y 6"
        "y 6 = y 6 mod 256 + 256 * y 7" "y 7 = y 7 mod 256 + 256 * y 8"
        using y [of 0] y [of 1] y [of 2] y [of 3] y [of 4] y [of 5] y [of 6] y [of 7]
        by (simp_all only: One_nat_def Suc_numeral Num.add_num_simps numeral_2_eq_2 [symmetric])
      have "hex_text_value [] = y 8" by (simp add: y8)
      then show ?thesis
        by (simp only:) (subst e(8) [symmetric], subst e(7) [symmetric],
            subst e(6) [symmetric], subst e(5) [symmetric], subst e(4) [symmetric],
            subst e(3) [symmetric], subst e(2) [symmetric], subst e(1) [symmetric], rule refl)
    qed
    finally show ?thesis by (simp add: y_def)
  qed
  have l: "length (word_text d w) = 16" for d
    unfolding word_text_octets by (simp only: length_append length_octet_text)
  show ?thesis
    using l v [OF disjI1, OF refl] v [OF disjI2, OF refl] writes_put_word_hex [of w]
    by (intro exI [of _ "word_text hex_digit_lower w"] exI [of _ "word_text hex_digit_upper w"] conjI)
      (assumption | simp only:)+
qed

end
