(* ===== verification/Task_Queue.thy ===== *)
theory Task_Queue
  imports Prelude
begin

text \<open>
  The intrusive doubly linked task queues of \<open>src/thread/task_queue.h\<close>. The nodes are a heap, a map
  from node addresses to nodes; a \<open>NULL\<close> pointer is \<^term>\<open>None\<close>, and following a pointer that is
  not in the heap has no value. Every operation runs under the lock of its queue, so its body is one
  step; the variants \<open>_muffle\<close>, \<open>_report\<close> and \<open>_handle_cl\<close> of an operation differ in what they do
  when a lock or condition call fails and share one definition here. An operation that signals a
  condition returns whether it did; a pop that would block is one whose queue has no head.
\<close>

section \<open>State\<close>

record 'a task_node =
  tn_task :: 'a
  tn_prev :: "nat option"
  tn_next :: "nat option"

type_synonym 'a heap = "nat \<Rightarrow> 'a task_node option"

record task_store =
  ts_head :: "nat option"
  ts_last :: "nat option"

record task_queue =
  tq_head :: "nat option"
  tq_last :: "nat option"

definition set_prev :: "'a heap \<Rightarrow> nat \<Rightarrow> nat option \<Rightarrow> 'a heap option" where
  "set_prev h node p = do { nd \<leftarrow> h node; Some (h(node \<mapsto> nd\<lparr>tn_prev := p\<rparr>)) }"

definition set_next :: "'a heap \<Rightarrow> nat \<Rightarrow> nat option \<Rightarrow> 'a heap option" where
  "set_next h node p = do { nd \<leftarrow> h node; Some (h(node \<mapsto> nd\<lparr>tn_next := p\<rparr>)) }"

section \<open>Operations\<close>

text \<open>
  \<open>task_nodes_init_tasks\<close> and its two relatives link \<open>count\<close> adjacent nodes, here one address after
  the other; a count of zero would write before the first node.
\<close>

fun link_nodes :: "'a heap \<Rightarrow> nat option \<Rightarrow> nat \<Rightarrow> 'a list \<Rightarrow> ('a heap \<times> nat) option" where
  "link_nodes h prev node [] = None"
| "link_nodes h prev node [task] = Some (h(node \<mapsto> \<lparr>tn_task = task, tn_prev = prev, tn_next = None\<rparr>), node)"
| "link_nodes h prev node (task # task' # tasks) =
     link_nodes (h(node \<mapsto> \<lparr>tn_task = task, tn_prev = prev, tn_next = Some (node + 1)\<rparr>)) (Some node) (node + 1)
       (task' # tasks)"

definition task_store_init :: "'a heap \<Rightarrow> nat \<Rightarrow> 'a list \<Rightarrow> ('a heap \<times> task_store) option" where
  "task_store_init h nodes tasks =
     do { (h, lst) \<leftarrow> link_nodes h None nodes tasks; Some (h, \<lparr>ts_head = Some nodes, ts_last = Some lst\<rparr>) }"

definition task_queue_init_empty :: task_queue where
  "task_queue_init_empty = \<lparr>tq_head = None, tq_last = None\<rparr>"

definition task_queue_init_store :: "task_store \<Rightarrow> task_queue" where
  "task_queue_init_store st = \<lparr>tq_head = ts_head st, tq_last = ts_last st\<rparr>"

definition task_queue_push_quiet :: "'a heap \<Rightarrow> task_queue \<Rightarrow> nat \<Rightarrow> ('a heap \<times> task_queue) option" where
  "task_queue_push_quiet h queue node =
     do { h \<leftarrow> set_next h node None;
          h \<leftarrow> set_prev h node (tq_last queue);
          case tq_last queue of
            None \<Rightarrow> Some (h, queue\<lparr>tq_head := Some node, tq_last := Some node\<rparr>)
          | Some lst \<Rightarrow> do { h \<leftarrow> set_next h lst (Some node); Some (h, queue\<lparr>tq_last := Some node\<rparr>) } }"

text \<open>The push that signals \<open>node_ready\<close> when the queue was empty.\<close>

definition task_queue_push :: "'a heap \<Rightarrow> task_queue \<Rightarrow> nat \<Rightarrow> ('a heap \<times> task_queue \<times> bool) option" where
  "task_queue_push h queue node =
     do { h \<leftarrow> set_next h node None;
          h \<leftarrow> set_prev h node (tq_last queue);
          case tq_last queue of
            None \<Rightarrow> Some (h, queue\<lparr>tq_head := Some node, tq_last := Some node\<rparr>, True)
          | Some lst \<Rightarrow> do { h \<leftarrow> set_next h lst (Some node); Some (h, queue\<lparr>tq_last := Some node\<rparr>, False) } }"

definition task_queue_peek :: "task_queue \<Rightarrow> nat option" where
  "task_queue_peek queue = tq_head queue"

text \<open>Returns the node and whether \<open>empty\<close> was signalled.\<close>

definition task_queue_pop :: "'a heap \<Rightarrow> task_queue \<Rightarrow> ('a heap \<times> task_queue \<times> nat \<times> bool) option" where
  "task_queue_pop h queue =
     do { node \<leftarrow> tq_head queue;
          nd \<leftarrow> h node;
          case tn_next nd of
            None \<Rightarrow> Some (h, queue\<lparr>tq_head := None, tq_last := None\<rparr>, node, True)
          | Some head \<Rightarrow> do { h \<leftarrow> set_prev h head None; Some (h, queue\<lparr>tq_head := Some head\<rparr>, node, False) } }"

definition task_queue_remove :: "'a heap \<Rightarrow> task_queue \<Rightarrow> nat \<Rightarrow> ('a heap \<times> task_queue \<times> bool) option" where
  "task_queue_remove h queue node =
     do { nd \<leftarrow> h node;
          case tn_prev nd of
            None \<Rightarrow>
              (case tn_next nd of
                 None \<Rightarrow> Some (h, queue\<lparr>tq_head := None, tq_last := None\<rparr>, True)
               | Some nxt \<Rightarrow> do { h \<leftarrow> set_prev h nxt None; Some (h, queue\<lparr>tq_head := Some nxt\<rparr>, False) })
          | Some prv \<Rightarrow>
              do { h \<leftarrow> set_next h prv (tn_next nd);
                   case tn_next nd of
                     None \<Rightarrow> Some (h, queue\<lparr>tq_last := Some prv\<rparr>, False)
                   | Some nxt \<Rightarrow> do { h \<leftarrow> set_prev h nxt (Some prv); Some (h, queue, False) } } }"

text \<open>Both locks are held: the node is never in neither queue.\<close>

definition task_queue_pop_push ::
  "'a heap \<Rightarrow> task_queue \<Rightarrow> task_queue \<Rightarrow> ('a heap \<times> task_queue \<times> task_queue \<times> nat) option" where
  "task_queue_pop_push h queue1 queue2 =
     do { node \<leftarrow> tq_head queue1;
          nd \<leftarrow> h node;
          (h, queue1) \<leftarrow>
            (case tn_next nd of
               None \<Rightarrow> Some (h, queue1\<lparr>tq_head := None, tq_last := None\<rparr>)
             | Some head \<Rightarrow>
                 do { h \<leftarrow> set_prev h head None;
                      h \<leftarrow> set_next h node None;
                      Some (h, queue1\<lparr>tq_head := Some head\<rparr>) });
          h \<leftarrow> set_prev h node (tq_last queue2);
          case tq_last queue2 of
            None \<Rightarrow> Some (h, queue1, queue2\<lparr>tq_head := Some node, tq_last := Some node\<rparr>, node)
          | Some lst \<Rightarrow>
              do { h \<leftarrow> set_next h lst (Some node); Some (h, queue1, queue2\<lparr>tq_last := Some node\<rparr>, node) } }"

definition task_queue_clear :: "task_queue \<Rightarrow> task_queue" where
  "task_queue_clear queue = (if tq_head queue = None then queue else queue\<lparr>tq_head := None, tq_last := None\<rparr>)"

definition task_queue_transfer_all ::
  "'a heap \<Rightarrow> task_queue \<Rightarrow> task_queue \<Rightarrow> ('a heap \<times> task_queue \<times> task_queue) option" where
  "task_queue_transfer_all h queue1 queue2 =
     (case tq_head queue1 of
        None \<Rightarrow> Some (h, queue1, queue2)
      | Some head \<Rightarrow>
          do { (h, queue2) \<leftarrow>
                 (case tq_last queue2 of
                    None \<Rightarrow> Some (h, queue2\<lparr>tq_head := tq_head queue1, tq_last := tq_last queue1\<rparr>)
                  | Some lst \<Rightarrow>
                      do { h \<leftarrow> set_prev h head (Some lst);
                           h \<leftarrow> set_next h lst (Some head);
                           Some (h, queue2) });
               Some (h, queue1\<lparr>tq_head := None, tq_last := None\<rparr>, queue2) })"

definition task_queue_reload :: "task_queue \<Rightarrow> task_store \<Rightarrow> task_queue" where
  "task_queue_reload queue st = queue\<lparr>tq_head := ts_head st, tq_last := ts_last st\<rparr>"

definition task_queue_retreive_cold_quiet :: "task_queue \<Rightarrow> task_store \<Rightarrow> task_queue \<times> task_store" where
  "task_queue_retreive_cold_quiet queue st =
     (queue\<lparr>tq_head := None, tq_last := None\<rparr>, st\<lparr>ts_head := tq_head queue, ts_last := tq_last queue\<rparr>)"

definition task_store_swap :: "task_store \<Rightarrow> task_store \<Rightarrow> task_store \<times> task_store" where
  "task_store_swap store1 store2 =
     (store1\<lparr>ts_head := ts_head store2, ts_last := ts_last store2\<rparr>,
      store2\<lparr>ts_head := ts_head store1, ts_last := ts_last store1\<rparr>)"

section \<open>A queue holds a list of nodes\<close>

text \<open>
  \<open>seg h p xs n\<close>: the nodes \<open>xs\<close> are linked in order, the first one back to \<open>p\<close> and the last one on
  to \<open>n\<close>.
\<close>

definition first_of :: "'n list \<Rightarrow> 'n option \<Rightarrow> 'n option" where
  "first_of xs n = (case xs of [] \<Rightarrow> n | x # _ \<Rightarrow> Some x)"

definition last_of :: "'n list \<Rightarrow> 'n option \<Rightarrow> 'n option" where
  "last_of xs p = (if xs = [] then p else Some (last xs))"

definition linked :: "'a heap \<Rightarrow> nat \<Rightarrow> nat option \<Rightarrow> nat option \<Rightarrow> bool" where
  "linked h x p n \<longleftrightarrow> (\<exists>nd. h x = Some nd \<and> tn_prev nd = p \<and> tn_next nd = n)"

fun seg :: "'a heap \<Rightarrow> nat option \<Rightarrow> nat list \<Rightarrow> nat option \<Rightarrow> bool" where
  "seg h p [] n = True"
| "seg h p (x # xs) n = (linked h x p (first_of xs n) \<and> seg h (Some x) xs n)"

definition queue_holds :: "'a heap \<Rightarrow> task_queue \<Rightarrow> nat list \<Rightarrow> bool" where
  "queue_holds h q xs \<longleftrightarrow>
     distinct xs \<and> seg h None xs None \<and> tq_head q = first_of xs None \<and> tq_last q = last_of xs None"

lemma first_of_simps [simp]: "first_of [] n = n" "first_of (x # xs) n = Some x" "first_of (xs @ ys) n = first_of xs (first_of ys n)"
  by (simp_all add: first_of_def split: list.splits)

lemma last_of_simps [simp]: "last_of [] p = p" "last_of (x # xs) p = last_of xs (Some x)" "last_of (xs @ [x]) p = Some x"
  by (simp_all add: last_of_def)

lemma first_of_None [simp]: "first_of xs None = None \<longleftrightarrow> xs = []"
  by (simp add: first_of_def split: list.splits)

lemma last_of_None [simp]: "last_of xs None = None \<longleftrightarrow> xs = []"
  by (simp add: last_of_def)

lemma seg_append: "seg h p (xs @ ys) n \<longleftrightarrow> seg h p xs (first_of ys n) \<and> seg h (last_of xs p) ys n"
  by (induction xs arbitrary: p) auto

lemma seg_frame [simp]: "x \<notin> set xs \<Longrightarrow> seg (h(x \<mapsto> nd)) p xs n = seg h p xs n"
  by (induction xs arbitrary: p) (auto simp: linked_def)

lemma seg_node: "seg h p xs n \<Longrightarrow> x \<in> set xs \<Longrightarrow> \<exists>nd. h x = Some nd"
  by (induction xs arbitrary: p) (auto simp: linked_def)

text \<open>Writing the outer links of a segment.\<close>

lemma seg_set_next:
  assumes "seg h p (xs @ [x]) n" "distinct (xs @ [x])"
  obtains h' where "set_next h x n' = Some h'" "seg h' p (xs @ [x]) n'" "\<And>y. y \<noteq> x \<Longrightarrow> h' y = h y"
    "\<And>y. map_option tn_task (h' y) = map_option tn_task (h y)"
proof -
  obtain nd where nd: "h x = Some nd" "tn_prev nd = last_of xs p"
    using assms(1) by (auto simp: seg_append linked_def)
  then show thesis
    using assms by (intro that [of "h(x \<mapsto> nd\<lparr>tn_next := n'\<rparr>)"]) (auto simp: set_next_def seg_append linked_def)
qed

lemma seg_set_prev:
  assumes "seg h p (x # xs) n" "distinct (x # xs)"
  obtains h' where "set_prev h x p' = Some h'" "seg h' p' (x # xs) n" "\<And>y. y \<noteq> x \<Longrightarrow> h' y = h y"
    "\<And>y. map_option tn_task (h' y) = map_option tn_task (h y)"
proof -
  obtain nd where nd: "h x = Some nd" "tn_next nd = first_of xs n" using assms(1) by (auto simp: linked_def)
  then show thesis
    using assms by (intro that [of "h(x \<mapsto> nd\<lparr>tn_prev := p'\<rparr>)"]) (auto simp: set_prev_def linked_def)
qed

lemma seg_cong: "\<forall>x \<in> set xs. h' x = h x \<Longrightarrow> seg h' p xs n = seg h p xs n"
  by (induction xs arbitrary: p) (auto simp: linked_def)
section \<open>What the operations do to the lists\<close>

text \<open>An operation changes only links of nodes in \<open>S\<close>.\<close>

definition relinks :: "nat set \<Rightarrow> 'a heap \<Rightarrow> 'a heap \<Rightarrow> bool" where
  "relinks S h h' \<longleftrightarrow>
     (\<forall>y. y \<notin> S \<longrightarrow> h' y = h y) \<and> (\<forall>y. map_option tn_task (h' y) = map_option tn_task (h y))"

lemma relinks_refl [simp]: "relinks S h h"
  by (simp add: relinks_def)

lemma relinks_upd: "h x = Some nd \<Longrightarrow> tn_task nd' = tn_task nd \<Longrightarrow> x \<in> S \<Longrightarrow> relinks S h (h(x \<mapsto> nd'))"
  by (auto simp: relinks_def)

lemma relinks_trans: "relinks S h h1 \<Longrightarrow> relinks S h1 h2 \<Longrightarrow> relinks S h h2"
  by (simp add: relinks_def)

lemma relinks_mono: "relinks S h h' \<Longrightarrow> S \<subseteq> T \<Longrightarrow> relinks T h h'"
  by (auto simp: relinks_def)

lemma queue_holds_frame:
  "relinks S h h' \<Longrightarrow> S \<inter> set xs = {} \<Longrightarrow> queue_holds h q xs \<Longrightarrow> queue_holds h' q xs"
  using seg_cong [of xs h' h None None] by (auto simp: queue_holds_def relinks_def)

lemma relinks_node: "relinks S h h' \<Longrightarrow> h x \<noteq> None \<Longrightarrow> h' x \<noteq> None"
  by (metis map_option_is_None relinks_def)

lemma seg_relinks_nodes: "queue_holds h q xs \<Longrightarrow> x \<in> set xs \<Longrightarrow> h x \<noteq> None"
  using seg_node [of h None xs None x] by (auto simp: queue_holds_def)

lemma set_next_Some: "h x = Some nd \<Longrightarrow> set_next h x n = Some (h(x \<mapsto> nd\<lparr>tn_next := n\<rparr>))"
  by (simp add: set_next_def)

lemma set_prev_Some: "h x = Some nd \<Longrightarrow> set_prev h x n = Some (h(x \<mapsto> nd\<lparr>tn_prev := n\<rparr>))"
  by (simp add: set_prev_def)

text \<open>A fresh last node.\<close>

lemma seg_snoc:
  assumes "seg h None xs None" "distinct xs" "h node = Some nd" "node \<notin> set xs"
  obtains h' where
    "(case last_of xs None of
        None \<Rightarrow> Some (h(node \<mapsto> nd\<lparr>tn_next := None, tn_prev := last_of xs None\<rparr>))
      | Some lst \<Rightarrow> set_next (h(node \<mapsto> nd\<lparr>tn_next := None, tn_prev := last_of xs None\<rparr>)) lst (Some node)) = Some h'"
    "seg h' None (xs @ [node]) None" "relinks (insert node (set xs)) h h'"
proof -
  let ?h = "h(node \<mapsto> nd\<lparr>tn_next := None, tn_prev := last_of xs None\<rparr>)"
  show thesis
  proof (cases xs rule: rev_exhaust)
    case Nil
    then show thesis using assms by (intro that [of ?h]) (auto simp: linked_def relinks_def)
  next
    case (snoc ys y)
    have s: "seg ?h None (ys @ [y]) None" using assms snoc by simp
    obtain h' where h': "set_next ?h y (Some node) = Some h'" "seg h' None (ys @ [y]) (Some node)"
      "\<And>z. z \<noteq> y \<Longrightarrow> h' z = ?h z" "\<And>z. map_option tn_task (h' z) = map_option tn_task (?h z)"
      using seg_set_next [OF s] assms(2) snoc by auto
    have "linked h' node (Some y) None" using h'(3) [of node] assms(4) snoc by (auto simp: linked_def)
    then have "seg h' None (xs @ [node]) None" using h'(2) by (simp add: snoc seg_append)
    moreover have "relinks (insert node (set xs)) h h'"
      using h'(3,4) snoc assms(3) by (auto simp: relinks_def)
    ultimately show thesis using h'(1) by (intro that [of h']) (simp_all add: snoc)
  qed
qed

lemma task_queue_push_quiet_holds:
  assumes "queue_holds h q xs" "h node \<noteq> None" "node \<notin> set xs"
  shows "\<exists>h' q'. task_queue_push_quiet h q node = Some (h', q') \<and> queue_holds h' q' (xs @ [node]) \<and>
    relinks (insert node (set xs)) h h'"
proof -
  obtain nd where nd: "h node = Some nd" using assms(2) by blast
  have q: "seg h None xs None" "distinct xs" "tq_last q = last_of xs None" "tq_head q = first_of xs None"
    using assms(1) by (simp_all add: queue_holds_def)
  obtain h' where h': "(case last_of xs None of
        None \<Rightarrow> Some (h(node \<mapsto> nd\<lparr>tn_next := None, tn_prev := last_of xs None\<rparr>))
      | Some lst \<Rightarrow> set_next (h(node \<mapsto> nd\<lparr>tn_next := None, tn_prev := last_of xs None\<rparr>)) lst (Some node)) = Some h'"
    "seg h' None (xs @ [node]) None" "relinks (insert node (set xs)) h h'"
    using q(1,2) nd assms(3) by (rule seg_snoc)
  let ?h = "h(node \<mapsto> nd\<lparr>tn_next := None, tn_prev := last_of xs None\<rparr>)"
  have 1: "task_queue_push_quiet h q node =
      (case last_of xs None of
         None \<Rightarrow> Some (?h, q\<lparr>tq_head := Some node, tq_last := Some node\<rparr>)
       | Some lst \<Rightarrow> do { h \<leftarrow> set_next ?h lst (Some node); Some (h, q\<lparr>tq_last := Some node\<rparr>) })"
    by (simp add: task_queue_push_quiet_def set_next_def [of h] set_prev_def nd q(3) cong: option.case_cong)
  show ?thesis
  proof (cases "xs = []")
    case True
    then show ?thesis using h' 1 by (simp add: queue_holds_def)
  next
    case False
    then have l: "last_of xs None = Some (last xs)" "first_of xs None = Some (hd xs)" "first_of xs (Some node) = Some (hd xs)"
      by (cases xs; simp add: last_of_def)+
    have "distinct (xs @ [node])" using q(2) assms(3) by simp
    then show ?thesis using h' 1 l q(4) by (simp add: queue_holds_def)
  qed
qed

lemma task_queue_push_holds:
  assumes "queue_holds h q xs" "h node \<noteq> None" "node \<notin> set xs"
  shows "\<exists>h' q'. task_queue_push h q node = Some (h', q', xs = []) \<and> queue_holds h' q' (xs @ [node]) \<and>
    relinks (insert node (set xs)) h h'"
proof -
  have "task_queue_push h q node =
      map_option (\<lambda>(h', q'). (h', q', tq_last q = None)) (task_queue_push_quiet h q node)"
    by (auto simp: task_queue_push_def task_queue_push_quiet_def split: option.splits bind_splits)
  moreover have "tq_last q = None \<longleftrightarrow> xs = []" using assms(1) by (simp add: queue_holds_def)
  ultimately show ?thesis using task_queue_push_quiet_holds [OF assms] by auto
qed

lemma task_queue_pop_holds:
  assumes "queue_holds h q (x # xs)"
  shows "\<exists>h' q'. task_queue_pop h q = Some (h', q', x, xs = []) \<and> queue_holds h' q' xs \<and>
    relinks (set xs) h h'"
proof -
  have q: "seg h None (x # xs) None" "distinct (x # xs)" "tq_head q = Some x" "tq_last q = last_of xs (Some x)"
    using assms by (simp_all add: queue_holds_def)
  obtain nd where nd: "h x = Some nd" "tn_next nd = first_of xs None" using q(1) by (auto simp: linked_def)
  show ?thesis
  proof (cases xs)
    case Nil
    then show ?thesis using q nd by (simp add: task_queue_pop_def queue_holds_def)
  next
    case (Cons y ys)
    have "seg h (Some x) (y # ys) None" "distinct (y # ys)" using q Cons by simp_all
    then obtain h' where "set_prev h y None = Some h'" "seg h' None (y # ys) None"
      "\<And>z. z \<noteq> y \<Longrightarrow> h' z = h z" "\<And>z. map_option tn_task (h' z) = map_option tn_task (h z)"
      using seg_set_prev by blast
    then show ?thesis
      using q nd Cons by (auto simp: task_queue_pop_def queue_holds_def last_of_def relinks_def)
  qed
qed
lemma task_queue_pop_push_holds:
  assumes "queue_holds h q1 (x # xs)" "queue_holds h q2 ys" "set (x # xs) \<inter> set ys = {}"
  shows "\<exists>h' q1' q2'. task_queue_pop_push h q1 q2 = Some (h', q1', q2', x) \<and> queue_holds h' q1' xs \<and>
    queue_holds h' q2' (ys @ [x]) \<and> relinks (set (x # xs) \<union> set ys) h h'"
proof -
  have q: "seg h None (x # xs) None" "distinct (x # xs)" "tq_head q1 = Some x" "tq_last q1 = last_of xs (Some x)"
    using assms(1) by (simp_all add: queue_holds_def)
  obtain nd where nd: "h x = Some nd" "tn_next nd = first_of xs None" using q(1) by (auto simp: linked_def)
  obtain h1 q1' nd1 where 1: "(case tn_next nd of
       None \<Rightarrow> Some (h, q1\<lparr>tq_head := None, tq_last := None\<rparr>)
     | Some head \<Rightarrow> do { h \<leftarrow> set_prev h head None; h \<leftarrow> set_next h x None; Some (h, q1\<lparr>tq_head := Some head\<rparr>) }) = Some (h1, q1')"
    "queue_holds h1 q1' xs" "h1 x = Some nd1" "tn_next nd1 = None" "relinks (set (x # xs)) h h1"
  proof (cases xs)
    case Nil
    then show thesis using q nd by (intro that [of h "q1\<lparr>tq_head := None, tq_last := None\<rparr>" nd]) (simp_all add: queue_holds_def)
  next
    case (Cons y zs)
    have "seg h (Some x) (y # zs) None" "distinct (y # zs)" using q Cons by simp_all
    then obtain h' where h': "set_prev h y None = Some h'" "seg h' None (y # zs) None"
      "\<And>z. z \<noteq> y \<Longrightarrow> h' z = h z" "\<And>z. map_option tn_task (h' z) = map_option tn_task (h z)"
      using seg_set_prev by blast
    have x: "x \<notin> set (y # zs)" "h' x = Some nd" using q(2) Cons h'(3) [of x] nd(1) by auto
    let ?h1 = "h'(x \<mapsto> nd\<lparr>tn_next := None\<rparr>)"
    have "relinks (set (x # xs)) h ?h1" using h'(3,4) nd(1) Cons by (auto simp: relinks_def)
    moreover have "queue_holds ?h1 (q1\<lparr>tq_head := Some y\<rparr>) xs"
      using x(1) q h'(2) unfolding queue_holds_def Cons by (simp add: last_of_def del: seg.simps)
    ultimately show thesis
      using h'(1) x(2) nd(2) Cons by (intro that [of ?h1 "q1\<lparr>tq_head := Some y\<rparr>" "nd\<lparr>tn_next := None\<rparr>"])
        (simp_all add: set_next_def)
  qed
  have 2: "queue_holds h1 q2 ys" using queue_holds_frame [OF 1(5) assms(3,2)] .
  have same: "set_next h1 x None = Some h1" using 1(3,4) by (auto simp: set_next_def)
  have x: "h1 x \<noteq> None" "x \<notin> set ys" using 1(3) assms(3) by auto
  obtain h' q2' where p: "task_queue_push_quiet h1 q2 x = Some (h', q2')" "queue_holds h' q2' (ys @ [x])"
    "relinks (insert x (set ys)) h1 h'"
    using task_queue_push_quiet_holds [OF 2 x] by blast
  have "task_queue_pop_push h q1 q2 = map_option (\<lambda>(h, q2). (h, q1', q2, x)) (task_queue_push_quiet h1 q2 x)"
    using q(3) nd(1) 1(1) same
    by (auto simp: task_queue_pop_push_def task_queue_push_quiet_def split: option.splits bind_splits)
  moreover have "queue_holds h' q1' xs"
    using assms(3) q(2) by (intro queue_holds_frame [OF p(3) _ 1(2)]) auto
  moreover have "relinks (set (x # xs) \<union> set ys) h h'"
    by (rule relinks_trans [OF relinks_mono [OF 1(5)] relinks_mono [OF p(3)]]) auto
  ultimately show ?thesis using p(1,2) by auto
qed

text \<open>Taking a node out from anywhere.\<close>

lemma task_queue_remove_holds:
  assumes "queue_holds h q (ys @ x # zs)"
  shows "\<exists>h' q'. task_queue_remove h q x = Some (h', q', ys @ zs = []) \<and> queue_holds h' q' (ys @ zs) \<and>
    relinks (set (ys @ zs)) h h'"
proof -
  have q: "seg h None ys (Some x)" "linked h x (last_of ys None) (first_of zs None)" "seg h (Some x) zs None"
    "distinct (ys @ x # zs)" "tq_head q = first_of ys (Some x)" "tq_last q = last_of zs (Some x)"
    using assms by (auto simp: queue_holds_def seg_append last_of_def)
  obtain nd where nd: "h x = Some nd" "tn_prev nd = last_of ys None" "tn_next nd = first_of zs None"
    using q(2) by (auto simp: linked_def)
  show ?thesis
  proof (cases ys rule: rev_exhaust)
    case Nil
    then have "task_queue_remove h q x = map_option (\<lambda>(h, q, n, e). (h, q, e)) (task_queue_pop h q)"
      using nd q(5) by (auto simp: task_queue_remove_def task_queue_pop_def split: option.splits bind_splits)
    then show ?thesis using task_queue_pop_holds [of h q x zs] assms Nil by auto
  next
    case (snoc us y)
    have "seg h None (us @ [y]) (Some x)" "distinct (us @ [y])" using q(1,4) snoc by simp_all
    then obtain h1 where h1: "set_next h y (first_of zs None) = Some h1" "seg h1 None (us @ [y]) (first_of zs None)"
      "\<And>z. z \<noteq> y \<Longrightarrow> h1 z = h z" "\<And>z. map_option tn_task (h1 z) = map_option tn_task (h z)"
      using seg_set_next by blast
    show ?thesis
    proof (cases zs)
      case Nil
      then show ?thesis
        using h1 q(4,5) snoc nd by (auto simp: task_queue_remove_def queue_holds_def relinks_def)
    next
      case (Cons z ws)
      have ne1: "\<forall>u \<in> set (z # ws). h1 u = h u" and ne2: "z \<notin> set (us @ [y])"
        using q(4) snoc Cons by (auto intro!: h1(3))
      have "seg h1 (Some x) (z # ws) None"
        using q(3) Cons seg_cong [of "z # ws" h1 h "Some x" None] h1(3) ne1 by blast
      moreover have "distinct (z # ws)" using q(4) Cons by simp
      ultimately obtain h2 where h2: "set_prev h1 z (Some y) = Some h2" "seg h2 (Some y) (z # ws) None"
        "\<And>u. u \<noteq> z \<Longrightarrow> h2 u = h1 u" "\<And>u. map_option tn_task (h2 u) = map_option tn_task (h1 u)"
        using seg_set_prev by blast
      have "seg h2 None (us @ [y]) (Some z)"
        using h1(2) Cons seg_cong [of "us @ [y]" h2 h1 None "Some z"] h2(3) ne2 by (metis first_of_simps(2))
      then have "seg h2 None (ys @ zs) None" using h2(2) by (simp add: snoc Cons seg_append del: seg.simps(2)) (simp add: seg_append)
      moreover have "relinks (set (ys @ zs)) h h2"
        using h1(3,4) h2(3,4) snoc Cons by (auto simp: relinks_def)
      moreover have "task_queue_remove h q x = Some (h2, q, False)"
        using h1(1) h2(1) nd snoc Cons by (simp add: task_queue_remove_def)
      ultimately show ?thesis
        using q(4-6) snoc Cons by (simp add: queue_holds_def last_of_def)
    qed
  qed
qed
section \<open>Fresh nodes, stores and transfers\<close>

lemma first_of_upt: "i < j \<Longrightarrow> first_of [i..<j] n = Some i"
  by (simp add: upt_rec)

lemma link_nodes_holds:
  assumes "tasks \<noteq> []"
  shows "\<exists>h'. link_nodes h p node tasks = Some (h', node + length tasks - 1) \<and>
    seg h' p [node..<node + length tasks] None \<and>
    (\<forall>i < length tasks. map_option tn_task (h' (node + i)) = Some (tasks ! i)) \<and>
    (\<forall>y. y < node \<or> node + length tasks \<le> y \<longrightarrow> h' y = h y)"
  using assms
proof (induction h p node tasks rule: link_nodes.induct)
  case (2 h p node task)
  then show ?case by (simp add: linked_def upt_rec)
next
  case (3 h p node task task' tasks)
  let ?h = "h(node \<mapsto> \<lparr>tn_task = task, tn_prev = p, tn_next = Some (node + 1)\<rparr>)"
  obtain h' where h': "link_nodes ?h (Some node) (node + 1) (task' # tasks) = Some (h', node + 1 + length (task' # tasks) - 1)"
    "seg h' (Some node) [node + 1..<node + 1 + length (task' # tasks)] None"
    "\<forall>i < length (task' # tasks). map_option tn_task (h' (node + 1 + i)) = Some ((task' # tasks) ! i)"
    "\<forall>y. y < node + 1 \<or> node + 1 + length (task' # tasks) \<le> y \<longrightarrow> h' y = ?h y"
    using "3.IH" [OF list.distinct(2)] by blast
  have "h' node = ?h node" using h'(4) by simp
  then have "linked h' node p (first_of [node + 1..<node + 1 + length (task' # tasks)] None)"
    and "map_option tn_task (h' node) = Some task"
    by (simp_all add: linked_def first_of_upt del: upt_Suc)
  moreover have "[node..<node + length (task # task' # tasks)] = node # [node + 1..<node + 1 + length (task' # tasks)]"
    by (subst upt_rec) simp
  moreover have "\<forall>i < length (task # task' # tasks). map_option tn_task (h' (node + i)) = Some ((task # task' # tasks) ! i)"
  proof (intro allI impI)
    fix i assume i: "i < length (task # task' # tasks)"
    show "map_option tn_task (h' (node + i)) = Some ((task # task' # tasks) ! i)"
    proof (cases i)
      case 0
      then show ?thesis using calculation(2) by simp
    next
      case (Suc j)
      then show ?thesis using h'(3) [rule_format, of j] i by simp
    qed
  qed
  ultimately show ?case using h' by (intro exI [of _ h']) (simp del: upt_Suc)
qed simp

lemma task_store_init_holds:
  assumes "tasks \<noteq> []"
  shows "\<exists>h' st. task_store_init h node tasks = Some (h', st) \<and>
    queue_holds h' (task_queue_init_store st) [node..<node + length tasks] \<and>
    (\<forall>i < length tasks. map_option tn_task (h' (node + i)) = Some (tasks ! i))"
proof -
  obtain h' where h': "link_nodes h None node tasks = Some (h', node + length tasks - 1)"
    "seg h' None [node..<node + length tasks] None"
    "\<forall>i < length tasks. map_option tn_task (h' (node + i)) = Some (tasks ! i)"
    using link_nodes_holds [OF assms, of h None node] by blast
  have "node < node + length tasks" using assms by simp
  note this first_of_upt [OF this, of None] last_upt [OF this]
  then show ?thesis
    using h' by (simp add: task_store_init_def task_queue_init_store_def queue_holds_def last_of_def)
qed

lemma task_queue_init_empty_holds: "queue_holds h task_queue_init_empty []"
  by (simp add: task_queue_init_empty_def queue_holds_def)

lemma task_queue_reload_holds:
  "queue_holds h (task_queue_init_store st) xs \<Longrightarrow> queue_holds h (task_queue_reload q st) xs"
  by (simp add: queue_holds_def task_queue_init_store_def task_queue_reload_def)

lemma task_queue_retreive_holds:
  "queue_holds h q xs \<Longrightarrow> task_queue_retreive_cold_quiet q st = (q', st') \<Longrightarrow>
    queue_holds h q' [] \<and> queue_holds h (task_queue_init_store st') xs"
  by (auto simp: queue_holds_def task_queue_init_store_def task_queue_retreive_cold_quiet_def)

text \<open>
  Transferring to a queue that is not empty links the nodes but leaves the last pointer behind, so
  the result holds no list at all.
\<close>

lemma seg_unique: "seg h p xs None \<Longrightarrow> seg h p ys None \<Longrightarrow> first_of xs None = first_of ys None \<Longrightarrow> xs = ys"
proof (induction xs arbitrary: p ys)
  case Nil
  then show ?case by (metis first_of_None first_of_simps(1))
next
  case (Cons x xs)
  then obtain zs where ys: "ys = x # zs" by (cases ys) auto
  have "first_of xs None = first_of zs None"
    using Cons.prems(1,2) by (auto simp: ys linked_def)
  then show ?case using Cons.IH [of "Some x" zs] Cons.prems(1,2) by (simp add: ys)
qed

lemma task_queue_transfer_all_links:
  assumes "queue_holds h q1 (x # xs)" "queue_holds h q2 (ys @ [y])" "set (x # xs) \<inter> set (ys @ [y]) = {}"
  shows "\<exists>h' q1' q2'. task_queue_transfer_all h q1 q2 = Some (h', q1', q2') \<and> queue_holds h' q1' [] \<and>
    seg h' None ((ys @ [y]) @ x # xs) None \<and> tq_head q2' = first_of (ys @ [y]) None \<and> tq_last q2' = Some y"
proof -
  have q: "seg h None (x # xs) None" "distinct (x # xs)" "seg h None (ys @ [y]) None" "distinct (ys @ [y])"
    "tq_head q1 = Some x" "tq_last q2 = Some y" "tq_head q2 = first_of (ys @ [y]) None"
    using assms(1,2) by (simp_all add: queue_holds_def)
  obtain h1 where h1: "set_prev h x (Some y) = Some h1" "seg h1 (Some y) (x # xs) None" "\<And>z. z \<noteq> x \<Longrightarrow> h1 z = h z"
    using seg_set_prev [OF q(1,2)] by metis
  have "\<forall>z \<in> set (ys @ [y]). h1 z = h z" using assms(3) by (auto intro!: h1(3))
  then have "seg h1 None (ys @ [y]) None" using q(3) seg_cong by metis
  then obtain h2 where h2: "set_next h1 y (Some x) = Some h2" "seg h2 None (ys @ [y]) (Some x)" "\<And>z. z \<noteq> y \<Longrightarrow> h2 z = h1 z"
    using seg_set_next [of h1 None ys y None] q(4) by metis
  have "\<forall>z \<in> set (x # xs). h2 z = h1 z" using assms(3) by (auto intro!: h2(3))
  then have "seg h2 (Some y) (x # xs) None" using h1(2) seg_cong by metis
  then have "seg h2 None ((ys @ [y]) @ x # xs) None"
    using h2(2) by (simp only: seg_append [of _ _ "ys @ [y]"] first_of_simps last_of_simps)
  then show ?thesis
    using q(5-7) h1(1) h2(1) by (simp add: task_queue_transfer_all_def queue_holds_def)
qed

section \<open>The interface of a first-in first-out queue\<close>

fun push_all :: "('h \<Rightarrow> 'q \<Rightarrow> 'n \<Rightarrow> ('h \<times> 'q) option) \<Rightarrow> 'h \<Rightarrow> 'q \<Rightarrow> 'n list \<Rightarrow> ('h \<times> 'q) option" where
  "push_all push h q [] = Some (h, q)"
| "push_all push h q (n # ns) = do { (h', q') \<leftarrow> push h q n; push_all push h' q' ns }"

fun pop_times :: "('h \<Rightarrow> 'q \<Rightarrow> ('h \<times> 'q \<times> 'n) option) \<Rightarrow> 'h \<Rightarrow> 'q \<Rightarrow> nat \<Rightarrow> ('h \<times> 'q \<times> 'n list) option" where
  "pop_times pop h q 0 = Some (h, q, [])"
| "pop_times pop h q (Suc k) =
     do { (h', q', n) \<leftarrow> pop h q; (h'', q'', ns) \<leftarrow> pop_times pop h' q' k; Some (h'', q'', n # ns) }"

locale fifo_queue =
  fixes push :: "'h \<Rightarrow> 'q \<Rightarrow> 'n \<Rightarrow> ('h \<times> 'q) option"
    and pop :: "'h \<Rightarrow> 'q \<Rightarrow> ('h \<times> 'q \<times> 'n) option"
    and holds :: "'h \<Rightarrow> 'q \<Rightarrow> 'n list \<Rightarrow> bool"
    and live :: "'h \<Rightarrow> 'n set"
  assumes push_holds: "holds h q xs \<Longrightarrow> n \<in> live h \<Longrightarrow> n \<notin> set xs \<Longrightarrow>
      \<exists>h' q'. push h q n = Some (h', q') \<and> holds h' q' (xs @ [n]) \<and> live h' = live h"
    and pop_holds: "holds h q (x # xs) \<Longrightarrow> \<exists>h' q'. pop h q = Some (h', q', x) \<and> holds h' q' xs \<and> live h' = live h"
begin

lemma push_all_holds:
  "holds h q xs \<Longrightarrow> set ns \<subseteq> live h \<Longrightarrow> distinct (xs @ ns) \<Longrightarrow>
    \<exists>h' q'. push_all push h q ns = Some (h', q') \<and> holds h' q' (xs @ ns) \<and> live h' = live h"
proof (induction ns arbitrary: h q xs)
  case (Cons n ns)
  obtain h' q' where 1: "push h q n = Some (h', q')" "holds h' q' (xs @ [n])" "live h' = live h"
    using push_holds [OF Cons.prems(1), of n] Cons.prems(2,3) by auto
  then show ?case using Cons.IH [OF 1(2)] Cons.prems(2,3) by simp
qed simp

lemma pop_times_holds:
  "holds h q (xs @ ys) \<Longrightarrow>
    \<exists>h' q'. pop_times pop h q (length xs) = Some (h', q', xs) \<and> holds h' q' ys \<and> live h' = live h"
proof (induction xs arbitrary: h q)
  case (Cons x xs)
  obtain h' q' where 1: "pop h q = Some (h', q', x)" "holds h' q' (xs @ ys)" "live h' = live h"
    using pop_holds [of h q x "xs @ ys"] Cons.prems by auto
  then show ?case using Cons.IH [OF 1(2)] by auto
qed simp

lemma first_in_first_out:
  assumes "holds h q xs" "set ns \<subseteq> live h" "distinct (xs @ ns)"
  shows "\<exists>h1 q1 h2 q2. push_all push h q ns = Some (h1, q1) \<and>
    pop_times pop h1 q1 (length (xs @ ns)) = Some (h2, q2, xs @ ns) \<and> holds h2 q2 []"
proof -
  obtain h1 q1 where 1: "push_all push h q ns = Some (h1, q1)" "holds h1 q1 ((xs @ ns) @ [])"
    using push_all_holds [OF assms] by auto
  show ?thesis using 1(1) pop_times_holds [OF 1(2)] by auto
qed

end

text \<open>The queue of the program, without the signals.\<close>

definition pop_node :: "'a heap \<Rightarrow> task_queue \<Rightarrow> ('a heap \<times> task_queue \<times> nat) option" where
  "pop_node h q = do { (h', q', node, _) \<leftarrow> task_queue_pop h q; Some (h', q', node) }"

lemma relinks_dom: "relinks S h h' \<Longrightarrow> dom h' = dom h"
  by (metis (no_types, lifting) relinks_def domIff map_option_is_None subsetI subset_antisym)

interpretation task_queues: fifo_queue task_queue_push_quiet pop_node queue_holds dom
proof unfold_locales
  fix h :: "'a heap" and q :: task_queue and xs :: "nat list" and n :: nat
  assume "queue_holds h q xs" "n \<in> dom h" "n \<notin> set xs"
  then show "\<exists>h' q'. task_queue_push_quiet h q n = Some (h', q') \<and> queue_holds h' q' (xs @ [n]) \<and> dom h' = dom h"
    using task_queue_push_quiet_holds [of h q xs n] relinks_dom by blast
next
  fix h :: "'a heap" and q :: task_queue and x :: nat and xs :: "nat list"
  assume "queue_holds h q (x # xs)"
  then obtain h' q' where "task_queue_pop h q = Some (h', q', x, xs = [])" "queue_holds h' q' xs" "relinks (set xs) h h'"
    using task_queue_pop_holds by blast
  then show "\<exists>h' q'. pop_node h q = Some (h', q', x) \<and> queue_holds h' q' xs \<and> dom h' = dom h"
    by (simp add: pop_node_def relinks_dom)
qed

text \<open>
  C22: the task queue is first-in first-out (its comments call it LIFO): nodes pushed one after the
  other on a queue come out after those it held, in the order they were pushed, and leave it empty;
  no link is followed outside the nodes.
\<close>

theorem task_queue_first_in_first_out:
  assumes "queue_holds h q xs" "set ns \<subseteq> dom h" "distinct (xs @ ns)"
  shows "\<exists>h1 q1 h2 q2. push_all task_queue_push_quiet h q ns = Some (h1, q1) \<and>
    pop_times pop_node h1 q1 (length (xs @ ns)) = Some (h2, q2, xs @ ns) \<and> queue_holds h2 q2 []"
  using assms by (rule task_queues.first_in_first_out)

theorem task_queue_first_in_first_out_witness:
  "let nd = \<lparr>tn_task = ''task'', tn_prev = None, tn_next = None\<rparr>; h = [(1::nat) \<mapsto> nd, 2 \<mapsto> nd, 3 \<mapsto> nd]
   in \<exists>h1 q1 h2 q2. push_all task_queue_push_quiet h task_queue_init_empty [2, 1, 3] = Some (h1, q1) \<and>
        pop_times pop_node h1 q1 (length ([] @ [2, 1, 3 :: nat])) = Some (h2, q2, [] @ [2, 1, 3]) \<and> queue_holds h2 q2 []"
  unfolding Let_def by (rule task_queue_first_in_first_out [of _ _ "[]"]) (simp_all add: task_queue_init_empty_holds)

text \<open>
  removing a node keeps the other nodes in order, wherever the node is, touches no link outside
  the queue, and signals \<open>empty\<close> exactly when the node was the only one.
\<close>

theorem task_queue_remove_keeps_order:
  assumes "queue_holds h q (ys @ x # zs)"
  shows "\<exists>h' q'. task_queue_remove h q x = Some (h', q', ys @ zs = []) \<and> queue_holds h' q' (ys @ zs) \<and>
    relinks (set (ys @ zs)) h h'"
  using assms by (rule task_queue_remove_holds)

theorem task_queue_remove_keeps_order_witness:
  "\<exists>h st h' q'. task_store_init (\<lambda>_. None) 7 [''a'', ''b'', ''c''] = Some (h, st) \<and>
    task_queue_remove h (task_queue_init_store st) 8 = Some (h', q', [7] @ [9] = ([] :: nat list)) \<and>
    queue_holds h' q' ([7] @ [9]) \<and> relinks (set ([7] @ [9])) h h'"
proof -
  obtain h st where h: "task_store_init (\<lambda>_. None) 7 [''a'', ''b'', ''c''] = Some (h, st)"
    "queue_holds h (task_queue_init_store st) [7..<7 + length [''a'', ''b'', ''c'']]"
    using task_store_init_holds [of "[''a'', ''b'', ''c'']" "\<lambda>_. None" 7] by blast
  have u: "[7..<7 + length [''a'', ''b'', ''c'']] = [7] @ 8 # [9]" by (simp add: upt_conv_Cons)
  obtain h' q' where r: "task_queue_remove h (task_queue_init_store st) 8 = Some (h', q', [7] @ [9] = ([] :: nat list))"
    "queue_holds h' q' ([7] @ [9])" "relinks (set ([7] @ [9])) h h'"
    using task_queue_remove_keeps_order [OF h(2) [unfolded u]] by blast
  show ?thesis by (intro exI conjI) (rule h(1), rule r(1), rule r(2), rule r(3))
qed

text \<open>
  \<open>task_queue_transfer_all\<close> onto a queue that is not empty links the nodes behind it but leaves
  \<open>last\<close> at the old last node: the result is not a queue of any list of nodes, and a later push
  would cut the transferred nodes off.
\<close>

theorem task_queue_transfer_all_breaks:
  assumes "queue_holds h q1 (x # xs)" "queue_holds h q2 (ys @ [y])" "set (x # xs) \<inter> set (ys @ [y]) = {}"
  shows "\<exists>h' q1' q2'. task_queue_transfer_all h q1 q2 = Some (h', q1', q2') \<and> \<not> (\<exists>zs. queue_holds h' q2' zs)"
proof -
  obtain h' q1' q2' where t: "task_queue_transfer_all h q1 q2 = Some (h', q1', q2')"
    "seg h' None ((ys @ [y]) @ x # xs) None" "tq_head q2' = first_of (ys @ [y]) None" "tq_last q2' = Some y"
    using task_queue_transfer_all_links [OF assms] by blast
  have "\<not> queue_holds h' q2' zs" for zs
  proof
    assume z: "queue_holds h' q2' zs"
    have "tq_head q2' = first_of zs None" "tq_last q2' = last_of zs None" "seg h' None zs None"
      using z by (simp_all only: queue_holds_def)
    moreover have "first_of ((ys @ [y]) @ x # xs) None = first_of (ys @ [y]) None" by (cases ys) simp_all
    ultimately have e: "first_of ((ys @ [y]) @ x # xs) None = first_of zs None" "last_of zs None = Some y" "seg h' None zs None"
      using t(3,4) by metis+
    have "(ys @ [y]) @ x # xs = zs" using seg_unique [OF t(2) e(3) e(1)] .
    then have "last (x # xs) = y" using e(2) by (auto simp: last_of_def)
    then show False using assms(3) last_in_set [of "x # xs"] by auto
  qed
  then show ?thesis using t(1) by blast
qed

theorem task_queue_transfer_all_breaks_witness:
  "let h = [(1::nat) \<mapsto> \<lparr>tn_task = ''a'', tn_prev = None, tn_next = None\<rparr>,
            2 \<mapsto> \<lparr>tn_task = ''b'', tn_prev = None, tn_next = None\<rparr>];
       q1 = \<lparr>tq_head = Some 1, tq_last = Some 1\<rparr>; q2 = \<lparr>tq_head = Some 2, tq_last = Some 2\<rparr>
   in \<exists>h' q1' q2'. task_queue_transfer_all h q1 q2 = Some (h', q1', q2') \<and> \<not> (\<exists>zs. queue_holds h' q2' zs)"
  unfolding Let_def
  by (rule task_queue_transfer_all_breaks [of _ _ 1 "[]" _ "[]" 2]) (simp_all add: queue_holds_def linked_def)

end
