(* ===== verification/Thread_Pool.thy ===== *)
theory Thread_Pool
  imports Task_Queue "HOL-Library.Multiset"
begin

text \<open>
  The thread pool of \<open>src/thread/thread_pool.h\<close> and the phases \<open>mysql_seed_generate\<close> runs on it
  (\<open>src/generate/generate.h\<close>): the workers, the supervisor and the main thread as a state machine
  over the queues of \<^theory_text>\<open>Task_Queue\<close>. A step of a thread is the code between two points where
  other threads can interfere: one critical section, one call of a task, one read of an event. A
  thread that waits on a condition sleeps until it is signalled, or until a spurious wake-up.
\<close>

section \<open>State\<close>

text \<open>
  Where a worker is in \<open>worker_process_tasks\<close>: about to pop the backlog, asleep on its
  \<open>node_ready\<close>, calling the task of a node, back from that call, past the removal of the node from
  \<open>active\<close>, or gone.
\<close>

datatype worker = Idle | Waiting | Running nat | Ran nat | Removed nat | Dead

datatype pool_exit = Exit_Success | Exit_Failure

text \<open>Where the supervisor is: listening, or at a step of one of its two events, or gone.\<close>

datatype supervisor =
  Listening | Succeeding | Failing_Cancel | Failing_Backlog | Failing_Active | Failing_Status | Gone

text \<open>
  Where the main thread is: in one of the two waits of \<open>thread_pool_await\<close>, awake or asleep; past
  them; in \<open>thread_pool_await_exit_success\<close>; or at the end, with the status it reports.
\<close>

datatype main =
  Await_Backlog | Asleep_Backlog | Await_Active | Asleep_Active | Awaited | Await_Exit | Ended pool_exit

record 'a pool =
  p_heap :: "'a heap"
  p_backlog :: task_queue
  p_active :: task_queue
  p_complete :: task_queue
  p_workers :: "worker list"
  p_event :: "pool_exit option"
  p_supervisor :: supervisor
  p_cancelled :: bool
  p_busy :: bool
  p_exit :: pool_exit
  p_main :: main
  p_stores :: "task_store list"
  p_log :: "'a list"

section \<open>Steps\<close>

text \<open>The signals of the conditions \<open>empty\<close> of the backlog and of the active queue.\<close>

definition signal_backlog_empty :: "'a pool \<Rightarrow> 'a pool" where
  "signal_backlog_empty s = (if p_main s = Asleep_Backlog then s\<lparr>p_main := Await_Backlog\<rparr> else s)"

definition signal_active_empty :: "'a pool \<Rightarrow> 'a pool" where
  "signal_active_empty s = (if p_main s = Asleep_Active then s\<lparr>p_main := Await_Active\<rparr> else s)"

definition worker_pop_push :: "nat \<Rightarrow> 'a pool \<Rightarrow> 'a pool option" where
  "worker_pop_push i s =
     (if task_queue_peek (p_backlog s) = None then Some (s\<lparr>p_workers := (p_workers s)[i := Waiting]\<rparr>)
      else do { (h, backlog, active, node) \<leftarrow> task_queue_pop_push (p_heap s) (p_backlog s) (p_active s);
                let s = s\<lparr>p_heap := h, p_backlog := backlog, p_active := active,
                          p_workers := (p_workers s)[i := Running node]\<rparr>;
                Some (if tq_head backlog = None then signal_backlog_empty s else s) })"

text \<open>The call of a task is over: what it did is outside the pool, that it happened is logged.\<close>

definition worker_call :: "nat \<Rightarrow> nat \<Rightarrow> 'a pool \<Rightarrow> 'a pool option" where
  "worker_call i node s =
     do { nd \<leftarrow> p_heap s node;
          Some (s\<lparr>p_log := p_log s @ [tn_task nd], p_workers := (p_workers s)[i := Ran node]\<rparr>) }"

definition worker_remove :: "nat \<Rightarrow> nat \<Rightarrow> 'a pool \<Rightarrow> 'a pool option" where
  "worker_remove i node s =
     do { (h, active, emptied) \<leftarrow> task_queue_remove (p_heap s) (p_active s) node;
          let s = s\<lparr>p_heap := h, p_active := active, p_workers := (p_workers s)[i := Removed node]\<rparr>;
          Some (if emptied then signal_active_empty s else s) }"

definition worker_complete :: "nat \<Rightarrow> nat \<Rightarrow> 'a pool \<Rightarrow> 'a pool option" where
  "worker_complete i node s =
     do { (h, complete) \<leftarrow> task_queue_push_quiet (p_heap s) (p_complete s) node;
          Some (s\<lparr>p_heap := h, p_complete := complete, p_workers := (p_workers s)[i := Idle]\<rparr>) }"

text \<open>One step of the loop of \<open>worker_process_tasks\<close>.\<close>

definition worker_process_tasks :: "nat \<Rightarrow> 'a pool \<Rightarrow> 'a pool option" where
  "worker_process_tasks i s =
     (if i < length (p_workers s)
      then case p_workers s ! i of
             Idle \<Rightarrow> worker_pop_push i s
           | Waiting \<Rightarrow> None
           | Running node \<Rightarrow> worker_call i node s
           | Ran node \<Rightarrow> worker_remove i node s
           | Removed node \<Rightarrow> worker_complete i node s
           | Dead \<Rightarrow> None
      else None)"

text \<open>
  A task that fails calls the failure closure of its worker, \<open>worker_exit_on_failure\<close>: it asks the
  supervisor for \<open>supervisor_exit_failure\<close> and the worker exits.
\<close>

definition supervisor_signal :: "pool_exit \<Rightarrow> 'a pool \<Rightarrow> 'a pool" where
  "supervisor_signal event s = s\<lparr>p_event := Some event\<rparr>"

definition worker_exit_on_failure :: "nat \<Rightarrow> 'a pool \<Rightarrow> 'a pool option" where
  "worker_exit_on_failure i s =
     (if i < length (p_workers s)
      then case p_workers s ! i of
             Running node \<Rightarrow> Some (supervisor_signal Exit_Failure (s\<lparr>p_workers := (p_workers s)[i := Dead]\<rparr>))
           | _ \<Rightarrow> None
      else None)"

text \<open>A cancelled worker dies at a cancellation point: asleep on a condition, or inside a task.\<close>

definition worker_cancelled :: "nat \<Rightarrow> 'a pool \<Rightarrow> 'a pool option" where
  "worker_cancelled i s =
     (if p_cancelled s \<and> i < length (p_workers s)
      then case p_workers s ! i of
             Waiting \<Rightarrow> Some (s\<lparr>p_workers := (p_workers s)[i := Dead]\<rparr>)
           | Running node \<Rightarrow> Some (s\<lparr>p_workers := (p_workers s)[i := Dead]\<rparr>)
           | _ \<Rightarrow> None
      else None)"

definition worker_crew_cancel :: "'a pool \<Rightarrow> 'a pool" where
  "worker_crew_cancel s = s\<lparr>p_cancelled := True\<rparr>"

definition thread_pool_status_set :: "pool_exit \<Rightarrow> 'a pool \<Rightarrow> 'a pool" where
  "thread_pool_status_set status s = s\<lparr>p_exit := status, p_busy := False\<rparr>"

text \<open>
  \<open>supervisor_listen\<close>, then \<open>supervisor_do_exit_success\<close> or \<open>supervisor_do_exit_failure\<close>, one
  critical section at a time.
\<close>

definition supervisor_step :: "'a pool \<Rightarrow> 'a pool option" where
  "supervisor_step s =
     (case p_supervisor s of
        Listening \<Rightarrow>
          (case p_event s of
             None \<Rightarrow> None
           | Some Exit_Success \<Rightarrow> Some ((worker_crew_cancel s)\<lparr>p_supervisor := Succeeding\<rparr>)
           | Some Exit_Failure \<Rightarrow> Some (s\<lparr>p_supervisor := Failing_Cancel\<rparr>))
      | Succeeding \<Rightarrow> Some ((thread_pool_status_set Exit_Success s)\<lparr>p_supervisor := Gone\<rparr>)
      | Failing_Cancel \<Rightarrow> Some ((worker_crew_cancel s)\<lparr>p_supervisor := Failing_Backlog\<rparr>)
      | Failing_Backlog \<Rightarrow>
          let s' = s\<lparr>p_backlog := task_queue_clear (p_backlog s), p_supervisor := Failing_Active\<rparr>
          in Some (if task_queue_peek (p_backlog s) = None then s' else signal_backlog_empty s')
      | Failing_Active \<Rightarrow>
          let s' = s\<lparr>p_active := task_queue_clear (p_active s), p_supervisor := Failing_Status\<rparr>
          in Some (if task_queue_peek (p_active s) = None then s' else signal_active_empty s')
      | Failing_Status \<Rightarrow> Some ((thread_pool_status_set Exit_Failure s)\<lparr>p_supervisor := Gone\<rparr>)
      | Gone \<Rightarrow> None)"

text \<open>\<open>node_ready\<close> wakes the worker \<open>j\<close> when it is asleep.\<close>

definition wake_worker :: "nat \<Rightarrow> 'a pool \<Rightarrow> 'a pool" where
  "wake_worker j s =
     (if j < length (p_workers s) \<and> p_workers s ! j = Waiting then s\<lparr>p_workers := (p_workers s)[j := Idle]\<rparr> else s)"

definition thread_pool_reload :: "nat \<Rightarrow> task_store \<Rightarrow> 'a pool \<Rightarrow> 'a pool" where
  "thread_pool_reload j st s = wake_worker j (s\<lparr>p_backlog := task_queue_reload (p_backlog s) st\<rparr>)"

text \<open>
  The main thread: \<open>thread_pool_await\<close>; when tasks remain, \<open>thread_pool_alive\<close> and
  \<open>thread_pool_reload\<close>; when none does, \<open>thread_pool_stop\<close>, \<open>thread_pool_await_exit_success\<close> and the
  exit status. \<open>j\<close> is the worker the reload wakes.
\<close>

definition main_step :: "nat \<Rightarrow> 'a pool \<Rightarrow> 'a pool option" where
  "main_step j s =
     (case p_main s of
        Await_Backlog \<Rightarrow>
          Some (s\<lparr>p_main := if task_queue_peek (p_backlog s) = None then Await_Active else Asleep_Backlog\<rparr>)
      | Await_Active \<Rightarrow> Some (s\<lparr>p_main := if task_queue_peek (p_active s) = None then Awaited else Asleep_Active\<rparr>)
      | Awaited \<Rightarrow>
          (case p_stores s of
             [] \<Rightarrow> Some ((supervisor_signal Exit_Success s)\<lparr>p_main := Await_Exit\<rparr>)
           | st # sts \<Rightarrow>
               if p_busy s then Some ((thread_pool_reload j st s)\<lparr>p_main := Await_Backlog, p_stores := sts\<rparr>)
               else Some (s\<lparr>p_main := Ended Exit_Failure\<rparr>))
      | Await_Exit \<Rightarrow> if p_busy s then None else Some (s\<lparr>p_main := Ended (p_exit s)\<rparr>)
      | _ \<Rightarrow> None)"

text \<open>The signal of a reload reaches a sleeping worker when there is one.\<close>

definition may_wake :: "nat \<Rightarrow> 'a pool \<Rightarrow> bool" where
  "may_wake j s \<longleftrightarrow> (j < length (p_workers s) \<and> p_workers s ! j = Waiting) \<or> Waiting \<notin> set (p_workers s)"

datatype event =
  Worker nat | Worker_Cancelled nat | Worker_Fails nat | Supervisor | Main nat | Spurious_Worker nat | Spurious_Main

text \<open>What an event does; no value when the thread cannot make it.\<close>

definition pool_event :: "event \<Rightarrow> 'a pool \<Rightarrow> 'a pool option" where
  "pool_event e s =
     (case e of
        Worker i \<Rightarrow> worker_process_tasks i s
      | Worker_Cancelled i \<Rightarrow> worker_cancelled i s
      | Worker_Fails i \<Rightarrow> worker_exit_on_failure i s
      | Supervisor \<Rightarrow> supervisor_step s
      | Main j \<Rightarrow> if may_wake j s then main_step j s else None
      | Spurious_Worker i \<Rightarrow>
          if i < length (p_workers s) \<and> p_workers s ! i = Waiting
          then Some (s\<lparr>p_workers := (p_workers s)[i := Idle]\<rparr>) else None
      | Spurious_Main \<Rightarrow>
          (case p_main s of
             Asleep_Backlog \<Rightarrow> Some (s\<lparr>p_main := Await_Backlog\<rparr>)
           | Asleep_Active \<Rightarrow> Some (s\<lparr>p_main := Await_Active\<rparr>)
           | _ \<Rightarrow> None))"

fun pool_run :: "event list \<Rightarrow> 'a pool \<Rightarrow> 'a pool option" where
  "pool_run [] s = Some s"
| "pool_run (e # es) s = do { s \<leftarrow> pool_event e s; pool_run es s }"

text \<open>
  A step of the program: any event (\<open>pool_step\<close>); one in which no task fails (\<open>calm_step\<close>); and one
  in which no task fails and no thread wakes without a signal (\<open>quiet_step\<close>).
\<close>

inductive pool_step :: "'a pool \<Rightarrow> 'a pool \<Rightarrow> bool" where
  pool_event: "pool_event e s = Some s' \<Longrightarrow> pool_step s s'"

inductive calm_step :: "'a pool \<Rightarrow> 'a pool \<Rightarrow> bool" where
  calm_event: "pool_event e s = Some s' \<Longrightarrow> (\<And>i. e \<noteq> Worker_Fails i) \<Longrightarrow> calm_step s s'"

inductive quiet_step :: "'a pool \<Rightarrow> 'a pool \<Rightarrow> bool" where
  quiet_event: "pool_event e s = Some s' \<Longrightarrow> (\<And>i. e \<noteq> Worker_Fails i) \<Longrightarrow> (\<And>i. e \<noteq> Spurious_Worker i) \<Longrightarrow>
    e \<noteq> Spurious_Main \<Longrightarrow> quiet_step s s'"

section \<open>The pool at its start\<close>

definition worker_crew_init :: "nat \<Rightarrow> worker list" where
  "worker_crew_init count_workers = replicate (max 1 count_workers) Idle"

text \<open>
  \<open>thread_pool_init\<close> and \<open>thread_pool_start\<close>, with the stores of the later phases in the hands of the
  main thread.
\<close>

definition thread_pool_init :: "'a heap \<Rightarrow> task_store \<Rightarrow> nat \<Rightarrow> task_store list \<Rightarrow> 'a pool" where
  "thread_pool_init h st count_workers sts =
     \<lparr>p_heap = h, p_backlog = task_queue_init_store st, p_active = task_queue_init_empty,
      p_complete = task_queue_init_empty, p_workers = worker_crew_init count_workers, p_event = None,
      p_supervisor = Listening, p_cancelled = False, p_busy = True, p_exit = Exit_Success,
      p_main = Await_Backlog, p_stores = sts, p_log = []\<rparr>"

section \<open>What the pool holds in a calm run\<close>

definition removed_of :: "worker \<Rightarrow> nat list" where
  "removed_of w = (case w of Removed n \<Rightarrow> [n] | _ \<Rightarrow> [])"

definition busy_of :: "worker \<Rightarrow> nat list" where
  "busy_of w = (case w of Running n \<Rightarrow> [n] | Ran n \<Rightarrow> [n] | _ \<Rightarrow> [])"

definition ran_of :: "worker \<Rightarrow> nat list" where
  "ran_of w = (case w of Ran n \<Rightarrow> [n] | Removed n \<Rightarrow> [n] | _ \<Rightarrow> [])"

definition nodes_of :: "(worker \<Rightarrow> nat list) \<Rightarrow> worker list \<Rightarrow> nat list" where
  "nodes_of f ws = concat (map f ws)"

lemmas worker_node_defs = removed_of_def busy_of_def ran_of_def

text \<open>
  The lists behind a state: the nodes of the phases that are over, of the one under way and of the
  later ones; the nodes in each queue; the nodes run by each phase that is over and by this one, in
  the order their tasks returned.
\<close>

record pool_view =
  v_past :: "nat list list"
  v_now :: "nat list"
  v_later :: "nat list list"
  v_backlog :: "nat list"
  v_active :: "nat list"
  v_complete :: "nat list"
  v_ran_past :: "nat list list"
  v_ran_now :: "nat list"

definition view_phases :: "pool_view \<Rightarrow> nat list list" where
  "view_phases v = v_past v @ v_now v # v_later v"

definition memory_ok :: "(nat \<Rightarrow> 'a) \<Rightarrow> pool_view \<Rightarrow> 'a pool \<Rightarrow> bool" where
  "memory_ok task v s \<longleftrightarrow>
     queue_holds (p_heap s) (p_backlog s) (v_backlog v) \<and> queue_holds (p_heap s) (p_active s) (v_active v) \<and>
     queue_holds (p_heap s) (p_complete s) (v_complete v) \<and>
     list_all2 (\<lambda>st xs. queue_holds (p_heap s) (task_queue_init_store st) xs) (p_stores s) (v_later v) \<and>
     (\<forall>n \<in> set (concat (view_phases v)). map_option tn_task (p_heap s n) = Some (task n))"

definition nodes_ok :: "pool_view \<Rightarrow> worker list \<Rightarrow> bool" where
  "nodes_ok v ws \<longleftrightarrow>
     distinct (concat (view_phases v)) \<and> [] \<notin> set (view_phases v) \<and>
     mset (concat (v_past v)) + mset (v_now v) =
       mset (v_backlog v) + mset (v_active v) + mset (v_complete v) + mset (nodes_of removed_of ws) \<and>
     mset (v_active v) = mset (nodes_of busy_of ws)"

definition log_ok :: "(nat \<Rightarrow> 'a) \<Rightarrow> pool_view \<Rightarrow> 'a pool \<Rightarrow> bool" where
  "log_ok task v s \<longleftrightarrow>
     list_all2 (\<lambda>l xs. mset l = mset xs) (v_ran_past v) (v_past v) \<and>
     mset (concat (v_ran_past v)) + mset (v_ran_now v) = mset (v_complete v) + mset (nodes_of ran_of (p_workers s)) \<and>
     p_log s = map task (concat (v_ran_past v) @ v_ran_now v)"

definition main_ok :: "pool_view \<Rightarrow> main \<Rightarrow> bool" where
  "main_ok v m \<longleftrightarrow>
     (case m of
        Await_Backlog \<Rightarrow> True
      | Asleep_Backlog \<Rightarrow> v_backlog v \<noteq> []
      | Await_Active \<Rightarrow> v_backlog v = []
      | Asleep_Active \<Rightarrow> v_backlog v = [] \<and> v_active v \<noteq> []
      | _ \<Rightarrow> v_backlog v = [] \<and> v_active v = [])"

definition crew_ok :: "pool_view \<Rightarrow> 'a pool \<Rightarrow> bool" where
  "crew_ok v s \<longleftrightarrow>
     p_workers s \<noteq> [] \<and> (Dead \<in> set (p_workers s) \<longrightarrow> p_cancelled s) \<and>
     (v_backlog v \<noteq> [] \<longrightarrow> (\<exists>w \<in> set (p_workers s). w \<noteq> Waiting))"

definition awaiting :: "main \<Rightarrow> bool" where
  "awaiting m \<longleftrightarrow> m \<in> {Await_Backlog, Asleep_Backlog, Await_Active, Asleep_Active, Awaited}"

definition running_ok :: "'a pool \<Rightarrow> bool" where
  "running_ok s \<longleftrightarrow>
     p_event s = None \<and> p_supervisor s = Listening \<and> \<not> p_cancelled s \<and> p_busy s \<and>
     awaiting (p_main s)"

definition stopping_ok :: "'a pool \<Rightarrow> bool" where
  "stopping_ok s \<longleftrightarrow>
     p_event s = Some Exit_Success \<and> p_stores s = [] \<and> p_main s \<in> {Await_Exit, Ended Exit_Success} \<and>
     (p_supervisor s = Listening \<and> \<not> p_cancelled s \<and> p_busy s \<and> p_main s = Await_Exit \<or>
      p_supervisor s = Succeeding \<and> p_cancelled s \<and> p_busy s \<and> p_main s = Await_Exit \<or>
      p_supervisor s = Gone \<and> p_cancelled s \<and> \<not> p_busy s \<and> p_exit s = Exit_Success)"

definition control_ok :: "'a pool \<Rightarrow> bool" where
  "control_ok s \<longleftrightarrow> running_ok s \<or> stopping_ok s"

definition calm_view :: "(nat \<Rightarrow> 'a) \<Rightarrow> pool_view \<Rightarrow> 'a pool \<Rightarrow> bool" where
  "calm_view task v s \<longleftrightarrow>
     memory_ok task v s \<and> nodes_ok v (p_workers s) \<and> log_ok task v s \<and> main_ok v (p_main s) \<and> crew_ok v s \<and>
     control_ok s"

definition calm :: "(nat \<Rightarrow> 'a) \<Rightarrow> nat list list \<Rightarrow> 'a pool \<Rightarrow> bool" where
  "calm task phases s \<longleftrightarrow> (\<exists>v. view_phases v = phases \<and> calm_view task v s)"

lemmas calm_defs = calm_view_def memory_ok_def nodes_ok_def log_ok_def crew_ok_def

lemma calmI: "view_phases v = phases \<Longrightarrow> calm_view task v s \<Longrightarrow> calm task phases s"
  by (auto simp: calm_def)

lemma nodes_of_update:
  "i < length ws \<Longrightarrow> mset (nodes_of f (ws[i := w])) + mset (f (ws ! i)) = mset (nodes_of f ws) + mset (f w)"
proof (induction ws arbitrary: i)
  case (Cons v ws)
  show ?case
  proof (cases i)
    case (Suc j)
    then show ?thesis using Cons.IH [of j] Cons.prems by (simp add: nodes_of_def add.assoc)
  qed (simp add: nodes_of_def)
qed simp

lemma nodes_of_replicate [simp]: "f w = [] \<Longrightarrow> nodes_of f (replicate k w) = []"
  by (induction k) (simp_all add: nodes_of_def)


lemma queue_holds_peek: "queue_holds h q xs \<Longrightarrow> task_queue_peek q = None \<longleftrightarrow> xs = []"
  by (simp add: queue_holds_def task_queue_peek_def)

text \<open>All the lists of a view are apart.\<close>

lemma nodes_ok_apart:
  assumes "nodes_ok v ws"
  shows "distinct (v_backlog v @ v_active v @ v_complete v @ nodes_of removed_of ws @ concat (v_later v))"
proof -
  have "mset (concat (view_phases v)) =
    mset (v_backlog v @ v_active v @ v_complete v @ nodes_of removed_of ws @ concat (v_later v))"
    using assms by (simp add: nodes_ok_def view_phases_def add.assoc [symmetric])
  moreover have "distinct (concat (view_phases v))" using assms by (simp add: nodes_ok_def)
  ultimately show ?thesis using mset_eq_imp_distinct_iff by blast
qed

lemma nodes_of_member: "i < length ws \<Longrightarrow> n \<in> set (f (ws ! i)) \<Longrightarrow> n \<in> set (nodes_of f ws)"
  by (auto simp: nodes_of_def)

text \<open>Relinking a set of nodes apart from the rest of the memory.\<close>

lemma later_frame:
  assumes "relinks S h h'" "S \<inter> set (concat xss) = {}" "list_all2 (\<lambda>st xs. queue_holds h (task_queue_init_store st) xs) sts xss"
  shows "list_all2 (\<lambda>st xs. queue_holds h' (task_queue_init_store st) xs) sts xss"
  using assms(3,2)
proof (induction rule: list_all2_induct)
  case (Cons st sts xs xss)
  then show ?case using queue_holds_frame [OF assms(1), of xs "task_queue_init_store st"] by auto
qed simp

lemma tasks_frame:
  assumes "relinks S h h'" "\<forall>n \<in> N. map_option tn_task (h n) = Some (task n)"
  shows "\<forall>n \<in> N. map_option tn_task (h' n) = Some (task n)"
proof -
  have "map_option tn_task (h' n) = map_option tn_task (h n)" for n using assms(1) unfolding relinks_def by blast
  then show ?thesis using assms(2) by (simp only:)
qed

lemma update_nonwaiting: "w \<noteq> Waiting \<Longrightarrow> i < length ws \<Longrightarrow> \<exists>x \<in> set (ws[i := w]). x \<noteq> Waiting"
  by (metis length_list_update nth_list_update_eq nth_mem)

lemma Dead_update: "w \<noteq> Dead \<Longrightarrow> Dead \<in> set (ws[i := w]) \<Longrightarrow> Dead \<in> set ws"
  using set_update_subset_insert [of ws i w] by auto

text \<open>What the parts of the invariant do not depend on.\<close>

lemma memory_ok_frame [simp]:
  "memory_ok task v (s\<lparr>p_workers := ws\<rparr>) = memory_ok task v s" "memory_ok task v (s\<lparr>p_log := l\<rparr>) = memory_ok task v s"
  "memory_ok task v (s\<lparr>p_main := m\<rparr>) = memory_ok task v s" "memory_ok task v (s\<lparr>p_event := ev\<rparr>) = memory_ok task v s"
  "memory_ok task v (s\<lparr>p_supervisor := sv\<rparr>) = memory_ok task v s" "memory_ok task v (s\<lparr>p_cancelled := c\<rparr>) = memory_ok task v s"
  "memory_ok task v (s\<lparr>p_busy := b\<rparr>) = memory_ok task v s" "memory_ok task v (s\<lparr>p_exit := x\<rparr>) = memory_ok task v s"
  by (simp_all add: memory_ok_def)

lemma log_ok_frame [simp]:
  "log_ok task v (s\<lparr>p_heap := h\<rparr>) = log_ok task v s" "log_ok task v (s\<lparr>p_backlog := q\<rparr>) = log_ok task v s"
  "log_ok task v (s\<lparr>p_active := q\<rparr>) = log_ok task v s" "log_ok task v (s\<lparr>p_complete := q\<rparr>) = log_ok task v s"
  "log_ok task v (s\<lparr>p_main := m\<rparr>) = log_ok task v s" "log_ok task v (s\<lparr>p_event := ev\<rparr>) = log_ok task v s"
  "log_ok task v (s\<lparr>p_supervisor := sv\<rparr>) = log_ok task v s" "log_ok task v (s\<lparr>p_cancelled := c\<rparr>) = log_ok task v s"
  "log_ok task v (s\<lparr>p_busy := b\<rparr>) = log_ok task v s" "log_ok task v (s\<lparr>p_exit := x\<rparr>) = log_ok task v s"
  "log_ok task v (s\<lparr>p_stores := sts\<rparr>) = log_ok task v s"
  by (simp_all add: log_ok_def)

lemma crew_ok_frame [simp]:
  "crew_ok v (s\<lparr>p_heap := h\<rparr>) = crew_ok v s" "crew_ok v (s\<lparr>p_backlog := q\<rparr>) = crew_ok v s"
  "crew_ok v (s\<lparr>p_active := q\<rparr>) = crew_ok v s" "crew_ok v (s\<lparr>p_complete := q\<rparr>) = crew_ok v s"
  "crew_ok v (s\<lparr>p_main := m\<rparr>) = crew_ok v s" "crew_ok v (s\<lparr>p_event := ev\<rparr>) = crew_ok v s"
  "crew_ok v (s\<lparr>p_supervisor := sv\<rparr>) = crew_ok v s" "crew_ok v (s\<lparr>p_log := l\<rparr>) = crew_ok v s"
  "crew_ok v (s\<lparr>p_busy := b\<rparr>) = crew_ok v s" "crew_ok v (s\<lparr>p_exit := x\<rparr>) = crew_ok v s"
  "crew_ok v (s\<lparr>p_stores := sts\<rparr>) = crew_ok v s"
  by (simp_all add: crew_ok_def)

lemma control_ok_frame [simp]:
  "control_ok (s\<lparr>p_heap := h\<rparr>) = control_ok s" "control_ok (s\<lparr>p_backlog := q\<rparr>) = control_ok s"
  "control_ok (s\<lparr>p_active := q\<rparr>) = control_ok s" "control_ok (s\<lparr>p_complete := q\<rparr>) = control_ok s"
  "control_ok (s\<lparr>p_workers := ws\<rparr>) = control_ok s" "control_ok (s\<lparr>p_log := l\<rparr>) = control_ok s"
  by (simp_all add: control_ok_def running_ok_def stopping_ok_def)

lemma stopping_not_awaiting: "stopping_ok s \<Longrightarrow> \<not> awaiting (p_main s)"
  by (cases "p_main s") (simp_all add: stopping_ok_def awaiting_def)

lemma control_ok_main: "control_ok s \<Longrightarrow> awaiting (p_main s) \<Longrightarrow> awaiting m \<Longrightarrow> control_ok (s\<lparr>p_main := m\<rparr>)"
  using stopping_not_awaiting [of s] by (auto simp: control_ok_def running_ok_def)

lemma control_ok_signals:
  "control_ok s \<Longrightarrow> control_ok (signal_backlog_empty s)" "control_ok s \<Longrightarrow> control_ok (signal_active_empty s)"
  by (auto simp: signal_backlog_empty_def signal_active_empty_def awaiting_def intro: control_ok_main)

lemma calm_signals:
  assumes "memory_ok task v s" "nodes_ok v (p_workers s)" "log_ok task v s" "crew_ok v s" "control_ok s"
  shows "main_ok v (p_main (if b then signal_backlog_empty s else s)) \<Longrightarrow> calm_view task v (if b then signal_backlog_empty s else s)"
    and "main_ok v (p_main (if b then signal_active_empty s else s)) \<Longrightarrow> calm_view task v (if b then signal_active_empty s else s)"
  using assms control_ok_signals [OF assms(5)]
  by (simp_all add: calm_view_def signal_backlog_empty_def signal_active_empty_def split: if_splits)

lemma main_ok_cong: "v_backlog v' = v_backlog v \<Longrightarrow> v_active v' = v_active v \<Longrightarrow> main_ok v' m = main_ok v m"
  by (simp add: main_ok_def cong: main.case_cong)

lemma nodes_ok_task:
  assumes "nodes_ok v (p_workers s)" "memory_ok task v s" "n \<in> set (v_active v) \<union> set (nodes_of removed_of (p_workers s))"
  obtains nd where "p_heap s n = Some nd" "tn_task nd = task n"
proof -
  have "mset (concat (v_past v)) + mset (v_now v) =
      mset (v_backlog v) + mset (v_active v) + mset (v_complete v) + mset (nodes_of removed_of (p_workers s))"
    using assms(1) by (simp only: nodes_ok_def)
  from arg_cong [OF this, of set_mset] have "n \<in> set (concat (view_phases v))" using assms(3) by (auto simp: view_phases_def)
  then have "map_option tn_task (p_heap s n) = Some (task n)" using assms(2) unfolding memory_ok_def by blast
  then show thesis using that by auto
qed

lemma memory_ok_step:
  assumes "memory_ok task v s" "relinks S (p_heap s) (p_heap s')" "S \<inter> set (concat (v_later v)) = {}"
    "queue_holds (p_heap s') (p_backlog s') (v_backlog v')" "queue_holds (p_heap s') (p_active s') (v_active v')"
    "queue_holds (p_heap s') (p_complete s') (v_complete v')" "p_stores s' = p_stores s"
    "view_phases v' = view_phases v" "v_later v' = v_later v"
  shows "memory_ok task v' s'"
proof -
  have "list_all2 (\<lambda>st xs. queue_holds (p_heap s') (task_queue_init_store st) xs) (p_stores s) (v_later v)"
    using later_frame [OF assms(2,3)] assms(1) unfolding memory_ok_def by blast
  moreover have "\<forall>n \<in> set (concat (view_phases v)). map_option tn_task (p_heap s' n) = Some (task n)"
    using tasks_frame [OF assms(2)] assms(1) unfolding memory_ok_def by blast
  ultimately show ?thesis using assms(4-6) unfolding memory_ok_def assms(7-9) by blast
qed

lemma crew_ok_worker:
  assumes "crew_ok v s" "i < length (p_workers s)" "w \<noteq> Dead" "w \<noteq> Waiting"
    "p_workers s' = (p_workers s)[i := w]" "p_cancelled s' = p_cancelled s"
  shows "crew_ok v' s'"
  using assms(1,2,5,6) update_nonwaiting [OF assms(4,2)] Dead_update [OF assms(3), of "p_workers s" i] by (auto simp: crew_ok_def)

section \<open>Every calm step keeps the invariant\<close>

lemma pop_push_calm:
  assumes c: "calm_view task v s" and i: "i < length (p_workers s)" "p_workers s ! i = Idle"
  shows "\<exists>v' s'. worker_pop_push i s = Some s' \<and> view_phases v' = view_phases v \<and> calm_view task v' s'"
proof (cases "v_backlog v")
  case Nil
  note u = nodes_of_update [OF i(1), of _ Waiting]
  have "queue_holds (p_heap s) (p_backlog s) []" using c Nil by (simp add: calm_view_def memory_ok_def)
  then have "task_queue_peek (p_backlog s) = None" by (simp add: queue_holds_peek)
  then have e: "worker_pop_push i s = Some (s\<lparr>p_workers := (p_workers s)[i := Waiting]\<rparr>)" by (simp add: worker_pop_push_def)
  have "nodes_ok v ((p_workers s)[i := Waiting])"
    using c u [of removed_of] u [of busy_of] i(2) by (simp add: calm_view_def nodes_ok_def worker_node_defs)
  moreover have "log_ok task v (s\<lparr>p_workers := (p_workers s)[i := Waiting]\<rparr>)"
    using c u [of ran_of] i(2) by (simp add: calm_view_def log_ok_def worker_node_defs)
  moreover have "crew_ok v (s\<lparr>p_workers := (p_workers s)[i := Waiting]\<rparr>)"
    using c Nil Dead_update [of Waiting "p_workers s" i] by (auto simp: calm_view_def crew_ok_def)
  ultimately have "calm_view task v (s\<lparr>p_workers := (p_workers s)[i := Waiting]\<rparr>)"
    using c by (simp add: calm_view_def)
  then show ?thesis using e by blast
next
  case (Cons x xs)
  note u = nodes_of_update [OF i(1), of _ "Running x"]
  have p: "memory_ok task v s" "nodes_ok v (p_workers s)" "log_ok task v s" "main_ok v (p_main s)" "crew_ok v s" "control_ok s"
    using c by (simp_all add: calm_view_def)
  have mem: "queue_holds (p_heap s) (p_backlog s) (x # xs)" "queue_holds (p_heap s) (p_active s) (v_active v)"
    "queue_holds (p_heap s) (p_complete s) (v_complete v)"
    using p(1) Cons by (simp_all add: memory_ok_def)
  have ap: "set (x # xs) \<inter> set (v_active v) = {}"
    "(set (x # xs) \<union> set (v_active v)) \<inter> set (v_complete v) = {}"
    "(set (x # xs) \<union> set (v_active v)) \<inter> set (concat (v_later v)) = {}"
    using nodes_ok_apart [OF p(2)] by (auto simp: Cons)
  obtain h' b a where q: "task_queue_pop_push (p_heap s) (p_backlog s) (p_active s) = Some (h', b, a, x)"
    "queue_holds h' b xs" "queue_holds h' a (v_active v @ [x])" "relinks (set (x # xs) \<union> set (v_active v)) (p_heap s) h'"
    using task_queue_pop_push_holds [OF mem(1,2) ap(1)] by blast
  let ?s = "s\<lparr>p_heap := h', p_backlog := b, p_active := a, p_workers := (p_workers s)[i := Running x]\<rparr>"
  let ?s' = "if xs = [] then signal_backlog_empty ?s else ?s"
  let ?v = "v\<lparr>v_backlog := xs, v_active := v_active v @ [x]\<rparr>"
  have peek: "(task_queue_peek (p_backlog s) = None) = False" using queue_holds_peek [OF mem(1)] by simp
  have "tq_head b = None \<longleftrightarrow> xs = []" using q(2) by (simp add: queue_holds_def)
  then have e: "worker_pop_push i s = Some ?s'" by (simp add: worker_pop_push_def peek q(1) del: not_None_eq)
  have m: "memory_ok task ?v ?s"
    using q(4) by (intro memory_ok_step [OF p(1) _ ap(3)])
      (simp_all add: q(1-3) view_phases_def queue_holds_frame [OF q(4) ap(2) mem(3)])
  have nd: "nodes_ok ?v (p_workers ?s)"
    using p(2) u [of removed_of] u [of busy_of] i(2) by (simp add: nodes_ok_def view_phases_def worker_node_defs Cons)
  have l: "log_ok task ?v ?s"
    using p(3) u [of ran_of] i(2) by (simp add: log_ok_def worker_node_defs)
  have w: "crew_ok ?v ?s"
    by (rule crew_ok_worker [OF p(5) i(1), of "Running x"]) simp_all
  have "p_main s \<in> {Await_Backlog, Asleep_Backlog}"
    using p(4) by (cases "p_main s") (simp_all add: main_ok_def Cons)
  then have "main_ok ?v (p_main ?s')" using p(4) by (auto simp: main_ok_def signal_backlog_empty_def)
  moreover have "control_ok ?s" using p(6) by simp
  ultimately have "calm_view task ?v ?s'" by (intro calm_signals(1) [OF m nd l w])
  moreover have "view_phases ?v = view_phases v" by (simp add: view_phases_def)
  ultimately show ?thesis using e by blast
qed


lemma worker_call_calm:
  assumes c: "calm_view task v s" and i: "i < length (p_workers s)" "p_workers s ! i = Running n"
  shows "\<exists>v' s'. worker_call i n s = Some s' \<and> view_phases v' = view_phases v \<and> calm_view task v' s'"
proof -
  note u = nodes_of_update [OF i(1), of _ "Ran n"]
  have p: "memory_ok task v s" "nodes_ok v (p_workers s)" "log_ok task v s" "main_ok v (p_main s)" "crew_ok v s" "control_ok s"
    using c by (simp_all add: calm_view_def)
  have "n \<in> set (nodes_of busy_of (p_workers s))" using nodes_of_member [OF i(1), of n busy_of] i(2) by (simp add: busy_of_def)
  then have "n \<in> set (v_active v)" using p(2) by (metis nodes_ok_def set_mset_mset)
  then obtain nd where nd: "p_heap s n = Some nd" "tn_task nd = task n" using nodes_ok_task [OF p(2,1)] by blast
  let ?s = "s\<lparr>p_log := p_log s @ [task n], p_workers := (p_workers s)[i := Ran n]\<rparr>"
  let ?v = "v\<lparr>v_ran_now := v_ran_now v @ [n]\<rparr>"
  have e: "worker_call i n s = Some ?s" by (simp add: worker_call_def nd)
  have "memory_ok task ?v ?s" using p(1) by (simp add: memory_ok_def view_phases_def)
  moreover have "nodes_ok ?v (p_workers ?s)"
    using p(2) u [of removed_of] u [of busy_of] i(2) by (simp add: nodes_ok_def view_phases_def worker_node_defs)
  moreover have "log_ok task ?v ?s"
    using p(3) u [of ran_of] i(2) by (simp add: log_ok_def worker_node_defs)
  moreover have "crew_ok ?v ?s" by (rule crew_ok_worker [OF p(5) i(1), of "Ran n"]) simp_all
  moreover have "main_ok ?v (p_main ?s)" using p(4) main_ok_cong [of ?v v "p_main s"] by simp
  ultimately have "calm_view task ?v ?s" using p(6) by (simp add: calm_view_def)
  moreover have "view_phases ?v = view_phases v" by (simp add: view_phases_def)
  ultimately show ?thesis using e by blast
qed

lemma worker_remove_calm:
  assumes c: "calm_view task v s" and i: "i < length (p_workers s)" "p_workers s ! i = Ran n"
  shows "\<exists>v' s'. worker_remove i n s = Some s' \<and> view_phases v' = view_phases v \<and> calm_view task v' s'"
proof -
  note u = nodes_of_update [OF i(1), of _ "Removed n"]
  have p: "memory_ok task v s" "nodes_ok v (p_workers s)" "log_ok task v s" "main_ok v (p_main s)" "crew_ok v s" "control_ok s"
    using c by (simp_all add: calm_view_def)
  have "n \<in> set (nodes_of busy_of (p_workers s))" using nodes_of_member [OF i(1), of n busy_of] i(2) by (simp add: busy_of_def)
  then have "n \<in> set (v_active v)" using p(2) by (metis nodes_ok_def set_mset_mset)
  then obtain ys zs where a: "v_active v = ys @ n # zs" by (meson split_list)
  have mem: "queue_holds (p_heap s) (p_active s) (ys @ n # zs)" "queue_holds (p_heap s) (p_backlog s) (v_backlog v)"
    "queue_holds (p_heap s) (p_complete s) (v_complete v)"
    using p(1) a by (simp_all add: memory_ok_def)
  have ap: "set (ys @ zs) \<inter> set (v_backlog v) = {}" "set (ys @ zs) \<inter> set (v_complete v) = {}"
    "set (ys @ zs) \<inter> set (concat (v_later v)) = {}"
    using nodes_ok_apart [OF p(2)] by (auto simp: a)
  obtain h' q' where q: "task_queue_remove (p_heap s) (p_active s) n = Some (h', q', ys @ zs = [])"
    "queue_holds h' q' (ys @ zs)" "relinks (set (ys @ zs)) (p_heap s) h'"
    using task_queue_remove_holds [OF mem(1)] by blast
  let ?s = "s\<lparr>p_heap := h', p_active := q', p_workers := (p_workers s)[i := Removed n]\<rparr>"
  let ?s' = "if ys @ zs = [] then signal_active_empty ?s else ?s"
  let ?v = "v\<lparr>v_active := ys @ zs\<rparr>"
  have e: "worker_remove i n s = Some ?s'" using q(1) by (simp add: worker_remove_def Let_def)
  have m: "memory_ok task ?v ?s"
    using q(3) by (intro memory_ok_step [OF p(1) _ ap(3)])
      (simp_all add: q(2) [simplified] view_phases_def queue_holds_frame [OF q(3) ap(1) mem(2)] queue_holds_frame [OF q(3) ap(2) mem(3)])
  have nd: "nodes_ok ?v (p_workers ?s)"
    using p(2) u [of removed_of] u [of busy_of, symmetric] i(2) by (simp add: nodes_ok_def view_phases_def worker_node_defs a)
  have l: "log_ok task ?v ?s"
    using p(3) u [of ran_of] i(2) by (simp add: log_ok_def worker_node_defs)
  have w: "crew_ok ?v ?s"
    by (rule crew_ok_worker [OF p(5) i(1), of "Removed n"]) simp_all
  have "awaiting (p_main s) \<and> p_main s \<noteq> Awaited"
    using p(4) by (cases "p_main s") (simp_all add: main_ok_def a awaiting_def)
  then have "main_ok ?v (p_main ?s')"
    using p(4) by (cases "p_main s") (simp_all add: main_ok_def signal_active_empty_def awaiting_def)
  moreover have "control_ok ?s" using p(6) by simp
  ultimately have "calm_view task ?v ?s'" by (intro calm_signals(2) [OF m nd l w])
  moreover have "view_phases ?v = view_phases v" by (simp add: view_phases_def)
  ultimately show ?thesis using e by blast
qed

lemma worker_complete_calm:
  assumes c: "calm_view task v s" and i: "i < length (p_workers s)" "p_workers s ! i = Removed n"
  shows "\<exists>v' s'. worker_complete i n s = Some s' \<and> view_phases v' = view_phases v \<and> calm_view task v' s'"
proof -
  note u = nodes_of_update [OF i(1), of _ Idle]
  have p: "memory_ok task v s" "nodes_ok v (p_workers s)" "log_ok task v s" "main_ok v (p_main s)" "crew_ok v s" "control_ok s"
    using c by (simp_all add: calm_view_def)
  have r: "n \<in> set (nodes_of removed_of (p_workers s))" using nodes_of_member [OF i(1), of n removed_of] i(2) by (simp add: removed_of_def)
  have mem: "queue_holds (p_heap s) (p_complete s) (v_complete v)" "queue_holds (p_heap s) (p_backlog s) (v_backlog v)"
    "queue_holds (p_heap s) (p_active s) (v_active v)"
    using p(1) by (simp_all add: memory_ok_def)
  have ap: "insert n (set (v_complete v)) \<inter> set (v_backlog v) = {}" "insert n (set (v_complete v)) \<inter> set (v_active v) = {}"
    "insert n (set (v_complete v)) \<inter> set (concat (v_later v)) = {}" "n \<notin> set (v_complete v)"
    using nodes_ok_apart [OF p(2)] r by auto
  have "p_heap s n \<noteq> None" using nodes_ok_task [OF p(2,1), of n] r by (metis UnCI option.distinct(1))
  then obtain h' q' where q: "task_queue_push_quiet (p_heap s) (p_complete s) n = Some (h', q')"
    "queue_holds h' q' (v_complete v @ [n])" "relinks (insert n (set (v_complete v))) (p_heap s) h'"
    using task_queue_push_quiet_holds [OF mem(1) _ ap(4)] by blast
  let ?s = "s\<lparr>p_heap := h', p_complete := q', p_workers := (p_workers s)[i := Idle]\<rparr>"
  let ?v = "v\<lparr>v_complete := v_complete v @ [n]\<rparr>"
  have e: "worker_complete i n s = Some ?s" using q(1) by (simp add: worker_complete_def)
  have "memory_ok task ?v ?s"
    using q(3) by (intro memory_ok_step [OF p(1) _ ap(3)])
      (simp_all add: q(2) view_phases_def queue_holds_frame [OF q(3) ap(1) mem(2)] queue_holds_frame [OF q(3) ap(2) mem(3)])
  moreover have "nodes_ok ?v (p_workers ?s)"
    using p(2) u [of removed_of, symmetric] u [of busy_of] i(2) by (simp add: nodes_ok_def view_phases_def worker_node_defs)
  moreover have "log_ok task ?v ?s"
    using p(3) u [of ran_of, symmetric] i(2) by (simp add: log_ok_def worker_node_defs)
  moreover have "crew_ok ?v ?s" by (rule crew_ok_worker [OF p(5) i(1), of Idle]) simp_all
  moreover have "main_ok ?v (p_main ?s)" using p(4) main_ok_cong [of ?v v "p_main s"] by simp
  ultimately have "calm_view task ?v ?s" using p(6) by (simp add: calm_view_def)
  moreover have "view_phases ?v = view_phases v" by (simp add: view_phases_def)
  ultimately show ?thesis using e by blast
qed


lemma list_all2_mset_concat: "list_all2 (\<lambda>l xs. mset l = mset xs) ls xss \<Longrightarrow> mset (concat ls) = mset (concat xss)"
  by (induction rule: list_all2_induct) simp_all

text \<open>A worker that changes between states without a node.\<close>

definition nodeless :: "worker \<Rightarrow> bool" where
  "nodeless w \<longleftrightarrow> w \<in> {Idle, Waiting, Dead}"

lemma nodes_of_nodeless:
  assumes "i < length ws" "nodeless (ws ! i)" "nodeless w" "f \<in> {removed_of, busy_of, ran_of}"
  shows "mset (nodes_of f (ws[i := w])) = mset (nodes_of f ws)"
  using nodes_of_update [OF assms(1), of f w] assms(2-4) by (auto simp: nodeless_def worker_node_defs)

lemma nodeless_ok:
  assumes "i < length (p_workers s)" "nodeless (p_workers s ! i)" "nodeless w"
  shows "nodes_ok v ((p_workers s)[i := w]) = nodes_ok v (p_workers s)"
    and "log_ok task v (s\<lparr>p_workers := (p_workers s)[i := w]\<rparr>) = log_ok task v s"
  by (simp_all add: nodes_ok_def log_ok_def nodes_of_nodeless [OF assms])

lemma wake_calm:
  assumes c: "calm_view task v s" and i: "i < length (p_workers s)" "p_workers s ! i = Waiting"
  shows "calm_view task v (s\<lparr>p_workers := (p_workers s)[i := Idle]\<rparr>)"
proof -
  have "crew_ok v s" using c by (simp add: calm_view_def)
  then have "crew_ok v (s\<lparr>p_workers := (p_workers s)[i := Idle]\<rparr>)" by (rule crew_ok_worker [OF _ i(1), of _ Idle]) simp_all
  then show ?thesis using c nodeless_ok [OF i(1)] i(2) by (simp add: calm_view_def nodeless_def)
qed

lemma worker_cancelled_calm:
  assumes c: "calm_view task v s" and e: "worker_cancelled i s = Some s'"
  shows "calm_view task v s'"
proof -
  have i: "i < length (p_workers s)" "p_cancelled s" using e by (auto simp: worker_cancelled_def split: if_splits)
  have "stopping_ok s" using c i(2) by (simp add: calm_view_def control_ok_def running_ok_def)
  then have "p_main s \<in> {Await_Exit, Ended Exit_Success}" by (simp add: stopping_ok_def)
  then have m: "v_backlog v = []" "v_active v = []" using c by (auto simp: calm_view_def main_ok_def)
  have "nodes_of busy_of (p_workers s) = []" using c m by (simp add: calm_view_def nodes_ok_def)
  then have "p_workers s ! i \<noteq> Running n" for n using nodes_of_member [OF i(1), of n busy_of] by (auto simp: busy_of_def)
  then have w: "p_workers s ! i = Waiting" "s' = s\<lparr>p_workers := (p_workers s)[i := Dead]\<rparr>"
    using e i by (auto simp: worker_cancelled_def split: worker.splits)
  have "crew_ok v s'" using c i(2) m by (simp add: calm_view_def crew_ok_def w(2))
  then show ?thesis using c nodeless_ok [OF i(1)] w by (simp add: calm_view_def nodeless_def)
qed

lemma supervisor_calm:
  assumes c: "calm_view task v s" and e: "supervisor_step s = Some s'"
  shows "calm_view task v s'"
proof -
  have st: "stopping_ok s" using c e by (auto simp: calm_view_def control_ok_def running_ok_def supervisor_step_def)
  have k: "crew_ok v (s\<lparr>p_cancelled := True\<rparr>)" using c by (simp add: calm_view_def crew_ok_def)
  consider "p_supervisor s = Listening" "s' = (worker_crew_cancel s)\<lparr>p_supervisor := Succeeding\<rparr>"
    | "p_supervisor s = Succeeding" "s' = (thread_pool_status_set Exit_Success s)\<lparr>p_supervisor := Gone\<rparr>"
    using st e by (auto simp: stopping_ok_def supervisor_step_def)
  then show ?thesis
  proof cases
    case 1
    have "stopping_ok s'" using st 1 by (simp add: stopping_ok_def worker_crew_cancel_def)
    then show ?thesis using c k by (simp add: 1(2) calm_view_def control_ok_def worker_crew_cancel_def)
  next
    case 2
    have "stopping_ok s'" using st 2 by (simp add: stopping_ok_def thread_pool_status_set_def)
    then show ?thesis using c by (simp add: 2(2) calm_view_def control_ok_def thread_pool_status_set_def)
  qed
qed

lemma ran_of_nodeless: "nodes_of busy_of ws = [] \<Longrightarrow> nodes_of ran_of ws = nodes_of removed_of ws"
  by (induction ws) (auto simp: nodes_of_def worker_node_defs split: worker.splits)

text \<open>When both queues are empty the tasks of the phase have all run.\<close>

lemma phase_over:
  assumes n: "nodes_ok v (p_workers s)" and l: "log_ok task v s" and e: "v_backlog v = []" "v_active v = []"
  shows "mset (v_ran_now v) = mset (v_now v)"
proof -
  have "mset (concat (v_ran_past v)) = mset (concat (v_past v))"
    using l list_all2_mset_concat [of "v_ran_past v" "v_past v"] unfolding log_ok_def by blast
  moreover have "mset (concat (v_ran_past v)) + mset (v_ran_now v) = mset (concat (v_past v)) + mset (v_now v)"
    using n l e ran_of_nodeless [of "p_workers s"] by (simp add: nodes_ok_def log_ok_def)
  ultimately show ?thesis by simp
qed


lemma wake_worker_calm: "calm_view task v s \<Longrightarrow> calm_view task v (wake_worker j s)"
  using wake_calm [of task v s j] by (simp add: wake_worker_def)

lemma wake_worker_fields [simp]:
  "p_main (wake_worker j s) = p_main s" "p_stores (wake_worker j s) = p_stores s"
  by (simp_all add: wake_worker_def)

text \<open>The phase after this one starts.\<close>

lemma reload_calm:
  assumes c: "calm_view task v s" and m: "p_main s = Awaited" and st: "p_stores s = st # sts"
    and j: "may_wake j s"
  shows "\<exists>v'. view_phases v' = view_phases v \<and>
    calm_view task v' ((thread_pool_reload j st s)\<lparr>p_main := Await_Backlog, p_stores := sts\<rparr>)"
proof -
  have p: "memory_ok task v s" "nodes_ok v (p_workers s)" "log_ok task v s" "crew_ok v s" "control_ok s"
    and e: "v_backlog v = []" "v_active v = []"
    using c m by (simp_all add: calm_view_def main_ok_def)
  obtain ns later where v: "v_later v = ns # later" "queue_holds (p_heap s) (task_queue_init_store st) ns"
    "list_all2 (\<lambda>st xs. queue_holds (p_heap s) (task_queue_init_store st) xs) sts later"
    using p(1) by (auto simp: memory_ok_def st list_all2_Cons1)
  let ?v = "v\<lparr>v_past := v_past v @ [v_now v], v_now := ns, v_later := later, v_backlog := ns,
    v_ran_past := v_ran_past v @ [v_ran_now v], v_ran_now := []\<rparr>"
  let ?s = "(wake_worker j s)\<lparr>p_backlog := task_queue_reload (p_backlog s) st, p_main := Await_Backlog, p_stores := sts\<rparr>"
  have ph: "view_phases ?v = view_phases v" by (simp add: view_phases_def v(1))
  have c': "calm_view task v (wake_worker j s)" using c by (rule wake_worker_calm)
  have h: "p_heap (wake_worker j s) = p_heap s" "p_active (wake_worker j s) = p_active s"
    "p_complete (wake_worker j s) = p_complete s" by (simp_all add: wake_worker_def)
  have "memory_ok task ?v ?s"
    using p(1) task_queue_reload_holds [OF v(2)] v(3) by (simp add: memory_ok_def ph h)
  moreover have "nodes_ok ?v (p_workers ?s)"
  proof -
    have "nodes_ok v (p_workers (wake_worker j s))" using c' by (simp add: calm_view_def)
    then show ?thesis unfolding nodes_ok_def ph by (simp add: e)
  qed
  moreover have "log_ok task ?v ?s"
  proof -
    have "log_ok task v (wake_worker j s)" using c' by (simp add: calm_view_def)
    then show ?thesis using phase_over [OF p(2,3) e] by (simp add: log_ok_def list_all2_appendI)
  qed
  moreover have "crew_ok ?v ?s"
  proof -
    have "crew_ok v (wake_worker j s)" using c' by (simp add: calm_view_def)
    moreover have "\<exists>w \<in> set (p_workers (wake_worker j s)). w \<noteq> Waiting"
    proof (cases "j < length (p_workers s) \<and> p_workers s ! j = Waiting")
      case True
      then show ?thesis using update_nonwaiting [of Idle j "p_workers s"] by (simp add: wake_worker_def)
    next
      case False
      then have "Waiting \<notin> set (p_workers s)" using j by (auto simp: may_wake_def)
      moreover have "p_workers s \<noteq> []" using p(4) by (simp add: crew_ok_def)
      ultimately have "hd (p_workers s) \<noteq> Waiting" "hd (p_workers s) \<in> set (p_workers s)" by (metis hd_in_set)+
      then show ?thesis using False by (auto simp: wake_worker_def)
    qed
    ultimately show ?thesis by (simp add: crew_ok_def)
  qed
  moreover have "control_ok ?s"
    using p(5) m st by (auto simp: control_ok_def running_ok_def stopping_ok_def awaiting_def wake_worker_def)
  moreover have "main_ok ?v (p_main ?s)" by (simp add: main_ok_def)
  ultimately have "calm_view task ?v ?s" by (simp add: calm_view_def)
  moreover have "(thread_pool_reload j st s)\<lparr>p_main := Await_Backlog, p_stores := sts\<rparr> = ?s"
    by (simp add: thread_pool_reload_def wake_worker_def)
  ultimately show ?thesis using ph by metis
qed

lemma main_calm:
  assumes c: "calm_view task v s" and e: "main_step j s = Some s'" "may_wake j s"
  shows "\<exists>v'. view_phases v' = view_phases v \<and> calm_view task v' s'"
proof -
  have p: "memory_ok task v s" "main_ok v (p_main s)" "control_ok s" using c by (simp_all add: calm_view_def)
  have "queue_holds (p_heap s) (p_backlog s) (v_backlog v)" "queue_holds (p_heap s) (p_active s) (v_active v)"
    using p(1) by (simp_all add: memory_ok_def)
  then have q: "task_queue_peek (p_backlog s) = None \<longleftrightarrow> v_backlog v = []" "task_queue_peek (p_active s) = None \<longleftrightarrow> v_active v = []"
    using queue_holds_peek by blast+
  have same: "calm_view task v (s\<lparr>p_main := m\<rparr>)" if "main_ok v m" "control_ok (s\<lparr>p_main := m\<rparr>)" for m
    using c that by (simp add: calm_view_def)
  show ?thesis
  proof (cases "p_main s")
    case Await_Backlog
    have "calm_view task v (s\<lparr>p_main := if v_backlog v = [] then Await_Active else Asleep_Backlog\<rparr>)"
      by (rule same) (use p(3) Await_Backlog in \<open>simp_all add: main_ok_def awaiting_def control_ok_main\<close>)
    then show ?thesis using e(1) q(1) by (auto simp: main_step_def Await_Backlog)
  next
    case Await_Active
    have "calm_view task v (s\<lparr>p_main := if v_active v = [] then Awaited else Asleep_Active\<rparr>)"
      by (rule same) (use p(2,3) Await_Active in \<open>simp_all add: main_ok_def awaiting_def control_ok_main\<close>)
    then show ?thesis using e(1) q(2) by (auto simp: main_step_def Await_Active)
  next
    case Awaited
    have r: "running_ok s" using p(3) stopping_not_awaiting [of s] by (auto simp: control_ok_def Awaited awaiting_def)
    show ?thesis
    proof (cases "p_stores s")
      case Nil
      have s': "s' = s\<lparr>p_event := Some Exit_Success, p_main := Await_Exit\<rparr>"
        using e(1) by (simp add: main_step_def Awaited Nil supervisor_signal_def)
      have "stopping_ok s'" using r Nil by (simp add: s' stopping_ok_def running_ok_def)
      then have "calm_view task v s'" using c p(2) by (simp add: s' calm_view_def control_ok_def main_ok_def Awaited)
      then show ?thesis by blast
    next
      case (Cons st sts)
      have "s' = (thread_pool_reload j st s)\<lparr>p_main := Await_Backlog, p_stores := sts\<rparr>"
        using e(1) r by (simp add: main_step_def Awaited Cons running_ok_def)
      then show ?thesis using reload_calm [OF c Awaited Cons e(2)] by simp
    qed
  next
    case Await_Exit
    have st: "stopping_ok s" using p(3) by (auto simp: control_ok_def running_ok_def Await_Exit awaiting_def)
    then have s': "s' = s\<lparr>p_main := Ended Exit_Success\<rparr>" "\<not> p_busy s"
      using e(1) by (auto simp: main_step_def Await_Exit stopping_ok_def split: if_splits)
    have "stopping_ok s'" using st s' by (simp add: stopping_ok_def)
    then have "calm_view task v s'" using c p(2) by (simp add: s' calm_view_def control_ok_def main_ok_def Await_Exit)
    then show ?thesis by blast
  qed (use e(1) in \<open>simp_all add: main_step_def\<close>)
qed

lemma worker_calm:
  assumes c: "calm_view task v s" and i: "i < length (p_workers s)" "p_workers s ! i \<notin> {Waiting, Dead}"
  shows "\<exists>v' s'. worker_process_tasks i s = Some s' \<and> view_phases v' = view_phases v \<and> calm_view task v' s'"
proof (cases "p_workers s ! i")
  case Idle
  then show ?thesis using pop_push_calm [OF c i(1)] i(1) by (simp add: worker_process_tasks_def)
next
  case (Running n)
  then show ?thesis using worker_call_calm [OF c i(1)] i(1) by (simp add: worker_process_tasks_def)
next
  case (Ran n)
  then show ?thesis using worker_remove_calm [OF c i(1)] i(1) by (simp add: worker_process_tasks_def)
next
  case (Removed n)
  then show ?thesis using worker_complete_calm [OF c i(1)] i(1) by (simp add: worker_process_tasks_def)
qed (use i(2) in simp_all)

lemma spurious_main_calm:
  assumes c: "calm_view task v s" and e: "pool_event Spurious_Main s = Some s'"
  shows "calm_view task v s'"
proof -
  obtain m where m: "s' = s\<lparr>p_main := m\<rparr>" "main_ok v m" "awaiting (p_main s)" "awaiting m"
    using c e by (auto simp: pool_event_def calm_view_def main_ok_def awaiting_def split: main.splits)
  then show ?thesis using c by (simp add: calm_view_def control_ok_main)
qed

text \<open>Every event but the failure of a task keeps the invariant.\<close>

lemma calm_event_ok:
  assumes c: "calm_view task v s" and e: "pool_event e s = Some s'" and f: "\<And>i. e \<noteq> Worker_Fails i"
  shows "\<exists>v'. view_phases v' = view_phases v \<and> calm_view task v' s'"
proof (cases e)
  case (Worker i)
  then have w: "worker_process_tasks i s = Some s'" using e by (simp add: pool_event_def)
  then have "i < length (p_workers s)" "p_workers s ! i \<notin> {Waiting, Dead}"
    by (auto simp: worker_process_tasks_def split: if_splits)
  from worker_calm [OF c this] show ?thesis using w by auto
next
  case (Worker_Cancelled i)
  then show ?thesis using worker_cancelled_calm [OF c, of i s'] e by (auto simp: pool_event_def)
next
  case (Main j)
  then show ?thesis using main_calm [OF c, of j s'] e by (auto simp: pool_event_def split: if_splits)
next
  case Supervisor
  then show ?thesis using supervisor_calm [OF c, of s'] e by (auto simp: pool_event_def)
next
  case (Spurious_Worker i)
  then show ?thesis using wake_calm [OF c, of i] e by (auto simp: pool_event_def split: if_splits)
next
  case Spurious_Main
  then show ?thesis using spurious_main_calm [OF c, of s'] e by auto
qed (use f in simp)

inductive_cases calm_stepE: "calm_step s s'"
inductive_cases quiet_stepE: "quiet_step s s'"

lemma calm_step_calm: "calm task phases s \<Longrightarrow> calm_step s s' \<Longrightarrow> calm task phases s'"
  by (auto simp: calm_def elim!: calm_stepE dest: calm_event_ok)

lemma calm_steps_calm: "calm_step\<^sup>*\<^sup>* s s' \<Longrightarrow> calm task phases s \<Longrightarrow> calm task phases s'"
  by (induction rule: rtranclp_induct) (auto intro: calm_step_calm)

lemma quiet_calm: "quiet_step s s' \<Longrightarrow> calm_step s s'"
  by (auto elim!: quiet_stepE intro: calm_event)

text \<open>What the program hands to the pool: one store of nodes for each phase.\<close>

definition stores_ready :: "(nat \<Rightarrow> 'a) \<Rightarrow> 'a heap \<Rightarrow> task_store list \<Rightarrow> nat list list \<Rightarrow> bool" where
  "stores_ready task h sts phases \<longleftrightarrow>
     list_all2 (\<lambda>st xs. queue_holds h (task_queue_init_store st) xs) sts phases \<and>
     distinct (concat phases) \<and> [] \<notin> set phases \<and>
     (\<forall>n \<in> set (concat phases). map_option tn_task (h n) = Some (task n))"

lemma thread_pool_init_calm:
  assumes "stores_ready task h (st # sts) phases"
  shows "calm task phases (thread_pool_init h st w sts)"
proof -
  obtain xs xss where p: "phases = xs # xss" using assms by (auto simp: stores_ready_def list_all2_Cons1)
  let ?v = "\<lparr>v_past = [], v_now = xs, v_later = xss, v_backlog = xs, v_active = [], v_complete = [], v_ran_past = [], v_ran_now = []\<rparr>"
  let ?s = "thread_pool_init h st w sts"
  have v: "view_phases ?v = phases" by (simp add: view_phases_def p)
  have "memory_ok task ?v ?s"
    using assms by (simp add: memory_ok_def v stores_ready_def thread_pool_init_def task_queue_init_empty_holds p)
  moreover have "nodes_ok ?v (p_workers ?s)"
    using assms unfolding nodes_ok_def v
    by (simp add: stores_ready_def thread_pool_init_def worker_crew_init_def worker_node_defs)
  moreover have "log_ok task ?v ?s"
    by (simp add: log_ok_def thread_pool_init_def worker_crew_init_def worker_node_defs)
  moreover have "crew_ok ?v ?s"
    by (auto simp: crew_ok_def thread_pool_init_def worker_crew_init_def)
  moreover have "main_ok ?v (p_main ?s)" "control_ok ?s"
    by (simp_all add: main_ok_def control_ok_def running_ok_def awaiting_def thread_pool_init_def)
  ultimately show ?thesis using v by (intro calmI [of ?v]) (simp_all add: calm_view_def)
qed

lemma calm_reachable:
  "stores_ready task h (st # sts) phases \<Longrightarrow> calm_step\<^sup>*\<^sup>* (thread_pool_init h st w sts) s \<Longrightarrow> calm task phases s"
  using calm_steps_calm thread_pool_init_calm by blast

section \<open>Tasks run once, phase after phase\<close>

lemma ran_nodes_subset: "mset (nodes_of ran_of ws) \<subseteq># mset (nodes_of busy_of ws) + mset (nodes_of removed_of ws)"
proof (induction ws)
  case (Cons w ws)
  have "mset (ran_of w) \<subseteq># mset (busy_of w) + mset (removed_of w)" by (cases w) (simp_all add: worker_node_defs)
  from subset_mset.add_mono [OF this Cons] show ?case by (simp add: nodes_of_def ac_simps)
qed (simp add: nodes_of_def)

text \<open>The number of phases that are over.\<close>

definition phases_over :: "nat list list \<Rightarrow> 'a pool \<Rightarrow> nat" where
  "phases_over phases s = length phases - Suc (length (p_stores s))"

lemma calm_phases:
  assumes "calm_view task v s"
  shows "take (phases_over (view_phases v) s) (view_phases v) = v_past v"
    and "phases_over (view_phases v) s < length (view_phases v)"
    and "view_phases v ! phases_over (view_phases v) s = v_now v"
proof -
  have "length (p_stores s) = length (v_later v)"
    using assms by (auto simp: calm_view_def memory_ok_def dest: list_all2_lengthD)
  then have "phases_over (view_phases v) s = length (v_past v)" by (simp add: phases_over_def view_phases_def)
  then show "take (phases_over (view_phases v) s) (view_phases v) = v_past v"
    "phases_over (view_phases v) s < length (view_phases v)"
    "view_phases v ! phases_over (view_phases v) s = v_now v"
    by (simp_all add: view_phases_def)
qed

lemma calm_log:
  assumes "calm task phases s"
  shows "\<exists>ran now. p_log s = map task (concat ran @ now) \<and>
    list_all2 (\<lambda>l xs. mset l = mset xs) ran (take (phases_over phases s) phases) \<and>
    mset now \<subseteq># mset (phases ! phases_over phases s) \<and>
    (\<not> (p_main s \<in> {Await_Backlog, Asleep_Backlog, Await_Active, Asleep_Active}) \<longrightarrow>
      mset now = mset (phases ! phases_over phases s))"
proof -
  obtain v where v: "view_phases v = phases" "calm_view task v s" using assms by (auto simp: calm_def)
  have p: "nodes_ok v (p_workers s)" "log_ok task v s" "main_ok v (p_main s)" using v(2) by (simp_all add: calm_view_def)
  have "mset (concat (v_ran_past v)) = mset (concat (v_past v))"
    using p(2) list_all2_mset_concat [of "v_ran_past v" "v_past v"] unfolding log_ok_def by blast
  moreover have "mset (concat (v_ran_past v)) + mset (v_ran_now v) \<subseteq># mset (concat (v_past v)) + mset (v_now v)"
  proof -
    have "mset (v_complete v) + mset (nodes_of ran_of (p_workers s)) \<subseteq>#
        mset (v_complete v) + (mset (nodes_of busy_of (p_workers s)) + mset (nodes_of removed_of (p_workers s)))"
      using ran_nodes_subset by simp
    moreover have "mset (concat (v_past v)) + mset (v_now v) = mset (v_backlog v) +
        (mset (v_complete v) + (mset (nodes_of busy_of (p_workers s)) + mset (nodes_of removed_of (p_workers s))))"
      using p(1) by (simp add: nodes_ok_def)
    ultimately show ?thesis
      using p(2) unfolding log_ok_def by (metis subset_mset.add_increasing subset_mset.zero_le)
  qed
  ultimately have "mset (v_ran_now v) \<subseteq># mset (v_now v)" by simp
  moreover have "\<not> (p_main s \<in> {Await_Backlog, Asleep_Backlog, Await_Active, Asleep_Active}) \<longrightarrow> mset (v_ran_now v) = mset (v_now v)"
    using phase_over [OF p(1,2)] p(3) by (auto simp: main_ok_def split: main.splits)
  moreover have "list_all2 (\<lambda>l xs. mset l = mset xs) (v_ran_past v) (v_past v)"
    "p_log s = map task (concat (v_ran_past v) @ v_ran_now v)" using p(2) by (simp_all add: log_ok_def)
  ultimately show ?thesis using calm_phases [OF v(2)] unfolding v(1) by metis
qed

lemma calm_ended:
  assumes "calm task phases s" "p_main s = Ended e"
  shows "e = Exit_Success \<and> p_stores s = []"
  using assms by (auto simp: calm_def calm_view_def control_ok_def running_ok_def stopping_ok_def awaiting_def)

lemma calm_mset_log:
  assumes "calm task phases s" "\<not> (p_main s \<in> {Await_Backlog, Asleep_Backlog, Await_Active, Asleep_Active})"
  shows "mset (p_log s) = mset (map task (concat (take (Suc (phases_over phases s)) phases)))"
proof -
  obtain ran now where r: "p_log s = map task (concat ran @ now)"
    "list_all2 (\<lambda>l xs. mset l = mset xs) ran (take (phases_over phases s) phases)"
    "mset now = mset (phases ! phases_over phases s)"
    using calm_log [OF assms(1)] assms(2) by blast
  have "phases_over phases s < length phases" using assms(1) calm_phases(2) by (auto simp: calm_def)
  then show ?thesis
    using list_all2_mset_concat [OF r(2)] r(3) by (simp add: r(1) take_Suc_conv_app_nth)
qed

section \<open>Every run ends\<close>

definition worker_weight :: "worker \<Rightarrow> nat" where
  "worker_weight w = (case w of Idle \<Rightarrow> 3 | Waiting \<Rightarrow> 1 | Running _ \<Rightarrow> 1 | Ran _ \<Rightarrow> 6 | Removed _ \<Rightarrow> 4 | Dead \<Rightarrow> 0)"

definition main_weight :: "main \<Rightarrow> nat" where
  "main_weight m =
     (case m of Await_Backlog \<Rightarrow> 7 | Asleep_Backlog \<Rightarrow> 6 | Await_Active \<Rightarrow> 5 | Asleep_Active \<Rightarrow> 4 | Awaited \<Rightarrow> 3
      | Await_Exit \<Rightarrow> 2 | Ended _ \<Rightarrow> 0)"

definition supervisor_weight :: "supervisor \<Rightarrow> nat" where
  "supervisor_weight v = (case v of Listening \<Rightarrow> 2 | Succeeding \<Rightarrow> 1 | _ \<Rightarrow> 0)"

definition pool_measure :: "nat \<Rightarrow> 'a pool \<Rightarrow> nat" where
  "pool_measure n s =
     6 * (n - length (p_log s)) + sum_list (map worker_weight (p_workers s)) + main_weight (p_main s) +
     10 * length (p_stores s) + supervisor_weight (p_supervisor s)"

lemmas weight_defs = worker_weight_def main_weight_def supervisor_weight_def

lemma worker_weights_update:
  "i < length ws \<Longrightarrow>
    sum_list (map worker_weight (ws[i := w])) + worker_weight (ws ! i) = sum_list (map worker_weight ws) + worker_weight w"
proof (induction ws arbitrary: i)
  case (Cons v ws)
  show ?case
  proof (cases i)
    case (Suc j)
    then show ?thesis using Cons.IH [of j] Cons.prems by simp
  qed simp
qed simp

lemma length_log_calm:
  assumes "calm task phases s"
  shows "length (p_log s) \<le> length (concat phases)"
proof -
  obtain v where v: "view_phases v = phases" "calm_view task v s" using assms by (auto simp: calm_def)
  obtain ran now where r: "p_log s = map task (concat ran @ now)"
    "list_all2 (\<lambda>l xs. mset l = mset xs) ran (v_past v)" "mset now \<subseteq># mset (v_now v)"
    using calm_log [OF assms] calm_phases [OF v(2)] unfolding v(1) by metis
  have "length (concat ran) = length (concat (v_past v))" "length now \<le> length (v_now v)"
    using list_all2_mset_concat [OF r(2)] r(3) by (metis size_mset, metis size_mset size_mset_mono)
  then show ?thesis by (simp add: r(1) v(1) [symmetric] view_phases_def)
qed

lemma signal_measure:
  "pool_measure n (signal_backlog_empty s) \<le> pool_measure n s + 1" "pool_measure n (signal_active_empty s) \<le> pool_measure n s + 1"
  by (simp_all add: pool_measure_def signal_backlog_empty_def signal_active_empty_def weight_defs)

lemma worker_measure:
  assumes e: "worker_process_tasks i s = Some s'" and n: "length (p_log s') \<le> n"
  shows "pool_measure n s' < pool_measure n s"
proof -
  have i: "i < length (p_workers s)" using e by (simp add: worker_process_tasks_def split: if_splits)
  note u = worker_weights_update [OF i]
  show ?thesis
  proof (cases "p_workers s ! i")
    case Idle
    show ?thesis
    proof (cases "task_queue_peek (p_backlog s) = None")
      case True
      then show ?thesis using e u [of Waiting] i Idle
        by (auto simp: worker_process_tasks_def worker_pop_push_def pool_measure_def worker_weight_def)
    next
      case False
      then obtain h b a x where q: "task_queue_pop_push (p_heap s) (p_backlog s) (p_active s) = Some (h, b, a, x)"
        and s': "s' = (let t = s\<lparr>p_heap := h, p_backlog := b, p_active := a, p_workers := (p_workers s)[i := Running x]\<rparr>
          in if tq_head b = None then signal_backlog_empty t else t)"
        using e i Idle by (auto simp: worker_process_tasks_def worker_pop_push_def Let_def split: bind_splits)
      have "pool_measure n (s\<lparr>p_heap := h, p_backlog := b, p_active := a, p_workers := (p_workers s)[i := Running x]\<rparr>) + 2 =
          pool_measure n s" (is "pool_measure n ?t + 2 = _")
        using u [of "Running x"] Idle by (simp add: pool_measure_def worker_weight_def)
      then show ?thesis using signal_measure(1) [of n ?t] by (simp add: s' Let_def)
    qed
  next
    case (Running x)
    then obtain nd where "p_heap s x = Some nd"
      "s' = s\<lparr>p_log := p_log s @ [tn_task nd], p_workers := (p_workers s)[i := Ran x]\<rparr>"
      using e i by (auto simp: worker_process_tasks_def worker_call_def split: bind_splits)
    then show ?thesis using u [of "Ran x"] Running n by (simp add: pool_measure_def worker_weight_def)
  next
    case (Ran x)
    then obtain h a b where q: "task_queue_remove (p_heap s) (p_active s) x = Some (h, a, b)"
      and s': "s' = (let t = s\<lparr>p_heap := h, p_active := a, p_workers := (p_workers s)[i := Removed x]\<rparr>
          in if b then signal_active_empty t else t)"
      using e i by (auto simp: worker_process_tasks_def worker_remove_def Let_def split: bind_splits)
    have "pool_measure n (s\<lparr>p_heap := h, p_active := a, p_workers := (p_workers s)[i := Removed x]\<rparr>) + 2 =
        pool_measure n s" (is "pool_measure n ?t + 2 = _")
      using u [of "Removed x"] Ran by (simp add: pool_measure_def worker_weight_def)
    then show ?thesis using signal_measure(2) [of n ?t] by (simp add: s' Let_def)
  next
    case (Removed x)
    then obtain h c where "task_queue_push_quiet (p_heap s) (p_complete s) x = Some (h, c)"
      "s' = s\<lparr>p_heap := h, p_complete := c, p_workers := (p_workers s)[i := Idle]\<rparr>"
      using e i by (auto simp: worker_process_tasks_def worker_complete_def split: bind_splits)
    then show ?thesis using u [of Idle] Removed by (simp add: pool_measure_def worker_weight_def)
  qed (use e in \<open>simp_all add: worker_process_tasks_def split: if_splits\<close>)
qed

lemma main_measure:
  assumes "main_step j s = Some s'"
  shows "pool_measure n s' < pool_measure n s"
proof -
  have w: "sum_list (map worker_weight (p_workers (wake_worker j t))) \<le> sum_list (map worker_weight (p_workers t)) + 2" for t :: "'a pool"
    using worker_weights_update [of j "p_workers t" Idle]
    by (cases "j < length (p_workers t) \<and> p_workers t ! j = Waiting") (auto simp: wake_worker_def worker_weight_def)
  have f: "p_log (thread_pool_reload j st s) = p_log s" "p_supervisor (thread_pool_reload j st s) = p_supervisor s"
    "sum_list (map worker_weight (p_workers (thread_pool_reload j st s))) \<le> sum_list (map worker_weight (p_workers s)) + 2" for st
    using w [of "s\<lparr>p_backlog := task_queue_reload (p_backlog s) st\<rparr>"]
    by (simp_all add: thread_pool_reload_def wake_worker_def)
  have f3: "sum_list (map worker_weight (p_workers (thread_pool_reload j st s))) < 6 + sum_list (map worker_weight (p_workers s))" for st
    using f(3) [of st] by simp
  show ?thesis
    using assms f(1,2) f3
    by (auto simp: main_step_def pool_measure_def main_weight_def supervisor_signal_def split: main.splits list.splits if_splits)
qed


lemma quiet_step_measure:
  assumes c: "calm task phases s" and q: "quiet_step s s'"
  shows "pool_measure (length (concat phases)) s' < pool_measure (length (concat phases)) s"
proof -
  obtain v where v: "calm_view task v s" using c by (auto simp: calm_def)
  have c': "calm task phases s'" using calm_step_calm [OF c quiet_calm [OF q]] .
  obtain e where e: "pool_event e s = Some s'" "\<And>i. e \<noteq> Worker_Fails i" "\<And>i. e \<noteq> Spurious_Worker i" "e \<noteq> Spurious_Main"
    using q by (auto elim!: quiet_stepE)
  show ?thesis
  proof (cases e)
    case (Worker i)
    then show ?thesis using e(1) worker_measure length_log_calm [OF c'] by (auto simp: pool_event_def)
  next
    case (Main j)
    then show ?thesis using e(1) main_measure by (auto simp: pool_event_def split: if_splits)
  next
    case Supervisor
    then have "supervisor_step s = Some s'" "stopping_ok s"
      using e(1) v by (auto simp: pool_event_def calm_view_def control_ok_def running_ok_def supervisor_step_def)
    then show ?thesis
      by (auto simp: supervisor_step_def stopping_ok_def worker_crew_cancel_def thread_pool_status_set_def
          pool_measure_def supervisor_weight_def)
  next
    case (Worker_Cancelled i)
    then have w: "worker_cancelled i s = Some s'" using e(1) by (simp add: pool_event_def)
    then have i: "i < length (p_workers s)" "s' = s\<lparr>p_workers := (p_workers s)[i := Dead]\<rparr>"
        "p_workers s ! i = Waiting \<or> (\<exists>n. p_workers s ! i = Running n)"
      by (auto simp: worker_cancelled_def split: if_splits worker.splits)
    then show ?thesis using worker_weights_update [OF i(1), of Dead] by (auto simp: pool_measure_def worker_weight_def)
  qed (use e(2-4) in simp_all)
qed

lemma may_wake_some: "\<exists>j. may_wake j s"
  by (metis in_set_conv_nth may_wake_def)

text \<open>No wake-up is lost: as long as the program has not ended, some thread can go on.\<close>

lemma calm_progress:
  assumes c: "calm task phases s" and m: "\<And>e. p_main s \<noteq> Ended e"
  shows "\<exists>s'. quiet_step s s'"
proof -
  obtain v where v: "calm_view task v s" using c by (auto simp: calm_def)
  have p: "nodes_ok v (p_workers s)" "main_ok v (p_main s)" "crew_ok v s" "control_ok s"
    using v by (simp_all add: calm_view_def)
  obtain j where j: "may_wake j s" using may_wake_some by blast
  have main: "\<exists>s'. quiet_step s s'" if "main_step j s \<noteq> None"
    using that j by (intro exI [of _ "the (main_step j s)"] quiet_event [of "Main j"]) (auto simp: pool_event_def)
  have worker: "\<exists>s'. quiet_step s s'" if w: "w \<in> set (p_workers s)" "w \<noteq> Waiting" "w \<noteq> Dead" for w
  proof -
    obtain i where i: "i < length (p_workers s)" "p_workers s ! i = w" using w(1) by (metis in_set_conv_nth)
    have "w \<notin> {Waiting, Dead}" using w by simp
    then obtain s' where "worker_process_tasks i s = Some s'" using worker_calm [OF v i(1)] i(2) by metis
    then have "quiet_step s s'" by (intro quiet_event [of "Worker i"]) (simp_all add: pool_event_def)
    then show ?thesis by blast
  qed
  have alive: "Dead \<notin> set (p_workers s)" if "awaiting (p_main s)"
    using p(3,4) stopping_not_awaiting [of s] that by (auto simp: crew_ok_def control_ok_def running_ok_def)
  show ?thesis
  proof (cases "p_main s")
    case Asleep_Backlog
    then obtain w where w: "w \<in> set (p_workers s)" "w \<noteq> Waiting" using p(2,3) by (auto simp: main_ok_def crew_ok_def)
    then show ?thesis using worker [OF w] alive by (auto simp: Asleep_Backlog awaiting_def)
  next
    case Asleep_Active
    then have "nodes_of busy_of (p_workers s) \<noteq> []" using p(1,2) by (auto simp: main_ok_def nodes_ok_def)
    then obtain w where "w \<in> set (p_workers s)" "busy_of w \<noteq> []" by (auto simp: nodes_of_def)
    then show ?thesis using worker [of w] by (auto simp: busy_of_def split: worker.splits)
  next
    case Await_Exit
    then have st: "stopping_ok s" using p(4) by (auto simp: control_ok_def running_ok_def awaiting_def)
    show ?thesis
    proof (cases "p_busy s")
      case True
      then have "supervisor_step s \<noteq> None" using st by (auto simp: stopping_ok_def supervisor_step_def)
      then show ?thesis
        by (intro exI [of _ "the (supervisor_step s)"] quiet_event [of Supervisor]) (auto simp: pool_event_def)
    next
      case False
      then show ?thesis by (intro main) (simp add: main_step_def Await_Exit)
    qed
  next
    case Awaited
    then show ?thesis by (intro main) (simp add: main_step_def split: list.splits)
  qed (use m main in \<open>auto simp: main_step_def\<close>)
qed

lemma calm_ends:
  assumes "calm task phases s"
  shows "\<exists>s'. quiet_step\<^sup>*\<^sup>* s s' \<and> p_main s' = Ended Exit_Success"
  using assms
proof (induction "pool_measure (length (concat phases)) s" arbitrary: s rule: less_induct)
  case less
  show ?case
  proof (cases "\<exists>e. p_main s = Ended e")
    case True
    then show ?thesis using calm_ended [OF less.prems] by blast
  next
    case False
    then obtain s1 where s1: "quiet_step s s1" using calm_progress [OF less.prems] by blast
    from less.hyps [OF quiet_step_measure [OF less.prems s1] calm_step_calm [OF less.prems quiet_calm [OF s1]]]
    obtain s' where "quiet_step\<^sup>*\<^sup>* s1 s'" "p_main s' = Ended Exit_Success" by blast
    then show ?thesis using s1 by (meson converse_rtranclp_into_rtranclp)
  qed
qed

lemma quiet_relpow_measure:
  "(quiet_step ^^ k) s s' \<Longrightarrow> calm task phases s \<Longrightarrow>
    calm task phases s' \<and> k + pool_measure (length (concat phases)) s' \<le> pool_measure (length (concat phases)) s"
proof (induction k arbitrary: s')
  case (Suc k)
  then obtain s1 where s1: "(quiet_step ^^ k) s s1" "quiet_step s1 s'" by auto
  have c: "calm task phases s1" "k + pool_measure (length (concat phases)) s1 \<le> pool_measure (length (concat phases)) s"
    using Suc.IH [OF s1(1) Suc.prems(2)] by auto
  show ?case using c quiet_step_measure [OF c(1) s1(2)] calm_step_calm [OF c(1) quiet_calm [OF s1(2)]] by auto
qed simp

section \<open>Properties\<close>

text \<open>An example of two phases: the tasks \<open>a\<close> and \<open>b\<close>, then \<open>c\<close>.\<close>

definition demo_heap :: "string heap" where
  "demo_heap =
     [0 \<mapsto> \<lparr>tn_task = ''a'', tn_prev = None, tn_next = Some 1\<rparr>,
      1 \<mapsto> \<lparr>tn_task = ''b'', tn_prev = Some 0, tn_next = None\<rparr>,
      2 \<mapsto> \<lparr>tn_task = ''c'', tn_prev = None, tn_next = None\<rparr>]"

definition demo_first :: task_store where
  "demo_first = \<lparr>ts_head = Some 0, ts_last = Some 1\<rparr>"

definition demo_second :: task_store where
  "demo_second = \<lparr>ts_head = Some 2, ts_last = Some 2\<rparr>"

definition demo_task :: "nat \<Rightarrow> string" where
  "demo_task n = (case demo_heap n of None \<Rightarrow> [] | Some nd \<Rightarrow> tn_task nd)"

lemmas demo_defs = demo_heap_def demo_first_def demo_second_def

lemma demo_ready: "stores_ready demo_task demo_heap [demo_first, demo_second] [[0, 1], [2]]"
  by (simp add: stores_ready_def demo_defs demo_task_def queue_holds_def task_queue_init_store_def linked_def)

lemma pool_run_calm:
  "pool_run es s = Some s' \<Longrightarrow> \<forall>e \<in> set es. \<forall>i. e \<noteq> Worker_Fails i \<Longrightarrow> calm_step\<^sup>*\<^sup>* s s'"
proof (induction es arbitrary: s)
  case (Cons e es)
  then obtain s1 where "pool_event e s = Some s1" "pool_run es s1 = Some s'" by (auto split: bind_splits)
  then show ?case using Cons calm_event [of e s s1] by (auto intro: converse_rtranclp_into_rtranclp)
qed simp

lemma pool_run_steps: "pool_run es s = Some s' \<Longrightarrow> pool_step\<^sup>*\<^sup>* s s'"
proof (induction es arbitrary: s)
  case (Cons e es)
  then obtain s1 where "pool_event e s = Some s1" "pool_run es s1 = Some s'" by (auto split: bind_splits)
  then show ?case using Cons.IH pool_event [of e s s1] by (meson converse_rtranclp_into_rtranclp)
qed simp

text \<open>One worker runs the first phase.\<close>

definition demo_events :: "event list" where
  "demo_events = [Worker 0, Worker 0, Worker 0, Worker 0, Worker 0, Worker 0, Worker 0, Main 0, Main 0]"

lemmas run_defs = pool_event_def worker_process_tasks_def worker_pop_push_def worker_call_def worker_remove_def
  worker_complete_def main_step_def supervisor_step_def worker_exit_on_failure_def thread_pool_reload_def
  task_queue_pop_push_def task_queue_remove_def task_queue_push_quiet_def task_queue_reload_def task_queue_clear_def
  task_queue_peek_def set_prev_def set_next_def signal_backlog_empty_def signal_active_empty_def wake_worker_def
  may_wake_def thread_pool_init_def worker_crew_init_def task_queue_init_empty_def task_queue_init_store_def
  supervisor_signal_def worker_crew_cancel_def thread_pool_status_set_def worker_cancelled_def

lemma demo_run:
  "\<exists>s. pool_run demo_events (thread_pool_init demo_heap demo_first 1 [demo_second]) = Some s \<and> p_main s = Awaited \<and>
    p_stores s = [demo_second]"
  by (simp add: demo_events_def run_defs demo_defs)


text \<open>
  C6: the wait between two phases is a barrier: when no task fails and the main thread is past
  \<open>thread_pool_await\<close>, whatever the interleaving of the workers, the spurious wake-ups and the order
  in which the tasks ended, exactly the tasks of the phases started so far have run, each one once.
\<close>

theorem thread_pool_phase_barrier:
  assumes "stores_ready task h (st # sts) phases"
    and "calm_step\<^sup>*\<^sup>* (thread_pool_init h st w sts) s"
    and "p_main s = Awaited"
  shows "mset (p_log s) = mset (map task (concat (take (length phases - length (p_stores s)) phases)))"
proof -
  have c: "calm task phases s" using calm_reachable [OF assms(1,2)] .
  then obtain v where v: "view_phases v = phases" "calm_view task v s" by (auto simp: calm_def)
  have "length (p_stores s) = length (v_later v)"
    using v(2) by (auto simp: calm_view_def memory_ok_def dest: list_all2_lengthD)
  then have "Suc (phases_over phases s) = length phases - length (p_stores s)"
    by (simp add: phases_over_def v(1) [symmetric] view_phases_def)
  then show ?thesis using calm_mset_log [OF c] assms(3) by simp
qed

theorem thread_pool_phase_barrier_witness:
  "\<exists>s. calm_step\<^sup>*\<^sup>* (thread_pool_init demo_heap demo_first 1 [demo_second]) s \<and> p_main s = Awaited \<and>
    mset (p_log s) = {#''a'', ''b''#}"
proof -
  obtain s where s: "pool_run demo_events (thread_pool_init demo_heap demo_first 1 [demo_second]) = Some s"
    "p_main s = Awaited" "p_stores s = [demo_second]" using demo_run by blast
  have r: "calm_step\<^sup>*\<^sup>* (thread_pool_init demo_heap demo_first 1 [demo_second]) s"
    by (rule pool_run_calm [OF s(1)]) (simp add: demo_events_def)
  show ?thesis using thread_pool_phase_barrier [OF demo_ready r s(2)] r s(2,3)
    by (intro exI [of _ s]) (simp add: demo_task_def demo_defs)
qed

text \<open>
  At every moment of a run in which no task fails, the tasks that have returned are those of the
  phases that are over, phase by phase, followed by some of the tasks of the phase under way, none of
  them twice: no task runs before its phase, after it, or again.
\<close>

theorem thread_pool_runs_in_phases:
  assumes "stores_ready task h (st # sts) phases"
    and "calm_step\<^sup>*\<^sup>* (thread_pool_init h st w sts) s"
  shows "\<exists>ran now. p_log s = map task (concat ran @ now) \<and>
    list_all2 (\<lambda>l xs. mset l = mset xs) ran (take (phases_over phases s) phases) \<and>
    mset now \<subseteq># mset (phases ! phases_over phases s)"
  using calm_log [OF calm_reachable [OF assms]] by blast

theorem thread_pool_runs_in_phases_witness:
  "\<exists>s ran now. calm_step\<^sup>*\<^sup>* (thread_pool_init demo_heap demo_first 1 [demo_second]) s \<and>
    p_log s = map demo_task (concat ran @ now) \<and>
    list_all2 (\<lambda>l xs. mset l = mset xs) ran [] \<and> mset now \<subseteq># mset [0, 1]"
proof -
  obtain s where s: "pool_run demo_events (thread_pool_init demo_heap demo_first 1 [demo_second]) = Some s"
    "p_stores s = [demo_second]" using demo_run by blast
  have r: "calm_step\<^sup>*\<^sup>* (thread_pool_init demo_heap demo_first 1 [demo_second]) s"
    by (rule pool_run_calm [OF s(1)]) (simp add: demo_events_def)
  have "phases_over [[0, 1], [2]] s = 0" by (simp add: phases_over_def s(2))
  then show ?thesis using thread_pool_runs_in_phases [OF demo_ready r] r by (intro exI [of _ s]) simp
qed

text \<open>
  C7: no deadlock and no lost wake-up: in every state of a run in which no task fails, the program has
  ended with success, every task of every phase run exactly once, or some thread can take a step that
  needs neither a failure nor a spurious wake-up.
\<close>

theorem thread_pool_never_stuck:
  assumes "stores_ready task h (st # sts) phases"
    and "calm_step\<^sup>*\<^sup>* (thread_pool_init h st w sts) s"
    and "\<nexists>s'. quiet_step s s'"
  shows "p_main s = Ended Exit_Success \<and> mset (p_log s) = mset (map task (concat phases))"
proof -
  have c: "calm task phases s" using calm_reachable [OF assms(1,2)] .
  then obtain e where e: "p_main s = Ended e" using calm_progress assms(3) by blast
  have x: "e = Exit_Success" "p_stores s = []" using calm_ended [OF c e] by blast+
  have "phases \<noteq> []" using assms(1) by (auto simp: stores_ready_def)
  then show ?thesis using calm_mset_log [OF c] by (simp add: e x phases_over_def)
qed

theorem thread_pool_never_stuck_witness:
  "\<exists>s. calm_step\<^sup>*\<^sup>* (thread_pool_init demo_heap demo_first 1 [demo_second]) s \<and>
    p_main s = Ended Exit_Success \<and> mset (p_log s) = {#''a'', ''b'', ''c''#}"
proof -
  let ?es = "demo_events @ [Main 0, Worker 0, Worker 0, Worker 0, Worker 0, Worker 0, Main 0, Main 0, Main 0,
    Supervisor, Supervisor, Main 0, Worker 0, Worker_Cancelled 0]"
  have "\<exists>s. pool_run ?es (thread_pool_init demo_heap demo_first 1 [demo_second]) = Some s \<and>
      p_main s = Ended Exit_Success \<and> p_workers s = [Dead] \<and> p_supervisor s = Gone"
    by (simp add: demo_events_def run_defs demo_defs)
  then obtain s where s: "pool_run ?es (thread_pool_init demo_heap demo_first 1 [demo_second]) = Some s"
      "p_main s = Ended Exit_Success" "p_workers s = [Dead]" "p_supervisor s = Gone" by blast
  have r: "calm_step\<^sup>*\<^sup>* (thread_pool_init demo_heap demo_first 1 [demo_second]) s"
    by (rule pool_run_calm [OF s(1)]) (simp add: demo_events_def)
  have "\<nexists>s'. quiet_step s s'"
    using s(2-4) by (auto elim!: quiet_stepE simp: run_defs split: event.splits if_splits)
  from thread_pool_never_stuck [OF demo_ready r this] r show ?thesis
    by (intro exI [of _ s]) (simp add: demo_task_def demo_defs)
qed

text \<open>
  C8: every run ends: without failures and spurious wake-ups the threads take at most six steps for
  each task, three for each worker and ten for each phase, and a few to stop.
\<close>

theorem thread_pool_terminates:
  assumes "stores_ready task h (st # sts) phases"
    and "(quiet_step ^^ k) (thread_pool_init h st w sts) s"
  shows "k \<le> 6 * length (concat phases) + 3 * max 1 w + 10 * length phases"
proof -
  have "length phases = Suc (length sts)" using assms(1) by (auto simp: stores_ready_def dest: list_all2_lengthD)
  moreover have "pool_measure n (thread_pool_init h st w sts) = 6 * n + 3 * max 1 w + 9 + 10 * length sts" for n
    by (simp add: pool_measure_def thread_pool_init_def worker_crew_init_def weight_defs sum_list_replicate)
  ultimately show ?thesis
    using quiet_relpow_measure [OF assms(2) thread_pool_init_calm [OF assms(1)]] by simp
qed

theorem thread_pool_terminates_witness:
  "\<exists>s. (quiet_step ^^ 2) (thread_pool_init demo_heap demo_first 1 [demo_second]) s \<and>
    2 \<le> 6 * length (concat [[0, 1], [2 :: nat]]) + 3 * max 1 1 + 10 * length [[0, 1], [2 :: nat]]"
proof -
  let ?i = "thread_pool_init demo_heap demo_first 1 [demo_second]"
  obtain s1 s2 where s: "pool_event (Worker 0) ?i = Some s1" "pool_event (Worker 0) s1 = Some s2"
    by (simp add: run_defs demo_defs)
  have "quiet_step ?i s1" "quiet_step s1 s2" using s by (auto intro: quiet_event)
  then have r: "(quiet_step ^^ 2) ?i s2" by (auto simp: numeral_2_eq_2)
  show ?thesis using thread_pool_terminates [OF demo_ready r] r by blast
qed


section \<open>When a task fails\<close>

text \<open>
  The program hangs: the main thread waits for a backlog that nobody empties, the supervisor is gone
  and so is every worker.
\<close>

definition hung :: "'a pool \<Rightarrow> bool" where
  "hung s \<longleftrightarrow>
     p_main s \<in> {Await_Backlog, Asleep_Backlog} \<and> task_queue_peek (p_backlog s) \<noteq> None \<and> p_supervisor s = Gone \<and>
     (\<forall>w \<in> set (p_workers s). w = Dead)"

lemma hung_worker: "hung s \<Longrightarrow> i < length (p_workers s) \<Longrightarrow> p_workers s ! i = Dead"
  by (simp add: hung_def)

lemma hung_step: "pool_step s s' \<Longrightarrow> hung s \<Longrightarrow> hung s'"
proof (induction rule: pool_step.induct)
  case (pool_event e s s')
  have w: "worker_process_tasks i s = None" "worker_cancelled i s = None" "worker_exit_on_failure i s = None" for i
    using hung_worker [OF pool_event(2), of i]
    by (simp_all add: worker_process_tasks_def worker_cancelled_def worker_exit_on_failure_def)
  show ?case
    using pool_event
    by (cases e) (auto simp: pool_event_def w hung_worker [OF pool_event(2)] hung_def supervisor_step_def main_step_def split: if_splits)
qed

text \<open>
  C14: the failure path has a race: \<open>supervisor_do_exit_failure\<close> empties both queues before it clears
  \<open>busy\<close>, so the main thread can pass \<open>thread_pool_await\<close>, find the pool alive and load the next
  phase although the tasks of the first one never ran; from then on no step of any thread gets it
  out of the wait for that phase.
\<close>

theorem thread_pool_failure_race:
  "\<exists>s. pool_step\<^sup>*\<^sup>* (thread_pool_init demo_heap demo_first 1 [demo_second]) s \<and> p_log s = [] \<and> p_stores s = [] \<and>
    {p_main s' |s'. pool_step\<^sup>*\<^sup>* s s'} \<subseteq> {Await_Backlog, Asleep_Backlog}"
proof -
  let ?es = "[Worker 0, Worker_Fails 0, Supervisor, Supervisor, Supervisor, Supervisor, Main 0, Main 0, Main 0, Supervisor]"
  have "\<exists>s. pool_run ?es (thread_pool_init demo_heap demo_first 1 [demo_second]) = Some s \<and> hung s \<and>
      p_log s = [] \<and> p_stores s = []"
    by (simp add: run_defs demo_defs hung_def)
  then obtain s where s: "pool_run ?es (thread_pool_init demo_heap demo_first 1 [demo_second]) = Some s" "hung s"
      "p_log s = []" "p_stores s = []" by blast
  have "hung s'" if "pool_step\<^sup>*\<^sup>* s s'" for s'
    using that s(2) by (induction rule: rtranclp_induct) (auto intro: hung_step)
  then show ?thesis using s pool_run_steps [OF s(1)] by (auto simp: hung_def)
qed

end
