(* ===== verification/Random_Numbers.thy ===== *)
theory Random_Numbers
  imports Prelude "HOL-Library.Word"
begin

text \<open>
  Pseudorandom numbers: the 128-bit arithmetic of \<open>src/utils/uint128_ops.h\<close> (the branch without
  128-bit operations, the only one the sources compile), the generators of
  \<open>src/random/pcg_random.h\<close> and \<open>pcg_random.c\<close>, the rotations of \<open>src/bitwise/bitwise_utils.h\<close>
  they use, and the bounded numbers of \<open>src/random/random.h\<close>. The global generators
  \<open>glob_rng32\<close> and \<open>glob_rng64\<close> are state that is passed and returned.
\<close>

unbundle bit_operations_syntax

section \<open>128-bit arithmetic\<close>

record uint128 =
  low :: "64 word"
  high :: "64 word"

definition UINT128_INITIALIZER :: "64 word \<Rightarrow> 64 word \<Rightarrow> uint128" where
  "UINT128_INITIALIZER l h = \<lparr>low = l, high = h\<rparr>"

definition uint128_add :: "uint128 \<Rightarrow> uint128 \<Rightarrow> uint128" where
  "uint128_add acc add =
     (let sum_low = low acc + low add;
          sum_high = high acc + high add
      in \<lparr>low = sum_low, high = if sum_low < low acc then sum_high + 1 else sum_high\<rparr>)"

text \<open>The cast to \<open>uint32_t\<close> and back.\<close>

definition low32 :: "64 word \<Rightarrow> 64 word" where
  "low32 x = ucast (ucast x :: 32 word)"

definition uint128_mult :: "uint128 \<Rightarrow> uint128 \<Rightarrow> uint128" where
  "uint128_mult acc mult =
     (let acc_low = low32 (low acc); acc_high = drop_bit 32 (low acc);
          mult_low = low32 (low mult); mult_high = drop_bit 32 (low mult);
          prod128 = acc_low * mult_low;
          l = low32 prod128;
          prod128 = drop_bit 32 prod128 + acc_high * mult_high;
          l = l OR push_bit 32 prod128;
          prod128 = drop_bit 32 prod128;
          acc_low = low32 (high acc); acc_high = drop_bit 32 (high acc);
          mult_low = low32 (high mult); mult_high = drop_bit 32 (high mult);
          prod128 = prod128 + acc_low * mult_low;
          h = low32 prod128;
          prod128 = drop_bit 32 prod128 + acc_high * mult_high;
          h = h OR push_bit 32 prod128
      in \<lparr>low = l, high = h\<rparr>)"

definition uint128_fma :: "uint128 \<Rightarrow> uint128 \<Rightarrow> uint128 \<Rightarrow> uint128" where
  "uint128_fma acc mult add = uint128_add (uint128_mult acc mult) add"

definition uint128_xor :: "uint128 \<Rightarrow> uint128 \<Rightarrow> uint128" where
  "uint128_xor acc other = \<lparr>low = low acc XOR low other, high = high acc XOR high other\<rparr>"

section \<open>Rotations\<close>

definition uint32_rotate_right :: "32 word \<Rightarrow> 32 word \<Rightarrow> 32 word" where
  "uint32_rotate_right value rot = drop_bit (unat rot) value OR push_bit (unat (- rot AND 31)) value"

definition uint64_rotate_right :: "64 word \<Rightarrow> 32 word \<Rightarrow> 64 word" where
  "uint64_rotate_right value rot = drop_bit (unat rot) value OR push_bit (unat (- rot AND 63)) value"

section \<open>The generators\<close>

record pcg32 =
  state32 :: "64 word"
  increment32 :: "64 word"

record pcg64 =
  state64 :: uint128
  increment64 :: uint128

definition PCG_DEFAULT_MULTIPLIER_64 :: "64 word" where
  "PCG_DEFAULT_MULTIPLIER_64 = 6364136223846793005"

definition PCG_DEFAULT_MULTIPLIER_128 :: uint128 where
  "PCG_DEFAULT_MULTIPLIER_128 = UINT128_INITIALIZER 2549297995355413924 4865540595714422341"

definition pcg32_random_t_init :: "64 word \<Rightarrow> pcg32" where
  "pcg32_random_t_init init_seq = \<lparr>state32 = 0, increment32 = push_bit 1 init_seq OR 1\<rparr>"

definition pcg_setseq_64_step_r :: "pcg32 \<Rightarrow> pcg32" where
  "pcg_setseq_64_step_r rng = rng\<lparr>state32 := state32 rng * PCG_DEFAULT_MULTIPLIER_64 + increment32 rng\<rparr>"

definition pcg64_random_t_init :: "uint128 \<Rightarrow> pcg64" where
  "pcg64_random_t_init init_seq =
     \<lparr>state64 = \<lparr>low = 0, high = 0\<rparr>,
      increment64 = \<lparr>low = push_bit 1 (low init_seq) OR 1, high = drop_bit 63 (low init_seq) OR push_bit 1 (high init_seq)\<rparr>\<rparr>"

definition pcg_setseq_128_step_r :: "pcg64 \<Rightarrow> pcg64" where
  "pcg_setseq_128_step_r rng =
     rng\<lparr>state64 := uint128_fma (state64 rng) PCG_DEFAULT_MULTIPLIER_128 (increment64 rng)\<rparr>"

definition pcg_output_xsl_rr_128_64 :: "uint128 \<Rightarrow> 64 word" where
  "pcg_output_xsl_rr_128_64 state = uint64_rotate_right (low state XOR high state) (ucast (drop_bit 58 (high state)))"

text \<open>\<open>addr\<close> and \<open>seed_addr\<close> are the addresses of the generator and of the seed.\<close>

definition pcg32_srandom_r :: "64 word \<Rightarrow> 64 word \<Rightarrow> 64 word \<Rightarrow> pcg32" where
  "pcg32_srandom_r addr seed_addr seed =
     (let rng = pcg_setseq_64_step_r (pcg32_random_t_init (addr OR seed_addr))
      in pcg_setseq_64_step_r (rng\<lparr>state32 := state32 rng + seed\<rparr>))"

definition pcg32_random_r :: "pcg32 \<Rightarrow> 32 word \<times> pcg32" where
  "pcg32_random_r rng =
     (let state = state32 rng
      in (uint32_rotate_right (ucast (drop_bit 27 (drop_bit 18 state XOR state))) (ucast (drop_bit 59 state)),
          pcg_setseq_64_step_r rng))"

definition pcg64_srandom_r :: "64 word \<Rightarrow> 64 word \<Rightarrow> uint128 \<Rightarrow> pcg64" where
  "pcg64_srandom_r addr seed_addr seed =
     (let rng = pcg_setseq_128_step_r (pcg64_random_t_init (UINT128_INITIALIZER addr seed_addr))
      in pcg_setseq_128_step_r (rng\<lparr>state64 := uint128_add (state64 rng) seed\<rparr>))"

definition pcg64_random_r :: "pcg64 \<Rightarrow> 64 word \<times> pcg64" where
  "pcg64_random_r rng = (let rng = pcg_setseq_128_step_r rng in (pcg_output_xsl_rr_128_64 (state64 rng), rng))"

section \<open>Bounded numbers\<close>

text \<open>\<open>RANDOM_THRESHOLD\<close>; a span of zero divides by zero and has no value.\<close>

definition RANDOM_THRESHOLD :: "'w::len word \<Rightarrow> 'w word option" where
  "RANDOM_THRESHOLD span = (if span = 0 then None else Some (- span mod span))"

text \<open>The loop that throws away the numbers below the threshold; no value if it runs for ever.\<close>

partial_function (option) random_above ::
  "('r \<Rightarrow> 'w::len word \<times> 'r) \<Rightarrow> 'w word \<Rightarrow> 'r \<Rightarrow> ('w word \<times> 'r) option" where
  "random_above draw threshold rng =
     (if fst (draw rng) < threshold then random_above draw threshold (snd (draw rng)) else Some (draw rng))"

definition random_bound ::
  "('r \<Rightarrow> 'w::len word \<times> 'r) \<Rightarrow> 'w word \<Rightarrow> 'w word \<Rightarrow> 'r \<Rightarrow> ('w word \<times> 'r) option" where
  "random_bound draw threshold span rng =
     do { (random, rng) \<leftarrow> random_above draw threshold rng;
          if span = 0 then None else Some (random mod span, rng) }"

definition random_uint32_bound :: "32 word \<Rightarrow> 32 word \<Rightarrow> pcg32 \<Rightarrow> (32 word \<times> pcg32) option" where
  "random_uint32_bound = random_bound pcg32_random_r"

definition random_uint64_bound :: "64 word \<Rightarrow> 64 word \<Rightarrow> pcg64 \<Rightarrow> (64 word \<times> pcg64) option" where
  "random_uint64_bound = random_bound pcg64_random_r"

section \<open>The threshold\<close>

lemma unat_uminus: "x \<noteq> 0 \<Longrightarrow> unat (- x) = 2 ^ LENGTH('w) - unat x" for x :: "'w::len word"
  using unat_sub_if' [of 0 x] unat_gt_0 [of x] by (simp del: unat_gt_0 split: if_splits)

lemma unat_threshold:
  fixes span t :: "'w::len word"
  assumes "RANDOM_THRESHOLD span = Some t"
  shows "unat t = (2 ^ LENGTH('w) - unat span) mod unat span" "0 < unat span"
  using assms by (auto simp: RANDOM_THRESHOLD_def unat_mod unat_uminus unat_gt_0 split: if_splits)

lemma threshold_less: "RANDOM_THRESHOLD span = Some t \<Longrightarrow> t < span" for span :: "'w::len word"
  using unat_threshold [of span t] by (simp add: word_less_nat_alt)

text \<open>The numbers that are kept are a multiple of the span.\<close>

lemma threshold_divides:
  fixes span t :: "'w::len word"
  assumes "RANDOM_THRESHOLD span = Some t"
  shows "\<exists>q. 2 ^ LENGTH('w) = unat t + q * unat span \<and> 0 < q"
proof -
  have s: "unat span < 2 ^ LENGTH('w)" using unsigned_less .
  let ?d = "2 ^ LENGTH('w) - unat span"
  have "2 ^ LENGTH('w) = ?d + unat span" by (rule le_add_diff_inverse2 [OF less_imp_le [OF s], symmetric])
  also have "?d = unat t + (?d div unat span) * unat span" using unat_threshold(1) [OF assms] by simp
  finally have e: "2 ^ LENGTH('w) = unat t + (?d div unat span + 1) * unat span"
    by (simp only: distrib_right mult_1 add.assoc)
  show ?thesis by (intro exI conjI, rule e) simp
qed

lemma card_residue:
  fixes t q s v :: nat
  assumes "v < s"
  shows "card {n. t \<le> n \<and> n < t + q * s \<and> n mod s = v} = q"
proof (induction q)
  case (Suc q)
  let ?A = "{n. t \<le> n \<and> n < t + q * s \<and> n mod s = v}" and ?a = "t + q * s"
  define c where "c = ?a + (v + (s - ?a mod s)) mod s"
  have 0: "0 < s" using assms by simp
  have "c mod s = (?a mod s + (v + (s - ?a mod s))) mod s" unfolding c_def by (metis mod_add_eq mod_add_right_eq)
  also have "?a mod s + (v + (s - ?a mod s)) = v + s" using mod_less_divisor [OF 0, of ?a] by simp
  finally have c: "c mod s = v" "?a \<le> c" "c < ?a + s" using assms 0 by (simp_all add: c_def)
  have u: "n = c" if "?a \<le> n" "n < ?a + s" "n mod s = v" for n
  proof -
    have "int n mod int s = int c mod int s" using that(3) c(1) by (simp add: zmod_int [symmetric])
    then have "int s dvd int n - int c" by (simp add: mod_eq_dvd_iff)
    moreover have "\<bar>int n - int c\<bar> < int s" using that(1,2) c(2,3) by linarith
    ultimately have "int n - int c = 0" using dvd_imp_le_int [of "int n - int c" "int s"] by fastforce
    then show ?thesis by simp
  qed
  have e: "t + Suc q * s = ?a + s" by simp
  have "{n. t \<le> n \<and> n < t + Suc q * s \<and> n mod s = v} = insert c ?A"
  proof (rule set_eqI, rule iffI)
    fix n assume "n \<in> {n. t \<le> n \<and> n < t + Suc q * s \<and> n mod s = v}"
    then have n: "t \<le> n" "n < ?a + s" "n mod s = v" unfolding e by simp_all
    show "n \<in> insert c ?A"
    proof (cases "n < ?a")
      case False
      then show ?thesis using u [of n] n by simp
    qed (use n in simp)
  next
    fix n assume "n \<in> insert c ?A"
    then show "n \<in> {n. t \<le> n \<and> n < t + Suc q * s \<and> n mod s = v}" using c unfolding e by auto
  qed
  moreover have "c \<notin> ?A" using c(2) by simp
  moreover have "finite ?A" by simp
  ultimately show ?case using Suc by simp
qed simp


text \<open>Below the threshold lie at most half of the numbers.\<close>

lemma threshold_half:
  fixes span t :: "'w::len word"
  assumes "RANDOM_THRESHOLD span = Some t"
  shows "2 * unat t < 2 ^ LENGTH('w)"
proof -
  obtain q where q: "2 ^ LENGTH('w) = unat t + q * unat span" "0 < q" using threshold_divides [OF assms] by blast
  have "unat t < unat span" using threshold_less [OF assms] by (simp add: word_less_nat_alt)
  also have "\<dots> \<le> q * unat span" using q(2) by simp
  finally show ?thesis using q(1) by (simp del: unsigned_less)
qed

section \<open>The loop\<close>

lemma random_above_result:
  fixes draw :: "'r \<Rightarrow> 'w::len word \<times> 'r"
  shows "random_above draw t rng = Some r \<Longrightarrow> \<not> fst r < t \<and> (\<exists>n. r = draw (((\<lambda>x. snd (draw x)) ^^ n) rng))"
proof (rule random_above.raw_induct [rotated, of draw t rng r "\<lambda>draw t rng r. \<not> fst r < t \<and> (\<exists>n. r = draw (((\<lambda>x. snd (draw x)) ^^ n) rng))"])
  fix above :: "('r \<Rightarrow> 'w::len word \<times> 'r) \<Rightarrow> 'w word \<Rightarrow> 'r \<Rightarrow> ('w word \<times> 'r) option" and draw t rng r
  assume IH: "\<And>draw t rng r. above draw t rng = Some r \<Longrightarrow> \<not> fst r < t \<and> (\<exists>n. r = draw (((\<lambda>x. snd (draw x)) ^^ n) rng))"
    and e: "(if fst (draw rng) < t then above draw t (snd (draw rng)) else Some (draw rng)) = Some r"
  show "\<not> fst r < t \<and> (\<exists>n. r = draw (((\<lambda>x. snd (draw x)) ^^ n) rng))"
  proof (cases "fst (draw rng) < t")
    case True
    then obtain n where n: "\<not> fst r < t" "r = draw (((\<lambda>x. snd (draw x)) ^^ n) (snd (draw rng)))"
      using IH [of draw t "snd (draw rng)" r] e by auto
    have "r = draw (((\<lambda>x. snd (draw x)) ^^ Suc n) rng)" using n(2) by (simp only: funpow_Suc_right comp_def)
    then show ?thesis using n(1) by blast
  next
    case False
    then have "r = draw rng" using e by simp
    then show ?thesis using False by (intro conjI exI [of _ 0]) simp_all
  qed
qed

lemma random_above_ends:
  "\<not> fst (draw (((\<lambda>x. snd (draw x)) ^^ n) rng)) < t \<Longrightarrow> \<exists>r. random_above draw t rng = Some r"
proof (induction n arbitrary: rng)
  case 0
  then show ?case by (subst random_above.simps) simp
next
  case (Suc n)
  then show ?case
    using Suc.IH [of "snd (draw rng)"]
    by (subst random_above.simps) (simp add: funpow_Suc_right comp_def del: funpow.simps(2))
qed

section \<open>The interface of a source of random words\<close>

text \<open>A source that keeps its states valid; one that draws the greatest word again and again.\<close>

locale random_source =
  fixes draw :: "'r \<Rightarrow> 'w::len word \<times> 'r" and valid :: "'r \<Rightarrow> bool"
  assumes valid_draw: "valid rng \<Longrightarrow> valid (snd (draw rng))"
begin

lemma valid_draws: "valid rng \<Longrightarrow> valid (((\<lambda>x. snd (draw x)) ^^ n) rng)"
  by (induction n) (simp_all add: valid_draw)

lemma random_bound_range:
  assumes "random_bound draw t span rng = Some (v, rng')" "valid rng"
  shows "v < span \<and> valid rng'"
proof -
  obtain r where r: "random_above draw t rng = Some (r, rng')" "span \<noteq> 0" "v = r mod span"
    using assms(1) by (auto simp: random_bound_def split: bind_splits if_splits)
  have "valid rng'" using random_above_result [OF r(1)] valid_draw [OF valid_draws [OF assms(2)]] by (metis snd_conv)
  moreover have "v < span" using r(2,3) word_mod_less_divisor [of span r] by (simp add: word_neq_0_conv)
  ultimately show ?thesis by simp
qed

end

locale full_random_source = random_source +
  assumes reaches_top: "valid rng \<Longrightarrow> \<exists>n. fst (draw (((\<lambda>x. snd (draw x)) ^^ n) rng)) = - 1"
begin

lemma random_bound_total:
  assumes "valid rng" "span \<noteq> 0"
  shows "\<exists>v rng'. random_bound draw t span rng = Some (v, rng') \<and> v < span \<and> valid rng'"
proof -
  obtain n where "fst (draw (((\<lambda>x. snd (draw x)) ^^ n) rng)) = - 1" using reaches_top assms(1) by blast
  then have "\<not> fst (draw (((\<lambda>x. snd (draw x)) ^^ n) rng)) < t" by simp
  then obtain r where "random_above draw t rng = Some r" using random_above_ends [of draw n rng t] by blast
  then have "random_bound draw t span rng = Some (fst r mod span, snd r)"
    using assms(2) by (cases r) (simp add: random_bound_def)
  then show ?thesis using random_bound_range assms(1) by blast
qed

end


section \<open>The 32-bit generator visits every state\<close>

text \<open>\<open>2 ^ k\<close> steps of a congruential generator \<open>x \<mapsto> a * x + c\<close> are again such a map.\<close>

definition lcg :: "int \<Rightarrow> int \<Rightarrow> int \<Rightarrow> int" where
  "lcg a c x = a * x + c"

fun lcg_add :: "int \<Rightarrow> int \<Rightarrow> nat \<Rightarrow> int" where
  "lcg_add a c 0 = c"
| "lcg_add a c (Suc k) = (a ^ 2 ^ k + 1) * lcg_add a c k"

lemma lcg_power: "(lcg a c ^^ (2 ^ k)) x = a ^ 2 ^ k * x + lcg_add a c k"
proof (induction k arbitrary: x)
  case (Suc k)
  have "(lcg a c ^^ (2 ^ Suc k)) x = (lcg a c ^^ (2 ^ k)) ((lcg a c ^^ (2 ^ k)) x)"
    by (simp only: power_Suc mult_2 funpow_add comp_def)
  also have "\<dots> = a ^ 2 ^ k * (a ^ 2 ^ k * x + lcg_add a c k) + lcg_add a c k" by (simp only: Suc)
  also have "\<dots> = a ^ (2 ^ k + 2 ^ k) * x + lcg_add a c (Suc k)" by (simp add: power_add algebra_simps)
  finally show ?case by (simp only: power_Suc mult_2)
qed (simp add: lcg_def)

lemma lcg_power_one: "4 dvd a - 1 \<Longrightarrow> 2 ^ (k + 2) dvd a ^ 2 ^ k - (1 :: int)"
proof (induction k)
  case (Suc k)
  let ?b = "a ^ 2 ^ k"
  have "(4 :: int) dvd 2 ^ (k + 2)" by simp
  then have "4 dvd ?b - 1" using Suc dvd_trans by blast
  then obtain u where "?b - 1 = 4 * u" ..
  then have "?b + 1 = 2 * (2 * u + 1)" by simp
  then have "2 dvd ?b + 1" by (rule dvdI)
  moreover have "2 ^ (k + 2) dvd ?b - 1" using Suc by blast
  ultimately have "2 * 2 ^ (k + 2) dvd (?b + 1) * (?b - 1)" by (rule mult_dvd_mono)
  moreover have "(?b + 1) * (?b - 1) = a ^ 2 ^ Suc k - 1" by (simp add: mult_2 power_add algebra_simps)
  moreover have "(2 :: int) * 2 ^ (k + 2) = 2 ^ (Suc k + 2)" by simp
  ultimately show ?case by (simp only:)
qed simp

lemma lcg_add_odd: "4 dvd a - 1 \<Longrightarrow> odd c \<Longrightarrow> \<exists>m. lcg_add a c k = 2 ^ k * m \<and> odd m"
proof (induction k)
  case (Suc k)
  then obtain m where m: "lcg_add a c k = 2 ^ k * m" "odd m" by blast
  have "(4 :: int) dvd 2 ^ (k + 2)" by simp
  then have "4 dvd a ^ 2 ^ k - 1" using lcg_power_one [OF Suc.prems(1), of k] dvd_trans by blast
  then obtain u where u: "a ^ 2 ^ k - 1 = 4 * u" ..
  then have "lcg_add a c (Suc k) = 2 ^ Suc k * ((2 * u + 1) * m)" using m(1) by (simp add: algebra_simps)
  then show ?case using m(2) by (intro exI [of _ "(2 * u + 1) * m"]) simp
qed simp

lemma lcg_half_turn:
  assumes "4 dvd a - 1" "odd c"
  shows "2 ^ (k + 1) dvd (lcg a c ^^ (2 ^ k)) x - x - 2 ^ k"
proof -
  obtain m where m: "lcg_add a c k = 2 ^ k * m" "odd m" using lcg_add_odd [OF assms] by blast
  then obtain m' where "m = 2 * m' + 1" by (auto elim: oddE)
  then have "lcg_add a c k - 2 ^ k = 2 ^ (k + 1) * m'" using m(1) by (simp add: algebra_simps)
  then have "2 ^ (k + 1) dvd lcg_add a c k - 2 ^ k" by simp
  moreover have "(2 :: int) ^ (k + 1) dvd 2 ^ (k + 2)" by (simp add: le_imp_power_dvd)
  then have "2 ^ (k + 1) dvd (a ^ 2 ^ k - 1) * x" using lcg_power_one [OF assms(1), of k] by (meson dvd_mult2 dvd_trans)
  ultimately have "2 ^ (k + 1) dvd (a ^ 2 ^ k - 1) * x + (lcg_add a c k - 2 ^ k)" by (rule dvd_add [rotated])
  then show ?thesis by (simp add: lcg_power algebra_simps)
qed

text \<open>Every residue is reached from every start: the full period.\<close>

lemma lcg_visits:
  assumes "4 dvd a - 1" "odd c"
  shows "\<exists>n. 2 ^ k dvd (lcg a c ^^ n) x - y"
proof (induction k)
  case (Suc k)
  then obtain n where n: "2 ^ k dvd (lcg a c ^^ n) x - y" by blast
  let ?z = "(lcg a c ^^ n) x"
  obtain d where d: "?z - y = 2 ^ k * d" using n ..
  show ?case
  proof (cases "even d")
    case True
    then show ?thesis using d by (intro exI [of _ n]) auto
  next
    case False
    then obtain e where "d = 2 * e + 1" by (auto elim: oddE)
    then have 1: "2 ^ (k + 1) dvd ?z - y + 2 ^ k" using d by (simp add: algebra_simps)
    have "2 ^ (k + 1) dvd (lcg a c ^^ (2 ^ k)) ?z - ?z - 2 ^ k" using lcg_half_turn [OF assms] .
    from dvd_add [OF this 1] have "2 ^ Suc k dvd (lcg a c ^^ (2 ^ k + n)) x - y" by (simp add: funpow_add)
    then show ?thesis by blast
  qed
qed simp


lemma pcg32_steps:
  "state32 (((\<lambda>x. snd (pcg32_random_r x)) ^^ n) rng) =
     word_of_int ((lcg (uint PCG_DEFAULT_MULTIPLIER_64) (uint (increment32 rng)) ^^ n) (uint (state32 rng)))"
  "increment32 (((\<lambda>x. snd (pcg32_random_r x)) ^^ n) rng) = increment32 rng"
proof (induction n)
  case (Suc n)
  let ?s = "((\<lambda>x. snd (pcg32_random_r x)) ^^ n) rng"
  have i: "increment32 ?s = increment32 rng" using Suc by blast
  have s: "state32 ?s = word_of_int ((lcg (uint PCG_DEFAULT_MULTIPLIER_64) (uint (increment32 rng)) ^^ n) (uint (state32 rng)))"
    using Suc by blast
  {
    case 1
    show ?case
      using i s by (simp add: pcg32_random_r_def pcg_setseq_64_step_r_def lcg_def [of _ _ "(lcg _ _ ^^ n) _"] Let_def mult.commute)
  next
    case 2
    show ?case using i by (simp add: pcg32_random_r_def pcg_setseq_64_step_r_def Let_def)
  }
qed simp_all

definition valid32 :: "pcg32 \<Rightarrow> bool" where
  "valid32 rng \<longleftrightarrow> odd (increment32 rng)"

lemma pcg32_random_t_init_valid: "valid32 (pcg32_random_t_init init_seq)"
  by (simp add: valid32_def pcg32_random_t_init_def even_or_iff)

lemma pcg32_srandom_r_valid: "valid32 (pcg32_srandom_r addr seed_addr seed)"
  using pcg32_random_t_init_valid [of "addr OR seed_addr"]
  by (simp add: pcg32_srandom_r_def valid32_def pcg_setseq_64_step_r_def Let_def)

text \<open>The state whose output is all ones.\<close>

definition top_state :: "64 word" where
  "top_state = 576458553280167936"

lemma top_state_output:
  "uint32_rotate_right (ucast (drop_bit 27 (drop_bit 18 top_state XOR top_state))) (ucast (drop_bit 59 top_state)) = - 1"
  by (simp add: top_state_def uint32_rotate_right_def)

lemma odd_uint: "odd (uint w) \<longleftrightarrow> odd w" for w :: "64 word"
  by transfer (simp add: even_take_bit_eq)

lemma word_of_int_cong64: "2 ^ 64 dvd x - y \<Longrightarrow> (word_of_int x :: 64 word) = word_of_int y"
  by (simp add: word_of_int_eq_iff take_bit_eq_mod mod_eq_dvd_iff)

lemma pcg32_visits:
  assumes "valid32 rng"
  shows "\<exists>n. state32 (((\<lambda>x. snd (pcg32_random_r x)) ^^ n) rng) = st"
proof -
  let ?a = "uint PCG_DEFAULT_MULTIPLIER_64" and ?c = "uint (increment32 rng)"
  have "4 dvd ?a - 1" by (simp add: PCG_DEFAULT_MULTIPLIER_64_def)
  moreover have "odd ?c" using assms by (simp add: valid32_def odd_uint)
  ultimately obtain n where "2 ^ 64 dvd (lcg ?a ?c ^^ n) (uint (state32 rng)) - uint st" using lcg_visits by blast
  then have "(word_of_int ((lcg ?a ?c ^^ n) (uint (state32 rng))) :: 64 word) = word_of_int (uint st)"
    by (rule word_of_int_cong64)
  then show ?thesis using pcg32_steps(1) [of n rng] by (intro exI [of _ n]) simp
qed

interpretation rng32: full_random_source pcg32_random_r valid32
proof unfold_locales
  fix rng assume v: "valid32 rng"
  then show "valid32 (snd (pcg32_random_r rng))"
    by (simp add: valid32_def pcg32_random_r_def pcg_setseq_64_step_r_def Let_def)
  obtain n where "state32 (((\<lambda>x. snd (pcg32_random_r x)) ^^ n) rng) = top_state" using pcg32_visits [OF v] by blast
  then show "\<exists>n. fst (pcg32_random_r (((\<lambda>x. snd (pcg32_random_r x)) ^^ n) rng)) = - 1"
    using top_state_output by (intro exI [of _ n]) (simp add: pcg32_random_r_def Let_def)
qed

interpretation rng64: random_source pcg64_random_r "\<lambda>_. True"
  by unfold_locales simp

section \<open>Properties\<close>

lemma residues_even:
  fixes span t v :: "'w::len word"
  assumes "RANDOM_THRESHOLD span = Some t" and "v < span"
  shows "card {r. t \<le> r \<and> r mod span = v} * unat span + unat t = 2 ^ LENGTH('w)"
proof -
  obtain q where q: "2 ^ LENGTH('w) = unat t + q * unat span" using threshold_divides [OF assms(1)] by blast
  let ?N = "{n. unat t \<le> n \<and> n < unat t + q * unat span \<and> n mod unat span = unat v}"
  have im: "unat ` {r. t \<le> r \<and> r mod span = v} = ?N"
  proof (intro set_eqI iffI)
    fix n assume "n \<in> unat ` {r. t \<le> r \<and> r mod span = v}"
    then obtain r where r: "n = unat r" "t \<le> r" "r mod span = v" by blast
    have "unat r < 2 ^ LENGTH('w)" by (rule unsigned_less)
    then show "n \<in> ?N" using r unfolding q [symmetric] by (simp add: word_le_nat_alt unat_mod [symmetric] del: unsigned_less)
  next
    fix n assume n: "n \<in> ?N"
    then have u: "unat (word_of_nat n :: 'w word) = n" unfolding q [symmetric] by (simp add: unsigned_of_nat take_bit_nat_eq_self)
    then have "t \<le> word_of_nat n" "word_of_nat n mod span = v"
      using n by (simp_all add: word_le_nat_alt word_unat_eq_iff unat_mod)
    then show "n \<in> unat ` {r. t \<le> r \<and> r mod span = v}" using u by (intro image_eqI [of _ _ "word_of_nat n"]) simp_all
  qed
  have "inj_on unat {r. t \<le> r \<and> r mod span = v}" by (simp add: inj_on_def word_unat_eq_iff)
  from card_image [OF this] have "card {r. t \<le> r \<and> r mod span = v} = card ?N" unfolding im by (rule sym)
  moreover have "unat v < unat span" using assms(2) by (simp add: word_less_nat_alt)
  ultimately show ?thesis using card_residue [of "unat v" "unat span" "unat t" q] q by simp
qed

lemma random_bound_accepts: "t \<le> r \<Longrightarrow> span \<noteq> 0 \<Longrightarrow> random_bound (\<lambda>rng. (r, next rng)) t span rng = Some (r mod span, next rng)"
  using random_above.simps [of "\<lambda>rng. (r, next rng)" t rng] by (simp add: Random_Numbers.random_bound_def not_less [THEN iffD2])

text \<open>
  C26: a bounded number is drawn without bias: for every span but zero, the draws that pass the
  threshold give every result below the span equally often, whatever the generator does with its state.
\<close>

theorem random_bound_unbiased:
  fixes span t v :: "'w::len word"
  assumes "RANDOM_THRESHOLD span = Some t" and "v < span"
  shows "card {r. t \<le> r \<and> random_bound (\<lambda>rng. (r, next rng)) t span rng = Some (v, next rng)} * unat span + unat t = 2 ^ LENGTH('w)"
proof -
  have "span \<noteq> 0" using assms(1) by (auto simp: RANDOM_THRESHOLD_def)
  then have "{r. t \<le> r \<and> random_bound (\<lambda>rng. (r, next rng)) t span rng = Some (v, next rng)} = {r. t \<le> r \<and> r mod span = v}"
    by (auto simp: random_bound_accepts)
  then show ?thesis using residues_even [OF assms] by simp
qed

theorem random_bound_unbiased_witness:
  "card {r :: 32 word. 4 \<le> r \<and> random_bound (\<lambda>rng :: nat. (r, Suc rng)) 4 6 0 = Some (5, 1)} * 6 + 4 = 2 ^ 32"
  using random_bound_unbiased [of "6 :: 32 word" 4 5 Suc 0] by (simp add: RANDOM_THRESHOLD_def)

text \<open>
  C27: the 32-bit generator has the full period: whatever its seed, from every state it comes to every
  other of the \<open>2 ^ 64\<close> states.
\<close>

theorem pcg32_full_period:
  assumes "valid32 rng"
  shows "\<exists>n. state32 (((\<lambda>x. snd (pcg32_random_r x)) ^^ n) rng) = st"
  using assms by (rule pcg32_visits)

theorem pcg32_full_period_witness:
  "\<exists>n. state32 (((\<lambda>x. snd (pcg32_random_r x)) ^^ n) (pcg32_srandom_r 16 32 1700000000)) = 7"
  by (rule pcg32_full_period) (rule pcg32_srandom_r_valid)

text \<open>
  \<open>random_uint32_bound\<close> always returns: its loop over numbers below the threshold ends for every
  seed, and the number is below the span.
\<close>

theorem random_uint32_bound_returns:
  assumes "valid32 rng" and "span \<noteq> 0"
  shows "\<exists>v rng'. random_uint32_bound t span rng = Some (v, rng') \<and> v < span \<and> valid32 rng'"
  unfolding random_uint32_bound_def using assms by (rule rng32.random_bound_total)

theorem random_uint32_bound_returns_witness:
  "\<exists>v rng'. random_uint32_bound 4 6 (pcg32_srandom_r 16 32 1700000000) = Some (v, rng') \<and> v < 6 \<and> valid32 rng'"
  by (rule random_uint32_bound_returns) (simp_all add: pcg32_srandom_r_valid)

text \<open>The number a pair of halves stands for.\<close>

definition uint128_value :: "uint128 \<Rightarrow> nat" where
  "uint128_value x = unat (high x) * 2 ^ 64 + unat (low x)"

lemma halves_mod:
  fixes X L :: nat
  assumes "L < 2 ^ 64"
  shows "(X * 2 ^ 64 + L) mod 2 ^ 128 = 2 ^ 64 * (X mod 2 ^ 64) + L"
proof -
  have "(X * 2 ^ 64 + L) div 2 ^ 64 = X" "(X * 2 ^ 64 + L) mod 2 ^ 64 = L" using assms by simp_all
  moreover have "(2 :: nat) ^ 128 = 2 ^ 64 * 2 ^ 64" by simp
  ultimately show ?thesis using mod_mult2_eq [of "X * 2 ^ 64 + L" "2 ^ 64" "2 ^ 64"] by (simp only:)
qed

lemma carry_out:
  fixes x y :: "64 word"
  shows "unat x + unat y = (if x + y < x then 1 else 0) * 2 ^ 64 + unat (x + y)"
proof -
  have b: "unat x < 2 ^ 64" "unat y < 2 ^ 64" using unsigned_less [of x] unsigned_less [of y] by simp_all
  have s: "unat (x + y) = (unat x + unat y) mod 2 ^ 64" by (simp add: unat_word_ariths)
  show ?thesis
  proof (cases "unat x + unat y < 2 ^ 64")
    case True
    then show ?thesis using s by (simp add: word_less_nat_alt)
  next
    case False
    then have "unat (x + y) + 2 ^ 64 = unat x + unat y" using s b by (simp add: le_mod_geq)
    then show ?thesis using b by (simp add: word_less_nat_alt)
  qed
qed

text \<open>\<open>uint128_add\<close> adds modulo \<open>2 ^ 128\<close>: the carry of the low half is found.\<close>

lemma uint128_add_value:
  "uint128_value (uint128_add a b) = (uint128_value a + uint128_value b) mod 2 ^ 128"
proof -
  let ?c = "if low a + low b < low a then 1 else 0 :: nat"
  have l: "unat (low a) + unat (low b) = ?c * 2 ^ 64 + unat (low a + low b)" using carry_out by blast
  have h: "unat (high (uint128_add a b)) = (unat (high a) + unat (high b) + ?c) mod 2 ^ 64"
    by (simp add: uint128_add_def Let_def unat_word_ariths mod_simps)
  have "uint128_value a + uint128_value b = (unat (high a) + unat (high b) + ?c) * 2 ^ 64 + unat (low a + low b)"
    using l by (simp add: uint128_value_def distrib_right)
  moreover have "unat (low a + low b) < 2 ^ 64" using unsigned_less [of "low a + low b"] by simp
  ultimately have "(uint128_value a + uint128_value b) mod 2 ^ 128 =
      2 ^ 64 * ((unat (high a) + unat (high b) + ?c) mod 2 ^ 64) + unat (low a + low b)"
    by (simp only: halves_mod)
  then show ?thesis using h by (simp add: uint128_value_def uint128_add_def [of a b] Let_def)
qed

text \<open>
  \<open>uint128_mult\<close> is not a product: it multiplies the four 32-bit parts of one factor with those
  of the other part by part and leaves out the products across.
\<close>

theorem uint128_mult_drops_cross_products:
  "uint128_mult \<lparr>low = 2 ^ 32, high = 0\<rparr> \<lparr>low = 2, high = 0\<rparr> = \<lparr>low = 0, high = 0\<rparr> \<and>
    uint128_value \<lparr>low = 2 ^ 32, high = 0\<rparr> * uint128_value \<lparr>low = 2, high = 0\<rparr> = 2 ^ 33"
  by (simp add: uint128_mult_def low32_def uint128_value_def Let_def)


lemma take_bit_32_mult: "take_bit 32 (take_bit 64 x * take_bit 64 y) = take_bit 32 (x * y)" for x y :: int
proof -
  have "take_bit 32 (take_bit 64 x * take_bit 64 y) = take_bit 32 (take_bit 32 (take_bit 64 x) * take_bit 32 (take_bit 64 y))"
    by (rule take_bit_mult [symmetric])
  also have "\<dots> = take_bit 32 (take_bit 32 x * take_bit 32 y)" by simp
  finally show ?thesis by (simp only: take_bit_mult)
qed
lemma take_bit_32_add: "take_bit 32 (take_bit 64 x + take_bit 64 y) = take_bit 32 (x + y)" for x y :: int
proof -
  have "take_bit 32 (take_bit 64 x + take_bit 64 y) = take_bit 32 (take_bit 32 (take_bit 64 x) + take_bit 32 (take_bit 64 y))"
    by (rule take_bit_add [symmetric])
  also have "\<dots> = take_bit 32 (take_bit 32 x + take_bit 32 y)" by simp
  finally show ?thesis by (simp only: take_bit_add)
qed

lemma ucast_ring:
  "(ucast (x * y) :: 32 word) = ucast x * ucast y" "(ucast (x + y) :: 32 word) = ucast x + ucast y" for x y :: "64 word"
  by (transfer, simp add: take_bit_32_mult) (transfer, simp add: take_bit_32_add)

lemma ucast_low32: "(ucast (low32 x) :: 32 word) = ucast x"
  unfolding low32_def by transfer simp

lemma ucast_or_push: "(ucast (x OR push_bit 32 y) :: 32 word) = ucast x" for x y :: "64 word"
  by (rule bit_word_eqI) (simp add: bit_simps)

lemma low_fma:
  "(ucast (low (uint128_fma s PCG_DEFAULT_MULTIPLIER_128 c)) :: 32 word) = ucast (low s) * 533093796 + ucast (low c)"
proof -
  have "(ucast (2549297995355413924 :: 64 word) :: 32 word) = 533093796" by simp
  then show ?thesis
    by (simp only: uint128_fma_def uint128_add_def uint128_mult_def Let_def ucast_ring ucast_or_push ucast_low32
        PCG_DEFAULT_MULTIPLIER_128_def UINT128_INITIALIZER_def uint128.simps)
qed

lemma affine_differences:
  fixes x :: "nat \<Rightarrow> 32 word"
  assumes "\<And>n. x (Suc n) = x n * m + c"
  shows "x (Suc n) - x n = m ^ n * (x 1 - x 0)"
proof (induction n)
  case (Suc n)
  have "x (Suc (Suc n)) - x (Suc n) = m * (x (Suc n) - x n)"
    using assms [of "Suc n"] assms [of n] by (simp add: algebra_simps)
  then show ?case using Suc by (simp only: power_Suc mult.assoc)
qed simp

text \<open>
  C28: the 64-bit generator is not the one it is meant to be: the halves of its multiplier are swapped,
  so the multiplier is a multiple of four and the lowest 32 bits of the state stand still from the
  sixteenth step on.
\<close>

theorem pcg64_low_bits_freeze:
  "(ucast (low (state64 ((pcg_setseq_128_step_r ^^ (n + 17)) rng))) :: 32 word) =
     ucast (low (state64 ((pcg_setseq_128_step_r ^^ (n + 16)) rng)))"
proof -
  let ?x = "\<lambda>n. ucast (low (state64 ((pcg_setseq_128_step_r ^^ n) rng))) :: 32 word"
  let ?c = "ucast (low (increment64 rng)) :: 32 word"
  have i: "increment64 ((pcg_setseq_128_step_r ^^ n) rng) = increment64 rng" for n
    by (induction n) (simp_all add: pcg_setseq_128_step_r_def)
  have step: "?x (Suc n) = ?x n * 533093796 + ?c" for n
    using i [of n] by (simp add: pcg_setseq_128_step_r_def low_fma)
  have "?x (Suc (n + 16)) - ?x (n + 16) = 533093796 ^ (n + 16) * (?x 1 - ?x 0)"
    by (rule affine_differences) (rule step)
  moreover have "(533093796 :: 32 word) ^ 16 = 0" by simp
  then have "(533093796 :: 32 word) ^ (n + 16) = 0" by (simp only: power_add mult_zero_right)
  ultimately have "?x (Suc (n + 16)) - ?x (n + 16) = 0" by (simp only: mult_zero_left)
  moreover have "n + 17 = Suc (n + 16)" by simp
  ultimately show ?thesis by (simp only: right_minus_eq)
qed

end
