(* ===== verification/Random_Spec.thy ===== *)
theory Random_Spec
  imports Random_Numbers Put_Number
begin

text \<open>
  Random number columns, from the specification on the command line to the generator a column
  builder calls: the generators of \<open>src/random/random_generator.c\<close> over the bounded numbers of
  \<open>src/random/random.h\<close>, the choice of a type, a generator and a width by the \<open>assign_\<close> functions of
  \<open>src/mysql_seed_generate.h\<close>, and the \<open>column_integer_random_\<close> and \<open>column_u_integer_random_\<close>
  functions that call them. \<open>intmax_t\<close> and \<open>uintmax_t\<close> are 64-bit words, read with \<^const>\<open>sint\<close> and
  \<^const>\<open>uint\<close>; signed differences that overflow are taken to wrap.
\<close>

section \<open>Generators\<close>

record rngs =
  glob_rng32 :: pcg32
  glob_rng64 :: pcg64

type_synonym generator = "rngs \<Rightarrow> (64 word \<times> rngs) option"

text \<open>\<open>struct Bound32\<close> and \<open>struct Bound64\<close>: the threshold and the span; \<open>union OffsetU\<close> and \<open>OffsetI\<close>.\<close>

datatype bound = Bound32 "32 word" "32 word" | Bound64 "64 word" "64 word"
datatype offset = Offset32 "32 word" | Offset64 "64 word"

definition draw_u32 :: "rngs \<Rightarrow> 32 word \<times> rngs" where
  "draw_u32 g = (let (r, rng) = pcg32_random_r (glob_rng32 g) in (r, g\<lparr>glob_rng32 := rng\<rparr>))"

definition draw_u64 :: "rngs \<Rightarrow> 64 word \<times> rngs" where
  "draw_u64 g = (let (r, rng) = pcg64_random_r (glob_rng64 g) in (r, g\<lparr>glob_rng64 := rng\<rparr>))"

definition bound32 :: "32 word \<Rightarrow> 32 word \<Rightarrow> rngs \<Rightarrow> (32 word \<times> rngs) option" where
  "bound32 t span g =
     do { (r, rng) \<leftarrow> random_uint32_bound t span (glob_rng32 g); Some (r, g\<lparr>glob_rng32 := rng\<rparr>) }"

definition bound64 :: "64 word \<Rightarrow> 64 word \<Rightarrow> rngs \<Rightarrow> (64 word \<times> rngs) option" where
  "bound64 t span g =
     do { (r, rng) \<leftarrow> random_uint64_bound t span (glob_rng64 g); Some (r, g\<lparr>glob_rng64 := rng\<rparr>) }"

text \<open>The bounded numbers with an offset; the 32-bit ones convert as C does.\<close>

definition random_uint32_bound_32_offset_32 :: "32 word \<Rightarrow> 32 word \<Rightarrow> 32 word \<Rightarrow> rngs \<Rightarrow> (32 word \<times> rngs) option" where
  "random_uint32_bound_32_offset_32 t span off g = do { (r, g) \<leftarrow> bound32 t span g; Some (r + off, g) }"

definition random_uint64_bound_32_offset_64 :: "32 word \<Rightarrow> 32 word \<Rightarrow> 64 word \<Rightarrow> generator" where
  "random_uint64_bound_32_offset_64 t span off g = do { (r, g) \<leftarrow> bound32 t span g; Some (ucast r + off, g) }"

definition random_uint64_bound_64_offset_32 :: "64 word \<Rightarrow> 64 word \<Rightarrow> 32 word \<Rightarrow> generator" where
  "random_uint64_bound_64_offset_32 t span off g = do { (r, g) \<leftarrow> bound64 t span g; Some (r + ucast off, g) }"

definition random_uint64_bound_64_offset_64 :: "64 word \<Rightarrow> 64 word \<Rightarrow> 64 word \<Rightarrow> generator" where
  "random_uint64_bound_64_offset_64 t span off g = do { (r, g) \<leftarrow> bound64 t span g; Some (r + off, g) }"

definition random_int32_bound_32_offset_32 :: "32 word \<Rightarrow> 32 word \<Rightarrow> 32 word \<Rightarrow> rngs \<Rightarrow> (32 word \<times> rngs) option" where
  "random_int32_bound_32_offset_32 t span off g = do { (r, g) \<leftarrow> bound32 t span g; Some (r + off, g) }"

definition random_int64_bound_32_offset_64 :: "32 word \<Rightarrow> 32 word \<Rightarrow> 64 word \<Rightarrow> generator" where
  "random_int64_bound_32_offset_64 t span off g = do { (r, g) \<leftarrow> bound32 t span g; Some (ucast r + off, g) }"

definition random_int64_bound_64_offset_32 :: "64 word \<Rightarrow> 64 word \<Rightarrow> 32 word \<Rightarrow> generator" where
  "random_int64_bound_64_offset_32 t span off g = do { (r, g) \<leftarrow> bound64 t span g; Some (r + scast off, g) }"

definition random_int64_bound_64_offset_64 :: "64 word \<Rightarrow> 64 word \<Rightarrow> 64 word \<Rightarrow> generator" where
  "random_int64_bound_64_offset_64 t span off g = do { (r, g) \<leftarrow> bound64 t span g; Some (r + off, g) }"

definition generate_u_32 :: generator where
  "generate_u_32 g = (let (r, g) = draw_u32 g in Some (ucast r, g))"

definition generate_u_64 :: generator where
  "generate_u_64 g = Some (draw_u64 g)"

definition generate_i_32 :: generator where
  "generate_i_32 g = (let (r, g) = draw_u32 g in Some (scast r, g))"

definition generate_i_64 :: generator where
  "generate_i_64 g = Some (draw_u64 g)"

definition generate_u_bound_32 :: "bound \<Rightarrow> generator" where
  "generate_u_bound_32 params g =
     (case params of Bound32 t span \<Rightarrow> do { (r, g) \<leftarrow> bound32 t span g; Some (ucast r, g) } | Bound64 _ _ \<Rightarrow> None)"

definition generate_u_bound_64 :: "bound \<Rightarrow> generator" where
  "generate_u_bound_64 params g = (case params of Bound64 t span \<Rightarrow> bound64 t span g | Bound32 _ _ \<Rightarrow> None)"

definition INT32_MIN32 :: "32 word" where
  "INT32_MIN32 = 2147483648"

definition INT64_MIN64 :: "64 word" where
  "INT64_MIN64 = 9223372036854775808"

definition generate_i_bound_32_offset_32_min :: "bound \<Rightarrow> generator" where
  "generate_i_bound_32_offset_32_min params g =
     (case params of
        Bound32 t span \<Rightarrow> do { (r, g) \<leftarrow> random_int32_bound_32_offset_32 t span INT32_MIN32 g; Some (scast r, g) }
      | Bound64 _ _ \<Rightarrow> None)"

definition generate_i_bound_32_offset_64_min :: "bound \<Rightarrow> generator" where
  "generate_i_bound_32_offset_64_min params g =
     (case params of Bound32 t span \<Rightarrow> random_int64_bound_32_offset_64 t span INT64_MIN64 g | Bound64 _ _ \<Rightarrow> None)"

definition generate_i_bound_64_offset_32_min :: "bound \<Rightarrow> generator" where
  "generate_i_bound_64_offset_32_min params g =
     (case params of Bound64 t span \<Rightarrow> random_int64_bound_64_offset_32 t span INT32_MIN32 g | Bound32 _ _ \<Rightarrow> None)"

definition generate_i_bound_64_offset_64_min :: "bound \<Rightarrow> generator" where
  "generate_i_bound_64_offset_64_min params g =
     (case params of Bound64 t span \<Rightarrow> random_int64_bound_64_offset_64 t span INT64_MIN64 g | Bound32 _ _ \<Rightarrow> None)"

definition generate_u_bound_32_offset_32 :: "bound \<times> offset \<Rightarrow> generator" where
  "generate_u_bound_32_offset_32 params g =
     (case params of
        (Bound32 t span, Offset32 off) \<Rightarrow>
          do { (r, g) \<leftarrow> random_uint32_bound_32_offset_32 t span off g; Some (ucast r, g) }
      | _ \<Rightarrow> None)"

definition generate_u_bound_32_offset_64 :: "bound \<times> offset \<Rightarrow> generator" where
  "generate_u_bound_32_offset_64 params g =
     (case params of (Bound32 t span, Offset64 off) \<Rightarrow> random_uint64_bound_32_offset_64 t span off g | _ \<Rightarrow> None)"

definition generate_u_bound_64_offset_32 :: "bound \<times> offset \<Rightarrow> generator" where
  "generate_u_bound_64_offset_32 params g =
     (case params of (Bound64 t span, Offset32 off) \<Rightarrow> random_uint64_bound_64_offset_32 t span off g | _ \<Rightarrow> None)"

definition generate_u_bound_64_offset_64 :: "bound \<times> offset \<Rightarrow> generator" where
  "generate_u_bound_64_offset_64 params g =
     (case params of (Bound64 t span, Offset64 off) \<Rightarrow> random_uint64_bound_64_offset_64 t span off g | _ \<Rightarrow> None)"

definition generate_i_bound_32_offset_32 :: "bound \<times> offset \<Rightarrow> generator" where
  "generate_i_bound_32_offset_32 params g =
     (case params of
        (Bound32 t span, Offset32 off) \<Rightarrow>
          do { (r, g) \<leftarrow> random_int32_bound_32_offset_32 t span off g; Some (scast r, g) }
      | _ \<Rightarrow> None)"

definition generate_i_bound_32_offset_64 :: "bound \<times> offset \<Rightarrow> generator" where
  "generate_i_bound_32_offset_64 params g =
     (case params of (Bound32 t span, Offset64 off) \<Rightarrow> random_int64_bound_32_offset_64 t span off g | _ \<Rightarrow> None)"

definition generate_i_bound_64_offset_32 :: "bound \<times> offset \<Rightarrow> generator" where
  "generate_i_bound_64_offset_32 params g =
     (case params of (Bound64 t span, Offset32 off) \<Rightarrow> random_int64_bound_64_offset_32 t span off g | _ \<Rightarrow> None)"

definition generate_i_bound_64_offset_64 :: "bound \<times> offset \<Rightarrow> generator" where
  "generate_i_bound_64_offset_64 params g =
     (case params of (Bound64 t span, Offset64 off) \<Rightarrow> random_int64_bound_64_offset_64 t span off g | _ \<Rightarrow> None)"

text \<open>The union of generators of a column: a plain one, or a closure over a bound and perhaps an offset.\<close>

datatype rand_gen =
  Gen_Unbound generator | Gen_Bound bound "bound \<Rightarrow> generator" | Gen_Offset "bound \<times> offset" "bound \<times> offset \<Rightarrow> generator"

fun rand_gen_call :: "rand_gen \<Rightarrow> generator" where
  "rand_gen_call (Gen_Unbound generate) = generate"
| "rand_gen_call (Gen_Bound params generate) = generate params"
| "rand_gen_call (Gen_Offset params generate) = generate params"

section \<open>Types\<close>

text \<open>\<open>struct PutLabelClosure\<close>: the text of a type in its buffer and the width it is written with.\<close>

record put_label =
  pl_buffer :: string
  pl_width :: nat

definition put_label_text :: "put_label \<Rightarrow> string" where
  "put_label_text l = take (pl_width l) (pl_buffer l)"

definition type_set_tinyint :: put_label where
  "type_set_tinyint = \<lparr>pl_buffer = ''TINYINT'' @ [NUL], pl_width = 7\<rparr>"
definition type_set_tinyint_unsigned :: put_label where
  "type_set_tinyint_unsigned = \<lparr>pl_buffer = ''TINYINT UNSIGNED'' @ [NUL], pl_width = 16\<rparr>"
definition type_set_smallint :: put_label where
  "type_set_smallint = \<lparr>pl_buffer = ''SMALLINT'' @ [NUL], pl_width = 8\<rparr>"
definition type_set_smallint_unsigned :: put_label where
  "type_set_smallint_unsigned = \<lparr>pl_buffer = ''SMALLINT UNSIGNED'' @ [NUL], pl_width = 17\<rparr>"
definition type_set_mediumint :: put_label where
  "type_set_mediumint = \<lparr>pl_buffer = ''MEDIUMINT'' @ [NUL], pl_width = 9\<rparr>"
definition type_set_mediumint_unsigned :: put_label where
  "type_set_mediumint_unsigned = \<lparr>pl_buffer = ''MEDIUMINT UNSIGNED'' @ [NUL], pl_width = 18\<rparr>"
definition type_set_int :: put_label where
  "type_set_int = \<lparr>pl_buffer = ''INT'' @ [NUL], pl_width = 3\<rparr>"
definition type_set_int_unsigned :: put_label where
  "type_set_int_unsigned = \<lparr>pl_buffer = ''INT UNSIGNED'' @ [NUL], pl_width = 12\<rparr>"
definition type_set_bigint :: put_label where
  "type_set_bigint = \<lparr>pl_buffer = ''BIGINT'' @ [NUL], pl_width = 6\<rparr>"
definition type_set_bigint_unsigned :: put_label where
  "type_set_bigint_unsigned = \<lparr>pl_buffer = ''BIGINT UNSIGNED'' @ [NUL], pl_width = 15\<rparr>"

definition type_assign_integer_min :: "64 word \<Rightarrow> put_label" where
  "type_assign_integer_min m =
     (if sint m < - 32768 then
        if sint m < - 8388608 then
          if sint m < - 2147483648 then type_set_bigint else type_set_int
        else type_set_mediumint
      else if sint m < - 128 then type_set_smallint else type_set_tinyint)"

definition type_assign_integer_max :: "64 word \<Rightarrow> put_label" where
  "type_assign_integer_max m =
     (if 32767 < sint m then
        if 8388607 < sint m then
          if 2147483647 < sint m then type_set_bigint else type_set_int
        else type_set_mediumint
      else if 127 < sint m then type_set_smallint else type_set_tinyint)"

definition type_assign_u_integer_max :: "64 word \<Rightarrow> put_label" where
  "type_assign_u_integer_max m =
     (if 65535 < uint m then
        if 16777215 < uint m then
          if 4294967295 < uint m then type_set_bigint_unsigned else type_set_int_unsigned
        else type_set_mediumint_unsigned
      else if 255 < uint m then type_set_smallint_unsigned else type_set_tinyint_unsigned)"

definition type_assign_integer_upto :: "64 word \<Rightarrow> put_label" where
  "type_assign_integer_upto limit =
     (if 32767 < uint limit then if 8388607 < uint limit then type_set_int else type_set_mediumint
      else if 127 < uint limit then type_set_smallint else type_set_tinyint)"

definition type_assign_u_integer_upto :: "64 word \<Rightarrow> put_label" where
  "type_assign_u_integer_upto limit =
     (if 65535 < uint limit then if 16777215 < uint limit then type_set_int_unsigned else type_set_mediumint_unsigned
      else if 255 < uint limit then type_set_smallint_unsigned else type_set_tinyint_unsigned)"


section \<open>The choice of a generator\<close>

text \<open>
  What an \<open>assign_\<close> function sets: the type of the column (or what it adds to the length of a join),
  the generator, the greatest width of a cell with its terminator, and the constructor flag. There is
  no value when computing the threshold divides by zero.
\<close>

record rand_choice =
  rc_type :: put_label
  rc_join_length :: nat
  rc_gen :: rand_gen
  rc_width_max :: nat
  rc_flag :: nat

definition RAND_32_CTOR_FLAG :: nat where "RAND_32_CTOR_FLAG = 1"
definition RAND_64_CTOR_FLAG :: nat where "RAND_64_CTOR_FLAG = 2"

text \<open>The two kinds of parameters, with the threshold of the span.\<close>

definition params32 :: "32 word \<Rightarrow> bound option" where
  "params32 span = do { t \<leftarrow> RANDOM_THRESHOLD span; Some (Bound32 t span) }"

definition params64 :: "64 word \<Rightarrow> bound option" where
  "params64 span = do { t \<leftarrow> RANDOM_THRESHOLD span; Some (Bound64 t span) }"

text \<open>The three kinds of choice: a type, what a join adds, and a width.\<close>

definition choice ::
  "put_label \<Rightarrow> nat \<Rightarrow> nat \<Rightarrow> nat \<Rightarrow> rand_gen \<Rightarrow> rand_choice" where
  "choice type join width flag gen =
     \<lparr>rc_type = type, rc_join_length = join, rc_gen = gen, rc_width_max = width, rc_flag = flag\<rparr>"

definition assign_integer_random_from :: "64 word \<Rightarrow> rand_choice option" where
  "assign_integer_random_from from =
     (if sint from < - 2147483648 then
        let span = 9223372036854775807 - from + 1
        in do { params \<leftarrow> params64 span;
                Some (choice type_set_bigint 20 21 RAND_64_CTOR_FLAG
                        (Gen_Offset (params, Offset64 from) generate_i_bound_64_offset_64)) }
      else if 2147483647 < sint from then
        let span = 9223372036854775807 - from + 1
        in if uint span < 4294967295 then
             do { params \<leftarrow> params32 (ucast span);
                  Some (choice type_set_bigint 19 20 RAND_32_CTOR_FLAG
                          (Gen_Offset (params, Offset64 from) generate_i_bound_32_offset_64)) }
           else
             do { params \<leftarrow> params64 span;
                  Some (choice type_set_bigint 19 20 RAND_64_CTOR_FLAG
                          (Gen_Offset (params, Offset64 from) generate_i_bound_64_offset_64)) }
      else
        let span = ucast (2147483647 - from + 1) :: 32 word
        in do { params \<leftarrow> params32 span;
                Some (choice type_set_int 11 12 RAND_32_CTOR_FLAG
                        (Gen_Offset (params, Offset32 (ucast from)) generate_i_bound_32_offset_32)) })"

text \<open>In the last branch \<open>RANDOM_THRESHOLD\<close> is computed on 64 bits and stored in 32.\<close>

definition assign_integer_random_upto :: "64 word \<Rightarrow> rand_choice option" where
  "assign_integer_random_upto limit =
     (if 2147483647 < sint limit then
        let span = limit - INT64_MIN64 + 1
        in do { params \<leftarrow> params64 span;
                Some (choice type_set_bigint 20 21 RAND_64_CTOR_FLAG (Gen_Bound params generate_i_bound_64_offset_64_min)) }
      else if sint limit < - 2147483648 then
        let span = limit - INT64_MIN64 + 1
        in if 4294967295 < uint span then
             do { params \<leftarrow> params64 span;
                  Some (choice type_set_bigint 20 21 RAND_64_CTOR_FLAG
                          (Gen_Bound params generate_i_bound_64_offset_64_min)) }
           else
             do { params \<leftarrow> params32 (ucast span);
                  Some (choice type_set_bigint 20 21 RAND_32_CTOR_FLAG
                          (Gen_Bound params generate_i_bound_32_offset_64_min)) }
      else
        let span = limit - (- 2147483648) + 1
        in do { threshold \<leftarrow> RANDOM_THRESHOLD span;
                Some (choice type_set_int 11 12 RAND_32_CTOR_FLAG
                        (Gen_Bound (Bound32 (ucast threshold) (ucast span)) generate_i_bound_32_offset_32_min)) })"

definition assign_integer_random_range :: "64 word \<Rightarrow> 64 word \<Rightarrow> 64 word \<Rightarrow> rand_choice option" where
  "assign_integer_random_range least greatest span =
     (if sint least < - 2147483648 then
        do { params \<leftarrow> params64 span;
             Some (choice type_set_bigint 20 21 RAND_64_CTOR_FLAG
                     (Gen_Offset (params, Offset64 least) generate_i_bound_64_offset_64)) }
      else if 2147483647 < sint greatest then
        if uint span < 4294967295 then
          do { params \<leftarrow> params32 (ucast span);
               Some (choice type_set_bigint 19 20 RAND_32_CTOR_FLAG
                       (Gen_Offset (params, Offset64 least) generate_i_bound_32_offset_64)) }
        else
          do { params \<leftarrow> params64 span;
               Some (choice type_set_bigint 19 20 RAND_64_CTOR_FLAG
                       (Gen_Offset (params, Offset64 least) generate_i_bound_64_offset_64)) }
      else
        do { params \<leftarrow> params32 (ucast span);
             Some (choice type_set_int 11 12 RAND_32_CTOR_FLAG
                     (Gen_Offset (params, Offset32 (ucast least)) generate_i_bound_32_offset_32)) })"

definition assign_u_integer_random_from :: "64 word \<Rightarrow> rand_choice option" where
  "assign_u_integer_random_from from =
     (if 4294967295 < uint from then
        let span = 18446744073709551615 - from + 1
        in if uint span < 4294967295 then
             do { params \<leftarrow> params32 (ucast span);
                  Some (choice type_set_bigint_unsigned 20 21 RAND_32_CTOR_FLAG
                          (Gen_Offset (params, Offset64 from) generate_u_bound_32_offset_64)) }
           else
             do { params \<leftarrow> params64 span;
                  Some (choice type_set_bigint_unsigned 20 21 RAND_64_CTOR_FLAG
                          (Gen_Offset (params, Offset64 from) generate_u_bound_64_offset_64)) }
      else
        let span = ucast (4294967295 - from + 1) :: 32 word
        in do { params \<leftarrow> params32 span;
                Some (choice type_set_int_unsigned 10 11 RAND_32_CTOR_FLAG
                        (Gen_Offset (params, Offset32 (ucast from)) generate_u_bound_32_offset_32)) })"

definition assign_u_integer_random_upto :: "64 word \<Rightarrow> rand_choice option" where
  "assign_u_integer_random_upto limit =
     (if 4294967295 < uint limit then
        do { params \<leftarrow> params64 (limit + 1);
             Some (choice type_set_bigint_unsigned 20 21 RAND_64_CTOR_FLAG (Gen_Bound params generate_u_bound_64)) }
      else
        do { params \<leftarrow> params32 (ucast (limit + 1));
             Some (choice type_set_int_unsigned 10 11 RAND_32_CTOR_FLAG (Gen_Bound params generate_u_bound_32)) })"

text \<open>The test of the span is the wrong way round: large spans are cut to 32 bits.\<close>

definition assign_u_integer_random_range :: "64 word \<Rightarrow> 64 word \<Rightarrow> 64 word \<Rightarrow> rand_choice option" where
  "assign_u_integer_random_range least greatest span =
     (if 4294967295 < uint greatest then
        if 4294967295 < uint span then
          do { params \<leftarrow> params32 (ucast span);
               Some (choice type_set_bigint_unsigned 20 21 RAND_32_CTOR_FLAG
                       (Gen_Offset (params, Offset64 least) generate_u_bound_32_offset_64)) }
        else
          do { params \<leftarrow> params64 span;
               Some (choice type_set_bigint_unsigned 20 21 RAND_64_CTOR_FLAG
                       (Gen_Offset (params, Offset64 least) generate_u_bound_64_offset_64)) }
      else
        do { params \<leftarrow> params32 (ucast span);
             Some (choice type_set_int_unsigned 10 11 RAND_32_CTOR_FLAG
                     (Gen_Offset (params, Offset32 (ucast least)) generate_u_bound_32_offset_32)) })"

section \<open>The specification of a random column\<close>

text \<open>The builders, by the member of the union they call.\<close>

datatype rand_build = Build_Random | Build_Random_From | Build_Random_Upto | Build_Random_Range

text \<open>The plain generators of the full 32 or 64 bits.\<close>

definition unbound_i_32 :: rand_choice where
  "unbound_i_32 = choice type_set_int 11 12 RAND_32_CTOR_FLAG (Gen_Unbound generate_i_32)"
definition unbound_i_64 :: rand_choice where
  "unbound_i_64 = choice type_set_bigint 20 21 RAND_64_CTOR_FLAG (Gen_Unbound generate_i_64)"
definition unbound_u_32 :: rand_choice where
  "unbound_u_32 = choice type_set_int_unsigned 10 11 RAND_32_CTOR_FLAG (Gen_Unbound generate_u_32)"
definition unbound_u_64 :: rand_choice where
  "unbound_u_64 = choice type_set_bigint_unsigned 20 21 RAND_64_CTOR_FLAG (Gen_Unbound generate_u_64)"

definition chosen :: "rand_choice option \<Rightarrow> rand_build \<Rightarrow> (rand_choice \<times> rand_build) option" where
  "chosen c b = map_option (\<lambda>c. (c, b)) c"

definition column_integer_random_default :: "(rand_choice \<times> rand_build) option" where
  "column_integer_random_default = Some (unbound_i_32, Build_Random)"

definition column_integer_random_from :: "64 word \<Rightarrow> (rand_choice \<times> rand_build) option" where
  "column_integer_random_from from =
     (if sint from = - 2147483648 then Some (unbound_i_32, Build_Random)
      else if sint from = - 9223372036854775808 then Some (unbound_i_64, Build_Random)
      else chosen (assign_integer_random_from from) Build_Random_From)"

text \<open>The cases of the group variant have no \<open>return\<close>: they fall through to the last one.\<close>

definition column_integer_random_from_group :: "64 word \<Rightarrow> (rand_choice \<times> rand_build) option" where
  "column_integer_random_from_group from = chosen (assign_integer_random_from from) Build_Random_From"

definition column_integer_random_upto :: "64 word \<Rightarrow> (rand_choice \<times> rand_build) option" where
  "column_integer_random_upto limit =
     (if sint limit = 2147483647 then Some (unbound_i_32, Build_Random)
      else if sint limit = 9223372036854775807 then Some (unbound_i_64, Build_Random)
      else chosen (assign_integer_random_upto limit) Build_Random_Upto)"

definition column_integer_random_range :: "64 word \<Rightarrow> 64 word \<Rightarrow> (rand_choice \<times> rand_build) option" where
  "column_integer_random_range least greatest =
     (let delta = greatest - least
      in if uint delta = 4294967295 then Some (unbound_i_32, Build_Random)
         else if uint delta = 18446744073709551615 then Some (unbound_i_64, Build_Random)
         else chosen (assign_integer_random_range least greatest (delta + 1)) Build_Random_Range)"

definition column_u_integer_random_default :: "(rand_choice \<times> rand_build) option" where
  "column_u_integer_random_default = Some (unbound_u_32, Build_Random)"

definition column_u_integer_random_from :: "64 word \<Rightarrow> (rand_choice \<times> rand_build) option" where
  "column_u_integer_random_from from =
     (if from = 0 then Some (unbound_u_32, Build_Random)
      else chosen (assign_u_integer_random_from from) Build_Random_From)"

definition column_u_integer_random_upto :: "64 word \<Rightarrow> (rand_choice \<times> rand_build) option" where
  "column_u_integer_random_upto limit =
     (if uint limit = 4294967295 then Some (unbound_u_32, Build_Random)
      else if uint limit = 18446744073709551615 then Some (unbound_u_64, Build_Random)
      else chosen (assign_u_integer_random_upto limit) Build_Random_Upto)"

definition column_u_integer_random_range :: "64 word \<Rightarrow> 64 word \<Rightarrow> (rand_choice \<times> rand_build) option" where
  "column_u_integer_random_range least greatest =
     (let delta = greatest - least
      in if uint delta = 4294967295 then Some (unbound_u_32, Build_Random)
         else if uint delta = 18446744073709551615 then Some (unbound_u_64, Build_Random)
         else chosen (assign_u_integer_random_range least greatest (delta + 1)) Build_Random_Range)"


section \<open>Bounded draws\<close>

lemma random_bound_less:
  fixes span :: "'w::len word"
  assumes "random_bound draw t span rng = Some (v, rng')"
  shows "v < span"
proof -
  have "random_source draw (\<lambda>_. True)" by unfold_locales simp
  from random_source.random_bound_range [OF this assms TrueI] show ?thesis ..
qed

lemma bound32_less: "bound32 t span g = Some (r, g') \<Longrightarrow> r < span"
  by (auto simp: bound32_def random_uint32_bound_def split: bind_splits dest: random_bound_less)

lemma bound64_less: "bound64 t span g = Some (r, g') \<Longrightarrow> r < span"
  by (auto simp: bound64_def random_uint64_bound_def split: bind_splits dest: random_bound_less)

text \<open>Adding an offset without overflow.\<close>

lemma sint_word_of_int:
  "- (2 ^ 63) \<le> k \<Longrightarrow> k < 2 ^ 63 \<Longrightarrow> sint (word_of_int k :: 64 word) = k"
  by (simp add: int_word_sint)

lemma sint32_word_of_int:
  "- (2 ^ 31) \<le> k \<Longrightarrow> k < 2 ^ 31 \<Longrightarrow> sint (word_of_int k :: 32 word) = k"
  by (simp add: int_word_sint)

lemma uint_word_of_int64: "0 \<le> k \<Longrightarrow> k < 2 ^ 64 \<Longrightarrow> uint (word_of_int k :: 64 word) = k"
  by (simp add: uint_word_of_int_eq take_bit_int_eq_self)

lemma uint_word_of_int32: "0 \<le> k \<Longrightarrow> k < 2 ^ 32 \<Longrightarrow> uint (word_of_int k :: 32 word) = k"
  by (simp add: uint_word_of_int_eq take_bit_int_eq_self)

lemma sint_range64: "- (2 ^ 63) \<le> sint w" "sint w < 2 ^ 63" for w :: "64 word"
  using sint_ge [of w] sint_lt [of w] by simp_all

lemma uint_range64: "0 \<le> uint w" "uint w < 2 ^ 64" for w :: "64 word"
  using uint_lt2p [of w] by simp_all

lemma uint_diff_less64:
  fixes g l :: "64 word"
  shows "uint g - uint l < 2 ^ 64"
  by (rule order_le_less_trans [OF _ uint_range64(2) [of g]]) simp

lemma add_offset_sint:
  fixes r off :: "64 word"
  assumes "uint r + sint off < 2 ^ 63"
  shows "sint (r + off) = uint r + sint off"
proof -
  have "r + off = word_of_int (uint r + sint off)" by simp
  then have "sint (r + off) = sint (word_of_int (uint r + sint off) :: 64 word)" by (rule arg_cong)
  then show ?thesis using sint_word_of_int [of "uint r + sint off"] assms sint_range64(1) [of off] uint_range64(1) [of r] by linarith
qed

lemma add_offset_uint:
  fixes r off :: "64 word"
  assumes "uint r + uint off < 2 ^ 64"
  shows "uint (r + off) = uint r + uint off"
proof -
  have "r + off = word_of_int (uint r + uint off)" by simp
  then show ?thesis using uint_word_of_int64 [of "uint r + uint off"] assms uint_range64(1) [of off] uint_range64(1) [of r] by simp
qed

lemma span_sint:
  fixes g l :: "64 word"
  assumes "sint l \<le> sint g" "sint g - sint l + 1 < 2 ^ 64"
  shows "uint (g - l + 1) = sint g - sint l + 1"
proof -
  have "g - l + 1 = word_of_int (sint g - sint l + 1)" by simp
  then show ?thesis using uint_word_of_int64 [of "sint g - sint l + 1"] assms by simp
qed

lemma span_uint:
  fixes g l :: "64 word"
  assumes "uint l \<le> uint g" "uint g - uint l + 1 < 2 ^ 64"
  shows "uint (g - l + 1) = uint g - uint l + 1"
proof -
  have "g - l + 1 = word_of_int (uint g - uint l + 1)" by simp
  then show ?thesis using uint_word_of_int64 [of "uint g - uint l + 1"] assms by simp
qed

lemma uint_range32: "0 \<le> uint w" "uint w < 2 ^ 32" for w :: "32 word"
  using uint_lt2p [of w] by simp_all

lemma uint_ucast_up: "uint (ucast r :: 64 word) = uint r" for r :: "32 word"
proof -
  have "uint r < 2 ^ 64" using uint_range32(2) [of r] by simp
  then show ?thesis unfolding ucast_eq by (intro uint_word_of_int64 uint_range32)
qed

lemma sint_ucast_up: "sint (ucast r :: 64 word) = uint r" for r :: "32 word"
proof -
  have "uint r < 2 ^ 63" using uint_range32(2) [of r] by simp
  moreover have "- (2 ^ 63) \<le> uint r" by (rule order_trans [OF _ uint_range32(1)]) simp
  ultimately show ?thesis unfolding ucast_eq by (intro sint_word_of_int)
qed

lemma sint_scast_up: "sint (scast r :: 64 word) = sint r" for r :: "32 word"
proof -
  have "sint r < 2 ^ 63" "- (2 ^ 63) \<le> sint r" using sint_ge [of r] sint_lt [of r] by simp_all
  then show ?thesis unfolding scast_eq by (intro sint_word_of_int)
qed

lemma uint_ucast_down: "uint w < 2 ^ 32 \<Longrightarrow> uint (ucast w :: 32 word) = uint w" for w :: "64 word"
  unfolding ucast_eq by (intro uint_word_of_int32 uint_range64)

lemma ucast_down_sint: "(ucast w :: 32 word) = word_of_int (sint w)" for w :: "64 word"
  by transfer (simp add: take_bit_signed_take_bit)

lemma sint_ucast_down: "- (2 ^ 31) \<le> sint w \<Longrightarrow> sint w < 2 ^ 31 \<Longrightarrow> sint (ucast w :: 32 word) = sint w" for w :: "64 word"
  using sint32_word_of_int [of "sint w"] by (simp add: ucast_down_sint)

text \<open>The signed generators.\<close>

lemma draw_i_64_64:
  assumes "bound64 t (g - l + 1) st = Some (r, st')" "sint l \<le> sint g" "sint g - sint l + 1 < 2 ^ 64"
  shows "sint l \<le> sint (r + l) \<and> sint (r + l) \<le> sint g"
proof -
  have "uint r < sint g - sint l + 1"
    using bound64_less [OF assms(1)] span_sint [OF assms(2,3)] by (simp add: word_less_def)
  then show ?thesis using add_offset_sint [of r l] sint_range64(2) [of g] uint_range64(1) [of r] by simp
qed

lemma draw_i_32_64:
  fixes g l :: "64 word"
  assumes "bound32 t (ucast (g - l + 1)) st = Some (r, st')" "sint l \<le> sint g" "sint g - sint l + 1 < 2 ^ 32"
  shows "sint l \<le> sint (ucast r + l) \<and> sint (ucast r + l) \<le> sint g"
proof -
  have s: "uint (g - l + 1) = sint g - sint l + 1" using span_sint [OF assms(2)] assms(3) by simp
  then have "uint (ucast (g - l + 1) :: 32 word) = sint g - sint l + 1" using uint_ucast_down [of "g - l + 1"] assms(3) by simp
  then have "uint r < sint g - sint l + 1" using bound32_less [OF assms(1)] by (simp add: word_less_def)
  then show ?thesis
    using add_offset_sint [of "ucast r" l] sint_range64(2) [of g] uint_range64(1) [of "ucast r"] by (simp add: uint_ucast_up)
qed

lemma draw_i_32_32:
  fixes g l :: "64 word"
  assumes "bound32 t (ucast (g - l + 1)) st = Some (r, st')" "sint l \<le> sint g" "sint g - sint l + 1 < 2 ^ 32"
    and "- (2 ^ 31) \<le> sint l" "sint g < 2 ^ 31"
  shows "sint l \<le> sint (scast (r + ucast l) :: 64 word) \<and> sint (scast (r + ucast l) :: 64 word) \<le> sint g"
proof -
  have s: "uint (g - l + 1) = sint g - sint l + 1" using span_sint [OF assms(2)] assms(3) by simp
  then have "uint (ucast (g - l + 1) :: 32 word) = sint g - sint l + 1" using uint_ucast_down [of "g - l + 1"] assms(3) by simp
  then have u: "uint r < sint g - sint l + 1" "0 \<le> uint r" using bound32_less [OF assms(1)] by (simp_all add: word_less_def)
  have "r + ucast l = word_of_int (uint r + sint l)" by (simp add: ucast_down_sint)
  then have "sint (r + ucast l) = sint (word_of_int (uint r + sint l) :: 32 word)" by (rule arg_cong)
  moreover have "- (2 ^ 31) \<le> uint r + sint l" "uint r + sint l < 2 ^ 31" using u assms(4,5) by linarith+
  ultimately have "sint (r + ucast l) = uint r + sint l" using sint32_word_of_int by metis
  then show ?thesis unfolding sint_scast_up using u by linarith
qed


text \<open>The unsigned generators.\<close>

lemma draw_u_64_64:
  fixes g l :: "64 word"
  assumes "bound64 t (g - l + 1) st = Some (r, st')" "uint l \<le> uint g" "uint g - uint l + 1 < 2 ^ 64"
  shows "uint l \<le> uint (r + l) \<and> uint (r + l) \<le> uint g"
proof -
  have "uint r < uint g - uint l + 1"
    using bound64_less [OF assms(1)] span_uint [OF assms(2,3)] by (simp add: word_less_def)
  then show ?thesis using add_offset_uint [of r l] uint_range64(2) [of g] uint_range64(1) [of r] by simp
qed

lemma draw_u_32_64:
  fixes g l :: "64 word"
  assumes "bound32 t (ucast (g - l + 1)) st = Some (r, st')" "uint l \<le> uint g" "uint g - uint l + 1 < 2 ^ 64"
  shows "uint l \<le> uint (ucast r + l) \<and> uint (ucast r + l) \<le> uint g"
proof -
  have "uint (ucast (g - l + 1) :: 32 word) \<le> uint (g - l + 1)"
    unfolding unsigned_ucast_eq by (simp only: unsigned_take_bit_eq take_bit_int_less_eq_self_iff uint_range64)
  then have "uint (ucast (g - l + 1) :: 32 word) \<le> uint g - uint l + 1" using span_uint [OF assms(2,3)] by simp
  then have "uint r < uint g - uint l + 1" using bound32_less [OF assms(1)] by (simp add: word_less_def)
  then show ?thesis
    using add_offset_uint [of "ucast r" l] uint_range64(2) [of g] uint_range64(1) [of "ucast r"]
    by (simp add: uint_ucast_up)
qed

lemma draw_u_32_32:
  fixes g l :: "64 word"
  assumes "bound32 t (ucast (g - l + 1)) st = Some (r, st')" "uint l \<le> uint g" "uint g - uint l + 1 < 2 ^ 32"
    and "uint g < 2 ^ 32"
  shows "uint l \<le> uint (ucast (r + ucast l) :: 64 word) \<and> uint (ucast (r + ucast l) :: 64 word) \<le> uint g"
proof -
  have s: "uint (g - l + 1) = uint g - uint l + 1" using span_uint [OF assms(2)] assms(3) by simp
  then have "uint (ucast (g - l + 1) :: 32 word) = uint g - uint l + 1" using uint_ucast_down [of "g - l + 1"] assms(3) by simp
  then have u: "uint r < uint g - uint l + 1" "0 \<le> uint r" using bound32_less [OF assms(1)] by (simp_all add: word_less_def)
  have "r + ucast l = word_of_int (uint r + uint l)" unfolding wi_hom_add [symmetric] ucast_eq word_of_int_uint ..
  then have "uint (r + ucast l) = uint (word_of_int (uint r + uint l) :: 32 word)" by (rule arg_cong)
  moreover have "0 \<le> uint r + uint l" "uint r + uint l < 2 ^ 32" using u assms(4) uint_range64(1) [of l] by linarith+
  ultimately have "uint (r + ucast l) = uint r + uint l" using uint_word_of_int32 by metis
  then show ?thesis unfolding uint_ucast_up using u by linarith
qed

text \<open>The width of a number.\<close>

lemma length_decimal_le: "n < 10 ^ Suc k \<Longrightarrow> length (decimal n) \<le> Suc k"
proof (induction k arbitrary: n)
  case 0
  then show ?case by (simp add: decimal_small)
next
  case (Suc k)
  show ?case
  proof (cases "n < 10")
    case True
    then show ?thesis by (simp add: decimal_small)
  next
    case False
    have "n div 10 < 10 ^ Suc k" using Suc.prems by (simp add: less_mult_imp_div_less)
    then show ?thesis using Suc.IH [of "n div 10"] False by (simp add: decimal_step)
  qed
qed

lemma decimal_int_width:
  assumes "- (10 ^ Suc k) < i" "i < 10 ^ Suc k'"
  shows "length (decimal_int i) \<le> max (Suc (Suc k)) (Suc k')"
proof (cases "i < 0")
  case True
  then have "nat (- i) < 10 ^ Suc k" using assms(1) by (simp add: nat_less_iff)
  then show ?thesis using length_decimal_le [of "nat (- i)" k] True by (simp add: decimal_int_def max_def)
next
  case False
  then have "nat i < 10 ^ Suc k'" using assms(2) by (simp add: nat_less_iff)
  then show ?thesis using length_decimal_le [of "nat i" k'] False by (simp add: decimal_int_def max_def)
qed

lemma width_i_32: "- (2 ^ 31) \<le> i \<Longrightarrow> i < 2 ^ 31 \<Longrightarrow> length (decimal_int i) < 12"
  using decimal_int_width [of 9 i 9] by simp

lemma width_u_32: "0 \<le> i \<Longrightarrow> i < 2 ^ 32 \<Longrightarrow> length (decimal_int i) < 11"
  using decimal_int_width [of 0 i 9] by simp

lemma width_i_64_high: "- (2 ^ 31) \<le> i \<Longrightarrow> i < 2 ^ 63 \<Longrightarrow> length (decimal_int i) < 20"
  using decimal_int_width [of 9 i 18] by simp

lemma width_i_64: "- (2 ^ 63) \<le> i \<Longrightarrow> i < 2 ^ 63 \<Longrightarrow> length (decimal_int i) < 21"
  using decimal_int_width [of 18 i 18] by simp

lemma width_u_64: "0 \<le> i \<Longrightarrow> i < 2 ^ 64 \<Longrightarrow> length (decimal_int i) < 21"
  using decimal_int_width [of 0 i 19] by simp


section \<open>What a column may contain\<close>

text \<open>The integer types of SQL, by their text.\<close>

definition sql_range :: "string \<Rightarrow> int \<times> int" where
  "sql_range t =
     (if t = ''INT'' then (- 2147483648, 2147483647)
      else if t = ''BIGINT'' then (- 9223372036854775808, 9223372036854775807)
      else if t = ''INT UNSIGNED'' then (0, 4294967295)
      else if t = ''BIGINT UNSIGNED'' then (0, 18446744073709551615)
      else (0, 0))"

definition fits_type :: "put_label \<Rightarrow> int \<Rightarrow> bool" where
  "fits_type l i \<longleftrightarrow> fst (sql_range (put_label_text l)) \<le> i \<and> i \<le> snd (sql_range (put_label_text l))"

text \<open>
  Every value a chosen generator returns lies between the bounds, is a value of the type of the
  column, and its text with its terminator is no wider than the width of a cell.
\<close>

definition draws_within :: "(64 word \<Rightarrow> int) \<Rightarrow> rand_choice \<Rightarrow> int \<Rightarrow> int \<Rightarrow> bool" where
  "draws_within val c lo hi \<longleftrightarrow>
     (\<forall>g v g'. rand_gen_call (rc_gen c) g = Some (v, g') \<longrightarrow>
        lo \<le> val v \<and> val v \<le> hi \<and> fits_type (rc_type c) (val v) \<and> length (decimal_int (val v)) < rc_width_max c)"

lemma draws_withinI:
  assumes "\<And>g v g'. rand_gen_call gen g = Some (v, g') \<Longrightarrow> lo \<le> val v \<and> val v \<le> hi"
    and "\<And>i. lo \<le> i \<Longrightarrow> i \<le> hi \<Longrightarrow> fits_type ty i"
    and "\<And>i. lo \<le> i \<Longrightarrow> i \<le> hi \<Longrightarrow> length (decimal_int i) < w"
  shows "draws_within val (choice ty j w f gen) lo hi"
  using assms unfolding draws_within_def choice_def by simp

lemma fits_types [simp]:
  "fits_type type_set_int i \<longleftrightarrow> - 2147483648 \<le> i \<and> i \<le> 2147483647"
  "fits_type type_set_bigint i \<longleftrightarrow> - 9223372036854775808 \<le> i \<and> i \<le> 9223372036854775807"
  "fits_type type_set_int_unsigned i \<longleftrightarrow> 0 \<le> i \<and> i \<le> 4294967295"
  "fits_type type_set_bigint_unsigned i \<longleftrightarrow> 0 \<le> i \<and> i \<le> 18446744073709551615"
  by (simp_all add: fits_type_def sql_range_def put_label_text_def type_set_int_def type_set_bigint_def
      type_set_int_unsigned_def type_set_bigint_unsigned_def)

lemma within_i_32:
  "- 2147483648 \<le> lo \<Longrightarrow> hi \<le> 2147483647 \<Longrightarrow>
    (\<And>g v g'. rand_gen_call gen g = Some (v, g') \<Longrightarrow> lo \<le> sint v \<and> sint v \<le> hi) \<Longrightarrow>
    draws_within sint (choice type_set_int j 12 f gen) lo hi"
  by (rule draws_withinI) (simp_all add: width_i_32)

lemma within_i_64:
  "- 9223372036854775808 \<le> lo \<Longrightarrow> hi \<le> 9223372036854775807 \<Longrightarrow>
    (\<And>g v g'. rand_gen_call gen g = Some (v, g') \<Longrightarrow> lo \<le> sint v \<and> sint v \<le> hi) \<Longrightarrow>
    draws_within sint (choice type_set_bigint j 21 f gen) lo hi"
  by (rule draws_withinI) (simp_all add: width_i_64)

lemma within_i_64_high:
  "- 2147483648 \<le> lo \<Longrightarrow> hi \<le> 9223372036854775807 \<Longrightarrow>
    (\<And>g v g'. rand_gen_call gen g = Some (v, g') \<Longrightarrow> lo \<le> sint v \<and> sint v \<le> hi) \<Longrightarrow>
    draws_within sint (choice type_set_bigint j 20 f gen) lo hi"
  by (rule draws_withinI) (simp_all add: width_i_64_high)

lemma within_u_32:
  "0 \<le> lo \<Longrightarrow> hi \<le> 4294967295 \<Longrightarrow>
    (\<And>g v g'. rand_gen_call gen g = Some (v, g') \<Longrightarrow> lo \<le> uint v \<and> uint v \<le> hi) \<Longrightarrow>
    draws_within uint (choice type_set_int_unsigned j 11 f gen) lo hi"
  by (rule draws_withinI) (simp_all add: width_u_32)

lemma within_u_64:
  "0 \<le> lo \<Longrightarrow> hi \<le> 18446744073709551615 \<Longrightarrow>
    (\<And>g v g'. rand_gen_call gen g = Some (v, g') \<Longrightarrow> lo \<le> uint v \<and> uint v \<le> hi) \<Longrightarrow>
    draws_within uint (choice type_set_bigint_unsigned j 21 f gen) lo hi"
  by (rule draws_withinI) (simp_all add: width_u_64)

lemma within_unbound:
  "draws_within sint unbound_i_32 (- 2147483648) 2147483647"
  "draws_within sint unbound_i_64 (- 9223372036854775808) 9223372036854775807"
  "draws_within uint unbound_u_32 0 4294967295"
  "draws_within uint unbound_u_64 0 18446744073709551615"
proof -
  have s32: "- 2147483648 \<le> sint r" "sint r \<le> 2147483647" for r :: "32 word"
    using sint_ge [of r] sint_lt [of r] by simp_all
  have u32: "uint r \<le> 4294967295" for r :: "32 word" using uint_range32(2) [of r] by simp
  have s64: "- 9223372036854775808 \<le> sint r" "sint r \<le> 9223372036854775807" for r :: "64 word"
    using sint_range64 [of r] by simp_all
  have u64: "uint r \<le> 18446744073709551615" for r :: "64 word" using uint_range64(2) [of r] by simp
  show "draws_within sint unbound_i_32 (- 2147483648) 2147483647"
    unfolding unbound_i_32_def
    by (rule within_i_32) (auto simp: s32 generate_i_32_def sint_scast_up split: prod.splits)
  show "draws_within sint unbound_i_64 (- 9223372036854775808) 9223372036854775807"
    unfolding unbound_i_64_def
    by (rule within_i_64) (simp_all add: s64)
  show "draws_within uint unbound_u_32 0 4294967295"
    unfolding unbound_u_32_def
    by (rule within_u_32) (auto simp: u32 generate_u_32_def uint_ucast_up split: prod.splits)
  show "draws_within uint unbound_u_64 0 18446744073709551615"
    unfolding unbound_u_64_def
    by (rule within_u_64) (simp_all add: u64)
qed


named_theorems gen_simps \<open>the generators, run\<close>

lemmas [gen_simps] =
  generate_i_bound_64_offset_64_def generate_i_bound_32_offset_64_def generate_i_bound_32_offset_32_def
  generate_i_bound_64_offset_64_min_def generate_i_bound_32_offset_64_min_def generate_i_bound_32_offset_32_min_def
  generate_u_bound_64_offset_64_def generate_u_bound_32_offset_64_def generate_u_bound_32_offset_32_def
  generate_u_bound_32_def generate_u_bound_64_def
  random_int64_bound_64_offset_64_def random_int64_bound_32_offset_64_def random_int32_bound_32_offset_32_def
  random_uint64_bound_64_offset_64_def random_uint64_bound_32_offset_64_def random_uint32_bound_32_offset_32_def

lemma params32_cases: "params32 span = Some p \<Longrightarrow> \<exists>t. p = Bound32 t span"
  by (auto simp: params32_def split: bind_splits)

lemma params64_cases: "params64 span = Some p \<Longrightarrow> \<exists>t. p = Bound64 t span"
  by (auto simp: params64_def split: bind_splits)

lemma sint_limits [simp]:
  "sint (9223372036854775807 :: 64 word) = 9223372036854775807"
  "sint (2147483647 :: 64 word) = 2147483647"
  "sint (- 2147483648 :: 64 word) = - 2147483648"
  "sint INT64_MIN64 = - 9223372036854775808"
  by (simp_all add: INT64_MIN64_def)

lemma ucast_min32: "ucast (- 2147483648 :: 64 word) = INT32_MIN32"
  by (simp add: INT32_MIN32_def)

lemma range_within_i:
  assumes "assign_integer_random_range l g (g - l + 1) = Some c" "sint l \<le> sint g"
    and "sint g - sint l \<noteq> 18446744073709551615" "sint g - sint l \<noteq> 4294967295"
  shows "draws_within sint c (sint l) (sint g)"
proof -
  have b: "sint g - sint l + 1 < 2 ^ 64" using assms(3) sint_range64 [of g] sint_range64 [of l] by simp
  have lo: "- 9223372036854775808 \<le> sint l" and hi: "sint g \<le> 9223372036854775807"
    using sint_range64 [of g] sint_range64 [of l] by simp_all
  consider "sint l < - 2147483648" | "- 2147483648 \<le> sint l" "2147483647 < sint g"
    | "- 2147483648 \<le> sint l" "sint g \<le> 2147483647" by linarith
  then show ?thesis
  proof cases
    case 1
    then obtain t where "c = choice type_set_bigint 20 21 RAND_64_CTOR_FLAG
        (Gen_Offset (Bound64 t (g - l + 1), Offset64 l) generate_i_bound_64_offset_64)"
      using assms(1) params64_cases by (auto simp: assign_integer_random_range_def split: bind_splits)
    then show ?thesis
      using draw_i_64_64 [OF _ assms(2) b] lo hi by (auto intro!: within_i_64 simp: gen_simps split: bind_splits)
  next
    case 2
    show ?thesis
    proof (cases "uint (g - l + 1) < 4294967295")
      case True
      then obtain t where "c = choice type_set_bigint 19 20 RAND_32_CTOR_FLAG
          (Gen_Offset (Bound32 t (ucast (g - l + 1)), Offset64 l) generate_i_bound_32_offset_64)"
        using assms(1) params32_cases 2 by (auto simp: assign_integer_random_range_def split: bind_splits)
      moreover have "sint g - sint l + 1 < 2 ^ 32" using True span_sint [OF assms(2) b] by simp
      ultimately show ?thesis
        using draw_i_32_64 [OF _ assms(2)] 2 hi by (auto intro!: within_i_64_high simp: gen_simps split: bind_splits)
    next
      case False
      then obtain t where "c = choice type_set_bigint 19 20 RAND_64_CTOR_FLAG
          (Gen_Offset (Bound64 t (g - l + 1), Offset64 l) generate_i_bound_64_offset_64)"
        using assms(1) params64_cases 2 by (auto simp: assign_integer_random_range_def split: bind_splits)
      then show ?thesis
        using draw_i_64_64 [OF _ assms(2) b] 2 hi by (auto intro!: within_i_64_high simp: gen_simps split: bind_splits)
    qed
  next
    case 3
    then obtain t where "c = choice type_set_int 11 12 RAND_32_CTOR_FLAG
        (Gen_Offset (Bound32 t (ucast (g - l + 1)), Offset32 (ucast l)) generate_i_bound_32_offset_32)"
      using assms(1) params32_cases by (auto simp: assign_integer_random_range_def split: bind_splits)
    moreover have "sint g - sint l + 1 < 2 ^ 32" "- (2 ^ 31) \<le> sint l" "sint g < 2 ^ 31" using 3 assms(4) by simp_all
    ultimately show ?thesis
      using draw_i_32_32 [OF _ assms(2)] 3 by (auto intro!: within_i_32 simp: gen_simps split: bind_splits)
  qed
qed


text \<open>A column with a least value is one with a range that ends where its type does.\<close>

definition from_limit :: "64 word \<Rightarrow> 64 word" where
  "from_limit f = (if sint f < - 2147483648 \<or> 2147483647 < sint f then 9223372036854775807 else 2147483647)"

lemma from_is_range: "assign_integer_random_from f = assign_integer_random_range f (from_limit f) (from_limit f - f + 1)"
  by (simp add: assign_integer_random_from_def assign_integer_random_range_def from_limit_def Let_def)

lemma from_limit_ge: "sint f \<le> sint (from_limit f)"
  using sint_range64(2) [of f] by (simp add: from_limit_def)

lemma from_within_i:
  assumes "assign_integer_random_from f = Some c" "sint f \<noteq> - 2147483648" "sint f \<noteq> - 9223372036854775808"
  shows "draws_within sint c (sint f) (sint (from_limit f))"
proof -
  have r: "assign_integer_random_range f (from_limit f) (from_limit f - f + 1) = Some c"
    using assms(1) by (simp add: from_is_range)
  have "sint (from_limit f) - sint f \<noteq> 18446744073709551615" using assms(3) by (simp add: from_limit_def)
  moreover have "sint (from_limit f) - sint f \<noteq> 4294967295 \<or> 2147483647 < sint f"
    using assms(2) by (simp add: from_limit_def)
  moreover have "draws_within sint c (sint f) (sint (from_limit f))" if big: "2147483647 < sint f"
  proof (cases "uint (from_limit f - f + 1) < 4294967295")
    case True
    then obtain t where "c = choice type_set_bigint 19 20 RAND_32_CTOR_FLAG
        (Gen_Offset (Bound32 t (ucast (from_limit f - f + 1)), Offset64 f) generate_i_bound_32_offset_64)"
      using r params32_cases big by (auto simp: assign_integer_random_range_def from_limit_def split: bind_splits)
    moreover have "sint (from_limit f) - sint f + 1 < 2 ^ 32"
      using True span_sint [OF from_limit_ge, of f] big by (simp add: from_limit_def)
    ultimately show ?thesis
      using draw_i_32_64 [OF _ from_limit_ge, of _ f] big
      by (auto intro!: within_i_64_high simp: gen_simps from_limit_def split: bind_splits)
  next
    case False
    then obtain t where "c = choice type_set_bigint 19 20 RAND_64_CTOR_FLAG
        (Gen_Offset (Bound64 t (from_limit f - f + 1), Offset64 f) generate_i_bound_64_offset_64)"
      using r params64_cases big by (auto simp: assign_integer_random_range_def from_limit_def split: bind_splits)
    then show ?thesis
      using draw_i_64_64 [OF _ from_limit_ge, of _ f] big
      by (auto intro!: within_i_64_high simp: gen_simps from_limit_def split: bind_splits)
  qed
  ultimately show ?thesis using range_within_i [OF r from_limit_ge] by blast
qed

lemma upto_within_i:
  assumes "assign_integer_random_upto m = Some c" "sint m \<noteq> 9223372036854775807" "sint m \<noteq> 2147483647"
  shows "draws_within sint c (if sint m < - 2147483648 \<or> 2147483647 < sint m then - 9223372036854775808 else - 2147483648)
           (sint m)"
proof -
  have hi: "- 9223372036854775808 \<le> sint m" "sint m < 9223372036854775807"
    using sint_range64 [of m] assms(2) by simp_all
  then have le: "sint INT64_MIN64 \<le> sint m" and b: "sint m - sint INT64_MIN64 + 1 < 2 ^ 64" by simp_all
  consider "2147483647 < sint m" | "sint m < - 2147483648" | "- 2147483648 \<le> sint m" "sint m \<le> 2147483647" by linarith
  then show ?thesis
  proof cases
    case 1
    then obtain t where "c = choice type_set_bigint 20 21 RAND_64_CTOR_FLAG
        (Gen_Bound (Bound64 t (m - INT64_MIN64 + 1)) generate_i_bound_64_offset_64_min)"
      using assms(1) params64_cases by (auto simp: assign_integer_random_upto_def Let_def split: bind_splits)
    then show ?thesis
      using draw_i_64_64 [OF _ le b] 1 hi by (auto intro!: within_i_64 simp: gen_simps split: bind_splits)
  next
    case 2
    show ?thesis
    proof (cases "4294967295 < uint (m - INT64_MIN64 + 1)")
      case True
      then obtain t where "c = choice type_set_bigint 20 21 RAND_64_CTOR_FLAG
          (Gen_Bound (Bound64 t (m - INT64_MIN64 + 1)) generate_i_bound_64_offset_64_min)"
        using assms(1) params64_cases 2 by (auto simp: assign_integer_random_upto_def Let_def split: bind_splits)
      then show ?thesis
        using draw_i_64_64 [OF _ le b] 2 hi by (auto intro!: within_i_64 simp: gen_simps split: bind_splits)
    next
      case False
      then obtain t where "c = choice type_set_bigint 20 21 RAND_32_CTOR_FLAG
          (Gen_Bound (Bound32 t (ucast (m - INT64_MIN64 + 1))) generate_i_bound_32_offset_64_min)"
        using assms(1) params32_cases 2 by (auto simp: assign_integer_random_upto_def Let_def split: bind_splits)
      moreover have "sint m - sint INT64_MIN64 + 1 < 2 ^ 32" using False span_sint [OF le b] by simp
      ultimately show ?thesis
        using draw_i_32_64 [OF _ le] 2 hi by (auto intro!: within_i_64 simp: gen_simps split: bind_splits)
    qed
  next
    case 3
    then obtain t where c: "c = choice type_set_int 11 12 RAND_32_CTOR_FLAG
        (Gen_Bound (Bound32 t (ucast (m - (- 2147483648) + 1))) generate_i_bound_32_offset_32_min)"
      using assms(1) by (auto simp: assign_integer_random_upto_def Let_def split: bind_splits)
    have "sint (- 2147483648 :: 64 word) \<le> sint m" "sint m - sint (- 2147483648 :: 64 word) + 1 < 2 ^ 32"
      "- (2 ^ 31) \<le> sint (- 2147483648 :: 64 word)" "sint m < 2 ^ 31"
      using 3 assms(3) by simp_all
    note draw_i_32_32 [OF _ this, unfolded ucast_min32]
    then show ?thesis unfolding c
      using 3 by (auto intro!: within_i_32 simp: gen_simps split: bind_splits)
  qed
qed


lemma range_within_u:
  assumes "assign_u_integer_random_range l g (g - l + 1) = Some c" "uint l \<le> uint g"
    and "uint g - uint l \<noteq> 18446744073709551615" "uint g - uint l \<noteq> 4294967295"
  shows "draws_within uint c (uint l) (uint g)"
proof -
  have b: "uint g - uint l + 1 < 2 ^ 64" using assms(3) uint_diff_less64 [of g l] by simp
  have hi: "uint g \<le> 18446744073709551615" using uint_range64 [of g] by simp
  show ?thesis
  proof (cases "4294967295 < uint g")
    case big: True
    show ?thesis
    proof (cases "4294967295 < uint (g - l + 1)")
      case True
      then obtain t where "c = choice type_set_bigint_unsigned 20 21 RAND_32_CTOR_FLAG
          (Gen_Offset (Bound32 t (ucast (g - l + 1)), Offset64 l) generate_u_bound_32_offset_64)"
        using assms(1) params32_cases big by (auto simp: assign_u_integer_random_range_def split: bind_splits)
      then show ?thesis
        using draw_u_32_64 [OF _ assms(2) b] hi by (auto intro!: within_u_64 simp: gen_simps split: bind_splits)
    next
      case False
      then obtain t where "c = choice type_set_bigint_unsigned 20 21 RAND_64_CTOR_FLAG
          (Gen_Offset (Bound64 t (g - l + 1), Offset64 l) generate_u_bound_64_offset_64)"
        using assms(1) params64_cases big by (auto simp: assign_u_integer_random_range_def split: bind_splits)
      then show ?thesis
        using draw_u_64_64 [OF _ assms(2) b] hi by (auto intro!: within_u_64 simp: gen_simps split: bind_splits)
    qed
  next
    case False
    then obtain t where "c = choice type_set_int_unsigned 10 11 RAND_32_CTOR_FLAG
        (Gen_Offset (Bound32 t (ucast (g - l + 1)), Offset32 (ucast l)) generate_u_bound_32_offset_32)"
      using assms(1) params32_cases by (auto simp: assign_u_integer_random_range_def split: bind_splits)
    moreover have "uint g - uint l + 1 < 4294967296" "uint g < 4294967296"
      using False assms(4) uint_range64(1) [of l] by linarith+
    then have "uint g - uint l + 1 < 2 ^ 32" "uint g < 2 ^ 32" by simp_all
    ultimately show ?thesis
      using draw_u_32_32 [OF _ assms(2)] False by (auto intro!: within_u_32 simp: gen_simps split: bind_splits)
  qed
qed

definition u_from_limit :: "64 word \<Rightarrow> 64 word" where
  "u_from_limit f = (if 4294967295 < uint f then 18446744073709551615 else 4294967295)"

lemma u_from_limit_ge: "uint f \<le> uint (u_from_limit f)"
  using uint_range64(2) [of f] by (simp add: u_from_limit_def)

lemma from_within_u:
  assumes "assign_u_integer_random_from f = Some c" "f \<noteq> 0"
  shows "draws_within uint c (uint f) (uint (u_from_limit f))"
proof (cases "4294967295 < uint f")
  case big: True
  then have lim: "u_from_limit f = 18446744073709551615" by (simp add: u_from_limit_def)
  have le: "uint f \<le> uint (18446744073709551615 :: 64 word)" using u_from_limit_ge [of f] by (simp only: lim)
  have b: "uint (18446744073709551615 :: 64 word) - uint f + 1 < 2 ^ 64" using big by simp
  show ?thesis
  proof (cases "uint (18446744073709551615 - f + 1) < 4294967295")
    case True
    then obtain t where "c = choice type_set_bigint_unsigned 20 21 RAND_32_CTOR_FLAG
        (Gen_Offset (Bound32 t (ucast (18446744073709551615 - f + 1)), Offset64 f) generate_u_bound_32_offset_64)"
      using assms(1) params32_cases big by (auto simp: assign_u_integer_random_from_def Let_def split: bind_splits)
    then show ?thesis
      using draw_u_32_64 [OF _ le b] by (auto intro!: within_u_64 simp: gen_simps lim split: bind_splits)
  next
    case False
    then obtain t where "c = choice type_set_bigint_unsigned 20 21 RAND_64_CTOR_FLAG
        (Gen_Offset (Bound64 t (18446744073709551615 - f + 1), Offset64 f) generate_u_bound_64_offset_64)"
      using assms(1) params64_cases big by (auto simp: assign_u_integer_random_from_def Let_def split: bind_splits)
    then show ?thesis
      using draw_u_64_64 [OF _ le b] by (auto intro!: within_u_64 simp: gen_simps lim split: bind_splits)
  qed
next
  case False
  then have "assign_u_integer_random_range f 4294967295 (4294967295 - f + 1) = Some c"
    using assms(1) by (simp add: assign_u_integer_random_from_def assign_u_integer_random_range_def Let_def)
  moreover have "uint f \<noteq> 0" using assms(2) by (simp add: word_uint_eq_iff)
  moreover have "4294967295 - uint f \<noteq> 18446744073709551615" using uint_range64(1) [of f] by linarith
  ultimately show ?thesis
    using range_within_u [of f 4294967295 c] False by (simp add: u_from_limit_def)
qed

lemma upto_within_u:
  assumes "assign_u_integer_random_upto m = Some c" "uint m \<noteq> 18446744073709551615" "uint m \<noteq> 4294967295"
  shows "draws_within uint c 0 (uint m)"
proof -
  have hi: "uint m < 18446744073709551615" using uint_range64 [of m] assms(2) by simp
  then have s: "uint (m + 1) = uint m + 1" using add_offset_uint [of m 1] by simp
  show ?thesis
  proof (cases "4294967295 < uint m")
    case True
    then obtain t where "c = choice type_set_bigint_unsigned 20 21 RAND_64_CTOR_FLAG
        (Gen_Bound (Bound64 t (m + 1)) generate_u_bound_64)"
      using assms(1) params64_cases by (auto simp: assign_u_integer_random_upto_def Let_def split: bind_splits)
    moreover have "uint r \<le> uint m" if "bound64 t (m + 1) g = Some (r, g')" for t r g g'
      using bound64_less [OF that] s by (simp add: word_less_def)
    ultimately show ?thesis using hi by (auto intro!: within_u_64 simp: gen_simps split: bind_splits)
  next
    case False
    then obtain t where "c = choice type_set_int_unsigned 10 11 RAND_32_CTOR_FLAG
        (Gen_Bound (Bound32 t (ucast (m + 1))) generate_u_bound_32)"
      using assms(1) params32_cases by (auto simp: assign_u_integer_random_upto_def Let_def split: bind_splits)
    moreover have "uint (ucast r :: 64 word) \<le> uint m" if "bound32 t (ucast (m + 1)) g = Some (r, g')" for t r g g'
    proof -
      have "uint (m + 1) < 2 ^ 32" using False s assms(3) by simp
      then have "uint (ucast (m + 1) :: 32 word) = uint m + 1" using uint_ucast_down s by metis
      then show ?thesis using bound32_less [OF that] unfolding uint_ucast_up by (simp add: word_less_def)
    qed
    ultimately show ?thesis using False by (auto intro!: within_u_32 simp: gen_simps split: bind_splits)
  qed
qed

section \<open>Every value is in the range that was asked for\<close>

text \<open>What the command line says of a random column, and the specification function it selects.\<close>

datatype scale = Scale_Default | Scale_From "64 word" | Scale_Upto "64 word" | Scale_Range "64 word" "64 word"

fun column_integer_random :: "scale \<Rightarrow> (rand_choice \<times> rand_build) option" where
  "column_integer_random Scale_Default = column_integer_random_default"
| "column_integer_random (Scale_From f) = column_integer_random_from f"
| "column_integer_random (Scale_Upto m) = column_integer_random_upto m"
| "column_integer_random (Scale_Range l g) = column_integer_random_range l g"

fun column_u_integer_random :: "scale \<Rightarrow> (rand_choice \<times> rand_build) option" where
  "column_u_integer_random Scale_Default = column_u_integer_random_default"
| "column_u_integer_random (Scale_From f) = column_u_integer_random_from f"
| "column_u_integer_random (Scale_Upto m) = column_u_integer_random_upto m"
| "column_u_integer_random (Scale_Range l g) = column_u_integer_random_range l g"

text \<open>The values that were asked for: the open ends are those of \<open>INT\<close>, or of \<open>BIGINT\<close> when the other end needs it.\<close>

fun scale_values :: "scale \<Rightarrow> int \<times> int" where
  "scale_values Scale_Default = (- 2147483648, 2147483647)"
| "scale_values (Scale_From f) =
     (sint f, if sint f < - 2147483648 \<or> 2147483647 < sint f then 9223372036854775807 else 2147483647)"
| "scale_values (Scale_Upto m) =
     (if sint m < - 2147483648 \<or> 2147483647 < sint m then - 9223372036854775808 else - 2147483648, sint m)"
| "scale_values (Scale_Range l g) = (sint l, sint g)"

fun u_scale_values :: "scale \<Rightarrow> int \<times> int" where
  "u_scale_values Scale_Default = (0, 4294967295)"
| "u_scale_values (Scale_From f) =
     (uint f, if 4294967295 < uint f then 18446744073709551615 else 4294967295)"
| "u_scale_values (Scale_Upto m) = (0, uint m)"
| "u_scale_values (Scale_Range l g) = (uint l, uint g)"

text \<open>Ranges of exactly \<open>UINT32_MAX + 1\<close> values that do not begin at the least value of the type.\<close>

fun misread_range :: "int \<Rightarrow> scale \<Rightarrow> (64 word \<Rightarrow> int) \<Rightarrow> bool" where
  "misread_range least (Scale_Range l g) val \<longleftrightarrow> val g - val l = 4294967295 \<and> val l \<noteq> least"
| "misread_range least _ val \<longleftrightarrow> False"

lemma uint_delta_sint:
  fixes g l :: "64 word"
  assumes "sint l \<le> sint g"
  shows "uint (g - l) = sint g - sint l"
proof -
  have "g - l = word_of_int (sint g - sint l)" by simp
  then show ?thesis using uint_word_of_int64 [of "sint g - sint l"] assms sint_range64 [of g] sint_range64 [of l] by simp
qed

lemma uint_delta_uint:
  fixes g l :: "64 word"
  assumes "uint l \<le> uint g"
  shows "uint (g - l) = uint g - uint l"
proof -
  have "g - l = word_of_int (uint g - uint l)" by simp
  then show ?thesis using uint_word_of_int64 [of "uint g - uint l"] assms uint_diff_less64 [of g l] by simp
qed

lemma within_unbound_eq:
  "lo = - 2147483648 \<Longrightarrow> hi = 2147483647 \<Longrightarrow> draws_within sint unbound_i_32 lo hi"
  "lo = - 9223372036854775808 \<Longrightarrow> hi = 9223372036854775807 \<Longrightarrow> draws_within sint unbound_i_64 lo hi"
  "lo = 0 \<Longrightarrow> hi = 4294967295 \<Longrightarrow> draws_within uint unbound_u_32 lo hi"
  "lo = 0 \<Longrightarrow> hi = 18446744073709551615 \<Longrightarrow> draws_within uint unbound_u_64 lo hi"
  by (simp_all only: within_unbound)

text \<open>
  Every value of a random integer column lies in the range that was asked for, is a value of the
  type the column was given, and its text with its terminator fits the width of a cell: for every
  scale whose least value is not above its greatest, but for ranges of exactly \<open>2 ^ 32\<close> values that do
  not begin at \<open>INT32_MIN\<close>.
\<close>

lemma integer_random_values_in_range:
  assumes "column_integer_random s = Some (c, b)"
    and "fst (scale_values s) \<le> snd (scale_values s)"
    and "\<not> misread_range (- 2147483648) s sint"
  shows "draws_within sint c (fst (scale_values s)) (snd (scale_values s))"
proof (cases s)
  case Scale_Default
  then show ?thesis using assms(1) by (auto simp: column_integer_random_default_def within_unbound)
next
  case (Scale_From f)
  then show ?thesis using assms(1) from_within_i [of f c]
    by (auto simp: column_integer_random_from_def chosen_def from_limit_def intro!: within_unbound_eq split: if_splits)
next
  case (Scale_Upto m)
  then show ?thesis using assms(1) upto_within_i [of m c]
    by (auto simp: column_integer_random_upto_def chosen_def intro!: within_unbound_eq split: if_splits)
next
  case (Scale_Range l g)
  then have le: "sint l \<le> sint g" using assms(2) by simp
  have d: "uint (g - l) = sint g - sint l" by (rule uint_delta_sint [OF le])
  have e: "sint l = - 2147483648" if "uint (g - l) = 4294967295" using that assms(3) Scale_Range d by auto
  have f: "sint l = - 9223372036854775808" "sint g = 9223372036854775807" if "uint (g - l) = 18446744073709551615"
    using that d sint_range64 [of g] sint_range64 [of l] by simp_all
  consider "uint (g - l) = 4294967295" | "uint (g - l) = 18446744073709551615"
    | "uint (g - l) \<noteq> 4294967295" "uint (g - l) \<noteq> 18446744073709551615" by blast
  then show ?thesis
  proof cases
    case 1
    then have "c = unbound_i_32" "sint g = 2147483647"
      using assms(1) Scale_Range d e by (simp_all add: column_integer_random_range_def)
    then show ?thesis using e 1 Scale_Range by (simp add: within_unbound)
  next
    case 2
    then have "c = unbound_i_64" using assms(1) Scale_Range by (simp add: column_integer_random_range_def)
    then show ?thesis using f 2 Scale_Range by (simp add: within_unbound)
  next
    case 3
    then have "assign_integer_random_range l g (g - l + 1) = Some c"
      using assms(1) Scale_Range by (auto simp: column_integer_random_range_def chosen_def)
    from range_within_i [OF this le] 3 show ?thesis unfolding d Scale_Range by simp
  qed
qed


text \<open>
  Every value of a random unsigned column lies in the range that was asked for, is a value of the
  type of the column and fits the width of a cell, but for ranges of exactly \<open>2 ^ 32\<close> values that do
  not begin at zero.
\<close>

lemma u_integer_random_values_in_range:
  assumes "column_u_integer_random s = Some (c, b)"
    and "fst (u_scale_values s) \<le> snd (u_scale_values s)"
    and "\<not> misread_range 0 s uint"
  shows "draws_within uint c (fst (u_scale_values s)) (snd (u_scale_values s))"
proof (cases s)
  case Scale_Default
  then show ?thesis using assms(1) by (auto simp: column_u_integer_random_default_def within_unbound)
next
  case (Scale_From f)
  then show ?thesis using assms(1) from_within_u [of f c]
    by (auto simp: column_u_integer_random_from_def chosen_def u_from_limit_def intro!: within_unbound_eq split: if_splits)
next
  case (Scale_Upto m)
  then show ?thesis using assms(1) upto_within_u [of m c]
    by (auto simp: column_u_integer_random_upto_def chosen_def intro!: within_unbound_eq split: if_splits)
next
  case (Scale_Range l g)
  then have le: "uint l \<le> uint g" using assms(2) by simp
  have d: "uint (g - l) = uint g - uint l" by (rule uint_delta_uint [OF le])
  have e: "uint l = 0" if "uint (g - l) = 4294967295" using that assms(3) Scale_Range d by auto
  have "uint g \<le> 18446744073709551615" using uint_range64(2) [of g] by simp
  then have f: "uint l = 0" if "uint (g - l) = 18446744073709551615"
    using that d uint_range64(1) [of l] by linarith
  consider "uint (g - l) = 4294967295" | "uint (g - l) = 18446744073709551615"
    | "uint (g - l) \<noteq> 4294967295" "uint (g - l) \<noteq> 18446744073709551615" by blast
  then show ?thesis
  proof cases
    case 1
    then have "c = unbound_u_32" "uint l = 0" "uint g = 4294967295"
      using assms(1) Scale_Range d e by (simp_all add: column_u_integer_random_range_def)
    then show ?thesis using Scale_Range by (simp add: within_unbound)
  next
    case 2
    then have "c = unbound_u_64" "uint l = 0" "uint g = 18446744073709551615"
      using assms(1) Scale_Range d f by (simp_all add: column_u_integer_random_range_def)
    then show ?thesis using Scale_Range by (simp add: within_unbound)
  next
    case 3
    then have "assign_u_integer_random_range l g (g - l + 1) = Some c"
      using assms(1) Scale_Range by (auto simp: column_u_integer_random_range_def chosen_def)
    from range_within_u [OF this le] 3 show ?thesis unfolding d Scale_Range by simp
  qed
qed

text \<open>
  A range of an unsigned column of \<open>2 ^ 32 + 1\<close> values from zero on is cut to its first value:
  every value of the column is zero, from every state of the generators.
\<close>

theorem u_integer_random_range_cut:
  "\<exists>c. column_u_integer_random (Scale_Range 0 4294967296) = Some (c, Build_Random_Range) \<and>
    draws_within uint c 0 0"
proof -
  have one: "(4294967297 :: 32 word) = 1" by simp
  obtain t where c: "column_u_integer_random (Scale_Range 0 4294967296) = Some (choice type_set_bigint_unsigned 20 21 RAND_32_CTOR_FLAG
        (Gen_Offset (Bound32 t 1, Offset64 0) generate_u_bound_32_offset_64), Build_Random_Range)"
    by (simp add: column_u_integer_random_range_def assign_u_integer_random_range_def params32_def RANDOM_THRESHOLD_def chosen_def one)
  have "uint (ucast r :: 64 word) = 0" if "bound32 t 1 g = Some (r, g')" for r g g'
    using bound32_less [OF that] by simp
  then have "draws_within uint (choice type_set_bigint_unsigned 20 21 RAND_32_CTOR_FLAG
        (Gen_Offset (Bound32 t 1, Offset64 0) generate_u_bound_32_offset_64)) 0 0"
    by (auto intro!: within_u_64 simp: gen_simps split: bind_splits)
  with c show ?thesis by blast
qed

text \<open>
  The group variant of a random integer column has lost its special cases: from \<open>INT32_MIN\<close> and
  from \<open>INT64_MIN\<close> on, for which the plain variant draws unbounded numbers, it divides by zero.
\<close>

theorem integer_random_from_group_divides_by_zero:
  "column_integer_random_from_group (- 2147483648) = None \<and>
   column_integer_random_from_group INT64_MIN64 = None \<and>
   column_integer_random (Scale_From (- 2147483648)) = Some (unbound_i_32, Build_Random) \<and>
   column_integer_random (Scale_From INT64_MIN64) = Some (unbound_i_64, Build_Random)"
  by (simp add: column_integer_random_from_group_def column_integer_random_from_def assign_integer_random_from_def
      chosen_def params32_def params64_def RANDOM_THRESHOLD_def) (simp add: INT64_MIN64_def)

end
