(* ===== verification/Random_Columns.thy ===== *)
theory Random_Columns
  imports Random_Spec Columns
begin

text \<open>
  The builders of random number columns, \<open>src/generate/column_integer_random.c\<close> and
  \<open>src/generate/column_u_integer_random.c\<close>. A plain builder draws one number per row and prints it
  with its terminator; a group builder draws one number per group and repeats it. The four kinds of
  builder differ in the member of \<open>rand_spec->gen\<close> they call. The state of the generators is passed
  through; there is no value when a draw does not return or a write leaves the block.
\<close>

section \<open>Definitions\<close>

datatype rand_failure =
    BCIR_MALLOC_FAILURE | BCIR_GROUP_MALLOC_FAILURE | BCIRF_MALLOC_FAILURE | BCIRF_GROUP_MALLOC_FAILURE
  | BCIRU_MALLOC_FAILURE | BCIRU_GROUP_MALLOC_FAILURE | BCIRR_MALLOC_FAILURE | BCIRR_GROUP_MALLOC_FAILURE
  | BCUIR_MALLOC_FAILURE | BCUIR_GROUP_MALLOC_FAILURE | BCUIRF_MALLOC_FAILURE | BCUIRF_GROUP_MALLOC_FAILURE
  | BCUIRU_MALLOC_FAILURE | BCUIRU_GROUP_MALLOC_FAILURE | BCUIRR_MALLOC_FAILURE | BCUIRR_GROUP_MALLOC_FAILURE

type_synonym rand_built = "((rand_failure + column_out) \<times> rngs) option"

text \<open>The members of the union; calling the wrong one is undefined.\<close>

definition gen_unbound :: "rand_choice \<Rightarrow> generator" where
  "gen_unbound c g = (case rc_gen c of Gen_Unbound generate \<Rightarrow> generate g | _ \<Rightarrow> None)"

definition gen_from :: "rand_choice \<Rightarrow> generator" where
  "gen_from c g = (case rc_gen c of Gen_Offset params generate \<Rightarrow> generate params g | _ \<Rightarrow> None)"

definition gen_upto :: "rand_choice \<Rightarrow> generator" where
  "gen_upto c g = (case rc_gen c of Gen_Bound params generate \<Rightarrow> generate params g | _ \<Rightarrow> None)"

definition gen_range :: "rand_choice \<Rightarrow> generator" where
  "gen_range c g = (case rc_gen c of Gen_Offset params generate \<Rightarrow> generate params g | _ \<Rightarrow> None)"

subsection \<open>One number per row\<close>

definition put_random_cell ::
  "(64 word \<Rightarrow> put) \<Rightarrow> generator \<Rightarrow> bytes \<Rightarrow> nat \<Rightarrow> rngs \<Rightarrow> (bytes \<times> nat \<times> rngs) option" where
  "put_random_cell put gen b ptr g =
     do { (v, g) \<leftarrow> gen g;
          (b, ptr) \<leftarrow> put v b ptr;
          b \<leftarrow> store b ptr NUL;
          Some (b, ptr + 1, g) }"

text \<open>\<open>do ... while (rem_cells > 0)\<close>; no cells would make it run to the end of the address space.\<close>

fun random_cells ::
  "(64 word \<Rightarrow> put) \<Rightarrow> generator \<Rightarrow> nat \<Rightarrow> bytes \<Rightarrow> nat \<Rightarrow> rngs \<Rightarrow> (bytes \<times> nat \<times> rngs) option" where
  "random_cells put gen 0 b ptr g = None"
| "random_cells put gen (Suc rem_cells) b ptr g =
     do { (b, ptr, g) \<leftarrow> put_random_cell put gen b ptr g;
          if 0 < rem_cells then random_cells put gen rem_cells b ptr g else Some (b, ptr, g) }"

fun random_rowspans ::
  "(64 word \<Rightarrow> put) \<Rightarrow> generator \<Rightarrow> nat list \<Rightarrow> bytes \<Rightarrow> nat \<Rightarrow> rngs \<Rightarrow> (bytes \<times> nat \<times> spans \<times> rngs) option" where
  "random_rowspans put gen [] b ptr g = Some (b, ptr, [], g)"
| "random_rowspans put gen (rc # rcs) b ptr g =
     do { (b', ptr', g') \<leftarrow> random_cells put gen rc b ptr g;
          len \<leftarrow> step_back ptr' ptr;
          (b'', ptr'', spans, g'') \<leftarrow> random_rowspans put gen rcs b' ptr' g';
          Some (b'', ptr'', (ptr, len) # spans, g'') }"

definition build_column_random ::
  "rand_failure \<Rightarrow> (64 word \<Rightarrow> put) \<Rightarrow> generator \<Rightarrow> nat \<Rightarrow> alloc \<Rightarrow> bool \<Rightarrow> nat \<Rightarrow> nat list \<Rightarrow> rngs \<Rightarrow> rand_built" where
  "build_column_random failure put gen width_max malloc join row_count rcs g =
     (case malloc 0 (width_max * row_count) of
        None \<Rightarrow> Some (Inl failure, g)
      | Some (_, bytes) \<Rightarrow>
          if rcs = [] then None
          else do { (b, ptr, spans, g) \<leftarrow> random_rowspans put gen rcs bytes 0 g;
                    Some (Inr \<lparr>co_contents = b, co_spans = map (hook join b) spans, co_length = ptr\<rparr>, g) })"

definition build_column_integer_random :: "rand_choice \<Rightarrow> alloc \<Rightarrow> bool \<Rightarrow> nat \<Rightarrow> nat list \<Rightarrow> rngs \<Rightarrow> rand_built" where
  "build_column_integer_random c = build_column_random BCIR_MALLOC_FAILURE put_int (gen_unbound c) (rc_width_max c)"
definition build_column_integer_random_from :: "rand_choice \<Rightarrow> alloc \<Rightarrow> bool \<Rightarrow> nat \<Rightarrow> nat list \<Rightarrow> rngs \<Rightarrow> rand_built" where
  "build_column_integer_random_from c = build_column_random BCIRF_MALLOC_FAILURE put_int (gen_from c) (rc_width_max c)"
definition build_column_integer_random_upto :: "rand_choice \<Rightarrow> alloc \<Rightarrow> bool \<Rightarrow> nat \<Rightarrow> nat list \<Rightarrow> rngs \<Rightarrow> rand_built" where
  "build_column_integer_random_upto c = build_column_random BCIRU_MALLOC_FAILURE put_int (gen_upto c) (rc_width_max c)"
definition build_column_integer_random_range :: "rand_choice \<Rightarrow> alloc \<Rightarrow> bool \<Rightarrow> nat \<Rightarrow> nat list \<Rightarrow> rngs \<Rightarrow> rand_built" where
  "build_column_integer_random_range c = build_column_random BCIRR_MALLOC_FAILURE put_int (gen_range c) (rc_width_max c)"
definition build_column_u_integer_random :: "rand_choice \<Rightarrow> alloc \<Rightarrow> bool \<Rightarrow> nat \<Rightarrow> nat list \<Rightarrow> rngs \<Rightarrow> rand_built" where
  "build_column_u_integer_random c = build_column_random BCUIR_MALLOC_FAILURE put_uint (gen_unbound c) (rc_width_max c)"
definition build_column_u_integer_random_from :: "rand_choice \<Rightarrow> alloc \<Rightarrow> bool \<Rightarrow> nat \<Rightarrow> nat list \<Rightarrow> rngs \<Rightarrow> rand_built" where
  "build_column_u_integer_random_from c = build_column_random BCUIRF_MALLOC_FAILURE put_uint (gen_from c) (rc_width_max c)"
definition build_column_u_integer_random_upto :: "rand_choice \<Rightarrow> alloc \<Rightarrow> bool \<Rightarrow> nat \<Rightarrow> nat list \<Rightarrow> rngs \<Rightarrow> rand_built" where
  "build_column_u_integer_random_upto c = build_column_random BCUIRU_MALLOC_FAILURE put_uint (gen_upto c) (rc_width_max c)"
definition build_column_u_integer_random_range :: "rand_choice \<Rightarrow> alloc \<Rightarrow> bool \<Rightarrow> nat \<Rightarrow> nat list \<Rightarrow> rngs \<Rightarrow> rand_built" where
  "build_column_u_integer_random_range c = build_column_random BCUIRR_MALLOC_FAILURE put_uint (gen_range c) (rc_width_max c)"

text \<open>The call through \<open>build\<close>, as the specification set it.\<close>

fun build_integer_random :: "rand_build \<Rightarrow> rand_choice \<Rightarrow> alloc \<Rightarrow> bool \<Rightarrow> nat \<Rightarrow> nat list \<Rightarrow> rngs \<Rightarrow> rand_built" where
  "build_integer_random Build_Random = build_column_integer_random"
| "build_integer_random Build_Random_From = build_column_integer_random_from"
| "build_integer_random Build_Random_Upto = build_column_integer_random_upto"
| "build_integer_random Build_Random_Range = build_column_integer_random_range"

fun build_u_integer_random :: "rand_build \<Rightarrow> rand_choice \<Rightarrow> alloc \<Rightarrow> bool \<Rightarrow> nat \<Rightarrow> nat list \<Rightarrow> rngs \<Rightarrow> rand_built" where
  "build_u_integer_random Build_Random = build_column_u_integer_random"
| "build_u_integer_random Build_Random_From = build_column_u_integer_random_from"
| "build_u_integer_random Build_Random_Upto = build_column_u_integer_random_upto"
| "build_u_integer_random Build_Random_Range = build_column_u_integer_random_range"

subsection \<open>One number per group\<close>

text \<open>
  The loop over groups and rowspans, as in the builders of unique groups; \<open>i\<close> is the index of the
  current group.
\<close>

function random_group_loop ::
  "(64 word \<Rightarrow> put) \<Rightarrow> generator \<Rightarrow> nat list \<Rightarrow> nat list \<Rightarrow> nat \<Rightarrow> nat \<Rightarrow> nat \<Rightarrow> nat \<Rightarrow> nat \<Rightarrow> nat \<Rightarrow> bytes \<Rightarrow> nat \<Rightarrow> rngs \<Rightarrow>
    (bytes \<times> nat \<times> spans \<times> rngs) option" where
  "random_group_loop put gen sizes rest cell rem_cells rem_group i width group_string b ptr g =
     (if rem_group < rem_cells then
        do { (b, ptr) \<leftarrow> put_copies copy_digits rem_group width group_string b ptr;
             (b, ptr', g) \<leftarrow> put_random_cell put gen b ptr g;
             size \<leftarrow> load_size sizes (i + 1);
             rem_group' \<leftarrow> step_back size 1;
             random_group_loop put gen sizes rest cell (rem_cells - (rem_group + 1)) rem_group' (i + 1)
               (ptr' - ptr) ptr b ptr' g }
      else
        do { (b, ptr) \<leftarrow> put_copies copy_digits rem_cells width group_string b ptr;
             case rest of
               [] \<Rightarrow> Some (b, ptr, [(cell, ptr - cell)], g)
             | rc # rest \<Rightarrow>
                 do { (b, ptr', spans, g) \<leftarrow>
                        random_group_loop put gen sizes rest ptr rc (rem_group - rem_cells) i width group_string b ptr g;
                      Some (b, ptr', (cell, ptr - cell) # spans, g) } })"
  by pat_completeness auto
termination
  by (relation "measures [\<lambda>(put, gen, sizes, rest, cell, rem_cells, rem_group, i, width, gs, b, ptr, g). length rest,
       \<lambda>(put, gen, sizes, rest, cell, rem_cells, rem_group, i, width, gs, b, ptr, g). rem_cells]") auto

declare random_group_loop.simps [simp del]

text \<open>
  The first cell is written before the first rowspan begins, and \<open>rem_group\<close> begins with the whole
  size of the first group: the block gets one cell more than the column has rows.
\<close>

definition build_column_random_group ::
  "rand_failure \<Rightarrow> (64 word \<Rightarrow> put) \<Rightarrow> generator \<Rightarrow> nat \<Rightarrow> grp_spec \<Rightarrow> alloc \<Rightarrow> bool \<Rightarrow> nat \<Rightarrow> nat list \<Rightarrow> rngs \<Rightarrow> rand_built" where
  "build_column_random_group failure put gen width_max grp malloc join row_count rcs g =
     (case malloc (gs_count grp) (width_max * row_count) of
        None \<Rightarrow> Some (Inl failure, g)
      | Some (sizes, bytes) \<Rightarrow>
          do { (sizes, until) \<leftarrow> gs_partition grp sizes (gs_count grp) row_count;
               group_string \<leftarrow> (if until = gs_count grp then Some 0 else None);
               (b, ptr, g) \<leftarrow> put_random_cell put gen bytes group_string g;
               rem_group \<leftarrow> load_size sizes 0;
               (rc, rest) \<leftarrow> (case rcs of [] \<Rightarrow> None | rc # rest \<Rightarrow> Some (rc, rest));
               (b, ptr', spans, g) \<leftarrow>
                 random_group_loop put gen sizes rest ptr rc rem_group 0 (ptr - group_string) group_string b ptr g;
               Some (Inr \<lparr>co_contents = b, co_spans = map (hook join b) spans, co_length = ptr' - ptr\<rparr>, g) })"

definition build_column_integer_random_group ::
  "rand_choice \<Rightarrow> grp_spec \<Rightarrow> alloc \<Rightarrow> bool \<Rightarrow> nat \<Rightarrow> nat list \<Rightarrow> rngs \<Rightarrow> rand_built" where
  "build_column_integer_random_group c = build_column_random_group BCIR_GROUP_MALLOC_FAILURE put_int (gen_unbound c) (rc_width_max c)"
definition build_column_integer_random_from_group ::
  "rand_choice \<Rightarrow> grp_spec \<Rightarrow> alloc \<Rightarrow> bool \<Rightarrow> nat \<Rightarrow> nat list \<Rightarrow> rngs \<Rightarrow> rand_built" where
  "build_column_integer_random_from_group c = build_column_random_group BCIRF_GROUP_MALLOC_FAILURE put_int (gen_from c) (rc_width_max c)"
definition build_column_integer_random_upto_group ::
  "rand_choice \<Rightarrow> grp_spec \<Rightarrow> alloc \<Rightarrow> bool \<Rightarrow> nat \<Rightarrow> nat list \<Rightarrow> rngs \<Rightarrow> rand_built" where
  "build_column_integer_random_upto_group c = build_column_random_group BCIRU_GROUP_MALLOC_FAILURE put_int (gen_upto c) (rc_width_max c)"
definition build_column_integer_random_range_group ::
  "rand_choice \<Rightarrow> grp_spec \<Rightarrow> alloc \<Rightarrow> bool \<Rightarrow> nat \<Rightarrow> nat list \<Rightarrow> rngs \<Rightarrow> rand_built" where
  "build_column_integer_random_range_group c = build_column_random_group BCIRR_GROUP_MALLOC_FAILURE put_int (gen_range c) (rc_width_max c)"
definition build_column_u_integer_random_group ::
  "rand_choice \<Rightarrow> grp_spec \<Rightarrow> alloc \<Rightarrow> bool \<Rightarrow> nat \<Rightarrow> nat list \<Rightarrow> rngs \<Rightarrow> rand_built" where
  "build_column_u_integer_random_group c = build_column_random_group BCUIR_GROUP_MALLOC_FAILURE put_uint (gen_unbound c) (rc_width_max c)"
definition build_column_u_integer_random_from_group ::
  "rand_choice \<Rightarrow> grp_spec \<Rightarrow> alloc \<Rightarrow> bool \<Rightarrow> nat \<Rightarrow> nat list \<Rightarrow> rngs \<Rightarrow> rand_built" where
  "build_column_u_integer_random_from_group c = build_column_random_group BCUIRF_GROUP_MALLOC_FAILURE put_uint (gen_from c) (rc_width_max c)"
definition build_column_u_integer_random_upto_group ::
  "rand_choice \<Rightarrow> grp_spec \<Rightarrow> alloc \<Rightarrow> bool \<Rightarrow> nat \<Rightarrow> nat list \<Rightarrow> rngs \<Rightarrow> rand_built" where
  "build_column_u_integer_random_upto_group c = build_column_random_group BCUIRU_GROUP_MALLOC_FAILURE put_uint (gen_upto c) (rc_width_max c)"
definition build_column_u_integer_random_range_group ::
  "rand_choice \<Rightarrow> grp_spec \<Rightarrow> alloc \<Rightarrow> bool \<Rightarrow> nat \<Rightarrow> nat list \<Rightarrow> rngs \<Rightarrow> rand_built" where
  "build_column_u_integer_random_range_group c = build_column_random_group BCUIRR_GROUP_MALLOC_FAILURE put_uint (gen_range c) (rc_width_max c)"

section \<open>The numbers that are drawn\<close>

fun draws :: "generator \<Rightarrow> nat \<Rightarrow> rngs \<Rightarrow> (64 word list \<times> rngs) option" where
  "draws gen 0 g = Some ([], g)"
| "draws gen (Suc n) g = do { (v, g) \<leftarrow> gen g; (vs, g) \<leftarrow> draws gen n g; Some (v # vs, g) }"

lemma length_draws: "draws gen n g = Some (vs, g') \<Longrightarrow> length vs = n"
  by (induction n arbitrary: g vs) (auto split: bind_splits)

lemma draws_add:
  "draws gen (m + n) g = do { (vs, g) \<leftarrow> draws gen m g; (ws, g) \<leftarrow> draws gen n g; Some (vs @ ws, g) }"
  by (induction m arbitrary: g) (auto split: bind_splits)

lemma draws_all:
  assumes "\<And>g v g'. gen g = Some (v, g') \<Longrightarrow> P v" "draws gen n g = Some (vs, g')"
  shows "\<forall>v \<in> set vs. P v"
  using assms(2)
proof (induction n arbitrary: g vs)
  case (Suc n)
  then show ?case using assms(1) by (fastforce split: bind_splits)
qed simp

lemma put_random_cell_eq:
  assumes "gen g = Some (v, g')" "writes (put v) s" "length old = Suc (length s)"
  shows "put_random_cell put gen (xs @ old @ ys) (length xs) g =
    Some (xs @ (s @ [NUL]) @ ys, length xs + Suc (length s), g')"
proof -
  obtain o1 o2 where o: "old = o1 @ [o2]" "length o1 = length s"
    using assms(3) by (metis length_Suc_conv_rev)
  show ?thesis
    using writesD [OF assms(2) o(2) refl, of xs "o2 # ys"] assms(1) o
      store_append [of "xs @ s" o2 ys NUL]
    by (simp add: put_random_cell_def)
qed


lemma random_cells_eq:
  assumes "draws gen (Suc n) g = Some (vs, g')" "\<forall>v \<in> set vs. writes (put v) (text v)"
    and "length old = length (terminated (map text vs))"
  shows "random_cells put gen (Suc n) (xs @ old @ ys) (length xs) g =
    Some (xs @ terminated (map text vs) @ ys, length xs + length (terminated (map text vs)), g')"
  using assms
proof (induction n arbitrary: g vs xs old)
  case 0
  then obtain v where v: "gen g = Some (v, g')" "vs = [v]" by (auto split: bind_splits)
  then show ?case using 0 put_random_cell_eq [of gen g v g' put "text v" old xs ys] by simp
next
  case (Suc n)
  then obtain v g1 ws where v: "gen g = Some (v, g1)" "draws gen (Suc n) g1 = Some (ws, g')" "vs = v # ws"
    by (auto split: bind_splits)
  have w: "writes (put v) (text v)" "\<forall>v \<in> set ws. writes (put v) (text v)" using Suc.prems(2) v(3) by simp_all
  have "length old = Suc (length (text v)) + length (terminated (map text ws))" using Suc.prems(3) v(3) by simp
  then obtain o1 o2 where o: "old = o1 @ o2" "length o1 = Suc (length (text v))"
    "length o2 = length (terminated (map text ws))" by (rule split_length)
  have 1: "put_random_cell put gen (xs @ o1 @ o2 @ ys) (length xs) g =
      Some (xs @ (text v @ [NUL]) @ o2 @ ys, length xs + Suc (length (text v)), g1)"
    using put_random_cell_eq [of gen g v g1 put "text v" o1 xs "o2 @ ys", OF v(1) w(1) o(2)] .
  have 2: "random_cells put gen (Suc n) ((xs @ text v @ [NUL]) @ o2 @ ys) (length (xs @ text v @ [NUL])) g1 =
      Some ((xs @ text v @ [NUL]) @ terminated (map text ws) @ ys,
        length (xs @ text v @ [NUL]) + length (terminated (map text ws)), g')"
    using v(2) w(2) o(3) by (rule Suc.IH)
  show ?case using 1 2 by (subst random_cells.simps) (simp add: o(1) v(3) add.assoc)
qed

lemma random_rowspans_eq:
  assumes "draws gen (sum_list rcs) g = Some (vs, g')" "\<forall>v \<in> set vs. writes (put v) (text v)"
    and "\<forall>rc \<in> set rcs. 0 < rc" "length old = length (terminated (map text vs))"
  shows "random_rowspans put gen rcs (xs @ old @ ys) (length xs) g =
    Some (xs @ terminated (map text vs) @ ys, length xs + length (terminated (map text vs)),
      spans_from (length xs) rcs (map text vs), g')"
  using assms
proof (induction rcs arbitrary: g vs xs old)
  case (Cons rc rcs)
  then obtain vs1 g1 vs2 where d: "draws gen rc g = Some (vs1, g1)" "draws gen (sum_list rcs) g1 = Some (vs2, g')"
    "vs = vs1 @ vs2" by (auto simp: draws_add split: bind_splits)
  have n: "length vs1 = rc" using length_draws [OF d(1)] .
  obtain k where k: "rc = Suc k" using Cons.prems(3) by (cases rc) auto
  let ?t1 = "terminated (map text vs1)" and ?t2 = "terminated (map text vs2)"
  have "length old = length ?t1 + length ?t2" using Cons.prems(4) d(3) by simp
  then obtain o1 o2 where o: "old = o1 @ o2" "length o1 = length ?t1" "length o2 = length ?t2" by (rule split_length)
  have 1: "random_cells put gen rc (xs @ o1 @ o2 @ ys) (length xs) g =
      Some (xs @ ?t1 @ o2 @ ys, length xs + length ?t1, g1)"
    using d(1) Cons.prems(2) d(3) o(2) unfolding k by (intro random_cells_eq) simp_all
  have 2: "random_rowspans put gen rcs ((xs @ ?t1) @ o2 @ ys) (length (xs @ ?t1)) g1 =
      Some ((xs @ ?t1) @ ?t2 @ ys, length (xs @ ?t1) + length ?t2, spans_from (length (xs @ ?t1)) rcs (map text vs2), g')"
    using Cons.prems(2,3) d o(3) by (intro Cons.IH) simp_all
  show ?case using 1 2 n by (simp add: o(1) d(3) step_back_def take_map drop_map)
qed simp

text \<open>Cells no wider than the width fit the block.\<close>

lemma terminated_width:
  assumes "\<forall>v \<in> set vs. length (text v) < w"
  shows "length (terminated (map text vs)) \<le> w * length vs"
  using assms by (induction vs) (auto simp: add_mono)

lemma build_column_random_lays_out:
  assumes d: "draws gen row_count g = Some (vs, g')" and t: "\<forall>v \<in> set vs. writes (put v) (text v)"
    and nul: "\<forall>v \<in> set vs. NUL \<notin> set (text v)" and w: "\<forall>v \<in> set vs. length (text v) < width_max"
    and a: "allocates malloc" and rows: "rcs \<noteq> []" "\<forall>rc \<in> set rcs. 0 < rc" "row_count = sum_list rcs"
  shows "\<exists>co. build_column_random failure put gen width_max malloc join row_count rcs g = Some (Inr co, g') \<and>
    lays_out co join rcs (map text vs)"
proof -
  let ?t = "terminated (map text vs)"
  obtain sizes bytes where m: "malloc 0 (width_max * row_count) = Some (sizes, bytes)" "length bytes = width_max * row_count"
    using a by (rule allocatesE)
  have n: "length vs = row_count" using length_draws [OF d] .
  have "length bytes = length ?t + (length bytes - length ?t)" using terminated_width [OF w] m(2) n by simp
  then obtain old ys where b: "bytes = old @ ys" "length old = length ?t" by (rule split_length)
  have "random_rowspans put gen rcs ([] @ old @ ys) (length ([] :: bytes)) g =
      Some ([] @ ?t @ ys, length ([] :: bytes) + length ?t, spans_from (length ([] :: bytes)) rcs (map text vs), g')"
    using d t rows(2) b(2) unfolding rows(3) by (intro random_rowspans_eq) simp_all
  moreover have "lays_out \<lparr>co_contents = ?t @ ys,
      co_spans = map (hook join (?t @ ys)) (spans_from (length ([] :: bytes)) rcs (map text vs)),
      co_length = length ?t\<rparr> join rcs (map text vs)"
    using nul n rows(3) by (intro lays_out_hook [of _ _ _ ys]) auto
  ultimately show ?thesis
    using m(1) rows(1) b(1) by (simp add: build_column_random_def)
qed


section \<open>Random columns\<close>

text \<open>The union member a builder calls is the one the specification filled in.\<close>

fun gen_of :: "rand_build \<Rightarrow> rand_choice \<Rightarrow> generator" where
  "gen_of Build_Random = gen_unbound"
| "gen_of Build_Random_From = gen_from"
| "gen_of Build_Random_Upto = gen_upto"
| "gen_of Build_Random_Range = gen_range"

lemmas gen_members = gen_unbound_def gen_from_def gen_upto_def gen_range_def

lemmas rand_assigns =
  assign_integer_random_from_def assign_integer_random_upto_def assign_integer_random_range_def
  assign_u_integer_random_from_def assign_u_integer_random_upto_def assign_u_integer_random_range_def

lemma gen_of_call:
  "rc_gen c = Gen_Unbound f \<Longrightarrow> gen_of Build_Random c = rand_gen_call (rc_gen c)"
  "rc_gen c = Gen_Offset p h \<Longrightarrow> gen_of Build_Random_From c = rand_gen_call (rc_gen c)"
  "rc_gen c = Gen_Bound q k \<Longrightarrow> gen_of Build_Random_Upto c = rand_gen_call (rc_gen c)"
  "rc_gen c = Gen_Offset p h \<Longrightarrow> gen_of Build_Random_Range c = rand_gen_call (rc_gen c)"
  by (simp_all add: gen_members fun_eq_iff)

lemma assigned_members:
  "assign_integer_random_from f = Some c \<Longrightarrow> \<exists>p h. rc_gen c = Gen_Offset p h"
  "assign_integer_random_upto m = Some c \<Longrightarrow> \<exists>p h. rc_gen c = Gen_Bound p h"
  "assign_integer_random_range l g d = Some c \<Longrightarrow> \<exists>p h. rc_gen c = Gen_Offset p h"
  "assign_u_integer_random_from f = Some c \<Longrightarrow> \<exists>p h. rc_gen c = Gen_Offset p h"
  "assign_u_integer_random_upto m = Some c \<Longrightarrow> \<exists>p h. rc_gen c = Gen_Bound p h"
  "assign_u_integer_random_range l g d = Some c \<Longrightarrow> \<exists>p h. rc_gen c = Gen_Offset p h"
  by (auto simp: rand_assigns choice_def Let_def split: bind_splits if_splits)

lemma unbound_members [simp]:
  "rc_gen unbound_i_32 = Gen_Unbound generate_i_32" "rc_gen unbound_i_64 = Gen_Unbound generate_i_64"
  "rc_gen unbound_u_32 = Gen_Unbound generate_u_32" "rc_gen unbound_u_64 = Gen_Unbound generate_u_64"
  by (simp_all add: unbound_i_32_def unbound_i_64_def unbound_u_32_def unbound_u_64_def choice_def)

lemmas specifications =
  column_integer_random_default_def column_integer_random_from_def column_integer_random_upto_def
  column_integer_random_range_def column_u_integer_random_default_def column_u_integer_random_from_def
  column_u_integer_random_upto_def column_u_integer_random_range_def

lemma specified_gen:
  assumes "column_integer_random s = Some (c, b)"
  shows "gen_of b c = rand_gen_call (rc_gen c)"
  using assms by (cases s) (auto simp: specifications chosen_def Let_def gen_of_call simp del: gen_of.simps
      dest!: assigned_members split: if_splits)

lemma specified_u_gen:
  assumes "column_u_integer_random s = Some (c, b)"
  shows "gen_of b c = rand_gen_call (rc_gen c)"
  using assms by (cases s) (auto simp: specifications chosen_def Let_def gen_of_call simp del: gen_of.simps
      dest!: assigned_members split: if_splits)

lemma decimal_int_NUL [simp]: "NUL \<notin> set (decimal_int i)"
  by (simp add: decimal_int_def)

lemma build_integer_random_member:
  "\<exists>failure. build_integer_random b c = build_column_random failure put_int (gen_of b c) (rc_width_max c)"
  "\<exists>failure. build_u_integer_random b c = build_column_random failure put_uint (gen_of b c) (rc_width_max c)"
  by (cases b; force simp: build_column_integer_random_def build_column_integer_random_from_def
      build_column_integer_random_upto_def build_column_integer_random_range_def build_column_u_integer_random_def
      build_column_u_integer_random_from_def build_column_u_integer_random_upto_def
      build_column_u_integer_random_range_def)+

text \<open>Ranges of one value, from every state of the generators.\<close>

lemma bound32_one: "\<exists>g'. bound32 0 1 g = Some (0, g')"
proof -
  obtain r rng where "random_above pcg32_random_r 0 (glob_rng32 g) = Some (r, rng)"
    by (cases "pcg32_random_r (glob_rng32 g)") (simp add: random_above.simps)
  then show ?thesis by (simp add: bound32_def random_uint32_bound_def Random_Numbers.random_bound_def)
qed

definition one_u :: "64 word \<Rightarrow> rand_choice" where
  "one_u v = choice type_set_int_unsigned 10 11 RAND_32_CTOR_FLAG
     (Gen_Offset (Bound32 0 1, Offset32 (ucast v)) generate_u_bound_32_offset_32)"

definition one_i :: "64 word \<Rightarrow> rand_choice" where
  "one_i v = choice type_set_int 11 12 RAND_32_CTOR_FLAG
     (Gen_Offset (Bound32 0 1, Offset32 (ucast v)) generate_i_bound_32_offset_32)"

lemma one_u_drawn: "\<exists>g'. rand_gen_call (rc_gen (one_u v)) g = Some (ucast (ucast v :: 32 word), g')"
  using bound32_one [of g] by (auto simp: one_u_def choice_def gen_simps)

lemma one_i_drawn: "\<exists>g'. rand_gen_call (rc_gen (one_i v)) g = Some (scast (ucast v :: 32 word), g')"
  using bound32_one [of g] by (auto simp: one_i_def choice_def gen_simps)

lemma one_u_chosen: "column_u_integer_random (Scale_Range v v) = Some (one_u v, Build_Random_Range)" if "uint v \<le> 4294967295"
  using that by (simp add: column_u_integer_random_range_def assign_u_integer_random_range_def params32_def RANDOM_THRESHOLD_def
      chosen_def one_u_def)

lemma one_i_chosen: "column_integer_random (Scale_Range 7 7) = Some (one_i 7, Build_Random_Range)"
  by (simp add: column_integer_random_range_def assign_integer_random_range_def params32_def RANDOM_THRESHOLD_def
      chosen_def one_i_def)

text \<open>
  C25: A random signed column without groups. When the draws return, the builder succeeds and stays in
  its block, and the column holds the texts of the numbers drawn, one per row and in order; all of them
  are in the range the specification asks for, and are values of the SQL type it declares for the
  column. Left out are the ranges of \<open>2 ^ 32\<close> values that do not begin at the least \<open>INT\<close>, which the
  specification misreads (\<open>misread_range\<close>), those for which it divides by zero (no value), and runs
  that draw \<open>INTMAX_MIN\<close>, which \<open>put_int\<close> does not print.
\<close>

theorem integer_random_column:
  assumes spec: "column_integer_random s = Some (c, b)" "fst (scale_values s) \<le> snd (scale_values s)"
      "\<not> misread_range (- 2147483648) s sint"
    and drawn: "draws (rand_gen_call (rc_gen c)) (sum_list rcs) g = Some (vs, g')" "INTMAX_MIN \<notin> set vs"
    and table: "allocates malloc" "rcs \<noteq> []" "\<forall>rc \<in> set rcs. 0 < rc"
  shows "(\<exists>co. build_integer_random b c malloc join (sum_list rcs) rcs g = Some (Inr co, g') \<and>
      lays_out co join rcs (map (\<lambda>v. decimal_int (sint v)) vs)) \<and>
    (\<forall>v \<in> set vs. fst (scale_values s) \<le> sint v \<and> sint v \<le> snd (scale_values s) \<and> fits_type (rc_type c) (sint v))"
proof -
  have w: "draws_within sint c (fst (scale_values s)) (snd (scale_values s))"
    using spec by (rule integer_random_values_in_range)
  have r: "\<forall>v \<in> set vs. fst (scale_values s) \<le> sint v \<and> sint v \<le> snd (scale_values s) \<and> fits_type (rc_type c) (sint v) \<and>
      length (decimal_int (sint v)) < rc_width_max c"
    using w drawn(1) unfolding draws_within_def by (intro draws_all [where gen = "rand_gen_call (rc_gen c)"]) blast+
  obtain failure where "build_integer_random b c =
      build_column_random failure put_int (rand_gen_call (rc_gen c)) (rc_width_max c)"
    using build_integer_random_member(1) [of b c] specified_gen [OF spec(1)] by auto
  moreover have "\<forall>v \<in> set vs. writes (put_int v) (decimal_int (sint v))"
    using drawn(2) by (auto intro!: writes_put_int)
  ultimately show ?thesis
    using build_column_random_lays_out [OF drawn(1), of put_int "\<lambda>v. decimal_int (sint v)" "rc_width_max c" malloc rcs]
      r table by auto
qed

theorem integer_random_column_witness:
  "\<forall>g. \<exists>co g'. build_integer_random Build_Random_Range (one_i 7) zero_alloc False 2 [1, 1] g = Some (Inr co, g') \<and>
    lays_out co False [1, 1] [''7'', ''7'']"
proof
  fix g
  have v: "scast (ucast (7 :: 64 word) :: 32 word) = (7 :: 64 word)" by simp
  obtain g1 where 1: "rand_gen_call (rc_gen (one_i 7)) g = Some (7, g1)" using one_i_drawn [of 7 g] unfolding v by blast
  obtain g2 where 2: "rand_gen_call (rc_gen (one_i 7)) g1 = Some (7, g2)" using one_i_drawn [of 7 g1] unfolding v by blast
  have d: "draws (rand_gen_call (rc_gen (one_i 7))) (sum_list [1, 1]) g = Some ([7, 7], g2)"
    using 1 2 by (simp add: numeral_2_eq_2)
  have t: "decimal_int (sint (7 :: 64 word)) = ''7''"
    by (simp add: decimal_int_def decimal_small digit_simps)
  have m: "INTMAX_MIN \<notin> set [7, 7]" by (simp add: INTMAX_MIN_def)
  show "\<exists>co g'. build_integer_random Build_Random_Range (one_i 7) zero_alloc False 2 [1, 1] g = Some (Inr co, g') \<and>
    lays_out co False [1, 1] [''7'', ''7'']"
    using integer_random_column [OF one_i_chosen _ _ d m zero_alloc_allocates, where join = False] t
    by (auto simp: numeral_2_eq_2)
qed

text \<open>The same for a random unsigned column, without an exception for a value.\<close>

theorem u_integer_random_column:
  assumes spec: "column_u_integer_random s = Some (c, b)" "fst (u_scale_values s) \<le> snd (u_scale_values s)"
      "\<not> misread_range 0 s uint"
    and drawn: "draws (rand_gen_call (rc_gen c)) (sum_list rcs) g = Some (vs, g')"
    and table: "allocates malloc" "rcs \<noteq> []" "\<forall>rc \<in> set rcs. 0 < rc"
  shows "(\<exists>co. build_u_integer_random b c malloc join (sum_list rcs) rcs g = Some (Inr co, g') \<and>
      lays_out co join rcs (map (\<lambda>v. decimal (unat v)) vs)) \<and>
    (\<forall>v \<in> set vs. fst (u_scale_values s) \<le> uint v \<and> uint v \<le> snd (u_scale_values s) \<and> fits_type (rc_type c) (uint v))"
proof -
  have w: "draws_within uint c (fst (u_scale_values s)) (snd (u_scale_values s))"
    using spec by (rule u_integer_random_values_in_range)
  have t: "decimal_int (uint v) = decimal (unat v)" for v :: "64 word" by (simp add: decimal_int_def)
  have r: "\<forall>v \<in> set vs. fst (u_scale_values s) \<le> uint v \<and> uint v \<le> snd (u_scale_values s) \<and> fits_type (rc_type c) (uint v) \<and>
      length (decimal (unat v)) < rc_width_max c"
    using w drawn(1) unfolding draws_within_def t by (intro draws_all [where gen = "rand_gen_call (rc_gen c)"]) blast+
  obtain failure where "build_u_integer_random b c =
      build_column_random failure put_uint (rand_gen_call (rc_gen c)) (rc_width_max c)"
    using build_integer_random_member(2) [of b c] specified_u_gen [OF spec(1)] by auto
  then show ?thesis
    using build_column_random_lays_out [OF drawn(1), of put_uint "\<lambda>v. decimal (unat v)" "rc_width_max c" malloc rcs]
      r table by (auto simp: writes_put_uint)
qed


theorem u_integer_random_column_witness:
  "\<forall>g. \<exists>co g'. build_u_integer_random Build_Random_Range (one_u 7) zero_alloc True 1 [1] g = Some (Inr co, g') \<and>
    lays_out co True [1] [''7'']"
proof
  fix g
  have v: "ucast (ucast (7 :: 64 word) :: 32 word) = (7 :: 64 word)" by simp
  obtain g1 where 1: "rand_gen_call (rc_gen (one_u 7)) g = Some (7, g1)" using one_u_drawn [of 7 g] unfolding v by blast
  have d: "draws (rand_gen_call (rc_gen (one_u 7))) (sum_list [1]) g = Some ([7], g1)" using 1 by simp
  have t: "decimal (unat (7 :: 64 word)) = ''7''" by (simp add: decimal_small digit_simps)
  show "\<exists>co g'. build_u_integer_random Build_Random_Range (one_u 7) zero_alloc True 1 [1] g = Some (Inr co, g') \<and>
    lays_out co True [1] [''7'']"
    using u_integer_random_column [OF one_u_chosen _ _ d, where malloc = zero_alloc and join = True] t
    by (auto simp: zero_alloc_allocates)
qed

end
