(* ===== verification/Name_Columns.thy ===== *)
theory Name_Columns
  imports Random_Spec Columns
begin

text \<open>
  Columns of names, \<open>src/generate/column_string_names.c\<close> and \<open>.h\<close>: the tables of first and last names,
  the sampling of a name, the full names with their optional middle name or initial, and the six
  builders. \<open>glob_rng32\<close> is the state that is passed through. The names of a group are copied with a
  routine of a fixed width, full names with a closure over the first copy of the group.
\<close>

section \<open>The tables\<close>

text \<open>\<open>struct Stub\<close>: the bytes of a string literal, with its terminator, and its width.\<close>

record stub =
  st_bytes :: bytes
  st_width :: nat

definition STUB :: "string \<Rightarrow> stub" where
  "STUB s = \<lparr>st_bytes = s @ [NUL], st_width = length (s @ [NUL]) - 1\<rparr>"

definition put_stub :: "stub \<Rightarrow> put" where
  "put_stub stub b ptr = put_string_width (st_bytes stub) 0 (st_width stub) b ptr"

definition put_stub_stop :: "stub \<Rightarrow> put" where
  "put_stub_stop stub b ptr = put_string_stop_width (st_bytes stub) 0 (st_width stub) b ptr"

definition first_names :: "stub list" where
  "first_names = map STUB [
    ''Aaron'', ''Abigail'', ''Adam'', ''Alan'', ''Albert'', ''Alexander'', ''Alice'', ''Amanda'', ''Amber'',
     ''Amy'', ''Andrea'', ''Andrew'', ''Angela'', ''Ann'', ''Anna'', ''Anthony'', ''Arthur'', ''Ashley'',
     ''Austin'', ''Barbara'', ''Benjamin'', ''Betty'', ''Beverly'', ''Billy'', ''Bobby'', ''Brandon'',
     ''Brenda'', ''Brian'', ''Brittany'', ''Bruce'', ''Bryan'', ''Carl'', ''Carol'', ''Carolyn'',
     ''Catherine'', ''Charles'', ''Cheryl'', ''Christian'', ''Christina'', ''Christine'', ''Christopher'',
     ''Cynthia'', ''Daniel'', ''Danielle'', ''David'', ''Deborah'', ''Debra'', ''Denise'', ''Dennis'',
     ''Diana'', ''Diane'', ''Donald'', ''Donna'', ''Doris'', ''Dorothy'', ''Douglas'', ''Dylan'', ''Edward'',
     ''Elizabeth'', ''Emily'', ''Emma'', ''Eric'', ''Ethan'', ''Eugene'', ''Evelyn'', ''Frances'', ''Frank'',
     ''Gabriel'', ''Gary'', ''George'', ''Gerald'', ''Gloria'', ''Grace'', ''Gregory'', ''Hannah'',
     ''Harold'', ''Harry'', ''Heather'', ''Helen'', ''Henry'', ''Howard'', ''Jack'', ''Jacob'',
     ''Jacqueline'', ''James'', ''Jane'', ''Janet'', ''Janice'', ''Jason'', ''Jean'', ''Jeffrey'',
     ''Jennifer'', ''Jeremy'', ''Jerry'', ''Jesse'', ''Jessica'', ''Joan'', ''Joe'', ''John'', ''Johnny'',
     ''Jonathan'', ''Jordan'', ''Jose'', ''Joseph'', ''Joshua'', ''Joyce'', ''Juan'', ''Judith'', ''Judy'',
     ''Julia'', ''Julie'', ''Justin'', ''Karen'', ''Katherine'', ''Kathleen'', ''Kathryn'', ''Kathy'',
     ''Keith'', ''Kelly'', ''Kenneth'', ''Kevin'', ''Kimberly'', ''Kyle'', ''Larry'', ''Laura'', ''Lauren'',
     ''Lawrence'', ''Linda'', ''Lisa'', ''Lori'', ''Louis'', ''Madison'', ''Margaret'', ''Maria'', ''Marie'',
     ''Marilyn'', ''Mark'', ''Martha'', ''Mary'', ''Matthew'', ''Megan'', ''Melissa'', ''Michael'',
     ''Michelle'', ''Mildred'', ''Nancy'', ''Natalie'', ''Nathan'', ''Nicholas'', ''Nicole'', ''Noah'',
     ''Olivia'', ''Pamela'', ''Patricia'', ''Patrick'', ''Paul'', ''Peter'', ''Philip'', ''Rachel'',
     ''Ralph'', ''Randy'', ''Raymond'', ''Rebecca'', ''Richard'', ''Robert'', ''Roger'', ''Ronald'',
     ''Rose'', ''Roy'', ''Russell'', ''Ruth'', ''Ryan'', ''Samantha'', ''Samuel'', ''Sandra'', ''Sara'',
     ''Sarah'', ''Scott'', ''Sean'', ''Sharon'', ''Shirley'', ''Stephanie'', ''Stephen'', ''Steven'',
     ''Susan'', ''Teresa'', ''Terry'', ''Theresa'', ''Thomas'', ''Tiffany'', ''Timothy'', ''Tyler'',
     ''Victoria'', ''Vincent'', ''Virginia'', ''Walter'', ''Wayne'', ''William'', ''Willie'', ''Zachary'']"

definition last_names :: "stub list" where
  "last_names = map STUB [
    ''Adams'', ''Alexander'', ''Allen'', ''Anderson'', ''Andrews'', ''Armstrong'', ''Arnold'', ''Austin'',
     ''Bailey'', ''Baker'', ''Barnes'', ''Bell'', ''Bennett'', ''Berry'', ''Black'', ''Boyd'', ''Bradley'',
     ''Brooks'', ''Brown'', ''Bryant'', ''Burns'', ''Butler'', ''Campbell'', ''Carpenter'', ''Carroll'',
     ''Carter'', ''Chavez'', ''Clark'', ''Cole'', ''Coleman'', ''Collins'', ''Cook'', ''Cooper'', ''Cox'',
     ''Crawford'', ''Cruz'', ''Cunningham'', ''Daniels'', ''Davis'', ''Diaz'', ''Dixon'', ''Duncan'',
     ''Dunn'', ''Edwards'', ''Elliott'', ''Ellis'', ''Evans'', ''Ferguson'', ''Fisher'', ''Flores'',
     ''Ford'', ''Foster'', ''Fox'', ''Franklin'', ''Freeman'', ''Garcia'', ''Gardner'', ''Gibson'',
     ''Gomez'', ''Gonzales'', ''Gonzalez'', ''Gordon'', ''Graham'', ''Grant'', ''Gray'', ''Green'',
     ''Greene'', ''Griffin'', ''Hall'', ''Hamilton'', ''Harper'', ''Harris'', ''Harrison'', ''Hart'',
     ''Hawkins'', ''Hayes'', ''Henderson'', ''Henry'', ''Hernandez'', ''Hicks'', ''Hill'', ''Holmes'',
     ''Howard'', ''Hudson'', ''Hughes'', ''Hunt'', ''Hunter'', ''Jackson'', ''James'', ''Jenkins'',
     ''Johnson'', ''Jones'', ''Jordan'', ''Kelley'', ''Kelly'', ''Kennedy'', ''King'', ''Knight'', ''Lane'',
     ''Lawrence'', ''Lawson'', ''Lee'', ''Lewis'', ''Long'', ''Lopez'', ''Marshall'', ''Martin'',
     ''Martinez'', ''Mason'', ''Matthews'', ''Mcdonald'', ''Miller'', ''Mills'', ''Mitchell'', ''Moore'',
     ''Morales'', ''Morgan'', ''Morris'', ''Murphy'', ''Murray'', ''Myers'', ''Nelson'', ''Nichols'',
     ''Olson'', ''Ortiz'', ''Owens'', ''Palmer'', ''Parker'', ''Patterson'', ''Payne'', ''Perez'',
     ''Perkins'', ''Perry'', ''Peters'', ''Peterson'', ''Phillips'', ''Pierce'', ''Porter'', ''Powell'',
     ''Price'', ''Ramirez'', ''Ramos'', ''Ray'', ''Reed'', ''Reyes'', ''Reynolds'', ''Rice'', ''Richardson'',
     ''Riley'', ''Rivera'', ''Roberts'', ''Robertson'', ''Robinson'', ''Rodriguez'', ''Rogers'', ''Rose'',
     ''Ross'', ''Ruiz'', ''Russell'', ''Sanchez'', ''Sanders'', ''Scott'', ''Shaw'', ''Simmons'',
     ''Simpson'', ''Sims'', ''Smith'', ''Snyder'', ''Spencer'', ''Stephens'', ''Stevens'', ''Stewart'',
     ''Stone'', ''Sullivan'', ''Taylor'', ''Thomas'', ''Thompson'', ''Torres'', ''Tucker'', ''Turner'',
     ''Wagner'', ''Walker'', ''Wallace'', ''Ward'', ''Warren'', ''Washington'', ''Watkins'', ''Watson'',
     ''Weaver'', ''Webb'', ''Wells'', ''West'', ''White'', ''Williams'', ''Willis'', ''Wilson'', ''Wood'',
     ''Woods'', ''Wright'', ''Young'']"

definition FIRST_NAMES_COUNT :: "64 word" where "FIRST_NAMES_COUNT = 200"
definition LAST_NAMES_COUNT :: "64 word" where "LAST_NAMES_COUNT = 200"
definition FIRST_NAME_SIZE_MAX :: nat where "FIRST_NAME_SIZE_MAX = 12"
definition LAST_NAME_SIZE_MAX :: nat where "LAST_NAME_SIZE_MAX = 11"
definition FULL_NAME_SIZE_MAX :: nat where "FULL_NAME_SIZE_MAX = 37"
definition FIRST_NAME_LENGTH_MAX :: nat where "FIRST_NAME_LENGTH_MAX = 11"
definition LAST_NAME_LENGTH_MAX :: nat where "LAST_NAME_LENGTH_MAX = 10"
definition FULL_NAME_LENGTH_MAX :: nat where "FULL_NAME_LENGTH_MAX = 36"

text \<open>
  \<open>struct NameMap\<close>. The counts are of type \<open>unsigned long\<close>, so \<open>RANDOM_THRESHOLD\<close> is computed with 64
  bits, and the initializers of the 32-bit members convert it.
\<close>

record name_map =
  nm_names :: "stub list"
  nm_threshold :: "32 word"
  nm_span :: "32 word"

definition first_name_map :: name_map where
  "first_name_map =
     \<lparr>nm_names = first_names, nm_threshold = ucast (- FIRST_NAMES_COUNT mod FIRST_NAMES_COUNT),
      nm_span = ucast FIRST_NAMES_COUNT\<rparr>"

definition last_name_map :: name_map where
  "last_name_map =
     \<lparr>nm_names = last_names, nm_threshold = ucast (- LAST_NAMES_COUNT mod LAST_NAMES_COUNT),
      nm_span = ucast LAST_NAMES_COUNT\<rparr>"

section \<open>Drawing and writing names\<close>

type_synonym random_put = "bytes \<Rightarrow> nat \<Rightarrow> rngs \<Rightarrow> (bytes \<times> nat \<times> rngs) option"

definition coin_flip :: "rngs \<Rightarrow> bool \<times> rngs" where
  "coin_flip g = (let (r, g) = draw_u32 g in (r AND 1 \<noteq> 0, g))"

definition put_random_initial :: random_put where
  "put_random_initial b ptr g =
     do { threshold \<leftarrow> RANDOM_THRESHOLD 26;
          (r, g) \<leftarrow> random_int32_bound_32_offset_32 threshold 26 (of_nat (of_char (CHR ''A''))) g;
          b \<leftarrow> store b ptr (char_of (unat r));
          Some (b, ptr + 1, g) }"

text \<open>An index past the end of the table is undefined.\<close>

definition name_map_sample :: "name_map \<Rightarrow> rngs \<Rightarrow> (stub \<times> rngs) option" where
  "name_map_sample nm g =
     do { (i, g) \<leftarrow> bound32 (nm_threshold nm) (nm_span nm) g;
          if unat i < length (nm_names nm) then Some (nm_names nm ! unat i, g) else None }"

definition put_sample :: "(stub \<Rightarrow> put) \<Rightarrow> name_map \<Rightarrow> random_put" where
  "put_sample put nm b ptr g =
     do { (name, g) \<leftarrow> name_map_sample nm g; (b, ptr) \<leftarrow> put name b ptr; Some (b, ptr, g) }"

definition put_space :: random_put where
  "put_space b ptr g = do { b \<leftarrow> store b ptr (CHR '' ''); Some (b, ptr + 1, g) }"

definition put_middle :: random_put where
  "put_middle b ptr g =
     (let (initial, g) = coin_flip g
      in if initial then put_random_initial b ptr g else put_sample put_stub first_name_map b ptr g)"

definition put_full_name :: random_put where
  "put_full_name b ptr g =
     do { (b, ptr, g) \<leftarrow> put_sample put_stub first_name_map b ptr g;
          (b, ptr, g) \<leftarrow> put_space b ptr g;
          let (middle, g) = coin_flip g;
          (b, ptr, g) \<leftarrow>
            (if middle then do { (b, ptr, g) \<leftarrow> put_middle b ptr g; put_space b ptr g } else Some (b, ptr, g));
          put_sample put_stub_stop last_name_map b ptr g }"

text \<open>\<open>do ... while (count > 0)\<close>; a count of zero would wrap.\<close>

fun put_names :: "random_put \<Rightarrow> nat \<Rightarrow> random_put" where
  "put_names put 0 b ptr g = None"
| "put_names put (Suc count) b ptr g =
     do { (b, ptr, g) \<leftarrow> put b ptr g;
          if 0 < count then put_names put count b ptr g else Some (b, ptr, g) }"

definition put_single_names :: "name_map \<Rightarrow> nat \<Rightarrow> random_put" where
  "put_single_names nm = put_names (put_sample put_stub_stop nm)"

definition put_full_names :: "nat \<Rightarrow> random_put" where
  "put_full_names = put_names put_full_name"

section \<open>The builders\<close>

datatype name_failure =
    BCSN_FIRST_MALLOC_FAILURE | BCSN_FIRST_GROUP_MALLOC_FAILURE
  | BCSN_LAST_MALLOC_FAILURE | BCSN_LAST_GROUP_MALLOC_FAILURE
  | BCSN_FULL_MALLOC_FAILURE | BCSN_FULL_GROUP_MALLOC_FAILURE

type_synonym name_built = "((name_failure + column_out) \<times> rngs) option"

fun name_rowspans :: "(nat \<Rightarrow> random_put) \<Rightarrow> nat list \<Rightarrow> bytes \<Rightarrow> nat \<Rightarrow> rngs \<Rightarrow> (bytes \<times> nat \<times> spans \<times> rngs) option" where
  "name_rowspans put [] b ptr g = Some (b, ptr, [], g)"
| "name_rowspans put (rc # rcs) b ptr g =
     do { (b', ptr', g') \<leftarrow> put rc b ptr g;
          len \<leftarrow> step_back ptr' ptr;
          (b'', ptr'', spans, g'') \<leftarrow> name_rowspans put rcs b' ptr' g';
          Some (b'', ptr'', (ptr, len) # spans, g'') }"

definition build_column_names ::
  "name_failure \<Rightarrow> (nat \<Rightarrow> random_put) \<Rightarrow> nat \<Rightarrow> alloc \<Rightarrow> bool \<Rightarrow> nat \<Rightarrow> nat list \<Rightarrow> rngs \<Rightarrow> name_built" where
  "build_column_names failure put size_max malloc join row_count rcs g =
     (case malloc 0 (size_max * row_count) of
        None \<Rightarrow> Some (Inl failure, g)
      | Some (_, bytes) \<Rightarrow>
          if rcs = [] then None
          else do { (b, ptr, spans, g) \<leftarrow> name_rowspans put rcs bytes 0 g;
                    Some (Inr \<lparr>co_contents = b, co_spans = map (hook join b) spans, co_length = ptr\<rparr>, g) })"

definition build_column_string_names_first :: "alloc \<Rightarrow> bool \<Rightarrow> nat \<Rightarrow> nat list \<Rightarrow> rngs \<Rightarrow> name_built" where
  "build_column_string_names_first =
     build_column_names BCSN_FIRST_MALLOC_FAILURE (put_single_names first_name_map) FIRST_NAME_SIZE_MAX"

definition build_column_string_names_last :: "alloc \<Rightarrow> bool \<Rightarrow> nat \<Rightarrow> nat list \<Rightarrow> rngs \<Rightarrow> name_built" where
  "build_column_string_names_last =
     build_column_names BCSN_LAST_MALLOC_FAILURE (put_single_names last_name_map) LAST_NAME_SIZE_MAX"

definition build_column_string_names_full :: "alloc \<Rightarrow> bool \<Rightarrow> nat \<Rightarrow> nat list \<Rightarrow> rngs \<Rightarrow> name_built" where
  "build_column_string_names_full =
     build_column_names BCSN_FULL_MALLOC_FAILURE put_full_names FULL_NAME_SIZE_MAX"

subsection \<open>In groups\<close>

text \<open>
  \<open>next\<close> draws the name of a group. The builders of first and last names keep the stub and its routine
  and write all cells of the group with it; the builder of full names writes the first cell at once and
  keeps a closure over it. \<open>first\<close> is the number of cells \<open>next\<close> wrote, \<open>'n\<close> what it keeps.
\<close>

type_synonym 'n next_name = "bytes \<Rightarrow> nat \<Rightarrow> rngs \<Rightarrow> ('n \<times> bytes \<times> nat \<times> rngs) option"

fun put_again :: "put \<Rightarrow> nat \<Rightarrow> put" where
  "put_again put 0 b ptr = Some (b, ptr)"
| "put_again put (Suc n) b ptr = do { (b, ptr) \<leftarrow> put b ptr; put_again put n b ptr }"

definition next_single :: "name_map \<Rightarrow> stub next_name" where
  "next_single nm b ptr g = do { (name, g) \<leftarrow> name_map_sample nm g; Some (name, b, ptr, g) }"

definition again_single :: "stub \<Rightarrow> put" where
  "again_single name = PUT_STRING_STOP_WIDTH_MAP (st_width name) (st_bytes name) 0"

definition next_full :: "(nat \<times> nat) next_name" where
  "next_full b ptr g =
     do { (b, ptr', g) \<leftarrow> put_full_name b ptr g;
          len \<leftarrow> step_back ptr' ptr;
          Some ((ptr, len), b, ptr', g) }"

text \<open>The closure reads the block it writes to.\<close>

definition again_full :: "nat \<times> nat \<Rightarrow> put" where
  "again_full = (\<lambda>(full_name, len) b ptr. put_string_closure_call (put_string_closure_init b full_name len) b ptr)"

text \<open>
  \<open>while (1)\<close>: \<open>cell\<close> is the start of the current rowspan, \<open>rest\<close> the row counts of the row blocks after
  it, \<open>i\<close> the index of the current group.
\<close>

function name_group_loop ::
  "nat \<Rightarrow> 'n next_name \<Rightarrow> ('n \<Rightarrow> put) \<Rightarrow> nat list \<Rightarrow> nat list \<Rightarrow> nat \<Rightarrow> nat \<Rightarrow> nat \<Rightarrow> nat \<Rightarrow> 'n \<Rightarrow> bytes \<Rightarrow> nat \<Rightarrow> rngs \<Rightarrow>
    (bytes \<times> nat \<times> spans \<times> rngs) option" where
  "name_group_loop first next again sizes rest cell rem_cells rem_group i name b ptr g =
     (if rem_group < rem_cells then
        do { (b, ptr) \<leftarrow> put_again (again name) rem_group b ptr;
             (name, b, ptr, g) \<leftarrow> next b ptr g;
             size \<leftarrow> load_size sizes (i + 1);
             rem_group' \<leftarrow> step_back size first;
             name_group_loop first next again sizes rest cell (rem_cells - (rem_group + first)) rem_group' (i + 1)
               name b ptr g }
      else
        do { (b, ptr) \<leftarrow> put_again (again name) rem_cells b ptr;
             case rest of
               [] \<Rightarrow> Some (b, ptr, [(cell, ptr - cell)], g)
             | rc # rest \<Rightarrow>
                 do { (b, ptr', spans, g) \<leftarrow>
                        name_group_loop first next again sizes rest ptr rc (rem_group - rem_cells) i name b ptr g;
                      Some (b, ptr', (cell, ptr - cell) # spans, g) } })"
  by pat_completeness auto
termination
  by (relation "measures [\<lambda>(first, next, again, sizes, rest, cell, rem_cells, rem_group, i, name, b, ptr, g). length rest,
       \<lambda>(first, next, again, sizes, rest, cell, rem_cells, rem_group, i, name, b, ptr, g). rem_cells + (length sizes - i)]")
    (auto simp: load_size_def split: if_splits)

declare name_group_loop.simps [simp del]

definition build_column_names_group ::
  "name_failure \<Rightarrow> nat \<Rightarrow> 'n next_name \<Rightarrow> ('n \<Rightarrow> put) \<Rightarrow> nat \<Rightarrow> grp_spec \<Rightarrow> alloc \<Rightarrow> bool \<Rightarrow> nat \<Rightarrow> nat list \<Rightarrow> rngs \<Rightarrow> name_built" where
  "build_column_names_group failure first next again size_max grp malloc join row_count rcs g =
     (case malloc (gs_count grp) (size_max * row_count) of
        None \<Rightarrow> Some (Inl failure, g)
      | Some (sizes, bytes) \<Rightarrow>
          do { (sizes, until) \<leftarrow> gs_partition grp sizes (gs_count grp) row_count;
               start \<leftarrow> (if until = gs_count grp then Some 0 else None);
               (name, b, ptr, g) \<leftarrow> next bytes start g;
               (rc, rest) \<leftarrow> (case rcs of [] \<Rightarrow> None | rc # rest \<Rightarrow> Some (rc, rest));
               rem_cells \<leftarrow> step_back rc first;
               size \<leftarrow> load_size sizes 0;
               rem_group \<leftarrow> step_back size first;
               (b, ptr, spans, g) \<leftarrow>
                 name_group_loop first next again sizes rest start rem_cells rem_group 0 name b ptr g;
               Some (Inr \<lparr>co_contents = b, co_spans = map (hook join b) spans, co_length = ptr - start\<rparr>, g) })"

definition build_column_string_names_first_group ::
  "grp_spec \<Rightarrow> alloc \<Rightarrow> bool \<Rightarrow> nat \<Rightarrow> nat list \<Rightarrow> rngs \<Rightarrow> name_built" where
  "build_column_string_names_first_group =
     build_column_names_group BCSN_FIRST_GROUP_MALLOC_FAILURE 0 (next_single first_name_map) again_single FIRST_NAME_SIZE_MAX"

definition build_column_string_names_last_group ::
  "grp_spec \<Rightarrow> alloc \<Rightarrow> bool \<Rightarrow> nat \<Rightarrow> nat list \<Rightarrow> rngs \<Rightarrow> name_built" where
  "build_column_string_names_last_group =
     build_column_names_group BCSN_LAST_GROUP_MALLOC_FAILURE 0 (next_single last_name_map) again_single LAST_NAME_SIZE_MAX"

definition build_column_string_names_full_group ::
  "grp_spec \<Rightarrow> alloc \<Rightarrow> bool \<Rightarrow> nat \<Rightarrow> nat list \<Rightarrow> rngs \<Rightarrow> name_built" where
  "build_column_string_names_full_group =
     build_column_names_group BCSN_FULL_GROUP_MALLOC_FAILURE 1 next_full again_full FULL_NAME_SIZE_MAX"

section \<open>The names of the tables\<close>

definition stub_text :: "stub \<Rightarrow> string" where
  "stub_text name = take (st_width name) (st_bytes name)"

definition stub_ok :: "nat \<Rightarrow> stub \<Rightarrow> bool" where
  "stub_ok m name \<longleftrightarrow> st_bytes name = stub_text name @ [NUL] \<and> st_width name = length (stub_text name) \<and>
     stub_text name \<noteq> [] \<and> st_width name \<le> m \<and> NUL \<notin> set (stub_text name)"

lemma stub_ok_STUB: "stub_ok m (STUB s) \<longleftrightarrow> s \<noteq> [] \<and> length s \<le> m \<and> list_all (\<lambda>c. c \<noteq> NUL) s"
  by (auto simp: stub_ok_def STUB_def stub_text_def list_all_iff)

lemma first_names_ok: "list_all (stub_ok FIRST_NAME_LENGTH_MAX) first_names"
  by (simp add: first_names_def FIRST_NAME_LENGTH_MAX_def stub_ok_STUB)

lemma last_names_ok: "list_all (stub_ok LAST_NAME_LENGTH_MAX) last_names"
  by (simp add: last_names_def LAST_NAME_LENGTH_MAX_def stub_ok_STUB)

lemma length_first_names: "length first_names = 200"
  by (simp add: first_names_def)

lemma length_last_names: "length last_names = 200"
  by (simp add: last_names_def)

definition map_texts :: "name_map \<Rightarrow> string set" where
  "map_texts nm = stub_text ` set (nm_names nm)"

text \<open>A map whose span is the number of its names, none of them longer than \<open>m\<close>.\<close>

definition map_ok :: "nat \<Rightarrow> name_map \<Rightarrow> bool" where
  "map_ok m nm \<longleftrightarrow> nm_span nm \<noteq> 0 \<and> unat (nm_span nm) = length (nm_names nm) \<and>
     (\<forall>name \<in> set (nm_names nm). stub_ok m name) \<and> m < CHAR_BUFFER_WIDTH_MAX"

lemma first_name_map_ok: "map_ok FIRST_NAME_LENGTH_MAX first_name_map"
  using first_names_ok by (simp add: map_ok_def list_all_iff first_name_map_def FIRST_NAMES_COUNT_def length_first_names
      FIRST_NAME_LENGTH_MAX_def CHAR_BUFFER_WIDTH_MAX_def)

lemma last_name_map_ok: "map_ok LAST_NAME_LENGTH_MAX last_name_map"
  using last_names_ok by (simp add: map_ok_def list_all_iff last_name_map_def LAST_NAMES_COUNT_def length_last_names
      LAST_NAME_LENGTH_MAX_def CHAR_BUFFER_WIDTH_MAX_def)

section \<open>The texts that are drawn\<close>

type_synonym text_draw = "rngs \<Rightarrow> (string \<times> rngs) option"

definition text_then :: "text_draw \<Rightarrow> text_draw \<Rightarrow> text_draw" where
  "text_then f h g = do { (s, g) \<leftarrow> f g; (t, g) \<leftarrow> h g; Some (s @ t, g) }"

definition text_coin :: "text_draw \<Rightarrow> text_draw \<Rightarrow> text_draw" where
  "text_coin f h g = (let (heads, g) = coin_flip g in if heads then f g else h g)"

definition text_just :: "string \<Rightarrow> text_draw" where
  "text_just s g = Some (s, g)"

definition text_sample :: "name_map \<Rightarrow> text_draw" where
  "text_sample nm g = do { (name, g) \<leftarrow> name_map_sample nm g; Some (stub_text name, g) }"

definition text_initial :: text_draw where
  "text_initial g =
     do { threshold \<leftarrow> RANDOM_THRESHOLD 26;
          (r, g) \<leftarrow> random_int32_bound_32_offset_32 threshold 26 (of_nat (of_char (CHR ''A''))) g;
          Some ([char_of (unat r)], g) }"

definition text_middle :: text_draw where
  "text_middle = text_coin text_initial (text_sample first_name_map)"

definition text_full :: text_draw where
  "text_full =
     text_then (text_sample first_name_map) (text_then (text_just '' '')
       (text_then (text_coin (text_then text_middle (text_just '' '')) (text_just [])) (text_sample last_name_map)))"

text \<open>A routine writes the text that is drawn.\<close>

definition random_writes :: "random_put \<Rightarrow> text_draw \<Rightarrow> bool" where
  "random_writes put text \<longleftrightarrow> (\<forall>g s g' xs old ys. text g = Some (s, g') \<longrightarrow> length old = length s \<longrightarrow>
     put (xs @ old @ ys) (length xs) g = Some (xs @ s @ ys, length xs + length s, g'))"

lemma random_writesD:
  "random_writes put text \<Longrightarrow> text g = Some (s, g') \<Longrightarrow> length old = length s \<Longrightarrow> p = length xs \<Longrightarrow>
    put (xs @ old @ ys) p g = Some (xs @ s @ ys, p + length s, g')"
  unfolding random_writes_def by blast

lemma random_writes_then:
  assumes "random_writes p f" "random_writes q h"
  shows "random_writes (\<lambda>b ptr g. do { (b, ptr, g) \<leftarrow> p b ptr g; q b ptr g }) (text_then f h)"
  unfolding random_writes_def
proof (intro allI impI)
  fix g u g' and xs old ys :: bytes
  assume "text_then f h g = Some (u, g')" and l: "length old = length u"
  then obtain s g1 t where st: "f g = Some (s, g1)" "h g1 = Some (t, g')" "u = s @ t"
    by (auto simp: text_then_def split: bind_splits)
  then have "length old = length s + length t" using l by simp
  then obtain o1 o2 where o: "old = o1 @ o2" "length o1 = length s" "length o2 = length t" by (rule split_length)
  have "p (xs @ o1 @ o2 @ ys) (length xs) g = Some (xs @ s @ o2 @ ys, length xs + length s, g1)"
    by (rule random_writesD [OF assms(1) st(1) o(2) refl])
  moreover have "q ((xs @ s) @ o2 @ ys) (length xs + length s) g1 =
      Some ((xs @ s) @ t @ ys, length xs + length s + length t, g')"
    by (rule random_writesD [OF assms(2) st(2) o(3)]) simp
  ultimately show "do { (b, ptr, g) \<leftarrow> p (xs @ old @ ys) (length xs) g; q b ptr g } =
      Some (xs @ u @ ys, length xs + length u, g')"
    by (simp add: o(1) st(3))
qed

lemma random_writes_coin:
  assumes "random_writes p f" "random_writes q h"
  shows "random_writes (\<lambda>b ptr g. let (heads, g) = coin_flip g in if heads then p b ptr g else q b ptr g) (text_coin f h)"
  using assms by (auto simp: random_writes_def text_coin_def split: prod.splits)

lemma random_writes_just: "random_writes (\<lambda>b ptr g. Some (b, ptr, g)) (text_just [])"
  by (simp add: random_writes_def text_just_def)

lemma random_writes_space: "random_writes put_space (text_just '' '')"
  by (auto simp: random_writes_def text_just_def put_space_def length_Suc_conv store_append)

lemma random_writes_initial: "random_writes put_random_initial text_initial"
  by (auto simp: random_writes_def text_initial_def put_random_initial_def length_Suc_conv store_append split: bind_splits)

lemma name_map_sample_in: "name_map_sample nm g = Some (name, g') \<Longrightarrow> name \<in> set (nm_names nm)"
  by (auto simp: name_map_sample_def split: bind_splits if_splits)

lemma writes_put_stub:
  assumes "stub_ok m name" "m < CHAR_BUFFER_WIDTH_MAX"
  shows "writes (put_stub name) (stub_text name)" "writes (put_stub_stop name) (stub_text name @ [NUL])"
    "writes (again_single name) (stub_text name @ [NUL])"
proof -
  have n: "st_bytes name = stub_text name @ [NUL]" "st_width name = length (stub_text name)" "0 < st_width name"
    "st_width name < 32" "st_width name \<noteq> 0"
    using assms by (auto simp: stub_ok_def CHAR_BUFFER_WIDTH_MAX_def)
  show "writes (put_stub name) (stub_text name)"
    using writes_put_string_width [of "stub_text name" "[]" "[NUL]"] n by (simp add: put_stub_def [abs_def])
  have w: "writes (MEMORY_PUT_WIDTH (st_width name + 1) (st_bytes name) 0) (stub_text name @ [NUL])"
    using writes_MEMORY_PUT_WIDTH [of "st_width name + 1" "stub_text name @ [NUL]" "[]" "[]"] n by simp
  show "writes (put_stub_stop name) (stub_text name @ [NUL])"
    using w n by (simp add: put_stub_stop_def [abs_def] put_string_stop_width_def)
  show "writes (again_single name) (stub_text name @ [NUL])"
    using w n by (simp add: again_single_def PUT_STRING_STOP_WIDTH_MAP_def [abs_def] CHAR_BUFFER_WIDTH_MAX_def)
qed

text \<open>With the terminator.\<close>

definition text_stop :: "text_draw \<Rightarrow> text_draw" where
  "text_stop text g = do { (s, g) \<leftarrow> text g; Some (s @ [NUL], g) }"

lemma text_stop_then: "text_stop (text_then f h) = text_then f (text_stop h)"
  by (auto simp: text_stop_def text_then_def fun_eq_iff split: bind_splits)

lemma random_writes_sample:
  assumes "map_ok m nm"
  shows "random_writes (put_sample put_stub nm) (text_sample nm)"
    "random_writes (put_sample put_stub_stop nm) (text_stop (text_sample nm))"
proof -
  have ok: "stub_ok m name \<and> m < CHAR_BUFFER_WIDTH_MAX" if "name_map_sample nm g = Some (name, g')" for g name g'
    using assms name_map_sample_in [OF that] by (simp add: map_ok_def)
  show "random_writes (put_sample put_stub nm) (text_sample nm)"
    using writesD [OF writes_put_stub(1) _ refl] ok
    by (fastforce simp: random_writes_def text_sample_def put_sample_def split: bind_splits)
  show "random_writes (put_sample put_stub_stop nm) (text_stop (text_sample nm))"
    using writesD [OF writes_put_stub(2) _ refl] ok
    by (fastforce simp: random_writes_def text_stop_def text_sample_def put_sample_def split: bind_splits)
qed

lemma put_full_name_then:
  "put_full_name = (\<lambda>b ptr g. do { (b, ptr, g) \<leftarrow> put_sample put_stub first_name_map b ptr g;
     do { (b, ptr, g) \<leftarrow> put_space b ptr g;
       do { (b, ptr, g) \<leftarrow> (let (heads, g) = coin_flip g
              in if heads then do { (b, ptr, g) \<leftarrow> put_middle b ptr g; put_space b ptr g } else Some (b, ptr, g));
            put_sample put_stub_stop last_name_map b ptr g } } })"
  by (auto simp: put_full_name_def fun_eq_iff split: prod.splits bind_splits)

lemma random_writes_full: "random_writes put_full_name (text_stop text_full)"
proof -
  have "put_middle = (\<lambda>b ptr g. let (heads, g) = coin_flip g
      in if heads then put_random_initial b ptr g else put_sample put_stub first_name_map b ptr g)"
    by (intro ext) (simp only: put_middle_def)
  then have "random_writes put_middle text_middle"
    unfolding text_middle_def
    using random_writes_coin [OF random_writes_initial random_writes_sample(1) [OF first_name_map_ok]] by simp
  then show ?thesis
    unfolding put_full_name_then text_full_def text_stop_then
    by (intro random_writes_then random_writes_coin random_writes_space random_writes_just
        random_writes_sample(1) [OF first_name_map_ok] random_writes_sample(2) [OF last_name_map_ok])
qed

section \<open>Every draw returns\<close>

text \<open>
  From a state with an odd increment, as seeding leaves it, a draw returns, keeps the increment odd and
  gives a text of the form.
\<close>

definition text_returns :: "text_draw \<Rightarrow> (string \<Rightarrow> bool) \<Rightarrow> bool" where
  "text_returns text form \<longleftrightarrow> (\<forall>g. valid32 (glob_rng32 g) \<longrightarrow>
     (\<exists>s g'. text g = Some (s, g') \<and> valid32 (glob_rng32 g') \<and> form s))"

lemma text_returnsD:
  assumes "text_returns text form" "valid32 (glob_rng32 g)"
  obtains s g' where "text g = Some (s, g')" "valid32 (glob_rng32 g')" "form s"
  using assms unfolding text_returns_def by blast

lemma text_returns_mono: "text_returns text form \<Longrightarrow> (\<And>s. form s \<Longrightarrow> form' s) \<Longrightarrow> text_returns text form'"
  unfolding text_returns_def by blast

lemma text_returns_then:
  "text_returns f F \<Longrightarrow> text_returns h H \<Longrightarrow> text_returns (text_then f h) (\<lambda>u. \<exists>s t. u = s @ t \<and> F s \<and> H t)"
  unfolding text_returns_def text_then_def by fastforce

lemma valid32_next: "valid32 rng \<Longrightarrow> valid32 (snd (pcg32_random_r rng))"
  by (simp add: valid32_def pcg32_random_r_def pcg_setseq_64_step_r_def Let_def)

lemma text_returns_coin:
  assumes "text_returns f F" "text_returns h H"
  shows "text_returns (text_coin f h) (\<lambda>u. F u \<or> H u)"
  unfolding text_returns_def
proof (intro allI impI)
  fix g :: rngs assume v: "valid32 (glob_rng32 g)"
  obtain heads g1 where c: "coin_flip g = (heads, g1)" by fastforce
  then have "valid32 (glob_rng32 g1)"
    using valid32_next [OF v] by (auto simp: coin_flip_def draw_u32_def Let_def split: prod.splits)
  then show "\<exists>s g'. text_coin f h g = Some (s, g') \<and> valid32 (glob_rng32 g') \<and> (F s \<or> H s)"
    using assms c unfolding text_returns_def text_coin_def by (cases heads) fastforce+
qed

lemma text_returns_just: "text_returns (text_just s) (\<lambda>u. u = s)"
  by (simp add: text_returns_def text_just_def)

lemma bound32_returns:
  assumes "valid32 (glob_rng32 g)" "n \<noteq> 0"
  obtains r g' where "bound32 t n g = Some (r, g')" "r < n" "valid32 (glob_rng32 g')"
proof -
  obtain r rng where "random_uint32_bound t n (glob_rng32 g) = Some (r, rng)" "r < n" "valid32 rng"
    unfolding random_uint32_bound_def using rng32.random_bound_total [OF assms, of t] by blast
  then show ?thesis by (intro that [of r "g\<lparr>glob_rng32 := rng\<rparr>"]) (simp_all add: bound32_def)
qed

lemma text_returns_sample:
  assumes "map_ok m nm"
  shows "text_returns (text_sample nm) (\<lambda>s. s \<in> map_texts nm)"
  unfolding text_returns_def
proof (intro allI impI)
  fix g :: rngs assume v: "valid32 (glob_rng32 g)"
  have "nm_span nm \<noteq> 0" using assms by (simp add: map_ok_def)
  with v obtain r g' where r: "bound32 (nm_threshold nm) (nm_span nm) g = Some (r, g')" "r < nm_span nm" "valid32 (glob_rng32 g')"
    by (rule bound32_returns)
  then have "unat r < length (nm_names nm)" using assms by (simp add: map_ok_def word_less_nat_alt)
  then show "\<exists>s g'. text_sample nm g = Some (s, g') \<and> valid32 (glob_rng32 g') \<and> s \<in> map_texts nm"
    using r by (auto simp: text_sample_def name_map_sample_def map_texts_def)
qed

definition capital :: "char \<Rightarrow> bool" where
  "capital c \<longleftrightarrow> of_char (CHR ''A'') \<le> (of_char c :: nat) \<and> (of_char c :: nat) \<le> of_char (CHR ''Z'')"

lemma text_returns_initial: "text_returns text_initial (\<lambda>s. \<exists>c. s = [c] \<and> capital c)"
  unfolding text_returns_def
proof (intro allI impI)
  fix g :: rngs assume v: "valid32 (glob_rng32 g)"
  obtain t :: "32 word" where t: "RANDOM_THRESHOLD (26 :: 32 word) = Some t" by (simp add: RANDOM_THRESHOLD_def)
  obtain r g' where r: "bound32 t 26 g = Some (r, g')" "r < 26" "valid32 (glob_rng32 g')"
    by (rule bound32_returns [OF v, of 26 t]) simp
  have n: "unat r < 26" using r(2) by (simp add: word_less_nat_alt)
  then have "unat (r + 65) = unat r + 65" by (simp add: unat_word_ariths)
  then have "capital (char_of (unat (r + 65)))" using n by (simp add: capital_def)
  then show "\<exists>s g'. text_initial g = Some (s, g') \<and> valid32 (glob_rng32 g') \<and> (\<exists>c. s = [c] \<and> capital c)"
    using r(1,3) t by (simp add: text_initial_def random_int32_bound_32_offset_32_def)
qed

text \<open>A full name: a first name, at random a capital letter or a second first name, and a last name.\<close>

definition full_form :: "string \<Rightarrow> bool" where
  "full_form s \<longleftrightarrow> (\<exists>a \<in> map_texts first_name_map. \<exists>z \<in> map_texts last_name_map.
     s = a @ '' '' @ z \<or> (\<exists>m. s = a @ '' '' @ m @ '' '' @ z \<and> (m \<in> map_texts first_name_map \<or> (\<exists>c. m = [c] \<and> capital c))))"

lemma text_returns_full: "text_returns text_full full_form"
proof -
  note first = text_returns_sample [OF first_name_map_ok] and last = text_returns_sample [OF last_name_map_ok]
  have "text_returns (text_then text_middle (text_just '' ''))
      (\<lambda>u. \<exists>m. u = m @ '' '' \<and> (m \<in> map_texts first_name_map \<or> (\<exists>c. m = [c] \<and> capital c)))"
    unfolding text_middle_def
    by (rule text_returns_mono [OF text_returns_then [OF text_returns_coin [OF text_returns_initial first] text_returns_just]]) blast
  note middle = text_returns_coin [OF this text_returns_just [of "[]"]]
  show ?thesis
    unfolding text_full_def
  proof (rule text_returns_mono [OF text_returns_then [OF first text_returns_then [OF text_returns_just
          text_returns_then [OF middle last]]]])
    fix s
    assume "\<exists>a u. s = a @ u \<and> a \<in> map_texts first_name_map \<and> (\<exists>b v. u = b @ v \<and> b = '' '' \<and>
      (\<exists>w z. v = w @ z \<and> ((\<exists>m. w = m @ '' '' \<and> (m \<in> map_texts first_name_map \<or> (\<exists>c. m = [c] \<and> capital c))) \<or> w = []) \<and>
        z \<in> map_texts last_name_map))"
    then obtain a w z where f: "a \<in> map_texts first_name_map" "z \<in> map_texts last_name_map" "s = a @ '' '' @ w @ z"
      "(\<exists>m. w = m @ '' '' \<and> (m \<in> map_texts first_name_map \<or> (\<exists>c. m = [c] \<and> capital c))) \<or> w = []"
      by blast
    then show "full_form s" unfolding full_form_def by (intro bexI [OF _ f(1)] bexI [OF _ f(2)]) auto
  qed
qed

lemma map_texts_ok:
  "map_ok m nm \<Longrightarrow> s \<in> map_texts nm \<Longrightarrow> s \<noteq> [] \<and> length s \<le> m \<and> NUL \<notin> set s"
  by (auto simp: map_ok_def map_texts_def stub_ok_def)

lemma full_form_ok:
  assumes "full_form s"
  shows "length s < FULL_NAME_LENGTH_MAX \<and> NUL \<notin> set s"
proof -
  obtain a z w where f: "a \<in> map_texts first_name_map" "z \<in> map_texts last_name_map" "s = a @ '' '' @ w @ z"
    "w = [] \<or> (\<exists>m. w = m @ '' '' \<and> (m \<in> map_texts first_name_map \<or> (\<exists>c. m = [c] \<and> capital c)))"
    using assms unfolding full_form_def by fastforce
  have "length w \<le> 12 \<and> NUL \<notin> set w"
    using f(4) map_texts_ok [OF first_name_map_ok] by (auto simp: FIRST_NAME_LENGTH_MAX_def capital_def)
  then show ?thesis
    using map_texts_ok [OF first_name_map_ok f(1)] map_texts_ok [OF last_name_map_ok f(2)] f(3)
    by (simp add: FIRST_NAME_LENGTH_MAX_def LAST_NAME_LENGTH_MAX_def FULL_NAME_LENGTH_MAX_def)
qed

section \<open>A source of names\<close>

text \<open>The texts of \<open>n\<close> draws.\<close>

fun name_draws :: "text_draw \<Rightarrow> nat \<Rightarrow> rngs \<Rightarrow> (string list \<times> rngs) option" where
  "name_draws text 0 g = Some ([], g)"
| "name_draws text (Suc n) g = do { (s, g) \<leftarrow> text g; (ss, g) \<leftarrow> name_draws text n g; Some (s # ss, g) }"

lemma length_name_draws: "name_draws text n g = Some (ss, g') \<Longrightarrow> length ss = n"
  by (induction n arbitrary: g ss) (auto split: bind_splits)

lemma name_draws_add:
  "name_draws text (m + n) g = do { (ss, g) \<leftarrow> name_draws text m g; (ts, g) \<leftarrow> name_draws text n g; Some (ss @ ts, g) }"
  by (induction m arbitrary: g) (auto split: bind_splits)

lemma terminated_bound:
  "\<forall>s \<in> set ss. length s < w \<Longrightarrow> length (terminated ss) \<le> w * length ss"
  by (induction ss) (auto simp: add_mono)

text \<open>
  A routine that draws and writes one name with its terminator: what it writes is the text of a draw,
  every draw returns, and the cells have room for the forms it gives. The clients are the plain
  builders.
\<close>

locale name_source =
  fixes put :: random_put and draw :: text_draw and form :: "string \<Rightarrow> bool" and size_max :: nat
  assumes puts: "random_writes put (text_stop draw)"
    and returns: "text_returns draw form"
    and fits: "form s \<Longrightarrow> length s < size_max \<and> NUL \<notin> set s"
begin

lemma draws_return:
  assumes "valid32 (glob_rng32 g)"
  obtains ss g' where "name_draws draw n g = Some (ss, g')" "valid32 (glob_rng32 g')" "\<forall>s \<in> set ss. form s"
  using assms
proof (induction n arbitrary: g thesis)
  case (Suc n)
  obtain s g1 where s: "draw g = Some (s, g1)" "valid32 (glob_rng32 g1)" "form s"
    using returns Suc.prems(2) by (rule text_returnsD)
  obtain ss g' where "name_draws draw n g1 = Some (ss, g')" "valid32 (glob_rng32 g')" "\<forall>s \<in> set ss. form s"
    using Suc.IH s(2) by blast
  then show ?case using Suc.prems(1) [of "s # ss" g'] s by simp
qed simp

lemma put_one:
  "draw g = Some (s, g') \<Longrightarrow> length old = Suc (length s) \<Longrightarrow> p = length xs \<Longrightarrow>
    put (xs @ old @ ys) p g = Some (xs @ (s @ [NUL]) @ ys, p + Suc (length s), g')"
  using random_writesD [OF puts, of g "s @ [NUL]" g' old p xs ys] by (simp add: text_stop_def)

lemma put_names_eq:
  assumes "name_draws draw (Suc n) g = Some (ss, g')" "length old = length (terminated ss)"
  shows "put_names put (Suc n) (xs @ old @ ys) (length xs) g =
    Some (xs @ terminated ss @ ys, length xs + length (terminated ss), g')"
  using assms
proof (induction n arbitrary: g ss xs old)
  case 0
  then obtain s where s: "draw g = Some (s, g')" "ss = [s]" by (auto split: bind_splits)
  then show ?case using 0 put_one [of g s g' old "length xs" xs ys] by simp
next
  case (Suc n)
  then obtain s g1 ts where s: "draw g = Some (s, g1)" "name_draws draw (Suc n) g1 = Some (ts, g')" "ss = s # ts"
    by (auto split: bind_splits)
  have "length old = Suc (length s) + length (terminated ts)" using Suc.prems(2) s(3) by simp
  then obtain o1 o2 where o: "old = o1 @ o2" "length o1 = Suc (length s)" "length o2 = length (terminated ts)"
    by (rule split_length)
  have 1: "put (xs @ o1 @ o2 @ ys) (length xs) g = Some (xs @ (s @ [NUL]) @ o2 @ ys, length xs + Suc (length s), g1)"
    by (rule put_one [OF s(1) o(2) refl])
  have 2: "put_names put (Suc n) ((xs @ s @ [NUL]) @ o2 @ ys) (length (xs @ s @ [NUL])) g1 =
      Some ((xs @ s @ [NUL]) @ terminated ts @ ys, length (xs @ s @ [NUL]) + length (terminated ts), g')"
    by (rule Suc.IH [OF s(2) o(3)])
  show ?case using 1 2 by (subst put_names.simps) (simp add: o(1) s(3) add.assoc)
qed

lemma name_rowspans_eq:
  assumes "name_draws draw (sum_list rcs) g = Some (ss, g')" "\<forall>rc \<in> set rcs. 0 < rc" "length old = length (terminated ss)"
  shows "name_rowspans (put_names put) rcs (xs @ old @ ys) (length xs) g =
    Some (xs @ terminated ss @ ys, length xs + length (terminated ss), spans_from (length xs) rcs ss, g')"
  using assms
proof (induction rcs arbitrary: g ss xs old)
  case (Cons rc rcs)
  then obtain ss1 g1 ss2 where d: "name_draws draw rc g = Some (ss1, g1)" "name_draws draw (sum_list rcs) g1 = Some (ss2, g')"
    "ss = ss1 @ ss2" by (auto simp: name_draws_add split: bind_splits)
  have n: "length ss1 = rc" using length_name_draws [OF d(1)] .
  obtain k where k: "rc = Suc k" using Cons.prems(2) by (cases rc) auto
  let ?t1 = "terminated ss1" and ?t2 = "terminated ss2"
  have "length old = length ?t1 + length ?t2" using Cons.prems(3) d(3) by simp
  then obtain o1 o2 where o: "old = o1 @ o2" "length o1 = length ?t1" "length o2 = length ?t2" by (rule split_length)
  have 1: "put_names put rc (xs @ o1 @ o2 @ ys) (length xs) g = Some (xs @ ?t1 @ o2 @ ys, length xs + length ?t1, g1)"
    using d(1) o(2) unfolding k by (rule put_names_eq)
  have 2: "name_rowspans (put_names put) rcs ((xs @ ?t1) @ o2 @ ys) (length (xs @ ?t1)) g1 =
      Some ((xs @ ?t1) @ ?t2 @ ys, length (xs @ ?t1) + length ?t2, spans_from (length (xs @ ?t1)) rcs ss2, g')"
    using Cons.prems(2) d(2) o(3) by (intro Cons.IH) simp_all
  show ?case using 1 2 n by (simp add: o(1) d(3) step_back_def)
qed simp

lemma build_column_names_lays_out:
  assumes valid: "valid32 (glob_rng32 g)" and alloc: "allocates malloc" and rows: "rcs \<noteq> []" "\<forall>rc \<in> set rcs. 0 < rc"
  shows "\<exists>co names g'. build_column_names failure (put_names put) size_max malloc join (sum_list rcs) rcs g = Some (Inr co, g') \<and>
    name_draws draw (sum_list rcs) g = Some (names, g') \<and> valid32 (glob_rng32 g') \<and> (\<forall>s \<in> set names. form s) \<and>
    lays_out co join rcs names"
proof -
  obtain ss g' where d: "name_draws draw (sum_list rcs) g = Some (ss, g')" "valid32 (glob_rng32 g')" "\<forall>s \<in> set ss. form s"
    by (rule draws_return [OF valid])
  have n: "length ss = sum_list rcs" by (rule length_name_draws [OF d(1)])
  obtain sizes bytes where m: "malloc 0 (size_max * sum_list rcs) = Some (sizes, bytes)" "length bytes = size_max * sum_list rcs"
    using alloc by (rule allocatesE)
  have "length bytes = length (terminated ss) + (length bytes - length (terminated ss))"
    using terminated_bound [of ss size_max] d(3) fits m(2) n by simp
  then obtain old ys where b: "bytes = old @ ys" "length old = length (terminated ss)" by (rule split_length)
  have "name_rowspans (put_names put) rcs ([] @ old @ ys) (length ([] :: bytes)) g =
      Some ([] @ terminated ss @ ys, length ([] :: bytes) + length (terminated ss), spans_from (length ([] :: bytes)) rcs ss, g')"
    by (rule name_rowspans_eq [OF d(1) rows(2) b(2)])
  moreover have "lays_out \<lparr>co_contents = terminated ss @ ys,
      co_spans = map (hook join (terminated ss @ ys)) (spans_from (length ([] :: bytes)) rcs ss),
      co_length = length (terminated ss)\<rparr> join rcs ss"
    using d(3) fits n by (intro lays_out_hook [of _ _ _ ys]) auto
  ultimately show ?thesis
    using m(1) rows(1) b(1) d by (auto simp: build_column_names_def)
qed

end

lemma single_source:
  assumes "map_ok m nm" "w = m + 1"
  shows "name_source (put_sample put_stub_stop nm) (text_sample nm) (\<lambda>s. s \<in> map_texts nm) w"
  using random_writes_sample(2) [OF assms(1)] text_returns_sample [OF assms(1)] map_texts_ok [OF assms(1)] assms(2)
  by unfold_locales (auto simp: less_Suc_eq_le)

interpretation first_source: name_source "put_sample put_stub_stop first_name_map" "text_sample first_name_map"
  "\<lambda>s. s \<in> map_texts first_name_map" FIRST_NAME_SIZE_MAX
  by (rule single_source [OF first_name_map_ok]) (simp add: FIRST_NAME_SIZE_MAX_def FIRST_NAME_LENGTH_MAX_def)

interpretation last_source: name_source "put_sample put_stub_stop last_name_map" "text_sample last_name_map"
  "\<lambda>s. s \<in> map_texts last_name_map" LAST_NAME_SIZE_MAX
  by (rule single_source [OF last_name_map_ok]) (simp add: LAST_NAME_SIZE_MAX_def LAST_NAME_LENGTH_MAX_def)

interpretation full_source: name_source put_full_name text_full full_form FULL_NAME_SIZE_MAX
  using random_writes_full text_returns_full full_form_ok
  by unfold_locales (force simp: FULL_NAME_SIZE_MAX_def FULL_NAME_LENGTH_MAX_def)+

section \<open>Names in groups\<close>

text \<open>The cells of groups: the name of each group as often as the group has rows.\<close>

fun repeat_cells :: "nat list \<Rightarrow> string list \<Rightarrow> string list" where
  "repeat_cells (n # ns) (s # ss) = replicate n s @ repeat_cells ns ss"
| "repeat_cells _ _ = []"

lemma length_repeat_cells: "length ns = length ss \<Longrightarrow> length (repeat_cells ns ss) = sum_list ns"
  by (induction ns ss rule: repeat_cells.induct) simp_all

lemma set_repeat_cells: "s \<in> set (repeat_cells ns ss) \<Longrightarrow> s \<in> set ss"
  by (induction ns ss rule: repeat_cells.induct) (auto split: if_splits)

text \<open>The cells still to be written, when \<open>k\<close> cells of the current group with the name \<open>s\<close> are.\<close>

definition cells_left :: "nat \<Rightarrow> string \<Rightarrow> nat list \<Rightarrow> string list \<Rightarrow> string list" where
  "cells_left k s sizes ss = replicate k s @ repeat_cells sizes ss"

lemma cells_left_take:
  "n \<le> k \<Longrightarrow> cells_left k s sizes ss = replicate n s @ cells_left (k - n) s sizes ss"
  by (simp add: cells_left_def replicate_add [symmetric])

lemma cells_left_next:
  "n \<le> m \<Longrightarrow> cells_left k s (m # sizes) (t # ss) = replicate k s @ replicate n t @ cells_left (m - n) t sizes ss"
  by (simp add: cells_left_def replicate_add [symmetric])

lemma length_copies: "length (concat (replicate n u)) = length u * n"
  by (simp add: length_concat sum_list_replicate)

text \<open>What a kept name writes behind the place it was kept at.\<close>

definition serves :: "put \<Rightarrow> string \<Rightarrow> bytes \<Rightarrow> bool" where
  "serves put u pre \<longleftrightarrow> (\<forall>mid old ys. length old = length u \<longrightarrow>
     put (pre @ mid @ old @ ys) (length (pre @ mid)) = Some (pre @ mid @ u @ ys, length (pre @ mid) + length u))"

lemma put_again_eq:
  assumes "serves put u pre" "length old = length u * n"
  shows "put_again put n (pre @ mid @ old @ ys) (length (pre @ mid)) =
    Some (pre @ mid @ concat (replicate n u) @ ys, length (pre @ mid) + length u * n)"
  using assms(2)
proof (induction n arbitrary: mid old)
  case (Suc n)
  obtain o1 o2 where o: "old = o1 @ o2" "length o1 = length u" "length o2 = length u * n"
    using Suc.prems by (auto elim: split_length)
  have 1: "put (pre @ mid @ o1 @ o2 @ ys) (length (pre @ mid)) = Some (pre @ mid @ u @ o2 @ ys, length (pre @ mid) + length u)"
    using assms(1) o(2) unfolding serves_def by blast
  have 2: "put_again put n (pre @ (mid @ u) @ o2 @ ys) (length (pre @ (mid @ u))) =
      Some (pre @ (mid @ u) @ concat (replicate n u) @ ys, length (pre @ (mid @ u)) + length u * n)"
    by (rule Suc.IH [OF o(3)])
  show ?case using 1 2 o(1) by (simp add: add.assoc)
qed simp

text \<open>
  A source that keeps the cell of a group: \<open>next\<close> draws a text, writes its first cells and keeps it,
  \<open>again\<close> writes one more. The clients are the loops over groups and rowspans.
\<close>

locale cell_groups =
  fixes draw :: text_draw and first :: nat and "next" :: "'n next_name" and again :: "'n \<Rightarrow> put"
  assumes first: "first \<le> 1"
    and next_puts: "draw g = Some (s, g') \<Longrightarrow> length old = first * Suc (length s) \<Longrightarrow>
      \<exists>n. next (xs @ old @ ys) (length xs) g =
          Some (n, xs @ concat (replicate first (s @ [NUL])) @ ys, length xs + first * Suc (length s), g') \<and>
        serves (again n) (s @ [NUL]) (xs @ concat (replicate first (s @ [NUL])))"
begin

text \<open>The rest of the current group and the name of the next one.\<close>

lemma group_loop_next:
  assumes less: "rem_group < rem_cells" and i: "Suc i < length sizes" "first \<le> sizes ! Suc i" and t: "draw g = Some (t, g1)"
    and serve: "serves (again n) u pre" and p: "ptr = length (pre @ mid)"
    and old: "length old = length u * rem_group + first * Suc (length t)"
  defines "b \<equiv> pre @ mid @ concat (replicate rem_group u) @ concat (replicate first (t @ [NUL]))"
  shows "\<exists>n'. serves (again n') (t @ [NUL]) b \<and>
    name_group_loop first next again sizes rest cell rem_cells rem_group i n (pre @ mid @ old @ ys) ptr g =
    name_group_loop first next again sizes rest cell (rem_cells - (rem_group + first)) (sizes ! Suc i - first) (Suc i) n'
      (b @ ys) (length b) g1"
proof -
  let ?c = "concat (replicate rem_group u)" and ?v = "concat (replicate first (t @ [NUL]))"
  obtain o1 o2 where o: "old = o1 @ o2" "length o1 = length u * rem_group" "length o2 = first * Suc (length t)"
    using old by (rule split_length)
  have 1: "put_again (again n) rem_group (pre @ mid @ old @ ys) ptr =
      Some (pre @ mid @ ?c @ o2 @ ys, ptr + length u * rem_group)"
    using put_again_eq [OF serve o(2), of mid "o2 @ ys"] p o(1) by simp
  have q: "ptr + length u * rem_group = length (pre @ mid @ ?c)" "length ?v = first * Suc (length t)"
    by (simp_all add: p length_copies mult.commute)
  obtain n' where n': "next ((pre @ mid @ ?c) @ o2 @ ys) (length (pre @ mid @ ?c)) g =
      Some (n', (pre @ mid @ ?c) @ ?v @ ys, length (pre @ mid @ ?c) + first * Suc (length t), g1)"
    "serves (again n') (t @ [NUL]) ((pre @ mid @ ?c) @ ?v)"
    using next_puts [OF t o(3)] by blast
  have "load_size sizes (i + 1) = Some (sizes ! Suc i)" "step_back (sizes ! Suc i) first = Some (sizes ! Suc i - first)"
    using i by (simp_all add: load_size_def step_back_def)
  then have "name_group_loop first next again sizes rest cell rem_cells rem_group i n (pre @ mid @ old @ ys) ptr g =
    name_group_loop first next again sizes rest cell (rem_cells - (rem_group + first)) (sizes ! Suc i - first) (Suc i) n'
      (b @ ys) (length b) g1"
    using less 1 n'(1) q by (subst name_group_loop.simps) (simp add: b_def add.assoc)
  then show ?thesis using n'(2) by (auto simp: b_def)
qed

text \<open>The end of a rowspan inside a group.\<close>

lemma group_loop_span:
  assumes "rem_cells \<le> rem_group" "serves (again n) u pre" "ptr = length (pre @ mid)" "length old = length u * rem_cells"
  defines "b \<equiv> pre @ mid @ concat (replicate rem_cells u)"
  shows "name_group_loop first next again sizes rest cell rem_cells rem_group i n (pre @ mid @ old @ ys) ptr g =
    (case rest of
       [] \<Rightarrow> Some (b @ ys, length b, [(cell, length b - cell)], g)
     | rc # rest \<Rightarrow>
         do { (b', ptr', spans, g) \<leftarrow>
                name_group_loop first next again sizes rest (length b) rc (rem_group - rem_cells) i n (b @ ys) (length b) g;
              Some (b', ptr', (cell, length b - cell) # spans, g) })"
  using put_again_eq [OF assms(2,4), of mid ys] assms(1,3)
  by (subst name_group_loop.simps) (simp add: b_def length_copies add.assoc split: list.split)

lemma group_loop_eq:
  assumes sizes: "\<forall>n \<in> set sizes. 0 < n" and i: "i < length sizes"
    and draws: "name_draws draw (length sizes - Suc i) g = Some (ss, g')"
    and serve: "serves (again n) (s @ [NUL]) pre"
    and R: "R = cells_left rem_group s (drop (Suc i) sizes) ss" "rem_cells + sum_list rest = length R"
    and old: "length old = length (terminated R)" and p: "ptr = length (pre @ mid)" "cell \<le> ptr"
  shows "name_group_loop first next again sizes rest cell rem_cells rem_group i n (pre @ mid @ old @ ys) ptr g =
    Some (pre @ mid @ terminated R @ ys, ptr + length (terminated R),
      (cell, ptr + length (terminated (take rem_cells R)) - cell) #
        spans_from (ptr + length (terminated (take rem_cells R))) rest (drop rem_cells R), g')"
  using i draws serve R old p
proof (induction "rem_cells + sum_list rest + length rest + (length sizes - i)"
    arbitrary: rem_cells rest rem_group i n s R ss old pre mid ptr cell g rule: less_induct)
  case less
  let ?u = "s @ [NUL]"
  show ?case
  proof (cases "rem_group < rem_cells")
    case True
    have "drop (Suc i) sizes \<noteq> []" using True less.prems(4,5) by (auto simp: cells_left_def)
    then have i': "Suc i < length sizes" by simp
    let ?size = "sizes ! Suc i"
    have d: "drop (Suc i) sizes = ?size # drop (Suc (Suc i)) sizes" using i' by (simp add: Cons_nth_drop_Suc)
    have f: "first \<le> ?size" using first sizes i' by (metis Suc_leI le_trans nth_mem One_nat_def)
    have l: "length sizes - Suc i = Suc (length sizes - Suc (Suc i))" using i' by simp
    obtain t g1 ts where t: "draw g = Some (t, g1)" "name_draws draw (length sizes - Suc (Suc i)) g1 = Some (ts, g')" "ss = t # ts"
      using less.prems(2) unfolding l by (auto split: bind_splits)
    let ?R' = "cells_left (?size - first) t (drop (Suc (Suc i)) sizes) ts" and ?rem = "rem_cells - (rem_group + first)"
    let ?b = "pre @ mid @ concat (replicate rem_group ?u) @ concat (replicate first (t @ [NUL]))"
    have Req: "R = replicate rem_group s @ replicate first t @ ?R'"
      unfolding less.prems(4) d t(3) by (rule cells_left_next [OF f])
    have tR: "pre @ mid @ terminated R = ?b @ terminated ?R'" by (simp add: Req terminated_replicate)
    have "length old = (length ?u * rem_group + first * Suc (length t)) + length (terminated ?R')"
      using less.prems(6) by (simp add: Req terminated_replicate length_copies)
    then obtain o1 o2 where o: "old = o1 @ o2" "length o1 = length ?u * rem_group + first * Suc (length t)"
      "length o2 = length (terminated ?R')" by (rule split_length)
    obtain n' where n': "serves (again n') (t @ [NUL]) ?b"
      "name_group_loop first next again sizes rest cell rem_cells rem_group i n (pre @ mid @ o1 @ o2 @ ys) ptr g =
       name_group_loop first next again sizes rest cell ?rem (?size - first) (Suc i) n' (?b @ o2 @ ys) (length ?b) g1"
      using group_loop_next [OF True i' f t(1) less.prems(3,7) o(2)] by blast
    have len: "ptr + length (terminated R) = length ?b + length (terminated ?R')" "ptr \<le> length ?b"
      using arg_cong [OF tR, of length] less.prems(7) by simp_all
    have "?rem + sum_list rest = length ?R'" using less.prems(5) True first by (simp add: Req)
    then have 1: "name_group_loop first next again sizes rest cell ?rem (?size - first) (Suc i) n' (?b @ [] @ o2 @ ys) (length ?b) g1 =
      Some (?b @ [] @ terminated ?R' @ ys, length ?b + length (terminated ?R'),
        (cell, length ?b + length (terminated (take ?rem ?R')) - cell) #
          spans_from (length ?b + length (terminated (take ?rem ?R'))) rest (drop ?rem ?R'), g')"
      using True less.prems(8) i' len(2) by (intro less.hyps [OF _ i' t(2) n'(1) refl _ o(3)]) simp_all
    have k: "rem_cells = rem_group + first + ?rem" using True first by simp
    have td: "take rem_cells R = replicate rem_group s @ replicate first t @ take ?rem ?R'" "drop rem_cells R = drop ?rem ?R'"
      unfolding Req by (subst k; simp)+
    have lt: "ptr + length (terminated (take rem_cells R)) = length ?b + length (terminated (take ?rem ?R'))"
      using less.prems(7) by (simp add: td terminated_replicate)
    have tRys: "pre @ mid @ terminated R @ ys = ?b @ [] @ terminated ?R' @ ys" by (simp add: Req terminated_replicate)
    show ?thesis unfolding tRys len(1) lt td(2) 1 [symmetric] using n'(2) by (simp add: o(1))
  next
    case False
    let ?R' = "cells_left (rem_group - rem_cells) s (drop (Suc i) sizes) ss" and ?b = "pre @ mid @ concat (replicate rem_cells ?u)"
    have Req: "R = replicate rem_cells s @ ?R'" unfolding less.prems(4) using False by (intro cells_left_take) simp
    have tR: "pre @ mid @ terminated R = ?b @ terminated ?R'" by (simp add: Req terminated_replicate)
    have "length old = length ?u * rem_cells + length (terminated ?R')"
      using less.prems(6) by (simp add: Req terminated_replicate length_copies)
    then obtain o1 o2 where o: "old = o1 @ o2" "length o1 = length ?u * rem_cells" "length o2 = length (terminated ?R')"
      by (rule split_length)
    have td: "take rem_cells R = replicate rem_cells s" "drop rem_cells R = ?R'" by (simp_all add: Req)
    have len: "ptr + length (terminated R) = length ?b + length (terminated ?R')" "length ?b = ptr + length (terminated (take rem_cells R))"
      using arg_cong [OF tR, of length] less.prems(7) by (simp_all add: td terminated_replicate)
    note 1 = group_loop_span [OF _ less.prems(3,7) o(2), of rem_group sizes rest cell i "o2 @ ys" g]
    show ?thesis
    proof (cases rest)
      case Nil
      then have e: "?R' = []" using less.prems(5) Req by simp
      then have "sum_list (drop (Suc i) sizes) = 0"
        using length_repeat_cells [of "drop (Suc i) sizes" ss] length_name_draws [OF less.prems(2)] by (simp add: cells_left_def)
      then have "\<forall>n \<in> set (drop (Suc i) sizes). n = 0" by simp
      then have "drop (Suc i) sizes = []" using sizes by (metis in_set_dropD last_in_set less_irrefl)
      then have "g' = g" using less.prems(2) by simp
      then show ?thesis using Nil False 1 o len tR td(2) unfolding e by simp
    next
      case (Cons rc rest')
      have "name_group_loop first next again sizes rest' (length ?b) rc (rem_group - rem_cells) i n
          (pre @ (mid @ concat (replicate rem_cells ?u)) @ o2 @ ys) (length ?b) g =
        Some (pre @ (mid @ concat (replicate rem_cells ?u)) @ terminated ?R' @ ys, length ?b + length (terminated ?R'),
          (length ?b, length ?b + length (terminated (take rc ?R')) - length ?b) #
            spans_from (length ?b + length (terminated (take rc ?R'))) rest' (drop rc ?R'), g')"
        using less.prems(1,2,3,5) o(3) Cons Req by (intro less.hyps) simp_all
      note 2 = this
      show ?thesis unfolding td(2) len(1) len(2) [symmetric] using 2 Cons False 1 tR o(1) by simp
    qed
  qed
qed

end

text \<open>A source of names that keeps the name of a group. The clients are the group builders.\<close>

locale group_source = name_source + cell_groups
begin

lemma build_column_names_group_lays_out:
  assumes valid: "valid32 (glob_rng32 g)" and alloc: "allocates malloc" and split: "splits grp (sum_list rcs)"
    and rows: "rcs \<noteq> []" "\<forall>rc \<in> set rcs. 0 < rc"
  shows "\<exists>co sizes names g'.
    build_column_names_group failure first next again size_max grp malloc join (sum_list rcs) rcs g = Some (Inr co, g') \<and>
    group_sizes (gs_count grp) (sum_list rcs) sizes \<and> name_draws draw (gs_count grp) g = Some (names, g') \<and>
    valid32 (glob_rng32 g') \<and> (\<forall>s \<in> set names. form s) \<and> lays_out co join rcs (repeat_cells sizes names)"
proof -
  let ?n = "gs_count grp" and ?rows = "sum_list rcs"
  obtain sizes0 bytes where m: "malloc ?n (size_max * ?rows) = Some (sizes0, bytes)" "length sizes0 = ?n" "length bytes = size_max * ?rows"
    using alloc by (rule allocatesE)
  obtain sizes where part: "gs_partition grp sizes0 ?n ?rows = Some (sizes, ?n)" and gs: "group_sizes ?n ?rows sizes"
    using split m(2) by (rule splitsE)
  have "1 \<le> ?n" using split by (simp add: splits_def)
  then obtain k ks where sz: "sizes = k # ks" "?n = Suc (length ks)" "0 < k" "k + sum_list ks = ?rows" "\<forall>n \<in> set sizes. 0 < n"
    using gs by (cases sizes) (auto simp: group_sizes_def)
  obtain names g' where d: "name_draws draw ?n g = Some (names, g')" "valid32 (glob_rng32 g')" "\<forall>s \<in> set names. form s"
    by (rule draws_return [OF valid])
  then obtain s g1 ss where s: "draw g = Some (s, g1)" "name_draws draw (length ks) g1 = Some (ss, g')" "names = s # ss"
    unfolding sz(2) by (auto split: bind_splits)
  obtain rc rest where rcs: "rcs = rc # rest" "0 < rc" using rows by (cases rcs) auto
  let ?R = "cells_left (k - first) s ks ss" and ?v = "concat (replicate first (s @ [NUL]))"
  have f: "first \<le> k" "first \<le> rc" using first sz(3) rcs(2) by simp_all
  have cells: "repeat_cells sizes names = replicate first s @ ?R"
    using cells_left_next [OF f(1), of 0 s ks s ss] by (simp add: cells_left_def sz(1) s(3))
  have l: "length (repeat_cells sizes names) = ?rows"
    using length_repeat_cells [of sizes names] length_name_draws [OF d(1)] sz by simp
  have ok: "\<forall>c \<in> set (repeat_cells sizes names). length c < size_max \<and> NUL \<notin> set c" using d(3) fits set_repeat_cells by blast
  have tc: "terminated (repeat_cells sizes names) = ?v @ terminated ?R" by (simp add: cells terminated_replicate)
  have "length bytes = (first * Suc (length s) + length (terminated ?R)) + (length bytes - length (terminated (repeat_cells sizes names)))"
    using terminated_bound [of "repeat_cells sizes names" size_max] ok l m(3) by (simp add: tc length_copies)
  then obtain oo ys where "bytes = oo @ ys" "length oo = first * Suc (length s) + length (terminated ?R)"
    by (rule split_length)
  moreover obtain o1 o2 where "oo = o1 @ o2" "length o1 = first * Suc (length s)" "length o2 = length (terminated ?R)"
    using calculation(2) by (rule split_length)
  ultimately have b: "bytes = o1 @ o2 @ ys" "length o1 = first * Suc (length s)" "length o2 = length (terminated ?R)" by simp_all
  obtain n where n: "next bytes 0 g = Some (n, ?v @ o2 @ ys, length ?v, g1)" "serves (again n) (s @ [NUL]) ?v"
    using next_puts [OF s(1) b(2), of "[]" "o2 @ ys"] by (auto simp: b(1) length_copies)
  have lR: "rc - first + sum_list rest = length ?R" using l f(2) unfolding cells by (simp add: rcs(1))
  have 1: "name_group_loop first next again sizes rest 0 (rc - first) (k - first) 0 n (?v @ [] @ o2 @ ys) (length ?v) g1 =
    Some (?v @ [] @ terminated ?R @ ys, length ?v + length (terminated ?R),
      (0, length ?v + length (terminated (take (rc - first) ?R)) - 0) #
        spans_from (length ?v + length (terminated (take (rc - first) ?R))) rest (drop (rc - first) ?R), g')"
    using s(2) lR by (intro group_loop_eq [OF sz(5) _ _ n(2) _ _ b(3)]) (simp_all add: sz(1))
  have sp: "(0, length ?v + length (terminated (take (rc - first) ?R))) #
      spans_from (length ?v + length (terminated (take (rc - first) ?R))) rest (drop (rc - first) ?R) =
    spans_from (length ([] :: bytes)) rcs (repeat_cells sizes names)"
    using f(2) by (simp add: rcs(1) cells terminated_replicate)
  let ?b = "?v @ terminated ?R @ ys"
  have "lays_out \<lparr>co_contents = ?b, co_spans = map (hook join ?b) (spans_from (length ([] :: bytes)) rcs (repeat_cells sizes names)),
      co_length = length ?v + length (terminated ?R)\<rparr> join rcs (repeat_cells sizes names)"
    using ok l by (intro lays_out_hook [of _ _ _ ys]) (simp_all add: tc)
  moreover have "build_column_names_group failure first next again size_max grp malloc join ?rows rcs g =
    Some (Inr \<lparr>co_contents = ?b, co_spans = map (hook join ?b) (spans_from (length ([] :: bytes)) rcs (repeat_cells sizes names)),
      co_length = length ?v + length (terminated ?R)\<rparr>, g')"
    using 1 m(1) part n(1) f unfolding build_column_names_group_def sp [symmetric]
    by (simp add: rcs(1) sz(1) step_back_def load_size_def)
  ultimately show ?thesis using gs d by blast
qed

end

lemma put_sample_next:
  assumes "map_ok m nm" "text_sample nm g = Some (s, g')"
  shows "\<exists>n. next_single nm b p g = Some (n, b, p, g') \<and> serves (again_single n) (s @ [NUL]) pre"
proof -
  obtain name where name: "name_map_sample nm g = Some (name, g')" "s = stub_text name"
    using assms(2) by (auto simp: text_sample_def split: bind_splits)
  have "writes (again_single name) (s @ [NUL])"
    using assms(1) name_map_sample_in [OF name(1)] unfolding name(2) by (intro writes_put_stub(3)) (auto simp: map_ok_def)
  then have "serves (again_single name) (s @ [NUL]) pre"
    using writesD [of "again_single name" "s @ [NUL]" _ _ "pre @ _"] unfolding serves_def by simp
  then show ?thesis using name(1) by (simp add: next_single_def)
qed

interpretation first_groups: group_source "put_sample put_stub_stop first_name_map" "text_sample first_name_map"
  "\<lambda>s. s \<in> map_texts first_name_map" FIRST_NAME_SIZE_MAX 0 "next_single first_name_map" again_single
  using put_sample_next [OF first_name_map_ok] by unfold_locales simp_all

interpretation last_groups: group_source "put_sample put_stub_stop last_name_map" "text_sample last_name_map"
  "\<lambda>s. s \<in> map_texts last_name_map" LAST_NAME_SIZE_MAX 0 "next_single last_name_map" again_single
  using put_sample_next [OF last_name_map_ok] by unfold_locales simp_all

interpretation full_groups: group_source put_full_name text_full full_form FULL_NAME_SIZE_MAX 1 next_full again_full
proof unfold_locales
  fix g s g' and old xs ys :: bytes
  assume a: "text_full g = Some (s, g')" "length old = 1 * Suc (length s)"
  have "next_full (xs @ old @ ys) (length xs) g =
      Some ((length xs, Suc (length s)), xs @ (s @ [NUL]) @ ys, length xs + Suc (length s), g')"
    using full_source.put_one [OF a(1) _ refl, of old xs ys] a(2) by (simp add: next_full_def step_back_def)
  moreover have "serves (again_full (length xs, Suc (length s))) (s @ [NUL]) (xs @ (s @ [NUL]))"
    unfolding serves_def
  proof (intro allI impI)
    fix mid old ys :: bytes assume "length old = length (s @ [NUL])"
    then show "again_full (length xs, Suc (length s)) ((xs @ (s @ [NUL])) @ mid @ old @ ys) (length ((xs @ (s @ [NUL])) @ mid)) =
        Some ((xs @ (s @ [NUL])) @ mid @ (s @ [NUL]) @ ys, length ((xs @ (s @ [NUL])) @ mid) + length (s @ [NUL]))"
      using group_string_copier.copies [OF TrueI, of old "s @ [NUL]" xs mid ys]
      by (simp add: again_full_def copy_group_string_def)
  qed
  ultimately show "\<exists>n. next_full (xs @ old @ ys) (length xs) g =
      Some (n, xs @ concat (replicate 1 (s @ [NUL])) @ ys, length xs + 1 * Suc (length s), g') \<and>
    serves (again_full n) (s @ [NUL]) (xs @ concat (replicate 1 (s @ [NUL])))"
    by simp
qed simp

section \<open>Columns of names\<close>

text \<open>The kinds of names, with the builders the specification calls through \<open>build\<close>.\<close>

datatype name_kind = Names_First | Names_Last | Names_Full

fun build_column_string_names :: "name_kind \<Rightarrow> alloc \<Rightarrow> bool \<Rightarrow> nat \<Rightarrow> nat list \<Rightarrow> rngs \<Rightarrow> name_built" where
  "build_column_string_names Names_First = build_column_string_names_first"
| "build_column_string_names Names_Last = build_column_string_names_last"
| "build_column_string_names Names_Full = build_column_string_names_full"

fun build_column_string_names_group ::
  "name_kind \<Rightarrow> grp_spec \<Rightarrow> alloc \<Rightarrow> bool \<Rightarrow> nat \<Rightarrow> nat list \<Rightarrow> rngs \<Rightarrow> name_built" where
  "build_column_string_names_group Names_First = build_column_string_names_first_group"
| "build_column_string_names_group Names_Last = build_column_string_names_last_group"
| "build_column_string_names_group Names_Full = build_column_string_names_full_group"

fun names_text :: "name_kind \<Rightarrow> text_draw" where
  "names_text Names_First = text_sample first_name_map"
| "names_text Names_Last = text_sample last_name_map"
| "names_text Names_Full = text_full"

text \<open>A name of the kind, no longer than the type of its column holds.\<close>

fun names_form :: "name_kind \<Rightarrow> string \<Rightarrow> bool" where
  "names_form Names_First s \<longleftrightarrow> s \<in> map_texts first_name_map \<and> length s \<le> FIRST_NAME_LENGTH_MAX"
| "names_form Names_Last s \<longleftrightarrow> s \<in> map_texts last_name_map \<and> length s \<le> LAST_NAME_LENGTH_MAX"
| "names_form Names_Full s \<longleftrightarrow> full_form s \<and> length s \<le> FULL_NAME_LENGTH_MAX"

lemma names_form_iff:
  "list_all (names_form Names_First) ss \<longleftrightarrow> (\<forall>s \<in> set ss. s \<in> map_texts first_name_map)"
  "list_all (names_form Names_Last) ss \<longleftrightarrow> (\<forall>s \<in> set ss. s \<in> map_texts last_name_map)"
  "list_all (names_form Names_Full) ss \<longleftrightarrow> (\<forall>s \<in> set ss. full_form s)"
  using map_texts_ok [OF first_name_map_ok] map_texts_ok [OF last_name_map_ok] full_form_ok
  by (force simp: list_all_iff)+

lemmas name_builders =
  build_column_string_names_first_def build_column_string_names_last_def build_column_string_names_full_def
  build_column_string_names_first_group_def build_column_string_names_last_group_def
  build_column_string_names_full_group_def put_single_names_def [abs_def] put_full_names_def

text \<open>A state that seeding leaves, with addresses chosen for the two objects.\<close>

definition seeded :: "64 word \<Rightarrow> rngs" where
  "seeded seed = \<lparr>glob_rng32 = pcg32_srandom_r 16 32 seed, glob_rng64 = pcg64_srandom_r 16 32 (UINT128_INITIALIZER seed seed)\<rparr>"

lemma seeded_valid: "valid32 (glob_rng32 (seeded seed))"
  by (simp add: seeded_def pcg32_srandom_r_valid)

text \<open>
  C37: a column of names is always built. From every state of the 32-bit generator that seeding can lead to,
  the draws return and the builder writes one name per row in the order they are drawn, each a first
  name, a last name, or a first name with a last name and at random a capital or a second first name
  between them; the block it allocated has room for them, and the type of the column too.
\<close>

theorem name_columns:
  assumes "valid32 (glob_rng32 g)" and "allocates malloc" and "rcs \<noteq> []" "\<forall>rc \<in> set rcs. 0 < rc"
  shows "\<exists>co names g'. build_column_string_names kind malloc join (sum_list rcs) rcs g = Some (Inr co, g') \<and>
    name_draws (names_text kind) (sum_list rcs) g = Some (names, g') \<and> valid32 (glob_rng32 g') \<and>
    list_all (names_form kind) names \<and> lays_out co join rcs names"
proof (cases kind)
  case Names_First
  then show ?thesis using first_source.build_column_names_lays_out [OF assms, of BCSN_FIRST_MALLOC_FAILURE join]
    by (simp only: name_builders build_column_string_names.simps names_text.simps names_form_iff)
next
  case Names_Last
  then show ?thesis using last_source.build_column_names_lays_out [OF assms, of BCSN_LAST_MALLOC_FAILURE join]
    by (simp only: name_builders build_column_string_names.simps names_text.simps names_form_iff)
next
  case Names_Full
  then show ?thesis using full_source.build_column_names_lays_out [OF assms, of BCSN_FULL_MALLOC_FAILURE join]
    by (simp only: name_builders build_column_string_names.simps names_text.simps names_form_iff)
qed

theorem name_columns_witness:
  "\<exists>co names g'. build_column_string_names Names_Full zero_alloc False 5 [2, 3] (seeded 1700000000) = Some (Inr co, g') \<and>
    name_draws (names_text Names_Full) 5 (seeded 1700000000) = Some (names, g') \<and> valid32 (glob_rng32 g') \<and>
    list_all (names_form Names_Full) names \<and> lays_out co False [2, 3] names"
  using name_columns [OF seeded_valid zero_alloc_allocates, of "[2, 3]" Names_Full False 1700000000] by simp

text \<open>
  C38: a column of names in groups is always built too: one name is drawn per group, and every row of a
  group holds it.
\<close>

theorem name_group_columns:
  assumes "valid32 (glob_rng32 g)" and "allocates malloc" and "splits grp (sum_list rcs)"
    and "rcs \<noteq> []" "\<forall>rc \<in> set rcs. 0 < rc"
  shows "\<exists>co sizes names g'. build_column_string_names_group kind grp malloc join (sum_list rcs) rcs g = Some (Inr co, g') \<and>
    group_sizes (gs_count grp) (sum_list rcs) sizes \<and>
    name_draws (names_text kind) (gs_count grp) g = Some (names, g') \<and> valid32 (glob_rng32 g') \<and>
    list_all (names_form kind) names \<and> lays_out co join rcs (repeat_cells sizes names)"
proof (cases kind)
  case Names_First
  then show ?thesis using first_groups.build_column_names_group_lays_out [OF assms, of BCSN_FIRST_GROUP_MALLOC_FAILURE join]
    by (simp only: name_builders build_column_string_names_group.simps names_text.simps names_form_iff)
next
  case Names_Last
  then show ?thesis using last_groups.build_column_names_group_lays_out [OF assms, of BCSN_LAST_GROUP_MALLOC_FAILURE join]
    by (simp only: name_builders build_column_string_names_group.simps names_text.simps names_form_iff)
next
  case Names_Full
  then show ?thesis using full_groups.build_column_names_group_lays_out [OF assms, of BCSN_FULL_GROUP_MALLOC_FAILURE join]
    by (simp only: name_builders build_column_string_names_group.simps names_text.simps names_form_iff)
qed

theorem name_group_columns_witness:
  "\<exists>co sizes names g'. build_column_string_names_group Names_Last \<lparr>gs_count = 3, gs_partition = partition_groups_even\<rparr>
      zero_alloc True 5 [2, 3] (seeded 1700000000) = Some (Inr co, g') \<and> group_sizes 3 5 sizes \<and>
    name_draws (names_text Names_Last) 3 (seeded 1700000000) = Some (names, g') \<and> valid32 (glob_rng32 g') \<and>
    list_all (names_form Names_Last) names \<and> lays_out co True [2, 3] (repeat_cells sizes names)"
proof -
  let ?g = "\<lparr>gs_count = 3, gs_partition = partition_groups_even\<rparr>"
  have "splits ?g (sum_list [2, 3])" using even.partitioner_splits [of 3 5] by simp
  from name_group_columns [OF seeded_valid zero_alloc_allocates this, where kind = Names_Last and join = True and seed1 = 1700000000]
  show ?thesis by simp
qed

section \<open>The threshold of the names\<close>

lemma card_word_residue:
  fixes t n v :: "'w::len word"
  shows "card {r. t \<le> r \<and> r mod n = v} = card {k. unat t \<le> k \<and> k < 2 ^ LENGTH('w) \<and> k mod unat n = unat v}"
proof -
  let ?N = "{k. unat t \<le> k \<and> k < 2 ^ LENGTH('w) \<and> k mod unat n = unat v}"
  have im: "unat ` {r. t \<le> r \<and> r mod n = v} = ?N"
  proof (intro set_eqI iffI)
    fix k assume "k \<in> ?N"
    moreover from this have u: "unat (word_of_nat k :: 'w word) = k" by (simp add: unsigned_of_nat take_bit_nat_eq_self)
    ultimately show "k \<in> unat ` {r. t \<le> r \<and> r mod n = v}"
      by (intro image_eqI [of _ _ "word_of_nat k"]) (simp_all add: word_le_nat_alt word_unat_eq_iff unat_mod)
  qed (auto simp: word_le_nat_alt unat_mod [symmetric])
  have "inj_on unat {r. t \<le> r \<and> r mod n = v}" by (simp add: inj_on_def word_unat_eq_iff)
  from card_image [OF this] show ?thesis unfolding im by (rule sym)
qed

lemma name_maps_values:
  "nm_threshold first_name_map = 16" "nm_span first_name_map = 200"
  "nm_threshold last_name_map = 16" "nm_span last_name_map = 200"
  by (simp_all add: first_name_map_def last_name_map_def FIRST_NAMES_COUNT_def LAST_NAMES_COUNT_def)

text \<open>
  The names are not drawn evenly. The threshold of the name maps is computed from a 64-bit count,
  where the loop of \<open>random_uint32_bound\<close> needs the one of 32 bits, \<open>96\<close>: 80 of the 200 names are given
  by one number more than the others.
\<close>

theorem names_not_even:
  assumes "nm = first_name_map \<or> nm = last_name_map" and "v < 200"
  shows "card {r. nm_threshold nm \<le> r \<and>
      random_bound (\<lambda>rng. (r, next rng)) (nm_threshold nm) (nm_span nm) rng = Some (v, next rng)} =
    (if 16 \<le> v \<and> v < 96 then 21474837 else 21474836)"
proof -
  have m: "nm_threshold nm = 16" "nm_span nm = 200" using assms(1) name_maps_values by auto
  have v: "unat v < 200" using assms(2) by (simp add: word_less_nat_alt)
  let ?N = "{k. 16 \<le> k \<and> k < 96 + 21474836 * 200 \<and> k mod 200 = unat v}"
  have "{r. nm_threshold nm \<le> r \<and>
      random_bound (\<lambda>rng. (r, next rng)) (nm_threshold nm) (nm_span nm) rng = Some (v, next rng)} = {r. 16 \<le> r \<and> r mod 200 = v}"
    unfolding m by (auto simp: random_bound_accepts)
  then have c: "card {r. nm_threshold nm \<le> r \<and>
      random_bound (\<lambda>rng. (r, next rng)) (nm_threshold nm) (nm_span nm) rng = Some (v, next rng)} = card ?N"
    using card_word_residue [of 16 200 v] by simp
  let ?A = "{k. 96 \<le> k \<and> k < 96 + 21474836 * 200 \<and> k mod 200 = unat v}" and ?B = "{k. 16 \<le> k \<and> k < 96 \<and> k = unat v}"
  have "?N = ?A \<union> ?B"
  proof (rule set_eqI)
    fix k :: nat
    have "k < 96 \<Longrightarrow> k mod 200 = k" by simp
    then show "k \<in> ?N \<longleftrightarrow> k \<in> ?A \<union> ?B" by (cases "k < 96") auto
  qed
  moreover have "?A \<inter> ?B = {}" by auto
  moreover have "finite ?A" "finite ?B" by simp_all
  ultimately have "card ?N = card ?A + card ?B" by (simp add: card_Un_disjoint)
  moreover have "card ?A = 21474836" using card_residue [OF v, of 96 21474836] by simp
  moreover have "?B = (if 16 \<le> v \<and> v < 96 then {unat v} else {})"
    by (auto simp: word_le_nat_alt word_less_nat_alt)
  ultimately show ?thesis unfolding c by simp
qed

theorem names_not_even_witness:
  "card {r. nm_threshold first_name_map \<le> r \<and>
      random_bound (\<lambda>rng :: nat. (r, Suc rng)) (nm_threshold first_name_map) (nm_span first_name_map) 0 = Some (20, 1)} = 21474837 \<and>
   card {r. nm_threshold last_name_map \<le> r \<and>
      random_bound (\<lambda>rng :: nat. (r, Suc rng)) (nm_threshold last_name_map) (nm_span last_name_map) 0 = Some (120, 1)} = 21474836"
  using names_not_even [of first_name_map 20 Suc 0] names_not_even [of last_name_map 120 Suc 0] by simp

end
