(* ===== verification/Random_Groups.thy ===== *)
theory Random_Groups
  imports Random_Columns Name_Columns
begin

text \<open>
  The builders of random numbers in groups, \<open>src/generate/column_integer_random.c\<close> and
  \<open>src/generate/column_u_integer_random.c\<close>: what they leave in the contents, and how much room they need
  for it. Their loop is an instance of the one for names, with the cells copied by the routine for
  digits.
\<close>

section \<open>The loop\<close>

definition again_digits :: "nat \<times> nat \<Rightarrow> put" where
  "again_digits = (\<lambda>(width, group_string). copy_digits width group_string)"

definition next_random :: "(64 word \<Rightarrow> put) \<Rightarrow> generator \<Rightarrow> (nat \<times> nat) next_name" where
  "next_random put gen b ptr g =
     do { (b, ptr', g) \<leftarrow> put_random_cell put gen b ptr g; Some ((ptr' - ptr, ptr), b, ptr', g) }"

lemma put_again_digits: "put_again (again_digits (width, gs)) n b ptr = put_copies copy_digits n width gs b ptr"
  by (induction n arbitrary: b ptr) (simp_all add: again_digits_def split_def)

lemma random_loop_names:
  "random_group_loop put gen sizes rest cell rem_cells rem_group i width gs b ptr g =
   name_group_loop 1 (next_random put gen) again_digits sizes rest cell rem_cells rem_group i (width, gs) b ptr g"
proof (induction put gen sizes rest cell rem_cells rem_group i width gs b ptr g rule: random_group_loop.induct)
  case (1 put gen sizes rest cell rem_cells rem_group i width gs b ptr g)
  show ?case
  proof (cases "rem_group < rem_cells")
    case True
    note IH = "1.IH"(1) [OF True]
    show ?thesis
      by (subst random_group_loop.simps, subst name_group_loop.simps)
        (use True IH in \<open>auto simp: put_again_digits next_random_def [abs_def] split_def intro!: Option.bind_cong\<close>)
  next
    case False
    note IH = "1.IH"(2) [OF False]
    show ?thesis
      by (subst random_group_loop.simps, subst name_group_loop.simps)
        (use False IH in \<open>auto simp: put_again_digits split_def intro!: Option.bind_cong split: list.split\<close>)
  qed
qed

section \<open>Staying in the block\<close>

text \<open>
  A routine that returns stays in the block, and does the same in a longer one. It has no value when the
  block is too short.
\<close>

definition stays :: "put \<Rightarrow> bool" where
  "stays f \<longleftrightarrow> (\<forall>b p b' p' ext. p \<le> length b \<longrightarrow> f b p = Some (b', p') \<longrightarrow>
     length b' = length b \<and> p' \<le> length b \<and> f (b @ ext) p = Some (b' @ ext, p'))"

lemma staysD:
  assumes "stays f" "p \<le> length b" "f b p = Some (b', p')"
  shows "length b' = length b" "p' \<le> length b" "f (b @ ext) p = Some (b' @ ext, p')"
  using assms unfolding stays_def by blast+

lemma store_stays: "store b p c = Some b' \<Longrightarrow> length b' = length b \<and> p < length b \<and> store (b @ ext) p c = Some (b' @ ext)"
  by (auto simp: store_def list_update_append split: if_splits)

lemma stays_copy_digits: "stays (copy_digits w gs)"
  unfolding stays_def
  by (auto simp: copy_digits_def PUT_STRING_WIDTH_MAP_def MEMORY_PUT_WIDTH_def MEMORY_SET_WIDTH_def load_string_def
      store_string_def split: if_splits bind_splits)

lemma do_put_uint_stays:
  "do_put_uint b p n = Some b' \<Longrightarrow> length b' = length b \<and> p < length b \<and> do_put_uint (b @ ext) p n = Some (b' @ ext)"
proof (induction b p n arbitrary: b' rule: do_put_uint.induct)
  case (1 b p n)
  obtain b1 where b1: "store b p (DIGIT_TO_ASCII (unat (n mod 10))) = Some b1"
    using 1(2) by (subst (asm) do_put_uint.simps) (auto split: bind_splits)
  note s = store_stays [OF b1, of ext]
  show ?case
  proof (cases "n div 10 = 0")
    case True
    then have "b' = b1" using 1(2) b1 by (subst (asm) do_put_uint.simps) simp
    then show ?thesis using s True by (subst do_put_uint.simps) simp
  next
    case False
    then obtain q where q: "step_back p 1 = Some q" "do_put_uint b1 q (n div 10) = Some b'"
      using 1(2) b1 by (subst (asm) do_put_uint.simps) (auto split: bind_splits)
    note i = 1(1) [OF b1 refl False q]
    then show ?thesis using s False q(1) by (subst do_put_uint.simps) simp
  qed
qed

lemma stays_put_uint: "stays (put_uint n)"
  unfolding stays_def
proof (intro allI impI)
  fix b p b' p' ext
  assume "put_uint n b p = Some (b', p')"
  then obtain l where l: "step_back (p + uint_digit_count n) 1 = Some l" "do_put_uint b l n = Some b'" "p' = p + uint_digit_count n"
    by (auto simp: put_uint_def Let_def split: bind_splits)
  note d = do_put_uint_stays [OF l(2), of ext]
  have "p' = Suc l" using l(1,3) by (auto simp: step_back_def split: if_splits)
  then show "length b' = length b \<and> p' \<le> length b \<and> put_uint n (b @ ext) p = Some (b' @ ext, p')"
    using d l(1,3) by (simp add: put_uint_def Let_def)
qed

lemma stays_put_int: "stays (put_int n)"
proof (cases "sint n < 0")
  case False
  then have "put_int n = put_uint n" by (intro ext) (simp add: put_int_def)
  then show ?thesis by (simp add: stays_put_uint)
next
  case True
  show ?thesis unfolding stays_def
  proof (intro allI impI)
    fix b p b' p' ext
    assume a: "put_int n b p = Some (b', p')"
    then obtain b1 m where 1: "store b p (CHR ''-'') = Some b1" "negate_int n = Some m" "put_uint m b1 (p + 1) = Some (b', p')"
      using True by (auto simp: put_int_def PUT_CHAR_def split: bind_splits)
    note s = store_stays [OF 1(1), of ext]
    then show "length b' = length b \<and> p' \<le> length b \<and> put_int n (b @ ext) p = Some (b' @ ext, p')"
      using staysD [OF stays_put_uint _ 1(3)] 1(2) True by (auto simp: put_int_def PUT_CHAR_def)
  qed
qed

lemma put_again_stays:
  assumes "stays f" "p \<le> length b" "put_again f n b p = Some (b', p')"
  shows "length b' = length b \<and> p' \<le> length b \<and> put_again f n (b @ ext) p = Some (b' @ ext, p')"
  using assms(2,3)
proof (induction n arbitrary: b p)
  case (Suc n)
  then obtain b1 p1 where 1: "f b p = Some (b1, p1)" "put_again f n b1 p1 = Some (b', p')" by (auto split: bind_splits)
  note w = staysD [OF assms(1) Suc.prems(1) 1(1)]
  then show ?case using Suc.IH [OF _ 1(2)] by (simp add: w)
qed simp

locale bounded_groups = cell_groups +
  assumes again_stays: "stays (again n)"
    and next_stays: "p \<le> length b \<Longrightarrow> next b p g = Some (n, b', p', g') \<Longrightarrow>
      length b' = length b \<and> p' \<le> length b \<and> next (b @ ext) p g = Some (n, b' @ ext, p', g')"
begin

lemma group_loop_stays:
  assumes "p \<le> length b"
    "name_group_loop first next again sizes rest cell rem_cells rem_group i n b p g = Some (b', p', spans, g')"
  shows "length b' = length b \<and> p' \<le> length b \<and>
    name_group_loop first next again sizes rest cell rem_cells rem_group i n (b @ ext) p g = Some (b' @ ext, p', spans, g')"
  using assms
proof (induction "rem_cells + sum_list rest + length rest + (length sizes - i)"
    arbitrary: rest cell rem_cells rem_group i n b p g spans rule: less_induct)
  case less
  show ?case
  proof (cases "rem_group < rem_cells")
    case True
    then obtain b1 p1 n2 b2 p2 g2 size rem' where 1: "put_again (again n) rem_group b p = Some (b1, p1)"
      "next b1 p1 g = Some (n2, b2, p2, g2)" "load_size sizes (i + 1) = Some size" "step_back size first = Some rem'"
      "name_group_loop first next again sizes rest cell (rem_cells - (rem_group + first)) rem' (i + 1) n2 b2 p2 g2 =
        Some (b', p', spans, g')"
      using less.prems(2) by (subst (asm) name_group_loop.simps) (auto split: bind_splits)
    note w1 = put_again_stays [OF again_stays less.prems(1) 1(1), of ext]
    then have w2: "length b2 = length b1 \<and> p2 \<le> length b1 \<and> next (b1 @ ext) p1 g = Some (n2, b2 @ ext, p2, g2)"
      using next_stays [OF _ 1(2), of ext] by simp
    have "i + 1 < length sizes" using 1(3) by (simp add: load_size_def split: if_splits)
    then have "length b' = length b2 \<and> p' \<le> length b2 \<and>
        name_group_loop first next again sizes rest cell (rem_cells - (rem_group + first)) rem' (i + 1) n2 (b2 @ ext) p2 g2 =
          Some (b' @ ext, p', spans, g')"
      using w2 by (intro less.hyps [OF _ _ 1(5)]) auto
    then show ?thesis using True w1 w2 1(3,4) by (subst name_group_loop.simps) simp
  next
    case False
    then obtain b1 p1 where 1: "put_again (again n) rem_cells b p = Some (b1, p1)"
      using less.prems(2) by (subst (asm) name_group_loop.simps) (auto split: bind_splits)
    note w1 = put_again_stays [OF again_stays less.prems(1) 1, of ext]
    show ?thesis
    proof (cases rest)
      case Nil
      then have "b' = b1" "p' = p1" "spans = [(cell, p1 - cell)]" "g' = g"
        using less.prems(2) False 1 by (subst (asm) name_group_loop.simps, simp)+
      then show ?thesis using Nil False w1 by (subst name_group_loop.simps) simp
    next
      case (Cons rc rest')
      then obtain spans' where 2: "name_group_loop first next again sizes rest' p1 rc (rem_group - rem_cells) i n b1 p1 g =
          Some (b', p', spans', g')" "spans = (cell, p1 - cell) # spans'"
        using less.prems(2) False 1 by (subst (asm) name_group_loop.simps) (auto split: bind_splits)
      have "length b' = length b1 \<and> p' \<le> length b1 \<and>
          name_group_loop first next again sizes rest' p1 rc (rem_group - rem_cells) i n (b1 @ ext) p1 g =
            Some (b' @ ext, p', spans', g')"
        using w1 Cons by (intro less.hyps [OF _ _ 2(1)]) auto
      then show ?thesis using Cons False w1 2(2) by (subst name_group_loop.simps) simp
    qed
  qed
qed

end

section \<open>The numbers\<close>

text \<open>The text of a number that is drawn; there is none for a number that cannot be printed.\<close>

definition random_text :: "(64 word \<Rightarrow> string option) \<Rightarrow> generator \<Rightarrow> text_draw" where
  "random_text text gen g = do { (v, g) \<leftarrow> gen g; s \<leftarrow> text v; Some (s, g) }"

lemma put_random_cell_stays:
  assumes "\<And>v. stays (put v)" "p \<le> length b" "put_random_cell put gen b p g = Some (b', p', g')"
  shows "length b' = length b \<and> p' \<le> length b \<and> put_random_cell put gen (b @ ext) p g = Some (b' @ ext, p', g')"
proof -
  obtain v b1 p1 where 1: "gen g = Some (v, g')" "put v b p = Some (b1, p1)" "store b1 p1 NUL = Some b'" "p' = p1 + 1"
    using assms(3) by (auto simp: put_random_cell_def split: bind_splits)
  note w = staysD [OF assms(1,2) 1(2)] and s = store_stays [OF 1(3), of ext]
  show ?thesis using 1(1,4) w s by (simp add: put_random_cell_def)
qed

lemma random_groups:
  assumes stays: "\<And>v. stays (put v)"
    and puts: "\<And>v s. text v = Some s \<Longrightarrow> writes (put v) s \<and> length s < CHAR_BUFFER_WIDTH_MAX"
  shows "bounded_groups (random_text text gen) 1 (next_random put gen) again_digits"
proof
  fix n show "stays (again_digits n)" by (cases n) (simp add: again_digits_def stays_copy_digits)
next
  fix p b g n b' p' g' ext
  assume a: "p \<le> length b" "next_random put gen b p g = Some (n, b', p', g')"
  then have n: "put_random_cell put gen b p g = Some (b', p', g')" "n = (p' - p, p)"
    by (auto simp: next_random_def split: bind_splits)
  show "length b' = length b \<and> p' \<le> length b \<and> next_random put gen (b @ ext) p g = Some (n, b' @ ext, p', g')"
    using put_random_cell_stays [OF stays a(1) n(1), of ext] n(2) by (simp add: next_random_def)
next
  fix g s g' and old xs ys :: bytes
  assume a: "random_text text gen g = Some (s, g')" "length old = 1 * Suc (length s)"
  then obtain v where v: "gen g = Some (v, g')" "text v = Some s" by (auto simp: random_text_def split: bind_splits)
  note t = puts [OF v(2)]
  have "put_random_cell put gen (xs @ old @ ys) (length xs) g = Some (xs @ (s @ [NUL]) @ ys, length xs + Suc (length s), g')"
    by (rule put_random_cell_eq [where gen = gen and v = v]) (use v(1) t a(2) in simp_all)
  then have 1: "next_random put gen (xs @ old @ ys) (length xs) g =
      Some ((Suc (length s), length xs), xs @ (s @ [NUL]) @ ys, length xs + Suc (length s), g')"
    by (simp add: next_random_def)
  have "serves (again_digits (Suc (length s), length xs)) (s @ [NUL]) (xs @ (s @ [NUL]))"
    unfolding serves_def
  proof (intro allI impI)
    fix mid old ys :: bytes assume "length old = length (s @ [NUL])"
    then show "again_digits (Suc (length s), length xs) ((xs @ (s @ [NUL])) @ mid @ old @ ys) (length ((xs @ (s @ [NUL])) @ mid)) =
        Some ((xs @ (s @ [NUL])) @ mid @ (s @ [NUL]) @ ys, length ((xs @ (s @ [NUL])) @ mid) + length (s @ [NUL]))"
      using digits_copier.copies [of "s @ [NUL]" old xs mid ys] t by (simp add: again_digits_def)
  qed
  then show "\<exists>n. next_random put gen (xs @ old @ ys) (length xs) g =
      Some (n, xs @ concat (replicate 1 (s @ [NUL])) @ ys, length xs + 1 * Suc (length s), g') \<and>
    serves (again_digits n) (s @ [NUL]) (xs @ concat (replicate 1 (s @ [NUL])))"
    using 1 by auto
qed simp

section \<open>The columns\<close>

definition uint_text :: "64 word \<Rightarrow> string option" where
  "uint_text v = Some (decimal_int (uint v))"

definition int_text :: "64 word \<Rightarrow> string option" where
  "int_text v = (if v = INTMAX_MIN then None else Some (decimal_int (sint v)))"

lemma number_texts:
  "uint_text v = Some s \<Longrightarrow> writes (put_uint v) s \<and> length s < CHAR_BUFFER_WIDTH_MAX"
  "int_text v = Some s \<Longrightarrow> writes (put_int v) s \<and> length s < CHAR_BUFFER_WIDTH_MAX"
proof -
  have "decimal_int (uint v) = decimal (unat v)" by (simp add: decimal_int_def)
  moreover have "length (decimal_int (uint v)) < 21" by (rule width_u_64) (use uint_lt2p [of v] in simp_all)
  ultimately show "uint_text v = Some s \<Longrightarrow> writes (put_uint v) s \<and> length s < CHAR_BUFFER_WIDTH_MAX"
    using writes_put_uint [of v] by (auto simp: uint_text_def CHAR_BUFFER_WIDTH_MAX_def)
  have "length (decimal_int (sint v)) < 21" by (rule width_i_64) (use sint_range64 [of v] in simp_all)
  then show "int_text v = Some s \<Longrightarrow> writes (put_int v) s \<and> length s < CHAR_BUFFER_WIDTH_MAX"
    using writes_put_int [of v] by (auto simp: int_text_def CHAR_BUFFER_WIDTH_MAX_def split: if_splits)
qed

interpretation uint_groups: bounded_groups "random_text uint_text gen" 1 "next_random put_uint gen" again_digits for gen
  by (rule random_groups [OF stays_put_uint number_texts(1)])

interpretation int_groups: bounded_groups "random_text int_text gen" 1 "next_random put_int gen" again_digits for gen
  by (rule random_groups [OF stays_put_int number_texts(2)])

text \<open>The first cell, then the loop, in a block with room for both.\<close>

definition group_cells_from ::
  "(64 word \<Rightarrow> put) \<Rightarrow> generator \<Rightarrow> nat list \<Rightarrow> nat list \<Rightarrow> bytes \<Rightarrow> rngs \<Rightarrow> (nat \<times> bytes \<times> nat \<times> spans \<times> rngs) option" where
  "group_cells_from put gen sizes rcs bytes g =
     do { (b, ptr, g) \<leftarrow> put_random_cell put gen bytes 0 g;
          rem_group \<leftarrow> load_size sizes 0;
          (rc, rest) \<leftarrow> (case rcs of [] \<Rightarrow> None | rc # rest \<Rightarrow> Some (rc, rest));
          (b, ptr', spans, g) \<leftarrow> random_group_loop put gen sizes rest ptr rc rem_group 0 ptr 0 b ptr g;
          Some (ptr, b, ptr', spans, g) }"

lemma build_column_random_group_from:
  assumes "malloc (gs_count grp) (width_max * row_count) = Some (sizes0, bytes)"
    and "gs_partition grp sizes0 (gs_count grp) row_count = Some (sizes, gs_count grp)"
  shows "build_column_random_group failure put gen width_max grp malloc join row_count rcs g =
    do { (ptr, b, ptr', spans, g) \<leftarrow> group_cells_from put gen sizes rcs bytes g;
         Some (Inr \<lparr>co_contents = b, co_spans = map (hook join b) spans, co_length = ptr' - ptr\<rparr>, g) }"
  using assms by (simp add: build_column_random_group_def group_cells_from_def split_def)

lemma group_cells_room:
  assumes G: "bounded_groups draw 1 (next_random put gen) again_digits"
    and gs: "group_sizes n (sum_list rcs) sizes" "0 < n" and d: "name_draws draw n g = Some (names, g')" and rows: "rcs \<noteq> []"
  defines "cells \<equiv> repeat_cells sizes names" and "p \<equiv> Suc (length (hd names))"
  assumes room: "p + length (terminated cells) \<le> length bytes"
  shows "\<exists>ys. group_cells_from put gen sizes rcs bytes g =
    Some (p, (hd names @ [NUL]) @ terminated cells @ ys, p + length (terminated cells), spans_from p rcs cells, g')"
proof -
  obtain k ks where sz: "sizes = k # ks" "n = Suc (length ks)" "k + sum_list ks = sum_list rcs" "\<forall>n \<in> set sizes. 0 < n"
    using gs by (cases sizes) (auto simp: group_sizes_def)
  obtain s g1 ss where s: "draw g = Some (s, g1)" "name_draws draw (length ks) g1 = Some (ss, g')" "names = s # ss"
    using d unfolding sz(2) by (auto split: bind_splits)
  obtain rc rest where rcs: "rcs = rc # rest" using rows by (cases rcs) auto
  have c: "cells = cells_left k s ks ss" by (simp add: cells_def sz(1) s(3) cells_left_def)
  have l: "rc + sum_list rest = length cells"
    using length_repeat_cells [of sizes names] length_name_draws [OF d] sz rcs by (simp add: cells_def)
  have p: "p = length (s @ [NUL])" by (simp add: p_def s(3))
  have "length bytes = length (s @ [NUL]) + (length bytes - length (s @ [NUL]))" using room p by simp
  then obtain o1 r1 where r1: "bytes = o1 @ r1" "length o1 = length (s @ [NUL])" by (rule split_length)
  then have "length r1 = length (terminated cells) + (length r1 - length (terminated cells))" using room p by simp
  then obtain o2 ys where r2: "r1 = o2 @ ys" "length o2 = length (terminated cells)" by (rule split_length)
  obtain m where m: "next_random put gen ([] @ o1 @ o2 @ ys) (length ([] :: bytes)) g =
      Some (m, (s @ [NUL]) @ o2 @ ys, length (s @ [NUL]), g1)" "serves (again_digits m) (s @ [NUL]) (s @ [NUL])"
    using cell_groups.next_puts [OF bounded_groups.axioms(1) [OF G] s(1), of o1 "[]" "o2 @ ys"] r1(2) by auto
  then have m': "put_random_cell put gen bytes 0 g = Some ((s @ [NUL]) @ o2 @ ys, p, g1)" "m = (p, 0)"
    by (auto simp: next_random_def r1 r2 p split: bind_splits)
  have "name_group_loop 1 (next_random put gen) again_digits sizes rest p rc k 0 m ((s @ [NUL]) @ [] @ o2 @ ys) p g1 =
      Some ((s @ [NUL]) @ [] @ terminated cells @ ys, p + length (terminated cells),
        (p, p + length (terminated (take rc cells)) - p) #
          spans_from (p + length (terminated (take rc cells))) rest (drop rc cells), g')"
    by (rule cell_groups.group_loop_eq [OF bounded_groups.axioms(1) [OF G] sz(4) _ _ m(2) _ l r2(2)])
      (use s(2) c p in \<open>simp_all add: sz(1)\<close>)
  then have "random_group_loop put gen sizes rest p rc k 0 p 0 ((s @ [NUL]) @ o2 @ ys) p g1 =
      Some ((s @ [NUL]) @ terminated cells @ ys, p + length (terminated cells), spans_from p rcs cells, g')"
    unfolding random_loop_names m'(2) by (simp add: rcs)
  then show ?thesis using m'(1) by (intro exI [of _ ys]) (simp add: group_cells_from_def rcs sz(1) load_size_def s(3))
qed

lemma group_cells_bound:
  assumes G: "bounded_groups draw 1 (next_random put gen) again_digits"
    and r: "group_cells_from put gen sizes rcs bytes g = Some (ptr, b, ptr', spans, g2)"
  shows "ptr' \<le> length bytes \<and> group_cells_from put gen sizes rcs (bytes @ ext) g = Some (ptr, b @ ext, ptr', spans, g2)"
proof -
  obtain b1 g1 rem_group rc rest where 1: "put_random_cell put gen bytes 0 g = Some (b1, ptr, g1)" "load_size sizes 0 = Some rem_group"
    "rcs = rc # rest" "random_group_loop put gen sizes rest ptr rc rem_group 0 ptr 0 b1 ptr g1 = Some (b, ptr', spans, g2)"
    using r by (auto simp: group_cells_from_def split: bind_splits list.splits)
  have "next_random put gen bytes 0 g = Some ((ptr, 0), b1, ptr, g1)" using 1(1) by (simp add: next_random_def)
  then have w1: "length b1 = length bytes \<and> ptr \<le> length bytes \<and> next_random put gen (bytes @ ext) 0 g = Some ((ptr, 0), b1 @ ext, ptr, g1)"
    using bounded_groups.next_stays [OF G, of 0 bytes] by simp
  then have c: "put_random_cell put gen (bytes @ ext) 0 g = Some (b1 @ ext, ptr, g1)"
    by (auto simp: next_random_def split: bind_splits)
  have "length b = length b1 \<and> ptr' \<le> length b1 \<and>
      random_group_loop put gen sizes rest ptr rc rem_group 0 ptr 0 (b1 @ ext) ptr g1 = Some (b @ ext, ptr', spans, g2)"
    using w1 1(4) unfolding random_loop_names by (intro bounded_groups.group_loop_stays [OF G]) simp_all
  then show ?thesis using w1 c 1 by (simp add: group_cells_from_def)
qed

lemma build_column_random_group_cases:
  assumes G: "bounded_groups draw 1 (next_random put gen) again_digits"
    and alloc: "allocates malloc" and split: "splits grp (sum_list rcs)" and rows: "rcs \<noteq> []"
    and d: "name_draws draw (gs_count grp) g = Some (names, g')" and nul: "\<forall>s \<in> set names. NUL \<notin> set s"
  shows "\<exists>sizes. group_sizes (gs_count grp) (sum_list rcs) sizes \<and>
    (if length (terminated (hd names # repeat_cells sizes names)) \<le> width_max * sum_list rcs
     then \<exists>co. build_column_random_group failure put gen width_max grp malloc join (sum_list rcs) rcs g = Some (Inr co, g') \<and>
       lays_out co join rcs (repeat_cells sizes names)
     else build_column_random_group failure put gen width_max grp malloc join (sum_list rcs) rcs g = None)"
proof -
  let ?n = "gs_count grp" and ?rows = "sum_list rcs"
  obtain sizes0 bytes where m: "malloc ?n (width_max * ?rows) = Some (sizes0, bytes)" "length sizes0 = ?n" "length bytes = width_max * ?rows"
    using alloc by (rule allocatesE)
  obtain sizes where part: "gs_partition grp sizes0 ?n ?rows = Some (sizes, ?n)" and gs: "group_sizes ?n ?rows sizes"
    using split m(2) by (rule splitsE)
  have n: "0 < ?n" using split by (simp add: splits_def)
  let ?cells = "repeat_cells sizes names" and ?p = "Suc (length (hd names))"
  note e = build_column_random_group_from [where malloc = malloc and grp = grp and width_max = width_max and row_count = ?rows, OF m(1) part,
      of failure put gen join rcs g]
  note room = group_cells_room [OF G gs n d rows]
  have l: "length (terminated (hd names # ?cells)) = ?p + length (terminated ?cells)" by simp
  show ?thesis
  proof (cases "length (terminated (hd names # ?cells)) \<le> width_max * ?rows")
    case True
    then obtain ys where ys: "group_cells_from put gen sizes rcs bytes g =
        Some (?p, (hd names @ [NUL]) @ terminated ?cells @ ys, ?p + length (terminated ?cells), spans_from ?p rcs ?cells, g')"
      using room [of bytes] unfolding l m(3) by blast
    let ?b = "(hd names @ [NUL]) @ terminated ?cells @ ys"
    have "length ?cells = ?rows" using length_repeat_cells [of sizes names] length_name_draws [OF d] gs by (simp add: group_sizes_def)
    moreover have "\<forall>c \<in> set ?cells. NUL \<notin> set c" using nul set_repeat_cells by blast
    ultimately have "lays_out \<lparr>co_contents = ?b, co_spans = map (hook join ?b) (spans_from (length (hd names @ [NUL])) rcs ?cells),
        co_length = length (terminated ?cells)\<rparr> join rcs ?cells"
      by (intro lays_out_hook [of _ _ _ ys]) simp_all
    then show ?thesis using True gs unfolding e ys by auto
  next
    case False
    have "group_cells_from put gen sizes rcs bytes g = None"
    proof (rule ccontr)
      assume "group_cells_from put gen sizes rcs bytes g \<noteq> None"
      then obtain ptr b ptr' spans g2 where r: "group_cells_from put gen sizes rcs bytes g = Some (ptr, b, ptr', spans, g2)" by auto
      let ?ext = "replicate (?p + length (terminated ?cells)) NUL"
      note b = group_cells_bound [OF G r, of ?ext]
      have "?p + length (terminated ?cells) \<le> length (bytes @ ?ext)" by simp
      then obtain ys where "group_cells_from put gen sizes rcs (bytes @ ?ext) g =
          Some (?p, (hd names @ [NUL]) @ terminated ?cells @ ys, ?p + length (terminated ?cells), spans_from ?p rcs ?cells, g')"
        using room by blast
      then have "ptr' = ?p + length (terminated ?cells)" using b by simp
      then show False using b False l m(3) by simp
    qed
    then show ?thesis using False gs unfolding e by auto
  qed
qed

section \<open>Random columns in groups\<close>

text \<open>The call through \<open>build\<close> for a column in groups, signed or not.\<close>

fun build_random_group :: "bool \<Rightarrow> rand_build \<Rightarrow> rand_choice \<Rightarrow> grp_spec \<Rightarrow> alloc \<Rightarrow> bool \<Rightarrow> nat \<Rightarrow> nat list \<Rightarrow> rngs \<Rightarrow> rand_built" where
  "build_random_group True Build_Random = build_column_integer_random_group"
| "build_random_group True Build_Random_From = build_column_integer_random_from_group"
| "build_random_group True Build_Random_Upto = build_column_integer_random_upto_group"
| "build_random_group True Build_Random_Range = build_column_integer_random_range_group"
| "build_random_group False Build_Random = build_column_u_integer_random_group"
| "build_random_group False Build_Random_From = build_column_u_integer_random_from_group"
| "build_random_group False Build_Random_Upto = build_column_u_integer_random_upto_group"
| "build_random_group False Build_Random_Range = build_column_u_integer_random_range_group"

definition number_text :: "bool \<Rightarrow> 64 word \<Rightarrow> string" where
  "number_text sg v = decimal_int (if sg then sint v else uint v)"

lemmas random_group_builders =
  build_column_integer_random_group_def build_column_integer_random_from_group_def build_column_integer_random_upto_group_def
  build_column_integer_random_range_group_def build_column_u_integer_random_group_def build_column_u_integer_random_from_group_def
  build_column_u_integer_random_upto_group_def build_column_u_integer_random_range_group_def

lemma build_random_group_member:
  "\<exists>failure. build_random_group True b c = build_column_random_group failure put_int (gen_of b c) (rc_width_max c)"
  "\<exists>failure. build_random_group False b c = build_column_random_group failure put_uint (gen_of b c) (rc_width_max c)"
  by (cases b; force simp: random_group_builders)+

lemma draws_texts:
  assumes "draws gen n g = Some (vs, g')"
  shows "name_draws (random_text uint_text gen) n g = Some (map (number_text False) vs, g')"
    "INTMAX_MIN \<notin> set vs \<Longrightarrow> name_draws (random_text int_text gen) n g = Some (map (number_text True) vs, g')"
  using assms
  by (induction n arbitrary: g vs) (fastforce simp: random_text_def uint_text_def int_text_def number_text_def split: bind_splits)+

text \<open>
  C29: The eight builders of random numbers in groups. Let the draws, one for each group, return, and let
  no signed one be \<open>INTMAX_MIN\<close>. The builder writes the cell of the first group once before the first
  row and then the cells of all rows, each the text of the number of its group; it allocates
  \<open>width_max\<close> bytes for each row. So it succeeds with these cells exactly if there is room for the one
  cell too many, and leaves its block otherwise, as with one row and a number of the greatest width.
\<close>

theorem random_group_columns:
  assumes "draws (gen_of b c) (gs_count grp) g = Some (vs, g')" "sg \<Longrightarrow> INTMAX_MIN \<notin> set vs"
    and "allocates malloc" "splits grp (sum_list rcs)" "rcs \<noteq> []"
  shows "\<exists>sizes. group_sizes (gs_count grp) (sum_list rcs) sizes \<and>
    (let texts = map (number_text sg) vs; cells = repeat_cells sizes texts
     in if length (terminated (hd texts # cells)) \<le> rc_width_max c * sum_list rcs
        then \<exists>co. build_random_group sg b c grp malloc join (sum_list rcs) rcs g = Some (Inr co, g') \<and> lays_out co join rcs cells
        else build_random_group sg b c grp malloc join (sum_list rcs) rcs g = None)"
proof -
  have nul: "\<forall>s \<in> set (map (number_text sg) vs). NUL \<notin> set s" by (auto simp: number_text_def)
  show ?thesis
  proof (cases sg)
    case True
    obtain failure where f: "build_random_group True b c = build_column_random_group failure put_int (gen_of b c) (rc_width_max c)"
      using build_random_group_member(1) by blast
    have "INTMAX_MIN \<notin> set vs" using assms(2) True by simp
    note cells = draws_texts(2) [OF assms(1) this]
    have s: "sg = True" using True by simp
    show ?thesis using build_column_random_group_cases [OF int_groups.bounded_groups_axioms assms(3-5) cells nul [unfolded s]]
      by (simp only: f s Let_def)
  next
    case False
    then have s: "sg = False" by simp
    obtain failure where f: "build_random_group False b c = build_column_random_group failure put_uint (gen_of b c) (rc_width_max c)"
      using build_random_group_member(2) by blast
    show ?thesis using build_column_random_group_cases [OF uint_groups.bounded_groups_axioms assms(3-5) draws_texts(1) [OF assms(1)] nul [unfolded s]]
      by (simp only: f s Let_def)
  qed
qed

theorem random_group_columns_witness:
  "\<forall>g join. build_random_group False Build_Random_Range (one_u 4294967295) \<lparr>gs_count = 1, gs_partition = partition_groups_even\<rparr>
    zero_alloc join 1 [1] g = None"
proof (intro allI)
  fix g join
  have v: "ucast (ucast (4294967295 :: 64 word) :: 32 word) = (4294967295 :: 64 word)" by simp
  obtain g1 where "gen_range (one_u 4294967295) g = Some (4294967295, g1)"
    using one_u_drawn [of 4294967295 g] unfolding v by (auto simp: gen_range_def one_u_def choice_def)
  then have d: "draws (gen_of Build_Random_Range (one_u 4294967295)) (gs_count \<lparr>gs_count = 1, gs_partition = partition_groups_even\<rparr>) g =
      Some ([4294967295], g1)" by simp
  have s: "splits \<lparr>gs_count = 1, gs_partition = partition_groups_even\<rparr> (sum_list [1])" by (rule even.partitioner_splits) simp_all
  have t: "length (number_text False 4294967295) = 10"
    by (simp add: number_text_def decimal_int_def decimal_step decimal_small)
  have w: "rc_width_max (one_u 4294967295) = 11" "sum_list [1] = (1 :: nat)" by (simp_all add: one_u_def choice_def)
  obtain sizes where sizes: "group_sizes (gs_count \<lparr>gs_count = 1, gs_partition = partition_groups_even\<rparr>) 1 sizes"
    "let texts = map (number_text False) [4294967295]; cells = repeat_cells sizes texts
     in if length (terminated (hd texts # cells)) \<le> 11 * 1
        then \<exists>co. build_random_group False Build_Random_Range (one_u 4294967295) \<lparr>gs_count = 1, gs_partition = partition_groups_even\<rparr>
            zero_alloc join 1 [1] g = Some (Inr co, g1) \<and> lays_out co join [1] cells
        else build_random_group False Build_Random_Range (one_u 4294967295) \<lparr>gs_count = 1, gs_partition = partition_groups_even\<rparr>
            zero_alloc join 1 [1] g = None"
    using random_group_columns [OF d _ zero_alloc_allocates s, where sg = False and join = join, unfolded w] by blast
  then have "sizes = [1]" by (auto simp: group_sizes_def length_Suc_conv)
  then show "build_random_group False Build_Random_Range (one_u 4294967295) \<lparr>gs_count = 1, gs_partition = partition_groups_even\<rparr>
    zero_alloc join 1 [1] g = None" using sizes(2) t by (simp add: Let_def)
qed

end
