(* ===== verification/Uuid.thy ===== *)
theory Uuid
  imports Put_Hex Random_Numbers
begin

text \<open>
  Version 1 UUIDs, \<open>src/uuid/uuid_utils.h\<close>: the clock sequence and node that the process keeps, the
  text of a time, and the routines that count a hexadecimal text up in place. A \<open>switch\<close> of such a
  routine maps a digit to the next one and clears the digits after it; its default goes one digit to
  the left. The reference is the 60-bit time: \<open>uuid_time_text\<close> is its text and counting up is its
  successor.
\<close>

section \<open>Definitions\<close>

text \<open>One \<open>switch\<close>: the successor of a digit, none for \<open>f\<close> and for what is no digit.\<close>

definition hex_next :: "char \<Rightarrow> char option" where
  "hex_next c = map_of (zip ''0123456789abcde'' ''123456789abcdef'') c"

text \<open>
  \<open>k\<close> switches from \<open>ptr\<close> to the left, with \<open>j\<close> digits behind \<open>ptr\<close> that are cleared; the last
  default clears the number and goes on at its first digit.
\<close>

fun hex_carry :: "nat \<Rightarrow> nat \<Rightarrow> bytes \<Rightarrow> nat \<Rightarrow> (bytes \<times> nat option) option" where
  "hex_carry 0 j b ptr = None"
| "hex_carry (Suc k) j b ptr =
     do { c \<leftarrow> load b ptr;
          case hex_next c of
            Some d \<Rightarrow> do { b \<leftarrow> store_string b ptr (d # replicate j CHR ''0''); Some (b, None) }
          | None \<Rightarrow>
              if k = 0 then do { b \<leftarrow> store_string b ptr (replicate (j + 1) CHR ''0''); Some (b, Some ptr) }
              else do { ptr \<leftarrow> step_back ptr 1; hex_carry k (j + 1) b ptr } }"

definition uuid_state_increment_clk_seq :: "bytes \<Rightarrow> nat \<Rightarrow> bytes option" where
  "uuid_state_increment_clk_seq b ptr = map_option fst (hex_carry 4 0 b ptr)"

definition uuid_string_increment_time :: "bytes \<Rightarrow> nat \<Rightarrow> bytes option" where
  "uuid_string_increment_time b ptr =
     do { (b, carry) \<leftarrow> hex_carry 8 0 b ptr;
          case carry of
            None \<Rightarrow> Some b
          | Some ptr \<Rightarrow>
              do { (b, carry) \<leftarrow> hex_carry 4 0 b (ptr + 12);
                   case carry of
                     None \<Rightarrow> Some b
                   | Some ptr \<Rightarrow> do { (b, carry) \<leftarrow> hex_carry 3 0 b (ptr + 8); Some b } } }"

definition GREGORIAN_REFORM_EPOCH_DIFF :: u64 where
  "GREGORIAN_REFORM_EPOCH_DIFF = 122192928000000000"

text \<open>The current time, \<open>clock_gettime\<close>, is an argument.\<close>

definition uuid_time_now :: "u64 \<Rightarrow> u64 \<Rightarrow> u64" where
  "uuid_time_now tv_sec tv_nsec = tv_sec * 10000000 + tv_nsec div 100 + GREGORIAN_REFORM_EPOCH_DIFF"

definition UUID_VERSION :: u64 where
  "UUID_VERSION = 1"

unbundle bit_operations_syntax

definition put_uuid_time :: "u64 \<Rightarrow> put" where
  "put_uuid_time uuid_time b ptr =
     do { (b, ptr) \<leftarrow> put_octet_hex_lower (ucast (drop_bit 24 uuid_time)) b ptr;
          (b, ptr) \<leftarrow> put_octet_hex_lower (ucast (drop_bit 16 uuid_time)) b ptr;
          (b, ptr) \<leftarrow> put_octet_hex_lower (ucast (drop_bit 8 uuid_time)) b ptr;
          (b, ptr) \<leftarrow> put_octet_hex_lower (ucast uuid_time) b ptr;
          (b, ptr) \<leftarrow> PUT_CHAR CHR ''-'' b ptr;
          (b, ptr) \<leftarrow> put_octet_hex_lower (ucast (drop_bit 40 uuid_time)) b ptr;
          (b, ptr) \<leftarrow> put_octet_hex_lower (ucast (drop_bit 32 uuid_time)) b ptr;
          (b, ptr) \<leftarrow> PUT_CHAR CHR ''-'' b ptr;
          (b, ptr) \<leftarrow> put_octet_hex_lower (ucast (push_bit 4 UUID_VERSION OR (drop_bit 56 uuid_time AND 15))) b ptr;
          put_octet_hex_lower (ucast (drop_bit 48 uuid_time)) b ptr }"

text \<open>
  \<open>struct UUIDState\<close>, without its lock: \<open>set_uuid_clk_seq_node\<close> holds the lock for all it does, so
  it is one step. \<open>clk_seq_last\<close> is an offset.
\<close>

record uuid_state =
  us_clk_seq_node :: bytes
  us_clk_seq_last :: nat

definition CLK_SEQ_NODE_SIZE :: nat where "CLK_SEQ_NODE_SIZE = 19"
definition CLK_SEQ_LAST_OFFSET :: nat where "CLK_SEQ_LAST_OFFSET = 4"

fun put_octets :: "u8 list \<Rightarrow> put" where
  "put_octets [] b ptr = Some (b, ptr)"
| "put_octets (octet # octets) b ptr = do { (b, ptr) \<leftarrow> put_octet_hex_lower octet b ptr; put_octets octets b ptr }"

definition uuid_state_init_clk_seq_node :: "bytes \<Rightarrow> nat \<Rightarrow> u8 list \<Rightarrow> pcg32 \<Rightarrow> (bytes \<times> pcg32) option" where
  "uuid_state_init_clk_seq_node b clk_seq_node node rng =
     (let (random, rng) = pcg32_random_r rng
      in do { (b, ptr) \<leftarrow> PUT_CHAR CHR ''-'' b clk_seq_node;
              (b, ptr) \<leftarrow> put_octet_hex_lower (ucast random) b ptr;
              (b, ptr) \<leftarrow> put_octet_hex_lower (ucast (drop_bit 8 random)) b ptr;
              (b, ptr) \<leftarrow> PUT_CHAR CHR ''-'' b ptr;
              (b, ptr) \<leftarrow> put_octets node b ptr;
              b \<leftarrow> store b ptr NUL;
              Some (b, rng) })"

text \<open>\<open>random_32_uuid_constructor\<close> after the generator and the address of the machine are there.\<close>

definition random_32_uuid_constructor :: "bytes \<Rightarrow> u8 list \<Rightarrow> pcg32 \<Rightarrow> (uuid_state \<times> pcg32) option" where
  "random_32_uuid_constructor buffer node rng =
     do { (b, rng) \<leftarrow> uuid_state_init_clk_seq_node buffer 0 node rng;
          Some (\<lparr>us_clk_seq_node = b, us_clk_seq_last = CLK_SEQ_LAST_OFFSET\<rparr>, rng) }"

definition set_uuid_clk_seq_node :: "bytes \<Rightarrow> nat \<Rightarrow> uuid_state \<Rightarrow> (bytes \<times> uuid_state) option" where
  "set_uuid_clk_seq_node b ptr st =
     do { b \<leftarrow> store_string b ptr (take CLK_SEQ_NODE_SIZE (us_clk_seq_node st));
          node \<leftarrow> uuid_state_increment_clk_seq (us_clk_seq_node st) (us_clk_seq_last st);
          Some (b, st\<lparr>us_clk_seq_node := node\<rparr>) }"

definition uuid_string_init :: "bytes \<Rightarrow> nat \<Rightarrow> u64 \<Rightarrow> uuid_state \<Rightarrow> (bytes \<times> uuid_state) option" where
  "uuid_string_init b ptr now st =
     do { (b, ptr) \<leftarrow> put_uuid_time now b ptr;
          set_uuid_clk_seq_node b ptr st }"

section \<open>Hexadecimal texts\<close>

text \<open>The last \<open>k\<close> hexadecimal digits of a number.\<close>

fun hex_text :: "nat \<Rightarrow> nat \<Rightarrow> string" where
  "hex_text 0 n = []"
| "hex_text (Suc k) n = hex_text k (n div 16) @ [hex_digit_lower (n mod 16)]"

lemma length_hex_text [simp]: "length (hex_text k n) = k"
  by (induction k arbitrary: n) simp_all

lemma hex_text_add: "hex_text (k + j) n = hex_text k (n div 16 ^ j) @ hex_text j n"
  by (induction j arbitrary: n) (simp_all add: div_mult2_eq)

lemma hex_text_zero: "n mod 16 ^ k = 0 \<Longrightarrow> hex_text k n = replicate k CHR ''0''"
proof (induction k arbitrary: n)
  case (Suc k)
  obtain m where m: "n = 16 ^ k * m * 16" using Suc.prems by (auto simp: mod_eq_0_iff_dvd elim: dvdE)
  then have "hex_text k (n div 16) = replicate k CHR ''0''" using Suc.IH [of "16 ^ k * m"] by simp
  then show ?case using m by (simp add: hex_digit_lower_def replicate_append_same)
qed simp

lemma hex_next_digit: "\<forall>d \<in> set [0..<16]. hex_next (hex_digit_lower d) =
    (if d < 15 then Some (hex_digit_lower (Suc d)) else None)"
  by code_simp

lemma hex_digit_NUL: "\<forall>d \<in> set [0..<16]. hex_digit_lower d \<noteq> NUL"
  by code_simp

lemma hex_text_NUL [simp]: "NUL \<notin> set (hex_text k n)"
  using hex_digit_NUL by (induction k arbitrary: n) auto

lemma hex_digit_inj: "d < 16 \<Longrightarrow> d' < 16 \<Longrightarrow> hex_digit_lower d = hex_digit_lower d' \<Longrightarrow> d = d'"
  using hex_digit_value_inverse by (metis atLeastLessThan_iff atLeast_upt le0 lessThan_iff)

lemma hex_text_inj: "hex_text k m = hex_text k n \<Longrightarrow> m mod 16 ^ k = n mod 16 ^ k"
proof (induction k arbitrary: m n)
  case (Suc k)
  then have h: "hex_text k (m div 16) = hex_text k (n div 16)" "hex_digit_lower (m mod 16) = hex_digit_lower (n mod 16)"
    by simp_all
  have "m mod 16 = n mod 16" by (rule hex_digit_inj [OF _ _ h(2)]) simp_all
  then show ?case using Suc.IH [OF h(1)] by (simp add: mod_mult2_eq)
qed simp

text \<open>Counting up.\<close>

lemma hex_carry_eq:
  assumes "0 < k" "length tail = j" "ptr = length pre + k - 1"
  shows "hex_carry k j (pre @ hex_text k n @ tail @ post) ptr =
    Some (pre @ hex_text k (Suc n) @ replicate j CHR ''0'' @ post,
      if Suc n mod 16 ^ k = 0 then Some (length pre) else None)"
  using assms
proof (induction k arbitrary: j n tail ptr)
  case (Suc k)
  let ?b = "pre @ hex_text (Suc k) n @ tail @ post"
  have b: "?b = (pre @ hex_text k (n div 16)) @ hex_digit_lower (n mod 16) # tail @ post" by simp
  have p: "ptr = length (pre @ hex_text k (n div 16))" using Suc.prems(3) by simp
  have c: "load ?b ptr = Some (hex_digit_lower (n mod 16))" unfolding b p by (rule load_append)
  have next_digit: "hex_next (hex_digit_lower (n mod 16)) =
      (if n mod 16 < 15 then Some (hex_digit_lower (Suc (n mod 16))) else None)"
    using hex_next_digit by simp
  show ?case
  proof (cases "n mod 16 < 15")
    case True
    then have d: "Suc n mod 16 = Suc (n mod 16)" "Suc n div 16 = n div 16" by (simp_all add: mod_Suc div_Suc)
    have "Suc n mod 16 ^ Suc k \<noteq> 0"
    proof
      assume "Suc n mod 16 ^ Suc k = 0"
      then have "Suc n mod 16 = 0" by (auto simp: mod_eq_0_iff_dvd elim: dvd_trans [rotated])
      then show False using d(1) by simp
    qed
    moreover have "store_string ?b ptr (hex_digit_lower (Suc (n mod 16)) # replicate j CHR ''0'') =
        Some ((pre @ hex_text k (n div 16)) @ (hex_digit_lower (Suc (n mod 16)) # replicate j CHR ''0'') @ post)"
      using store_string_append [of "hex_digit_lower (Suc (n mod 16)) # replicate j CHR ''0''"
          "hex_digit_lower (n mod 16) # tail" "pre @ hex_text k (n div 16)" post] Suc.prems(2)
      unfolding b p by simp
    ultimately show ?thesis using True c next_digit d by simp
  next
    case False
    then have f: "n mod 16 = 15" using mod_less_divisor [of 16 n] by linarith
    then have d: "Suc n mod 16 = 0" "Suc n div 16 = Suc (n div 16)" by (simp_all add: mod_Suc div_Suc)
    have m: "Suc n mod 16 ^ Suc k = 0 \<longleftrightarrow> Suc (n div 16) mod 16 ^ k = 0"
      using d by (simp add: mod_mult2_eq)
    show ?thesis
    proof (cases "k = 0")
      case True
      have "store_string ?b ptr (replicate (j + 1) CHR ''0'') = Some (pre @ replicate (j + 1) CHR ''0'' @ post)"
        using store_string_append [of "replicate (j + 1) CHR ''0''" "hex_digit_lower (n mod 16) # tail" pre post]
          Suc.prems(2) p True by simp
      then show ?thesis using True False c next_digit d p by (simp add: hex_digit_lower_def)
    next
      case kp: False
      have "hex_carry k (j + 1) (pre @ hex_text k (n div 16) @ ([hex_digit_lower (n mod 16)] @ tail) @ post) (ptr - 1) =
          Some (pre @ hex_text k (Suc (n div 16)) @ replicate (j + 1) CHR ''0'' @ post,
            if Suc (n div 16) mod 16 ^ k = 0 then Some (length pre) else None)"
        using kp Suc.prems by (intro Suc.IH) simp_all
      moreover have "step_back ptr 1 = Some (ptr - 1)" using kp p by (simp add: step_back_def)
      ultimately show ?thesis
        using kp False c next_digit d m by (simp add: hex_digit_lower_def)
    qed
  qed
qed simp


section \<open>The time of a UUID\<close>

definition uuid_time_text :: "nat \<Rightarrow> string" where
  "uuid_time_text t =
     hex_text 8 t @ ''-'' @ hex_text 4 (t div 2 ^ 32) @ ''-1'' @ hex_text 3 (t div 2 ^ 48)"

lemma length_uuid_time_text [simp]: "length (uuid_time_text t) = 18"
  by (simp add: uuid_time_text_def)

lemma uuid_time_text_NUL [simp]: "NUL \<notin> set (uuid_time_text t)"
  by (simp add: uuid_time_text_def)

text \<open>Sixty bits of the time are in its text.\<close>

lemma uuid_time_text_inj:
  assumes "uuid_time_text t = uuid_time_text u"
  shows "t mod 2 ^ 60 = u mod 2 ^ 60"
proof -
  have a: "hex_text 8 t = hex_text 8 u" "hex_text 4 (t div 2 ^ 32) = hex_text 4 (u div 2 ^ 32)"
    "hex_text 3 (t div 2 ^ 48) = hex_text 3 (u div 2 ^ 48)"
    using assms by (simp_all add: uuid_time_text_def)
  have "t mod 2 ^ 32 = u mod 2 ^ 32" using hex_text_inj [OF a(1)] by simp
  moreover have "t div 2 ^ 32 mod 2 ^ 16 = u div 2 ^ 32 mod 2 ^ 16" using hex_text_inj [OF a(2)] by simp
  moreover have "t div 2 ^ 32 div 2 ^ 16 mod 2 ^ 12 = u div 2 ^ 32 div 2 ^ 16 mod 2 ^ 12"
    using hex_text_inj [OF a(3)] by (simp add: div_mult2_eq [symmetric])
  moreover have "n mod 2 ^ 60 = 2 ^ 32 * (2 ^ 16 * (n div 2 ^ 32 div 2 ^ 16 mod 2 ^ 12) + n div 2 ^ 32 mod 2 ^ 16) + n mod 2 ^ 32"
    for n :: nat
    using mod_mult2_eq [of n "2 ^ 32" "2 ^ 28"] mod_mult2_eq [of "n div 2 ^ 32" "2 ^ 16" "2 ^ 12"] by simp
  ultimately show ?thesis by simp
qed

lemma uuid_increment:
  "uuid_string_increment_time (uuid_time_text t @ post) 7 = Some (uuid_time_text (Suc t) @ post)"
proof -
  let ?m = "t div 2 ^ 32" and ?h = "t div 2 ^ 48"
  let ?rest = "''-1'' @ hex_text 3 ?h @ post"
  have split: "uuid_time_text u @ post = [] @ hex_text 8 u @ [] @ ''-'' @ hex_text 4 (u div 2 ^ 32) @ ''-1'' @ hex_text 3 (u div 2 ^ 48) @ post"
    for u by (simp add: uuid_time_text_def)
  have 1: "hex_carry 8 0 (uuid_time_text t @ post) 7 =
      Some (hex_text 8 (Suc t) @ ''-'' @ hex_text 4 ?m @ ?rest, if Suc t mod 2 ^ 32 = 0 then Some 0 else None)"
    unfolding split by (subst hex_carry_eq) simp_all
  have s32: "Suc t div 2 ^ 32 = (if Suc t mod 2 ^ 32 = 0 then Suc ?m else ?m)" by (rule div_Suc)
  have "Suc ?m div 2 ^ 16 = (if Suc ?m mod 2 ^ 16 = 0 then Suc (?m div 2 ^ 16) else ?m div 2 ^ 16)" by (rule div_Suc)
  moreover have d48: "u div 2 ^ 48 = u div 2 ^ 32 div 2 ^ 16" for u :: nat by (simp add: div_mult2_eq [symmetric])
  ultimately have s48: "Suc t div 2 ^ 48 =
      (if Suc t mod 2 ^ 32 = 0 \<and> Suc ?m mod 2 ^ 16 = 0 then Suc ?h else ?h)"
    using s32 by simp
  have 2: "hex_carry 4 0 (hex_text 8 (Suc t) @ ''-'' @ hex_text 4 ?m @ ?rest) 12 =
      Some (hex_text 8 (Suc t) @ ''-'' @ hex_text 4 (Suc ?m) @ ?rest, if Suc ?m mod 2 ^ 16 = 0 then Some 9 else None)"
    using hex_carry_eq [of 4 "[]" 0 12 "hex_text 8 (Suc t) @ ''-''" ?m ?rest] by simp
  have 3: "hex_carry 3 0 (hex_text 8 (Suc t) @ ''-'' @ hex_text 4 (Suc ?m) @ ?rest) 17 =
      Some (hex_text 8 (Suc t) @ ''-'' @ hex_text 4 (Suc ?m) @ ''-1'' @ hex_text 3 (Suc ?h) @ post,
        if Suc ?h mod 2 ^ 12 = 0 then Some 15 else None)"
    using hex_carry_eq [of 3 "[]" 0 17 "hex_text 8 (Suc t) @ ''-'' @ hex_text 4 (Suc ?m) @ ''-1''" ?h post] by simp
  have 4: "uuid_time_text (Suc t) @ post = hex_text 8 (Suc t) @ ''-'' @
      hex_text 4 (if Suc t mod 2 ^ 32 = 0 then Suc ?m else ?m) @ ''-1'' @
      hex_text 3 (if Suc t mod 2 ^ 32 = 0 \<and> Suc ?m mod 2 ^ 16 = 0 then Suc ?h else ?h) @ post"
    unfolding uuid_time_text_def s32 s48 by simp
  show ?thesis
    unfolding uuid_string_increment_time_def 1 4
    by (cases "Suc t mod 2 ^ 32 = 0"; cases "Suc ?m mod 2 ^ 16 = 0") (use 2 3 in simp_all)
qed

lemma hex_text_mod: "hex_text k (n mod 16 ^ k) = hex_text k n"
proof (induction k arbitrary: n)
  case (Suc k)
  have "n mod 16 ^ Suc k div 16 = n div 16 mod 16 ^ k" by (simp add: mod_mult2_eq)
  then show ?case using Suc.IH [of "n div 16"] by (simp add: mod_mult2_eq)
qed simp

lemma octet_text_hex: "octet_text hex_digit_lower x = hex_text 2 (unat x)"
  using unat_u8 [of x] by (simp add: octet_text_def numeral_2_eq_2)

lemma octet_text_drop: "octet_text hex_digit_lower (ucast (drop_bit k (w :: u64))) = hex_text 2 (unat w div 2 ^ k)"
  using hex_text_mod [of 2 "unat w div 2 ^ k"] by (simp add: octet_text_hex unat_octet)

lemma octet_text_version:
  "octet_text hex_digit_lower (ucast (push_bit 4 UUID_VERSION OR (drop_bit 56 (w :: u64) AND 15))) =
    ''1'' @ hex_text 1 (unat w div 2 ^ 56)"
proof -
  let ?y = "drop_bit 56 w AND 15"
  have "(15 :: u64) = mask 4" by (simp add: mask_numeral)
  then have y: "?y = take_bit 4 (drop_bit 56 w)" by (simp add: take_bit_eq_mask)
  have v: "unat ?y = unat w div 2 ^ 56 mod 16"
    unfolding y unsigned_take_bit_eq unat_drop_bit_eq by (simp only: take_bit_eq_mod drop_bit_eq_div) simp
  have "16 AND ?y = drop_bit 56 w AND (16 AND 15)" by (rule and.left_commute)
  then have "push_bit 4 UUID_VERSION AND ?y = 0" by (simp add: UUID_VERSION_def)
  then have "push_bit 4 UUID_VERSION OR ?y = 16 + ?y"
    using word_plus_and_or [of "push_bit 4 UUID_VERSION" ?y] by (simp add: UUID_VERSION_def)
  moreover have "unat (16 + ?y) = 16 + unat w div 2 ^ 56 mod 16"
    using v by (subst unat_plus_if') simp
  ultimately have "unat (ucast (push_bit 4 UUID_VERSION OR ?y) :: u8) = 16 + unat w div 2 ^ 56 mod 16"
    by (simp add: unsigned_ucast_eq take_bit_eq_mod)
  then show ?thesis
    by (simp add: octet_text_hex numeral_2_eq_2) (simp add: hex_digit_lower_def)
qed


lemma hex_text_pieces:
  "hex_text 8 n = hex_text 2 (n div 2 ^ 24) @ hex_text 2 (n div 2 ^ 16) @ hex_text 2 (n div 2 ^ 8) @ hex_text 2 n"
  "hex_text 4 n = hex_text 2 (n div 2 ^ 8) @ hex_text 2 n"
  "hex_text 3 n = hex_text 1 (n div 2 ^ 8) @ hex_text 2 n"
  using hex_text_add [of 2 6 n] hex_text_add [of 2 4 n] hex_text_add [of 2 2 n] hex_text_add [of 1 2 n]
  by (simp_all del: hex_text.simps One_nat_def)

lemma writes_put_uuid_time: "writes (put_uuid_time t) (uuid_time_text (unat t))"
proof -
  have d: "unat t div 2 ^ 32 div 2 ^ 8 = unat t div 2 ^ 40" "unat t div 2 ^ 48 div 2 ^ 8 = unat t div 2 ^ 56"
    by (simp_all add: div_mult2_eq [symmetric])
  have "uuid_time_text (unat t) =
      octet_text hex_digit_lower (ucast (drop_bit 24 t)) @ octet_text hex_digit_lower (ucast (drop_bit 16 t)) @
      octet_text hex_digit_lower (ucast (drop_bit 8 t)) @ octet_text hex_digit_lower (ucast t) @ [CHR ''-''] @
      octet_text hex_digit_lower (ucast (drop_bit 40 t)) @ octet_text hex_digit_lower (ucast (drop_bit 32 t)) @ [CHR ''-''] @
      octet_text hex_digit_lower (ucast (push_bit 4 UUID_VERSION OR (drop_bit 56 t AND 15))) @
      octet_text hex_digit_lower (ucast (drop_bit 48 t))"
    using octet_text_drop [of 0 t]
    by (simp only: drop_bit_0 id_apply power_0 div_by_1 uuid_time_text_def octet_text_drop octet_text_version hex_text_pieces d) simp
  then show ?thesis
    unfolding put_uuid_time_def [abs_def]
    by (simp only:) (intro writes_bind writes_put_octet_hex writes_PUT_CHAR)
qed

text \<open>
  C30: the time of a UUID: \<open>put_uuid_time\<close> writes the text of the time with version 1, counting the
  text up gives the text of the next time with the rest of the UUID untouched, and two times with the
  same text agree in their sixty bits.
\<close>

theorem uuid_time_counts:
  "writes (put_uuid_time t) (uuid_time_text (unat t)) \<and>
   uuid_string_increment_time (uuid_time_text (unat t) @ rest) 7 = Some (uuid_time_text (Suc (unat t)) @ rest) \<and>
   {u. u < 2 ^ 60 \<and> uuid_time_text u = uuid_time_text (unat t)} \<subseteq> {unat t mod 2 ^ 60}"
proof (intro conjI)
  show "{u. u < 2 ^ 60 \<and> uuid_time_text u = uuid_time_text (unat t)} \<subseteq> {unat t mod 2 ^ 60}"
  proof
    fix u assume "u \<in> {u. u < 2 ^ 60 \<and> uuid_time_text u = uuid_time_text (unat t)}"
    then have u: "u < 2 ^ 60" "uuid_time_text u = uuid_time_text (unat t)" by simp_all
    show "u \<in> {unat t mod 2 ^ 60}" using uuid_time_text_inj [OF u(2)] mod_less [OF u(1)] by (simp only: singleton_iff)
  qed
qed (rule writes_put_uuid_time, rule uuid_increment)

section \<open>The clock sequence\<close>

definition clk_seq_node_text :: "nat \<Rightarrow> u8 list \<Rightarrow> string" where
  "clk_seq_node_text seq node = ''-'' @ hex_text 4 seq @ ''-'' @ concat (map (octet_text hex_digit_lower) node)"

definition clk_state :: "nat \<Rightarrow> u8 list \<Rightarrow> uuid_state" where
  "clk_state seq node =
     \<lparr>us_clk_seq_node = clk_seq_node_text seq node @ [NUL], us_clk_seq_last = CLK_SEQ_LAST_OFFSET\<rparr>"

lemma length_octets [simp]: "length (concat (map (octet_text d) node)) = 2 * length node"
  by (induction node) simp_all

lemma length_clk_seq_node_text [simp]: "length (clk_seq_node_text seq node) = 6 + 2 * length node"
  by (simp add: clk_seq_node_text_def)

lemma octet_text_NUL [simp]: "NUL \<notin> set (octet_text hex_digit_lower x)"
  by (simp add: octet_text_hex)

lemma clk_seq_node_text_NUL [simp]: "NUL \<notin> set (clk_seq_node_text seq node)"
  by (simp add: clk_seq_node_text_def)

lemma clk_seq_increment:
  "uuid_state_increment_clk_seq (clk_seq_node_text seq node @ [NUL]) CLK_SEQ_LAST_OFFSET =
    Some (clk_seq_node_text (Suc seq) node @ [NUL])"
  using hex_carry_eq [of 4 "[]" 0 4 "''-''" seq "''-'' @ concat (map (octet_text hex_digit_lower) node) @ [NUL]"]
  by (simp add: uuid_state_increment_clk_seq_def CLK_SEQ_LAST_OFFSET_def clk_seq_node_text_def)

lemma writes_put_octets: "writes (put_octets node) (concat (map (octet_text hex_digit_lower) node))"
proof (induction node)
  case Nil
  show ?case by (rule writesI) simp
next
  case (Cons x node)
  then show ?case
    unfolding put_octets.simps(2) [abs_def] list.map concat.simps
    by (intro writes_bind writes_put_octet_hex)
qed

text \<open>A UUID string: its time, the clock sequence and node, and the terminator.\<close>

lemma uuid_string_init_eq:
  assumes "length old = 37" "length node = 6"
  shows "uuid_string_init (xs @ old @ ys) (length xs) now (clk_state seq node) =
    Some (xs @ (uuid_time_text (unat now) @ clk_seq_node_text seq node @ [NUL]) @ ys, clk_state (Suc seq) node)"
proof -
  have "length old = 18 + 19" using assms(1) by simp
  then obtain o1 o2 where o: "old = o1 @ o2" "length o1 = 18" "length o2 = 19" by (rule split_length)
  have 1: "put_uuid_time now (xs @ o1 @ o2 @ ys) (length xs) =
      Some (xs @ uuid_time_text (unat now) @ o2 @ ys, length xs + 18)"
    using writesD [OF writes_put_uuid_time, of o1 now "length xs" xs "o2 @ ys"] o(2) by simp
  have 2: "store_string ((xs @ uuid_time_text (unat now)) @ o2 @ ys) (length (xs @ uuid_time_text (unat now)))
      (clk_seq_node_text seq node @ [NUL]) =
      Some ((xs @ uuid_time_text (unat now)) @ (clk_seq_node_text seq node @ [NUL]) @ ys)"
    using assms(2) o(3) by (intro store_string_append) simp
  show ?thesis
    using 1 2 assms(2) clk_seq_increment [of seq node]
    by (simp add: uuid_string_init_def set_uuid_clk_seq_node_def clk_state_def o(1) CLK_SEQ_NODE_SIZE_def)
qed

text \<open>What the constructor leaves: a clock sequence from the generator and the address of the machine.\<close>

lemma random_32_uuid_constructor_eq:
  assumes "length buffer = 19" "length node = 6"
  shows "\<exists>seq rng'. random_32_uuid_constructor buffer node rng = Some (clk_state seq node, rng')"
proof -
  obtain random rng' where r: "pcg32_random_r rng = (random, rng')" by fastforce
  define hi :: u8 where "hi = ucast random"
  define lo :: u8 where "lo = ucast (drop_bit 8 random)"
  have h: "hex_text 4 (256 * unat hi + unat lo) = octet_text hex_digit_lower hi @ octet_text hex_digit_lower lo"
    using unat_u8 [of lo] hex_text_mod [of 2 "256 * unat hi + unat lo"]
    by (simp add: hex_text_pieces(2) octet_text_hex)
  have "length buffer = 18 + 1" using assms(1) by simp
  then obtain b1 b2 where b: "buffer = b1 @ b2" "length b1 = 18" "length b2 = 1" by (rule split_length)
  then obtain c where c: "b2 = [c]" by (auto simp: length_Suc_conv)
  have w: "writes (\<lambda>b ptr. do { (b, ptr) \<leftarrow> PUT_CHAR CHR ''-'' b ptr;
        (b, ptr) \<leftarrow> put_octet_hex_lower hi b ptr;
        (b, ptr) \<leftarrow> put_octet_hex_lower lo b ptr;
        (b, ptr) \<leftarrow> PUT_CHAR CHR ''-'' b ptr;
        put_octets node b ptr }) (clk_seq_node_text (256 * unat hi + unat lo) node)"
    using writes_bind [OF writes_PUT_CHAR writes_bind [OF writes_put_octet_hex(1) writes_bind [OF writes_put_octet_hex(1)
      writes_bind [OF writes_PUT_CHAR writes_put_octets]]], of "CHR ''-''" hi lo "CHR ''-''" node]
    by (simp add: clk_seq_node_text_def h)
  have 1: "do { (b, ptr) \<leftarrow> PUT_CHAR CHR ''-'' buffer 0;
        (b, ptr) \<leftarrow> put_octet_hex_lower hi b ptr;
        (b, ptr) \<leftarrow> put_octet_hex_lower lo b ptr;
        (b, ptr) \<leftarrow> PUT_CHAR CHR ''-'' b ptr;
        put_octets node b ptr } = Some (clk_seq_node_text (256 * unat hi + unat lo) node @ b2, 18)"
    using writesD [OF w, of b1 0 "[]" b2] b assms(2) by simp
  have 2: "store (clk_seq_node_text (256 * unat hi + unat lo) node @ b2) 18 NUL =
      Some (clk_seq_node_text (256 * unat hi + unat lo) node @ [NUL])"
    using store_append [of "clk_seq_node_text (256 * unat hi + unat lo) node" c "[]" NUL] assms(2) c by simp
  show ?thesis
    using 1 2 by (auto simp: random_32_uuid_constructor_def uuid_state_init_clk_seq_node_def r clk_state_def
        hi_def [symmetric] lo_def [symmetric] split: bind_splits)
qed

end
