(* ===== verification/Time_String.thy ===== *)
theory Time_String
  imports Prelude
begin

text \<open>
  Dates and times, \<open>src/time/time_utils.h\<close> and \<open>src/time/time_string.h\<close>: the broken-down time of a
  number of seconds, its text \<open>YYYY-MM-DD HH:MM:SS\<close>, and the routines that count such a text up in
  place. Within a day the texts count the seconds; from the last second of a day the code goes on with
  the next day of the calendar (\<open>date_next\<close>) except from the days of \<open>skipped_from\<close>.
\<close>

section \<open>Definitions\<close>

subsection \<open>Broken-down time\<close>

record timestamp =
  ts_year :: "16 word"
  ts_leap_year :: u8
  ts_month :: u8
  ts_day :: u8
  ts_hour :: u8
  ts_minute :: u8
  ts_second :: u8

definition is_leap_year :: "nat \<Rightarrow> bool" where
  "is_leap_year year =
     (if year mod 4 \<noteq> 0 then False
      else if year mod 100 \<noteq> 0 then True
      else year mod 400 = 0)"

text \<open>The offsets of the months from the first of January, as the header has them.\<close>

definition FEBRUARY_DAY_OFFSET_MIN :: "32 word" where "FEBRUARY_DAY_OFFSET_MIN = 31"
definition MARCH_DAY_OFFSET_MIN :: "32 word" where "MARCH_DAY_OFFSET_MIN = 59"
definition APRIL_DAY_OFFSET_MIN :: "32 word" where "APRIL_DAY_OFFSET_MIN = 90"
definition MAY_DAY_OFFSET_MIN :: "32 word" where "MAY_DAY_OFFSET_MIN = 121"
definition JUNE_DAY_OFFSET_MIN :: "32 word" where "JUNE_DAY_OFFSET_MIN = 151"
definition JULY_DAY_OFFSET_MIN :: "32 word" where "JULY_DAY_OFFSET_MIN = 182"
definition AUGUST_DAY_OFFSET_MIN :: "32 word" where "AUGUST_DAY_OFFSET_MIN = 213"
definition SEPTEMBER_DAY_OFFSET_MIN :: "32 word" where "SEPTEMBER_DAY_OFFSET_MIN = 243"
definition OCTOBER_DAY_OFFSET_MIN :: "32 word" where "OCTOBER_DAY_OFFSET_MIN = 273"
definition NOVEMBER_DAY_OFFSET_MIN :: "32 word" where "NOVEMBER_DAY_OFFSET_MIN = 303"
definition DECEMBER_DAY_OFFSET_MIN :: "32 word" where "DECEMBER_DAY_OFFSET_MIN = 334"

lemmas day_offsets =
  FEBRUARY_DAY_OFFSET_MIN_def MARCH_DAY_OFFSET_MIN_def APRIL_DAY_OFFSET_MIN_def MAY_DAY_OFFSET_MIN_def
  JUNE_DAY_OFFSET_MIN_def JULY_DAY_OFFSET_MIN_def AUGUST_DAY_OFFSET_MIN_def SEPTEMBER_DAY_OFFSET_MIN_def
  OCTOBER_DAY_OFFSET_MIN_def NOVEMBER_DAY_OFFSET_MIN_def DECEMBER_DAY_OFFSET_MIN_def

text \<open>The last offsets of the months before.\<close>

definition set_month_day :: "timestamp \<Rightarrow> u8 \<Rightarrow> 32 word \<Rightarrow> 32 word \<Rightarrow> timestamp" where
  "set_month_day timestamp month day_offset before =
     timestamp\<lparr>ts_month := month, ts_day := ucast (day_offset + ucast (ts_leap_year timestamp) - before)\<rparr>"

definition timestamp_set_month_day :: "timestamp \<Rightarrow> 32 word \<Rightarrow> timestamp" where
  "timestamp_set_month_day timestamp day_offset =
     (if day_offset < FEBRUARY_DAY_OFFSET_MIN then timestamp\<lparr>ts_month := 1, ts_day := ucast (1 + day_offset)\<rparr>
      else
        let day_offset = day_offset - ucast (ts_leap_year timestamp);
            set_month = (\<lambda>month before. set_month_day timestamp month day_offset before)
        in if day_offset < JULY_DAY_OFFSET_MIN then
             if day_offset < MAY_DAY_OFFSET_MIN then
               if day_offset < APRIL_DAY_OFFSET_MIN then
                 if day_offset < MARCH_DAY_OFFSET_MIN then set_month 2 30 else set_month 3 58
               else set_month 4 89
             else if day_offset < JUNE_DAY_OFFSET_MIN then set_month 5 120 else set_month 6 150
           else if day_offset < OCTOBER_DAY_OFFSET_MIN then
             if day_offset < SEPTEMBER_DAY_OFFSET_MIN then
               if day_offset < AUGUST_DAY_OFFSET_MIN then set_month 7 181 else set_month 8 212
             else set_month 9 242
           else if day_offset < DECEMBER_DAY_OFFSET_MIN then
             if day_offset < NOVEMBER_DAY_OFFSET_MIN then set_month 10 272 else set_month 11 302
           else set_month 12 333)"

definition TIME_SECONDS_OFFSET :: u64 where "TIME_SECONDS_OFFSET = 62167208832"
definition TIME_SECONDS_PER_YEAR :: u64 where "TIME_SECONDS_PER_YEAR = 31556952"
definition TIME_SECONDS_PER_DAY :: u64 where "TIME_SECONDS_PER_DAY = 86400"
definition TIME_SECONDS_PER_HOUR :: u64 where "TIME_SECONDS_PER_HOUR = 3600"
definition TIME_SECONDS_PER_MINUTE :: u64 where "TIME_SECONDS_PER_MINUTE = 60"

lemmas time_seconds =
  TIME_SECONDS_OFFSET_def TIME_SECONDS_PER_YEAR_def TIME_SECONDS_PER_DAY_def TIME_SECONDS_PER_HOUR_def
  TIME_SECONDS_PER_MINUTE_def

definition timestamp_init :: "u64 \<Rightarrow> timestamp" where
  "timestamp_init time =
     (let rem_seconds = time + TIME_SECONDS_OFFSET;
          year = ucast (rem_seconds div TIME_SECONDS_PER_YEAR);
          rem_seconds = rem_seconds mod TIME_SECONDS_PER_YEAR;
          timestamp = \<lparr>ts_year = year, ts_leap_year = (if is_leap_year (unat year) then 1 else 0),
            ts_month = 0, ts_day = 0, ts_hour = 0, ts_minute = 0, ts_second = 0\<rparr>;
          timestamp = timestamp_set_month_day timestamp (ucast (rem_seconds div TIME_SECONDS_PER_DAY));
          rem_seconds = rem_seconds mod TIME_SECONDS_PER_DAY;
          hour = ucast (rem_seconds div TIME_SECONDS_PER_HOUR);
          rem_seconds = rem_seconds mod TIME_SECONDS_PER_HOUR
      in timestamp\<lparr>ts_hour := hour, ts_minute := ucast (rem_seconds div TIME_SECONDS_PER_MINUTE),
           ts_second := ucast (rem_seconds mod TIME_SECONDS_PER_MINUTE)\<rparr>)"

subsection \<open>The text\<close>

text \<open>The two digits of a \<open>case\<close>.\<close>

definition two_digits :: "nat \<Rightarrow> string" where
  "two_digits n = [DIGIT_TO_ASCII (n div 10), DIGIT_TO_ASCII (n mod 10)]"

text \<open>The \<open>switch\<close> statements; there are no cases for the days four and five.\<close>

definition month_case :: "nat \<Rightarrow> string" where
  "month_case month = (if month \<in> {2..12} then two_digits month else ''01'')"

definition day_case :: "nat \<Rightarrow> string" where
  "day_case day = (if day \<in> {2..3} \<union> {6..31} then two_digits day else ''01'')"

definition hour_case :: "nat \<Rightarrow> string" where
  "hour_case hour = (if hour \<in> {1..23} then two_digits hour else ''00'')"

definition minute_case :: "nat \<Rightarrow> string" where
  "minute_case minute = (if minute \<in> {1..59} then two_digits minute else ''00'')"

definition timestamp_string_init :: "bytes \<Rightarrow> nat \<Rightarrow> timestamp \<Rightarrow> bytes option" where
  "timestamp_string_init b string timestamp =
     (let year = unat (ts_year timestamp)
      in do { (b, string) \<leftarrow> PUT_CHAR (DIGIT_TO_ASCII (year div 1000)) b string;
              (b, string) \<leftarrow> PUT_CHAR (DIGIT_TO_ASCII (year mod 1000 div 100)) b string;
              (b, string) \<leftarrow> PUT_CHAR (DIGIT_TO_ASCII (year mod 1000 mod 100 div 10)) b string;
              (b, string) \<leftarrow> PUT_CHAR (DIGIT_TO_ASCII (year mod 1000 mod 100 mod 10)) b string;
              (b, string) \<leftarrow> PUT_STRING_WIDTH (''-'' @ month_case (unat (ts_month timestamp)) @ ''-'') 4 b string;
              (b, string) \<leftarrow> PUT_STRING_WIDTH (day_case (unat (ts_day timestamp)) @ '' '') 3 b string;
              (b, string) \<leftarrow> PUT_STRING_WIDTH (hour_case (unat (ts_hour timestamp)) @ '':'') 3 b string;
              (b, string) \<leftarrow> PUT_STRING_WIDTH (minute_case (unat (ts_minute timestamp)) @ '':'') 3 b string;
              SET_STRING_WIDTH b string (minute_case (unat (ts_second timestamp))) 3 })"

subsection \<open>Counting up\<close>

text \<open>
  One \<open>switch\<close> over the digits below \<open>n\<close>: the next digit followed by what the digits behind are
  set to, or the default, \<open>Some None\<close>.
\<close>

definition digit_next :: "nat \<Rightarrow> char \<Rightarrow> char option" where
  "digit_next n c = map_of (zip (take n ''012345678'') ''123456789'') c"

definition digit_switch :: "nat \<Rightarrow> string \<Rightarrow> bytes \<Rightarrow> nat \<Rightarrow> bytes option option" where
  "digit_switch n behind b ptr =
     do { c \<leftarrow> load b ptr;
          case digit_next n c of
            Some d \<Rightarrow> do { b \<leftarrow> store_string b ptr (d # behind); Some (Some b) }
          | None \<Rightarrow> Some None }"

definition or_else :: "bytes option option \<Rightarrow> bytes option \<Rightarrow> bytes option" where
  "or_else r next = do { r \<leftarrow> r; case r of Some b \<Rightarrow> Some b | None \<Rightarrow> next }"

text \<open>From the units of the year on, \<open>ptr\<close> at them; the last default differs.\<close>

definition timestamp_increment_year :: "bytes \<Rightarrow> nat \<Rightarrow> bytes option" where
  "timestamp_increment_year b ptr =
     or_else (digit_switch 9 ''-01-01'' b ptr)
       (or_else (digit_switch 9 ''0-01-01'' b (ptr - 1))
         (or_else (digit_switch 9 ''00-01-01'' b (ptr - 2)) (store_string b (ptr - 3) ''2000-01-01'')))"

definition datetime_increment_year :: "bytes \<Rightarrow> nat \<Rightarrow> bytes option" where
  "datetime_increment_year b ptr =
     or_else (digit_switch 9 ''-01-01'' b ptr)
       (or_else (digit_switch 9 ''0-01-01'' b (ptr - 1))
         (or_else (digit_switch 9 ''00-01-01'' b (ptr - 2))
           (or_else (digit_switch 9 ''000-01-01'' b (ptr - 3)) (store_string b (ptr - 3) ''1000-01-01''))))"

text \<open>The \<open>switch\<close> over the units of the day, \<open>ptr\<close> at them.\<close>

definition increment_day :: "(bytes \<Rightarrow> nat \<Rightarrow> bytes option) \<Rightarrow> bytes \<Rightarrow> nat \<Rightarrow> bytes option" where
  "increment_day increment_year b ptr =
     do { day \<leftarrow> load b ptr;
          day_tens \<leftarrow> load b (ptr - 1);
          month \<leftarrow> load b (ptr - 3);
          month_tens \<leftarrow> load b (ptr - 4);
          if day = CHR ''1'' then
            if day_tens \<noteq> CHR ''3'' then store b ptr CHR ''2''
            else if month_tens = CHR ''1'' then increment_year b (ptr - 6)
            else if month = CHR ''0'' then store_string b (ptr - 3) ''1-01''
            else if month = CHR ''1'' then store_string b (ptr - 3) ''2-01''
            else if month = CHR ''3'' then store_string b (ptr - 3) ''4-01''
            else if month = CHR ''5'' then store_string b (ptr - 3) ''6-01''
            else if month = CHR ''7'' then store_string b (ptr - 3) ''8-01''
            else store_string b (ptr - 3) ''9-01''
          else if day = CHR ''2'' then store b ptr CHR ''3''
          else if day = CHR ''3'' then store b ptr CHR ''4''
          else if day = CHR ''4'' then store b ptr CHR ''5''
          else if day = CHR ''5'' then store b ptr CHR ''6''
          else if day = CHR ''6'' then store b ptr CHR ''7''
          else if day = CHR ''7'' then store b ptr CHR ''8''
          else if day = CHR ''8'' \<or> day = CHR ''9'' then
            if month_tens = CHR ''1'' \<or> month \<noteq> CHR ''2'' \<or> day_tens \<noteq> CHR ''2'' then
              do { b \<leftarrow> store b (ptr - 1) (char_of (of_char day_tens + (1 :: nat))); store b ptr CHR ''0'' }
            else if day = CHR ''9'' then store_string b (ptr - 4) ''03-01''
            else
              do { y1 \<leftarrow> load b (ptr - 6);
                   y10 \<leftarrow> load b (ptr - 7);
                   y100 \<leftarrow> load b (ptr - 8);
                   y1000 \<leftarrow> load b (ptr - 9);
                   if is_leap_year (ASCII_TO_DIGIT y1 + ASCII_TO_DIGIT y10 * 10 + ASCII_TO_DIGIT y100 * 100 +
                       ASCII_TO_DIGIT y1000 * 1000)
                   then store b ptr CHR ''9'' else store_string b (ptr - 3) ''3-01'' }
          else
            if day_tens \<noteq> CHR ''3'' then store b ptr CHR ''1''
            else if month_tens = CHR ''1'' then
              if month = CHR ''2'' then store b ptr CHR ''1'' else store_string b (ptr - 3) ''2-01''
            else if month = CHR ''4'' then store_string b (ptr - 3) ''5-01''
            else if month = CHR ''6'' then store_string b (ptr - 3) ''7-01''
            else if month = CHR ''9'' then store_string b (ptr - 4) ''10-01''
            else store b ptr CHR ''1'' }"

text \<open>The units of the hour; after \<open>23\<close> the pointer goes to the units of the day.\<close>

definition increment_hour :: "(bytes \<Rightarrow> nat \<Rightarrow> bytes option) \<Rightarrow> bytes \<Rightarrow> nat \<Rightarrow> bytes option" where
  "increment_hour increment_year b ptr =
     do { c \<leftarrow> load b ptr;
          tens \<leftarrow> load b (ptr - 1);
          if c = CHR ''3'' \<and> tens = CHR ''2'' then
            do { b \<leftarrow> store_string b (ptr - 1) ''00:00:00''; increment_day increment_year b (ptr - 3) }
          else
            or_else (digit_switch 9 '':00:00'' b ptr)
              (if tens = CHR ''0'' then store_string b (ptr - 1) ''10:00:00''
               else store_string b (ptr - 1) ''20:00:00'') }"

text \<open>From the tens of the seconds on.\<close>

definition increment_minute :: "(bytes \<Rightarrow> nat \<Rightarrow> bytes option) \<Rightarrow> bytes \<Rightarrow> nat \<Rightarrow> bytes option" where
  "increment_minute increment_year b ptr =
     or_else (digit_switch 5 ''0'' b ptr)
       (or_else (digit_switch 9 '':00'' b (ptr - 2))
         (or_else (digit_switch 5 ''0:00'' b (ptr - 3)) (increment_hour increment_year b (ptr - 5))))"

definition datetime_string_increment :: "bytes \<Rightarrow> nat \<Rightarrow> bytes option" where
  "datetime_string_increment b ptr =
     or_else (digit_switch 9 [] b ptr) (increment_minute datetime_increment_year b (ptr - 1))"

text \<open>
  \<open>timestamp_string_increment_overflow\<close> compares the text with the last time a 32-bit clock shows,
  from the right, and starts over after it.
\<close>

definition timestamp_string_increment_overflow :: "bytes \<Rightarrow> nat \<Rightarrow> bytes option" where
  "timestamp_string_increment_overflow b last_digit =
     do { s \<leftarrow> load b (last_digit - 1);
          if s \<noteq> CHR ''0'' then store b last_digit CHR ''8'' else do {
          m \<leftarrow> load b (last_digit - 3);
          if m \<noteq> CHR ''4'' then store b last_digit CHR ''8'' else do {
          m \<leftarrow> load b (last_digit - 4);
          if m \<noteq> CHR ''1'' then store b last_digit CHR ''8'' else do {
          h \<leftarrow> load b (last_digit - 6);
          if h \<noteq> CHR ''3'' then store b last_digit CHR ''8'' else do {
          h \<leftarrow> load b (last_digit - 7);
          if h \<noteq> CHR ''0'' then store b last_digit CHR ''8'' else do {
          d \<leftarrow> load b (last_digit - 9);
          if d \<noteq> CHR ''9'' then store b last_digit CHR ''8'' else do {
          d \<leftarrow> load b (last_digit - 10);
          if d \<noteq> CHR ''1'' then store b last_digit CHR ''8'' else do {
          m \<leftarrow> load b (last_digit - 12);
          if m \<noteq> CHR ''1'' then store b last_digit CHR ''8'' else do {
          m \<leftarrow> load b (last_digit - 13);
          if m \<noteq> CHR ''0'' then store b last_digit CHR ''8'' else do {
          y \<leftarrow> load b (last_digit - 15);
          if y \<noteq> CHR ''8'' then store b last_digit CHR ''8'' else do {
          y \<leftarrow> load b (last_digit - 16);
          if y \<noteq> CHR ''3'' then store b last_digit CHR ''8'' else do {
          y \<leftarrow> load b (last_digit - 17);
          if y \<noteq> CHR ''0'' then store b last_digit CHR ''8'' else do {
          y \<leftarrow> load b (last_digit - 18);
          if y \<noteq> CHR ''2'' then store b last_digit CHR ''8'' else do {
          b \<leftarrow> store_string b (last_digit - 18) ''1970'';
          store_string b (last_digit - 10) ''01 00:00:01'' } } } } } } } } } } } } } }"

definition timestamp_string_increment :: "bytes \<Rightarrow> nat \<Rightarrow> bytes option" where
  "timestamp_string_increment b ptr =
     do { c \<leftarrow> load b ptr;
          if c = CHR ''7'' then timestamp_string_increment_overflow b ptr
          else or_else (digit_switch 9 [] b ptr) (increment_minute timestamp_increment_year b (ptr - 1)) }"


section \<open>Within a day\<close>

definition hms_text :: "nat \<Rightarrow> nat \<Rightarrow> nat \<Rightarrow> string" where
  "hms_text h m s = two_digits h @ '':'' @ two_digits m @ '':'' @ two_digits s"

text \<open>The text of second \<open>n\<close> of a day.\<close>

definition second_text :: "nat \<Rightarrow> string" where
  "second_text n = hms_text (n div 3600) (n div 60 mod 60) (n mod 60)"

lemma digit_next_9: "d < 10 \<Longrightarrow> digit_next 9 (DIGIT_TO_ASCII d) = (if d < 9 then Some (DIGIT_TO_ASCII (Suc d)) else None)"
proof -
  have "\<forall>d \<in> set [0..<10]. digit_next 9 (DIGIT_TO_ASCII d) = (if d < 9 then Some (DIGIT_TO_ASCII (Suc d)) else None)"
    by code_simp
  then show "d < 10 \<Longrightarrow> ?thesis" by simp
qed

lemma digit_next_5: "d < 10 \<Longrightarrow> digit_next 5 (DIGIT_TO_ASCII d) = (if d < 5 then Some (DIGIT_TO_ASCII (Suc d)) else None)"
proof -
  have "\<forall>d \<in> set [0..<10]. digit_next 5 (DIGIT_TO_ASCII d) = (if d < 5 then Some (DIGIT_TO_ASCII (Suc d)) else None)"
    by code_simp
  then show "d < 10 \<Longrightarrow> ?thesis" by simp
qed

lemma DIGIT_eq: "d < 10 \<Longrightarrow> e < 10 \<Longrightarrow> DIGIT_TO_ASCII d = DIGIT_TO_ASCII e \<longleftrightarrow> d = e"
  using ASCII_TO_DIGIT_inverse by metis

lemma two_digits_Suc:
  "n mod 10 \<noteq> 9 \<Longrightarrow> two_digits (Suc n) = [DIGIT_TO_ASCII (n div 10), DIGIT_TO_ASCII (Suc (n mod 10))]"
  "n mod 10 = 9 \<Longrightarrow> two_digits (Suc n) = [DIGIT_TO_ASCII (Suc (n div 10)), CHR ''0'']"
  by (simp_all add: two_digits_def mod_Suc div_Suc digit_simps)

lemma two_digits_zero: "two_digits 0 = ''00''"
  by (simp add: two_digits_def digit_simps)

lemma list11:
  assumes "length D = 11"
  obtains d0 d1 d2 d3 d4 d5 d6 d7 d8 d9 d10 where "D = [d0, d1, d2, d3, d4, d5, d6, d7, d8, d9, d10]"
  using assms by (auto simp: length_Suc_conv eval_nat_numeral)

lemmas step_simps = load_def store_def store_string_def or_else_def digit_switch_def

lemma increment_hour_digits:
  assumes "a < 10" "b < 10" "\<not> (a = 3 \<and> b = 2)" "a = 9 \<Longrightarrow> b = 0 \<or> b = 1"
  shows "increment_hour year [d0, d1, d2, d3, d4, d5, d6, d7, d8, d9, d10, DIGIT_TO_ASCII b, DIGIT_TO_ASCII a,
      c1, m1, m0, c2, s1, s0, NUL] 12 =
    Some ([d0, d1, d2, d3, d4, d5, d6, d7, d8, d9, d10] @
      (if a < 9 then [DIGIT_TO_ASCII b, DIGIT_TO_ASCII (Suc a)] else [DIGIT_TO_ASCII (Suc b), CHR ''0'']) @
      '':00:00'' @ [NUL])"
proof -
  have c: "DIGIT_TO_ASCII a = CHR ''3'' \<longleftrightarrow> a = 3" "DIGIT_TO_ASCII b = CHR ''2'' \<longleftrightarrow> b = 2"
    "DIGIT_TO_ASCII b = CHR ''0'' \<longleftrightarrow> b = 0"
    using assms DIGIT_eq [of a 3] DIGIT_eq [of b 2] DIGIT_eq [of b 0] by (simp_all add: digit_simps)
  show ?thesis
  proof (cases "a < 9")
    case True
    then show ?thesis using assms(3) c by (auto simp: increment_hour_def step_simps digit_next_9)
  next
    case False
    then have "a = 9" using assms(1) by simp
    then show ?thesis using assms(4) c digit_next_9 [of a]
      by (auto simp: increment_hour_def step_simps) (simp_all add: digit_simps)
  qed
qed

lemma increment_minute_digits:
  assumes "b < 6" "h < 24" "m < 60" "\<not> (h = 23 \<and> m = 59 \<and> b = 5)"
  shows "increment_minute year [d0, d1, d2, d3, d4, d5, d6, d7, d8, d9, d10,
      DIGIT_TO_ASCII (h div 10), DIGIT_TO_ASCII (h mod 10), CHR '':'', DIGIT_TO_ASCII (m div 10), DIGIT_TO_ASCII (m mod 10),
      CHR '':'', DIGIT_TO_ASCII b, s0, NUL] 17 =
    Some ([d0, d1, d2, d3, d4, d5, d6, d7, d8, d9, d10] @
      (if b < 5 then two_digits h @ '':'' @ two_digits m @ '':'' @ [DIGIT_TO_ASCII (Suc b), CHR ''0'']
       else if m < 59 then hms_text h (Suc m) 0 else hms_text (Suc h) 0 0) @ [NUL])"
proof -
  have "m mod 10 < 9 \<or> m mod 10 = 9 \<and> m div 10 < 5 \<or> m = 59" using assms(3) by presburger
  moreover have "b < 5 \<or> b = 5" using assms(1) by linarith
  ultimately consider "b < 5" | "b = 5" "m mod 10 < 9" | "b = 5" "m mod 10 = 9" "m div 10 < 5" | "b = 5" "m = 59"
    by blast
  then show ?thesis
  proof cases
    case 1
    then show ?thesis by (simp add: increment_minute_def step_simps digit_next_5 two_digits_def)
  next
    case 2
    then have "m < 59" "m mod 10 \<noteq> 9" using assms(3) by presburger+
    then show ?thesis using 2
      by (simp add: increment_minute_def step_simps digit_next_5 digit_next_9 hms_text_def two_digits_Suc two_digits_zero)
        (simp add: two_digits_def)
  next
    case 3
    then have "m < 59" using assms(3) by presburger
    then show ?thesis using 3 digit_next_9 [of 9]
      by (simp add: increment_minute_def step_simps digit_next_5 hms_text_def two_digits_Suc two_digits_zero)
        (simp add: two_digits_def)
  next
    case 4
    have h: "h mod 10 < 10" "h div 10 < 10" "\<not> (h mod 10 = 3 \<and> h div 10 = 2)" "h mod 10 = 9 \<Longrightarrow> h div 10 = 0 \<or> h div 10 = 1"
      using assms(2,4) 4 by presburger+
    have "two_digits (Suc h) = (if h mod 10 < 9 then [DIGIT_TO_ASCII (h div 10), DIGIT_TO_ASCII (Suc (h mod 10))]
        else [DIGIT_TO_ASCII (Suc (h div 10)), CHR ''0''])"
      using two_digits_Suc [of h] h(1) by (simp add: less_Suc_eq_le)
    then show ?thesis
      using 4 increment_hour_digits [OF h] digit_next_9 [of 9] digit_next_5 [of 5]
      by (simp add: increment_minute_def step_simps hms_text_def two_digits_zero)
  qed
qed


lemma hms_text_digits:
  "hms_text h m s = [DIGIT_TO_ASCII (h div 10), DIGIT_TO_ASCII (h mod 10), CHR '':'', DIGIT_TO_ASCII (m div 10),
    DIGIT_TO_ASCII (m mod 10), CHR '':'', DIGIT_TO_ASCII (s div 10), DIGIT_TO_ASCII (s mod 10)]"
  by (simp add: hms_text_def two_digits_def)

lemma length_hms_text [simp]: "length (hms_text h m s) = 8"
  by (simp add: hms_text_digits)

text \<open>Counting up by one second, for both routines.\<close>

definition hms_next :: "nat \<Rightarrow> nat \<Rightarrow> nat \<Rightarrow> string" where
  "hms_next h m s =
     (if s < 59 then hms_text h m (Suc s) else if m < 59 then hms_text h (Suc m) 0 else hms_text (Suc h) 0 0)"

lemma increment_hms:
  assumes "length D = 11" "h < 24" "m < 60" "s < 60" "\<not> (h = 23 \<and> m = 59 \<and> s = 59)"
  shows "or_else (digit_switch 9 [] (D @ hms_text h m s @ [NUL]) 18) (increment_minute year (D @ hms_text h m s @ [NUL]) 17) =
    Some (D @ hms_next h m s @ [NUL])"
proof -
  obtain d0 d1 d2 d3 d4 d5 d6 d7 d8 d9 d10 where D: "D = [d0, d1, d2, d3, d4, d5, d6, d7, d8, d9, d10]"
    using assms(1) by (rule list11)
  show ?thesis
  proof (cases "s mod 10 < 9")
    case True
    then have "s < 59" "s mod 10 \<noteq> 9" using assms(4) by presburger+
    then show ?thesis using True
      by (simp add: D hms_text_digits hms_next_def step_simps digit_next_9 div_Suc mod_Suc)
  next
    case False
    then have s9: "s mod 10 = 9" "s div 10 < 6" using assms(4) by presburger+
    have s59: "s < 59 \<longleftrightarrow> s div 10 < 5" using s9 assms(4) by presburger
    have n: "\<not> (h = 23 \<and> m = 59 \<and> s div 10 = 5)" using assms(5) s9 by presburger
    have r: "hms_next h m s = (if s div 10 < 5 then two_digits h @ '':'' @ two_digits m @ '':'' @ [DIGIT_TO_ASCII (Suc (s div 10)), CHR ''0'']
        else if m < 59 then hms_text h (Suc m) 0 else hms_text (Suc h) 0 0)"
      using two_digits_Suc(2) [OF s9(1)] by (simp add: hms_next_def s59 hms_text_def)
    have b: "D @ hms_text h m s @ [NUL] = [d0, d1, d2, d3, d4, d5, d6, d7, d8, d9, d10,
      DIGIT_TO_ASCII (h div 10), DIGIT_TO_ASCII (h mod 10), CHR '':'', DIGIT_TO_ASCII (m div 10), DIGIT_TO_ASCII (m mod 10),
      CHR '':'', DIGIT_TO_ASCII (s div 10), DIGIT_TO_ASCII (s mod 10), NUL]"
      by (simp add: D hms_text_digits)
    have sw: "digit_switch 9 [] (D @ hms_text h m s @ [NUL]) 18 = Some None"
      unfolding b using digit_next_9 [of 9] s9(1) by (simp add: step_simps)
    show ?thesis
      unfolding sw r unfolding b or_else_def increment_minute_digits [OF s9(2) assms(2,3) n] by (simp add: D)
  qed
qed

lemma second_text_eq:
  assumes "m < 60" "s < 60"
  shows "second_text (60 * (60 * h + m) + s) = hms_text h m s"
proof -
  have x: "(60 * x + s) div 60 = x" "(60 * x + s) mod 60 = s" for x using assms(2) by simp_all
  note a = x [of "60 * h + m"]
  have "(60 * (60 * h + m) + s) div 3600 = (60 * (60 * h + m) + s) div 60 div 60" by (simp add: div_mult2_eq [symmetric])
  then have "(60 * (60 * h + m) + s) div 3600 = h" using a(1) assms(1) by simp
  then show ?thesis unfolding second_text_def a using assms(1) by simp
qed

lemma hms_next_second:
  assumes "m < 60" "s < 60"
  shows "hms_next h m s = second_text (Suc (60 * (60 * h + m) + s))"
proof -
  consider "s < 59" | "s = 59" "m < 59" | "s = 59" "m = 59" using assms by linarith
  then show ?thesis
  proof cases
    case 1
    then show ?thesis using second_text_eq [of m "Suc s" h] assms by (simp add: hms_next_def)
  next
    case 2
    then show ?thesis using second_text_eq [of "Suc m" 0 h] by (simp add: hms_next_def algebra_simps)
  next
    case 3
    then show ?thesis using second_text_eq [of 0 0 "Suc h"] by (simp add: hms_next_def algebra_simps)
  qed
qed

lemma second_obtain:
  assumes "Suc n < 86400"
  obtains h m s where "n = 60 * (60 * h + m) + s" "h < 24" "m < 60" "s < 60" "\<not> (h = 23 \<and> m = 59 \<and> s = 59)"
proof -
  have a: "n = 60 * (n div 60) + n mod 60" "n div 60 = 60 * (n div 60 div 60) + n div 60 mod 60" by simp_all
  then have "n = 60 * (60 * (n div 60 div 60) + n div 60 mod 60) + n mod 60" by simp
  moreover have "n div 60 div 60 < 24" using assms by (simp add: less_mult_imp_div_less div_mult2_eq [symmetric])
  moreover have "\<not> (n div 60 div 60 = 23 \<and> n div 60 mod 60 = 59 \<and> n mod 60 = 59)" using assms a by linarith
  ultimately show thesis by (intro that [of "n div 60 div 60" "n div 60 mod 60" "n mod 60"]) simp_all
qed

lemma datetime_second:
  assumes "length D = 11" "Suc n < 86400"
  shows "datetime_string_increment (D @ second_text n @ [NUL]) 18 = Some (D @ second_text (Suc n) @ [NUL])"
proof -
  obtain h m s where n: "n = 60 * (60 * h + m) + s" "h < 24" "m < 60" "s < 60" "\<not> (h = 23 \<and> m = 59 \<and> s = 59)"
    using assms(2) by (rule second_obtain)
  show ?thesis
    unfolding datetime_string_increment_def n(1) second_text_eq [OF n(3,4)]
    using increment_hms [OF assms(1) n(2-5), of datetime_increment_year] hms_next_second [OF n(3,4), of h] by simp
qed


text \<open>The time after which a timestamp starts over.\<close>

definition LAST_TIMESTAMP :: string where
  "LAST_TIMESTAMP = ''2038-01-19 03:14:07'' @ [NUL]"

lemma overflow_elsewhere:
  assumes "length b = 20" "b ! 18 = CHR ''7''" "b ! 4 = CHR ''-''" "b ! 7 = CHR ''-''" "b ! 10 = CHR '' ''"
    "b ! 13 = CHR '':''" "b ! 16 = CHR '':''" "b ! 19 = NUL" "b \<noteq> LAST_TIMESTAMP"
  shows "timestamp_string_increment_overflow b 18 = store b 18 CHR ''8''"
proof (rule ccontr)
  assume "timestamp_string_increment_overflow b 18 \<noteq> store b 18 CHR ''8''"
  then have d: "b ! 17 = CHR ''0''" "b ! 15 = CHR ''4''" "b ! 14 = CHR ''1''" "b ! 12 = CHR ''3''" "b ! 11 = CHR ''0''"
    "b ! 9 = CHR ''9''" "b ! 8 = CHR ''1''" "b ! 6 = CHR ''1''" "b ! 5 = CHR ''0''" "b ! 3 = CHR ''8''"
    "b ! 2 = CHR ''3''" "b ! 1 = CHR ''0''" "b ! 0 = CHR ''2''"
    using assms(1) by (simp_all add: timestamp_string_increment_overflow_def load_def split: if_splits)
  have "b = map ((!) b) [0..<20]" using assms(1) by (metis map_nth)
  also have "\<dots> = LAST_TIMESTAMP"
    by (simp add: upt_rec LAST_TIMESTAMP_def assms(2-8) d d(12,13) [unfolded One_nat_def] numeral_2_eq_2 [symmetric])
  finally show False using assms(9) by simp
qed


lemma timestamp_second:
  assumes D: "length D = 11" "D ! 4 = CHR ''-''" "D ! 7 = CHR ''-''" "D ! 10 = CHR '' ''" and n: "Suc n < 86400"
    and last: "D @ second_text n @ [NUL] \<noteq> LAST_TIMESTAMP"
  shows "timestamp_string_increment (D @ second_text n @ [NUL]) 18 = Some (D @ second_text (Suc n) @ [NUL])"
proof -
  obtain h m s where s: "n = 60 * (60 * h + m) + s" "h < 24" "m < 60" "s < 60" "\<not> (h = 23 \<and> m = 59 \<and> s = 59)"
    using n by (rule second_obtain)
  let ?b = "D @ hms_text h m s @ [NUL]"
  have t: "second_text n = hms_text h m s" unfolding s(1) by (rule second_text_eq [OF s(3,4)])
  have n': "hms_next h m s = second_text (Suc n)" unfolding s(1) by (rule hms_next_second [OF s(3,4)])
  note inc = increment_hms [OF D(1) s(2-5), of timestamp_increment_year, unfolded n']
  have l: "length ?b = 20" using D(1) by simp
  show ?thesis
  proof (cases "?b ! 18 = CHR ''7''")
    case True
    have "?b ! 13 = CHR '':''" "?b ! 16 = CHR '':''" "?b ! 19 = NUL"
      using D(1) by (simp_all add: nth_append hms_text_digits)
    moreover have "?b ! 4 = CHR ''-''" "?b ! 7 = CHR ''-''" "?b ! 10 = CHR '' ''" using D by (simp_all add: nth_append)
    ultimately have o: "timestamp_string_increment_overflow ?b 18 = store ?b 18 CHR ''8''"
      using l True last t by (intro overflow_elsewhere) simp_all
    have "digit_switch 9 [] ?b 18 = Some (Some (?b[18 := CHR ''8'']))"
      using l True digit_next_9 [of 7] by (simp add: step_simps digit_simps list_update_append upd_conv_take_nth_drop)
    then show ?thesis
      using inc o l True unfolding t by (simp add: timestamp_string_increment_def or_else_def load_def store_def)
  next
    case False
    then show ?thesis using inc l unfolding t by (simp add: timestamp_string_increment_def load_def)
  qed
qed

text \<open>
  C31: within a day both routines count the seconds: for every date in the first eleven characters and
  every second of the day but the last, the text of the next second follows; a timestamp starts over
  after the last one of a 32-bit clock only.
\<close>

theorem time_strings_count_seconds:
  assumes "length D = 11" and "D ! 4 = CHR ''-''" and "D ! 7 = CHR ''-''" and "D ! 10 = CHR '' ''" and "Suc n < 86400"
  shows "datetime_string_increment (D @ second_text n @ [NUL]) 18 = Some (D @ second_text (Suc n) @ [NUL]) \<and>
    timestamp_string_increment (D @ second_text n @ [NUL]) 18 =
      (if D @ second_text n @ [NUL] = LAST_TIMESTAMP then Some (''1970-01-01 00:00:01'' @ [NUL])
       else Some (D @ second_text (Suc n) @ [NUL]))"
proof -
  have "timestamp_string_increment LAST_TIMESTAMP 18 = Some (''1970-01-01 00:00:01'' @ [NUL])"
    by code_simp
  then show ?thesis using datetime_second [OF assms(1,5)] timestamp_second [OF assms] by simp
qed

theorem time_strings_count_seconds_witness:
  "datetime_string_increment (''2017-03-08 13:59:59'' @ [NUL]) 18 = Some (''2017-03-08 14:00:00'' @ [NUL]) \<and>
   timestamp_string_increment (''2038-01-19 03:14:07'' @ [NUL]) 18 = Some (''1970-01-01 00:00:01'' @ [NUL])"
proof -
  have t: "second_text 50399 = ''13:59:59''" "second_text 50400 = ''14:00:00''" "second_text 11647 = ''03:14:07''"
    by (simp_all add: second_text_def hms_text_digits digit_simps)
  show ?thesis
    using time_strings_count_seconds [of "''2017-03-08 ''" 50399] time_strings_count_seconds [of "''2038-01-19 ''" 11647] t
    by (simp add: LAST_TIMESTAMP_def)
qed

section \<open>From day to day\<close>

definition four_digits :: "nat \<Rightarrow> string" where
  "four_digits y = [DIGIT_TO_ASCII (y div 1000), DIGIT_TO_ASCII (y div 100 mod 10), DIGIT_TO_ASCII (y div 10 mod 10),
     DIGIT_TO_ASCII (y mod 10)]"

definition date_text :: "nat \<Rightarrow> nat \<Rightarrow> nat \<Rightarrow> string" where
  "date_text y m d = four_digits y @ ''-'' @ two_digits m @ ''-'' @ two_digits d @ '' ''"

lemma length_date_text [simp]: "length (date_text y m d) = 11"
  by (simp add: date_text_def four_digits_def two_digits_def)

lemma midnight:
  assumes "length D = 11"
  shows "or_else (digit_switch 9 [] (D @ hms_text 23 59 59 @ [NUL]) 18)
      (increment_minute year (D @ hms_text 23 59 59 @ [NUL]) 17) =
    increment_day year (D @ hms_text 0 0 0 @ [NUL]) 9"
proof -
  obtain d0 d1 d2 d3 d4 d5 d6 d7 d8 d9 d10 where D: "D = [d0, d1, d2, d3, d4, d5, d6, d7, d8, d9, d10]"
    using assms by (rule list11)
  show ?thesis
    using digit_next_9 [of 9] digit_next_5 [of 5]
    by (simp add: D hms_text_digits increment_minute_def increment_hour_def step_simps digit_simps)
qed

text \<open>The length of a month, and the day after a day that is not the last of its year.\<close>

definition month_days :: "nat \<Rightarrow> nat \<Rightarrow> nat" where
  "month_days y m = (if m = 2 then (if is_leap_year y then 29 else 28) else if m \<in> {4, 6, 9, 11} then 30 else 31)"

definition date_next :: "nat \<Rightarrow> nat \<Rightarrow> nat \<Rightarrow> string" where
  "date_next y m d = (if d < month_days y m then date_text y m (Suc d)
     else if m < 12 then date_text y (Suc m) 1 else date_text (Suc y) 1 1)"

text \<open>The days the code does not leave for the next one of the calendar.\<close>

definition skipped_from :: "nat \<Rightarrow> nat \<Rightarrow> bool" where
  "skipped_from m d \<longleftrightarrow> d = 8 \<or> d = 18 \<or> d = 28 \<and> m \<noteq> 2 \<or> m = 10 \<and> 30 \<le> d"

lemma date_digits:
  "date_text y m d @ hms_text 0 0 0 @ [NUL] =
    [DIGIT_TO_ASCII (y div 1000), DIGIT_TO_ASCII (y div 100 mod 10), DIGIT_TO_ASCII (y div 10 mod 10), DIGIT_TO_ASCII (y mod 10),
     CHR ''-'', DIGIT_TO_ASCII (m div 10), DIGIT_TO_ASCII (m mod 10), CHR ''-'', DIGIT_TO_ASCII (d div 10), DIGIT_TO_ASCII (d mod 10),
     CHR '' '', CHR ''0'', CHR ''0'', CHR '':'', CHR ''0'', CHR ''0'', CHR '':'', CHR ''0'', CHR ''0'', NUL]"
  by (simp add: date_text_def four_digits_def two_digits_def hms_text_digits digit_simps)

lemma tens_chars: "char_of (49 :: nat) = CHR ''1''" "char_of (50 :: nat) = CHR ''2''" "char_of (51 :: nat) = CHR ''3''"
  by code_simp+

text \<open>Up to the 27th the month does not matter.\<close>

lemma increment_day_early:
  assumes "1 \<le> m" "m \<le> 12" "1 \<le> d" "d < 28"
  shows "increment_day year (date_text y m d @ hms_text 0 0 0 @ [NUL]) 9 =
    Some (date_text y m (if d = 8 \<or> d = 18 then d + 2 else d + 1) @ hms_text 0 0 0 @ [NUL])"
proof -
  have "d \<in> set [1..<28]" using assms(3,4) by simp
  moreover have "[1..<28] = [1, 2, 3, 4, 5, 6, 7, 8, 9, 10, 11, 12, 13, 14, 15, 16, 17, 18, 19, 20, 21, 22, 23, 24, 25, 26, 27]"
    by code_simp
  ultimately have "d \<in> {1, 2, 3, 4, 5, 6, 7, 8, 9, 10, 11, 12, 13, 14, 15, 16, 17, 18, 19, 20, 21, 22, 23, 24, 25, 26, 27}" by (simp only: list.set)
  then show ?thesis unfolding date_digits
    by (elim insertE emptyE) (simp_all add: increment_day_def step_simps digit_simps tens_chars)
qed

text \<open>The year after \<open>9999\<close> has no four digits.\<close>

lemma div_10_digit: "e < 10 \<Longrightarrow> (x * 10 + e) div 10 = (x :: nat)" "e < 10 \<Longrightarrow> (x * 10 + e) mod 10 = (e :: nat)"
  by (simp_all add: div_mult_self3)

lemma div_powers: "y div 100 = y div 10 div 10" "y div 1000 = y div 10 div 10 div 10" for y :: nat
  by (simp_all flip: div_mult2_eq)

lemma four_digits_eq:
  "a < 10 \<Longrightarrow> b < 10 \<Longrightarrow> c < 10 \<Longrightarrow> e < 10 \<Longrightarrow>
    four_digits (((a * 10 + b) * 10 + c) * 10 + e) = map DIGIT_TO_ASCII [a, b, c, e]"
  unfolding four_digits_def div_powers by (simp only: div_10_digit list.map mod_less)

lemma year_digits:
  assumes "y < 10000"
  obtains a b c e where "y = ((a * 10 + b) * 10 + c) * 10 + e" "a < 10" "b < 10" "c < 10" "e < (10 :: nat)"
proof
  show "y = ((y div 1000 * 10 + y div 100 mod 10) * 10 + y div 10 mod 10) * 10 + y mod 10"
    unfolding div_powers by (simp only: div_mult_mod_eq)
qed (use assms in simp_all)

lemma datetime_increment_year_eq:
  assumes "y < 9999" "length r = 16"
  shows "datetime_increment_year (four_digits y @ r) 3 = Some (four_digits (Suc y) @ ''-01-01'' @ drop 6 r)"
proof -
  obtain a b c e where y: "y = ((a * 10 + b) * 10 + c) * 10 + e" "a < 10" "b < 10" "c < 10" "e < (10 :: nat)"
    using assms(1) by (auto intro: year_digits [of y])
  have fy: "four_digits y = map DIGIT_TO_ASCII [a, b, c, e]" unfolding y(1) by (rule four_digits_eq [OF y(2-5)])
  have dr: "drop (Suc (Suc (Suc (Suc (Suc (Suc 0)))))) r = drop 6 r" by (simp add: eval_nat_numeral)
  note nxt = digit_next_9 [OF y(2)] digit_next_9 [OF y(3)] digit_next_9 [OF y(4)] digit_next_9 [OF y(5)]
  consider "e < 9" | "e = 9" "c < 9" | "e = 9" "c = 9" "b < 9" | "e = 9" "c = 9" "b = 9" "a < 9"
    using y assms(1) by (cases "e < 9"; cases "c < 9"; cases "b < 9"; cases "a < 9") auto
  then show ?thesis
  proof cases
    case 1
    then have "four_digits (Suc y) = map DIGIT_TO_ASCII [a, b, c, Suc e]" using four_digits_eq [of a b c "Suc e"] y by (simp add: add.assoc)
    then show ?thesis using 1 nxt assms(2) fy dr
      by (simp add: datetime_increment_year_def step_simps)
  next
    case 2
    then have "four_digits (Suc y) = map DIGIT_TO_ASCII [a, b, Suc c, 0]" using four_digits_eq [of a b "Suc c" 0] y by (simp add: add.assoc)
    then show ?thesis using 2 nxt assms(2) fy dr
      by (simp add: datetime_increment_year_def step_simps digit_simps)
  next
    case 3
    then have "four_digits (Suc y) = map DIGIT_TO_ASCII [a, Suc b, 0, 0]" using four_digits_eq [of a "Suc b" 0 0] y by (simp add: add.assoc)
    then show ?thesis using 3 nxt assms(2) fy dr
      by (simp add: datetime_increment_year_def step_simps digit_simps)
  next
    case 4
    then have "four_digits (Suc y) = map DIGIT_TO_ASCII [Suc a, 0, 0, 0]" using four_digits_eq [of "Suc a" 0 0 0] y by (simp add: add.assoc)
    then show ?thesis using 4 nxt assms(2) fy dr
      by (simp add: datetime_increment_year_def step_simps digit_simps)
  qed
qed

text \<open>The date the code writes after a date.\<close>

definition date_after :: "nat \<Rightarrow> nat \<Rightarrow> nat \<Rightarrow> string" where
  "date_after y m d =
     (if d = 8 \<or> d = 18 \<or> d = 28 \<and> m \<noteq> 2 then date_text y m (d + 2)
      else if m = 10 \<and> d = 30 then date_text y 12 1
      else if m = 10 \<and> d = 31 then date_text (Suc y) 1 1
      else date_next y m d)"

lemma year_of_digits:
  assumes "y < 10000"
  shows "ASCII_TO_DIGIT (DIGIT_TO_ASCII (y mod 10)) + ASCII_TO_DIGIT (DIGIT_TO_ASCII (y div 10 mod 10)) * 10 +
    ASCII_TO_DIGIT (DIGIT_TO_ASCII (y div 100 mod 10)) * 100 + ASCII_TO_DIGIT (DIGIT_TO_ASCII (y div 1000)) * 1000 = y"
proof -
  obtain a b c e where y: "y = ((a * 10 + b) * 10 + c) * 10 + e" "a < 10" "b < 10" "c < 10" "e < (10 :: nat)"
    using assms by (auto intro: year_digits [of y])
  have "y div 1000 = a" "y div 100 mod 10 = b" "y div 10 mod 10 = c" "y mod 10 = e"
    unfolding y(1) div_powers using y(2-5) by (simp_all only: div_10_digit mod_less)
  then show ?thesis using y by (simp add: ASCII_TO_DIGIT_inverse)
qed

lemma increment_day_late:
  assumes "1 \<le> m" "m \<le> 12" "28 \<le> d" "d \<le> month_days y m" "y < 9999"
  shows "increment_day datetime_increment_year (date_text y m d @ hms_text 0 0 0 @ [NUL]) 9 =
    Some (date_after y m d @ hms_text 0 0 0 @ [NUL])"
proof -
  have year: "datetime_increment_year (date_text y m d @ hms_text 0 0 0 @ [NUL]) 3 =
      Some (date_text (Suc y) 1 1 @ hms_text 0 0 0 @ [NUL])"
    using datetime_increment_year_eq [OF assms(5), of "''-'' @ two_digits m @ ''-'' @ two_digits d @ '' '' @ hms_text 0 0 0 @ [NUL]"]
    by (simp add: date_text_def two_digits_def digit_simps)
  have leap: "is_leap_year (ASCII_TO_DIGIT (DIGIT_TO_ASCII (y mod 10)) + ASCII_TO_DIGIT (DIGIT_TO_ASCII (y div 10 mod 10)) * 10 +
      ASCII_TO_DIGIT (DIGIT_TO_ASCII (y div 100 mod 10)) * 100 + ASCII_TO_DIGIT (DIGIT_TO_ASCII (y div 1000)) * 1000) = is_leap_year y"
    using year_of_digits [of y] assms(5) by simp
  have "m \<in> set [1..<13]" using assms(1,2) by simp
  moreover have "[1..<13] = [1, 2, 3, 4, 5, 6, 7, 8, 9, 10, 11, 12]" by code_simp
  ultimately have "m \<in> {1, 2, 3, 4, 5, 6, 7, 8, 9, 10, 11, 12}" by (simp only: list.set)
  moreover have "d \<in> {28, 29, 30, 31}" using assms(3,4) by (auto simp: month_days_def split: if_splits)
  ultimately show ?thesis using assms(4) year leap unfolding date_after_def date_next_def if_distrib [of "\<lambda>D. Some (D @ _)"] date_digits
    by (elim insertE emptyE)
      (simp_all add: increment_day_def step_simps digit_simps tens_chars month_days_def split: if_splits)
qed

lemma increment_day_date:
  assumes "1 \<le> m" "m \<le> 12" "1 \<le> d" "d \<le> month_days y m" "y < 9999"
  shows "increment_day datetime_increment_year (date_text y m d @ hms_text 0 0 0 @ [NUL]) 9 =
    Some (date_after y m d @ hms_text 0 0 0 @ [NUL])"
proof (cases "d < 28")
  case True
  then have "d < month_days y m" by (simp add: month_days_def)
  then show ?thesis using increment_day_early [OF assms(1-3) True] True by (simp add: date_after_def date_next_def)
next
  case False
  then show ?thesis using increment_day_late [OF assms(1,2) _ assms(4,5)] by simp
qed

lemma two_digits_inject:
  assumes "two_digits m = two_digits n" "m < 100" "n < 100"
  shows "m = n"
proof -
  have "m div 10 = n div 10" using assms by (intro DIGIT_eq [THEN iffD1]) (auto simp: two_digits_def)
  moreover have "m mod 10 = n mod 10" using assms(1) by (intro DIGIT_eq [THEN iffD1]) (auto simp: two_digits_def)
  ultimately show ?thesis by (metis div_mult_mod_eq)
qed

lemma date_text_inject:
  assumes "date_text y m d = date_text y' m' d'" "m < 100" "m' < 100" "d < 100" "d' < 100"
  shows "m = m' \<and> d = d'"
  using assms two_digits_inject [of m m'] two_digits_inject [of d d'] by (simp add: date_text_def four_digits_def two_digits_def)

text \<open>
  C32: counting up at the end of a day: for every day of the calendar before the year 9999 the text goes
  on with the first second of the next day, except from the 8th and the 18th of a month, from the 28th
  of a month other than February, and from the 30th and 31st of October: from these, the next day of the
  calendar is left out, or whole months are.
\<close>

theorem datetime_next_day:
  assumes "1 \<le> m" "m \<le> 12" "1 \<le> d" "d \<le> month_days y m" "y < 9999"
  shows "datetime_string_increment (date_text y m d @ ''23:59:59'' @ [NUL]) 18 = Some (date_after y m d @ ''00:00:00'' @ [NUL]) \<and>
    (date_after y m d = date_next y m d \<longleftrightarrow> \<not> skipped_from m d)"
proof
  have t: "''23:59:59'' = hms_text 23 59 59" "''00:00:00'' = hms_text 0 0 0" by (simp_all add: hms_text_digits digit_simps)
  show "datetime_string_increment (date_text y m d @ ''23:59:59'' @ [NUL]) 18 = Some (date_after y m d @ ''00:00:00'' @ [NUL])"
    unfolding t datetime_string_increment_def diff_Suc_1
    using midnight [of "date_text y m d" datetime_increment_year] increment_day_date [OF assms] by simp
  have d: "d \<le> 31"
    using assms(4) by (auto simp: month_days_def split: if_splits)
  show "date_after y m d = date_next y m d \<longleftrightarrow> \<not> skipped_from m d"
  proof (cases "skipped_from m d")
    case True
    then consider "d = 8 \<or> d = 18 \<or> d = 28 \<and> m \<noteq> 2" | "m = 10" "d = 30" | "m = 10" "d = 31"
      using d unfolding skipped_from_def by linarith
    then have "date_after y m d \<noteq> date_next y m d"
    proof cases
      case 1
      then have "d < month_days y m" by (auto simp: month_days_def)
      then have "date_next y m d = date_text y m (Suc d)" "date_after y m d = date_text y m (d + 2)"
        using 1 by (simp_all add: date_next_def date_after_def)
      then show ?thesis using date_text_inject [of y m "Suc d" y m "d + 2"] assms(2) d by auto
    next
      case 2
      then show ?thesis using date_text_inject [of y 10 31 y 12 1] by (auto simp: date_next_def date_after_def month_days_def)
    next
      case 3
      then show ?thesis using date_text_inject [of y 11 1 "Suc y" 1 1] by (auto simp: date_next_def date_after_def month_days_def)
    qed
    then show ?thesis using True by simp
  next
    case False
    then have "\<not> (m = 10 \<and> d = 30)" "\<not> (m = 10 \<and> d = 31)" "\<not> (d = 8 \<or> d = 18 \<or> d = 28 \<and> m \<noteq> 2)"
      by (auto simp: skipped_from_def)
    then show ?thesis using False unfolding date_after_def by auto
  qed
qed

theorem datetime_next_day_witness:
  "datetime_string_increment (''2019-12-31 23:59:59'' @ [NUL]) 18 = Some (''2020-01-01 00:00:00'' @ [NUL]) \<and>
   datetime_string_increment (''2019-10-30 23:59:59'' @ [NUL]) 18 = Some (''2019-12-01 00:00:00'' @ [NUL])"
  using datetime_next_day [of 12 31 2019] datetime_next_day [of 10 30 2019]
  by (simp add: month_days_def date_after_def date_next_def date_text_def four_digits_def two_digits_def digit_simps)

end
