(* ===== verification/Stamp_Columns.thy ===== *)
theory Stamp_Columns
  imports Columns Uuid Time_String
begin

text \<open>
  The builders of columns whose cells count up a text of fixed width,
  \<open>src/generate/column_string_uuid.c\<close>, \<open>column_timestamp.c\<close> and \<open>column_datetime.c\<close>. A builder
  makes the text of the current time once, copies it into the column and counts it up in place between
  the cells. The texts are those of \<open>Uuid\<close> and \<open>Time_String\<close>, what a builder leaves is the
  \<open>column_out\<close> of \<open>Columns\<close>. A UUID column has the texts of consecutive times; a time column counts
  up between the cells of a row block but not from one row block to the next.
\<close>

section \<open>Definitions\<close>

datatype stamp_failure =
    BCSUUID_MALLOC_FAILURE
  | BCTF_MALLOC_FAILURE | BCTU_MALLOC_FAILURE | BCTU_GROUP_MALLOC_FAILURE
  | BCDF_MALLOC_FAILURE | BCDU_MALLOC_FAILURE | BCDU_GROUP_MALLOC_FAILURE
  | TIME_FAILURE

definition UUID_STRING_SIZE :: nat where "UUID_STRING_SIZE = 37"
definition SIZE_TIMESTAMP_STRING :: nat where "SIZE_TIMESTAMP_STRING = 20"
definition SIZE_DATETIME_STRING :: nat where "SIZE_DATETIME_STRING = 20"

text \<open>The assignment of a structure of \<open>width\<close> bytes, and the pointer moves behind it.\<close>

definition PUT_STRUCT :: "nat \<Rightarrow> bytes \<Rightarrow> put" where
  "PUT_STRUCT width string b ptr =
     (if width \<le> length string then do { b \<leftarrow> store_string b ptr (take width string); Some (b, ptr + width) } else None)"

definition PUT_UUID_STRING :: "bytes \<Rightarrow> put" where "PUT_UUID_STRING = PUT_STRUCT UUID_STRING_SIZE"
definition PUT_TIMESTAMP_STRING :: "bytes \<Rightarrow> put" where "PUT_TIMESTAMP_STRING = PUT_STRUCT SIZE_TIMESTAMP_STRING"
definition PUT_DATETIME_STRING :: "bytes \<Rightarrow> put" where "PUT_DATETIME_STRING = PUT_STRUCT SIZE_DATETIME_STRING"

definition datetime_string_init :: "bytes \<Rightarrow> nat \<Rightarrow> timestamp \<Rightarrow> bytes option" where
  "datetime_string_init = timestamp_string_init"

text \<open>\<open>timestamp_now_handle_cl\<close>, with the answer of \<open>time\<close>.\<close>

definition timestamp_now_handle_cl :: "u64 option \<Rightarrow> stamp_failure + timestamp" where
  "timestamp_now_handle_cl now = (case now of None \<Rightarrow> Inl TIME_FAILURE | Some time \<Rightarrow> Inr (timestamp_init time))"

text \<open>
  \<open>while (1)\<close> over the cells of a rowspan. The loop of UUIDs stops when the pointer is not before the
  end any more, that of times when it is at the end.
\<close>

partial_function (option) stamp_cells ::
  "(nat \<Rightarrow> nat \<Rightarrow> bool) \<Rightarrow> (bytes \<Rightarrow> put) \<Rightarrow> (bytes \<Rightarrow> bytes option) \<Rightarrow> nat \<Rightarrow> bytes \<Rightarrow> bytes \<Rightarrow> nat \<Rightarrow>
    (bytes \<times> nat \<times> bytes) option" where
  "stamp_cells stop put increment contents_until s b ptr =
     do { (b, ptr) \<leftarrow> put s b ptr;
          if stop ptr contents_until then Some (b, ptr, s)
          else do { s \<leftarrow> increment s; stamp_cells stop put increment contents_until s b ptr } }"

declare stamp_cells.simps [code]

subsection \<open>UUIDs\<close>

text \<open>The string is counted up at \<open>time_low\<close>, its eighth byte.\<close>

definition increment_uuid :: "bytes \<Rightarrow> bytes option" where
  "increment_uuid s = uuid_string_increment_time s 7"

fun uuid_rowspans :: "nat list \<Rightarrow> bytes \<Rightarrow> bytes \<Rightarrow> nat \<Rightarrow> (bytes \<times> nat \<times> spans) option" where
  "uuid_rowspans [] s b ptr = Some (b, ptr, [])"
| "uuid_rowspans (rc # rcs) s b ptr =
     (let size_rowspan = UUID_STRING_SIZE * rc
      in do { (b, ptr', s) \<leftarrow> stamp_cells (\<lambda>ptr until. \<not> ptr < until) PUT_UUID_STRING increment_uuid (ptr + size_rowspan) s b ptr;
              if rcs = [] then Some (b, ptr', [(ptr, size_rowspan)])
              else do { s \<leftarrow> increment_uuid s;
                        (b, ptr', spans) \<leftarrow> uuid_rowspans rcs s b ptr';
                        Some (b, ptr', (ptr, size_rowspan) # spans) } })"

text \<open>\<open>buffer\<close> is the array on the stack, \<open>now\<close> and \<open>st\<close> the time and the state of the process.\<close>

definition build_column_string_uuid ::
  "bytes \<Rightarrow> u64 \<Rightarrow> uuid_state \<Rightarrow> alloc \<Rightarrow> bool \<Rightarrow> nat \<Rightarrow> nat list \<Rightarrow> (stamp_failure + column_out \<times> uuid_state) option" where
  "build_column_string_uuid buffer now st malloc join row_count rcs =
     (let length_contents = UUID_STRING_SIZE * row_count
      in case malloc 0 length_contents of
           None \<Rightarrow> Some (Inl BCSUUID_MALLOC_FAILURE)
         | Some (_, bytes) \<Rightarrow>
             do { (s, st) \<leftarrow> uuid_string_init buffer 0 now st;
                  (b, _, spans) \<leftarrow> (if rcs = [] then None else uuid_rowspans rcs s bytes 0);
                  Some (Inr (\<lparr>co_contents = b, co_spans = map (hook join b) spans, co_length = length_contents\<rparr>, st)) })"

subsection \<open>Times\<close>

text \<open>\<open>last_digit\<close> is the byte before the terminator.\<close>

definition increment_timestamp :: "bytes \<Rightarrow> bytes option" where
  "increment_timestamp s = timestamp_string_increment s (SIZE_TIMESTAMP_STRING - 2)"

definition increment_datetime :: "bytes \<Rightarrow> bytes option" where
  "increment_datetime s = datetime_string_increment s (SIZE_DATETIME_STRING - 2)"

fun time_fixed_rowspans :: "put \<Rightarrow> nat \<Rightarrow> nat list \<Rightarrow> bytes \<Rightarrow> nat \<Rightarrow> (bytes \<times> nat \<times> spans) option" where
  "time_fixed_rowspans put width [] b ptr = Some (b, ptr, [])"
| "time_fixed_rowspans put width (rc # rcs) b ptr =
     do { (b, ptr') \<leftarrow> put_until put (ptr + width * rc) b ptr;
          len \<leftarrow> step_back ptr' ptr;
          (b, ptr', spans) \<leftarrow> time_fixed_rowspans put width rcs b ptr';
          Some (b, ptr', (ptr, len) # spans) }"

fun time_rowspans ::
  "(bytes \<Rightarrow> put) \<Rightarrow> (bytes \<Rightarrow> bytes option) \<Rightarrow> nat \<Rightarrow> nat list \<Rightarrow> bytes \<Rightarrow> bytes \<Rightarrow> nat \<Rightarrow> (bytes \<times> nat \<times> spans) option" where
  "time_rowspans put increment width [] s b ptr = Some (b, ptr, [])"
| "time_rowspans put increment width (rc # rcs) s b ptr =
     do { (b, ptr', s) \<leftarrow> stamp_cells (=) put increment (ptr + width * rc) s b ptr;
          len \<leftarrow> step_back ptr' ptr;
          (b, ptr', spans) \<leftarrow> time_rowspans put increment width rcs s b ptr';
          Some (b, ptr', (ptr, len) # spans) }"

text \<open>
  The frame of the two builders: the block, the text of the current time, the rowspans. \<open>init\<close> writes
  the text into the array \<open>buffer\<close>.
\<close>

definition build_column_time ::
  "stamp_failure \<Rightarrow> (bytes \<Rightarrow> nat \<Rightarrow> timestamp \<Rightarrow> bytes option) \<Rightarrow> nat \<Rightarrow>
    (nat list \<Rightarrow> bytes \<Rightarrow> bytes \<Rightarrow> nat \<Rightarrow> (bytes \<times> nat \<times> spans) option) \<Rightarrow>
    bytes \<Rightarrow> u64 option \<Rightarrow> alloc \<Rightarrow> bool \<Rightarrow> nat \<Rightarrow> nat list \<Rightarrow> (stamp_failure + column_out) option" where
  "build_column_time failure init width rowspans buffer now malloc join row_count rcs =
     (let length_contents = width * row_count
      in case malloc 0 length_contents of
           None \<Rightarrow> Some (Inl failure)
         | Some (_, bytes) \<Rightarrow>
             (case timestamp_now_handle_cl now of
                Inl failure \<Rightarrow> Some (Inl failure)
              | Inr timestamp \<Rightarrow>
                  do { s \<leftarrow> init buffer 0 timestamp;
                       (b, _, spans) \<leftarrow> (if rcs = [] then None else rowspans rcs s bytes 0);
                       Some (Inr \<lparr>co_contents = b, co_spans = map (hook join b) spans, co_length = length_contents\<rparr>) }))"

definition build_column_timestamp_fixed where
  "build_column_timestamp_fixed = build_column_time BCTF_MALLOC_FAILURE timestamp_string_init SIZE_TIMESTAMP_STRING
     (\<lambda>rcs s. time_fixed_rowspans (PUT_TIMESTAMP_STRING s) SIZE_TIMESTAMP_STRING rcs)"

definition build_column_timestamp_unique where
  "build_column_timestamp_unique = build_column_time BCTU_MALLOC_FAILURE timestamp_string_init SIZE_TIMESTAMP_STRING
     (time_rowspans PUT_TIMESTAMP_STRING increment_timestamp SIZE_TIMESTAMP_STRING)"

definition build_column_datetime_fixed where
  "build_column_datetime_fixed = build_column_time BCDF_MALLOC_FAILURE datetime_string_init SIZE_DATETIME_STRING
     (\<lambda>rcs s. time_fixed_rowspans (PUT_DATETIME_STRING s) SIZE_DATETIME_STRING rcs)"

definition build_column_datetime_unique where
  "build_column_datetime_unique = build_column_time BCDU_MALLOC_FAILURE datetime_string_init SIZE_DATETIME_STRING
     (time_rowspans PUT_DATETIME_STRING increment_datetime SIZE_DATETIME_STRING)"

subsection \<open>Groups\<close>

text \<open>\<open>while (ptr < contents_until)\<close>\<close>

partial_function (option) put_while :: "put \<Rightarrow> nat \<Rightarrow> bytes \<Rightarrow> nat \<Rightarrow> (bytes \<times> nat) option" where
  "put_while put contents_until b ptr =
     (if ptr < contents_until then do { (b, ptr) \<leftarrow> put b ptr; put_while put contents_until b ptr } else Some (b, ptr))"

declare put_while.simps [code]

text \<open>
  \<open>while (1)\<close> over groups and rowspans, for all three texts; \<open>last_digit\<close> is where the text is counted
  up and \<open>i\<close> the index of the current group. \<open>cell\<close> and \<open>len\<close> are the current rowspan and the length
  already added for it.
\<close>

partial_function (option) stamp_group_loop ::
  "(bytes \<Rightarrow> put) \<Rightarrow> (bytes \<Rightarrow> bytes option) \<Rightarrow> nat \<Rightarrow> nat list \<Rightarrow> nat list \<Rightarrow> nat \<times> nat \<Rightarrow> nat \<Rightarrow> nat \<Rightarrow> nat \<Rightarrow>
    bytes \<Rightarrow> bytes \<Rightarrow> nat \<Rightarrow> (bytes \<times> nat \<times> spans) option" where
  "stamp_group_loop put increment width sizes rest current rowspan_until group_until i s b ptr =
     (if group_until < rowspan_until then
        do { (b, ptr) \<leftarrow> put_while (put s) group_until b ptr;
             s \<leftarrow> increment s;
             group \<leftarrow> load_size sizes (i + 1);
             stamp_group_loop put increment width sizes rest current rowspan_until (ptr + width * group) (i + 1) s b ptr }
      else
        do { (b, ptr) \<leftarrow> put_while (put s) rowspan_until b ptr;
             case rest of
               [] \<Rightarrow> Some (b, ptr, [current])
             | rc # rest \<Rightarrow>
                 do { (b, ptr', spans) \<leftarrow>
                        stamp_group_loop put increment width sizes rest (ptr, width * rc) (ptr + width * rc) group_until i s b ptr;
                      Some (b, ptr', current # spans) } })"

declare stamp_group_loop.simps [code]

text \<open>From the partition of the rows on; the contents begin where the partitioner stopped.\<close>

definition stamp_groups ::
  "(bytes \<Rightarrow> put) \<Rightarrow> (bytes \<Rightarrow> bytes option) \<Rightarrow> nat \<Rightarrow> grp_spec \<Rightarrow> bool \<Rightarrow> nat \<Rightarrow> nat list \<Rightarrow> bytes \<Rightarrow> nat list \<Rightarrow> bytes \<Rightarrow>
    column_out option" where
  "stamp_groups put increment width grp join row_count rcs s sizes bytes =
     do { (sizes, until) \<leftarrow> gs_partition grp sizes (gs_count grp) row_count;
          ptr \<leftarrow> (if until = gs_count grp then Some 0 else None);
          (rc, rest) \<leftarrow> (case rcs of [] \<Rightarrow> None | rc # rest \<Rightarrow> Some (rc, rest));
          group \<leftarrow> load_size sizes 0;
          (b, _, spans) \<leftarrow>
            stamp_group_loop put increment width sizes rest (ptr, width * rc) (ptr + width * rc) (ptr + width * group) 0 s bytes ptr;
          Some \<lparr>co_contents = b, co_spans = map (hook join b) spans, co_length = width * row_count\<rparr> }"

definition build_column_string_uuid_group ::
  "grp_spec \<Rightarrow> bytes \<Rightarrow> u64 \<Rightarrow> uuid_state \<Rightarrow> alloc \<Rightarrow> bool \<Rightarrow> nat \<Rightarrow> nat list \<Rightarrow>
    (stamp_failure + column_out \<times> uuid_state) option" where
  "build_column_string_uuid_group grp buffer now st malloc join row_count rcs =
     (case malloc (gs_count grp) (UUID_STRING_SIZE * row_count) of
        None \<Rightarrow> Some (Inl BCSUUID_MALLOC_FAILURE)
      | Some (sizes, bytes) \<Rightarrow>
          do { (s, st) \<leftarrow> uuid_string_init buffer 0 now st;
               co \<leftarrow> stamp_groups PUT_UUID_STRING increment_uuid UUID_STRING_SIZE grp join row_count rcs
                 s sizes bytes;
               Some (Inr (co, st)) })"

definition build_column_time_group ::
  "stamp_failure \<Rightarrow> (bytes \<Rightarrow> nat \<Rightarrow> timestamp \<Rightarrow> bytes option) \<Rightarrow> (bytes \<Rightarrow> put) \<Rightarrow> (bytes \<Rightarrow> bytes option) \<Rightarrow> nat \<Rightarrow>
    grp_spec \<Rightarrow> bytes \<Rightarrow> u64 option \<Rightarrow> alloc \<Rightarrow> bool \<Rightarrow> nat \<Rightarrow> nat list \<Rightarrow> (stamp_failure + column_out) option" where
  "build_column_time_group failure init put increment width grp buffer now malloc join row_count rcs =
     (case malloc (gs_count grp) (width * row_count) of
        None \<Rightarrow> Some (Inl failure)
      | Some (sizes, bytes) \<Rightarrow>
          (case timestamp_now_handle_cl now of
             Inl failure \<Rightarrow> Some (Inl failure)
           | Inr timestamp \<Rightarrow>
               do { s \<leftarrow> init buffer 0 timestamp;
                    co \<leftarrow> stamp_groups put increment width grp join row_count rcs s sizes bytes;
                    Some (Inr co) }))"

definition build_column_timestamp_unique_group where
  "build_column_timestamp_unique_group = build_column_time_group BCTU_GROUP_MALLOC_FAILURE timestamp_string_init
     PUT_TIMESTAMP_STRING increment_timestamp SIZE_TIMESTAMP_STRING"

definition build_column_datetime_unique_group where
  "build_column_datetime_unique_group = build_column_time_group BCDU_GROUP_MALLOC_FAILURE datetime_string_init
     PUT_DATETIME_STRING increment_datetime SIZE_DATETIME_STRING"

section \<open>Cells of fixed width\<close>

lemma writes_PUT_STRUCT: "length s = width \<Longrightarrow> writes (PUT_STRUCT width s) s"
  by (rule writesI) (simp add: PUT_STRUCT_def store_string_append)

lemma put_while_writes:
  assumes "writes put s" "s \<noteq> []" "length old = length s * n"
  shows "put_while put (length xs + length s * n) (xs @ old @ ys) (length xs) =
    Some (xs @ concat (replicate n s) @ ys, length xs + length s * n)"
  using assms(3)
proof (induction n arbitrary: xs old)
  case 0
  then show ?case by (subst put_while.simps) simp
next
  case (Suc n)
  obtain o1 o2 where o: "old = o1 @ o2" "length o1 = length s" "length o2 = length s * n"
    using Suc.prems by (auto elim: split_length)
  have "put (xs @ o1 @ o2 @ ys) (length xs) = Some (xs @ s @ o2 @ ys, length xs + length s)"
    using writesD [OF assms(1) o(2) refl, of xs "o2 @ ys"] by simp
  moreover have "put_while put (length (xs @ s) + length s * n) ((xs @ s) @ o2 @ ys) (length (xs @ s)) =
      Some ((xs @ s) @ concat (replicate n s) @ ys, length (xs @ s) + length s * n)"
    using o(3) by (intro Suc.IH) simp_all
  ultimately show ?case using o(1) assms(2) by (subst put_while.simps) (simp add: add.assoc)
qed

lemma length_terminated_fixed: "\<forall>cell \<in> set cells. length cell + 1 = width \<Longrightarrow> length (terminated cells) = width * length cells"
  by (induction cells) auto

text \<open>A fixed cell, with the length taken from the pointer.\<close>

lemma time_fixed_rowspans_fixed:
  assumes "writes put (s @ [NUL])" "\<forall>rc \<in> set rcs. 0 < rc" "width = length s + 1" "length old = width * sum_list rcs"
  shows "time_fixed_rowspans put width rcs (xs @ old @ ys) (length xs) = fixed_rowspans put width rcs (xs @ old @ ys) (length xs)"
  using assms(2,4)
proof (induction rcs arbitrary: xs old)
  case (Cons rc rcs)
  obtain o1 o2 where o: "old = o1 @ o2" "length o1 = width * rc" "length o2 = width * sum_list rcs"
    using Cons.prems(2) by (auto simp: distrib_left elim: split_length)
  let ?r = "concat (replicate rc (s @ [NUL]))"
  have "put_until put (length xs + width * rc) (xs @ o1 @ o2 @ ys) (length xs) = Some (xs @ ?r @ o2 @ ys, length xs + width * rc)"
    using put_until_writes [OF assms(1), of rc o1 xs "o2 @ ys"] o(2) Cons.prems(1) assms(3) by simp
  moreover have "length (xs @ ?r) = length xs + width * rc" by (simp add: length_concat sum_list_replicate assms(3))
  ultimately show ?case
    using Cons.IH [of o2 "xs @ ?r"] o Cons.prems(1) by (simp add: step_back_def Let_def)
qed simp

text \<open>A loop that counts up between the cells only: every row block starts with the last text of the one before.\<close>

fun block_times :: "nat \<Rightarrow> nat list \<Rightarrow> nat list" where
  "block_times n [] = []"
| "block_times n (rc # rcs) = [n..<n + rc] @ block_times (n + rc - 1) rcs"

lemma length_block_times [simp]: "length (block_times n rcs) = sum_list rcs"
  by (induction rcs arbitrary: n) simp_all

text \<open>The cells of groups of the given sizes, one text per group.\<close>

fun group_texts :: "(nat \<Rightarrow> string) \<Rightarrow> nat \<Rightarrow> nat list \<Rightarrow> string list" where
  "group_texts f n [] = []"
| "group_texts f n (g # gs) = replicate g (f n) @ group_texts f (Suc n) gs"

lemma length_group_texts [simp]: "length (group_texts f n gs) = sum_list gs"
  by (induction gs arbitrary: n) simp_all

text \<open>
  What the loops ask of a text: its width, no terminator in it, and that the routine makes the next
  text where it fits.
\<close>

locale stamp =
  fixes increment :: "bytes \<Rightarrow> bytes option"
    and stamp_text :: "nat \<Rightarrow> string"
    and width :: nat
    and fits :: "nat \<Rightarrow> bool"
  assumes stamp_width: "length (stamp_text n) + 1 = width"
    and stamp_NUL: "NUL \<notin> set (stamp_text n)"
    and counts_up: "fits n \<Longrightarrow> increment (stamp_text n @ [NUL]) = Some (stamp_text (Suc n) @ [NUL])"
begin

abbreviation put_stamp :: "bytes \<Rightarrow> put" where "put_stamp \<equiv> PUT_STRUCT width"

lemma stamp_length: "length (stamp_text n @ [NUL]) = width"
  using stamp_width [of n] by simp

lemma size_pos: "0 < width"
  using stamp_width [of 0] by simp

lemma writes_stamp: "writes (put_stamp (stamp_text n @ [NUL])) (stamp_text n @ [NUL])"
  by (rule writes_PUT_STRUCT [OF stamp_length])

lemma put_stamp_eq:
  "length old = width \<Longrightarrow> put_stamp (stamp_text n @ [NUL]) (xs @ old @ ys) (length xs) =
    Some (xs @ (stamp_text n @ [NUL]) @ ys, length xs + width)"
  using writesD [OF writes_stamp, of old n "length xs" xs ys] stamp_length [of n] by simp

lemma stamp_cells_eq:
  assumes stop: "\<And>p until. p \<le> until \<Longrightarrow> stop p until \<longleftrightarrow> p = until"
    and "\<forall>i. n \<le> i \<and> Suc i < n + k \<longrightarrow> fits i" "0 < k" "length old = width * k"
  shows "stamp_cells stop put_stamp increment (length xs + width * k) (stamp_text n @ [NUL]) (xs @ old @ ys) (length xs) =
    Some (xs @ terminated (map stamp_text [n..<n + k]) @ ys, length xs + width * k, stamp_text (n + k - 1) @ [NUL])"
  using assms(2-)
proof (induction k arbitrary: n xs old)
  case (Suc k)
  let ?t = "stamp_text n @ [NUL]"
  obtain o1 o2 where o: "old = o1 @ o2" "length o1 = width" "length o2 = width * k"
    using Suc.prems(3) by (auto elim: split_length)
  note 1 = put_stamp_eq [OF o(2), of n xs "o2 @ ys"]
  show ?case
  proof (cases "k = 0")
    case True
    then show ?thesis using 1 o stop by (subst stamp_cells.simps) simp
  next
    case False
    have 2: "stamp_cells stop put_stamp increment (length (xs @ ?t) + width * k) (stamp_text (Suc n) @ [NUL])
        ((xs @ ?t) @ o2 @ ys) (length (xs @ ?t)) =
      Some ((xs @ ?t) @ terminated (map stamp_text [Suc n..<Suc n + k]) @ ys, length (xs @ ?t) + width * k,
        stamp_text (Suc n + k - 1) @ [NUL])"
      using Suc.prems(1) o(3) False by (intro Suc.IH) auto
    have "increment ?t = Some (stamp_text (Suc n) @ [NUL])" using Suc.prems(1) False by (intro counts_up) simp
    moreover have "\<not> stop (length xs + width) (length xs + width * Suc k)" using stop False size_pos by simp
    moreover have "[n..<n + Suc k] = n # [Suc n..<Suc n + k]" by (simp add: upt_conv_Cons del: upt_Suc)
    moreover have w: "length (xs @ ?t) = length xs + width" using stamp_length [of n] by simp
    have "stamp_cells stop put_stamp increment (length xs + width * Suc k) (stamp_text (Suc n) @ [NUL])
        (xs @ ?t @ o2 @ ys) (length xs + width) =
      Some (xs @ ?t @ terminated (map stamp_text [Suc n..<Suc n + k]) @ ys, length xs + width * Suc k,
        stamp_text (n + Suc k - 1) @ [NUL])"
      using 2 unfolding w by (simp add: add.assoc del: upt_Suc)
    ultimately show ?thesis
      using 1 o(1) by (subst stamp_cells.simps) (simp del: upt_Suc)
  qed
qed simp

lemma stamps_width: "length (terminated (map stamp_text ns)) = width * length ns"
  using length_terminated_fixed [of "map stamp_text ns" width] stamp_width by simp

lemma time_rowspans_eq:
  assumes "\<forall>i. n \<le> i \<and> Suc i < n + sum_list rcs \<longrightarrow> fits i" "\<forall>rc \<in> set rcs. 0 < rc" "length old = width * sum_list rcs"
  shows "time_rowspans put_stamp increment width rcs (stamp_text n @ [NUL]) (xs @ old @ ys) (length xs) =
    Some (xs @ terminated (map stamp_text (block_times n rcs)) @ ys, length xs + width * sum_list rcs,
      spans_from (length xs) rcs (map stamp_text (block_times n rcs)))"
  using assms
proof (induction rcs arbitrary: n xs old)
  case (Cons rc rcs)
  let ?r = "terminated (map stamp_text [n..<n + rc])"
  obtain o1 o2 where o: "old = o1 @ o2" "length o1 = width * rc" "length o2 = width * sum_list rcs"
    using Cons.prems(3) by (auto simp: distrib_left elim: split_length)
  have 1: "stamp_cells (=) put_stamp increment (length xs + width * rc) (stamp_text n @ [NUL]) (xs @ o1 @ o2 @ ys) (length xs) =
      Some (xs @ ?r @ o2 @ ys, length xs + width * rc, stamp_text (n + rc - 1) @ [NUL])"
    using Cons.prems o(2) by (intro stamp_cells_eq) auto
  have w: "length (xs @ ?r) = length xs + width * rc" by (simp add: stamps_width)
  have "\<forall>i. n + rc - 1 \<le> i \<and> Suc i < n + rc - 1 + sum_list rcs \<longrightarrow> fits i"
    using Cons.prems(2) by (auto intro!: Cons.prems(1) [rule_format])
  then have 2: "time_rowspans put_stamp increment width rcs (stamp_text (n + rc - 1) @ [NUL]) ((xs @ ?r) @ o2 @ ys) (length (xs @ ?r)) =
      Some ((xs @ ?r) @ terminated (map stamp_text (block_times (n + rc - 1) rcs)) @ ys,
        length (xs @ ?r) + width * sum_list rcs,
        spans_from (length (xs @ ?r)) rcs (map stamp_text (block_times (n + rc - 1) rcs)))"
    using Cons.prems(2) o(3) by (intro Cons.IH) simp_all
  show ?case
    using 1 2 [unfolded w] o(1) by (simp add: step_back_def distrib_left stamps_width)
qed simp

lemma group_texts_in: "cell \<in> set (group_texts stamp_text n gs) \<Longrightarrow> \<exists>i. cell = stamp_text i"
  by (induction gs arbitrary: n) (auto split: if_splits)

lemma terminated_group_texts: "length (terminated (take k (group_texts stamp_text n gs))) = width * min k (sum_list gs)"
  using length_terminated_fixed [of "take k (group_texts stamp_text n gs)" width] group_texts_in [of _ n gs] stamp_width
  by (fastforce dest: in_set_takeD simp: min.commute)

lemma put_while_stamp:
  assumes "length old = width * k" "p = length xs"
  shows "put_while (put_stamp (stamp_text n @ [NUL])) (p + width * k) (xs @ old @ ys) p =
    Some (xs @ terminated (replicate k (stamp_text n)) @ ys, p + width * k)"
  using put_while_writes [OF writes_stamp, of n old k xs ys] assms unfolding stamp_length by (simp add: terminated_replicate)

lemma stamp_group_loop_eq:
  assumes "drop (Suc i) sizes = gs" "r + sum_list rest = g + sum_list gs" "\<forall>g \<in> set gs. 0 < g"
    and "\<forall>k. n \<le> k \<and> k < n + length gs \<longrightarrow> fits k" "length old = width * (g + sum_list gs)" "p = length xs"
  shows "stamp_group_loop put_stamp increment width sizes rest current (p + width * r) (p + width * g) i
      (stamp_text n @ [NUL]) (xs @ old @ ys) p =
    Some (xs @ terminated (group_texts stamp_text n (g # gs)) @ ys, p + width * (g + sum_list gs),
      current # spans_from (p + width * r) rest (drop r (group_texts stamp_text n (g # gs))))"
  using assms
proof (induction "length gs + length rest" arbitrary: i gs r rest g n old xs p current rule: less_induct)
  case less
  show ?case
  proof (cases "g < r")
    case True
    then have "gs \<noteq> []" using less.prems(2) by auto
    then obtain g' gs' where gs: "gs = g' # gs'" by (cases gs) auto
    obtain o1 o2 where o: "old = o1 @ o2" "length o1 = width * g" "length o2 = width * (g' + sum_list gs')"
      using less.prems(5) gs by (auto simp: distrib_left elim: split_length)
    let ?r = "terminated (replicate g (stamp_text n))"
    have w: "length (xs @ ?r) = p + width * g" using stamp_width [of n] less.prems(6) by simp
    have d: "drop (Suc (Suc i)) sizes = gs'" "load_size sizes (i + 1) = Some g'"
      using less.prems(1) gs nth_via_drop [of "Suc i" sizes g' gs']
      by (auto simp: load_size_def drop_Suc [of "Suc i"] drop_tl not_less dest: arg_cong [of _ _ length])
    have r: "p + width * g + width * (r - g) = p + width * r" using True by (simp add: algebra_simps flip: distrib_left)
    have inc: "increment (stamp_text n @ [NUL]) = Some (stamp_text (Suc n) @ [NUL])"
      using less.prems(4) gs by (intro counts_up) simp
    have "stamp_group_loop put_stamp increment width sizes rest current (p + width * g + width * (r - g))
        (p + width * g + width * g') (Suc i) (stamp_text (Suc n) @ [NUL]) ((xs @ ?r) @ o2 @ ys) (p + width * g) =
      Some ((xs @ ?r) @ terminated (group_texts stamp_text (Suc n) (g' # gs')) @ ys, p + width * g + width * (g' + sum_list gs'),
        current # spans_from (p + width * g + width * (r - g)) rest (drop (r - g) (group_texts stamp_text (Suc n) (g' # gs'))))"
      using less.prems True gs o(3) d(1) w by (intro less.hyps) auto
    then show ?thesis
      using True put_while_stamp [OF o(2) less.prems(6), of n "o2 @ ys"] inc d(2) size_pos o(1)
      unfolding r by (subst stamp_group_loop.simps) (simp add: gs distrib_left add.assoc)
  next
    case False
    obtain o1 o2 where o: "old = o1 @ o2" "length o1 = width * r" "length o2 = width * (g - r + sum_list gs)"
    proof -
      have "length old = width * r + width * (g - r + sum_list gs)"
        using less.prems(5) False by (simp flip: distrib_left)
      then show thesis using that by (auto elim: split_length)
    qed
    let ?r = "terminated (replicate r (stamp_text n))"
    have w: "length (xs @ ?r) = p + width * r" using stamp_width [of n] less.prems(6) by simp
    have c: "group_texts stamp_text n (g # gs) = replicate r (stamp_text n) @ group_texts stamp_text n ((g - r) # gs)"
      using False replicate_add [of r "g - r" "stamp_text n"] by simp
    note put = put_while_stamp [OF o(2) less.prems(6), of n "o2 @ ys"]
    show ?thesis
    proof (cases rest)
      case Nil
      then have "g = r" "gs = []"
        using less.prems(2,3) False by (auto simp: sum_list_eq_0_iff) (metis gr0I sum_list_eq_0_iff list.set_intros(1) neq_Nil_conv not_less0 add_is_0 le_add1 diff_is_0_eq)+
      then show ?thesis using put Nil o size_pos by (subst stamp_group_loop.simps) simp
    next
      case (Cons rc rest')
      have g: "p + width * r + width * (g - r) = p + width * g" using False by (simp add: algebra_simps flip: distrib_left)
      have "stamp_group_loop put_stamp increment width sizes rest' (p + width * r, width * rc) (p + width * r + width * rc)
          (p + width * r + width * (g - r)) i (stamp_text n @ [NUL]) ((xs @ ?r) @ o2 @ ys) (p + width * r) =
        Some ((xs @ ?r) @ terminated (group_texts stamp_text n ((g - r) # gs)) @ ys, p + width * r + width * (g - r + sum_list gs),
          (p + width * r, width * rc) # spans_from (p + width * r + width * rc) rest' (drop rc (group_texts stamp_text n ((g - r) # gs))))"
        using less.prems False Cons o(3) w by (intro less.hyps) auto
      moreover have "width * r + width * (g + sum_list gs - r) = width * g + width * sum_list gs"
        using False by (simp flip: distrib_left)
      moreover have "rc \<le> sum_list ((g - r) # gs)" using less.prems(2) Cons False by simp
      moreover note terminated_group_texts [of rc n "(g - r) # gs"]
      ultimately show ?thesis
        using False put o(1) Cons size_pos unfolding g c
        by (subst stamp_group_loop.simps) (simp add: distrib_left add.assoc del: group_texts.simps)
    qed
  qed
qed

text \<open>The builders, from the text of the current time on.\<close>

lemma lays_out_stamps:
  assumes "\<forall>cell \<in> set cells. \<exists>i. cell = stamp_text i" "sum_list rcs = length cells"
  shows "lays_out \<lparr>co_contents = terminated cells, co_spans = map (hook join (terminated cells)) (spans_from 0 rcs cells),
      co_length = width * length cells\<rparr> join rcs cells"
proof -
  have "\<forall>cell \<in> set cells. NUL \<notin> set cell \<and> length cell + 1 = width" using assms(1) stamp_NUL stamp_width by fastforce
  then show ?thesis
    using assms(2) lays_out_hook [of "terminated cells" "[]" cells "[]" rcs "width * length cells"] length_terminated_fixed [of cells width]
    by simp
qed

lemma time_unique_lays_out:
  assumes "init buffer 0 (timestamp_init now) = Some (stamp_text n @ [NUL])" "allocates malloc"
    and "rcs \<noteq> []" "\<forall>rc \<in> set rcs. 0 < rc" "row_count = sum_list rcs"
    and "\<forall>i. n \<le> i \<and> Suc i < n + row_count \<longrightarrow> fits i"
  shows "\<exists>co. build_column_time failure init width (time_rowspans put_stamp increment width) buffer (Some now) malloc join
      row_count rcs = Some (Inr co) \<and> lays_out co join rcs (map stamp_text (block_times n rcs))"
proof -
  obtain sizes bytes where m: "malloc 0 (width * row_count) = Some (sizes, bytes)" "length bytes = width * row_count"
    using assms(2) by (rule allocatesE)
  have "time_rowspans put_stamp increment width rcs (stamp_text n @ [NUL]) bytes 0 =
      Some (terminated (map stamp_text (block_times n rcs)), width * row_count, spans_from 0 rcs (map stamp_text (block_times n rcs)))"
    using time_rowspans_eq [of n rcs bytes "[]" "[]"] assms m(2) by simp
  then show ?thesis
    using m(1) assms(1,3,5) lays_out_stamps [of "map stamp_text (block_times n rcs)" rcs join]
    by (auto simp: build_column_time_def timestamp_now_handle_cl_def)
qed

lemma time_fixed_lays_out:
  assumes "init buffer 0 (timestamp_init now) = Some (stamp_text n @ [NUL])" "allocates malloc"
    and "rcs \<noteq> []" "\<forall>rc \<in> set rcs. 0 < rc" "row_count = sum_list rcs"
  shows "\<exists>co. build_column_time failure init width (\<lambda>rcs s. time_fixed_rowspans (put_stamp s) width rcs) buffer (Some now) malloc join
      row_count rcs = Some (Inr co) \<and> lays_out co join rcs (replicate row_count (stamp_text n))"
proof -
  obtain sizes bytes where m: "malloc 0 (width * row_count) = Some (sizes, bytes)" "length bytes = width * row_count"
    using assms(2) by (rule allocatesE)
  have e: "width = length (stamp_text n) + 1" using stamp_width [of n] by simp
  let ?p = "put_stamp (stamp_text n @ [NUL])" and ?c = "replicate (sum_list rcs) (stamp_text n)"
  have l: "length bytes = width * sum_list rcs" using m(2) assms(5) by simp
  have "time_fixed_rowspans ?p width rcs ([] @ bytes @ []) (length ([] :: bytes)) = fixed_rowspans ?p width rcs ([] @ bytes @ []) (length ([] :: bytes))"
    by (rule time_fixed_rowspans_fixed [OF writes_stamp assms(4) e l])
  also have "\<dots> = Some ([] @ terminated ?c @ [], length ([] :: bytes) + width * sum_list rcs, spans_from (length ([] :: bytes)) rcs ?c)"
    by (rule fixed_rowspans_eq [OF writes_stamp assms(4) e l])
  finally have "time_fixed_rowspans ?p width rcs bytes 0 = Some (terminated ?c, width * row_count, spans_from 0 rcs ?c)"
    by (simp add: assms(5))
  moreover have "lays_out \<lparr>co_contents = terminated ?c, co_spans = map (hook join (terminated ?c)) (spans_from 0 rcs ?c),
      co_length = width * length ?c\<rparr> join rcs ?c"
    by (rule lays_out_stamps) (simp_all, blast)
  ultimately show ?thesis
    using m(1) assms(1,3,5) by (simp add: build_column_time_def timestamp_now_handle_cl_def)
qed

lemma stamp_groups_lays_out:
  assumes "splits grp row_count" "length sizes0 = gs_count grp" "length bytes = width * row_count"
    and "rcs \<noteq> []" "\<forall>rc \<in> set rcs. 0 < rc" "row_count = sum_list rcs"
    and "\<forall>i. n \<le> i \<and> Suc i < n + gs_count grp \<longrightarrow> fits i"
  shows "\<exists>co sizes. stamp_groups put_stamp increment width grp join row_count rcs (stamp_text n @ [NUL]) sizes0 bytes = Some co \<and>
    group_sizes (gs_count grp) row_count sizes \<and> lays_out co join rcs (group_texts stamp_text n sizes)"
proof -
  obtain sizes where part: "gs_partition grp sizes0 (gs_count grp) row_count = Some (sizes, gs_count grp)"
    and gs: "group_sizes (gs_count grp) row_count sizes"
    using assms(1,2) by (rule splitsE)
  have "sizes \<noteq> []" using gs assms(1) by (auto simp: group_sizes_def splits_def)
  then obtain g gs' where s: "sizes = g # gs'" by (cases sizes) auto
  obtain rc rest where r: "rcs = rc # rest" using assms(4) by (cases rcs) auto
  let ?t = "terminated (group_texts stamp_text n sizes)"
  have l: "length sizes = gs_count grp" "sum_list sizes = row_count" "\<forall>g \<in> set sizes. 0 < g"
    using gs by (simp_all add: group_sizes_def)
  have "stamp_group_loop put_stamp increment width sizes rest (0, width * rc) (0 + width * rc) (0 + width * g) 0
      (stamp_text n @ [NUL]) ([] @ bytes @ []) 0 =
    Some ([] @ ?t @ [], 0 + width * (g + sum_list gs'), (0, width * rc) # spans_from (0 + width * rc) rest (drop rc (group_texts stamp_text n sizes)))"
    using l assms(3,6,7) s r unfolding s by (intro stamp_group_loop_eq) auto
  moreover have "spans_from 0 rcs (group_texts stamp_text n sizes) =
      (0, width * rc) # spans_from (0 + width * rc) rest (drop rc (group_texts stamp_text n sizes))"
    using terminated_group_texts [of rc n sizes] l assms(6) r by simp
  ultimately have "stamp_groups put_stamp increment width grp join row_count rcs (stamp_text n @ [NUL]) sizes0 bytes =
      Some \<lparr>co_contents = ?t, co_spans = map (hook join ?t) (spans_from 0 rcs (group_texts stamp_text n sizes)), co_length = width * row_count\<rparr>"
    using part r s by (simp add: stamp_groups_def load_size_def)
  moreover have "lays_out \<lparr>co_contents = ?t, co_spans = map (hook join ?t) (spans_from 0 rcs (group_texts stamp_text n sizes)),
      co_length = width * row_count\<rparr> join rcs (group_texts stamp_text n sizes)"
    using lays_out_stamps [of "group_texts stamp_text n sizes" rcs join] l assms(6) group_texts_in [of _ n sizes] by simp
  ultimately show ?thesis using gs by blast
qed

lemma time_group_lays_out:
  assumes "init buffer 0 (timestamp_init now) = Some (stamp_text n @ [NUL])" "allocates malloc" "splits grp row_count"
    and "rcs \<noteq> []" "\<forall>rc \<in> set rcs. 0 < rc" "row_count = sum_list rcs"
    and "\<forall>i. n \<le> i \<and> Suc i < n + gs_count grp \<longrightarrow> fits i"
  shows "\<exists>co sizes. build_column_time_group failure init put_stamp increment width grp buffer (Some now) malloc join row_count rcs =
      Some (Inr co) \<and> group_sizes (gs_count grp) row_count sizes \<and> lays_out co join rcs (group_texts stamp_text n sizes)"
proof -
  obtain sizes bytes where m: "malloc (gs_count grp) (width * row_count) = Some (sizes, bytes)"
    "length sizes = gs_count grp" "length bytes = width * row_count"
    using assms(2) by (rule allocatesE)
  show ?thesis
    using stamp_groups_lays_out [OF assms(3) m(2,3) assms(4-7), of join] m(1) assms(1)
    by (auto simp: build_column_time_group_def timestamp_now_handle_cl_def)
qed

end

section \<open>UUID columns\<close>

definition uuid_text :: "nat \<Rightarrow> u8 list \<Rightarrow> nat \<Rightarrow> string" where
  "uuid_text seq node t = uuid_time_text t @ clk_seq_node_text seq node"

interpretation uuid: stamp increment_uuid "uuid_text seq node" "25 + 2 * length node" "\<lambda>t. True" for seq node
  by unfold_locales (simp_all add: uuid_text_def increment_uuid_def uuid_increment)

lemma PUT_UUID: "length node = 6 \<Longrightarrow> PUT_UUID_STRING = PUT_STRUCT (25 + 2 * length node)" "length node = 6 \<Longrightarrow> UUID_STRING_SIZE = 25 + 2 * length node"
  by (simp_all add: PUT_UUID_STRING_def UUID_STRING_SIZE_def)

lemma uuid_rowspans_eq:
  assumes "length node = 6" "\<forall>rc \<in> set rcs. 0 < rc" "length old = UUID_STRING_SIZE * sum_list rcs"
  shows "uuid_rowspans rcs (uuid_text seq node n @ [NUL]) (xs @ old @ ys) (length xs) =
    Some (xs @ terminated (map (uuid_text seq node) [n..<n + sum_list rcs]) @ ys, length xs + UUID_STRING_SIZE * sum_list rcs,
      spans_from (length xs) rcs (map (uuid_text seq node) [n..<n + sum_list rcs]))"
  using assms(2-)
proof (induction rcs arbitrary: n xs old)
  case (Cons rc rcs)
  let ?f = "uuid_text seq node"
  let ?r = "terminated (map ?f [n..<n + rc])"
  note u = PUT_UUID [OF assms(1)]
  obtain o1 o2 where o: "old = o1 @ o2" "length o1 = UUID_STRING_SIZE * rc" "length o2 = UUID_STRING_SIZE * sum_list rcs"
    using Cons.prems(2) by (auto simp: distrib_left elim: split_length)
  have 1: "stamp_cells (\<lambda>ptr until. \<not> ptr < until) PUT_UUID_STRING increment_uuid (length xs + UUID_STRING_SIZE * rc) (?f n @ [NUL])
      (xs @ o1 @ o2 @ ys) (length xs) =
      Some (xs @ ?r @ o2 @ ys, length xs + UUID_STRING_SIZE * rc, ?f (n + rc - 1) @ [NUL])"
    using Cons.prems(1) o(2) unfolding u by (intro uuid.stamp_cells_eq) auto
  have w: "length (xs @ ?r) = length xs + UUID_STRING_SIZE * rc" unfolding u(2) by (simp add: uuid.stamps_width)
  have s: "[n..<n + (rc + sum_list rcs)] = [n..<n + rc] @ [n + rc..<n + rc + sum_list rcs]"
    using upt_add_eq_append [of n "n + rc" "sum_list rcs"] by (simp add: add.assoc)
  have inc: "increment_uuid (?f (n + rc - 1) @ [NUL]) = Some (?f (n + rc) @ [NUL])"
    using uuid.counts_up [where n = "n + rc - 1" and seq = seq and node = node] Cons.prems(1) by simp
  have 2: "uuid_rowspans rcs (?f (n + rc) @ [NUL]) ((xs @ ?r) @ o2 @ ys) (length (xs @ ?r)) =
      Some ((xs @ ?r) @ terminated (map ?f [n + rc..<n + rc + sum_list rcs]) @ ys,
        length (xs @ ?r) + UUID_STRING_SIZE * sum_list rcs,
        spans_from (length (xs @ ?r)) rcs (map ?f [n + rc..<n + rc + sum_list rcs]))"
    using Cons.prems(1) o(3) by (intro Cons.IH) simp_all
  have t: "take rc (map ?f [n..<n + (rc + sum_list rcs)]) = map ?f [n..<n + rc]"
    "drop rc (map ?f [n..<n + (rc + sum_list rcs)]) = map ?f [n + rc..<n + rc + sum_list rcs]"
    unfolding s by simp_all
  have r: "length ?r = UUID_STRING_SIZE * rc" using w by simp
  show ?case
  proof (cases "rcs = []")
    case True
    then show ?thesis using 1 o t r by (simp add: Let_def)
  next
    case False
    then show ?thesis using 1 2 [unfolded w] o(1) t r inc s
      by (simp add: Let_def distrib_left add.assoc)
  qed
qed simp

lemma uuid_text_inj:
  assumes "uuid_text seq node t = uuid_text seq' node' t'"
  shows "t mod 2 ^ 60 = t' mod 2 ^ 60" "seq mod 2 ^ 16 = seq' mod 2 ^ 16"
proof -
  have a: "uuid_time_text t = uuid_time_text t'" "clk_seq_node_text seq node = clk_seq_node_text seq' node'"
    using assms by (auto simp: uuid_text_def append_eq_append_conv)
  show "t mod 2 ^ 60 = t' mod 2 ^ 60" using a(1) by (rule uuid_time_text_inj)
  have "hex_text 4 seq = hex_text 4 seq'" using a(2) by (auto simp: clk_seq_node_text_def)
  then show "seq mod 2 ^ 16 = seq' mod 2 ^ 16" using hex_text_inj [of 4 seq seq'] by simp
qed

lemma consecutive_apart:
  assumes "i \<in> {n..<n + k}" "j \<in> {n..<n + k}" "k \<le> m" "i mod m = j mod m"
  shows "i = (j :: nat)"
proof (rule ccontr)
  have less: "False" if "i < j" "i \<in> {n..<n + k}" "j \<in> {n..<n + k}" "i mod m = j mod m" for i j
  proof -
    have "m dvd j - i" using that mod_eq_dvd_iff_nat [of i j m] by simp
    moreover have "0 < j - i" "j - i < m" using that assms(3) by auto
    ultimately show False using nat_dvd_not_less by blast
  qed
  assume "i \<noteq> j"
  then show False using less [of i j] less [of j i] assms by (auto simp: neq_iff)
qed

lemma distinct_uuids:
  assumes "k \<le> 2 ^ 60"
  shows "distinct (map (uuid_text seq node) [n..<n + k])"
  unfolding distinct_map
proof (intro conjI inj_onI)
  fix i j
  assume "i \<in> set [n..<n + k]" "j \<in> set [n..<n + k]" "uuid_text seq node i = uuid_text seq node j"
  then show "i = j" by (intro consecutive_apart [OF _ _ assms uuid_text_inj(1)]) simp_all
qed simp

lemma build_column_string_uuid_lays_out:
  assumes "length node = 6" "length buffer = 37" "allocates malloc" "rcs \<noteq> []" "\<forall>rc \<in> set rcs. 0 < rc" "row_count = sum_list rcs"
  shows "\<exists>co. build_column_string_uuid buffer now (clk_state seq node) malloc join row_count rcs =
      Some (Inr (co, clk_state (Suc seq) node)) \<and>
    lays_out co join rcs (map (uuid_text seq node) [unat now..<unat now + row_count])"
proof -
  obtain sizes bytes where m: "malloc 0 (UUID_STRING_SIZE * row_count) = Some (sizes, bytes)" "length bytes = UUID_STRING_SIZE * row_count"
    using assms(3) by (rule allocatesE)
  have i: "uuid_string_init buffer 0 now (clk_state seq node) = Some (uuid_text seq node (unat now) @ [NUL], clk_state (Suc seq) node)"
    using uuid_string_init_eq [OF assms(2,1), of "[]" "[]" now seq] by (simp add: uuid_text_def)
  let ?cells = "map (uuid_text seq node) [unat now..<unat now + row_count]"
  have "uuid_rowspans rcs (uuid_text seq node (unat now) @ [NUL]) bytes 0 =
      Some (terminated ?cells, UUID_STRING_SIZE * row_count, spans_from 0 rcs ?cells)"
    using uuid_rowspans_eq [OF assms(1,5), of bytes seq "unat now" "[]" "[]"] m(2) assms(6) by simp
  moreover have "lays_out \<lparr>co_contents = terminated ?cells, co_spans = map (hook join (terminated ?cells)) (spans_from 0 rcs ?cells),
      co_length = UUID_STRING_SIZE * length ?cells\<rparr> join rcs ?cells"
    unfolding PUT_UUID(2) [OF assms(1)] using assms(6) by (intro uuid.lays_out_stamps [of ?cells seq node]) auto
  ultimately show ?thesis using m(1) i assms(4) by (simp add: build_column_string_uuid_def)
qed

lemma build_column_string_uuid_group_lays_out:
  assumes "length node = 6" "length buffer = 37" "allocates malloc" "rcs \<noteq> []" "\<forall>rc \<in> set rcs. 0 < rc" "row_count = sum_list rcs"
    and "splits grp row_count"
  shows "\<exists>co sizes. build_column_string_uuid_group grp buffer now (clk_state seq node) malloc join row_count rcs =
      Some (Inr (co, clk_state (Suc seq) node)) \<and> group_sizes (gs_count grp) row_count sizes \<and>
    lays_out co join rcs (group_texts (uuid_text seq node) (unat now) sizes)"
proof -
  note u = PUT_UUID [OF assms(1)]
  obtain sizes bytes where m: "malloc (gs_count grp) (UUID_STRING_SIZE * row_count) = Some (sizes, bytes)"
    "length sizes = gs_count grp" "length bytes = UUID_STRING_SIZE * row_count"
    using assms(3) by (rule allocatesE)
  have i: "uuid_string_init buffer 0 now (clk_state seq node) = Some (uuid_text seq node (unat now) @ [NUL], clk_state (Suc seq) node)"
    using uuid_string_init_eq [OF assms(2,1), of "[]" "[]" now seq] by (simp add: uuid_text_def)
  show ?thesis
    using uuid.stamp_groups_lays_out [OF assms(7) m(2) m(3) [unfolded u(2)] assms(4-6), of "unat now" join seq] i m(1)
    unfolding u by (auto simp: build_column_string_uuid_group_def u)
qed

text \<open>
  The columns of UUIDs of a process, in the order in which their builders take the lock of the state: a
  plain or a grouped column each, with its own time.
\<close>

record uuid_column =
  uc_grp :: "grp_spec option"
  uc_buffer :: bytes
  uc_now :: u64
  uc_join :: bool
  uc_rcs :: "nat list"

definition build_uuid_column :: "alloc \<Rightarrow> uuid_column \<Rightarrow> uuid_state \<Rightarrow> (stamp_failure + column_out \<times> uuid_state) option" where
  "build_uuid_column malloc u st =
     (case uc_grp u of
        None \<Rightarrow> build_column_string_uuid (uc_buffer u) (uc_now u) st malloc (uc_join u) (sum_list (uc_rcs u)) (uc_rcs u)
      | Some grp \<Rightarrow> build_column_string_uuid_group grp (uc_buffer u) (uc_now u) st malloc (uc_join u) (sum_list (uc_rcs u)) (uc_rcs u))"

fun build_uuid_columns :: "alloc \<Rightarrow> uuid_column list \<Rightarrow> uuid_state \<Rightarrow> (column_out list \<times> uuid_state) option" where
  "build_uuid_columns malloc [] st = Some ([], st)"
| "build_uuid_columns malloc (u # us) st =
     do { r \<leftarrow> build_uuid_column malloc u st;
          case r of Inl failure \<Rightarrow> None
          | Inr (co, st) \<Rightarrow> do { (cos, st) \<leftarrow> build_uuid_columns malloc us st; Some (co # cos, st) } }"

definition uuid_column_ok :: "uuid_column \<Rightarrow> bool" where
  "uuid_column_ok u \<longleftrightarrow> length (uc_buffer u) = 37 \<and> uc_rcs u \<noteq> [] \<and> list_all ((<) 0) (uc_rcs u) \<and> sum_list (uc_rcs u) \<le> 2 ^ 60 \<and>
     (case uc_grp u of None \<Rightarrow> True | Some grp \<Rightarrow> splits grp (sum_list (uc_rcs u)))"

text \<open>The cells with the clock sequence \<open>seq\<close>: a UUID for every row, or for every group.\<close>

definition uuid_cells :: "nat \<Rightarrow> u8 list \<Rightarrow> uuid_column \<Rightarrow> string list \<Rightarrow> bool" where
  "uuid_cells seq node u cells \<longleftrightarrow>
     (case uc_grp u of
        None \<Rightarrow> cells = map (uuid_text seq node) [unat (uc_now u)..<unat (uc_now u) + sum_list (uc_rcs u)]
      | Some grp \<Rightarrow> \<exists>sizes. group_sizes (gs_count grp) (sum_list (uc_rcs u)) sizes \<and>
          cells = group_texts (uuid_text seq node) (unat (uc_now u)) sizes)"

lemma build_uuid_column_eq:
  assumes "length node = 6" "allocates malloc" "uuid_column_ok u"
  shows "\<exists>co cells. build_uuid_column malloc u (clk_state seq node) = Some (Inr (co, clk_state (Suc seq) node)) \<and>
    lays_out co (uc_join u) (uc_rcs u) cells \<and> uuid_cells seq node u cells"
proof (cases "uc_grp u")
  case None
  then show ?thesis
    using build_column_string_uuid_lays_out [OF assms(1) _ assms(2), of "uc_buffer u" "uc_rcs u" "sum_list (uc_rcs u)" "uc_now u" seq "uc_join u"]
      assms(3) by (auto simp: build_uuid_column_def uuid_column_ok_def uuid_cells_def list_all_iff)
next
  case (Some grp)
  then obtain co sizes where "build_uuid_column malloc u (clk_state seq node) = Some (Inr (co, clk_state (Suc seq) node))"
    "group_sizes (gs_count grp) (sum_list (uc_rcs u)) sizes"
    "lays_out co (uc_join u) (uc_rcs u) (group_texts (uuid_text seq node) (unat (uc_now u)) sizes)"
    using build_column_string_uuid_group_lays_out [OF assms(1) _ assms(2),
        of "uc_buffer u" "uc_rcs u" "sum_list (uc_rcs u)" grp "uc_now u" seq "uc_join u"]
      assms(3) by (auto simp: build_uuid_column_def uuid_column_ok_def list_all_iff)
  then show ?thesis using Some by (auto simp: uuid_cells_def)
qed

lemma build_uuid_columns_eq:
  assumes "length node = 6" "allocates malloc" "list_all uuid_column_ok us"
  shows "\<exists>cos cellss. build_uuid_columns malloc us (clk_state seq node) = Some (cos, clk_state (seq + length us) node) \<and>
    length cos = length us \<and> length cellss = length us \<and>
    (\<forall>i < length us. lays_out (cos ! i) (uc_join (us ! i)) (uc_rcs (us ! i)) (cellss ! i) \<and>
       uuid_cells (seq + i) node (us ! i) (cellss ! i))"
  using assms(3)
proof (induction us arbitrary: seq)
  case (Cons u us)
  obtain co cells where 1: "build_uuid_column malloc u (clk_state seq node) = Some (Inr (co, clk_state (Suc seq) node))"
    "lays_out co (uc_join u) (uc_rcs u) cells" "uuid_cells seq node u cells"
    using build_uuid_column_eq [OF assms(1,2), of u seq] Cons.prems by auto
  obtain cos cellss where 2: "build_uuid_columns malloc us (clk_state (Suc seq) node) = Some (cos, clk_state (Suc seq + length us) node)"
    "length cos = length us" "length cellss = length us"
    "\<forall>i < length us. lays_out (cos ! i) (uc_join (us ! i)) (uc_rcs (us ! i)) (cellss ! i) \<and>
       uuid_cells (Suc seq + i) node (us ! i) (cellss ! i)"
    using Cons.IH [of "Suc seq"] Cons.prems by auto
  have "\<forall>i < length (u # us). lays_out ((co # cos) ! i) (uc_join ((u # us) ! i)) (uc_rcs ((u # us) ! i)) ((cells # cellss) ! i) \<and>
      uuid_cells (seq + i) node ((u # us) ! i) ((cells # cellss) ! i)"
    using 1(2,3) 2(4) by (auto simp: less_Suc_eq_0_disj)
  then show ?case using 1(1) 2(1-3) by (intro exI [of _ "co # cos"] exI [of _ "cells # cellss"]) simp
qed simp

lemma uuid_cells_in: "uuid_cells seq node u cells \<Longrightarrow> cell \<in> set cells \<Longrightarrow> \<exists>t. cell = uuid_text seq node t"
  using uuid.group_texts_in [of cell seq node] by (auto simp: uuid_cells_def split: option.splits)

text \<open>
  C33: The columns of UUIDs of a process, plain ones and ones in groups in any order, up to \<open>2 ^ 16\<close> of
  them from any clock sequence on. Every builder succeeds and lays out its cells: a plain column gets
  one UUID per row, of consecutive times from its start on, a grouped one a UUID per group, repeated as
  often as the group has rows. The cells of a plain column differ from one another, and no two columns
  have a cell in common whatever the clock shows, since the clock sequence counts the columns; it has
  16 bits, hence the bound.
\<close>

theorem uuid_columns:
  assumes "length node = 6" and "allocates malloc" and "list_all uuid_column_ok us" and "length us \<le> 2 ^ 16"
  shows "\<exists>cos cellss. build_uuid_columns malloc us (clk_state seq node) = Some (cos, clk_state (seq + length us) node) \<and>
    length cos = length us \<and> length cellss = length us \<and>
    (\<forall>i < length us. lays_out (cos ! i) (uc_join (us ! i)) (uc_rcs (us ! i)) (cellss ! i) \<and>
       uuid_cells (seq + i) node (us ! i) (cellss ! i) \<and> (uc_grp (us ! i) = None \<longrightarrow> distinct (cellss ! i))) \<and>
    (\<forall>i < length us. \<forall>j < length us. i \<noteq> j \<longrightarrow> set (cellss ! i) \<inter> set (cellss ! j) = {})"
proof -
  obtain cos cellss where c: "build_uuid_columns malloc us (clk_state seq node) = Some (cos, clk_state (seq + length us) node)"
    "length cos = length us" "length cellss = length us"
    "\<forall>i < length us. lays_out (cos ! i) (uc_join (us ! i)) (uc_rcs (us ! i)) (cellss ! i) \<and>
       uuid_cells (seq + i) node (us ! i) (cellss ! i)"
    using build_uuid_columns_eq [OF assms(1-3), of seq] by blast
  have "distinct (cellss ! i)" if "i < length us" "uc_grp (us ! i) = None" for i
  proof -
    have "sum_list (uc_rcs (us ! i)) \<le> 2 ^ 60" using assms(3) that(1) by (auto simp: list_all_length uuid_column_ok_def)
    then show ?thesis using c(4) that distinct_uuids by (auto simp: uuid_cells_def)
  qed
  moreover have "set (cellss ! i) \<inter> set (cellss ! j) = {}" if "i < length us" "j < length us" "i \<noteq> j" for i j
  proof -
    have "(seq + i) mod 2 ^ 16 \<noteq> (seq + j) mod 2 ^ 16"
      using consecutive_apart [of "seq + i" seq "length us" "seq + j" "2 ^ 16"] assms(4) that by auto
    then have "uuid_text (seq + i) node t \<noteq> uuid_text (seq + j) node t'" for t t' using uuid_text_inj(2) by blast
    moreover have "\<forall>cell \<in> set (cellss ! i). \<exists>t. cell = uuid_text (seq + i) node t"
      "\<forall>cell \<in> set (cellss ! j). \<exists>t. cell = uuid_text (seq + j) node t"
      using c(4) that uuid_cells_in by blast+
    ultimately show ?thesis by fastforce
  qed
  ultimately show ?thesis using c by blast
qed

definition two_uuid_columns :: "uuid_column list" where
  "two_uuid_columns =
     [\<lparr>uc_grp = None, uc_buffer = replicate 37 NUL, uc_now = 5, uc_join = True, uc_rcs = [3, 2]\<rparr>,
      \<lparr>uc_grp = Some \<lparr>gs_count = 2, gs_partition = partition_groups_even\<rparr>, uc_buffer = replicate 37 NUL, uc_now = 5,
        uc_join = False, uc_rcs = [3, 2]\<rparr>]"

theorem uuid_columns_witness:
  "\<exists>co co' cells cells'.
    build_uuid_columns zero_alloc two_uuid_columns (clk_state 3 [1, 2, 3, 4, 5, 6]) =
      Some ([co, co'], clk_state (3 + 2) [1, 2, 3, 4, 5, 6]) \<and>
    lays_out co True [3, 2] cells \<and> cells = map (uuid_text 3 [1, 2, 3, 4, 5, 6]) [unat (5 :: u64)..<unat (5 :: u64) + 5] \<and>
    lays_out co' False [3, 2] cells' \<and> distinct cells \<and> set cells \<inter> set cells' = {}"
proof -
  have "splits \<lparr>gs_count = 2, gs_partition = partition_groups_even\<rparr> 5" by (rule even.partitioner_splits) simp_all
  then have ok: "list_all uuid_column_ok two_uuid_columns" by (simp add: two_uuid_columns_def uuid_column_ok_def)
  have l: "length two_uuid_columns = 2" by (simp add: two_uuid_columns_def)
  obtain cos cellss where c: "build_uuid_columns zero_alloc two_uuid_columns (clk_state 3 [1, 2, 3, 4, 5, 6]) =
      Some (cos, clk_state (3 + 2) [1, 2, 3, 4, 5, 6])" "length cos = 2" "length cellss = 2"
    "\<forall>i < 2. lays_out (cos ! i) (uc_join (two_uuid_columns ! i)) (uc_rcs (two_uuid_columns ! i)) (cellss ! i) \<and>
       uuid_cells (3 + i) [1, 2, 3, 4, 5, 6] (two_uuid_columns ! i) (cellss ! i) \<and>
       (uc_grp (two_uuid_columns ! i) = None \<longrightarrow> distinct (cellss ! i))"
    "\<forall>i < 2. \<forall>j < 2. i \<noteq> j \<longrightarrow> set (cellss ! i) \<inter> set (cellss ! j) = {}"
    using uuid_columns [of "[1, 2, 3, 4, 5, 6]" zero_alloc two_uuid_columns 3, OF _ zero_alloc_allocates ok] by (auto simp: l)
  obtain co co' where "cos = [co, co']" using c(2) by (auto simp: numeral_2_eq_2 length_Suc_conv)
  moreover obtain cells cells' where "cellss = [cells, cells']" using c(3) by (auto simp: numeral_2_eq_2 length_Suc_conv)
  ultimately show ?thesis
    using c(1) c(4) [rule_format, of 0] c(4) [rule_format, of 1] c(5) [rule_format, of 0 1]
    by (auto simp: two_uuid_columns_def uuid_cells_def)
qed

section \<open>Time columns\<close>

text \<open>The seconds of the day and the date that the text of a time shows.\<close>

definition second_of :: "timestamp \<Rightarrow> nat" where
  "second_of ts = 60 * (60 * unat (ts_hour ts) + unat (ts_minute ts)) + unat (ts_second ts)"

definition month_shown :: "timestamp \<Rightarrow> nat" where
  "month_shown ts = (let month = unat (ts_month ts) in if month \<in> {2..12} then month else 1)"

definition day_shown :: "timestamp \<Rightarrow> nat" where
  "day_shown ts = (let day = unat (ts_day ts) in if day \<in> {2..3} \<union> {6..31} then day else 1)"

lemma DIGIT_NUL: "DIGIT_TO_ASCII d \<noteq> NUL"
proof
  assume "DIGIT_TO_ASCII d = NUL"
  then have "(of_char (char_of (or d 48) :: char) :: nat) = of_char NUL" by (simp add: DIGIT_TO_ASCII_def)
  then have "or d 48 mod 256 = (0 :: nat)" by simp
  then have "\<not> bit (take_bit 8 (or d 48)) 4" by (simp add: take_bit_eq_mod)
  then show False by (simp add: bit_take_bit_iff bit_or_iff bit_numeral_rec)
qed

definition time_text :: "nat \<Rightarrow> nat \<Rightarrow> nat \<Rightarrow> nat \<Rightarrow> string" where
  "time_text y m d n = date_text y m d @ second_text n"

lemma time_text_NUL: "NUL \<notin> set (time_text y m d n)"
  by (simp add: time_text_def date_text_def four_digits_def two_digits_def second_text_def hms_text_def DIGIT_NUL DIGIT_NUL [symmetric])

lemma length_time_text [simp]: "length (time_text y m d n) = 19"
  by (simp add: time_text_def second_text_def)

lemma date_text_dashes: "date_text y m d ! 4 = CHR ''-''" "date_text y m d ! 7 = CHR ''-''" "date_text y m d ! 10 = CHR '' ''"
  by (simp_all add: date_text_def four_digits_def two_digits_def)

lemma timestamp_string_init_eq:
  assumes "length buffer = 20" "unat (ts_hour ts) < 24" "unat (ts_minute ts) < 60" "unat (ts_second ts) < 60"
  shows "timestamp_string_init buffer 0 ts =
    Some (time_text (unat (ts_year ts)) (month_shown ts) (day_shown ts) (second_of ts) @ [NUL])"
proof -
  let ?y = "unat (ts_year ts)"
  have two: "length (two_digits n) = 2" for n by (simp add: two_digits_def)
  have z: "two_digits 0 = ''00''" "two_digits 1 = ''01''" by (simp_all add: two_digits_def digit_simps)
  have small: "minute_case n = two_digits n" if "n < 60" for n using that z(1) by (cases "n = 0") (auto simp: minute_case_def)
  have "hour_case n = two_digits n" if "n < 24" for n using that z(1) by (cases "n = 0") (auto simp: hour_case_def)
  note small = this small
  have cases: "month_case (unat (ts_month ts)) = two_digits (month_shown ts)" "day_case (unat (ts_day ts)) = two_digits (day_shown ts)"
    "hour_case (unat (ts_hour ts)) = two_digits (unat (ts_hour ts))"
    "minute_case (unat (ts_minute ts)) = two_digits (unat (ts_minute ts))"
    "minute_case (unat (ts_second ts)) = two_digits (unat (ts_second ts))"
    using assms(2-4) z by (simp_all add: month_case_def month_shown_def day_case_def day_shown_def small Let_def)
  have y1: "n mod 1000 div 100 = n div 100 mod 10" for n :: nat using mod_mult2_eq [of n 100 10] by simp
  have y2: "n mod 100 div 10 = n div 10 mod 10" for n :: nat using mod_mult2_eq [of n 10 10] by simp
  have y3: "n mod 1000 mod 100 = n mod 100" "n mod 100 mod 10 = n mod 10" for n :: nat by (simp_all add: mod_mod_cancel)
  note y = y1 y3 y2
  have sec: "second_text (second_of ts) = hms_text (unat (ts_hour ts)) (unat (ts_minute ts)) (unat (ts_second ts))"
    using second_text_eq assms(3,4) by (simp add: second_of_def)
  obtain b1 b2 where b: "buffer = b1 @ b2" "length b1 = 17" "length b2 = 3"
    using assms(1) split_length [of buffer 17 3] by auto
  let ?head = "[DIGIT_TO_ASCII (?y div 1000)] @ [DIGIT_TO_ASCII (?y div 100 mod 10)] @ [DIGIT_TO_ASCII (?y div 10 mod 10)] @
    [DIGIT_TO_ASCII (?y mod 10)] @ (''-'' @ two_digits (month_shown ts) @ ''-'') @ (two_digits (day_shown ts) @ '' '') @
    (two_digits (unat (ts_hour ts)) @ '':'') @ (two_digits (unat (ts_minute ts)) @ '':'')"
  have w: "writes (\<lambda>b string. do {
      (b, string) \<leftarrow> PUT_CHAR (DIGIT_TO_ASCII (?y div 1000)) b string;
      (b, string) \<leftarrow> PUT_CHAR (DIGIT_TO_ASCII (?y div 100 mod 10)) b string;
      (b, string) \<leftarrow> PUT_CHAR (DIGIT_TO_ASCII (?y div 10 mod 10)) b string;
      (b, string) \<leftarrow> PUT_CHAR (DIGIT_TO_ASCII (?y mod 10)) b string;
      (b, string) \<leftarrow> PUT_STRING_WIDTH (''-'' @ two_digits (month_shown ts) @ ''-'') 4 b string;
      (b, string) \<leftarrow> PUT_STRING_WIDTH (two_digits (day_shown ts) @ '' '') 3 b string;
      (b, string) \<leftarrow> PUT_STRING_WIDTH (two_digits (unat (ts_hour ts)) @ '':'') 3 b string;
      PUT_STRING_WIDTH (two_digits (unat (ts_minute ts)) @ '':'') 3 b string }) ?head"
    by (intro writes_bind writes_PUT_CHAR writes_PUT_STRING_WIDTH) (simp_all add: two)
  have h: "length ?head = 17" by (simp add: two)
  note 1 = writesD [OF w, of b1 0 "[]" b2]
  have 2: "SET_STRING_WIDTH (?head @ b2) 17 (two_digits (unat (ts_second ts))) 3 = Some (?head @ two_digits (unat (ts_second ts)) @ [NUL])"
    using store_string_append [of "two_digits (unat (ts_second ts)) @ [NUL]" b2 ?head "[]"] b(3) h
    by (simp add: SET_STRING_WIDTH_nul two)
  show ?thesis
    using 1 2 b h unfolding timestamp_string_init_def cases y time_text_def date_text_def four_digits_def sec hms_text_def
    by (auto simp: Let_def split: bind_splits)
qed

lemma unat_u8_small: "unat w < 256 \<Longrightarrow> unat (ucast (w :: u64) :: u8) = unat w"
  by (simp add: unsigned_ucast_eq take_bit_eq_mod)

lemma timestamp_init_ranges:
  "unat (ts_hour (timestamp_init now)) < 24" "unat (ts_minute (timestamp_init now)) < 60" "unat (ts_second (timestamp_init now)) < 60"
proof -
  have h: "unat ((x :: u64) mod 86400 div 3600) < 24" and m: "unat (x mod 3600 div 60) < 60" and s: "unat (x mod 60) < 60" for x
    by (simp_all add: unat_div unat_mod less_mult_imp_div_less)
  have "unat (ucast (x mod 86400 div 3600) :: u8) < 24" "unat (ucast (x mod 3600 div 60) :: u8) < 60" "unat (ucast (x mod 60) :: u8) < 60"
    for x :: u64
    using h [of x] m [of x] s [of x] by (simp_all add: unat_u8_small)
  then show "unat (ts_hour (timestamp_init now)) < 24" "unat (ts_minute (timestamp_init now)) < 60"
    "unat (ts_second (timestamp_init now)) < 60"
    by (simp_all add: timestamp_init_def Let_def time_seconds)
qed

text \<open>Both routines count the seconds of a day.\<close>

lemma increments_time:
  "Suc n < 86400 \<Longrightarrow> increment_datetime (time_text y m d n @ [NUL]) = Some (time_text y m d (Suc n) @ [NUL])"
  "Suc n < 86400 \<Longrightarrow> time_text y m d n @ [NUL] \<noteq> LAST_TIMESTAMP \<Longrightarrow>
    increment_timestamp (time_text y m d n @ [NUL]) = Some (time_text y m d (Suc n) @ [NUL])"
  by (simp_all add: increment_datetime_def increment_timestamp_def SIZE_DATETIME_STRING_def SIZE_TIMESTAMP_STRING_def
      time_text_def datetime_second timestamp_second date_text_dashes)

interpretation datetime: stamp increment_datetime "time_text y m d" 20 "\<lambda>n. Suc n < 86400" for y m d
  by unfold_locales (simp_all add: time_text_NUL increments_time)

interpretation timestamp: stamp increment_timestamp "time_text y m d" 20 "\<lambda>n. Suc n < 86400 \<and> time_text y m d n @ [NUL] \<noteq> LAST_TIMESTAMP"
  for y m d
  by unfold_locales (simp_all add: time_text_NUL increments_time)

text \<open>The text \<open>n\<close> seconds into the day of a clock.\<close>

definition clock_text :: "u64 \<Rightarrow> nat \<Rightarrow> string" where
  "clock_text now = (let ts = timestamp_init now in time_text (unat (ts_year ts)) (month_shown ts) (day_shown ts))"

definition clock_second :: "u64 \<Rightarrow> nat" where
  "clock_second now = second_of (timestamp_init now)"

lemma clock_init:
  "length buffer = 20 \<Longrightarrow> timestamp_string_init buffer 0 (timestamp_init now) = Some (clock_text now (clock_second now) @ [NUL])"
  using timestamp_init_ranges [of now] by (simp add: timestamp_string_init_eq clock_text_def clock_second_def Let_def)

lemma positive_sum: "\<forall>g \<in> set gs. 0 < g \<Longrightarrow> length gs \<le> sum_list gs"
  by (induction gs) auto

lemmas time_builders = build_column_datetime_unique_def build_column_datetime_fixed_def build_column_datetime_unique_group_def
  build_column_timestamp_unique_def build_column_timestamp_fixed_def build_column_timestamp_unique_group_def
  PUT_DATETIME_STRING_def PUT_TIMESTAMP_STRING_def SIZE_DATETIME_STRING_def SIZE_TIMESTAMP_STRING_def datetime_string_init_def

text \<open>
  C34: The columns of dates and times, for a table whose rows, counted as seconds from the value of the
  clock on, stay within the day, on a day other than that of \<open>2038-01-19 03:14:07\<close>. Every builder succeeds, and its cells are the texts that \<open>timestamp_init\<close> and \<open>timestamp_string_init\<close> give for the
  value of the clock (which are not always its date and time), counted up in their seconds: a fixed
  column has the first text in every row, a column in groups the next second for every group, and a
  unique column the next second for every row of a row block, while every row block begins with the
  second the one before ended with.
\<close>

theorem time_columns:
  assumes "length buffer = 20" and "allocates malloc" and "rcs \<noteq> []" and "\<forall>rc \<in> set rcs. 0 < rc"
    and "row_count = sum_list rcs" and "splits grp row_count" and "clock_second now + row_count \<le> 86400"
    and "\<forall>i. clock_text now i \<noteq> ''2038-01-19 03:14:07''"
  shows "(\<exists>co. build_column_datetime_fixed buffer (Some now) malloc join row_count rcs = Some (Inr co) \<and>
      lays_out co join rcs (replicate row_count (clock_text now (clock_second now)))) \<and>
    (\<exists>co. build_column_timestamp_fixed buffer (Some now) malloc join row_count rcs = Some (Inr co) \<and>
      lays_out co join rcs (replicate row_count (clock_text now (clock_second now)))) \<and>
    (\<exists>co. build_column_datetime_unique buffer (Some now) malloc join row_count rcs = Some (Inr co) \<and>
      lays_out co join rcs (map (clock_text now) (block_times (clock_second now) rcs))) \<and>
    (\<exists>co. build_column_timestamp_unique buffer (Some now) malloc join row_count rcs = Some (Inr co) \<and>
      lays_out co join rcs (map (clock_text now) (block_times (clock_second now) rcs))) \<and>
    (\<exists>co sizes. build_column_datetime_unique_group grp buffer (Some now) malloc join row_count rcs = Some (Inr co) \<and>
      group_sizes (gs_count grp) row_count sizes \<and>
      lays_out co join rcs (group_texts (clock_text now) (clock_second now) sizes)) \<and>
    (\<exists>co sizes. build_column_timestamp_unique_group grp buffer (Some now) malloc join row_count rcs = Some (Inr co) \<and>
      group_sizes (gs_count grp) row_count sizes \<and>
      lays_out co join rcs (group_texts (clock_text now) (clock_second now) sizes))"
proof -
  obtain y m d where c: "clock_text now = time_text y m d" by (simp add: clock_text_def Let_def)
  note i = clock_init [OF assms(1), of now, unfolded c]
  obtain sizes where "group_sizes (gs_count grp) row_count sizes"
    using splitsE [OF assms(6), of "replicate (gs_count grp) 0"] by auto
  then have g: "gs_count grp \<le> row_count" using positive_sum [of sizes] by (auto simp: group_sizes_def)
  have "time_text y m d i @ [NUL] \<noteq> LAST_TIMESTAMP" for i using assms(8) by (simp add: c LAST_TIMESTAMP_def)
  with g assms(7) have f: "Suc i < 86400 \<and> time_text y m d i @ [NUL] \<noteq> LAST_TIMESTAMP"
    if "Suc i < clock_second now + row_count \<or> Suc i < clock_second now + gs_count grp" for i using that by auto
  show ?thesis
    unfolding time_builders c
    by (intro conjI datetime.time_fixed_lays_out timestamp.time_fixed_lays_out datetime.time_unique_lays_out
        timestamp.time_unique_lays_out datetime.time_group_lays_out timestamp.time_group_lays_out i assms(2-6)) (use f in auto)
qed

lemma block_times_border:
  assumes "1 < length rcs" "\<forall>rc \<in> set rcs. 0 < rc"
  shows "\<not> distinct (block_times n rcs)"
proof -
  obtain r1 r2 rest where r: "rcs = r1 # r2 # rest" using assms(1) by (cases rcs rule: list.exhaust [case_product list.exhaust]) (auto simp: neq_Nil_conv)
  have "n + r1 - 1 \<in> set [n..<n + r1]" "n + r1 - 1 \<in> set [n + r1 - 1..<n + r1 - 1 + r2]" using assms(2) r by auto
  then show ?thesis by (auto simp: r simp del: set_upt)
qed

text \<open>
  C35: A unique column of times repeats the last time of each row block as the first one of the next: in
  a table of more than one row block its cells are not distinct.
\<close>

theorem unique_time_columns_repeat:
  assumes "length buffer = 20" and "allocates malloc" and "1 < length rcs" and "\<forall>rc \<in> set rcs. 0 < rc"
    and "row_count = sum_list rcs" and "clock_second now + row_count \<le> 86400"
    and "\<forall>i. clock_text now i \<noteq> ''2038-01-19 03:14:07''"
  shows "\<exists>co co' cells. build_column_datetime_unique buffer (Some now) malloc join row_count rcs = Some (Inr co) \<and>
    build_column_timestamp_unique buffer (Some now) malloc join row_count rcs = Some (Inr co') \<and>
    lays_out co join rcs cells \<and> lays_out co' join rcs cells \<and> \<not> distinct cells"
proof -
  obtain y m d where c: "clock_text now = time_text y m d" by (simp add: clock_text_def Let_def)
  note i = clock_init [OF assms(1), of now, unfolded c]
  have f: "Suc i < 86400 \<and> time_text y m d i @ [NUL] \<noteq> LAST_TIMESTAMP" if "Suc i < clock_second now + row_count" for i
    using that assms(6,7) by (simp add: c LAST_TIMESTAMP_def)
  have r: "rcs \<noteq> []" using assms(3) by auto
  let ?cells = "map (time_text y m d) (block_times (clock_second now) rcs)"
  have "\<exists>co. build_column_datetime_unique buffer (Some now) malloc join row_count rcs = Some (Inr co) \<and> lays_out co join rcs ?cells"
    "\<exists>co. build_column_timestamp_unique buffer (Some now) malloc join row_count rcs = Some (Inr co) \<and> lays_out co join rcs ?cells"
    unfolding time_builders
    by (intro datetime.time_unique_lays_out timestamp.time_unique_lays_out i assms(2,4,5) r; use f in auto)+
  moreover have "\<not> distinct ?cells" using block_times_border [OF assms(3,4)] by (simp add: distinct_map)
  ultimately show ?thesis by blast
qed

text \<open>The clock at its start shows 03:43:12, since the years of \<open>timestamp_init\<close> are no whole days.\<close>

lemma first_second:
  "unat (ts_year (timestamp_init 0)) = 1970" "month_shown (timestamp_init 0) = 1" "day_shown (timestamp_init 0) = 1"
  "clock_second 0 = 13392"
proof -
  have l: "\<not> is_leap_year 1970" by (simp add: is_leap_year_def)
  have t: "timestamp_init 0 = \<lparr>ts_year = 1970, ts_leap_year = 0, ts_month = 1, ts_day = 1, ts_hour = 3, ts_minute = 43, ts_second = 12\<rparr>"
    by (simp add: timestamp_init_def Let_def time_seconds timestamp_set_month_day_def day_offsets l)
  show "unat (ts_year (timestamp_init 0)) = 1970" "month_shown (timestamp_init 0) = 1" "day_shown (timestamp_init 0) = 1"
    "clock_second 0 = 13392"
    by (simp_all add: t month_shown_def day_shown_def clock_second_def second_of_def)
qed

lemma first_clock: "clock_text 0 n \<noteq> ''2038-01-19 03:14:07''"
  by (simp add: clock_text_def Let_def first_second time_text_def date_text_def four_digits_def digit_simps)

theorem time_columns_witness:
  "(\<exists>co. build_column_datetime_fixed (replicate 20 NUL) (Some 0) zero_alloc False 5 [3, 2] = Some (Inr co) \<and>
      lays_out co False [3, 2] (replicate 5 (clock_text 0 (clock_second 0)))) \<and>
   (\<exists>co. build_column_timestamp_fixed (replicate 20 NUL) (Some 0) zero_alloc False 5 [3, 2] = Some (Inr co) \<and>
      lays_out co False [3, 2] (replicate 5 (clock_text 0 (clock_second 0)))) \<and>
   (\<exists>co. build_column_datetime_unique (replicate 20 NUL) (Some 0) zero_alloc False 5 [3, 2] = Some (Inr co) \<and>
      lays_out co False [3, 2] (map (clock_text 0) (block_times (clock_second 0) [3, 2]))) \<and>
   (\<exists>co. build_column_timestamp_unique (replicate 20 NUL) (Some 0) zero_alloc False 5 [3, 2] = Some (Inr co) \<and>
      lays_out co False [3, 2] (map (clock_text 0) (block_times (clock_second 0) [3, 2]))) \<and>
   (\<exists>co sizes. build_column_datetime_unique_group \<lparr>gs_count = 2, gs_partition = partition_groups_even\<rparr> (replicate 20 NUL)
        (Some 0) zero_alloc False 5 [3, 2] = Some (Inr co) \<and>
      group_sizes (gs_count \<lparr>gs_count = 2, gs_partition = partition_groups_even\<rparr>) 5 sizes \<and>
      lays_out co False [3, 2] (group_texts (clock_text 0) (clock_second 0) sizes)) \<and>
   (\<exists>co sizes. build_column_timestamp_unique_group \<lparr>gs_count = 2, gs_partition = partition_groups_even\<rparr> (replicate 20 NUL)
        (Some 0) zero_alloc False 5 [3, 2] = Some (Inr co) \<and>
      group_sizes (gs_count \<lparr>gs_count = 2, gs_partition = partition_groups_even\<rparr>) 5 sizes \<and>
      lays_out co False [3, 2] (group_texts (clock_text 0) (clock_second 0) sizes))"
proof -
  have "splits \<lparr>gs_count = 2, gs_partition = partition_groups_even\<rparr> 5" by (rule even.partitioner_splits) simp_all
  note g = this
  show ?thesis by (rule time_columns [OF _ zero_alloc_allocates _ _ _ g]) (simp_all add: first_second first_clock)
qed

theorem unique_time_columns_repeat_witness:
  "\<exists>co co' cells. build_column_datetime_unique (replicate 20 NUL) (Some 0) zero_alloc False 5 [3, 2] = Some (Inr co) \<and>
    build_column_timestamp_unique (replicate 20 NUL) (Some 0) zero_alloc False 5 [3, 2] = Some (Inr co') \<and>
    lays_out co False [3, 2] cells \<and> lays_out co' False [3, 2] cells \<and> \<not> distinct cells"
  by (rule unique_time_columns_repeat [OF _ zero_alloc_allocates]) (simp_all add: first_second first_clock)

end
