(* ===== verification/Hash_Columns.thy ===== *)
theory Hash_Columns
  imports Stamp_Columns Name_Columns Put_Hex
begin

text \<open>
  Columns of hashes, \<open>src/generate/column_string_hash.c\<close> and \<open>.h\<close>: a buffer of overlapping words in
  front of the cells, filled from the addresses of its octets, shuffled before every cell, whose octets
  are printed with two hexadecimal digits each; a hash of odd length ends with one digit. Words are
  read and written in the order of a little-endian machine.
\<close>

section \<open>Words in memory\<close>

definition load_word :: "bytes \<Rightarrow> nat \<Rightarrow> u64 option" where
  "load_word b p =
     (if p + 8 \<le> length b then Some (word_of_nat (horner_sum of_char 256 (take 8 (drop p b)))) else None)"

definition store_word :: "bytes \<Rightarrow> nat \<Rightarrow> u64 \<Rightarrow> bytes option" where
  "store_word b p w = store_string b p (map (\<lambda>k. char_of (unat (drop_bit (8 * k) w))) [0..<8])"

definition load_int :: "bytes \<Rightarrow> nat \<Rightarrow> u32 option" where
  "load_int b p =
     (if p + 4 \<le> length b then Some (word_of_nat (horner_sum of_char 256 (take 4 (drop p b)))) else None)"

text \<open>
  \<open>word_rotate_left\<close> shifts by the whole count, which is undefined from 64 on: \<open>over\<close> is whatever such
  a shift gives.
\<close>

type_synonym over_shift = "u64 \<Rightarrow> u32 \<Rightarrow> u64"

definition word_rotate_left :: "over_shift \<Rightarrow> u64 \<Rightarrow> u32 \<Rightarrow> u64" where
  "word_rotate_left over w rot =
     (if rot < 64 then push_bit (unat rot) w else over w rot) OR drop_bit (unat ((- rot) AND 63)) w"

section \<open>The state of the hash\<close>

text \<open>\<open>struct HashState\<close>; the pointers are offsets in the contents of the column.\<close>

record hash_state =
  hs_words :: nat
  hs_octets :: nat
  hs_upto :: nat
  hs_rotate :: u32

text \<open>\<open>addr\<close> is the address of the contents; the value of a pointer to an octet is its address.\<close>

function init_words :: "u64 \<Rightarrow> nat \<Rightarrow> nat \<Rightarrow> bytes \<Rightarrow> bytes option" where
  "init_words addr hi octet b =
     (if octet \<le> hi then
        do { w \<leftarrow> load_word b octet;
             b \<leftarrow> store_word b octet (w OR (addr + of_nat octet));
             init_words addr hi (octet + 1) b }
      else Some b)"
  by pat_completeness auto
termination by (relation "measure (\<lambda>(addr, hi, octet, b). Suc hi - octet)") auto

declare init_words.simps [simp del]

definition hash_state_init :: "u64 \<Rightarrow> bytes \<Rightarrow> nat \<Rightarrow> nat \<Rightarrow> (bytes \<times> hash_state) option" where
  "hash_state_init addr b buffer until =
     do { hi \<leftarrow> step_back until 8;
          b \<leftarrow> store_word b buffer (addr + of_nat buffer);
          b \<leftarrow> init_words addr hi (buffer + 1) b;
          Some (b, \<lparr>hs_words = buffer, hs_octets = buffer + 7, hs_upto = hi, hs_rotate = ucast (addr + of_nat until)\<rparr>) }"

text \<open>\<open>do ... while (octet <= upto)\<close>\<close>

function shuffle_words :: "over_shift \<Rightarrow> nat \<Rightarrow> nat \<Rightarrow> u32 \<Rightarrow> bytes \<Rightarrow> (bytes \<times> u32) option" where
  "shuffle_words over hi octet rot b =
     (let rot = rot + 1
      in do { w \<leftarrow> load_word b octet;
              b \<leftarrow> store_word b octet (w + word_rotate_left over w rot);
              if octet + 1 \<le> hi then shuffle_words over hi (octet + 1) rot b else Some (b, rot) })"
  by pat_completeness auto
termination by (relation "measure (\<lambda>(over, hi, octet, rot, b). hi - octet)") auto

declare shuffle_words.simps [simp del]

definition hash_state_shuffle :: "over_shift \<Rightarrow> bytes \<Rightarrow> hash_state \<Rightarrow> (bytes \<times> hash_state) option" where
  "hash_state_shuffle over b st =
     do { (b, rot) \<leftarrow> shuffle_words over (hs_upto st) (hs_words st) (hs_rotate st) b;
          Some (b, st\<lparr>hs_rotate := rot\<rparr>) }"

section \<open>Printing a hash\<close>

definition set_last_hash_nibble :: "u32 \<Rightarrow> bytes \<Rightarrow> nat \<Rightarrow> bytes option" where
  "set_last_hash_nibble nibble b buffer = SET_STRING_WIDTH b buffer [''0123456789abcdef'' ! unat (nibble AND 15)] 2"

definition put_last_hash_nibble :: "u32 \<Rightarrow> put" where
  "put_last_hash_nibble nibble b buffer =
     do { b \<leftarrow> SET_STRING_WIDTH b buffer [''0123456789abcdef'' ! unat (nibble AND 15)] 2; Some (b, buffer + 2) }"

definition put_octet_at :: "nat \<Rightarrow> put" where
  "put_octet_at octet b ptr = do { c \<leftarrow> load b octet; put_octet_hex_lower (of_char c) b ptr }"

text \<open>\<open>while (octet < upto)\<close>, and \<open>while (1)\<close> with the test between the octets.\<close>

function put_octets_below :: "nat \<Rightarrow> nat \<Rightarrow> put" where
  "put_octets_below octet hi b ptr =
     (if octet < hi then do { (b, ptr) \<leftarrow> put_octet_at octet b ptr; put_octets_below (octet + 1) hi b ptr }
      else Some (b, ptr))"
  by pat_completeness auto
termination by (relation "measure (\<lambda>(octet, hi, b, ptr). hi - octet)") auto

declare put_octets_below.simps [simp del]

partial_function (option) put_octets_upto :: "nat \<Rightarrow> nat \<Rightarrow> bytes \<Rightarrow> nat \<Rightarrow> (bytes \<times> nat) option" where
  "put_octets_upto octet hi b ptr =
     do { (b, ptr) \<leftarrow> put_octet_at octet b ptr;
          if octet = hi then Some (b, ptr) else put_octets_upto (octet + 1) hi b ptr }"

declare put_octets_upto.simps [code]

type_synonym hash_put = "bytes \<Rightarrow> nat \<Rightarrow> hash_state \<Rightarrow> (bytes \<times> nat \<times> hash_state) option"

definition put_hash_state_odd :: "over_shift \<Rightarrow> hash_put" where
  "put_hash_state_odd over b ptr st =
     do { (b, st) \<leftarrow> hash_state_shuffle over b st;
          (b, ptr) \<leftarrow> put_octets_below (hs_octets st) (hs_upto st) b ptr;
          nibble \<leftarrow> load_int b (max (hs_octets st) (hs_upto st));
          (b, ptr) \<leftarrow> put_last_hash_nibble nibble b ptr;
          Some (b, ptr, st) }"

definition put_hash_state_even :: "over_shift \<Rightarrow> hash_put" where
  "put_hash_state_even over b ptr st =
     do { (b, st) \<leftarrow> hash_state_shuffle over b st;
          (b, ptr) \<leftarrow> put_octets_upto (hs_octets st) (hs_upto st) b ptr;
          b \<leftarrow> store b ptr NUL;
          Some (b, ptr + 1, st) }"

definition set_hash_state_odd :: "over_shift \<Rightarrow> bytes \<Rightarrow> nat \<Rightarrow> hash_state \<Rightarrow> (bytes \<times> hash_state) option" where
  "set_hash_state_odd over b ptr st =
     do { (b, st) \<leftarrow> hash_state_shuffle over b st;
          (b, ptr) \<leftarrow> put_octets_below (hs_octets st) (hs_upto st) b ptr;
          nibble \<leftarrow> load_int b (max (hs_octets st) (hs_upto st));
          b \<leftarrow> set_last_hash_nibble nibble b ptr;
          Some (b, st) }"

definition set_hash_state_even :: "over_shift \<Rightarrow> bytes \<Rightarrow> nat \<Rightarrow> hash_state \<Rightarrow> (bytes \<times> hash_state) option" where
  "set_hash_state_even over b ptr st =
     do { (b, st) \<leftarrow> hash_state_shuffle over b st;
          (b, ptr) \<leftarrow> put_octets_upto (hs_octets st) (hs_upto st) b ptr;
          b \<leftarrow> store b ptr NUL;
          Some (b, st) }"

section \<open>The builders\<close>

datatype hash_failure = BCSH_MALLOC_FAILURE

definition put_hash_state :: "over_shift \<Rightarrow> nat \<Rightarrow> hash_put" where
  "put_hash_state over odd_nibble = (if odd_nibble = 0 then put_hash_state_even over else put_hash_state_odd over)"

text \<open>
  The size of the buffer in front: \<open>length_octets - 2\<close> wraps for a hash of one octet and comes back
  when the two words are added.
\<close>

definition size_hash_state_buffer :: "nat \<Rightarrow> nat" where
  "size_hash_state_buffer length_hash =
     (let odd_nibble = length_hash mod 2;
          length_octets = length_hash div 2 + odd_nibble
      in unat (1 * (of_nat length_octets - 2) + 8 * 2 :: u64))"

partial_function (option) hash_until ::
  "hash_put \<Rightarrow> nat \<Rightarrow> bytes \<Rightarrow> nat \<Rightarrow> hash_state \<Rightarrow> (bytes \<times> nat \<times> hash_state) option" where
  "hash_until put contents_until b ptr st =
     do { (b, ptr, st) \<leftarrow> put b ptr st;
          if ptr < contents_until then hash_until put contents_until b ptr st else Some (b, ptr, st) }"

declare hash_until.simps [code]

fun hash_rowspans :: "hash_put \<Rightarrow> nat \<Rightarrow> nat list \<Rightarrow> bytes \<Rightarrow> nat \<Rightarrow> hash_state \<Rightarrow> (bytes \<times> nat \<times> spans) option" where
  "hash_rowspans put size_hash [] b ptr st = Some (b, ptr, [])"
| "hash_rowspans put size_hash (rc # rcs) b ptr st =
     (let length_rowspan = size_hash * rc
      in do { (b, ptr', st) \<leftarrow> hash_until put (ptr + length_rowspan) b ptr st;
              (b, ptr', spans) \<leftarrow> hash_rowspans put size_hash rcs b ptr' st;
              Some (b, ptr', (ptr, length_rowspan) # spans) })"

definition build_column_string_hash ::
  "over_shift \<Rightarrow> u64 \<Rightarrow> nat \<Rightarrow> alloc \<Rightarrow> bool \<Rightarrow> nat \<Rightarrow> nat list \<Rightarrow> (hash_failure + column_out) option" where
  "build_column_string_hash over addr length_hash malloc join row_count rcs =
     (let size_buffer = size_hash_state_buffer length_hash;
          size_hash = length_hash + 1;
          length_column = size_hash * row_count
      in case malloc 0 (size_buffer + length_column) of
           None \<Rightarrow> Some (Inl BCSH_MALLOC_FAILURE)
         | Some (_, bytes) \<Rightarrow>
             do { (b, st) \<leftarrow> hash_state_init addr bytes 0 size_buffer;
                  (b, _, spans) \<leftarrow>
                    (if rcs = [] then None
                     else hash_rowspans (put_hash_state over (length_hash mod 2)) size_hash rcs b size_buffer st);
                  Some (Inr \<lparr>co_contents = b, co_spans = map (hook join b) spans, co_length = length_column\<rparr>) })"

subsection \<open>In groups\<close>

text \<open>The closure copies a cell of the block it writes to.\<close>

definition hash_copy :: "mobile_put_string_closure \<Rightarrow> put" where
  "hash_copy cl b ptr = mobile_put_string_closure_call (cl\<lparr>psc_block := b\<rparr>) b ptr"

partial_function (option) hash_group_loop ::
  "hash_put \<Rightarrow> nat \<Rightarrow> nat list \<Rightarrow> nat list \<Rightarrow> nat \<times> nat \<Rightarrow> nat \<Rightarrow> nat \<Rightarrow> nat \<Rightarrow> mobile_put_string_closure \<Rightarrow>
    bytes \<Rightarrow> nat \<Rightarrow> hash_state \<Rightarrow> (bytes \<times> nat \<times> spans) option" where
  "hash_group_loop put size_hash sizes rest current contents_until group_until i cl b ptr st =
     (if group_until < contents_until then
        do { (b, ptr) \<leftarrow> put_while (hash_copy cl) group_until b ptr;
             let cl = mobile_put_string_closure_move cl b ptr;
             group \<leftarrow> load_size sizes (i + 1);
             (b, ptr', st) \<leftarrow> put b ptr st;
             hash_group_loop put size_hash sizes rest current contents_until (ptr + size_hash * group) (i + 1) cl b ptr' st }
      else
        do { (b, ptr) \<leftarrow> put_while (hash_copy cl) contents_until b ptr;
             case rest of
               [] \<Rightarrow> Some (b, ptr, [current])
             | rc # rest \<Rightarrow>
                 do { (b, ptr', spans) \<leftarrow>
                        hash_group_loop put size_hash sizes rest (ptr, size_hash * rc) (ptr + size_hash * rc) group_until i cl b ptr st;
                      Some (b, ptr', current # spans) } })"

declare hash_group_loop.simps [code]

text \<open>
  The numbers of the groups lie between the buffer and the cells; here they are the list of the block,
  and the cells follow the buffer. The address of the numbers ends the buffer.
\<close>

definition build_column_string_hash_group ::
  "over_shift \<Rightarrow> u64 \<Rightarrow> nat \<Rightarrow> grp_spec \<Rightarrow> alloc \<Rightarrow> bool \<Rightarrow> nat \<Rightarrow> nat list \<Rightarrow> (hash_failure + column_out) option" where
  "build_column_string_hash_group over addr length_hash grp malloc join row_count rcs =
     (let size_buffer = size_hash_state_buffer length_hash;
          size_hash = length_hash + 1;
          length_column = size_hash * row_count;
          put = put_hash_state over (length_hash mod 2)
      in case malloc (gs_count grp) (size_buffer + length_column) of
           None \<Rightarrow> Some (Inl BCSH_MALLOC_FAILURE)
         | Some (sizes, bytes) \<Rightarrow>
             do { (b, st) \<leftarrow> hash_state_init addr bytes 0 size_buffer;
                  (sizes, until) \<leftarrow> gs_partition grp sizes (gs_count grp) row_count;
                  ptr \<leftarrow> (if until = gs_count grp then Some size_buffer else None);
                  (rc, rest) \<leftarrow> (case rcs of [] \<Rightarrow> None | rc # rest \<Rightarrow> Some (rc, rest));
                  group \<leftarrow> load_size sizes 0;
                  let cl = mobile_put_string_closure_init b ptr size_hash;
                  (b, ptr', st) \<leftarrow> put b ptr st;
                  (b, _, spans) \<leftarrow>
                    hash_group_loop put size_hash sizes rest (ptr, size_hash * rc) (ptr + size_hash * rc)
                      (ptr + size_hash * group) 0 cl b ptr' st;
                  Some (Inr \<lparr>co_contents = b, co_spans = map (hook join b) spans, co_length = length_column\<rparr>) })"

section \<open>The buffer is a frame of its own\<close>

lemma load_word_append: "p + 8 \<le> length S \<Longrightarrow> \<exists>w. \<forall>R. load_word (S @ R) p = Some w"
  by (simp add: load_word_def)

lemma load_int_append: "p + 4 \<le> length S \<Longrightarrow> \<exists>w. \<forall>R. load_int (S @ R) p = Some w"
  by (simp add: load_int_def)

lemma store_word_append:
  "p + 8 \<le> length S \<Longrightarrow> \<exists>S'. length S' = length S \<and> (\<forall>R. store_word (S @ R) p w = Some (S' @ R))"
  by (intro exI [of _ "take p S @ map (\<lambda>k. char_of (unat (drop_bit (8 * k) w))) [0..<8] @ drop (p + 8) S"])
    (simp add: store_word_def store_string_def)

lemma init_words_append:
  "hi + 8 \<le> length S \<Longrightarrow> \<exists>S'. length S' = length S \<and> (\<forall>R. init_words addr hi octet (S @ R) = Some (S' @ R))"
proof (induction "Suc hi - octet" arbitrary: octet S)
  case 0
  then show ?case by (subst init_words.simps) auto
next
  case (Suc n)
  then have o: "octet \<le> hi" "octet + 8 \<le> length S" by simp_all
  obtain w where w: "\<forall>R. load_word (S @ R) octet = Some w" using load_word_append [OF o(2)] by blast
  obtain S1 where S1: "length S1 = length S" "\<forall>R. store_word (S @ R) octet (w OR (addr + of_nat octet)) = Some (S1 @ R)"
    using store_word_append [OF o(2)] by blast
  obtain S2 where "length S2 = length S1" "\<forall>R. init_words addr hi (octet + 1) (S1 @ R) = Some (S2 @ R)"
    using Suc.hyps(1) [of "octet + 1" S1] Suc.hyps(2) o(1) Suc.prems S1(1) by (force simp: Suc_diff_le)
  then show ?case using o(1) w S1 by (subst init_words.simps) auto
qed

lemma shuffle_words_append:
  "octet \<le> hi \<Longrightarrow> hi + 8 \<le> length S \<Longrightarrow>
    \<exists>S' r. length S' = length S \<and> (\<forall>R. shuffle_words over hi octet rot (S @ R) = Some (S' @ R, r))"
proof (induction "hi - octet" arbitrary: octet rot S)
  case 0
  then have "octet + 8 \<le> length S" "\<not> octet + 1 \<le> hi" by simp_all
  note o = this
  obtain w where w: "\<forall>R. load_word (S @ R) octet = Some w" using load_word_append [OF o(1)] by blast
  obtain S1 where "length S1 = length S" "\<forall>R. store_word (S @ R) octet (w + word_rotate_left over w (rot + 1)) = Some (S1 @ R)"
    using store_word_append [OF o(1)] by blast
  then show ?case using o(2) w by (subst shuffle_words.simps) (auto simp: Let_def)
next
  case (Suc n)
  then have o: "octet + 1 \<le> hi" "octet + 8 \<le> length S" by simp_all
  obtain w where w: "\<forall>R. load_word (S @ R) octet = Some w" using load_word_append [OF o(2)] by blast
  obtain S1 where S1: "length S1 = length S"
    "\<forall>R. store_word (S @ R) octet (w + word_rotate_left over w (rot + 1)) = Some (S1 @ R)"
    using store_word_append [OF o(2)] by blast
  obtain S2 r where "length S2 = length S1" "\<forall>R. shuffle_words over hi (octet + 1) (rot + 1) (S1 @ R) = Some (S2 @ R, r)"
    using Suc.hyps(1) [of "octet + 1" S1 "rot + 1"] Suc.hyps(2) o(1) Suc.prems S1(1) by force
  then show ?case using o(1) w S1 by (subst shuffle_words.simps) (auto simp: Let_def)
qed

text \<open>A state over a buffer \<open>S\<close>: the words fill it, the octets that are printed begin with the eighth.\<close>

definition hash_ready :: "nat \<Rightarrow> bytes \<Rightarrow> hash_state \<Rightarrow> bool" where
  "hash_ready octets S st \<longleftrightarrow> 0 < octets \<and> length S = octets + 14 \<and> hs_words st = 0 \<and> hs_octets st = 7 \<and> hs_upto st = octets + 6"

lemma hash_state_init_ready:
  assumes "0 < octets" "length S = octets + 14"
  shows "\<exists>S' st. hash_ready octets S' st \<and> (\<forall>R. hash_state_init addr (S @ R) 0 (octets + 14) = Some (S' @ R, st))"
proof -
  obtain S1 where S1: "length S1 = length S" "\<forall>R. store_word (S @ R) 0 addr = Some (S1 @ R)"
    using store_word_append [of 0 S addr] assms(2) by auto
  obtain S2 where "length S2 = length S1" "\<forall>R. init_words addr (6 + octets) 1 (S1 @ R) = Some (S2 @ R)"
    using init_words_append [of "6 + octets" S1 addr 1] assms(2) S1(1) by auto
  then show ?thesis using S1 assms
    by (intro exI [of _ S2] exI [of _ "\<lparr>hs_words = 0, hs_octets = 7, hs_upto = 6 + octets, hs_rotate = ucast (addr + of_nat (octets + 14))\<rparr>"])
      (simp add: hash_state_init_def hash_ready_def step_back_def)
qed

lemma hash_state_shuffle_ready:
  assumes "hash_ready octets S st"
  shows "\<exists>S' st'. hash_ready octets S' st' \<and> (\<forall>R. hash_state_shuffle over (S @ R) st = Some (S' @ R, st'))"
proof -
  obtain S' r where "length S' = length S" "\<forall>R. shuffle_words over (octets + 6) 0 (hs_rotate st) (S @ R) = Some (S' @ R, r)"
    using shuffle_words_append [of 0 "octets + 6" S over "hs_rotate st"] assms by (auto simp: hash_ready_def)
  then show ?thesis using assms
    by (intro exI [of _ S'] exI [of _ "st\<lparr>hs_rotate := r\<rparr>"]) (simp add: hash_state_shuffle_def hash_ready_def)
qed

section \<open>What is printed\<close>

definition hash_digits :: string where
  "hash_digits = ''0123456789abcdef''"

definition hash_form :: "nat \<Rightarrow> string \<Rightarrow> bool" where
  "hash_form n s \<longleftrightarrow> length s = n \<and> list_all (\<lambda>c. c \<in> set hash_digits) s"

lemma hash_digits_nth: "n < 16 \<Longrightarrow> hex_digit_lower n \<in> set hash_digits"
  unfolding hex_digit_lower_def hash_digits_def by (rule nth_mem) simp

lemma hash_form_octet: "hash_form 2 (octet_text hex_digit_lower x)"
  using unat_u8 [of x] hash_digits_nth [of "unat x div 16"] hash_digits_nth [of "unat x mod 16"]
  by (simp add: hash_form_def octet_text_def)

lemma hash_form_append: "hash_form m s \<Longrightarrow> hash_form n t \<Longrightarrow> hash_form (m + n) (s @ t)"
  by (simp add: hash_form_def)

lemma hash_form_NUL: "hash_form n s \<Longrightarrow> NUL \<notin> set s"
proof -
  have "\<not> List.member hash_digits NUL" unfolding hash_digits_def by code_simp
  then show "hash_form n s \<Longrightarrow> NUL \<notin> set s" by (auto simp: hash_form_def list_all_iff List.member_iff)
qed

definition octets_text :: "bytes \<Rightarrow> nat \<Rightarrow> nat \<Rightarrow> string" where
  "octets_text S i j = concat (map (\<lambda>k. octet_text hex_digit_lower (of_char (S ! k))) [i..<j])"

lemma octets_text_step: "i < j \<Longrightarrow> octets_text S i j = octet_text hex_digit_lower (of_char (S ! i)) @ octets_text S (Suc i) j"
  by (simp add: octets_text_def upt_conv_Cons)

lemma hash_form_octets: "hash_form (2 * (j - i)) (octets_text S i j)"
proof (induction "j - i" arbitrary: i)
  case (Suc n)
  then have i: "i < j" by simp
  have "hash_form (2 + 2 * (j - Suc i)) (octets_text S i j)"
    unfolding octets_text_step [OF i] using Suc by (intro hash_form_append hash_form_octet) simp
  moreover have "2 + 2 * (j - Suc i) = 2 * (j - i)" using i by simp
  ultimately show ?case by simp
qed (simp add: octets_text_def hash_form_def)

lemma put_octet_at_eq:
  assumes "k < length S" "length old = 2" "p = length (S @ xs)"
  shows "put_octet_at k (S @ xs @ old @ ys) p =
    Some (S @ xs @ octet_text hex_digit_lower (of_char (S ! k)) @ ys, p + 2)"
  using writesD [OF writes_put_octet_hex(1) _ assms(3), of old "of_char (S ! k)" ys] assms
  by (simp add: put_octet_at_def load_def nth_append)

lemma put_octets_below_eq:
  assumes "i \<le> j" "j \<le> length S" "length old = 2 * (j - i)" "p = length (S @ xs)"
  shows "put_octets_below i j (S @ xs @ old @ ys) p = Some (S @ xs @ octets_text S i j @ ys, p + 2 * (j - i))"
  using assms
proof (induction "j - i" arbitrary: i old xs p)
  case 0
  then show ?case by (subst put_octets_below.simps) (simp add: octets_text_def)
next
  case (Suc n)
  then have i: "i < j" by simp
  then have "length old = 2 + 2 * (j - Suc i)" using Suc.prems(3) by simp
  then obtain o1 o2 where o: "old = o1 @ o2" "length o1 = 2" "length o2 = 2 * (j - Suc i)" by (rule split_length)
  let ?t = "octet_text hex_digit_lower (of_char (S ! i))"
  have 1: "put_octet_at i (S @ xs @ o1 @ o2 @ ys) p = Some (S @ xs @ ?t @ o2 @ ys, p + 2)"
    using i Suc.prems(2,4) o(2) by (intro put_octet_at_eq) simp_all
  have 2: "put_octets_below (Suc i) j (S @ (xs @ ?t) @ o2 @ ys) (p + 2) =
      Some (S @ (xs @ ?t) @ octets_text S (Suc i) j @ ys, p + 2 + 2 * (j - Suc i))"
    using Suc.hyps(2) Suc.prems o(3) i by (intro Suc.hyps(1)) simp_all
  have "p + 2 + 2 * (j - Suc i) = p + 2 * (j - i)" using i by simp
  then show ?case using 1 2 i o(1) by (subst put_octets_below.simps) (simp add: octets_text_step)
qed

lemma put_octets_upto_eq:
  assumes "i \<le> j" "j < length S" "length old = 2 * (Suc j - i)" "p = length (S @ xs)"
  shows "put_octets_upto i j (S @ xs @ old @ ys) p = Some (S @ xs @ octets_text S i (Suc j) @ ys, p + 2 * (Suc j - i))"
  using assms
proof (induction "j - i" arbitrary: i old xs p)
  case 0
  then show ?case
    using put_octet_at_eq [of i S old p xs ys] by (subst put_octets_upto.simps) (simp add: octets_text_def)
next
  case (Suc n)
  then have i: "i < j" by simp
  then have "length old = 2 + 2 * (Suc j - Suc i)" using Suc.prems(3) by simp
  then obtain o1 o2 where o: "old = o1 @ o2" "length o1 = 2" "length o2 = 2 * (Suc j - Suc i)" by (rule split_length)
  let ?t = "octet_text hex_digit_lower (of_char (S ! i))"
  have 1: "put_octet_at i (S @ xs @ o1 @ o2 @ ys) p = Some (S @ xs @ ?t @ o2 @ ys, p + 2)"
    using i Suc.prems(2,4) o(2) by (intro put_octet_at_eq) simp_all
  have 2: "put_octets_upto (Suc i) j (S @ (xs @ ?t) @ o2 @ ys) (p + 2) =
      Some (S @ (xs @ ?t) @ octets_text S (Suc i) (Suc j) @ ys, p + 2 + 2 * (Suc j - Suc i))"
    using Suc.hyps(2) Suc.prems o(3) i by (intro Suc.hyps(1)) simp_all
  have "p + 2 + 2 * (Suc j - Suc i) = p + 2 * (Suc j - i)" using i by simp
  then show ?case using 1 2 i o(1) by (subst put_octets_upto.simps) (simp add: octets_text_step)
qed

section \<open>A source of hashes\<close>

lemma hash_cells_width:
  "list_all (hash_form n) ts \<Longrightarrow> length (terminated ts) = Suc n * length ts"
  using length_terminated_fixed [of ts "Suc n"] by (simp add: list_all_iff hash_form_def)

text \<open>
  A routine that shuffles the buffer and writes one hash: the buffer keeps its form, the hash is of the
  length, and the rest of the block is left alone. The clients are the two builders.
\<close>

locale hash_source =
  fixes put :: hash_put and ready :: "bytes \<Rightarrow> hash_state \<Rightarrow> bool" and len :: nat
  assumes puts: "ready S st \<Longrightarrow> \<exists>S' st' t. ready S' st' \<and> length S' = length S \<and> hash_form len t \<and>
    (\<forall>xs old ys. length old = Suc len \<longrightarrow>
       put (S @ xs @ old @ ys) (length (S @ xs)) st = Some (S' @ xs @ (t @ [NUL]) @ ys, length (S @ xs) + Suc len, st'))"
begin

lemma putsE:
  assumes "ready S st"
  obtains S' st' t where "ready S' st'" "length S' = length S" "hash_form len t"
    "\<And>xs old ys p. length old = Suc len \<Longrightarrow> p = length (S @ xs) \<Longrightarrow>
       put (S @ xs @ old @ ys) p st = Some (S' @ xs @ (t @ [NUL]) @ ys, p + Suc len, st')"
  using puts [OF assms] by blast

lemma hash_until_eq:
  assumes "ready S st" "0 < k" "length old = Suc len * k" "p = length (S @ xs)"
  shows "\<exists>S' st' ts. ready S' st' \<and> length S' = length S \<and> length ts = k \<and> list_all (hash_form len) ts \<and>
    hash_until put (p + Suc len * k) (S @ xs @ old @ ys) p st = Some (S' @ xs @ terminated ts @ ys, p + Suc len * k, st')"
  using assms
proof (induction k arbitrary: S st old xs p)
  case (Suc k)
  obtain S1 st1 t where t: "ready S1 st1" "length S1 = length S" "hash_form len t"
    "\<And>xs old ys p. length old = Suc len \<Longrightarrow> p = length (S @ xs) \<Longrightarrow>
       put (S @ xs @ old @ ys) p st = Some (S1 @ xs @ (t @ [NUL]) @ ys, p + Suc len, st1)"
    using putsE [OF Suc.prems(1)] by blast
  have "length old = Suc len + Suc len * k" using Suc.prems(3) by simp
  then obtain o1 o2 where o: "old = o1 @ o2" "length o1 = Suc len" "length o2 = Suc len * k" by (rule split_length)
  have 1: "put (S @ xs @ o1 @ o2 @ ys) p st = Some (S1 @ xs @ (t @ [NUL]) @ o2 @ ys, p + Suc len, st1)"
    by (rule t(4) [OF o(2) Suc.prems(4)])
  show ?case
  proof (cases "k = 0")
    case True
    then show ?thesis using t(1-3) 1 o by (subst hash_until.simps) (intro exI [of _ S1] exI [of _ st1] exI [of _ "[t]"], simp)
  next
    case False
    have p: "p + Suc len = length (S1 @ (xs @ t @ [NUL]))" using Suc.prems(4) t(2,3) by (simp add: hash_form_def)
    obtain S2 st2 ts where 2: "ready S2 st2" "length S2 = length S1" "length ts = k" "list_all (hash_form len) ts"
      "hash_until put (p + Suc len + Suc len * k) (S1 @ (xs @ t @ [NUL]) @ o2 @ ys) (p + Suc len) st1 =
        Some (S2 @ (xs @ t @ [NUL]) @ terminated ts @ ys, p + Suc len + Suc len * k, st2)"
      using Suc.IH [OF t(1) _ o(3) p] False by blast
    have e: "p + Suc len + Suc len * k = p + Suc len * Suc k" "p + Suc len < p + Suc len * Suc k" using False by simp_all
    show ?thesis using t(2,3) 1 2 [unfolded e(1)] e(2) o(1)
      by (subst hash_until.simps) (intro exI [of _ S2] exI [of _ st2] exI [of _ "t # ts"], simp)
  qed
qed simp

lemma hash_rowspans_eq:
  assumes "ready S st" "\<forall>rc \<in> set rcs. 0 < rc" "length old = Suc len * sum_list rcs" "p = length (S @ xs)"
  shows "\<exists>S' ts. length S' = length S \<and> length ts = sum_list rcs \<and> list_all (hash_form len) ts \<and>
    hash_rowspans put (Suc len) rcs (S @ xs @ old @ ys) p st =
      Some (S' @ xs @ terminated ts @ ys, p + Suc len * sum_list rcs, spans_from p rcs ts)"
  using assms
proof (induction rcs arbitrary: S st old xs p)
  case (Cons rc rcs)
  have "length old = Suc len * rc + Suc len * sum_list rcs" using Cons.prems(3) by (simp add: distrib_left)
  then obtain o1 o2 where o: "old = o1 @ o2" "length o1 = Suc len * rc" "length o2 = Suc len * sum_list rcs" by (rule split_length)
  have rc: "0 < rc" "\<forall>rc \<in> set rcs. 0 < rc" using Cons.prems(2) by simp_all
  obtain S1 st1 ts where 1: "ready S1 st1" "length S1 = length S" "length ts = rc" "list_all (hash_form len) ts"
    "hash_until put (p + Suc len * rc) (S @ xs @ o1 @ o2 @ ys) p st = Some (S1 @ xs @ terminated ts @ o2 @ ys, p + Suc len * rc, st1)"
    using hash_until_eq [OF Cons.prems(1) rc(1) o(2) Cons.prems(4), of "o2 @ ys"] by blast
  have w: "length (terminated ts) = Suc len * rc" using hash_cells_width [OF 1(4)] 1(3) by simp
  have p: "p + Suc len * rc = length (S1 @ (xs @ terminated ts))" using Cons.prems(4) 1(2) w by simp
  obtain S2 us where 2: "length S2 = length S1" "length us = sum_list rcs" "list_all (hash_form len) us"
    "hash_rowspans put (Suc len) rcs (S1 @ (xs @ terminated ts) @ o2 @ ys) (p + Suc len * rc) st1 =
      Some (S2 @ (xs @ terminated ts) @ terminated us @ ys, p + Suc len * rc + Suc len * sum_list rcs, spans_from (p + Suc len * rc) rcs us)"
    using Cons.IH [OF 1(1) rc(2) o(3) p] by blast
  show ?case using 1 2 w o(1)
    by (intro exI [of _ S2] exI [of _ "ts @ us"]) (simp add: Let_def distrib_left add.assoc)
qed simp

lemma lays_out_hashes:
  assumes "list_all (hash_form len) ts" "sum_list rcs = length ts" "b = S @ terminated ts"
  shows "lays_out \<lparr>co_contents = b, co_spans = map (hook join b) (spans_from (length S) rcs ts), co_length = Suc len * length ts\<rparr>
    join rcs ts"
  using assms hash_cells_width [OF assms(1)] hash_form_NUL
  by (intro lays_out_hook [of _ _ _ "[]"]) (auto simp: list_all_iff)

end

text \<open>The hashes that are printed.\<close>

lemma put_hash_state_ready:
  assumes "hash_ready (n div 2 + n mod 2) S st"
  shows "\<exists>S' st' t. hash_ready (n div 2 + n mod 2) S' st' \<and> length S' = length S \<and> hash_form n t \<and>
    (\<forall>xs old ys. length old = Suc n \<longrightarrow>
       put_hash_state over (n mod 2) (S @ xs @ old @ ys) (length (S @ xs)) st =
         Some (S' @ xs @ (t @ [NUL]) @ ys, length (S @ xs) + Suc n, st'))"
proof -
  obtain k where k: "k = n div 2 + n mod 2" "0 < k" using assms by (auto simp: hash_ready_def)
  obtain S' st' where S': "hash_ready k S' st'" "\<forall>R. hash_state_shuffle over (S @ R) st = Some (S' @ R, st')"
    using hash_state_shuffle_ready assms unfolding k(1) by blast
  have l: "length S' = length S" "length S' = k + 14" "hs_octets st' = 7" "hs_upto st' = k + 6"
    using S'(1) assms by (simp_all add: hash_ready_def k(1))
  show ?thesis
  proof (cases "n mod 2 = 0")
    case True
    let ?t = "octets_text S' 7 (Suc (k + 6))"
    have n: "2 * (Suc (k + 6) - 7) = n" using True k by presburger
    have f: "hash_form n ?t" using hash_form_octets [of "Suc (k + 6)" 7 S'] by (simp only: n)
    have "put_hash_state over (n mod 2) (S @ xs @ old @ ys) (length (S @ xs)) st =
        Some (S' @ xs @ (?t @ [NUL]) @ ys, length (S @ xs) + Suc n, st')" if o: "length old = Suc n" for xs old ys
    proof -
      obtain o1 c where c: "old = o1 @ [c]" "length o1 = n" using o by (metis length_Suc_conv_rev)
      have "put_octets_upto 7 (k + 6) (S' @ xs @ o1 @ [c] @ ys) (length (S @ xs)) =
          Some (S' @ xs @ ?t @ [c] @ ys, length (S @ xs) + n)"
        using put_octets_upto_eq [of 7 "k + 6" S' o1 "length (S @ xs)" xs "[c] @ ys"] k(2) l(1,2) c(2) unfolding n by simp
      moreover have "store (S' @ xs @ ?t @ [c] @ ys) (length (S @ xs) + n) NUL = Some (S' @ xs @ ?t @ [NUL] @ ys)"
        using store_append [of "S' @ xs @ ?t" c ys NUL] l(1) f by (simp add: hash_form_def add.assoc)
      ultimately show ?thesis using True S'(2) l(3,4) c(1) by (simp add: put_hash_state_def put_hash_state_even_def)
    qed
    then show ?thesis using S'(1) l(1) f k(1) by blast
  next
    case False
    obtain nibble where nib: "\<forall>R. load_int (S' @ R) (k + 6) = Some nibble" using load_int_append [of "k + 6" S'] l(2) by auto
    let ?d = "''0123456789abcdef'' ! unat (nibble AND 15)" and ?t = "octets_text S' 7 (k + 6)"
    have n: "n = 2 * (k + 6 - 7) + 1" using False k by presburger
    have "nibble AND 15 \<le> 15" by (rule word_and_le1)
    then have "unat (nibble AND 15) < 16" by (simp add: word_le_nat_alt)
    then have d: "hash_form 1 [?d]" using hash_digits_nth by (simp add: hash_form_def hex_digit_lower_def)
    then have f: "hash_form n (?t @ [?d])" unfolding n by (intro hash_form_append hash_form_octets)
    have "put_hash_state over (n mod 2) (S @ xs @ old @ ys) (length (S @ xs)) st =
        Some (S' @ xs @ ((?t @ [?d]) @ [NUL]) @ ys, length (S @ xs) + Suc n, st')" if o: "length old = Suc n" for xs old ys
    proof -
      have "length old = 2 * (k + 6 - 7) + 2" using o n by simp
      then obtain o1 o2 where c: "old = o1 @ o2" "length o1 = 2 * (k + 6 - 7)" "length o2 = 2" by (rule split_length)
      have 1: "put_octets_below 7 (k + 6) (S' @ xs @ o1 @ o2 @ ys) (length (S @ xs)) =
          Some (S' @ xs @ ?t @ o2 @ ys, length (S @ xs) + 2 * (k + 6 - 7))"
        using put_octets_below_eq [of 7 "k + 6" S' o1 "length (S @ xs)" xs "o2 @ ys"] k(2) l(1,2) c(2) by simp
      have pos: "length (S @ xs) + 2 * (k + 6 - 7) = length (S' @ xs @ ?t)"
        using l(1) hash_form_octets [of "k + 6" 7 S'] by (simp add: hash_form_def)
      have 2: "SET_STRING_WIDTH (S' @ xs @ ?t @ o2 @ ys) (length (S @ xs) + 2 * (k + 6 - 7)) [?d] 2 =
          Some (S' @ xs @ ?t @ [?d, NUL] @ ys)"
        unfolding pos using store_string_append [of "[?d, NUL]" o2 "S' @ xs @ ?t" ys] c(3) by (simp add: SET_STRING_WIDTH_nul)
      have m: "max (hs_octets st') (hs_upto st') = k + 6" using l(3,4) k(2) by simp
      have e: "length (S @ xs) + 2 * (k + 6 - 7) + 2 = length (S @ xs) + Suc n" using n by simp
      show ?thesis using False S'(2) l(3,4) 1 2 nib c(1) m e
        by (simp add: put_hash_state_def put_hash_state_odd_def put_last_hash_nibble_def)
    qed
    then show ?thesis using S'(1) l(1) f k(1) by blast
  qed
qed

interpretation hashes: hash_source "put_hash_state over (n mod 2)" "hash_ready (n div 2 + n mod 2)" n for over n
  by unfold_locales (rule put_hash_state_ready)

section \<open>Hashes in groups\<close>

lemma put_while_hash_copy:
  assumes "length u = n" "0 < n" "length old = n * k" "p = length (P @ u @ mid)"
  shows "put_while (hash_copy (mobile_put_string_closure_init blk (length P) n)) (p + n * k) (P @ u @ mid @ old @ ys) p =
    Some (P @ u @ mid @ concat (replicate k u) @ ys, p + n * k)"
  using assms(3,4)
proof (induction k arbitrary: old mid p)
  case 0
  then show ?case by (subst put_while.simps) simp
next
  case (Suc k)
  have "length old = n + n * k" using Suc.prems(1) by simp
  then obtain o1 o2 where o: "old = o1 @ o2" "length o1 = n" "length o2 = n * k" by (rule split_length)
  have "hash_copy (mobile_put_string_closure_init blk (length P) n) b p = mobile_put_string_closure_call (mobile_put_string_closure_init b (length P) n) b p" for b
    by (simp add: hash_copy_def mobile_put_string_closure_init_def Let_def)
  then have 1: "hash_copy (mobile_put_string_closure_init blk (length P) n) (P @ u @ mid @ o1 @ o2 @ ys) p =
      Some (P @ u @ mid @ u @ o2 @ ys, p + n)"
    using writesD [OF mobile_closure.call_writes [OF TrueI, of P u "mid @ o1 @ o2 @ ys"], of o1 p "P @ u @ mid" "o2 @ ys"]
      o(2) assms(1) Suc.prems(2) by simp
  have "p + n = length (P @ u @ (mid @ u))" using Suc.prems(2) assms(1) by simp
  then have 2: "put_while (hash_copy (mobile_put_string_closure_init blk (length P) n)) (p + n + n * k) (P @ u @ (mid @ u) @ o2 @ ys) (p + n) =
      Some (P @ u @ (mid @ u) @ concat (replicate k u) @ ys, p + n + n * k)"
    by (rule Suc.IH [OF o(3)])
  have e: "p + n + n * k = p + n * Suc k" "p < p + n * Suc k" using assms(2) by simp_all
  show ?case using 1 2 [unfolded e(1)] e(2) o(1) by (subst put_while.simps) simp
qed

lemma width_diff: "r \<le> g \<Longrightarrow> p + w * r + w * (g - r + k) = p + w * (g + k)" for w :: nat
  by (simp add: add.assoc flip: distrib_left)

lemma width_diff0: "r \<le> g \<Longrightarrow> p + w * r + w * (g - r) = p + w * g" for w :: nat
  using width_diff [of r g p w 0] by simp

context hash_source
begin

lemma cell_width: "hash_form len t \<Longrightarrow> length (t @ [NUL]) = Suc len"
  by (simp add: hash_form_def)

text \<open>The copies that are left of a group and the first cell of the next one.\<close>

lemma hash_group_loop_next:
  assumes "ready S st" "g < r" "load_size sizes (i + 1) = Some g'" "hash_form len t"
    and "length old = Suc len * g + Suc len" "p = length (S @ pre @ (t @ [NUL]) @ mid)"
  defines "P \<equiv> pre @ (t @ [NUL]) @ mid @ concat (replicate g (t @ [NUL]))"
  shows "\<exists>S' st' t' blk'. ready S' st' \<and> length S' = length S \<and> hash_form len t' \<and>
    hash_group_loop put (Suc len) sizes rest current (p + Suc len * r) (p + Suc len * g) i
      (mobile_put_string_closure_init blk (length (S @ pre)) (Suc len)) (S @ pre @ (t @ [NUL]) @ mid @ old @ ys) p st =
    hash_group_loop put (Suc len) sizes rest current (p + Suc len * r) (p + Suc len * g + Suc len * g') (i + 1)
      (mobile_put_string_closure_init blk' (length (S' @ P)) (Suc len)) (S' @ P @ (t' @ [NUL]) @ ys) (p + Suc len * g + Suc len) st'"
proof -
  let ?u = "t @ [NUL]" and ?w = "Suc len"
  let ?q = "p + ?w * g" and ?cl = "mobile_put_string_closure_init blk (length (S @ pre)) ?w"
  note u = cell_width [OF assms(4)]
  obtain o1 o2 where o: "old = o1 @ o2" "length o1 = ?w * g" "length o2 = ?w" using assms(5) by (rule split_length)
  have 1: "put_while (hash_copy ?cl) ?q (S @ pre @ ?u @ mid @ o1 @ o2 @ ys) p = Some (S @ P @ o2 @ ys, ?q)"
    using put_while_hash_copy [OF u _ o(2), of p "S @ pre" mid blk "o2 @ ys"] assms(6) by (simp add: P_def)
  have q: "?q = length (S @ P)" using assms(6) u by (simp add: P_def length_copies)
  obtain S' st' t' where 2: "ready S' st'" "length S' = length S" "hash_form len t'"
    "put (S @ P @ o2 @ ys) ?q st = Some (S' @ P @ (t' @ [NUL]) @ ys, ?q + ?w, st')"
    using putsE [OF assms(1)] o(3) q by metis
  have m: "mobile_put_string_closure_move ?cl b ?q = mobile_put_string_closure_init b (length (S' @ P)) ?w" for b
    using q 2(2) by (simp add: mobile_put_string_closure_move_init)
  have "?w * g < ?w * r" using assms(2) by (simp only: mult_less_cancel1) simp
  then have "hash_group_loop put ?w sizes rest current (p + ?w * r) ?q i ?cl (S @ pre @ ?u @ mid @ old @ ys) p st =
      hash_group_loop put ?w sizes rest current (p + ?w * r) (?q + ?w * g') (i + 1)
        (mobile_put_string_closure_init (S @ P @ o2 @ ys) (length (S' @ P)) ?w) (S' @ P @ (t' @ [NUL]) @ ys) (?q + ?w) st'"
    using 1 2(4) assms(3) m [of "S @ P @ o2 @ ys"] o(1) by (subst hash_group_loop.simps) (simp add: Let_def)
  then show ?thesis using 2 by blast
qed

text \<open>The end of a rowspan inside a group.\<close>

lemma hash_group_loop_span:
  fixes blk :: bytes
  assumes "r \<le> g" "hash_form len t" "length old = Suc len * r" "p = length (S @ pre @ (t @ [NUL]) @ mid)"
  defines "b \<equiv> S @ pre @ (t @ [NUL]) @ mid @ concat (replicate r (t @ [NUL]))"
    and "q \<equiv> p + Suc len * r" and "cl \<equiv> mobile_put_string_closure_init blk (length (S @ pre)) (Suc len)"
  shows "hash_group_loop put (Suc len) sizes rest current (p + Suc len * r) (p + Suc len * g) i cl
      (S @ pre @ (t @ [NUL]) @ mid @ old @ ys) p st =
    (case rest of
       [] \<Rightarrow> Some (b @ ys, q, [current])
     | rc # rest \<Rightarrow>
         do { (b', ptr', spans) \<leftarrow>
                hash_group_loop put (Suc len) sizes rest (q, Suc len * rc) (q + Suc len * rc) (p + Suc len * g) i cl (b @ ys) q st;
              Some (b', ptr', current # spans) })"
proof -
  have "put_while (hash_copy cl) q (S @ pre @ (t @ [NUL]) @ mid @ old @ ys) p = Some (b @ ys, q)"
    using put_while_hash_copy [OF cell_width [OF assms(2)] _ assms(3), of p "S @ pre" mid blk ys] assms(4)
    by (simp add: b_def q_def cl_def)
  moreover have "\<not> p + Suc len * g < q" using assms(1) unfolding q_def by (simp only: nat_add_left_cancel_less mult_less_cancel1) simp
  ultimately show ?thesis unfolding q_def [symmetric] by (subst hash_group_loop.simps) (simp split: list.split)
qed

lemma hash_group_loop_eq:
  assumes "ready S st" "drop (Suc i) sizes = gs" "r + sum_list rest = g + sum_list gs" "\<forall>g \<in> set gs. 0 < g"
    and "hash_form len t" "length old = Suc len * (g + sum_list gs)" "p = length (S @ pre @ (t @ [NUL]) @ mid)"
  shows "\<exists>S' hs. length S' = length S \<and> length hs = length gs \<and> list_all (hash_form len) hs \<and>
    hash_group_loop put (Suc len) sizes rest current (p + Suc len * r) (p + Suc len * g) i
      (mobile_put_string_closure_init blk (length (S @ pre)) (Suc len)) (S @ pre @ (t @ [NUL]) @ mid @ old @ ys) p st =
    Some (S' @ pre @ (t @ [NUL]) @ mid @ terminated (replicate g t @ repeat_cells gs hs) @ ys, p + Suc len * (g + sum_list gs),
      current # spans_from (p + Suc len * r) rest (drop r (replicate g t @ repeat_cells gs hs)))"
  using assms
proof (induction "length gs + length rest" arbitrary: S st i gs r rest g t old pre mid p current blk rule: less_induct)
  case less
  let ?u = "t @ [NUL]"
  define w where "w = Suc len"
  show ?case
  proof (cases "g < r")
    case True
    then have "gs \<noteq> []" using less.prems(3) by auto
    then obtain g' gs' where gs: "gs = g' # gs'" by (cases gs) auto
    then have g': "1 \<le> g'" "\<forall>g \<in> set gs'. 0 < g" using less.prems(4) by simp_all
    have "w * (g + sum_list gs) = (w * g + w) + w * (g' - 1 + sum_list gs')"
      using width_diff [OF g'(1), of "w * g" w "sum_list gs'"] by (simp add: gs distrib_left)
    then have "length old = (w * g + w) + w * (g' - 1 + sum_list gs')" using less.prems(6) by (simp only: w_def)
    then obtain o1 o2 where o: "old = o1 @ o2" "length o1 = w * g + w" "length o2 = w * (g' - 1 + sum_list gs')"
      by (rule split_length)
    have d: "drop (Suc (i + 1)) sizes = gs'" "load_size sizes (i + 1) = Some g'"
      using less.prems(2) gs nth_via_drop [of "Suc i" sizes g' gs']
      by (auto simp: load_size_def drop_Suc [of "Suc i"] drop_tl not_less dest: arg_cong [of _ _ length])
    let ?P = "pre @ ?u @ mid @ concat (replicate g ?u)" and ?q = "p + w * g + w"
    obtain S1 st1 t1 blk1 where t1: "ready S1 st1" "length S1 = length S" "hash_form len t1"
      "hash_group_loop put w sizes rest current (p + w * r) (p + w * g) i (mobile_put_string_closure_init blk (length (S @ pre)) w)
         (S @ pre @ ?u @ mid @ o1 @ o2 @ ys) p st =
       hash_group_loop put w sizes rest current (p + w * r) (p + w * g + w * g') (i + 1)
         (mobile_put_string_closure_init blk1 (length (S1 @ ?P)) w) (S1 @ ?P @ (t1 @ [NUL]) @ o2 @ ys) ?q st1"
      using hash_group_loop_next [OF less.prems(1) True d(2) less.prems(5) _ less.prems(7), of o1 rest current blk "o2 @ ys"] o(2)
      unfolding w_def by blast
    have e: "?q + w * (r - (g + 1)) = p + w * r" "?q + w * (g' - 1) = p + w * g + w * g'"
      using width_diff0 [of "g + 1" r p w] width_diff0 [OF g'(1), of "p + w * g" w] True by (simp_all add: distrib_left add.assoc)
    have q: "?q = length (S1 @ ?P @ (t1 @ [NUL]) @ [])"
      using less.prems(5,7) t1(2,3) by (simp add: w_def length_copies hash_form_def)
    have s: "r - (g + 1) + sum_list rest = g' - 1 + sum_list gs'" using less.prems(3) True g' gs by simp
    obtain S2 hs where 2: "length S2 = length S1" "length hs = length gs'" "list_all (hash_form len) hs"
      "hash_group_loop put w sizes rest current (?q + w * (r - (g + 1))) (?q + w * (g' - 1)) (i + 1)
        (mobile_put_string_closure_init blk1 (length (S1 @ ?P)) w) (S1 @ ?P @ (t1 @ [NUL]) @ [] @ o2 @ ys) ?q st1 =
       Some (S2 @ ?P @ (t1 @ [NUL]) @ [] @ terminated (replicate (g' - 1) t1 @ repeat_cells gs' hs) @ ys,
        ?q + w * (g' - 1 + sum_list gs'),
        current # spans_from (?q + w * (r - (g + 1))) rest (drop (r - (g + 1)) (replicate (g' - 1) t1 @ repeat_cells gs' hs)))"
      using less.hyps [OF _ t1(1) d(1) s g'(2) t1(3) o(3) [unfolded w_def] q [unfolded w_def], of current blk1] gs
      unfolding w_def by auto
    have R: "replicate g t @ repeat_cells gs (t1 # hs) = replicate g t @ t1 # replicate (g' - 1) t1 @ repeat_cells gs' hs"
      using g'(1) by (cases g') (simp_all add: gs)
    have d2: "drop r (replicate g t @ repeat_cells gs (t1 # hs)) = drop (r - (g + 1)) (replicate (g' - 1) t1 @ repeat_cells gs' hs)"
      using True unfolding R by (simp add: drop_Cons')
    have l: "?q + w * (g' - 1 + sum_list gs') = p + w * (g + sum_list gs)"
      using width_diff [OF g'(1), of "p + w * g" w "sum_list gs'"] by (simp add: gs distrib_left)
    have "hash_group_loop put w sizes rest current (p + w * r) (p + w * g) i (mobile_put_string_closure_init blk (length (S @ pre)) w)
        (S @ pre @ ?u @ mid @ old @ ys) p st =
      Some (S2 @ pre @ ?u @ mid @ terminated (replicate g t @ repeat_cells gs (t1 # hs)) @ ys, p + w * (g + sum_list gs),
        current # spans_from (p + w * r) rest (drop r (replicate g t @ repeat_cells gs (t1 # hs))))"
      using t1(4) 2(4) unfolding e l d2 by (simp add: o(1) R terminated_replicate)
    moreover have "length (t1 # hs) = length gs" using 2(2) gs by simp
    ultimately show ?thesis using t1(2,3) 2(1,3) unfolding w_def
      by (intro exI [of _ S2] exI [of _ "t1 # hs"]) simp
  next
    case False
    then have le: "r \<le> g" by simp
    have "length old = w * r + w * (g - r + sum_list gs)" using less.prems(6) width_diff [OF le, of 0 w] by (simp only: w_def add_0)
    then obtain o1 o2 where o: "old = o1 @ o2" "length o1 = w * r" "length o2 = w * (g - r + sum_list gs)" by (rule split_length)
    note 1 = hash_group_loop_span [OF le less.prems(5) o(2) [unfolded w_def] less.prems(7),
        where blk = blk and sizes = sizes and rest = rest and current = current and i = i and ys = "o2 @ ys" and st = st, folded w_def]
    have R: "replicate g t @ cs = replicate r t @ replicate (g - r) t @ cs" for cs
      using le replicate_add [of r "g - r" t] by simp
    show ?thesis
    proof (cases rest)
      case Nil
      then have "sum_list gs = 0" "g = r" using less.prems(3) le by simp_all
      moreover from this have "gs = []" using less.prems(4) by (cases gs) auto
      ultimately show ?thesis using 1 Nil o
        by (intro exI [of _ S] exI [of _ "[]"]) (simp add: terminated_replicate w_def)
    next
      case (Cons rc rest')
      let ?mid = "mid @ concat (replicate r ?u)" and ?q = "p + w * r"
      have q: "?q = length (S @ pre @ ?u @ ?mid)" using less.prems(5,7) by (simp add: w_def length_copies hash_form_def)
      have s: "rc + sum_list rest' = g - r + sum_list gs" using less.prems(3) Cons le by simp
      obtain S1 hs where 2: "length S1 = length S" "length hs = length gs" "list_all (hash_form len) hs"
        "hash_group_loop put w sizes rest' (?q, w * rc) (?q + w * rc) (?q + w * (g - r)) i
          (mobile_put_string_closure_init blk (length (S @ pre)) w) (S @ pre @ ?u @ ?mid @ o2 @ ys) ?q st =
         Some (S1 @ pre @ ?u @ ?mid @ terminated (replicate (g - r) t @ repeat_cells gs hs) @ ys, ?q + w * (g - r + sum_list gs),
          (?q, w * rc) # spans_from (?q + w * rc) rest' (drop rc (replicate (g - r) t @ repeat_cells gs hs)))"
        using less.hyps [OF _ less.prems(1,2) s less.prems(4,5) o(3) [unfolded w_def] q [unfolded w_def], of "(?q, w * rc)" blk] Cons
        unfolding w_def by auto
      have f: "list_all (hash_form len) (replicate (g - r) t @ repeat_cells gs hs)"
        using less.prems(5) 2(3) set_repeat_cells [of _ gs hs] by (auto simp: list_all_iff)
      have "list_all (hash_form len) (take rc cs) \<and> length (take rc cs) = rc"
        if "cs = replicate (g - r) t @ repeat_cells gs hs" for cs
        using f s length_repeat_cells [of gs hs] 2(2) unfolding that [symmetric]
        by (auto simp: that list_all_iff dest: in_set_takeD)
      then have c: "length (terminated (take rc (replicate (g - r) t @ repeat_cells gs hs))) = w * rc"
        using hash_cells_width [of len "take rc (replicate (g - r) t @ repeat_cells gs hs)"] w_def by metis
      show ?thesis
        using 1 2 c unfolding width_diff [OF le] width_diff0 [OF le] Cons R w_def [symmetric]
        by (intro exI [of _ S1] exI [of _ hs]) (simp add: o(1) terminated_replicate del: take_append)
    qed
  qed
qed

end

section \<open>Columns of hashes\<close>

text \<open>The first hash and the loop over the groups, as the builder runs them.\<close>

context hash_source
begin

lemma hash_groups_eq:
  assumes "ready S st" "0 < rc" "0 < g" "\<forall>g \<in> set ks. 0 < g" "rc + sum_list rest = g + sum_list ks"
    and "length old = Suc len * (g + sum_list ks)"
  shows "\<exists>S' hs ptr. length S' = length S \<and> length hs = Suc (length ks) \<and> list_all (hash_form len) hs \<and>
    do { (b, ptr', st) \<leftarrow> put (S @ old) (length S) st;
         hash_group_loop put (Suc len) (g # ks) rest (length S, Suc len * rc) (length S + Suc len * rc) (length S + Suc len * g) 0
           (mobile_put_string_closure_init (S @ old) (length S) (Suc len)) b ptr' st } =
      Some (S' @ terminated (repeat_cells (g # ks) hs), ptr, spans_from (length S) (rc # rest) (repeat_cells (g # ks) hs))"
proof -
  let ?w = "Suc len"
  have s: "rc - 1 + sum_list rest = g - 1 + sum_list ks" "g + sum_list ks = g - 1 + sum_list ks + 1" using assms(2,3,5) by simp_all
  have "length old = ?w + ?w * (g - 1 + sum_list ks)" using assms(6) s(2) by (metis add.commute mult.right_neutral distrib_left)
  then obtain o1 o2 where o: "old = o1 @ o2" "length o1 = ?w" "length o2 = ?w * (g - 1 + sum_list ks)" by (rule split_length)
  obtain S2 st2 t where 2: "ready S2 st2" "length S2 = length S" "hash_form len t"
    "put (S @ [] @ o1 @ o2) (length S) st = Some (S2 @ [] @ (t @ [NUL]) @ o2, length S + ?w, st2)"
    using putsE [OF assms(1)] o(2) by (metis append_Nil2)
  have p: "length S + ?w = length (S2 @ [] @ (t @ [NUL]) @ [])" using 2(2,3) by (simp add: hash_form_def)
  obtain S3 hs where 3: "length S3 = length S2" "length hs = length ks" "list_all (hash_form len) hs"
    "hash_group_loop put ?w (g # ks) rest (length S, ?w * rc) (length S + ?w + ?w * (rc - 1)) (length S + ?w + ?w * (g - 1)) 0
       (mobile_put_string_closure_init (S @ old) (length (S2 @ [])) ?w) (S2 @ [] @ (t @ [NUL]) @ [] @ o2 @ []) (length S + ?w) st2 =
     Some (S3 @ [] @ (t @ [NUL]) @ [] @ terminated (replicate (g - 1) t @ repeat_cells ks hs) @ [],
       length S + ?w + ?w * (g - 1 + sum_list ks),
       (length S, ?w * rc) # spans_from (length S + ?w + ?w * (rc - 1)) rest (drop (rc - 1) (replicate (g - 1) t @ repeat_cells ks hs)))"
    using hash_group_loop_eq [OF 2(1) _ s(1) assms(4) 2(3) o(3) p, of 0 "g # ks" "(length S, ?w * rc)" "S @ old" "[]"] by auto
  let ?cs = "repeat_cells (g # ks) (t # hs)"
  have cs: "?cs = t # replicate (g - 1) t @ repeat_cells ks hs" using assms(3) by (cases g) simp_all
  have "length ?cs = rc + sum_list rest" using length_repeat_cells [of "g # ks" "t # hs"] 3(2) assms(5) by simp
  then have "length (take rc ?cs) = rc" by simp
  moreover have "list_all (hash_form len) (take rc ?cs)"
    using 2(3) 3(3) set_repeat_cells [of _ "g # ks" "t # hs"] by (auto simp: list_all_iff dest: in_set_takeD)
  ultimately have c: "length (terminated (take rc ?cs)) = ?w * rc" using hash_cells_width by metis
  have e: "length S + ?w + ?w * (rc - 1) = length S + ?w * rc" "length S + ?w + ?w * (g - 1) = length S + ?w * g"
    using width_diff0 [of 1 rc "length S" ?w] width_diff0 [of 1 g "length S" ?w] assms(2,3) by simp_all
  have sp: "(length S, ?w * rc) # spans_from (length S + ?w * rc) rest (drop (rc - 1) (replicate (g - 1) t @ repeat_cells ks hs)) =
      spans_from (length S) (rc # rest) ?cs"
    unfolding spans_from.simps c unfolding cs using assms(2) by (cases rc) (simp_all del: drop_append)
  have "t @ NUL # terminated (replicate (g - Suc 0) t) = terminated (replicate g t)" using assms(3) by (cases g) simp_all
  then show ?thesis using 3(4) [unfolded e, unfolded sp] 2 3(1-3) o(1)
    by (intro exI [of _ S3] exI [of _ "t # hs"] exI [of _ "length S + ?w + ?w * (g - 1 + sum_list ks)"]) (simp add: cs)
qed

end

lemma size_hash_state_buffer_eq:
  assumes "0 < n" "n \<le> 255"
  shows "size_hash_state_buffer n = n div 2 + n mod 2 + 14"
proof -
  let ?k = "n div 2 + n mod 2"
  have k: "?k \<le> 128" using assms by presburger
  have "1 * (of_nat ?k - 2) + 8 * 2 = (of_nat (?k + 14) :: u64)" by simp
  then show ?thesis using k unfolding size_hash_state_buffer_def Let_def
    by (simp only: unat_of_nat) simp
qed

lemma hash_contents:
  assumes "0 < n" "n \<le> 255" "allocates malloc"
  obtains sizes bytes S old st where "malloc k (size_hash_state_buffer n + Suc n * rows) = Some (sizes, bytes)" "length sizes = k"
    "hash_state_init addr bytes 0 (size_hash_state_buffer n) = Some (S @ old, st)" "length S = size_hash_state_buffer n"
    "hash_ready (n div 2 + n mod 2) S st" "length old = Suc n * rows"
proof -
  let ?k = "n div 2 + n mod 2"
  have k: "0 < ?k" "size_hash_state_buffer n = ?k + 14" using assms(1,2) size_hash_state_buffer_eq by presburger+
  obtain sizes bytes where m: "malloc k (size_hash_state_buffer n + Suc n * rows) = Some (sizes, bytes)" "length sizes = k"
    "length bytes = ?k + 14 + Suc n * rows" using assms(3) unfolding k(2) by (rule allocatesE)
  obtain S old where b: "bytes = S @ old" "length S = ?k + 14" "length old = Suc n * rows" using m(3) by (rule split_length)
  obtain S1 st where S1: "hash_ready ?k S1 st" "hash_state_init addr (S @ old) 0 (?k + 14) = Some (S1 @ old, st)"
    using hash_state_init_ready [OF k(1) b(2), of addr] by blast
  moreover have "length S1 = ?k + 14" using S1(1) by (simp add: hash_ready_def)
  ultimately show ?thesis using that m b(1,3) k(2) by simp
qed

text \<open>
  C39: a column of hashes is built whatever \<open>malloc\<close> left in the contents, wherever they are, and
  whatever a rotation by 64 or more gives: every cell has the length that was asked for and consists of
  lowercase hexadecimal digits, no cell or pointer leaves the contents, and the rows lie in the blocks
  of the rowspans in their order.
\<close>

theorem hash_columns:
  assumes "0 < n" "n \<le> 255" and "allocates malloc" and "rcs \<noteq> []" "\<forall>rc \<in> set rcs. 0 < rc"
  shows "\<exists>co hashes. build_column_string_hash over addr n malloc join (sum_list rcs) rcs = Some (Inr co) \<and>
    length hashes = sum_list rcs \<and> list_all (hash_form n) hashes \<and>
    co_length co = (n + 1) * sum_list rcs \<and> lays_out co join rcs hashes"
proof -
  obtain sizes bytes S old st where m: "malloc 0 (size_hash_state_buffer n + Suc n * sum_list rcs) = Some (sizes, bytes)"
    "hash_state_init addr bytes 0 (size_hash_state_buffer n) = Some (S @ old, st)" "length S = size_hash_state_buffer n"
    "hash_ready (n div 2 + n mod 2) S st" "length old = Suc n * sum_list rcs"
    using assms(1-3) by (rule hash_contents)
  obtain S2 hashes where 2: "length S2 = length S" "length hashes = sum_list rcs" "list_all (hash_form n) hashes"
    "hash_rowspans (put_hash_state over (n mod 2)) (Suc n) rcs (S @ [] @ old @ []) (length S) st =
      Some (S2 @ [] @ terminated hashes @ [], length S + Suc n * sum_list rcs, spans_from (length S) rcs hashes)"
    using hashes.hash_rowspans_eq [OF m(4) assms(5) m(5), of "length S" "[]" over "[]"] by auto
  note lay = hashes.lays_out_hashes [OF 2(3) 2(2) [symmetric] refl, of S2 join, unfolded 2(1,2)]
  have "build_column_string_hash over addr n malloc join (sum_list rcs) rcs =
    Some (Inr \<lparr>co_contents = S2 @ terminated hashes,
      co_spans = map (hook join (S2 @ terminated hashes)) (spans_from (length S) rcs hashes), co_length = Suc n * sum_list rcs\<rparr>)"
    using m(1,2) 2(4) assms(4) by (simp add: build_column_string_hash_def Let_def m(3))
  then show ?thesis using lay 2(2,3) by auto
qed

theorem hash_columns_witness:
  "\<exists>co hashes. build_column_string_hash (\<lambda>w r. w) 94368 7 zero_alloc True 5 [2, 3] = Some (Inr co) \<and>
    length hashes = 5 \<and> list_all (hash_form 7) hashes \<and> co_length co = 40 \<and> lays_out co True [2, 3] hashes"
  using hash_columns [of 7 zero_alloc "[2, 3]" "\<lambda>w r. w" 94368 True] zero_alloc_allocates by simp

text \<open>
  C40: a column of hashes in groups is built too: one hash is computed for each group, and every row of
  the group holds it.
\<close>

theorem hash_group_columns:
  assumes "0 < n" "n \<le> 255" and "allocates malloc" and "splits grp (sum_list rcs)" and "rcs \<noteq> []" "\<forall>rc \<in> set rcs. 0 < rc"
  shows "\<exists>co sizes hashes. build_column_string_hash_group over addr n grp malloc join (sum_list rcs) rcs = Some (Inr co) \<and>
    group_sizes (gs_count grp) (sum_list rcs) sizes \<and> length hashes = gs_count grp \<and> list_all (hash_form n) hashes \<and>
    lays_out co join rcs (repeat_cells sizes hashes)"
proof -
  let ?n = "gs_count grp" and ?rows = "sum_list rcs" and ?w = "Suc n"
  obtain sizes0 bytes S old st where m: "malloc ?n (size_hash_state_buffer n + ?w * ?rows) = Some (sizes0, bytes)" "length sizes0 = ?n"
    "hash_state_init addr bytes 0 (size_hash_state_buffer n) = Some (S @ old, st)" "length S = size_hash_state_buffer n"
    "hash_ready (n div 2 + n mod 2) S st" "length old = ?w * ?rows"
    using assms(1-3) by (rule hash_contents)
  obtain sizes where part: "gs_partition grp sizes0 ?n ?rows = Some (sizes, ?n)" and gs: "group_sizes ?n ?rows sizes"
    using assms(4) m(2) by (rule splitsE)
  have "1 \<le> ?n" using assms(4) by (simp add: splits_def)
  then obtain g ks where sz: "sizes = g # ks" "?n = Suc (length ks)" "0 < g" "g + sum_list ks = ?rows" "\<forall>g \<in> set ks. 0 < g"
    using gs by (cases sizes) (auto simp: group_sizes_def)
  obtain rc rest where rcs: "rcs = rc # rest" "0 < rc" using assms(5,6) by (cases rcs) auto
  have s: "rc + sum_list rest = g + sum_list ks" using sz(4) rcs(1) by simp
  obtain S' hs ptr where 1: "length S' = length S" "length hs = Suc (length ks)" "list_all (hash_form n) hs"
    "do { (b, ptr', st) \<leftarrow> put_hash_state over (n mod 2) (S @ old) (length S) st;
          hash_group_loop (put_hash_state over (n mod 2)) ?w (g # ks) rest (length S, ?w * rc) (length S + ?w * rc) (length S + ?w * g) 0
            (mobile_put_string_closure_init (S @ old) (length S) ?w) b ptr' st } =
     Some (S' @ terminated (repeat_cells (g # ks) hs), ptr, spans_from (length S) (rc # rest) (repeat_cells (g # ks) hs))"
    using hashes.hash_groups_eq [OF m(5) rcs(2) sz(3,5) s m(6) [folded sz(4)], of over] by blast
  let ?cs = "repeat_cells (g # ks) hs"
  have f: "list_all (hash_form n) ?cs" using 1(3) set_repeat_cells [of _ "g # ks" hs] by (auto simp: list_all_iff)
  have lc: "length ?cs = ?rows" using length_repeat_cells [of "g # ks" hs] 1(2) sz(4) by simp
  note lay = hashes.lays_out_hashes [OF f lc [symmetric] refl, of S' join, unfolded 1(1) lc]
  have "build_column_string_hash_group over addr n grp malloc join ?rows rcs =
    Some (Inr \<lparr>co_contents = S' @ terminated ?cs,
      co_spans = map (hook join (S' @ terminated ?cs)) (spans_from (length S) rcs ?cs), co_length = ?w * ?rows\<rparr>)"
    using m(1,3) part 1(4)
    by (auto simp: build_column_string_hash_group_def Let_def rcs(1) load_size_def sz(1) m(4) [symmetric] split: bind_splits)
  then show ?thesis using lay gs 1(2,3) sz(1,2) by auto
qed

theorem hash_group_columns_witness:
  "\<exists>co sizes hashes. build_column_string_hash_group (\<lambda>w r. w) 94368 8 \<lparr>gs_count = 3, gs_partition = partition_groups_even\<rparr>
      zero_alloc True 5 [2, 3] = Some (Inr co) \<and>
    group_sizes 3 5 sizes \<and> length hashes = 3 \<and> list_all (hash_form 8) hashes \<and> lays_out co True [2, 3] (repeat_cells sizes hashes)"
proof -
  let ?g = "\<lparr>gs_count = 3, gs_partition = partition_groups_even\<rparr>"
  have "splits ?g (sum_list [2, 3])" using even.partitioner_splits [of 3 5] by simp
  from hash_group_columns [OF _ _ zero_alloc_allocates this, where n = 8 and over = "\<lambda>w r. w" and addr = 94368 and join = True]
  show ?thesis by simp
qed

end
