(* ===== verification/Parse_State.thy ===== *)
theory Parse_State
  imports Random_Spec Layout String_Parse Counter
begin

text \<open>
  The state of the command line parser, \<open>src/mysql_seed_generate.h\<close>. The specifications of the
  databases, tables and columns are laid out one after another in one block, \<open>spec_alloc\<close>; a pointer
  into it is an offset. The memory is typed: an offset holds a record or nothing, taking the memory
  of a record ends every record it overlaps, and a member that was not yet written has no value, so
  that a definite result shows that no member is read before it was written.
\<close>

section \<open>Specifications\<close>

text \<open>
  The builders a column can be given, \<open>build_column_...\<close>: the type, the qualifier, and whether it is
  the \<open>_group\<close> variant.
\<close>

datatype integer_build = Fixed | Unique | Random rand_build
datatype string_build = Str_Fixed | Str_Unique | Str_Uuid | Str_Hash | Names_First | Names_Last | Names_Full
datatype time_build = Time_Fixed | Time_Unique
datatype builder =
    build_column_integer integer_build bool
  | build_column_u_integer integer_build bool
  | build_column_string string_build bool
  | build_column_timestamp time_build bool
  | build_column_datetime time_build bool

datatype group_partitioner = Partition_Groups_Even | Partition_Groups_Linear

text \<open>
  \<open>union TypeQualifier\<close>, by the member that was written last; the members of the signed and the
  unsigned integers lie on one another. A string keeps its text and its length.
\<close>

datatype type_qualifier =
    Q_Unset
  | Q_Scale scale
  | Q_Rand rand_gen nat
  | Q_Stub string nat
  | Q_String string nat
  | Q_Hash nat

datatype name_bytes = Name_Unset | Name_NULL | Name string

record ColSpec =
  col_bytes :: name_bytes
  col_length :: "nat option"
  col_type :: "put_label option"
  col_type_q :: type_qualifier
  col_grp_count :: "nat option"
  col_partition :: "group_partitioner option"
  col_build :: "builder option"

record TblSpec =
  tbl_name :: "string option"
  tbl_row_count :: "nat option"
  tbl_from :: "nat option"
  tbl_until :: "nat option"
  tbl_next :: "nat option option"

record DbSpec =
  db_name :: "string option"
  db_tbl_specs :: "nat option"
  db_next :: "nat option option"

definition new_col :: ColSpec where
  "new_col = \<lparr>col_bytes = Name_Unset, col_length = None, col_type = None, col_type_q = Q_Unset, col_grp_count = None,
     col_partition = None, col_build = None\<rparr>"

definition new_tbl :: TblSpec where
  "new_tbl = \<lparr>tbl_name = None, tbl_row_count = None, tbl_from = None, tbl_until = None, tbl_next = None\<rparr>"

definition new_db :: DbSpec where
  "new_db = \<lparr>db_name = None, db_tbl_specs = None, db_next = None\<rparr>"

section \<open>Memory\<close>

datatype spec = Col ColSpec | Tbl TblSpec | Db DbSpec

text \<open>The sizes with eight byte pointers and sixteen byte \<open>long double\<close>s.\<close>

fun spec_size :: "spec \<Rightarrow> nat" where
  "spec_size (Db d) = 32"
| "spec_size (Tbl t) = 48"
| "spec_size (Col c) = 160"

abbreviation sizeof_DbSpec :: nat where "sizeof_DbSpec \<equiv> 32"
abbreviation sizeof_TblSpec :: nat where "sizeof_TblSpec \<equiv> 48"
abbreviation sizeof_ColSpec :: nat where "sizeof_ColSpec \<equiv> 160"

record spec_mem =
  mem_at :: "nat \<Rightarrow> spec option"
  mem_size :: nat

text \<open>The first write to a record takes its memory.\<close>

definition mem_take :: "nat \<Rightarrow> spec \<Rightarrow> spec_mem \<Rightarrow> spec_mem option" where
  "mem_take a x m =
     (if a + spec_size x \<le> mem_size m then
        Some (m\<lparr>mem_at := (\<lambda>b. case mem_at m b of None \<Rightarrow> None
                            | Some y \<Rightarrow> if b < a + spec_size x \<and> a < b + spec_size y then None else Some y)(a \<mapsto> x)\<rparr>)
      else None)"

definition mem_db :: "nat \<Rightarrow> spec_mem \<Rightarrow> DbSpec option" where
  "mem_db a m = (case mem_at m a of Some (Db d) \<Rightarrow> Some d | _ \<Rightarrow> None)"

definition mem_tbl :: "nat \<Rightarrow> spec_mem \<Rightarrow> TblSpec option" where
  "mem_tbl a m = (case mem_at m a of Some (Tbl t) \<Rightarrow> Some t | _ \<Rightarrow> None)"

definition mem_col :: "nat \<Rightarrow> spec_mem \<Rightarrow> ColSpec option" where
  "mem_col a m = (case mem_at m a of Some (Col c) \<Rightarrow> Some c | _ \<Rightarrow> None)"

text \<open>A write to members of a record.\<close>

definition mem_set_db :: "nat \<Rightarrow> (DbSpec \<Rightarrow> DbSpec) \<Rightarrow> spec_mem \<Rightarrow> spec_mem option" where
  "mem_set_db a f m = do { d \<leftarrow> mem_db a m; Some (m\<lparr>mem_at := (mem_at m)(a \<mapsto> Db (f d))\<rparr>) }"

definition mem_set_tbl :: "nat \<Rightarrow> (TblSpec \<Rightarrow> TblSpec) \<Rightarrow> spec_mem \<Rightarrow> spec_mem option" where
  "mem_set_tbl a f m = do { t \<leftarrow> mem_tbl a m; Some (m\<lparr>mem_at := (mem_at m)(a \<mapsto> Tbl (f t))\<rparr>) }"

definition mem_set_col :: "nat \<Rightarrow> (ColSpec \<Rightarrow> ColSpec) \<Rightarrow> spec_mem \<Rightarrow> spec_mem option" where
  "mem_set_col a f m = do { c \<leftarrow> mem_col a m; Some (m\<lparr>mem_at := (mem_at m)(a \<mapsto> Col (f c))\<rparr>) }"

section \<open>The state\<close>

text \<open>The messages the parser writes to the standard error.\<close>

datatype named = Database | Table_Name | Column

datatype parse_error =
    Expected_Flag named | Short_Db_Spec
  | Name_Empty named | Name_Invalid named | Name_Long named
  | Row_Count_Invalid | Row_Count_Zero | Row_Count_Large
  | No_Col_Type | Invalid_Col_Type | Invalid_Rand_Spec
  | No_Random_From_Min | No_Random_Upto_Max | No_Random_Range_Min | No_Random_Range_Max | Random_Range_Max_Lt_Min
  | Invalid_Min_Integer | Invalid_Max_Integer | Invalid_Min_U_Integer | Invalid_Max_U_Integer
  | No_Grp_Count | Grp_Count_Invalid | Grp_Count_Zero | Grp_Count_Large | Multiple_Grp_Specs | Grp_Spec_For_Fixed_Data
  | Invalid_Integer_Type_Q | Invalid_U_Integer_Type_Q | Invalid_String_Type_Q | Invalid_Timestamp_Type_Q
  | Invalid_Datetime_Type_Q
  | No_Fixed_Integer | Invalid_Fixed_Integer | No_Fixed_U_Integer | Invalid_Fixed_U_Integer
  | No_Base_String | Base_String_Invalid | Base_String_Long
  | No_Fixed_String | Fixed_String_Invalid | Fixed_String_Long
  | No_Hash_Length | Hash_Length_Invalid | Hash_Length_Zero | Hash_Length_Large
  | No_Join_Spec | Expected_Join | Expected_Join_Close
  | Expected_Col_Spec_Close | Expected_Grp_Spec_Close | Expected_Join_Grp_Spec_Close
  | Inc_Db_Spec_Col_Name | Inc_Db_Spec_Tbl_Name | Inc_Db_Spec_Row_Count | Inc_Db_Spec_Col_Flag

text \<open>
  \<open>struct GenerateParseState\<close>. The arguments are \<open>args\<close>, \<open>argv.arg.from\<close> is an index and
  \<open>argv.arg.until\<close> their number; \<open>valid.last\<close> is \<^term>\<open>None\<close> while it points to \<open>valid.head\<close> and the
  database whose \<open>next\<close> it points to otherwise. The members that are not set at the start hold zero.
\<close>

record join_state =
  jn_length :: nat
  jn_varchar :: bool
  jn_base :: nat
  jn_base_name :: name_bytes

record parse_state =
  ps_args :: "string list"
  ps_from :: nat
  ps_db_until :: nat
  ps_cache :: "string option"
  ps_mem :: spec_mem
  ps_db :: nat
  ps_tbl :: nat
  ps_col :: nat
  ps_join :: join_state
  ps_generator :: generator_counter
  ps_database :: database_counter
  ps_last :: "nat option"
  ps_head :: "nat option option"
  ps_failed :: bool
  ps_errors :: "parse_error list"

definition at_end :: "parse_state \<Rightarrow> bool" where
  "at_end s \<longleftrightarrow> ps_from s = length (ps_args s)"

text \<open>\<open>*(state->argv.arg.from)\<close>; reading at or behind the end is undefined.\<close>

definition the_arg :: "parse_state \<Rightarrow> string option" where
  "the_arg s = (if ps_from s < length (ps_args s) then Some (ps_args s ! ps_from s) else None)"

definition next_arg :: "parse_state \<Rightarrow> parse_state" where
  "next_arg s = s\<lparr>ps_from := ps_from s + 1\<rparr>"

definition report :: "parse_error \<Rightarrow> parse_state \<Rightarrow> parse_state" where
  "report e s = s\<lparr>ps_errors := ps_errors s @ [e]\<rparr>"

text \<open>Access to the current records through \<open>state->specs\<close>.\<close>

type_synonym setter = "parse_state \<Rightarrow> parse_state option"

definition with_mem :: "(spec_mem \<Rightarrow> spec_mem option) \<Rightarrow> setter" where
  "with_mem f s = do { m \<leftarrow> f (ps_mem s); Some (s\<lparr>ps_mem := m\<rparr>) }"

definition set_col :: "(ColSpec \<Rightarrow> ColSpec) \<Rightarrow> setter" where
  "set_col f s = with_mem (mem_set_col (ps_col s) f) s"

definition set_tbl :: "(TblSpec \<Rightarrow> TblSpec) \<Rightarrow> setter" where
  "set_tbl f s = with_mem (mem_set_tbl (ps_tbl s) f) s"

definition set_db :: "(DbSpec \<Rightarrow> DbSpec) \<Rightarrow> setter" where
  "set_db f s = with_mem (mem_set_db (ps_db s) f) s"

definition the_col :: "parse_state \<Rightarrow> ColSpec option" where
  "the_col s = mem_col (ps_col s) (ps_mem s)"

definition the_tbl :: "parse_state \<Rightarrow> TblSpec option" where
  "the_tbl s = mem_tbl (ps_tbl s) (ps_mem s)"

text \<open>\<open>state->specs.tbl->row_count\<close> and \<open>col_spec->grp_spec.count\<close>.\<close>

definition row_count :: "parse_state \<Rightarrow> nat option" where
  "row_count s = do { t \<leftarrow> the_tbl s; tbl_row_count t }"

definition grp_count :: "parse_state \<Rightarrow> nat option" where
  "grp_count s = do { c \<leftarrow> the_col s; col_grp_count c }"

text \<open>\<open>*(state->valid.last) = p\<close>.\<close>

definition set_last :: "nat option \<Rightarrow> setter" where
  "set_last p s =
     (case ps_last s of
        None \<Rightarrow> Some (s\<lparr>ps_head := Some p\<rparr>)
      | Some a \<Rightarrow> with_mem (mem_set_db a (\<lambda>d. d\<lparr>db_next := Some p\<rparr>)) s)"

section \<open>Control\<close>

text \<open>
  The functions of the parser call each other in tail position. The calls that lead back to a new
  column, table, database or join are values; the others are calls.
\<close>

datatype node = Next_Col | Next_Tbl | Next_Db | Next_Join

datatype outcome = Stop parse_state | Call node parse_state

type_synonym parse_node = "parse_state \<Rightarrow> outcome option"

definition stop :: "parse_state \<Rightarrow> outcome option" where
  "stop s = Some (Stop s)"

definition call :: "node \<Rightarrow> parse_state \<Rightarrow> outcome option" where
  "call n s = Some (Call n s)"

definition flag_match :: "string \<Rightarrow> char \<Rightarrow> string \<Rightarrow> bool" where
  "flag_match arg short_flag long_flag =
     (if deref arg \<noteq> CHR ''-'' then False
      else
        let arg = tl arg
        in if deref arg = short_flag \<and> deref (tl arg) = NUL then True
           else
             let arg = (if deref arg = short_flag then tl arg else arg)
             in if deref arg \<noteq> CHR ''-'' then False else strings_equal (tl arg) long_flag)"

fun flag_match_next :: "string list \<Rightarrow> char \<Rightarrow> string \<Rightarrow> nat" where
  "flag_match_next [] short_flag long_flag = 0"
| "flag_match_next (arg # args) short_flag long_flag =
     (if flag_match arg short_flag long_flag then 0 else Suc (flag_match_next args short_flag long_flag))"

text \<open>
  The \<open>switch\<close> statements of the parser go through a flag character by character; the case they end
  in is the one of the short flag after a dash or of the long flag after two.
\<close>

definition is_flag :: "string \<times> string \<Rightarrow> string \<Rightarrow> bool" where
  "is_flag flag arg \<longleftrightarrow> strings_equal arg (CHR ''-'' # fst flag) \<or> strings_equal arg (''--'' @ snd flag)"

definition generate_parse_error :: parse_node where
  "generate_parse_error s =
     (let s = s\<lparr>ps_failed := True\<rparr>; from = ps_from s + 1
      in call Next_Db (s\<lparr>ps_from := (if from < length (ps_args s)
           then from + flag_match_next (drop from (ps_args s)) CHR ''d'' ''database'' else length (ps_args s))\<rparr>))"

text \<open>The two ways to end on an error: go on with the next database, or give up.\<close>

definition recover :: "parse_error \<Rightarrow> parse_node" where
  "recover e s = generate_parse_error (report e s)"

definition give_up :: "parse_error \<Rightarrow> parse_node" where
  "give_up e s = do { s \<leftarrow> set_last None (report e s); stop (s\<lparr>ps_failed := True\<rparr>) }"

end
