(* ===== verification/Parse_Text.thy ===== *)
theory Parse_Text
  imports Parse_State Put_String
begin

text \<open>
  The arguments the parser reads as text: names and strings in UTF-8 (\<open>src/string/utf8_utils.h\<close> and
  \<open>parse_db_name\<close> to \<open>parse_fixed_string\<close> of \<open>src/mysql_seed_generate.h\<close>), the bounded numbers
  (\<open>parse_row_count\<close> to \<open>parse_grp_count\<close>), and the texts of the types.
\<close>

section \<open>UTF-8\<close>

definition octet :: "char \<Rightarrow> u8" where
  "octet c = of_char c"

definition utf8_head_width :: "u8 \<Rightarrow> nat" where
  "utf8_head_width head =
     (if head AND 0x80 = 0 then 1
      else if head AND 0x40 = 0 then 0
      else if head AND 0x20 = 0 then 2
      else if head AND 0x10 = 0 then 3
      else if head AND 0x08 = 0 then 4
      else 0)"

text \<open>The octets after the head; the terminator is none.\<close>

fun utf8_tail :: "nat \<Rightarrow> string \<Rightarrow> bool" where
  "utf8_tail 0 octets = True"
| "utf8_tail (Suc n) octets =
     (let o1 = octet (deref octets)
      in if o1 AND 0x80 = 0 \<or> o1 AND 0x40 = 0x40 then False else utf8_tail n (tl octets))"

definition utf8_width :: "string \<Rightarrow> nat" where
  "utf8_width octets =
     (let width = utf8_head_width (octet (deref octets))
      in if width = 0 then 0 else if utf8_tail (width - 1) (tl octets) then width else 0)"

section \<open>Names and strings\<close>

datatype text_result = Text_Ok | Text_Invalid | Text_Long

text \<open>The loop of the three names, which are not empty, and the one of the two strings.\<close>

fun name_loop :: "nat \<Rightarrow> string \<Rightarrow> text_result" where
  "name_loop 0 octets = Text_Long"
| "name_loop (Suc rem_code_points) octets =
     (let width = utf8_width octets
      in if width = 0 then Text_Invalid
         else if drop width octets = [] then Text_Ok
         else if rem_code_points = 0 then Text_Long
         else name_loop rem_code_points (drop width octets))"

fun string_loop :: "nat \<Rightarrow> string \<Rightarrow> text_result" where
  "string_loop 0 octets = Text_Long"
| "string_loop (Suc rem_code_points) octets =
     (if octets = [] then Text_Ok
      else
        let width = utf8_width octets
        in if width = 0 then Text_Invalid
           else if rem_code_points = 0 then Text_Long
           else string_loop rem_code_points (drop width octets))"

definition DB_NAME_LENGTH_MAX :: nat where "DB_NAME_LENGTH_MAX = 63"
definition TBL_NAME_LENGTH_MAX :: nat where "TBL_NAME_LENGTH_MAX = 63"
definition COL_NAME_LENGTH_MAX :: nat where "COL_NAME_LENGTH_MAX = 63"
definition BASE_STRING_LENGTH_MAX :: nat where "BASE_STRING_LENGTH_MAX = 247"
definition FIXED_STRING_LENGTH_MAX :: nat where "FIXED_STRING_LENGTH_MAX = 255"

definition parse_name :: "nat \<Rightarrow> named \<Rightarrow> string \<Rightarrow> parse_error option" where
  "parse_name length_max kind arg =
     (if arg = [] then Some (Name_Empty kind)
      else case name_loop length_max arg of
        Text_Ok \<Rightarrow> None | Text_Invalid \<Rightarrow> Some (Name_Invalid kind) | Text_Long \<Rightarrow> Some (Name_Long kind))"

text \<open>
  A parser of an argument: the value of the function, and the state, where an error is reported. The
  place of the name, \<open>&state->specs.db->name\<close> and the like, is an argument.
\<close>

type_synonym parse_arg = "parse_state \<Rightarrow> (bool \<times> parse_state) option"

definition refuse :: "parse_error \<Rightarrow> parse_arg" where
  "refuse e s = Some (False, report e s)"

definition accept :: "setter \<Rightarrow> parse_arg" where
  "accept f s = do { s \<leftarrow> f s; Some (True, s) }"

definition parse_db_name :: "nat \<Rightarrow> parse_arg" where
  "parse_db_name db s =
     do { arg \<leftarrow> the_arg s;
          case parse_name DB_NAME_LENGTH_MAX Database arg of
            Some e \<Rightarrow> refuse e s
          | None \<Rightarrow> accept (with_mem (mem_take db (Db (new_db\<lparr>db_name := Some arg\<rparr>)))) s }"

definition parse_tbl_name :: "nat \<Rightarrow> parse_arg" where
  "parse_tbl_name tbl s =
     do { arg \<leftarrow> the_arg s;
          case parse_name TBL_NAME_LENGTH_MAX Table_Name arg of
            Some e \<Rightarrow> refuse e s
          | None \<Rightarrow> accept (with_mem (mem_take tbl (Tbl (new_tbl\<lparr>tbl_name := Some arg\<rparr>)))) s }"

definition parse_col_name :: "nat \<Rightarrow> parse_arg" where
  "parse_col_name col s =
     do { arg \<leftarrow> the_arg s;
          case parse_name COL_NAME_LENGTH_MAX Column arg of
            Some e \<Rightarrow> refuse e s
          | None \<Rightarrow> accept (with_mem (mem_take col
                     (Col (new_col\<lparr>col_bytes := Name arg, col_length := Some (length arg)\<rparr>)))) s }"

definition parse_base_string :: parse_arg where
  "parse_base_string s =
     do { arg \<leftarrow> the_arg s;
          case string_loop BASE_STRING_LENGTH_MAX arg of
            Text_Ok \<Rightarrow> accept (set_col (\<lambda>c. c\<lparr>col_type_q := Q_String arg (length arg)\<rparr>)) s
          | Text_Invalid \<Rightarrow> refuse Base_String_Invalid s
          | Text_Long \<Rightarrow> refuse Base_String_Long s }"

text \<open>The length of a fixed string counts its terminator.\<close>

definition parse_fixed_string :: parse_arg where
  "parse_fixed_string s =
     do { arg \<leftarrow> the_arg s;
          case string_loop FIXED_STRING_LENGTH_MAX arg of
            Text_Ok \<Rightarrow> accept (set_col (\<lambda>c. c\<lparr>col_type_q := Q_String arg (length arg + 1)\<rparr>)) s
          | Text_Invalid \<Rightarrow> refuse Fixed_String_Invalid s
          | Text_Long \<Rightarrow> refuse Fixed_String_Long s }"

section \<open>Numbers\<close>

definition HASH_LENGTH_MAX :: nat where "HASH_LENGTH_MAX = 255"

definition parse_row_count :: "nat \<Rightarrow> parse_arg" where
  "parse_row_count tbl s =
     do { arg \<leftarrow> the_arg s;
          case parse_uint arg of
            None \<Rightarrow> refuse Row_Count_Invalid s
          | Some (parsed, _) \<Rightarrow>
              if parsed = 0 then refuse Row_Count_Zero s
              else if UPTO_MAX < unat parsed then refuse Row_Count_Large s
              else accept (with_mem (mem_set_tbl tbl (\<lambda>t. t\<lparr>tbl_row_count := Some (unat parsed)\<rparr>))) s }"

definition parse_hash_length :: parse_arg where
  "parse_hash_length s =
     do { arg \<leftarrow> the_arg s;
          case parse_uint arg of
            None \<Rightarrow> refuse Hash_Length_Invalid s
          | Some (parsed, _) \<Rightarrow>
              if parsed = 0 then refuse Hash_Length_Zero s
              else if HASH_LENGTH_MAX < unat parsed then refuse Hash_Length_Large s
              else accept (set_col (\<lambda>c. c\<lparr>col_type_q := Q_Hash (unat parsed)\<rparr>)) s }"

definition parse_grp_count :: parse_arg where
  "parse_grp_count s =
     do { arg \<leftarrow> the_arg s;
          rows \<leftarrow> row_count s;
          case parse_uint arg of
            None \<Rightarrow> refuse Grp_Count_Invalid s
          | Some (parsed, _) \<Rightarrow>
              if parsed = 0 then refuse Grp_Count_Zero s
              else if rows < unat parsed then refuse Grp_Count_Large s
              else accept (set_col (\<lambda>c. c\<lparr>col_grp_count := Some (unat parsed)\<rparr>)) s }"

section \<open>Types\<close>

text \<open>The text is put into the buffer of the label, whose old contents do not matter.\<close>

definition label_buffer :: bytes where
  "label_buffer = replicate CHAR_BUFFER_WIDTH_MAX NUL"

definition close_label :: "bytes \<Rightarrow> nat \<Rightarrow> put_label option" where
  "close_label b ptr = do { b \<leftarrow> SET_STRING_WIDTH b ptr '')'' 2; Some \<lparr>pl_buffer = b, pl_width = ptr + 1\<rparr> }"

definition type_set_char :: "nat \<Rightarrow> put_label option" where
  "type_set_char n =
     do { (b, ptr) \<leftarrow> PUT_STRING_WIDTH ''CHAR('' 5 label_buffer 0;
          (b, ptr) \<leftarrow> put_uint (of_nat n) b ptr;
          close_label b ptr }"

definition type_set_char_parsed_length :: "string \<Rightarrow> put_label option" where
  "type_set_char_parsed_length arg =
     do { (b, ptr) \<leftarrow> PUT_STRING_WIDTH ''CHAR('' 5 label_buffer 0;
          (b, ptr) \<leftarrow> put_string (dropWhile (\<lambda>c. c = CHR ''0'') arg) b ptr;
          close_label b ptr }"

definition type_set_varchar :: "nat \<Rightarrow> put_label option" where
  "type_set_varchar n =
     do { (b, ptr) \<leftarrow> PUT_STRING_WIDTH ''VARCHAR('' 8 label_buffer 0;
          (b, ptr) \<leftarrow> put_uint (of_nat n) b ptr;
          close_label b ptr }"

definition type_set_timestamp :: put_label where
  "type_set_timestamp = \<lparr>pl_buffer = ''TIMESTAMP'' @ [NUL], pl_width = 9\<rparr>"

definition type_set_datetime :: put_label where
  "type_set_datetime = \<lparr>pl_buffer = ''DATETIME'' @ [NUL], pl_width = 8\<rparr>"

definition UUID_TYPE :: put_label where
  "UUID_TYPE = \<lparr>pl_buffer = ''CHAR(36)'' @ [NUL], pl_width = 8\<rparr>"

definition NAMES_FIRST_TYPE :: put_label where
  "NAMES_FIRST_TYPE = \<lparr>pl_buffer = ''VARCHAR(11)'' @ [NUL], pl_width = 11\<rparr>"

definition NAMES_LAST_TYPE :: put_label where
  "NAMES_LAST_TYPE = \<lparr>pl_buffer = ''VARCHAR(10)'' @ [NUL], pl_width = 11\<rparr>"

definition NAMES_FULL_TYPE :: put_label where
  "NAMES_FULL_TYPE = \<lparr>pl_buffer = ''VARCHAR(36)'' @ [NUL], pl_width = 11\<rparr>"

end
