(* ===== verification/Parse_Set.thy ===== *)
theory Parse_Set
  imports Parse_Text
begin

text \<open>
  What the parser stores in the specification of a column, \<open>join_integer_default\<close> to
  \<open>column_datetime_default_group\<close> of \<open>src/mysql_seed_generate.h\<close>: the SQL type, the builder and what
  the builder reads, the strings of the counter the database needs, and the random generators it
  needs. A column of a join has no name and no type of its own: it adds its length to the join.
\<close>

section \<open>Shared steps\<close>

definition set_type :: "put_label \<Rightarrow> setter" where
  "set_type type = set_col (\<lambda>c. c\<lparr>col_type := Some type\<rparr>)"

definition set_build :: "builder \<Rightarrow> setter" where
  "set_build build = set_col (\<lambda>c. c\<lparr>col_build := Some build\<rparr>)"

definition set_type_q :: "type_qualifier \<Rightarrow> setter" where
  "set_type_q q = set_col (\<lambda>c. c\<lparr>col_type_q := q\<rparr>)"

text \<open>\<open>if (count > *counter_upto) *counter_upto = count;\<close>\<close>

definition raise_upto :: "nat \<Rightarrow> setter" where
  "raise_upto n s = Some (s\<lparr>ps_database := count_upto n (ps_database s)\<rparr>)"

definition or_ctor_flags :: "nat \<Rightarrow> setter" where
  "or_ctor_flags flag s =
     Some (s\<lparr>ps_database := (ps_database s)\<lparr>dc_ctor_flags := dc_ctor_flags (ps_database s) OR of_nat flag\<rparr>\<rparr>)"

definition RAND_32_UUID_CTOR_FLAG :: nat where "RAND_32_UUID_CTOR_FLAG = 5"

definition join_add :: "nat \<Rightarrow> setter" where
  "join_add n s = Some (s\<lparr>ps_join := (ps_join s)\<lparr>jn_length := jn_length (ps_join s) + n\<rparr>\<rparr>)"

definition join_varchar :: setter where
  "join_varchar s = Some (s\<lparr>ps_join := (ps_join s)\<lparr>jn_varchar := True\<rparr>\<rparr>)"

text \<open>\<open>col_spec->name.bytes = NULL\<close>\<close>

definition clear_name :: setter where
  "clear_name = set_col (\<lambda>c. c\<lparr>col_bytes := Name_NULL\<rparr>)"

text \<open>Reading the qualifier; another member of the union has no value.\<close>

definition type_q :: "parse_state \<Rightarrow> type_qualifier option" where
  "type_q s = do { c \<leftarrow> the_col s; Some (col_type_q c) }"

definition scale_from :: "parse_state \<Rightarrow> u64 option" where
  "scale_from s = do { q \<leftarrow> type_q s; case q of Q_Scale (Scale_From from) \<Rightarrow> Some from | _ \<Rightarrow> None }"

definition scale_upto :: "parse_state \<Rightarrow> u64 option" where
  "scale_upto s = do { q \<leftarrow> type_q s; case q of Q_Scale (Scale_Upto limit) \<Rightarrow> Some limit | _ \<Rightarrow> None }"

definition scale_range :: "parse_state \<Rightarrow> (u64 \<times> u64) option" where
  "scale_range s = do { q \<leftarrow> type_q s; case q of Q_Scale (Scale_Range least greatest) \<Rightarrow> Some (least, greatest) | _ \<Rightarrow> None }"

definition string_length_q :: "parse_state \<Rightarrow> nat option" where
  "string_length_q s = do { q \<leftarrow> type_q s; case q of Q_String text n \<Rightarrow> Some n | _ \<Rightarrow> None }"

definition hash_length :: "parse_state \<Rightarrow> nat option" where
  "hash_length s = do { q \<leftarrow> type_q s; case q of Q_Hash n \<Rightarrow> Some n | _ \<Rightarrow> None }"

definition stub_width :: "parse_state \<Rightarrow> nat option" where
  "stub_width s = do { q \<leftarrow> type_q s; case q of Q_Stub text width \<Rightarrow> Some width | _ \<Rightarrow> None }"

definition digits :: "nat \<Rightarrow> nat" where
  "digits n = uint_digit_count (of_nat n)"

text \<open>The generator that was chosen.\<close>

definition set_rand :: "rand_choice \<Rightarrow> builder \<Rightarrow> setter" where
  "set_rand c build s =
     do { s \<leftarrow> set_type_q (Q_Rand (rc_gen c) (rc_width_max c)) s;
          s \<leftarrow> set_build build s;
          or_ctor_flags (rc_flag c) s }"

section \<open>Columns\<close>

text \<open>A column of the numbers up to the rows or the groups.\<close>

definition column_counted :: "put_label \<Rightarrow> builder \<Rightarrow> nat \<Rightarrow> setter" where
  "column_counted type build n s =
     do { s \<leftarrow> set_type type s; s \<leftarrow> set_build build s; raise_upto n s }"

definition column_integer_default :: setter where
  "column_integer_default s =
     do { n \<leftarrow> row_count s;
          column_counted (type_assign_integer_upto (of_nat n)) (build_column_integer Unique False) n s }"

definition column_integer_default_group :: setter where
  "column_integer_default_group s =
     do { n \<leftarrow> grp_count s;
          column_counted (type_assign_integer_upto (of_nat n)) (build_column_integer Unique True) n s }"

definition column_integer_unique :: setter where
  "column_integer_unique s =
     do { n \<leftarrow> row_count s;
          column_counted (type_assign_integer_upto (of_nat n)) (build_column_integer Unique False) n s }"

definition column_integer_unique_group :: setter where
  "column_integer_unique_group s =
     do { n \<leftarrow> grp_count s;
          column_counted (type_assign_integer_upto (of_nat n)) (build_column_integer Unique True) n s }"

definition column_integer_fixed :: setter where
  "column_integer_fixed = set_build (build_column_integer Fixed False)"

definition column_u_integer_default :: setter where
  "column_u_integer_default s =
     do { n \<leftarrow> row_count s;
          column_counted (type_assign_u_integer_upto (of_nat n)) (build_column_u_integer Unique False) n s }"

text \<open>The builder of the signed numbers.\<close>

definition column_u_integer_default_group :: setter where
  "column_u_integer_default_group s =
     do { n \<leftarrow> grp_count s;
          column_counted (type_assign_u_integer_upto (of_nat n)) (build_column_integer Unique True) n s }"

definition column_u_integer_unique :: setter where
  "column_u_integer_unique s =
     do { n \<leftarrow> row_count s;
          column_counted (type_assign_u_integer_upto (of_nat n)) (build_column_u_integer Unique False) n s }"

definition column_u_integer_unique_group :: setter where
  "column_u_integer_unique_group s =
     do { n \<leftarrow> grp_count s;
          column_counted (type_assign_u_integer_upto (of_nat n)) (build_column_u_integer Unique True) n s }"

definition column_u_integer_fixed :: setter where
  "column_u_integer_fixed = set_build (build_column_u_integer Fixed False)"

text \<open>A random column: the choice is \<open>column_integer_random_from\<close> and so on of the theory \<open>Random_Spec\<close>.\<close>

definition column_random :: "(rand_choice \<times> rand_build) option \<Rightarrow> (rand_build \<Rightarrow> builder) \<Rightarrow> setter" where
  "column_random r build s =
     do { (c, b) \<leftarrow> r; s \<leftarrow> set_type (rc_type c) s; set_rand c (build b) s }"

definition column_integer_random_default_spec :: setter where
  "column_integer_random_default_spec =
     column_random column_integer_random_default (\<lambda>b. build_column_integer (Random b) False)"

definition column_integer_random_from_spec :: setter where
  "column_integer_random_from_spec s =
     do { from \<leftarrow> scale_from s; column_random (column_integer_random_from from) (\<lambda>b. build_column_integer (Random b) False) s }"

definition column_integer_random_upto_spec :: setter where
  "column_integer_random_upto_spec s =
     do { limit \<leftarrow> scale_upto s; column_random (column_integer_random_upto limit) (\<lambda>b. build_column_integer (Random b) False) s }"

definition column_integer_random_range_spec :: setter where
  "column_integer_random_range_spec s =
     do { (least, greatest) \<leftarrow> scale_range s;
          column_random (column_integer_random_range least greatest) (\<lambda>b. build_column_integer (Random b) False) s }"

definition column_integer_random_default_group_spec :: setter where
  "column_integer_random_default_group_spec =
     column_random column_integer_random_default (\<lambda>b. build_column_integer (Random b) True)"

definition column_integer_random_from_group_spec :: setter where
  "column_integer_random_from_group_spec s =
     do { from \<leftarrow> scale_from s; column_random (column_integer_random_from_group from) (\<lambda>b. build_column_integer (Random b) True) s }"

definition column_integer_random_upto_group_spec :: setter where
  "column_integer_random_upto_group_spec s =
     do { limit \<leftarrow> scale_upto s; column_random (column_integer_random_upto limit) (\<lambda>b. build_column_integer (Random b) True) s }"

definition column_integer_random_range_group_spec :: setter where
  "column_integer_random_range_group_spec s =
     do { (least, greatest) \<leftarrow> scale_range s;
          column_random (column_integer_random_range least greatest) (\<lambda>b. build_column_integer (Random b) True) s }"

definition column_u_integer_random_default_spec :: setter where
  "column_u_integer_random_default_spec =
     column_random column_u_integer_random_default (\<lambda>b. build_column_u_integer (Random b) False)"

definition column_u_integer_random_from_spec :: setter where
  "column_u_integer_random_from_spec s =
     do { from \<leftarrow> scale_from s; column_random (column_u_integer_random_from from) (\<lambda>b. build_column_u_integer (Random b) False) s }"

definition column_u_integer_random_upto_spec :: setter where
  "column_u_integer_random_upto_spec s =
     do { limit \<leftarrow> scale_upto s; column_random (column_u_integer_random_upto limit) (\<lambda>b. build_column_u_integer (Random b) False) s }"

definition column_u_integer_random_range_spec :: setter where
  "column_u_integer_random_range_spec s =
     do { (least, greatest) \<leftarrow> scale_range s;
          column_random (column_u_integer_random_range least greatest) (\<lambda>b. build_column_u_integer (Random b) False) s }"

definition column_u_integer_random_default_group_spec :: setter where
  "column_u_integer_random_default_group_spec =
     column_random column_u_integer_random_default (\<lambda>b. build_column_u_integer (Random b) True)"

definition column_u_integer_random_from_group_spec :: setter where
  "column_u_integer_random_from_group_spec s =
     do { from \<leftarrow> scale_from s; column_random (column_u_integer_random_from from) (\<lambda>b. build_column_u_integer (Random b) True) s }"

text \<open>The full 32 bits with the width of a signed number.\<close>

definition widened :: "rand_choice \<times> rand_build \<Rightarrow> rand_choice \<times> rand_build" where
  "widened = (\<lambda>(c, b).
     (if b = Build_Random \<and> rc_width_max c = 11 then c\<lparr>rc_width_max := 12\<rparr> else c, b))"

definition column_u_integer_random_upto_group_spec :: setter where
  "column_u_integer_random_upto_group_spec s =
     do { limit \<leftarrow> scale_upto s;
          column_random (map_option widened (column_u_integer_random_upto limit)) (\<lambda>b. build_column_u_integer (Random b) True) s }"

definition column_u_integer_random_range_group_spec :: setter where
  "column_u_integer_random_range_group_spec s =
     do { (least, greatest) \<leftarrow> scale_range s;
          column_random (column_u_integer_random_range least greatest) (\<lambda>b. build_column_u_integer (Random b) True) s }"

definition column_string_unique :: setter where
  "column_string_unique s =
     do { n \<leftarrow> row_count s;
          len \<leftarrow> string_length_q s;
          type \<leftarrow> type_set_varchar (len + digits n);
          column_counted type (build_column_string Str_Unique False) n s }"

definition column_string_unique_group :: setter where
  "column_string_unique_group s =
     do { n \<leftarrow> grp_count s;
          len \<leftarrow> string_length_q s;
          type \<leftarrow> type_set_varchar (len + digits n);
          column_counted type (build_column_string Str_Unique True) n s }"

text \<open>The name of the column as base string.\<close>

definition base_of_name :: setter where
  "base_of_name s =
     do { c \<leftarrow> the_col s;
          len \<leftarrow> col_length c;
          case col_bytes c of Name bytes \<Rightarrow> set_type_q (Q_String bytes len) s | _ \<Rightarrow> None }"

definition column_string_default :: setter where
  "column_string_default s =
     do { s \<leftarrow> base_of_name s;
          n \<leftarrow> row_count s;
          len \<leftarrow> string_length_q s;
          type \<leftarrow> type_set_varchar (len + digits n);
          column_counted type (build_column_string Str_Unique False) n s }"

definition column_string_default_group :: setter where
  "column_string_default_group s =
     do { s \<leftarrow> base_of_name s;
          n \<leftarrow> grp_count s;
          len \<leftarrow> string_length_q s;
          type \<leftarrow> type_set_varchar (len + digits n);
          column_counted type (build_column_string Str_Unique True) n s }"

definition column_string_fixed :: setter where
  "column_string_fixed s =
     do { len \<leftarrow> string_length_q s;
          type \<leftarrow> type_set_char len;
          s \<leftarrow> set_type type s;
          set_build (build_column_string Str_Fixed False) s }"

definition column_flagged :: "put_label \<Rightarrow> builder \<Rightarrow> nat \<Rightarrow> setter" where
  "column_flagged type build flag s =
     do { s \<leftarrow> set_type type s; s \<leftarrow> set_build build s; or_ctor_flags flag s }"

definition column_string_uuid :: setter where
  "column_string_uuid = column_flagged UUID_TYPE (build_column_string Str_Uuid False) RAND_32_UUID_CTOR_FLAG"

definition column_string_uuid_group :: setter where
  "column_string_uuid_group = column_flagged UUID_TYPE (build_column_string Str_Uuid True) RAND_32_UUID_CTOR_FLAG"

definition column_string_names_first :: setter where
  "column_string_names_first = column_flagged NAMES_FIRST_TYPE (build_column_string Names_First False) RAND_32_CTOR_FLAG"

definition column_string_names_first_group :: setter where
  "column_string_names_first_group = column_flagged NAMES_FIRST_TYPE (build_column_string Names_First True) RAND_32_CTOR_FLAG"

definition column_string_names_last :: setter where
  "column_string_names_last = column_flagged NAMES_LAST_TYPE (build_column_string Names_Last False) RAND_32_CTOR_FLAG"

definition column_string_names_last_group :: setter where
  "column_string_names_last_group = column_flagged NAMES_LAST_TYPE (build_column_string Names_Last True) RAND_32_CTOR_FLAG"

definition column_string_names_full :: setter where
  "column_string_names_full = column_flagged NAMES_FULL_TYPE (build_column_string Names_Full False) RAND_32_CTOR_FLAG"

definition column_string_names_full_group :: setter where
  "column_string_names_full_group = column_flagged NAMES_FULL_TYPE (build_column_string Names_Full True) RAND_32_CTOR_FLAG"

definition column_string_hash :: setter where
  "column_string_hash s =
     do { arg \<leftarrow> ps_cache s;
          type \<leftarrow> type_set_char_parsed_length arg;
          s \<leftarrow> set_type type s;
          set_build (build_column_string Str_Hash False) s }"

definition column_string_hash_group :: setter where
  "column_string_hash_group s =
     do { arg \<leftarrow> ps_cache s;
          type \<leftarrow> type_set_char_parsed_length arg;
          s \<leftarrow> set_type type s;
          set_build (build_column_string Str_Hash True) s }"

definition column_typed :: "put_label \<Rightarrow> builder \<Rightarrow> setter" where
  "column_typed type build s = do { s \<leftarrow> set_type type s; set_build build s }"

definition column_timestamp_unique :: setter where
  "column_timestamp_unique = column_typed type_set_timestamp (build_column_timestamp Time_Unique False)"

definition column_timestamp_unique_group :: setter where
  "column_timestamp_unique_group = column_typed type_set_timestamp (build_column_timestamp Time_Unique True)"

definition column_timestamp_default :: setter where
  "column_timestamp_default = column_typed type_set_timestamp (build_column_timestamp Time_Unique False)"

definition column_timestamp_default_group :: setter where
  "column_timestamp_default_group = column_typed type_set_timestamp (build_column_timestamp Time_Unique True)"

definition column_timestamp_fixed :: setter where
  "column_timestamp_fixed = column_typed type_set_timestamp (build_column_timestamp Time_Fixed False)"

definition column_datetime_unique :: setter where
  "column_datetime_unique = column_typed type_set_datetime (build_column_datetime Time_Unique False)"

definition column_datetime_unique_group :: setter where
  "column_datetime_unique_group = column_typed type_set_datetime (build_column_datetime Time_Unique True)"

definition column_datetime_default :: setter where
  "column_datetime_default = column_typed type_set_datetime (build_column_datetime Time_Unique False)"

definition column_datetime_default_group :: setter where
  "column_datetime_default_group = column_typed type_set_datetime (build_column_datetime Time_Unique True)"

definition column_datetime_fixed :: setter where
  "column_datetime_fixed = column_typed type_set_datetime (build_column_datetime Time_Fixed False)"

section \<open>Joins\<close>

definition join_counted :: "nat \<Rightarrow> builder \<Rightarrow> nat \<Rightarrow> setter" where
  "join_counted len build n s =
     do { s \<leftarrow> clear_name s; s \<leftarrow> set_build build s; s \<leftarrow> join_add (len + digits n) s; s \<leftarrow> join_varchar s; raise_upto n s }"

definition join_integer_default :: setter where
  "join_integer_default s =
     do { n \<leftarrow> row_count s; join_counted 0 (build_column_integer Unique False) n s }"

definition join_integer_default_group :: setter where
  "join_integer_default_group s =
     do { n \<leftarrow> grp_count s; join_counted 0 (build_column_integer Unique True) n s }"

definition join_integer_unique :: setter where
  "join_integer_unique s =
     do { n \<leftarrow> row_count s; join_counted 0 (build_column_integer Unique False) n s }"

definition join_integer_unique_group :: setter where
  "join_integer_unique_group s =
     do { n \<leftarrow> grp_count s; join_counted 0 (build_column_integer Unique True) n s }"

text \<open>The width of a fixed number counts its terminator.\<close>

definition join_integer_fixed :: setter where
  "join_integer_fixed s =
     do { s \<leftarrow> clear_name s; width \<leftarrow> stub_width s; s \<leftarrow> join_add width s; set_build (build_column_integer Fixed False) s }"

definition join_u_integer_default :: setter where
  "join_u_integer_default s =
     do { n \<leftarrow> row_count s; join_counted 0 (build_column_u_integer Unique False) n s }"

definition join_u_integer_default_group :: setter where
  "join_u_integer_default_group s =
     do { n \<leftarrow> grp_count s; join_counted 0 (build_column_u_integer Unique True) n s }"

definition join_u_integer_unique :: setter where
  "join_u_integer_unique s =
     do { n \<leftarrow> row_count s; join_counted 0 (build_column_u_integer Unique False) n s }"

definition join_u_integer_unique_group :: setter where
  "join_u_integer_unique_group s =
     do { n \<leftarrow> grp_count s; join_counted 0 (build_column_u_integer Unique True) n s }"

definition join_u_integer_fixed :: setter where
  "join_u_integer_fixed s =
     do { s \<leftarrow> clear_name s; width \<leftarrow> stub_width s; s \<leftarrow> join_add width s; set_build (build_column_u_integer Fixed False) s }"

definition join_random :: "(rand_choice \<times> rand_build) option \<Rightarrow> (rand_build \<Rightarrow> builder) \<Rightarrow> setter" where
  "join_random r build s =
     do { (c, b) \<leftarrow> r;
          s \<leftarrow> clear_name s;
          s \<leftarrow> join_varchar s;
          s \<leftarrow> join_add (rc_join_length c) s;
          set_rand c (build b) s }"

definition join_integer_random_default :: setter where
  "join_integer_random_default =
     join_random column_integer_random_default (\<lambda>b. build_column_integer (Random b) False)"

definition join_integer_random_from :: setter where
  "join_integer_random_from s =
     do { from \<leftarrow> scale_from s;
          s \<leftarrow> (if sint from = - 9223372036854775808 then set_type type_set_bigint s else Some s);
          join_random (column_integer_random_from from) (\<lambda>b. build_column_integer (Random b) False) s }"

definition join_integer_random_upto :: setter where
  "join_integer_random_upto s =
     do { limit \<leftarrow> scale_upto s; join_random (column_integer_random_upto limit) (\<lambda>b. build_column_integer (Random b) False) s }"

definition join_integer_random_range :: setter where
  "join_integer_random_range s =
     do { (least, greatest) \<leftarrow> scale_range s;
          join_random (column_integer_random_range least greatest) (\<lambda>b. build_column_integer (Random b) False) s }"

definition join_integer_random_default_group :: setter where
  "join_integer_random_default_group =
     join_random column_integer_random_default (\<lambda>b. build_column_integer (Random b) True)"

definition join_integer_random_from_group :: setter where
  "join_integer_random_from_group s =
     do { from \<leftarrow> scale_from s;
          s \<leftarrow> (if sint from = - 9223372036854775808 then set_type type_set_bigint s else Some s);
          join_random (column_integer_random_from from) (\<lambda>b. build_column_integer (Random b) True) s }"

definition join_integer_random_upto_group :: setter where
  "join_integer_random_upto_group s =
     do { limit \<leftarrow> scale_upto s; join_random (column_integer_random_upto limit) (\<lambda>b. build_column_integer (Random b) True) s }"

definition join_integer_random_range_group :: setter where
  "join_integer_random_range_group s =
     do { (least, greatest) \<leftarrow> scale_range s;
          join_random (column_integer_random_range least greatest) (\<lambda>b. build_column_integer (Random b) True) s }"

definition join_u_integer_random_default :: setter where
  "join_u_integer_random_default =
     join_random column_u_integer_random_default (\<lambda>b. build_column_u_integer (Random b) False)"

definition join_u_integer_random_from :: setter where
  "join_u_integer_random_from s =
     do { from \<leftarrow> scale_from s; join_random (column_u_integer_random_from from) (\<lambda>b. build_column_u_integer (Random b) False) s }"

definition join_u_integer_random_upto :: setter where
  "join_u_integer_random_upto s =
     do { limit \<leftarrow> scale_upto s; join_random (column_u_integer_random_upto limit) (\<lambda>b. build_column_u_integer (Random b) False) s }"

definition join_u_integer_random_range :: setter where
  "join_u_integer_random_range s =
     do { (least, greatest) \<leftarrow> scale_range s;
          join_random (column_u_integer_random_range least greatest) (\<lambda>b. build_column_u_integer (Random b) False) s }"

definition join_u_integer_random_default_group :: setter where
  "join_u_integer_random_default_group =
     join_random column_u_integer_random_default (\<lambda>b. build_column_u_integer (Random b) True)"

definition join_u_integer_random_from_group :: setter where
  "join_u_integer_random_from_group s =
     do { from \<leftarrow> scale_from s; join_random (column_u_integer_random_from from) (\<lambda>b. build_column_u_integer (Random b) True) s }"

definition join_u_integer_random_upto_group :: setter where
  "join_u_integer_random_upto_group s =
     do { limit \<leftarrow> scale_upto s; join_random (column_u_integer_random_upto limit) (\<lambda>b. build_column_u_integer (Random b) True) s }"

definition join_u_integer_random_range_group :: setter where
  "join_u_integer_random_range_group s =
     do { (least, greatest) \<leftarrow> scale_range s;
          join_random (column_u_integer_random_range least greatest) (\<lambda>b. build_column_u_integer (Random b) True) s }"

definition join_string_unique :: setter where
  "join_string_unique s =
     do { n \<leftarrow> row_count s; len \<leftarrow> string_length_q s; join_counted len (build_column_string Str_Unique False) n s }"

definition join_string_unique_group :: setter where
  "join_string_unique_group s =
     do { n \<leftarrow> grp_count s; len \<leftarrow> string_length_q s; join_counted len (build_column_string Str_Unique True) n s }"

definition join_string_fixed :: setter where
  "join_string_fixed s =
     do { s \<leftarrow> clear_name s; len \<leftarrow> string_length_q s; s \<leftarrow> join_add (len - 1) s; set_build (build_column_string Str_Fixed False) s }"

definition join_string_plain :: "nat \<Rightarrow> string_build \<Rightarrow> bool \<Rightarrow> setter" where
  "join_string_plain len build grouped s =
     do { s \<leftarrow> clear_name s; s \<leftarrow> set_build (build_column_string build grouped) s; join_add len s }"

definition join_string_uuid :: setter where
  "join_string_uuid s =
     do { s \<leftarrow> join_string_plain 36 Str_Uuid False s; or_ctor_flags RAND_32_UUID_CTOR_FLAG s }"

definition join_string_uuid_group :: setter where
  "join_string_uuid_group s =
     do { s \<leftarrow> join_string_plain 36 Str_Uuid True s; or_ctor_flags RAND_32_UUID_CTOR_FLAG s }"

definition join_string_hash :: setter where
  "join_string_hash s =
     do { n \<leftarrow> hash_length s; join_string_plain n Str_Hash False s }"

definition join_string_hash_group :: setter where
  "join_string_hash_group s =
     do { n \<leftarrow> hash_length s; join_string_plain n Str_Hash True s }"

definition join_string_names_first :: setter where
  "join_string_names_first s =
     do { s \<leftarrow> join_string_plain 11 Names_First False s; s \<leftarrow> join_varchar s; or_ctor_flags RAND_32_CTOR_FLAG s }"

definition join_string_names_first_group :: setter where
  "join_string_names_first_group s =
     do { s \<leftarrow> join_string_plain 11 Names_First True s; s \<leftarrow> join_varchar s; or_ctor_flags RAND_32_CTOR_FLAG s }"

definition join_string_names_last :: setter where
  "join_string_names_last s =
     do { s \<leftarrow> join_string_plain 10 Names_Last False s; s \<leftarrow> join_varchar s; or_ctor_flags RAND_32_CTOR_FLAG s }"

definition join_string_names_last_group :: setter where
  "join_string_names_last_group s =
     do { s \<leftarrow> join_string_plain 10 Names_Last True s; s \<leftarrow> join_varchar s; or_ctor_flags RAND_32_CTOR_FLAG s }"

definition join_string_names_full :: setter where
  "join_string_names_full s =
     do { s \<leftarrow> join_string_plain 36 Names_Full False s; s \<leftarrow> join_varchar s; or_ctor_flags RAND_32_CTOR_FLAG s }"

definition join_string_names_full_group :: setter where
  "join_string_names_full_group s =
     do { s \<leftarrow> join_string_plain 36 Names_Full True s; s \<leftarrow> join_varchar s; or_ctor_flags RAND_32_CTOR_FLAG s }"

text \<open>The name of the column of the join as base string.\<close>

definition base_of_join :: setter where
  "base_of_join s =
     do { base \<leftarrow> mem_col (jn_base (ps_join s)) (ps_mem s);
          len \<leftarrow> col_length base;
          case jn_base_name (ps_join s) of Name bytes \<Rightarrow> set_type_q (Q_String bytes len) s | _ \<Rightarrow> None }"

definition join_string_default :: setter where
  "join_string_default s =
     do { n \<leftarrow> row_count s;
          s \<leftarrow> base_of_join s;
          len \<leftarrow> string_length_q s;
          join_counted len (build_column_string Str_Unique False) n s }"

text \<open>The builder of the group variant is the one without groups.\<close>

definition join_string_default_group :: setter where
  "join_string_default_group s =
     do { n \<leftarrow> grp_count s;
          s \<leftarrow> base_of_join s;
          len \<leftarrow> string_length_q s;
          join_counted len (build_column_string Str_Unique False) n s }"

definition join_time :: "builder \<Rightarrow> setter" where
  "join_time build s =
     do { s \<leftarrow> clear_name s; s \<leftarrow> set_build build s; join_add 19 s }"

definition join_timestamp_unique :: setter where
  "join_timestamp_unique = join_time (build_column_timestamp Time_Unique False)"

definition join_timestamp_unique_group :: setter where
  "join_timestamp_unique_group = join_time (build_column_timestamp Time_Unique True)"

definition join_timestamp_default :: setter where
  "join_timestamp_default = join_time (build_column_timestamp Time_Unique False)"

definition join_timestamp_default_group :: setter where
  "join_timestamp_default_group = join_time (build_column_timestamp Time_Unique True)"

definition join_timestamp_fixed :: setter where
  "join_timestamp_fixed = join_time (build_column_timestamp Time_Fixed False)"

definition join_datetime_unique :: setter where
  "join_datetime_unique = join_time (build_column_datetime Time_Unique False)"

definition join_datetime_unique_group :: setter where
  "join_datetime_unique_group = join_time (build_column_datetime Time_Unique True)"

definition join_datetime_default :: setter where
  "join_datetime_default = join_time (build_column_datetime Time_Unique False)"

definition join_datetime_default_group :: setter where
  "join_datetime_default_group = join_time (build_column_datetime Time_Unique True)"

definition join_datetime_fixed :: setter where
  "join_datetime_fixed = join_time (build_column_datetime Time_Fixed False)"

end
