(* ===== verification/Parse_Nodes.thy ===== *)
theory Parse_Nodes
  imports Parse_Set
begin

text \<open>
  The functions of the parser, \<open>parse_table_complete\<close> to \<open>parse_first_db_spec\<close> of
  \<open>src/mysql_seed_generate.h\<close>. What most of them share is \<open>parse_after\<close>: look at the argument behind
  a part of a column, finish the column at the end of the arguments and before the next one, table or
  database, go on with the case of a flag, or report an error. The functions of a join go through
  \<open>parse_join_after\<close>, which also knows the next part of the join. Both take the function that fills in
  the column, \<open>set_col_spec\<close> or \<open>set_join\<close>.
\<close>

section \<open>Completion\<close>

definition parse_table_complete :: setter where
  "parse_table_complete s = set_tbl (\<lambda>t. t\<lparr>tbl_until := Some (ps_col s + sizeof_ColSpec)\<rparr>) s"

definition parse_valid_complete :: setter where
  "parse_valid_complete s =
     do { s \<leftarrow> parse_table_complete s;
          s \<leftarrow> set_tbl (\<lambda>t. t\<lparr>tbl_next := Some None\<rparr>) s;
          s \<leftarrow> set_last (Some (ps_db s)) s;
          Some (s\<lparr>ps_last := Some (ps_db s), ps_generator := generator_counter_update (ps_generator s) (ps_database s)\<rparr>) }"

definition parse_database_complete :: setter where
  "parse_database_complete s =
     do { s \<leftarrow> parse_valid_complete s;
          t \<leftarrow> the_tbl s;
          until \<leftarrow> tbl_until t;
          Some (s\<lparr>ps_db := until\<rparr>) }"

definition generate_parse_complete :: setter where
  "generate_parse_complete s = do { s \<leftarrow> parse_valid_complete s; set_last None s }"

section \<open>After a part of a column\<close>

type_synonym flag = "string \<times> string"

abbreviation GROUP :: flag where "GROUP \<equiv> (''g'', ''group'')"
abbreviation COLUMN :: flag where "COLUMN \<equiv> (''c'', ''column'')"
abbreviation TABLE :: flag where "TABLE \<equiv> (''t'', ''table'')"
abbreviation DATABASE :: flag where "DATABASE \<equiv> (''d'', ''database'')"
abbreviation EVEN :: flag where "EVEN \<equiv> (''e'', ''even'')"
abbreviation LINEAR :: flag where "LINEAR \<equiv> (''l'', ''linear'')"
abbreviation FIXED :: flag where "FIXED \<equiv> (''f'', ''fixed'')"
abbreviation UNIQUE :: flag where "UNIQUE \<equiv> (''u'', ''unique'')"
abbreviation RANDOM :: flag where "RANDOM \<equiv> (''r'', ''random'')"
abbreviation FROM :: flag where "FROM \<equiv> (''f'', ''from'')"
abbreviation UPTO :: flag where "UPTO \<equiv> (''u'', ''upto'')"
abbreviation RANGE :: flag where "RANGE \<equiv> (''r'', ''range'')"
abbreviation UUID :: flag where "UUID \<equiv> (''uu'', ''uuid'')"
abbreviation HASH :: flag where "HASH \<equiv> (''h'', ''hash'')"
abbreviation NAMES_FIRST :: flag where "NAMES_FIRST \<equiv> (''n1'', ''names-first'')"
abbreviation NAMES_LAST :: flag where "NAMES_LAST \<equiv> (''nl'', ''names-last'')"
abbreviation NAMES_FULL :: flag where "NAMES_FULL \<equiv> (''nf'', ''names-full'')"
abbreviation JOIN :: flag where "JOIN \<equiv> (''j'', ''join'')"
abbreviation INTEGER :: flag where "INTEGER \<equiv> (''i'', ''integer'')"
abbreviation U_INTEGER :: flag where "U_INTEGER \<equiv> (''u'', ''unsigned-integer'')"
abbreviation STRING :: flag where "STRING \<equiv> (''s'', ''string'')"
abbreviation TIMESTAMP :: flag where "TIMESTAMP \<equiv> (''ts'', ''timestamp'')"
abbreviation DATETIME :: flag where "DATETIME \<equiv> (''dt'', ''datetime'')"

fun flag_cases :: "(flag \<times> parse_node) list \<Rightarrow> parse_node \<Rightarrow> string \<Rightarrow> parse_node" where
  "flag_cases [] d arg = d"
| "flag_cases ((flag, p) # cases) d arg = (if is_flag flag arg then p else flag_cases cases d arg)"

text \<open>The labels \<open>NEXT_COL_SPEC\<close>, \<open>NEXT_TBL_SPEC\<close> and \<open>NEXT_DB_SPEC\<close>, and the default.\<close>

definition next_spec :: "setter \<Rightarrow> parse_error \<Rightarrow> string \<Rightarrow> parse_node" where
  "next_spec set_col_spec e =
     flag_cases
       [(COLUMN, \<lambda>s. do { s \<leftarrow> set_col_spec s; call Next_Col s }),
        (TABLE, \<lambda>s. do { s \<leftarrow> set_col_spec s; s \<leftarrow> parse_table_complete s; call Next_Tbl s }),
        (DATABASE, \<lambda>s. do { s \<leftarrow> set_col_spec s; s \<leftarrow> parse_database_complete s; call Next_Db s })]
       (recover e)"

definition parse_after :: "setter \<Rightarrow> parse_error \<Rightarrow> (flag \<times> parse_node) list \<Rightarrow> parse_node" where
  "parse_after set_col_spec e cases s =
     (let s = next_arg s
      in if at_end s then do { s \<leftarrow> set_col_spec s; s \<leftarrow> generate_parse_complete s; stop s }
         else do { arg \<leftarrow> the_arg s;
                   if deref arg \<noteq> CHR ''-'' then recover e s
                   else flag_cases cases (next_spec set_col_spec e arg) arg s })"

text \<open>A function that reads one more argument.\<close>

definition with_arg :: "parse_error \<Rightarrow> (string \<Rightarrow> parse_node) \<Rightarrow> parse_node" where
  "with_arg e p s =
     (let s = next_arg s in if at_end s then give_up e s else do { arg \<leftarrow> the_arg s; p arg s })"

definition if_parsed :: "parse_arg \<Rightarrow> parse_node \<Rightarrow> parse_node" where
  "if_parsed f p s = do { (ok, s) \<leftarrow> f s; if ok then p s else generate_parse_error s }"

definition parse_column_complete :: "setter \<Rightarrow> parse_node \<Rightarrow> parse_node" where
  "parse_column_complete set_col_spec handle_grp_spec =
     parse_after set_col_spec Expected_Col_Spec_Close [(GROUP, handle_grp_spec)]"

definition error_multiple_grp_specs :: parse_node where
  "error_multiple_grp_specs s = generate_parse_error (next_arg (report Multiple_Grp_Specs s))"

definition set_partition :: "group_partitioner \<Rightarrow> setter" where
  "set_partition p = set_col (\<lambda>c. c\<lparr>col_partition := Some p\<rparr>)"

definition and_then :: "setter \<Rightarrow> setter \<Rightarrow> setter" where
  "and_then f g s = do { s \<leftarrow> f s; g s }"

definition before_node :: "setter \<Rightarrow> parse_node \<Rightarrow> parse_node" where
  "before_node f p s = do { s \<leftarrow> f s; p s }"

definition parse_grp_spec :: "setter \<Rightarrow> parse_node" where
  "parse_grp_spec set_col_spec =
     with_arg No_Grp_Count (\<lambda>arg. if_parsed parse_grp_count
       (parse_after (and_then (set_partition Partition_Groups_Even) set_col_spec) Expected_Grp_Spec_Close
          [(EVEN, before_node (set_partition Partition_Groups_Even)
              (parse_column_complete set_col_spec error_multiple_grp_specs)),
           (LINEAR, before_node (set_partition Partition_Groups_Linear)
              (parse_column_complete set_col_spec error_multiple_grp_specs)),
           (GROUP, error_multiple_grp_specs)]))"

section \<open>After a part of a join\<close>

definition join_spec_state_init :: setter where
  "join_spec_state_init s =
     do { c \<leftarrow> the_col s;
          Some (s\<lparr>ps_join := \<lparr>jn_length = 0, jn_varchar = False, jn_base = ps_col s, jn_base_name = col_bytes c\<rparr>\<rparr>) }"

definition CHAR_LENGTH_MAX :: nat where "CHAR_LENGTH_MAX = 255"

definition join_spec_state_close :: setter where
  "join_spec_state_close s =
     (let join = ps_join s
      in do { type \<leftarrow> (if CHAR_LENGTH_MAX < jn_length join \<or> jn_varchar join then type_set_varchar (jn_length join)
                         else type_set_char (jn_length join));
              with_mem (mem_set_col (jn_base join) (\<lambda>c. c\<lparr>col_type := Some type, col_bytes := jn_base_name join\<rparr>)) s })"

definition parse_join_after :: "setter \<Rightarrow> parse_error \<Rightarrow> parse_error \<Rightarrow> (flag \<times> parse_node) list \<Rightarrow> parse_node" where
  "parse_join_after set_join no_flag e cases s =
     (let s = next_arg s; set_last_join = and_then set_join join_spec_state_close
      in if at_end s then do { s \<leftarrow> set_last_join s; s \<leftarrow> generate_parse_complete s; stop s }
         else do { arg \<leftarrow> the_arg s;
                   if deref arg = CHR ''-'' then flag_cases cases (next_spec set_last_join e arg) arg s
                   else if strings_equal arg ''+'' then do { s \<leftarrow> set_join s; call Next_Join s }
                   else recover no_flag s })"

definition parse_join_complete :: "setter \<Rightarrow> parse_node \<Rightarrow> parse_node" where
  "parse_join_complete set_join handle_grp_spec =
     parse_join_after set_join Expected_Join_Close Expected_Join_Close [(GROUP, handle_grp_spec)]"

definition parse_join_grp_spec :: "setter \<Rightarrow> parse_node" where
  "parse_join_grp_spec set_join =
     with_arg No_Grp_Count (\<lambda>arg. if_parsed parse_grp_count
       (parse_join_after (and_then (set_partition Partition_Groups_Even) set_join)
          Expected_Join_Grp_Spec_Close Expected_Join_Grp_Spec_Close
          [(EVEN, before_node (set_partition Partition_Groups_Even)
              (parse_join_complete set_join error_multiple_grp_specs)),
           (LINEAR, before_node (set_partition Partition_Groups_Linear)
              (parse_join_complete set_join error_multiple_grp_specs)),
           (GROUP, error_multiple_grp_specs)]))"

definition error_grp_spec_for_fixed_data :: parse_node where
  "error_grp_spec_for_fixed_data = recover Grp_Spec_For_Fixed_Data"

section \<open>Numbers\<close>

text \<open>
  The text of a fixed number without its leading zeros: the zeros before it are skipped, the sign is
  put back in the place of the last of them, \<open>*from = '-'\<close>, and the width counts the terminator.
\<close>

definition leading_zeros :: "string \<Rightarrow> nat" where
  "leading_zeros arg = length (takeWhile (\<lambda>c. c = CHR ''0'') arg)"

definition stub_from :: "string \<Rightarrow> string \<Rightarrow> nat \<Rightarrow> type_qualifier" where
  "stub_from arg until from = Q_Stub (drop from arg) (length arg - length until + 1 - from)"

definition set_arg :: "string \<Rightarrow> parse_state \<Rightarrow> parse_state" where
  "set_arg arg s = s\<lparr>ps_args := (ps_args s)[ps_from s := arg]\<rparr>"

definition fixed_negative :: "string \<Rightarrow> string \<Rightarrow> setter" where
  "fixed_negative arg until s =
     (let from = leading_zeros (tl arg); arg = arg[from := CHR ''-'']
      in set_type_q (stub_from arg until from) (set_arg arg s))"

definition fixed_positive :: "string \<Rightarrow> string \<Rightarrow> setter" where
  "fixed_positive arg until = set_type_q (stub_from arg until (leading_zeros arg))"

definition fixed_zero :: setter where
  "fixed_zero = set_type_q (Q_Stub ''0'' 2)"

text \<open>The tests against the limits of \<open>BIGINT\<close> are not compiled where \<open>intmax_t\<close> has 64 bits.\<close>

definition with_int :: "parse_error \<Rightarrow> parse_error \<Rightarrow> (string \<Rightarrow> u64 \<Rightarrow> string \<Rightarrow> parse_node) \<Rightarrow> parse_node" where
  "with_int none invalid p =
     with_arg none (\<lambda>arg s. do { r \<leftarrow> parse_int arg;
                                 case r of None \<Rightarrow> recover invalid s | Some (parsed, until) \<Rightarrow> p arg parsed until s })"

definition with_uint :: "parse_error \<Rightarrow> parse_error \<Rightarrow> (string \<Rightarrow> u64 \<Rightarrow> string \<Rightarrow> parse_node) \<Rightarrow> parse_node" where
  "with_uint none invalid p =
     with_arg none (\<lambda>arg s. case parse_uint arg of None \<Rightarrow> recover invalid s
                                 | Some (parsed, until) \<Rightarrow> p arg parsed until s)"

section \<open>Parts of a join\<close>

definition parse_join_integer_default_group :: parse_node where
  "parse_join_integer_default_group = parse_join_grp_spec join_integer_default_group"

definition parse_join_integer_default :: parse_node where
  "parse_join_integer_default = parse_join_complete join_integer_default parse_join_integer_default_group"

definition parse_join_integer_unique_group :: parse_node where
  "parse_join_integer_unique_group = parse_join_grp_spec join_integer_unique_group"

definition parse_join_integer_unique :: parse_node where
  "parse_join_integer_unique = parse_join_complete join_integer_unique parse_join_integer_unique_group"

definition parse_join_integer_fixed :: parse_node where
  "parse_join_integer_fixed =
     with_int No_Fixed_Integer Invalid_Fixed_Integer (\<lambda>arg parsed until s.
       do { s \<leftarrow> (if sint parsed < 0 then do { fixed_negative arg until s }
                 else if 0 < sint parsed then do { fixed_positive arg until s }
                 else do { fixed_zero s });
            parse_join_complete join_integer_fixed error_grp_spec_for_fixed_data s })"

definition parse_join_integer_random_default_group :: parse_node where
  "parse_join_integer_random_default_group = parse_join_grp_spec join_integer_random_default_group"

definition parse_join_integer_random_default :: parse_node where
  "parse_join_integer_random_default = parse_join_complete join_integer_random_default parse_join_integer_random_default_group"

definition parse_join_integer_random_from_group :: parse_node where
  "parse_join_integer_random_from_group = parse_join_grp_spec join_integer_random_from_group"

definition parse_join_integer_random_from :: parse_node where
  "parse_join_integer_random_from =
     with_int No_Random_From_Min Invalid_Min_Integer (\<lambda>arg parsed until.
       before_node (set_type_q (Q_Scale (Scale_From parsed)))
         (parse_join_complete join_integer_random_from parse_join_integer_random_from_group))"

definition parse_join_integer_random_upto_group :: parse_node where
  "parse_join_integer_random_upto_group = parse_join_grp_spec join_integer_random_upto_group"

definition parse_join_integer_random_upto :: parse_node where
  "parse_join_integer_random_upto =
     with_int No_Random_Upto_Max Invalid_Max_Integer (\<lambda>arg parsed until.
       before_node (set_type_q (Q_Scale (Scale_Upto parsed)))
         (parse_join_complete join_integer_random_upto parse_join_integer_random_upto_group))"

definition parse_join_integer_random_range_group :: parse_node where
  "parse_join_integer_random_range_group = parse_join_grp_spec join_integer_random_range_group"

definition parse_join_integer_random_range :: parse_node where
  "parse_join_integer_random_range =
     with_int No_Random_Range_Min Invalid_Min_Integer (\<lambda>arg parsed_min until.
       with_int No_Random_Range_Max Invalid_Max_Integer (\<lambda>arg parsed_max until.
         if sint parsed_max < sint parsed_min then give_up Random_Range_Max_Lt_Min
         else before_node (set_type_q (Q_Scale (Scale_Range parsed_min parsed_max)))
           (parse_join_complete join_integer_random_range parse_join_integer_random_range_group)))"

definition parse_join_u_integer_default_group :: parse_node where
  "parse_join_u_integer_default_group = parse_join_grp_spec join_u_integer_default_group"

definition parse_join_u_integer_default :: parse_node where
  "parse_join_u_integer_default = parse_join_complete join_u_integer_default parse_join_u_integer_default_group"

definition parse_join_u_integer_unique_group :: parse_node where
  "parse_join_u_integer_unique_group = parse_join_grp_spec join_u_integer_unique_group"

definition parse_join_u_integer_unique :: parse_node where
  "parse_join_u_integer_unique = parse_join_complete join_u_integer_unique parse_join_u_integer_unique_group"

definition parse_join_u_integer_fixed :: parse_node where
  "parse_join_u_integer_fixed =
     with_uint No_Fixed_U_Integer Invalid_Fixed_U_Integer (\<lambda>arg parsed until s.
       do { s \<leftarrow> (if 0 < parsed then do { fixed_positive arg until s }
                 else do { fixed_zero s });
            parse_join_complete join_u_integer_fixed error_grp_spec_for_fixed_data s })"

definition parse_join_u_integer_random_default_group :: parse_node where
  "parse_join_u_integer_random_default_group = parse_join_grp_spec join_u_integer_random_default_group"

definition parse_join_u_integer_random_default :: parse_node where
  "parse_join_u_integer_random_default = parse_join_complete join_u_integer_random_default parse_join_u_integer_random_default_group"

definition parse_join_u_integer_random_from_group :: parse_node where
  "parse_join_u_integer_random_from_group = parse_join_grp_spec join_u_integer_random_from_group"

definition parse_join_u_integer_random_from :: parse_node where
  "parse_join_u_integer_random_from =
     with_uint No_Random_From_Min Invalid_Min_U_Integer (\<lambda>arg parsed until.
       before_node (set_type_q (Q_Scale (Scale_From parsed)))
         (parse_join_complete join_u_integer_random_from parse_join_u_integer_random_from_group))"

definition parse_join_u_integer_random_upto_group :: parse_node where
  "parse_join_u_integer_random_upto_group = parse_join_grp_spec join_u_integer_random_upto_group"

definition parse_join_u_integer_random_upto :: parse_node where
  "parse_join_u_integer_random_upto =
     with_uint No_Random_Upto_Max Invalid_Max_U_Integer (\<lambda>arg parsed until.
       before_node (set_type_q (Q_Scale (Scale_Upto parsed)))
         (parse_join_complete join_u_integer_random_upto parse_join_u_integer_random_upto_group))"

definition parse_join_u_integer_random_range_group :: parse_node where
  "parse_join_u_integer_random_range_group = parse_join_grp_spec join_u_integer_random_range_group"

definition parse_join_u_integer_random_range :: parse_node where
  "parse_join_u_integer_random_range =
     with_uint No_Random_Range_Min Invalid_Min_U_Integer (\<lambda>arg parsed_min until.
       with_uint No_Random_Range_Max Invalid_Max_U_Integer (\<lambda>arg parsed_max until.
         if parsed_max < parsed_min then give_up Random_Range_Max_Lt_Min
         else before_node (set_type_q (Q_Scale (Scale_Range parsed_min parsed_max)))
           (parse_join_complete join_u_integer_random_range parse_join_u_integer_random_range_group)))"

definition parse_join_string_default_group :: parse_node where
  "parse_join_string_default_group = parse_join_grp_spec join_string_default_group"

definition parse_join_string_default :: parse_node where
  "parse_join_string_default = parse_join_complete join_string_default parse_join_string_default_group"

definition parse_join_string_unique_group :: parse_node where
  "parse_join_string_unique_group = parse_join_grp_spec join_string_unique_group"

definition parse_join_string_unique :: parse_node where
  "parse_join_string_unique =
     with_arg No_Base_String (\<lambda>arg. if_parsed parse_base_string (parse_join_complete join_string_unique parse_join_string_unique_group))"

definition parse_join_string_fixed :: parse_node where
  "parse_join_string_fixed =
     with_arg No_Fixed_String (\<lambda>arg. if_parsed parse_fixed_string (parse_join_complete join_string_fixed error_grp_spec_for_fixed_data))"

definition parse_join_string_uuid_group :: parse_node where
  "parse_join_string_uuid_group = parse_join_grp_spec join_string_uuid_group"

definition parse_join_string_uuid :: parse_node where
  "parse_join_string_uuid = parse_join_complete join_string_uuid parse_join_string_uuid_group"

definition parse_join_string_hash_group :: parse_node where
  "parse_join_string_hash_group = parse_join_grp_spec join_string_hash_group"

definition parse_join_string_hash :: parse_node where
  "parse_join_string_hash =
     with_arg No_Hash_Length (\<lambda>arg. if_parsed parse_hash_length (parse_join_complete join_string_hash parse_join_string_hash_group))"

definition parse_join_string_names_first_group :: parse_node where
  "parse_join_string_names_first_group = parse_join_grp_spec join_string_names_first_group"

definition parse_join_string_names_first :: parse_node where
  "parse_join_string_names_first = parse_join_complete join_string_names_first parse_join_string_names_first_group"

definition parse_join_string_names_last_group :: parse_node where
  "parse_join_string_names_last_group = parse_join_grp_spec join_string_names_last_group"

definition parse_join_string_names_last :: parse_node where
  "parse_join_string_names_last = parse_join_complete join_string_names_last parse_join_string_names_last_group"

definition parse_join_string_names_full_group :: parse_node where
  "parse_join_string_names_full_group = parse_join_grp_spec join_string_names_full_group"

definition parse_join_string_names_full :: parse_node where
  "parse_join_string_names_full = parse_join_complete join_string_names_full parse_join_string_names_full_group"

definition parse_join_timestamp_default_group :: parse_node where
  "parse_join_timestamp_default_group = parse_join_grp_spec join_timestamp_default_group"

definition parse_join_timestamp_default :: parse_node where
  "parse_join_timestamp_default = parse_join_complete join_timestamp_default parse_join_timestamp_default_group"

definition parse_join_timestamp_fixed :: parse_node where
  "parse_join_timestamp_fixed = parse_join_complete join_timestamp_fixed error_grp_spec_for_fixed_data"

definition parse_join_timestamp_unique_group :: parse_node where
  "parse_join_timestamp_unique_group = parse_join_grp_spec join_timestamp_unique_group"

definition parse_join_timestamp_unique :: parse_node where
  "parse_join_timestamp_unique = parse_join_complete join_timestamp_unique parse_join_timestamp_unique_group"

definition parse_join_datetime_default_group :: parse_node where
  "parse_join_datetime_default_group = parse_join_grp_spec join_datetime_default_group"

definition parse_join_datetime_default :: parse_node where
  "parse_join_datetime_default = parse_join_complete join_datetime_default parse_join_datetime_default_group"

definition parse_join_datetime_fixed :: parse_node where
  "parse_join_datetime_fixed = parse_join_complete join_datetime_fixed error_grp_spec_for_fixed_data"

definition parse_join_datetime_unique_group :: parse_node where
  "parse_join_datetime_unique_group = parse_join_grp_spec join_datetime_unique_group"

definition parse_join_datetime_unique :: parse_node where
  "parse_join_datetime_unique = parse_join_complete join_datetime_unique parse_join_datetime_unique_group"

section \<open>Qualifiers of a join\<close>

definition parse_join_integer_random :: parse_node where
  "parse_join_integer_random =
     parse_join_after join_integer_random_default Invalid_Rand_Spec Invalid_Rand_Spec
       [(GROUP, parse_join_integer_random_default_group),
        (FROM, parse_join_integer_random_from),
        (UPTO, parse_join_integer_random_upto),
        (RANGE, parse_join_integer_random_range)]"

definition parse_join_integer_qualifier :: parse_node where
  "parse_join_integer_qualifier =
     parse_join_after join_integer_default Invalid_Integer_Type_Q Invalid_Integer_Type_Q
       [(GROUP, parse_join_integer_default_group),
        (UNIQUE, parse_join_integer_unique),
        (FIXED, parse_join_integer_fixed),
        (RANDOM, parse_join_integer_random)]"

definition parse_join_u_integer_random :: parse_node where
  "parse_join_u_integer_random =
     parse_join_after join_u_integer_random_default Invalid_Rand_Spec Invalid_Rand_Spec
       [(GROUP, parse_join_u_integer_random_default_group),
        (FROM, parse_join_u_integer_random_from),
        (UPTO, parse_join_u_integer_random_upto),
        (RANGE, parse_join_u_integer_random_range)]"

definition parse_join_u_integer_qualifier :: parse_node where
  "parse_join_u_integer_qualifier =
     parse_join_after join_u_integer_default Invalid_U_Integer_Type_Q Invalid_U_Integer_Type_Q
       [(GROUP, parse_join_u_integer_default_group),
        (UNIQUE, parse_join_u_integer_unique),
        (FIXED, parse_join_u_integer_fixed),
        (RANDOM, parse_join_u_integer_random)]"

definition parse_join_string_qualifier :: parse_node where
  "parse_join_string_qualifier =
     parse_join_after join_string_default Invalid_String_Type_Q Invalid_String_Type_Q
       [(GROUP, parse_join_string_default_group),
        (UNIQUE, parse_join_string_unique),
        (UUID, parse_join_string_uuid),
        (FIXED, parse_join_string_fixed),
        (HASH, parse_join_string_hash),
        (NAMES_FIRST, parse_join_string_names_first),
        (NAMES_LAST, parse_join_string_names_last),
        (NAMES_FULL, parse_join_string_names_full)]"

definition parse_join_timestamp_qualifier :: parse_node where
  "parse_join_timestamp_qualifier =
     parse_join_after join_timestamp_default Invalid_Integer_Type_Q Invalid_Timestamp_Type_Q
       [(GROUP, parse_join_timestamp_default_group),
        (FIXED, parse_join_timestamp_fixed),
        (UNIQUE, parse_join_timestamp_unique)]"

definition parse_join_datetime_qualifier :: parse_node where
  "parse_join_datetime_qualifier =
     parse_join_after join_datetime_default Invalid_Integer_Type_Q Invalid_Datetime_Type_Q
       [(GROUP, parse_join_datetime_default_group),
        (FIXED, parse_join_datetime_fixed),
        (UNIQUE, parse_join_datetime_unique)]"

text \<open>A part that is no flag is a fixed string.\<close>

definition parse_join :: parse_node where
  "parse_join s =
     do { arg \<leftarrow> the_arg s;
          if deref arg \<noteq> CHR ''-'' then
            if_parsed parse_fixed_string (parse_join_complete join_string_fixed error_grp_spec_for_fixed_data) s
          else flag_cases
            [(INTEGER, parse_join_integer_qualifier), (U_INTEGER, parse_join_u_integer_qualifier), (STRING, parse_join_string_qualifier),
             (TIMESTAMP, parse_join_timestamp_qualifier), (DATETIME, parse_join_datetime_qualifier)]
            (recover Invalid_Col_Type) arg s }"

text \<open>At \<open>+\<close>; the parts fill the memory of the next column in.\<close>

definition parse_next_join :: parse_node where
  "parse_next_join s =
     (let s = next_arg s
      in if ps_from s < length (ps_args s) then
           do { let s = s\<lparr>ps_col := ps_col s + sizeof_ColSpec, ps_database := count_column (ps_database s)\<rparr>;
                s \<leftarrow> with_mem (mem_take (ps_col s) (Col new_col)) s;
                parse_join s }
         else give_up Expected_Join s)"

section \<open>Parts of a column\<close>

definition parse_integer_default_group :: parse_node where
  "parse_integer_default_group = parse_grp_spec column_integer_default_group"

definition parse_integer_default :: parse_node where
  "parse_integer_default = parse_column_complete column_integer_default parse_integer_default_group"

definition parse_integer_unique_group :: parse_node where
  "parse_integer_unique_group = parse_grp_spec column_integer_unique_group"

definition parse_integer_unique :: parse_node where
  "parse_integer_unique = parse_column_complete column_integer_unique parse_integer_unique_group"

definition parse_integer_fixed :: parse_node where
  "parse_integer_fixed =
     with_int No_Fixed_Integer Invalid_Fixed_Integer (\<lambda>arg parsed until s.
       do { s \<leftarrow> (if sint parsed < 0 then do { s \<leftarrow> set_type (type_assign_integer_min parsed) s; fixed_negative arg until s }
                 else if 0 < sint parsed then do { s \<leftarrow> set_type (type_assign_integer_max parsed) s; fixed_positive arg until s }
                 else do { s \<leftarrow> set_type (type_set_tinyint) s; fixed_zero s });
            parse_column_complete column_integer_fixed error_grp_spec_for_fixed_data s })"

definition parse_integer_random_default_group :: parse_node where
  "parse_integer_random_default_group = parse_grp_spec column_integer_random_default_group_spec"

definition parse_integer_random_default :: parse_node where
  "parse_integer_random_default = parse_column_complete column_integer_random_default_spec parse_integer_random_default_group"

definition parse_integer_random_from_group :: parse_node where
  "parse_integer_random_from_group = parse_grp_spec column_integer_random_from_group_spec"

definition parse_integer_random_from :: parse_node where
  "parse_integer_random_from =
     with_int No_Random_From_Min Invalid_Min_Integer (\<lambda>arg parsed until.
       before_node (set_type_q (Q_Scale (Scale_From parsed)))
         (parse_column_complete column_integer_random_from_spec parse_integer_random_from_group))"

definition parse_integer_random_upto_group :: parse_node where
  "parse_integer_random_upto_group = parse_grp_spec column_integer_random_upto_group_spec"

definition parse_integer_random_upto :: parse_node where
  "parse_integer_random_upto =
     with_int No_Random_Upto_Max Invalid_Max_Integer (\<lambda>arg parsed until.
       before_node (set_type_q (Q_Scale (Scale_Upto parsed)))
         (parse_column_complete column_integer_random_upto_spec parse_integer_random_upto_group))"

definition parse_integer_random_range_group :: parse_node where
  "parse_integer_random_range_group = parse_grp_spec column_integer_random_range_group_spec"

definition parse_integer_random_range :: parse_node where
  "parse_integer_random_range =
     with_int No_Random_Range_Min Invalid_Min_Integer (\<lambda>arg parsed_min until.
       with_int No_Random_Range_Max Invalid_Max_Integer (\<lambda>arg parsed_max until.
         if sint parsed_max < sint parsed_min then give_up Random_Range_Max_Lt_Min
         else before_node (set_type_q (Q_Scale (Scale_Range parsed_min parsed_max)))
           (parse_column_complete column_integer_random_range_spec parse_integer_random_range_group)))"

definition parse_u_integer_default_group :: parse_node where
  "parse_u_integer_default_group = parse_grp_spec column_u_integer_default_group"

definition parse_u_integer_default :: parse_node where
  "parse_u_integer_default = parse_column_complete column_u_integer_default parse_u_integer_default_group"

definition parse_u_integer_unique_group :: parse_node where
  "parse_u_integer_unique_group = parse_grp_spec column_u_integer_unique_group"

definition parse_u_integer_unique :: parse_node where
  "parse_u_integer_unique = parse_column_complete column_u_integer_unique parse_u_integer_unique_group"

definition parse_u_integer_fixed :: parse_node where
  "parse_u_integer_fixed =
     with_uint No_Fixed_U_Integer Invalid_Fixed_U_Integer (\<lambda>arg parsed until s.
       do { s \<leftarrow> (if 0 < parsed then do { s \<leftarrow> set_type (type_assign_u_integer_max parsed) s; fixed_positive arg until s }
                 else do { s \<leftarrow> set_type (type_set_tinyint) s; fixed_zero s });
            parse_column_complete column_u_integer_fixed error_grp_spec_for_fixed_data s })"

definition parse_u_integer_random_default_group :: parse_node where
  "parse_u_integer_random_default_group = parse_grp_spec column_u_integer_random_default_group_spec"

definition parse_u_integer_random_default :: parse_node where
  "parse_u_integer_random_default = parse_column_complete column_u_integer_random_default_spec parse_u_integer_random_default_group"

definition parse_u_integer_random_from_group :: parse_node where
  "parse_u_integer_random_from_group = parse_grp_spec column_u_integer_random_from_group_spec"

definition parse_u_integer_random_from :: parse_node where
  "parse_u_integer_random_from =
     with_uint No_Random_From_Min Invalid_Min_U_Integer (\<lambda>arg parsed until.
       before_node (set_type_q (Q_Scale (Scale_From parsed)))
         (parse_column_complete column_u_integer_random_from_spec parse_u_integer_random_from_group))"

definition parse_u_integer_random_upto_group :: parse_node where
  "parse_u_integer_random_upto_group = parse_grp_spec column_u_integer_random_upto_group_spec"

definition parse_u_integer_random_upto :: parse_node where
  "parse_u_integer_random_upto =
     with_uint No_Random_Upto_Max Invalid_Max_U_Integer (\<lambda>arg parsed until.
       before_node (set_type_q (Q_Scale (Scale_Upto parsed)))
         (parse_column_complete column_u_integer_random_upto_spec parse_u_integer_random_upto_group))"

definition parse_u_integer_random_range_group :: parse_node where
  "parse_u_integer_random_range_group = parse_grp_spec column_u_integer_random_range_group_spec"

definition parse_u_integer_random_range :: parse_node where
  "parse_u_integer_random_range =
     with_uint No_Random_Range_Min Invalid_Min_U_Integer (\<lambda>arg parsed_min until.
       with_uint No_Random_Range_Max Invalid_Max_U_Integer (\<lambda>arg parsed_max until.
         if parsed_max < parsed_min then give_up Random_Range_Max_Lt_Min
         else before_node (set_type_q (Q_Scale (Scale_Range parsed_min parsed_max)))
           (parse_column_complete column_u_integer_random_range_spec parse_u_integer_random_range_group)))"

definition parse_string_default_group :: parse_node where
  "parse_string_default_group = parse_grp_spec column_string_default_group"

definition parse_string_default :: parse_node where
  "parse_string_default = parse_column_complete column_string_default parse_string_default_group"

definition parse_string_unique_group :: parse_node where
  "parse_string_unique_group = parse_grp_spec column_string_unique_group"

definition parse_string_unique :: parse_node where
  "parse_string_unique =
     with_arg No_Base_String (\<lambda>arg. if_parsed parse_base_string (parse_column_complete column_string_unique parse_string_unique_group))"

definition parse_string_fixed :: parse_node where
  "parse_string_fixed =
     with_arg No_Fixed_String (\<lambda>arg. if_parsed parse_fixed_string (parse_column_complete column_string_fixed error_grp_spec_for_fixed_data))"

definition parse_string_uuid_group :: parse_node where
  "parse_string_uuid_group = parse_grp_spec column_string_uuid_group"

definition parse_string_uuid :: parse_node where
  "parse_string_uuid = parse_column_complete column_string_uuid parse_string_uuid_group"

definition parse_string_hash_group :: parse_node where
  "parse_string_hash_group = parse_grp_spec column_string_hash_group"

definition parse_string_hash :: parse_node where
  "parse_string_hash =
     with_arg No_Hash_Length (\<lambda>arg. if_parsed parse_hash_length (\<lambda>s.
       parse_column_complete column_string_hash parse_string_hash_group (s\<lparr>ps_cache := Some arg\<rparr>)))"

definition parse_string_names_first_group :: parse_node where
  "parse_string_names_first_group = parse_grp_spec column_string_names_first_group"

definition parse_string_names_first :: parse_node where
  "parse_string_names_first = parse_column_complete column_string_names_first parse_string_names_first_group"

definition parse_string_names_last_group :: parse_node where
  "parse_string_names_last_group = parse_grp_spec column_string_names_last_group"

definition parse_string_names_last :: parse_node where
  "parse_string_names_last = parse_column_complete column_string_names_last parse_string_names_last_group"

definition parse_string_names_full_group :: parse_node where
  "parse_string_names_full_group = parse_grp_spec column_string_names_full_group"

definition parse_string_names_full :: parse_node where
  "parse_string_names_full = parse_column_complete column_string_names_full parse_string_names_full_group"

definition parse_timestamp_default_group :: parse_node where
  "parse_timestamp_default_group = parse_grp_spec column_timestamp_default_group"

definition parse_timestamp_default :: parse_node where
  "parse_timestamp_default = parse_column_complete column_timestamp_default parse_timestamp_default_group"

definition parse_timestamp_fixed :: parse_node where
  "parse_timestamp_fixed = parse_column_complete column_timestamp_fixed error_grp_spec_for_fixed_data"

definition parse_timestamp_unique_group :: parse_node where
  "parse_timestamp_unique_group = parse_grp_spec column_timestamp_unique_group"

definition parse_timestamp_unique :: parse_node where
  "parse_timestamp_unique = parse_column_complete column_timestamp_unique parse_timestamp_unique_group"

definition parse_datetime_default_group :: parse_node where
  "parse_datetime_default_group = parse_grp_spec column_datetime_default_group"

definition parse_datetime_default :: parse_node where
  "parse_datetime_default = parse_column_complete column_datetime_default parse_datetime_default_group"

definition parse_datetime_fixed :: parse_node where
  "parse_datetime_fixed = parse_column_complete column_datetime_fixed error_grp_spec_for_fixed_data"

definition parse_datetime_unique_group :: parse_node where
  "parse_datetime_unique_group = parse_grp_spec column_datetime_unique_group"

definition parse_datetime_unique :: parse_node where
  "parse_datetime_unique = parse_column_complete column_datetime_unique parse_datetime_unique_group"

section \<open>Qualifiers of a column\<close>

text \<open>At \<open>-j\<close> or \<open>--join\<close>.\<close>

definition parse_join_spec :: parse_node where
  "parse_join_spec s =
     (let s = next_arg s
      in if ps_from s < length (ps_args s) then do { s \<leftarrow> join_spec_state_init s; parse_join s } else give_up No_Join_Spec s)"

definition parse_integer_random :: parse_node where
  "parse_integer_random =
     parse_after column_integer_random_default_spec Invalid_Rand_Spec
       [(GROUP, parse_integer_random_default_group),
        (FROM, parse_integer_random_from),
        (UPTO, parse_integer_random_upto),
        (RANGE, parse_integer_random_range)]"

definition parse_integer_qualifier :: parse_node where
  "parse_integer_qualifier =
     parse_after column_integer_default Invalid_Integer_Type_Q
       [(GROUP, parse_integer_default_group),
        (UNIQUE, parse_integer_unique),
        (FIXED, parse_integer_fixed),
        (RANDOM, parse_integer_random)]"

definition parse_u_integer_random :: parse_node where
  "parse_u_integer_random =
     parse_after column_u_integer_random_default_spec Invalid_Rand_Spec
       [(GROUP, parse_u_integer_random_default_group),
        (FROM, parse_u_integer_random_from),
        (UPTO, parse_u_integer_random_upto),
        (RANGE, parse_u_integer_random_range)]"

definition parse_u_integer_qualifier :: parse_node where
  "parse_u_integer_qualifier =
     parse_after column_u_integer_default Invalid_U_Integer_Type_Q
       [(GROUP, parse_u_integer_default_group),
        (UNIQUE, parse_u_integer_unique),
        (FIXED, parse_u_integer_fixed),
        (RANDOM, parse_u_integer_random)]"

definition parse_string_qualifier :: parse_node where
  "parse_string_qualifier =
     parse_after column_string_default Invalid_String_Type_Q
       [(GROUP, parse_string_default_group),
        (UNIQUE, parse_string_unique),
        (UUID, parse_string_uuid),
        (FIXED, parse_string_fixed),
        (HASH, parse_string_hash),
        (NAMES_FIRST, parse_string_names_first),
        (NAMES_LAST, parse_string_names_last),
        (NAMES_FULL, parse_string_names_full),
        (JOIN, parse_join_spec)]"

definition parse_timestamp_qualifier :: parse_node where
  "parse_timestamp_qualifier =
     parse_after column_timestamp_default Invalid_Timestamp_Type_Q
       [(GROUP, parse_timestamp_default_group),
        (FIXED, parse_timestamp_fixed),
        (UNIQUE, parse_timestamp_unique)]"

definition parse_datetime_qualifier :: parse_node where
  "parse_datetime_qualifier =
     parse_after column_datetime_default Invalid_Datetime_Type_Q
       [(GROUP, parse_datetime_default_group),
        (FIXED, parse_datetime_fixed),
        (UNIQUE, parse_datetime_unique)]"

definition parse_col_type :: parse_node where
  "parse_col_type s =
     do { arg \<leftarrow> the_arg s;
          if deref arg \<noteq> CHR ''-'' then recover Invalid_Col_Type s
          else flag_cases
            [(INTEGER, parse_integer_qualifier), (U_INTEGER, parse_u_integer_qualifier), (STRING, parse_string_qualifier),
             (TIMESTAMP, parse_timestamp_qualifier), (DATETIME, parse_datetime_qualifier)]
            (recover Invalid_Col_Type) arg s }"

section \<open>Columns, tables and databases\<close>

definition db_flag_match :: parse_arg where
  "db_flag_match s =
     do { arg \<leftarrow> the_arg s;
          if flag_match arg CHR ''d'' ''database'' then Some (True, s) else refuse (Expected_Flag Database) s }"

definition tbl_flag_match :: parse_arg where
  "tbl_flag_match s =
     do { arg \<leftarrow> the_arg s;
          if flag_match arg CHR ''t'' ''table'' then Some (True, s) else refuse (Expected_Flag Table_Name) s }"

definition col_flag_match :: parse_arg where
  "col_flag_match s =
     do { arg \<leftarrow> the_arg s;
          if flag_match arg CHR ''c'' ''column'' then Some (True, s) else refuse (Expected_Flag Column) s }"

text \<open>\<open>state->specs.tbl->col_specs.from = col_spec; state->specs.col = col_spec;\<close>\<close>

definition first_col :: "nat \<Rightarrow> setter" where
  "first_col col s =
     do { s \<leftarrow> set_tbl (\<lambda>t. t\<lparr>tbl_from := Some col\<rparr>) s; Some (s\<lparr>ps_col := col\<rparr>) }"

text \<open>The counter of the database holds the first column from the start.\<close>

definition parse_first_col_spec_safe :: parse_node where
  "parse_first_col_spec_safe s =
     (let s = next_arg s; col = ps_tbl s + sizeof_TblSpec
      in if_parsed col_flag_match (\<lambda>s.
           if_parsed (parse_col_name col) (\<lambda>s.
             do { s \<leftarrow> first_col col s; parse_col_type (next_arg s) }) (next_arg s)) s)"

definition parse_first_col_spec :: parse_node where
  "parse_first_col_spec s =
     (let col = ps_tbl s + sizeof_TblSpec
      in if_parsed col_flag_match
           (with_arg Inc_Db_Spec_Col_Name (\<lambda>arg. if_parsed (parse_col_name col)
              (with_arg No_Col_Type (\<lambda>arg s.
                 do { s \<leftarrow> first_col col s;
                      parse_col_type (s\<lparr>ps_database := count_column (ps_database s)\<rparr>) })))) s)"

definition parse_next_col_spec :: parse_node where
  "parse_next_col_spec =
     with_arg Inc_Db_Spec_Col_Name (\<lambda>arg s.
       let s = s\<lparr>ps_col := ps_col s + sizeof_ColSpec\<rparr>
       in if_parsed (parse_col_name (ps_col s))
            (with_arg No_Col_Type (\<lambda>arg s. parse_col_type (s\<lparr>ps_database := count_column (ps_database s)\<rparr>))) s)"

definition parse_first_tbl_spec :: parse_node where
  "parse_first_tbl_spec s =
     (let s = next_arg s; tbl = ps_db s + sizeof_DbSpec
      in if_parsed tbl_flag_match (\<lambda>s.
           if_parsed (parse_tbl_name tbl) (\<lambda>s.
             if_parsed (parse_row_count tbl) (\<lambda>s.
               do { s \<leftarrow> set_db (\<lambda>d. d\<lparr>db_tbl_specs := Some tbl\<rparr>) s;
                    let s = s\<lparr>ps_tbl := tbl\<rparr>;
                    n \<leftarrow> row_count s;
                    parse_first_col_spec_safe (s\<lparr>ps_database := database_counter_init n\<rparr>) })
               (next_arg s)) (next_arg s)) s)"

text \<open>\<open>state->specs.tbl->next = state->specs.tbl = state->specs.tbl->col_specs.until\<close>\<close>

definition next_tbl :: setter where
  "next_tbl s =
     do { t \<leftarrow> the_tbl s;
          until \<leftarrow> tbl_until t;
          s \<leftarrow> set_tbl (\<lambda>t. t\<lparr>tbl_next := Some (Some until)\<rparr>) s;
          Some (s\<lparr>ps_tbl := until\<rparr>) }"

definition parse_next_tbl_spec :: parse_node where
  "parse_next_tbl_spec =
     with_arg Inc_Db_Spec_Tbl_Name (\<lambda>arg. before_node next_tbl (\<lambda>s.
       if_parsed (parse_tbl_name (ps_tbl s))
         (with_arg Inc_Db_Spec_Row_Count (\<lambda>arg s. if_parsed (parse_row_count (ps_tbl s))
            (with_arg Inc_Db_Spec_Col_Flag (\<lambda>arg s.
               do { n \<leftarrow> row_count s;
                    parse_first_col_spec (s\<lparr>ps_database := count_table n (ps_database s)\<rparr>) })) s)) s))"

definition parse_first_db_spec :: parse_node where
  "parse_first_db_spec s =
     (let s = next_arg s in if_parsed (parse_db_name (ps_db s)) parse_first_tbl_spec s)"

definition parse_next_db_spec :: parse_node where
  "parse_next_db_spec s =
     (if ps_from s < ps_db_until s then
        (let s = next_arg s in if_parsed (parse_db_name (ps_db s)) parse_first_tbl_spec s)
      else
        let s = (if ps_from s < length (ps_args s) then report Short_Db_Spec s else s)
        in do { s \<leftarrow> set_last None s; stop (s\<lparr>ps_failed := True\<rparr>) })"

fun parse_call :: "node \<Rightarrow> parse_node" where
  "parse_call Next_Col = parse_next_col_spec"
| "parse_call Next_Tbl = parse_next_tbl_spec"
| "parse_call Next_Db = parse_next_db_spec"
| "parse_call Next_Join = parse_next_join"

definition parse_db_specs :: parse_node where
  "parse_db_specs s = if_parsed db_flag_match parse_first_db_spec s"

end
