(* ===== verification/Parse_Fill.thy ===== *)
theory Parse_Fill
  imports Parse_Nodes
begin

text \<open>
  What the functions of the parser that fill in a column, a table or a database leave alone: the
  pointers into the arguments and into the block of the specifications, and the size of the block.
\<close>

section \<open>Filling in a column\<close>

text \<open>
  The functions that fill in a column read and write the memory, the counters and the state of the
  join. They leave the pointers into the arguments and the memory alone, and do not depend on the size
  of the block: \<open>grow M\<close> gives the block another size.
\<close>

definition grow :: "nat \<Rightarrow> parse_state \<Rightarrow> parse_state" where
  "grow M s = s\<lparr>ps_mem := (ps_mem s)\<lparr>mem_size := M\<rparr>\<rparr>"

definition same_place :: "parse_state \<Rightarrow> parse_state \<Rightarrow> bool" where
  "same_place s s' \<longleftrightarrow> ps_from s' = ps_from s \<and> length (ps_args s') = length (ps_args s) \<and> ps_db_until s' = ps_db_until s \<and>
     ps_db s' = ps_db s \<and> ps_tbl s' = ps_tbl s \<and> ps_col s' = ps_col s \<and> mem_size (ps_mem s') = mem_size (ps_mem s) \<and>
     ps_failed s' = ps_failed s \<and> ps_errors s' = ps_errors s"

definition fills :: "setter \<Rightarrow> bool" where
  "fills f \<longleftrightarrow> (\<forall>s. (\<forall>M. f (grow M s) = map_option (grow M) (f s)) \<and> (\<forall>s'. f s = Some s' \<longrightarrow> same_place s s'))"

definition looks :: "(parse_state \<Rightarrow> 'a option) \<Rightarrow> bool" where
  "looks f \<longleftrightarrow> (\<forall>s M. f (grow M s) = f s)"

lemma grow_simps [simp]:
  "ps_args (grow M s) = ps_args s" "ps_from (grow M s) = ps_from s" "ps_db_until (grow M s) = ps_db_until s"
  "ps_cache (grow M s) = ps_cache s" "mem_at (ps_mem (grow M s)) = mem_at (ps_mem s)"
  "mem_size (ps_mem (grow M s)) = M" "ps_db (grow M s) = ps_db s" "ps_tbl (grow M s) = ps_tbl s" "ps_col (grow M s) = ps_col s"
  "ps_join (grow M s) = ps_join s" "ps_generator (grow M s) = ps_generator s" "ps_database (grow M s) = ps_database s"
  "ps_last (grow M s) = ps_last s" "ps_head (grow M s) = ps_head s" "ps_failed (grow M s) = ps_failed s"
  "ps_errors (grow M s) = ps_errors s"
  by (simp_all add: grow_def)

lemma grow_updates [simp]:
  "(grow M s)\<lparr>ps_failed := failed\<rparr> = grow M (s\<lparr>ps_failed := failed\<rparr>)"
  "(grow M s)\<lparr>ps_database := d\<rparr> = grow M (s\<lparr>ps_database := d\<rparr>)"
  "(grow M s)\<lparr>ps_col := a\<rparr> = grow M (s\<lparr>ps_col := a\<rparr>)"
  "(grow M s)\<lparr>ps_tbl := a\<rparr> = grow M (s\<lparr>ps_tbl := a\<rparr>)"
  "(grow M s)\<lparr>ps_db := a\<rparr> = grow M (s\<lparr>ps_db := a\<rparr>)"
  "(grow M s)\<lparr>ps_cache := c\<rparr> = grow M (s\<lparr>ps_cache := c\<rparr>)"
  by (simp_all add: grow_def)

lemma same_place_refl [simp]: "same_place s s"
  by (simp add: same_place_def)

lemma same_place_trans: "same_place s t \<Longrightarrow> same_place t u \<Longrightarrow> same_place s u"
  by (simp add: same_place_def)

named_theorems fill_rules \<open>functions that fill in a column\<close>

lemma fills_bind [fill_rules]: "fills f \<Longrightarrow> fills g \<Longrightarrow> fills (\<lambda>s. Option.bind (f s) g)"
  unfolding fills_def by (auto split: bind_splits) (blast intro: same_place_trans)

lemma fills_look [fill_rules]: "looks f \<Longrightarrow> (\<And>x. fills (g x)) \<Longrightarrow> fills (\<lambda>s. Option.bind (f s) (\<lambda>x. g x s))"
  unfolding fills_def looks_def by (auto split: bind_splits)

lemma fills_bind_const [fill_rules]: "(\<And>x. fills (g x)) \<Longrightarrow> fills (\<lambda>s. Option.bind r (\<lambda>x. g x s))"
  by (rule fills_look) (simp_all add: looks_def)

lemma fills_if [fill_rules]: "fills f \<Longrightarrow> fills g \<Longrightarrow> fills (\<lambda>s. if b then f s else g s)"
  by (cases b) simp_all

lemma fills_Some [fill_rules]: "fills Some"
  by (simp add: fills_def)

lemma fills_None [fill_rules]: "fills (\<lambda>s. None)"
  by (simp add: fills_def)

lemma fills_prod [fill_rules]: "(\<And>x y. fills (g x y)) \<Longrightarrow> fills (\<lambda>s. case p of (x, y) \<Rightarrow> g x y s)"
  by (cases p) simp

lemma fills_prod' [fill_rules]: "(\<And>x y. fills (g x y)) \<Longrightarrow> fills (case p of (x, y) \<Rightarrow> g x y)"
  by (cases p) simp

lemma fills_name [fill_rules]:
  "(\<And>x. fills (g x)) \<Longrightarrow> fills h \<Longrightarrow> fills k \<Longrightarrow>
   fills (\<lambda>s. case p of Name_Unset \<Rightarrow> h s | Name_NULL \<Rightarrow> k s | Name x \<Rightarrow> g x s)"
  by (cases p) simp_all

lemma mem_set_col_grow: "mem_set_col a f (m\<lparr>mem_size := M\<rparr>) = map_option (\<lambda>m. m\<lparr>mem_size := M\<rparr>) (mem_set_col a f m)"
  by (auto simp: mem_set_col_def mem_col_def split: option.splits spec.splits bind_splits)

lemma mem_set_tbl_grow: "mem_set_tbl a g (m\<lparr>mem_size := M\<rparr>) = map_option (\<lambda>m. m\<lparr>mem_size := M\<rparr>) (mem_set_tbl a g m)"
  by (auto simp: mem_set_tbl_def mem_tbl_def split: option.splits spec.splits bind_splits)

lemma mem_set_db_grow: "mem_set_db a h (m\<lparr>mem_size := M\<rparr>) = map_option (\<lambda>m. m\<lparr>mem_size := M\<rparr>) (mem_set_db a h m)"
  by (auto simp: mem_set_db_def mem_db_def split: option.splits spec.splits bind_splits)

lemma mem_set_size:
  "mem_set_col a f m = Some m' \<Longrightarrow> mem_size m' = mem_size m"
  "mem_set_tbl a g m = Some m' \<Longrightarrow> mem_size m' = mem_size m"
  "mem_set_db a h m = Some m' \<Longrightarrow> mem_size m' = mem_size m"
  by (auto simp: mem_set_col_def mem_set_tbl_def mem_set_db_def split: bind_splits)

lemma fills_with_mem [fill_rules]:
  "fills (\<lambda>s. with_mem (mem_set_col (a s) (f s)) s)" if "\<And>s M. a (grow M s) = a s" "\<And>s M. f (grow M s) = f s"
  using that
  by (auto simp: fills_def with_mem_def same_place_def grow_def mem_set_col_grow Option.bind_map_option comp_def
      map_option_bind split: bind_splits dest: mem_set_size)

lemma fills_set_col [fill_rules]: "fills (set_col f)"
  unfolding set_col_def [abs_def] by (rule fills_with_mem) (simp_all add: grow_def)

lemma fills_set_tbl [fill_rules]: "fills (set_tbl g)"
  by (auto simp: fills_def set_tbl_def with_mem_def same_place_def grow_def mem_set_tbl_grow Option.bind_map_option comp_def
      map_option_bind split: bind_splits dest: mem_set_size)

lemma fills_set_db [fill_rules]: "fills (set_db h)"
  by (auto simp: fills_def set_db_def with_mem_def same_place_def grow_def mem_set_db_grow Option.bind_map_option comp_def
      map_option_bind split: bind_splits dest: mem_set_size)

lemma fills_set_last [fill_rules]: "fills (set_last p)"
  by (auto simp: fills_def set_last_def with_mem_def same_place_def grow_def mem_set_db_grow Option.bind_map_option comp_def
      map_option_bind split: bind_splits option.splits dest: mem_set_size)

lemma fills_counters [fill_rules]: "fills (raise_upto n)" "fills (or_ctor_flags flag)" "fills (join_add n)" "fills join_varchar"
  by (simp_all add: fills_def raise_upto_def or_ctor_flags_def join_add_def join_varchar_def same_place_def grow_def)

lemma fills_steps [fill_rules]:
  "fills (set_type type)" "fills (set_build build)" "fills (set_type_q q)" "fills clear_name" "fills (set_partition p)"
  by (simp_all add: set_type_def set_build_def set_type_q_def clear_name_def set_partition_def [abs_def] fills_set_col)

lemma looks_rules [fill_rules]:
  "looks row_count" "looks grp_count" "looks scale_from" "looks scale_upto" "looks scale_range" "looks string_length_q"
  "looks hash_length" "looks stub_width" "looks the_col" "looks the_tbl" "looks ps_cache"
  by (simp_all add: looks_def row_count_def grp_count_def scale_from_def scale_upto_def scale_range_def string_length_q_def
      hash_length_def stub_width_def type_q_def the_col_def the_tbl_def mem_col_def mem_tbl_def)

lemma fills_rand [fill_rules]: "fills (set_rand c build)"
  unfolding set_rand_def [abs_def] by (intro fill_rules)

lemma fills_shared [fill_rules]:
  "fills (column_counted type build n)" "fills (column_random r build')" "fills (column_flagged type build flag)"
  "fills (column_typed type build)" "fills (join_counted len build n)" "fills (join_random r build')"
  "fills (join_string_plain len sb grouped)" "fills (join_time build)"
  unfolding column_counted_def [abs_def] column_random_def [abs_def] column_flagged_def [abs_def] column_typed_def [abs_def]
    join_counted_def [abs_def] join_random_def [abs_def] join_string_plain_def [abs_def] join_time_def [abs_def]
  by (intro fill_rules)+

lemma fills_base_of_name [fill_rules]:
  "fills base_of_name"
  unfolding base_of_name_def [abs_def]
  by ((intro fill_rules)+)

lemma fills_base_of_join [fill_rules]: "fills base_of_join"
proof -
  have "looks (\<lambda>s. mem_col (jn_base (ps_join s)) (ps_mem s))" "looks (\<lambda>s. Some (jn_base_name (ps_join s)))"
    by (simp_all add: looks_def mem_col_def)
  then have "fills (\<lambda>s. do { base \<leftarrow> mem_col (jn_base (ps_join s)) (ps_mem s); len \<leftarrow> col_length base;
      name \<leftarrow> Some (jn_base_name (ps_join s));
      case name of Name_Unset \<Rightarrow> None | Name_NULL \<Rightarrow> None | Name bytes \<Rightarrow> set_type_q (Q_String bytes len) s })"
    by (intro fill_rules)
  then show ?thesis unfolding base_of_join_def [abs_def] by simp
qed

lemma fills_column_integers [fill_rules]:
  "fills column_integer_default" "fills column_integer_default_group" "fills column_integer_unique"
  "fills column_integer_unique_group" "fills column_integer_fixed" "fills column_u_integer_default"
  "fills column_u_integer_default_group" "fills column_u_integer_unique" "fills column_u_integer_unique_group"
  "fills column_u_integer_fixed" "fills column_integer_random_default_spec"
  "fills column_integer_random_from_spec" "fills column_integer_random_upto_spec"
  "fills column_integer_random_range_spec" "fills column_integer_random_default_group_spec"
  "fills column_integer_random_from_group_spec" "fills column_integer_random_upto_group_spec"
  "fills column_integer_random_range_group_spec" "fills column_u_integer_random_default_spec"
  "fills column_u_integer_random_from_spec" "fills column_u_integer_random_upto_spec"
  "fills column_u_integer_random_range_spec" "fills column_u_integer_random_default_group_spec"
  "fills column_u_integer_random_from_group_spec" "fills column_u_integer_random_upto_group_spec"
  "fills column_u_integer_random_range_group_spec"
  unfolding column_integer_default_def [abs_def] column_integer_default_group_def [abs_def]
    column_integer_unique_def [abs_def] column_integer_unique_group_def [abs_def]
    column_integer_fixed_def [abs_def] column_u_integer_default_def [abs_def]
    column_u_integer_default_group_def [abs_def] column_u_integer_unique_def [abs_def]
    column_u_integer_unique_group_def [abs_def] column_u_integer_fixed_def [abs_def]
    column_integer_random_default_spec_def [abs_def] column_integer_random_from_spec_def [abs_def]
    column_integer_random_upto_spec_def [abs_def] column_integer_random_range_spec_def [abs_def]
    column_integer_random_default_group_spec_def [abs_def] column_integer_random_from_group_spec_def [abs_def]
    column_integer_random_upto_group_spec_def [abs_def] column_integer_random_range_group_spec_def [abs_def]
    column_u_integer_random_default_spec_def [abs_def] column_u_integer_random_from_spec_def [abs_def]
    column_u_integer_random_upto_spec_def [abs_def] column_u_integer_random_range_spec_def [abs_def]
    column_u_integer_random_default_group_spec_def [abs_def] column_u_integer_random_from_group_spec_def [abs_def]
    column_u_integer_random_upto_group_spec_def [abs_def] column_u_integer_random_range_group_spec_def [abs_def]
  by ((intro fill_rules)+)

lemma fills_column_strings [fill_rules]:
  "fills column_string_unique" "fills column_string_unique_group" "fills column_string_default"
  "fills column_string_default_group" "fills column_string_fixed" "fills column_string_uuid"
  "fills column_string_uuid_group" "fills column_string_names_first" "fills column_string_names_first_group"
  "fills column_string_names_last" "fills column_string_names_last_group" "fills column_string_names_full"
  "fills column_string_names_full_group" "fills column_string_hash" "fills column_string_hash_group"
  unfolding column_string_unique_def [abs_def] column_string_unique_group_def [abs_def] column_string_default_def [abs_def]
    column_string_default_group_def [abs_def] column_string_fixed_def [abs_def] column_string_uuid_def [abs_def]
    column_string_uuid_group_def [abs_def] column_string_names_first_def [abs_def]
    column_string_names_first_group_def [abs_def] column_string_names_last_def [abs_def]
    column_string_names_last_group_def [abs_def] column_string_names_full_def [abs_def]
    column_string_names_full_group_def [abs_def] column_string_hash_def [abs_def]
    column_string_hash_group_def [abs_def]
  by ((intro fill_rules)+)

lemma fills_column_times [fill_rules]:
  "fills column_timestamp_unique" "fills column_timestamp_unique_group" "fills column_timestamp_default"
  "fills column_timestamp_default_group" "fills column_timestamp_fixed" "fills column_datetime_unique"
  "fills column_datetime_unique_group" "fills column_datetime_default" "fills column_datetime_default_group"
  "fills column_datetime_fixed"
  unfolding column_timestamp_unique_def [abs_def] column_timestamp_unique_group_def [abs_def]
    column_timestamp_default_def [abs_def] column_timestamp_default_group_def [abs_def]
    column_timestamp_fixed_def [abs_def] column_datetime_unique_def [abs_def]
    column_datetime_unique_group_def [abs_def] column_datetime_default_def [abs_def]
    column_datetime_default_group_def [abs_def] column_datetime_fixed_def [abs_def]
  by ((intro fill_rules)+)

lemma fills_join_integers [fill_rules]:
  "fills join_integer_default" "fills join_integer_default_group" "fills join_integer_unique"
  "fills join_integer_unique_group" "fills join_integer_fixed" "fills join_u_integer_default"
  "fills join_u_integer_default_group" "fills join_u_integer_unique" "fills join_u_integer_unique_group"
  "fills join_u_integer_fixed" "fills join_integer_random_default" "fills join_integer_random_from"
  "fills join_integer_random_upto" "fills join_integer_random_range" "fills join_integer_random_default_group"
  "fills join_integer_random_from_group" "fills join_integer_random_upto_group"
  "fills join_integer_random_range_group" "fills join_u_integer_random_default"
  "fills join_u_integer_random_from" "fills join_u_integer_random_upto" "fills join_u_integer_random_range"
  "fills join_u_integer_random_default_group" "fills join_u_integer_random_from_group"
  "fills join_u_integer_random_upto_group" "fills join_u_integer_random_range_group"
  unfolding join_integer_default_def [abs_def] join_integer_default_group_def [abs_def] join_integer_unique_def [abs_def]
    join_integer_unique_group_def [abs_def] join_integer_fixed_def [abs_def] join_u_integer_default_def [abs_def]
    join_u_integer_default_group_def [abs_def] join_u_integer_unique_def [abs_def]
    join_u_integer_unique_group_def [abs_def] join_u_integer_fixed_def [abs_def]
    join_integer_random_default_def [abs_def] join_integer_random_from_def [abs_def]
    join_integer_random_upto_def [abs_def] join_integer_random_range_def [abs_def]
    join_integer_random_default_group_def [abs_def] join_integer_random_from_group_def [abs_def]
    join_integer_random_upto_group_def [abs_def] join_integer_random_range_group_def [abs_def]
    join_u_integer_random_default_def [abs_def] join_u_integer_random_from_def [abs_def]
    join_u_integer_random_upto_def [abs_def] join_u_integer_random_range_def [abs_def]
    join_u_integer_random_default_group_def [abs_def] join_u_integer_random_from_group_def [abs_def]
    join_u_integer_random_upto_group_def [abs_def] join_u_integer_random_range_group_def [abs_def]
  by ((intro fill_rules)+)

lemma fills_join_strings [fill_rules]:
  "fills join_string_unique" "fills join_string_unique_group" "fills join_string_fixed" "fills join_string_uuid"
  "fills join_string_uuid_group" "fills join_string_hash" "fills join_string_hash_group"
  "fills join_string_names_first" "fills join_string_names_first_group" "fills join_string_names_last"
  "fills join_string_names_last_group" "fills join_string_names_full" "fills join_string_names_full_group"
  "fills join_string_default" "fills join_string_default_group"
  unfolding join_string_unique_def [abs_def] join_string_unique_group_def [abs_def] join_string_fixed_def [abs_def]
    join_string_uuid_def [abs_def] join_string_uuid_group_def [abs_def] join_string_hash_def [abs_def]
    join_string_hash_group_def [abs_def] join_string_names_first_def [abs_def]
    join_string_names_first_group_def [abs_def] join_string_names_last_def [abs_def]
    join_string_names_last_group_def [abs_def] join_string_names_full_def [abs_def]
    join_string_names_full_group_def [abs_def] join_string_default_def [abs_def]
    join_string_default_group_def [abs_def]
  by ((intro fill_rules)+)

lemma fills_join_times [fill_rules]:
  "fills join_timestamp_unique" "fills join_timestamp_unique_group" "fills join_timestamp_default"
  "fills join_timestamp_default_group" "fills join_timestamp_fixed" "fills join_datetime_unique"
  "fills join_datetime_unique_group" "fills join_datetime_default" "fills join_datetime_default_group"
  "fills join_datetime_fixed"
  unfolding join_timestamp_unique_def [abs_def] join_timestamp_unique_group_def [abs_def]
    join_timestamp_default_def [abs_def] join_timestamp_default_group_def [abs_def]
    join_timestamp_fixed_def [abs_def] join_datetime_unique_def [abs_def] join_datetime_unique_group_def [abs_def]
    join_datetime_default_def [abs_def] join_datetime_default_group_def [abs_def] join_datetime_fixed_def [abs_def]
  by ((intro fill_rules)+)

lemma fills_complete [fill_rules]: "fills parse_table_complete" "fills f \<Longrightarrow> fills (and_then f g')" if "fills g'"
proof -
  have "fills (\<lambda>s. set_tbl (\<lambda>t. t\<lparr>tbl_until := Some (ps_col s + sizeof_ColSpec)\<rparr>) s)"
    by (auto simp: fills_def set_tbl_def with_mem_def same_place_def grow_def mem_set_tbl_grow Option.bind_map_option comp_def
        map_option_bind split: bind_splits dest: mem_set_size)
  then show "fills parse_table_complete" unfolding parse_table_complete_def [abs_def] .
  show "fills f \<Longrightarrow> fills (and_then f g')" using that unfolding and_then_def [abs_def] by (intro fill_rules)
qed

lemma fills_valid_complete [fill_rules]: "fills parse_valid_complete"
proof -
  have last: "fills (\<lambda>s. set_last (Some (ps_db s)) s)"
    by (auto simp: fills_def set_last_def with_mem_def same_place_def grow_def mem_set_db_grow Option.bind_map_option comp_def
        map_option_bind split: bind_splits option.splits dest: mem_set_size)
  have "fills (\<lambda>s. Some (s\<lparr>ps_last := Some (ps_db s),
      ps_generator := generator_counter_update (ps_generator s) (ps_database s)\<rparr>))"
    by (simp add: fills_def same_place_def grow_def)
  then show ?thesis unfolding parse_valid_complete_def [abs_def] using last
    by (intro fill_rules fills_complete(1) [OF fills_Some])
qed

lemma fills_parse_complete [fill_rules]: "fills generate_parse_complete"
  unfolding generate_parse_complete_def [abs_def] by (intro fill_rules)

lemma fills_join_close [fill_rules]: "fills join_spec_state_close" "fills join_spec_state_init"
proof -
  have l: "looks (\<lambda>s. if CHAR_LENGTH_MAX < jn_length (ps_join s) \<or> jn_varchar (ps_join s)
      then type_set_varchar (jn_length (ps_join s)) else type_set_char (jn_length (ps_join s)))"
    by (simp add: looks_def)
  have "fills (\<lambda>s. with_mem (mem_set_col (jn_base (ps_join s))
      (\<lambda>c. c\<lparr>col_type := Some type, col_bytes := jn_base_name (ps_join s)\<rparr>)) s)" for type
    by (rule fills_with_mem) simp_all
  from fills_look [OF l this] show "fills join_spec_state_close"
    unfolding join_spec_state_close_def [abs_def] Let_def .
  show "fills join_spec_state_init"
    by (auto simp: fills_def join_spec_state_init_def the_col_def mem_col_def same_place_def grow_def split: bind_splits option.splits spec.splits)
qed

end
