(* ===== verification/Parse_Steps.thy ===== *)
theory Parse_Steps
  imports Parse_Fill
begin

text \<open>
  Every function of the parser (\<open>src/mysql_seed_generate.h\<close>) moves on in the arguments, stays within
  the block \<open>generate_dispatch\<close> allocates, and fails exactly if it reports an error.
\<close>

section \<open>The parser moves on and stays in its block\<close>

text \<open>
  The bytes the specifications of the first \<open>i\<close> arguments may take: a database, a table and a column
  for eight arguments, and a column more for every two arguments.
\<close>

definition cap :: "nat \<Rightarrow> nat" where
  "cap i = sizeof_DbSpec + sizeof_TblSpec + ((i - 8) div 2 + 1) * sizeof_ColSpec"

definition grow_outcome :: "nat \<Rightarrow> outcome \<Rightarrow> outcome" where
  "grow_outcome M r = (case r of Stop s \<Rightarrow> Stop (grow M s) | Call n s \<Rightarrow> Call n (grow M s))"

lemma grow_outcome_simps [simp]: "grow_outcome M (Stop s) = Stop (grow M s)" "grow_outcome M (Call n s) = Call n (grow M s)"
  by (simp_all add: grow_outcome_def)

text \<open>What holds wherever the parser is, within a column (\<open>ps_col\<close>), and between them.\<close>

definition in_block :: "parse_state \<Rightarrow> bool" where
  "in_block s \<longleftrightarrow> mem_size (ps_mem s) = cap (length (ps_args s)) \<and> ps_db_until s = length (ps_args s) + 1 - 8 \<and>
     (ps_db s = 0 \<or> 8 \<le> ps_from s \<and> ps_db s \<le> cap (ps_from s)) \<and> (ps_failed s \<longleftrightarrow> ps_errors s \<noteq> [])"

definition in_column :: "parse_state \<Rightarrow> bool" where
  "in_column s \<longleftrightarrow> in_block s \<and> 7 \<le> ps_from s \<and> ps_from s < length (ps_args s) \<and> ps_col s + sizeof_ColSpec \<le> cap (ps_from s)"

text \<open>Between the parts of a join there is one more argument.\<close>

definition behind_column :: "parse_state \<Rightarrow> bool" where
  "behind_column s \<longleftrightarrow> 9 \<le> ps_from s \<and> ps_col s + sizeof_ColSpec \<le> cap (ps_from s - 1)"

definition table_end :: "parse_state \<Rightarrow> bool" where
  "table_end s \<longleftrightarrow> (\<forall>t until. the_tbl s = Some t \<longrightarrow> tbl_until t = Some until \<longrightarrow> until \<le> cap (ps_from s))"

fun call_inv :: "node \<Rightarrow> parse_state \<Rightarrow> bool" where
  "call_inv Next_Db s = (in_block s \<and> (ps_from s < length (ps_args s) \<or> ps_from s = length (ps_args s) \<and> ps_failed s))"
| "call_inv Next_Tbl s = (in_block s \<and> 8 \<le> ps_from s \<and> ps_from s < length (ps_args s) \<and> table_end s)"
| "call_inv Next_Col s = (in_column s \<and> 8 \<le> ps_from s)"
| "call_inv Next_Join s = (in_column s \<and> behind_column s)"

definition result_ok :: "nat \<Rightarrow> parse_state \<Rightarrow> outcome option \<Rightarrow> bool" where
  "result_ok i s r \<longleftrightarrow>
     (\<forall>n s'. r = Some (Call n s') \<longrightarrow> i \<le> ps_from s' \<and> length (ps_args s') = length (ps_args s) \<and> call_inv n s') \<and>
     (\<forall>s'. r = Some (Stop s') \<longrightarrow> length (ps_args s') = length (ps_args s) \<and> (ps_failed s' \<longleftrightarrow> ps_errors s' \<noteq> []))"

definition grows :: "parse_node \<Rightarrow> parse_state \<Rightarrow> bool" where
  "grows p s \<longleftrightarrow> (\<forall>M \<ge> mem_size (ps_mem s). p (grow M s) = map_option (grow_outcome M) (p s))"

definition runs :: "nat \<Rightarrow> parse_node \<Rightarrow> parse_state \<Rightarrow> bool" where
  "runs i p s \<longleftrightarrow> grows p s \<and> result_ok i s (p s)"

text \<open>
  A node that is at the first argument of its own: at a type, or behind it. A node that is at a flag it
  has looked at, and one that may be at the end of a part of a join.
\<close>

definition type_ok :: "parse_node \<Rightarrow> bool" where
  "type_ok p \<longleftrightarrow> (\<forall>s. in_column s \<longrightarrow> runs (Suc (ps_from s)) p s)"

definition node_ok :: "parse_node \<Rightarrow> bool" where
  "node_ok p \<longleftrightarrow> (\<forall>s. in_column s \<longrightarrow> 8 \<le> ps_from s \<longrightarrow> runs (Suc (ps_from s)) p s)"

definition flag_ok :: "parse_node \<Rightarrow> bool" where
  "flag_ok p \<longleftrightarrow> (\<forall>s. in_column s \<longrightarrow> 8 \<le> ps_from s \<longrightarrow> runs (ps_from s) p s)"

definition part_ok :: "parse_node \<Rightarrow> bool" where
  "part_ok p \<longleftrightarrow> (\<forall>s. in_column s \<longrightarrow> behind_column s \<longrightarrow> runs (ps_from s) p s)"

lemma cap_mono: "i \<le> j \<Longrightarrow> cap i \<le> cap j"
  by (simp add: cap_def div_le_mono diff_le_mono)

lemma cap_2: "8 \<le> i \<Longrightarrow> cap (i + 2) = cap i + sizeof_ColSpec"
proof -
  assume "8 \<le> i"
  then have "(i + 2 - 8) div 2 = (i - 8) div 2 + 1" by simp
  then show ?thesis by (simp add: cap_def)
qed

lemma cap_least: "sizeof_DbSpec + sizeof_TblSpec + sizeof_ColSpec \<le> cap i"
  by (simp add: cap_def)

lemma runs_mono: "runs i p s \<Longrightarrow> j \<le> i \<Longrightarrow> runs j p s"
  by (auto simp: runs_def result_ok_def)

lemma ok_rules:
  "type_ok p \<Longrightarrow> node_ok p" "node_ok p \<Longrightarrow> flag_ok p" "flag_ok p \<Longrightarrow> part_ok p"
  by (auto simp: type_ok_def node_ok_def flag_ok_def part_ok_def behind_column_def intro: runs_mono)

lemma in_block_place: "same_place s s' \<Longrightarrow> in_block s \<Longrightarrow> in_block s'"
  by (simp add: same_place_def in_block_def)

lemma in_column_place: "same_place s s' \<Longrightarrow> in_column s \<Longrightarrow> in_column s'"
  by (auto simp: in_column_def in_block_place) (auto simp: same_place_def)

lemma in_block_next: "in_block s \<Longrightarrow> in_block (next_arg s)"
  using cap_mono [of "ps_from s" "Suc (ps_from s)"] by (auto simp: in_block_def next_arg_def)

lemma in_column_next:
  assumes "in_column s" "\<not> at_end (next_arg s)"
  shows "in_column (next_arg s)" "8 \<le> ps_from (next_arg s)" "ps_from (next_arg s) = Suc (ps_from s)"
    "length (ps_args (next_arg s)) = length (ps_args s)" "8 \<le> ps_from s \<Longrightarrow> behind_column (next_arg s)"
proof -
  have "cap (ps_from s) \<le> cap (Suc (ps_from s))" by (simp add: cap_mono)
  then show "in_column (next_arg s)"
    using assms in_block_next [of s] by (auto simp: in_column_def next_arg_def at_end_def)
  show "8 \<le> ps_from (next_arg s)" "ps_from (next_arg s) = Suc (ps_from s)" "length (ps_args (next_arg s)) = length (ps_args s)"
    "8 \<le> ps_from s \<Longrightarrow> behind_column (next_arg s)"
    using assms by (auto simp: in_column_def behind_column_def next_arg_def)
qed

lemma next_arg_grow [simp]: "next_arg (grow M s) = grow M (next_arg s)" "at_end (grow M s) = at_end s"
  "the_arg (grow M s) = the_arg s" "report e (grow M s) = grow M (report e s)" "set_arg arg (grow M s) = grow M (set_arg arg s)"
  by (simp_all add: next_arg_def at_end_def the_arg_def report_def set_arg_def grow_def)

lemma flag_match_next_le: "flag_match_next args c f \<le> length args"
  by (induction args) auto

text \<open>An error, reported in a state that is in its block.\<close>

definition error_found :: "parse_state \<Rightarrow> bool" where
  "error_found s \<longleftrightarrow> mem_size (ps_mem s) = cap (length (ps_args s)) \<and> ps_db_until s = length (ps_args s) + 1 - 8 \<and>
     (ps_db s = 0 \<or> 8 \<le> ps_from s \<and> ps_db s \<le> cap (ps_from s)) \<and> ps_errors s \<noteq> []"

lemma error_found_report: "in_block s \<Longrightarrow> error_found (report e s)" "error_found s \<Longrightarrow> error_found (next_arg s)"
  using cap_mono [of "ps_from s" "Suc (ps_from s)"] by (auto simp: in_block_def error_found_def report_def next_arg_def)

lemma generate_parse_error_ok:
  assumes "error_found s" "ps_from s \<le> length (ps_args s)" "i \<le> Suc (ps_from s)" "i \<le> length (ps_args s)"
  shows "result_ok i s (generate_parse_error s)"
proof -
  let ?f = "if ps_from s + 1 < length (ps_args s)
    then ps_from s + 1 + flag_match_next (drop (ps_from s + 1) (ps_args s)) CHR ''d'' ''database'' else length (ps_args s)"
  have f: "i \<le> ?f" "ps_from s \<le> ?f" "?f \<le> length (ps_args s)"
    using assms flag_match_next_le [of "drop (ps_from s + 1) (ps_args s)" "CHR ''d''" "''database''"] by auto
  have "cap (ps_from s) \<le> cap ?f" using f(2) by (rule cap_mono)
  then have "in_block (s\<lparr>ps_failed := True, ps_from := ?f\<rparr>)" using assms(1) f(2) by (auto simp: in_block_def error_found_def)
  moreover have "generate_parse_error s = Some (Call Next_Db (s\<lparr>ps_failed := True, ps_from := ?f\<rparr>))"
    by (simp add: generate_parse_error_def call_def Let_def)
  moreover have "?f < length (ps_args s) \<or> ?f = length (ps_args s)" using f(3) by (simp only: le_less)
  ultimately show ?thesis using f(1)
    by (simp only: result_ok_def option.inject outcome.inject outcome.distinct option.distinct) (simp del: if_split)
qed

lemma generate_parse_error_grow: "generate_parse_error (grow M s) = map_option (grow_outcome M) (generate_parse_error s)"
  by (simp add: generate_parse_error_def call_def Let_def grow_def)

lemma result_ok_error:
  "result_ok i s (generate_parse_error t)" if "result_ok i t (generate_parse_error t)" "length (ps_args t) = length (ps_args s)"
  using that by (simp add: result_ok_def)

lemma runs_recover: "runs (Suc (ps_from s)) (recover e) s" if "in_block s" "ps_from s < length (ps_args s)"
proof -
  have "result_ok (Suc (ps_from s)) s (recover e s)"
    unfolding recover_def
    by (rule result_ok_error, rule generate_parse_error_ok [OF error_found_report(1)])
      (use that in \<open>simp_all add: report_def\<close>)
  then show ?thesis by (simp add: runs_def grows_def recover_def generate_parse_error_grow)
qed

lemma set_lastD: "set_last p s = Some s' \<Longrightarrow> same_place s s'" "set_last p (grow M s) = map_option (grow M) (set_last p s)"
  using fills_set_last [of p] by (simp_all add: fills_def)

lemma runs_give_up: "runs i (give_up e) s"
proof (cases "set_last None (report e s)")
  case (Some s')
  have "give_up e s = Some (Stop (s'\<lparr>ps_failed := True\<rparr>))" by (simp add: give_up_def Some stop_def)
  then have "result_ok i s (give_up e s)" using set_lastD(1) [OF Some] by (simp add: result_ok_def same_place_def report_def)
  then show ?thesis by (simp add: runs_def grows_def give_up_def Some set_lastD(2) stop_def)
qed (simp add: runs_def grows_def give_up_def result_ok_def set_lastD(2))

section \<open>Parts of a column\<close>

lemma runs_cong: "runs i p s \<Longrightarrow> (\<And>M. p (grow M s) = q (grow M s)) \<Longrightarrow> p s = q s \<Longrightarrow> runs i q s"
  by (simp add: runs_def grows_def)

lemma runs_next: "runs i p (next_arg s) \<longleftrightarrow> runs i (\<lambda>s. p (next_arg s)) s"
  by (simp add: runs_def grows_def) (simp add: next_arg_def result_ok_def)

text \<open>A function of the state that keeps its place, before a node.\<close>

lemma runs_bind:
  assumes "fills f"
    "\<And>s'. \<lbrakk>f s = Some s'; same_place s s'; ps_from s' = ps_from s; ps_col s' = ps_col s; ps_tbl s' = ps_tbl s; ps_db s' = ps_db s;
       length (ps_args s') = length (ps_args s); in_block s' = in_block s; in_column s' = in_column s\<rbrakk> \<Longrightarrow> runs i p s'"
  shows "runs i (\<lambda>s. do { s \<leftarrow> f s; p s }) s"
proof -
  have g: "f (grow M s) = map_option (grow M) (f s)" for M using assms(1) by (simp add: fills_def)
  show ?thesis
  proof (cases "f s")
    case (Some s')
    then have p: "same_place s s'" using assms(1) by (auto simp: fills_def)
    then have "in_block s' = in_block s" "in_column s' = in_column s" by (auto simp: in_column_def in_block_def same_place_def)
    then have "runs i p s'" using p by (intro assms(2) [OF Some p]) (simp_all add: same_place_def)
    then show ?thesis using p by (simp add: runs_def grows_def g Some result_ok_def same_place_def)
  qed (simp add: runs_def grows_def g result_ok_def)
qed

lemma runs_call: "call_inv n s \<Longrightarrow> i \<le> ps_from s \<Longrightarrow> runs i (call n) s"
  by (simp add: runs_def grows_def call_def result_ok_def)

lemma runs_stop: "in_block s \<Longrightarrow> runs i stop s"
  by (simp add: runs_def grows_def stop_def result_ok_def in_block_def)

lemma in_columnD: "in_column s \<Longrightarrow> in_block s" "in_column s \<Longrightarrow> ps_from s < length (ps_args s)"
  by (simp_all add: in_column_def)

lemma type_ok_recover: "type_ok (recover e)"
  by (simp add: type_ok_def runs_recover in_columnD)

lemma type_ok_give_up: "type_ok (give_up e)"
  by (simp add: type_ok_def runs_give_up)

lemma type_ok_multiple: "type_ok error_multiple_grp_specs"
proof -
  have "runs (Suc (ps_from s)) error_multiple_grp_specs s" if "in_column s" for s
  proof -
    have "error_found (next_arg (report Multiple_Grp_Specs s))" using that by (simp add: error_found_report in_columnD)
    then have "result_ok (Suc (ps_from s)) s (error_multiple_grp_specs s)"
      unfolding error_multiple_grp_specs_def using that
      by (intro result_ok_error [OF generate_parse_error_ok]) (auto simp: next_arg_def report_def in_column_def)
    then show ?thesis by (simp add: runs_def grows_def error_multiple_grp_specs_def generate_parse_error_grow)
  qed
  then show ?thesis by (simp add: type_ok_def)
qed

lemmas node_ok_errors [fill_rules] = type_ok_recover [THEN ok_rules(1)] type_ok_give_up [THEN ok_rules(1)] type_ok_multiple [THEN ok_rules(1)]

lemma node_ok_before [fill_rules]: "fills f \<Longrightarrow> node_ok p \<Longrightarrow> node_ok (before_node f p)"
  unfolding node_ok_def before_node_def [abs_def]
  by (intro allI impI runs_bind) (assumption, metis)

lemma flag_ok_cases:
  "list_all (\<lambda>(flag, p). node_ok p) cases \<Longrightarrow> flag_ok d \<Longrightarrow> flag_ok (flag_cases cases d arg)"
  by (induction cases d arg rule: flag_cases.induct) (auto intro: ok_rules)

lemma flag_ok_call: "fills f \<Longrightarrow> flag_ok (\<lambda>s. do { s \<leftarrow> f s; call Next_Col s })"
  unfolding flag_ok_def by (intro allI impI runs_bind runs_call) simp_all

lemma part_ok_call: "fills f \<Longrightarrow> part_ok (\<lambda>s. do { s \<leftarrow> f s; call Next_Join s })"
  unfolding part_ok_def
  by (intro allI impI runs_bind runs_call) (simp_all add: behind_column_def)

lemma table_end_complete: "parse_table_complete s = Some s' \<Longrightarrow> in_column s' \<Longrightarrow> table_end s'"
  by (auto simp: table_end_def the_tbl_def mem_tbl_def parse_table_complete_def set_tbl_def with_mem_def mem_set_tbl_def
      in_column_def split: bind_splits option.splits spec.splits)

lemma flag_ok_table:
  assumes f: "fills f"
  shows "flag_ok (\<lambda>s. do { s \<leftarrow> f s; s \<leftarrow> parse_table_complete s; call Next_Tbl s })"
  unfolding flag_ok_def
proof (intro allI impI runs_bind [OF f] runs_bind [OF fills_complete(1) [OF fills_Some]] runs_call)
  fix s s1 s2 assume s: "in_column s" "8 \<le> ps_from s" "ps_from s1 = ps_from s" "ps_from s2 = ps_from s1"
    and c: "in_column s1 = in_column s" "in_column s2 = in_column s1" and t: "parse_table_complete s1 = Some s2"
  show "call_inv Next_Tbl s2" using s c table_end_complete [OF t] by (auto simp: in_column_def)
  show "ps_from s \<le> ps_from s2" using s by simp
qed

lemma runs_look: "looks f \<Longrightarrow> (\<And>x. f s = Some x \<Longrightarrow> runs i (g x) s) \<Longrightarrow> runs i (\<lambda>s. Option.bind (f s) (\<lambda>x. g x s)) s"
  by (cases "f s") (simp_all add: runs_def grows_def looks_def result_ok_def)

lemma runs_update:
  "runs i p (u s) \<Longrightarrow> (\<And>M. u (grow M s) = grow M (u s)) \<Longrightarrow> mem_size (ps_mem (u s)) = mem_size (ps_mem s) \<Longrightarrow>
   length (ps_args (u s)) = length (ps_args s) \<Longrightarrow> runs i (\<lambda>s. p (u s)) s"
  by (simp add: runs_def grows_def result_ok_def)

text \<open>The end of a table that is complete.\<close>

lemma mem_tbl_set:
  "mem_set_tbl a g m = Some m' \<Longrightarrow> mem_tbl a m' = map_option g (mem_tbl a m)"
  "mem_set_db b h m = Some m' \<Longrightarrow> mem_tbl a m' = mem_tbl a m"
  by (auto simp: mem_set_tbl_def mem_set_db_def mem_tbl_def mem_db_def split: bind_splits option.splits spec.splits if_splits)

lemma parse_valid_complete_until:
  assumes "parse_valid_complete s = Some s'" "the_tbl s' = Some t" "tbl_until t = Some until"
  shows "until = ps_col s + sizeof_ColSpec"
proof -
  obtain s1 s2 s3 where 1: "parse_table_complete s = Some s1" "set_tbl (\<lambda>t. t\<lparr>tbl_next := Some None\<rparr>) s1 = Some s2"
      "set_last (Some (ps_db s2)) s2 = Some s3" "ps_mem s' = ps_mem s3" "ps_tbl s' = ps_tbl s3"
    using assms(1) by (auto simp: parse_valid_complete_def split: bind_splits)
  have "the_tbl s1 = map_option (\<lambda>t. t\<lparr>tbl_until := Some (ps_col s + sizeof_ColSpec)\<rparr>) (the_tbl s)"
    using 1(1) by (auto simp: parse_table_complete_def set_tbl_def with_mem_def the_tbl_def mem_tbl_set split: bind_splits)
  moreover have "the_tbl s2 = map_option (\<lambda>t. t\<lparr>tbl_next := Some None\<rparr>) (the_tbl s1)"
    using 1(2) by (auto simp: set_tbl_def with_mem_def the_tbl_def mem_tbl_set split: bind_splits)
  moreover have "the_tbl s3 = the_tbl s2"
    using 1(3) by (auto simp: set_last_def with_mem_def the_tbl_def mem_tbl_set split: bind_splits option.splits)
  moreover have "the_tbl s' = the_tbl s3" using 1(4,5) by (simp add: the_tbl_def)
  ultimately show ?thesis using assms(2,3) by (cases "the_tbl s") auto
qed

lemma flag_ok_database:
  assumes f: "fills f"
  shows "flag_ok (\<lambda>s. do { s \<leftarrow> f s; s \<leftarrow> parse_database_complete s; call Next_Db s })"
  unfolding flag_ok_def parse_database_complete_def bind_assoc bind.bind_lunit
proof (intro allI impI runs_bind [OF f] runs_bind [OF fills_valid_complete] runs_look [where f = the_tbl])
  fix s s1 s2 t assume s: "in_column s" "8 \<le> ps_from s" "ps_from s1 = ps_from s" "ps_from s2 = ps_from s1" "ps_col s2 = ps_col s1"
    and c: "in_column s1 = in_column s" "in_column s2 = in_column s1" and t: "parse_valid_complete s1 = Some s2" "the_tbl s2 = Some t"
  show "runs (ps_from s) (\<lambda>s. tbl_until t \<bind> (\<lambda>until. call Next_Db (s\<lparr>ps_db := until\<rparr>))) s2"
  proof (rule runs_look [where f = "\<lambda>s. tbl_until t"])
    fix until assume "tbl_until t = Some until"
    from parse_valid_complete_until [OF t this] have "call_inv Next_Db (s2\<lparr>ps_db := until\<rparr>)"
      using s c by (auto simp: in_column_def in_block_def)
    then show "runs (ps_from s) (\<lambda>s. call Next_Db (s\<lparr>ps_db := until\<rparr>)) s2"
      using s by (intro runs_update [where u = "\<lambda>s. s\<lparr>ps_db := until\<rparr>"] runs_call) simp_all
  qed (simp add: looks_def)
qed (simp add: fill_rules)

lemma flag_ok_next: "fills f \<Longrightarrow> flag_ok (next_spec f e arg)"
  by (simp add: next_spec_def flag_ok_call flag_ok_table flag_ok_database ok_rules type_ok_recover)

text \<open>The argument behind the current one.\<close>

lemma in_column_arg:
  assumes "in_column s"
  obtains "at_end (next_arg s)" "in_block (next_arg s)"
  | arg where "\<not> at_end (next_arg s)" "the_arg (next_arg s) = Some arg" "in_column (next_arg s)" "8 \<le> ps_from (next_arg s)"
      "ps_from (next_arg s) = Suc (ps_from s)" "8 \<le> ps_from s \<Longrightarrow> behind_column (next_arg s)"
  using in_column_next [OF assms] in_block_next [OF in_columnD(1) [OF assms]]
  by (cases "at_end (next_arg s)") (auto simp: in_column_def the_arg_def)

definition at_next :: "setter \<Rightarrow> (string \<Rightarrow> parse_node) \<Rightarrow> parse_node" where
  "at_next f p s =
     (let s = next_arg s
      in if at_end s then do { s \<leftarrow> f s; s \<leftarrow> generate_parse_complete s; stop s } else do { arg \<leftarrow> the_arg s; p arg s })"

lemma runs_at_next:
  assumes f: "fills f" and s: "in_column s"
    and p: "\<And>arg. in_column (next_arg s) \<Longrightarrow> 8 \<le> ps_from (next_arg s) \<Longrightarrow> (8 \<le> ps_from s \<Longrightarrow> behind_column (next_arg s)) \<Longrightarrow>
      runs (ps_from (next_arg s)) (p arg) (next_arg s)"
  shows "runs (Suc (ps_from s)) (at_next f p) s"
proof (cases rule: in_column_arg [OF s])
  case 1
  have "runs (Suc (ps_from s)) (\<lambda>s. do { s \<leftarrow> f s; s \<leftarrow> generate_parse_complete s; stop s }) (next_arg s)"
    by (intro runs_bind [OF f] runs_bind [OF fills_parse_complete] runs_stop) (use 1 in simp_all)
  then have "runs (Suc (ps_from s)) (\<lambda>s. do { s \<leftarrow> f (next_arg s); s \<leftarrow> generate_parse_complete s; stop s }) s"
    by (simp only: runs_next)
  then show ?thesis by (rule runs_cong) (use 1 in \<open>simp_all add: at_next_def\<close>)
next
  case (2 arg)
  from p [OF 2(3,4,6)] 2(5) have "runs (Suc (ps_from s)) (p arg) (next_arg s)" by simp
  then have "runs (Suc (ps_from s)) (\<lambda>s. p arg (next_arg s)) s" by (simp only: runs_next)
  then show ?thesis by (rule runs_cong) (use 2 in \<open>simp_all add: at_next_def\<close>)
qed

lemma type_ok_after:
  assumes f: "fills f" and "list_all (\<lambda>(flag, p). node_ok p) cases"
  shows "type_ok (parse_after f e cases)"
proof -
  have e: "parse_after f e cases =
      at_next f (\<lambda>arg. if deref arg \<noteq> CHR ''-'' then recover e else flag_cases cases (next_spec f e arg) arg)"
    by (rule ext) (simp add: parse_after_def at_next_def Let_def if_distribR)
  have "flag_ok (if deref arg \<noteq> CHR ''-'' then recover e else flag_cases cases (next_spec f e arg) arg)" for arg
    using flag_ok_cases [OF assms(2) flag_ok_next [OF f]] ok_rules(2) [OF ok_rules(1) [OF type_ok_recover]] by simp
  then show ?thesis unfolding e type_ok_def by (intro allI impI runs_at_next f) (simp_all only: flag_ok_def)
qed

lemma node_ok_after [fill_rules]:
  "fills f \<Longrightarrow> list_all (\<lambda>(flag, p). node_ok p) cases \<Longrightarrow> node_ok (parse_after f e cases)"
  by (intro ok_rules type_ok_after)

lemma node_ok_join_after [fill_rules]:
  assumes f: "fills f" and c: "list_all (\<lambda>(flag, p). node_ok p) cases"
  shows "node_ok (parse_join_after f e' e cases)"
proof -
  let ?f = "and_then f join_spec_state_close"
  let ?p = "\<lambda>arg. if deref arg = CHR ''-'' then flag_cases cases (next_spec ?f e arg) arg
    else if strings_equal arg ''+'' then \<lambda>s. do { s \<leftarrow> f s; call Next_Join s } else recover e'"
  have a: "fills ?f" using f by (intro fill_rules)
  have e: "parse_join_after f e' e cases = at_next ?f ?p"
  proof
    fix s show "parse_join_after f e' e cases s = at_next ?f ?p s"
      by (cases "the_arg (next_arg s)") (simp_all add: parse_join_after_def at_next_def Let_def)
  qed
  have "part_ok (?p arg)" for arg
    using flag_ok_cases [OF c flag_ok_next [OF a]] type_ok_recover part_ok_call [OF f] by (simp add: ok_rules)
  then show ?thesis unfolding e node_ok_def by (intro allI impI runs_at_next a) (simp_all only: part_ok_def simp_thms)
qed

text \<open>Functions that read an argument: they keep the place, or report an error.\<close>

definition reads :: "parse_arg \<Rightarrow> parse_state \<Rightarrow> bool" where
  "reads f s \<longleftrightarrow>
     (\<forall>M \<ge> mem_size (ps_mem s). f (grow M s) = map_option (\<lambda>(ok, s). (ok, grow M s)) (f s)) \<and>
     (\<forall>s'. f s = Some (True, s') \<longrightarrow> same_place s s') \<and>
     (\<forall>s'. f s = Some (False, s') \<longrightarrow> (\<exists>e. s' = report e s))"

lemma reads_refuse: "reads (refuse e) s"
  by (auto simp: reads_def refuse_def)

lemma reads_accept: "fills f \<Longrightarrow> reads (accept f) s"
proof -
  assume f: "fills f"
  have "f (grow M s) = map_option (grow M) (f s)" for M using f by (simp add: fills_def)
  moreover have "same_place s s'" if "f s = Some s'" for s' using f that by (simp add: fills_def)
  ultimately show ?thesis by (cases "f s") (auto simp: reads_def accept_def)
qed

lemma reads_look: "looks f \<Longrightarrow> (\<And>x. f s = Some x \<Longrightarrow> reads (g x) s) \<Longrightarrow> reads (\<lambda>s. Option.bind (f s) (\<lambda>x. g x s)) s"
  by (cases "f s") (simp_all add: reads_def looks_def)

lemma reads_option: "reads g s \<Longrightarrow> (\<And>x. reads (h x) s) \<Longrightarrow> reads (\<lambda>s. case r of None \<Rightarrow> g s | Some x \<Rightarrow> h x s) s"
  by (cases r) simp_all

lemma reads_prod: "(\<And>x y. reads (h x y) s) \<Longrightarrow> reads (\<lambda>s. case r of (x, y) \<Rightarrow> h x y s) s"
  by (cases r) simp_all

lemma reads_if: "reads g s \<Longrightarrow> reads h s \<Longrightarrow> reads (\<lambda>s. if b then g s else h s) s"
  by (cases b) simp_all

lemma reads_text:
  "reads f s \<Longrightarrow> reads g s \<Longrightarrow> reads h s \<Longrightarrow>
   reads (\<lambda>s. case r of Text_Ok \<Rightarrow> f s | Text_Invalid \<Rightarrow> g s | Text_Long \<Rightarrow> h s) s"
  by (cases r) simp_all

lemma looks_arg: "looks the_arg"
  by (simp add: looks_def)

lemmas reads_rules = reads_refuse reads_look [OF looks_arg] reads_option reads_prod reads_if reads_text
  reads_accept [OF fills_set_col] reads_look [where f = row_count] fill_rules

lemma reads_parse:
  "reads parse_grp_count s" "reads parse_hash_length s" "reads parse_base_string s" "reads parse_fixed_string s"
  unfolding parse_grp_count_def [abs_def] parse_hash_length_def [abs_def] parse_base_string_def [abs_def]
    parse_fixed_string_def [abs_def]
  by (intro reads_rules)+

lemma runs_if_parsed:
  assumes "reads f s" "in_block s" "ps_from s < length (ps_args s)" "i \<le> Suc (ps_from s)"
    and "\<And>s'. \<lbrakk>f s = Some (True, s'); same_place s s'; ps_from s' = ps_from s; ps_col s' = ps_col s; ps_tbl s' = ps_tbl s;
      ps_db s' = ps_db s; length (ps_args s') = length (ps_args s); in_block s' = in_block s; in_column s' = in_column s\<rbrakk> \<Longrightarrow>
      runs i p s'"
  shows "runs i (if_parsed f p) s"
proof -
  have g: "f (grow M s) = map_option (\<lambda>(ok, s). (ok, grow M s)) (f s)" if "mem_size (ps_mem s) \<le> M" for M
    using assms(1) that by (simp add: reads_def)
  show ?thesis
  proof (cases "f s")
    case (Some r)
    obtain ok s' where r: "r = (ok, s')" by (cases r)
    show ?thesis
    proof (cases ok)
      case True
      then have p: "same_place s s'" using assms(1) Some r by (simp add: reads_def)
      then have "in_block s' = in_block s" "in_column s' = in_column s" by (auto simp: in_column_def in_block_def same_place_def)
      then have "runs i p s'" using p Some r True by (intro assms(5) [OF _ p]) (simp_all add: same_place_def)
      then show ?thesis using p by (simp add: runs_def grows_def g Some r True if_parsed_def result_ok_def same_place_def)
    next
      case False
      then obtain e where e: "s' = report e s" using assms(1) Some r by (auto simp: reads_def)
      have "runs i (recover e) s" using runs_recover [OF assms(2,3)] assms(4) by (rule runs_mono)
      then show ?thesis by (simp add: runs_def grows_def g if_parsed_def Some r False e recover_def)
    qed
  qed (simp add: runs_def grows_def g if_parsed_def result_ok_def)
qed

text \<open>One more argument.\<close>

lemma runs_with_arg:
  assumes "ps_from s < length (ps_args s)"
    and "\<And>arg. the_arg (next_arg s) = Some arg \<Longrightarrow> ps_from (next_arg s) < length (ps_args (next_arg s)) \<Longrightarrow> runs i (p arg) (next_arg s)"
  shows "runs i (with_arg e p) s"
proof (cases "at_end (next_arg s)")
  case True
  have "runs i (\<lambda>s. give_up e (next_arg s)) s" using runs_give_up [of i e "next_arg s"] by (simp only: runs_next)
  then show ?thesis by (rule runs_cong) (use True in \<open>simp_all add: with_arg_def\<close>)
next
  case False
  then have l: "ps_from (next_arg s) < length (ps_args (next_arg s))" using assms(1) by (simp add: at_end_def next_arg_def)
  then obtain arg where arg: "the_arg (next_arg s) = Some arg" by (simp add: the_arg_def)
  from assms(2) [OF this l] have "runs i (\<lambda>s. p arg (next_arg s)) s" by (simp only: runs_next)
  then show ?thesis by (rule runs_cong) (use False arg in \<open>simp_all add: with_arg_def\<close>)
qed

lemma node_ok_with_arg [fill_rules]: "(\<And>arg. node_ok (p arg)) \<Longrightarrow> node_ok (with_arg e p)"
  unfolding node_ok_def
proof (intro allI impI runs_with_arg)
  fix s arg assume p: "\<And>arg. \<forall>s. in_column s \<longrightarrow> 8 \<le> ps_from s \<longrightarrow> runs (Suc (ps_from s)) (p arg) s"
    and s: "in_column s" "8 \<le> ps_from s" and l: "ps_from (next_arg s) < length (ps_args (next_arg s))"
  then have n: "\<not> at_end (next_arg s)" by (simp add: at_end_def)
  from p in_column_next [OF s(1) n] have "runs (Suc (Suc (ps_from s))) (p arg) (next_arg s)" by metis
  then show "runs (Suc (ps_from s)) (p arg) (next_arg s)" by (rule runs_mono) simp
qed (simp add: in_columnD)

lemma node_ok_if_parsed [fill_rules]: "(\<And>s. reads f s) \<Longrightarrow> node_ok p \<Longrightarrow> node_ok (if_parsed f p)"
  unfolding node_ok_def
  by (intro allI impI runs_if_parsed) (assumption | simp only: in_columnD order_refl | metis)+

lemma node_ok_cases [fill_rules]:
  "list_all (\<lambda>(flag, p). node_ok p) []"
  "node_ok p \<Longrightarrow> list_all (\<lambda>(flag, p). node_ok p) cases \<Longrightarrow> list_all (\<lambda>(flag, p). node_ok p) ((flag, p) # cases)"
  by simp_all

lemma node_ok_bind [fill_rules]: "fills f \<Longrightarrow> node_ok p \<Longrightarrow> node_ok (\<lambda>s. do { s \<leftarrow> f s; p s })"
  using node_ok_before [of f p] by (simp add: before_node_def [abs_def])

lemma node_ok_if [fill_rules]: "node_ok p \<Longrightarrow> node_ok q \<Longrightarrow> node_ok (if b then p else q)"
  by simp

lemma node_ok_cache [fill_rules]: "node_ok p \<Longrightarrow> node_ok (\<lambda>s. p (s\<lparr>ps_cache := c\<rparr>))"
proof -
  assume p: "node_ok p"
  have "runs (Suc (ps_from s)) p (s\<lparr>ps_cache := c\<rparr>)" if "in_column s" "8 \<le> ps_from s" for s
  proof -
    have "in_column (s\<lparr>ps_cache := c\<rparr>)" using that by (simp add: in_column_def in_block_def)
    then show ?thesis using p that by (auto simp: node_ok_def)
  qed
  then show "node_ok (\<lambda>s. p (s\<lparr>ps_cache := c\<rparr>))"
    unfolding node_ok_def by (intro allI impI runs_update [where u = "\<lambda>s. s\<lparr>ps_cache := c\<rparr>"]) simp_all
qed

lemma node_ok_parsed [fill_rules]:
  "(\<And>parsed until. node_ok (p parsed until)) \<Longrightarrow>
   node_ok (\<lambda>s. case r of None \<Rightarrow> recover e s | Some (parsed, until) \<Rightarrow> p parsed until s)"
  using node_ok_errors(1) [of e] by (cases r) auto

lemma node_ok_with_int [fill_rules]: "(\<And>arg parsed until. node_ok (p arg parsed until)) \<Longrightarrow> node_ok (with_int none invalid p)"
proof -
  assume p: "\<And>arg parsed until. node_ok (p arg parsed until)"
  have "node_ok (\<lambda>s. do { r \<leftarrow> parse_int arg;
      case r of None \<Rightarrow> recover invalid s | Some (parsed, until) \<Rightarrow> p arg parsed until s })" for arg
    using node_ok_parsed [of "p arg", OF p] node_ok_errors(1) [of invalid]
    by (cases "parse_int arg") (simp_all add: node_ok_def runs_def grows_def result_ok_def)
  then show ?thesis unfolding with_int_def by (intro fill_rules)
qed

lemma node_ok_with_uint [fill_rules]: "(\<And>arg parsed until. node_ok (p arg parsed until)) \<Longrightarrow> node_ok (with_uint none invalid p)"
  unfolding with_uint_def by (intro fill_rules)

lemma fills_set_arg [fill_rules]: "fills (\<lambda>s. Some (set_arg arg s))"
  by (simp add: fills_def) (simp add: set_arg_def same_place_def)

lemma fills_fixed [fill_rules]: "fills (fixed_negative arg until)" "fills (fixed_positive arg until)" "fills fixed_zero"
proof -
  have "fixed_negative arg until = and_then (\<lambda>s. Some (set_arg (arg[leading_zeros (tl arg) := CHR ''-'']) s))
      (set_type_q (stub_from (arg[leading_zeros (tl arg) := CHR ''-'']) until (leading_zeros (tl arg))))"
    by (rule ext) (simp add: fixed_negative_def and_then_def Let_def)
  then show "fills (fixed_negative arg until)" by (simp only:) (intro fill_rules)
qed (simp_all add: fixed_positive_def fixed_zero_def fill_rules)

section \<open>The parts of a column and of a join\<close>

lemma node_ok_grp_spec [fill_rules]: "fills f \<Longrightarrow> node_ok (parse_grp_spec f)" "fills f \<Longrightarrow> node_ok (parse_join_grp_spec f)"
  unfolding parse_grp_spec_def parse_join_grp_spec_def parse_column_complete_def parse_join_complete_def
  by (intro fill_rules reads_parse; assumption)+

lemma node_ok_complete [fill_rules]:
  "fills f \<Longrightarrow> node_ok p \<Longrightarrow> node_ok (parse_column_complete f p)" "fills f \<Longrightarrow> node_ok p \<Longrightarrow> node_ok (parse_join_complete f p)"
  unfolding parse_column_complete_def parse_join_complete_def by (intro fill_rules; assumption)+

lemma node_ok_fixed [fill_rules]: "node_ok error_grp_spec_for_fixed_data"
  unfolding error_grp_spec_for_fixed_data_def by (intro fill_rules)

lemma node_ok_join_integers [fill_rules]:
  "node_ok parse_join_integer_default_group" "node_ok parse_join_integer_default"
  "node_ok parse_join_integer_unique_group" "node_ok parse_join_integer_unique" "node_ok parse_join_integer_fixed"
  "node_ok parse_join_integer_random_default_group" "node_ok parse_join_integer_random_default"
  "node_ok parse_join_integer_random_from_group" "node_ok parse_join_integer_random_from"
  "node_ok parse_join_integer_random_upto_group" "node_ok parse_join_integer_random_upto"
  "node_ok parse_join_integer_random_range_group" "node_ok parse_join_integer_random_range"
  unfolding parse_join_integer_default_group_def parse_join_integer_default_def parse_join_integer_unique_group_def
    parse_join_integer_unique_def parse_join_integer_fixed_def parse_join_integer_random_default_group_def
    parse_join_integer_random_default_def parse_join_integer_random_from_group_def parse_join_integer_random_from_def
    parse_join_integer_random_upto_group_def parse_join_integer_random_upto_def
    parse_join_integer_random_range_group_def parse_join_integer_random_range_def
  by (intro fill_rules reads_parse)+

lemma node_ok_join_u_integers [fill_rules]:
  "node_ok parse_join_u_integer_default_group" "node_ok parse_join_u_integer_default"
  "node_ok parse_join_u_integer_unique_group" "node_ok parse_join_u_integer_unique"
  "node_ok parse_join_u_integer_fixed" "node_ok parse_join_u_integer_random_default_group"
  "node_ok parse_join_u_integer_random_default" "node_ok parse_join_u_integer_random_from_group"
  "node_ok parse_join_u_integer_random_from" "node_ok parse_join_u_integer_random_upto_group"
  "node_ok parse_join_u_integer_random_upto" "node_ok parse_join_u_integer_random_range_group"
  "node_ok parse_join_u_integer_random_range"
  unfolding parse_join_u_integer_default_group_def parse_join_u_integer_default_def
    parse_join_u_integer_unique_group_def parse_join_u_integer_unique_def parse_join_u_integer_fixed_def
    parse_join_u_integer_random_default_group_def parse_join_u_integer_random_default_def
    parse_join_u_integer_random_from_group_def parse_join_u_integer_random_from_def
    parse_join_u_integer_random_upto_group_def parse_join_u_integer_random_upto_def
    parse_join_u_integer_random_range_group_def parse_join_u_integer_random_range_def
  by (intro fill_rules reads_parse)+

lemma node_ok_join_strings [fill_rules]:
  "node_ok parse_join_string_default_group" "node_ok parse_join_string_default"
  "node_ok parse_join_string_unique_group" "node_ok parse_join_string_unique" "node_ok parse_join_string_fixed"
  "node_ok parse_join_string_uuid_group" "node_ok parse_join_string_uuid" "node_ok parse_join_string_hash_group"
  "node_ok parse_join_string_hash" "node_ok parse_join_string_names_first_group"
  "node_ok parse_join_string_names_first" "node_ok parse_join_string_names_last_group"
  "node_ok parse_join_string_names_last" "node_ok parse_join_string_names_full_group"
  "node_ok parse_join_string_names_full"
  unfolding parse_join_string_default_group_def parse_join_string_default_def parse_join_string_unique_group_def
    parse_join_string_unique_def parse_join_string_fixed_def parse_join_string_uuid_group_def
    parse_join_string_uuid_def parse_join_string_hash_group_def parse_join_string_hash_def
    parse_join_string_names_first_group_def parse_join_string_names_first_def parse_join_string_names_last_group_def
    parse_join_string_names_last_def parse_join_string_names_full_group_def parse_join_string_names_full_def
  by (intro fill_rules reads_parse)+

lemma node_ok_join_times [fill_rules]:
  "node_ok parse_join_timestamp_default_group" "node_ok parse_join_timestamp_default"
  "node_ok parse_join_timestamp_fixed" "node_ok parse_join_timestamp_unique_group"
  "node_ok parse_join_timestamp_unique" "node_ok parse_join_datetime_default_group"
  "node_ok parse_join_datetime_default" "node_ok parse_join_datetime_fixed"
  "node_ok parse_join_datetime_unique_group" "node_ok parse_join_datetime_unique"
  unfolding parse_join_timestamp_default_group_def parse_join_timestamp_default_def parse_join_timestamp_fixed_def
    parse_join_timestamp_unique_group_def parse_join_timestamp_unique_def parse_join_datetime_default_group_def
    parse_join_datetime_default_def parse_join_datetime_fixed_def parse_join_datetime_unique_group_def
    parse_join_datetime_unique_def
  by (intro fill_rules reads_parse)+

lemma node_ok_join_qualifiers [fill_rules]:
  "node_ok parse_join_integer_random" "node_ok parse_join_integer_qualifier" "node_ok parse_join_u_integer_random"
  "node_ok parse_join_u_integer_qualifier" "node_ok parse_join_string_qualifier"
  "node_ok parse_join_timestamp_qualifier" "node_ok parse_join_datetime_qualifier"
  unfolding parse_join_integer_random_def parse_join_integer_qualifier_def parse_join_u_integer_random_def
    parse_join_u_integer_qualifier_def parse_join_string_qualifier_def parse_join_timestamp_qualifier_def
    parse_join_datetime_qualifier_def
  by (intro fill_rules reads_parse)+

lemma node_ok_column_integers [fill_rules]:
  "node_ok parse_integer_default_group" "node_ok parse_integer_default" "node_ok parse_integer_unique_group"
  "node_ok parse_integer_unique" "node_ok parse_integer_fixed" "node_ok parse_integer_random_default_group"
  "node_ok parse_integer_random_default" "node_ok parse_integer_random_from_group"
  "node_ok parse_integer_random_from" "node_ok parse_integer_random_upto_group" "node_ok parse_integer_random_upto"
  "node_ok parse_integer_random_range_group" "node_ok parse_integer_random_range"
  unfolding parse_integer_default_group_def parse_integer_default_def parse_integer_unique_group_def
    parse_integer_unique_def parse_integer_fixed_def parse_integer_random_default_group_def
    parse_integer_random_default_def parse_integer_random_from_group_def parse_integer_random_from_def
    parse_integer_random_upto_group_def parse_integer_random_upto_def parse_integer_random_range_group_def
    parse_integer_random_range_def
  by (intro fill_rules reads_parse)+

lemma node_ok_column_u_integers [fill_rules]:
  "node_ok parse_u_integer_default_group" "node_ok parse_u_integer_default" "node_ok parse_u_integer_unique_group"
  "node_ok parse_u_integer_unique" "node_ok parse_u_integer_fixed" "node_ok parse_u_integer_random_default_group"
  "node_ok parse_u_integer_random_default" "node_ok parse_u_integer_random_from_group"
  "node_ok parse_u_integer_random_from" "node_ok parse_u_integer_random_upto_group"
  "node_ok parse_u_integer_random_upto" "node_ok parse_u_integer_random_range_group"
  "node_ok parse_u_integer_random_range"
  unfolding parse_u_integer_default_group_def parse_u_integer_default_def parse_u_integer_unique_group_def
    parse_u_integer_unique_def parse_u_integer_fixed_def parse_u_integer_random_default_group_def
    parse_u_integer_random_default_def parse_u_integer_random_from_group_def parse_u_integer_random_from_def
    parse_u_integer_random_upto_group_def parse_u_integer_random_upto_def parse_u_integer_random_range_group_def
    parse_u_integer_random_range_def
  by (intro fill_rules reads_parse)+

lemma node_ok_column_strings [fill_rules]:
  "node_ok parse_string_default_group" "node_ok parse_string_default" "node_ok parse_string_unique_group"
  "node_ok parse_string_unique" "node_ok parse_string_fixed" "node_ok parse_string_uuid_group"
  "node_ok parse_string_uuid" "node_ok parse_string_hash_group" "node_ok parse_string_hash"
  "node_ok parse_string_names_first_group" "node_ok parse_string_names_first" "node_ok parse_string_names_last_group"
  "node_ok parse_string_names_last" "node_ok parse_string_names_full_group" "node_ok parse_string_names_full"
  unfolding parse_string_default_group_def parse_string_default_def parse_string_unique_group_def
    parse_string_unique_def parse_string_fixed_def parse_string_uuid_group_def parse_string_uuid_def
    parse_string_hash_group_def parse_string_hash_def parse_string_names_first_group_def parse_string_names_first_def
    parse_string_names_last_group_def parse_string_names_last_def parse_string_names_full_group_def
    parse_string_names_full_def
  by (intro fill_rules reads_parse)+

lemma node_ok_column_times [fill_rules]:
  "node_ok parse_timestamp_default_group" "node_ok parse_timestamp_default" "node_ok parse_timestamp_fixed"
  "node_ok parse_timestamp_unique_group" "node_ok parse_timestamp_unique" "node_ok parse_datetime_default_group"
  "node_ok parse_datetime_default" "node_ok parse_datetime_fixed" "node_ok parse_datetime_unique_group"
  "node_ok parse_datetime_unique"
  unfolding parse_timestamp_default_group_def parse_timestamp_default_def parse_timestamp_fixed_def
    parse_timestamp_unique_group_def parse_timestamp_unique_def parse_datetime_default_group_def
    parse_datetime_default_def parse_datetime_fixed_def parse_datetime_unique_group_def parse_datetime_unique_def
  by (intro fill_rules reads_parse)+

lemma type_ok_with: "type_ok p \<Longrightarrow> type_ok q \<Longrightarrow> type_ok (if b then p else q)"
  by simp

lemma node_ok_with_look: "(\<And>arg. node_ok (p arg)) \<Longrightarrow> node_ok (\<lambda>s. do { arg \<leftarrow> the_arg s; p arg s })"
  unfolding node_ok_def by (intro allI impI runs_look looks_arg) blast

lemma node_ok_flag_cases: "list_all (\<lambda>(flag, p). node_ok p) cases \<Longrightarrow> node_ok d \<Longrightarrow> node_ok (flag_cases cases d arg)"
  by (induction cases d arg rule: flag_cases.induct) auto

lemma type_ok_flag_cases: "list_all (\<lambda>(flag, p). type_ok p) cases \<Longrightarrow> type_ok d \<Longrightarrow> type_ok (flag_cases cases d arg)"
  by (induction cases d arg rule: flag_cases.induct) auto

lemma node_ok_parse_join: "node_ok parse_join"
proof -
  have "node_ok (if_parsed parse_fixed_string (parse_join_complete join_string_fixed error_grp_spec_for_fixed_data))"
    by (intro fill_rules reads_parse)
  moreover have "node_ok (flag_cases
      [(INTEGER, parse_join_integer_qualifier), (U_INTEGER, parse_join_u_integer_qualifier), (STRING, parse_join_string_qualifier),
       (TIMESTAMP, parse_join_timestamp_qualifier), (DATETIME, parse_join_datetime_qualifier)]
      (recover Invalid_Col_Type) arg)" for arg
    by (intro node_ok_flag_cases fill_rules)
  ultimately have "node_ok (\<lambda>s. do { arg \<leftarrow> the_arg s;
      (if deref arg \<noteq> CHR ''-'' then if_parsed parse_fixed_string (parse_join_complete join_string_fixed error_grp_spec_for_fixed_data)
       else flag_cases
         [(INTEGER, parse_join_integer_qualifier), (U_INTEGER, parse_join_u_integer_qualifier), (STRING, parse_join_string_qualifier),
          (TIMESTAMP, parse_join_timestamp_qualifier), (DATETIME, parse_join_datetime_qualifier)]
         (recover Invalid_Col_Type) arg) s })"
    by (intro node_ok_with_look) (simp only: if_splits(1) simp_thms)
  then show ?thesis unfolding parse_join_def [abs_def] by (simp only: if_distribR)
qed

lemma node_ok_join_spec [fill_rules]: "node_ok parse_join_spec"
proof -
  have "node_ok (with_arg No_Join_Spec (\<lambda>arg. before_node join_spec_state_init parse_join))"
    by (intro fill_rules node_ok_parse_join)
  then have r: "runs (Suc (ps_from s)) (with_arg No_Join_Spec (\<lambda>arg. before_node join_spec_state_init parse_join)) s"
    if "in_column s" "8 \<le> ps_from s" for s
    using that by (simp add: node_ok_def)
  have e: "with_arg No_Join_Spec (\<lambda>arg. before_node join_spec_state_init parse_join) s = parse_join_spec s"
    if "ps_from s < length (ps_args s)" for s
    using that by (auto simp: parse_join_spec_def with_arg_def before_node_def at_end_def the_arg_def next_arg_def Let_def)
  show ?thesis
    unfolding node_ok_def by (intro allI impI runs_cong [OF r] e) (simp_all add: in_columnD)
qed

lemma type_ok_qualifiers:
  "type_ok parse_integer_qualifier" "type_ok parse_u_integer_qualifier" "type_ok parse_string_qualifier"
  "type_ok parse_timestamp_qualifier" "type_ok parse_datetime_qualifier"
  unfolding parse_integer_random_def parse_integer_qualifier_def parse_u_integer_random_def parse_u_integer_qualifier_def
    parse_string_qualifier_def parse_timestamp_qualifier_def parse_datetime_qualifier_def
  by (intro type_ok_after fill_rules)+

lemma type_ok_col_type: "type_ok parse_col_type"
  unfolding type_ok_def
proof (intro allI impI)
  fix s assume s: "in_column s"
  let ?p = "\<lambda>arg. if deref arg \<noteq> CHR ''-'' then recover Invalid_Col_Type
      else flag_cases
        [(INTEGER, parse_integer_qualifier), (U_INTEGER, parse_u_integer_qualifier), (STRING, parse_string_qualifier),
         (TIMESTAMP, parse_timestamp_qualifier), (DATETIME, parse_datetime_qualifier)]
        (recover Invalid_Col_Type) arg"
  have "type_ok (?p arg)" for arg
    by (intro type_ok_with type_ok_flag_cases) (simp_all add: type_ok_recover type_ok_qualifiers)
  then have "runs (Suc (ps_from s)) (\<lambda>s. the_arg s \<bind> (\<lambda>arg. ?p arg s)) s"
    using s by (intro runs_look looks_arg) (simp only: type_ok_def)
  then show "runs (Suc (ps_from s)) parse_col_type s"
    by (rule runs_cong) (simp_all only: parse_col_type_def if_distribR)
qed

end
