(* ===== verification/Parse_Main.thy ===== *)
theory Parse_Main
  imports Parse_Steps
begin

text \<open>
  The parser as a whole, \<open>generate_dispatch\<close> of \<open>src/mysql_seed_generate.h\<close>: new columns, tables and
  databases stay in the block of the specifications, and the parser comes to an end.
\<close>

section \<open>New columns, tables and databases\<close>

lemma mem_take_grow:
  "a + spec_size x \<le> mem_size m \<Longrightarrow> mem_size m \<le> M \<Longrightarrow>
   mem_take a x (m\<lparr>mem_size := M\<rparr>) = map_option (\<lambda>m. m\<lparr>mem_size := M\<rparr>) (mem_take a x m)"
  by (simp add: mem_take_def)

lemma mem_take_size: "mem_take a x m = Some m' \<Longrightarrow> mem_size m' = mem_size m"
  by (auto simp: mem_take_def split: if_splits)

lemma take_grow:
  "a + spec_size x \<le> mem_size (ps_mem s) \<Longrightarrow> mem_size (ps_mem s) \<le> M \<Longrightarrow>
   with_mem (mem_take a x) (grow M s) = map_option (grow M) (with_mem (mem_take a x) s)"
  by (simp add: with_mem_def grow_def mem_take_grow Option.bind_map_option comp_def map_option_bind)

lemma take_place: "with_mem (mem_take a x) s = Some s' \<Longrightarrow> same_place s s'"
  by (auto simp: with_mem_def same_place_def mem_take_size split: bind_splits)

lemma reads_take:
  assumes "a + spec_size x \<le> mem_size (ps_mem s)"
  shows "reads (accept (with_mem (mem_take a x))) s"
  using take_grow [OF assms] take_place [of a x s]
  by (cases "with_mem (mem_take a x) s") (auto simp: reads_def accept_def)

lemma reads_flags: "reads col_flag_match s" "reads tbl_flag_match s" "reads db_flag_match s"
  by (auto simp: reads_def col_flag_match_def tbl_flag_match_def db_flag_match_def refuse_def split: bind_splits)

lemma reads_names:
  "a + sizeof_ColSpec \<le> mem_size (ps_mem s) \<Longrightarrow> reads (parse_col_name a) s"
  "a + sizeof_TblSpec \<le> mem_size (ps_mem s) \<Longrightarrow> reads (parse_tbl_name a) s"
  "a + sizeof_DbSpec \<le> mem_size (ps_mem s) \<Longrightarrow> reads (parse_db_name a) s"
  unfolding parse_col_name_def [abs_def] parse_tbl_name_def [abs_def] parse_db_name_def [abs_def]
  by (intro reads_look [OF looks_arg] reads_option reads_refuse reads_take; simp)+

lemma reads_row_count: "reads (parse_row_count a) s"
proof -
  have "fills (with_mem (mem_set_tbl a g))" for g
    by (auto simp: fills_def with_mem_def same_place_def grow_def mem_set_tbl_grow Option.bind_map_option comp_def
        map_option_bind split: bind_splits dest: mem_set_size)
  then show ?thesis unfolding parse_row_count_def [abs_def]
    by (intro reads_look [OF looks_arg] reads_option reads_prod reads_if reads_refuse reads_accept)
qed

lemma in_block_simps [simp]:
  "in_block (s\<lparr>ps_tbl := a\<rparr>) = in_block s" "in_block (s\<lparr>ps_col := a\<rparr>) = in_block s"
  "in_block (s\<lparr>ps_database := d\<rparr>) = in_block s" "in_column (s\<lparr>ps_database := d\<rparr>) = in_column s"
  by (simp_all add: in_block_def in_column_def)

lemma next_simps [simp]:
  "ps_from (next_arg s) = Suc (ps_from s)" "ps_args (next_arg s) = ps_args s" "ps_col (next_arg s) = ps_col s"
  "ps_tbl (next_arg s) = ps_tbl s" "ps_db (next_arg s) = ps_db s" "ps_mem (next_arg s) = ps_mem s"
  by (simp_all add: next_arg_def)

lemma in_block_size: "in_block s \<Longrightarrow> mem_size (ps_mem s) = cap (length (ps_args s))"
  by (simp add: in_block_def)

lemma cap_le: "a \<le> cap i \<Longrightarrow> i \<le> j \<Longrightarrow> a \<le> cap j"
  using cap_mono [of i j] by simp

lemma runs_type:
  assumes "in_block s" "7 \<le> ps_from s" "ps_from s < length (ps_args s)" "ps_col s + sizeof_ColSpec \<le> cap (ps_from s)"
    "i \<le> Suc (ps_from s)"
  shows "runs i (\<lambda>s. parse_col_type (s\<lparr>ps_database := f (ps_database s)\<rparr>)) s"
proof -
  have "in_column (s\<lparr>ps_database := f (ps_database s)\<rparr>)" using assms by (simp add: in_column_def)
  from type_ok_col_type [unfolded type_ok_def, rule_format, OF this]
  have "runs (Suc (ps_from s)) parse_col_type (s\<lparr>ps_database := f (ps_database s)\<rparr>)" by simp
  from runs_mono [OF this assms(5)] show ?thesis
    by (intro runs_update [where u = "\<lambda>s. s\<lparr>ps_database := f (ps_database s)\<rparr>"]) (simp_all add: grow_def)
qed

lemma runs_next_col:
  assumes "call_inv Next_Col s"
  shows "runs (Suc (ps_from s)) parse_next_col_spec s"
proof -
  have s: "in_block s" "8 \<le> ps_from s" "ps_from s < length (ps_args s)" "ps_col s + sizeof_ColSpec \<le> cap (ps_from s)"
    using assms by (simp_all add: in_column_def)
  have c: "ps_col s + sizeof_ColSpec + sizeof_ColSpec \<le> cap (Suc (Suc (ps_from s)))" using s(4) cap_2 [OF s(2)] by simp
  let ?u = "\<lambda>s. s\<lparr>ps_col := ps_col s + sizeof_ColSpec\<rparr>"
  let ?p = "with_arg No_Col_Type (\<lambda>arg s. parse_col_type (s\<lparr>ps_database := count_column (ps_database s)\<rparr>))"
  show ?thesis unfolding parse_next_col_spec_def
  proof (intro runs_with_arg s(3))
    assume l: "ps_from (next_arg s) < length (ps_args (next_arg s))"
    let ?s = "?u (next_arg s)"
    have b: "in_block ?s" using s(1) by (simp add: in_block_next)
    have "ps_col ?s + sizeof_ColSpec \<le> mem_size (ps_mem ?s)"
      using cap_le [OF c] l in_block_size [OF s(1)] by simp
    then have "runs (Suc (ps_from s)) (if_parsed (parse_col_name (ps_col s + sizeof_ColSpec)) ?p) ?s"
      using b l s(2) c by (intro runs_if_parsed reads_names runs_with_arg runs_type) (simp_all add: in_block_next)
    then have "runs (Suc (ps_from s)) (\<lambda>s'. if_parsed (parse_col_name (ps_col s + sizeof_ColSpec)) ?p (?u s')) (next_arg s)"
      by (intro runs_update [where u = ?u]) (simp_all add: grow_def)
    then show "runs (Suc (ps_from s)) (\<lambda>s. let s = ?u s in if_parsed (parse_col_name (ps_col s)) ?p s) (next_arg s)"
      by (rule runs_cong) (simp_all add: Let_def)
  qed
qed

lemma runs_next_join:
  assumes "call_inv Next_Join s"
  shows "runs (Suc (ps_from s)) parse_next_join s"
proof -
  have s: "in_block s" "9 \<le> ps_from s" "ps_from s < length (ps_args s)" "ps_col s + sizeof_ColSpec \<le> cap (ps_from s - 1)"
    using assms by (simp_all add: in_column_def behind_column_def)
  have "cap (ps_from s - 1 + 2) = cap (ps_from s - 1) + sizeof_ColSpec" using s(2) by (intro cap_2) simp
  moreover have "ps_from s - 1 + 2 = Suc (ps_from s)" using s(2) by simp
  ultimately have c: "ps_col s + sizeof_ColSpec + sizeof_ColSpec \<le> cap (Suc (ps_from s))" using s(4) by simp
  let ?u = "\<lambda>s. s\<lparr>ps_col := ps_col s + sizeof_ColSpec, ps_database := count_column (ps_database s)\<rparr>"
  let ?p = "\<lambda>s. do { s \<leftarrow> with_mem (mem_take (ps_col s) (Col new_col)) s; parse_join s }"
  have "runs (Suc (ps_from s)) (with_arg Expected_Join (\<lambda>arg s. ?p (?u s))) s"
  proof (intro runs_with_arg s(3))
    assume l: "ps_from (next_arg s) < length (ps_args (next_arg s))"
    let ?s = "?u (next_arg s)"
    have m: "ps_col ?s + sizeof_ColSpec \<le> mem_size (ps_mem ?s)" using cap_le [OF c] l in_block_size [OF s(1)] by simp
    have "in_column ?s" using s l c by (auto simp: in_column_def in_block_next)
    have "runs (Suc (ps_from s)) ?p ?s"
    proof (cases "with_mem (mem_take (ps_col ?s) (Col new_col)) ?s")
      case None
      then show ?thesis using take_grow [of "ps_col ?s" "Col new_col" ?s] m by (simp add: runs_def grows_def result_ok_def)
    next
      case (Some s')
      have p: "same_place ?s s'" using take_place [OF Some] .
      then have "in_column s'" "8 \<le> ps_from s'" using in_column_place [OF p \<open>in_column ?s\<close>] s(2) by (simp_all add: same_place_def)
      then have "runs (Suc (ps_from s')) parse_join s'" using node_ok_parse_join by (simp add: node_ok_def)
      then have "runs (Suc (ps_from s)) parse_join s'" by (rule runs_mono) (use p in \<open>simp add: same_place_def\<close>)
      then show ?thesis using take_grow [of "ps_col ?s" "Col new_col" ?s] m Some p
        by (simp add: runs_def grows_def result_ok_def same_place_def)
    qed
    then show "runs (Suc (ps_from s)) (\<lambda>s. ?p (?u s)) (next_arg s)"
      by (intro runs_update [where u = ?u]) (simp_all add: grow_def)
  qed
  then show ?thesis
    by (rule runs_cong)
      (use s(3) in \<open>auto simp: parse_next_join_def with_arg_def at_end_def the_arg_def Let_def\<close>)
qed

text \<open>The first column of a table, behind the number of rows.\<close>

lemma runs_first_col:
  assumes "in_block s" "7 \<le> ps_from s" "ps_from s < length (ps_args s)" "a + sizeof_ColSpec \<le> cap (ps_from s)" "i \<le> Suc (ps_from s)"
  shows "runs i (\<lambda>s. do { s \<leftarrow> first_col a s; parse_col_type (s\<lparr>ps_database := f (ps_database s)\<rparr>) }) s"
proof -
  let ?u = "\<lambda>s. s\<lparr>ps_col := a\<rparr>"
  have "runs i (\<lambda>s. do { s \<leftarrow> set_tbl (\<lambda>t. t\<lparr>tbl_from := Some a\<rparr>) s; parse_col_type ((?u s)\<lparr>ps_database := f (ps_database (?u s))\<rparr>) }) s"
  proof (intro runs_bind fills_set_tbl)
    fix s' assume s': "ps_from s' = ps_from s" "length (ps_args s') = length (ps_args s)" "in_block s' = in_block s"
    have "runs i (\<lambda>s. parse_col_type (s\<lparr>ps_database := f (ps_database s)\<rparr>)) (?u s')"
      using s' assms by (intro runs_type) simp_all
    then show "runs i (\<lambda>s. parse_col_type ((?u s)\<lparr>ps_database := f (ps_database (?u s))\<rparr>)) s'"
      by (intro runs_update [where u = ?u and p = "\<lambda>s. parse_col_type (s\<lparr>ps_database := f (ps_database s)\<rparr>)"]) (simp_all add: grow_def)
  qed
  then show ?thesis by (simp add: first_col_def)
qed

lemma runs_first_col_spec:
  assumes "in_block s" "5 \<le> ps_from s" "ps_from s < length (ps_args s)"
    "ps_tbl s + sizeof_TblSpec + sizeof_ColSpec \<le> cap (Suc (Suc (ps_from s)))" "i \<le> Suc (ps_from s)"
  shows "runs i parse_first_col_spec s"
proof -
  let ?col = "ps_tbl s + sizeof_TblSpec"
  let ?p = "if_parsed (parse_col_name ?col)
      (with_arg No_Col_Type (\<lambda>arg s. do { s \<leftarrow> first_col ?col s; parse_col_type (s\<lparr>ps_database := count_column (ps_database s)\<rparr>) }))"
  have "runs i (if_parsed col_flag_match (with_arg Inc_Db_Spec_Col_Name (\<lambda>arg. ?p))) s"
  proof (rule runs_if_parsed [OF reads_flags(1)])
    fix s' assume s': "ps_from s' = ps_from s" "length (ps_args s') = length (ps_args s)" "in_block s' = in_block s"
    show "runs i (with_arg Inc_Db_Spec_Col_Name (\<lambda>arg. ?p)) s'"
    proof (rule runs_with_arg)
      assume l: "ps_from (next_arg s') < length (ps_args (next_arg s'))"
      have "?col + sizeof_ColSpec \<le> mem_size (ps_mem s')" using cap_le [OF assms(4)] l s' in_block_size [of s'] assms(1) by simp
      then show "runs i ?p (next_arg s')" using s' assms l
        by (intro runs_if_parsed reads_names runs_with_arg runs_first_col) (simp_all add: in_block_next)
    qed (use s' assms in simp)
  qed (use assms in simp_all)
  then show ?thesis by (rule runs_cong) (simp_all add: parse_first_col_spec_def Let_def)
qed

lemma runs_first_col_safe:
  assumes "in_block s" "4 \<le> ps_from s" "ps_from s + 3 < length (ps_args s)"
    "ps_tbl s + sizeof_TblSpec + sizeof_ColSpec \<le> cap (ps_from s + 3)" "i \<le> Suc (ps_from s)"
  shows "runs i parse_first_col_spec_safe s"
proof -
  let ?col = "ps_tbl s + sizeof_TblSpec"
  let ?u = "\<lambda>s. next_arg (s\<lparr>ps_col := ?col\<rparr>)"
  let ?r = "\<lambda>s. do { s \<leftarrow> set_tbl (\<lambda>t. t\<lparr>tbl_from := Some ?col\<rparr>) s; parse_col_type (?u s) }"
  have n: "?col + sizeof_ColSpec \<le> mem_size (ps_mem s)" using cap_le [OF assms(4)] in_block_size assms by simp
  have r: "runs i ?r s'" if "in_block s'" "ps_from s' = ps_from s + 2" "length (ps_args s') = length (ps_args s)" for s'
  proof (intro runs_bind fills_set_tbl)
    fix s'' assume s: "ps_from s'' = ps_from s'" "length (ps_args s'') = length (ps_args s')" "in_block s'' = in_block s'"
    have "in_column (?u s'')" using s that assms by (auto simp: in_column_def in_block_next eval_nat_numeral)
    then have "runs (Suc (ps_from (?u s''))) parse_col_type (?u s'')" using type_ok_col_type by (simp only: type_ok_def)
    then have "runs i parse_col_type (?u s'')" by (rule runs_mono) (use s that assms in simp)
    then show "runs i (\<lambda>s. parse_col_type (?u s)) s''" by (intro runs_update [where u = ?u]) (simp_all add: grow_def next_arg_def)
  qed
  have "runs i (if_parsed (parse_col_name ?col) ?r) s'"
    if "in_block s'" "ps_from s' = ps_from s + 2" "length (ps_args s') = length (ps_args s)" for s'
    using n assms that in_block_size [of s'] in_block_size [of s] by (intro runs_if_parsed reads_names r) simp_all
  then have "runs i (if_parsed col_flag_match (\<lambda>s. if_parsed (parse_col_name ?col) ?r (next_arg s))) (next_arg s)"
    using assms by (intro runs_if_parsed [OF reads_flags(1)] iffD1 [OF runs_next [where p = "if_parsed (parse_col_name ?col) ?r"]])
      (simp_all add: in_block_next)
  then have "runs i (\<lambda>s. if_parsed col_flag_match (\<lambda>s. if_parsed (parse_col_name ?col) ?r (next_arg s)) (next_arg s)) s"
    by (rule iffD1 [OF runs_next])
  then show ?thesis by (rule runs_cong) (simp_all add: parse_first_col_spec_safe_def first_col_def Let_def)
qed

lemma runs_count:
  assumes "\<And>n. runs i p (s\<lparr>ps_database := f n (ps_database s)\<rparr>)"
  shows "runs i (\<lambda>s. do { n \<leftarrow> row_count s; p (s\<lparr>ps_database := f n (ps_database s)\<rparr>) }) s"
proof (rule runs_look)
  fix n
  show "runs i (\<lambda>s. p (s\<lparr>ps_database := f n (ps_database s)\<rparr>)) s"
    using assms by (intro runs_update [where u = "\<lambda>s. s\<lparr>ps_database := f n (ps_database s)\<rparr>"]) (simp_all add: grow_def)
qed (simp add: fill_rules)

lemma runs_next_tbl_name:
  assumes "in_block s" "9 \<le> ps_from s" "ps_from s < length (ps_args s)"
    "ps_tbl s + sizeof_TblSpec \<le> cap (Suc (ps_from s))" "ps_tbl s + sizeof_TblSpec + sizeof_ColSpec \<le> cap (ps_from s + 4)"
    "i \<le> Suc (ps_from s)"
  shows "runs i (\<lambda>s. if_parsed (parse_tbl_name (ps_tbl s))
      (with_arg Inc_Db_Spec_Row_Count (\<lambda>arg s. if_parsed (parse_row_count (ps_tbl s))
        (with_arg Inc_Db_Spec_Col_Flag (\<lambda>arg s.
           do { n \<leftarrow> row_count s; parse_first_col_spec (s\<lparr>ps_database := count_table n (ps_database s)\<rparr>) })) s)) s) s"
proof -
  let ?r = "\<lambda>s. do { n \<leftarrow> row_count s; parse_first_col_spec (s\<lparr>ps_database := count_table n (ps_database s)\<rparr>) }"
  have r: "runs i (with_arg Inc_Db_Spec_Row_Count (\<lambda>arg s. if_parsed (parse_row_count (ps_tbl s))
      (with_arg Inc_Db_Spec_Col_Flag (\<lambda>arg. ?r)) s)) s'"
    if s': "ps_from s' = ps_from s" "length (ps_args s') = length (ps_args s)" "in_block s' = in_block s" "ps_tbl s' = ps_tbl s" for s'
  proof (rule runs_with_arg)
    assume l: "ps_from (next_arg s') < length (ps_args (next_arg s'))"
    have "runs i (if_parsed (parse_row_count (ps_tbl s)) (with_arg Inc_Db_Spec_Col_Flag (\<lambda>arg. ?r))) (next_arg s')"
    proof (rule runs_if_parsed [OF reads_row_count])
      fix t assume t: "ps_from t = ps_from (next_arg s')" "length (ps_args t) = length (ps_args (next_arg s'))"
        "in_block t = in_block (next_arg s')" "ps_tbl t = ps_tbl (next_arg s')"
      show "runs i (with_arg Inc_Db_Spec_Col_Flag (\<lambda>arg. ?r)) t"
      proof (rule runs_with_arg)
        assume "ps_from (next_arg t) < length (ps_args (next_arg t))"
        then show "runs i ?r (next_arg t)"
          using t s' assms by (intro runs_count runs_first_col_spec) (simp_all add: in_block_next eval_nat_numeral)
      qed (use t l in simp)
    qed (use s' assms l in \<open>simp_all add: in_block_next\<close>)
    then show "runs i (\<lambda>s. if_parsed (parse_row_count (ps_tbl s)) (with_arg Inc_Db_Spec_Col_Flag (\<lambda>arg. ?r)) s) (next_arg s')"
      by (rule runs_cong) (simp_all add: s')
  qed (use s' assms in simp)
  have "ps_tbl s + sizeof_TblSpec \<le> mem_size (ps_mem s)" using cap_le [OF assms(4)] assms(1,3) in_block_size [of s] by simp
  then have "runs i (if_parsed (parse_tbl_name (ps_tbl s)) (with_arg Inc_Db_Spec_Row_Count (\<lambda>arg s.
      if_parsed (parse_row_count (ps_tbl s)) (with_arg Inc_Db_Spec_Col_Flag (\<lambda>arg. ?r)) s))) s"
    using assms by (intro runs_if_parsed reads_names r) simp_all
  then show ?thesis by (rule runs_cong) simp_all
qed

lemma runs_next_tbl:
  assumes "call_inv Next_Tbl s"
  shows "runs (Suc (ps_from s)) parse_next_tbl_spec s"
proof -
  have s: "in_block s" "8 \<le> ps_from s" "ps_from s < length (ps_args s)" "table_end s" using assms by simp_all
  have c: "cap (Suc (Suc (ps_from s))) = cap (ps_from s) + sizeof_ColSpec"
    "cap (ps_from s + 4) = cap (ps_from s) + sizeof_ColSpec + sizeof_ColSpec"
    using cap_2 [of "ps_from s"] cap_2 [of "ps_from s + 2"] s(2) by (simp_all add: eval_nat_numeral)
  let ?p = "\<lambda>s. if_parsed (parse_tbl_name (ps_tbl s))
      (with_arg Inc_Db_Spec_Row_Count (\<lambda>arg s. if_parsed (parse_row_count (ps_tbl s))
        (with_arg Inc_Db_Spec_Col_Flag (\<lambda>arg s.
           do { n \<leftarrow> row_count s; parse_first_col_spec (s\<lparr>ps_database := count_table n (ps_database s)\<rparr>) })) s)) s"
  have "runs (Suc (ps_from s)) (\<lambda>s. do { t \<leftarrow> the_tbl s; until \<leftarrow> tbl_until t;
      s \<leftarrow> set_tbl (\<lambda>t. t\<lparr>tbl_next := Some (Some until)\<rparr>) s; ?p (s\<lparr>ps_tbl := until\<rparr>) }) (next_arg s)"
    if l: "Suc (ps_from s) < length (ps_args s)"
  proof (rule runs_look [where f = the_tbl])
    fix t assume t: "the_tbl (next_arg s) = Some t"
    show "runs (Suc (ps_from s)) (\<lambda>s. do { until \<leftarrow> tbl_until t;
        s \<leftarrow> set_tbl (\<lambda>t. t\<lparr>tbl_next := Some (Some until)\<rparr>) s; ?p (s\<lparr>ps_tbl := until\<rparr>) }) (next_arg s)"
    proof (rule runs_look [where f = "\<lambda>s. tbl_until t"])
      fix until assume "tbl_until t = Some until"
      then have u: "until \<le> cap (ps_from s)" using s(4) t by (simp add: table_end_def the_tbl_def)
      have m: "cap (ps_from s + 4) \<le> cap (Suc (ps_from s + 4))" by (rule cap_mono) simp
      show "runs (Suc (ps_from s)) (\<lambda>s. do { s \<leftarrow> set_tbl (\<lambda>t. t\<lparr>tbl_next := Some (Some until)\<rparr>) s; ?p (s\<lparr>ps_tbl := until\<rparr>) }) (next_arg s)"
      proof (rule runs_bind [OF fills_set_tbl])
        fix s' assume s': "ps_from s' = ps_from (next_arg s)" "length (ps_args s') = length (ps_args (next_arg s))"
          "in_block s' = in_block (next_arg s)"
        have "runs (Suc (ps_from s)) ?p (s'\<lparr>ps_tbl := until\<rparr>)"
          by (rule runs_next_tbl_name) (use s' s l u c m in \<open>simp_all add: in_block_next\<close>)
        then show "runs (Suc (ps_from s)) (\<lambda>s. ?p (s\<lparr>ps_tbl := until\<rparr>)) s'"
          by (intro runs_update [where u = "\<lambda>s. s\<lparr>ps_tbl := until\<rparr>" and p = ?p]) simp_all
      qed
    qed (simp add: looks_def)
  qed (simp add: fill_rules)
  then have "runs (Suc (ps_from s)) (before_node next_tbl ?p) (next_arg s)" if "Suc (ps_from s) < length (ps_args s)"
    using that by (simp add: before_node_def [abs_def] next_tbl_def)
  then show ?thesis unfolding parse_next_tbl_spec_def using s(3) by (intro runs_with_arg) simp_all
qed

lemma runs_first_tbl:
  assumes "in_block s" "1 \<le> ps_from s" "ps_from s + 6 < length (ps_args s)"
    "ps_db s + sizeof_DbSpec + sizeof_TblSpec + sizeof_ColSpec \<le> cap (ps_from s + 6)" "i \<le> Suc (ps_from s)"
  shows "runs i parse_first_tbl_spec s"
proof -
  let ?tbl = "ps_db s + sizeof_DbSpec"
  let ?r = "\<lambda>s. do { n \<leftarrow> row_count s; parse_first_col_spec_safe (s\<lparr>ps_database := database_counter_init n\<rparr>) }"
  let ?q = "\<lambda>s. do { s \<leftarrow> set_db (\<lambda>d. d\<lparr>db_tbl_specs := Some ?tbl\<rparr>) s; ?r (s\<lparr>ps_tbl := ?tbl\<rparr>) }"
  let ?p = "if_parsed (parse_row_count ?tbl) ?q"
  have q: "runs i ?q t" if "in_block t" "ps_from t = ps_from s + 3" "length (ps_args t) = length (ps_args s)" for t
  proof (rule runs_bind [OF fills_set_db])
    fix t' assume t: "ps_from t' = ps_from t" "length (ps_args t') = length (ps_args t)" "in_block t' = in_block t"
    have "runs i ?r (t'\<lparr>ps_tbl := ?tbl\<rparr>)"
      using t that assms by (intro runs_count [where f = "\<lambda>n d. database_counter_init n"] runs_first_col_safe)
        (simp_all add: ac_simps)
    then show "runs i (\<lambda>s. ?r (s\<lparr>ps_tbl := ?tbl\<rparr>)) t'"
      by (intro runs_update [where u = "\<lambda>s. s\<lparr>ps_tbl := ?tbl\<rparr>" and p = ?r]) simp_all
  qed
  have p: "runs i ?p t" if "in_block t" "ps_from t = ps_from s + 3" "length (ps_args t) = length (ps_args s)" for t
    using that assms by (intro runs_if_parsed reads_row_count q) simp_all
  have m: "?tbl + sizeof_TblSpec \<le> cap (length (ps_args s))"
    using cap_mono [of "ps_from s + 6" "length (ps_args s)"] assms(3,4) by simp
  have t: "runs i (if_parsed (parse_tbl_name ?tbl) (\<lambda>s. ?p (next_arg s))) t"
    if "in_block t" "ps_from t = ps_from s + 2" "length (ps_args t) = length (ps_args s)" for t
  proof (rule runs_if_parsed [OF reads_names(2)])
    fix t' assume "ps_from t' = ps_from t" "length (ps_args t') = length (ps_args t)" "in_block t' = in_block t"
    then have "runs i ?p (next_arg t')" using that by (intro p) (simp_all add: in_block_next)
    then show "runs i (\<lambda>s. ?p (next_arg s)) t'" by (rule iffD1 [OF runs_next])
  qed (use that assms m in_block_size [of t] in simp_all)
  have "runs i (if_parsed tbl_flag_match (\<lambda>s. if_parsed (parse_tbl_name ?tbl) (\<lambda>s. ?p (next_arg s)) (next_arg s))) (next_arg s)"
  proof (rule runs_if_parsed [OF reads_flags(2)])
    fix t' assume "ps_from t' = ps_from (next_arg s)" "length (ps_args t') = length (ps_args (next_arg s))"
      "in_block t' = in_block (next_arg s)"
    then have "runs i (if_parsed (parse_tbl_name ?tbl) (\<lambda>s. ?p (next_arg s))) (next_arg t')"
      using assms by (intro t) (simp_all add: in_block_next)
    then show "runs i (\<lambda>s. if_parsed (parse_tbl_name ?tbl) (\<lambda>s. ?p (next_arg s)) (next_arg s)) t'" by (rule iffD1 [OF runs_next])
  qed (use assms in \<open>simp_all add: in_block_next\<close>)
  then have "runs i (\<lambda>s. if_parsed tbl_flag_match (\<lambda>s. if_parsed (parse_tbl_name ?tbl) (\<lambda>s. ?p (next_arg s)) (next_arg s)) (next_arg s)) s"
    by (rule iffD1 [OF runs_next])
  then show ?thesis by (rule runs_cong) (simp_all add: parse_first_tbl_spec_def Let_def)
qed

text \<open>A database that has eight arguments has room for its first column.\<close>

lemma runs_first_db:
  assumes "in_block s" "ps_from s + 8 \<le> length (ps_args s)" "i \<le> Suc (ps_from s)"
  shows "runs i parse_first_db_spec s"
proof -
  let ?p = "if_parsed (parse_db_name (ps_db s)) parse_first_tbl_spec"
  have d: "ps_db s + sizeof_DbSpec + sizeof_TblSpec + sizeof_ColSpec \<le> cap (ps_from s + 7)"
  proof (cases "ps_db s = 0")
    case True
    then show ?thesis using cap_least [of "ps_from s + 7"] by simp
  next
    case False
    then have "8 \<le> ps_from s" "ps_db s \<le> cap (ps_from s)" using assms(1) by (auto simp: in_block_def)
    then show ?thesis using cap_2 [of "ps_from s"] cap_2 [of "ps_from s + 2"] cap_mono [of "ps_from s + 4" "ps_from s + 7"]
      by (simp add: eval_nat_numeral)
  qed
  then have "ps_db s + sizeof_DbSpec \<le> mem_size (ps_mem s)"
    using cap_le [OF d, of "length (ps_args s)"] in_block_size [OF assms(1)] assms(2) by simp
  then have "runs i ?p (next_arg s)"
    using assms d by (intro runs_if_parsed reads_names runs_first_tbl) (simp_all add: in_block_next ac_simps)
  then have "runs i (\<lambda>s. ?p (next_arg s)) s" by (rule iffD1 [OF runs_next])
  then show ?thesis by (rule runs_cong) (simp_all add: parse_first_db_spec_def Let_def)
qed

lemma runs_next_db:
  assumes "call_inv Next_Db s"
  shows "runs (Suc (ps_from s)) parse_next_db_spec s"
proof (cases "ps_from s < ps_db_until s")
  case True
  then have "runs (Suc (ps_from s)) parse_first_db_spec s" using assms by (intro runs_first_db) (auto simp: in_block_def)
  then show ?thesis by (rule runs_cong) (use True in \<open>simp_all add: parse_next_db_spec_def parse_first_db_spec_def Let_def\<close>)
next
  case False
  let ?s = "if ps_from s < length (ps_args s) then report Short_Db_Spec s else s"
  have e: "parse_next_db_spec (grow M s) = map_option (grow_outcome M)
      (do { s \<leftarrow> set_last None ?s; stop (s\<lparr>ps_failed := True\<rparr>) })" for M
    using False by (cases "set_last None ?s") (auto simp: parse_next_db_spec_def set_lastD(2) stop_def if_distribR split: if_splits)
  have e': "parse_next_db_spec s = do { s \<leftarrow> set_last None ?s; stop (s\<lparr>ps_failed := True\<rparr>) }"
    using False by (simp add: parse_next_db_spec_def)
  have "ps_errors ?s \<noteq> []" using assms by (auto simp: report_def in_block_def)
  moreover have "length (ps_args ?s) = length (ps_args s)" by (simp add: report_def)
  ultimately show ?thesis unfolding runs_def grows_def e e'
    using set_lastD(1) [of None ?s] by (cases "set_last None ?s") (auto simp: result_ok_def stop_def same_place_def)
qed

lemma runs_parse_call: "call_inv n s \<Longrightarrow> runs (Suc (ps_from s)) (parse_call n) s"
  by (cases n) (simp_all only: parse_call.simps runs_next_col runs_next_tbl runs_next_db runs_next_join)

section \<open>The parser\<close>

text \<open>
  The functions of the parser call each other until one of them returns. The calls are counted; a
  result \<^term>\<open>Call n s\<close> says that the count was not enough.
\<close>

fun parse_run :: "nat \<Rightarrow> node \<Rightarrow> parse_node" where
  "parse_run 0 n s = Some (Call n s)"
| "parse_run (Suc calls) n s =
     do { r \<leftarrow> parse_call n s; case r of Stop s \<Rightarrow> Some (Stop s) | Call n s \<Rightarrow> parse_run calls n s }"

definition DB_SPEC_LENGTH_MIN :: nat where "DB_SPEC_LENGTH_MIN = 8"

definition spec_alloc_size :: "nat \<Rightarrow> nat" where
  "spec_alloc_size rem_argc =
     sizeof_DbSpec + sizeof_TblSpec + ((rem_argc - DB_SPEC_LENGTH_MIN) div 2 + 1) * sizeof_ColSpec"

definition parse_init :: "nat \<Rightarrow> string list \<Rightarrow> parse_state" where
  "parse_init alloc args =
     \<lparr>ps_args = args, ps_from = 0, ps_db_until = length args + 1 - DB_SPEC_LENGTH_MIN, ps_cache = None,
      ps_mem = \<lparr>mem_at = (\<lambda>a. None), mem_size = alloc\<rparr>, ps_db = 0, ps_tbl = 0, ps_col = 0,
      ps_join = \<lparr>jn_length = 0, jn_varchar = False, jn_base = 0, jn_base_name = Name_Unset\<rparr>,
      ps_generator = generator_counter_init, ps_database = database_counter_init 0, ps_last = None, ps_head = None, ps_failed = False, ps_errors = []\<rparr>"

definition parse_specs :: "nat \<Rightarrow> string list \<Rightarrow> outcome option" where
  "parse_specs alloc args =
     do { r \<leftarrow> parse_db_specs (parse_init alloc args);
          case r of Stop s \<Rightarrow> Some (Stop s) | Call n s \<Rightarrow> parse_run (length args) n s }"

text \<open>
  \<open>generate_dispatch\<close>, up to \<open>mysql_seed_generate\<close>: the memory allocator answers \<open>malloc\<close>.
\<close>

datatype dispatch = No_Db_Specs | Db_Spec_Short | Malloc_Failure | No_Valid_Db_Spec | Generate parse_state

definition generate_dispatch :: "bool \<Rightarrow> string list \<Rightarrow> dispatch option" where
  "generate_dispatch malloc args =
     (if length args = 0 then Some No_Db_Specs
      else if length args + 1 \<le> DB_SPEC_LENGTH_MIN then Some Db_Spec_Short
      else if \<not> malloc then Some Malloc_Failure
      else
        do { r \<leftarrow> parse_specs (spec_alloc_size (length args)) args;
             case r of Call n s \<Rightarrow> None
             | Stop s \<Rightarrow> Some (if gc_databases (ps_generator s) = 0 then No_Valid_Db_Spec else Generate s) })"

text \<open>
  The exit status. The parser sets it where it sets \<open>ps_failed\<close>; \<open>mysql_seed_generate\<close> is given its address
  and leaves it alone if the generation succeeds (\<open>generated\<close>), or sets it to \<open>EXIT_FAILURE\<close>.
\<close>

datatype exit_code = EXIT_SUCCESS | EXIT_FAILURE

definition dispatch_exit :: "(parse_state \<Rightarrow> bool) \<Rightarrow> dispatch \<Rightarrow> exit_code" where
  "dispatch_exit generated r =
     (case r of
        Generate s \<Rightarrow> if \<not> generated s then EXIT_FAILURE else if ps_failed s then EXIT_FAILURE else EXIT_SUCCESS
      | No_Db_Specs \<Rightarrow> EXIT_FAILURE
      | Db_Spec_Short \<Rightarrow> EXIT_FAILURE
      | Malloc_Failure \<Rightarrow> EXIT_FAILURE
      | No_Valid_Db_Spec \<Rightarrow> EXIT_FAILURE)"

section \<open>Properties\<close>

lemma spec_alloc_cap: "spec_alloc_size n = cap n"
  by (simp add: spec_alloc_size_def cap_def DB_SPEC_LENGTH_MIN_def)

lemma runs_db_specs:
  assumes "DB_SPEC_LENGTH_MIN \<le> length args"
  shows "runs 1 parse_db_specs (parse_init (spec_alloc_size (length args)) args)"
proof -
  let ?s = "parse_init (spec_alloc_size (length args)) args"
  have s: "in_block ?s" "ps_from ?s = 0" "ps_args ?s = args"
    by (simp_all add: in_block_def parse_init_def spec_alloc_cap DB_SPEC_LENGTH_MIN_def)
  have "8 \<le> length args" using assms by (simp add: DB_SPEC_LENGTH_MIN_def)
  then have "runs 1 (if_parsed db_flag_match parse_first_db_spec) ?s"
    using s by (intro runs_if_parsed reads_flags runs_first_db) auto
  then show ?thesis by (rule runs_cong) (simp_all add: parse_db_specs_def)
qed

lemma call_inv_from: "call_inv n s \<Longrightarrow> ps_from s \<le> length (ps_args s)"
  by (cases n) (auto simp: in_column_def)

lemma call_inv_block: "call_inv n s \<Longrightarrow> in_block s"
  by (cases n) (auto simp: in_column_def)

lemma parse_run_ok:
  assumes "call_inv n s" "length (ps_args s) < calls + ps_from s"
  shows "(\<forall>M \<ge> mem_size (ps_mem s). parse_run calls n (grow M s) = map_option (grow_outcome M) (parse_run calls n s)) \<and>
    (\<forall>r. parse_run calls n s = Some r \<longrightarrow> (\<exists>s'. r = Stop s' \<and> (ps_failed s' \<longleftrightarrow> ps_errors s' \<noteq> [])))"
  using assms
proof (induction calls n s rule: parse_run.induct)
  case (1 n s)
  then show ?case using call_inv_from [of n s] by simp
next
  case (2 calls n s)
  have r: "grows (parse_call n) s" "result_ok (Suc (ps_from s)) s (parse_call n s)"
    using runs_parse_call [OF 2(2)] by (simp_all add: runs_def)
  have g: "parse_call n (grow M s) = map_option (grow_outcome M) (parse_call n s)" if "mem_size (ps_mem s) \<le> M" for M
    using r(1) that by (simp add: grows_def)
  show ?case
  proof (cases "parse_call n s")
    case None
    then show ?thesis by (simp add: g)
  next
    case (Some o')
    show ?thesis
    proof (cases o')
      case (Stop s')
      then show ?thesis using r(2) Some by (auto simp: g result_ok_def)
    next
      case (Call n' s')
      then have c: "call_inv n' s'" "Suc (ps_from s) \<le> ps_from s'" "length (ps_args s') = length (ps_args s)"
        using r(2) Some by (auto simp: result_ok_def)
      have "mem_size (ps_mem s') = mem_size (ps_mem s)"
        using in_block_size [OF call_inv_block [OF c(1)]] in_block_size [OF call_inv_block [OF 2(2)]] c(3) by simp
      then show ?thesis using 2(1) [OF Some Call c(1)] c 2(3) by (simp add: g Some Call)
    qed
  qed
qed

lemma parse_specs_ok:
  assumes "DB_SPEC_LENGTH_MIN \<le> length args"
  defines "alloc \<equiv> spec_alloc_size (length args)"
  shows "alloc \<le> M \<Longrightarrow> parse_specs M args = map_option (grow_outcome M) (parse_specs alloc args)"
    and "parse_specs alloc args = Some r \<Longrightarrow> \<exists>s. r = Stop s \<and> (ps_failed s \<longleftrightarrow> ps_errors s \<noteq> [])"
proof -
  let ?s = "parse_init alloc args"
  have r: "runs 1 parse_db_specs ?s" using runs_db_specs [OF assms(1)] by (simp add: alloc_def)
  have i: "parse_init M args = grow M ?s" for M by (simp add: parse_init_def grow_def)
  have n: "mem_size (ps_mem ?s) = alloc" "length (ps_args ?s) = length args" by (simp_all add: parse_init_def)
  have g: "parse_db_specs (grow M ?s) = map_option (grow_outcome M) (parse_db_specs ?s)" if "alloc \<le> M" for M
    using r that n(1) by (simp add: runs_def grows_def)
  have ok: "call_inv m s'" "1 \<le> ps_from s'" "length (ps_args s') = length args" "mem_size (ps_mem s') = alloc"
    if "parse_db_specs ?s = Some (Call m s')" for m s'
  proof -
    show *: "call_inv m s'" "1 \<le> ps_from s'" "length (ps_args s') = length args"
      using r that n(2) by (auto simp: runs_def result_ok_def)
    show "mem_size (ps_mem s') = alloc"
      using in_block_size [OF call_inv_block [OF *(1)]] *(3) by (simp add: alloc_def spec_alloc_cap)
  qed
  have run: "(\<forall>M \<ge> alloc. parse_run (length args) m (grow M s') = map_option (grow_outcome M) (parse_run (length args) m s')) \<and>
      (\<forall>r. parse_run (length args) m s' = Some r \<longrightarrow> (\<exists>s. r = Stop s \<and> (ps_failed s \<longleftrightarrow> ps_errors s \<noteq> [])))"
    if "parse_db_specs ?s = Some (Call m s')" for m s'
    using parse_run_ok [OF ok(1) [OF that], of "length args"] ok(2-4) [OF that] by simp
  show "alloc \<le> M \<Longrightarrow> parse_specs M args = map_option (grow_outcome M) (parse_specs alloc args)"
    using run by (cases "parse_db_specs ?s") (auto simp: parse_specs_def i [of M] g split: outcome.splits)
  show "parse_specs alloc args = Some r \<Longrightarrow> \<exists>s. r = Stop s \<and> (ps_failed s \<longleftrightarrow> ps_errors s \<noteq> [])"
    using run r by (cases "parse_db_specs ?s") (auto simp: parse_specs_def runs_def result_ok_def split: outcome.splits)
qed

lemma generate_dispatchD:
  assumes "generate_dispatch malloc args = Some (Generate s)"
  shows "DB_SPEC_LENGTH_MIN \<le> length args \<and> parse_specs (spec_alloc_size (length args)) args = Some (Stop s)"
proof
  show n: "DB_SPEC_LENGTH_MIN \<le> length args"
    using assms by (simp add: generate_dispatch_def split: if_split_asm)
  obtain r where r: "parse_specs (spec_alloc_size (length args)) args = Some r"
    using assms n by (cases "parse_specs (spec_alloc_size (length args)) args") (simp_all add: generate_dispatch_def split: if_split_asm)
  then show "parse_specs (spec_alloc_size (length args)) args = Some (Stop s)"
    using assms n by (cases r) (simp_all add: generate_dispatch_def split: if_split_asm)
qed

text \<open>
  C9: The block that \<open>generate_dispatch\<close> allocates suffices for every command line: the parser does
  exactly the same, up to the size of the block, with any larger block, so no specification is ever
  written behind its end.
\<close>

theorem spec_alloc_suffices:
  assumes "DB_SPEC_LENGTH_MIN \<le> length args"
  shows "parse_specs (spec_alloc_size (length args) + k) args =
    map_option (grow_outcome (spec_alloc_size (length args) + k)) (parse_specs (spec_alloc_size (length args)) args)"
  by (rule parse_specs_ok(1) [OF assms]) simp


text \<open>
  C11: The exit status of \<open>generate_dispatch\<close>, on all its ways out. It is \<open>EXIT_SUCCESS\<close> exactly if there
  are arguments for a database, the block of the specifications was allocated, the parser came to its
  end with at least one database and without having reported an error on any of the arguments, and
  \<open>mysql_seed_generate\<close> left the status alone.
\<close>

theorem dispatch_failure:
  "map_option (dispatch_exit generated) (generate_dispatch malloc args) = Some EXIT_SUCCESS \<longleftrightarrow>
    DB_SPEC_LENGTH_MIN \<le> length args \<and> malloc \<and>
    (\<exists>s. parse_specs (spec_alloc_size (length args)) args = Some (Stop s) \<and> gc_databases (ps_generator s) \<noteq> 0 \<and>
      ps_errors s = [] \<and> generated s)"
proof (cases "DB_SPEC_LENGTH_MIN \<le> length args \<and> malloc")
  case True
  then have e: "generate_dispatch malloc args =
      do { r \<leftarrow> parse_specs (spec_alloc_size (length args)) args;
           case r of Call n s \<Rightarrow> None
           | Stop s \<Rightarrow> Some (if gc_databases (ps_generator s) = 0 then No_Valid_Db_Spec else Generate s) }"
    by (auto simp: generate_dispatch_def DB_SPEC_LENGTH_MIN_def)
  show ?thesis
  proof (cases "parse_specs (spec_alloc_size (length args)) args")
    case (Some r)
    then obtain s where s: "r = Stop s" "ps_failed s \<longleftrightarrow> ps_errors s \<noteq> []" using parse_specs_ok(2) True by blast
    then have "generate_dispatch malloc args = Some (if gc_databases (ps_generator s) = 0 then No_Valid_Db_Spec else Generate s)"
      unfolding e Some by simp
    then show ?thesis using True Some s by (simp add: dispatch_exit_def)
  next
    case None
    then have "generate_dispatch malloc args = None" unfolding e by simp
    then show ?thesis using None by simp
  qed
next
  case False
  then show ?thesis by (auto simp: generate_dispatch_def dispatch_exit_def DB_SPEC_LENGTH_MIN_def split: if_splits)
qed

text \<open>A shortest command line with a specification.\<close>

definition shortest :: "string list" where
  "shortest = [''-d'', ''shop'', ''-t'', ''item'', ''10'', ''-c'', ''id'', ''-i'']"

lemma length_shortest: "length shortest = 8"
  by (simp add: shortest_def)

theorem spec_alloc_suffices_witness:
  "parse_specs (240 + 160) shortest = map_option (grow_outcome (240 + 160)) (parse_specs 240 shortest)"
  using spec_alloc_suffices [of shortest 160] by (simp add: spec_alloc_size_def DB_SPEC_LENGTH_MIN_def length_shortest)


end
