(* ===== verification/Parse_Valid.thy ===== *)
theory Parse_Valid
  imports Parse_Main
begin

text \<open>
  Command lines without errors: the arguments that describe a list of databases, and the block of
  specifications the parser of \<open>src/mysql_seed_generate.h\<close> makes of them.
\<close>

section \<open>Descriptions and their arguments\<close>

datatype grouping = Rows | Groups nat group_partitioner

datatype column_kind = Numbers | Unsigned_Numbers | Named_Strings | Numbered_Strings string | Uuids | Timestamps | Datetimes

type_synonym column_desc = "string \<times> column_kind \<times> grouping"
type_synonym table_desc = "string \<times> nat \<times> column_desc list"
type_synonym database_desc = "string \<times> table_desc list"

fun grouping_args :: "grouping \<Rightarrow> string list" where
  "grouping_args Rows = []"
| "grouping_args (Groups n Partition_Groups_Even) = [''-g'', decimal n, ''-e'']"
| "grouping_args (Groups n Partition_Groups_Linear) = [''--group'', decimal n, ''--linear'']"

fun kind_args :: "column_kind \<Rightarrow> string list" where
  "kind_args Numbers = [''-i'']"
| "kind_args Unsigned_Numbers = [''-u'']"
| "kind_args Named_Strings = [''-s'']"
| "kind_args (Numbered_Strings base) = [''-s'', ''-u'', base]"
| "kind_args Uuids = [''-s'', ''-uu'']"
| "kind_args Timestamps = [''--timestamp'']"
| "kind_args Datetimes = [''--datetime'']"

fun column_args :: "column_desc \<Rightarrow> string list" where
  "column_args (name, kind, g) = [''-c'', name] @ kind_args kind @ grouping_args g"

fun table_args :: "table_desc \<Rightarrow> string list" where
  "table_args (name, rows, columns) = [''-t'', name, decimal rows] @ concat (map column_args columns)"

fun database_args :: "database_desc \<Rightarrow> string list" where
  "database_args (name, tables) = [''-d'', name] @ concat (map table_args tables)"

fun grouping_valid :: "nat \<Rightarrow> grouping \<Rightarrow> bool" where
  "grouping_valid rows Rows = True"
| "grouping_valid rows (Groups n p) = (0 < n \<and> n \<le> rows)"

fun kind_valid :: "column_kind \<Rightarrow> bool" where
  "kind_valid (Numbered_Strings base) = (string_loop BASE_STRING_LENGTH_MAX base = Text_Ok)"
| "kind_valid kind = True"

fun column_valid :: "nat \<Rightarrow> column_desc \<Rightarrow> bool" where
  "column_valid rows (name, kind, g) =
     (parse_name COL_NAME_LENGTH_MAX Column name = None \<and> kind_valid kind \<and> grouping_valid rows g)"

fun table_valid :: "table_desc \<Rightarrow> bool" where
  "table_valid (name, rows, columns) =
     (parse_name TBL_NAME_LENGTH_MAX Table_Name name = None \<and> 0 < rows \<and> rows \<le> UPTO_MAX \<and>
      columns \<noteq> [] \<and> list_all (column_valid rows) columns)"

fun database_valid :: "database_desc \<Rightarrow> bool" where
  "database_valid (name, tables) =
     (parse_name DB_NAME_LENGTH_MAX Database name = None \<and> tables \<noteq> [] \<and> list_all table_valid tables)"

section \<open>What they mean\<close>

text \<open>The number of distinct values of a column, the text of its type, and how it is built.\<close>

fun grouping_count :: "nat \<Rightarrow> grouping \<Rightarrow> nat" where
  "grouping_count rows Rows = rows"
| "grouping_count rows (Groups n p) = n"

definition is_grouped :: "grouping \<Rightarrow> bool" where
  "is_grouped g \<longleftrightarrow> g \<noteq> Rows"

definition label :: "string \<Rightarrow> put_label" where
  "label text = \<lparr>pl_buffer = text @ [NUL] @ drop (length text + 1) label_buffer, pl_width = length text\<rparr>"

definition varchar :: "nat \<Rightarrow> put_label" where
  "varchar n = label (''VARCHAR('' @ decimal n @ '')'')"

fun kind_type :: "string \<Rightarrow> nat \<Rightarrow> column_kind \<Rightarrow> put_label" where
  "kind_type name n Numbers = type_assign_integer_upto (of_nat n)"
| "kind_type name n Unsigned_Numbers = type_assign_u_integer_upto (of_nat n)"
| "kind_type name n Named_Strings = varchar (length name + length (decimal n))"
| "kind_type name n (Numbered_Strings base) = varchar (length base + length (decimal n))"
| "kind_type name n Uuids = UUID_TYPE"
| "kind_type name n Timestamps = type_set_timestamp"
| "kind_type name n Datetimes = type_set_datetime"

fun kind_qualifier :: "string \<Rightarrow> column_kind \<Rightarrow> type_qualifier" where
  "kind_qualifier name Named_Strings = Q_String name (length name)"
| "kind_qualifier name (Numbered_Strings base) = Q_String base (length base)"
| "kind_qualifier name kind = Q_Unset"

text \<open>The groups of unsigned numbers are built as signed ones.\<close>

fun kind_build :: "column_kind \<Rightarrow> bool \<Rightarrow> builder" where
  "kind_build Numbers grouped = build_column_integer Unique grouped"
| "kind_build Unsigned_Numbers grouped = (if grouped then build_column_integer Unique True else build_column_u_integer Unique False)"
| "kind_build Named_Strings grouped = build_column_string Str_Unique grouped"
| "kind_build (Numbered_Strings base) grouped = build_column_string Str_Unique grouped"
| "kind_build Uuids grouped = build_column_string Str_Uuid grouped"
| "kind_build Timestamps grouped = build_column_timestamp Time_Unique grouped"
| "kind_build Datetimes grouped = build_column_datetime Time_Unique grouped"

fun column_spec :: "nat \<Rightarrow> column_desc \<Rightarrow> ColSpec" where
  "column_spec rows (name, kind, g) =
     \<lparr>col_bytes = Name name, col_length = Some (length name),
      col_type = Some (kind_type name (grouping_count rows g) kind), col_type_q = kind_qualifier name kind,
      col_grp_count = (case g of Rows \<Rightarrow> None | Groups n p \<Rightarrow> Some n),
      col_partition = (case g of Rows \<Rightarrow> None | Groups n p \<Rightarrow> Some p),
      col_build = Some (kind_build kind (is_grouped g))\<rparr>"

text \<open>The counter of the database: the strings of numbers and the generator of random numbers it needs.\<close>

fun kind_counts :: "nat \<Rightarrow> column_kind \<Rightarrow> database_counter \<Rightarrow> database_counter" where
  "kind_counts n Uuids d = d\<lparr>dc_ctor_flags := dc_ctor_flags d OR of_nat RAND_32_UUID_CTOR_FLAG\<rparr>"
| "kind_counts n Timestamps d = d"
| "kind_counts n Datetimes d = d"
| "kind_counts n kind d = count_upto n d"

fun column_counts :: "nat \<Rightarrow> column_desc \<Rightarrow> database_counter \<Rightarrow> database_counter" where
  "column_counts rows (name, kind, g) d = kind_counts (grouping_count rows g) kind d"

section \<open>Filling in a column\<close>

definition fill :: "ColSpec \<Rightarrow> database_counter \<Rightarrow> parse_state \<Rightarrow> parse_state" where
  "fill c d s = s\<lparr>ps_mem := (ps_mem s)\<lparr>mem_at := (mem_at (ps_mem s))(ps_col s \<mapsto> Col c)\<rparr>, ps_database := d\<rparr>"

lemma fill_fill [simp]: "fill c d (fill c' d' s) = fill c d s"
  by (simp add: fill_def)

lemma fill_simps [simp]:
  "ps_args (fill c d s) = ps_args s" "ps_from (fill c d s) = ps_from s" "ps_col (fill c d s) = ps_col s"
  "ps_tbl (fill c d s) = ps_tbl s" "ps_db (fill c d s) = ps_db s" "ps_database (fill c d s) = d" "the_col (fill c d s) = Some c"
  "next_arg (fill c d s) = fill c d (next_arg s)" "at_end (fill c d s) = at_end s" "at_end (fill c d s) = at_end s" "the_arg (fill c d s) = the_arg s"
  "mem_size (ps_mem (fill c d s)) = mem_size (ps_mem s)"
  by (simp_all add: fill_def the_col_def mem_col_def next_arg_def at_end_def the_arg_def)

lemma row_count_fill [simp]: "ps_tbl s \<noteq> ps_col s \<Longrightarrow> row_count (fill c d s) = row_count s"
  by (simp add: row_count_def the_tbl_def mem_tbl_def fill_def)

lemma grp_count_fill [simp]: "grp_count (fill c d s) = col_grp_count c"
  by (simp add: grp_count_def)

lemma string_length_fill [simp]: "string_length_q (fill c d s) = (case col_type_q c of Q_String text n \<Rightarrow> Some n | _ \<Rightarrow> None)"
  by (simp add: string_length_q_def type_q_def)

lemma set_col_fill [simp]: "set_col f (fill c d s) = Some (fill (f c) d s)"
  by (simp add: set_col_def with_mem_def mem_set_col_def mem_col_def fill_def)

lemma counters_fill [simp]:
  "raise_upto n (fill c d s) = Some (fill c (count_upto n d) s)"
  "or_ctor_flags flag (fill c d s) = Some (fill c (d\<lparr>dc_ctor_flags := dc_ctor_flags d OR of_nat flag\<rparr>) s)"
  by (simp_all add: raise_upto_def or_ctor_flags_def fill_def)

lemma digits_decimal: "n < 2 ^ 64 \<Longrightarrow> digits n = length (decimal n)"
  by (simp add: digits_def uint_digit_count_length unat_of_nat_uintmax)

lemma length_decimal_64: "n < 2 ^ 64 \<Longrightarrow> length (decimal n) \<le> 20"
proof (rule ccontr)
  assume n: "n < 2 ^ 64" and "\<not> length (decimal n) \<le> 20"
  then have "(10::nat) ^ 20 \<le> 10 ^ (length (decimal n) - 1)" by (intro power_increasing) auto
  moreover have "n \<noteq> 0" using \<open>\<not> length (decimal n) \<le> 20\<close> decimal_small [of 0] by (cases "n = 0") simp_all
  ultimately show False using length_decimal_lower [of n] n by simp
qed

lemma type_set_varchar_label:
  assumes "n < 2 ^ 64"
  shows "type_set_varchar n = Some (varchar n)"
proof -
  have u: "unat (of_nat n :: uintmax) = n" using assms by (intro unat_of_nat_uintmax) simp
  let ?t = "''VARCHAR('' @ decimal n" and ?w = "\<lambda>b p. do { (b, p) \<leftarrow> PUT_STRING_WIDTH ''VARCHAR('' 8 b p; put_uint (of_nat n) b p }"
  have t: "writes ?w ?t"
    by (intro writes_bind writes_PUT_STRING_WIDTH writes_put_uint [of "of_nat n", unfolded u]) simp
  have l: "length ?t \<le> 28" "length label_buffer = 32" using length_decimal_64 [OF assms]
    by (simp_all add: label_buffer_def CHAR_BUFFER_WIDTH_MAX_def)
  then have 1: "?w label_buffer 0 = Some (?t @ drop (length ?t) label_buffer, length ?t)"
    using writes_at [OF t, of 0 label_buffer] by simp
  have 2: "SET_STRING_WIDTH (?t @ drop (length ?t) label_buffer) (length ?t) '')'' 2 =
      Some (?t @ '')'' @ [NUL] @ drop (length ?t + 2) label_buffer)"
    using writes_at [OF writes_PUT_STRING_WIDTH_nul [of 2 "'')''"], of "length ?t" "?t @ drop (length ?t) label_buffer"] l
    by (auto simp: PUT_STRING_WIDTH_def)
  have "type_set_varchar n = do { (b, p) \<leftarrow> ?w label_buffer 0; close_label b p }"
    by (simp add: type_set_varchar_def split_def)
  then show ?thesis by (simp only: 1 bind.bind_lunit prod.case close_label_def 2 varchar_def label_def) simp
qed

text \<open>How each kind of column is filled in, and the column before that.\<close>

fun kind_fill :: "column_kind \<Rightarrow> bool \<Rightarrow> setter" where
  "kind_fill Numbers grouped = (if grouped then column_integer_default_group else column_integer_default)"
| "kind_fill Unsigned_Numbers grouped = (if grouped then column_u_integer_default_group else column_u_integer_default)"
| "kind_fill Named_Strings grouped = (if grouped then column_string_default_group else column_string_default)"
| "kind_fill (Numbered_Strings base) grouped = (if grouped then column_string_unique_group else column_string_unique)"
| "kind_fill Uuids grouped = (if grouped then column_string_uuid_group else column_string_uuid)"
| "kind_fill Timestamps grouped = (if grouped then column_timestamp_default_group else column_timestamp_default)"
| "kind_fill Datetimes grouped = (if grouped then column_datetime_default_group else column_datetime_default)"

definition named_col :: "string \<Rightarrow> ColSpec" where
  "named_col name = new_col\<lparr>col_bytes := Name name, col_length := Some (length name)\<rparr>"

fun kind_pre :: "column_kind \<Rightarrow> ColSpec \<Rightarrow> ColSpec" where
  "kind_pre (Numbered_Strings base) c = c\<lparr>col_type_q := Q_String base (length base)\<rparr>"
| "kind_pre kind c = c"

fun grouping_pre :: "grouping \<Rightarrow> ColSpec \<Rightarrow> ColSpec" where
  "grouping_pre Rows c = c"
| "grouping_pre (Groups n p) c = c\<lparr>col_grp_count := Some n, col_partition := Some p\<rparr>"

lemma kind_fill_spec:
  assumes "row_count s = Some rows" "ps_tbl s \<noteq> ps_col s" "grouping_count rows g < 2 ^ 32" "length name < 2 ^ 32"
    "\<forall>base. kind = Numbered_Strings base \<longrightarrow> length base < 2 ^ 32"
  shows "kind_fill kind (is_grouped g) (fill (grouping_pre g (kind_pre kind (named_col name))) d s) =
    Some (fill (column_spec rows (name, kind, g)) (column_counts rows (name, kind, g) d) s)"
proof -
  have n: "digits (grouping_count rows g) = length (decimal (grouping_count rows g))" using assms(3) by (intro digits_decimal) simp
  have l: "length (decimal (grouping_count rows g)) \<le> 20" using assms(3) by (intro length_decimal_64) simp
  have v: "type_set_varchar (length str + length (decimal (grouping_count rows g))) =
      Some (varchar (length str + length (decimal (grouping_count rows g))))" if "length str < 2 ^ 32" for str :: string
    using that l by (intro type_set_varchar_label) simp
  have v': "\<forall>base. kind = Numbered_Strings base \<longrightarrow>
      type_set_varchar (length base + length (decimal (grouping_count rows g))) =
      Some (varchar (length base + length (decimal (grouping_count rows g))))"
    using v assms(5) by blast
  note shared = column_counted_def column_flagged_def column_typed_def set_type_def set_build_def set_type_q_def
  show ?thesis
    using assms(1-4) n v [of name] v'
    by (cases kind; cases g)
      (simp_all add: shared is_grouped_def named_col_def new_col_def column_integer_default_def column_integer_default_group_def
        column_u_integer_default_def column_u_integer_default_group_def column_string_default_def column_string_default_group_def
        column_string_unique_def column_string_unique_group_def column_string_uuid_def column_string_uuid_group_def
        column_timestamp_default_def column_timestamp_default_group_def column_datetime_default_def
        column_datetime_default_group_def base_of_name_def)
qed

section \<open>Arguments\<close>

definition rest :: "parse_state \<Rightarrow> string list" where
  "rest s = drop (ps_from s) (ps_args s)"

lemma rest_arg: "rest s = x # xs \<Longrightarrow> the_arg s = Some x \<and> ps_from s < length (ps_args s)"
  unfolding rest_def the_arg_def by (metis drop_eq_Nil linorder_not_le list.distinct(1) nth_via_drop option.simps(5))

lemma rest_next [simp]: "rest (next_arg s) = tl (rest s)"
  by (simp add: rest_def drop_Suc tl_drop)

lemma rest_fill [simp]: "rest (fill c d s) = rest s"
  by (simp add: rest_def)

lemma rest_end: "rest s = [] \<Longrightarrow> ps_from s \<le> length (ps_args s) \<Longrightarrow> at_end s"
  by (simp add: rest_def at_end_def)

lemma rest_at_end: "rest s = x # xs \<Longrightarrow> \<not> at_end s"
  using rest_arg [of s x xs] by (auto simp: at_end_def)

text \<open>Behind a column: the end of the arguments, or the flag of the next column, table or database.\<close>

definition boundary :: "string list \<Rightarrow> bool" where
  "boundary r \<longleftrightarrow> r = [] \<or> hd r = ''-c'' \<or> hd r = ''-t'' \<or> hd r = ''-d''"

definition finish :: parse_node where
  "finish s =
     (case rest s of [] \<Rightarrow> do { s \<leftarrow> generate_parse_complete s; stop s }
      | flag # r \<Rightarrow>
          if flag = ''-c'' then call Next_Col s
          else if flag = ''-t'' then do { s \<leftarrow> parse_table_complete s; call Next_Tbl s }
          else do { s \<leftarrow> parse_database_complete s; call Next_Db s })"

lemma flag_cases_none: "list_all (\<lambda>(flag, p). \<not> is_flag flag arg) cases \<Longrightarrow> flag_cases cases d arg = d"
  by (induction cases) auto

lemma parse_after_boundary:
  assumes "rest s = x # r" "boundary r" "f (next_arg s) = Some s'" "rest s' = r" "ps_from s < length (ps_args s)"
    and "\<And>b. b \<in> {''-c'', ''-t'', ''-d''} \<Longrightarrow> list_all (\<lambda>(flag, p). \<not> is_flag flag b) cases"
  shows "parse_after f e cases s = finish s'"
proof (cases r)
  case Nil
  then have "at_end (next_arg s)" using assms by (intro rest_end) simp_all
  then show ?thesis using assms Nil by (simp add: parse_after_def finish_def Let_def)
next
  case (Cons b r')
  then have b: "b \<in> {''-c'', ''-t'', ''-d''}" using assms(2) by (auto simp: boundary_def)
  have "\<not> at_end (next_arg s)" "the_arg (next_arg s) = Some b"
    using Cons assms(1) rest_at_end [of "next_arg s" b r'] rest_arg [of "next_arg s" b r'] by simp_all
  moreover have "next_spec f e b (next_arg s) = finish s'"
    using b assms(3,4) Cons by (auto simp: next_spec_def finish_def is_flag_def strings_equal_eq)
  ultimately show ?thesis
    using b flag_cases_none [OF assms(6) [OF b]] by (auto simp: parse_after_def Let_def)
qed

lemma parse_after_flag:
  assumes "rest s = x # flag # r" "deref flag = CHR ''-''"
  shows "parse_after f e cases s = flag_cases cases (next_spec f e flag) flag (next_arg s)"
  using assms rest_arg [of "next_arg s" flag r] rest_at_end [of "next_arg s" flag r] by (simp add: parse_after_def Let_def)

definition adv :: "nat \<Rightarrow> parse_state \<Rightarrow> parse_state" where
  "adv k s = s\<lparr>ps_from := ps_from s + k\<rparr>"

lemma adv_simps [simp]:
  "adv k (adv j s) = adv (j + k) s" "adv k (fill c d s) = fill c d (adv k s)" "adv 0 s = s" "rest (adv k s) = drop k (rest s)"
  "ps_col (adv k s) = ps_col s" "ps_tbl (adv k s) = ps_tbl s" "row_count (adv k s) = row_count s" "ps_args (adv k s) = ps_args s"
  "ps_from (adv k s) = ps_from s + k" "the_col (adv k s) = the_col s"
  "ps_db (adv k s) = ps_db s"
  by (simp_all add: adv_def fill_def rest_def row_count_def the_tbl_def the_col_def add.commute)

lemma next_arg_adv: "next_arg = adv 1"
  by (rule ext) (simp add: next_arg_def adv_def)

lemma with_arg_rest: "rest s = x # arg # r \<Longrightarrow> with_arg e p s = p arg (next_arg s)"
  using rest_arg [of "next_arg s" arg r] rest_at_end [of "next_arg s" arg r] by (simp add: with_arg_def Let_def)

lemma parse_grp_spec_valid:
  assumes "rest s = x # grouping_args g @ r" "g = Groups n p" "boundary r" "row_count s = Some rows" "ps_tbl s \<noteq> ps_col s"
    "grouping_valid rows g" "rows < 2 ^ 32"
    and f: "f (fill (grouping_pre g c) d (adv 4 s)) = Some (fill c' d' (adv 4 s))"
  shows "parse_grp_spec f (fill c d (adv 1 s)) = finish (fill c' d' (adv 4 s))"
proof -
  obtain a flag where args: "grouping_args g = [a, decimal n, flag]" "deref flag = CHR ''-''"
    and flag: "flag_cases [(EVEN, before_node (set_partition Partition_Groups_Even) (parse_column_complete f error_multiple_grp_specs)),
        (LINEAR, before_node (set_partition Partition_Groups_Linear) (parse_column_complete f error_multiple_grp_specs)),
        (GROUP, error_multiple_grp_specs)] q flag =
      before_node (set_partition p) (parse_column_complete f error_multiple_grp_specs)" for q
    using assms(2) by (cases p) (simp_all add: is_flag_def strings_equal_eq)
  have r: "rest (adv 1 s) = a # decimal n # flag # r" "rest (adv 2 s) = decimal n # flag # r" "rest (adv 3 s) = flag # r"
    "rest (adv 4 s) = r"
    using assms(1) args(1) by simp_all
  let ?s = "\<lambda>c k. fill c d (adv k s)" and ?c = "c\<lparr>col_grp_count := Some n\<rparr>"
  have u: "parse_uint (decimal n) = Some (of_nat n, [])" "unat (of_nat n :: uintmax) = n" "of_nat n \<noteq> (0 :: uintmax)"
  proof -
    show n: "unat (of_nat n :: uintmax) = n" using assms(2,6,7) by (intro unat_of_nat_uintmax) simp
    show "parse_uint (decimal n) = Some (of_nat n, [])" using parse_uint_decimal [of "of_nat n"] n by simp
    show "of_nat n \<noteq> (0 :: uintmax)" using n assms(2,6) by (auto simp del: of_nat_eq_0_iff)
  qed
  have "the_arg (?s c 2) = Some (decimal n)" using rest_arg [OF r(2)] by simp
  then have count: "parse_grp_count (?s c 2) = Some (True, ?s ?c 2)"
    using u assms by (simp add: parse_grp_count_def accept_def)
  have "parse_grp_spec f (?s c 1) = parse_after (and_then (set_partition Partition_Groups_Even) f) Expected_Grp_Spec_Close
      [(EVEN, before_node (set_partition Partition_Groups_Even) (parse_column_complete f error_multiple_grp_specs)),
       (LINEAR, before_node (set_partition Partition_Groups_Linear) (parse_column_complete f error_multiple_grp_specs)),
       (GROUP, error_multiple_grp_specs)] (?s ?c 2)"
    using r count by (simp add: parse_grp_spec_def with_arg_rest [of _ a "decimal n" "flag # r"] if_parsed_def next_arg_adv numeral_2_eq_2)
  also have "\<dots> = before_node (set_partition p) (parse_column_complete f error_multiple_grp_specs) (?s ?c 3)"
    using r args(2) by (simp add: parse_after_flag [of _ "decimal n" flag r] flag next_arg_adv eval_nat_numeral del: flag_cases.simps)
  also have "\<dots> = parse_column_complete f error_multiple_grp_specs (?s (grouping_pre g c) 3)"
    using assms(2) by (simp add: before_node_def set_partition_def)
  also have "\<dots> = finish (fill c' d' (adv 4 s))"
    unfolding parse_column_complete_def
    by (rule parse_after_boundary [OF _ assms(3), where s' = "fill c' d' (adv 4 s)"])
      (use r f assms(3) rest_arg [OF r(3)] in \<open>auto simp: next_arg_adv eval_nat_numeral is_flag_def strings_equal_eq\<close>)
  finally show ?thesis .
qed

text \<open>A part of a column that the grouping may follow.\<close>

lemma parse_after_valid:
  assumes "rest s = x # grouping_args g @ r" "boundary r" "row_count s = Some rows" "ps_tbl s \<noteq> ps_col s"
    "grouping_valid rows g" "rows < 2 ^ 32"
    and f: "(if is_grouped g then fg else f) (fill (grouping_pre g c) d (adv (Suc (length (grouping_args g))) s)) =
      Some (fill c' d' (adv (Suc (length (grouping_args g))) s))"
    and none: "\<And>b. b \<in> {''-c'', ''-t'', ''-d''} \<Longrightarrow> list_all (\<lambda>(flag, p). \<not> is_flag flag b) cases"
  shows "parse_after f e ((GROUP, parse_grp_spec fg) # cases) (fill c d s) =
    finish (fill c' d' (adv (Suc (length (grouping_args g))) s))"
proof (cases g)
  case Rows
  have c: "list_all (\<lambda>(flag, p). \<not> is_flag flag b) ((GROUP, parse_grp_spec fg) # cases)" if "b \<in> {''-c'', ''-t'', ''-d''}" for b
    using none [OF that] that by (auto simp: is_flag_def strings_equal_eq)
  have r: "rest s = x # r" using assms(1) Rows by simp
  have "parse_after f e ((GROUP, parse_grp_spec fg) # cases) (fill c d s) = finish (fill c' d' (adv 1 s))"
    by (rule parse_after_boundary [OF _ assms(2) _ _ _ c, where x = x])
      (use r rest_arg [OF r] f Rows in \<open>simp_all add: next_arg_adv is_grouped_def\<close>)
  then show ?thesis using Rows by simp
next
  case (Groups n p)
  then obtain flag where args: "grouping_args g = [flag, decimal n] @ tl (tl (grouping_args g))" "length (grouping_args g) = 3"
    and flag: "flag = ''-g'' \<or> flag = ''--group''"
    by (cases p) simp_all
  have r: "rest s = x # flag # decimal n # tl (tl (grouping_args g)) @ r"
    using assms(1) args(1) by (metis append_Cons append_Nil)
  have "parse_after f e ((GROUP, parse_grp_spec fg) # cases) (fill c d s) = parse_grp_spec fg (fill c d (adv 1 s))"
    using r flag by (auto simp: parse_after_flag [of _ x flag] is_flag_def strings_equal_eq next_arg_adv)
  also have "\<dots> = finish (fill c' d' (adv 4 s))"
  proof (rule parse_grp_spec_valid [OF assms(1) Groups assms(2-6)])
    show "fg (fill (grouping_pre g c) d (adv 4 s)) = Some (fill c' d' (adv 4 s))"
      using f Groups unfolding args(2) by (simp add: is_grouped_def)
  qed
  finally show ?thesis unfolding args(2) by simp
qed

lemma flag_next_arg: "rest s = x # y # r \<Longrightarrow> the_arg (adv 1 s) = Some y" "rest s = x # r \<Longrightarrow> the_arg s = Some x"
  using rest_arg [of "adv 1 s" y r] rest_arg [of s x r] by simp_all

lemma parse_col_type_valid:
  assumes "rest s = kind_args kind @ grouping_args g @ r" "boundary r" "row_count s = Some rows" "ps_tbl s \<noteq> ps_col s"
    "grouping_valid rows g" "rows < 2 ^ 32" "length name < 2 ^ 32" "kind_valid kind"
    "\<forall>base. kind = Numbered_Strings base \<longrightarrow> length base < 2 ^ 32"
  shows "parse_col_type (fill (named_col name) d s) =
    finish (fill (column_spec rows (name, kind, g)) (column_counts rows (name, kind, g) d) (adv (length (kind_args kind @ grouping_args g)) s))"
proof -
  have n: "grouping_count rows g < 2 ^ 32" using assms(5,6) by (cases g) simp_all
  have k: "kind_fill kind (is_grouped g) (fill (grouping_pre g (kind_pre kind (named_col name))) d (adv k s)) =
      Some (fill (column_spec rows (name, kind, g)) (column_counts rows (name, kind, g) d) (adv k s))" for k
    using assms by (intro kind_fill_spec n) simp_all
  have start: "parse_col_type (fill (named_col name) d s) = p (fill (named_col name) d s)"
    if "the_arg s = Some arg" "deref arg = CHR ''-''"
      "flag_cases [(INTEGER, parse_integer_qualifier), (U_INTEGER, parse_u_integer_qualifier), (STRING, parse_string_qualifier),
        (TIMESTAMP, parse_timestamp_qualifier), (DATETIME, parse_datetime_qualifier)] (recover Invalid_Col_Type) arg = p" for arg p
    using that by (simp add: parse_col_type_def del: flag_cases.simps)
  let ?done = "\<lambda>k. finish (fill (column_spec rows (name, kind, g)) (column_counts rows (name, kind, g) d) (adv k s))"
  have after: "parse_after f e ((GROUP, parse_grp_spec fg) # cases) (fill (kind_pre kind (named_col name)) d (adv j s)) =
      ?done (Suc (j + length (grouping_args g)))"
    if "rest (adv j s) = x # grouping_args g @ r" "(if is_grouped g then fg else f) = kind_fill kind (is_grouped g)"
      "\<And>b. b \<in> {''-c'', ''-t'', ''-d''} \<Longrightarrow> list_all (\<lambda>(flag, p). \<not> is_flag flag b) cases" for f fg e cases x j
  proof -
    have "parse_after f e ((GROUP, parse_grp_spec fg) # cases) (fill (kind_pre kind (named_col name)) d (adv j s)) =
        finish (fill (column_spec rows (name, kind, g)) (column_counts rows (name, kind, g) d)
          (adv (Suc (length (grouping_args g))) (adv j s)))"
      by (rule parse_after_valid [OF that(1) assms(2) _ _ assms(5,6)]) (use assms(3,4) that(2,3) k in simp_all)
    then show ?thesis by simp
  qed
  have plain: ?thesis
    if "kind_args kind = [arg]" "deref arg = CHR ''-''"
      "flag_cases [(INTEGER, parse_integer_qualifier), (U_INTEGER, parse_u_integer_qualifier), (STRING, parse_string_qualifier),
        (TIMESTAMP, parse_timestamp_qualifier), (DATETIME, parse_datetime_qualifier)] (recover Invalid_Col_Type) arg =
        parse_after f e ((GROUP, parse_grp_spec fg) # cases)"
      "(if is_grouped g then fg else f) = kind_fill kind (is_grouped g)" "kind_pre kind (named_col name) = named_col name"
      "\<And>b. b \<in> {''-c'', ''-t'', ''-d''} \<Longrightarrow> list_all (\<lambda>(flag, p). \<not> is_flag flag b) cases" for arg f e fg cases
  proof -
    have r: "rest s = arg # grouping_args g @ r" using assms(1) that(1) by simp
    from start [OF flag_next_arg(2) [OF r] that(2,3)] after [of 0 arg fg f cases e] r that show ?thesis by simp
  qed
  have string: "parse_col_type (fill (named_col name) d s) =
      flag_cases [(GROUP, parse_string_default_group), (UNIQUE, parse_string_unique), (UUID, parse_string_uuid),
        (FIXED, parse_string_fixed), (HASH, parse_string_hash), (NAMES_FIRST, parse_string_names_first),
        (NAMES_LAST, parse_string_names_last), (NAMES_FULL, parse_string_names_full), (JOIN, parse_join_spec)]
        (next_spec column_string_default Invalid_String_Type_Q flag) flag (fill (named_col name) d (adv 1 s))"
    if "rest s = ''-s'' # flag # r'" "deref flag = CHR ''-''" for flag r'
  proof -
    have "parse_col_type (fill (named_col name) d s) = parse_string_qualifier (fill (named_col name) d s)"
      by (rule start [OF flag_next_arg(2) [OF that(1)]]) (simp_all add: is_flag_def strings_equal_eq)
    then show ?thesis using that parse_after_flag [of "fill (named_col name) d s" "''-s''" flag r']
      by (simp add: parse_string_qualifier_def next_arg_adv del: flag_cases.simps)
  qed
  note flags = is_flag_def strings_equal_eq
  show ?thesis
  proof (cases kind)
    case Numbers
    show ?thesis
      by (rule plain [of "''-i''" column_integer_default Invalid_Integer_Type_Q column_integer_default_group "[(UNIQUE, parse_integer_unique), (FIXED, parse_integer_fixed), (RANDOM, parse_integer_random)]"])
        (use Numbers in \<open>auto simp: flags parse_integer_qualifier_def parse_integer_default_group_def\<close>)
  next
    case Unsigned_Numbers
    show ?thesis
      by (rule plain [of "''-u''" column_u_integer_default Invalid_U_Integer_Type_Q column_u_integer_default_group "[(UNIQUE, parse_u_integer_unique), (FIXED, parse_u_integer_fixed),
          (RANDOM, parse_u_integer_random)]"])
        (use Unsigned_Numbers in \<open>auto simp: flags parse_u_integer_qualifier_def parse_u_integer_default_group_def\<close>)
  next
    case Named_Strings
    show ?thesis
      by (rule plain [of "''-s''" column_string_default Invalid_String_Type_Q column_string_default_group "[(UNIQUE, parse_string_unique), (UUID, parse_string_uuid), (FIXED, parse_string_fixed),
          (HASH, parse_string_hash), (NAMES_FIRST, parse_string_names_first), (NAMES_LAST, parse_string_names_last),
          (NAMES_FULL, parse_string_names_full), (JOIN, parse_join_spec)]"])
        (use Named_Strings in \<open>auto simp: flags parse_string_qualifier_def parse_string_default_group_def\<close>)
  next
    case Timestamps
    show ?thesis
      by (rule plain [of "''--timestamp''" column_timestamp_default Invalid_Timestamp_Type_Q column_timestamp_default_group "[(FIXED, parse_timestamp_fixed), (UNIQUE, parse_timestamp_unique)]"])
        (use Timestamps in \<open>auto simp: flags parse_timestamp_qualifier_def parse_timestamp_default_group_def\<close>)
  next
    case Datetimes
    show ?thesis
      by (rule plain [of "''--datetime''" column_datetime_default Invalid_Datetime_Type_Q column_datetime_default_group "[(FIXED, parse_datetime_fixed), (UNIQUE, parse_datetime_unique)]"])
        (use Datetimes in \<open>auto simp: flags parse_datetime_qualifier_def parse_datetime_default_group_def\<close>)
  next
    case Uuids
    then have r: "rest s = ''-s'' # ''-uu'' # grouping_args g @ r" using assms(1) by simp
    have "parse_col_type (fill (named_col name) d s) = parse_string_uuid (fill (named_col name) d (adv 1 s))"
      using string [OF r] by (simp add: flags)
    also have "\<dots> = ?done (Suc (1 + length (grouping_args g)))"
      unfolding parse_string_uuid_def parse_string_uuid_group_def parse_column_complete_def
      using after [of 1 "''-uu''" column_string_uuid_group column_string_uuid "[]"] r Uuids by simp
    finally show ?thesis using Uuids by simp
  next
    case (Numbered_Strings base)
    then have r: "rest s = ''-s'' # ''-u'' # base # grouping_args g @ r" using assms(1) by simp
    have b: "parse_base_string (fill (named_col name) d (adv 2 s)) = Some (True, fill (kind_pre kind (named_col name)) d (adv 2 s))"
      using assms(8) Numbered_Strings r rest_arg [of "adv 2 s" base "grouping_args g @ r"]
      by (simp add: parse_base_string_def accept_def numeral_2_eq_2)
    have "parse_col_type (fill (named_col name) d s) = parse_string_unique (fill (named_col name) d (adv 1 s))"
      using string [OF r] by (simp add: flags)
    also have "\<dots> = parse_column_complete column_string_unique parse_string_unique_group (fill (kind_pre kind (named_col name)) d (adv 2 s))"
      unfolding parse_string_unique_def using r b
      by (simp add: with_arg_rest [of _ "''-u''" base] if_parsed_def next_arg_adv numeral_2_eq_2)
    also have "\<dots> = ?done (Suc (2 + length (grouping_args g)))"
      unfolding parse_string_unique_group_def parse_column_complete_def
      using after [of 2 base column_string_unique_group column_string_unique "[]"] r Numbered_Strings by (simp add: numeral_2_eq_2)
    finally show ?thesis using Numbered_Strings by simp
  qed
qed

section \<open>The layout of the block\<close>

fun lay_columns :: "nat \<Rightarrow> nat \<Rightarrow> column_desc list \<Rightarrow> (nat \<times> spec) list" where
  "lay_columns rows a [] = []"
| "lay_columns rows a (c # cs) = (a, Col (column_spec rows c)) # lay_columns rows (a + sizeof_ColSpec) cs"

fun table_size :: "table_desc \<Rightarrow> nat" where
  "table_size (name, rows, cs) = sizeof_TblSpec + sizeof_ColSpec * length cs"

fun lay_tables :: "nat \<Rightarrow> table_desc list \<Rightarrow> (nat \<times> spec) list" where
  "lay_tables a [] = []"
| "lay_tables a ((name, rows, cs) # ts) =
     (let next_tbl = a + table_size (name, rows, cs)
      in (a, Tbl \<lparr>tbl_name = Some name, tbl_row_count = Some rows, tbl_from = Some (a + sizeof_TblSpec),
                  tbl_until = Some next_tbl, tbl_next = Some (if ts = [] then None else Some next_tbl)\<rparr>)
         # lay_columns rows (a + sizeof_TblSpec) cs @ lay_tables next_tbl ts)"

fun database_size :: "database_desc \<Rightarrow> nat" where
  "database_size (name, ts) = sizeof_DbSpec + sum_list (map table_size ts)"

fun lay_databases :: "nat \<Rightarrow> database_desc list \<Rightarrow> (nat \<times> spec) list" where
  "lay_databases a [] = []"
| "lay_databases a ((name, ts) # ds) =
     (let next_db = a + database_size (name, ts)
      in (a, Db \<lparr>db_name = Some name, db_tbl_specs = Some (a + sizeof_DbSpec),
                 db_next = Some (if ds = [] then None else Some next_db)\<rparr>)
         # lay_tables (a + sizeof_DbSpec) ts @ lay_databases next_db ds)"

text \<open>What is laid out from an address on lies behind it.\<close>

lemma lay_columns_least: "map_of (lay_columns rows a cs) b = Some x \<Longrightarrow> a \<le> b"
  by (induction cs arbitrary: a) (force split: if_split_asm)+

lemma map_add_None: "g b = None \<Longrightarrow> (f ++ g) b = f b"
  by (simp add: map_add_def)

lemma lay_columns_other [simp]: "b < a \<Longrightarrow> map_of (lay_columns rows a cs) b = None"
  using lay_columns_least [of rows a cs b] by (cases "map_of (lay_columns rows a cs) b") auto

lemma lay_columns_bound: "map_of (lay_columns rows a cs) b = Some x \<Longrightarrow> b < a + sizeof_ColSpec * length cs"
  by (induction cs arbitrary: a) (force split: if_split_asm)+

lemma lay_step:
  assumes "map_of L u = None" "map_of M u = None" "\<And>b x y. map_of L b = Some x \<Longrightarrow> map_of M b = Some y \<Longrightarrow> False"
  shows "(F(u \<mapsto> y) ++ map_of L)(u \<mapsto> x) ++ map_of M = F ++ map_of ((u, x) # L @ M)"
proof
  fix b
  show "((F(u \<mapsto> y) ++ map_of L)(u \<mapsto> x) ++ map_of M) b = (F ++ map_of ((u, x) # L @ M)) b"
    using assms(1,2) assms(3) [of b] by (cases "map_of L b"; cases "map_of M b"; cases "b = u") (auto simp: map_add_def)
qed

lemma lay_tables_least: "map_of (lay_tables a ts) b = Some x \<Longrightarrow> a \<le> b"
proof (induction ts arbitrary: a)
  case (Cons t ts)
  obtain name rows cs where t: "t = (name, rows, cs)" by (cases t)
  show ?case using Cons lay_columns_least [of rows "a + sizeof_TblSpec" cs b x]
    by (force simp: t Let_def map_add_Some_iff split: if_split_asm)
qed simp

lemma lay_tables_other [simp]: "b < a \<Longrightarrow> map_of (lay_tables a ts) b = None"
  using lay_tables_least [of a ts b] by (cases "map_of (lay_tables a ts) b") auto

lemma lay_databases_least: "map_of (lay_databases a ds) b = Some x \<Longrightarrow> a \<le> b"
proof (induction ds arbitrary: a)
  case (Cons d ds)
  obtain name ts where d: "d = (name, ts)" by (cases d)
  show ?case using Cons lay_tables_least [of "a + sizeof_DbSpec" ts b x]
    by (force simp: d Let_def map_add_Some_iff split: if_split_asm)
qed simp

section \<open>Steps\<close>

definition leads :: "outcome option \<Rightarrow> parse_state \<Rightarrow> bool" where
  "leads r s' \<longleftrightarrow> r = Some (Stop s') \<or> (\<exists>n s calls. r = Some (Call n s) \<and> parse_run calls n s = Some (Stop s'))"

lemma leads_call: "leads (parse_call n s) s' \<Longrightarrow> leads (call n s) s'"
  by (auto simp: leads_def call_def intro: exI [of _ "Suc _"])

definition below :: "nat \<Rightarrow> parse_state \<Rightarrow> bool" where
  "below a s \<longleftrightarrow> (\<forall>b x. mem_at (ps_mem s) b = Some x \<longrightarrow> b + spec_size x \<le> a)"

definition set_at :: "nat \<Rightarrow> spec \<Rightarrow> parse_state \<Rightarrow> parse_state" where
  "set_at a x s = s\<lparr>ps_mem := (ps_mem s)\<lparr>mem_at := (mem_at (ps_mem s))(a \<mapsto> x)\<rparr>\<rparr>"

lemma take_below:
  "below a s \<Longrightarrow> a + spec_size x \<le> mem_size (ps_mem s) \<Longrightarrow> with_mem (mem_take a x) s = Some (set_at a x s)"
  unfolding with_mem_def mem_take_def set_at_def below_def
  by (auto intro!: parse_state.equality spec_mem.equality ext split: option.splits) (meson not_less)+

text \<open>A further column.\<close>

definition next_col :: "nat \<Rightarrow> column_desc \<Rightarrow> parse_state \<Rightarrow> parse_state" where
  "next_col rows c s =
     fill (column_spec rows c) (column_counts rows c (count_column (ps_database s)))
       (adv (length (column_args c)) (s\<lparr>ps_col := ps_col s + sizeof_ColSpec\<rparr>))"

lemma utf8_width_le: "utf8_width octets \<le> 4"
  by (simp add: utf8_width_def utf8_head_width_def Let_def)

lemma name_loop_length: "name_loop n arg = Text_Ok \<Longrightarrow> length arg \<le> 4 * n"
proof (induction n arg rule: name_loop.induct)
  case (2 n octets)
  have w: "utf8_width octets \<le> 4" by (rule utf8_width_le)
  show ?case
  proof (cases "drop (utf8_width octets) octets = []")
    case False
    then have "length (drop (utf8_width octets) octets) \<le> 4 * n" using 2 by (auto simp: Let_def split: if_split_asm)
    then show ?thesis using w by simp
  qed (use w in simp)
qed simp

lemma string_loop_length: "string_loop n arg = Text_Ok \<Longrightarrow> length arg \<le> 4 * n"
proof (induction n arg rule: string_loop.induct)
  case (2 n octets)
  have w: "utf8_width octets \<le> 4" by (rule utf8_width_le)
  show ?case
  proof (cases "octets = []")
    case False
    then have "length (drop (utf8_width octets) octets) \<le> 4 * n" using 2 by (auto simp: Let_def split: if_split_asm)
    then show ?thesis using w by simp
  qed simp
qed simp

lemma parse_name_length: "parse_name n kind arg = None \<Longrightarrow> length arg \<le> 4 * n"
  by (auto simp: parse_name_def intro: name_loop_length split: if_split_asm text_result.split_asm)

lemma set_at_fill: "set_at (ps_col s) (Col c) s = fill c (ps_database s) s"
  by (simp add: set_at_def fill_def)

lemma set_at_simps [simp]:
  "ps_args (set_at a x s) = ps_args s" "ps_from (set_at a x s) = ps_from s" "ps_col (set_at a x s) = ps_col s"
  "ps_tbl (set_at a x s) = ps_tbl s" "ps_db (set_at a x s) = ps_db s" "ps_database (set_at a x s) = ps_database s"
  "mem_size (ps_mem (set_at a x s)) = mem_size (ps_mem s)" "mem_at (ps_mem (set_at a x s)) = (mem_at (ps_mem s))(a \<mapsto> x)"
  "rest (set_at a x s) = rest s" "ps_last (set_at a x s) = ps_last s" "ps_head (set_at a x s) = ps_head s"
  "ps_generator (set_at a x s) = ps_generator s" "ps_failed (set_at a x s) = ps_failed s" "ps_errors (set_at a x s) = ps_errors s"
  "ps_db_until (set_at a x s) = ps_db_until s"
  by (simp_all add: set_at_def rest_def)

lemma parse_type_valid:
  assumes "column_valid rows (name, kind, g)" "rows \<le> UPTO_MAX" "rest s = kind_args kind @ grouping_args g @ r" "boundary r"
    "row_count s = Some rows" "ps_tbl s \<noteq> ps_col s"
  shows "parse_col_type (fill (named_col name) d s) =
    finish (fill (column_spec rows (name, kind, g)) (column_counts rows (name, kind, g) d) (adv (length (kind_args kind @ grouping_args g)) s))"
proof (rule parse_col_type_valid [OF assms(3-6)])
  show "length name < 2 ^ 32" using parse_name_length [of COL_NAME_LENGTH_MAX Column name] assms(1) by (simp add: COL_NAME_LENGTH_MAX_def)
  show "\<forall>base. kind = Numbered_Strings base \<longrightarrow> length base < 2 ^ 32"
    using string_loop_length [of BASE_STRING_LENGTH_MAX] assms(1) by (force simp: BASE_STRING_LENGTH_MAX_def)
  show "rows < 2 ^ 32" using assms(2) by (simp add: UPTO_MAX_def)
qed (use assms(1) in simp_all)

lemma parse_col_name_valid:
  assumes "the_arg s = Some name" "parse_name COL_NAME_LENGTH_MAX Column name = None" "below a s"
    "a + sizeof_ColSpec \<le> mem_size (ps_mem s)"
  shows "parse_col_name a s = Some (True, set_at a (Col (named_col name)) s)"
  using assms take_below [OF assms(3), of "Col (named_col name)"]
  by (simp add: parse_col_name_def accept_def named_col_def)

lemma below_adv [simp]: "below a (adv k s) = below a s" "below a (s\<lparr>ps_col := b\<rparr>) = below a s"
  "rest (s\<lparr>ps_col := b\<rparr>) = rest s" "mem_size (ps_mem (adv k s)) = mem_size (ps_mem s)" "ps_mem (adv k s) = ps_mem s"
  "rest (s\<lparr>ps_database := d\<rparr>) = rest s" "ps_database (adv k s) = ps_database s"
  "row_count (s\<lparr>ps_col := b\<rparr>) = row_count s" "(s\<lparr>ps_col := b\<rparr>)\<lparr>ps_col := b'\<rparr> = s\<lparr>ps_col := b'\<rparr>"
  "(adv k s)\<lparr>ps_col := b\<rparr> = adv k (s\<lparr>ps_col := b\<rparr>)"
  by (simp_all add: below_def adv_def rest_def row_count_def the_tbl_def)

lemma parse_next_col_valid:
  assumes "rest s = column_args c @ r" "boundary r" "column_valid rows c" "rows \<le> UPTO_MAX" "row_count s = Some rows"
    "ps_tbl s \<le> ps_col s" "below (ps_col s + sizeof_ColSpec) s" "ps_col s + sizeof_ColSpec + sizeof_ColSpec \<le> mem_size (ps_mem s)"
  shows "parse_next_col_spec s = finish (next_col rows c s)"
proof -
  obtain name kind g where c: "c = (name, kind, g)" by (cases c)
  let ?a = "ps_col s + sizeof_ColSpec"
  let ?s = "\<lambda>k. adv k (s\<lparr>ps_col := ?a\<rparr>)"
  have r: "rest s = ''-c'' # name # kind_args kind @ grouping_args g @ r" using assms(1) by (simp add: c)
  obtain ty r' where ty: "kind_args kind = ty # r'" by (cases kind) simp_all
  have n: "parse_col_name ?a (?s 1) = Some (True, fill (named_col name) (ps_database s) (?s 1))"
    using r assms parse_col_name_valid [of "?s 1" name ?a] rest_arg [of "?s 1" name "kind_args kind @ grouping_args g @ r"]
      set_at_fill [of "?s 1"] by (simp add: c)
  have "parse_next_col_spec s = parse_col_type ((fill (named_col name) (ps_database s) (?s 2))\<lparr>ps_database := count_column (ps_database s)\<rparr>)"
    using r n ty
    by (simp add: parse_next_col_spec_def with_arg_rest [of s "''-c''" name] if_parsed_def Let_def next_arg_adv numeral_2_eq_2
        with_arg_rest [of "fill c d (adv (Suc 0) s')" name ty "r' @ grouping_args g @ r" for c d s'])
  also have "\<dots> = parse_col_type (fill (named_col name) (count_column (ps_database s)) (?s 2))"
    by (simp add: fill_def)
  also have "\<dots> = finish (next_col rows c s)"
    using parse_type_valid [of rows name kind g "?s 2" r "count_column (ps_database s)"] assms r
    by (simp add: c next_col_def)
  finally show ?thesis .
qed

text \<open>The further columns of a table.\<close>

definition next_cols :: "nat \<Rightarrow> column_desc list \<Rightarrow> parse_state \<Rightarrow> parse_state" where
  "next_cols rows cs s = fold (next_col rows) cs s"

lemma finish_column: "rest s = column_args c @ r \<Longrightarrow> finish s = call Next_Col s"
  by (cases c) (simp add: finish_def)

definition open_table :: "nat \<Rightarrow> parse_state \<Rightarrow> bool" where
  "open_table rows s \<longleftrightarrow> row_count s = Some rows \<and> rows \<le> UPTO_MAX \<and> ps_tbl s \<le> ps_col s \<and> below (ps_col s + sizeof_ColSpec) s \<and>
     ps_col s + sizeof_ColSpec + sizeof_ColSpec * length (rest s) \<le> mem_size (ps_mem s)"

lemma open_table_next_col:
  assumes "open_table rows s" "rest s = column_args c @ r"
  shows "open_table rows (next_col rows c s)" "rest (next_col rows c s) = r"
proof -
  show r: "rest (next_col rows c s) = r" using assms(2) by (simp add: next_col_def)
  have b: "b + spec_size x \<le> ps_col s + sizeof_ColSpec" if "mem_at (ps_mem s) b = Some x" for b x
    using assms(1) that by (simp add: open_table_def below_def)
  have "below (ps_col s + sizeof_ColSpec + sizeof_ColSpec) (next_col rows c s)"
    by (auto simp: next_col_def below_def fill_def split: if_split_asm dest!: b)
  moreover have "1 \<le> length (column_args c)" by (cases c) simp
  ultimately show "open_table rows (next_col rows c s)"
    using assms r by (auto simp: open_table_def next_col_def)
qed

lemma boundary_args [simp]:
  "boundary (column_args c @ r)" "boundary (table_args t @ r)" "boundary (database_args d @ r)" "boundary []"
  by (cases c; cases t; cases d; simp add: boundary_def)+

lemma boundary_columns: "boundary r \<Longrightarrow> boundary (concat (map column_args cs) @ r)"
  by (cases cs) simp_all

lemma boundary_tables: "boundary r \<Longrightarrow> boundary (concat (map table_args ts) @ r)"
  by (cases ts) simp_all

lemma boundary_databases: "boundary (concat (map database_args ds))"
  by (cases ds) simp_all

lemma leads_columns:
  assumes "open_table rows s" "rest s = concat (map column_args cs) @ r" "boundary r" "list_all (column_valid rows) cs"
    "leads (finish (next_cols rows cs s)) s'"
  shows "leads (finish s) s'"
  using assms
proof (induction cs arbitrary: s)
  case (Cons c cs)
  let ?r = "concat (map column_args cs) @ r"
  have r: "rest s = column_args c @ ?r" using Cons.prems(2) by simp
  have "leads (finish (next_col rows c s)) s'"
    by (rule Cons.IH [OF open_table_next_col [OF Cons.prems(1) r]]) (use Cons.prems in \<open>simp_all add: next_cols_def\<close>)
  moreover have "parse_next_col_spec s = finish (next_col rows c s)"
  proof (rule parse_next_col_valid [OF r boundary_columns [OF Cons.prems(3)]])
    have "1 \<le> length (rest s)" unfolding r by (cases c) simp
    then show "ps_col s + sizeof_ColSpec + sizeof_ColSpec \<le> mem_size (ps_mem s)"
      using Cons.prems(1) by (simp add: open_table_def)
  qed (use Cons.prems(1,4) in \<open>simp_all add: open_table_def\<close>)
  ultimately show ?case by (simp add: finish_column [OF r] leads_call)
qed (simp add: next_cols_def)

lemma next_col_simps [simp]:
  "ps_tbl (next_col rows c s) = ps_tbl s" "ps_db (next_col rows c s) = ps_db s" "ps_col (next_col rows c s) = ps_col s + sizeof_ColSpec"
  "mem_at (ps_mem (next_col rows c s)) = (mem_at (ps_mem s))(ps_col s + sizeof_ColSpec \<mapsto> Col (column_spec rows c))"
  "ps_database (next_col rows c s) = column_counts rows c (count_column (ps_database s))"
  by (simp_all add: next_col_def fill_def adv_def)

text \<open>What a step leaves alone.\<close>

definition keeps :: "parse_state \<Rightarrow> parse_state \<Rightarrow> bool" where
  "keeps s s' \<longleftrightarrow> ps_db_until s' = ps_db_until s \<and> ps_args s' = ps_args s \<and> mem_size (ps_mem s') = mem_size (ps_mem s) \<and>
     ps_failed s' = ps_failed s \<and> ps_errors s' = ps_errors s"

lemma keeps_refl: "keeps s s" and keeps_trans: "keeps s t \<Longrightarrow> keeps t u \<Longrightarrow> keeps s u"
  by (simp_all add: keeps_def)

lemma keeps_next_col: "keeps s (next_col rows c s)" "ps_last (next_col rows c s) = ps_last s"
  "ps_head (next_col rows c s) = ps_head s" "ps_generator (next_col rows c s) = ps_generator s"
  by (simp_all add: keeps_def next_col_def fill_def adv_def)

lemma lay_columns_add:
  "a < a' \<Longrightarrow> F(a \<mapsto> x) ++ map_of (lay_columns rows a' cs) = (F ++ map_of (lay_columns rows a' cs))(a \<mapsto> x)"
  by (rule map_add_upd_left) (auto dest!: lay_columns_least)

lemma next_cols_simps:
  assumes "open_table rows s" "rest s = concat (map column_args cs) @ r"
  shows "rest (next_cols rows cs s) = r \<and> open_table rows (next_cols rows cs s) \<and> keeps s (next_cols rows cs s) \<and>
    ps_tbl (next_cols rows cs s) = ps_tbl s \<and> ps_db (next_cols rows cs s) = ps_db s \<and>
    ps_last (next_cols rows cs s) = ps_last s \<and> ps_head (next_cols rows cs s) = ps_head s \<and>
    ps_generator (next_cols rows cs s) = ps_generator s \<and>
    ps_col (next_cols rows cs s) = ps_col s + sizeof_ColSpec * length cs \<and>
    mem_at (ps_mem (next_cols rows cs s)) = mem_at (ps_mem s) ++ map_of (lay_columns rows (ps_col s + sizeof_ColSpec) cs) \<and>
    ps_database (next_cols rows cs s) = fold (\<lambda>c d. column_counts rows c (count_column d)) cs (ps_database s)"
  using assms
proof (induction cs arbitrary: s)
  case (Cons c cs)
  have r: "rest s = column_args c @ concat (map column_args cs) @ r" using Cons.prems(2) by simp
  have n: "next_cols rows (c # cs) s = next_cols rows cs (next_col rows c s)" by (simp add: next_cols_def)
  show ?case
    using Cons.IH [OF open_table_next_col [OF Cons.prems(1) r]] keeps_trans [OF keeps_next_col(1) [of s rows c]]
    unfolding n by (simp add: lay_columns_add keeps_next_col ac_simps del: fun_upd_apply)
qed (simp add: next_cols_def keeps_refl)

text \<open>The first column of a table: \<open>t\<close> is the table, \<open>d\<close> the counter before the column.\<close>

definition first_column :: "nat \<Rightarrow> column_desc \<Rightarrow> TblSpec \<Rightarrow> database_counter \<Rightarrow> parse_state \<Rightarrow> parse_state" where
  "first_column rows c t d s =
     (let tbl = ps_tbl s; col = tbl + sizeof_TblSpec
      in fill (column_spec rows c) (column_counts rows c d)
           (adv (length (column_args c)) ((set_at tbl (Tbl (t\<lparr>tbl_from := Some col\<rparr>)) s)\<lparr>ps_col := col\<rparr>)))"

lemma first_col_set_at:
  assumes "the_tbl s = Some t"
  shows "first_col a s = Some ((set_at (ps_tbl s) (Tbl (t\<lparr>tbl_from := Some a\<rparr>)) s)\<lparr>ps_col := a\<rparr>)"
  using assms by (simp add: first_col_def set_tbl_def with_mem_def mem_set_tbl_def the_tbl_def set_at_def)

lemma set_at_first:
  assumes "col \<noteq> tbl"
  shows "(set_at tbl t (set_at col (Col c) (adv k s)))\<lparr>ps_col := col, ps_database := d\<rparr> =
    fill c d (adv k ((set_at tbl t s)\<lparr>ps_col := col\<rparr>))"
  using assms by (simp add: set_at_def fill_def adv_def fun_upd_twist)

lemma the_tbl_set_at [simp]: "a \<noteq> ps_tbl s \<Longrightarrow> the_tbl (set_at a x s) = the_tbl s" "the_tbl (adv k s) = the_tbl s"
  "adv k (set_at a x s) = set_at a x (adv k s)"
  by (simp_all add: the_tbl_def mem_tbl_def set_at_def adv_def)

lemma flag_matches:
  "the_arg s = Some ''-c'' \<Longrightarrow> col_flag_match s = Some (True, s)" "the_arg s = Some ''-t'' \<Longrightarrow> tbl_flag_match s = Some (True, s)"
  "the_arg s = Some ''-d'' \<Longrightarrow> db_flag_match s = Some (True, s)"
  by (simp_all add: col_flag_match_def tbl_flag_match_def db_flag_match_def flag_match_def)

lemma first_column_parts:
  assumes "rest s = column_args (name, kind, g) @ r" "boundary r" "column_valid rows (name, kind, g)" "rows \<le> UPTO_MAX"
    "the_tbl s = Some t" "tbl_row_count t = Some rows" "below (ps_tbl s + sizeof_TblSpec) s"
    "ps_tbl s + sizeof_TblSpec + sizeof_ColSpec \<le> mem_size (ps_mem s)"
  defines "col \<equiv> ps_tbl s + sizeof_TblSpec"
  shows "parse_col_name col (adv 1 s) = Some (True, set_at col (Col (named_col name)) (adv 1 s))"
    and "first_col col (set_at col (Col (named_col name)) (adv k s)) =
      Some ((set_at (ps_tbl s) (Tbl (t\<lparr>tbl_from := Some col\<rparr>)) (set_at col (Col (named_col name)) (adv k s)))\<lparr>ps_col := col\<rparr>)"
    and "parse_col_type ((set_at (ps_tbl s) (Tbl (t\<lparr>tbl_from := Some col\<rparr>)) (set_at col (Col (named_col name)) (adv 2 s)))
      \<lparr>ps_col := col, ps_database := d\<rparr>) = finish (first_column rows (name, kind, g) t d s)"
proof -
  have r: "rest s = ''-c'' # name # kind_args kind @ grouping_args g @ r" using assms(1) by simp
  show "parse_col_name col (adv 1 s) = Some (True, set_at col (Col (named_col name)) (adv 1 s))"
    using assms flag_next_arg(1) [OF r] by (intro parse_col_name_valid) simp_all
  show "first_col col (set_at col (Col (named_col name)) (adv k s)) =
      Some ((set_at (ps_tbl s) (Tbl (t\<lparr>tbl_from := Some col\<rparr>)) (set_at col (Col (named_col name)) (adv k s)))\<lparr>ps_col := col\<rparr>)"
    using assms(5) by (subst first_col_set_at [of _ t]) (simp_all add: col_def)
  have rows: "row_count (adv 2 ((set_at (ps_tbl s) (Tbl (t\<lparr>tbl_from := Some col\<rparr>)) s)\<lparr>ps_col := col\<rparr>)) = Some rows"
    using assms(6) by (simp add: row_count_def the_tbl_def mem_tbl_def)
  show "parse_col_type ((set_at (ps_tbl s) (Tbl (t\<lparr>tbl_from := Some col\<rparr>)) (set_at col (Col (named_col name)) (adv 2 s)))
      \<lparr>ps_col := col, ps_database := d\<rparr>) = finish (first_column rows (name, kind, g) t d s)"
    using parse_type_valid [OF assms(3,4) _ assms(2) rows, of d] r
    by (simp add: set_at_first col_def first_column_def Let_def)
qed

lemma parse_first_col_spec_valid:
  assumes "rest s = column_args c @ r" "boundary r" "column_valid rows c" "rows \<le> UPTO_MAX"
    "the_tbl s = Some t" "tbl_row_count t = Some rows" "below (ps_tbl s + sizeof_TblSpec) s"
    "ps_tbl s + sizeof_TblSpec + sizeof_ColSpec \<le> mem_size (ps_mem s)"
  shows "parse_first_col_spec s = finish (first_column rows c t (count_column (ps_database s)) s)"
    and "s = next_arg s0 \<Longrightarrow> parse_first_col_spec_safe s0 = finish (first_column rows c t (ps_database s) s)"
proof -
  obtain name kind g where c: "c = (name, kind, g)" by (cases c)
  obtain ty r' where ty: "kind_args kind = ty # r'" by (cases kind) simp_all
  have r: "rest s = ''-c'' # name # ty # r' @ grouping_args g @ r" using assms(1) ty by (simp add: c)
  note parts = first_column_parts [OF assms(1-8) [unfolded c]]
  have f: "col_flag_match s = Some (True, s)" by (rule flag_matches(1) [OF flag_next_arg(2) [OF r]])
  let ?col = "ps_tbl s + sizeof_TblSpec"
  let ?s = "(set_at (ps_tbl s) (Tbl (t\<lparr>tbl_from := Some ?col\<rparr>)) (set_at ?col (Col (named_col name)) (adv 2 s)))\<lparr>ps_col := ?col\<rparr>"
  have "parse_first_col_spec s = parse_col_type (?s\<lparr>ps_database := count_column (ps_database ?s)\<rparr>)"
    using r parts(1,2) f
    by (simp add: parse_first_col_spec_def if_parsed_def with_arg_rest [OF r] next_arg_adv numeral_2_eq_2 Let_def
        with_arg_rest [of "set_at a x (adv (Suc 0) s)" name ty "r' @ grouping_args g @ r" for a x])
  also have "\<dots> = finish (first_column rows c t (count_column (ps_database s)) s)"
    using parts(3) [of "count_column (ps_database s)"] by (simp add: c adv_def set_at_def)
  finally show "parse_first_col_spec s = finish (first_column rows c t (count_column (ps_database s)) s)" .
  show "parse_first_col_spec_safe s0 = finish (first_column rows c t (ps_database s) s)" if s0: "s = next_arg s0"
  proof -
    have e: "next_arg ((set_at a x (set_at b y (adv 1 s)))\<lparr>ps_col := b\<rparr>) = (set_at a x (set_at b y (adv 2 s)))\<lparr>ps_col := b\<rparr>" for a b x y
      by (simp add: next_arg_def set_at_def adv_def)
    have "ps_tbl s0 = ps_tbl s" by (simp add: s0)
    then have "parse_first_col_spec_safe s0 = parse_col_type ?s"
      using parts(1) parts(2) [of 1] f e
      by (simp add: parse_first_col_spec_safe_def if_parsed_def s0 [symmetric] Let_def) (simp add: next_arg_adv)
    also have "?s = ?s\<lparr>ps_database := ps_database s\<rparr>" by (simp add: set_at_def adv_def)
    finally show ?thesis using parts(3) [of "ps_database s"] by (simp add: c)
  qed
qed

text \<open>A further table.\<close>

lemma parse_row_count_valid:
  assumes "the_arg s = Some (decimal n)" "0 < n" "n \<le> UPTO_MAX" "mem_at (ps_mem s) tbl = Some (Tbl t)"
  shows "parse_row_count tbl s = Some (True, set_at tbl (Tbl (t\<lparr>tbl_row_count := Some n\<rparr>)) s)"
proof -
  have u: "unat (of_nat n :: uintmax) = n" using assms(3) by (intro unat_of_nat_uintmax) (simp add: UPTO_MAX_def)
  then have "parse_uint (decimal n) = Some (of_nat n, [])" using parse_uint_decimal [of "of_nat n"] by simp
  moreover have "of_nat n \<noteq> (0 :: uintmax)" using u assms(2) by (auto simp del: of_nat_eq_0_iff)
  ultimately show ?thesis using assms u
    by (simp add: parse_row_count_def accept_def with_mem_def mem_set_tbl_def mem_tbl_def set_at_def)
qed

lemma parse_tbl_name_valid:
  assumes "the_arg s = Some name" "parse_name TBL_NAME_LENGTH_MAX Table_Name name = None" "below a s"
    "a + sizeof_TblSpec \<le> mem_size (ps_mem s)"
  shows "parse_tbl_name a s = Some (True, set_at a (Tbl (new_tbl\<lparr>tbl_name := Some name\<rparr>)) s)"
  using assms take_below [OF assms(3), of "Tbl (new_tbl\<lparr>tbl_name := Some name\<rparr>)"]
  by (simp add: parse_tbl_name_def accept_def)

definition named_tbl :: "string \<Rightarrow> nat \<Rightarrow> TblSpec" where
  "named_tbl name rows = new_tbl\<lparr>tbl_name := Some name, tbl_row_count := Some rows\<rparr>"

definition closed_tbl :: "nat \<Rightarrow> nat option \<Rightarrow> TblSpec \<Rightarrow> TblSpec" where
  "closed_tbl until p t = t\<lparr>tbl_until := Some until, tbl_next := Some p\<rparr>"

lemma rest_tbl [simp]: "rest (s\<lparr>ps_tbl := b\<rparr>) = rest s" "below a (s\<lparr>ps_tbl := b\<rparr>) = below a s"
  "below a (s\<lparr>ps_database := d\<rparr>) = below a s"
  by (simp_all add: rest_def below_def)

lemma below_mono: "below a s \<Longrightarrow> a \<le> b \<Longrightarrow> below b s"
  unfolding below_def by (meson order_trans)

lemma below_set_at [simp]: "below a s \<Longrightarrow> b + spec_size x \<le> a \<Longrightarrow> below a (set_at b x s)"
  by (auto simp: below_def)

lemma set_at_set_at [simp]: "set_at a x (set_at a y s) = set_at a x s"
  by (simp add: set_at_def)

lemma finish_table:
  assumes "rest s = ''-t'' # r" "the_tbl s = Some t"
  shows "finish s = call Next_Tbl (set_at (ps_tbl s) (Tbl (t\<lparr>tbl_until := Some (ps_col s + sizeof_ColSpec)\<rparr>)) s)"
  using assms
  by (simp add: finish_def parse_table_complete_def set_tbl_def with_mem_def mem_set_tbl_def the_tbl_def set_at_def)

definition next_table :: "string \<Rightarrow> nat \<Rightarrow> column_desc \<Rightarrow> TblSpec \<Rightarrow> parse_state \<Rightarrow> parse_state" where
  "next_table name rows c t s =
     (let tbl = ps_col s + sizeof_ColSpec
      in first_column rows c (named_tbl name rows) (count_column (count_table rows (ps_database s)))
           (adv 3 ((set_at tbl (Tbl (named_tbl name rows)) (set_at (ps_tbl s) (Tbl (closed_tbl tbl (Some tbl) t)) s))
              \<lparr>ps_tbl := tbl, ps_database := count_table rows (ps_database s)\<rparr>)))"

lemma parse_next_tbl_valid:
  assumes "rest s = ''-t'' # name # decimal rows # column_args c @ r" "boundary r" "column_valid rows c" "0 < rows" "rows \<le> UPTO_MAX"
    "parse_name TBL_NAME_LENGTH_MAX Table_Name name = None" "the_tbl s = Some t" "ps_tbl s \<le> ps_col s" "below (ps_col s + sizeof_ColSpec) s"
    "ps_col s + sizeof_ColSpec + sizeof_TblSpec + sizeof_ColSpec \<le> mem_size (ps_mem s)"
  shows "parse_next_tbl_spec (set_at (ps_tbl s) (Tbl (t\<lparr>tbl_until := Some (ps_col s + sizeof_ColSpec)\<rparr>)) s) = finish (next_table name rows c t s)"
proof -
  let ?u = "ps_col s + sizeof_ColSpec"
  let ?s = "\<lambda>k. (set_at (ps_tbl s) (Tbl (closed_tbl ?u (Some ?u) t)) (adv k s))\<lparr>ps_tbl := ?u\<rparr>"
  let ?n = "\<lambda>k. set_at ?u (Tbl (new_tbl\<lparr>tbl_name := Some name\<rparr>)) (?s k)"
  let ?m = "\<lambda>k. set_at ?u (Tbl (named_tbl name rows)) (?s k)"
  obtain c0 r' where c: "column_args c = c0 # r'" by (cases c) simp
  have nt: "next_tbl (set_at (ps_tbl s) (Tbl (t\<lparr>tbl_until := Some ?u\<rparr>)) (adv 1 s)) = Some (?s 1)"
    by (simp add: next_tbl_def the_tbl_def mem_tbl_def set_tbl_def with_mem_def mem_set_tbl_def closed_tbl_def)
      (simp add: set_at_def adv_def)
  have r: "rest (?s 1) = name # decimal rows # column_args c @ r" "rest (?n 1) = name # decimal rows # column_args c @ r"
    "rest (?n 2) = decimal rows # column_args c @ r" "rest (?m 2) = decimal rows # c0 # r' @ r" "rest (?m 3) = column_args c @ r"
    using assms(1) c by simp_all
  have n: "next_arg (?s k) = ?s (Suc k)" "next_arg (?n k) = ?n (Suc k)" "next_arg (?m k) = ?m (Suc k)" for k
    by (simp_all add: next_arg_def set_at_def adv_def)
  have b: "below ?u (?s 1)" using assms(8,9) by simp
  have 1: "parse_tbl_name ?u (?s 1) = Some (True, ?n 1)"
    using rest_arg [OF r(1)] b assms(6,10) by (intro parse_tbl_name_valid) simp_all
  have 2: "parse_row_count ?u (?n 2) = Some (True, ?m 2)"
    using parse_row_count_valid [of "?n 2" rows ?u "new_tbl\<lparr>tbl_name := Some name\<rparr>"] rest_arg [OF r(3)] assms(4,5)
    by (simp add: named_tbl_def)
  have 3: "row_count (?m 3) = Some rows" by (simp add: row_count_def the_tbl_def mem_tbl_def named_tbl_def)
  let ?q = "\<lambda>s. do { n \<leftarrow> row_count s; parse_first_col_spec (s\<lparr>ps_database := count_table n (ps_database s)\<rparr>) }"
  let ?X = "set_at (ps_tbl s) (Tbl (t\<lparr>tbl_until := Some ?u\<rparr>)) s"
  have "rest ?X = ''-t'' # name # decimal rows # column_args c @ r" using assms(1) by simp
  then have "parse_next_tbl_spec ?X = if_parsed (parse_tbl_name ?u)
      (with_arg Inc_Db_Spec_Row_Count (\<lambda>arg s. if_parsed (parse_row_count (ps_tbl s)) (with_arg Inc_Db_Spec_Col_Flag (\<lambda>arg. ?q)) s)) (?s 1)"
    using nt by (simp add: parse_next_tbl_spec_def with_arg_rest [of _ "''-t''" name] before_node_def next_arg_adv)
  also have "\<dots> = if_parsed (parse_row_count ?u) (with_arg Inc_Db_Spec_Col_Flag (\<lambda>arg. ?q)) (?n 2)"
    unfolding if_parsed_def [of "parse_tbl_name ?u"] 1 bind.bind_lunit prod.case if_True
    by (simp only: with_arg_rest [OF r(2)] n) (simp add: numeral_2_eq_2)
  also have "\<dots> = ?q (?m 3)"
    unfolding if_parsed_def 2 bind.bind_lunit prod.case if_True
    by (simp only: with_arg_rest [OF r(4)] n) (simp add: eval_nat_numeral)
  also have "\<dots> = parse_first_col_spec ((?m 3)\<lparr>ps_database := count_table rows (ps_database s)\<rparr>)"
    using 3 by (simp add: adv_def)
  also have "\<dots> = finish (first_column rows c (named_tbl name rows) (count_column (count_table rows (ps_database s)))
      ((?m 3)\<lparr>ps_database := count_table rows (ps_database s)\<rparr>))" (is "parse_first_col_spec ?M = _")
  proof -
    have "below (?u + sizeof_TblSpec) (?m 3)"
      using below_mono [OF assms(9), of "?u + sizeof_TblSpec"] assms(8) by (intro below_set_at) simp_all
    then have "parse_first_col_spec ?M = finish (first_column rows c (named_tbl name rows) (count_column (ps_database ?M)) ?M)"
      using assms(2-5,10) r(5)
      by (intro parse_first_col_spec_valid(1)) (simp_all add: the_tbl_def mem_tbl_def named_tbl_def)
    then show ?thesis by simp
  qed
  also have "?M = adv 3 ((set_at ?u (Tbl (named_tbl name rows)) (set_at (ps_tbl s) (Tbl (closed_tbl ?u (Some ?u) t)) s))
      \<lparr>ps_tbl := ?u, ps_database := count_table rows (ps_database s)\<rparr>)"
    by (simp add: set_at_def adv_def)
  finally show ?thesis by (simp add: next_table_def Let_def)
qed

text \<open>The end of a database.\<close>

definition close_last :: "nat option \<Rightarrow> parse_state \<Rightarrow> parse_state" where
  "close_last p s =
     (case ps_last s of None \<Rightarrow> s\<lparr>ps_head := Some p\<rparr>
      | Some a \<Rightarrow> (case mem_at (ps_mem s) a of Some (Db d) \<Rightarrow> set_at a (Db (d\<lparr>db_next := Some p\<rparr>)) s | _ \<Rightarrow> s))"

definition close_database :: "TblSpec \<Rightarrow> parse_state \<Rightarrow> parse_state" where
  "close_database t s =
     (let s = close_last (Some (ps_db s)) (set_at (ps_tbl s) (Tbl (closed_tbl (ps_col s + sizeof_ColSpec) None t)) s)
      in s\<lparr>ps_last := Some (ps_db s), ps_generator := generator_counter_update (ps_generator s) (ps_database s)\<rparr>)"

definition last_is_db :: "parse_state \<Rightarrow> bool" where
  "last_is_db s \<longleftrightarrow> (\<forall>a. ps_last s = Some a \<longrightarrow> (\<exists>d. mem_at (ps_mem s) a = Some (Db d)))"

lemma set_last_close: "last_is_db s \<Longrightarrow> set_last p s = Some (close_last p s)"
  by (cases "ps_last s")
    (auto simp: set_last_def close_last_def last_is_db_def with_mem_def mem_set_db_def mem_db_def set_at_def)

lemma parse_valid_complete_close:
  assumes "the_tbl s = Some t" "last_is_db s"
  shows "parse_valid_complete s = Some (close_database t s)"
proof -
  let ?s = "set_at (ps_tbl s) (Tbl (closed_tbl (ps_col s + sizeof_ColSpec) None t)) s"
  have 1: "do { s \<leftarrow> parse_table_complete s; set_tbl (\<lambda>t. t\<lparr>tbl_next := Some None\<rparr>) s } = Some ?s"
    using assms(1)
    by (simp add: parse_table_complete_def set_tbl_def with_mem_def mem_set_tbl_def mem_tbl_def the_tbl_def closed_tbl_def
        set_at_def split: option.splits spec.splits)
  have "ps_last s \<noteq> Some (ps_tbl s)" using assms by (auto simp: last_is_db_def the_tbl_def mem_tbl_def)
  then have "last_is_db ?s" using assms(2) by (auto simp: last_is_db_def set_at_def)
  then have l: "set_last (Some (ps_db ?s)) ?s = Some (close_last (Some (ps_db ?s)) ?s)" by (rule set_last_close)
  have "parse_valid_complete s = do { s \<leftarrow> do { s \<leftarrow> parse_table_complete s; set_tbl (\<lambda>t. t\<lparr>tbl_next := Some None\<rparr>) s };
      s \<leftarrow> set_last (Some (ps_db s)) s;
      Some (s\<lparr>ps_last := Some (ps_db s), ps_generator := generator_counter_update (ps_generator s) (ps_database s)\<rparr>) }"
    by (simp add: parse_valid_complete_def)
  then show ?thesis unfolding 1 bind.bind_lunit l by (simp add: close_database_def Let_def)
qed

text \<open>The further tables of a database, up to its end: \<open>tables_end\<close> is the state behind the last one.\<close>

fun next_tables :: "table_desc list \<Rightarrow> TblSpec \<Rightarrow> parse_state \<Rightarrow> parse_state" where
  "next_tables [] t s = close_database t s"
| "next_tables ((name, rows, c # cs) # ts) t s =
     next_tables ts ((named_tbl name rows)\<lparr>tbl_from := Some (ps_col s + sizeof_ColSpec + sizeof_TblSpec)\<rparr>)
       (next_cols rows cs (next_table name rows c t s))"
| "next_tables ((name, rows, []) # ts) t s = s"

definition behind :: parse_node where
  "behind s =
     (if rest s = [] then do { s \<leftarrow> set_last None s; stop s }
      else call Next_Db (s\<lparr>ps_db := ps_col s + sizeof_ColSpec\<rparr>))"

lemma leads_table:
  assumes "rest s = table_args (name, rows, c # cs) @ r" "boundary r" "table_valid (name, rows, c # cs)" "open_table rows' s" "the_tbl s = Some t"
    "leads (finish (next_table name rows c t s)) s'"
  shows "leads (finish s) s'"
proof -
  have r: "rest s = ''-t'' # name # decimal rows # column_args c @ concat (map column_args cs) @ r" using assms(1) by simp
  have "parse_next_tbl_spec (set_at (ps_tbl s) (Tbl (t\<lparr>tbl_until := Some (ps_col s + sizeof_ColSpec)\<rparr>)) s) =
      finish (next_table name rows c t s)"
  proof (rule parse_next_tbl_valid [OF r boundary_columns [OF assms(2)]])
    have "3 \<le> length (rest s)" using r by simp
    then show "ps_col s + sizeof_ColSpec + sizeof_TblSpec + sizeof_ColSpec \<le> mem_size (ps_mem s)"
      using assms(4) by (simp add: open_table_def)
  qed (use assms(3-5) in \<open>simp_all add: open_table_def\<close>)
  then show ?thesis using assms(6) by (simp add: finish_table [OF r assms(5)] leads_call)
qed

lemma open_next_table:
  assumes "rest s = table_args (name, rows, c # cs) @ r" "rows \<le> UPTO_MAX" "open_table rows' s" "the_tbl s = Some t"
  defines "s' \<equiv> next_table name rows c t s"
  shows "rest s' = concat (map column_args cs) @ r" "open_table rows s'"
    "the_tbl s' = Some ((named_tbl name rows)\<lparr>tbl_from := Some (ps_col s + sizeof_ColSpec + sizeof_TblSpec)\<rparr>)"
    "keeps s s'" "ps_tbl s' = ps_col s + sizeof_ColSpec" "ps_col s' = ps_col s + sizeof_ColSpec + sizeof_TblSpec" "ps_db s' = ps_db s"
    "ps_last s' = ps_last s" "ps_head s' = ps_head s" "ps_generator s' = ps_generator s"
    "ps_database s' = column_counts rows c (count_column (count_table rows (ps_database s)))"
    "mem_at (ps_mem s') = (mem_at (ps_mem s))(ps_tbl s \<mapsto> Tbl (closed_tbl (ps_col s + sizeof_ColSpec) (Some (ps_col s + sizeof_ColSpec)) t),
      ps_col s + sizeof_ColSpec \<mapsto> Tbl ((named_tbl name rows)\<lparr>tbl_from := Some (ps_col s + sizeof_ColSpec + sizeof_TblSpec)\<rparr>),
      ps_col s + sizeof_ColSpec + sizeof_TblSpec \<mapsto> Col (column_spec rows c))"
proof -
  show r: "rest s' = concat (map column_args cs) @ r"
    using assms(1) by (cases c) (simp add: s'_def next_table_def first_column_def Let_def)
  show m: "mem_at (ps_mem s') = (mem_at (ps_mem s))(ps_tbl s \<mapsto> Tbl (closed_tbl (ps_col s + sizeof_ColSpec) (Some (ps_col s + sizeof_ColSpec)) t),
      ps_col s + sizeof_ColSpec \<mapsto> Tbl ((named_tbl name rows)\<lparr>tbl_from := Some (ps_col s + sizeof_ColSpec + sizeof_TblSpec)\<rparr>),
      ps_col s + sizeof_ColSpec + sizeof_TblSpec \<mapsto> Col (column_spec rows c))"
    by (simp add: s'_def next_table_def first_column_def Let_def fill_def adv_def set_at_def)
  show "keeps s s'" "ps_tbl s' = ps_col s + sizeof_ColSpec" "ps_db s' = ps_db s" "ps_last s' = ps_last s" "ps_head s' = ps_head s"
    and col: "ps_col s' = ps_col s + sizeof_ColSpec + sizeof_TblSpec" and "ps_generator s' = ps_generator s"
    "ps_database s' = column_counts rows c (count_column (count_table rows (ps_database s)))"
    by (simp_all add: keeps_def s'_def next_table_def first_column_def Let_def fill_def adv_def set_at_def)
  show t: "the_tbl s' = Some ((named_tbl name rows)\<lparr>tbl_from := Some (ps_col s + sizeof_ColSpec + sizeof_TblSpec)\<rparr>)"
    using m \<open>ps_tbl s' = _\<close> by (simp add: the_tbl_def mem_tbl_def)
  have b: "b + spec_size x \<le> ps_col s + sizeof_ColSpec" if "mem_at (ps_mem s) b = Some x" for b x
    using assms(3) that by (simp add: open_table_def below_def)
  have "below (ps_col s + sizeof_ColSpec + sizeof_TblSpec + sizeof_ColSpec) s'"
    unfolding below_def m using assms(3) by (auto simp: open_table_def split: if_split_asm dest!: b)
  moreover have "length (rest s) = 5 + length (kind_args (fst (snd c)) @ grouping_args (snd (snd c))) + length (rest s')"
    using assms(1) r by (cases c) simp
  ultimately show "open_table rows s'"
    using assms(2,3) t col \<open>keeps s s'\<close> \<open>ps_tbl s' = _\<close>
    by (simp add: open_table_def row_count_def keeps_def named_tbl_def)
qed

lemma finish_database:
  assumes "rest s = [] \<or> hd (rest s) = ''-d''" "the_tbl s = Some t" "last_is_db s"
  shows "finish s = behind (close_database t s)"
proof -
  have c: "parse_valid_complete s = Some (close_database t s)" using assms(2,3) by (rule parse_valid_complete_close)
  have r: "rest (close_database t s) = rest s" "ps_col (close_database t s) = ps_col s" and
    t: "the_tbl (close_database t s) = Some (closed_tbl (ps_col s + sizeof_ColSpec) None t)"
    using assms(2,3)
    by (auto simp: close_database_def close_last_def Let_def rest_def set_at_def the_tbl_def mem_tbl_def last_is_db_def
        split: option.splits spec.splits)
  show ?thesis
  proof (cases "rest s")
    case Nil
    then show ?thesis by (simp add: finish_def generate_parse_complete_def c behind_def r)
  next
    case (Cons flag r')
    then show ?thesis using assms(1) t
      by (simp add: finish_def parse_database_complete_def c behind_def r closed_tbl_def)
  qed
qed

lemma last_is_db_add:
  assumes "last_is_db s" "ps_last s' = ps_last s" "below a s"
    "\<And>b. b < a \<Longrightarrow> b \<noteq> ps_tbl s \<Longrightarrow> mem_at (ps_mem s') b = mem_at (ps_mem s) b" "the_tbl s = Some t"
  shows "last_is_db s'"
  unfolding last_is_db_def
proof (intro allI impI)
  fix b assume "ps_last s' = Some b"
  then obtain d where d: "mem_at (ps_mem s) b = Some (Db d)" using assms(1,2) by (auto simp: last_is_db_def)
  then have "b < a" using assms(3) by (fastforce simp: below_def)
  moreover have "b \<noteq> ps_tbl s" using d assms(5) by (auto simp: the_tbl_def mem_tbl_def)
  ultimately show "\<exists>d. mem_at (ps_mem s') b = Some (Db d)" using assms(4) d by auto
qed

text \<open>Behind a table of a database: the state at the end of its columns.\<close>

lemma next_table_end:
  assumes "rest s = table_args (name, rows, c # cs) @ r" "rows \<le> UPTO_MAX" "open_table rows' s" "the_tbl s = Some t" "last_is_db s"
  defines "s' \<equiv> next_cols rows cs (next_table name rows c t s)" and "u \<equiv> ps_col s + sizeof_ColSpec"
  shows "rest s' = r" "open_table rows s'" "keeps s s'" "last_is_db s'"
    "the_tbl s' = Some ((named_tbl name rows)\<lparr>tbl_from := Some (u + sizeof_TblSpec)\<rparr>)"
    "ps_tbl s' = u" "ps_col s' + sizeof_ColSpec = u + table_size (name, rows, c # cs)" "ps_db s' = ps_db s" "ps_last s' = ps_last s"
    "ps_head s' = ps_head s" "ps_generator s' = ps_generator s"
    "ps_database s' = fold (\<lambda>c d. column_counts rows c (count_column d)) (c # cs) (count_table rows (ps_database s))"
    "mem_at (ps_mem s') = (mem_at (ps_mem s))(ps_tbl s \<mapsto> Tbl (closed_tbl u (Some u) t),
      u \<mapsto> Tbl ((named_tbl name rows)\<lparr>tbl_from := Some (u + sizeof_TblSpec)\<rparr>))
      ++ map_of (lay_columns rows (u + sizeof_TblSpec) (c # cs))"
proof -
  note n = open_next_table [OF assms(1-4)]
  note e = next_cols_simps [OF n(2,1)]
  show "rest s' = r" "open_table rows s'" "ps_tbl s' = u" "ps_db s' = ps_db s" "ps_last s' = ps_last s" "ps_head s' = ps_head s"
    "ps_generator s' = ps_generator s"
    "ps_database s' = fold (\<lambda>c d. column_counts rows c (count_column d)) (c # cs) (count_table rows (ps_database s))"
    using e n by (simp_all add: s'_def u_def)
  show "keeps s s'" using e keeps_trans [OF n(4)] by (simp add: s'_def)
  show "ps_col s' + sizeof_ColSpec = u + table_size (name, rows, c # cs)" using e n by (simp add: s'_def u_def)
  show m: "mem_at (ps_mem s') = (mem_at (ps_mem s))(ps_tbl s \<mapsto> Tbl (closed_tbl u (Some u) t),
      u \<mapsto> Tbl ((named_tbl name rows)\<lparr>tbl_from := Some (u + sizeof_TblSpec)\<rparr>))
      ++ map_of (lay_columns rows (u + sizeof_TblSpec) (c # cs))"
    using e n by (simp add: s'_def u_def lay_columns_add del: fun_upd_apply)
  show "the_tbl s' = Some ((named_tbl name rows)\<lparr>tbl_from := Some (u + sizeof_TblSpec)\<rparr>)"
    by (simp add: the_tbl_def mem_tbl_def \<open>ps_tbl s' = u\<close> m map_add_None del: lay_columns.simps)
  have "b + spec_size x \<le> u" if "mem_at (ps_mem s) b = Some x" for b x
    using assms(3) that by (simp add: open_table_def below_def u_def)
  then have "below u s" by (simp add: below_def)
  then show "last_is_db s'"
    by (rule last_is_db_add [OF assms(5) \<open>ps_last s' = ps_last s\<close> _ _ assms(4), of u])
      (simp add: m map_add_None del: lay_columns.simps)
qed

text \<open>The pointer to the next database, in the last one or in the state.\<close>

definition link :: "nat option \<Rightarrow> nat option \<Rightarrow> (nat \<Rightarrow> spec option) \<Rightarrow> nat \<Rightarrow> spec option" where
  "link p l F =
     (case l of None \<Rightarrow> F | Some a \<Rightarrow> (case F a of Some (Db d) \<Rightarrow> F(a \<mapsto> Db (d\<lparr>db_next := Some p\<rparr>)) | _ \<Rightarrow> F))"

lemma close_last_simps:
  "mem_at (ps_mem (close_last p s)) = link p (ps_last s) (mem_at (ps_mem s))"
  "ps_head (close_last p s) = (if ps_last s = None then Some p else ps_head s)"
  "keeps s (close_last p s)" "ps_from (close_last p s) = ps_from s" "ps_col (close_last p s) = ps_col s"
  "ps_generator (close_last p s) = ps_generator s" "ps_database (close_last p s) = ps_database s" "ps_last (close_last p s) = ps_last s"
  "ps_db (close_last p s) = ps_db s"
  by (auto simp: close_last_def link_def keeps_def set_at_def split: option.splits spec.splits)

definition table_counts :: "table_desc \<Rightarrow> database_counter \<Rightarrow> database_counter" where
  "table_counts t d = (case t of (name, rows, cs) \<Rightarrow> fold (\<lambda>c d. column_counts rows c (count_column d)) cs (count_table rows d))"

lemma lay_tables_add:
  "a < a' \<Longrightarrow> F(a \<mapsto> x) ++ map_of (lay_tables a' ts) = (F ++ map_of (lay_tables a' ts))(a \<mapsto> x)"
  by (rule map_add_upd_left) (auto dest!: lay_tables_least)

lemma table_size_pos: "0 < table_size t"
  by (cases t) simp

lemma next_tables_end:
  assumes "rest s = concat (map table_args ts) @ r" "list_all table_valid ts" "open_table rows s" "the_tbl s = Some t" "last_is_db s"
  defines "s' \<equiv> next_tables ts t s" and "u \<equiv> ps_col s + sizeof_ColSpec"
  shows "rest s' = r \<and> keeps s s' \<and> ps_col s' + sizeof_ColSpec = u + sum_list (map table_size ts) \<and>
    ps_last s' = Some (ps_db s) \<and> ps_head s' = (if ps_last s = None then Some (Some (ps_db s)) else ps_head s) \<and>
    ps_generator s' = generator_counter_update (ps_generator s) (fold table_counts ts (ps_database s)) \<and>
    mem_at (ps_mem s') = link (Some (ps_db s)) (ps_last s)
      ((mem_at (ps_mem s))(ps_tbl s \<mapsto> Tbl (closed_tbl u (if ts = [] then None else Some u) t)) ++ map_of (lay_tables u ts)) \<and>
    ps_col s' + sizeof_ColSpec + sizeof_ColSpec * length r \<le> mem_size (ps_mem s')"
  using assms(1-5) unfolding s'_def u_def
proof (induction ts arbitrary: s t rows)
  case Nil
  then show ?case
    using close_last_simps(3) [of "set_at (ps_tbl s) (Tbl (closed_tbl (ps_col s + sizeof_ColSpec) None t)) s" "Some (ps_db s)"]
    by (simp add: close_database_def Let_def close_last_simps keeps_def rest_def open_table_def del: fun_upd_apply)
next
  case (Cons x ts)
  obtain name rows' c cs where x: "x = (name, rows', c # cs)"
    using Cons.prems(2) by (cases x) (auto simp: neq_Nil_conv)
  have v: "table_valid (name, rows', c # cs)" "rows' \<le> UPTO_MAX" using Cons.prems(2) by (simp_all add: x)
  have r: "rest s = table_args (name, rows', c # cs) @ concat (map table_args ts) @ r" using Cons.prems(1) by (simp add: x)
  note e = next_table_end [OF r v(2) Cons.prems(3-5)]
  have l: "list_all table_valid ts" using Cons.prems(2) by simp
  let ?s = "next_cols rows' cs (next_table name rows' c t s)" and ?u = "ps_col s + sizeof_ColSpec" and ?F = "mem_at (ps_mem s)"
  let ?t = "(named_tbl name rows')\<lparr>tbl_from := Some (?u + sizeof_TblSpec)\<rparr>" and ?v = "?u + table_size x"
  note ih = Cons.IH [OF e(1) l e(2,5,4)]
  have u: "ps_col ?s + sizeof_ColSpec = ?v" using e(7) by (simp add: x)
  have "mem_at (ps_mem (next_tables ts ?t ?s)) = link (Some (ps_db s)) (ps_last s)
      ((?F(ps_tbl s \<mapsto> Tbl (closed_tbl ?u (Some ?u) t), ?u \<mapsto> Tbl ?t) ++ map_of (lay_columns rows' (?u + sizeof_TblSpec) (c # cs)))
        (?u \<mapsto> Tbl (closed_tbl ?v (if ts = [] then None else Some ?v) ?t)) ++ map_of (lay_tables ?v ts))"
    using ih unfolding u e(6,8,9,13) by (elim conjE) assumption
  also have "\<dots> = link (Some (ps_db s)) (ps_last s) (?F(ps_tbl s \<mapsto> Tbl (closed_tbl ?u (Some ?u) t)) ++ map_of (lay_tables ?u (x # ts)))"
  proof (subst lay_step)
    show "map_of (lay_columns rows' (?u + sizeof_TblSpec) (c # cs)) ?u = None" by (rule lay_columns_other) simp
    show "map_of (lay_tables ?v ts) ?u = None" using table_size_pos [of x] by (intro lay_tables_other) simp
    show False if "map_of (lay_columns rows' (?u + sizeof_TblSpec) (c # cs)) b = Some y" "map_of (lay_tables ?v ts) b = Some z" for b y z
      using lay_columns_bound [OF that(1)] lay_tables_least [OF that(2)] by (simp add: x)
  qed (simp add: x Let_def closed_tbl_def named_tbl_def new_tbl_def)
  finally have m: "mem_at (ps_mem (next_tables ts ?t ?s)) =
      link (Some (ps_db s)) (ps_last s) (?F(ps_tbl s \<mapsto> Tbl (closed_tbl ?u (Some ?u) t)) ++ map_of (lay_tables ?u (x # ts)))" .
  let ?S = "next_tables ts ?t ?s"
  have i: "rest ?S = r" "keeps ?s ?S" "ps_col ?S + sizeof_ColSpec = ps_col ?s + sizeof_ColSpec + sum_list (map table_size ts)"
    "ps_last ?S = Some (ps_db ?s)" "ps_head ?S = (if ps_last ?s = None then Some (Some (ps_db ?s)) else ps_head ?s)"
    "ps_generator ?S = generator_counter_update (ps_generator ?s) (fold table_counts ts (ps_database ?s))"
    "ps_col ?S + sizeof_ColSpec + sizeof_ColSpec * length r \<le> mem_size (ps_mem ?S)"
    using ih by blast+
  have c: "table_counts x (ps_database s) = ps_database ?s" unfolding e(12) by (simp add: x table_counts_def)
  have n: "next_tables (x # ts) t s = ?S" by (simp add: x)
  show ?case unfolding n
  proof (intro conjI, goal_cases)
    case 7
    show ?case using m by (simp del: lay_tables.simps fun_upd_apply)
  qed (use i(1,3-7) u e(8-11) c keeps_trans [OF e(3) i(2)] in simp_all)
qed

lemma leads_tables:
  assumes "rest s = concat (map table_args ts) @ r" "r = [] \<or> hd r = ''-d''" "list_all table_valid ts" "open_table rows s"
    "the_tbl s = Some t" "last_is_db s" "leads (behind (next_tables ts t s)) s'"
  shows "leads (finish s) s'"
  using assms
proof (induction ts arbitrary: s t rows)
  case Nil
  then show ?case using finish_database [of s t] by simp
next
  case (Cons x ts)
  obtain name rows' c cs where x: "x = (name, rows', c # cs)"
    using Cons.prems(3) by (cases x) (auto simp: neq_Nil_conv)
  have v: "table_valid (name, rows', c # cs)" "rows' \<le> UPTO_MAX" using Cons.prems(3) by (simp_all add: x)
  have r: "rest s = table_args (name, rows', c # cs) @ concat (map table_args ts) @ r" using Cons.prems(1) by (simp add: x)
  have b: "boundary r" using Cons.prems(2) by (auto simp: boundary_def)
  note e = next_table_end [OF r v(2) Cons.prems(4-6)]
  note o' = open_next_table [OF r v(2) Cons.prems(4,5)]
  have "leads (finish (next_cols rows' cs (next_table name rows' c t s))) s'"
    using Cons.prems(3,7) by (intro Cons.IH [OF e(1) Cons.prems(2) _ e(2,5,4)]) (simp_all add: x)
  then have "leads (finish (next_table name rows' c t s)) s'"
    using v(1) by (intro leads_columns [OF o'(2,1) boundary_tables [OF b]]) simp_all
  then show ?case by (rule leads_table [OF r boundary_tables [OF b] v(1) Cons.prems(4,5)])
qed

section \<open>Databases\<close>

lemma parse_db_name_valid:
  assumes "the_arg s = Some name" "parse_name DB_NAME_LENGTH_MAX Database name = None" "below a s"
    "a + sizeof_DbSpec \<le> mem_size (ps_mem s)"
  shows "parse_db_name a s = Some (True, set_at a (Db (new_db\<lparr>db_name := Some name\<rparr>)) s)"
  using assms take_below [OF assms(3), of "Db (new_db\<lparr>db_name := Some name\<rparr>)"]
  by (simp add: parse_db_name_def accept_def)

definition named_db :: "string \<Rightarrow> nat \<Rightarrow> DbSpec" where
  "named_db name tbl = new_db\<lparr>db_name := Some name, db_tbl_specs := Some tbl\<rparr>"

definition first_table :: "string \<Rightarrow> string \<Rightarrow> nat \<Rightarrow> column_desc \<Rightarrow> parse_state \<Rightarrow> parse_state" where
  "first_table dname name rows c s =
     (let db = ps_db s; tbl = db + sizeof_DbSpec
      in first_column rows c (named_tbl name rows) (database_counter_init rows)
           (adv 5 ((set_at tbl (Tbl (named_tbl name rows)) (set_at db (Db (named_db dname tbl)) s))
              \<lparr>ps_tbl := tbl, ps_database := database_counter_init rows\<rparr>)))"

lemma parse_first_db_valid:
  assumes "rest s = ''-d'' # dname # ''-t'' # name # decimal rows # column_args c @ r" "boundary r" "column_valid rows c" "0 < rows"
    "rows \<le> UPTO_MAX" "parse_name DB_NAME_LENGTH_MAX Database dname = None" "parse_name TBL_NAME_LENGTH_MAX Table_Name name = None"
    "below (ps_db s) s" "ps_db s + sizeof_DbSpec + sizeof_TblSpec + sizeof_ColSpec \<le> mem_size (ps_mem s)"
  shows "parse_first_db_spec s = finish (first_table dname name rows c s)"
proof -
  let ?a = "ps_db s" and ?t = "ps_db s + sizeof_DbSpec"
  let ?d = "\<lambda>k. set_at ?a (Db (new_db\<lparr>db_name := Some dname\<rparr>)) (adv k s)"
  let ?n = "\<lambda>k. set_at ?t (Tbl (new_tbl\<lparr>tbl_name := Some name\<rparr>)) (?d k)"
  let ?m = "\<lambda>k. set_at ?t (Tbl (named_tbl name rows)) (?d k)"
  have r: "rest (?d 1) = dname # ''-t'' # name # decimal rows # column_args c @ r" "rest (?d 2) = ''-t'' # name # decimal rows # column_args c @ r"
    "rest (?d 3) = name # decimal rows # column_args c @ r" "rest (?n 4) = decimal rows # column_args c @ r"
    "rest (?m 5) = column_args c @ r" "rest (adv 1 s) = dname # ''-t'' # name # decimal rows # column_args c @ r"
    using assms(1) by simp_all
  have n: "next_arg (?d k) = ?d (Suc k)" "next_arg (?n k) = ?n (Suc k)" "next_arg (?m k) = ?m (Suc k)" for k
    by (simp_all add: next_arg_def set_at_def adv_def)
  have b: "below ?t (?d 3)" using below_mono [OF assms(8), of ?t] by (intro below_set_at) simp_all
  have 0: "parse_db_name ?a (adv 1 s) = Some (True, ?d 1)"
    using rest_arg [OF r(6)] assms(6,8,9) by (intro parse_db_name_valid) simp_all
  have 1: "tbl_flag_match (?d 2) = Some (True, ?d 2)" by (rule flag_matches(2)) (use rest_arg [OF r(2)] in simp)
  have 2: "parse_tbl_name ?t (?d 3) = Some (True, ?n 3)"
    using rest_arg [OF r(3)] b assms(7,9) by (intro parse_tbl_name_valid) simp_all
  have 3: "parse_row_count ?t (?n 4) = Some (True, ?m 4)"
    using parse_row_count_valid [of "?n 4" rows ?t "new_tbl\<lparr>tbl_name := Some name\<rparr>"] rest_arg [OF r(4)] assms(4,5)
    by (simp add: named_tbl_def)
  let ?M = "\<lambda>k. (set_at ?t (Tbl (named_tbl name rows)) (set_at ?a (Db (named_db dname ?t)) (adv k s)))\<lparr>ps_tbl := ?t\<rparr>"
  let ?N = "\<lambda>k. (?M k)\<lparr>ps_database := database_counter_init rows\<rparr>"
  have 4: "set_db (\<lambda>d. d\<lparr>db_tbl_specs := Some ?t\<rparr>) (?m 4) = Some (set_at ?t (Tbl (named_tbl name rows)) (set_at ?a (Db (named_db dname ?t)) (adv 4 s)))"
    by (simp add: set_db_def with_mem_def mem_set_db_def mem_db_def named_db_def)
      (simp add: set_at_def adv_def fun_upd_twist)
  have 5: "row_count (?M 4) = Some rows" by (simp add: row_count_def the_tbl_def mem_tbl_def named_tbl_def)
  have "parse_first_db_spec s = parse_first_tbl_spec (?d 1)"
    using 0 by (simp add: parse_first_db_spec_def if_parsed_def next_arg_adv Let_def)
  also have "\<dots> = parse_first_col_spec_safe (?N 4)"
    using 1 2 3 4 5 n(1) [of 1] n(1) [of 2] n(2) [of 3]
    by (simp add: parse_first_tbl_spec_def if_parsed_def Let_def eval_nat_numeral)
  also have "\<dots> = finish (first_column rows c (named_tbl name rows) (database_counter_init rows) (?N 5))"
  proof -
    have s: "?N 5 = next_arg (?N 4)" by (simp add: next_arg_def set_at_def adv_def)
    have "below (?t + sizeof_TblSpec) (?N 5)"
      using below_mono [OF assms(8), of "?t + sizeof_TblSpec"] by (simp del: below_set_at) (intro below_set_at, simp_all)
    then have "parse_first_col_spec_safe (?N 4) = finish (first_column rows c (named_tbl name rows) (ps_database (?N 5)) (?N 5))"
      using assms(2,3,5,9) r(5) by (intro parse_first_col_spec_valid(2) [OF _ _ _ _ _ _ _ _ s]) (simp_all add: the_tbl_def mem_tbl_def named_tbl_def)
    then show ?thesis by simp
  qed
  also have "?N 5 = adv 5 ((set_at ?t (Tbl (named_tbl name rows)) (set_at ?a (Db (named_db dname ?t)) s))
      \<lparr>ps_tbl := ?t, ps_database := database_counter_init rows\<rparr>)"
    by (simp add: set_at_def adv_def)
  finally show ?thesis by (simp add: first_table_def Let_def)
qed

text \<open>Behind the first column of a database.\<close>

lemma open_first_table:
  assumes "rest s = database_args (dname, (name, rows, c # cs) # ts) @ r" "rows \<le> UPTO_MAX" "below (ps_db s) s"
    "ps_db s + sizeof_ColSpec * length (rest s) \<le> mem_size (ps_mem s)" "last_is_db s"
  defines "s' \<equiv> first_table dname name rows c s" and "u \<equiv> ps_db s + sizeof_DbSpec"
  shows "rest s' = concat (map column_args cs) @ concat (map table_args ts) @ r" "open_table rows s'" "last_is_db s'" "keeps s s'"
    "the_tbl s' = Some ((named_tbl name rows)\<lparr>tbl_from := Some (u + sizeof_TblSpec)\<rparr>)"
    "ps_tbl s' = u" "ps_col s' = u + sizeof_TblSpec" "ps_db s' = ps_db s" "ps_last s' = ps_last s" "ps_head s' = ps_head s"
    "ps_generator s' = ps_generator s" "ps_database s' = column_counts rows c (database_counter_init rows)"
    "mem_at (ps_mem s') = (mem_at (ps_mem s))(ps_db s \<mapsto> Db (named_db dname u),
      u \<mapsto> Tbl ((named_tbl name rows)\<lparr>tbl_from := Some (u + sizeof_TblSpec)\<rparr>), u + sizeof_TblSpec \<mapsto> Col (column_spec rows c))"
proof -
  show r: "rest s' = concat (map column_args cs) @ concat (map table_args ts) @ r"
    using assms(1) by (cases c) (simp add: s'_def first_table_def first_column_def Let_def)
  show m: "mem_at (ps_mem s') = (mem_at (ps_mem s))(ps_db s \<mapsto> Db (named_db dname u),
      u \<mapsto> Tbl ((named_tbl name rows)\<lparr>tbl_from := Some (u + sizeof_TblSpec)\<rparr>), u + sizeof_TblSpec \<mapsto> Col (column_spec rows c))"
    by (simp add: s'_def u_def first_table_def first_column_def Let_def fill_def adv_def set_at_def)
  show k: "keeps s s'" and tbl: "ps_tbl s' = u" and col: "ps_col s' = u + sizeof_TblSpec" and "ps_db s' = ps_db s"
    and last: "ps_last s' = ps_last s" and "ps_head s' = ps_head s" "ps_generator s' = ps_generator s"
    "ps_database s' = column_counts rows c (database_counter_init rows)"
    by (simp_all add: keeps_def s'_def u_def first_table_def first_column_def Let_def fill_def adv_def set_at_def)
  show t: "the_tbl s' = Some ((named_tbl name rows)\<lparr>tbl_from := Some (u + sizeof_TblSpec)\<rparr>)"
    using m tbl by (simp add: the_tbl_def mem_tbl_def)
  have b: "b + spec_size x \<le> ps_db s" if "mem_at (ps_mem s) b = Some x" for b x using assms(3) that by (simp add: below_def)
  have "below (u + sizeof_TblSpec + sizeof_ColSpec) s'"
    unfolding below_def m by (auto simp: u_def split: if_split_asm dest!: b)
  moreover have "length (rest s) = 7 + length (kind_args (fst (snd c)) @ grouping_args (snd (snd c))) + length (rest s')"
    using assms(1) r by (cases c) simp
  ultimately show "open_table rows s'"
    using assms(2,4) t col k tbl by (simp add: open_table_def row_count_def keeps_def named_tbl_def u_def)
  show "last_is_db s'"
    unfolding last_is_db_def last
  proof (intro allI impI)
    fix a assume "ps_last s = Some a"
    then obtain d where d: "mem_at (ps_mem s) a = Some (Db d)" using assms(5) by (auto simp: last_is_db_def)
    from b [OF this] d show "\<exists>d. mem_at (ps_mem s') a = Some (Db d)" by (simp add: m u_def)
  qed
qed

lemma next_cols_tbl:
  assumes "open_table rows s" "rest s = concat (map column_args cs) @ r" "the_tbl s = Some t" "last_is_db s"
  shows "the_tbl (next_cols rows cs s) = Some t" "last_is_db (next_cols rows cs s)"
proof -
  note e = next_cols_simps [OF assms(1,2)]
  have p: "ps_tbl s \<le> ps_col s" "below (ps_col s + sizeof_ColSpec) s" using assms(1) by (simp_all add: open_table_def)
  show "the_tbl (next_cols rows cs s) = Some t" using e p(1) assms(3) by (simp add: the_tbl_def mem_tbl_def map_add_None)
  show "last_is_db (next_cols rows cs s)"
    by (rule last_is_db_add [OF assms(4) _ p(2) _ assms(3)]) (use e in \<open>simp_all add: map_add_None\<close>)
qed

text \<open>A database: \<open>database_end\<close> is the state behind it.\<close>

definition database_end :: "database_desc \<Rightarrow> parse_state \<Rightarrow> parse_state" where
  "database_end d s =
     (case d of (dname, (name, rows, c # cs) # ts) \<Rightarrow>
        next_tables ts ((named_tbl name rows)\<lparr>tbl_from := Some (ps_db s + sizeof_DbSpec + sizeof_TblSpec)\<rparr>)
          (next_cols rows cs (first_table dname name rows c s)))"

definition database_counts :: "database_desc \<Rightarrow> database_counter" where
  "database_counts d =
     (case d of (dname, (name, rows, c # cs) # ts) \<Rightarrow>
        fold table_counts ts (fold (\<lambda>c d. column_counts rows c (count_column d)) cs (column_counts rows c (database_counter_init rows))))"

lemma leads_database:
  assumes "rest s = database_args d @ r" "r = [] \<or> hd r = ''-d''" "database_valid d" "below (ps_db s) s" "last_is_db s"
    "ps_db s + sizeof_ColSpec * length (rest s) \<le> mem_size (ps_mem s)" "leads (behind (database_end d s)) s'"
  shows "leads (parse_first_db_spec s) s'"
proof -
  obtain dname name rows c cs ts where d: "d = (dname, (name, rows, c # cs) # ts)"
    using assms(3) by (cases d) (auto simp: neq_Nil_conv)
  have v: "rows \<le> UPTO_MAX" "0 < rows" "list_all (column_valid rows) (c # cs)" "list_all table_valid ts"
    "parse_name DB_NAME_LENGTH_MAX Database dname = None" "parse_name TBL_NAME_LENGTH_MAX Table_Name name = None"
    using assms(3) by (simp_all add: d)
  note o' = open_first_table [OF assms(1) [unfolded d] v(1) assms(4,6,5)]
  note e = next_cols_simps [OF o'(2,1)]
  have b: "boundary (concat (map table_args ts) @ r)" using assms(2) by (intro boundary_tables) (auto simp: boundary_def)
  have r: "rest s = ''-d'' # dname # ''-t'' # name # decimal rows # column_args c @ concat (map column_args cs) @ concat (map table_args ts) @ r"
    using assms(1) by (simp add: d)
  let ?s = "next_cols rows cs (first_table dname name rows c s)"
  let ?t = "(named_tbl name rows)\<lparr>tbl_from := Some (ps_db s + sizeof_DbSpec + sizeof_TblSpec)\<rparr>"
  have t: "the_tbl ?s = Some ?t" "last_is_db ?s"
    using next_cols_tbl [OF o'(2,1,5,3)] by (simp_all add: add.assoc)
  have "leads (finish ?s) s'"
    using e t assms(7) v(4) by (intro leads_tables [where t = ?t and rows = rows and r = r and ts = ts] assms(2)) (simp_all add: database_end_def d)
  then have "leads (finish (first_table dname name rows c s)) s'"
    using v(3) by (intro leads_columns [OF o'(2,1) b]) simp_all
  moreover have "parse_first_db_spec s = finish (first_table dname name rows c s)"
  proof (rule parse_first_db_valid [OF r boundary_columns [OF b]])
    have "6 \<le> length (rest s)" unfolding r by (cases c) simp
    then show "ps_db s + sizeof_DbSpec + sizeof_TblSpec + sizeof_ColSpec \<le> mem_size (ps_mem s)" using assms(6) by simp
  qed (use v assms(4) in simp_all)
  ultimately show ?thesis by simp
qed

lemma sum_table_size: "database_size (dname, ts) = sizeof_DbSpec + sum_list (map table_size ts)"
  by simp

lemma lay_tables_bound: "map_of (lay_tables a ts) b = Some x \<Longrightarrow> b < a + sum_list (map table_size ts)"
proof (induction ts arbitrary: a)
  case (Cons t ts)
  obtain name rows cs where t: "t = (name, rows, cs)" by (cases t)
  show ?case using Cons lay_columns_bound [of rows "a + sizeof_TblSpec" cs b x]
    by (force simp: t Let_def map_add_Some_iff split: if_split_asm)
qed simp

lemma lay_databases_other [simp]: "b < a \<Longrightarrow> map_of (lay_databases a ds) b = None"
  using lay_databases_least [of a ds b] by (cases "map_of (lay_databases a ds) b") auto

lemma lay_columns_within: "map_of (lay_columns rows a cs) b = Some x \<Longrightarrow> b + spec_size x \<le> a + sizeof_ColSpec * length cs"
  by (induction cs arbitrary: a) (force split: if_split_asm)+

lemma lay_tables_within: "map_of (lay_tables a ts) b = Some x \<Longrightarrow> b + spec_size x \<le> a + sum_list (map table_size ts)"
proof (induction ts arbitrary: a)
  case (Cons t ts)
  obtain name rows cs where t: "t = (name, rows, cs)" by (cases t)
  show ?case using Cons lay_columns_within [of rows "a + sizeof_TblSpec" cs b x]
    by (force simp: t Let_def map_add_Some_iff split: if_split_asm)
qed simp

lemma link_at: "F a = Some (Db d) \<Longrightarrow> link p (Some a) F = F(a \<mapsto> Db (d\<lparr>db_next := Some p\<rparr>))"
  by (simp add: link_def)

lemma link_size: "link p l F b = Some x \<Longrightarrow> \<exists>y. F b = Some y \<and> spec_size y = spec_size x"
  by (auto simp: link_def split: option.splits spec.splits if_split_asm)

lemma database_end_simps:
  assumes "rest s = database_args d @ r" "database_valid d" "below (ps_db s) s" "last_is_db s"
    "ps_db s + sizeof_ColSpec * length (rest s) \<le> mem_size (ps_mem s)"
  defines "s' \<equiv> database_end d s" and "u \<equiv> ps_db s"
  shows "rest s' = r" "keeps s s'" "ps_col s' + sizeof_ColSpec = u + database_size d" "ps_last s' = Some u"
    "ps_head s' = (if ps_last s = None then Some (Some u) else ps_head s)"
    "ps_generator s' = generator_counter_update (ps_generator s) (database_counts d)"
    "mem_at (ps_mem s') = link (Some u) (ps_last s)
      ((mem_at (ps_mem s))(u \<mapsto> Db (named_db (fst d) (u + sizeof_DbSpec))) ++ map_of (lay_tables (u + sizeof_DbSpec) (snd d)))"
    "ps_col s' + sizeof_ColSpec + sizeof_ColSpec * length r \<le> mem_size (ps_mem s')"
    "below (ps_col s' + sizeof_ColSpec) s'"
proof -
  obtain dname name rows c cs ts where d: "d = (dname, (name, rows, c # cs) # ts)"
    using assms(2) by (cases d) (auto simp: neq_Nil_conv)
  have v: "rows \<le> UPTO_MAX" "list_all table_valid ts" using assms(2) by (simp_all add: d)
  note o' = open_first_table [OF assms(1) [unfolded d] v(1) assms(3,5,4)]
  note e = next_cols_simps [OF o'(2,1)]
  let ?s = "next_cols rows cs (first_table dname name rows c s)" and ?a = "ps_db s + sizeof_DbSpec"
  let ?t = "(named_tbl name rows)\<lparr>tbl_from := Some (?a + sizeof_TblSpec)\<rparr>"
  have t: "the_tbl ?s = Some ?t" "last_is_db ?s" using next_cols_tbl [OF o'(2,1,5,3)] by simp_all
  have f: "rest ?s = concat (map table_args ts) @ r" "open_table rows ?s" "keeps s ?s" "ps_last ?s = ps_last s" "ps_head ?s = ps_head s"
    "ps_generator ?s = ps_generator s" "ps_db ?s = ps_db s" "ps_tbl ?s = ?a"
    "ps_col ?s + sizeof_ColSpec = ?a + table_size (name, rows, c # cs)"
    using e o' keeps_trans [OF o'(4)] by (simp_all)
  note n = next_tables_end [OF f(1) v(2) f(2) t]
  have fin: "s' = next_tables ts ?t ?s" by (simp add: s'_def database_end_def d)
  show "rest s' = r" "ps_last s' = Some u" "ps_head s' = (if ps_last s = None then Some (Some u) else ps_head s)"
    "ps_col s' + sizeof_ColSpec + sizeof_ColSpec * length r \<le> mem_size (ps_mem s')"
    using n f(4-7) unfolding fin u_def by simp_all
  show "keeps s s'" using n keeps_trans [OF f(3)] unfolding fin by blast
  show "ps_col s' + sizeof_ColSpec = u + database_size d" using n f(9) unfolding fin u_def by (simp add: d)
  show "ps_generator s' = generator_counter_update (ps_generator s) (database_counts d)"
    using n f(6) e o'(12) unfolding fin by (simp add: d database_counts_def)
  let ?F = "(mem_at (ps_mem s))(ps_db s \<mapsto> Db (named_db dname ?a))" and ?v = "?a + table_size (name, rows, c # cs)"
  have "ps_col (first_table dname name rows c s) = ?a + sizeof_TblSpec" using o'(7) .
  then have m: "mem_at (ps_mem ?s) = ?F(?a \<mapsto> Tbl ?t) ++ map_of (lay_columns rows (?a + sizeof_TblSpec) (c # cs))"
    using e o'(13) by (simp add: lay_columns_add del: fun_upd_apply)
  have "mem_at (ps_mem s') = link (Some u) (ps_last s)
      ((?F(?a \<mapsto> Tbl ?t) ++ map_of (lay_columns rows (?a + sizeof_TblSpec) (c # cs)))
        (?a \<mapsto> Tbl (closed_tbl ?v (if ts = [] then None else Some ?v) ?t)) ++ map_of (lay_tables ?v ts))"
    using n unfolding f(4,7-9) m fin u_def by (elim conjE) assumption
  also have "\<dots> = link (Some u) (ps_last s) (?F ++ map_of (lay_tables ?a ((name, rows, c # cs) # ts)))"
  proof (subst lay_step)
    show "map_of (lay_columns rows (?a + sizeof_TblSpec) (c # cs)) ?a = None" by (rule lay_columns_other) simp
    show "map_of (lay_tables ?v ts) ?a = None" using table_size_pos [of "(name, rows, c # cs)"] by (intro lay_tables_other) simp
    show False if "map_of (lay_columns rows (?a + sizeof_TblSpec) (c # cs)) b = Some y" "map_of (lay_tables ?v ts) b = Some z" for b y z
      using lay_columns_bound [OF that(1)] lay_tables_least [OF that(2)] by simp
  qed (simp add: Let_def closed_tbl_def named_tbl_def new_tbl_def)
  finally show m': "mem_at (ps_mem s') = link (Some u) (ps_last s)
      ((mem_at (ps_mem s))(u \<mapsto> Db (named_db (fst d) (u + sizeof_DbSpec))) ++ map_of (lay_tables (u + sizeof_DbSpec) (snd d)))"
    by (simp add: d u_def del: lay_tables.simps fun_upd_apply)
  show "below (ps_col s' + sizeof_ColSpec) s'"
    unfolding below_def \<open>ps_col s' + sizeof_ColSpec = _\<close>
  proof (intro allI impI)
    fix b y assume "mem_at (ps_mem s') b = Some y"
    then obtain z where z: "spec_size z = spec_size y"
      "((mem_at (ps_mem s))(u \<mapsto> Db (named_db (fst d) (u + sizeof_DbSpec))) ++ map_of (lay_tables (u + sizeof_DbSpec) (snd d))) b = Some z"
      unfolding m' using link_size by metis
    then consider (L) "map_of (lay_tables (u + sizeof_DbSpec) (snd d)) b = Some z" | (u) "b = u" "z = Db (named_db (fst d) (u + sizeof_DbSpec))"
      | (F) "mem_at (ps_mem s) b = Some z"
      by (auto simp: map_add_Some_iff split: if_split_asm)
    then show "b + spec_size y \<le> u + database_size d"
    proof cases
      case L
      then show ?thesis using lay_tables_within [OF L] z(1) by (cases d) simp
    next
      case u
      then show ?thesis using z(1) by (cases d) simp
    next
      case F
      then have "b + spec_size z \<le> u" using assms(3) by (simp add: below_def u_def)
      then show ?thesis using z(1) by simp
    qed
  qed
qed

text \<open>The further databases.\<close>

lemma link_add:
  assumes "l < u" "\<And>b x. map_of L b = Some x \<Longrightarrow> u \<le> b"
  shows "link p (Some l) (F(u \<mapsto> x) ++ map_of L) = (link p (Some l) F)(u \<mapsto> x) ++ map_of L"
proof -
  have "map_of L l = None" using assms by (cases "map_of L l") force+
  then have "l \<notin> dom (map_of L)" "(F(u \<mapsto> x) ++ map_of L) l = F l" using assms(1) by (auto simp: map_add_None)
  then show ?thesis using assms(1)
    by (simp add: link_def fun_upd_twist map_add_upd_left split: option.split spec.split)
qed

lemma lay_database:
  "link (if ds = [] then None else Some (u + database_size x)) (Some u)
      (F(u \<mapsto> Db (named_db (fst x) (u + sizeof_DbSpec))) ++ map_of (lay_tables (u + sizeof_DbSpec) (snd x)))
    ++ map_of (lay_databases (u + database_size x) ds) = F ++ map_of (lay_databases u (x # ds))"
proof -
  let ?d = "named_db (fst x) (u + sizeof_DbSpec)" and ?L = "lay_tables (u + sizeof_DbSpec) (snd x)" and ?v = "u + database_size x"
  let ?p = "if ds = [] then None else Some ?v"
  have "(F(u \<mapsto> Db ?d) ++ map_of ?L) u = Some (Db ?d)" by (simp add: map_add_None)
  from link_at [where F = "F(u \<mapsto> Db ?d) ++ map_of ?L" and a = u, OF this, of ?p] have "link ?p (Some u) (F(u \<mapsto> Db ?d) ++ map_of ?L) ++ map_of (lay_databases ?v ds) =
      (F(u \<mapsto> Db ?d) ++ map_of ?L)(u \<mapsto> Db (?d\<lparr>db_next := Some ?p\<rparr>)) ++ map_of (lay_databases ?v ds)"
    by (simp only:)
  also have "\<dots> = F ++ map_of ((u, Db (?d\<lparr>db_next := Some ?p\<rparr>)) # ?L @ lay_databases ?v ds)"
  proof (rule lay_step)
    show "map_of ?L u = None" by (rule lay_tables_other) simp
    show "map_of (lay_databases ?v ds) u = None" by (rule lay_databases_other) (cases x, simp)
    show False if "map_of ?L b = Some y" "map_of (lay_databases ?v ds) b = Some z" for b y z
      using lay_tables_bound [OF that(1)] lay_databases_least [OF that(2)] by (cases x) simp
  qed
  also have "(u, Db (?d\<lparr>db_next := Some ?p\<rparr>)) # ?L @ lay_databases ?v ds = lay_databases u (x # ds)"
    by (cases x) (simp add: named_db_def new_db_def Let_def)
  finally show ?thesis .
qed

lemma database_args_length: "database_valid d \<Longrightarrow> DB_SPEC_LENGTH_MIN \<le> length (database_args d)"
proof -
  assume "database_valid d"
  then obtain dname name rows col cname kind g cs ts where d: "d = (dname, (name, rows, (cname, kind, g) # cs) # ts)"
    by (cases d) (auto simp: neq_Nil_conv)
  have "1 \<le> length (kind_args kind)" by (cases kind) simp_all
  then show ?thesis by (simp add: d DB_SPEC_LENGTH_MIN_def)
qed

lemma leads_behind:
  assumes "rest s = concat (map database_args ds)" "list_all database_valid ds" "below (ps_col s + sizeof_ColSpec) s"
    "ps_last s = Some l" "mem_at (ps_mem s) l = Some (Db d)" "ps_col s + sizeof_ColSpec + sizeof_ColSpec * length (rest s) \<le> mem_size (ps_mem s)"
    "ps_db_until s = length (ps_args s) + 1 - DB_SPEC_LENGTH_MIN"
  defines "u \<equiv> ps_col s + sizeof_ColSpec"
  shows "\<exists>s'. leads (behind s) s' \<and> keeps s s' \<and> ps_head s' = ps_head s \<and>
    ps_generator s' = fold (\<lambda>d g. generator_counter_update g (database_counts d)) ds (ps_generator s) \<and>
    mem_at (ps_mem s') = link (if ds = [] then None else Some u) (Some l) (mem_at (ps_mem s)) ++ map_of (lay_databases u ds)"
  using assms(1-7) unfolding u_def
proof (induction ds arbitrary: s l d)
  case Nil
  have "last_is_db s" using Nil.prems(4,5) by (simp add: last_is_db_def)
  from set_last_close [OF this] have "leads (behind s) (close_last None s)"
    using Nil.prems(1) by (simp add: behind_def leads_def stop_def)
  then show ?case using close_last_simps [where s = s and p = None] Nil.prems(4) by (intro exI [of _ "close_last None s"]) simp
next
  case (Cons x ds)
  let ?u = "ps_col s + sizeof_ColSpec" and ?r = "concat (map database_args ds)"
  let ?s = "s\<lparr>ps_db := ?u\<rparr>"
  have s: "rest ?s = database_args x @ ?r" "ps_db ?s = ?u" "keeps s ?s" "ps_last ?s = Some l" "ps_mem ?s = ps_mem s" "ps_head ?s = ps_head s"
    "ps_generator ?s = ps_generator s" "below (ps_db ?s) ?s" "last_is_db ?s" "ps_db ?s + sizeof_ColSpec * length (rest ?s) \<le> mem_size (ps_mem ?s)"
    using Cons.prems by (auto simp: rest_def keeps_def below_def last_is_db_def)
  have v: "database_valid x" "list_all database_valid ds" using Cons.prems(2) by simp_all
  note e = database_end_simps [OF s(1) v(1) s(8,9,10), unfolded s(2,4)]
  let ?s' = "database_end x ?s" and ?L = "lay_tables (?u + sizeof_DbSpec) (snd x)" and ?F = "link (Some ?u) (Some l) (mem_at (ps_mem s))"
  let ?d = "named_db (fst x) (?u + sizeof_DbSpec)" and ?v = "?u + database_size x" and ?p = "if ds = [] then None else Some (?u + database_size x)"
  have lu: "l < ?u" using Cons.prems(3,5) by (fastforce simp: below_def)
  have m: "mem_at (ps_mem ?s') = ?F(?u \<mapsto> Db ?d) ++ map_of ?L"
    using e(7) link_add [OF lu, of ?L] by (force simp: s(5) dest: lay_tables_least simp del: lay_tables.simps fun_upd_apply)
  have at_u: "mem_at (ps_mem ?s') ?u = Some (Db ?d)" unfolding m by (simp add: map_add_None)
  have len: "ps_db_until ?s' = length (ps_args ?s') + 1 - DB_SPEC_LENGTH_MIN" "keeps s ?s'"
    using keeps_trans [OF s(3) e(2)] Cons.prems(7) by (simp_all add: keeps_def)
  have room: "ps_col ?s' + sizeof_ColSpec + sizeof_ColSpec * length (rest ?s') \<le> mem_size (ps_mem ?s')" unfolding e(1) by (rule e(8))
  obtain s' where s': "leads (behind ?s') s'" "keeps ?s' s'" "ps_head s' = ps_head ?s'"
    "ps_generator s' = fold (\<lambda>d g. generator_counter_update g (database_counts d)) ds (ps_generator ?s')"
    "mem_at (ps_mem s') = link ?p (Some ?u) (mem_at (ps_mem ?s')) ++ map_of (lay_databases ?v ds)"
    using Cons.IH [OF e(1) v(2) e(9,4) at_u room len(1), unfolded e(3)] by (elim exE conjE)
  have "leads (parse_first_db_spec ?s) s'"
    by (rule leads_database [OF s(1) _ v(1) s(8,9,10) s'(1)]) (cases ds, simp, cases "hd ds", simp)
  moreover have "parse_next_db_spec ?s = parse_first_db_spec ?s"
  proof -
    have "DB_SPEC_LENGTH_MIN \<le> length (rest s)" using database_args_length [OF v(1)] Cons.prems(1) by simp
    then have "ps_from ?s < ps_db_until ?s" using Cons.prems(7) by (simp add: rest_def DB_SPEC_LENGTH_MIN_def)
    then show ?thesis by (simp add: parse_next_db_spec_def parse_first_db_spec_def Let_def)
  qed
  moreover have "behind s = call Next_Db ?s" using Cons.prems(1) by (cases x) (simp add: behind_def)
  ultimately have 1: "leads (behind s) s'" by (simp add: leads_call)
  have "mem_at (ps_mem s') = ?F ++ map_of (lay_databases ?u (x # ds))"
    unfolding s'(5) m by (rule lay_database)
  then show ?case using 1 s'(2-4) keeps_trans [OF len(2)] e(5,6) s(6,7)
    by (intro exI [of _ s']) (simp del: lay_databases.simps)
qed

section \<open>The round trip\<close>

definition command_line :: "database_desc list \<Rightarrow> string list" where
  "command_line ds = concat (map database_args ds)"

definition generator_counts :: "database_desc list \<Rightarrow> generator_counter" where
  "generator_counts ds = fold (\<lambda>d g. generator_counter_update g (database_counts d)) ds generator_counter_init"

lemma parse_run_stop: "parse_run j n s = Some (Stop s') \<Longrightarrow> parse_run k n s = Some (Stop s') \<or> (\<exists>m t. parse_run k n s = Some (Call m t))"
proof (induction j arbitrary: k n s)
  case (Suc j)
  show ?case
  proof (cases k)
    case (Suc k')
    then show ?thesis using Suc.prems Suc.IH [of _ _ k'] by (cases "parse_call n s") (auto split: outcome.splits)
  qed simp
qed simp

lemma leads_result:
  assumes "leads r s'" "\<And>m t. do { r \<leftarrow> r; case r of Stop s \<Rightarrow> Some (Stop s) | Call n s \<Rightarrow> parse_run k n s } \<noteq> Some (Call m t)"
  shows "do { r \<leftarrow> r; case r of Stop s \<Rightarrow> Some (Stop s) | Call n s \<Rightarrow> parse_run k n s } = Some (Stop s')"
proof (cases "r = Some (Stop s')")
  case False
  then obtain n s calls where r: "r = Some (Call n s)" "parse_run calls n s = Some (Stop s')" using assms(1) by (auto simp: leads_def)
  from parse_run_stop [OF r(2), of k] assms(2) show ?thesis by (auto simp: r(1))
qed simp

lemma gc_databases_counts: "gc_databases (fold (\<lambda>d g. generator_counter_update g (database_counts d)) ds g) = gc_databases g + length ds"
  by (induction ds arbitrary: g) (simp_all add: generator_counter_update_def)

lemma generate_dispatch_command_line:
  assumes "ds \<noteq> []" "list_all database_valid ds"
  shows "\<exists>s. generate_dispatch True (command_line ds) = Some (Generate s) \<and>
    \<not> ps_failed s \<and> ps_errors s = [] \<and> ps_head s = Some (Some 0) \<and> ps_generator s = generator_counts ds \<and>
    mem_at (ps_mem s) = map_of (lay_databases 0 ds)"
proof -
  obtain d ds' where ds: "ds = d # ds'" using assms(1) by (cases ds) simp_all
  let ?args = "command_line ds" and ?r = "concat (map database_args ds')"
  let ?alloc = "spec_alloc_size (length ?args)" and ?M = "spec_alloc_size (length ?args) + sizeof_ColSpec * length (command_line ds)"
  let ?s = "parse_init ?M ?args"
  have v: "database_valid d" "list_all database_valid ds'" using assms(2) by (simp_all add: ds)
  have n: "DB_SPEC_LENGTH_MIN \<le> length ?args" using database_args_length [OF v(1)] by (simp add: ds command_line_def)
  have s: "rest ?s = database_args d @ ?r" "ps_db ?s = 0" "below (ps_db ?s) ?s" "last_is_db ?s" "ps_last ?s = None"
    "ps_db ?s + sizeof_ColSpec * length (rest ?s) \<le> mem_size (ps_mem ?s)" "ps_generator ?s = generator_counter_init"
    "mem_at (ps_mem ?s) = Map.empty" "\<not> ps_failed ?s" "ps_errors ?s = []"
    by (simp_all add: rest_def parse_init_def below_def last_is_db_def ds command_line_def)
  note e = database_end_simps [OF s(1) v(1) s(3,4,6), unfolded s(2,5,7,8)]
  let ?s' = "database_end d ?s" and ?d = "named_db (fst d) sizeof_DbSpec" and ?v = "database_size d"
  have m: "mem_at (ps_mem ?s') = [0 \<mapsto> Db ?d] ++ map_of (lay_tables sizeof_DbSpec (snd d))" using e(7) by (simp add: link_def)
  have at_0: "mem_at (ps_mem ?s') 0 = Some (Db ?d)" unfolding m by (simp add: map_add_None)
  have u: "ps_db_until ?s' = length (ps_args ?s') + 1 - DB_SPEC_LENGTH_MIN"
    using e(2) by (simp add: keeps_def parse_init_def)
  have room: "ps_col ?s' + sizeof_ColSpec + sizeof_ColSpec * length (rest ?s') \<le> mem_size (ps_mem ?s')" unfolding e(1) by (rule e(8))
  obtain S where S: "leads (behind ?s') S" "keeps ?s' S" "ps_head S = ps_head ?s'"
    "ps_generator S = fold (\<lambda>d g. generator_counter_update g (database_counts d)) ds' (ps_generator ?s')"
    "mem_at (ps_mem S) = link (if ds' = [] then None else Some ?v) (Some 0) (mem_at (ps_mem ?s')) ++ map_of (lay_databases ?v ds')"
    using leads_behind [OF e(1) v(2) e(9,4) at_0 room u, unfolded e(3) add_0] by (elim exE conjE)
  have "leads (parse_first_db_spec ?s) S"
    by (rule leads_database [OF s(1) _ v(1) s(3,4,6) S(1)]) (cases ds', simp, cases "hd ds'", simp)
  moreover have "parse_db_specs ?s = parse_first_db_spec ?s"
    using flag_matches(3) [of ?s] rest_arg [of ?s "''-d''"] s(1) by (cases d) (simp add: parse_db_specs_def if_parsed_def)
  ultimately have l: "leads (parse_db_specs ?s) S" by simp
  have g: "parse_specs ?M ?args = map_option (grow_outcome ?M) (parse_specs ?alloc ?args)"
    by (rule parse_specs_ok(1) [OF n]) simp
  then have "parse_specs ?M ?args \<noteq> Some (Call m t)" for m t
    using parse_specs_ok(2) [OF n] by (auto simp: grow_outcome_def split: outcome.splits)
  then have "parse_specs ?M ?args = Some (Stop S)"
    using leads_result [OF l, of "length ?args"] unfolding parse_specs_def by blast
  then obtain z where z: "parse_specs ?alloc ?args = Some z" "grow_outcome ?M z = Stop S" unfolding g by auto
  then obtain t where t: "parse_specs ?alloc ?args = Some (Stop t)" "S = grow ?M t" by (cases z) auto
  have G: "ps_generator S = generator_counts ds" unfolding S(4) e(6) by (simp add: ds generator_counts_def)
  have "mem_at (ps_mem S) = map_of (lay_databases 0 (d # ds'))"
    unfolding S(5) m using lay_database [of ds' 0 d Map.empty] by (simp only: add_0 empty_map_add)
  then have "mem_at (ps_mem S) = map_of (lay_databases 0 ds)" by (simp only: ds)
  moreover have "?args \<noteq> []" using n by (auto simp: DB_SPEC_LENGTH_MIN_def)
  then have "generate_dispatch True ?args = Some (Generate t)"
    using n t G gc_databases_counts [of ds generator_counter_init] assms(1)
    by (simp add: generate_dispatch_def DB_SPEC_LENGTH_MIN_def generator_counts_def)
  moreover have "\<not> ps_failed t" "ps_errors t = []" using S(2) e(2) s(9,10) t(2) by (simp_all add: keeps_def)
  moreover have "ps_head t = Some (Some 0)" using S(3) e(5) t(2) by simp
  ultimately show ?thesis using G t(2) by auto
qed

text \<open>
  C5: The arguments that describe a list of databases are parsed to exactly these: no error, the
  chain of databases starts at the block, the block holds the databases, tables and columns one after
  another with their names, numbers of rows, types, builders and groups, linked in order, and the
  counters for the generator are those of the description.
\<close>

theorem generate_dispatch_roundtrip:
  assumes "ds \<noteq> []" "list_all database_valid ds"
  shows "\<exists>s. generate_dispatch True (command_line ds) = Some (Generate s) \<and>
    \<not> ps_failed s \<and> ps_errors s = [] \<and> ps_head s = Some (Some 0) \<and> ps_generator s = generator_counts ds \<and>
    mem_at (ps_mem s) = map_of (lay_databases 0 ds)"
  using assms by (rule generate_dispatch_command_line)

definition example :: "database_desc list" where
  "example =
     [(''shop'', [(''item'', 1000, [(''id'', Unsigned_Numbers, Rows), (''kind'', Numbered_Strings ''k'', Groups 3 Partition_Groups_Linear)]),
                  (''log'', 20, [(''at'', Datetimes, Rows)])]),
      (''users'', [(''user'', 7, [(''key'', Uuids, Groups 2 Partition_Groups_Even)])])]"

text \<open>The loops one code point at a time, for numerals.\<close>

lemmas name_loop_numeral = name_loop.simps(2) [of "pred_numeral k" for k, folded numeral_eq_Suc]
lemmas string_loop_numeral = string_loop.simps(2) [of "pred_numeral k" for k, folded numeral_eq_Suc]

lemma example_valid: "example \<noteq> []" "list_all database_valid example"
  by (simp_all add: example_def parse_name_def name_loop_numeral string_loop_numeral utf8_width_def utf8_head_width_def
        octet_def DB_NAME_LENGTH_MAX_def TBL_NAME_LENGTH_MAX_def COL_NAME_LENGTH_MAX_def BASE_STRING_LENGTH_MAX_def
        UPTO_MAX_def)

text \<open>The example as arguments.\<close>

lemma example_arguments:
  "command_line example =
     [''-d'', ''shop'', ''-t'', ''item'', ''1000'', ''-c'', ''id'', ''-u'', ''-c'', ''kind'', ''-s'', ''-u'', ''k'',
      ''--group'', ''3'', ''--linear'', ''-t'', ''log'', ''20'', ''-c'', ''at'', ''--datetime'', ''-d'', ''users'',
      ''-t'', ''user'', ''7'', ''-c'', ''key'', ''-s'', ''-uu'', ''-g'', ''2'', ''-e'']"
  by (simp add: command_line_def example_def decimal.simps DIGIT_TO_ASCII_def char_of_def bit_0)

theorem generate_dispatch_roundtrip_witness:
  "\<exists>s. generate_dispatch True (command_line example) = Some (Generate s) \<and>
    \<not> ps_failed s \<and> ps_errors s = [] \<and> ps_head s = Some (Some 0) \<and> ps_generator s = generator_counts example \<and>
    mem_at (ps_mem s) = map_of (lay_databases 0 example)"
  by (rule generate_dispatch_roundtrip [OF example_valid])

theorem dispatch_failure_witness:
  "map_option (dispatch_exit (\<lambda>s. True)) (generate_dispatch True (command_line example)) = Some EXIT_SUCCESS"
proof -
  obtain s where s: "generate_dispatch True (command_line example) = Some (Generate s)" "\<not> ps_failed s"
    using generate_dispatch_command_line [OF example_valid] by blast
  note p = generate_dispatchD [OF s(1)]
  then have "ps_errors s = []" using parse_specs_ok(2) [of "command_line example" "Stop s"] s(2) by blast
  moreover have "gc_databases (ps_generator s) \<noteq> 0"
    using s(1) p by (auto simp: generate_dispatch_def split: if_splits)
  ultimately show ?thesis unfolding dispatch_failure using p by blast
qed

end
