(* ===== verification/Rounding.thy ===== *)
theory Rounding
  imports Group
begin

text \<open>
  The arithmetic of \<open>double\<close> in \<open>partition_groups_linear\<close> of \<open>src/generate/group.c\<close>. Of the rounding
  only this is used: it is monotonic, leaves the whole numbers up to \<open>2 ^ 53\<close> alone, and adds at most one
  part in \<open>2 ^ 53\<close> to a number. Rounding to the nearest of 53 bits does this; the numbers that occur are
  too large for subnormals and too small for an overflow. Then the partitioner splits the rows of every
  table the parser accepts, at most \<open>UPTO_MAX\<close>, into any number of groups up to the rows.
\<close>

section \<open>Rounding\<close>

definition rounds :: "(rat \<Rightarrow> rat) \<Rightarrow> bool" where
  "rounds rnd \<longleftrightarrow> (\<forall>x y. 0 \<le> x \<longrightarrow> x \<le> y \<longrightarrow> rnd x \<le> rnd y) \<and> (\<forall>n \<le> 2 ^ 53. rnd (of_nat n) = of_nat n) \<and>
     (\<forall>x \<ge> 0. rnd x \<le> x * (1 + 1 / 2 ^ 53))"

definition rounded_ops :: "(rat \<Rightarrow> rat) \<Rightarrow> rat double_ops" where
  "rounded_ops rnd =
     \<lparr>d_of_size = (\<lambda>n. rnd (of_nat n)), d_add = (\<lambda>x y. rnd (x + y)), d_sub = (\<lambda>x y. rnd (x - y)),
      d_mult = (\<lambda>x y. rnd (x * y)), d_div = (\<lambda>x y. rnd (x / y)), d_to_size = (\<lambda>x. nat \<lfloor>x\<rfloor>)\<rparr>"

definition grown :: rat where "grown = 1 + 1 / 2 ^ 53"

lemma grown_ge [simp]: "1 \<le> grown" "0 \<le> grown" "0 \<le> grown ^ k" "1 \<le> grown ^ k"
  by (simp_all add: grown_def one_le_power)

lemma roundsD:
  assumes "rounds rnd"
  shows "0 \<le> x \<Longrightarrow> x \<le> y \<Longrightarrow> rnd x \<le> rnd y" "n \<le> 2 ^ 53 \<Longrightarrow> rnd (of_nat n) = of_nat n" "0 \<le> x \<Longrightarrow> rnd x \<le> x * grown"
    "rnd 0 = 0" "rnd 1 = 1" "rnd 2 = 2" "1 \<le> x \<Longrightarrow> 1 \<le> rnd x" "0 \<le> x \<Longrightarrow> 0 \<le> rnd x" "2 \<le> x \<Longrightarrow> 2 \<le> rnd x"
proof -
  show m: "0 \<le> x \<Longrightarrow> x \<le> y \<Longrightarrow> rnd x \<le> rnd y" for x y using assms by (simp add: rounds_def)
  show e: "n \<le> 2 ^ 53 \<Longrightarrow> rnd (of_nat n) = of_nat n" for n using assms by (simp add: rounds_def)
  show "0 \<le> x \<Longrightarrow> rnd x \<le> x * grown" using assms by (simp add: rounds_def grown_def)
  show 0: "rnd 0 = 0" "rnd 1 = 1" "rnd 2 = 2" using e [of 0] e [of 1] e [of 2] by simp_all
  show "1 \<le> x \<Longrightarrow> 1 \<le> rnd x" "0 \<le> x \<Longrightarrow> 0 \<le> rnd x" "2 \<le> x \<Longrightarrow> 2 \<le> rnd x"
    using m [of 1 x] m [of 0 x] m [of 2 x] 0 by simp_all
qed

lemma grown_power: "grown ^ k * (1 - of_nat k / 2 ^ 53) \<le> 1"
proof (induction k)
  case (Suc k)
  have "grown * (1 - of_nat (Suc k) / 2 ^ 53) \<le> 1 - of_nat k / 2 ^ 53" by (simp add: grown_def field_simps)
  then have "grown ^ k * (grown * (1 - of_nat (Suc k) / 2 ^ 53)) \<le> grown ^ k * (1 - of_nat k / 2 ^ 53)"
    by (rule mult_left_mono) simp
  then show ?case using Suc.IH by (simp only: power_Suc mult_ac)
qed simp

section \<open>The truncated sizes\<close>

lemma rounded_ones:
  assumes "rounds rnd" "0 \<le> slope" "1 \<le> acc" "(acc + of_nat k * slope) * grown ^ k < 2"
  shows "linear_sizes (rounded_ops rnd) slope acc k = replicate k 1"
  using assms(3,4)
proof (induction k arbitrary: acc)
  case (Suc k)
  let ?a = "rnd (acc + slope)"
  have a: "1 \<le> ?a" using Suc.prems(1) assms(2) by (intro roundsD(7) [OF assms(1)]) simp
  have up: "?a \<le> (acc + slope) * grown" using Suc.prems(1) assms(2) by (intro roundsD(3) [OF assms(1)]) simp
  have "of_nat k * slope \<le> of_nat k * slope * grown"
    using assms(2) mult_left_mono [of 1 grown "of_nat k * slope"] by simp
  then have "?a + of_nat k * slope \<le> (acc + of_nat (Suc k) * slope) * grown" using up by (simp add: algebra_simps)
  then have "(?a + of_nat k * slope) * grown ^ k \<le> (acc + of_nat (Suc k) * slope) * grown * grown ^ k"
    by (rule mult_right_mono) simp
  then have lt: "(?a + of_nat k * slope) * grown ^ k < 2" using Suc.prems(2) by (simp add: mult.assoc)
  have "?a \<le> (?a + of_nat k * slope) * grown ^ k"
    using a assms(2) mult_mono [of ?a "?a + of_nat k * slope" 1 "grown ^ k"] by simp
  then have "nat \<lfloor>?a\<rfloor> = 1" using a lt by (simp add: floor_eq_iff nat_eq_iff)
  then show ?case using Suc.IH [OF a lt] by (simp add: rounded_ops_def)
qed simp

text \<open>The running value grows by at most one part in \<open>2 ^ 53\<close> with every group.\<close>

lemma rounded_sum:
  assumes "rounds rnd" "0 \<le> slope" "0 \<le> acc" "acc \<le> A * g" "1 \<le> g" "0 \<le> A"
  shows "of_nat (sum_list (linear_sizes (rounded_ops rnd) slope acc k)) \<le>
    (\<Sum>j<k. (A + of_nat (Suc j) * slope) * (g * grown ^ Suc j))"
  using assms(3-6)
proof (induction k arbitrary: acc A g)
  case (Suc k)
  let ?a = "rnd (acc + slope)"
  have a: "0 \<le> ?a" using Suc.prems assms(2) by (intro roundsD(8) [OF assms(1)]) simp
  have "slope \<le> slope * g" using assms(2) Suc.prems(3) mult_left_mono [of 1 g slope] by simp
  then have "(acc + slope) * grown \<le> (A * g + slope * g) * grown" using Suc.prems(2) by (intro mult_right_mono) simp_all
  moreover have "?a \<le> (acc + slope) * grown" using Suc.prems assms(2) by (intro roundsD(3) [OF assms(1)]) simp
  ultimately have up: "?a \<le> (A + slope) * (g * grown)" by (simp add: algebra_simps)
  have g: "1 \<le> g * grown" using Suc.prems(3) mult_mono [of 1 g 1 grown] by simp
  have "of_nat (sum_list (linear_sizes (rounded_ops rnd) slope ?a k)) \<le>
      (\<Sum>j<k. (A + slope + of_nat (Suc j) * slope) * (g * grown * grown ^ Suc j))"
    using a up g Suc.prems(4) assms(2) by (intro Suc.IH) simp_all
  also have "\<dots> = (\<Sum>j<k. (A + of_nat (Suc (Suc j)) * slope) * (g * grown ^ Suc (Suc j)))"
    by (intro sum.cong refl) (simp add: algebra_simps)
  finally have rest: "of_nat (sum_list (linear_sizes (rounded_ops rnd) slope ?a k)) \<le>
      (\<Sum>j<k. (A + of_nat (Suc (Suc j)) * slope) * (g * grown ^ Suc (Suc j)))" .
  have "of_nat (nat \<lfloor>?a\<rfloor>) \<le> ?a" using a by simp
  then have "of_nat (nat \<lfloor>?a\<rfloor>) + of_nat (sum_list (linear_sizes (rounded_ops rnd) slope ?a k)) \<le>
      (A + slope) * (g * grown) + (\<Sum>j<k. (A + of_nat (Suc (Suc j)) * slope) * (g * grown ^ Suc (Suc j)))"
    using up rest by linarith
  then show ?case by (simp only: sum.lessThan_Suc_shift) (simp add: rounded_ops_def)
qed simp

section \<open>The slope\<close>

text \<open>
  \<open>M\<close> is the exact size of the largest group, \<open>2 R / N - 1\<close>; rounding makes it at most five parts in
  \<open>2 ^ 53\<close> larger.
\<close>

lemma rounded_slope:
  assumes r: "rounds rnd" and n: "0 < n" "n \<le> rows" "rows \<le> 2 ^ 52"
  defines "M \<equiv> 2 * of_nat rows / of_nat n - 1"
  shows "0 \<le> groups_linear_slope (rounded_ops rnd) n rows"
    and "1 + of_nat n * groups_linear_slope (rounded_ops rnd) n rows \<le> M * grown ^ 5"
proof -
  define N R where "N = (of_nat n :: rat)" and "R = (of_nat rows :: rat)"
  define q where "q = rnd (2 * R / N)"
  define gm where "gm = rnd (q - 1)"
  define up where "up = rnd (gm - 1)"
  have N: "1 \<le> N" "N \<le> R" using n by (simp_all add: N_def R_def)
  have M: "1 \<le> M" "2 * R / N = M + 1" using N by (simp_all add: M_def N_def [symmetric] R_def [symmetric] field_simps)
  have ops: "rnd (of_nat rows) = R" "rnd (of_nat n) = N" "rnd (R * 2) = 2 * R"
  proof -
    show "rnd (of_nat rows) = R" "rnd (of_nat n) = N" using n roundsD(2) [OF r] by (simp_all add: N_def R_def)
    have "rnd (of_nat (rows * 2)) = of_nat (rows * 2)" using n by (intro roundsD(2) [OF r]) simp
    then show "rnd (R * 2) = 2 * R" by (simp add: R_def)
  qed
  have slope: "groups_linear_slope (rounded_ops rnd) n rows = rnd (up / N)"
    using roundsD(5,6) [OF r] ops
    by (simp add: groups_linear_slope_def rounded_ops_def Let_def up_def gm_def q_def)
  have q: "2 \<le> q" "q \<le> (M + 1) * grown"
    using M roundsD(9) [OF r, of "2 * R / N"] roundsD(3) [OF r, of "2 * R / N"] by (simp_all add: q_def)
  have g: "1 \<le> gm" "gm \<le> (q - 1) * grown"
    using q roundsD(7) [OF r, of "q - 1"] roundsD(3) [OF r, of "q - 1"] by (simp_all add: gm_def)
  have u: "0 \<le> up" "up \<le> (gm - 1) * grown"
    using g roundsD(8) [OF r, of "gm - 1"] roundsD(3) [OF r, of "gm - 1"] by (simp_all add: up_def)
  have 0: "0 \<le> up / N" using u N by simp
  show "0 \<le> groups_linear_slope (rounded_ops rnd) n rows" unfolding slope using 0 by (rule roundsD(8) [OF r])
  have "rnd (up / N) \<le> up / N * grown" using 0 by (rule roundsD(3) [OF r])
  then have "N * rnd (up / N) \<le> N * (up / N * grown)" using N by (intro mult_left_mono) simp_all
  also have "\<dots> = up * grown" using N by simp
  also have "\<dots> \<le> (gm - 1) * grown * grown" using u(2) by (rule mult_right_mono) simp
  finally have 1: "1 + N * rnd (up / N) \<le> gm * grown ^ 2"
    using mult_mono [of 1 grown 1 grown] by (simp add: power2_eq_square algebra_simps)
  have "q - 1 \<le> M * grown ^ 2"
  proof -
    have "(M + 1) * grown - 1 = M * grown + (grown - 1)" by (simp add: algebra_simps)
    moreover have "grown - 1 \<le> M * grown * (grown - 1)"
      using M(1) mult_mono [of 1 M 1 grown] mult_right_mono [of 1 "M * grown" "grown - 1"] by simp
    ultimately show ?thesis using q(2) by (simp add: power2_eq_square algebra_simps)
  qed
  then have "(q - 1) * grown * grown ^ 2 \<le> M * grown ^ 2 * grown * grown ^ 2" by (intro mult_right_mono) simp_all
  moreover have "gm * grown ^ 2 \<le> (q - 1) * grown * grown ^ 2" using g(2) by (rule mult_right_mono) simp
  moreover have "M * grown ^ 2 * grown * grown ^ 2 = M * grown ^ 5" by (simp add: eval_nat_numeral mult.assoc)
  ultimately show "1 + of_nat n * groups_linear_slope (rounded_ops rnd) n rows \<le> M * grown ^ 5"
    using 1 unfolding slope N_def by linarith
qed

text \<open>Up to a hundred million groups the growth is almost linear.\<close>

definition growth :: rat where "growth = (1 + 1 / 2 ^ 25) / 2 ^ 53"

lemma grown_bound:
  assumes "k \<le> 10 ^ 8 + 5"
  shows "grown ^ k \<le> 1 + of_nat k * growth"
proof -
  define x :: rat where "x = of_nat k / 2 ^ 53"
  have "(of_nat k :: rat) \<le> of_nat (10 ^ 8 + 5)" using assms by (simp only: of_nat_le_iff)
  then have x: "0 \<le> x" "x \<le> 1 / 2 ^ 26" by (simp_all add: x_def)
  have "x * (1 - x) * (1 + 1 / 2 ^ 25) - x = x * (1 / 2 ^ 25 - x * (1 + 1 / 2 ^ 25))" by (simp add: field_simps)
  moreover have "x * (1 + 1 / 2 ^ 25) \<le> 1 / 2 ^ 25" using x(2) by simp
  ultimately have "0 \<le> x * (1 - x) * (1 + 1 / 2 ^ 25) - x" using x(1) by simp
  then have "1 \<le> (1 + x * (1 + 1 / 2 ^ 25)) * (1 - x)" by (simp add: algebra_simps)
  moreover have "grown ^ k * (1 - x) \<le> 1" unfolding x_def by (rule grown_power)
  ultimately have "grown ^ k * (1 - x) \<le> (1 + x * (1 + 1 / 2 ^ 25)) * (1 - x)" by linarith
  moreover have "0 < 1 - x" using x(2) by simp
  ultimately have "grown ^ k \<le> 1 + x * (1 + 1 / 2 ^ 25)" by (simp only: mult_le_cancel_right_pos)
  then show ?thesis by (simp add: x_def growth_def)
qed

lemma sum_squares: "(\<Sum>j<k. of_nat (Suc j) :: rat) = of_nat k * (of_nat k + 1) / 2"
  "(\<Sum>j<k. of_nat (Suc j) * of_nat (Suc j) :: rat) = of_nat k * (of_nat k + 1) * (2 * of_nat k + 1) / 6"
  by (induction k) (simp_all add: field_simps)

text \<open>The sum of the sizes, \<open>x\<close> being the rows for each group.\<close>

lemma growth_sum:
  assumes "k + 1 \<le> 10 ^ 8" "0 \<le> slope"
  shows "(\<Sum>j<k. (1 + of_nat (Suc j) * slope) * grown ^ Suc j) \<le>
    of_nat k * (1 + (slope + growth) * (of_nat k + 1) / 2 + slope * growth * (of_nat k + 1) * (2 * of_nat k + 1) / 6)"
proof -
  have "(\<Sum>j<k. (1 + of_nat (Suc j) * slope) * grown ^ Suc j) \<le> (\<Sum>j<k. (1 + of_nat (Suc j) * slope) * (1 + of_nat (Suc j) * growth))"
  proof (intro sum_mono mult_left_mono grown_bound)
    fix j assume "j \<in> {..<k}"
    then show "Suc j \<le> 10 ^ 8 + 5" using assms(1) by simp
  qed (use assms(2) in simp)
  also have "\<dots> = (\<Sum>j<k. 1 + (slope + growth) * of_nat (Suc j) + slope * growth * (of_nat (Suc j) * of_nat (Suc j)))"
    by (intro sum.cong refl) (simp add: algebra_simps)
  also have "\<dots> = of_nat k + (slope + growth) * (of_nat k * (of_nat k + 1) / 2) +
      slope * growth * (of_nat k * (of_nat k + 1) * (2 * of_nat k + 1) / 6)"
    by (simp only: sum.distrib sum_distrib_left [symmetric] sum_squares) simp
  also have "\<dots> = of_nat k * (1 + (slope + growth) * (of_nat k + 1) / 2 + slope * growth * (of_nat k + 1) * (2 * of_nat k + 1) / 6)"
    by (simp add: field_simps)
  finally show ?thesis .
qed

text \<open>What remains between the sum of the exact sizes and the rows is more than the rounding adds.\<close>

lemma growth_rows:
  assumes x: "2999 / 2000 \<le> x" and N: "1 \<le> N" and R: "R = N * x" "R \<le> 10 ^ 8"
    and s: "0 \<le> slope" "1 + N * slope \<le> (2 * x - 1) * (1 + 5 * growth)"
  shows "(N - 1) * (1 + (slope + growth) * N / 2 + slope * growth * N * (2 * N - 1) / 6) \<le> R - 1"
proof -
  define c and d where "c = growth" and "d = 5 * c * x + 2 / 3 * (c * R) + 10 / 3 * (c * (c * R))"
  have c: "0 < c" "c \<le> 1 / 2 ^ 52" by (simp_all add: c_def growth_def)
  have "N * (2999 / 2000) \<le> R" using x N unfolding R(1) by (intro mult_left_mono) simp_all
  then have N': "N \<le> 10 ^ 8 * 2000 / 2999" using R(2) by simp
  have r: "0 \<le> R" "0 \<le> c * R" "c * R \<le> c * 10 ^ 8" using x N R c by simp_all
  have cN: "0 \<le> c * N" "0 \<le> N * slope" using c N s(1) by simp_all
  have s': "N * slope \<le> 2 * x - 2 + 10 * c * x"
    using s(2) c(1) by (simp add: c_def [symmetric] algebra_simps)
  have "slope * c * N * (2 * N - 1) / 6 \<le> N * slope * (c * N) / 3"
    using cN s(1) c(1) N by (simp add: field_simps)
  also have "\<dots> \<le> (2 * x - 2 + 10 * c * x) * (c * N) / 3" using s' cN(1) by (intro divide_right_mono mult_right_mono) simp_all
  also have "\<dots> = 2 / 3 * (c * R) - 2 / 3 * (c * N) + 10 / 3 * (c * (c * R))" by (simp add: R(1) field_simps)
  finally have "1 + (slope + c) * N / 2 + slope * c * N * (2 * N - 1) / 6 \<le> x + d"
    using s' cN(1) by (simp add: d_def field_simps)
  then have "(N - 1) * (1 + (slope + c) * N / 2 + slope * c * N * (2 * N - 1) / 6) \<le> (N - 1) * (x + d)"
    using N by (intro mult_left_mono) simp_all
  also have "\<dots> = R - x + (N * d - d)" by (simp add: R(1) algebra_simps)
  also have "\<dots> \<le> R - 1"
  proof -
    have "0 \<le> d" using x c r by (simp add: d_def)
    moreover have "N * d = 5 * (c * R) + N * (c * R) * (2 / 3 + 10 / 3 * c)" by (simp add: d_def R(1) algebra_simps)
    moreover have "N * (c * R) * (2 / 3 + 10 / 3 * c) \<le> 10 ^ 8 * 2000 / 2999 * (c * 10 ^ 8) * (2 / 3 + 10 / 3 * (1 / 2 ^ 52))"
      using N N' r c by (intro mult_mono add_mono) simp_all
    moreover have "\<dots> \<le> 4994 / 10000" by (simp add: c_def growth_def)
    moreover have "5 * (c * R) \<le> 1 / 10000" using r(3) by (simp add: c_def growth_def)
    ultimately show ?thesis using x by linarith
  qed
  finally show ?thesis unfolding c_def .
qed

lemma rounded_linear_fits:
  assumes r: "rounds rnd" and n: "0 < n" "n \<le> rows" "rows \<le> 10 ^ 8"
  shows "linear_fits (rounded_ops rnd) n rows"
proof -
  define N R where "N = (of_nat n :: rat)" and "R = (of_nat rows :: rat)"
  define M where "M = 2 * R / N - 1"
  let ?slope = "groups_linear_slope (rounded_ops rnd) n rows"
  let ?ls = "linear_sizes (rounded_ops rnd) ?slope 1 (n - 1)"
  have N: "1 \<le> N" "N \<le> R" "of_nat (n - 1) = N - 1" using n by (simp_all add: N_def R_def of_nat_diff)
  have R: "R \<le> 10 ^ 8" using of_nat_mono [OF n(3), where 'a = rat] by (simp add: R_def)
  have M: "1 \<le> M" using N by (simp add: M_def field_simps)
  have "rows \<le> 2 ^ 52" using n(3) by simp
  note s = rounded_slope [OF r n(1,2) this, folded N_def R_def, folded M_def]
  have t: "truncated_sizes (rounded_ops rnd) n rows = 1 # ?ls"
    using roundsD(5) [OF r] by (simp add: truncated_sizes_def rounded_ops_def)
  have pos: "g \<in> set (linear_sizes (rounded_ops rnd) ?slope acc k) \<Longrightarrow> 1 \<le> acc \<Longrightarrow> 0 < g" for g acc k
  proof (induction k arbitrary: acc)
    case (Suc k)
    have "1 \<le> rnd (acc + ?slope)" using Suc.prems(2) s(1) by (intro roundsD(7) [OF r]) simp
    then show ?case using Suc by (auto simp: rounded_ops_def zero_less_floor)
  qed simp
  have "1 + sum_list ?ls \<le> rows"
  proof (cases "M \<le> 1999 / 1000")
    case True
    have "of_nat (n - 1) * ?slope \<le> N * ?slope" using s(1) N(3) by (intro mult_right_mono) simp_all
    then have "1 + of_nat (n - 1) * ?slope \<le> M * grown ^ 5" using s(2) by linarith
    then have "(1 + of_nat (n - 1) * ?slope) * grown ^ (n - 1) \<le> M * grown ^ 5 * grown ^ n"
      using M by (intro mult_mono power_increasing) simp_all
    also have "\<dots> = M * grown ^ (n + 5)" by (simp add: power_add ac_simps)
    also have "\<dots> \<le> 1999 / 1000 * (1 + of_nat (n + 5) * growth)"
      using True M n grown_bound [of "n + 5"] by (intro mult_mono) simp_all
    also have "\<dots> \<le> 1999 / 1000 * (1 + (10 ^ 8 + 5) * growth)"
      using N R by (intro mult_left_mono add_left_mono mult_right_mono) (simp_all add: growth_def N_def)
    also have "\<dots> < 2" by (simp add: growth_def)
    finally have "?ls = replicate (n - 1) 1" using s(1) by (intro rounded_ones [OF r]) simp_all
    then show ?thesis using n by (simp add: sum_list_replicate)
  next
    case False
    define x where "x = R / N"
    have x: "R = N * x" "M = 2 * x - 1" using N by (simp_all add: M_def x_def)
    then have x1: "2999 / 2000 \<le> x" using False by simp
    have "1 + N * ?slope \<le> M * (1 + 5 * growth)"
    proof (rule order_trans [OF s(2)])
      show "M * grown ^ 5 \<le> M * (1 + 5 * growth)" using M grown_bound [of 5] by (intro mult_left_mono) simp_all
    qed
    then have g: "(N - 1) * (1 + (?slope + growth) * N / 2 + ?slope * growth * N * (2 * N - 1) / 6) \<le> R - 1"
      using s(1) by (intro growth_rows [OF x1 N(1) x(1) R]) (simp_all add: x(2))
    have "of_nat (sum_list ?ls) \<le> (\<Sum>j<n - 1. (1 + of_nat (Suc j) * ?slope) * (1 * grown ^ Suc j))"
      by (intro rounded_sum [OF r s(1)]) simp_all
    also have "\<dots> \<le> (N - 1) * (1 + (?slope + growth) * (N - 1 + 1) / 2 + ?slope * growth * (N - 1 + 1) * (2 * (N - 1) + 1) / 6)"
      using growth_sum [of "n - 1" ?slope] n s(1) by (simp add: N(3) [simplified])
    also have "\<dots> \<le> R - 1" using g by (simp add: algebra_simps)
    finally have "of_nat (1 + sum_list ?ls) \<le> (of_nat rows :: rat)" by (simp add: R_def)
    then show ?thesis by (simp only: of_nat_le_iff)
  qed
  then show ?thesis using pos [of _ 1 "n - 1"] unfolding linear_fits_def t by (auto simp: list_all_iff)
qed

section \<open>Rounding to the nearest\<close>

text \<open>
  The rounding of \<open>double\<close> as the standard has it: to the nearest of the numbers with 53 bits, and to the
  even one of two.
\<close>

definition half_even :: "rat \<Rightarrow> int" where
  "half_even y =
     (let f = \<lfloor>y\<rfloor>
      in if y - of_int f < 1 / 2 then f else if 1 / 2 < y - of_int f then f + 1 else if even f then f else f + 1)"

definition ulp :: "rat \<Rightarrow> rat" where
  "ulp x = 2 powi (\<lfloor>log 2 \<bar>of_rat x\<bar>\<rfloor> - 52)"

definition nearest :: "rat \<Rightarrow> rat" where
  "nearest x = (if x = 0 then 0 else ulp x * of_int (half_even (x / ulp x)))"

lemma half_even_near: "of_int (half_even y) \<le> y + 1 / 2" "y - 1 / 2 \<le> of_int (half_even y)"
proof -
  define f where "f = \<lfloor>y\<rfloor>"
  have f: "of_int f \<le> y" "y < of_int f + 1" using floor_correct [of y] by (simp_all add: f_def)
  consider "half_even y = f" "y - of_int f \<le> 1 / 2" | "half_even y = f + 1" "1 / 2 \<le> y - of_int f"
    unfolding half_even_def f_def [symmetric] Let_def by (cases "y - of_int f < 1 / 2"; cases "1 / 2 < y - of_int f"; cases "even f") simp_all
  then show "of_int (half_even y) \<le> y + 1 / 2" "y - 1 / 2 \<le> of_int (half_even y)"
    using f by (cases; simp)+
qed

lemma half_even_of_int [simp]: "half_even (of_int k) = k"
  by (simp add: half_even_def)

lemma half_even_mono: "a \<le> b \<Longrightarrow> half_even a \<le> half_even b"
proof (rule ccontr)
  assume "a \<le> b" "\<not> half_even a \<le> half_even b"
  moreover from this have "(of_int (half_even b + 1) :: rat) \<le> of_int (half_even a)" by (simp only: of_int_le_iff)
  ultimately have "a = b" using half_even_near(1) [of a] half_even_near(2) [of b] by simp
  then show False using \<open>\<not> half_even a \<le> half_even b\<close> by simp
qed

lemma ulp_bounds:
  assumes "0 < x"
  shows "0 < ulp x" "2 ^ 52 * ulp x \<le> x" "x < 2 ^ 53 * ulp x"
proof -
  define k where "k = \<lfloor>log 2 (of_rat x)\<rfloor>"
  have x: "0 < (of_rat x :: real)" using assms by simp
  have e: "ulp x = 2 powi (k - 52)" using assms by (simp add: ulp_def k_def)
  then have u: "ulp x * 2 ^ 52 = 2 powi k" "ulp x * 2 ^ 53 = 2 powi (k + 1)"
    by (simp_all add: power_int_diff power_int_add)
  show "0 < ulp x" by (simp add: e)
  have "2 powr of_int k \<le> (of_rat x :: real)" "of_rat x < 2 powr (of_int k + 1 :: real)"
    using x by (simp_all add: k_def le_log_iff [symmetric] log_less_iff [symmetric])
  moreover have "(of_rat (2 powi i) :: real) = 2 powr of_int i" for i
    by (cases i rule: int_cases4) (simp_all add: power_int_minus of_rat_inverse of_rat_power powr_minus powr_realpow)
  ultimately have "of_rat (2 powi k) \<le> (of_rat x :: real)" "of_rat x < (of_rat (2 powi (k + 1)) :: real)" by simp_all
  then show "2 ^ 52 * ulp x \<le> x" "x < 2 ^ 53 * ulp x"
    using u by (simp_all add: of_rat_less_eq of_rat_less mult.commute)
qed

lemma nearest_bounds:
  assumes "0 < x"
  shows "2 ^ 52 * ulp x \<le> nearest x" "nearest x \<le> 2 ^ 53 * ulp x" "nearest x \<le> x * (1 + 1 / 2 ^ 53)"
proof -
  note u = ulp_bounds [OF assms]
  have y: "2 ^ 52 \<le> x / ulp x" "x / ulp x \<le> 2 ^ 53" using u by (simp_all add: field_simps)
  have n: "nearest x = of_int (half_even (x / ulp x)) * ulp x" using assms by (simp add: nearest_def)
  have "half_even (of_int (2 ^ 52)) \<le> half_even (x / ulp x)" "half_even (x / ulp x) \<le> half_even (of_int (2 ^ 53))"
    using y by (intro half_even_mono; simp)+
  then have "2 ^ 52 \<le> half_even (x / ulp x)" "half_even (x / ulp x) \<le> 2 ^ 53" unfolding half_even_of_int .
  then have "(of_int (2 ^ 52) :: rat) \<le> of_int (half_even (x / ulp x))" "of_int (half_even (x / ulp x)) \<le> (of_int (2 ^ 53) :: rat)"
    by (simp_all only: of_int_le_iff)
  then show "2 ^ 52 * ulp x \<le> nearest x" "nearest x \<le> 2 ^ 53 * ulp x" unfolding n using u(1) by simp_all
  have "of_int (half_even (x / ulp x)) * ulp x \<le> (x / ulp x + 1 / 2) * ulp x"
    using u(1) half_even_near(1) by (intro mult_right_mono) simp_all
  also have "\<dots> = x + ulp x / 2" using u(1) by (simp add: field_simps)
  also have "\<dots> \<le> x * (1 + 1 / 2 ^ 53)" using u(2) by (simp add: field_simps)
  finally show "nearest x \<le> x * (1 + 1 / 2 ^ 53)" unfolding n .
qed

lemma nearest_mono:
  assumes "0 < x" "x \<le> y"
  shows "nearest x \<le> nearest y"
proof -
  define i j where "i = \<lfloor>log 2 \<bar>of_rat x\<bar>\<rfloor>" and "j = \<lfloor>log 2 \<bar>of_rat y\<bar>\<rfloor>"
  have u: "ulp x = 2 powi (i - 52)" "ulp y = 2 powi (j - 52)" by (simp_all add: ulp_def i_def j_def)
  have y: "0 < y" using assms by simp
  have "of_rat x \<le> (of_rat y :: real)" "0 < (of_rat x :: real)" using assms by (simp_all add: of_rat_less_eq)
  then have "i \<le> j" unfolding i_def j_def using y by (intro floor_mono) simp
  then consider "i = j" | "i + 1 \<le> j" by linarith
  then show ?thesis
  proof cases
    case 1
    then have "x / ulp x \<le> y / ulp x" "ulp y = ulp x" "0 < ulp x"
      using assms ulp_bounds(1) [OF assms(1)] by (simp_all add: u divide_right_mono)
    then show ?thesis using assms y by (simp add: nearest_def half_even_mono)
  next
    case 2
    have "nearest x \<le> 2 ^ 53 * ulp x" using assms(1) by (rule nearest_bounds(2))
    also have "\<dots> = 2 ^ 52 * (2 powi (i + 1 - 52))" by (simp add: u power_int_diff power_int_add)
    also have "\<dots> \<le> 2 ^ 52 * ulp y" unfolding u(2) using 2 by (intro mult_left_mono power_int_increasing) simp_all
    also have "\<dots> \<le> nearest y" using y by (rule nearest_bounds(1))
    finally show ?thesis .
  qed
qed

lemma nearest_whole:
  assumes "n \<le> 2 ^ 53"
  shows "nearest (of_nat n) = of_nat n"
proof (cases "n = 0")
  case False
  define k where "k = \<lfloor>log 2 (of_nat n :: real)\<rfloor>"
  have n: "0 < (of_nat n :: rat)" using False by simp
  have u: "ulp (of_nat n) = 2 powi (k - 52)" by (simp add: ulp_def k_def)
  have k: "0 \<le> k" using False by (simp add: k_def)
  show ?thesis
  proof (cases "n = 2 ^ 53")
    case True
    have "log 2 (2 ^ 53 :: real) = of_nat 53" by (rule log_pow_cancel) simp_all
    then have "k = 53" unfolding k_def True of_nat_power of_nat_numeral by simp
    then have u: "ulp (of_nat n) = 2" by (simp add: u)
    then have "of_nat n / ulp (of_nat n) = (of_int (2 ^ 52) :: rat)" by (simp add: True)
    then have "nearest (of_nat n) = 2 * of_int (2 ^ 52)" using n by (simp only: nearest_def half_even_of_int u) simp
    then show ?thesis by (simp add: True)
  next
    case False
    have "(of_nat n :: real) < 2 ^ 53" using False assms of_nat_less_iff [of n "2 ^ 53", where 'a = real] by simp
    then have "log 2 (of_nat n) < of_nat 53" using \<open>n \<noteq> 0\<close> by (intro log_of_power_less) simp_all
    then have "k \<le> 52" unfolding k_def by linarith
    then obtain m where m: "k - 52 = - int m" by (metis diff_le_0_iff_le zero_le_imp_eq_int neg_0_le_iff_le minus_minus)
    then have "of_nat n / ulp (of_nat n) = (of_int (int n * 2 ^ m) :: rat)" by (simp add: u power_int_minus divide_inverse)
    then show ?thesis using n by (simp only: nearest_def half_even_of_int) (simp add: u m power_int_minus)
  qed
qed (simp add: nearest_def)

lemma nearest_rounds: "rounds nearest"
  unfolding rounds_def
proof (intro conjI allI impI nearest_whole)
  fix x y :: rat
  assume "0 \<le> x" "x \<le> y"
  moreover have "0 \<le> nearest y" if "0 < y" using nearest_bounds(1) [OF that] ulp_bounds(1) [OF that]
    by (meson less_imp_le mult_nonneg_nonneg order_trans zero_le_numeral zero_le_power)
  ultimately show "nearest x \<le> nearest y"
    using nearest_mono [of x y] by (cases "x = 0"; cases "y = 0") (auto simp: nearest_def [of 0])
next
  fix x :: rat
  assume "0 \<le> x"
  then show "nearest x \<le> x * (1 + 1 / 2 ^ 53)" using nearest_bounds(3) [of x] by (cases "x = 0") (auto simp: nearest_def [of 0])
qed

end
