(* ===== verification/Command_Line.thy ===== *)
theory Command_Line
  imports Generate Parse_Valid Rounding
begin

text \<open>
  From the arguments to the files: the parser and the generator together. What \<open>mysql_seed_generate\<close>
  does with the specifications the parser left in the block: it follows the links of the databases and
  tables and visits the columns between the two ends of a table, takes the builder and the qualifiers
  of every column, and runs the tasks of a table.
\<close>

section \<open>The walk over the specifications\<close>

text \<open>\<open>do ... while (col_spec < tbl_spec->col_specs.until)\<close>\<close>

function spec_columns :: "spec_mem \<Rightarrow> nat \<Rightarrow> nat \<Rightarrow> ColSpec list option" where
  "spec_columns m col until =
     do { c \<leftarrow> mem_col col m;
          cs \<leftarrow> (if col + sizeof_ColSpec < until then spec_columns m (col + sizeof_ColSpec) until else Some []);
          Some (c # cs) }"
  by pat_completeness auto
termination
  by (relation "measure (\<lambda>(m, col, until). until - col)") auto

declare spec_columns.simps [simp del]

text \<open>
  \<open>do ... while (tbl_spec != NULL)\<close> and \<open>while (1)\<close> until \<open>db_spec->next\<close> is \<open>NULL\<close>; a cycle of links
  would make them run for ever.
\<close>

partial_function (option) spec_tables :: "spec_mem \<Rightarrow> nat \<Rightarrow> (TblSpec \<times> ColSpec list) list option" where
  "spec_tables m tbl =
     do { t \<leftarrow> mem_tbl tbl m;
          col \<leftarrow> tbl_from t;
          until \<leftarrow> tbl_until t;
          cs \<leftarrow> spec_columns m col until;
          nxt \<leftarrow> tbl_next t;
          ts \<leftarrow> (case nxt of None \<Rightarrow> Some [] | Some tbl \<Rightarrow> spec_tables m tbl);
          Some ((t, cs) # ts) }"

partial_function (option) spec_databases :: "spec_mem \<Rightarrow> nat \<Rightarrow> (DbSpec \<times> (TblSpec \<times> ColSpec list) list) list option" where
  "spec_databases m db =
     do { d \<leftarrow> mem_db db m;
          tbl \<leftarrow> db_tbl_specs d;
          ts \<leftarrow> spec_tables m tbl;
          nxt \<leftarrow> db_next d;
          ds \<leftarrow> (case nxt of None \<Rightarrow> Some [] | Some db \<Rightarrow> spec_databases m db);
          Some ((d, ts) # ds) }"

declare spec_tables.simps [code] spec_databases.simps [code]

section \<open>The builders\<close>

text \<open>\<open>col_spec->grp_spec\<close>, with the operations of \<open>double\<close> of the linear partitioner.\<close>

fun partitioner :: "'d double_ops \<Rightarrow> Parse_State.group_partitioner \<Rightarrow> nat list \<Rightarrow> nat \<Rightarrow> nat \<Rightarrow> (nat list \<times> nat) option" where
  "partitioner D Partition_Groups_Even = partition_groups_even"
| "partitioner D Partition_Groups_Linear = partition_groups_linear D"

definition group_of :: "'d double_ops \<Rightarrow> ColSpec \<Rightarrow> grp_spec option" where
  "group_of D c =
     do { n \<leftarrow> col_grp_count c; p \<leftarrow> col_partition c; Some \<lparr>gs_count = n, gs_partition = partitioner D p\<rparr> }"

text \<open>The string and its terminator lie in the argument of the program.\<close>

definition base_of :: "ColSpec \<Rightarrow> string_builder option" where
  "base_of c = (case col_type_q c of Q_String text n \<Rightarrow> Some (string_builder_init (text @ [NUL]) 0 n) | _ \<Rightarrow> None)"

definition fixed_of :: "ColSpec \<Rightarrow> stub_builder option" where
  "fixed_of c = (case col_type_q c of Q_Stub text width \<Rightarrow> Some (stub_builder_init (text @ [NUL]) 0 width) | _ \<Rightarrow> None)"

text \<open>
  The call of \<open>col_spec->build\<close>, for the builders that take their cells from the counter or repeat a
  fixed string.
\<close>

definition builder_of :: "'d double_ops \<Rightarrow> ColSpec \<Rightarrow> col_build option" where
  "builder_of D c =
     (case col_build c of
        Some (build_column_integer Fixed False) \<Rightarrow> map_option BUILD_INTEGER_FIXED (fixed_of c)
      | Some (build_column_integer Unique False) \<Rightarrow> Some BUILD_INTEGER_UNIQUE
      | Some (build_column_integer Unique True) \<Rightarrow> map_option BUILD_INTEGER_UNIQUE_GROUP (group_of D c)
      | Some (build_column_u_integer Fixed False) \<Rightarrow> map_option BUILD_U_INTEGER_FIXED (fixed_of c)
      | Some (build_column_u_integer Unique False) \<Rightarrow> Some BUILD_U_INTEGER_UNIQUE
      | Some (build_column_u_integer Unique True) \<Rightarrow> map_option BUILD_U_INTEGER_UNIQUE_GROUP (group_of D c)
      | Some (build_column_string Str_Fixed False) \<Rightarrow> map_option BUILD_STRING_FIXED (base_of c)
      | Some (build_column_string Str_Unique False) \<Rightarrow> map_option BUILD_STRING_UNIQUE (base_of c)
      | Some (build_column_string Str_Unique True) \<Rightarrow>
          do { base \<leftarrow> base_of c; grp \<leftarrow> group_of D c; Some (BUILD_STRING_UNIQUE_GROUP base grp) }
      | _ \<Rightarrow> None)"

definition name_of :: "ColSpec \<Rightarrow> string option" where
  "name_of c = (case col_bytes c of Name name \<Rightarrow> Some name | _ \<Rightarrow> None)"

definition table_spec :: "TblSpec \<Rightarrow> ColSpec list \<Rightarrow> tbl_spec option" where
  "table_spec t cs =
     do { name \<leftarrow> tbl_name t;
          rows \<leftarrow> tbl_row_count t;
          Some \<lparr>ts_name = name, ts_row_count = rows, ts_col_specs = map (\<lambda>c. \<lparr>cs_name = name_of c\<rparr>) cs\<rparr> }"

section \<open>The tasks\<close>

text \<open>\<open>build_counter\<close> is a task only where a column takes strings from the counter.\<close>

definition counter_task :: "alloc \<Rightarrow> bytes \<Rightarrow> generator_counter \<Rightarrow> counter option" where
  "counter_task malloc buffer g =
     (if 0 < gc_counter_upto g then
        do { r \<leftarrow> build_counter malloc buffer (counter_init (gc_counter_upto g));
             case r of Inl f \<Rightarrow> None | Inr c \<Rightarrow> Some c }
      else Some (counter_init 0))"

text \<open>
  The tasks of a table, its columns and its row blocks in the orders the workers take them; the value
  is the contents of its file.
\<close>

definition table_tasks ::
  "'d double_ops \<Rightarrow> alloc \<Rightarrow> (nat \<Rightarrow> bytes option) \<Rightarrow> counter \<Rightarrow> nat \<Rightarrow> string \<Rightarrow> string \<Rightarrow> TblSpec \<times> ColSpec list \<Rightarrow>
    nat list \<Rightarrow> nat list \<Rightarrow> bytes option" where
  "table_tasks D malloc file_malloc c max_rows path dname tbl column_order block_order =
     do { spec \<leftarrow> table_spec (fst tbl) (snd tbl);
          builds \<leftarrow> those (map (builder_of D) (snd tbl));
          let table = hooked_table path dname spec (block_row_counts max_rows (ts_row_count spec));
          r \<leftarrow> run_columns builds malloc c table column_order;
          table \<leftarrow> (case r of Inl f \<Rightarrow> None | Inr table \<Rightarrow> Some table);
          r \<leftarrow> build_table_init file_malloc table;
          table \<leftarrow> (case r of Inl f \<Rightarrow> None | Inr table \<Rightarrow> Some table);
          table \<leftarrow> run_row_blocks table block_order;
          Some (tb_contents table) }"

section \<open>The walk finds the description\<close>

definition table_read :: "table_desc \<Rightarrow> TblSpec \<times> ColSpec list \<Rightarrow> bool" where
  "table_read d = (\<lambda>(t, cs). tbl_name t = Some (fst d) \<and> tbl_row_count t = Some (fst (snd d)) \<and>
     cs = map (column_spec (fst (snd d))) (snd (snd d)))"

definition database_read :: "database_desc \<Rightarrow> DbSpec \<times> (TblSpec \<times> ColSpec list) list \<Rightarrow> bool" where
  "database_read d = (\<lambda>(db, ts). db_name db = Some (fst d) \<and> list_all2 table_read (snd d) ts)"

lemma map_le_rest:
  assumes "map_of ((a, x) # xs) \<subseteq>\<^sub>m f" "map_of xs a = None"
  shows "map_of xs \<subseteq>\<^sub>m f"
  using assms by (auto simp: map_le_def split: if_split_asm) (metis domI option.distinct(1))

lemma map_le_append:
  assumes "map_of (xs @ ys) \<subseteq>\<^sub>m f" "\<And>b x. map_of xs b = Some x \<Longrightarrow> b < n" "\<And>b y. map_of ys b = Some y \<Longrightarrow> n \<le> (b :: nat)"
  shows "map_of xs \<subseteq>\<^sub>m f \<and> map_of ys \<subseteq>\<^sub>m f"
proof
  show "map_of xs \<subseteq>\<^sub>m f" using assms(1) by (auto simp: map_le_def map_add_def dom_def split: option.splits)
  show "map_of ys \<subseteq>\<^sub>m f"
  proof (unfold map_le_def, intro ballI)
    fix b assume "b \<in> dom (map_of ys)"
    then obtain y where y: "map_of ys b = Some y" by auto
    then have "map_of xs b = None" using assms(2) [of b] assms(3) [OF y] by (cases "map_of xs b") auto
    then have "map_of (xs @ ys) b = Some y" using y by (simp add: map_add_def)
    then show "map_of ys b = f b" using assms(1) y by (auto simp: map_le_def dom_def)
  qed
qed

lemma spec_columns_read:
  assumes "map_of (lay_columns rows a cs) \<subseteq>\<^sub>m mem_at m" "cs \<noteq> []"
  shows "spec_columns m a (a + sizeof_ColSpec * length cs) = Some (map (column_spec rows) cs)"
  using assms
proof (induction cs arbitrary: a)
  case (Cons c cs)
  have "mem_at m a = Some (Col (column_spec rows c))" using Cons.prems(1) by (auto simp: map_le_def dom_def)
  then have c: "mem_col a m = Some (column_spec rows c)" by (simp add: mem_col_def)
  show ?case
  proof (cases "cs = []")
    case True
    then show ?thesis using c by (subst spec_columns.simps) simp
  next
    case False
    have "map_of (lay_columns rows (a + sizeof_ColSpec) cs) \<subseteq>\<^sub>m mem_at m"
      by (rule map_le_rest [OF Cons.prems(1) [unfolded lay_columns.simps]]) simp
    then have "spec_columns m (a + sizeof_ColSpec) (a + sizeof_ColSpec + sizeof_ColSpec * length cs) = Some (map (column_spec rows) cs)"
      using False by (rule Cons.IH)
    then show ?thesis using c False by (subst spec_columns.simps) (simp add: add.assoc)
  qed
qed simp

lemma spec_tables_read:
  assumes "map_of (lay_tables a ts) \<subseteq>\<^sub>m mem_at m" "ts \<noteq> []" "\<forall>(name, rows, cs) \<in> set ts. cs \<noteq> []"
  shows "\<exists>specs. spec_tables m a = Some specs \<and> list_all2 table_read ts specs"
  using assms
proof (induction ts arbitrary: a)
  case (Cons t ts)
  obtain name rows cs where t: "t = (name, rows, cs)" by (cases t)
  let ?nxt = "a + table_size t"
  let ?t = "\<lparr>tbl_name = Some name, tbl_row_count = Some rows, tbl_from = Some (a + sizeof_TblSpec), tbl_until = Some ?nxt,
    tbl_next = Some (if ts = [] then None else Some ?nxt)\<rparr>"
  have L: "lay_tables a (t # ts) = (a, Tbl ?t) # lay_columns rows (a + sizeof_TblSpec) cs @ lay_tables ?nxt ts"
    by (simp add: t Let_def)
  have "map_of (lay_columns rows (a + sizeof_TblSpec) cs @ lay_tables ?nxt ts) a = None"
    using table_size_pos [of t] by (simp add: map_add_None)
  then have "map_of (lay_columns rows (a + sizeof_TblSpec) cs @ lay_tables ?nxt ts) \<subseteq>\<^sub>m mem_at m"
    using map_le_rest [OF Cons.prems(1) [unfolded L]] by blast
  then have "map_of (lay_columns rows (a + sizeof_TblSpec) cs) \<subseteq>\<^sub>m mem_at m \<and> map_of (lay_tables ?nxt ts) \<subseteq>\<^sub>m mem_at m"
  proof (rule map_le_append)
    show "b < ?nxt" if "map_of (lay_columns rows (a + sizeof_TblSpec) cs) b = Some x" for b x
      using lay_columns_bound [OF that] by (simp add: t)
  qed (rule lay_tables_least)
  note le = this [THEN conjunct1] this [THEN conjunct2]
  have "mem_at m a = Some (Tbl ?t)" using Cons.prems(1) unfolding L by (auto simp: map_le_def dom_def)
  then have T: "mem_tbl a m = Some ?t" by (simp add: mem_tbl_def)
  have n: "?nxt = a + sizeof_TblSpec + sizeof_ColSpec * length cs" by (simp add: t)
  have C: "spec_columns m (a + sizeof_TblSpec) ?nxt = Some (map (column_spec rows) cs)"
    unfolding n using Cons.prems(3) le(1) by (intro spec_columns_read) (auto simp: t)
  show ?case
  proof (cases "ts = []")
    case True
    then show ?thesis using T C by (subst spec_tables.simps) (simp add: table_read_def t)
  next
    case False
    then obtain specs where "spec_tables m ?nxt = Some specs" "list_all2 table_read ts specs"
      using Cons.IH [OF le(2)] Cons.prems(3) by auto
    then show ?thesis using T C False by (subst spec_tables.simps) (simp add: table_read_def t)
  qed
qed simp

lemma spec_databases_read:
  assumes "map_of (lay_databases a ds) \<subseteq>\<^sub>m mem_at m" "ds \<noteq> []" "list_all database_valid ds"
  shows "\<exists>specs. spec_databases m a = Some specs \<and> list_all2 database_read ds specs"
  using assms
proof (induction ds arbitrary: a)
  case (Cons d ds)
  obtain name ts where d: "d = (name, ts)" by (cases d)
  let ?nxt = "a + database_size d"
  let ?d = "\<lparr>db_name = Some name, db_tbl_specs = Some (a + sizeof_DbSpec), db_next = Some (if ds = [] then None else Some ?nxt)\<rparr>"
  have L: "lay_databases a (d # ds) = (a, Db ?d) # lay_tables (a + sizeof_DbSpec) ts @ lay_databases ?nxt ds"
    by (simp add: d Let_def)
  have "map_of (lay_tables (a + sizeof_DbSpec) ts @ lay_databases ?nxt ds) a = None"
    by (simp add: map_add_None d)
  then have "map_of (lay_tables (a + sizeof_DbSpec) ts @ lay_databases ?nxt ds) \<subseteq>\<^sub>m mem_at m"
    using map_le_rest [OF Cons.prems(1) [unfolded L]] by blast
  then have "map_of (lay_tables (a + sizeof_DbSpec) ts) \<subseteq>\<^sub>m mem_at m \<and> map_of (lay_databases ?nxt ds) \<subseteq>\<^sub>m mem_at m"
  proof (rule map_le_append)
    show "b < ?nxt" if "map_of (lay_tables (a + sizeof_DbSpec) ts) b = Some x" for b x
      using lay_tables_bound [OF that] by (simp add: d)
  qed (rule lay_databases_least)
  note le = this [THEN conjunct1] this [THEN conjunct2]
  have "mem_at m a = Some (Db ?d)" using Cons.prems(1) unfolding L by (auto simp: map_le_def dom_def)
  then have D: "mem_db a m = Some ?d" by (simp add: mem_db_def)
  have v: "ts \<noteq> []" "\<forall>(name, rows, cs) \<in> set ts. cs \<noteq> []"
    using Cons.prems(3) by (auto simp: d list_all_iff)
  obtain tspecs where T: "spec_tables m (a + sizeof_DbSpec) = Some tspecs" "list_all2 table_read ts tspecs"
    using spec_tables_read [OF le(1) v] by blast
  show ?case
  proof (cases "ds = []")
    case True
    then show ?thesis using D T by (subst spec_databases.simps) (simp add: database_read_def d)
  next
    case False
    then obtain specs where "spec_databases m ?nxt = Some specs" "list_all2 database_read ds specs"
      using Cons.IH [OF le(2)] Cons.prems(3) by auto
    then show ?thesis using D T False by (subst spec_databases.simps) (simp add: database_read_def d)
  qed
qed simp

section \<open>The cells of a description\<close>

text \<open>The columns of numbers and of numbered strings, what stands before the number, and the cells.\<close>

fun counted_kind :: "column_kind \<Rightarrow> bool" where
  "counted_kind Numbers = True"
| "counted_kind Unsigned_Numbers = True"
| "counted_kind Named_Strings = True"
| "counted_kind (Numbered_Strings base) = True"
| "counted_kind kind = False"

fun cell_prefix :: "string \<Rightarrow> column_kind \<Rightarrow> string" where
  "cell_prefix name Named_Strings = name"
| "cell_prefix name (Numbered_Strings base) = base"
| "cell_prefix name kind = []"

fun column_cells :: "nat \<Rightarrow> column_desc \<Rightarrow> string list \<Rightarrow> bool" where
  "column_cells rows (name, kind, Rows) cells = (cells = base_counts (cell_prefix name kind) 0 rows)"
| "column_cells rows (name, kind, Groups n p) cells =
     (\<exists>sizes. group_sizes n rows sizes \<and> cells = group_cells (cell_prefix name kind) 0 sizes)"

text \<open>The strings are those of C: without a terminator inside.\<close>

fun counted_column :: "column_desc \<Rightarrow> bool" where
  "counted_column (name, kind, g) = (counted_kind kind \<and> NUL \<notin> set name \<and> NUL \<notin> set (cell_prefix name kind))"

definition counted :: "database_desc list \<Rightarrow> bool" where
  "counted = list_all (\<lambda>d. list_all (\<lambda>t. list_all counted_column (snd (snd t))) (snd d))"

lemma base_text_builder_init: "NUL \<notin> set s \<Longrightarrow> base_text (string_builder_init (s @ [NUL]) 0 (length s)) s"
  unfolding base_text_def by (intro conjI exI [of _ "[]"] exI [of _ "[NUL]"]) simp_all

lemma base_text_ex [simp]: "NUL \<notin> set s \<Longrightarrow> \<exists>t. base_text (string_builder_init (s @ [NUL]) 0 (length s)) t"
  using base_text_builder_init by blast

lemma base_text_unique:
  assumes "base_text (string_builder_init (s @ [NUL]) 0 (length s)) t"
  shows "t = s"
proof -
  obtain pre post where e: "string_builder_init (s @ [NUL]) 0 (length s) = string_builder_init (pre @ t @ post) (length pre) (length t)"
    using assms unfolding base_text_def by blast
  have "s @ [NUL] = pre @ t @ post" "0 = length pre" "length s = length t"
    using arg_cong [OF e, of "\<lambda>b. psc_block (sb_put_cl b)"] arg_cong [OF e, of "\<lambda>b. psc_words (sb_put_cl b)"]
      arg_cong [OF e, of sb_length]
    by (simp_all add: string_builder_init_def put_string_closure_init_def Let_def)
  then show ?thesis by (simp add: append_eq_append_conv)
qed

lemma base_counts_Nil [simp]: "base_counts [] 0 n = counts 0 n"
  by (simp add: base_counts_def)

text \<open>
  A column in linear groups needs the arithmetic of \<open>double\<close> to fit its groups and rows; no other column
  computes with \<open>double\<close>s.
\<close>

fun linear_fit :: "'d double_ops \<Rightarrow> nat \<Rightarrow> grouping \<Rightarrow> bool" where
  "linear_fit D rows (Groups n Partition_Groups_Linear) = linear_fits D n rows"
| "linear_fit D rows g = True"

definition linear_groups_fit :: "'d double_ops \<Rightarrow> database_desc list \<Rightarrow> bool" where
  "linear_groups_fit D ds \<longleftrightarrow>
     (\<forall>d \<in> set ds. \<forall>t \<in> set (snd d). list_all (\<lambda>(_, _, g). linear_fit D (fst (snd t)) g) (snd (snd t)))"

text \<open>Rounded to 53 bits it does for every description the parser accepts.\<close>

lemma rounded_groups_fit:
  assumes "rounds rnd" "list_all database_valid ds"
  shows "linear_groups_fit (rounded_ops rnd) ds"
proof -
  have "linear_fit (rounded_ops rnd) (fst (snd t)) g"
    if "d \<in> set ds" "t \<in> set (snd d)" "(cname, kind, g) \<in> set (snd (snd t))" for d t cname kind g
  proof (cases "(rounded_ops rnd, fst (snd t), g)" rule: linear_fit.cases)
    case (1 D rows n)
    obtain tname cs where t: "t = (tname, rows, cs)" using 1 by (cases t) auto
    have "table_valid t" using assms(2) that(1,2) by (cases d) (auto simp: list_all_iff)
    then have "rows \<le> UPTO_MAX" "column_valid rows (cname, kind, g)" using that(3) by (auto simp: t list_all_iff)
    then have "0 < n" "n \<le> rows" "rows \<le> 10 ^ 8" using 1 by (simp_all add: UPTO_MAX_def)
    then show ?thesis using 1 rounded_linear_fits [OF assms(1)] by simp
  qed simp_all
  then show ?thesis unfolding linear_groups_fit_def by (auto simp: list_all_iff)
qed

lemma builder_of_column:
  assumes "column_valid rows (name, kind, g)" "counted_column (name, kind, g)" "rows \<le> UPTO_MAX"
    and "linear_fit D rows g"
  shows "\<exists>b. builder_of D (column_spec rows (name, kind, g)) = Some b \<and> col_valid b rows \<and>
    col_needs b rows = grouping_count rows g \<and> (\<forall>cells. col_cells b rows cells \<longrightarrow> column_cells rows (name, kind, g) cells)"
proof -
  let ?s = "cell_prefix name kind"
  have s: "base_text (string_builder_init (?s @ [NUL]) 0 (length ?s)) ?s"
    using assms(2) by (intro base_text_builder_init) simp
  have r: "rows < 2 ^ 64" using assms(3) by (simp add: UPTO_MAX_def)
  have p: "splits \<lparr>gs_count = n, gs_partition = partitioner D p\<rparr> rows" if "g = Groups n p" for n p
    using even.partitioner_splits [of n rows] linear_fits_partitions [of D n rows] assms(1,4) r that
    by (cases p) (simp_all add: splits_def)
  show ?thesis
    using assms(2) s p
    by (cases kind; cases g)
      (auto simp: builder_of_def group_of_def base_of_def is_grouped_def dest!: base_text_unique)
qed

section \<open>The counters\<close>

lemma counts_grow:
  "dc_counter_upto d \<le> dc_counter_upto (column_counts rows c d)" "dc_counter_upto (count_column d) = dc_counter_upto d"
  "dc_counter_upto (count_table rows d) = dc_counter_upto d"
  "dc_row_count_max (column_counts rows c d) = dc_row_count_max d" "dc_row_count_max (count_column d) = dc_row_count_max d"
  "dc_row_count_max d \<le> dc_row_count_max (count_table rows d)" "rows \<le> dc_row_count_max (count_table rows d)"
proof -
  obtain name kind g where c: "c = (name, kind, g)" by (cases c)
  show "dc_counter_upto d \<le> dc_counter_upto (column_counts rows c d)" "dc_row_count_max (column_counts rows c d) = dc_row_count_max d"
    by (cases kind; simp add: c count_upto_def)+
qed (simp_all add: count_column_def count_table_def)

lemma column_counts_upto:
  "counted_kind kind \<Longrightarrow> grouping_count rows g \<le> dc_counter_upto (column_counts rows (name, kind, g) d)"
  "dc_counter_upto d \<le> UPTO_MAX \<Longrightarrow> rows \<le> UPTO_MAX \<Longrightarrow> grouping_valid rows g \<Longrightarrow>
    dc_counter_upto (column_counts rows (name, kind, g) d) \<le> UPTO_MAX"
  by (cases kind; cases g; simp add: count_upto_def)+

text \<open>A maximum kept over a list.\<close>

lemma fold_grows:
  fixes m :: "'d \<Rightarrow> nat"
  assumes "\<And>x d. x \<in> set xs \<Longrightarrow> m d \<le> m (f x d)"
  shows "m d \<le> m (fold f xs d)"
  using assms
proof (induction xs arbitrary: d)
  case (Cons x xs)
  have "m d \<le> m (f x d)" using Cons.prems by simp
  also have "\<dots> \<le> m (fold f xs (f x d))" using Cons by simp
  finally show ?case by simp
qed simp

lemma fold_reaches:
  fixes m :: "'d \<Rightarrow> nat"
  assumes "x \<in> set xs" "\<And>x d. x \<in> set xs \<Longrightarrow> m d \<le> m (f x d)" "\<And>d. k \<le> m (f x d)"
  shows "k \<le> m (fold f xs d)"
  using assms(1,2)
proof (induction xs arbitrary: d)
  case (Cons y xs)
  show ?case
  proof (cases "x = y")
    case True
    then show ?thesis using assms(3) [of d] fold_grows [of xs m f "f y d"] Cons.prems(2) by (auto intro: order_trans)
  next
    case False
    then show ?thesis using Cons by simp
  qed
qed simp

lemma fold_bounded:
  fixes m :: "'d \<Rightarrow> nat"
  assumes "\<And>x d. x \<in> set xs \<Longrightarrow> m d \<le> b \<Longrightarrow> m (f x d) \<le> b" "m d \<le> b"
  shows "m (fold f xs d) \<le> b"
  using assms by (induction xs arbitrary: d) simp_all

abbreviation columns_counts :: "nat \<Rightarrow> column_desc list \<Rightarrow> database_counter \<Rightarrow> database_counter" where
  "columns_counts rows cs d \<equiv> fold (\<lambda>c d. column_counts rows c (count_column d)) cs d"

lemma columns_counts_grow:
  "dc_counter_upto d \<le> dc_counter_upto (columns_counts rows cs d)"
  "dc_row_count_max (columns_counts rows cs d) = dc_row_count_max d"
proof -
  show "dc_counter_upto d \<le> dc_counter_upto (columns_counts rows cs d)"
    by (rule fold_grows) (metis counts_grow(1,2))
  show "dc_row_count_max (columns_counts rows cs d) = dc_row_count_max d"
    by (induction cs arbitrary: d) (simp_all add: counts_grow)
qed

lemma columns_counts_reach:
  "(name, kind, g) \<in> set cs \<Longrightarrow> counted_kind kind \<Longrightarrow> grouping_count rows g \<le> dc_counter_upto (columns_counts rows cs d)"
  by (rule fold_reaches) (auto intro: column_counts_upto order_trans [OF _ counts_grow(1)] simp: counts_grow(2))

lemma columns_counts_bounded:
  assumes "list_all (column_valid rows) cs" "rows \<le> UPTO_MAX" "dc_counter_upto d \<le> UPTO_MAX"
  shows "dc_counter_upto (columns_counts rows cs d) \<le> UPTO_MAX"
proof (rule fold_bounded)
  fix c and d :: database_counter assume c: "c \<in> set cs" "dc_counter_upto d \<le> UPTO_MAX"
  obtain name kind g where n: "c = (name, kind, g)" by (cases c)
  have "grouping_valid rows g" using assms(1) c(1) by (auto simp: list_all_iff n)
  then show "dc_counter_upto (column_counts rows c (count_column d)) \<le> UPTO_MAX"
    unfolding n using c(2) assms(2) by (intro column_counts_upto(2)) (simp_all add: counts_grow(2))
qed (rule assms)

lemma table_counts_eq: "table_counts (name, rows, cs) d = columns_counts rows cs (count_table rows d)"
  by (simp add: table_counts_def)

lemma table_counts_grow:
  "dc_counter_upto d \<le> dc_counter_upto (table_counts t d)" "dc_row_count_max d \<le> dc_row_count_max (table_counts t d)"
proof -
  obtain name rows cs where t: "t = (name, rows, cs)" by (cases t)
  show "dc_counter_upto d \<le> dc_counter_upto (table_counts t d)" "dc_row_count_max d \<le> dc_row_count_max (table_counts t d)"
    unfolding t table_counts_eq
    using columns_counts_grow [where d = "count_table rows d" and rows = rows and cs = cs] by (simp_all add: counts_grow)
qed

lemma tables_counts_grow:
  "dc_counter_upto d \<le> dc_counter_upto (fold table_counts ts d)" "dc_row_count_max d \<le> dc_row_count_max (fold table_counts ts d)"
  by (rule fold_grows; rule table_counts_grow)+

lemma tables_counts_bounded:
  assumes "list_all table_valid ts" "dc_counter_upto d \<le> UPTO_MAX"
  shows "dc_counter_upto (fold table_counts ts d) \<le> UPTO_MAX"
proof (rule fold_bounded)
  fix t and d :: database_counter assume t: "t \<in> set ts" "dc_counter_upto d \<le> UPTO_MAX"
  obtain name rows cs where n: "t = (name, rows, cs)" by (cases t)
  have "table_valid t" using assms(1) t(1) by (simp add: list_all_iff)
  then have "list_all (column_valid rows) cs" "rows \<le> UPTO_MAX" by (simp_all add: n)
  then show "dc_counter_upto (table_counts t d) \<le> UPTO_MAX"
    unfolding n table_counts_eq using t(2) by (intro columns_counts_bounded) (simp_all add: counts_grow(3))
qed (rule assms)

text \<open>What the counter of a database is raised to.\<close>

definition table_counted :: "table_desc \<Rightarrow> nat \<Rightarrow> nat \<Rightarrow> bool" where
  "table_counted = (\<lambda>(name, rows, cs) upto row_count_max. rows \<le> row_count_max \<and>
     (\<forall>(cname, kind, g) \<in> set cs. counted_kind kind \<longrightarrow> grouping_count rows g \<le> upto))"

lemma tables_counts_reach:
  assumes "t \<in> set ts"
  shows "table_counted t (dc_counter_upto (fold table_counts ts d)) (dc_row_count_max (fold table_counts ts d))"
proof -
  obtain name rows cs where t: "t = (name, rows, cs)" by (cases t)
  have "rows \<le> dc_row_count_max (fold table_counts ts d)"
    using assms by (rule fold_reaches) (rule table_counts_grow, simp add: t table_counts_eq columns_counts_grow counts_grow)
  moreover have "grouping_count rows g \<le> dc_counter_upto (fold table_counts ts d)"
    if "(cname, kind, g) \<in> set cs" "counted_kind kind" for cname kind g
    using assms by (rule fold_reaches) (rule table_counts_grow, simp only: t table_counts_eq, rule columns_counts_reach [OF that])
  ultimately show ?thesis by (auto simp: table_counted_def t)
qed

lemma table_counted_mono:
  "table_counted t n m \<Longrightarrow> n \<le> n' \<Longrightarrow> m \<le> m' \<Longrightarrow> table_counted t n' m'"
  by (auto simp: table_counted_def intro: order_trans split: prod.splits)

lemma database_counts_reach:
  assumes "database_valid d" "t \<in> set (snd d)"
  shows "table_counted t (dc_counter_upto (database_counts d)) (dc_row_count_max (database_counts d)) \<and>
    dc_counter_upto (database_counts d) \<le> UPTO_MAX"
proof -
  obtain dname name rows c cs ts where d: "d = (dname, (name, rows, c # cs) # ts)"
  proof -
    obtain dname ts' where 1: "d = (dname, ts')" by (cases d)
    then obtain t' ts where 2: "ts' = t' # ts" using assms(1) by (cases ts') auto
    obtain name rows cs' where 3: "t' = (name, rows, cs')" by (cases t')
    then obtain c cs where "cs' = c # cs" using assms(1) by (cases cs') (auto simp: 1 2)
    then show thesis using 1 2 3 that by blast
  qed
  let ?f = "columns_counts rows cs (column_counts rows c (database_counter_init rows))"
  have e: "database_counts d = fold table_counts ts ?f" by (simp add: d database_counts_def)
  have v: "list_all (column_valid rows) (c # cs)" "rows \<le> UPTO_MAX" "list_all table_valid ts" using assms(1) by (simp_all add: d)
  obtain cname kind g where c: "c = (cname, kind, g)" by (cases c)
  have "dc_counter_upto (column_counts rows c (database_counter_init rows)) \<le> UPTO_MAX"
    unfolding c using v by (intro column_counts_upto(2)) (simp_all add: c database_counter_init_def)
  then have "dc_counter_upto (database_counts d) \<le> UPTO_MAX"
    unfolding e using v by (intro tables_counts_bounded columns_counts_bounded) simp_all
  moreover have "table_counted t (dc_counter_upto (database_counts d)) (dc_row_count_max (database_counts d))"
  proof (cases "t \<in> set ts")
    case True
    then show ?thesis unfolding e by (rule tables_counts_reach)
  next
    case False
    then have t: "t = (name, rows, c # cs)" using assms(2) by (simp add: d)
    have "grouping_count rows g' \<le> dc_counter_upto ?f" if "(n', k', g') \<in> set (c # cs)" "counted_kind k'" for n' k' g'
    proof (cases "(n', k', g') \<in> set cs")
      case True
      then show ?thesis using that(2) by (rule columns_counts_reach)
    next
      case False
      then have "grouping_count rows g' \<le> dc_counter_upto (column_counts rows c (database_counter_init rows))"
        using that column_counts_upto(1) [of k' rows g' n'] by simp
      also have "\<dots> \<le> dc_counter_upto ?f" by (rule columns_counts_grow)
      finally show ?thesis .
    qed
    moreover have "rows \<le> dc_row_count_max ?f"
      by (simp add: columns_counts_grow counts_grow database_counter_init_def)
    ultimately have "table_counted t (dc_counter_upto ?f) (dc_row_count_max ?f)"
      unfolding t table_counted_def by auto
    then show ?thesis unfolding e by (rule table_counted_mono) (rule tables_counts_grow)+
  qed
  ultimately show ?thesis by blast
qed

lemma generator_counts_reach:
  assumes "list_all database_valid ds" "d \<in> set ds" "t \<in> set (snd d)"
  shows "table_counted t (gc_counter_upto (generator_counts ds)) (gc_row_count_max (generator_counts ds))"
    and "gc_counter_upto (generator_counts ds) \<le> UPTO_MAX"
proof -
  have v: "database_valid d" using assms by (auto simp: list_all_iff)
  have u: "gc_counter_upto (generator_counter_update g x) = max (gc_counter_upto g) (dc_counter_upto x)"
    "gc_row_count_max (generator_counter_update g x) = max (gc_row_count_max g) (dc_row_count_max x)" for g x
    by (simp_all add: generator_counter_update_def)
  have "dc_counter_upto (database_counts d) \<le> gc_counter_upto (generator_counts ds)"
    "dc_row_count_max (database_counts d) \<le> gc_row_count_max (generator_counts ds)"
    unfolding generator_counts_def using assms(2) by (rule fold_reaches; simp add: u)+
  then show "table_counted t (gc_counter_upto (generator_counts ds)) (gc_row_count_max (generator_counts ds))"
    using database_counts_reach [OF v assms(3)] table_counted_mono by blast
  show "gc_counter_upto (generator_counts ds) \<le> UPTO_MAX"
    unfolding generator_counts_def
  proof (rule fold_bounded)
    fix d and g :: generator_counter assume d: "d \<in> set ds" "gc_counter_upto g \<le> UPTO_MAX"
    then have "database_valid d" using assms(1) by (simp add: list_all_iff)
    moreover from this have "snd d \<noteq> []" by (cases d) auto
    ultimately have "dc_counter_upto (database_counts d) \<le> UPTO_MAX"
      using database_counts_reach [of d "hd (snd d)"] by simp
    then show "gc_counter_upto (generator_counter_update g (database_counts d)) \<le> UPTO_MAX" using d(2) by (simp add: u)
  qed (simp add: generator_counter_init_def)
qed

section \<open>From the arguments to the files\<close>

definition described_spec :: "table_desc \<Rightarrow> tbl_spec" where
  "described_spec t =
     \<lparr>ts_name = fst t, ts_row_count = fst (snd t), ts_col_specs = map (\<lambda>c. \<lparr>cs_name = Some (fst c)\<rparr>) (snd (snd t))\<rparr>"

text \<open>The file of a table with these cells: its header, and a line of comma separated cells per row.\<close>

definition file_text :: "string \<Rightarrow> string \<Rightarrow> table_desc \<Rightarrow> string list list \<Rightarrow> string" where
  "file_text path dname t cellss =
     header_text (hooked_table path dname (described_spec t) []) @ rows_text (map (Pair False) cellss) (fst (snd t))"

lemma table_spec_read: "table_read t (tbl, cs) \<Longrightarrow> table_spec tbl cs = Some (described_spec t)"
  by (cases t) (auto simp: table_read_def table_spec_def described_spec_def name_of_def)

lemma those_map:
  assumes "\<And>x. x \<in> set xs \<Longrightarrow> \<exists>y. f x = Some y \<and> P x y"
  shows "\<exists>ys. those (map f xs) = Some ys \<and> list_all2 P xs ys"
  using assms
proof (induction xs)
  case (Cons x xs)
  obtain y where "f x = Some y" "P x y" using Cons.prems by auto
  moreover obtain ys where "those (map f xs) = Some ys" "list_all2 P xs ys" using Cons by auto
  ultimately show ?case by auto
qed simp

lemma table_tasks_file:
  fixes D :: "'d double_ops"
  assumes t: "table_valid t" "list_all counted_column (snd (snd t))" "table_read t tbl"
    and D: "list_all (\<lambda>(_, _, g). linear_fit D (fst (snd t)) g) (snd (snd t))" and alloc: "allocates malloc"
    and file_alloc: "\<forall>n. \<exists>bytes. file_malloc n = Some bytes \<and> length bytes = n"
    and c: "\<forall>(cname, kind, g) \<in> set (snd (snd t)). counter_serves c (grouping_count (fst (snd t)) g)" and max: "0 < max_rows"
    and orders: "distinct column_order" "set column_order = {..<length (snd (snd t))}"
      "set block_order = {..<count_blocks max_rows (fst (snd t))}"
  shows "\<exists>cellss. list_all2 (column_cells (fst (snd t))) (snd (snd t)) cellss \<and>
    table_tasks D malloc file_malloc c max_rows path dname tbl column_order block_order = Some (file_text path dname t cellss)"
proof -
  obtain name rows cs where t': "t = (name, rows, cs)" by (cases t)
  have r: "fst (snd t) = rows" "snd (snd t) = cs" by (simp_all add: t')
  let ?spec = "described_spec t"
  have spec: "table_spec (fst tbl) (snd tbl) = Some ?spec" "snd tbl = map (column_spec rows) cs"
    using table_spec_read [of t "fst tbl" "snd tbl"] t(3) by (simp_all add: t' table_read_def split_def)
  have s: "ts_row_count ?spec = rows" "length (ts_col_specs ?spec) = length cs" "map join_of (ts_col_specs ?spec) = replicate (length cs) False"
    "columns_ok (ts_col_specs ?spec)"
    using t(1) by (auto simp: described_spec_def t' columns_ok_def join_of_def comp_def map_replicate_const hd_map)
  let ?P = "\<lambda>x b. col_valid b rows \<and> counter_serves c (col_needs b rows) \<and>
    (\<forall>cells. col_cells b rows cells \<longrightarrow> column_cells rows x cells)"
  have P: "\<exists>b. builder_of D (column_spec rows x) = Some b \<and> ?P x b" if x: "x \<in> set cs" for x
  proof -
    obtain cname kind g where x': "x = (cname, kind, g)" by (cases x)
    have "column_valid rows x" "counted_column x" "rows \<le> UPTO_MAX" using t(1,2) x by (simp_all add: t' list_all_iff)
    moreover have "linear_fit D rows g" using D x by (auto simp: x' t' list_all_iff)
    ultimately show ?thesis using builder_of_column [of rows cname kind g D] c x by (fastforce simp: x' t')
  qed
  obtain builds where builds: "those (map (\<lambda>x. builder_of D (column_spec rows x)) cs) = Some builds"
    "list_all2 ?P cs builds"
    by (rule exE [OF those_map [of cs "\<lambda>x. builder_of D (column_spec rows x)" ?P, OF P]]) auto
  have len: "length builds = length cs" using list_all2_lengthD [OF builds(2)] by simp
  have ok: "builds_ok builds c ?spec"
    using builds(2) len by (auto simp: builds_ok_def s list_all2_conv_all_nth in_set_conv_nth)
  have "0 < ts_row_count ?spec" using t(1) by (simp add: t' described_spec_def)
  moreover have "set column_order = {..<length builds}" "set block_order = {..<count_blocks max_rows (ts_row_count ?spec)}"
    using orders len unfolding r s(1) by simp_all
  ultimately obtain cellss tb1 tb2 tb3 where cells: "list_all2 (\<lambda>build. col_cells build rows) builds cellss" and
    run: "run_columns builds malloc c (hooked_table path dname ?spec (block_row_counts max_rows rows)) column_order = Some (Inr tb1)"
      "build_table_init file_malloc tb1 = Some (Inr tb2)" "run_row_blocks tb2 block_order = Some tb3"
      "tb_contents tb3 = header_text (hooked_table path dname ?spec []) @
        rows_text (zip (replicate (length cs) False) cellss) rows"
    using table_file_generated [OF s(4) _ max ok alloc file_alloc orders(1), of block_order path dname] unfolding s(1,3) by blast
  have cells': "list_all2 (column_cells rows) cs cellss"
    using builds(2) cells by (auto simp: list_all2_conv_all_nth)
  then have "zip (replicate (length cs) False) cellss = map (Pair False) cellss"
    using list_all2_lengthD [OF cells'] by (simp add: zip_replicate1)
  then have "tb_contents tb3 = file_text path dname t cellss" using run(4) by (simp add: file_text_def t')
  moreover have "those (map (builder_of D) (snd tbl)) = Some builds" using builds(1) by (simp add: spec(2) comp_def)
  ultimately have "table_tasks D malloc file_malloc c max_rows path dname tbl column_order block_order = Some (file_text path dname t cellss)"
    using run(1-3) by (simp add: table_tasks_def spec(1) s(1))
  then show ?thesis using cells' by (auto simp: t')
qed

lemma counter_task_serves:
  assumes "allocates malloc" "length buffer = 9" "gc_counter_upto g \<le> UPTO_MAX"
  shows "\<exists>c. counter_task malloc buffer g = Some c \<and> (\<forall>k \<le> gc_counter_upto g. counter_serves c k)"
proof (cases "0 < gc_counter_upto g")
  case True
  let ?n = "gc_counter_upto g"
  obtain ps digits where "malloc (?n + 1) (counter_size_upto ?n) = Some (ps, digits)" "length ps = ?n + 1"
    "length digits = counter_size_upto ?n"
    using assms(1) by (rule allocatesE)
  then obtain c where "build_counter malloc buffer (counter_init ?n) = Some (Inr c)" "cnt_ready c" "cnt_upto c = ?n" "counter_filled c"
    using counter_built [of "counter_init ?n" ?n malloc ps digits buffer] True assms(2,3) by (auto simp: counter_init_def)
  then show ?thesis using True assms(3) by (auto simp: counter_task_def counter_serves_def)
qed (simp add: counter_task_def counter_serves_def)

text \<open>All tables of a database, with any order of the tasks.\<close>

definition database_files ::
  "'d double_ops \<Rightarrow> alloc \<Rightarrow> (nat \<Rightarrow> bytes option) \<Rightarrow> counter \<Rightarrow> nat \<Rightarrow> database_desc \<Rightarrow>
    DbSpec \<times> (TblSpec \<times> ColSpec list) list \<Rightarrow> bool" where
  "database_files D malloc file_malloc c max_rows d db \<longleftrightarrow>
     db_name (fst db) = Some (fst d) \<and>
     list_all2 (\<lambda>t tbl. \<forall>path column_order block_order.
         distinct column_order \<longrightarrow> set column_order = {..<length (snd (snd t))} \<longrightarrow>
         set block_order = {..<count_blocks max_rows (fst (snd t))} \<longrightarrow>
         (\<exists>cellss. list_all2 (column_cells (fst (snd t))) (snd (snd t)) cellss \<and>
            table_tasks D malloc file_malloc c max_rows path (fst d) tbl column_order block_order =
              Some (file_text path (fst d) t cellss))) (snd d) (snd db)"

lemma described_files:
  fixes D :: "'d double_ops"
  assumes ds: "ds \<noteq> []" "list_all database_valid ds" "counted ds"
    and D: "linear_groups_fit D ds" and alloc: "allocates malloc"
    and file_alloc: "\<forall>n. \<exists>bytes. file_malloc n = Some bytes \<and> length bytes = n"
    and c: "\<forall>k \<le> gc_counter_upto (generator_counts ds). counter_serves c k"
    and d: "d \<in> set ds" "database_read d db"
  shows "database_files D malloc file_malloc c (row_block_row_count_max (generator_counts ds)) d db"
proof -
  let ?g = "generator_counts ds"
  have valid: "database_valid d" if "d \<in> set ds" for d using that ds(2) by (simp add: list_all_iff)
  have tables: "snd d \<noteq> [] \<and> list_all table_valid (snd d)" if "d \<in> set ds" for d
    using valid [OF that] by (cases d) simp
  have "hd (snd (hd ds)) \<in> set (snd (hd ds))" "hd ds \<in> set ds" using ds(1) tables [of "hd ds"] by simp_all
  note r = generator_counts_reach [OF ds(2) this(2,1)]
  have "table_valid (hd (snd (hd ds)))" using tables [of "hd ds"] ds(1) by (simp add: list_all_iff)
  then have max: "0 < row_block_row_count_max ?g"
    using r(1) by (cases "hd (snd (hd ds))")
      (auto simp: table_counted_def row_block_row_count_max_def COUNT_GENERATOR_WORKERS_def div_greater_zero_iff)
  have t: "table_valid t" "list_all counted_column (snd (snd t))"
    "\<forall>(cname, kind, g) \<in> set (snd (snd t)). counter_serves c (grouping_count (fst (snd t)) g)"
    "list_all (\<lambda>(_, _, g). linear_fit D (fst (snd t)) g) (snd (snd t))" if "t \<in> set (snd d)" for t
  proof -
    show "list_all (\<lambda>(_, _, g). linear_fit D (fst (snd t)) g) (snd (snd t))"
      using D d(1) that unfolding linear_groups_fit_def by blast
    show "table_valid t" using tables [OF d(1)] that by (simp add: list_all_iff)
    show l: "list_all counted_column (snd (snd t))"
      using ds(3) d(1) that unfolding counted_def list_all_iff by blast
    show "\<forall>(cname, kind, g) \<in> set (snd (snd t)). counter_serves c (grouping_count (fst (snd t)) g)"
      using generator_counts_reach(1) [OF ds(2) d(1) that] l c
      by (fastforce simp: table_counted_def list_all_iff split: prod.splits)
  qed
  have "list_all2 table_read (snd d) (snd db)" "db_name (fst db) = Some (fst d)"
    using d(2) by (simp_all add: database_read_def split_def)
  note read = this
  show ?thesis
    unfolding database_files_def
  proof (intro conjI read(2) list.rel_mono_strong [OF read(1)] allI impI)
    fix tab tbl path column_order block_order
    assume a: "tab \<in> set (snd d)" "table_read tab tbl" "distinct column_order" "set column_order = {..<length (snd (snd tab))}"
      "set block_order = {..<count_blocks (row_block_row_count_max ?g) (fst (snd tab))}"
    show "\<exists>cellss. list_all2 (column_cells (fst (snd tab))) (snd (snd tab)) cellss \<and>
        table_tasks D malloc file_malloc c (row_block_row_count_max ?g) path (fst d) tbl column_order block_order =
          Some (file_text path (fst d) tab cellss)"
      by (rule table_tasks_file [OF t(1,2) [OF a(1)] a(2) t(4) [OF a(1)] alloc file_alloc t(3) [OF a(1)] max a(3-5)])
  qed
qed

text \<open>For any arithmetic of \<open>double\<close> that fits the columns in linear groups.\<close>

lemma command_line_files_fitting:
  fixes D :: "'d double_ops"
  assumes ds: "ds \<noteq> []" "list_all database_valid ds" "counted ds"
    and D: "linear_groups_fit D ds" and alloc: "allocates malloc" "length buffer = 9"
    and file_alloc: "\<forall>n. \<exists>bytes. file_malloc n = Some bytes \<and> length bytes = n"
  shows "\<exists>s db dbs c. generate_dispatch True (command_line ds) = Some (Generate s) \<and> \<not> ps_failed s \<and>
    ps_head s = Some (Some db) \<and> spec_databases (ps_mem s) db = Some dbs \<and>
    counter_task malloc buffer (ps_generator s) = Some c \<and>
    list_all2 (database_files D malloc file_malloc c (row_block_row_count_max (ps_generator s))) ds dbs"
proof -
  obtain s where s: "generate_dispatch True (command_line ds) = Some (Generate s)" "\<not> ps_failed s" "ps_head s = Some (Some 0)"
    "ps_generator s = generator_counts ds" "mem_at (ps_mem s) = map_of (lay_databases 0 ds)"
    using generate_dispatch_command_line [OF ds(1,2)] by blast
  obtain dbs where dbs: "spec_databases (ps_mem s) 0 = Some dbs" "list_all2 database_read ds dbs"
    using spec_databases_read [of 0 ds "ps_mem s"] ds s(5) by auto
  let ?g = "generator_counts ds"
  have "hd ds \<in> set ds" "hd (snd (hd ds)) \<in> set (snd (hd ds))"
    using ds(1,2) by (cases "hd ds", cases ds, simp_all)+
  note r = generator_counts_reach [OF ds(2) this]
  obtain c where c: "counter_task malloc buffer ?g = Some c" "\<forall>k \<le> gc_counter_upto ?g. counter_serves c k"
    using counter_task_serves [OF alloc r(2)] by blast
  have "database_files D malloc file_malloc c (row_block_row_count_max ?g) d db" if "d \<in> set ds" "database_read d db" for d db
    by (rule described_files [OF ds D alloc(1) file_alloc c(2) that])
  then have "list_all2 (database_files D malloc file_malloc c (row_block_row_count_max ?g)) ds dbs"
    using dbs(2) by (auto elim!: list.rel_mono_strong)
  then show ?thesis using s dbs(1) c(1) by auto
qed

text \<open>
  C1: From the arguments to the files. Let the arguments describe databases with columns of numbers and
  of numbered strings, in groups or not. They are parsed without an error, the walk over the
  specifications finds the databases, tables and columns of the description, the counter is built as
  far as the columns need it, and whatever orders the workers take the tasks of a table in, its file is
  the header and a line per row of the described cells. The arithmetic of \<open>double\<close>, which only the
  partitioner of linear groups uses, is any that \<open>rounds\<close> to 53 bits, as rounding to the nearest does
  (\<open>nearest_rounds\<close>).
\<close>

theorem command_line_files:
  assumes ds: "ds \<noteq> []" "list_all database_valid ds" "counted ds"
    and rnd: "rounds rnd" and alloc: "allocates malloc" "length buffer = 9"
    and file_alloc: "\<forall>n. \<exists>bytes. file_malloc n = Some bytes \<and> length bytes = n"
  shows "\<exists>s db dbs c. generate_dispatch True (command_line ds) = Some (Generate s) \<and> \<not> ps_failed s \<and>
    ps_head s = Some (Some db) \<and> spec_databases (ps_mem s) db = Some dbs \<and>
    counter_task malloc buffer (ps_generator s) = Some c \<and>
    list_all2 (database_files (rounded_ops rnd) malloc file_malloc c (row_block_row_count_max (ps_generator s))) ds dbs"
  by (rule command_line_files_fitting [OF ds rounded_groups_fit [OF rnd ds(2)] alloc file_alloc])

definition counted_example :: "database_desc list" where
  "counted_example =
     [(''shop'', [(''item'', 1000, [(''id'', Unsigned_Numbers, Rows), (''kind'', Numbered_Strings ''k'', Groups 3 Partition_Groups_Linear)]),
                  (''log'', 20, [(''line'', Named_Strings, Rows)])]),
      (''users'', [(''user'', 7, [(''no'', Numbers, Groups 2 Partition_Groups_Even)])])]"

lemma counted_example_valid: "counted_example \<noteq> []" "list_all database_valid counted_example" "counted counted_example"
  by (simp_all add: counted_example_def counted_def parse_name_def name_loop_numeral string_loop_numeral utf8_width_def
        utf8_head_width_def octet_def DB_NAME_LENGTH_MAX_def TBL_NAME_LENGTH_MAX_def COL_NAME_LENGTH_MAX_def
        BASE_STRING_LENGTH_MAX_def UPTO_MAX_def)

theorem command_line_files_witness:
  "\<exists>s db dbs c. generate_dispatch True (command_line counted_example) = Some (Generate s) \<and> \<not> ps_failed s \<and>
    ps_head s = Some (Some db) \<and> spec_databases (ps_mem s) db = Some dbs \<and>
    counter_task zero_alloc (replicate 9 NUL) (ps_generator s) = Some c \<and>
    list_all2 (database_files (rounded_ops nearest) zero_alloc (\<lambda>n. Some (replicate n NUL)) c (row_block_row_count_max (ps_generator s)))
      counted_example dbs"
  by (rule command_line_files [OF counted_example_valid nearest_rounds zero_alloc_allocates]) simp_all

end
