(* ===== verification/Loader.thy ===== *)
theory Loader
  imports Table Parse_State
begin

text \<open>
  The script that creates a database and loads its tables, \<open>src/generate/loader.h\<close> and \<open>loader.c\<close>, and
  the paths of its files, \<open>src/generate/generator.h\<close>. The script is written into one block whose size
  \<open>loader_estimate_size\<close> guesses from the numbers of tables and columns; the lemmas show the text it
  writes, and that it writes it exactly when the text fits. The names of columns have no part in the
  guess, so there are command lines whose script does not fit.
\<close>

section \<open>Definitions\<close>

subsection \<open>Paths\<close>

definition DB_NAME_NN_SIZE_MAX :: nat where "DB_NAME_NN_SIZE_MAX = 4 * 63"
definition TBL_NAME_NN_SIZE_MAX :: nat where "TBL_NAME_NN_SIZE_MAX = 4 * 63"
definition COL_NAME_SIZE_MAX :: nat where "COL_NAME_SIZE_MAX = 4 * 63 + 1"
definition DB_DIRPATH_NN_SIZE_MAX :: nat where "DB_DIRPATH_NN_SIZE_MAX = 8 + 1 + DB_NAME_NN_SIZE_MAX"
definition DIRPATH_SIZE_MAX :: nat where "DIRPATH_SIZE_MAX = DB_DIRPATH_NN_SIZE_MAX + 1"
definition LOADER_FILENAME_NN_SIZE_MAX :: nat where "LOADER_FILENAME_NN_SIZE_MAX = 5 + DB_NAME_NN_SIZE_MAX + 6"
definition LOADER_FILEPATH_SIZE_MAX :: nat where
  "LOADER_FILEPATH_SIZE_MAX = DB_DIRPATH_NN_SIZE_MAX + 1 + LOADER_FILENAME_NN_SIZE_MAX + 1"
definition TABLE_FILENAME_NN_SIZE_MAX :: nat where "TABLE_FILENAME_NN_SIZE_MAX = COL_NAME_SIZE_MAX + 4"
definition TABLE_FILEPATH_SIZE_MAX :: nat where
  "TABLE_FILEPATH_SIZE_MAX = DB_DIRPATH_NN_SIZE_MAX + 1 + TABLE_FILENAME_NN_SIZE_MAX + 1"
definition FILE_HANDLE_NAME_SIZE_MAX :: nat where
  "FILE_HANDLE_NAME_SIZE_MAX = max (LOADER_FILENAME_NN_SIZE_MAX + 1) (TABLE_FILENAME_NN_SIZE_MAX + 1)"
definition FILE_HANDLE_PATH_SIZE_MAX :: nat where
  "FILE_HANDLE_PATH_SIZE_MAX = max LOADER_FILEPATH_SIZE_MAX TABLE_FILEPATH_SIZE_MAX"

lemmas path_sizes = DB_NAME_NN_SIZE_MAX_def TBL_NAME_NN_SIZE_MAX_def COL_NAME_SIZE_MAX_def DB_DIRPATH_NN_SIZE_MAX_def
  DIRPATH_SIZE_MAX_def LOADER_FILENAME_NN_SIZE_MAX_def LOADER_FILEPATH_SIZE_MAX_def TABLE_FILENAME_NN_SIZE_MAX_def
  TABLE_FILEPATH_SIZE_MAX_def FILE_HANDLE_NAME_SIZE_MAX_def FILE_HANDLE_PATH_SIZE_MAX_def

text \<open>\<open>struct Dirpath\<close>, \<open>struct Filename\<close> and \<open>struct Filepath\<close>: a buffer and the length of the text in it.\<close>

record sized_buffer =
  sz_buffer :: bytes
  sz_length :: nat

record file_handle =
  fh_name :: sized_buffer
  fh_path :: sized_buffer

text \<open>A name is a \<open>struct String\<close>: its bytes, with the terminator behind its length.\<close>

definition database_dirpath_init :: "bytes \<Rightarrow> string \<Rightarrow> sized_buffer option" where
  "database_dirpath_init buffer name =
     do { b \<leftarrow> SET_STRING_WIDTH buffer 0 ''database/'' 9;
          b \<leftarrow> memory_copy (name @ [NUL]) 0 (length name + 1) b 9;
          Some \<lparr>sz_buffer = b, sz_length = 9 + length name\<rparr> }"

text \<open>The path of a file from that of its directory and its name.\<close>

definition filepath_init :: "file_handle \<Rightarrow> bytes \<Rightarrow> nat \<Rightarrow> sized_buffer \<Rightarrow> file_handle option" where
  "filepath_init file filename len dirpath =
     (let filename_size = len + 1
      in do { (path, ptr) \<leftarrow> put_string_size (sz_buffer dirpath) 0 (sz_length dirpath) (sz_buffer (fh_path file)) 0;
              (path, ptr) \<leftarrow> PUT_CHAR CHR ''/'' path ptr;
              path \<leftarrow> memory_copy filename 0 filename_size path ptr;
              Some \<lparr>fh_name = \<lparr>sz_buffer = filename, sz_length = len\<rparr>,
                    fh_path = \<lparr>sz_buffer = path, sz_length = sz_length dirpath + filename_size\<rparr>\<rparr> })"

definition table_file_init :: "file_handle \<Rightarrow> string \<Rightarrow> sized_buffer \<Rightarrow> file_handle option" where
  "table_file_init file name dirpath =
     do { (filename, ptr) \<leftarrow> put_string_size name 0 (length name) (sz_buffer (fh_name file)) 0;
          filename \<leftarrow> SET_STRING_WIDTH filename ptr ''.csv'' 5;
          filepath_init file filename (length name + 4) dirpath }"

definition loader_file_init :: "file_handle \<Rightarrow> string \<Rightarrow> sized_buffer \<Rightarrow> file_handle option" where
  "loader_file_init file name dirpath =
     do { filename \<leftarrow> SET_STRING_WIDTH (sz_buffer (fh_name file)) 0 ''load_'' 5;
          (filename, ptr) \<leftarrow> put_string_size name 0 (length name) filename 5;
          filename \<leftarrow> SET_STRING_WIDTH filename ptr ''.mysql'' 7;
          filepath_init file filename (5 + length name + 6) dirpath }"

subsection \<open>The templates\<close>

abbreviation NL :: char where "NL \<equiv> CHR 0x0A"
abbreviation TAB :: char where "TAB \<equiv> CHR 0x09"
abbreviation QUOTE :: char where "QUOTE \<equiv> CHR 0x27"
abbreviation BACKSLASH :: char where "BACKSLASH \<equiv> CHR 0x5C"

definition LOADER_TABLE_LI :: string where "LOADER_TABLE_LI = NL # ''# '' @ TAB # ''- ''"
definition LOADER_HEADER_1 :: string where "LOADER_HEADER_1 = ''# ''"
definition LOADER_HEADER_2 :: string where "LOADER_HEADER_2 = NL # ''#'' @ NL # ''# seeds MySQL database ''"
definition LOADER_HEADER_3 :: string where
  "LOADER_HEADER_3 = '' according to the tabular data files:'' @ NL # ''#'' @ LOADER_TABLE_LI"
definition LOADER_HEADER_4 :: string where "LOADER_HEADER_4 = NL # NL # ''CREATE DATABASE ''"
definition LOADER_HEADER_5 :: string where "LOADER_HEADER_5 = '';'' @ NL # NL # ''USE ''"
definition LOADER_HEADER_6 :: string where "LOADER_HEADER_6 = '';''"
definition LOADER_CREATE_TABLE_1 :: string where "LOADER_CREATE_TABLE_1 = NL # NL # ''CREATE TABLE ''"
definition LOADER_CREATE_TABLE_2 :: string where "LOADER_CREATE_TABLE_2 = '' ('' @ [NL, TAB]"
definition LOADER_CREATE_TABLE_FIELD_DELIM :: string where "LOADER_CREATE_TABLE_FIELD_DELIM = '','' @ [NL, TAB]"

text \<open>\<open>ROOT_ABSPATH\<close>, the path of the project, comes from the makefile.\<close>

definition LOADER_LOAD_TABLE_1 :: "string \<Rightarrow> string" where
  "LOADER_LOAD_TABLE_1 project = NL # '');'' @ NL # NL # ''LOAD DATA INFILE '' @ QUOTE # project @ ''/''"
definition LOADER_LOAD_TABLE_2 :: string where "LOADER_LOAD_TABLE_2 = QUOTE # NL # TAB # ''IGNORE INTO TABLE ''"
definition LOADER_LOAD_TABLE_3 :: string where
  "LOADER_LOAD_TABLE_3 =
     NL # TAB # ''FIELDS TERMINATED BY '' @ [QUOTE, CHR '','', QUOTE] @
     NL # TAB # ''       ENCLOSED BY   '' @ [QUOTE, QUOTE] @
     NL # TAB # ''       ESCAPED BY    '' @ [QUOTE, BACKSLASH, BACKSLASH, QUOTE] @
     NL # TAB # ''LINES  STARTING BY   '' @ [QUOTE, QUOTE] @
     NL # TAB # ''       TERMINATED BY '' @ [QUOTE, BACKSLASH, CHR ''n'', QUOTE] @
     NL # TAB # ''IGNORE 17 LINES;''"

definition LOADER_HEADER_BASE_SIZE_MAX :: nat where
  "LOADER_HEADER_BASE_SIZE_MAX =
     length (LOADER_HEADER_1 @ LOADER_HEADER_2 @ LOADER_HEADER_3 @ LOADER_HEADER_4 @ LOADER_HEADER_5 @ LOADER_HEADER_6) + 1 +
     LOADER_FILEPATH_SIZE_MAX + DB_NAME_NN_SIZE_MAX * 2 - 1"

definition LOADER_CREATE_TABLE_BASE_SIZE :: nat where
  "LOADER_CREATE_TABLE_BASE_SIZE = length (LOADER_CREATE_TABLE_1 @ LOADER_CREATE_TABLE_2)"

definition LOADER_LOAD_TABLE_BASE_SIZE :: "string \<Rightarrow> nat" where
  "LOADER_LOAD_TABLE_BASE_SIZE project = length (LOADER_LOAD_TABLE_1 project @ LOADER_LOAD_TABLE_2 @ LOADER_LOAD_TABLE_3)"

subsection \<open>The script\<close>

definition loader_estimate_size :: "string \<Rightarrow> nat \<Rightarrow> nat \<Rightarrow> nat" where
  "loader_estimate_size project tbl_count col_count =
     LOADER_HEADER_BASE_SIZE_MAX +
     tbl_count * (TABLE_FILEPATH_SIZE_MAX * 2 + LOADER_CREATE_TABLE_BASE_SIZE + LOADER_LOAD_TABLE_BASE_SIZE project +
       TBL_NAME_NN_SIZE_MAX) +
     (col_count - tbl_count) * (CHAR_BUFFER_WIDTH_MAX + 3)"

text \<open>A table of the database: its name, its columns and its file.\<close>

record loader_table =
  lt_name :: string
  lt_cols :: "ColSpec list"
  lt_file :: file_handle

definition put_path :: "sized_buffer \<Rightarrow> put" where
  "put_path path = put_string_size (sz_buffer path) 0 (sz_length path)"

definition put_label_closure_call :: "put_label \<Rightarrow> put" where
  "put_label_closure_call cl = PUT_STRING_WIDTH_MAP (pl_width cl) (pl_buffer cl) 0"

text \<open>The loop over the tables names their files, and leaves the paths with the tables.\<close>

fun loader_put_tables :: "sized_buffer \<Rightarrow> loader_table list \<Rightarrow> bytes \<Rightarrow> nat \<Rightarrow> (bytes \<times> nat \<times> loader_table list) option" where
  "loader_put_tables dirpath [] b ptr = None"
| "loader_put_tables dirpath (t # ts) b ptr =
     do { file \<leftarrow> table_file_init (lt_file t) (lt_name t) dirpath;
          (b, ptr) \<leftarrow> put_path (fh_path file) b ptr;
          if ts = [] then Some (b, ptr, [t\<lparr>lt_file := file\<rparr>])
          else do { (b, ptr) \<leftarrow> PUT_STRING_WIDTH LOADER_TABLE_LI 6 b ptr;
                    (b, ptr, ts) \<leftarrow> loader_put_tables dirpath ts b ptr;
                    Some (b, ptr, t\<lparr>lt_file := file\<rparr> # ts) } }"

definition loader_put_header ::
  "string \<Rightarrow> sized_buffer \<Rightarrow> file_handle \<Rightarrow> loader_table list \<Rightarrow> bytes \<Rightarrow> nat \<Rightarrow> (bytes \<times> nat \<times> loader_table list) option" where
  "loader_put_header name dirpath loader ts b ptr =
     do { (b, ptr) \<leftarrow> PUT_STRING_WIDTH LOADER_HEADER_1 2 b ptr;
          (b, ptr) \<leftarrow> put_path (fh_path loader) b ptr;
          (b, ptr) \<leftarrow> PUT_STRING_WIDTH LOADER_HEADER_2 26 b ptr;
          (b, ptr) \<leftarrow> put_name name b ptr;
          (b, ptr) \<leftarrow> put_name LOADER_HEADER_3 b ptr;
          (b, ptr, ts) \<leftarrow> loader_put_tables dirpath ts b ptr;
          (b, ptr) \<leftarrow> PUT_STRING_WIDTH LOADER_HEADER_4 18 b ptr;
          (b, ptr) \<leftarrow> put_name name b ptr;
          (b, ptr) \<leftarrow> PUT_STRING_WIDTH LOADER_HEADER_5 7 b ptr;
          (b, ptr) \<leftarrow> put_name name b ptr;
          (b, ptr) \<leftarrow> PUT_STRING_WIDTH LOADER_HEADER_6 1 b ptr;
          Some (b, ptr, ts) }"

text \<open>A column has to have a name and a type here; those of a join column after the first have none.\<close>

definition loader_put_field :: "ColSpec \<Rightarrow> put" where
  "loader_put_field c b ptr =
     (case (col_bytes c, col_type c) of
        (Name name, Some type) \<Rightarrow>
          do { (b, ptr) \<leftarrow> put_name name b ptr;
               (b, ptr) \<leftarrow> PUT_CHAR CHR '' '' b ptr;
               put_label_closure_call type b ptr }
      | _ \<Rightarrow> None)"

fun loader_put_more_fields :: "ColSpec list \<Rightarrow> put" where
  "loader_put_more_fields [] b ptr = Some (b, ptr)"
| "loader_put_more_fields (c # cs) b ptr =
     (if col_bytes c = Name_NULL then loader_put_more_fields cs b ptr
      else do { (b, ptr) \<leftarrow> PUT_STRING_WIDTH LOADER_CREATE_TABLE_FIELD_DELIM 3 b ptr;
                (b, ptr) \<leftarrow> loader_put_field c b ptr;
                loader_put_more_fields cs b ptr })"

definition loader_put_table :: "string \<Rightarrow> loader_table \<Rightarrow> put" where
  "loader_put_table project t b ptr =
     (case lt_cols t of
        [] \<Rightarrow> None
      | c # cs \<Rightarrow>
          do { (b, ptr) \<leftarrow> PUT_STRING_WIDTH LOADER_CREATE_TABLE_1 15 b ptr;
               (b, ptr) \<leftarrow> put_name (lt_name t) b ptr;
               (b, ptr) \<leftarrow> PUT_STRING_WIDTH LOADER_CREATE_TABLE_2 4 b ptr;
               (b, ptr) \<leftarrow> loader_put_field c b ptr;
               (b, ptr) \<leftarrow> loader_put_more_fields cs b ptr;
               (b, ptr) \<leftarrow> put_name (LOADER_LOAD_TABLE_1 project) b ptr;
               (b, ptr) \<leftarrow> put_path (fh_path (lt_file t)) b ptr;
               (b, ptr) \<leftarrow> PUT_STRING_WIDTH LOADER_LOAD_TABLE_2 21 b ptr;
               (b, ptr) \<leftarrow> put_name (lt_name t) b ptr;
               put_name LOADER_LOAD_TABLE_3 b ptr })"

fun loader_put_body :: "string \<Rightarrow> loader_table list \<Rightarrow> put" where
  "loader_put_body project [] b ptr = Some (b, ptr)"
| "loader_put_body project (t # ts) b ptr = do { (b, ptr) \<leftarrow> loader_put_table project t b ptr; loader_put_body project ts b ptr }"

text \<open>
  The task of a database. \<open>mkdir\<close> makes the directory of a path and \<open>process\<close> opens the file of a path,
  writes the contents and closes it; both say whether they succeeded. The value is the failure, or the
  path and contents of the script that was written.
\<close>

datatype loader_failure = LOADER_MKDIR_FAILURE | LOADER_MALLOC_FAILURE | LOADER_FILE_FAILURE

definition c_string :: "bytes \<Rightarrow> string" where
  "c_string b = takeWhile (\<lambda>c. c \<noteq> NUL) b"

definition build_loader ::
  "string \<Rightarrow> (string \<Rightarrow> bool) \<Rightarrow> (nat \<Rightarrow> bytes option) \<Rightarrow> (string \<Rightarrow> string \<Rightarrow> bool) \<Rightarrow> bytes \<Rightarrow> file_handle \<Rightarrow>
    string \<Rightarrow> loader_table list \<Rightarrow> (loader_failure + string \<times> string) option" where
  "build_loader project mkdir malloc process dir_buffer loader name ts =
     do { dirpath \<leftarrow> database_dirpath_init dir_buffer name;
          if \<not> mkdir (c_string (sz_buffer dirpath)) then Some (Inl LOADER_MKDIR_FAILURE)
          else do {
            loader \<leftarrow> loader_file_init loader name dirpath;
            let size_est = loader_estimate_size project (length ts) (sum_list (map (\<lambda>t. length (lt_cols t)) ts));
            case malloc size_est of
              None \<Rightarrow> Some (Inl LOADER_MALLOC_FAILURE)
            | Some contents \<Rightarrow>
                do { (b, ptr, ts) \<leftarrow> loader_put_header name dirpath loader ts contents 0;
                     (b, ptr) \<leftarrow> (if ts = [] then None else loader_put_body project ts b ptr);
                     let path = c_string (sz_buffer (fh_path loader));
                     if process path (take ptr b) then Some (Inr (path, take ptr b)) else Some (Inl LOADER_FILE_FAILURE) } } }"

section \<open>Routines that write a text exactly if it fits\<close>

definition puts_text :: "put \<Rightarrow> string \<Rightarrow> bool" where
  "puts_text f s \<longleftrightarrow> (\<forall>b p. p \<le> length b \<longrightarrow>
     f b p = (if p + length s \<le> length b then Some (take p b @ s @ drop (p + length s) b, p + length s) else None))"

lemma puts_textD: "puts_text f s \<Longrightarrow> p \<le> length b \<Longrightarrow>
    f b p = (if p + length s \<le> length b then Some (take p b @ s @ drop (p + length s) b, p + length s) else None)"
  by (simp add: puts_text_def)

lemma puts_textI:
  assumes "writes f s" "\<And>b p b' p'. p \<le> length b \<Longrightarrow> f b p = Some (b', p') \<Longrightarrow> p + length s \<le> length b"
  shows "puts_text f s"
  unfolding puts_text_def
proof (intro allI impI)
  fix b :: bytes and p
  assume "p \<le> length b"
  then show "f b p = (if p + length s \<le> length b then Some (take p b @ s @ drop (p + length s) b, p + length s) else None)"
    using writes_at [OF assms(1)] assms(2) by (cases "f b p") auto
qed

lemma puts_text_bind:
  assumes "puts_text f s" "puts_text g t"
  shows "puts_text (\<lambda>b p. do { (b, p) \<leftarrow> f b p; g b p }) (s @ t)"
  unfolding puts_text_def
proof (intro allI impI)
  fix b :: bytes and p
  assume p: "p \<le> length b"
  show "(do { (b, p) \<leftarrow> f b p; g b p }) =
      (if p + length (s @ t) \<le> length b then Some (take p b @ (s @ t) @ drop (p + length (s @ t)) b, p + length (s @ t)) else None)"
  proof (cases "p + length s \<le> length b")
    case True
    let ?b = "take p b @ s @ drop (p + length s) b"
    have "length ?b = length b" using True by simp
    then have "g ?b (p + length s) = (if p + length s + length t \<le> length b
        then Some (take (p + length s) ?b @ t @ drop (p + length s + length t) ?b, p + length s + length t) else None)"
      using puts_textD [OF assms(2), of "p + length s" ?b] True by simp
    moreover have "take (p + length s) ?b = take p b @ s" "drop (p + length s + length t) ?b = drop (p + length (s @ t)) b"
      using True by (simp_all add: add.commute add.left_commute)
    ultimately show ?thesis using puts_textD [OF assms(1) p] True by (simp add: add.assoc)
  next
    case False
    then show ?thesis using puts_textD [OF assms(1) p] by simp
  qed
qed

lemma puts_text_PUT_CHAR: "puts_text (PUT_CHAR c) [c]"
  by (rule puts_textI [OF writes_PUT_CHAR]) (auto simp: PUT_CHAR_def store_def split: if_splits)

lemma puts_text_PUT_STRING_WIDTH: "w = length s \<Longrightarrow> puts_text (PUT_STRING_WIDTH s w) s"
  by (rule puts_textI [OF writes_PUT_STRING_WIDTH])
    (auto simp: PUT_STRING_WIDTH_def SET_STRING_WIDTH_def store_string_def split: if_splits)

lemma MEMORY_SET_WIDTH_room: "MEMORY_SET_WIDTH w src q b p = Some b' \<Longrightarrow> p + w \<le> length b \<and> length b' = length b"
  by (auto simp: MEMORY_SET_WIDTH_def load_string_def store_string_def split: if_splits bind_splits)

lemma PUT_WORDS_LOOP_room: "PUT_WORDS_LOOP src e b x y = Some (b', x', y') \<Longrightarrow> x' = e \<and> e \<le> length b \<and> length b' = length b"
proof (induction src e b x y arbitrary: b' x' y' rule: PUT_WORDS_LOOP.induct)
  case (1 src e b x y)
  show ?case
    using 1 by (subst (asm) PUT_WORDS_LOOP.simps) (fastforce simp: Let_def dest: MEMORY_SET_WIDTH_room split: if_splits bind_splits)
qed

lemma puts_text_put_string_size:
  assumes "length s = n"
  shows "puts_text (put_string_size (pre @ s @ post) (length pre) n) s"
  by (rule puts_textI [OF writes_put_string_size [OF assms]])
    (use assms word_size_split [of n] in \<open>auto simp: put_string_size_def memory_put_def memory_put_array_def MEMORY_PUT_WIDTH_def
      Let_def WORD_SIZE_def dest!: MEMORY_SET_WIDTH_room PUT_WORDS_LOOP_room split: if_splits bind_splits\<close>)

lemma puts_text_put_name: "puts_text (put_name s) s"
  using puts_text_put_string_size [of s "length s" "[]" "[]"] by (simp add: put_name_def)

lemma puts_text_put_path: "sz_buffer path = s @ post \<Longrightarrow> sz_length path = length s \<Longrightarrow> puts_text (put_path path) s"
  using puts_text_put_string_size [of s "length s" "[]" post] by (simp add: put_path_def)

lemma puts_text_label:
  assumes "pl_width l \<le> length (pl_buffer l)" "pl_width l \<le> CHAR_BUFFER_WIDTH_MAX"
  shows "puts_text (put_label_closure_call l) (put_label_text l)"
proof -
  have "pl_buffer l = [] @ put_label_text l @ drop (pl_width l) (pl_buffer l)" "length (put_label_text l) = pl_width l"
    using assms(1) by (simp_all add: put_label_text_def)
  then have "writes (put_label_closure_call l) (put_label_text l)"
    using writes_PUT_STRING_WIDTH_MAP [of "put_label_text l" "pl_width l" "[]" "drop (pl_width l) (pl_buffer l)"] assms(2)
    by (simp add: put_label_closure_call_def)
  then show ?thesis
    by (rule puts_textI) (use assms in \<open>auto simp: put_label_closure_call_def PUT_STRING_WIDTH_MAP_def MEMORY_PUT_WIDTH_def put_label_text_def
      dest!: MEMORY_SET_WIDTH_room split: if_splits bind_splits\<close>)
qed

lemma puts_text_Nil: "puts_text (\<lambda>b p. Some (b, p)) []"
  by (simp add: puts_text_def)

section \<open>Paths\<close>

definition dir_text :: "string \<Rightarrow> string" where "dir_text name = ''database/'' @ name"
definition csv_text :: "string \<Rightarrow> string \<Rightarrow> string" where "csv_text db name = dir_text db @ ''/'' @ name @ ''.csv''"
definition script_text :: "string \<Rightarrow> string" where "script_text db = dir_text db @ ''/load_'' @ db @ ''.mysql''"

text \<open>A buffer holds a text with its terminator.\<close>

definition holds_text :: "sized_buffer \<Rightarrow> string \<Rightarrow> bool" where
  "holds_text path s \<longleftrightarrow> (\<exists>post. sz_buffer path = s @ NUL # post) \<and> sz_length path = length s"

definition fresh_file :: "file_handle \<Rightarrow> bool" where
  "fresh_file file \<longleftrightarrow> length (sz_buffer (fh_name file)) = FILE_HANDLE_NAME_SIZE_MAX \<and>
     length (sz_buffer (fh_path file)) = FILE_HANDLE_PATH_SIZE_MAX"

lemma holds_text_put: "holds_text path s \<Longrightarrow> puts_text (put_path path) s"
  by (auto simp: holds_text_def intro: puts_text_put_path)

lemma holds_text_c_string: "holds_text path s \<Longrightarrow> NUL \<notin> set s \<Longrightarrow> c_string (sz_buffer path) = s"
  by (auto simp: holds_text_def c_string_def takeWhile_tail)

lemma database_dirpath_init_text:
  assumes "length buffer = DIRPATH_SIZE_MAX" "length name \<le> DB_NAME_NN_SIZE_MAX"
  shows "\<exists>dirpath. database_dirpath_init buffer name = Some dirpath \<and> holds_text dirpath (dir_text name)"
proof -
  have "length buffer = 9 + ((length name + 1) + (DB_NAME_NN_SIZE_MAX - length name))"
    using assms by (simp add: path_sizes)
  then obtain o1 r where o: "buffer = o1 @ r" "length o1 = 9" "length r = (length name + 1) + (DB_NAME_NN_SIZE_MAX - length name)"
    by (rule split_length)
  from o(3) obtain o2 o3 where o': "r = o2 @ o3" "length o2 = length name + 1" by (rule split_length)
  have l: "length ''database/'' = 9" by simp
  have 1: "SET_STRING_WIDTH (o1 @ o2 @ o3) 0 ''database/'' 9 = Some (''database/'' @ o2 @ o3)"
    using store_string_append [of "''database/''" o1 "[]" "o2 @ o3"] o(2) by (simp add: SET_STRING_WIDTH_store)
  have 2: "memory_copy (name @ [NUL]) 0 (length name + 1) (''database/'' @ o2 @ o3) 9 = Some (''database/'' @ (name @ [NUL]) @ o3)"
    using memory_copy_put [of "name @ [NUL]" "length name + 1" o2 "[]" "[]" "''database/''" o3] o'(2) unfolding l by simp
  show ?thesis using 1 2 o(1) o'(1) by (auto simp: database_dirpath_init_def holds_text_def dir_text_def)
qed

lemma filepath_init_text:
  assumes "holds_text dirpath dir" "filename = name @ NUL # post" "len = length name"
    and "length (sz_buffer (fh_path file)) = FILE_HANDLE_PATH_SIZE_MAX" "length dir + length name + 2 \<le> FILE_HANDLE_PATH_SIZE_MAX"
  shows "\<exists>file'. filepath_init file filename len dirpath = Some file' \<and> holds_text (fh_path file') (dir @ ''/'' @ name) \<and>
    holds_text (fh_name file') name"
proof -
  let ?b = "sz_buffer (fh_path file)"
  have "length ?b = (length dir + 1) + ((length name + 1) + (FILE_HANDLE_PATH_SIZE_MAX - (length dir + length name + 2)))"
    using assms(4,5) by simp
  then obtain o1 r where o: "?b = o1 @ r" "length o1 = length dir + 1"
    "length r = (length name + 1) + (FILE_HANDLE_PATH_SIZE_MAX - (length dir + length name + 2))" by (rule split_length)
  from o(3) obtain o2 o3 where o': "r = o2 @ o3" "length o2 = length name + 1" by (rule split_length)
  obtain dpost where d: "sz_buffer dirpath = dir @ NUL # dpost" "sz_length dirpath = length dir"
    using assms(1) by (auto simp: holds_text_def)
  have "writes (\<lambda>b p. do { (b, p) \<leftarrow> put_string_size (sz_buffer dirpath) 0 (sz_length dirpath) b p; PUT_CHAR CHR ''/'' b p }) (dir @ ''/'')"
    using writes_put_string_size [of dir "length dir" "[]" "NUL # dpost"] by (intro writes_bind writes_PUT_CHAR) (simp add: d)
  note 1 = writesD [OF this, of o1 0 "[]" "o2 @ o3"]
  have 2: "memory_copy (name @ NUL # post) 0 (length name + 1) ((dir @ ''/'') @ o2 @ o3) (length dir + 1) =
      Some ((dir @ ''/'') @ (name @ [NUL]) @ o3)"
    using memory_copy_put [of "name @ [NUL]" "length name + 1" o2 "[]" post "dir @ ''/''" o3] o'(2) by simp
  show ?thesis
    using 1 2 o o'(1) assms(2,3) d(2) by (auto simp: filepath_init_def Let_def holds_text_def split: bind_splits)
qed

lemma table_file_init_text:
  assumes "holds_text dirpath (dir_text db)" "fresh_file file" "length db \<le> DB_NAME_NN_SIZE_MAX" "length name \<le> TBL_NAME_NN_SIZE_MAX"
  shows "\<exists>file'. table_file_init file name dirpath = Some file' \<and> holds_text (fh_path file') (csv_text db name)"
proof -
  let ?b = "sz_buffer (fh_name file)"
  have "length ?b = (length name + 5) + (length ?b - (length name + 5))"
    using assms(2,4) by (simp add: fresh_file_def path_sizes)
  then obtain o1 o2 where o: "?b = o1 @ o2" "length o1 = length name + 5" by (rule split_length)
  have "writes (\<lambda>b p. do { (b, p) \<leftarrow> put_string_size name 0 (length name) b p; PUT_STRING_WIDTH ''.csv'' 5 b p }) (name @ ''.csv'' @ [NUL])"
    using writes_put_string_size [of name "length name" "[]" "[]"] by (intro writes_bind writes_PUT_STRING_WIDTH_nul) simp_all
  from writesD [OF this, of o1 0 "[]" o2]
  have 1: "(do { (filename, ptr) \<leftarrow> put_string_size name 0 (length name) ?b 0; SET_STRING_WIDTH filename ptr ''.csv'' 5 }) =
      Some ((name @ ''.csv'') @ NUL # o2)"
    using o by (auto simp: PUT_STRING_WIDTH_def split: bind_splits)
  obtain file' where "filepath_init file ((name @ ''.csv'') @ NUL # o2) (length name + 4) dirpath = Some file'"
    "holds_text (fh_path file') (dir_text db @ ''/'' @ name @ ''.csv'')"
    using filepath_init_text [OF assms(1), of _ "name @ ''.csv''" o2 "length name + 4" "file"] assms(2-4)
    by (auto simp: fresh_file_def path_sizes dir_text_def)
  then show ?thesis using 1 by (auto simp: table_file_init_def csv_text_def split: bind_splits)
qed

lemma loader_file_init_text:
  assumes "holds_text dirpath (dir_text db)" "fresh_file file" "length db \<le> DB_NAME_NN_SIZE_MAX"
  shows "\<exists>file'. loader_file_init file db dirpath = Some file' \<and> holds_text (fh_path file') (script_text db)"
proof -
  let ?b = "sz_buffer (fh_name file)"
  have "length ?b = 5 + ((length db + 7) + (length ?b - (length db + 12)))"
    using assms(2,3) by (simp add: fresh_file_def path_sizes)
  then obtain o0 r where o0: "?b = o0 @ r" "length o0 = 5" "length r = (length db + 7) + (length ?b - (length db + 12))" by (rule split_length)
  from o0(3) obtain o1 o2 where o: "r = o1 @ o2" "length o1 = length db + 7" by (rule split_length)
  have 0: "SET_STRING_WIDTH ?b 0 ''load_'' 5 = Some (''load_'' @ o1 @ o2)"
    using store_string_append [of "''load_''" o0 "[]" "o1 @ o2"] o0 o by (simp add: SET_STRING_WIDTH_store)
  have "writes (\<lambda>b p. do { (b, p) \<leftarrow> put_string_size db 0 (length db) b p; PUT_STRING_WIDTH ''.mysql'' 7 b p }) (db @ ''.mysql'' @ [NUL])"
    using writes_put_string_size [of db "length db" "[]" "[]"] by (intro writes_bind writes_PUT_STRING_WIDTH_nul) simp_all
  from writesD [OF this, of o1 5 "''load_''" o2]
  have 1: "(do { (filename, ptr) \<leftarrow> put_string_size db 0 (length db) (''load_'' @ o1 @ o2) 5; SET_STRING_WIDTH filename ptr ''.mysql'' 7 }) =
      Some ((''load_'' @ db @ ''.mysql'') @ NUL # o2)"
    using o by (auto simp: PUT_STRING_WIDTH_def split: bind_splits)
  obtain file' where "filepath_init file ((''load_'' @ db @ ''.mysql'') @ NUL # o2) (5 + length db + 6) dirpath = Some file'"
    "holds_text (fh_path file') (dir_text db @ ''/'' @ ''load_'' @ db @ ''.mysql'')"
    using filepath_init_text [OF assms(1), of _ "''load_'' @ db @ ''.mysql''" o2 "5 + length db + 6" "file"] assms(2,3)
    by (auto simp: fresh_file_def path_sizes dir_text_def)
  then show ?thesis using 0 1 by (auto simp: loader_file_init_def script_text_def split: bind_splits)
qed

section \<open>The script\<close>

text \<open>A column the script can declare.\<close>

definition declared :: "ColSpec \<Rightarrow> bool" where
  "declared c \<longleftrightarrow> (case (col_bytes c, col_type c) of
     (Name name, Some type) \<Rightarrow> pl_width type \<le> length (pl_buffer type) \<and> pl_width type \<le> CHAR_BUFFER_WIDTH_MAX
   | _ \<Rightarrow> False)"

definition column_decl :: "ColSpec \<Rightarrow> string" where
  "column_decl c = (case (col_bytes c, col_type c) of (Name name, Some type) \<Rightarrow> name @ '' '' @ put_label_text type | _ \<Rightarrow> [])"

definition fields_decl :: "ColSpec list \<Rightarrow> string" where
  "fields_decl cs = concat (map (\<lambda>c. LOADER_CREATE_TABLE_FIELD_DELIM @ column_decl c) (filter (\<lambda>c. col_bytes c \<noteq> Name_NULL) cs))"

definition table_script :: "string \<Rightarrow> string \<Rightarrow> string \<times> ColSpec list \<Rightarrow> string" where
  "table_script project db = (\<lambda>(name, cs).
     LOADER_CREATE_TABLE_1 @ name @ LOADER_CREATE_TABLE_2 @ column_decl (hd cs) @ fields_decl (tl cs) @
     LOADER_LOAD_TABLE_1 project @ csv_text db name @ LOADER_LOAD_TABLE_2 @ name @ LOADER_LOAD_TABLE_3)"

fun paths_text :: "string \<Rightarrow> string list \<Rightarrow> string" where
  "paths_text db [] = []"
| "paths_text db (name # names) = csv_text db name @ (if names = [] then [] else LOADER_TABLE_LI @ paths_text db names)"

definition loader_script :: "string \<Rightarrow> string \<Rightarrow> (string \<times> ColSpec list) list \<Rightarrow> string" where
  "loader_script project db ts =
     LOADER_HEADER_1 @ script_text db @ LOADER_HEADER_2 @ db @ LOADER_HEADER_3 @ paths_text db (map fst ts) @
     LOADER_HEADER_4 @ db @ LOADER_HEADER_5 @ db @ LOADER_HEADER_6 @ concat (map (table_script project db) ts)"

definition columns_declared :: "ColSpec list \<Rightarrow> bool" where
  "columns_declared cs \<longleftrightarrow> cs \<noteq> [] \<and> declared (hd cs) \<and> (\<forall>c \<in> set (tl cs). col_bytes c = Name_NULL \<or> declared c)"

lemma puts_text_field: "declared c \<Longrightarrow> puts_text (loader_put_field c) (column_decl c)"
proof -
  assume "declared c"
  then obtain name type where c: "col_bytes c = Name name" "col_type c = Some type"
    "pl_width type \<le> length (pl_buffer type)" "pl_width type \<le> CHAR_BUFFER_WIDTH_MAX"
    by (auto simp: declared_def split: name_bytes.splits option.splits)
  have "puts_text (\<lambda>b p. do { (b, p) \<leftarrow> put_name name b p; (b, p) \<leftarrow> PUT_CHAR CHR '' '' b p; put_label_closure_call type b p })
      (name @ '' '' @ put_label_text type)"
    by (intro puts_text_bind puts_text_put_name puts_text_PUT_CHAR puts_text_label c(3,4))
  then show ?thesis using c(1,2) by (simp add: loader_put_field_def [abs_def] column_decl_def)
qed

lemma puts_text_more_fields: "\<forall>c \<in> set cs. col_bytes c = Name_NULL \<or> declared c \<Longrightarrow> puts_text (loader_put_more_fields cs) (fields_decl cs)"
proof (induction cs)
  case Nil
  then show ?case using puts_text_Nil by (simp add: fields_decl_def puts_text_def)
next
  case (Cons c cs)
  show ?case
  proof (cases "col_bytes c = Name_NULL")
    case True
    then show ?thesis using Cons by (simp add: puts_text_def fields_decl_def)
  next
    case False
    have "puts_text (\<lambda>b p. do { (b, p) \<leftarrow> PUT_STRING_WIDTH LOADER_CREATE_TABLE_FIELD_DELIM 3 b p; (b, p) \<leftarrow> loader_put_field c b p;
        loader_put_more_fields cs b p }) (LOADER_CREATE_TABLE_FIELD_DELIM @ column_decl c @ fields_decl cs)"
      using Cons False
      by (intro puts_text_bind puts_text_field puts_text_PUT_STRING_WIDTH) (auto simp: LOADER_CREATE_TABLE_FIELD_DELIM_def)
    moreover have "loader_put_more_fields (c # cs) = (\<lambda>b p. do { (b, p) \<leftarrow> PUT_STRING_WIDTH LOADER_CREATE_TABLE_FIELD_DELIM 3 b p;
        (b, p) \<leftarrow> loader_put_field c b p; loader_put_more_fields cs b p })"
      using False by (intro ext) simp
    ultimately show ?thesis using False by (simp add: fields_decl_def)
  qed
qed

lemmas loader_texts = LOADER_HEADER_1_def LOADER_HEADER_2_def LOADER_HEADER_4_def LOADER_HEADER_5_def LOADER_HEADER_6_def
  LOADER_CREATE_TABLE_1_def LOADER_CREATE_TABLE_2_def LOADER_LOAD_TABLE_2_def LOADER_TABLE_LI_def

lemma puts_text_table:
  assumes "columns_declared (lt_cols t)" "holds_text (fh_path (lt_file t)) (csv_text db (lt_name t))"
  shows "puts_text (loader_put_table project t) (table_script project db (lt_name t, lt_cols t))"
proof -
  obtain c cs where c: "lt_cols t = c # cs" "declared c" "\<forall>c \<in> set cs. col_bytes c = Name_NULL \<or> declared c"
    using assms(1) by (cases "lt_cols t") (auto simp: columns_declared_def)
  have "puts_text (\<lambda>b p. do { (b, p) \<leftarrow> PUT_STRING_WIDTH LOADER_CREATE_TABLE_1 15 b p; (b, p) \<leftarrow> put_name (lt_name t) b p;
      (b, p) \<leftarrow> PUT_STRING_WIDTH LOADER_CREATE_TABLE_2 4 b p; (b, p) \<leftarrow> loader_put_field c b p;
      (b, p) \<leftarrow> loader_put_more_fields cs b p; (b, p) \<leftarrow> put_name (LOADER_LOAD_TABLE_1 project) b p;
      (b, p) \<leftarrow> put_path (fh_path (lt_file t)) b p; (b, p) \<leftarrow> PUT_STRING_WIDTH LOADER_LOAD_TABLE_2 21 b p;
      (b, p) \<leftarrow> put_name (lt_name t) b p; put_name LOADER_LOAD_TABLE_3 b p })
    (LOADER_CREATE_TABLE_1 @ lt_name t @ LOADER_CREATE_TABLE_2 @ column_decl c @ fields_decl cs @ LOADER_LOAD_TABLE_1 project @
      csv_text db (lt_name t) @ LOADER_LOAD_TABLE_2 @ lt_name t @ LOADER_LOAD_TABLE_3)"
    using c assms(2)
    by (intro puts_text_bind puts_text_PUT_STRING_WIDTH puts_text_put_name puts_text_field puts_text_more_fields holds_text_put) (simp_all add: loader_texts)
  then show ?thesis by (simp add: loader_put_table_def [abs_def] c(1) table_script_def)
qed

lemma puts_text_body:
  "\<forall>t \<in> set ts. columns_declared (lt_cols t) \<and> holds_text (fh_path (lt_file t)) (csv_text db (lt_name t)) \<Longrightarrow>
    puts_text (loader_put_body project ts) (concat (map (\<lambda>t. table_script project db (lt_name t, lt_cols t)) ts))"
proof (induction ts)
  case Nil
  then show ?case using puts_text_Nil by (simp add: puts_text_def)
next
  case (Cons t ts)
  then have "puts_text (\<lambda>b p. do { (b, p) \<leftarrow> loader_put_table project t b p; loader_put_body project ts b p })
      (table_script project db (lt_name t, lt_cols t) @ concat (map (\<lambda>t. table_script project db (lt_name t, lt_cols t)) ts))"
    by (intro puts_text_bind puts_text_table) simp_all
  then show ?case by (simp add: puts_text_def)
qed

text \<open>The tables with their files named.\<close>

definition filed :: "string \<Rightarrow> loader_table \<Rightarrow> loader_table \<Rightarrow> bool" where
  "filed db t t' \<longleftrightarrow> lt_name t' = lt_name t \<and> lt_cols t' = lt_cols t \<and> holds_text (fh_path (lt_file t')) (csv_text db (lt_name t))"

definition table_nameable :: "loader_table \<Rightarrow> bool" where
  "table_nameable t \<longleftrightarrow> fresh_file (lt_file t) \<and> length (lt_name t) \<le> TBL_NAME_NN_SIZE_MAX"

lemma loader_put_tables_eq:
  assumes "holds_text dirpath (dir_text db)" "length db \<le> DB_NAME_NN_SIZE_MAX" "ts \<noteq> []" "\<forall>t \<in> set ts. table_nameable t"
  shows "\<exists>ts' put. (\<forall>b p. loader_put_tables dirpath ts b p = do { (b, p) \<leftarrow> put b p; Some (b, p, ts') }) \<and>
    puts_text put (paths_text db (map lt_name ts)) \<and> list_all2 (filed db) ts ts'"
  using assms(3,4)
proof (induction ts)
  case (Cons t ts)
  obtain file' where f: "table_file_init (lt_file t) (lt_name t) dirpath = Some file'" "holds_text (fh_path file') (csv_text db (lt_name t))"
    using table_file_init_text [OF assms(1) _ assms(2), of "lt_file t" "lt_name t"] Cons.prems(2) by (auto simp: table_nameable_def)
  note p = holds_text_put [OF f(2)]
  have t: "filed db t (t\<lparr>lt_file := file'\<rparr>)" using f(2) by (simp add: filed_def)
  show ?case
  proof (cases "ts = []")
    case True
    then show ?thesis using f(1) p t by (intro exI [of _ "[t\<lparr>lt_file := file'\<rparr>]"] exI [of _ "put_path (fh_path file')"]) simp
  next
    case False
    then obtain ts' put where i: "\<And>b p. loader_put_tables dirpath ts b p = (do { (b, p) \<leftarrow> put b p; Some (b, p, ts') })"
      "puts_text put (paths_text db (map lt_name ts))" "list_all2 (filed db) ts ts'"
      using Cons by auto
    let ?put = "\<lambda>b p. do { (b, p) \<leftarrow> put_path (fh_path file') b p; (b, p) \<leftarrow> PUT_STRING_WIDTH LOADER_TABLE_LI 6 b p; put b p }"
    have "puts_text ?put (csv_text db (lt_name t) @ LOADER_TABLE_LI @ paths_text db (map lt_name ts))"
      using i(2) p by (intro puts_text_bind puts_text_PUT_STRING_WIDTH) (simp_all add: loader_texts)
    moreover have "loader_put_tables dirpath (t # ts) b p = (do { (b, p) \<leftarrow> ?put b p; Some (b, p, t\<lparr>lt_file := file'\<rparr> # ts') })" for b p
      using False f(1) i(1) by (auto split: bind_splits)
    ultimately show ?thesis
      using t i(3) False by (intro exI [of _ "t\<lparr>lt_file := file'\<rparr> # ts'"] exI [of _ ?put]) simp
  qed
qed simp

lemma loader_put_script:
  assumes "holds_text dirpath (dir_text db)" "holds_text (fh_path loader) (script_text db)" "length db \<le> DB_NAME_NN_SIZE_MAX"
    and "ts \<noteq> []" "\<forall>t \<in> set ts. table_nameable t \<and> columns_declared (lt_cols t)"
  shows "puts_text (\<lambda>b p. do { (b, p, ts) \<leftarrow> loader_put_header db dirpath loader ts b p; if ts = [] then None else loader_put_body project ts b p })
    (loader_script project db (map (\<lambda>t. (lt_name t, lt_cols t)) ts))"
proof -
  obtain ts' put where p: "\<And>b p. loader_put_tables dirpath ts b p = (do { (b, p) \<leftarrow> put b p; Some (b, p, ts') })"
    "puts_text put (paths_text db (map lt_name ts))" "list_all2 (filed db) ts ts'"
    using loader_put_tables_eq [OF assms(1,3,4)] assms(5) by blast
  have n: "ts' \<noteq> []" using p(3) assms(4) by auto
  have b: "\<forall>t \<in> set ts'. columns_declared (lt_cols t) \<and> holds_text (fh_path (lt_file t)) (csv_text db (lt_name t))"
  proof
    fix t'
    assume "t' \<in> set ts'"
    then obtain t where "t \<in> set ts" "filed db t t'" using p(3) by (metis in_set_conv_nth list_all2_conv_all_nth)
    then show "columns_declared (lt_cols t') \<and> holds_text (fh_path (lt_file t')) (csv_text db (lt_name t'))"
      using assms(5) by (simp add: filed_def)
  qed
  have m: "map (\<lambda>t. table_script project db (lt_name t, lt_cols t)) ts' = map (table_script project db) (map (\<lambda>t. (lt_name t, lt_cols t)) ts)"
    using p(3) by (induction rule: list_all2_induct) (simp_all add: filed_def)
  let ?body = "concat (map (table_script project db) (map (\<lambda>t. (lt_name t, lt_cols t)) ts))"
  have "puts_text (\<lambda>b p. do { (b, p) \<leftarrow> PUT_STRING_WIDTH LOADER_HEADER_1 2 b p; (b, p) \<leftarrow> put_path (fh_path loader) b p;
      (b, p) \<leftarrow> PUT_STRING_WIDTH LOADER_HEADER_2 26 b p; (b, p) \<leftarrow> put_name db b p; (b, p) \<leftarrow> put_name LOADER_HEADER_3 b p;
      (b, p) \<leftarrow> put b p; (b, p) \<leftarrow> PUT_STRING_WIDTH LOADER_HEADER_4 18 b p; (b, p) \<leftarrow> put_name db b p;
      (b, p) \<leftarrow> PUT_STRING_WIDTH LOADER_HEADER_5 7 b p; (b, p) \<leftarrow> put_name db b p;
      (b, p) \<leftarrow> PUT_STRING_WIDTH LOADER_HEADER_6 1 b p; loader_put_body project ts' b p })
    (LOADER_HEADER_1 @ script_text db @ LOADER_HEADER_2 @ db @ LOADER_HEADER_3 @ paths_text db (map lt_name ts) @
      LOADER_HEADER_4 @ db @ LOADER_HEADER_5 @ db @ LOADER_HEADER_6 @ ?body)"
    using puts_text_body [OF b, of project] p(2)
    by (intro puts_text_bind puts_text_PUT_STRING_WIDTH puts_text_put_name holds_text_put assms(2)) (simp_all add: loader_texts m)
  moreover have "(do { (b, p, ts) \<leftarrow> loader_put_header db dirpath loader ts b p; if ts = [] then None else loader_put_body project ts b p }) =
    (do { (b, p) \<leftarrow> PUT_STRING_WIDTH LOADER_HEADER_1 2 b p; (b, p) \<leftarrow> put_path (fh_path loader) b p;
      (b, p) \<leftarrow> PUT_STRING_WIDTH LOADER_HEADER_2 26 b p; (b, p) \<leftarrow> put_name db b p; (b, p) \<leftarrow> put_name LOADER_HEADER_3 b p;
      (b, p) \<leftarrow> put b p; (b, p) \<leftarrow> PUT_STRING_WIDTH LOADER_HEADER_4 18 b p; (b, p) \<leftarrow> put_name db b p;
      (b, p) \<leftarrow> PUT_STRING_WIDTH LOADER_HEADER_5 7 b p; (b, p) \<leftarrow> put_name db b p;
      (b, p) \<leftarrow> PUT_STRING_WIDTH LOADER_HEADER_6 1 b p; loader_put_body project ts' b p })" for b p
    using n by (simp add: loader_put_header_def p(1) split_def)
  ultimately show ?thesis by (simp add: loader_script_def comp_def)
qed

definition column_total :: "(string \<times> ColSpec list) list \<Rightarrow> nat" where
  "column_total ts = sum_list (map (\<lambda>t. length (snd t)) ts)"

lemma build_loader_eq:
  assumes "length dir_buffer = DIRPATH_SIZE_MAX" "fresh_file loader" "length db \<le> DB_NAME_NN_SIZE_MAX" "NUL \<notin> set db"
    and "ts \<noteq> []" "\<forall>t \<in> set ts. table_nameable t \<and> columns_declared (lt_cols t)"
    and "tabs = map (\<lambda>t. (lt_name t, lt_cols t)) ts" "\<forall>n. \<exists>b. malloc n = Some b \<and> length b = n"
    and "mkdir (dir_text db)"
  shows "build_loader project mkdir malloc process dir_buffer loader db ts =
    (if length (loader_script project db tabs) \<le> loader_estimate_size project (length tabs) (column_total tabs)
     then Some (if process (script_text db) (loader_script project db tabs) then Inr (script_text db, loader_script project db tabs)
                else Inl LOADER_FILE_FAILURE)
     else None)"
proof -
  obtain dirpath where d: "database_dirpath_init dir_buffer db = Some dirpath" "holds_text dirpath (dir_text db)"
    using database_dirpath_init_text [OF assms(1,3)] by blast
  obtain file' where f: "loader_file_init loader db dirpath = Some file'" "holds_text (fh_path file') (script_text db)"
    using loader_file_init_text [OF d(2) assms(2,3)] by blast
  have n: "NUL \<notin> set (dir_text db)" "NUL \<notin> set (script_text db)" using assms(4) by (simp_all add: dir_text_def script_text_def)
  note c = holds_text_c_string [OF d(2) n(1)] holds_text_c_string [OF f(2) n(2)]
  let ?est = "loader_estimate_size project (length tabs) (column_total tabs)"
  have e: "loader_estimate_size project (length ts) (sum_list (map (\<lambda>t. length (lt_cols t)) ts)) = ?est"
    by (simp add: assms(7) column_total_def comp_def)
  obtain contents where m: "malloc ?est = Some contents" "length contents = ?est" using assms(8) by blast
  let ?put = "\<lambda>b p. do { (b, p, ts) \<leftarrow> loader_put_header db dirpath file' ts b p; if ts = [] then None else loader_put_body project ts b p }"
  have "?put contents 0 = (if length (loader_script project db tabs) \<le> ?est
      then Some (loader_script project db tabs @ drop (length (loader_script project db tabs)) contents, length (loader_script project db tabs)) else None)"
    using puts_textD [OF loader_put_script [OF d(2) f(2) assms(3,5,6), of project], of 0 contents] m(2) assms(7) by simp
  moreover have "build_loader project mkdir malloc process dir_buffer loader db ts =
    (do { (b, ptr) \<leftarrow> ?put contents 0;
          if process (script_text db) (take ptr b) then Some (Inr (script_text db, take ptr b)) else Some (Inl LOADER_FILE_FAILURE) })"
    using d(1) f(1) m(1) c assms(9) by (simp add: build_loader_def e Let_def split_def cong: if_cong)
  ultimately show ?thesis by simp
qed

end
