(* ===== verification/Command_Loader.thy ===== *)
theory Command_Loader
  imports Command_Line Loader
begin

text \<open>
  From the arguments to the script of a database: the parser, the walk over the specifications and
  \<open>build_loader\<close>. Every description of databases gives the script that declares its columns with the
  types the parser chose, if the guessed block has room for it. A family of command lines shows that it
  has none when a table has many long names.
\<close>

section \<open>The tables of a database\<close>

text \<open>\<open>table->spec\<close> of the tables of a database, with the structures of their files.\<close>

definition loader_table_of :: "file_handle \<Rightarrow> TblSpec \<times> ColSpec list \<Rightarrow> loader_table option" where
  "loader_table_of file t = do { name \<leftarrow> tbl_name (fst t); Some \<lparr>lt_name = name, lt_cols = snd t, lt_file = file\<rparr> }"

definition loader_task ::
  "string \<Rightarrow> (string \<Rightarrow> bool) \<Rightarrow> (nat \<Rightarrow> bytes option) \<Rightarrow> (string \<Rightarrow> string \<Rightarrow> bool) \<Rightarrow> bytes \<Rightarrow> file_handle \<Rightarrow>
    DbSpec \<times> (TblSpec \<times> ColSpec list) list \<Rightarrow> (loader_failure + string \<times> string) option" where
  "loader_task project mkdir malloc process dir_buffer file db =
     do { name \<leftarrow> db_name (fst db);
          ts \<leftarrow> those (map (loader_table_of file) (snd db));
          build_loader project mkdir malloc process dir_buffer file name ts }"

section \<open>The bounds of names and types\<close>

definition typed :: "put_label \<Rightarrow> bool" where
  "typed l \<longleftrightarrow> pl_width l \<le> length (pl_buffer l) \<and> pl_width l \<le> CHAR_BUFFER_WIDTH_MAX"

lemma typed_integers: "typed (type_assign_integer_upto n)" "typed (type_assign_u_integer_upto n)"
  by (auto simp: typed_def type_assign_integer_upto_def type_assign_u_integer_upto_def type_set_tinyint_def type_set_smallint_def
      type_set_mediumint_def type_set_int_def type_set_tinyint_unsigned_def type_set_smallint_unsigned_def
      type_set_mediumint_unsigned_def type_set_int_unsigned_def CHAR_BUFFER_WIDTH_MAX_def)

lemma typed_fixed: "typed UUID_TYPE" "typed type_set_timestamp" "typed type_set_datetime"
  by (simp_all add: typed_def UUID_TYPE_def type_set_timestamp_def type_set_datetime_def CHAR_BUFFER_WIDTH_MAX_def)

lemma length_decimal_less: "n < 10 ^ Suc k \<Longrightarrow> length (decimal n) \<le> Suc k"
proof (rule ccontr)
  assume n: "n < 10 ^ Suc k" "\<not> length (decimal n) \<le> Suc k"
  then have "n \<noteq> 0" by (intro notI) (simp add: decimal_small)
  then have "10 ^ (length (decimal n) - 1) \<le> n" by (rule length_decimal_lower)
  moreover have "(10 :: nat) ^ Suc k \<le> 10 ^ (length (decimal n) - 1)" using n(2) by (intro power_increasing) auto
  ultimately show False using n(1) by linarith
qed

lemma typed_varchar: "n < 10 ^ 8 \<Longrightarrow> typed (varchar n)"
  using length_decimal_less [of n 7] by (simp add: typed_def varchar_def label_def CHAR_BUFFER_WIDTH_MAX_def)

lemma declared_column:
  assumes "column_valid rows c" "rows \<le> UPTO_MAX"
  shows "declared (column_spec rows c)"
proof -
  obtain name kind g where c: "c = (name, kind, g)" by (cases c)
  let ?n = "grouping_count rows g"
  have n: "?n \<le> UPTO_MAX" using assms by (cases g) (auto simp: c)
  then have d: "length (decimal ?n) \<le> 8" by (intro length_decimal_less [of _ 7, simplified]) (simp add: UPTO_MAX_def)
  have "length name \<le> 252" using assms(1) parse_name_length [of COL_NAME_LENGTH_MAX Column name] by (simp add: c COL_NAME_LENGTH_MAX_def)
  moreover have "length base \<le> 988" if "kind = Numbered_Strings base" for base
    using assms(1) string_loop_length [of BASE_STRING_LENGTH_MAX base] that by (simp add: c BASE_STRING_LENGTH_MAX_def)
  ultimately have "typed (kind_type name ?n kind)"
    using d by (cases kind) (auto intro!: typed_integers typed_fixed typed_varchar)
  then show ?thesis by (simp add: declared_def c typed_def)
qed

section \<open>The scripts\<close>

definition table_columns :: "table_desc \<Rightarrow> string \<times> ColSpec list" where
  "table_columns = (\<lambda>(name, rows, cs). (name, map (column_spec rows) cs))"

definition described_script :: "string \<Rightarrow> database_desc \<Rightarrow> string" where
  "described_script project d = loader_script project (fst d) (map table_columns (snd d))"

definition script_fits :: "string \<Rightarrow> database_desc \<Rightarrow> bool" where
  "script_fits project d \<longleftrightarrow> length (described_script project d) \<le>
     loader_estimate_size project (length (snd d)) (column_total (map table_columns (snd d)))"

lemma those_loader_tables:
  assumes "list_all2 table_read ts specs"
  shows "those (map (loader_table_of file) specs) =
    Some (map (\<lambda>t. \<lparr>lt_name = fst (table_columns t), lt_cols = snd (table_columns t), lt_file = file\<rparr>) ts)"
  using assms
  by (induction rule: list_all2_induct) (auto simp: loader_table_of_def table_read_def table_columns_def split_def)

lemma loader_task_script:
  assumes "database_read d db" "database_valid d" "NUL \<notin> set (fst d)"
    and "length dir_buffer = DIRPATH_SIZE_MAX" "fresh_file file" "\<forall>n. \<exists>b. malloc n = Some b \<and> length b = n" "mkdir (dir_text (fst d))"
  shows "loader_task project mkdir malloc process dir_buffer file db =
    (if script_fits project d
     then Some (if process (script_text (fst d)) (described_script project d) then Inr (script_text (fst d), described_script project d)
                else Inl LOADER_FILE_FAILURE)
     else None)"
proof -
  obtain name ts where d: "d = (name, ts)" by (cases d)
  have r: "db_name (fst db) = Some name" "list_all2 table_read ts (snd db)" using assms(1) by (auto simp: database_read_def d split_def)
  let ?ts = "map (\<lambda>t. \<lparr>lt_name = fst (table_columns t), lt_cols = snd (table_columns t), lt_file = file\<rparr>) ts"
  have n: "length name \<le> DB_NAME_NN_SIZE_MAX" "ts \<noteq> []"
    using assms(2) parse_name_length [of DB_NAME_LENGTH_MAX Database name] by (simp_all add: d DB_NAME_LENGTH_MAX_def DB_NAME_NN_SIZE_MAX_def)
  have t: "table_nameable t' \<and> columns_declared (lt_cols t')" if mem: "t' \<in> set ?ts" for t'
  proof -
    obtain tname rows cs where t': "(tname, rows, cs) \<in> set ts" "t' = \<lparr>lt_name = tname, lt_cols = map (column_spec rows) cs, lt_file = file\<rparr>"
      using mem by (auto simp: table_columns_def)
    from assms(2) have "list_all table_valid ts" by (simp add: d)
    with t'(1) have v: "table_valid (tname, rows, cs)" by (simp add: list_all_iff del: table_valid.simps)
    then have "length tname \<le> TBL_NAME_NN_SIZE_MAX"
      using parse_name_length [of TBL_NAME_LENGTH_MAX Table_Name tname] by (simp add: TBL_NAME_LENGTH_MAX_def TBL_NAME_NN_SIZE_MAX_def)
    moreover have "declared (column_spec rows c)" if "c \<in> set cs" for c
      using v that by (auto simp: list_all_iff simp del: column_valid.simps intro!: declared_column)
    ultimately show ?thesis
      using v assms(5) t'(2) by (cases cs) (auto simp: table_nameable_def columns_declared_def)
  qed
  have "build_loader project mkdir malloc process dir_buffer file name ?ts =
    (if length (loader_script project name (map table_columns ts)) \<le> loader_estimate_size project (length (map table_columns ts)) (column_total (map table_columns ts))
     then Some (if process (script_text name) (loader_script project name (map table_columns ts))
                then Inr (script_text name, loader_script project name (map table_columns ts)) else Inl LOADER_FILE_FAILURE)
     else None)"
    using t n assms(3-7) by (intro build_loader_eq) (auto simp: d)
  then show ?thesis using r those_loader_tables [OF r(2)] by (simp add: loader_task_def script_fits_def described_script_def d)
qed

text \<open>
  C2: From the arguments to the scripts. The arguments that describe databases are parsed without an
  error, the walk finds the databases, and the loader of each of them writes the script that creates it,
  declares the columns of its tables with the types of the description and loads their files, if
  the script fits into the block of the guessed size; otherwise it writes past its end.
\<close>

theorem command_line_scripts:
  assumes "ds \<noteq> []" and "list_all database_valid ds" and "\<forall>d \<in> set ds. NUL \<notin> set (fst d)"
    and "length dir_buffer = DIRPATH_SIZE_MAX" and "fresh_file file" and "\<forall>n. \<exists>b. malloc n = Some b \<and> length b = n"
    and "\<forall>d \<in> set ds. mkdir (dir_text (fst d)) \<and> process (script_text (fst d)) (described_script project d)"
  shows "\<exists>s db dbs. generate_dispatch True (command_line ds) = Some (Generate s) \<and> \<not> ps_failed s \<and>
    ps_head s = Some (Some db) \<and> spec_databases (ps_mem s) db = Some dbs \<and>
    list_all2 (\<lambda>d db. loader_task project mkdir malloc process dir_buffer file db =
      (if script_fits project d then Some (Inr (script_text (fst d), described_script project d)) else None)) ds dbs"
proof -
  obtain s where s: "generate_dispatch True (command_line ds) = Some (Generate s)" "\<not> ps_failed s" "ps_head s = Some (Some 0)"
    "mem_at (ps_mem s) = map_of (lay_databases 0 ds)"
    using generate_dispatch_command_line [OF assms(1,2)] by blast
  obtain dbs where dbs: "spec_databases (ps_mem s) 0 = Some dbs" "list_all2 database_read ds dbs"
    using spec_databases_read [of 0 ds "ps_mem s"] assms(1,2) s(4) by auto
  have "list_all2 (\<lambda>d db. loader_task project mkdir malloc process dir_buffer file db =
      (if script_fits project d then Some (Inr (script_text (fst d), described_script project d)) else None)) ds dbs"
    using dbs(2)
  proof (rule list.rel_mono_strong)
    fix d db
    assume d: "d \<in> set ds" "database_read d db"
    then show "loader_task project mkdir malloc process dir_buffer file db =
        (if script_fits project d then Some (Inr (script_text (fst d), described_script project d)) else None)"
      using loader_task_script [OF d(2), of dir_buffer "file" malloc mkdir project process] assms(2-7) by (simp add: list_all_iff)
  qed
  then show ?thesis using s dbs(1) by blast
qed

section \<open>Scripts that fit and scripts that do not\<close>

definition short_column :: "ColSpec \<Rightarrow> bool" where
  "short_column c \<longleftrightarrow> length (column_decl c) \<le> 96"

lemma fields_decl_length: "\<forall>c \<in> set cs. short_column c \<Longrightarrow> length (fields_decl cs) \<le> 99 * length cs"
  by (induction cs) (auto simp: fields_decl_def short_column_def LOADER_CREATE_TABLE_FIELD_DELIM_def)

lemma table_room:
  assumes "length db \<le> 63" "length name \<le> 63" "cs \<noteq> []" "length cs \<le> 13" "\<forall>c \<in> set cs. short_column c"
  shows "length (table_script project db (name, cs)) + length (csv_text db name) + 6 \<le>
    TABLE_FILEPATH_SIZE_MAX * 2 + LOADER_CREATE_TABLE_BASE_SIZE + LOADER_LOAD_TABLE_BASE_SIZE project + TBL_NAME_NN_SIZE_MAX +
      (length cs - 1) * (CHAR_BUFFER_WIDTH_MAX + 3)"
proof -
  obtain c cs' where c: "cs = c # cs'" using assms(3) by (cases cs) auto
  have "length (column_decl c) \<le> 96" "length (fields_decl cs') \<le> 99 * length cs'" "length cs' \<le> 12"
    using assms(4,5) fields_decl_length [of cs'] by (simp_all add: c short_column_def)
  then show ?thesis
    using assms(1,2) by (simp add: c table_script_def csv_text_def dir_text_def path_sizes CHAR_BUFFER_WIDTH_MAX_def
      LOADER_CREATE_TABLE_BASE_SIZE_def LOADER_LOAD_TABLE_BASE_SIZE_def)
qed

lemma paths_text_length: "length (paths_text db names) \<le> sum_list (map (\<lambda>name. length (csv_text db name) + 6) names)"
  by (induction names) (simp_all add: LOADER_TABLE_LI_def)

lemma tables_room:
  assumes "length db \<le> 63" "\<forall>(name, cs) \<in> set tabs. length name \<le> 63 \<and> cs \<noteq> [] \<and> length cs \<le> 13 \<and> (\<forall>c \<in> set cs. short_column c)"
  shows "length (concat (map (table_script project db) tabs)) + sum_list (map (\<lambda>t. length (csv_text db (fst t)) + 6) tabs) \<le>
    length tabs * (TABLE_FILEPATH_SIZE_MAX * 2 + LOADER_CREATE_TABLE_BASE_SIZE + LOADER_LOAD_TABLE_BASE_SIZE project + TBL_NAME_NN_SIZE_MAX) +
      (column_total tabs - length tabs) * (CHAR_BUFFER_WIDTH_MAX + 3) \<and> length tabs \<le> column_total tabs"
  using assms(2)
proof (induction tabs)
  case (Cons t tabs)
  obtain name cs where t: "t = (name, cs)" by (cases t)
  have l: "1 \<le> length cs" using Cons.prems by (cases cs) (auto simp: t)
  have i: "length tabs \<le> column_total tabs" using Cons by simp
  let ?A = "TABLE_FILEPATH_SIZE_MAX * 2 + LOADER_CREATE_TABLE_BASE_SIZE + LOADER_LOAD_TABLE_BASE_SIZE project + TBL_NAME_NN_SIZE_MAX"
  let ?B = "CHAR_BUFFER_WIDTH_MAX + 3" and ?x = "column_total tabs - length tabs"
  have x: "column_total (t # tabs) - length (t # tabs) = (length cs - 1) + ?x" using l i by (simp add: column_total_def t)
  have "length (table_script project db (name, cs)) + length (csv_text db name) + 6 \<le>
    TABLE_FILEPATH_SIZE_MAX * 2 + LOADER_CREATE_TABLE_BASE_SIZE + LOADER_LOAD_TABLE_BASE_SIZE project + TBL_NAME_NN_SIZE_MAX +
      (length cs - 1) * (CHAR_BUFFER_WIDTH_MAX + 3)"
    using assms(1) Cons.prems by (intro table_room) (auto simp: t)
  moreover have "length (concat (map (table_script project db) tabs)) + sum_list (map (\<lambda>t. length (csv_text db (fst t)) + 6) tabs) \<le>
      length tabs * ?A + ?x * ?B"
    using Cons by simp
  ultimately have "length (concat (map (table_script project db) (t # tabs))) + sum_list (map (\<lambda>t. length (csv_text db (fst t)) + 6) (t # tabs)) \<le>
      (?A + (length cs - 1) * ?B) + (length tabs * ?A + ?x * ?B)"
    unfolding t list.map concat.simps sum_list.Cons length_append fst_conv by linarith
  also have "\<dots> = length (t # tabs) * ?A + ((length cs - 1) + ?x) * ?B" by (simp only: list.size add_mult_distrib) simp
  finally show ?case unfolding x using l i by (simp add: column_total_def t)
qed (simp add: column_total_def)

lemma loader_room:
  assumes "length db \<le> 63" "\<forall>(name, cs) \<in> set tabs. length name \<le> 63 \<and> cs \<noteq> [] \<and> length cs \<le> 13 \<and> (\<forall>c \<in> set cs. short_column c)"
  shows "length (loader_script project db tabs) \<le> loader_estimate_size project (length tabs) (column_total tabs)"
  using tables_room [OF assms, of project] paths_text_length [of db "map fst tabs"] assms(1)
  by (simp add: loader_script_def loader_estimate_size_def LOADER_HEADER_BASE_SIZE_MAX_def script_text_def dir_text_def path_sizes
      CHAR_BUFFER_WIDTH_MAX_def comp_def)

text \<open>Names of at most 63 bytes, and at most 13 columns per table.\<close>

definition short_names :: "database_desc \<Rightarrow> bool" where
  "short_names d \<longleftrightarrow> length (fst d) \<le> 63 \<and> (\<forall>(name, rows, cs) \<in> set (snd d). length name \<le> 63 \<and> length cs \<le> 13 \<and>
     (\<forall>(cname, kind, g) \<in> set cs. length cname \<le> 63))"

lemma short_column_spec:
  assumes "column_valid rows (name, kind, g)" "rows \<le> UPTO_MAX" "length name \<le> 63"
  shows "short_column (column_spec rows (name, kind, g))"
  using declared_column [OF assms(1,2)] assms(3)
  by (auto simp: short_column_def column_decl_def declared_def put_label_text_def CHAR_BUFFER_WIDTH_MAX_def)

lemma short_names_fit:
  assumes "database_valid d" "short_names d"
  shows "script_fits project d"
proof -
  have "length name \<le> 63 \<and> cs \<noteq> [] \<and> length cs \<le> 13 \<and> (\<forall>c \<in> set cs. short_column c)"
    if mem: "(name, cs) \<in> set (map table_columns (snd d))" for name cs
  proof -
    obtain rows cds where t: "(name, rows, cds) \<in> set (snd d)" "cs = map (column_spec rows) cds"
      using mem by (auto simp: table_columns_def)
    from assms(1) have "list_all table_valid (snd d)" by (cases d) simp
    with t(1) have v: "table_valid (name, rows, cds)" by (simp add: list_all_iff del: table_valid.simps)
    have n: "length name \<le> 63" "length cds \<le> 13" "\<forall>(cname, kind, g) \<in> set cds. length cname \<le> 63"
      using assms(2) t(1) by (auto simp: short_names_def)
    have "short_column (column_spec rows c)" if "c \<in> set cds" for c
    proof -
      obtain cname kind g where c: "c = (cname, kind, g)" by (cases c)
      show ?thesis
        using v n(3) that unfolding c by (intro short_column_spec) (auto simp: list_all_iff simp del: column_valid.simps)
    qed
    then show ?thesis using n v t(2) by auto
  qed
  then have "\<forall>(name, cs) \<in> set (map table_columns (snd d)).
      length name \<le> 63 \<and> cs \<noteq> [] \<and> length cs \<le> 13 \<and> (\<forall>c \<in> set cs. short_column c)" by blast
  from loader_room [OF _ this, of "fst d" project] assms(2)
  show ?thesis by (simp add: script_fits_def described_script_def short_names_def)
qed

text \<open>One table of one row and \<open>k\<close> columns, each with a name of 63 letters.\<close>

definition long_name :: string where
  "long_name = replicate 63 CHR ''a''"

definition long_names :: "nat \<Rightarrow> database_desc" where
  "long_names k = (''d'', [(''t'', 1, replicate k (long_name, Numbers, Rows))])"

lemma name_loop_letters: "0 < n \<Longrightarrow> n \<le> m \<Longrightarrow> name_loop m (replicate n CHR ''a'') = Text_Ok"
proof (induction m arbitrary: n)
  case (Suc m)
  then obtain n' where n: "n = Suc n'" by (cases n) auto
  have "utf8_width (replicate n CHR ''a'') = 1" by (simp add: n utf8_width_def utf8_head_width_def octet_def)
  then show ?case using Suc.IH [of n'] Suc.prems n by (cases "n' = 0") (auto simp: Let_def)
qed simp

lemma long_name_parsed: "parse_name COL_NAME_LENGTH_MAX Column long_name = None" "length long_name = 63"
  using name_loop_letters [of 63 63] by (simp_all add: parse_name_def COL_NAME_LENGTH_MAX_def long_name_def)

lemma long_names_valid: "0 < k \<Longrightarrow> database_valid (long_names k)"
  using long_name_parsed(1) by (simp add: long_names_def list_all_iff parse_name_def [of _ Database] parse_name_def [of _ Table_Name]
      name_loop_numeral utf8_width_def utf8_head_width_def octet_def DB_NAME_LENGTH_MAX_def TBL_NAME_LENGTH_MAX_def UPTO_MAX_def)

lemma long_field: "length (column_decl (column_spec 1 (long_name, Numbers, Rows))) = 71"
  by (simp add: column_decl_def put_label_text_def type_assign_integer_upto_def type_set_tinyint_def long_name_parsed(2))

lemma long_fields: "length (fields_decl (replicate k (column_spec 1 (long_name, Numbers, Rows)))) = 74 * k"
proof -
  have "fields_decl (replicate k c) = concat (replicate k (LOADER_CREATE_TABLE_FIELD_DELIM @ column_decl c))"
    if "col_bytes c \<noteq> Name_NULL" for c
    using that by (simp add: fields_decl_def filter_replicate map_replicate_const)
  then show ?thesis
    using long_field by (simp add: length_concat sum_list_replicate LOADER_CREATE_TABLE_FIELD_DELIM_def)
qed

lemma long_names_do_not_fit:
  assumes "58 \<le> k"
  shows "\<not> script_fits project (long_names k)"
proof -
  obtain k' where k: "k = Suc k'" "57 \<le> k'" using assms by (cases k) auto
  show ?thesis
    using long_fields [of k'] long_field k(2)
    by (simp add: k(1) long_names_def script_fits_def described_script_def loader_script_def table_columns_def column_total_def
      loader_estimate_size_def table_script_def LOADER_HEADER_BASE_SIZE_MAX_def LOADER_CREATE_TABLE_BASE_SIZE_def
      LOADER_LOAD_TABLE_BASE_SIZE_def script_text_def csv_text_def dir_text_def path_sizes CHAR_BUFFER_WIDTH_MAX_def loader_texts
      map_replicate_const del: column_spec.simps)
qed

definition example_file :: file_handle where
  "example_file = \<lparr>fh_name = \<lparr>sz_buffer = replicate FILE_HANDLE_NAME_SIZE_MAX NUL, sz_length = 0\<rparr>,
     fh_path = \<lparr>sz_buffer = replicate FILE_HANDLE_PATH_SIZE_MAX NUL, sz_length = 0\<rparr>\<rparr>"

lemma example_file_fresh: "fresh_file example_file"
  by (simp add: fresh_file_def example_file_def)

theorem command_line_scripts_witness:
  "\<exists>s db dbs. generate_dispatch True (command_line counted_example) = Some (Generate s) \<and> \<not> ps_failed s \<and>
    ps_head s = Some (Some db) \<and> spec_databases (ps_mem s) db = Some dbs \<and>
    list_all2 (\<lambda>d db. loader_task ''/home'' (\<lambda>_. True) (\<lambda>n. Some (replicate n NUL)) (\<lambda>_ _. True) (replicate DIRPATH_SIZE_MAX NUL)
        example_file db =
      (if script_fits ''/home'' d then Some (Inr (script_text (fst d), described_script ''/home'' d)) else None)) counted_example dbs \<and>
    list_all (script_fits ''/home'') counted_example"
proof -
  have n: "\<forall>d \<in> set counted_example. NUL \<notin> set (fst d)" by (simp add: counted_example_def)
  have "short_names d \<and> database_valid d" if "d \<in> set counted_example" for d
    using that counted_example_valid(2) by (auto simp: list_all_iff counted_example_def short_names_def)
  then have "list_all (script_fits ''/home'') counted_example" using short_names_fit by (fastforce simp: list_all_iff)
  moreover note command_line_scripts [OF counted_example_valid(1,2) n _ example_file_fresh,
      of "replicate DIRPATH_SIZE_MAX NUL" "\<lambda>n. Some (replicate n NUL)" "\<lambda>_. True" "\<lambda>_ _. True" "''/home''"]
  ultimately show ?thesis by simp
qed

text \<open>
  C36: The guess leaves room for the script of every database whose names have at most 63 bytes and
  whose tables have at most 13 columns. But the names of columns are no part of it: the arguments for a
  table of 58 or more columns with names of 63 letters are accepted, and the loader of their database
  writes past the end of its block.
\<close>

theorem loader_overflows:
  assumes "58 \<le> k" and "length dir_buffer = DIRPATH_SIZE_MAX" and "fresh_file file"
    and "\<forall>n. \<exists>b. malloc n = Some b \<and> length b = n" and "mkdir (dir_text ''d'')"
  shows "(\<forall>d. database_valid d \<and> short_names d \<longrightarrow> script_fits project d) \<and>
    (\<exists>s db spec. generate_dispatch True (command_line [long_names k]) = Some (Generate s) \<and> \<not> ps_failed s \<and>
       ps_head s = Some (Some db) \<and> spec_databases (ps_mem s) db = Some [spec] \<and>
       loader_task project mkdir malloc process dir_buffer file spec = None)"
proof -
  have v: "list_all database_valid [long_names k]" using long_names_valid assms(1) by simp
  obtain s where s: "generate_dispatch True (command_line [long_names k]) = Some (Generate s)" "\<not> ps_failed s" "ps_head s = Some (Some 0)"
    "mem_at (ps_mem s) = map_of (lay_databases 0 [long_names k])"
    using generate_dispatch_command_line [OF _ v] by auto
  obtain spec where d: "spec_databases (ps_mem s) 0 = Some [spec]" "database_read (long_names k) spec"
    using spec_databases_read [of 0 "[long_names k]" "ps_mem s"] v s(4) by (auto simp: list_all2_Cons1)
  have "loader_task project mkdir malloc process dir_buffer file spec = None"
    using loader_task_script [OF d(2), of dir_buffer "file" malloc mkdir project process] v assms(2-5) long_names_do_not_fit [OF assms(1)]
    by (simp add: long_names_def)
  then show ?thesis using s d(1) short_names_fit by blast
qed

theorem loader_overflows_witness:
  "script_fits ''/home'' (hd counted_example) \<and>
   (\<exists>s db spec. generate_dispatch True (command_line [long_names 58]) = Some (Generate s) \<and> \<not> ps_failed s \<and>
      ps_head s = Some (Some db) \<and> spec_databases (ps_mem s) db = Some [spec] \<and>
      loader_task ''/home'' (\<lambda>_. True) (\<lambda>n. Some (replicate n NUL)) (\<lambda>_ _. True) (replicate DIRPATH_SIZE_MAX NUL) example_file spec = None)"
proof -
  have "database_valid (hd counted_example)" "short_names (hd counted_example)"
    using counted_example_valid(1,2) by (simp_all add: counted_example_def short_names_def)
  moreover note loader_overflows [of 58 "replicate DIRPATH_SIZE_MAX NUL", OF _ _ example_file_fresh,
      of "\<lambda>n. Some (replicate n NUL)" "\<lambda>_. True" "''/home''" "\<lambda>_ _. True"]
  ultimately show ?thesis by (simp del: split_paired_All)
qed

end
