(* ===== verification/Execute.thy ===== *)
theory Execute
  imports Command_Loader Thread_Pool
begin

text \<open>
  Execute mode, \<open>src/mysql_seed_execute.h\<close> and \<open>src/execute/\<close>: the credentials and the names of
  databases on the command line, the script of each database as \<open>build_loader\<close> left it, and the MySQL
  server that runs the scripts, one after the other from the main thread for one database, from the
  workers of a thread pool under a lock for several. The server, the files and the terminal are
  parameters; the texts of the failures are left out, their places are not.
\<close>

section \<open>Definitions\<close>

subsection \<open>The server\<close>

text \<open>
  What the program calls of the MySQL library: \<open>mysql_init\<close>, \<open>mysql_real_connect\<close> with a user and a
  password that may be \<open>NULL\<close>, \<open>mysql_real_query\<close>, which returns 0 on success, \<open>mysql_store_result\<close>
  with \<open>mysql_errno\<close>, which is 0 on success, and \<open>mysql_next_result\<close>. The state of the server is theirs.
\<close>

record 'srv mysql_api =
  my_init :: bool
  my_connect :: "string option \<Rightarrow> string option \<Rightarrow> 'srv option"
  my_query :: "string \<Rightarrow> 'srv \<Rightarrow> bool \<times> 'srv"
  my_store :: "'srv \<Rightarrow> bool \<times> 'srv"
  my_next :: "'srv \<Rightarrow> int \<times> 'srv"

partial_function (option) mysql_flush_results :: "'srv mysql_api \<Rightarrow> 'srv \<Rightarrow> (bool \<times> 'srv) option" where
  "mysql_flush_results api srv =
     (case my_store api srv of (ok, srv) \<Rightarrow>
        if \<not> ok then Some (False, srv)
        else case my_next api srv of (status, srv) \<Rightarrow>
          if status \<noteq> 0 then Some (status < 0, srv) else mysql_flush_results api srv)"

declare mysql_flush_results.simps [code]

subsection \<open>The script of a database\<close>

text \<open>The calls of the operating system on a file: each has a value or fails.\<close>

record 'fd file_api =
  os_open :: "string \<Rightarrow> 'fd option"
  os_fstat :: "'fd \<Rightarrow> nat option"
  os_read :: "'fd \<Rightarrow> nat \<Rightarrow> string option"
  os_close :: "'fd \<Rightarrow> bool"

definition PATH_MAX :: nat where "PATH_MAX = 4096"

text \<open>\<open>DB_ROOT_ABSPATH_PFX\<close>; the path of the project comes from the makefile.\<close>

definition DB_ROOT_ABSPATH_PFX :: "string \<Rightarrow> string" where
  "DB_ROOT_ABSPATH_PFX project = project @ ''/'' @ ''database'' @ ''/''"

definition query_path_set :: "string \<Rightarrow> bytes \<Rightarrow> string \<Rightarrow> bytes option" where
  "query_path_set project b name =
     do { (b, ptr) \<leftarrow> put_string_size (DB_ROOT_ABSPATH_PFX project) 0 (length (DB_ROOT_ABSPATH_PFX project)) b 0;
          (b, ptr) \<leftarrow> put_string_size name 0 (length name) b ptr;
          (b, ptr) \<leftarrow> PUT_STRING_WIDTH ''/load_'' 6 b ptr;
          (b, ptr) \<leftarrow> put_string_size name 0 (length name) b ptr;
          SET_STRING_WIDTH b ptr ''.mysql'' 7 }"

text \<open>\<open>query_load_report\<close>: the script of the database, unless a call fails.\<close>

definition query_load_report ::
  "string \<Rightarrow> bytes \<Rightarrow> (nat \<Rightarrow> bool) \<Rightarrow> 'fd file_api \<Rightarrow> string \<Rightarrow> string option option" where
  "query_load_report project path_buffer malloc os name =
     do { path \<leftarrow> query_path_set project path_buffer name;
          Some (do { fd \<leftarrow> os_open os (c_string path);
                     size \<leftarrow> os_fstat os fd;
                     script \<leftarrow> (if malloc size then os_read os fd size else None);
                     if os_close os fd then Some script else None }) }"

subsection \<open>Credentials\<close>

record credentials =
  cr_user :: "string option"
  cr_password :: "string option"

definition default_credentials :: credentials where
  "default_credentials = \<lparr>cr_user = None, cr_password = None\<rparr>"

datatype execute_stop = Execute_No_Db_Names | Execute_No_User_Or_Db_Names | Password_Failure

text \<open>
  The arguments from \<open>from\<close> to \<open>until\<close> are a list. What the user types at the prompt for the password
  is a parameter, with no value when it cannot be read.
\<close>

definition parse_complete :: "'a \<Rightarrow> string list \<Rightarrow> execute_stop + 'a \<times> string list" where
  "parse_complete value from = (if from = [] then Inl Execute_No_Db_Names else Inr (value, from))"

definition parse_next_user :: "string list \<Rightarrow> execute_stop + string \<times> string list" where
  "parse_next_user from = (case from of [] \<Rightarrow> Inl Execute_No_User_Or_Db_Names | user # from \<Rightarrow> Inr (user, from))"

definition execute_parse_user :: "string list \<Rightarrow> execute_stop + string option \<times> string list" where
  "execute_parse_user from =
     (case tl from of
        [] \<Rightarrow> Inl Execute_No_Db_Names
      | flag # args \<Rightarrow>
          let arg = tl flag; arg_rem = tl arg; dflt = Inr (None, flag # args);
              next_user = (case parse_next_user args of
                             Inl e \<Rightarrow> Inl e
                           | Inr (user, args) \<Rightarrow> parse_complete (Some user) args)
          in if deref flag \<noteq> CHR ''-'' then dflt
             else if deref arg = CHR ''-'' then
               (case string_starts_with arg_rem ''user'' of
                  None \<Rightarrow> dflt
                | Some arg \<Rightarrow>
                    if arg = [] then next_user
                    else if deref arg = CHR ''='' then parse_complete (Some (tl arg)) args
                    else dflt)
             else if deref arg = CHR ''u'' then
               (if arg_rem = [] then next_user else parse_complete (Some arg_rem) args)
             else dflt)"

definition execute_parse_pwd :: "string option \<Rightarrow> string list \<Rightarrow> execute_stop + string option \<times> string list" where
  "execute_parse_pwd read_password from =
     (case tl from of
        [] \<Rightarrow> Inl Execute_No_Db_Names
      | flag # args \<Rightarrow>
          let arg = tl flag; arg_rem = tl arg; dflt = Inr (None, flag # args);
              read = (case read_password of None \<Rightarrow> Inl Password_Failure | Some p \<Rightarrow> parse_complete (Some p) args)
          in if deref flag \<noteq> CHR ''-'' then dflt
             else if deref arg = CHR ''-'' then
               (case string_starts_with arg_rem ''password'' of
                  None \<Rightarrow> dflt
                | Some arg \<Rightarrow>
                    if arg = [] then read
                    else if deref arg = CHR ''='' then parse_complete (Some (tl arg)) args
                    else dflt)
             else if deref arg = CHR ''p'' then
               (if arg_rem = [] then read else parse_complete (Some arg_rem) args)
             else dflt)"

type_synonym parse_credentials = "string list \<Rightarrow> execute_stop + credentials \<times> string list"

definition with_password :: "string option \<Rightarrow> parse_credentials" where
  "with_password password from =
     (case execute_parse_user from of
        Inl e \<Rightarrow> Inl e
      | Inr (user, from) \<Rightarrow> Inr (\<lparr>cr_user = user, cr_password = password\<rparr>, from))"

definition with_user :: "string option \<Rightarrow> string \<Rightarrow> parse_credentials" where
  "with_user read_password user from =
     (case execute_parse_pwd read_password from of
        Inl e \<Rightarrow> Inl e
      | Inr (password, from) \<Rightarrow> Inr (\<lparr>cr_user = Some user, cr_password = password\<rparr>, from))"

definition execute_parse_pwd_short_first :: "string option \<Rightarrow> string \<Rightarrow> parse_credentials" where
  "execute_parse_pwd_short_first read_password rem_flag from =
     (if rem_flag = [] then
        (case read_password of None \<Rightarrow> Inl Password_Failure | Some p \<Rightarrow> with_password (Some p) from)
      else with_password (Some rem_flag) from)"

definition execute_parse_pwd_long_first :: "string option \<Rightarrow> string \<Rightarrow> parse_credentials" where
  "execute_parse_pwd_long_first read_password rem_flag from =
     (case string_starts_with rem_flag ''assword'' of
        None \<Rightarrow> Inr (default_credentials, from)
      | Some rem_flag \<Rightarrow>
          if rem_flag = [] then
            (case read_password of None \<Rightarrow> Inl Password_Failure | Some p \<Rightarrow> with_password (Some p) from)
          else if deref rem_flag = CHR ''='' then with_password (Some (tl rem_flag)) from
          else Inr (default_credentials, from))"

definition execute_parse_user_short_first :: "string option \<Rightarrow> string \<Rightarrow> parse_credentials" where
  "execute_parse_user_short_first read_password rem_flag from =
     (if rem_flag = [] then
        (case parse_next_user (tl from) of
           Inl e \<Rightarrow> Inl e
         | Inr (user, _) \<Rightarrow> with_user read_password user (tl from))
      else with_user read_password rem_flag from)"

definition execute_parse_user_long_first :: "string option \<Rightarrow> string \<Rightarrow> parse_credentials" where
  "execute_parse_user_long_first read_password rem_flag from =
     (case string_starts_with rem_flag ''ser'' of
        None \<Rightarrow> Inr (default_credentials, from)
      | Some rem_flag \<Rightarrow>
          if rem_flag = [] then
            (case parse_next_user (tl from) of
               Inl e \<Rightarrow> Inl e
             | Inr (user, _) \<Rightarrow> with_user read_password user (tl from))
          else if deref rem_flag = CHR ''='' then with_user read_password (tl rem_flag) from
          else Inr (default_credentials, from))"

definition execute_parse_credentials :: "string option \<Rightarrow> parse_credentials" where
  "execute_parse_credentials read_password from =
     (let flag = hd from; arg = tl flag; arg_rem = tl arg; dflt = Inr (default_credentials, from)
      in if deref flag \<noteq> CHR ''-'' then dflt
         else if deref arg = CHR ''-'' then
           (if deref arg_rem = CHR ''p'' then execute_parse_pwd_long_first read_password (tl arg_rem) from
            else if deref arg_rem = CHR ''u'' then execute_parse_user_long_first read_password (tl arg_rem) from
            else dflt)
         else if deref arg = CHR ''p'' then execute_parse_pwd_short_first read_password arg_rem from
         else if deref arg = CHR ''u'' then execute_parse_user_short_first read_password arg_rem from
         else dflt)"

subsection \<open>Names\<close>

datatype execute_name_error =
  Execute_Invalid_Db_Name_Empty | Execute_Invalid_Db_Name_Invalid | Execute_Invalid_Db_Name_Long

definition execute_parse_db_name :: "string \<Rightarrow> execute_name_error option" where
  "execute_parse_db_name arg =
     (if arg = [] then Some Execute_Invalid_Db_Name_Empty
      else case name_loop DB_NAME_LENGTH_MAX arg of
        Text_Ok \<Rightarrow> None
      | Text_Invalid \<Rightarrow> Some Execute_Invalid_Db_Name_Invalid
      | Text_Long \<Rightarrow> Some Execute_Invalid_Db_Name_Long)"

fun execute_parse_db_names_recover :: "string list \<Rightarrow> string list" where
  "execute_parse_db_names_recover [] = []"
| "execute_parse_db_names_recover (arg # args) =
     (if execute_parse_db_name arg = None then arg # execute_parse_db_names_recover args
      else execute_parse_db_names_recover args)"

fun execute_parse_db_names :: "string list \<Rightarrow> (string list \<times> exit_code) option" where
  "execute_parse_db_names [] = None"
| "execute_parse_db_names (arg # args) =
     (if execute_parse_db_name arg \<noteq> None then Some (execute_parse_db_names_recover args, EXIT_FAILURE)
      else if args = [] then Some ([arg], EXIT_SUCCESS)
      else do { (names, status) \<leftarrow> execute_parse_db_names args; Some (arg # names, status) })"

subsection \<open>Loading\<close>

text \<open>\<open>mysql_real_query\<close> and the results of its script.\<close>

definition query_server :: "'srv mysql_api \<Rightarrow> string \<Rightarrow> 'srv \<Rightarrow> (bool \<times> 'srv) option" where
  "query_server api script srv =
     (case my_query api script srv of (ok, srv) \<Rightarrow> if ok then mysql_flush_results api srv else Some (False, srv))"

text \<open>
  What the modes of execution share: the path of the project and the local buffer of a path, the
  allocations, the files, the server and the calls of the threads library. A worker logs a failure and
  stores the status; the workers run one at a time, since the queries are under a lock and the status
  is only ever set to failure.
\<close>

record ('fd, 'srv) executor =
  ee_project :: string
  ee_path_buffer :: bytes
  ee_malloc :: "nat \<Rightarrow> bool"
  ee_files :: "'fd file_api"
  ee_api :: "'srv mysql_api"
  ee_constructor :: bool
  ee_lock :: bool
  ee_unlock :: bool
  ee_start :: bool
  ee_await :: bool
  ee_stop :: bool
  ee_await_exit :: bool
  ee_destructor :: bool

definition load_query :: "('fd, 'srv) executor \<Rightarrow> string \<Rightarrow> string option option" where
  "load_query ex name = query_load_report (ee_project ex) (ee_path_buffer ex) (ee_malloc ex) (ee_files ex) name"

definition execute_single ::
  "('fd, 'srv) executor \<Rightarrow> string \<Rightarrow> exit_code \<Rightarrow> 'srv \<Rightarrow> (exit_code \<times> 'srv) option" where
  "execute_single ex name exit_status srv =
     do { query \<leftarrow> load_query ex name;
          case query of
            None \<Rightarrow> Some (EXIT_FAILURE, srv)
          | Some script \<Rightarrow>
              do { (ok, srv) \<leftarrow> query_server (ee_api ex) script srv;
                   Some (if ok then exit_status else EXIT_FAILURE, srv) } }"

definition executor_locked_query ::
  "('fd, 'srv) executor \<Rightarrow> string \<Rightarrow> exit_code \<Rightarrow> 'srv \<Rightarrow> (exit_code \<times> 'srv) option" where
  "executor_locked_query ex script exit_status srv =
     (if ee_lock ex then
        do { (ok, srv) \<leftarrow> query_server (ee_api ex) script srv;
             Some (if ok \<and> ee_unlock ex then exit_status else EXIT_FAILURE, srv) }
      else Some (EXIT_FAILURE, srv))"

definition build_database ::
  "('fd, 'srv) executor \<Rightarrow> string \<Rightarrow> exit_code \<Rightarrow> 'srv \<Rightarrow> (exit_code \<times> 'srv) option" where
  "build_database ex name exit_status srv =
     do { query \<leftarrow> load_query ex name;
          case query of
            None \<Rightarrow> Some (EXIT_FAILURE, srv)
          | Some script \<Rightarrow> executor_locked_query ex script exit_status srv }"

fun build_databases ::
  "('fd, 'srv) executor \<Rightarrow> string list \<Rightarrow> exit_code \<Rightarrow> 'srv \<Rightarrow> (exit_code \<times> 'srv) option" where
  "build_databases ex [] exit_status srv = Some (exit_status, srv)"
| "build_databases ex (name # names) exit_status srv =
     do { (exit_status, srv) \<leftarrow> build_database ex name exit_status srv; build_databases ex names exit_status srv }"

text \<open>
  The nodes of the tasks, whose argument is the name; the loop runs at least once, so one name is not
  enough. A node's \<open>next\<close> is set with the node that follows, the last one's after the loop.
\<close>

fun init_more_task_nodes :: "string heap \<Rightarrow> nat \<Rightarrow> string list \<Rightarrow> (string heap \<times> nat) option" where
  "init_more_task_nodes h next_node [] = None"
| "init_more_task_nodes h next_node (name # names) =
     (let prev_node = next_node; next_node = next_node + 1
      in do { h \<leftarrow> set_next (h(next_node \<mapsto> \<lparr>tn_task = name, tn_prev = Some prev_node, tn_next = None\<rparr>)) prev_node (Some next_node);
              if names = [] then Some (h, next_node) else init_more_task_nodes h next_node names })"

definition init_executor_task_nodes :: "string heap \<Rightarrow> nat \<Rightarrow> string list \<Rightarrow> (string heap \<times> nat) option" where
  "init_executor_task_nodes h next_node names =
     (case names of
        [] \<Rightarrow> None
      | name # names \<Rightarrow>
          init_more_task_nodes (h(next_node \<mapsto> \<lparr>tn_task = name, tn_prev = None, tn_next = None\<rparr>)) next_node names)"

definition executor_store :: "string heap \<Rightarrow> nat \<Rightarrow> string list \<Rightarrow> (string heap \<times> task_store) option" where
  "executor_store h head names =
     do { (h, last_node) \<leftarrow> init_executor_task_nodes h head names; Some (h, \<lparr>ts_head = Some head, ts_last = Some last_node\<rparr>) }"

definition COUNT_EXECUTOR_WORKERS :: nat where "COUNT_EXECUTOR_WORKERS = 4"

definition count_workers :: "nat \<Rightarrow> nat" where
  "count_workers count_db_names =
     (if COUNT_EXECUTOR_WORKERS < count_db_names then COUNT_EXECUTOR_WORKERS else count_db_names)"

text \<open>\<open>status\<close> is the exit status of the pool, \<open>exit_status\<close> the one the tasks left.\<close>

definition executor_shutdown :: "('fd, 'srv) executor \<Rightarrow> pool_exit \<Rightarrow> exit_code \<Rightarrow> bool" where
  "executor_shutdown ex status exit_status \<longleftrightarrow>
     ee_await_exit ex \<and> exit_status = EXIT_SUCCESS \<and> status = Exit_Success"

text \<open>
  \<open>run\<close> is what the pool did: the tasks in the order they had the lock, and its exit status. The block
  of the nodes and their arguments has 32 and 16 bytes for a name.
\<close>

definition execute_multiple ::
  "('fd, 'srv) executor \<Rightarrow> string list \<times> pool_exit \<Rightarrow> string list \<Rightarrow> exit_code \<Rightarrow> 'srv \<Rightarrow> (exit_code \<times> 'srv) option" where
  "execute_multiple ex run names exit_status srv =
     (if \<not> ee_constructor ex then Some (EXIT_FAILURE, srv)
      else if \<not> ee_malloc ex ((16 + 32) * length names) then Some (EXIT_FAILURE, srv)
      else if \<not> ee_start ex then
        do { (_, srv) \<leftarrow> build_databases ex (fst run) EXIT_SUCCESS srv; Some (EXIT_FAILURE, srv) }
      else
        do { (tasks_status, srv) \<leftarrow> build_databases ex (fst run) EXIT_SUCCESS srv;
             Some (if ee_await ex \<and> ee_stop ex then
                     if executor_shutdown ex (snd run) tasks_status then
                       if ee_destructor ex then exit_status else EXIT_FAILURE
                     else EXIT_FAILURE
                   else EXIT_FAILURE, srv) })"

text \<open>The value is the exit status and the server, when there was a connection.\<close>

definition mysql_seed_execute ::
  "('fd, 'srv) executor \<Rightarrow> string list \<times> pool_exit \<Rightarrow> credentials \<Rightarrow> string list \<Rightarrow> exit_code \<Rightarrow> (exit_code \<times> 'srv option) option" where
  "mysql_seed_execute ex run creds names exit_status =
     (if \<not> my_init (ee_api ex) then Some (EXIT_FAILURE, None)
      else case my_connect (ee_api ex) (cr_user creds) (cr_password creds) of
        None \<Rightarrow> Some (EXIT_FAILURE, None)
      | Some srv \<Rightarrow>
          do { (exit_status, srv) \<leftarrow>
                 (if length names = 1 then execute_single ex (hd names) exit_status srv
                  else execute_multiple ex run names exit_status srv);
               Some (exit_status, Some srv) })"

definition execute_dispatch ::
  "('fd, 'srv) executor \<Rightarrow> string list \<times> pool_exit \<Rightarrow> string option \<Rightarrow> string list \<Rightarrow> (exit_code \<times> 'srv option) option" where
  "execute_dispatch ex run read_password from =
     (if from = [] then Some (EXIT_FAILURE, None)
      else case execute_parse_credentials read_password from of
        Inl _ \<Rightarrow> Some (EXIT_FAILURE, None)
      | Inr (creds, from) \<Rightarrow>
          if \<not> ee_malloc ex (16 * length from) then Some (EXIT_FAILURE, None)
          else do { (names, exit_status) \<leftarrow> execute_parse_db_names from;
                    if names \<noteq> [] then mysql_seed_execute ex run creds names exit_status
                    else Some (exit_status, None) })"

section \<open>The path of a script\<close>

lemma query_path_set_text:
  assumes "length b = PATH_MAX" "length project + 2 * length name + 24 \<le> PATH_MAX"
  shows "\<exists>b'. query_path_set project b name = Some b' \<and> length b' = PATH_MAX \<and>
    (\<exists>post. b' = (project @ ''/'' @ script_text name) @ NUL # post)"
proof -
  let ?pfx = "DB_ROOT_ABSPATH_PFX project"
  let ?s = "?pfx @ name @ ''/load_'' @ name"
  have l: "length ?pfx = length project + 10" by (simp add: DB_ROOT_ABSPATH_PFX_def)
  have "length b = length ?s + (7 + (PATH_MAX - (length ?s + 7)))" using assms by (simp add: l)
  then obtain o1 r where o: "b = o1 @ r" "length o1 = length ?s" "length r = 7 + (PATH_MAX - (length ?s + 7))" by (rule split_length)
  from o(3) obtain o2 o3 where o': "r = o2 @ o3" "length o2 = 7" by (rule split_length)
  have "writes (\<lambda>b p. do { (b, p) \<leftarrow> put_string_size ?pfx 0 (length ?pfx) b p; (b, p) \<leftarrow> put_string_size name 0 (length name) b p;
      (b, p) \<leftarrow> PUT_STRING_WIDTH ''/load_'' 6 b p; put_string_size name 0 (length name) b p }) ?s"
    using writes_put_string_size [of ?pfx "length ?pfx" "[]" "[]"] writes_put_string_size [of name "length name" "[]" "[]"]
    by (intro writes_bind writes_PUT_STRING_WIDTH) simp_all
  from writesD [OF this o(2), of 0 "[]" "o2 @ o3"]
  have 1: "(do { (b, p) \<leftarrow> put_string_size ?pfx 0 (length ?pfx) b 0; (b, p) \<leftarrow> put_string_size name 0 (length name) b p;
      (b, p) \<leftarrow> PUT_STRING_WIDTH ''/load_'' 6 b p; put_string_size name 0 (length name) b p }) = Some (?s @ o2 @ o3, length ?s)"
    by (simp add: o(1) o'(1))
  have 2: "SET_STRING_WIDTH (?s @ o2 @ o3) (length ?s) ''.mysql'' 7 = Some (?s @ (''.mysql'' @ [NUL]) @ o3)"
    using store_string_append [of "''.mysql'' @ [NUL]" o2 ?s o3] o'(2) by (simp add: SET_STRING_WIDTH_nul)
  have "query_path_set project b name = Some (?s @ (''.mysql'' @ [NUL]) @ o3)"
    using 1 2 unfolding query_path_set_def by (auto split: bind_splits)
  then show ?thesis using o o' assms l
    by (auto simp: script_text_def dir_text_def DB_ROOT_ABSPATH_PFX_def)
qed

section \<open>Words on the command line\<close>

text \<open>The ways to give a user, a password, and both.\<close>

datatype user_form = User_Next string | User_Joined string | User_Long_Next string | User_Equals string

datatype password_form = Password_Ask | Password_Joined string | Password_Long_Ask | Password_Equals string

datatype credential_form =
    No_Credentials
  | User user_form
  | Password password_form
  | User_Password user_form password_form
  | Password_User password_form user_form

fun user_words :: "user_form \<Rightarrow> string list" where
  "user_words (User_Next u) = [''-u'', u]"
| "user_words (User_Joined u) = [''-u'' @ u]"
| "user_words (User_Long_Next u) = [''--user'', u]"
| "user_words (User_Equals u) = [''--user='' @ u]"

fun user_named :: "user_form \<Rightarrow> string" where
  "user_named (User_Next u) = u"
| "user_named (User_Joined u) = u"
| "user_named (User_Long_Next u) = u"
| "user_named (User_Equals u) = u"

fun password_words :: "password_form \<Rightarrow> string list" where
  "password_words Password_Ask = [''-p'']"
| "password_words (Password_Joined p) = [''-p'' @ p]"
| "password_words Password_Long_Ask = [''--password'']"
| "password_words (Password_Equals p) = [''--password='' @ p]"

fun password_given :: "string option \<Rightarrow> password_form \<Rightarrow> string option" where
  "password_given input Password_Ask = input"
| "password_given input (Password_Joined p) = Some p"
| "password_given input Password_Long_Ask = input"
| "password_given input (Password_Equals p) = Some p"

fun user_ok :: "user_form \<Rightarrow> bool" where
  "user_ok (User_Joined u) \<longleftrightarrow> u \<noteq> []"
| "user_ok _ \<longleftrightarrow> True"

fun password_ok :: "string option \<Rightarrow> password_form \<Rightarrow> bool" where
  "password_ok input (Password_Joined p) \<longleftrightarrow> p \<noteq> []"
| "password_ok input (Password_Equals p) \<longleftrightarrow> True"
| "password_ok input _ \<longleftrightarrow> input \<noteq> None"

fun credential_words :: "credential_form \<Rightarrow> string list" where
  "credential_words No_Credentials = []"
| "credential_words (User u) = user_words u"
| "credential_words (Password p) = password_words p"
| "credential_words (User_Password u p) = user_words u @ password_words p"
| "credential_words (Password_User p u) = password_words p @ user_words u"

fun credentials_of :: "string option \<Rightarrow> credential_form \<Rightarrow> credentials" where
  "credentials_of input No_Credentials = default_credentials"
| "credentials_of input (User u) = \<lparr>cr_user = Some (user_named u), cr_password = None\<rparr>"
| "credentials_of input (Password p) = \<lparr>cr_user = None, cr_password = password_given input p\<rparr>"
| "credentials_of input (User_Password u p) = \<lparr>cr_user = Some (user_named u), cr_password = password_given input p\<rparr>"
| "credentials_of input (Password_User p u) = \<lparr>cr_user = Some (user_named u), cr_password = password_given input p\<rparr>"

fun credentials_ok :: "string option \<Rightarrow> credential_form \<Rightarrow> bool" where
  "credentials_ok input No_Credentials \<longleftrightarrow> True"
| "credentials_ok input (User u) \<longleftrightarrow> user_ok u"
| "credentials_ok input (Password p) \<longleftrightarrow> password_ok input p"
| "credentials_ok input (User_Password u p) \<longleftrightarrow> user_ok u \<and> password_ok input p"
| "credentials_ok input (Password_User p u) \<longleftrightarrow> user_ok u \<and> password_ok input p"

lemma execute_parse_user_words:
  "user_ok u \<Longrightarrow> names \<noteq> [] \<Longrightarrow> execute_parse_user (flag # user_words u @ names) = Inr (Some (user_named u), names)"
  by (cases u) (simp_all add: execute_parse_user_def Let_def parse_next_user_def parse_complete_def deref_def)

lemma execute_parse_pwd_words:
  "password_ok input p \<Longrightarrow> names \<noteq> [] \<Longrightarrow>
    execute_parse_pwd input (flag # password_words p @ names) = Inr (password_given input p, names)"
  by (cases p) (auto simp: execute_parse_pwd_def Let_def parse_complete_def deref_def)

lemma execute_parse_user_none:
  "names \<noteq> [] \<Longrightarrow> deref (hd names) \<noteq> CHR ''-'' \<Longrightarrow> execute_parse_user (flag # names) = Inr (None, names)"
  by (cases names) (simp_all add: execute_parse_user_def Let_def)

lemma execute_parse_pwd_none:
  "names \<noteq> [] \<Longrightarrow> deref (hd names) \<noteq> CHR ''-'' \<Longrightarrow> execute_parse_pwd input (flag # names) = Inr (None, names)"
  by (cases names) (simp_all add: execute_parse_pwd_def Let_def)

lemma parse_user_first:
  assumes "user_ok u" "\<And>flag. execute_parse_pwd input (flag # from) = Inr (password, names)"
  shows "execute_parse_credentials input (user_words u @ from) = Inr (\<lparr>cr_user = Some (user_named u), cr_password = password\<rparr>, names)"
  using assms by (cases u) (simp_all add: execute_parse_credentials_def execute_parse_user_short_first_def
      execute_parse_user_long_first_def with_user_def parse_next_user_def Let_def deref_def)

lemma parse_password_first:
  assumes "password_ok input p" "\<And>flag. execute_parse_user (flag # from) = Inr (user, names)"
  shows "execute_parse_credentials input (password_words p @ from) = Inr (\<lparr>cr_user = user, cr_password = password_given input p\<rparr>, names)"
  using assms by (cases p) (auto simp: execute_parse_credentials_def execute_parse_pwd_short_first_def
      execute_parse_pwd_long_first_def with_password_def Let_def deref_def)

lemma execute_parse_credentials_words:
  assumes "credentials_ok input c" "names \<noteq> []" "deref (hd names) \<noteq> CHR ''-''"
  shows "execute_parse_credentials input (credential_words c @ names) = Inr (credentials_of input c, names)"
proof (cases c)
  case No_Credentials
  then show ?thesis using assms by (simp add: execute_parse_credentials_def Let_def)
next
  case (User u)
  then show ?thesis using assms parse_user_first [OF _ execute_parse_pwd_none [OF assms(2,3)], of u input] by simp
next
  case (Password p)
  then show ?thesis using assms parse_password_first [OF _ execute_parse_user_none [OF assms(2,3)], of input p] by simp
next
  case (User_Password u p)
  then show ?thesis using assms parse_user_first [OF _ execute_parse_pwd_words [OF _ assms(2)], of u input p] by simp
next
  case (Password_User p u)
  then show ?thesis using assms parse_password_first [OF _ execute_parse_user_words [OF _ assms(2)], of input p u] by simp
qed

section \<open>Names that are databases\<close>

definition db_named :: "string \<Rightarrow> bool" where
  "db_named name \<longleftrightarrow> execute_parse_db_name name = None"

text \<open>The two modes accept the same names.\<close>

lemma db_named_iff: "db_named name \<longleftrightarrow> parse_name DB_NAME_LENGTH_MAX Database name = None"
  by (simp add: db_named_def execute_parse_db_name_def parse_name_def split: text_result.split)

lemma execute_parse_db_names_recover_eq: "execute_parse_db_names_recover args = filter db_named args"
  by (induction args) (simp_all add: db_named_def)

lemma execute_parse_db_names_eq:
  "args \<noteq> [] \<Longrightarrow> execute_parse_db_names args =
    Some (filter db_named args, if list_all db_named args then EXIT_SUCCESS else EXIT_FAILURE)"
  by (induction args) (auto simp: execute_parse_db_names_recover_eq db_named_def)

section \<open>The scripts on the server\<close>

text \<open>
  A server as the manual of the library describes it: \<open>mysql_real_query\<close> runs a script and leaves its
  results pending, \<open>mysql_store_result\<close> reads one, and \<open>mysql_next_result\<close> moves on with 0 while there
  are more and ends with -1. \<open>effect\<close> is what a script does to the data.
\<close>

definition answers :: "'srv mysql_api \<Rightarrow> ('srv \<Rightarrow> nat) \<Rightarrow> ('srv \<Rightarrow> 'd) \<Rightarrow> (string \<Rightarrow> 'd \<Rightarrow> 'd) \<Rightarrow> bool" where
  "answers api pending data effect \<longleftrightarrow>
     (\<forall>script srv. pending srv = 0 \<longrightarrow>
        (\<exists>srv'. my_query api script srv = (True, srv') \<and> 0 < pending srv' \<and> data srv' = effect script (data srv))) \<and>
     (\<forall>srv. 0 < pending srv \<longrightarrow>
        (\<exists>srv'. my_store api srv = (True, srv') \<and> pending srv' = pending srv \<and> data srv' = data srv) \<and>
        (\<exists>srv'. my_next api srv = (if pending srv = 1 then - 1 else 0, srv') \<and> pending srv' = pending srv - 1 \<and> data srv' = data srv))"

lemma mysql_flush_results_answers:
  assumes "answers api pending data effect" "0 < pending srv"
  shows "\<exists>srv'. mysql_flush_results api srv = Some (True, srv') \<and> pending srv' = 0 \<and> data srv' = data srv"
  using assms(2)
proof (induction "pending srv" arbitrary: srv rule: less_induct)
  case less
  obtain s1 where s1: "my_store api srv = (True, s1)" "pending s1 = pending srv" "data s1 = data srv"
    using assms(1) less.prems unfolding answers_def by blast
  obtain s2 where s2: "my_next api s1 = (if pending s1 = 1 then - 1 else 0, s2)" "pending s2 = pending s1 - 1" "data s2 = data s1"
    using assms(1) less.prems s1(2) unfolding answers_def by metis
  show ?case
  proof (cases "pending srv = 1")
    case True
    then show ?thesis using s1 s2 by (subst mysql_flush_results.simps) simp
  next
    case False
    then obtain s3 where "mysql_flush_results api s2 = Some (True, s3)" "pending s3 = 0" "data s3 = data s2"
      using less.hyps [of s2] less.prems s1(2) s2(2) by auto
    then show ?thesis using s1 s2 False by (subst mysql_flush_results.simps) simp
  qed
qed

lemma query_server_answers:
  assumes "answers api pending data effect" "pending srv = 0"
  shows "\<exists>srv'. query_server api script srv = Some (True, srv') \<and> pending srv' = 0 \<and> data srv' = effect script (data srv)"
proof -
  obtain s1 where s1: "my_query api script srv = (True, s1)" "0 < pending s1" "data s1 = effect script (data srv)"
    using assms unfolding answers_def by blast
  then show ?thesis using mysql_flush_results_answers [OF assms(1) s1(2)] by (auto simp: query_server_def)
qed

text \<open>The calls succeed, and the files of the databases can be read.\<close>

definition calls_succeed :: "('fd, 'srv) executor \<Rightarrow> bool" where
  "calls_succeed ex \<longleftrightarrow> ee_constructor ex \<and> ee_lock ex \<and> ee_unlock ex \<and> ee_start ex \<and> ee_await ex \<and> ee_stop ex \<and>
     ee_await_exit ex \<and> ee_destructor ex \<and> (\<forall>n. ee_malloc ex n) \<and> my_init (ee_api ex) \<and> length (ee_path_buffer ex) = PATH_MAX \<and>
     NUL \<notin> set (ee_project ex) \<and> length (ee_project ex) \<le> 3500"

definition stores_file :: "'fd file_api \<Rightarrow> string \<Rightarrow> string \<Rightarrow> bool" where
  "stores_file os path contents \<longleftrightarrow>
     (\<exists>fd. os_open os path = Some fd \<and> os_fstat os fd = Some (length contents) \<and>
        os_read os fd (length contents) = Some contents \<and> os_close os fd)"

definition stores_script :: "('fd, 'srv) executor \<Rightarrow> (string \<Rightarrow> string) \<Rightarrow> string \<Rightarrow> bool" where
  "stores_script ex script name \<longleftrightarrow>
     stores_file (ee_files ex) (ee_project ex @ ''/'' @ script_text name) (script name)"

lemma load_query_stored:
  assumes "calls_succeed ex" "db_named name" "NUL \<notin> set name" "stores_script ex script name"
  shows "load_query ex name = Some (Some (script name))"
proof -
  have "length name \<le> 252"
    using assms(2) parse_name_length [of DB_NAME_LENGTH_MAX Database name] by (simp add: db_named_iff DB_NAME_LENGTH_MAX_def)
  then obtain b' post where b': "query_path_set (ee_project ex) (ee_path_buffer ex) name = Some b'"
    "b' = (ee_project ex @ ''/'' @ script_text name) @ NUL # post"
    using query_path_set_text [of "ee_path_buffer ex" "ee_project ex" name] assms(1) by (auto simp: calls_succeed_def PATH_MAX_def)
  have "NUL \<notin> set (ee_project ex @ ''/'' @ script_text name)"
    using assms(1,3) by (auto simp: calls_succeed_def script_text_def dir_text_def)
  then have "c_string b' = ee_project ex @ ''/'' @ script_text name"
    unfolding b'(2) c_string_def by (subst takeWhile_append2) auto
  then show ?thesis
    using assms(1,4) b'(1) unfolding load_query_def query_load_report_def stores_script_def stores_file_def
    by (auto simp: calls_succeed_def)
qed

definition loadable :: "('fd, 'srv) executor \<Rightarrow> (string \<Rightarrow> string) \<Rightarrow> string \<Rightarrow> bool" where
  "loadable ex script name \<longleftrightarrow> db_named name \<and> NUL \<notin> set name \<and> stores_script ex script name"

lemma execute_single_loads:
  assumes "calls_succeed ex" "answers (ee_api ex) pending data effect" "loadable ex script name" "pending srv = 0"
  shows "\<exists>srv'. execute_single ex name status srv = Some (status, srv') \<and> pending srv' = 0 \<and> data srv' = effect (script name) (data srv)"
proof -
  have "load_query ex name = Some (Some (script name))" using assms(1,3) by (simp add: loadable_def load_query_stored)
  then show ?thesis
    using query_server_answers [OF assms(2,4), of "script name"] by (auto simp: execute_single_def)
qed

lemma build_databases_loads:
  assumes "calls_succeed ex" "answers (ee_api ex) pending data effect" "\<forall>name \<in> set names. loadable ex script name" "pending srv = 0"
  shows "\<exists>srv'. build_databases ex names status srv = Some (status, srv') \<and> pending srv' = 0 \<and>
    data srv' = fold (\<lambda>name. effect (script name)) names (data srv)"
  using assms(3,4)
proof (induction names arbitrary: srv)
  case (Cons name names)
  have "load_query ex name = Some (Some (script name))" using assms(1) Cons.prems(1) by (simp add: loadable_def load_query_stored)
  moreover obtain s1 where s1: "query_server (ee_api ex) (script name) srv = Some (True, s1)" "pending s1 = 0"
    "data s1 = effect (script name) (data srv)"
    using query_server_answers [OF assms(2) Cons.prems(2), of "script name"] by blast
  ultimately have "build_database ex name status srv = Some (status, s1)"
    using assms(1) by (simp add: build_database_def executor_locked_query_def calls_succeed_def)
  moreover obtain s2 where "build_databases ex names status s1 = Some (status, s2)" "pending s2 = 0"
    "data s2 = fold (\<lambda>name. effect (script name)) names (data s1)"
    using Cons.IH [of s1] Cons.prems(1) s1(2) by auto
  ultimately show ?case using s1(3) by simp
qed simp

section \<open>The pool of the executor\<close>

text \<open>The nodes are the ones that \<^theory_text>\<open>Task_Queue\<close> links.\<close>

lemma init_more_task_nodes_eq:
  assumes "names \<noteq> []"
  shows "init_more_task_nodes (h(node \<mapsto> \<lparr>tn_task = name, tn_prev = p, tn_next = None\<rparr>)) node names =
    link_nodes h p node (name # names)"
  using assms
proof (induction names arbitrary: h node name p)
  case (Cons name' names)
  let ?h = "h(node \<mapsto> \<lparr>tn_task = name, tn_prev = p, tn_next = Some (node + 1)\<rparr>)"
  let ?H = "?h(node + 1 \<mapsto> \<lparr>tn_task = name', tn_prev = Some node, tn_next = None\<rparr>)"
  have "set_next (h(node \<mapsto> \<lparr>tn_task = name, tn_prev = p, tn_next = None\<rparr>, node + 1 \<mapsto> \<lparr>tn_task = name', tn_prev = Some node, tn_next = None\<rparr>))
      node (Some (node + 1)) = Some ?H"
    by (simp add: set_next_def fun_upd_twist)
  then have 1: "init_more_task_nodes (h(node \<mapsto> \<lparr>tn_task = name, tn_prev = p, tn_next = None\<rparr>)) node (name' # names) =
      (if names = [] then Some (?H, node + 1) else init_more_task_nodes ?H (node + 1) names)"
    unfolding init_more_task_nodes.simps Let_def by (simp only: bind.bind_lunit)
  show ?case
  proof (cases "names = []")
    case True
    then show ?thesis unfolding 1 by simp
  next
    case False
    then show ?thesis unfolding 1 if_not_P [OF False] link_nodes.simps by (rule Cons.IH)
  qed
qed simp

lemma executor_store_eq:
  assumes "2 \<le> length names"
  shows "executor_store h node names = task_store_init h node names"
proof -
  obtain name more where n: "names = name # more" "more \<noteq> []" using assms by (cases names; cases "tl names") auto
  show ?thesis unfolding executor_store_def init_executor_task_nodes_def task_store_init_def n(1) list.case
    by (simp only: init_more_task_nodes_eq [OF n(2)])
qed

text \<open>What the pool did for some names: a run without a failed task, to its end.\<close>

definition pool_ran :: "string list \<Rightarrow> string list \<times> pool_exit \<Rightarrow> bool" where
  "pool_ran names run \<longleftrightarrow>
     (\<exists>h node h' st s. executor_store h node names = Some (h', st) \<and>
        calm_step\<^sup>*\<^sup>* (thread_pool_init h' st (count_workers (length names)) []) s \<and>
        p_main s = Ended (snd run) \<and> p_log s = fst run)"

lemma pool_ran_all:
  assumes "pool_ran names run" "2 \<le> length names"
  shows "mset (fst run) = mset names \<and> snd run = Exit_Success"
proof -
  obtain h node h' st s where 1: "executor_store h node names = Some (h', st)"
    "calm_step\<^sup>*\<^sup>* (thread_pool_init h' st (count_workers (length names)) []) s" "p_main s = Ended (snd run)" "p_log s = fst run"
    using assms(1) unfolding pool_ran_def by blast
  let ?ns = "[node..<node + length names]" and ?task = "\<lambda>n. names ! (n - node)"
  have "names \<noteq> []" using assms(2) by auto
  then have h': "queue_holds h' (task_queue_init_store st) ?ns" "\<forall>i < length names. map_option tn_task (h' (node + i)) = Some (names ! i)"
    using task_store_init_holds [of names h node] 1(1) executor_store_eq [OF assms(2)] by auto
  have "map_option tn_task (h' n) = Some (?task n)" if "n \<in> set ?ns" for n
    using h'(2) [rule_format, of "n - node"] that less_diff_conv2 [of node n "length names"] by (simp add: add.commute)
  then have "stores_ready ?task h' [st] [?ns]"
    using h'(1) \<open>names \<noteq> []\<close> upt_eq_Nil_conv [of node "node + length names"] by (auto simp: stores_ready_def simp del: upt_eq_Nil_conv)
  then have c: "calm ?task [?ns] s" using calm_reachable 1(2) by blast
  have "map ?task ?ns = names" by (rule nth_equalityI) simp_all
  moreover have "take (Suc (phases_over [?ns] s)) [?ns] = [?ns]" by simp
  ultimately show ?thesis using calm_mset_log [OF c] calm_ended [OF c 1(3)] 1(3,4) by simp
qed

section \<open>Properties\<close>

lemma mysql_seed_execute_loads:
  assumes "calls_succeed ex" "answers (ee_api ex) pending data effect" "\<forall>name \<in> set names. loadable ex script name" "names \<noteq> []"
    and "my_connect (ee_api ex) (cr_user creds) (cr_password creds) = Some srv" "pending srv = 0"
    and "2 \<le> length names \<longrightarrow> pool_ran names run"
  shows "\<exists>order srv'. mysql_seed_execute ex run creds names status = Some (status, Some srv') \<and> mset order = mset names \<and>
    pending srv' = 0 \<and> data srv' = fold (\<lambda>name. effect (script name)) order (data srv)"
proof (cases "length names = 1")
  case True
  then obtain name where n: "names = [name]" by (cases names) auto
  then have "loadable ex script name" using assms(3) by simp
  then obtain srv' where "execute_single ex name status srv = Some (status, srv')" "pending srv' = 0"
    "data srv' = effect (script name) (data srv)"
    using execute_single_loads [OF assms(1,2) _ assms(6)] by blast
  then show ?thesis using assms(1,5) n
    by (intro exI [of _ "[name]"] exI [of _ srv']) (simp add: mysql_seed_execute_def calls_succeed_def)
next
  case False
  then have two: "2 \<le> length names" using assms(4) by (cases names; cases "tl names") auto
  then have r: "mset (fst run) = mset names" "snd run = Exit_Success" using pool_ran_all assms(7) by blast+
  have "\<forall>name \<in> set (fst run). loadable ex script name" using assms(3) mset_eq_setD [OF r(1)] by simp
  then obtain srv' where "build_databases ex (fst run) EXIT_SUCCESS srv = Some (EXIT_SUCCESS, srv')" "pending srv' = 0"
    "data srv' = fold (\<lambda>name. effect (script name)) (fst run) (data srv)"
    using build_databases_loads [OF assms(1,2) _ assms(6)] by blast
  then show ?thesis using assms(1,5) r False
    by (intro exI [of _ "fst run"] exI [of _ srv'])
      (simp add: mysql_seed_execute_def execute_multiple_def executor_shutdown_def calls_succeed_def)
qed

text \<open>
  C3: execute mode loads the script of every database that is named. Whatever way the credentials are
  given, with a server that answers, readable scripts and calls that succeed, the program connects with
  these credentials, skips the names no database can have, and has the server run the script of every
  other one exactly once, in an order that the thread pool chooses when there are several; it exits
  with success if every name was one a database can have.
\<close>

theorem execute_loads_scripts:
  assumes "credentials_ok input c" and "names \<noteq> []" "deref (hd names) \<noteq> CHR ''-''"
    and "calls_succeed ex" and "answers (ee_api ex) pending data effect"
    and "my_connect (ee_api ex) (cr_user (credentials_of input c)) (cr_password (credentials_of input c)) = Some srv" "pending srv = 0"
    and "\<forall>name \<in> set (filter db_named names). loadable ex script name" and "filter db_named names \<noteq> []"
    and "2 \<le> length (filter db_named names) \<longrightarrow> pool_ran (filter db_named names) run"
  shows "\<exists>order srv'. execute_dispatch ex run input (credential_words c @ names) =
      Some (if list_all db_named names then EXIT_SUCCESS else EXIT_FAILURE, Some srv') \<and>
    mset order = mset (filter db_named names) \<and> pending srv' = 0 \<and>
    data srv' = fold (\<lambda>name. effect (script name)) order (data srv)"
proof -
  have "ee_malloc ex n" for n using assms(4) by (simp add: calls_succeed_def)
  then have "execute_dispatch ex run input (credential_words c @ names) =
      mysql_seed_execute ex run (credentials_of input c) (filter db_named names)
        (if list_all db_named names then EXIT_SUCCESS else EXIT_FAILURE)"
    using assms(2,9) execute_parse_credentials_words [OF assms(1-3)] execute_parse_db_names_eq [OF assms(2)]
    by (simp add: execute_dispatch_def)
  then show ?thesis using mysql_seed_execute_loads [OF assms(4,5,8,9,6,7,10)] by simp
qed

text \<open>
  An example: a server whose data is the list of scripts it ran, and two workers that run the second
  database first.
\<close>

definition log_api :: "(nat \<times> string list) mysql_api" where
  "log_api =
     \<lparr>my_init = True, my_connect = (\<lambda>user password. if user = Some ''root'' \<and> password = Some ''key'' then Some (0, []) else None),
      my_query = (\<lambda>script srv. (True, (2, snd srv @ [script]))), my_store = (\<lambda>srv. (True, srv)),
      my_next = (\<lambda>srv. (if fst srv = 1 then - 1 else 0, (fst srv - 1, snd srv)))\<rparr>"

lemma log_api_answers: "answers log_api fst snd (\<lambda>script scripts. scripts @ [script])"
  by (simp add: answers_def log_api_def)

definition demo_files :: "string file_api" where
  "demo_files =
     \<lparr>os_open = (\<lambda>path. Some path), os_fstat = (\<lambda>path. Some (length path)), os_read = (\<lambda>path n. Some path), os_close = (\<lambda>path. True)\<rparr>"

definition demo_executor :: "(string, nat \<times> string list) executor" where
  "demo_executor =
     \<lparr>ee_project = ''/seed'', ee_path_buffer = replicate PATH_MAX NUL, ee_malloc = (\<lambda>n. True), ee_files = demo_files, ee_api = log_api,
      ee_constructor = True, ee_lock = True, ee_unlock = True, ee_start = True, ee_await = True, ee_stop = True,
      ee_await_exit = True, ee_destructor = True\<rparr>"

definition demo_pool_events :: "event list" where
  "demo_pool_events =
     [Worker 0, Worker 1, Worker 1, Worker 0, Worker 0, Worker 1, Main 0, Main 0, Main 0, Supervisor, Supervisor, Main 0]"

lemma demo_pool_ran: "pool_ran [''a'', ''b''] ([''b'', ''a''], Exit_Success)"
proof -
  obtain h st where h: "executor_store (\<lambda>n. None) 0 [''a'', ''b''] = Some (h, st)"
    by (simp add: executor_store_eq task_store_init_def)
  have "\<exists>s. pool_run demo_pool_events (thread_pool_init h st 2 []) = Some s \<and> p_main s = Ended Exit_Success \<and> p_log s = [''b'', ''a'']"
    using h by (auto simp: executor_store_eq task_store_init_def demo_pool_events_def run_defs numeral_2_eq_2)
  then obtain s where s: "pool_run demo_pool_events (thread_pool_init h st 2 []) = Some s" "p_main s = Ended Exit_Success"
    "p_log s = [''b'', ''a'']" by blast
  have "calm_step\<^sup>*\<^sup>* (thread_pool_init h st 2 []) s" by (rule pool_run_calm [OF s(1)]) (simp add: demo_pool_events_def)
  moreover have "count_workers (length [''a'', ''b'']) = 2" by (simp add: count_workers_def COUNT_EXECUTOR_WORKERS_def)
  ultimately show ?thesis using h s(2,3) unfolding pool_ran_def by fastforce
qed

lemma demo_names: "db_named ''a''" "db_named ''b''" "\<not> db_named []"
  by (simp_all add: db_named_iff parse_name_def name_loop_numeral utf8_width_def utf8_head_width_def octet_def DB_NAME_LENGTH_MAX_def)

theorem execute_loads_scripts_witness:
  "\<exists>order srv'. execute_dispatch demo_executor ([''b'', ''a''], Exit_Success) (Some ''key'') [''-p'', ''--user=root'', ''a'', [], ''b''] =
      Some (EXIT_FAILURE, Some srv') \<and> mset order = {#''a'', ''b''#} \<and> fst srv' = 0 \<and>
    snd srv' = fold (\<lambda>name scripts. scripts @ [''/seed/'' @ script_text name]) order []"
proof -
  let ?names = "[''a'', [], ''b'']" and ?c = "Password_User Password_Ask (User_Equals ''root'')"
  have f: "filter db_named ?names = [''a'', ''b'']" "\<not> list_all db_named ?names" using demo_names by simp_all
  have l: "\<forall>name \<in> set (filter db_named ?names). loadable demo_executor (\<lambda>name. ''/seed/'' @ script_text name) name"
    using demo_names unfolding f by (simp add: loadable_def stores_script_def stores_file_def demo_executor_def demo_files_def)
  have ok: "calls_succeed demo_executor" by (simp add: calls_succeed_def demo_executor_def log_api_def)
  have a: "answers (ee_api demo_executor) fst snd (\<lambda>script scripts. scripts @ [script])"
    by (simp add: demo_executor_def log_api_answers)
  have c: "my_connect (ee_api demo_executor) (cr_user (credentials_of (Some ''key'') ?c)) (cr_password (credentials_of (Some ''key'') ?c)) =
      Some (0, [])"
    by (simp add: demo_executor_def log_api_def)
  have p: "2 \<le> length (filter db_named ?names) \<longrightarrow> pool_ran (filter db_named ?names) ([''b'', ''a''], Exit_Success)"
    unfolding f using demo_pool_ran by simp
  from execute_loads_scripts [OF _ _ _ ok a c _ l _ p] show ?thesis unfolding f if_not_P [OF f(2)] by (simp add: deref_def)
qed

text \<open>The scripts of some databases were read and run without an error, one after the other.\<close>

fun loaded :: "('fd, 'srv) executor \<Rightarrow> string list \<Rightarrow> 'srv \<Rightarrow> 'srv \<Rightarrow> bool" where
  "loaded ex [] srv srv' \<longleftrightarrow> srv' = srv"
| "loaded ex (name # names) srv srv' \<longleftrightarrow>
     (\<exists>script srv1. load_query ex name = Some (Some script) \<and> query_server (ee_api ex) script srv = Some (True, srv1) \<and>
        loaded ex names srv1 srv')"

lemma execute_single_success:
  "execute_single ex name status srv = Some (EXIT_SUCCESS, srv') \<Longrightarrow> status = EXIT_SUCCESS \<and> loaded ex [name] srv srv'"
  by (auto simp: execute_single_def split: bind_splits option.splits if_splits)

lemma build_database_success:
  "build_database ex name status srv = Some (EXIT_SUCCESS, srv') \<Longrightarrow> status = EXIT_SUCCESS \<and> loaded ex [name] srv srv'"
  by (auto simp: build_database_def executor_locked_query_def split: bind_splits option.splits if_splits)

lemma build_databases_success:
  "build_databases ex names status srv = Some (EXIT_SUCCESS, srv') \<Longrightarrow> status = EXIT_SUCCESS \<and> loaded ex names srv srv'"
proof (induction names arbitrary: status srv)
  case (Cons name names)
  then obtain status1 srv1 where 1: "build_database ex name status srv = Some (status1, srv1)"
    "build_databases ex names status1 srv1 = Some (EXIT_SUCCESS, srv')" by (auto split: bind_splits)
  then show ?case using Cons.IH [OF 1(2)] build_database_success [of ex name status srv srv1] by auto
qed simp

lemma execute_multiple_success:
  "execute_multiple ex run names status srv = Some (EXIT_SUCCESS, srv') \<Longrightarrow> status = EXIT_SUCCESS \<and> loaded ex (fst run) srv srv'"
  using build_databases_success [of ex "fst run" EXIT_SUCCESS srv srv']
  by (auto simp: execute_multiple_def executor_shutdown_def split: bind_splits if_splits)

text \<open>
  C12: execute mode does not report a success it did not have: whatever the server answers and whichever
  calls fail, the program exits with success only if every argument after the credentials is a name a
  database can have, the program was connected, and the script of every database was read and run by
  the server without an error, once for each time it was named.
\<close>

theorem execute_success:
  assumes "execute_dispatch ex run input args = Some (EXIT_SUCCESS, out)"
    and "\<forall>creds names. execute_parse_credentials input args = Inr (creds, names) \<and> 2 \<le> length names \<longrightarrow> pool_ran names run"
  shows "\<exists>creds names order srv srv'. execute_parse_credentials input args = Inr (creds, names) \<and> names \<noteq> [] \<and>
    list_all db_named names \<and> my_connect (ee_api ex) (cr_user creds) (cr_password creds) = Some srv \<and>
    mset order = mset names \<and> loaded ex order srv srv' \<and> out = Some srv'"
proof -
  obtain creds names where c: "execute_parse_credentials input args = Inr (creds, names)"
    using assms(1) by (auto simp: execute_dispatch_def split: sum.splits if_splits)
  have n: "names \<noteq> []" using assms(1) c by (auto simp: execute_dispatch_def split: if_splits)
  let ?valid = "filter db_named names" and ?status = "if list_all db_named names then EXIT_SUCCESS else EXIT_FAILURE"
  have ne: "list_all db_named names \<Longrightarrow> ?valid \<noteq> []" using n by (simp add: list_all_iff filter_id_conv [THEN iffD2])
  have e: "mysql_seed_execute ex run creds ?valid ?status = Some (EXIT_SUCCESS, out)" and v: "?valid \<noteq> []"
    using assms(1) c execute_parse_db_names_eq [OF n] ne by (auto simp: execute_dispatch_def split: if_split_asm)
  then obtain srv srv' where s: "my_connect (ee_api ex) (cr_user creds) (cr_password creds) = Some srv" "out = Some srv'"
    "(if length ?valid = 1 then execute_single ex (hd ?valid) ?status srv else execute_multiple ex run ?valid ?status srv) =
      Some (EXIT_SUCCESS, srv')"
    by (auto simp: mysql_seed_execute_def split: bind_splits option.splits if_split_asm)
  show ?thesis
  proof (cases "length ?valid = 1")
    case True
    then have "?status = EXIT_SUCCESS \<and> loaded ex [hd ?valid] srv srv'" using s(3) execute_single_success [of ex _ ?status] by simp
    then have all: "list_all db_named names" and l: "loaded ex [hd ?valid] srv srv'" by (simp_all split: if_splits)
    from all have "?valid = names" by (simp add: list_all_iff)
    moreover from this have "[hd ?valid] = names" using True by (cases names) auto
    ultimately show ?thesis using c n all s(1,2) l by metis
  next
    case False
    then have "?status = EXIT_SUCCESS \<and> loaded ex (fst run) srv srv'" using s(3) execute_multiple_success [of ex run ?valid ?status] by simp
    then have all: "list_all db_named names" and l: "loaded ex (fst run) srv srv'" by (simp_all split: if_splits)
    from all have "?valid = names" by (simp add: list_all_iff)
    then have "2 \<le> length names" using False v by (cases names; cases "tl names") auto
    then have "mset (fst run) = mset names" using pool_ran_all assms(2) c by blast
    then show ?thesis using c n all s(1,2) l by blast
  qed
qed

theorem execute_success_witness:
  "\<exists>creds names order srv srv'. execute_parse_credentials (Some ''key'') [''-p'', ''--user=root'', ''a'', ''b''] = Inr (creds, names) \<and>
    names \<noteq> [] \<and> list_all db_named names \<and> my_connect (ee_api demo_executor) (cr_user creds) (cr_password creds) = Some srv \<and>
    mset order = mset names \<and> loaded demo_executor order srv srv'"
proof -
  let ?run = "([''b'', ''a''], Exit_Success)" and ?args = "[''-p'', ''--user=root'', ''a'', ''b'']"
  let ?c = "Password_User Password_Ask (User_Equals ''root'')"
  have p: "execute_parse_credentials (Some ''key'') ?args = Inr (credentials_of (Some ''key'') ?c, [''a'', ''b''])"
    using execute_parse_credentials_words [of "Some ''key''" ?c "[''a'', ''b'']"] by (simp add: deref_def)
  have l: "\<forall>name \<in> set [''a'', ''b'']. loadable demo_executor (\<lambda>name. ''/seed/'' @ script_text name) name"
    using demo_names by (simp add: loadable_def stores_script_def stores_file_def demo_executor_def demo_files_def)
  have ok: "calls_succeed demo_executor" by (simp add: calls_succeed_def demo_executor_def log_api_def)
  have a: "answers (ee_api demo_executor) fst snd (\<lambda>script scripts. scripts @ [script])"
    by (simp add: demo_executor_def log_api_answers)
  have conn: "my_connect (ee_api demo_executor) (cr_user (credentials_of (Some ''key'') ?c)) (cr_password (credentials_of (Some ''key'') ?c)) =
      Some (0, [])"
    by (simp add: demo_executor_def log_api_def)
  obtain srv' where "mysql_seed_execute demo_executor ?run (credentials_of (Some ''key'') ?c) [''a'', ''b''] EXIT_SUCCESS =
      Some (EXIT_SUCCESS, Some srv')"
    using mysql_seed_execute_loads [OF ok a l _ conn, of ?run EXIT_SUCCESS] demo_pool_ran by auto
  then have "execute_dispatch demo_executor ?run (Some ''key'') ?args = Some (EXIT_SUCCESS, Some srv')"
    using p demo_names ok execute_parse_db_names_eq [of "[''a'', ''b'']"] by (simp add: execute_dispatch_def calls_succeed_def)
  from execute_success [OF this] p demo_pool_ran show ?thesis by fastforce
qed

end
