(* ===== verification/Modes.thy ===== *)
theory Modes
  imports Execute
begin

text \<open>
  The modes of the program, \<open>src/mysql_seed.h\<close> and \<open>mysql_seed.c\<close>, with the mode that prints help,
  \<open>src/mysql_seed_help.h\<close>, and the mode that removes the files of databases, \<open>src/mysql_seed_remove.h\<close>
  (as compiled for POSIX). What \<open>fts_read\<close> returns is a list; the files are a set of paths. The texts
  that are printed are left out.
\<close>

section \<open>Definitions\<close>

subsection \<open>Help\<close>

datatype help_message = HELP_USAGE_MESSAGE | HELP_GENERATE_MESSAGE | HELP_EXECUTE_MESSAGE

text \<open>The message that is printed, or none for an invalid mode; \<open>printed\<close> is whether the write succeeds.\<close>

definition help_dispatch :: "(help_message \<Rightarrow> bool) \<Rightarrow> string list \<Rightarrow> help_message option \<times> exit_code" where
  "help_dispatch printed arg =
     (let help = (\<lambda>message. (Some message, if printed message then EXIT_SUCCESS else EXIT_FAILURE))
      in case arg of
           [] \<Rightarrow> help HELP_USAGE_MESSAGE
         | mode # _ \<Rightarrow>
             let mode_rem = tl mode
             in if deref mode = CHR ''g'' \<and> (mode_rem = [] \<or> strings_equal ''enerate'' mode_rem) then help HELP_GENERATE_MESSAGE
                else if deref mode = CHR ''h'' \<and> (mode_rem = [] \<or> strings_equal ''elp'' mode_rem) then help HELP_USAGE_MESSAGE
                else if deref mode = CHR ''e'' \<and> (mode_rem = [] \<or> strings_equal ''xecute'' mode_rem) then help HELP_EXECUTE_MESSAGE
                else (None, EXIT_FAILURE))"

subsection \<open>Removing files\<close>

text \<open>A path is the list of its names. \<open>FTS_OTHER\<close> is any other value of \<open>fts_info\<close>: a file or a link.\<close>

type_synonym path = "string list"

datatype fts_info = FTS_D | FTS_DP | FTS_DNR | FTS_ERR | FTS_NS | FTS_OTHER

record ftsent =
  fts_info :: fts_info
  fts_level :: nat
  fts_accpath :: path

text \<open>What a call of \<open>fts_read\<close> gives: an entry, or \<open>NULL\<close> with \<open>errno == 0\<close> or not.\<close>

datatype fts_read = Entry ftsent | No_Entry bool

definition fts_read_report :: "fts_read \<Rightarrow> bool \<times> ftsent option" where
  "fts_read_report r =
     (case r of
        No_Entry no_error \<Rightarrow> (no_error, None)
      | Entry entry \<Rightarrow> (fts_info entry \<noteq> FTS_DNR \<and> fts_info entry \<noteq> FTS_ERR \<and> fts_info entry \<noteq> FTS_NS, Some entry))"

text \<open>The files: \<open>rmdir\<close> takes a directory that is empty, \<open>unlink\<close> what is no directory.\<close>

datatype file_kind = Directory | Other

type_synonym files = "(path \<times> file_kind) set"

definition at_below :: "path \<Rightarrow> path \<Rightarrow> bool" where
  "at_below p q \<longleftrightarrow> take (length p) q = p"

definition rmdir :: "path \<Rightarrow> files \<Rightarrow> bool \<times> files" where
  "rmdir p fs =
     (if (p, Directory) \<in> fs \<and> (\<forall>(q, _) \<in> fs. at_below p q \<longrightarrow> q = p) then (True, fs - {(p, Directory)}) else (False, fs))"

definition unlink :: "path \<Rightarrow> files \<Rightarrow> bool \<times> files" where
  "unlink p fs = (if (p, Other) \<in> fs then (True, fs - {(p, Other)}) else (False, fs))"

definition reported :: "exit_code \<Rightarrow> bool \<times> files \<Rightarrow> exit_code \<times> files" where
  "reported exit_status = (\<lambda>(ok, fs). (if ok then exit_status else EXIT_FAILURE, fs))"

text \<open>The loop of \<open>mysql_seed_remove\<close>; the list is what is left to read.\<close>

fun remove_entries :: "fts_read list \<Rightarrow> exit_code \<Rightarrow> files \<Rightarrow> (exit_code \<times> files) option" where
  "remove_entries [] exit_status fs = None"
| "remove_entries (r # rs) exit_status fs =
     (case fts_read_report r of
        (False, None) \<Rightarrow> Some (EXIT_FAILURE, fs)
      | (False, Some _) \<Rightarrow> remove_entries rs EXIT_FAILURE fs
      | (True, None) \<Rightarrow> Some (exit_status, fs)
      | (True, Some entry) \<Rightarrow>
          (case fts_info entry of
             FTS_D \<Rightarrow> remove_entries rs exit_status fs
           | FTS_DP \<Rightarrow> case_prod (remove_entries rs) (reported exit_status (rmdir (fts_accpath entry) fs))
           | _ \<Rightarrow> case_prod (remove_entries rs) (reported exit_status (unlink (fts_accpath entry) fs))))"

text \<open>The loop of \<open>mysql_seed_remove_all\<close>, which follows the entry without a test for \<open>NULL\<close>.\<close>

fun remove_all_entries :: "fts_read list \<Rightarrow> exit_code \<Rightarrow> files \<Rightarrow> (exit_code \<times> files) option" where
  "remove_all_entries [] exit_status fs = None"
| "remove_all_entries (r # rs) exit_status fs =
     (case fts_read_report r of
        (False, None) \<Rightarrow> Some (EXIT_FAILURE, fs)
      | (False, Some _) \<Rightarrow> remove_all_entries rs EXIT_FAILURE fs
      | (True, None) \<Rightarrow> None
      | (True, Some entry) \<Rightarrow>
          (case fts_info entry of
             FTS_D \<Rightarrow> remove_all_entries rs exit_status fs
           | FTS_DP \<Rightarrow>
               if fts_level entry = 0 then Some (exit_status, fs)
               else case_prod (remove_all_entries rs) (reported exit_status (rmdir (fts_accpath entry) fs))
           | _ \<Rightarrow> case_prod (remove_all_entries rs) (reported exit_status (unlink (fts_accpath entry) fs))))"

text \<open>The calls: the change of the directory, \<open>fts_open\<close> with what can be read from the tree, \<open>fts_close\<close>.\<close>

record fts_api =
  ra_chdir_root :: bool
  ra_chdir_db_root :: bool
  ra_open :: "string list \<Rightarrow> fts_read list option"
  ra_close :: bool

definition mysql_seed_remove_all :: "fts_api \<Rightarrow> files \<Rightarrow> (exit_code \<times> files) option" where
  "mysql_seed_remove_all api fs =
     (if \<not> ra_chdir_root api then Some (EXIT_FAILURE, fs)
      else case ra_open api [''database''] of
        None \<Rightarrow> Some (EXIT_FAILURE, fs)
      | Some rs \<Rightarrow>
          do { (exit_status, fs) \<leftarrow> remove_all_entries rs EXIT_SUCCESS fs;
               Some (if ra_close api then exit_status else EXIT_FAILURE, fs) })"

definition mysql_seed_remove :: "fts_api \<Rightarrow> string list \<Rightarrow> files \<Rightarrow> (exit_code \<times> files) option" where
  "mysql_seed_remove api db_names fs =
     (if \<not> ra_chdir_db_root api then Some (EXIT_FAILURE, fs)
      else case ra_open api db_names of
        None \<Rightarrow> Some (EXIT_FAILURE, fs)
      | Some rs \<Rightarrow>
          do { (exit_status, fs) \<leftarrow> remove_entries rs EXIT_SUCCESS fs;
               Some (if ra_close api then exit_status else EXIT_FAILURE, fs) })"

definition remove_dispatch :: "fts_api \<Rightarrow> string list \<Rightarrow> files \<Rightarrow> (exit_code \<times> files) option" where
  "remove_dispatch api arg fs =
     (case arg of
        [] \<Rightarrow> Some (EXIT_FAILURE, fs)
      | rm_spec # _ \<Rightarrow>
          if deref rm_spec \<noteq> CHR ''-'' then mysql_seed_remove api arg fs
          else
            let rm_spec = tl rm_spec; spec_rem = tl rm_spec
            in if deref rm_spec = CHR ''-'' then
                 if strings_equal ''all'' spec_rem then mysql_seed_remove_all api fs else mysql_seed_remove api arg fs
               else if deref rm_spec = CHR ''a'' then
                 if spec_rem = [] then mysql_seed_remove_all api fs else mysql_seed_remove api arg fs
               else mysql_seed_remove api arg fs)"

subsection \<open>The modes\<close>

text \<open>The dispatch functions of the four modes and the report of a flag that is none are arguments.\<close>

definition mode_dispatch ::
  "(string list \<Rightarrow> 'r) \<Rightarrow> (string list \<Rightarrow> 'r) \<Rightarrow> (string list \<Rightarrow> 'r) \<Rightarrow> (string list \<Rightarrow> 'r) \<Rightarrow> (string \<Rightarrow> 'r) \<Rightarrow> string list \<Rightarrow> 'r option" where
  "mode_dispatch generate help execute remove invalid from =
     (case from of
        [] \<Rightarrow> None
      | flag # args \<Rightarrow>
          let arg = tl flag; flag_rem = tl arg
          in Some (
            if deref flag \<noteq> CHR ''-'' then invalid flag
            else if deref arg = CHR ''-'' then
              if deref flag_rem = CHR ''g'' then if strings_equal ''enerate'' (tl flag_rem) then generate args else invalid flag
              else if deref flag_rem = CHR ''h'' then if strings_equal ''elp'' (tl flag_rem) then help args else invalid flag
              else if deref flag_rem = CHR ''e'' then if strings_equal ''xecute'' (tl flag_rem) then execute args else invalid flag
              else if deref flag_rem = CHR ''r'' then if strings_equal ''emove'' (tl flag_rem) then remove args else invalid flag
              else invalid flag
            else if deref arg = CHR ''g'' then if flag_rem = [] then generate args else invalid flag
            else if deref arg = CHR ''h'' then if flag_rem = [] then help args else invalid flag
            else if deref arg = CHR ''e'' then if flag_rem = [] then execute args else invalid flag
            else if deref arg = CHR ''r'' then if flag_rem = [] then remove args else invalid flag
            else invalid flag))"

definition main_program ::
  "(string list \<Rightarrow> 'r) \<Rightarrow> (string list \<Rightarrow> 'r) \<Rightarrow> (string list \<Rightarrow> 'r) \<Rightarrow> (string list \<Rightarrow> 'r) \<Rightarrow> (string \<Rightarrow> 'r) \<Rightarrow> 'r \<Rightarrow>
    string list \<Rightarrow> 'r option" where
  "main_program generate help execute remove invalid no_mode argv =
     (if length argv < 2 then Some no_mode else mode_dispatch generate help execute remove invalid (tl argv))"

section \<open>The flag of a mode\<close>

lemma flag_eq:
  "deref s = c \<and> strings_equal t (tl s) \<longleftrightarrow> s = c # t" if "c \<noteq> NUL"
  using that by (cases s) (auto simp: strings_equal_eq deref_def)

lemma short_flag_eq: "deref s = c \<and> tl s = [] \<longleftrightarrow> s = [c]" if "c \<noteq> NUL"
  using that by (cases s) (auto simp: deref_def)

section \<open>Trees of files\<close>

text \<open>
  A tree of files, the entries that \<open>fts_read\<close> visits in it, the directories before and after what they
  hold, and the paths it holds.
\<close>

datatype ftree = Leaf string | Dir string "ftree list"

fun tree_name :: "ftree \<Rightarrow> string" where
  "tree_name (Leaf n) = n"
| "tree_name (Dir n ts) = n"

fun visits :: "path \<Rightarrow> nat \<Rightarrow> ftree \<Rightarrow> ftsent list" where
  "visits p l (Leaf n) = [\<lparr>fts_info = FTS_OTHER, fts_level = l, fts_accpath = p @ [n]\<rparr>]"
| "visits p l (Dir n ts) =
     \<lparr>fts_info = FTS_D, fts_level = l, fts_accpath = p @ [n]\<rparr> # concat (map (visits (p @ [n]) (l + 1)) ts) @
     [\<lparr>fts_info = FTS_DP, fts_level = l, fts_accpath = p @ [n]\<rparr>]"

fun tree_files :: "path \<Rightarrow> ftree \<Rightarrow> (path \<times> file_kind) list" where
  "tree_files p (Leaf n) = [(p @ [n], Other)]"
| "tree_files p (Dir n ts) = (p @ [n], Directory) # concat (map (tree_files (p @ [n])) ts)"

fun tree_ok :: "ftree \<Rightarrow> bool" where
  "tree_ok (Leaf n) \<longleftrightarrow> True"
| "tree_ok (Dir n ts) \<longleftrightarrow> distinct (map tree_name ts) \<and> list_all tree_ok ts"

definition forest_files :: "path \<Rightarrow> ftree list \<Rightarrow> files" where
  "forest_files p ts = set (concat (map (tree_files p) ts))"

text \<open>No file of a set lies at or below a path.\<close>

definition free_of :: "path \<Rightarrow> files \<Rightarrow> bool" where
  "free_of p fs \<longleftrightarrow> (\<forall>(q, _) \<in> fs. \<not> at_below p q)"

lemma at_below_append [simp]: "at_below p (p @ q)"
  by (simp add: at_below_def)

lemma at_below_trans: "at_below p q \<Longrightarrow> at_below q r \<Longrightarrow> at_below p r"
  by (metis at_below_def append_take_drop_id append_eq_conv_conj append.assoc)

lemma at_below_siblings: "at_below (p @ [a]) q \<Longrightarrow> at_below (p @ [b]) q \<Longrightarrow> a = b"
  by (auto simp: at_below_def)

lemma tree_files_below: "(q, k) \<in> set (tree_files p t) \<Longrightarrow> at_below (p @ [tree_name t]) q"
proof (induction p t rule: tree_files.induct)
  case (2 p n ts)
  then show ?case using at_below_trans [of "p @ [n]"] at_below_append [of "p @ [n]"] by fastforce
qed (simp add: at_below_def)

lemma free_tree: "a \<noteq> tree_name t \<Longrightarrow> free_of (p @ [a]) (set (tree_files p t))"
  using tree_files_below at_below_siblings by (fastforce simp: free_of_def)

lemma free_Un [simp]: "free_of p (A \<union> B) \<longleftrightarrow> free_of p A \<and> free_of p B"
  by (auto simp: free_of_def)

section \<open>What is removed\<close>

text \<open>The two loops agree below the first level.\<close>

lemma rmdir_empty: "free_of p R \<Longrightarrow> rmdir p (insert (p, Directory) R) = (True, R)"
  by (auto simp: rmdir_def free_of_def at_below_def)

lemma unlink_file: "free_of p R \<Longrightarrow> unlink p (insert (p, Other) R) = (True, R)"
  by (auto simp: unlink_def free_of_def at_below_def)

definition loop_removes :: "(fts_read list \<Rightarrow> exit_code \<Rightarrow> files \<Rightarrow> (exit_code \<times> files) option) \<Rightarrow> nat \<Rightarrow> bool" where
  "loop_removes loop l \<longleftrightarrow>
     (\<forall>p rs st R k. l \<le> k \<longrightarrow>
        loop (Entry \<lparr>fts_info = FTS_D, fts_level = k, fts_accpath = p\<rparr> # rs) st R = loop rs st R \<and>
        (free_of p R \<longrightarrow> loop (Entry \<lparr>fts_info = FTS_DP, fts_level = k, fts_accpath = p\<rparr> # rs) st (insert (p, Directory) R) = loop rs st R) \<and>
        (free_of p R \<longrightarrow> loop (Entry \<lparr>fts_info = FTS_OTHER, fts_level = k, fts_accpath = p\<rparr> # rs) st (insert (p, Other) R) = loop rs st R))"

lemma remove_entries_removes: "loop_removes remove_entries 0"
  by (simp add: loop_removes_def fts_read_report_def reported_def rmdir_empty unlink_file)

lemma remove_all_entries_removes: "loop_removes remove_all_entries 1"
  by (simp add: loop_removes_def fts_read_report_def reported_def rmdir_empty unlink_file)

lemma forest_files_Union: "forest_files p ts = (\<Union>t \<in> set ts. set (tree_files p t))"
  by (simp add: forest_files_def)

lemma free_of_UN [simp]: "free_of p (\<Union>x \<in> A. B x) \<longleftrightarrow> (\<forall>x \<in> A. free_of p (B x))"
  by (auto simp: free_of_def)

lemma free_of_entry: "free_of p R \<Longrightarrow> free_of (p @ [a]) (insert (p, k) R)"
  using at_below_trans [of p "p @ [a]"] by (auto simp: free_of_def at_below_def [of "p @ [a]" p])

lemma free_forest: "a \<notin> set (map tree_name ts) \<Longrightarrow> free_of (p @ [a]) (forest_files p ts)"
  using free_tree [of a _ p] by (simp add: forest_files_Union image_iff)

lemma remove_forest:
  assumes tree: "\<And>t rs R. t \<in> set ts \<Longrightarrow> free_of (p @ [tree_name t]) R \<Longrightarrow>
      loop (map Entry (visits p l t) @ rs) st (set (tree_files p t) \<union> R) = loop rs st R"
    and "distinct (map tree_name ts)" "\<forall>t \<in> set ts. free_of (p @ [tree_name t]) R"
  shows "loop (map Entry (concat (map (visits p l) ts)) @ rs) st (forest_files p ts \<union> R) = loop rs st R"
  using assms
proof (induction ts arbitrary: rs)
  case (Cons t ts)
  have "free_of (p @ [tree_name t]) (forest_files p ts \<union> R)" using Cons.prems(2,3) free_forest by simp
  then have "loop (map Entry (visits p l t) @ map Entry (concat (map (visits p l) ts)) @ rs) st
      (set (tree_files p t) \<union> (forest_files p ts \<union> R)) =
    loop (map Entry (concat (map (visits p l) ts)) @ rs) st (forest_files p ts \<union> R)"
    using Cons.prems(1) [of t] by simp
  moreover have "forest_files p (t # ts) \<union> R = set (tree_files p t) \<union> (forest_files p ts \<union> R)" by (auto simp: forest_files_def)
  ultimately show ?case using Cons.IH [of rs] Cons.prems by simp
qed (simp add: forest_files_def)

lemma remove_tree:
  assumes "loop_removes loop l0" "tree_ok t" "l0 \<le> l" "free_of (p @ [tree_name t]) R"
  shows "loop (map Entry (visits p l t) @ rs) st (set (tree_files p t) \<union> R) = loop rs st R"
  using assms(2-4)
proof (induction p l t arbitrary: R rs rule: visits.induct)
  case (1 p l n)
  then show ?case using assms(1) by (simp add: loop_removes_def)
next
  case (2 p l n ts)
  let ?d = "p @ [n]"
  let ?R = "insert (?d, Directory) R" and ?post = "Entry \<lparr>fts_info = FTS_DP, fts_level = l, fts_accpath = ?d\<rparr> # rs"
  have free: "\<forall>t \<in> set ts. free_of (?d @ [tree_name t]) ?R"
    using "2.prems"(3) by (intro ballI free_of_entry) simp
  have "loop (map Entry (concat (map (visits ?d (l + 1)) ts)) @ ?post) st (forest_files ?d ts \<union> ?R) = loop ?post st ?R"
    using 2 by (intro remove_forest free) (auto simp: list_all_iff)
  moreover have "loop ?post st ?R = loop rs st R" using assms(1) "2.prems"(2,3) by (simp add: loop_removes_def)
  moreover have "set (tree_files p (Dir n ts)) \<union> R = forest_files ?d ts \<union> ?R" by (auto simp: forest_files_def)
  ultimately show ?case using assms(1) "2.prems"(2) by (simp add: loop_removes_def)
qed

lemma remove_forest_files:
  assumes "loop_removes loop l" "distinct (map tree_name ts)" "list_all tree_ok ts" "\<forall>t \<in> set ts. free_of (p @ [tree_name t]) R"
  shows "loop (map Entry (concat (map (visits p l) ts)) @ rs) st (forest_files p ts \<union> R) = loop rs st R"
  using assms by (intro remove_forest remove_tree [OF assms(1)]) (auto simp: list_all_iff)

section \<open>Properties\<close>

text \<open>What the calls give for the trees that are there: the entries of the trees, then the end.\<close>

definition reads_trees :: "fts_api \<Rightarrow> string list \<Rightarrow> ftree list \<Rightarrow> bool" where
  "reads_trees api names ts \<longleftrightarrow>
     ra_chdir_root api \<and> ra_chdir_db_root api \<and> ra_close api \<and> map tree_name ts = names \<and> distinct names \<and> list_all tree_ok ts \<and>
     ra_open api names = Some (map Entry (concat (map (visits [] 0) ts)) @ [No_Entry True])"

definition removes_all :: "string list \<Rightarrow> bool" where
  "removes_all args \<longleftrightarrow> hd args = ''-a'' \<or> hd args = ''--all''"

lemma remove_dispatch_eq:
  "args \<noteq> [] \<Longrightarrow> remove_dispatch api args fs = (if removes_all args then mysql_seed_remove_all api fs else mysql_seed_remove api args fs)"
  using flag_eq [of "CHR ''-''" "tl (hd args)" "''all''"] short_flag_eq [of "CHR ''a''" "tl (hd args)"]
  by (cases args; cases "hd args") (auto simp: remove_dispatch_def removes_all_def Let_def deref_def strings_equal_eq simp del: strings_equal.simps)

text \<open>
  C13: remove mode takes away what it is told to and nothing else. For the names of databases whose trees
  can be read, of whatever shape, every file and directory of the trees is removed, directories after
  what they hold; with \<open>-a\<close> or \<open>--all\<close> everything in the directory of the databases is removed, but
  not that directory. The program exits with success, and the other files are untouched.
\<close>

theorem remove_trees:
  assumes "args \<noteq> []" and "reads_trees api (if removes_all args then [''database''] else args) ts"
    and "removes_all args \<longrightarrow> (\<exists>us. ts = [Dir ''database'' us])" and "\<forall>t \<in> set ts. free_of [tree_name t] R"
  shows "remove_dispatch api args (forest_files [] ts \<union> R) =
    Some (EXIT_SUCCESS, (if removes_all args then {([''database''], Directory)} else {}) \<union> R)"
proof (cases "removes_all args")
  case True
  then obtain us where us: "ts = [Dir ''database'' us]" using assms(3) by blast
  let ?d = "[''database'']"
  have t: "distinct (map tree_name us)" "list_all tree_ok us" using assms(2) by (simp_all add: reads_trees_def us)
  have f: "\<forall>t \<in> set us. free_of (?d @ [tree_name t]) (insert (?d, Directory) R)"
    using assms(4) by (intro ballI free_of_entry) (simp add: us)
  have "forest_files [] ts \<union> R = forest_files ?d us \<union> insert (?d, Directory) R" by (auto simp: us forest_files_def)
  then have "remove_all_entries (map Entry (concat (map (visits [] 0) ts)) @ [No_Entry True]) EXIT_SUCCESS (forest_files [] ts \<union> R) =
      Some (EXIT_SUCCESS, insert (?d, Directory) R)"
    using remove_forest_files [OF remove_all_entries_removes t f, of "Entry \<lparr>fts_info = FTS_DP, fts_level = 0, fts_accpath = ?d\<rparr> # [No_Entry True]"]
    by (simp add: us fts_read_report_def)
  then show ?thesis using True assms(1,2) by (simp add: remove_dispatch_eq mysql_seed_remove_all_def reads_trees_def)
next
  case False
  have "remove_entries (map Entry (concat (map (visits [] 0) ts)) @ [No_Entry True]) EXIT_SUCCESS (forest_files [] ts \<union> R) =
      Some (EXIT_SUCCESS, R)"
    using remove_forest_files [OF remove_entries_removes, of ts "[]" R] assms(2,4) by (simp add: reads_trees_def fts_read_report_def False)
  then show ?thesis using False assms(1,2) by (simp add: remove_dispatch_eq mysql_seed_remove_def reads_trees_def)
qed

definition demo_tree :: ftree where
  "demo_tree = Dir ''shop'' [Leaf ''load_shop.mysql'', Leaf ''item.csv'', Dir ''old'' [Leaf ''item.csv'']]"

definition demo_fts :: "ftree \<Rightarrow> fts_api" where
  "demo_fts t =
     \<lparr>ra_chdir_root = True, ra_chdir_db_root = True, ra_open = (\<lambda>names. Some (map Entry (visits [] 0 t) @ [No_Entry True])), ra_close = True\<rparr>"

theorem remove_trees_witness:
  "remove_dispatch (demo_fts demo_tree) [''shop''] (forest_files [] [demo_tree] \<union> {([''forum''], Directory)}) =
     Some (EXIT_SUCCESS, {([''forum''], Directory)}) \<and>
   remove_dispatch (demo_fts (Dir ''database'' [demo_tree])) [''--all'']
     (forest_files [] [Dir ''database'' [demo_tree]] \<union> {([''README''], Other)}) =
     Some (EXIT_SUCCESS, {([''database''], Directory), ([''README''], Other)})"
proof
  have "reads_trees (demo_fts demo_tree) [''shop''] [demo_tree]" by (simp add: reads_trees_def demo_fts_def demo_tree_def)
  then show "remove_dispatch (demo_fts demo_tree) [''shop''] (forest_files [] [demo_tree] \<union> {([''forum''], Directory)}) =
     Some (EXIT_SUCCESS, {([''forum''], Directory)})"
    using remove_trees [of "[''shop'']" "demo_fts demo_tree" "[demo_tree]" "{([''forum''], Directory)}"]
    by (simp add: removes_all_def free_of_def at_below_def demo_tree_def)
  let ?t = "Dir ''database'' [demo_tree]"
  have "reads_trees (demo_fts ?t) [''database''] [?t]" by (simp add: reads_trees_def demo_fts_def demo_tree_def)
  then show "remove_dispatch (demo_fts ?t) [''--all''] (forest_files [] [?t] \<union> {([''README''], Other)}) =
     Some (EXIT_SUCCESS, {([''database''], Directory), ([''README''], Other)})"
    using remove_trees [of "[''--all'']" "demo_fts ?t" "[?t]" "{([''README''], Other)}"]
    by (simp add: removes_all_def free_of_def at_below_def demo_tree_def insert_commute)
qed

text \<open>
  Without a directory of databases the traversal has one entry, whose \<open>stat\<close> failed, and then none: the
  mode that removes all follows the pointer \<open>NULL\<close>.
\<close>

lemma remove_all_missing:
  "remove_all_entries [Entry \<lparr>fts_info = FTS_NS, fts_level = 0, fts_accpath = [''database'']\<rparr>, No_Entry True] EXIT_SUCCESS fs = None"
  by (simp add: fts_read_report_def)

text \<open>The flags of the modes.\<close>

lemma main_program_modes:
  "main_program generate help execute remove invalid no_mode (program # args) =
     Some (case args of
             [] \<Rightarrow> no_mode
           | flag # args \<Rightarrow>
               if flag = ''-g'' \<or> flag = ''--generate'' then generate args
               else if flag = ''-h'' \<or> flag = ''--help'' then help args
               else if flag = ''-e'' \<or> flag = ''--execute'' then execute args
               else if flag = ''-r'' \<or> flag = ''--remove'' then remove args
               else invalid flag)"
  by (cases args; cases "hd args"; cases "tl (hd args)"; cases "tl (tl (hd args))") (auto simp: main_program_def mode_dispatch_def Let_def deref_def strings_equal_eq)

end
